(* ===== verification/Prelude.thy ===== *)
theory Prelude
  imports Complex_Main "HOL-Library.Word" "HOL-Library.Monad_Syntax" "HOL-Library.Signed_Division"
begin

text \<open>
  Shared vocabulary of the development: the memory model for the C programs, the
  collections of rewrite rules the component proofs use, and a few lemmas on lists.

  A pointer is a natural number, \<open>NULL\<close> is \<open>0\<close>, and the objects of one struct type live in
  a partial map from pointers to records. Reading a field (\<open>fld\<close>) and writing one (\<open>setf\<close>)
  are the two memory accesses; both are undefined (\<open>None\<close>) at \<open>NULL\<close> and at an address that
  holds no object. An operation of the source that dereferences a bad pointer therefore
  returns \<open>None\<close>, and a theorem that an operation returns \<open>Some\<close> states its memory safety.
\<close>

section \<open>Pointers, heaps and fields\<close>

type_synonym ptr = nat

abbreviation NULL :: ptr where
  "NULL \<equiv> 0"

type_synonym 'a heap = "ptr \<rightharpoonup> 'a"

definition alloc :: "'a heap \<Rightarrow> ptr set" where
  "alloc h = {p. p \<noteq> NULL \<and> h p \<noteq> None}"

definition fld :: "('a \<Rightarrow> 'b) \<Rightarrow> 'a heap \<Rightarrow> ptr \<Rightarrow> 'b option" where
  "fld f h p = (if p = NULL then None else map_option f (h p))"

definition hset :: "(('b \<Rightarrow> 'b) \<Rightarrow> 'a \<Rightarrow> 'a) \<Rightarrow> 'a heap \<Rightarrow> ptr \<Rightarrow> 'b \<Rightarrow> 'a heap" where
  "hset u h p v = h(p := map_option (u (\<lambda>_. v)) (h p))"

definition setf :: "(('b \<Rightarrow> 'b) \<Rightarrow> 'a \<Rightarrow> 'a) \<Rightarrow> 'a heap \<Rightarrow> ptr \<Rightarrow> 'b \<Rightarrow> 'a heap option" where
  "setf u h p v = (if p = NULL \<or> h p = None then None else Some (hset u h p v))"

text \<open>\<open>heap_frame A h h'\<close>: between \<open>h\<close> and \<open>h'\<close> only objects at the addresses \<open>A\<close> changed,
  and nothing was allocated or freed.\<close>

definition heap_frame :: "ptr set \<Rightarrow> 'a heap \<Rightarrow> 'a heap \<Rightarrow> bool" where
  "heap_frame A h h' \<longleftrightarrow> alloc h' = alloc h \<and> (\<forall>a. a \<notin> A \<longrightarrow> h' a = h a)"

text \<open>\<open>same_upto u h h'\<close>: the heaps agree on what the normaliser \<open>u\<close> keeps of an object, the way
  to say that only certain fields were written.\<close>

definition same_upto :: "('a \<Rightarrow> 'a) \<Rightarrow> 'a heap \<Rightarrow> 'a heap \<Rightarrow> bool" where
  "same_upto u h h' \<longleftrightarrow> (\<forall>a. map_option u (h' a) = map_option u (h a))"

text \<open>A loop whose body may fail.\<close>

fun foldM :: "('s \<Rightarrow> 'a \<Rightarrow> 's option) \<Rightarrow> 's \<Rightarrow> 'a list \<Rightarrow> 's option" where
  "foldM f s [] = Some s"
| "foldM f s (x # xs) = do { s \<leftarrow> f s x; foldM f s xs }"

section \<open>C integers\<close>

text \<open>A C \<open>int\<close> or \<open>long\<close> is a HOL \<open>int\<close> where the source keeps it in range (overflow of a
  signed integer is undefined in C); a conversion that may lose bits is written out. Unsigned
  types are words. \<open>sdiv\<close> and \<open>smod\<close> are C's truncating division and remainder.\<close>

definition int_of_long :: "int \<Rightarrow> int" where
  "int_of_long x = (x + 2 ^ 31) mod 2 ^ 32 - 2 ^ 31"

section \<open>Error numbers\<close>

text \<open>The \<open>errno\<close> values the sources return. A result \<open>Inl e\<close> stands for Pth's
  \<open>pth_error(FALSE, e)\<close> and for the kernel's \<open>return -e\<close>.\<close>

datatype errno =
    EPERM | ENOENT | EINTR | EIO | EAGAIN | ENOMEM | EACCES | EFAULT | EBUSY | EEXIST
  | ENOTDIR | EINVAL | ENOTTY | ENOSPC | EMLINK | ENAMETOOLONG | ENOTEMPTY | ENOBUFS
  | ENOTSUP | EDEADLK | ESTALE | ESRCH | ENODATA | ERANGE | EDQUOT | ENOIOCTLCMD | EROFS

section \<open>Collections of rules\<close>

named_theorems mem_simps
  \<open>evaluation of field reads and writes on the heap\<close>

named_theorems rep_simps
  \<open>what a representation predicate says of the pointers it describes\<close>

section \<open>Evaluating memory accesses\<close>

lemma fld_Some_alloc: "fld f h p = Some v \<Longrightarrow> p \<in> alloc h"
  by (auto simp: fld_def alloc_def split: if_splits)

lemma alloc_fld: "p \<in> alloc h \<Longrightarrow> \<exists>v. fld f h p = Some v"
  by (auto simp: fld_def alloc_def)

lemma fld_None [mem_simps]: "fld f h p = None \<longleftrightarrow> p \<notin> alloc h"
  by (auto simp: fld_def alloc_def)

lemma fld_NULL [simp]: "fld f h 0 = None"
  by (simp add: fld_def)

lemma NULL_not_alloc [simp]: "0 \<notin> alloc h"
  by (simp add: alloc_def)

lemma alloc_not_NULL [mem_simps]: "p \<in> alloc h \<Longrightarrow> p \<noteq> 0"
  by (metis NULL_not_alloc)

lemma alloc_pos [mem_simps]: "p \<in> alloc h \<Longrightarrow> 0 < p"
  by (rule gr0I) simp

lemma setf_alloc [mem_simps]: "p \<in> alloc h \<Longrightarrow> setf u h p v = Some (hset u h p v)"
  by (auto simp: setf_def alloc_def)

lemma setf_NULL [simp]: "setf u h 0 v = None"
  by (simp add: setf_def)

lemma alloc_hset [simp]: "alloc (hset u h p v) = alloc h"
  by (auto simp: hset_def alloc_def)

lemma fld_hset_same [mem_simps]:
  "p \<in> alloc h \<Longrightarrow> (\<And>x. f (u (\<lambda>_. v) x) = v) \<Longrightarrow> fld f (hset u h p v) = (fld f h)(p \<mapsto> v)"
  by (rule ext) (auto simp: fld_def hset_def alloc_def)

lemma fld_hset_other [mem_simps]:
  "(\<And>x. f (u (\<lambda>_. v) x) = f x) \<Longrightarrow> fld f (hset u h p v) = fld f h"
  by (rule ext) (auto simp: fld_def hset_def option.map_comp comp_def)

lemma hset_other [mem_simps]: "q \<noteq> p \<Longrightarrow> hset u h p v q = h q"
  by (simp add: hset_def)

lemma heap_frame_refl [simp]: "heap_frame A h h"
  by (simp add: heap_frame_def)

lemma heap_frame_hset [simp]: "heap_frame A h h' \<Longrightarrow> p \<in> A \<Longrightarrow> heap_frame A h (hset u h' p v)"
  by (auto simp: heap_frame_def hset_def alloc_def)

lemma heap_frame_trans: "heap_frame A h h' \<Longrightarrow> heap_frame A h' h'' \<Longrightarrow> heap_frame A h h''"
  by (simp add: heap_frame_def)

lemma heap_frame_mono: "heap_frame A h h' \<Longrightarrow> A \<subseteq> B \<Longrightarrow> heap_frame B h h'"
  by (auto simp: heap_frame_def)

lemma heap_frame_alloc: "heap_frame A h h' \<Longrightarrow> alloc h' = alloc h"
  by (simp add: heap_frame_def)

lemma heap_frame_fld: "heap_frame A h h' \<Longrightarrow> a \<notin> A \<Longrightarrow> fld f h' a = fld f h a"
  by (simp add: heap_frame_def fld_def)

lemma same_upto_refl [simp]: "same_upto u h h"
  by (simp add: same_upto_def)

lemma same_upto_trans: "same_upto u h h' \<Longrightarrow> same_upto u h' h'' \<Longrightarrow> same_upto u h h''"
  by (simp add: same_upto_def)

lemma same_upto_hset [simp]:
  "same_upto u h h' \<Longrightarrow> (\<And>x. u (w (\<lambda>_. v) x) = u x) \<Longrightarrow> same_upto u h (hset w h' p v)"
  by (simp add: same_upto_def hset_def option.map_comp comp_def)

lemma same_upto_fld:
  assumes "same_upto u h h'" and "\<And>x. f (u x) = f x"
  shows "fld f h' = fld f h"
proof
  fix a
  have "map_option f (h' a) = map_option f (map_option u (h' a))"
    by (simp add: option.map_comp comp_def assms(2))
  also have "\<dots> = map_option f (map_option u (h a))"
    using assms(1) by (simp add: same_upto_def)
  also have "\<dots> = map_option f (h a)" by (simp add: option.map_comp comp_def assms(2))
  finally show "fld f h' a = fld f h a" by (simp add: fld_def)
qed

section \<open>Integers\<close>

lemma int_of_long_id [simp]: "- (2 ^ 31) \<le> x \<Longrightarrow> x < 2 ^ 31 \<Longrightarrow> int_of_long x = x"
  by (simp add: int_of_long_def)

lemma sdiv_nonneg: "0 \<le> a \<Longrightarrow> 0 \<le> b \<Longrightarrow> a sdiv b = a div (b::int)"
  by (cases "a = 0"; cases "b = 0") (simp_all add: signed_divide_int_def)

lemma smod_nonneg: "0 \<le> a \<Longrightarrow> 0 \<le> b \<Longrightarrow> a smod b = a mod (b::int)"
  by (cases "a = 0"; cases "b = 0") (simp_all add: signed_modulo_int_def)

lemma mod_neg:
  fixes x M :: int
  assumes "- M \<le> x" and "x < 0"
  shows "x mod M = x + M"
proof -
  have "(x + M) mod M = x + M" using assms by (intro mod_pos_pos_trivial) auto
  then show ?thesis by simp
qed

section \<open>Flag words\<close>

text \<open>\<open>_BIT(n)\<close> of the sources, and the test of a flag.\<close>

definition BIT :: "nat \<Rightarrow> 'a::len word" where
  "BIT n = 2 ^ n"

definition has :: "'a::len word \<Rightarrow> 'a word \<Rightarrow> bool" where
  "has w f \<longleftrightarrow> and w f \<noteq> 0"

named_theorems flag_simps
  \<open>which flags a flag word holds\<close>

lemma has_BIT [flag_simps]: "has w (BIT n) \<longleftrightarrow> bit w n"
  by (simp add: has_def BIT_def and_exp_eq_0_iff_not_bit)

lemma bit_BIT [flag_simps]: "bit (BIT m :: 'a::len word) n \<longleftrightarrow> n = m \<and> n < LENGTH('a)"
  by (auto simp: BIT_def bit_simps)

lemmas bit_set [flag_simps] = bit_or_iff

lemma bit_clear [flag_simps]:
  "bit (and w (not (BIT m)) :: 'a::len word) n \<longleftrightarrow> bit w n \<and> n \<noteq> m"
  by (auto simp: bit_and_iff bit_not_iff bit_BIT dest: bit_imp_le_length)

section \<open>Lists\<close>

lemma split_at_last: "xs \<noteq> [] \<Longrightarrow> \<exists>ys y. xs = ys @ [y]"
  by (metis append_butlast_last_id)

lemma set_butlast_snoc: "set (butlast (xs @ [y])) = set xs"
  by simp

lemma distinct_middle: "distinct (xs @ y # ys) \<longleftrightarrow> distinct (xs @ ys) \<and> y \<notin> set xs \<union> set ys"
  by auto

end
