(* ===== verification/Circular.thy ===== *)
theory Circular
  imports Prelude
begin

text \<open>
  Circular doubly linked lists over a pair of link fields, the shape that both the ring of
  pth_ring.c and the thread queue of pth_pqueue.c give their nodes. The predicate
  \<open>cdll n p xs\<close> says that the \<open>next\<close> field \<open>n\<close> and the \<open>prev\<close> field \<open>p\<close> chain the nodes of
  \<open>xs\<close> into one cycle in this order. The lemmas here are about the two field maps only; the
  components instantiate them with the fields of their own structs.
\<close>

section \<open>The chain predicate\<close>

fun links :: "(ptr \<rightharpoonup> ptr) \<Rightarrow> (ptr \<rightharpoonup> ptr) \<Rightarrow> ptr list \<Rightarrow> bool" where
  "links n p (a # b # cs) \<longleftrightarrow> n a = Some b \<and> p b = Some a \<and> links n p (b # cs)"
| "links n p _ \<longleftrightarrow> True"

definition cdll :: "(ptr \<rightharpoonup> ptr) \<Rightarrow> (ptr \<rightharpoonup> ptr) \<Rightarrow> ptr list \<Rightarrow> bool" where
  "cdll n p xs \<longleftrightarrow> distinct xs \<and> NULL \<notin> set xs \<and> (xs \<noteq> [] \<longrightarrow> links n p (xs @ [hd xs]))"

section \<open>Chains\<close>

lemma links_append:
  "links n p (xs @ y # zs) \<longleftrightarrow> links n p (xs @ [y]) \<and> links n p (y # zs)"
proof (induction xs)
  case (Cons x xs)
  then show ?case by (cases xs) auto
qed simp

lemmas links_appendD = links_append [THEN iffD1]
lemmas links_appendI = links_append [THEN iffD2, OF conjI]

lemma links_cong:
  assumes "\<And>a. a \<in> set (butlast xs) \<Longrightarrow> n' a = n a"
    and "\<And>a. a \<in> set (tl xs) \<Longrightarrow> p' a = p a"
  shows "links n' p' xs \<longleftrightarrow> links n p xs"
  using assms
proof (induction n p xs rule: links.induct)
  case (1 n p a b cs)
  then have "links n' p' (b # cs) \<longleftrightarrow> links n p (b # cs)"
    by (cases cs) auto
  then show ?case using 1 by simp
qed auto

section \<open>Cycles\<close>

lemma cdll_Nil [simp]: "cdll n p []"
  by (simp add: cdll_def)

lemma cdll_distinct: "cdll n p xs \<Longrightarrow> distinct xs"
  by (simp add: cdll_def)

lemma cdll_not_NULL: "cdll n p xs \<Longrightarrow> a \<in> set xs \<Longrightarrow> a \<noteq> NULL"
  unfolding cdll_def by metis

lemma cdll_rotate:
  assumes "cdll n p (xs @ ys)"
  shows "cdll n p (ys @ xs)"
proof (cases "xs = [] \<or> ys = []")
  case True
  with assms show ?thesis by auto
next
  case False
  then obtain x xs' y ys' where e: "xs = x # xs'" "ys = y # ys'"
    by (metis list.exhaust)
  from assms have "links n p ((xs @ ys) @ [x])"
    by (simp add: cdll_def e)
  then have "links n p (xs @ y # ys' @ [x])" by (simp add: e)
  note both = links_appendD [OF this]
  have "links n p ((y # ys') @ [x])" using both by simp
  moreover have "links n p (x # xs' @ [y])" using both by (simp add: e)
  ultimately have "links n p ((y # ys') @ x # (xs' @ [y]))" by (rule links_appendI)
  with assms show ?thesis by (auto simp: cdll_def e)
qed

lemma cdll_rotate_iff: "cdll n p (xs @ ys) \<longleftrightarrow> cdll n p (ys @ xs)"
  using cdll_rotate by blast

lemma cdll_step:
  assumes "cdll n p (as @ a # b # bs)"
  shows "n a = Some b" and "p b = Some a"
proof -
  from assms have "links n p (as @ a # (b # bs @ [hd (as @ [a])]))"
    by (cases as) (simp_all add: cdll_def)
  from links_appendD [OF this] have "links n p (a # b # bs @ [hd (as @ [a])])" by blast
  then show "n a = Some b" and "p b = Some a" by simp_all
qed

lemma cdll_last:
  assumes "cdll n p xs" and "xs \<noteq> []"
  shows "n (last xs) = Some (hd xs)" and "p (hd xs) = Some (last xs)"
proof -
  from assms(2) obtain ys y where e: "xs = ys @ [y]" using split_at_last by blast
  from assms have "links n p (ys @ y # [hd xs])" by (simp add: cdll_def e)
  from links_appendD [OF this] have "links n p [y, hd xs]" by blast
  then show "n (last xs) = Some (hd xs)" and "p (hd xs) = Some (last xs)"
    by (simp_all add: e)
qed

lemma cdll_next_in:
  assumes "cdll n p xs" and "a \<in> set xs"
  shows "\<exists>b \<in> set xs. n a = Some b"
proof -
  from assms(2) obtain as bs where e: "xs = as @ a # bs" by (meson split_list)
  show ?thesis
  proof (cases bs)
    case Nil
    with e assms(1) cdll_last(1) [of n p xs] show ?thesis
      by (cases as) auto
  next
    case (Cons b bs')
    with e assms(1) cdll_step(1) [of n p as a b bs'] show ?thesis by auto
  qed
qed

lemma cdll_prev_in:
  assumes "cdll n p xs" and "a \<in> set xs"
  shows "\<exists>b \<in> set xs. p a = Some b"
proof -
  from assms(2) obtain as bs where e: "xs = as @ a # bs" by (meson split_list)
  show ?thesis
  proof (cases as rule: rev_cases)
    case Nil
    with e assms(1) cdll_last(2) [of n p xs] show ?thesis by auto
  next
    case (snoc as' c)
    with e assms(1) cdll_step(2) [of n p as' c a bs] show ?thesis by auto
  qed
qed

lemma cdll_cong:
  assumes "\<And>a. a \<in> set xs \<Longrightarrow> n' a = n a" and "\<And>a. a \<in> set xs \<Longrightarrow> p' a = p a"
  shows "cdll n' p' xs \<longleftrightarrow> cdll n p xs"
proof (cases "xs = []")
  case False
  then have "set (butlast (xs @ [hd xs])) = set xs" "set (tl (xs @ [hd xs])) \<subseteq> set xs"
    by (cases xs; auto)+
  then have "links n' p' (xs @ [hd xs]) \<longleftrightarrow> links n p (xs @ [hd xs])"
    by (intro links_cong) (use assms in auto)
  then show ?thesis by (simp add: cdll_def)
qed simp

section \<open>Adding and removing a node\<close>

text \<open>A node is always added or removed at the end of the list; the other positions are the
  same cycle seen from another node, by \<open>cdll_rotate\<close>.\<close>

lemma cdll_singleton:
  "t \<noteq> NULL \<Longrightarrow> n t = Some t \<Longrightarrow> p t = Some t \<Longrightarrow> cdll n p [t]"
  by (simp add: cdll_def)

lemma cdll_add:
  assumes c: "cdll n p xs" and ne: "xs \<noteq> []" and t: "t \<notin> set xs" "t \<noteq> NULL"
  shows "cdll (n(t \<mapsto> hd xs, last xs \<mapsto> t)) (p(t \<mapsto> last xs, hd xs \<mapsto> t)) (xs @ [t])"
proof -
  let ?n = "n(t \<mapsto> hd xs, last xs \<mapsto> t)" and ?p = "p(t \<mapsto> last xs, hd xs \<mapsto> t)"
  from ne obtain ys y where e: "xs = ys @ [y]" using split_at_last by blast
  from c have d: "distinct xs" by (simp add: cdll_def)
  from c ne have "links n p (ys @ y # [hd xs])" by (simp add: cdll_def e)
  from links_appendD [OF this] have old: "links n p (ys @ [y])" by blast
  have "links ?n ?p (ys @ [y])"
  proof (subst links_cong [where n = n and p = p])
    fix a assume "a \<in> set (butlast (ys @ [y]))"
    then show "?n a = n a" using d t e by auto
  next
    fix a assume "a \<in> set (tl (ys @ [y]))"
    then show "?p a = p a" using d t e by (cases ys) auto
  qed (rule old)
  moreover have "links ?n ?p [y, t, hd xs]"
    using t e by (cases ys) auto
  ultimately have "links ?n ?p (ys @ y # [t, hd xs])"
    by (rule links_appendI)
  moreover have "distinct (xs @ [t])" "NULL \<notin> set (xs @ [t])"
    using d t c by (auto simp: cdll_def)
  ultimately show ?thesis by (cases ys) (simp_all add: cdll_def e)
qed

lemma cdll_remove:
  assumes c: "cdll n p (xs @ [t])" and ne: "xs \<noteq> []"
  shows "cdll (n(last xs \<mapsto> hd xs)) (p(hd xs \<mapsto> last xs)) xs"
proof -
  let ?n = "n(last xs \<mapsto> hd xs)" and ?p = "p(hd xs \<mapsto> last xs)"
  from ne obtain ys y where e: "xs = ys @ [y]" using split_at_last by blast
  from c have d: "distinct xs" by (simp add: cdll_def)
  from c have "links n p (ys @ y # [t, hd xs])" by (cases ys) (simp_all add: cdll_def e)
  from links_appendD [OF this] have old: "links n p (ys @ [y])" by blast
  have "links ?n ?p (ys @ [y])"
  proof (subst links_cong [where n = n and p = p])
    fix a assume "a \<in> set (butlast (ys @ [y]))"
    then show "?n a = n a" using d e by auto
  next
    fix a assume "a \<in> set (tl (ys @ [y]))"
    then show "?p a = p a" using d e by (cases ys) auto
  qed (rule old)
  moreover have "links ?n ?p [y, hd xs]" using e by simp
  ultimately have "links ?n ?p (ys @ y # [hd xs])"
    by (rule links_appendI)
  then show ?thesis using c e by (auto simp: cdll_def)
qed

text \<open>The same at any position of the cycle.\<close>

lemma cdll_insert:
  assumes c: "cdll n p (as @ c # bs)" and t: "t \<notin> set (as @ c # bs)" "t \<noteq> NULL"
    and d: "d = hd (bs @ as @ [c])"
  shows "cdll (n(t \<mapsto> d, c \<mapsto> t)) (p(t \<mapsto> c, d \<mapsto> t)) (as @ c # t # bs)"
proof -
  from cdll_rotate [of n p "as @ [c]" bs] c have "cdll n p (bs @ as @ [c])" by simp
  from cdll_add [OF this _ _ t(2)] t(1) d
  have "cdll (n(t \<mapsto> d, c \<mapsto> t)) (p(t \<mapsto> c, d \<mapsto> t)) (bs @ (as @ [c, t]))" by simp
  from cdll_rotate [OF this] show ?thesis by simp
qed

lemma cdll_neighbours:
  assumes c: "cdll n p (as @ t # bs)"
  shows "n t = Some (hd (bs @ as @ [t]))" and "p t = Some (last (t # bs @ as))"
proof -
  from cdll_rotate [OF c] have 1: "cdll n p (t # bs @ as)" by simp
  from cdll_last(2) [OF 1] show "p t = Some (last (t # bs @ as))" by simp
  from cdll_rotate [of n p "[t]" "bs @ as"] 1 have "cdll n p ((bs @ as) @ [t])" by simp
  from cdll_last(1) [OF this] show "n t = Some (hd (bs @ as @ [t]))" by simp
qed

lemma cdll_delete:
  assumes c: "cdll n p (as @ t # bs)" and ne: "as @ bs \<noteq> []"
    and d: "d = hd (bs @ as)" "e = last (bs @ as)"
  shows "cdll (n(e \<mapsto> d)) (p(d \<mapsto> e)) (as @ bs)"
proof -
  from cdll_rotate [OF c] cdll_rotate [of n p "[t]" "bs @ as"]
  have "cdll n p ((bs @ as) @ [t])" by simp
  from cdll_remove [OF this] ne d have "cdll (n(e \<mapsto> d)) (p(d \<mapsto> e)) (bs @ as)" by auto
  from cdll_rotate [OF this] show ?thesis by simp
qed

lemma cdll_alloc:
  assumes "cdll (fld f h) p xs" and "a \<in> set xs"
  shows "a \<in> alloc h"
  using cdll_next_in [OF assms] by (auto intro: fld_Some_alloc)

end
