(* ===== verification/Ring.thy ===== *)
theory Ring
  imports Circular
begin

text \<open>
  The ring of a1/pth-2.0.7/pth_ring.c: a set of nodes chained through link fields that are
  part of the nodes. The definitions follow the C functions assignment by assignment on a
  heap of \<open>pth_ringnode_t\<close>; \<open>ring_rep h r xs\<close> is the abstract view, the list of the nodes
  from the hook on. A \<open>pth_ring_t *\<close> argument is a \<open>pth_ring option\<close>, with \<open>None\<close> for a null
  pointer. The locale \<open>node_queue\<close> states what the users of a ring rely on (message ports,
  the mutexes of a thread) and is interpreted on the definitions below.
\<close>

section \<open>The data structure\<close>

record pth_ringnode =
  rn_next :: ptr
  rn_prev :: ptr

record pth_ring =
  r_hook :: ptr
  r_nodes :: "32 word"

type_synonym ring_heap = "pth_ringnode heap"

definition pth_ring_init :: "pth_ring option \<Rightarrow> pth_ring option" where
  "pth_ring_init r = map_option (\<lambda>r. r\<lparr>r_hook := NULL, r_nodes := 0\<rparr>) r"

definition pth_ring_elements :: "pth_ring option \<Rightarrow> 32 word" where
  "pth_ring_elements r = (case r of None \<Rightarrow> -1 | Some r \<Rightarrow> r_nodes r)"

definition pth_ring_first :: "pth_ring option \<Rightarrow> ptr" where
  "pth_ring_first r = (case r of None \<Rightarrow> NULL | Some r \<Rightarrow> r_hook r)"

definition pth_ring_last :: "ring_heap \<Rightarrow> pth_ring option \<Rightarrow> ptr option" where
  "pth_ring_last h r =
     (case r of None \<Rightarrow> Some NULL
      | Some r \<Rightarrow> if r_hook r = NULL then Some NULL else fld rn_prev h (r_hook r))"

definition pth_ring_next :: "ring_heap \<Rightarrow> pth_ring option \<Rightarrow> ptr \<Rightarrow> ptr option" where
  "pth_ring_next h r rn =
     (case r of None \<Rightarrow> Some NULL
      | Some r \<Rightarrow>
          if rn = NULL then Some NULL
          else do {
            nx \<leftarrow> fld rn_next h rn;
            Some (if nx = r_hook r then NULL else nx)
          })"

definition pth_ring_prev :: "ring_heap \<Rightarrow> pth_ring option \<Rightarrow> ptr \<Rightarrow> ptr option" where
  "pth_ring_prev h r rn =
     (case r of None \<Rightarrow> Some NULL
      | Some r \<Rightarrow>
          if rn = NULL then Some NULL
          else do {
            pv \<leftarrow> fld rn_prev h rn;
            hpv \<leftarrow> fld rn_prev h (r_hook r);
            Some (if pv = hpv then NULL else pv)
          })"

section \<open>Operations\<close>

definition pth_ring_insert_after ::
  "ring_heap \<Rightarrow> pth_ring option \<Rightarrow> ptr \<Rightarrow> ptr \<Rightarrow> (ring_heap \<times> pth_ring option) option" where
  "pth_ring_insert_after h r rn1 rn2 =
     (case r of None \<Rightarrow> Some (h, None)
      | Some r \<Rightarrow>
          if rn1 = NULL \<or> rn2 = NULL then Some (h, Some r)
          else do {
            h \<leftarrow> setf rn_prev_update h rn2 rn1;
            nx \<leftarrow> fld rn_next h rn1;
            h \<leftarrow> setf rn_next_update h rn2 nx;
            pv \<leftarrow> fld rn_prev h rn2;
            h \<leftarrow> setf rn_next_update h pv rn2;
            nx \<leftarrow> fld rn_next h rn2;
            h \<leftarrow> setf rn_prev_update h nx rn2;
            Some (h, Some (r\<lparr>r_nodes := r_nodes r + 1\<rparr>))
          })"

definition pth_ring_insert_before ::
  "ring_heap \<Rightarrow> pth_ring option \<Rightarrow> ptr \<Rightarrow> ptr \<Rightarrow> (ring_heap \<times> pth_ring option) option" where
  "pth_ring_insert_before h r rn1 rn2 =
     (case r of None \<Rightarrow> Some (h, None)
      | Some r \<Rightarrow>
          if rn1 = NULL \<or> rn2 = NULL then Some (h, Some r)
          else do {
            h \<leftarrow> setf rn_next_update h rn2 rn1;
            pv \<leftarrow> fld rn_prev h rn1;
            h \<leftarrow> setf rn_prev_update h rn2 pv;
            pv \<leftarrow> fld rn_prev h rn2;
            h \<leftarrow> setf rn_next_update h pv rn2;
            nx \<leftarrow> fld rn_next h rn2;
            h \<leftarrow> setf rn_prev_update h nx rn2;
            Some (h, Some (r\<lparr>r_nodes := r_nodes r + 1\<rparr>))
          })"

definition pth_ring_delete ::
  "ring_heap \<Rightarrow> pth_ring option \<Rightarrow> ptr \<Rightarrow> (ring_heap \<times> pth_ring option) option" where
  "pth_ring_delete h r rn =
     (case r of None \<Rightarrow> Some (h, None)
      | Some r \<Rightarrow>
          if rn = NULL then Some (h, Some r)
          else do {
            pv \<leftarrow> fld rn_prev h rn;
            nx \<leftarrow> fld rn_next h rn;
            (h, r) \<leftarrow>
              (if r_hook r = rn \<and> pv = rn \<and> nx = rn
               then Some (h, r\<lparr>r_hook := NULL\<rparr>)
               else do {
                 let r = (if r_hook r = rn then r\<lparr>r_hook := nx\<rparr> else r);
                 h \<leftarrow> setf rn_next_update h pv nx;
                 nx \<leftarrow> fld rn_next h rn;
                 pv \<leftarrow> fld rn_prev h rn;
                 h \<leftarrow> setf rn_prev_update h nx pv;
                 Some (h, r)
               });
            Some (h, Some (r\<lparr>r_nodes := r_nodes r - 1\<rparr>))
          })"

definition pth_ring_prepend ::
  "ring_heap \<Rightarrow> pth_ring option \<Rightarrow> ptr \<Rightarrow> (ring_heap \<times> pth_ring option) option" where
  "pth_ring_prepend h r rn =
     (case r of None \<Rightarrow> Some (h, None)
      | Some r \<Rightarrow>
          if rn = NULL then Some (h, Some r)
          else do {
            (h, r) \<leftarrow>
              (if r_hook r = NULL
               then do {
                 let r = r\<lparr>r_hook := rn\<rparr>;
                 h \<leftarrow> setf rn_next_update h rn rn;
                 h \<leftarrow> setf rn_prev_update h rn rn;
                 Some (h, r)
               }
               else do {
                 h \<leftarrow> setf rn_next_update h rn (r_hook r);
                 pv \<leftarrow> fld rn_prev h (r_hook r);
                 h \<leftarrow> setf rn_prev_update h rn pv;
                 nx \<leftarrow> fld rn_next h rn;
                 h \<leftarrow> setf rn_prev_update h nx rn;
                 pv \<leftarrow> fld rn_prev h rn;
                 h \<leftarrow> setf rn_next_update h pv rn;
                 Some (h, r\<lparr>r_hook := rn\<rparr>)
               });
            Some (h, Some (r\<lparr>r_nodes := r_nodes r + 1\<rparr>))
          })"

definition pth_ring_append ::
  "ring_heap \<Rightarrow> pth_ring option \<Rightarrow> ptr \<Rightarrow> (ring_heap \<times> pth_ring option) option" where
  "pth_ring_append h r rn =
     (case r of None \<Rightarrow> Some (h, None)
      | Some r \<Rightarrow>
          if rn = NULL then Some (h, Some r)
          else do {
            (h, r) \<leftarrow>
              (if r_hook r = NULL
               then do {
                 let r = r\<lparr>r_hook := rn\<rparr>;
                 h \<leftarrow> setf rn_next_update h rn rn;
                 h \<leftarrow> setf rn_prev_update h rn rn;
                 Some (h, r)
               }
               else do {
                 h \<leftarrow> setf rn_next_update h rn (r_hook r);
                 pv \<leftarrow> fld rn_prev h (r_hook r);
                 h \<leftarrow> setf rn_prev_update h rn pv;
                 nx \<leftarrow> fld rn_next h rn;
                 h \<leftarrow> setf rn_prev_update h nx rn;
                 pv \<leftarrow> fld rn_prev h rn;
                 h \<leftarrow> setf rn_next_update h pv rn;
                 Some (h, r)
               });
            Some (h, Some (r\<lparr>r_nodes := r_nodes r + 1\<rparr>))
          })"

definition pth_ring_pop ::
  "ring_heap \<Rightarrow> pth_ring option \<Rightarrow> (ring_heap \<times> pth_ring option \<times> ptr) option" where
  "pth_ring_pop h r =
     (let rn = pth_ring_first r in
      if rn \<noteq> NULL
      then do { (h, r) \<leftarrow> pth_ring_delete h r rn; Some (h, r, rn) }
      else Some (h, r, rn))"

definition pth_ring_favorite ::
  "ring_heap \<Rightarrow> pth_ring option \<Rightarrow> ptr \<Rightarrow> (ring_heap \<times> pth_ring option \<times> bool) option" where
  "pth_ring_favorite h r rn =
     (case r of None \<Rightarrow> Some (h, None, False)
      | Some q \<Rightarrow>
          if r_hook q = NULL then Some (h, r, False)
          else if r_hook q = rn then Some (h, r, True)
          else do {
            (h, r) \<leftarrow> pth_ring_delete h r rn;
            (h, r) \<leftarrow> pth_ring_prepend h r rn;
            Some (h, r, True)
          })"

definition pth_ring_dequeue ::
  "ring_heap \<Rightarrow> pth_ring option \<Rightarrow> (ring_heap \<times> pth_ring option \<times> ptr) option" where
  "pth_ring_dequeue h r =
     do {
       rn \<leftarrow> pth_ring_last h r;
       if rn \<noteq> NULL
       then do { (h, r) \<leftarrow> pth_ring_delete h r rn; Some (h, r, rn) }
       else Some (h, r, rn)
     }"

partial_function (option) pth_ring_contains_loop ::
  "ring_heap \<Rightarrow> ptr \<Rightarrow> ptr \<Rightarrow> ptr \<Rightarrow> bool option" where
  "pth_ring_contains_loop h hook rns rn =
     (if rn = rns then Some True
      else do {
        nx \<leftarrow> fld rn_next h rn;
        if nx \<noteq> hook then pth_ring_contains_loop h hook rns nx else Some False
      })"

declare pth_ring_contains_loop.simps [code]

definition pth_ring_contains ::
  "ring_heap \<Rightarrow> pth_ring option \<Rightarrow> ptr \<Rightarrow> (errno + bool) option" where
  "pth_ring_contains h r rns =
     (case r of None \<Rightarrow> Some (Inl EINVAL)
      | Some r \<Rightarrow>
          if rns = NULL then Some (Inl EINVAL)
          else if r_hook r = NULL then Some (Inr False)
          else map_option Inr (pth_ring_contains_loop h (r_hook r) rns (r_hook r)))"

section \<open>The abstract view\<close>

abbreviation nxt :: "ring_heap \<Rightarrow> ptr \<rightharpoonup> ptr" where
  "nxt h \<equiv> fld rn_next h"

abbreviation prv :: "ring_heap \<Rightarrow> ptr \<rightharpoonup> ptr" where
  "prv h \<equiv> fld rn_prev h"

definition ring_rep :: "ring_heap \<Rightarrow> pth_ring option \<Rightarrow> ptr list \<Rightarrow> bool" where
  "ring_rep h r xs \<longleftrightarrow>
     (\<exists>q. r = Some q \<and> r_hook q = (if xs = [] then NULL else hd xs) \<and>
          r_nodes q = of_nat (length xs) \<and> cdll (nxt h) (prv h) xs)"

section \<open>Facts about represented rings\<close>

lemma ring_rep_Some:
  "ring_rep h (Some q) xs \<longleftrightarrow>
     r_hook q = (if xs = [] then NULL else hd xs) \<and>
     r_nodes q = of_nat (length xs) \<and> cdll (nxt h) (prv h) xs"
  by (simp add: ring_rep_def)

lemma ring_repE:
  assumes "ring_rep h r xs"
  obtains q where "r = Some q" "r_hook q = (if xs = [] then NULL else hd xs)"
    "r_nodes q = of_nat (length xs)" "cdll (nxt h) (prv h) xs"
  using assms by (auto simp: ring_rep_def)

lemma ring_rep_alloc:
  assumes "ring_rep h r xs" and "a \<in> set xs"
  shows "a \<in> alloc h"
proof -
  from assms(1) have "cdll (nxt h) (prv h) xs" by (rule ring_repE)
  from cdll_next_in [OF this assms(2)] obtain b where "nxt h a = Some b" by blast
  then show ?thesis by (rule fld_Some_alloc)
qed

lemma hd_not_NULL: "ring_rep h r xs \<Longrightarrow> xs \<noteq> [] \<Longrightarrow> hd xs \<noteq> 0"
  by (metis hd_in_set cdll_not_NULL ring_repE)

section \<open>What each operation does to the list\<close>

lemma ring_rep_empty: "ring_rep h (pth_ring_init (Some q)) []"
  by (simp add: ring_rep_def pth_ring_init_def)

lemma ring_first: "ring_rep h r xs \<Longrightarrow> pth_ring_first r = (if xs = [] then NULL else hd xs)"
  by (auto simp: ring_rep_def pth_ring_first_def)

lemma ring_last: "ring_rep h r xs \<Longrightarrow> pth_ring_last h r = Some (if xs = [] then NULL else last xs)"
  using hd_not_NULL [of h r xs]
  by (auto simp: ring_rep_def pth_ring_last_def cdll_last)

text \<open>Linking a fresh node in before the hook: the fields that \<open>append\<close> and \<open>prepend\<close> set.\<close>

definition linked_in :: "ring_heap \<Rightarrow> ptr list \<Rightarrow> ptr \<Rightarrow> ring_heap" where
  "linked_in h xs rn =
     (if xs = [] then hset rn_prev_update (hset rn_next_update h rn rn) rn rn
      else hset rn_next_update (hset rn_prev_update (hset rn_prev_update
        (hset rn_next_update h rn (hd xs)) rn (last xs)) (hd xs) rn) (last xs) rn)"

lemma ring_ends:
  assumes r: "ring_rep h r xs" and ne: "xs \<noteq> []"
  shows "hd xs \<in> alloc h" "last xs \<in> alloc h"
    "nxt h (last xs) = Some (hd xs)" "prv h (hd xs) = Some (last xs)"
proof -
  from r have c: "cdll (nxt h) (prv h) xs" by (rule ring_repE)
  show "nxt h (last xs) = Some (hd xs)" "prv h (hd xs) = Some (last xs)"
    using cdll_last [OF c ne] .
  then show "hd xs \<in> alloc h" "last xs \<in> alloc h" by (auto intro: fld_Some_alloc)
qed

lemma linked_in:
  assumes r: "ring_rep h r xs" and rn: "rn \<in> alloc h" "rn \<notin> set xs"
  shows "cdll (nxt (linked_in h xs rn)) (prv (linked_in h xs rn)) (xs @ [rn])"
    and "heap_frame (insert rn (set xs)) h (linked_in h xs rn)"
proof -
  from r have c: "cdll (nxt h) (prv h) xs" by (rule ring_repE)
  have nn: "rn \<noteq> NULL" using rn(1) by (rule alloc_not_NULL)
  show "cdll (nxt (linked_in h xs rn)) (prv (linked_in h xs rn)) (xs @ [rn])"
  proof (cases "xs = []")
    case True
    with rn(1) show ?thesis by (auto intro!: cdll_singleton simp: linked_in_def mem_simps)
  next
    case False
    with rn ring_ends [OF r False] cdll_add [OF c False rn(2) nn] show ?thesis
      by (simp add: linked_in_def mem_simps)
  qed
  show "heap_frame (insert rn (set xs)) h (linked_in h xs rn)"
    by (simp add: linked_in_def)
qed

lemma ring_append:
  assumes r: "ring_rep h r xs" and rn: "rn \<in> alloc h" "rn \<notin> set xs"
  shows "\<exists>h' r'. pth_ring_append h r rn = Some (h', r') \<and> ring_rep h' r' (xs @ [rn]) \<and>
           heap_frame (insert rn (set xs)) h h'"
proof -
  from r obtain q where q: "r = Some q" "r_hook q = (if xs = [] then NULL else hd xs)"
    "r_nodes q = of_nat (length xs)" by (rule ring_repE)
  have neq: "xs \<noteq> [] \<Longrightarrow> rn \<noteq> hd xs" "xs \<noteq> [] \<Longrightarrow> rn \<noteq> last xs" using rn(2) by auto
  have "pth_ring_append h r rn =
      Some (linked_in h xs rn,
        Some (q\<lparr>r_hook := hd (xs @ [rn]), r_nodes := of_nat (Suc (length xs))\<rparr>))"
    using rn(1) ring_ends [OF r]
    by (cases "xs = []")
      (simp_all add: q neq hd_not_NULL [OF r] alloc_not_NULL [OF rn(1)] pth_ring_append_def linked_in_def mem_simps Let_def add.commute)
  then show ?thesis using linked_in [OF r rn] by (simp add: ring_rep_Some hd_append)
qed

lemma ring_prepend:
  assumes r: "ring_rep h r xs" and rn: "rn \<in> alloc h" "rn \<notin> set xs"
  shows "\<exists>h' r'. pth_ring_prepend h r rn = Some (h', r') \<and> ring_rep h' r' (rn # xs) \<and>
           heap_frame (insert rn (set xs)) h h'"
proof -
  from r obtain q where q: "r = Some q" "r_hook q = (if xs = [] then NULL else hd xs)"
    "r_nodes q = of_nat (length xs)" by (rule ring_repE)
  have neq: "xs \<noteq> [] \<Longrightarrow> rn \<noteq> hd xs" "xs \<noteq> [] \<Longrightarrow> rn \<noteq> last xs" using rn(2) by auto
  have "pth_ring_prepend h r rn =
      Some (linked_in h xs rn,
        Some (q\<lparr>r_hook := rn, r_nodes := of_nat (Suc (length xs))\<rparr>))"
    using rn(1) ring_ends [OF r]
    by (cases "xs = []")
      (simp_all add: q neq hd_not_NULL [OF r] alloc_not_NULL [OF rn(1)] pth_ring_prepend_def linked_in_def mem_simps Let_def add.commute)
  then show ?thesis
    using linked_in [OF r rn] by (simp add: ring_rep_Some cdll_rotate_iff [of _ _ "[rn]" xs, simplified])
qed

text \<open>Unlinking a node: its neighbours are the ends of the rest of the cycle.\<close>

lemma ring_neighbours:
  assumes r: "ring_rep h r (as @ rn # bs)" and ne: "as @ bs \<noteq> []"
  shows "nxt h rn = Some (hd (bs @ as))" "prv h rn = Some (last (bs @ as))"
proof -
  from r have "cdll (nxt h) (prv h) (as @ rn # bs)" by (rule ring_repE)
  then have "cdll (nxt h) (prv h) ((rn # bs) @ as)" by (rule cdll_rotate)
  then have c: "cdll (nxt h) (prv h) (rn # (bs @ as))" by simp
  from cdll_last(2) [OF this] ne show "prv h rn = Some (last (bs @ as))" by auto
  from ne obtain y ys where e: "bs @ as = y # ys" by (cases bs; cases as) auto
  with cdll_step(1) [of "nxt h" "prv h" "[]" rn y ys] c show "nxt h rn = Some (hd (bs @ as))"
    by simp
qed

lemma ring_delete:
  assumes r: "ring_rep h r (as @ rn # bs)"
  shows "\<exists>h' r'. pth_ring_delete h r rn = Some (h', r') \<and> ring_rep h' r' (as @ bs) \<and>
           heap_frame (set (as @ bs)) h h'"
proof -
  from r obtain q where q: "r = Some q" "r_hook q = hd (as @ rn # bs)"
    "r_nodes q = of_nat (Suc (length (as @ bs)))" and c: "cdll (nxt h) (prv h) (as @ rn # bs)"
    by (rule ring_repE) auto
  have rn: "rn \<in> alloc h" using r by (rule ring_rep_alloc) simp
  show ?thesis
  proof (cases "as @ bs = []")
    case True
    with c cdll_last [OF c] q alloc_not_NULL [OF rn] show ?thesis
      by (auto simp: pth_ring_delete_def ring_rep_Some)
  next
    case False
    define ys where "ys = bs @ as"
    have ne: "ys \<noteq> []" and sub: "set ys \<subseteq> set (as @ rn # bs)" using False by (auto simp: ys_def)
    have al: "hd ys \<in> alloc h" "last ys \<in> alloc h"
      using ne sub hd_in_set [OF ne] last_in_set [OF ne] by (blast intro: ring_rep_alloc [OF r])+
    from cdll_rotate [OF c] cdll_rotate [of "nxt h" "prv h" "[rn]" ys]
    have cy: "cdll (nxt h) (prv h) (ys @ [rn])" by (simp add: ys_def)
    then have "rn \<notin> set ys" by (auto dest: cdll_distinct)
    with ne have neq: "hd ys \<noteq> rn" "last ys \<noteq> rn" by auto
    define h' where "h' = hset rn_prev_update (hset rn_next_update h (last ys) (hd ys)) (hd ys) (last ys)"
    have hook: "r_hook q = rn \<longleftrightarrow> as = []"
      using q(2) c by (cases as) (auto dest: cdll_distinct)
    have "pth_ring_delete h r rn =
        Some (h', Some (q\<lparr>r_hook := hd (as @ bs), r_nodes := of_nat (length (as @ bs))\<rparr>))"
      using q al neq hook alloc_not_NULL [OF rn] ring_neighbours [OF r False, folded ys_def]
      by (cases as) (auto simp: pth_ring_delete_def h'_def mem_simps Let_def ys_def)
    moreover have "cdll (nxt h') (prv h') ys"
      using cdll_remove [OF cy ne] al by (simp add: h'_def mem_simps)
    then have "cdll (nxt h') (prv h') (as @ bs)" by (simp add: ys_def cdll_rotate)
    moreover have "heap_frame (set (as @ bs)) h h'"
      using ne hd_in_set [OF ne] last_in_set [OF ne] by (auto simp: h'_def ys_def)
    ultimately show ?thesis using False by (auto simp: ring_rep_Some)
  qed
qed

lemma ring_pop:
  assumes "ring_rep h r (x # xs)"
  shows "\<exists>h' r'. pth_ring_pop h r = Some (h', r', x) \<and> ring_rep h' r' xs \<and>
           heap_frame (set xs) h h'"
  using ring_delete [of h r "[]" x xs] assms hd_not_NULL [OF assms] ring_first [OF assms]
  by (auto simp: pth_ring_pop_def)

lemma ring_pop_empty: "ring_rep h r [] \<Longrightarrow> pth_ring_pop h r = Some (h, r, NULL)"
  by (simp add: pth_ring_pop_def ring_first)

lemma ring_dequeue:
  assumes "ring_rep h r (xs @ [x])"
  shows "\<exists>h' r'. pth_ring_dequeue h r = Some (h', r', x) \<and> ring_rep h' r' xs \<and>
           heap_frame (set xs) h h'"
proof -
  have "x \<noteq> NULL" using alloc_not_NULL ring_rep_alloc [OF assms] by auto
  then show ?thesis
    using ring_delete [of h r xs x "[]"] assms ring_last [OF assms]
    by (auto simp: pth_ring_dequeue_def)
qed

lemma ring_favorite:
  assumes r: "ring_rep h r (as @ rn # bs)"
  shows "\<exists>h' r'. pth_ring_favorite h r rn = Some (h', r', True) \<and>
           ring_rep h' r' (rn # as @ bs) \<and> heap_frame (set (as @ rn # bs)) h h'"
proof -
  from r obtain q where q: "r = Some q" "r_hook q = hd (as @ rn # bs)"
    and c: "cdll (nxt h) (prv h) (as @ rn # bs)" by (rule ring_repE) auto
  have nn: "hd (as @ rn # bs) \<noteq> 0" using hd_not_NULL [OF r] by simp
  show ?thesis
  proof (cases "as = []")
    case True
    with r q nn show ?thesis by (auto simp: pth_ring_favorite_def)
  next
    case False
    with q(2) c have hook: "r_hook q \<noteq> rn" by (cases as) (auto dest: cdll_distinct)
    from ring_delete [OF r] obtain h1 r1 where 1: "pth_ring_delete h r rn = Some (h1, r1)"
      "ring_rep h1 r1 (as @ bs)" "heap_frame (set (as @ bs)) h h1" by blast
    have "rn \<in> alloc h1" "rn \<notin> set (as @ bs)"
      using ring_rep_alloc [OF r] heap_frame_alloc [OF 1(3)] c by (auto dest: cdll_distinct)
    from ring_prepend [OF 1(2) this] obtain h2 r2 where
      2: "pth_ring_prepend h1 r1 rn = Some (h2, r2)" "ring_rep h2 r2 (rn # as @ bs)"
      "heap_frame (insert rn (set (as @ bs))) h1 h2" by blast
    have "heap_frame (set (as @ rn # bs)) h h1" by (rule heap_frame_mono [OF 1(3)]) auto
    moreover have "heap_frame (set (as @ rn # bs)) h1 h2" using 2(3) by simp
    ultimately have "heap_frame (set (as @ rn # bs)) h h2" by (rule heap_frame_trans)
    then show ?thesis using 1(1) 2(1,2) q nn hook
      by (simp add: pth_ring_favorite_def del: set_append)
  qed
qed

lemma ring_contains_loop:
  assumes "cdll (nxt h) (prv h) (as @ x # bs)" and "hook = hd (as @ [x])"
  shows "pth_ring_contains_loop h hook rns x = Some (rns \<in> set (x # bs))"
  using assms
proof (induction bs arbitrary: as x)
  case Nil
  then show ?case
    using cdll_last(1) [OF Nil.prems(1)]
    by (subst pth_ring_contains_loop.simps) auto
next
  case (Cons b bs)
  have "nxt h x = Some b" using Cons.prems(1) by (rule cdll_step)
  moreover have "b \<noteq> hook"
    using cdll_distinct [OF Cons.prems(1)] Cons.prems(2) by (cases as) auto
  moreover have "pth_ring_contains_loop h hook rns b = Some (rns \<in> set (b # bs))"
    using Cons.IH [of "as @ [x]" b] Cons.prems by (cases as) auto
  ultimately show ?case
    by (auto simp: pth_ring_contains_loop.simps [of h hook rns x])
qed

lemma ring_contains:
  assumes r: "ring_rep h r xs" and rns: "rns \<noteq> NULL"
  shows "pth_ring_contains h r rns = Some (Inr (rns \<in> set xs))"
proof (cases xs)
  case Nil
  with r rns show ?thesis by (auto simp: pth_ring_contains_def ring_rep_def)
next
  case (Cons x bs)
  with r obtain q where "r = Some q" "r_hook q = x" and c: "cdll (nxt h) (prv h) ([] @ x # bs)"
    by (auto elim: ring_repE)
  with ring_contains_loop [OF c] rns hd_not_NULL [OF r] Cons show ?thesis
    by (auto simp: pth_ring_contains_def)
qed

text \<open>Inserting next to a node of the ring. \<open>pth_ring_insert_before\<close> never moves the hook, so
  inserting before the hook node puts the new node at the end of the list.\<close>

lemma ring_insert_after:
  assumes r: "ring_rep h r (as @ rn1 # bs)" and rn2: "rn2 \<in> alloc h" "rn2 \<notin> set (as @ rn1 # bs)"
  shows "\<exists>h' r'. pth_ring_insert_after h r rn1 rn2 = Some (h', r') \<and>
           ring_rep h' r' (as @ rn1 # rn2 # bs) \<and> heap_frame (set (as @ rn1 # rn2 # bs)) h h'"
proof -
  from r obtain q where q: "r = Some q" "r_hook q = hd (as @ rn1 # bs)"
    "r_nodes q = of_nat (Suc (length (as @ bs)))" and c: "cdll (nxt h) (prv h) (as @ rn1 # bs)"
    by (rule ring_repE) auto
  define ys where "ys = bs @ as @ [rn1]"
  from cdll_rotate [of _ _ "as @ [rn1]" bs] c have cy: "cdll (nxt h) (prv h) ys"
    by (simp add: ys_def)
  have ys: "ys \<noteq> []" "last ys = rn1" "set ys = set (as @ rn1 # bs)" by (auto simp: ys_def)
  have hd: "hd ys \<in> set (as @ rn1 # bs)" using hd_in_set [OF ys(1)] ys(3) by simp
  have al: "rn1 \<in> alloc h" "hd ys \<in> alloc h" using hd by (auto intro: ring_rep_alloc [OF r])
  have neq: "rn2 \<noteq> rn1" "rn2 \<noteq> hd ys" using rn2(2) hd by auto
  define h' where "h' = hset rn_prev_update (hset rn_next_update (hset rn_next_update
      (hset rn_prev_update h rn2 rn1) rn2 (hd ys)) rn1 rn2) (hd ys) rn2"
  have "pth_ring_insert_after h r rn1 rn2 = Some (h', Some (q\<lparr>r_nodes := r_nodes q + 1\<rparr>))"
    using cdll_last(1) [OF cy ys(1)] al rn2(1)
    by (simp add: pth_ring_insert_after_def q(1) h'_def ys(2) neq mem_simps)
  moreover have "cdll (nxt h') (prv h') (ys @ [rn2])"
    using cdll_add [OF cy ys(1) _ alloc_not_NULL [OF rn2(1)]] al rn2 ys
    by (simp add: h'_def mem_simps)
  then have "cdll (nxt h') (prv h') (as @ rn1 # rn2 # bs)"
    using cdll_rotate [of _ _ bs "as @ [rn1, rn2]"] by (simp add: ys_def)
  moreover have "heap_frame (set (as @ rn1 # rn2 # bs)) h h'"
    using hd by (auto simp: h'_def)
  ultimately show ?thesis using q by (cases as) (auto simp: ring_rep_Some add_ac)
qed

lemma ring_insert_before:
  assumes r: "ring_rep h r (as @ rn1 # bs)" and rn2: "rn2 \<in> alloc h" "rn2 \<notin> set (as @ rn1 # bs)"
  shows "\<exists>h' r'. pth_ring_insert_before h r rn1 rn2 = Some (h', r') \<and>
           ring_rep h' r' (if as = [] then rn1 # bs @ [rn2] else as @ rn2 # rn1 # bs) \<and>
           heap_frame (set (as @ rn2 # rn1 # bs)) h h'"
proof -
  from r obtain q where q: "r = Some q" "r_hook q = hd (as @ rn1 # bs)"
    "r_nodes q = of_nat (Suc (length (as @ bs)))" and c: "cdll (nxt h) (prv h) (as @ rn1 # bs)"
    by (rule ring_repE) auto
  define ys where "ys = rn1 # bs @ as"
  from cdll_rotate [OF c] have cy: "cdll (nxt h) (prv h) ys" by (simp add: ys_def)
  have ys: "ys \<noteq> []" "hd ys = rn1" "set ys = set (as @ rn1 # bs)" by (auto simp: ys_def)
  have la: "last ys \<in> set (as @ rn1 # bs)" using last_in_set [OF ys(1)] ys(3) by simp
  have al: "rn1 \<in> alloc h" "last ys \<in> alloc h" using la by (auto intro: ring_rep_alloc [OF r])
  have neq: "rn2 \<noteq> rn1" "rn2 \<noteq> last ys" using rn2(2) la by auto
  define h' where "h' = hset rn_prev_update (hset rn_next_update (hset rn_prev_update
      (hset rn_next_update h rn2 rn1) rn2 (last ys)) (last ys) rn2) rn1 rn2"
  have "pth_ring_insert_before h r rn1 rn2 = Some (h', Some (q\<lparr>r_nodes := r_nodes q + 1\<rparr>))"
    using cdll_last(2) [OF cy ys(1)] al rn2(1)
    by (simp add: pth_ring_insert_before_def q(1) h'_def ys(2) neq mem_simps)
  moreover have cy': "cdll (nxt h') (prv h') (ys @ [rn2])"
    using cdll_add [OF cy ys(1) _ alloc_not_NULL [OF rn2(1)]] al rn2 ys
    by (simp add: h'_def mem_simps)
  then have "cdll (nxt h') (prv h') (if as = [] then rn1 # bs @ [rn2] else as @ rn2 # rn1 # bs)"
    using cdll_rotate [of "nxt h'" "prv h'" "rn1 # bs" "as @ [rn2]"] by (auto simp: ys_def)
  moreover have "heap_frame (set (as @ rn2 # rn1 # bs)) h h'"
    using la by (auto simp: h'_def)
  ultimately show ?thesis using q by (cases as) (auto simp: ring_rep_Some add_ac)
qed

text \<open>Walking: \<open>pth_ring_next\<close> visits the list in order and ends with a null pointer.\<close>

lemma ring_next:
  assumes r: "ring_rep h r (as @ x # bs)"
  shows "pth_ring_next h r x = Some (if bs = [] then NULL else hd bs)"
proof -
  from r obtain q where q: "r = Some q" "r_hook q = hd (as @ x # bs)"
    and c: "cdll (nxt h) (prv h) (as @ x # bs)" by (rule ring_repE) auto
  have "x \<noteq> 0" using ring_rep_alloc [OF r] by (auto dest: alloc_not_NULL)
  moreover have "nxt h x = Some (if bs = [] then hd (as @ x # bs) else hd bs)"
    using cdll_last(1) [OF c] cdll_step(1) [of "nxt h" "prv h" as x "hd bs" "tl bs"] c
    by (cases bs) auto
  moreover have "bs \<noteq> [] \<Longrightarrow> hd bs \<noteq> hd (as @ x # bs)"
    using cdll_distinct [OF c] by (cases as; cases bs) auto
  ultimately show ?thesis using q by (auto simp: pth_ring_next_def)
qed

section \<open>The interface of a ring\<close>

text \<open>What the users of a ring need: nodes are added at the end, taken at the front or out of
  the middle, and rings on other nodes are not touched.\<close>

locale node_queue =
  fixes rep :: "'h \<Rightarrow> 'r \<Rightarrow> ptr list \<Rightarrow> bool"
    and nodes :: "'h \<Rightarrow> ptr set"
    and add :: "'h \<Rightarrow> 'r \<Rightarrow> ptr \<Rightarrow> ('h \<times> 'r) option"
    and take_first :: "'h \<Rightarrow> 'r \<Rightarrow> ('h \<times> 'r \<times> ptr) option"
    and remove :: "'h \<Rightarrow> 'r \<Rightarrow> ptr \<Rightarrow> ('h \<times> 'r) option"
  assumes add_rep: "rep h r xs \<Longrightarrow> x \<in> nodes h \<Longrightarrow> x \<notin> set xs \<Longrightarrow>
      \<exists>h' r'. add h r x = Some (h', r') \<and> rep h' r' (xs @ [x]) \<and> nodes h' = nodes h \<and>
        (\<forall>s ys. rep h s ys \<longrightarrow> set ys \<inter> insert x (set xs) = {} \<longrightarrow> rep h' s ys)"
    and first_rep: "rep h r (x # xs) \<Longrightarrow>
      \<exists>h' r'. take_first h r = Some (h', r', x) \<and> rep h' r' xs \<and> nodes h' = nodes h \<and>
        (\<forall>s ys. rep h s ys \<longrightarrow> set ys \<inter> set (x # xs) = {} \<longrightarrow> rep h' s ys)"
    and first_empty: "rep h r [] \<Longrightarrow> take_first h r = Some (h, r, NULL)"
    and remove_rep: "rep h r (xs @ x # ys) \<Longrightarrow>
      \<exists>h' r'. remove h r x = Some (h', r') \<and> rep h' r' (xs @ ys) \<and> nodes h' = nodes h \<and>
        (\<forall>s zs. rep h s zs \<longrightarrow> set zs \<inter> set (xs @ x # ys) = {} \<longrightarrow> rep h' s zs)"
    and rep_nodes: "rep h r xs \<Longrightarrow> set xs \<subseteq> nodes h"
    and rep_distinct: "rep h r xs \<Longrightarrow> distinct xs"
begin

fun add_all :: "'h \<Rightarrow> 'r \<Rightarrow> ptr list \<Rightarrow> ('h \<times> 'r) option" where
  "add_all h r [] = Some (h, r)"
| "add_all h r (x # xs) = do { (h, r) \<leftarrow> add h r x; add_all h r xs }"

fun take_n :: "nat \<Rightarrow> 'h \<Rightarrow> 'r \<Rightarrow> ('h \<times> 'r \<times> ptr list) option" where
  "take_n 0 h r = Some (h, r, [])"
| "take_n (Suc n) h r =
     do { (h, r, x) \<leftarrow> take_first h r; (h, r, xs) \<leftarrow> take_n n h r; Some (h, r, x # xs) }"

lemma add_all_rep:
  assumes "rep h r xs" and "distinct (xs @ ys)" and "set ys \<subseteq> nodes h"
  shows "\<exists>h' r'. add_all h r ys = Some (h', r') \<and> rep h' r' (xs @ ys)"
  using assms
proof (induction ys arbitrary: h r xs)
  case (Cons y ys)
  from Cons.prems add_rep [of h r xs y] obtain h1 r1 where
    1: "add h r y = Some (h1, r1)" "rep h1 r1 (xs @ [y])" "nodes h1 = nodes h" by auto
  from Cons.IH [OF 1(2)] Cons.prems 1(1,3) show ?case by auto
qed simp

lemma take_n_rep:
  assumes "rep h r (xs @ ys)"
  shows "\<exists>h' r'. take_n (length xs) h r = Some (h', r', xs) \<and> rep h' r' ys"
  using assms
proof (induction xs arbitrary: h r)
  case (Cons x xs)
  from Cons.prems first_rep [of h r x "xs @ ys"] obtain h1 r1 where
    1: "take_first h r = Some (h1, r1, x)" "rep h1 r1 (xs @ ys)" by auto
  from Cons.IH [OF 1(2)] 1(1) show ?case by auto
qed simp

text \<open>First in, first out: what was added is taken in the order of the additions.\<close>

lemma fifo:
  assumes "rep h r xs" and "distinct (xs @ ys)" and "set ys \<subseteq> nodes h"
  shows "\<exists>h1 r1 h2 r2. add_all h r ys = Some (h1, r1) \<and>
           take_n (length xs + length ys) h1 r1 = Some (h2, r2, xs @ ys) \<and> rep h2 r2 []"
proof -
  from add_all_rep [OF assms] obtain h1 r1 where
    1: "add_all h r ys = Some (h1, r1)" "rep h1 r1 ((xs @ ys) @ [])" by auto
  from take_n_rep [OF 1(2)] 1(1) show ?thesis by auto
qed

end

lemma ring_rep_frame:
  assumes "heap_frame A h h'" and "ring_rep h s ys" and "set ys \<inter> A = {}"
  shows "ring_rep h' s ys"
proof -
  have "\<And>a. a \<in> set ys \<Longrightarrow> nxt h' a = nxt h a" "\<And>a. a \<in> set ys \<Longrightarrow> prv h' a = prv h a"
    using assms(1,3) by (auto intro: heap_frame_fld)
  then have "cdll (nxt h') (prv h') ys \<longleftrightarrow> cdll (nxt h) (prv h) ys" by (rule cdll_cong)
  with assms(2) show ?thesis by (simp add: ring_rep_def)
qed

interpretation pr: node_queue ring_rep alloc pth_ring_append pth_ring_pop pth_ring_delete
proof unfold_locales
  fix h r xs x assume "ring_rep h r xs" "x \<in> alloc h" "x \<notin> set xs"
  from ring_append [OF this] show
    "\<exists>h' r'. pth_ring_append h r x = Some (h', r') \<and> ring_rep h' r' (xs @ [x]) \<and>
       alloc h' = alloc h \<and>
       (\<forall>s ys. ring_rep h s ys \<longrightarrow> set ys \<inter> insert x (set xs) = {} \<longrightarrow> ring_rep h' s ys)"
    by (blast intro: ring_rep_frame dest: heap_frame_alloc)
next
  fix h r x xs assume "ring_rep h r (x # xs)"
  from ring_pop [OF this] obtain h' r' where *: "pth_ring_pop h r = Some (h', r', x)"
    "ring_rep h' r' xs" "heap_frame (set xs) h h'" by blast
  from *(3) have "heap_frame (set (x # xs)) h h'" by (rule heap_frame_mono) auto
  with * show "\<exists>h' r'. pth_ring_pop h r = Some (h', r', x) \<and> ring_rep h' r' xs \<and>
       alloc h' = alloc h \<and>
       (\<forall>s ys. ring_rep h s ys \<longrightarrow> set ys \<inter> set (x # xs) = {} \<longrightarrow> ring_rep h' s ys)"
    by (blast intro: ring_rep_frame dest: heap_frame_alloc)
next
  fix h r xs x ys assume "ring_rep h r (xs @ x # ys)"
  from ring_delete [OF this] obtain h' r' where *: "pth_ring_delete h r x = Some (h', r')"
    "ring_rep h' r' (xs @ ys)" "heap_frame (set (xs @ ys)) h h'" by blast
  from *(3) have "heap_frame (set (xs @ x # ys)) h h'" by (rule heap_frame_mono) auto
  with * show "\<exists>h' r'. pth_ring_delete h r x = Some (h', r') \<and> ring_rep h' r' (xs @ ys) \<and>
       alloc h' = alloc h \<and>
       (\<forall>s zs. ring_rep h s zs \<longrightarrow> set zs \<inter> set (xs @ x # ys) = {} \<longrightarrow> ring_rep h' s zs)"
    by (blast intro: ring_rep_frame dest: heap_frame_alloc)
next
  fix h r xs assume "ring_rep h r xs"
  then show "set xs \<subseteq> alloc h" by (auto intro: ring_rep_alloc)
next
  fix h r xs assume "ring_rep h r xs"
  then show "distinct xs" by (auto elim!: ring_repE dest: cdll_distinct)
qed (rule ring_pop_empty)

text \<open>Sequences of operations on the rings of the library.\<close>

fun ring_append_all :: "ring_heap \<Rightarrow> pth_ring option \<Rightarrow> ptr list \<Rightarrow> (ring_heap \<times> pth_ring option) option" where
  "ring_append_all h r [] = Some (h, r)"
| "ring_append_all h r (x # xs) = do { (h, r) \<leftarrow> pth_ring_append h r x; ring_append_all h r xs }"

fun ring_pop_n :: "nat \<Rightarrow> ring_heap \<Rightarrow> pth_ring option \<Rightarrow> (ring_heap \<times> pth_ring option \<times> ptr list) option" where
  "ring_pop_n 0 h r = Some (h, r, [])"
| "ring_pop_n (Suc n) h r =
     do { (h, r, x) \<leftarrow> pth_ring_pop h r; (h, r, xs) \<leftarrow> ring_pop_n n h r; Some (h, r, x # xs) }"

lemma append_all_eq: "pr.add_all h r xs = ring_append_all h r xs"
  by (induction xs arbitrary: h r) simp_all

lemma pop_n_eq: "pr.take_n n h r = ring_pop_n n h r"
  by (induction n arbitrary: h r) simp_all

section \<open>Properties\<close>

text \<open>C38: A ring is a first-in first-out queue: appending any number of fresh nodes and popping as
  many nodes as the ring then holds returns the nodes in the order in which they were appended.\<close>

theorem ring_is_fifo:
  assumes "ring_rep h r xs" and "distinct (xs @ ys)" and "set ys \<subseteq> alloc h"
  shows "\<exists>h1 r1 h2 r2. ring_append_all h r ys = Some (h1, r1) \<and>
           ring_pop_n (length xs + length ys) h1 r1 = Some (h2, r2, xs @ ys) \<and> ring_rep h2 r2 []"
  using pr.fifo [OF assms] by (simp add: append_all_eq pop_n_eq)

theorem ring_is_fifo_witness:
  "\<exists>h1 r1 h2 r2. ring_append_all [2 \<mapsto> \<lparr>rn_next = 0, rn_prev = 0\<rparr>, 3 \<mapsto> \<lparr>rn_next = 7, rn_prev = 0\<rparr>]
      (Some \<lparr>r_hook = 0, r_nodes = 0\<rparr>) [3, 2] = Some (h1, r1) \<and>
    ring_pop_n 2 h1 r1 = Some (h2, r2, [3, 2])"
  using ring_is_fifo [of "[2 \<mapsto> \<lparr>rn_next = 0, rn_prev = 0\<rparr>, 3 \<mapsto> \<lparr>rn_next = 7, rn_prev = 0\<rparr>]"
      "Some \<lparr>r_hook = 0, r_nodes = 0\<rparr>" "[]" "[3, 2]"]
  by (auto simp: ring_rep_def alloc_def numeral_2_eq_2)

text \<open>Deleting a node at any position of a ring removes exactly that node, keeps the order of the
  others, and touches no other memory.\<close>

theorem ring_delete_anywhere:
  assumes "ring_rep h r (as @ rn # bs)"
  shows "\<exists>h' r'. pth_ring_delete h r rn = Some (h', r') \<and> ring_rep h' r' (as @ bs) \<and>
           heap_frame (set (as @ bs)) h h'"
  using assms by (rule ring_delete)

theorem ring_delete_anywhere_witness:
  "\<exists>h' r'. pth_ring_delete [2 \<mapsto> \<lparr>rn_next = 3, rn_prev = 3\<rparr>, 3 \<mapsto> \<lparr>rn_next = 2, rn_prev = 2\<rparr>]
      (Some \<lparr>r_hook = 2, r_nodes = 2\<rparr>) 2 = Some (h', r') \<and> ring_rep h' r' [3]"
  using ring_delete_anywhere [of "[2 \<mapsto> \<lparr>rn_next = 3, rn_prev = 3\<rparr>, 3 \<mapsto> \<lparr>rn_next = 2, rn_prev = 2\<rparr>]"
      "Some \<lparr>r_hook = 2, r_nodes = 2\<rparr>" "[]" 2 "[3]"]
  by (auto simp: ring_rep_def cdll_def fld_def)

end
