(* ===== verification/Pth_Time.thy ===== *)
theory Pth_Time
  imports Prelude
begin

text \<open>
  Time values of a1/pth-2.0.7/pth_time.c. A \<open>pth_time_t\<close> is a struct timeval; the current
  time, which the C code reads with gettimeofday, is an argument. \<open>usecs\<close> is the number of
  microseconds a value stands for, the reference that the operations are compared with.
  A \<open>double\<close> is a rational number, and every conversion and operation on doubles applies a
  rounding function \<open>fl\<close>, an argument of the definitions that compute with doubles.
\<close>

section \<open>Operations\<close>

record pth_time =
  tv_sec :: int
  tv_usec :: int

type_synonym rounding = "rat \<Rightarrow> rat"

definition pth_time_zero :: pth_time where
  "pth_time_zero = \<lparr>tv_sec = 0, tv_usec = 0\<rparr>"

definition pth_time_equal :: "pth_time \<Rightarrow> pth_time \<Rightarrow> bool" where
  "pth_time_equal t1 t2 \<longleftrightarrow> tv_sec t1 = tv_sec t2 \<and> tv_usec t1 = tv_usec t2"

definition mk_pth_time :: "int \<Rightarrow> int \<Rightarrow> pth_time" where
  "mk_pth_time sec usec = \<lparr>tv_sec = sec, tv_usec = usec\<rparr>"

definition pth_time_cmp :: "pth_time \<Rightarrow> pth_time \<Rightarrow> int" where
  "pth_time_cmp t1 t2 =
     (let rc = int_of_long (tv_sec t1 - tv_sec t2) in
      if rc = 0 then int_of_long (tv_usec t1 - tv_usec t2) else rc)"

definition pth_time_add :: "pth_time \<Rightarrow> pth_time \<Rightarrow> pth_time" where
  "pth_time_add t1 t2 =
     (let t = t1\<lparr>tv_sec := tv_sec t1 + tv_sec t2, tv_usec := tv_usec t1 + tv_usec t2\<rparr> in
      if tv_usec t > 1000000
      then t\<lparr>tv_sec := tv_sec t + 1, tv_usec := tv_usec t - 1000000\<rparr>
      else t)"

definition pth_time_sub :: "pth_time \<Rightarrow> pth_time \<Rightarrow> pth_time" where
  "pth_time_sub t1 t2 =
     (let t = t1\<lparr>tv_sec := tv_sec t1 - tv_sec t2, tv_usec := tv_usec t1 - tv_usec t2\<rparr> in
      if tv_usec t < 0
      then t\<lparr>tv_sec := tv_sec t - 1, tv_usec := tv_usec t + 1000000\<rparr>
      else t)"

definition pth_timeout :: "pth_time \<Rightarrow> int \<Rightarrow> int \<Rightarrow> pth_time" where
  "pth_timeout now sec usec = pth_time_add now \<lparr>tv_sec = sec, tv_usec = usec\<rparr>"

definition pth_time_div :: "pth_time \<Rightarrow> int \<Rightarrow> pth_time option" where
  "pth_time_div t1 n =
     (if n = 0 then None
      else
        let q = tv_sec t1 sdiv n;
            r = (((tv_sec t1 smod n) * 1000000) sdiv n) + (tv_usec t1 sdiv n)
        in Some (if r > 1000000 then t1\<lparr>tv_sec := q + 1, tv_usec := r - 1000000\<rparr>
                 else t1\<lparr>tv_sec := q, tv_usec := r\<rparr>))"

definition pth_time_mul :: "pth_time \<Rightarrow> int \<Rightarrow> pth_time" where
  "pth_time_mul t1 n =
     (let t = t1\<lparr>tv_sec := tv_sec t1 * n, tv_usec := tv_usec t1 * n\<rparr>
      in t\<lparr>tv_sec := tv_sec t + tv_usec t sdiv 1000000, tv_usec := tv_usec t smod 1000000\<rparr>)"

definition pth_time_t2d :: "rounding \<Rightarrow> pth_time \<Rightarrow> rat" where
  "pth_time_t2d fl t =
     fl (fl (fl (fl (of_int (tv_sec t)) * 1000000) + fl (of_int (tv_usec t))) / 1000000)"

definition pth_time_t2i :: "pth_time \<Rightarrow> int" where
  "pth_time_t2i t = int_of_long ((tv_sec t * 1000000 + tv_usec t) sdiv 1000000)"

definition pth_time_pos :: "pth_time \<Rightarrow> bool" where
  "pth_time_pos t \<longleftrightarrow> tv_sec t > 0 \<and> tv_usec t > 0"

section \<open>The reference: microseconds\<close>

definition usecs :: "pth_time \<Rightarrow> int" where
  "usecs t = tv_sec t * 1000000 + tv_usec t"

definition normal :: "pth_time \<Rightarrow> bool" where
  "normal t \<longleftrightarrow> 0 \<le> tv_usec t \<and> tv_usec t < 1000000"

section \<open>Sums and differences\<close>

lemma usecs_add [simp]: "usecs (pth_time_add a b) = usecs a + usecs b"
  by (simp add: usecs_def pth_time_add_def Let_def algebra_simps)

lemma usecs_sub [simp]: "usecs (pth_time_sub a b) = usecs a - usecs b"
  by (simp add: usecs_def pth_time_sub_def Let_def algebra_simps)

lemma normal_sub: "normal a \<Longrightarrow> normal b \<Longrightarrow> normal (pth_time_sub a b)"
  by (auto simp: normal_def pth_time_sub_def Let_def)

lemma normal_parts:
  assumes "normal t"
  shows "usecs t div 1000000 = tv_sec t" and "usecs t mod 1000000 = tv_usec t"
  using assms by (simp_all add: normal_def usecs_def)

lemma normal_unique: "normal a \<Longrightarrow> normal b \<Longrightarrow> usecs a = usecs b \<Longrightarrow> a = b"
  using normal_parts [of a] normal_parts [of b] by simp

text \<open>The carry test of \<open>pth_time_add\<close> is strict, so a sum may hold a full second in its
  microseconds: the result is normal exactly when the two fractions do not add up to one.\<close>

lemma normal_add_iff:
  assumes "normal a" "normal b"
  shows "normal (pth_time_add a b) \<longleftrightarrow> tv_usec a + tv_usec b \<noteq> 1000000"
  using assms by (auto simp: normal_def pth_time_add_def Let_def)

lemma add_sub_inverse: "normal a \<Longrightarrow> normal b \<Longrightarrow> pth_time_sub (pth_time_add a b) b = a"
  by (rule normal_unique) (auto simp: normal_def pth_time_add_def pth_time_sub_def Let_def usecs_def)

section \<open>Comparison\<close>

lemma cmp_sign:
  assumes "normal a" "normal b" and "\<bar>tv_sec a - tv_sec b\<bar> < 2 ^ 31"
  shows "pth_time_cmp a b < 0 \<longleftrightarrow> usecs a < usecs b"
    and "pth_time_cmp a b = 0 \<longleftrightarrow> usecs a = usecs b"
    and "pth_time_cmp a b > 0 \<longleftrightarrow> usecs a > usecs b"
proof -
  from assms have s: "int_of_long (tv_sec a - tv_sec b) = tv_sec a - tv_sec b"
    by (intro int_of_long_id) auto
  from assms have u: "int_of_long (tv_usec a - tv_usec b) = tv_usec a - tv_usec b"
    by (intro int_of_long_id) (auto simp: normal_def)
  show "pth_time_cmp a b < 0 \<longleftrightarrow> usecs a < usecs b"
    "pth_time_cmp a b = 0 \<longleftrightarrow> usecs a = usecs b"
    "pth_time_cmp a b > 0 \<longleftrightarrow> usecs a > usecs b"
    using assms(1,2) unfolding pth_time_cmp_def s u Let_def usecs_def normal_def by auto
qed

section \<open>Scaling\<close>

lemma usecs_mul [simp]: "usecs (pth_time_mul t n) = n * usecs t"
proof -
  have "(tv_usec t * n) sdiv 1000000 * 1000000 + (tv_usec t * n) smod 1000000 = tv_usec t * n"
    by (simp add: sdiv_mult_smod_eq)
  then show ?thesis by (simp add: usecs_def pth_time_mul_def Let_def algebra_simps)
qed

lemma t2i_normal:
  assumes "normal t" and "0 \<le> tv_sec t" and "tv_sec t < 2 ^ 31"
  shows "pth_time_t2i t = tv_sec t"
proof -
  have "(tv_sec t * 1000000 + tv_usec t) sdiv 1000000 = (tv_sec t * 1000000 + tv_usec t) div 1000000"
    using assms by (simp add: normal_def sdiv_nonneg)
  also have "\<dots> = tv_sec t" using assms by (simp add: normal_def)
  finally show ?thesis using assms by (simp add: pth_time_t2i_def)
qed

section \<open>Properties\<close>

text \<open>Comparison of two normal times whose seconds differ by less than \<open>2 ^ 31\<close> has the sign of
  the difference of the times in microseconds.\<close>

theorem cmp_has_sign:
  assumes "normal a" and "normal b" and "\<bar>tv_sec a - tv_sec b\<bar> < 2 ^ 31"
  shows "sgn (pth_time_cmp a b) = sgn (usecs a - usecs b)"
  using cmp_sign [OF assms] by (auto simp: sgn_if)

theorem cmp_has_sign_witness:
  "sgn (pth_time_cmp \<lparr>tv_sec = 3, tv_usec = 5\<rparr> \<lparr>tv_sec = 3, tv_usec = 9\<rparr>) =
   sgn (usecs \<lparr>tv_sec = 3, tv_usec = 5\<rparr> - usecs \<lparr>tv_sec = 3, tv_usec = 9\<rparr>)"
  by (rule cmp_has_sign) (simp_all add: normal_def)

text \<open>Addition of two normal times adds the microseconds and subtraction undoes it, but because
  its carry test is \<open>> 1000000\<close> instead of \<open>>= 1000000\<close> the sum is not normal exactly when the two
  fractions add up to a full second.\<close>

theorem add_carry:
  assumes "normal a" and "normal b"
  shows "usecs (pth_time_add a b) = usecs a + usecs b \<and> pth_time_sub (pth_time_add a b) b = a \<and>
         (normal (pth_time_add a b) \<longleftrightarrow> tv_usec a + tv_usec b \<noteq> 1000000)"
  using assms by (simp add: normal_add_iff add_sub_inverse)

theorem add_carry_witness:
  "\<not> normal (pth_time_add \<lparr>tv_sec = 1, tv_usec = 400000\<rparr> \<lparr>tv_sec = 2, tv_usec = 600000\<rparr>)"
  using add_carry [of "\<lparr>tv_sec = 1, tv_usec = 400000\<rparr>" "\<lparr>tv_sec = 2, tv_usec = 600000\<rparr>"]
  by (simp add: normal_def)

end
