(* ===== verification/Tcb.thy ===== *)
theory Tcb
  imports Ring Pth_Time
begin

text \<open>
  The thread control block of a1/pth-2.0.7/pth_tcb.c, \<open>struct pth_st\<close>, and the heap of
  threads. A \<open>pth_t\<close> is a pointer into this heap. The nested structs \<open>tk\<close> (lottery tickets)
  and \<open>cpu_rt\<close> (target and actual CPU usage) are flattened into the fields \<open>tk_offset\<close>,
  \<open>tk_num\<close>, \<open>rt_target\<close> and \<open>rt_actual\<close>. Function and data pointers that Pth only stores
  and hands back (start routine, join argument, cleanup handlers, thread-specific data) are
  opaque numbers with \<open>0\<close> for a null pointer. The machine context is left out; of the stack
  memory only the guard word is kept, in the field \<open>stackguard\<close> (\<open>None\<close> for a null pointer).
  The theory also holds the allocation and release of control blocks and the cleanup handlers
  of pth\_clean.c.
\<close>

datatype pth_state =
    PTH_STATE_SCHEDULER | PTH_STATE_NEW | PTH_STATE_READY | PTH_STATE_WAITING | PTH_STATE_DEAD

record pth_st =
  tk_offset :: int
  tk_num :: "64 word"
  rt_target :: rat
  rt_actual :: rat
  q_next :: ptr
  q_prev :: ptr
  q_prio :: int
  prio :: int
  tname :: string
  dispatches :: int
  tstate :: pth_state
  spawned :: pth_time
  lastran :: pth_time
  running :: pth_time
  events :: ptr
  sigpending :: "nat list"
  sigpendcnt :: int
  stack :: ptr
  stacksize :: "32 word"
  stackguard :: "int option"
  stackloan :: bool
  start_func :: nat
  start_arg :: nat
  joinable :: bool
  join_arg :: nat
  data_value :: "nat list option"
  data_count :: int
  cancelreq :: bool
  cancelstate :: "32 word"
  cleanups :: "(nat \<times> nat) list"
  mutexring :: pth_ring

type_synonym tcb_heap = "pth_st heap"

definition PTH_PRIO_MAX :: int where "PTH_PRIO_MAX = 5"
definition PTH_PRIO_STD :: int where "PTH_PRIO_STD = 0"
definition PTH_PRIO_MIN :: int where "PTH_PRIO_MIN = -5"

section \<open>Cleanup handlers\<close>

text \<open>a1/pth-2.0.7/pth\_clean.c. The linked list of handlers is a list of pairs of a function
  and its argument, newest first. \<open>run f a h\<close> is the effect of calling handler \<open>f\<close> with
  argument \<open>a\<close> on the threads; \<open>mem\<close> tells whether malloc succeeds.\<close>

definition pth_cleanup_push ::
  "bool \<Rightarrow> tcb_heap \<Rightarrow> ptr \<Rightarrow> nat \<Rightarrow> nat \<Rightarrow> (tcb_heap \<times> (errno + bool)) option" where
  "pth_cleanup_push mem h cur func arg =
     (if func = NULL then Some (h, Inl EINVAL)
      else if \<not> mem then Some (h, Inl ENOMEM)
      else do {
        cl \<leftarrow> fld cleanups h cur;
        h \<leftarrow> setf cleanups_update h cur ((func, arg) # cl);
        Some (h, Inr True)
      })"

definition pth_cleanup_pop ::
  "(nat \<Rightarrow> nat \<Rightarrow> tcb_heap \<Rightarrow> tcb_heap) \<Rightarrow> tcb_heap \<Rightarrow> ptr \<Rightarrow> bool \<Rightarrow> (tcb_heap \<times> bool) option" where
  "pth_cleanup_pop run h cur execute =
     do {
       cl \<leftarrow> fld cleanups h cur;
       (case cl of
          [] \<Rightarrow> Some (h, False)
        | (f, a) # next \<Rightarrow> do {
            h \<leftarrow> setf cleanups_update h cur next;
            Some (if execute then run f a h else h, True)
          })
     }"

partial_function (option) pth_cleanup_popall ::
  "(nat \<Rightarrow> nat \<Rightarrow> tcb_heap \<Rightarrow> tcb_heap) \<Rightarrow> tcb_heap \<Rightarrow> ptr \<Rightarrow> bool \<Rightarrow> tcb_heap option" where
  "pth_cleanup_popall run h t execute =
     do {
       cl \<leftarrow> fld cleanups h t;
       (case cl of
          [] \<Rightarrow> Some h
        | (f, a) # next \<Rightarrow> do {
            h \<leftarrow> setf cleanups_update h t next;
            pth_cleanup_popall run (if execute then run f a h else h) t execute
          })
     }"

declare pth_cleanup_popall.simps [code]

section \<open>Cancellation state\<close>

text \<open>\<open>pth_cancel_state\<close> of pth\_cancel.c in thread \<open>cur\<close>; the second result is what the source
  stores through \<open>oldstate\<close> when that is not null.\<close>

abbreviation PTH_CANCEL_ENABLE :: "32 word" where "PTH_CANCEL_ENABLE \<equiv> BIT 0"
abbreviation PTH_CANCEL_DISABLE :: "32 word" where "PTH_CANCEL_DISABLE \<equiv> BIT 1"
abbreviation PTH_CANCEL_ASYNCHRONOUS :: "32 word" where "PTH_CANCEL_ASYNCHRONOUS \<equiv> BIT 2"
abbreviation PTH_CANCEL_DEFERRED :: "32 word" where "PTH_CANCEL_DEFERRED \<equiv> BIT 3"
abbreviation PTH_CANCEL_DEFAULT :: "32 word" where
  "PTH_CANCEL_DEFAULT \<equiv> or PTH_CANCEL_ENABLE PTH_CANCEL_DEFERRED"

definition pth_cancel_state :: "tcb_heap \<Rightarrow> ptr \<Rightarrow> 32 word \<Rightarrow> (tcb_heap \<times> 32 word) option" where
  "pth_cancel_state h cur newstate =
     do {
       old \<leftarrow> fld cancelstate h cur;
       h \<leftarrow> (if newstate \<noteq> 0 then setf cancelstate_update h cur newstate else Some h);
       Some (h, old)
     }"

section \<open>Allocation of control blocks\<close>

text \<open>\<open>m1\<close> and \<open>m2\<close> are the results of the two calls of malloc, \<open>blank\<close> the unspecified
  contents of the fresh block, \<open>sigstksz\<close> the system's minimal stack size. The guard word is
  stored in the record, and so is the stack; releasing the block releases both.\<close>

definition pth_tcb_alloc ::
  "32 word \<Rightarrow> pth_st \<Rightarrow> tcb_heap \<Rightarrow> 32 word \<Rightarrow> ptr \<Rightarrow> ptr \<Rightarrow> ptr \<Rightarrow> tcb_heap \<times> ptr" where
  "pth_tcb_alloc sigstksz blank h ssize stackaddr m1 m2 =
     (let ssize = (if 0 < ssize \<and> ssize < sigstksz then sigstksz else ssize) in
      if m1 = NULL then (h, NULL)
      else
        let t = blank\<lparr>stacksize := ssize, stack := NULL, stackguard := None,
                      stackloan := (stackaddr \<noteq> NULL)\<rparr> in
        if 0 < ssize
        then
          let stk = (if stackaddr \<noteq> NULL then stackaddr else m2) in
          if stk = NULL then (h, NULL)
          else (h(m1 \<mapsto> t\<lparr>stack := stk, stackguard := Some 0xDEAD\<rparr>), m1)
        else (h(m1 \<mapsto> t), m1))"

definition pth_tcb_free :: "tcb_heap \<Rightarrow> ptr \<Rightarrow> tcb_heap option" where
  "pth_tcb_free h t =
     (if t = NULL then Some h
      else do {
        cl \<leftarrow> fld cleanups h t;
        h \<leftarrow> (if cl \<noteq> [] then pth_cleanup_popall (\<lambda>f a h. h) h t False else Some h);
        Some (h(t := None))
      })"

section \<open>Facts\<close>

text \<open>Popping all handlers runs each of them once, newest first, and ends, provided that no
  handler changes the handler list of the thread being cleaned up.\<close>

fun run_all :: "(nat \<Rightarrow> nat \<Rightarrow> tcb_heap \<Rightarrow> tcb_heap) \<Rightarrow> ptr \<Rightarrow> (nat \<times> nat) list \<Rightarrow> tcb_heap \<Rightarrow> tcb_heap" where
  "run_all run t [] h = h"
| "run_all run t ((f, a) # cl) h = run_all run t cl (run f a (hset cleanups_update h t cl))"

lemma cleanup_popall:
  assumes "fld cleanups h t = Some cl"
    and "\<And>f a h. fld cleanups (run f a h) t = fld cleanups h t"
  shows "pth_cleanup_popall run h t True = Some (run_all run t cl h)"
  using assms(1)
proof (induction cl arbitrary: h)
  case Nil
  then show ?case by (subst pth_cleanup_popall.simps) simp
next
  case (Cons c cl)
  obtain f a where c: "c = (f, a)" by force
  have t: "t \<in> alloc h" using Cons.prems by (rule fld_Some_alloc)
  have "fld cleanups (run f a (hset cleanups_update h t cl)) t = Some cl"
    using t by (simp add: assms(2) mem_simps)
  from Cons.IH [OF this] Cons.prems t show ?case
    unfolding c by (subst pth_cleanup_popall.simps) (simp add: mem_simps)
qed

lemma cleanup_popall_quiet:
  assumes "fld cleanups h t = Some cl"
  shows "pth_cleanup_popall run h t False = Some (if cl = [] then h else hset cleanups_update h t [])"
  using assms
proof (induction cl arbitrary: h)
  case Nil
  then show ?case by (subst pth_cleanup_popall.simps) simp
next
  case (Cons c cl)
  have t: "t \<in> alloc h" using Cons.prems by (rule fld_Some_alloc)
  have "fld cleanups (hset cleanups_update h t cl) t = Some cl" using t by (simp add: mem_simps)
  moreover have "hset cleanups_update (hset cleanups_update h t cl) t [] = hset cleanups_update h t []"
    by (rule ext) (simp add: hset_def option.map_comp comp_def)
  moreover have "cl = [] \<Longrightarrow> hset cleanups_update h t cl = hset cleanups_update h t []" by simp
  ultimately show ?case
    using Cons.IH [of "hset cleanups_update h t cl"] Cons.prems t
    by (cases c) (subst pth_cleanup_popall.simps, simp add: mem_simps)
qed

lemma tcb_free:
  assumes "t \<in> alloc h"
  shows "pth_tcb_free h t = Some (h(t := None))"
proof -
  obtain cl where cl: "fld cleanups h t = Some cl" using alloc_fld [OF assms, of cleanups] by blast
  have "(hset cleanups_update h t [])(t := None) = h(t := None)" by (simp add: hset_def)
  with cleanup_popall_quiet [OF cl] cl alloc_not_NULL [OF assms] show ?thesis
    by (simp add: pth_tcb_free_def)
qed

section \<open>An example thread\<close>

text \<open>A thread with given queue links and priority and otherwise the values of a new thread, for
  the concrete instances of the theorems.\<close>

definition tcb_link :: "ptr \<Rightarrow> ptr \<Rightarrow> int \<Rightarrow> pth_st" where
  "tcb_link nx pv pr =
    \<lparr>tk_offset = -1, tk_num = 0, rt_target = 0, rt_actual = 0, q_next = nx, q_prev = pv, q_prio = pr,
     prio = pr, tname = [], dispatches = 0, tstate = PTH_STATE_NEW, spawned = pth_time_zero,
     lastran = pth_time_zero, running = pth_time_zero, events = 0, sigpending = [], sigpendcnt = 0,
     stack = 0, stacksize = 0, stackguard = None, stackloan = False, start_func = 0, start_arg = 0,
     joinable = True, join_arg = 0, data_value = None, data_count = 0, cancelreq = False, cancelstate = 0,
     cleanups = [], mutexring = \<lparr>r_hook = 0, r_nodes = 0\<rparr>\<rparr>"

section \<open>Properties\<close>

text \<open>Cleaning up a thread runs every cleanup handler exactly once, newest first, and ends with
  no handler left, provided that no handler changes the list of handlers of that thread.\<close>

theorem cleanup_runs_all:
  assumes "fld cleanups h t = Some cl"
    and "\<And>f a h. fld cleanups (run f a h) t = fld cleanups h t"
  shows "pth_cleanup_popall run h t True = Some (run_all run t cl h) \<and>
         fld cleanups (run_all run t cl h) t = Some []"
proof -
  have "fld cleanups (run_all run t cl h) t = Some []" using assms(1)
  proof (induction cl arbitrary: h)
    case (Cons c cl)
    then have "t \<in> alloc h" by (auto intro: fld_Some_alloc)
    with Cons.IH show ?case by (cases c) (simp add: assms(2) mem_simps)
  qed simp
  with cleanup_popall [OF assms] show ?thesis by simp
qed

theorem cleanup_runs_all_witness:
  "pth_cleanup_popall (\<lambda>f a h. hset prio_update h 5 (int (f + a)))
     [1 \<mapsto> (tcb_link 0 0 0)\<lparr>cleanups := [(2, 3), (4, 5)]\<rparr>, 5 \<mapsto> tcb_link 0 0 0] 1 True =
   Some (run_all (\<lambda>f a h. hset prio_update h 5 (int (f + a))) 1 [(2, 3), (4, 5)]
     [1 \<mapsto> (tcb_link 0 0 0)\<lparr>cleanups := [(2, 3), (4, 5)]\<rparr>, 5 \<mapsto> tcb_link 0 0 0])"
proof -
  let ?run = "\<lambda>f a h. hset prio_update h 5 (int (f + a))"
  have "fld cleanups (?run f a h) 1 = fld cleanups h 1" for f a h
    by (simp add: fld_hset_other)
  from cleanup_runs_all [where run = ?run and t = 1, OF _ this] show ?thesis
    by (simp add: fld_def)
qed

end
