(* ===== verification/Pqueue.thy ===== *)
theory Pqueue
  imports Tcb
begin

text \<open>
  The thread priority queue of a1/pth-2.0.7/pth_pqueue.c (its lottery functions are in the
  theory Lottery). The queue is a circular doubly linked list through the fields \<open>q_next\<close> and
  \<open>q_prev\<close> of the threads; the field \<open>q_prio\<close> holds the priority of the head, and for every
  other thread the difference to the thread before it. A \<open>pth_pqueue_t *\<close> argument is a
  \<open>pth_pqueue option\<close>, with \<open>None\<close> for a null pointer. \<open>pq_shape\<close> is the abstract view of the
  links, \<open>pq_rep\<close> adds the decoded priorities.
\<close>

section \<open>The queue\<close>

record pth_pqueue =
  q_head :: ptr
  q_num :: int
  total_prio :: "64 word"
  total_tk :: "64 word"

datatype walk_dir = PTH_WALK_NEXT | PTH_WALK_PREV

definition pth_pqueue_init :: "pth_pqueue option \<Rightarrow> pth_pqueue option" where
  "pth_pqueue_init q =
     map_option (\<lambda>q. q\<lparr>q_head := NULL, q_num := 0, total_prio := 0, total_tk := 0\<rparr>) q"

definition pth_pqueue_elements :: "pth_pqueue option \<Rightarrow> int" where
  "pth_pqueue_elements q = (case q of None \<Rightarrow> -1 | Some q \<Rightarrow> q_num q)"

definition pth_pqueue_head :: "pth_pqueue option \<Rightarrow> ptr" where
  "pth_pqueue_head q = (case q of None \<Rightarrow> NULL | Some q \<Rightarrow> q_head q)"

definition pth_pqueue_favorite_prio :: "tcb_heap \<Rightarrow> pth_pqueue \<Rightarrow> int option" where
  "pth_pqueue_favorite_prio h q =
     (if q_head q \<noteq> NULL then do { p \<leftarrow> fld q_prio h (q_head q); Some (p + 1) }
      else Some PTH_PRIO_MAX)"

definition pth_pqueue_tail :: "tcb_heap \<Rightarrow> pth_pqueue option \<Rightarrow> ptr option" where
  "pth_pqueue_tail h q =
     (case q of None \<Rightarrow> Some NULL
      | Some q \<Rightarrow> if q_head q = NULL then Some NULL else fld q_prev h (q_head q))"

definition pth_pqueue_walk ::
  "tcb_heap \<Rightarrow> pth_pqueue option \<Rightarrow> ptr \<Rightarrow> walk_dir \<Rightarrow> ptr option" where
  "pth_pqueue_walk h q t direction =
     (case q of None \<Rightarrow> Some NULL
      | Some q \<Rightarrow>
          if t = NULL then Some NULL
          else
            (case direction of
               PTH_WALK_PREV \<Rightarrow>
                 if t \<noteq> q_head q then fld q_prev h t else Some NULL
             | PTH_WALK_NEXT \<Rightarrow>
                 do { tn \<leftarrow> fld q_next h t; Some (if tn = q_head q then NULL else tn) }))"

section \<open>Insertion and removal\<close>

partial_function (option) pth_pqueue_insert_loop ::
  "tcb_heap \<Rightarrow> ptr \<Rightarrow> int \<Rightarrow> ptr \<Rightarrow> int \<Rightarrow> (ptr \<times> int) option" where
  "pth_pqueue_insert_loop h head pr c p =
     do {
       nx \<leftarrow> fld q_next h c;
       d \<leftarrow> fld q_prio h nx;
       if p - d \<ge> pr \<and> nx \<noteq> head
       then pth_pqueue_insert_loop h head pr nx (p - d)
       else Some (c, p)
     }"

declare pth_pqueue_insert_loop.simps [code]

definition pth_pqueue_insert ::
  "tcb_heap \<Rightarrow> pth_pqueue option \<Rightarrow> int \<Rightarrow> ptr \<Rightarrow> (tcb_heap \<times> pth_pqueue option) option" where
  "pth_pqueue_insert h q prio' t =
     (case q of None \<Rightarrow> Some (h, None)
      | Some q \<Rightarrow>
          do {
            (h, q) \<leftarrow>
              (if q_head q = NULL \<or> q_num q = 0
               then do {
                 h \<leftarrow> setf q_prev_update h t t;
                 h \<leftarrow> setf q_next_update h t t;
                 h \<leftarrow> setf q_prio_update h t prio';
                 Some (h, q\<lparr>q_head := t\<rparr>)
               }
               else do {
                 hp \<leftarrow> fld q_prio h (q_head q);
                 if hp < prio'
                 then do {
                   pv \<leftarrow> fld q_prev h (q_head q);
                   h \<leftarrow> setf q_prev_update h t pv;
                   h \<leftarrow> setf q_next_update h t (q_head q);
                   pv \<leftarrow> fld q_prev h t;
                   h \<leftarrow> setf q_next_update h pv t;
                   nx \<leftarrow> fld q_next h t;
                   h \<leftarrow> setf q_prev_update h nx t;
                   h \<leftarrow> setf q_prio_update h t prio';
                   np \<leftarrow> fld q_prio h nx;
                   h \<leftarrow> setf q_prio_update h nx (prio' - np);
                   Some (h, q\<lparr>q_head := t\<rparr>)
                 }
                 else do {
                   (c, p) \<leftarrow> pth_pqueue_insert_loop h (q_head q) prio' (q_head q) hp;
                   h \<leftarrow> setf q_prev_update h t c;
                   nx \<leftarrow> fld q_next h c;
                   h \<leftarrow> setf q_next_update h t nx;
                   pv \<leftarrow> fld q_prev h t;
                   h \<leftarrow> setf q_next_update h pv t;
                   nx \<leftarrow> fld q_next h t;
                   h \<leftarrow> setf q_prev_update h nx t;
                   h \<leftarrow> setf q_prio_update h t (p - prio');
                   nx \<leftarrow> fld q_next h t;
                   h \<leftarrow> (if nx \<noteq> q_head q
                        then do {
                          np \<leftarrow> fld q_prio h nx;
                          tp \<leftarrow> fld q_prio h t;
                          setf q_prio_update h nx (np - tp)
                        }
                        else Some h);
                   Some (h, q)
                 }
               });
            bp \<leftarrow> fld prio h t;
            Some (h, Some (q\<lparr>q_num := q_num q + 1,
                             total_prio := total_prio q + word_of_int (bp + 1)\<rparr>))
          })"

definition pth_pqueue_delmax ::
  "tcb_heap \<Rightarrow> pth_pqueue option \<Rightarrow> (tcb_heap \<times> pth_pqueue option \<times> ptr) option" where
  "pth_pqueue_delmax h q =
     (case q of None \<Rightarrow> Some (h, None, NULL)
      | Some q \<Rightarrow>
          if q_head q = NULL then Some (h, Some q, NULL)
          else do {
            nx \<leftarrow> fld q_next h (q_head q);
            if nx = q_head q
            then do {
              let t = q_head q;
              h \<leftarrow> setf q_next_update h t NULL;
              h \<leftarrow> setf q_prev_update h t NULL;
              h \<leftarrow> setf q_prio_update h t 0;
              Some (h, Some (q\<lparr>q_head := NULL, q_num := 0\<rparr>), t)
            }
            else do {
              let t = q_head q;
              pv \<leftarrow> fld q_prev h t;
              nx \<leftarrow> fld q_next h t;
              h \<leftarrow> setf q_next_update h pv nx;
              nx \<leftarrow> fld q_next h t;
              pv \<leftarrow> fld q_prev h t;
              h \<leftarrow> setf q_prev_update h nx pv;
              tp \<leftarrow> fld q_prio h t;
              np \<leftarrow> fld q_prio h nx;
              h \<leftarrow> setf q_prio_update h nx (tp - np);
              h \<leftarrow> setf q_prio_update h t 0;
              nx \<leftarrow> fld q_next h t;
              Some (h, Some (q\<lparr>q_head := nx, q_num := q_num q - 1\<rparr>), t)
            }
          })"

definition pth_pqueue_delete ::
  "tcb_heap \<Rightarrow> pth_pqueue option \<Rightarrow> ptr \<Rightarrow> (tcb_heap \<times> pth_pqueue option) option" where
  "pth_pqueue_delete h q t =
     (case q of None \<Rightarrow> Some (h, None)
      | Some q \<Rightarrow>
          if q_head q = NULL then Some (h, Some q)
          else if q_head q = t
          then do {
            nx \<leftarrow> fld q_next h t;
            if nx = t
            then do {
              h \<leftarrow> setf q_next_update h t NULL;
              h \<leftarrow> setf q_prev_update h t NULL;
              h \<leftarrow> setf q_prio_update h t 0;
              Some (h, Some (q\<lparr>q_head := NULL, q_num := 0\<rparr>))
            }
            else do {
              pv \<leftarrow> fld q_prev h t;
              h \<leftarrow> setf q_next_update h pv nx;
              nx \<leftarrow> fld q_next h t;
              pv \<leftarrow> fld q_prev h t;
              h \<leftarrow> setf q_prev_update h nx pv;
              tp \<leftarrow> fld q_prio h t;
              np \<leftarrow> fld q_prio h nx;
              h \<leftarrow> setf q_prio_update h nx (tp - np);
              h \<leftarrow> setf q_prio_update h t 0;
              nx \<leftarrow> fld q_next h t;
              Some (h, Some (q\<lparr>q_head := nx, q_num := q_num q - 1\<rparr>))
            }
          }
          else do {
            pv \<leftarrow> fld q_prev h t;
            nx \<leftarrow> fld q_next h t;
            h \<leftarrow> setf q_next_update h pv nx;
            nx \<leftarrow> fld q_next h t;
            pv \<leftarrow> fld q_prev h t;
            h \<leftarrow> setf q_prev_update h nx pv;
            nx \<leftarrow> fld q_next h t;
            h \<leftarrow> (if nx \<noteq> q_head q
                 then do {
                   np \<leftarrow> fld q_prio h nx;
                   tp \<leftarrow> fld q_prio h t;
                   setf q_prio_update h nx (np + tp)
                 }
                 else Some h);
            h \<leftarrow> setf q_prio_update h t 0;
            Some (h, Some (q\<lparr>q_num := q_num q - 1\<rparr>))
          })"

definition pth_pqueue_favorite ::
  "tcb_heap \<Rightarrow> pth_pqueue option \<Rightarrow> ptr \<Rightarrow> (tcb_heap \<times> pth_pqueue option \<times> bool) option" where
  "pth_pqueue_favorite h q t =
     (case q of None \<Rightarrow> Some (h, None, False)
      | Some q \<Rightarrow>
          if q_head q = NULL \<or> q_num q = 0 then Some (h, Some q, False)
          else if q_num q = 1 then Some (h, Some q, True)
          else do {
            (h, q) \<leftarrow> pth_pqueue_delete h (Some q) t;
            q' \<leftarrow> q;
            p \<leftarrow> pth_pqueue_favorite_prio h q';
            (h, q) \<leftarrow> pth_pqueue_insert h q p t;
            Some (h, q, True)
          })"

definition pth_pqueue_increase ::
  "tcb_heap \<Rightarrow> pth_pqueue option \<Rightarrow> tcb_heap option" where
  "pth_pqueue_increase h q =
     (case q of None \<Rightarrow> Some h
      | Some q \<Rightarrow>
          if q_head q = NULL then Some h
          else do { p \<leftarrow> fld q_prio h (q_head q); setf q_prio_update h (q_head q) (p + 1) })"

section \<open>Iteration over the threads of a queue\<close>

text \<open>The C loops \<open>for (c = q->q_head; c != NULL; c = pth_pqueue_walk(q, c, PTH_WALK_NEXT))\<close>:
  \<open>pq_foreach\<close> runs the body at every thread, \<open>pq_find\<close> leaves the loop at the first thread
  that satisfies the test and returns it, or \<open>NULL\<close> at the end of the queue.\<close>

partial_function (option) pq_foreach ::
  "(tcb_heap \<Rightarrow> 's \<Rightarrow> ptr \<Rightarrow> (tcb_heap \<times> 's) option) \<Rightarrow> pth_pqueue \<Rightarrow> tcb_heap \<Rightarrow> 's \<Rightarrow> ptr \<Rightarrow>
     (tcb_heap \<times> 's) option" where
  "pq_foreach body q h s c =
     (if c = NULL then Some (h, s)
      else do {
        (h, s) \<leftarrow> body h s c;
        c \<leftarrow> pth_pqueue_walk h (Some q) c PTH_WALK_NEXT;
        pq_foreach body q h s c
      })"

partial_function (option) pq_find ::
  "(tcb_heap \<Rightarrow> ptr \<Rightarrow> bool option) \<Rightarrow> pth_pqueue option \<Rightarrow> tcb_heap \<Rightarrow> ptr \<Rightarrow> ptr option" where
  "pq_find P q h c =
     (if c = NULL then Some NULL
      else do {
        b \<leftarrow> P h c;
        if b then Some c
        else do { c \<leftarrow> pth_pqueue_walk h q c PTH_WALK_NEXT; pq_find P q h c }
      })"

declare pq_foreach.simps [code] pq_find.simps [code]

definition pth_pqueue_contains :: "tcb_heap \<Rightarrow> pth_pqueue option \<Rightarrow> ptr \<Rightarrow> bool option" where
  "pth_pqueue_contains h q t =
     do {
       c \<leftarrow> pq_find (\<lambda>h tc. Some (tc = t)) q h (pth_pqueue_head q);
       Some (c \<noteq> NULL)
     }"

section \<open>The abstract view\<close>

definition pq_shape :: "tcb_heap \<Rightarrow> pth_pqueue \<Rightarrow> ptr list \<Rightarrow> bool" where
  "pq_shape h q ts \<longleftrightarrow>
     q_head q = (if ts = [] then NULL else hd ts) \<and> q_num q = int (length ts) \<and>
     cdll (fld q_next h) (fld q_prev h) ts"

text \<open>\<open>decoded d p xs\<close>: behind a thread of priority \<open>p\<close>, the difference fields \<open>d\<close> encode the
  priorities of \<open>xs\<close>.\<close>

fun decoded :: "(ptr \<rightharpoonup> int) \<Rightarrow> int \<Rightarrow> (ptr \<times> int) list \<Rightarrow> bool" where
  "decoded d p [] \<longleftrightarrow> True"
| "decoded d p ((t, k) # xs) \<longleftrightarrow> d t = Some (p - k) \<and> decoded d k xs"

definition prios_of :: "(ptr \<rightharpoonup> int) \<Rightarrow> (ptr \<times> int) list \<Rightarrow> bool" where
  "prios_of d xs \<longleftrightarrow>
     (case xs of [] \<Rightarrow> True | (t, k) # ys \<Rightarrow> d t = Some k \<and> decoded d k ys)"

definition pq_rep :: "tcb_heap \<Rightarrow> pth_pqueue \<Rightarrow> (ptr \<times> int) list \<Rightarrow> bool" where
  "pq_rep h q xs \<longleftrightarrow>
     pq_shape h q (map fst xs) \<and> prios_of (fld q_prio h) xs"

text \<open>\<open>desc xs\<close>: the priorities do not increase along the queue. The lemmas below do not need it:
  the links and the encoding survive every operation whether or not the queue is sorted.\<close>

abbreviation desc :: "(ptr \<times> int) list \<Rightarrow> bool" where
  "desc xs \<equiv> sorted_wrt (\<ge>) (map snd xs)"

definition pq_insert_at :: "int \<Rightarrow> ptr \<Rightarrow> (ptr \<times> int) list \<Rightarrow> (ptr \<times> int) list" where
  "pq_insert_at pr t xs =
     takeWhile (\<lambda>x. snd x \<ge> pr) xs @ (t, pr) # dropWhile (\<lambda>x. snd x \<ge> pr) xs"

section \<open>Facts about represented queues\<close>

lemma pq_shape_alloc: "pq_shape h q ts \<Longrightarrow> t \<in> set ts \<Longrightarrow> t \<in> alloc h"
  by (auto simp: pq_shape_def intro: cdll_alloc)

lemma pq_shape_head:
  assumes "pq_shape h q (t # ts)"
  shows "q_head q = t" "t \<in> alloc h" "q_num q = 1 + int (length ts)"
  using assms pq_shape_alloc [OF assms] by (auto simp: pq_shape_def)

lemma pq_shape_Nil: "pq_shape h q [] \<longleftrightarrow> q_head q = NULL \<and> q_num q = 0"
  by (simp add: pq_shape_def)

lemma decoded_cong:
  "(\<And>t. t \<in> fst ` set xs \<Longrightarrow> d' t = d t) \<Longrightarrow> decoded d' p xs \<longleftrightarrow> decoded d p xs"
  by (induction d p xs rule: decoded.induct) auto

lemma decoded_append:
  "decoded d p (xs @ ys) \<longleftrightarrow> decoded d p xs \<and> decoded d (snd (last ((0, p) # xs))) ys"
  by (induction d p xs rule: decoded.induct) auto

lemma pq_insert_loop:
  assumes "cdll (fld q_next h) (fld q_prev h) (as @ c # map fst bs)"
    and "hook = hd (as @ [c])" and "decoded (fld q_prio h) p bs"
  shows "pth_pqueue_insert_loop h hook pr c p = Some (last ((c, p) # takeWhile (\<lambda>x. snd x \<ge> pr) bs))"
  using assms
proof (induction bs arbitrary: as c p)
  case Nil
  have "hook \<in> alloc h" using cdll_alloc [OF Nil.prems(1)] Nil.prems(2) by (cases as) auto
  then obtain v where "fld q_prio h hook = Some v" using alloc_fld [of hook h q_prio] by blast
  moreover have "fld q_next h c = Some hook"
    using cdll_last(1) [OF Nil.prems(1)] Nil.prems(2) by simp
  ultimately show ?case by (subst pth_pqueue_insert_loop.simps) simp
next
  case (Cons b bs)
  obtain t k where b: "b = (t, k)" by force
  have "fld q_next h c = Some t"
    using cdll_step(1) [of _ _ as c t "map fst bs"] Cons.prems(1) b by simp
  moreover have "t \<noteq> hook"
    using cdll_distinct [OF Cons.prems(1)] Cons.prems(2) b by (cases as) auto
  moreover have "fld q_prio h t = Some (p - k)" using Cons.prems(3) b by simp
  moreover have "pth_pqueue_insert_loop h hook pr t k =
      Some (last ((t, k) # takeWhile (\<lambda>x. snd x \<ge> pr) bs))"
    using Cons.IH [of "as @ [c]" t k] Cons.prems b by (cases as) auto
  ultimately show ?case
    unfolding b by (simp add: pth_pqueue_insert_loop.simps [of h hook pr c p])
qed

section \<open>Frames\<close>

text \<open>\<open>same_data h h'\<close>: the two heaps differ in the queue fields of the threads at most.\<close>

definition unlinked :: "pth_st \<Rightarrow> pth_st" where
  "unlinked x = x\<lparr>q_next := NULL, q_prev := NULL, q_prio := 0\<rparr>"

abbreviation same_data :: "tcb_heap \<Rightarrow> tcb_heap \<Rightarrow> bool" where
  "same_data \<equiv> same_upto unlinked"

lemma unlinked_upd [simp]:
  "unlinked (x\<lparr>q_next := v\<rparr>) = unlinked x"
  "unlinked (x\<lparr>q_prev := v\<rparr>) = unlinked x"
  "unlinked (x\<lparr>q_prio := w\<rparr>) = unlinked x"
  by (simp_all add: unlinked_def)

lemmas same_data_fld = same_upto_fld [where u = unlinked]

section \<open>Insertion\<close>

lemma set_insert_at: "set (pq_insert_at pr t xs) = insert (t, pr) (set xs)"
proof -
  have "set (takeWhile P xs) \<union> set (dropWhile P xs) = set xs" for P
    by (metis set_append takeWhile_dropWhile_id)
  then show ?thesis by (auto simp: pq_insert_at_def)
qed

lemma sorted_insert_at: "desc xs \<Longrightarrow> desc (pq_insert_at pr t xs)"
proof (induction xs)
  case (Cons x xs)
  show ?case
  proof (cases "snd x \<ge> pr")
    case True
    then have "pq_insert_at pr t (x # xs) = x # pq_insert_at pr t xs"
      by (simp add: pq_insert_at_def)
    then show ?thesis using Cons True by (auto simp: set_insert_at)
  next
    case False
    then show ?thesis using Cons.prems by (fastforce simp: pq_insert_at_def)
  qed
qed (simp add: pq_insert_at_def)

lemma pq_insert_empty:
  fixes pr :: int
  assumes t: "t \<in> alloc h" and q: "q_head q = NULL" "q_num q = 0" and b: "fld prio h t = Some bp"
  defines "h' \<equiv> hset q_prio_update (hset q_next_update (hset q_prev_update h t t) t t) t pr"
    and "q' \<equiv> q\<lparr>q_head := t, q_num := 1, total_prio := total_prio q + word_of_int (bp + 1)\<rparr>"
  shows "pth_pqueue_insert h (Some q) pr t = Some (h', Some q')" and "pq_rep h' q' [(t, pr)]"
    and "heap_frame {t} h h'" and "same_data h h'"
  using t q b
  by (auto simp: pth_pqueue_insert_def h'_def q'_def mem_simps pq_rep_def pq_shape_def prios_of_def
      intro: cdll_singleton)

lemma pq_insert_head:
  assumes r: "pq_rep h q ((t0, k0) # xs)" and t: "t \<in> alloc h" "t \<notin> insert t0 (fst ` set xs)"
    and k: "k0 < pr" and b: "fld prio h t = Some bp"
  shows "\<exists>h'. pth_pqueue_insert h (Some q) pr t =
           Some (h', Some (q\<lparr>q_head := t, q_num := q_num q + 1,
                             total_prio := total_prio q + word_of_int (bp + 1)\<rparr>)) \<and>
         pq_rep h' (q\<lparr>q_head := t, q_num := q_num q + 1,
                     total_prio := total_prio q + word_of_int (bp + 1)\<rparr>) ((t, pr) # (t0, k0) # xs) \<and>
         heap_frame (insert t (insert t0 (fst ` set xs))) h h' \<and> same_data h h'"
proof -
  let ?ts = "t0 # map fst xs"
  from r have sh: "pq_shape h q ?ts" and pr0: "fld q_prio h t0 = Some k0"
    and dec: "decoded (fld q_prio h) k0 xs"
    by (auto simp: pq_rep_def prios_of_def)
  from sh have c: "cdll (fld q_next h) (fld q_prev h) ?ts" by (simp add: pq_shape_def)
  note hd = pq_shape_head [OF sh]
  define l where "l = last ?ts"
  have l: "l \<in> set ?ts" unfolding l_def by (rule last_in_set) simp
  then have la: "l \<in> alloc h" by (rule pq_shape_alloc [OF sh])
  have pv: "fld q_prev h t0 = Some l" using cdll_last(2) [OF c] by (simp add: l_def)
  have neq: "t \<noteq> t0" "t \<noteq> l" using t(2) l by auto
  define h' where "h' = hset q_prio_update (hset q_prio_update (hset q_prev_update
      (hset q_next_update (hset q_next_update (hset q_prev_update h t l) t t0) l t) t0 t) t pr)
      t0 (pr - k0)"
  have "pth_pqueue_insert h (Some q) pr t = Some (h', Some (q\<lparr>q_head := t, q_num := q_num q + 1,
      total_prio := total_prio q + word_of_int (bp + 1)\<rparr>))"
    using t(1) hd(2) la pv neq k pr0 b
    by (simp add: pth_pqueue_insert_def hd(1,3) h'_def mem_simps)
  moreover have "cdll (fld q_next h') (fld q_prev h') (?ts @ [t])"
    using cdll_add [OF c _ _ alloc_not_NULL [OF t(1)]] t hd(2) la
    by (simp add: h'_def mem_simps l_def)
  then have "cdll (fld q_next h') (fld q_prev h') (t # ?ts)" using cdll_rotate by fastforce
  moreover have "decoded (fld q_prio h') k0 xs"
    using dec t hd(2) cdll_distinct [OF c]
    by (subst decoded_cong [where d = "fld q_prio h"]) (auto simp: h'_def mem_simps)
  then have "prios_of (fld q_prio h') ((t, pr) # (t0, k0) # xs)"
    using t(1) hd(2) neq by (simp add: prios_of_def h'_def mem_simps)
  moreover have "heap_frame (insert t (insert t0 (fst ` set xs))) h h'"
    using l by (auto simp: h'_def)
  moreover have "same_data h h'" by (simp add: h'_def)
  ultimately show ?thesis
    using k hd by (auto simp: pq_rep_def pq_shape_def)
qed

lemma prios_of_append:
  "prios_of d (as @ (c, p) # bs) \<longleftrightarrow> prios_of d (as @ [(c, p)]) \<and> decoded d p bs"
  by (cases as) (auto simp: prios_of_def decoded_append)

lemma prios_of_cong:
  "(\<And>t. t \<in> fst ` set xs \<Longrightarrow> d' t = d t) \<Longrightarrow> prios_of d' xs \<longleftrightarrow> prios_of d xs"
  using decoded_cong [of "tl xs" d' d] by (cases xs) (auto simp: prios_of_def)

lemma pq_insert_mid:
  assumes r: "pq_rep h q (as @ (c, p) # bs)" and t: "t \<in> alloc h" "t \<notin> fst ` set (as @ (c, p) # bs)"
    and as: "\<forall>x \<in> set (as @ [(c, p)]). snd x \<ge> pr" and bs: "bs \<noteq> [] \<Longrightarrow> snd (hd bs) < pr"
    and b: "fld prio h t = Some bp"
  shows "\<exists>h'. pth_pqueue_insert h (Some q) pr t =
           Some (h', Some (q\<lparr>q_num := q_num q + 1,
                             total_prio := total_prio q + word_of_int (bp + 1)\<rparr>)) \<and>
         pq_shape h' (q\<lparr>q_num := q_num q + 1,
                       total_prio := total_prio q + word_of_int (bp + 1)\<rparr>)
           (map fst (as @ (c, p) # (t, pr) # bs)) \<and>
         prios_of (fld q_prio h') (as @ (c, p) # (t, pr) # bs) \<and>
         heap_frame (insert t (fst ` set (as @ (c, p) # bs))) h h' \<and> same_data h h'"
proof -
  let ?xs = "as @ (c, p) # bs" and ?ts = "map fst as @ c # map fst bs"
  from r have sh: "pq_shape h q ?ts" and dec: "prios_of (fld q_prio h) ?xs"
    by (auto simp: pq_rep_def)
  from sh have cd: "cdll (fld q_next h) (fld q_prev h) ?ts"
    and q: "q_head q = hd ?ts" "q_num q = int (length ?ts)" by (simp_all add: pq_shape_def)
  obtain t0 k0 ys where xs: "?xs = (t0, k0) # ys" by (cases as) auto
  then have t0: "hd ?ts = t0" "?ts = t0 # map fst ys" by (cases as; auto)+
  have tw: "takeWhile (\<lambda>x. snd x \<ge> pr) ?xs = as @ [(c, p)]"
    using as bs by (cases bs) (auto simp: takeWhile_append)
  have k0: "k0 \<ge> pr" "fld q_prio h t0 = Some k0" using as dec xs
    by (cases as; auto simp: prios_of_def)+
  have "pth_pqueue_insert_loop h t0 pr t0 k0 =
      Some (last ((t0, k0) # takeWhile (\<lambda>x. snd x \<ge> pr) ys))"
    using pq_insert_loop [of h "[]" t0 ys t0 k0 pr] cd dec t0 xs by (simp add: prios_of_def)
  also have "(t0, k0) # takeWhile (\<lambda>x. snd x \<ge> pr) ys = as @ [(c, p)]"
    using tw xs k0(1) by simp
  finally have loop: "pth_pqueue_insert_loop h t0 pr t0 k0 = Some (c, p)" by simp
  define d where "d = hd (map fst bs @ map fst as @ [c])"
  have nx: "fld q_next h c = Some d" using cdll_neighbours(1) [OF cd] by (simp add: d_def)
  have din: "d \<in> set ?ts" unfolding d_def by (cases bs; cases as) auto
  have "c \<in> set ?ts" "t0 \<in> set ?ts" by simp (simp only: t0(2) list.set_intros)
  then have al: "c \<in> alloc h" "d \<in> alloc h" "t0 \<in> alloc h"
    using din by (auto simp only: intro: pq_shape_alloc [OF sh])
  have neq: "t \<noteq> c" "t \<noteq> d" using t(2) din by auto
  have dh: "d \<noteq> t0 \<longleftrightarrow> bs \<noteq> []"
    using cdll_distinct [OF cd] unfolding t0(1) [symmetric] by (cases bs; cases as) (auto simp: d_def)
  obtain dp where dp: "fld q_prio h d = Some dp" using alloc_fld [OF al(2), of q_prio] by blast
  define h1 where "h1 = hset q_prio_update (hset q_prev_update (hset q_next_update
      (hset q_next_update (hset q_prev_update h t c) t d) c t) d t) t (p - pr)"
  define h' where "h' = (if bs = [] then h1 else hset q_prio_update h1 d (dp - (p - pr)))"
  have "pth_pqueue_insert h (Some q) pr t = Some (h', Some (q\<lparr>q_num := q_num q + 1,
      total_prio := total_prio q + word_of_int (bp + 1)\<rparr>))"
    using t(1) al nx neq dp b k0 loop dh
    by (simp add: pth_pqueue_insert_def q t0 h1_def h'_def mem_simps)
  moreover have "cdll (fld q_next h') (fld q_prev h') (map fst as @ c # t # map fst bs)"
    using cdll_insert [OF cd _ alloc_not_NULL [OF t(1)] d_def] t al
    by (auto simp add: h1_def h'_def mem_simps image_Un)
  moreover have "prios_of (fld q_prio h') (as @ (c, p) # (t, pr) # bs)"
  proof -
    have other: "fld q_prio h' a = fld q_prio h a" if "a \<noteq> t" "bs \<noteq> [] \<Longrightarrow> a \<noteq> d" for a
      using that al t(1) by (simp add: h1_def h'_def mem_simps)
    have "prios_of (fld q_prio h') (as @ [(c, p)])"
    proof (subst prios_of_cong [where d = "fld q_prio h"])
      fix a assume "a \<in> fst ` set (as @ [(c, p)])"
      then have a: "a \<in> set (map fst as @ [c])" by simp
      have "a \<noteq> t" using a t(2) by auto
      moreover have "a \<noteq> d" if "bs \<noteq> []"
        using a cdll_distinct [OF cd] that by (cases bs) (auto simp: d_def)
      ultimately show "fld q_prio h' a = fld q_prio h a" by (rule other)
    qed (use prios_of_append [THEN iffD1, OF dec] in blast)
    moreover have "decoded (fld q_prio h') p ((t, pr) # bs)"
    proof (cases bs)
      case Nil
      then show ?thesis using t(1) neq al by (simp add: h1_def h'_def mem_simps)
    next
      case (Cons x bs')
      obtain u k where x: "x = (u, k)" by force
      with Cons have du: "d = u" by (simp add: d_def)
      have "decoded (fld q_prio h) p ((u, k) # bs')"
        using prios_of_append [THEN iffD1, OF dec] Cons x by simp
      moreover have "decoded (fld q_prio h') k bs' \<longleftrightarrow> decoded (fld q_prio h) k bs'"
      proof (rule decoded_cong)
        fix a assume "a \<in> fst ` set bs'"
        then show "fld q_prio h' a = fld q_prio h a"
          using other [of a] t(2) cdll_distinct [OF cd] Cons x du by (auto simp: image_iff)
      qed
      ultimately show ?thesis
        using Cons x du dp t(1) neq al by (simp add: h1_def h'_def mem_simps)
    qed
    ultimately show ?thesis using prios_of_append by blast
  qed
  moreover define A where "A = insert t (fst ` set ?xs)"
  have "t \<in> A" "c \<in> A" "d \<in> A" using din by (auto simp: A_def image_Un)
  then have "heap_frame A h h'" by (simp add: h1_def h'_def)
  moreover have "same_data h h'" by (simp add: h1_def h'_def)
  ultimately show ?thesis using q by (cases as) (auto simp: pq_shape_def A_def)
qed

lemma pq_insert:
  assumes r: "pq_rep h q xs" and t: "t \<in> alloc h" "t \<notin> fst ` set xs" and b: "fld prio h t = Some bp"
  shows "\<exists>h' q'. pth_pqueue_insert h (Some q) pr t = Some (h', Some q') \<and>
           pq_rep h' q' (pq_insert_at pr t xs) \<and>
           total_prio q' = total_prio q + word_of_int (bp + 1) \<and> total_tk q' = total_tk q \<and>
           heap_frame (insert t (fst ` set xs)) h h' \<and> same_data h h'"
proof (cases "takeWhile (\<lambda>x. snd x \<ge> pr) xs" rule: rev_cases)
  case Nil
  show ?thesis
  proof (cases xs)
    case Nil
    with r have "q_head q = NULL" "q_num q = 0" by (simp_all add: pq_rep_def pq_shape_Nil)
    from pq_insert_empty [OF t(1) this b] Nil show ?thesis by (auto simp: pq_insert_at_def)
  next
    case (Cons x ys)
    obtain t0 k0 where x: "x = (t0, k0)" by force
    with Nil Cons have k: "k0 < pr" by (auto split: if_splits)
    have r': "pq_rep h q ((t0, k0) # ys)" and t': "t \<notin> insert t0 (fst ` set ys)"
      using r t(2) Cons x by auto
    have at: "pq_insert_at pr t xs = (t, pr) # (t0, k0) # ys"
      using k Cons x by (simp add: pq_insert_at_def)
    show ?thesis unfolding at using pq_insert_head [OF r' t(1) t' k b] Cons x by auto
  qed
next
  case (snoc as x)
  obtain c p where x: "x = (c, p)" by force
  define bs where "bs = dropWhile (\<lambda>x. snd x \<ge> pr) xs"
  have xs: "xs = as @ (c, p) # bs"
    using takeWhile_dropWhile_id [of "\<lambda>x. snd x \<ge> pr" xs] snoc x by (simp add: bs_def)
  have at: "pq_insert_at pr t xs = as @ (c, p) # (t, pr) # bs"
    using snoc x by (simp add: pq_insert_at_def bs_def)
  have as: "\<forall>x \<in> set (as @ [(c, p)]). snd x \<ge> pr"
    using set_takeWhileD [of _ "\<lambda>x. snd x \<ge> pr" xs] unfolding snoc x by blast
  have bs: "bs \<noteq> [] \<Longrightarrow> snd (hd bs) < pr"
    using hd_dropWhile [of "\<lambda>x. snd x \<ge> pr" xs] by (auto simp: bs_def)
  from pq_insert_mid [OF r [unfolded xs] t(1) t(2) [unfolded xs] as bs b]
  show ?thesis unfolding at unfolding pq_rep_def xs by auto
qed

section \<open>Removal\<close>

lemma pq_neighbours:
  assumes sh: "pq_shape h q (as @ t # bs)" and ne: "as @ bs \<noteq> []"
  defines "d \<equiv> hd (bs @ as)" and "e \<equiv> last (bs @ as)"
  shows "fld q_next h t = Some d" "fld q_prev h t = Some e" "d \<noteq> t" "e \<noteq> t"
    "d \<in> set (as @ bs)" "e \<in> set (as @ bs)" "d \<in> alloc h" "e \<in> alloc h" "t \<in> alloc h"
    "cdll ((fld q_next h)(e \<mapsto> d)) ((fld q_prev h)(d \<mapsto> e)) (as @ bs)"
    "q_head q = t \<longleftrightarrow> as = []" "d \<noteq> q_head q \<longleftrightarrow> as = [] \<or> bs \<noteq> []"
proof -
  from sh have c: "cdll (fld q_next h) (fld q_prev h) (as @ t # bs)"
    and hd: "q_head q = hd (as @ t # bs)" by (simp_all add: pq_shape_def)
  have ne': "bs @ as \<noteq> []" using ne by auto
  show de: "d \<in> set (as @ bs)" "e \<in> set (as @ bs)"
    using hd_in_set [OF ne'] last_in_set [OF ne'] by (auto simp: d_def e_def)
  then show "d \<noteq> t" "e \<noteq> t" using cdll_distinct [OF c] by auto
  show "d \<in> alloc h" "e \<in> alloc h" "t \<in> alloc h"
    using de by (auto intro!: pq_shape_alloc [OF sh])
  show "fld q_next h t = Some d" "fld q_prev h t = Some e"
    using cdll_neighbours [OF c] ne' by (simp_all add: d_def e_def hd_append last_append)
  show "cdll ((fld q_next h)(e \<mapsto> d)) ((fld q_prev h)(d \<mapsto> e)) (as @ bs)"
    by (rule cdll_delete [OF c ne]) (simp_all add: d_def e_def)
  show "q_head q = t \<longleftrightarrow> as = []" using hd cdll_distinct [OF c] by (cases as) auto
  show "d \<noteq> q_head q \<longleftrightarrow> as = [] \<or> bs \<noteq> []"
    using hd cdll_distinct [OF c] ne by (cases as; cases bs) (auto simp: d_def)
qed

lemma prios_of_delete:
  assumes p: "prios_of d (as @ (t, k) # bs)" and di: "distinct (map fst (as @ (t, k) # bs))"
    and tp: "d t = Some tp"
    and other: "\<And>a. a \<noteq> t \<Longrightarrow> (bs \<noteq> [] \<Longrightarrow> a \<noteq> fst (hd bs)) \<Longrightarrow> d' a = d a"
    and next': "\<And>np. bs \<noteq> [] \<Longrightarrow> d (fst (hd bs)) = Some np \<Longrightarrow>
        d' (fst (hd bs)) = Some (if as = [] then tp - np else np + tp)"
  shows "prios_of d' (as @ bs)"
proof (cases as rule: rev_cases)
  case Nil
  show ?thesis
  proof (cases bs)
    case (Cons x bs')
    obtain u j where x: "x = (u, j)" by force
    from p Nil Cons x tp have *: "tp = k" "d u = Some (k - j)" "decoded d j bs'"
      by (auto simp: prios_of_def)
    have "decoded d' j bs' \<longleftrightarrow> decoded d j bs'"
      by (rule decoded_cong, rule other) (use di Cons x Nil in auto)
    with * next' [of "k - j"] Cons x Nil show ?thesis by (simp add: prios_of_def)
  qed (simp add: Nil prios_of_def)
next
  case (snoc as' x)
  obtain c j where x: "x = (c, j)" by force
  from p have "prios_of d (as' @ (c, j) # (t, k) # bs)" by (simp add: snoc x)
  then have *: "prios_of d (as' @ [(c, j)])" "decoded d j ((t, k) # bs)"
    using prios_of_append by blast+
  have "prios_of d' (as' @ [(c, j)]) \<longleftrightarrow> prios_of d (as' @ [(c, j)])"
  proof (rule prios_of_cong, rule other)
    fix a assume "a \<in> fst ` set (as' @ [(c, j)])"
    then have a: "a \<in> set (map fst as)" by (simp add: snoc x)
    show "a \<noteq> t" using a di by auto
    show "a \<noteq> fst (hd bs)" if "bs \<noteq> []"
      using a di that by (cases bs) (force simp: image_iff)+
  qed
  moreover have "decoded d' j bs"
  proof (cases bs)
    case (Cons y bs')
    obtain u i where y: "y = (u, i)" by force
    have "decoded d' i bs' \<longleftrightarrow> decoded d i bs'"
      by (rule decoded_cong, rule other) (use di Cons y in auto)
    with *(2) tp next' [of "k - i"] Cons y snoc show ?thesis by simp
  qed simp
  ultimately have "prios_of d' (as' @ (c, j) # bs)" using * prios_of_append by blast
  then show ?thesis by (simp add: snoc x)
qed

lemma sorted_delete:
  "desc (as @ x # bs) \<Longrightarrow> desc (as @ bs)"
  by (auto simp: sorted_wrt_append)

lemma pq_rep_parts:
  assumes "pq_rep h q xs"
  shows "pq_shape h q (map fst xs)" "prios_of (fld q_prio h) xs" "distinct (map fst xs)"
  using assms by (auto simp: pq_rep_def pq_shape_def dest: cdll_distinct)

lemma pq_delete:
  assumes r: "pq_rep h q (as @ (t, k) # bs)"
  shows "\<exists>h' q'. pth_pqueue_delete h (Some q) t = Some (h', Some q') \<and> pq_rep h' q' (as @ bs) \<and>
           total_prio q' = total_prio q \<and> total_tk q' = total_tk q \<and>
           heap_frame (fst ` set (as @ (t, k) # bs)) h h' \<and> same_data h h'"
proof (cases "as @ bs = []")
  case True
  from r True have sh: "pq_shape h q [t]" by (simp add: pq_rep_def)
  then have "fld q_next h t = Some t" by (simp add: pq_shape_def cdll_def)
  with pq_shape_head [OF sh] show ?thesis using True
    by (simp add: pth_pqueue_delete_def mem_simps pq_rep_def pq_shape_def prios_of_def)
next
  case False
  note parts = pq_rep_parts [OF r]
  have sh: "pq_shape h q (map fst as @ t # map fst bs)" using parts(1) by simp
  define d where "d = hd (map fst bs @ map fst as)"
  define e where "e = last (map fst bs @ map fst as)"
  have "map fst as @ map fst bs \<noteq> []" using False by auto
  note nb = pq_neighbours [OF sh this, folded d_def e_def]
  obtain tp where tp: "fld q_prio h t = Some tp" using alloc_fld [OF nb(9), of q_prio] by blast
  obtain np where np: "fld q_prio h d = Some np" using alloc_fld [OF nb(7), of q_prio] by blast
  have hn: "q_head q \<noteq> NULL" using sh pq_shape_alloc [OF sh]
    by (cases as) (auto simp: pq_shape_def dest: alloc_not_NULL)
  define h1 where "h1 = hset q_prev_update (hset q_next_update h e d) d e"
  define h' where "h' = hset q_prio_update
      (if as = [] then hset q_prio_update h1 d (tp - np)
       else if bs \<noteq> [] then hset q_prio_update h1 d (np + tp) else h1) t 0"
  define q' where "q' = q\<lparr>q_head := (if as = [] then d else q_head q), q_num := q_num q - 1\<rparr>"
  have "pth_pqueue_delete h (Some q) t = Some (h', Some q')"
    using nb tp np hn by (simp add: pth_pqueue_delete_def h1_def h'_def q'_def mem_simps)
  moreover have "pq_shape h' q' (map fst (as @ bs))"
    using nb sh False
    by (cases as; cases bs) (auto simp: pq_shape_def q'_def h1_def h'_def mem_simps d_def)
  moreover have "prios_of (fld q_prio h') (as @ bs)"
  proof (rule prios_of_delete [OF parts(2,3) tp])
    fix a assume "a \<noteq> t" "bs \<noteq> [] \<Longrightarrow> a \<noteq> fst (hd bs)"
    then show "fld q_prio h' a = fld q_prio h a"
      using nb False by (cases bs) (auto simp: h1_def h'_def mem_simps d_def)
  next
    fix m assume "bs \<noteq> []" "fld q_prio h (fst (hd bs)) = Some m"
    then show "fld q_prio h' (fst (hd bs)) = Some (if as = [] then tp - m else m + tp)"
      using nb np by (cases bs) (auto simp: h1_def h'_def mem_simps d_def)
  qed
  moreover define A where "A = fst ` set (as @ (t, k) # bs)"
  have "t \<in> A" "d \<in> A" "e \<in> A" using nb(5,6) by (auto simp: A_def image_Un)
  then have "heap_frame A h h'" by (simp add: h1_def h'_def)
  moreover have "same_data h h'" by (simp add: h1_def h'_def)
  moreover have "total_prio q' = total_prio q" "total_tk q' = total_tk q" by (simp_all add: q'_def)
  ultimately show ?thesis unfolding pq_rep_def A_def by blast
qed

text \<open>\<open>pth_pqueue_delmax\<close> is \<open>pth_pqueue_delete\<close> at the head.\<close>

lemma delmax_delete:
  "q_head q \<noteq> NULL \<Longrightarrow> pth_pqueue_delmax h (Some q) =
     do { (h, q') \<leftarrow> pth_pqueue_delete h (Some q) (q_head q); Some (h, q', q_head q) }"
  by (cases "fld q_next h (q_head q)")
    (auto simp: pth_pqueue_delmax_def pth_pqueue_delete_def Let_def)

lemma pq_delmax:
  assumes r: "pq_rep h q ((t, k) # xs)"
  shows "\<exists>h' q'. pth_pqueue_delmax h (Some q) = Some (h', Some q', t) \<and> pq_rep h' q' xs \<and>
           total_prio q' = total_prio q \<and> heap_frame (insert t (fst ` set xs)) h h' \<and> same_data h h'"
proof -
  from r have "pq_shape h q (t # map fst xs)" by (simp add: pq_rep_def)
  from pq_shape_head [OF this] have "q_head q = t" "q_head q \<noteq> NULL" by (auto dest: alloc_not_NULL)
  with pq_delete [of h q "[]" t k xs] r show ?thesis by (auto simp: delmax_delete)
qed

lemma pq_delmax_empty: "pq_rep h q [] \<Longrightarrow> pth_pqueue_delmax h (Some q) = Some (h, Some q, NULL)"
  by (simp add: pq_rep_def pq_shape_Nil pth_pqueue_delmax_def)

lemma pq_favorite_prio:
  assumes "pq_rep h q ((t, k) # xs)"
  shows "pth_pqueue_favorite_prio h q = Some (k + 1)"
proof -
  from assms have "pq_shape h q (t # map fst xs)" "fld q_prio h t = Some k"
    by (simp_all add: pq_rep_def prios_of_def)
  with pq_shape_head [OF this(1)] show ?thesis
    by (auto simp: pth_pqueue_favorite_prio_def dest: alloc_not_NULL)
qed

lemma pq_favorite:
  assumes r: "pq_rep h q (as @ (t, k) # bs)" and ne: "as @ bs \<noteq> []" and b: "fld prio h t = Some bp"
  shows "\<exists>h' q'. pth_pqueue_favorite h (Some q) t = Some (h', Some q', True) \<and>
           pq_rep h' q' ((t, snd (hd (as @ bs)) + 1) # as @ bs) \<and>
           total_prio q' = total_prio q + word_of_int (bp + 1) \<and> same_data h h'"
proof -
  obtain u j ys where ys: "as @ bs = (u, j) # ys" using ne by (cases "as @ bs") auto
  from pq_delete [OF r] obtain h1 q1 where 1: "pth_pqueue_delete h (Some q) t = Some (h1, Some q1)"
    "pq_rep h1 q1 (as @ bs)" "total_prio q1 = total_prio q" "same_data h h1"
    "heap_frame (fst ` set (as @ (t, k) # bs)) h h1" by blast
  have "pq_shape h q (map fst as @ t # map fst bs)" using r by (simp add: pq_rep_def)
  then have hd: "t \<in> alloc h" "q_head q \<noteq> NULL" "q_num q > 1"
    using pq_shape_alloc [of h q "map fst as @ t # map fst bs"] ne
    by (cases as; auto simp: pq_shape_def dest: alloc_not_NULL)+
  have t: "t \<in> alloc h1" "t \<notin> fst ` set (as @ bs)" "fld prio h1 t = Some bp"
    using hd(1) heap_frame_alloc [OF 1(5)] pq_rep_parts(3) [OF r] b same_data_fld [OF 1(4), of prio]
    by (auto simp: unlinked_def)
  have fp: "pth_pqueue_favorite_prio h1 q1 = Some (j + 1)"
    using pq_favorite_prio 1(2) ys by simp
  have at: "pq_insert_at (j + 1) t (as @ bs) = (t, j + 1) # as @ bs"
    by (simp add: pq_insert_at_def ys)
  from pq_insert [OF 1(2) t, of "j + 1"] obtain h2 q2 where
    2: "pth_pqueue_insert h1 (Some q1) (j + 1) t = Some (h2, Some q2)"
    "pq_rep h2 q2 ((t, j + 1) # as @ bs)"
    "total_prio q2 = total_prio q1 + word_of_int (bp + 1)" "same_data h1 h2"
    unfolding at by blast
  show ?thesis
    using 1 2 fp hd ys same_upto_trans [OF 1(4) 2(4)] by (auto simp: pth_pqueue_favorite_def)
qed

text \<open>Raising the stored priority of the head raises every decoded priority.\<close>

lemma pq_increase:
  assumes r: "pq_rep h q xs"
  shows "\<exists>h'. pth_pqueue_increase h (Some q) = Some h' \<and>
           pq_rep h' q (map (\<lambda>(t, k). (t, k + 1)) xs)"
proof (cases xs)
  case Nil
  with r show ?thesis by (simp add: pth_pqueue_increase_def pq_rep_def pq_shape_Nil prios_of_def)
next
  case (Cons x ys)
  obtain t k where x: "x = (t, k)" by force
  note p = pq_rep_parts [OF r, unfolded Cons x, simplified]
  note hd = pq_shape_head [OF p(1)]
  define h' where "h' = hset q_prio_update h t (k + 1)"
  have sh: "map fst (map (\<lambda>(t, k). (t, k + 1)) zs) = map fst zs" for zs :: "(ptr \<times> int) list"
    by (induction zs) auto
  have dec: "decoded d j zs \<Longrightarrow> decoded d (j + 1) (map (\<lambda>(t, k). (t, k + 1)) zs)"
    for d :: "ptr \<rightharpoonup> int" and j zs
    by (induction d j zs rule: decoded.induct) auto
  have "decoded (fld q_prio h') k ys \<longleftrightarrow> decoded (fld q_prio h) k ys"
    using p(3) hd(2) by (intro decoded_cong) (auto simp: h'_def mem_simps)
  then have "prios_of (fld q_prio h') (map (\<lambda>(t, k). (t, k + 1)) xs)"
    using p(2) hd(2) dec Cons x by (simp add: prios_of_def h'_def mem_simps)
  moreover have "pq_shape h' q (map fst xs)"
    using p(1) Cons x by (simp add: pq_shape_def h'_def mem_simps)
  moreover have "pth_pqueue_increase h (Some q) = Some h'"
    using p(2) hd Cons x by (simp add: pth_pqueue_increase_def h'_def mem_simps prios_of_def)
  ultimately show ?thesis unfolding pq_rep_def sh by blast
qed

section \<open>Walking\<close>

lemma pq_walk_next:
  assumes "pq_shape h q (as @ t # bs)"
  shows "pth_pqueue_walk h (Some q) t PTH_WALK_NEXT = Some (if bs = [] then NULL else hd bs)"
proof -
  from assms have c: "cdll (fld q_next h) (fld q_prev h) (as @ t # bs)"
    and q: "q_head q = hd (as @ t # bs)" by (simp_all add: pq_shape_def)
  have "t \<noteq> 0" using pq_shape_alloc [OF assms] by (auto dest: alloc_not_NULL)
  then show ?thesis
    using cdll_neighbours(1) [OF c] q cdll_distinct [OF c]
    by (cases bs; cases as) (auto simp: pth_pqueue_walk_def)
qed

lemma pq_walk_prev:
  assumes "pq_shape h q (as @ t # bs)"
  shows "pth_pqueue_walk h (Some q) t PTH_WALK_PREV = Some (if as = [] then NULL else last as)"
proof -
  from assms have c: "cdll (fld q_next h) (fld q_prev h) (as @ t # bs)"
    and q: "q_head q = hd (as @ t # bs)" by (simp_all add: pq_shape_def)
  have "t \<noteq> 0" using pq_shape_alloc [OF assms] by (auto dest: alloc_not_NULL)
  then show ?thesis
    using cdll_neighbours(2) [OF c] q cdll_distinct [OF c]
    by (cases as) (auto simp: pth_pqueue_walk_def)
qed

lemma pq_tail:
  "pq_shape h q ts \<Longrightarrow> pth_pqueue_tail h (Some q) = Some (if ts = [] then NULL else last ts)"
proof (cases ts)
  case (Cons t us)
  assume sh: "pq_shape h q ts"
  then have "cdll (fld q_next h) (fld q_prev h) ts" by (simp add: pq_shape_def)
  from cdll_last(2) [OF this] pq_shape_head [OF sh [unfolded Cons]] Cons show ?thesis
    by (auto simp: pth_pqueue_tail_def dest: alloc_not_NULL)
qed (simp add: pq_shape_Nil pth_pqueue_tail_def)

lemma pq_find_from:
  assumes "pq_shape h q (as @ t # bs)" and "\<And>c. c \<in> set (t # bs) \<Longrightarrow> P h c = Some (p c)"
  shows "pq_find P (Some q) h t =
           Some (case find p (t # bs) of None \<Rightarrow> NULL | Some c \<Rightarrow> c)"
  using assms
proof (induction bs arbitrary: as t)
  case Nil
  have "t \<noteq> 0" using pq_shape_alloc [OF Nil.prems(1)] by (auto dest: alloc_not_NULL)
  then show ?case
    using Nil.prems(2) [of t] pq_walk_next [OF Nil.prems(1)]
    by (simp add: pq_find.simps [of P _ h])
next
  case (Cons b bs)
  have "t \<noteq> 0" using pq_shape_alloc [OF Cons.prems(1)] by (auto dest: alloc_not_NULL)
  moreover have "pq_find P (Some q) h b =
      Some (case find p (b # bs) of None \<Rightarrow> NULL | Some c \<Rightarrow> c)"
    using Cons.IH [of "as @ [t]" b] Cons.prems by simp
  ultimately show ?case
    using Cons.prems(2) [of t] pq_walk_next [OF Cons.prems(1)]
    by (simp add: pq_find.simps [of P _ h t])
qed

lemma pq_find:
  assumes sh: "pq_shape h q ts" and P: "\<And>c. c \<in> set ts \<Longrightarrow> P h c = Some (p c)"
  shows "pq_find P (Some q) h (q_head q) = Some (case find p ts of None \<Rightarrow> NULL | Some c \<Rightarrow> c)"
proof (cases ts)
  case Nil
  with sh show ?thesis by (simp add: pq_shape_Nil pq_find.simps)
next
  case (Cons t us)
  with pq_find_from [of h q "[]" t us P p] sh P pq_shape_head(1) [OF sh [unfolded Cons]]
  show ?thesis by simp
qed

lemma pq_contains:
  assumes sh: "pq_shape h q ts"
  shows "pth_pqueue_contains h (Some q) t = Some (t \<in> set ts)"
proof -
  have "find (\<lambda>c. c = t) ts = (if t \<in> set ts then Some t else None)"
    by (induction ts) auto
  moreover have "t \<in> set ts \<Longrightarrow> t \<noteq> 0"
    using pq_shape_alloc [OF sh] by (auto dest: alloc_not_NULL)
  ultimately show ?thesis
    using pq_find [OF sh, of "\<lambda>h tc. Some (tc = t)" "\<lambda>c. c = t"]
    by (auto simp: pth_pqueue_contains_def pth_pqueue_head_def)
qed

lemma pq_foreach_from:
  assumes "pq_shape h q (as @ t # bs)"
    and keep: "\<And>h s c h' s'. body h s c = Some (h', s') \<Longrightarrow> same_upto w h h'"
    and w: "\<And>x. q_next (w x) = q_next x" "\<And>x. q_prev (w x) = q_prev x"
  shows "pq_foreach body q h s t = foldM (\<lambda>(h, s) c. body h s c) (h, s) (t # bs)"
  using assms(1)
proof (induction bs arbitrary: as t h s)
  case Nil
  have "t \<noteq> 0" using pq_shape_alloc [OF Nil.prems(1)] by (auto dest: alloc_not_NULL)
  have "pth_pqueue_walk h' (Some q) t PTH_WALK_NEXT = Some NULL" if "body h s t = Some (h', s')" for h' s'
    using pq_walk_next [of h' q as t "[]"] Nil.prems
      same_upto_fld [OF keep [OF that], of q_next] same_upto_fld [OF keep [OF that], of q_prev] w
    by (simp add: pq_shape_def)
  with \<open>t \<noteq> 0\<close> show ?case
    by (cases "body h s t") (auto simp: pq_foreach.simps)
next
  case (Cons b bs)
  have "t \<noteq> 0" using pq_shape_alloc [OF Cons.prems(1)] by (auto dest: alloc_not_NULL)
  show ?case
  proof (cases "body h s t")
    case None
    with \<open>t \<noteq> 0\<close> show ?thesis by (simp add: pq_foreach.simps)
  next
    case (Some hs)
    obtain h' s' where hs: "hs = (h', s')" by force
    have sh: "pq_shape h' q (as @ t # b # bs)"
      using Cons.prems keep [OF Some [unfolded hs]] w
      by (simp add: pq_shape_def same_upto_fld)
    from Cons.IH [of h' "as @ [t]" b] sh pq_walk_next [OF sh] Some hs \<open>t \<noteq> 0\<close> show ?thesis
      by (simp add: pq_foreach.simps [of body q h s t])
  qed
qed

lemma pq_foreach:
  assumes sh: "pq_shape h q ts"
    and keep: "\<And>h s c h' s'. body h s c = Some (h', s') \<Longrightarrow> same_upto w h h'"
    and w: "\<And>x. q_next (w x) = q_next x" "\<And>x. q_prev (w x) = q_prev x"
  shows "pq_foreach body q h s (q_head q) = foldM (\<lambda>(h, s) c. body h s c) (h, s) ts"
proof (cases ts)
  case Nil
  with sh show ?thesis by (simp add: pq_shape_Nil pq_foreach.simps)
next
  case (Cons t us)
  with pq_foreach_from [where as = "[]" and t = t and bs = us, OF _ keep w] sh
    pq_shape_head(1) [OF sh [unfolded Cons]] show ?thesis by simp
qed

section \<open>The links alone\<close>

text \<open>Every linked queue encodes some priorities, so insertion and removal keep the links of a
  queue whose priority fields are arbitrary.\<close>

lemma decoded_exists:
  assumes "set ts \<subseteq> alloc h"
  shows "\<exists>xs. map fst xs = ts \<and> decoded (fld q_prio h) p xs"
  using assms
proof (induction ts arbitrary: p)
  case (Cons t ts)
  obtain d where d: "fld q_prio h t = Some d" using alloc_fld [of t h q_prio] Cons.prems by auto
  obtain xs where "map fst xs = ts" "decoded (fld q_prio h) (p - d) xs"
    using Cons.IH [of "p - d"] Cons.prems by auto
  with d show ?case by (intro exI [of _ "(t, p - d) # xs"]) simp
qed simp

lemma pq_shape_rep:
  assumes sh: "pq_shape h q ts"
  shows "\<exists>xs. map fst xs = ts \<and> pq_rep h q xs"
proof (cases ts)
  case Nil
  with sh show ?thesis by (simp add: pq_rep_def prios_of_def)
next
  case (Cons t us)
  obtain k where k: "fld q_prio h t = Some k"
    using alloc_fld [of t h q_prio] pq_shape_alloc [OF sh] Cons by auto
  have "set us \<subseteq> alloc h" using pq_shape_alloc [OF sh] Cons by auto
  from decoded_exists [OF this, of k] obtain xs
    where "map fst xs = us" "decoded (fld q_prio h) k xs" by blast
  with sh Cons k show ?thesis by (intro exI [of _ "(t, k) # xs"]) (simp add: pq_rep_def prios_of_def)
qed

lemma pq_insert_shape:
  assumes sh: "pq_shape h q ts" and t: "t \<in> alloc h" "t \<notin> set ts" and b: "fld prio h t = Some bp"
  shows "\<exists>h' q' as bs. pth_pqueue_insert h (Some q) pr t = Some (h', Some q') \<and> ts = as @ bs \<and>
           pq_shape h' q' (as @ t # bs) \<and>
           total_prio q' = total_prio q + word_of_int (bp + 1) \<and> total_tk q' = total_tk q \<and>
           heap_frame (insert t (set ts)) h h' \<and> same_data h h'"
proof -
  obtain xs where xs: "map fst xs = ts" "pq_rep h q xs" using pq_shape_rep [OF sh] by blast
  then have "fst ` set xs = set ts" by (metis set_map)
  with pq_insert [OF xs(2) t(1) _ b, of pr] t(2) obtain h' q' where
    1: "pth_pqueue_insert h (Some q) pr t = Some (h', Some q')" "pq_rep h' q' (pq_insert_at pr t xs)"
    "total_prio q' = total_prio q + word_of_int (bp + 1)" "total_tk q' = total_tk q"
    "heap_frame (insert t (set ts)) h h'" "same_data h h'" by auto
  let ?P = "\<lambda>x. snd x \<ge> pr"
  have "ts = map fst (takeWhile ?P xs) @ map fst (dropWhile ?P xs)"
    using xs(1) by (metis map_append takeWhile_dropWhile_id)
  moreover have "pq_shape h' q' (map fst (takeWhile ?P xs) @ t # map fst (dropWhile ?P xs))"
    using 1(2) by (simp add: pq_rep_def pq_insert_at_def)
  ultimately show ?thesis using 1 by blast
qed

lemma pq_delete_shape:
  assumes sh: "pq_shape h q (as @ t # bs)"
  shows "\<exists>h' q'. pth_pqueue_delete h (Some q) t = Some (h', Some q') \<and> pq_shape h' q' (as @ bs) \<and>
           total_prio q' = total_prio q \<and> total_tk q' = total_tk q \<and>
           heap_frame (set (as @ t # bs)) h h' \<and> same_data h h'"
proof -
  obtain zs where zs: "map fst zs = as @ t # bs" "pq_rep h q zs" using pq_shape_rep [OF sh] by blast
  then obtain xs x ys where z: "zs = xs @ x # ys" "map fst xs = as" "fst x = t" "map fst ys = bs"
    by (auto simp: map_eq_append_conv map_eq_Cons_conv)
  have "pq_rep h q (xs @ (t, snd x) # ys)" using zs(2) z by (cases x) simp
  from pq_delete [OF this] z show ?thesis by (auto simp: pq_rep_def image_Un)
qed

lemma pq_delmax_shape:
  assumes sh: "pq_shape h q (t # ts)"
  shows "\<exists>h' q'. pth_pqueue_delmax h (Some q) = Some (h', Some q', t) \<and> pq_shape h' q' ts \<and>
           heap_frame (set (t # ts)) h h' \<and> same_data h h'"
proof -
  have "q_head q = t" "q_head q \<noteq> NULL" using pq_shape_head [OF sh] by (auto dest: alloc_not_NULL)
  with pq_delete_shape [of h q "[]" t ts] sh show ?thesis by (auto simp: delmax_delete)
qed

lemma pq_shape_frame:
  assumes "pq_shape h q ts" and "heap_frame A h h'" and "set ts \<inter> A = {}"
  shows "pq_shape h' q ts"
proof -
  have "cdll (fld q_next h') (fld q_prev h') ts \<longleftrightarrow> cdll (fld q_next h) (fld q_prev h) ts"
    using assms(3) heap_frame_fld [OF assms(2), where f = q_next]
      heap_frame_fld [OF assms(2), where f = q_prev] by (intro cdll_cong) blast+
  with assms(1) show ?thesis by (simp add: pq_shape_def)
qed

lemma pq_shape_same:
  assumes "pq_shape h q ts" and "same_upto w h h'"
    and "\<And>x. q_next (w x) = q_next x" "\<And>x. q_prev (w x) = q_prev x"
  shows "pq_shape h' q ts"
  using assms(1) same_upto_fld [OF assms(2), of q_next] same_upto_fld [OF assms(2), of q_prev] assms(3,4)
  by (simp add: pq_shape_def)

section \<open>Properties\<close>

text \<open>C36: Inserting a thread with a priority puts it behind all threads of the same or a higher
  priority and in front of the others, keeps a sorted queue sorted, adds its share to the counter of
  priorities, and changes nothing but queue fields of the threads of this queue.\<close>

theorem insert_is_stable:
  assumes "pq_rep h q xs" and "t \<in> alloc h" and "t \<notin> fst ` set xs" and "fld prio h t = Some bp" and "desc xs"
  shows "\<exists>h' q'. pth_pqueue_insert h (Some q) pr t = Some (h', Some q') \<and>
           pq_rep h' q' (pq_insert_at pr t xs) \<and> desc (pq_insert_at pr t xs) \<and>
           total_prio q' = total_prio q + word_of_int (bp + 1) \<and>
           heap_frame (insert t (fst ` set xs)) h h' \<and> same_data h h'"
  using pq_insert [OF assms(1-4)] sorted_insert_at [OF assms(5)] by blast

theorem insert_is_stable_witness:
  "\<exists>h' q'. pth_pqueue_insert [2 \<mapsto> tcb_link 2 2 4, 3 \<mapsto> tcb_link 0 0 4]
       (Some \<lparr>q_head = 2, q_num = 1, total_prio = 5, total_tk = 0\<rparr>) 4 3 = Some (h', Some q') \<and>
     pq_rep h' q' [(2, 4), (3, 4)] \<and> total_prio q' = 10"
  using insert_is_stable [of "[2 \<mapsto> tcb_link 2 2 4, 3 \<mapsto> tcb_link 0 0 4]"
      "\<lparr>q_head = 2, q_num = 1, total_prio = 5, total_tk = 0\<rparr>" "[(2, 4)]" 3 4 4]
  by (auto simp: pq_rep_def pq_shape_def cdll_def prios_of_def tcb_link_def fld_def alloc_def pq_insert_at_def)

text \<open>\<open>pth_pqueue_delmax\<close> removes the first of the threads of maximal priority from a sorted
  queue and keeps the order of the rest. It does not take the share of the thread off the counter of
  priorities.\<close>

theorem delmax_takes_maximum:
  assumes "pq_rep h q ((t, k) # xs)" and "desc ((t, k) # xs)"
  shows "\<exists>h' q'. pth_pqueue_delmax h (Some q) = Some (h', Some q', t) \<and> pq_rep h' q' xs \<and> desc xs \<and>
           (\<forall>x \<in> set xs. snd x \<le> k) \<and> total_prio q' = total_prio q \<and> same_data h h'"
  using pq_delmax [OF assms(1)] assms(2) by auto

theorem delmax_takes_maximum_witness:
  "\<exists>h' q'. pth_pqueue_delmax [2 \<mapsto> tcb_link 3 3 4, 3 \<mapsto> tcb_link 2 2 1]
       (Some \<lparr>q_head = 2, q_num = 2, total_prio = 9, total_tk = 0\<rparr>) = Some (h', Some q', 2) \<and>
     pq_rep h' q' [(3, 3)] \<and> total_prio q' = 9"
  using delmax_takes_maximum [of "[2 \<mapsto> tcb_link 3 3 4, 3 \<mapsto> tcb_link 2 2 1]"
      "\<lparr>q_head = 2, q_num = 2, total_prio = 9, total_tk = 0\<rparr>" 2 4 "[(3, 3)]"]
  by (auto simp: pq_rep_def pq_shape_def cdll_def prios_of_def tcb_link_def fld_def)

text \<open>\<open>pth_pqueue_delete\<close> removes a thread from any position, and the priorities of all other
  threads stay what they were although they are stored as differences.\<close>

theorem delete_keeps_priorities:
  assumes "pq_rep h q (as @ (t, k) # bs)"
  shows "\<exists>h' q'. pth_pqueue_delete h (Some q) t = Some (h', Some q') \<and> pq_rep h' q' (as @ bs) \<and>
           heap_frame (fst ` set (as @ (t, k) # bs)) h h' \<and> same_data h h'"
  using pq_delete [OF assms] by blast

theorem delete_keeps_priorities_witness:
  "\<exists>h' q'. pth_pqueue_delete [2 \<mapsto> tcb_link 3 4 4, 3 \<mapsto> tcb_link 4 2 1, 4 \<mapsto> tcb_link 2 3 2]
       (Some \<lparr>q_head = 2, q_num = 3, total_prio = 9, total_tk = 0\<rparr>) 3 = Some (h', Some q') \<and>
     pq_rep h' q' [(2, 4), (4, 1)]"
  using delete_keeps_priorities [of "[2 \<mapsto> tcb_link 3 4 4, 3 \<mapsto> tcb_link 4 2 1, 4 \<mapsto> tcb_link 2 3 2]"
      "\<lparr>q_head = 2, q_num = 3, total_prio = 9, total_tk = 0\<rparr>" "[(2, 4)]" 3 3 "[(4, 1)]"]
  by (auto simp: pq_rep_def pq_shape_def cdll_def prios_of_def tcb_link_def fld_def)

text \<open>\<open>pth_pqueue_favorite\<close> moves a thread to the head of its queue with a priority one above the
  others. It counts the share of the thread a second time in the counter of priorities, because
  removal does not take it off.\<close>

theorem favorite_moves_to_head:
  assumes "pq_rep h q (as @ (t, k) # bs)" and "as @ bs \<noteq> []" and "fld prio h t = Some bp"
  shows "\<exists>h' q'. pth_pqueue_favorite h (Some q) t = Some (h', Some q', True) \<and>
           pq_rep h' q' ((t, snd (hd (as @ bs)) + 1) # as @ bs) \<and>
           total_prio q' = total_prio q + word_of_int (bp + 1)"
  using pq_favorite [OF assms] by blast

theorem favorite_moves_to_head_witness:
  "\<exists>h' q'. pth_pqueue_favorite [2 \<mapsto> tcb_link 3 3 4, 3 \<mapsto> tcb_link 2 2 1]
       (Some \<lparr>q_head = 2, q_num = 2, total_prio = 7, total_tk = 0\<rparr>) 3 = Some (h', Some q', True) \<and>
     pq_rep h' q' [(3, 5), (2, 4)] \<and> total_prio q' = 9"
  using favorite_moves_to_head [of "[2 \<mapsto> tcb_link 3 3 4, 3 \<mapsto> tcb_link 2 2 1]"
      "\<lparr>q_head = 2, q_num = 2, total_prio = 7, total_tk = 0\<rparr>" "[(2, 4)]" 3 3 "[]" 1]
  by (auto simp: pq_rep_def pq_shape_def cdll_def prios_of_def tcb_link_def fld_def)

end
