(* ===== verification/Lottery.thy ===== *)
theory Lottery
  imports Pqueue
begin

text \<open>
  The fair-share lottery that the assignment adds to pth_pqueue.c: every thread of the ready
  queue gets a target share of the CPU from its priority (\<open>pth_pqueue_calc_target\<close>) and an
  actual share from its running time (\<open>pth_pqueue_update_a_rt\<close>); the shortfall decides how
  many tickets it holds (\<open>pth_pqueue_issue_tk\<close>), and \<open>pth_pqueue_deltk\<close> removes the thread
  that holds the drawn number. \<open>winner\<close> is the reference drawing: tickets are numbered in
  queue order, and the winner is the thread whose block of numbers contains the draw.
  Doubles are rationals with a rounding function \<open>fl\<close>, as in the theory Pth\_Time.
\<close>

section \<open>The fair-share lottery\<close>

definition pth_pqueue_update_a_rt ::
  "rounding \<Rightarrow> (ptr \<Rightarrow> pth_time) \<Rightarrow> tcb_heap \<Rightarrow> pth_pqueue \<Rightarrow> tcb_heap option" where
  "pth_pqueue_update_a_rt fl now h q =
     do {
       (h, _) \<leftarrow> pq_foreach (\<lambda>h _ c. do {
           sp \<leftarrow> fld spawned h c;
           let lifetime = pth_time_sub (now c) sp;
           if pth_time_t2d fl lifetime \<noteq> 0
           then do {
             ru \<leftarrow> fld running h c;
             h \<leftarrow> setf rt_actual_update h c
                   (fl (fl (pth_time_t2d fl ru / pth_time_t2d fl lifetime) * 100));
             Some (h, ())
           }
           else Some (h, ())
         }) q h () (q_head q);
       Some h
     }"

definition tickets :: "rounding \<Rightarrow> rat \<Rightarrow> (64 word) option" where
  "tickets fl err =
     (let v = \<lfloor>fl (err * 5)\<rfloor> in
      if v < 2 ^ 64 then Some (word_of_int v * word_of_int v) else None)"

definition pth_pqueue_issue_tk ::
  "rounding \<Rightarrow> tcb_heap \<Rightarrow> pth_pqueue \<Rightarrow> (tcb_heap \<times> pth_pqueue) option" where
  "pth_pqueue_issue_tk fl h q =
     do {
       (h, offset, total) \<leftarrow> pq_foreach (\<lambda>h (offset, total) c. do {
           ta \<leftarrow> fld rt_target h c;
           ac \<leftarrow> fld rt_actual h c;
           let err = fl (ta - ac);
           h \<leftarrow> (if err < 0
                then do {
                  h \<leftarrow> setf tk_num_update h c 0;
                  setf tk_offset_update h c 0
                }
                else do {
                  n \<leftarrow> tickets fl err;
                  h \<leftarrow> setf tk_num_update h c n;
                  setf tk_offset_update h c (sint offset)
                });
           n \<leftarrow> fld tk_num h c;
           Some (h, offset + n, total + n)
         }) (q\<lparr>total_tk := 0\<rparr>) h (0 :: 64 word, 0 :: 64 word) (q_head q);
       Some (h, q\<lparr>total_tk := total\<rparr>)
     }"

definition pth_pqueue_calc_target ::
  "rounding \<Rightarrow> tcb_heap \<Rightarrow> pth_pqueue \<Rightarrow> tcb_heap option" where
  "pth_pqueue_calc_target fl h q =
     do {
       let base = (if total_prio q = 0 then None
                   else Some (fl (100 / fl (of_int (uint (total_prio q))))));
       (h, _) \<leftarrow> pq_foreach (\<lambda>h _ c. do {
           b \<leftarrow> base;
           p \<leftarrow> fld prio h c;
           h \<leftarrow> setf rt_target_update h c (fl (b * fl (of_int (p + 1))));
           Some (h, ())
         }) q h () (q_head q);
       Some h
     }"

definition holds_ticket :: "int \<Rightarrow> tcb_heap \<Rightarrow> ptr \<Rightarrow> bool option" where
  "holds_ticket ltr_num h c =
     do {
       off \<leftarrow> fld tk_offset h c;
       n \<leftarrow> fld tk_num h c;
       Some (ltr_num \<ge> off \<and> (word_of_int ltr_num :: 64 word) < word_of_int off + n)
     }"

definition pth_pqueue_deltk ::
  "tcb_heap \<Rightarrow> pth_pqueue option \<Rightarrow> int \<Rightarrow> (tcb_heap \<times> pth_pqueue option \<times> ptr) option" where
  "pth_pqueue_deltk h q ltr_num =
     (case q of None \<Rightarrow> Some (h, None, NULL)
      | Some q \<Rightarrow>
          if q_head q = NULL then Some (h, Some q, NULL)
          else do {
            nx \<leftarrow> fld q_next h (q_head q);
            if nx = q_head q
            then do {
              let t = q_head q;
              h \<leftarrow> setf q_next_update h t NULL;
              h \<leftarrow> setf q_prev_update h t NULL;
              h \<leftarrow> setf q_prio_update h t 0;
              Some (h, Some (q\<lparr>q_head := NULL, q_num := 0, total_prio := 0\<rparr>), t)
            }
            else do {
              t \<leftarrow> pq_find (holds_ticket ltr_num) (Some q) h (q_head q);
              pv \<leftarrow> fld q_prev h t;
              nx \<leftarrow> fld q_next h t;
              h \<leftarrow> setf q_next_update h pv nx;
              nx \<leftarrow> fld q_next h t;
              pv \<leftarrow> fld q_prev h t;
              h \<leftarrow> setf q_prev_update h nx pv;
              tp \<leftarrow> fld q_prio h t;
              np \<leftarrow> fld q_prio h nx;
              h \<leftarrow> setf q_prio_update h nx (tp - np);
              h \<leftarrow> setf q_prio_update h t 0;
              nx \<leftarrow> fld q_next h t;
              let q = (if q_head q = t then q\<lparr>q_head := nx\<rparr> else q);
              bp \<leftarrow> fld prio h t;
              Some (h, Some (q\<lparr>q_num := q_num q - 1,
                               total_prio := total_prio q - word_of_int (bp + 1)\<rparr>), t)
            }
          })"

section \<open>The reference drawing\<close>

fun winner :: "(ptr \<Rightarrow> nat) \<Rightarrow> ptr list \<Rightarrow> nat \<Rightarrow> ptr option" where
  "winner n [] l = None"
| "winner n (c # cs) l = (if l < n c then Some c else winner n cs (l - n c))"

lemma winner_exists: "l < (\<Sum>c\<leftarrow>ts. n c) \<Longrightarrow> \<exists>c \<in> set ts. winner n ts l = Some c \<and> 0 < n c"
  by (induction ts arbitrary: l) auto

lemma winner_in: "winner n ts l = Some c \<Longrightarrow> c \<in> set ts \<and> 0 < n c"
  by (induction ts arbitrary: l) (auto split: if_splits)

lemma winner_bound: "winner n ts l = Some c \<Longrightarrow> l < (\<Sum>c\<leftarrow>ts. n c)"
  by (induction ts arbitrary: l) (fastforce split: if_splits)+

text \<open>Fairness of the drawing: each thread wins for exactly as many numbers as it has tickets.\<close>

lemma winner_count:
  assumes "distinct ts" and "c \<in> set ts"
  shows "card {l. winner n ts l = Some c} = n c"
  using assms
proof (induction ts)
  case (Cons t ts)
  show ?case
  proof (cases "c = t")
    case True
    with Cons.prems have "c \<notin> set ts" by simp
    then have "{l. winner n (t # ts) l = Some c} = {..<n c}"
      using True by (auto dest: winner_in)
    then show ?thesis by simp
  next
    case False
    with Cons.prems have c: "c \<in> set ts" "distinct ts" by auto
    have "{l. winner n (t # ts) l = Some c} = (\<lambda>l. l + n t) ` {l. winner n ts l = Some c}"
      (is "?L = ?R")
    proof (intro set_eqI iffI)
      fix l assume "l \<in> ?L"
      then have "n t \<le> l" "winner n ts (l - n t) = Some c" using False by (auto split: if_splits)
      then show "l \<in> ?R" by (intro image_eqI [of _ _ "l - n t"]) auto
    qed auto
    then show ?thesis using Cons.IH [OF c(2,1)] by (simp add: card_image)
  qed
qed simp

section \<open>Issuing tickets\<close>

definition tk_of :: "rounding \<Rightarrow> tcb_heap \<Rightarrow> ptr \<Rightarrow> (64 word) option" where
  "tk_of fl h c =
     do {
       ta \<leftarrow> fld rt_target h c;
       ac \<leftarrow> fld rt_actual h c;
       if fl (ta - ac) < 0 then Some 0 else tickets fl (fl (ta - ac))
     }"

definition greedy :: "rounding \<Rightarrow> tcb_heap \<Rightarrow> ptr \<Rightarrow> bool" where
  "greedy fl h c = (case (fld rt_target h c, fld rt_actual h c) of
      (Some ta, Some ac) \<Rightarrow> fl (ta - ac) < 0 | _ \<Rightarrow> False)"

fun tk_ok :: "tcb_heap \<Rightarrow> (ptr \<Rightarrow> 64 word) \<Rightarrow> (ptr \<Rightarrow> bool) \<Rightarrow> 64 word \<Rightarrow> ptr list \<Rightarrow> bool" where
  "tk_ok h n g off [] \<longleftrightarrow> True"
| "tk_ok h n g off (c # cs) \<longleftrightarrow>
     fld tk_num h c = Some (n c) \<and> fld tk_offset h c = Some (if g c then 0 else sint off) \<and>
     (g c \<longrightarrow> n c = 0) \<and> tk_ok h n g (off + n c) cs"

definition sans_tk :: "pth_st \<Rightarrow> pth_st" where
  "sans_tk x = x\<lparr>tk_num := 0, tk_offset := 0\<rparr>"

lemma sans_tk_upd [simp]:
  "sans_tk (x\<lparr>tk_num := v\<rparr>) = sans_tk x" "sans_tk (x\<lparr>tk_offset := i\<rparr>) = sans_tk x"
  by (simp_all add: sans_tk_def)

lemma tk_ok_frame:
  "heap_frame A h h' \<Longrightarrow> set cs \<inter> A = {} \<Longrightarrow> tk_ok h' n g off cs \<longleftrightarrow> tk_ok h n g off cs"
  by (induction h n g off cs rule: tk_ok.induct) (auto simp: heap_frame_fld)

definition issue_body ::
  "rounding \<Rightarrow> tcb_heap \<Rightarrow> 64 word \<times> 64 word \<Rightarrow> ptr \<Rightarrow> (tcb_heap \<times> 64 word \<times> 64 word) option" where
  "issue_body fl = (\<lambda>h (offset, total) c. do {
           ta \<leftarrow> fld rt_target h c;
           ac \<leftarrow> fld rt_actual h c;
           let err = fl (ta - ac);
           h \<leftarrow> (if err < 0
                then do {
                  h \<leftarrow> setf tk_num_update h c 0;
                  setf tk_offset_update h c 0
                }
                else do {
                  n \<leftarrow> tickets fl err;
                  h \<leftarrow> setf tk_num_update h c n;
                  setf tk_offset_update h c (sint offset)
                });
           n \<leftarrow> fld tk_num h c;
           Some (h, offset + n, total + n)
         })"

lemma issue_body_eval:
  assumes "c \<in> alloc h" and "tk_of fl h c = Some n"
  shows "issue_body fl h (off, tot) c =
    Some (hset tk_offset_update (hset tk_num_update h c n) c (if greedy fl h c then 0 else sint off),
      off + n, tot + n)" and "greedy fl h c \<Longrightarrow> n = 0"
  using assms
  by (auto simp: issue_body_def tk_of_def greedy_def Let_def mem_simps split: bind_splits if_splits)

lemma issue_body_same: "issue_body fl h s c = Some (h', s') \<Longrightarrow> same_upto sans_tk h h'"
  by (auto simp: issue_body_def Let_def setf_def split: bind_splits if_splits prod.splits)

text \<open>One pass over the queue: the ticket blocks follow each other in queue order, and nothing
  but the ticket fields changes.\<close>

lemma tk_of_frame:
  "heap_frame A h h' \<Longrightarrow> c \<notin> A \<Longrightarrow> tk_of fl h' c = tk_of fl h c"
  "heap_frame A h h' \<Longrightarrow> c \<notin> A \<Longrightarrow> greedy fl h' c = greedy fl h c"
  by (simp_all add: tk_of_def greedy_def heap_frame_fld)

lemma issue_fold:
  assumes "distinct cs" and "set cs \<subseteq> alloc h" and "\<And>c. c \<in> set cs \<Longrightarrow> tk_of fl h c = Some (n c)"
  shows "\<exists>h'. foldM (\<lambda>(h, s) c. issue_body fl h s c) (h, off, tot) cs =
             Some (h', off + sum_list (map n cs), tot + sum_list (map n cs)) \<and>
           tk_ok h' n (greedy fl h) off cs \<and> heap_frame (set cs) h h' \<and> same_upto sans_tk h h'"
  using assms
proof (induction cs arbitrary: h off tot)
  case (Cons c cs)
  let ?h = "hset tk_offset_update (hset tk_num_update h c (n c)) c (if greedy fl h c then 0 else sint off)"
  have c: "c \<in> alloc h" "tk_of fl h c = Some (n c)" using Cons.prems by auto
  note step = issue_body_eval [OF c]
  have fr: "heap_frame {c} h ?h" by simp
  have tk: "tk_of fl ?h d = Some (n d)" "greedy fl ?h d = greedy fl h d" if "d \<in> set cs" for d
  proof -
    have "d \<notin> {c}" using that Cons.prems(1) by auto
    from tk_of_frame [OF fr this] Cons.prems(3) [of d] that
    show "tk_of fl ?h d = Some (n d)" "greedy fl ?h d = greedy fl h d" by simp_all
  qed
  obtain h' where h': "foldM (\<lambda>(h, s) c. issue_body fl h s c) (?h, off + n c, tot + n c) cs =
      Some (h', off + n c + sum_list (map n cs), tot + n c + sum_list (map n cs))"
    "tk_ok h' n (greedy fl ?h) (off + n c) cs" "heap_frame (set cs) ?h h'" "same_upto sans_tk ?h h'"
    using Cons.IH [of ?h "off + n c" "tot + n c"] Cons.prems tk by auto
  have cong: "tk_ok h' n g o' ds = tk_ok h' n g' o' ds" if "\<And>d. d \<in> set ds \<Longrightarrow> g d = g' d" for g g' o' ds
    using that by (induction ds arbitrary: o') auto
  have "c \<notin> set cs" using Cons.prems by simp
  then have "fld tk_num h' c = Some (n c)"
    "fld tk_offset h' c = Some (if greedy fl h c then 0 else sint off)"
    using c(1) by (simp_all add: heap_frame_fld [OF h'(3)] mem_simps)
  moreover have "tk_ok h' n (greedy fl h) (off + n c) cs"
    using h'(2) cong [of cs "greedy fl ?h" "greedy fl h"] tk(2) by simp
  moreover have "heap_frame (set (c # cs)) h h'"
    by (rule heap_frame_trans [of _ h ?h]) (simp, rule heap_frame_mono [OF h'(3)], auto)
  moreover have "same_upto sans_tk h h'" by (rule same_upto_trans [OF _ h'(4)]) simp
  ultimately show ?case using step h'(1) by (auto simp: add.assoc)
qed simp

lemma pq_issue_tk:
  assumes sh: "pq_shape h q ts" and tk: "\<And>c. c \<in> set ts \<Longrightarrow> tk_of fl h c = Some (n c)"
  shows "\<exists>h'. pth_pqueue_issue_tk fl h q = Some (h', q\<lparr>total_tk := sum_list (map n ts)\<rparr>) \<and>
           tk_ok h' n (greedy fl h) 0 ts \<and> heap_frame (set ts) h h' \<and> same_upto sans_tk h h'"
proof -
  have di: "distinct ts" and al: "set ts \<subseteq> alloc h"
    using sh pq_shape_alloc [OF sh] by (auto simp: pq_shape_def dest: cdll_distinct)
  have sh': "pq_shape h (q\<lparr>total_tk := 0\<rparr>) ts" using sh by (simp add: pq_shape_def)
  have "pq_foreach (issue_body fl) (q\<lparr>total_tk := 0\<rparr>) h (0, 0) (q_head q) =
      foldM (\<lambda>(h, s) c. issue_body fl h s c) (h, 0, 0) ts"
    using pq_foreach [where w = sans_tk and body = "issue_body fl", OF sh' issue_body_same]
    by (simp add: sans_tk_def)
  moreover obtain h' where "foldM (\<lambda>(h, s) c. issue_body fl h s c) (h, 0, 0) ts =
      Some (h', sum_list (map n ts), sum_list (map n ts))"
    "tk_ok h' n (greedy fl h) 0 ts" "heap_frame (set ts) h h'" "same_upto sans_tk h h'"
    using issue_fold [OF di al tk, of 0 0] by auto
  ultimately show ?thesis
    unfolding pth_pqueue_issue_tk_def issue_body_def [symmetric] by auto
qed

section \<open>Drawing\<close>

lemma sum_list_unat:
  fixes n :: "ptr \<Rightarrow> 64 word"
  assumes "(\<Sum>c\<leftarrow>cs. unat (n c)) < 2 ^ 64"
  shows "unat (sum_list (map n cs)) = (\<Sum>c\<leftarrow>cs. unat (n c))"
  using assms
proof (induction cs)
  case (Cons c cs)
  then have "unat (n c) + unat (sum_list (map n cs)) < 2 ^ LENGTH(64)" by simp
  then have "unat (n c + sum_list (map n cs)) = unat (n c) + unat (sum_list (map n cs))"
    by (rule unat_add_lem [THEN iffD1])
  with Cons show ?case by simp
qed simp

lemma holds_ticket_eval:
  fixes off n :: "64 word"
  assumes "fld tk_num h c = Some n" and "fld tk_offset h c = Some (if g then 0 else sint off)"
    and "g \<longrightarrow> n = 0" and "unat off = o'" and "o' + unat n < 2 ^ 63" and "o' \<le> l" and "l < 2 ^ 63"
  shows "holds_ticket (int l) h c = Some (l - o' < unat n)"
proof -
  have o: "off = of_nat o'" using assms(4) by auto
  have u: "uint off = int o'" using assms(4) by (simp add: uint_nat)
  have s: "sint off = int o'"
    unfolding sint_uint u using assms(5) by (simp add: signed_take_bit_int_eq_self)
  have "(word_of_int (int l) :: 64 word) < of_nat o' + n \<longleftrightarrow> l < o' + unat n"
  proof -
    have "unat (of_nat l :: 64 word) = l" using assms(7) by (simp add: unat_of_nat)
    moreover have "unat (of_nat o' + n) = o' + unat n"
      using assms(4,5) o by (subst unat_add_lem [THEN iffD1]) simp_all
    ultimately show ?thesis by (simp add: word_less_nat_alt)
  qed
  with assms s o show ?thesis by (auto simp: holds_ticket_def)
qed

lemma find_winner:
  assumes "tk_ok h n g off cs" and "unat off = o'" and "o' + (\<Sum>c\<leftarrow>cs. unat (n c)) < 2 ^ 63"
    and "o' \<le> l" and "l < 2 ^ 63"
  shows "find (\<lambda>c. holds_ticket (int l) h c = Some True) cs = winner (\<lambda>c. unat (n c)) cs (l - o') \<and>
    (\<forall>c \<in> set cs. \<exists>b. holds_ticket (int l) h c = Some b)"
  using assms
proof (induction cs arbitrary: off o')
  case (Cons c cs)
  have hd: "fld tk_num h c = Some (n c)" "fld tk_offset h c = Some (if g c then 0 else sint off)"
    "g c \<longrightarrow> n c = 0" "tk_ok h n g (off + n c) cs" using Cons.prems(1) by auto
  have lt: "o' + unat (n c) < 2 ^ 63" using Cons.prems(3) by simp
  note hold = holds_ticket_eval [OF hd(1-3) Cons.prems(2) lt Cons.prems(4,5)]
  have "unat (off + n c) = o' + unat (n c)"
    using Cons.prems(2) lt by (subst unat_add_lem [THEN iffD1]) simp_all
  from Cons.IH [OF hd(4) this] Cons.prems(3-5)
  have IH: "o' + unat (n c) \<le> l \<Longrightarrow>
      find (\<lambda>c. holds_ticket (int l) h c = Some True) cs =
        winner (\<lambda>c. unat (n c)) cs (l - (o' + unat (n c)))"
    "o' + unat (n c) \<le> l \<Longrightarrow> \<forall>c \<in> set cs. \<exists>b. holds_ticket (int l) h c = Some b"
    by (simp_all add: add.assoc)
  have all: "\<exists>b. holds_ticket k h d = Some b" if "d \<in> set cs" for k d
  proof -
    have "\<And>o''. tk_ok h n g o'' cs \<Longrightarrow> \<exists>x y. fld tk_num h d = Some x \<and> fld tk_offset h d = Some y"
      using that by (induction cs) auto
    with hd(4) show ?thesis by (force simp: holds_ticket_def)
  qed
  show ?case
  proof (cases "l - o' < unat (n c)")
    case True
    with hold all show ?thesis by auto
  next
    case False
    with Cons.prems(4) have "o' + unat (n c) \<le> l" by simp
    with IH(1) hold all False show ?thesis by (auto simp: diff_diff_left)
  qed
qed simp

lemma pq_draw:
  assumes sh: "pq_shape h q ts" and tk: "tk_ok h n g 0 ts"
    and bound: "(\<Sum>c\<leftarrow>ts. unat (n c)) < 2 ^ 63" and l: "l < (\<Sum>c\<leftarrow>ts. unat (n c))"
  shows "\<exists>c \<in> set ts. pq_find (holds_ticket (int l)) (Some q) h (q_head q) = Some c \<and>
           winner (\<lambda>c. unat (n c)) ts l = Some c \<and> 0 < unat (n c)"
proof -
  from find_winner [OF tk, of 0 l] bound l have
    f: "find (\<lambda>c. holds_ticket (int l) h c = Some True) ts = winner (\<lambda>c. unat (n c)) ts l"
    and "\<forall>c \<in> set ts. \<exists>b. holds_ticket (int l) h c = Some b" by simp_all
  then have "\<And>c. c \<in> set ts \<Longrightarrow>
      holds_ticket (int l) h c = Some (holds_ticket (int l) h c = Some True)" by force
  from pq_find [OF sh, of "holds_ticket (int l)", OF this] f winner_exists [OF l]
  show ?thesis by auto
qed

section \<open>Removing the winner\<close>

lemma pq_deltk_shape:
  assumes sh: "pq_shape h q (as @ t # bs)" and ne: "as @ bs \<noteq> []"
    and f: "pq_find (holds_ticket l) (Some q) h (q_head q) = Some t" and b: "fld prio h t = Some bp"
  shows "\<exists>h' q'. pth_pqueue_deltk h (Some q) l = Some (h', Some q', t) \<and> pq_shape h' q' (as @ bs) \<and>
           total_prio q' = total_prio q - word_of_int (bp + 1) \<and> total_tk q' = total_tk q \<and>
           heap_frame (set (as @ t # bs)) h h' \<and> same_data h h'"
proof -
  define d where "d = hd (bs @ as)"
  define e where "e = last (bs @ as)"
  note nb = pq_neighbours [OF sh ne, folded d_def e_def]
  obtain tp where tp: "fld q_prio h t = Some tp" using alloc_fld [OF nb(9), of q_prio] by blast
  obtain np where np: "fld q_prio h d = Some np" using alloc_fld [OF nb(7), of q_prio] by blast
  have hn: "q_head q \<in> set (as @ t # bs)" "q_head q \<in> alloc h"
    using sh pq_shape_alloc [OF sh] by (cases as; auto simp: pq_shape_def)+
  obtain x where x: "fld q_next h (q_head q) = Some x" "x \<noteq> q_head q"
  proof (cases as)
    case Nil
    with nb that show ?thesis by simp
  next
    case (Cons a as')
    with sh have "cdll (fld q_next h) (fld q_prev h) (a # as' @ t # bs)" "q_head q = a"
      by (simp_all add: pq_shape_def)
    with cdll_neighbours(1) [of "fld q_next h" "fld q_prev h" "[]" a "as' @ t # bs"]
      cdll_distinct [OF this(1)] that show ?thesis by (cases as') auto
  qed
  define h' where "h' = hset q_prio_update (hset q_prio_update (hset q_prev_update
      (hset q_next_update h e d) d e) d (tp - np)) t 0"
  define q' where "q' = q\<lparr>q_head := (if as = [] then d else q_head q), q_num := q_num q - 1,
      total_prio := total_prio q - word_of_int (bp + 1)\<rparr>"
  have "pth_pqueue_deltk h (Some q) l = Some (h', Some q', t)"
    using nb tp np hn x f b
    by (simp add: pth_pqueue_deltk_def h'_def q'_def mem_simps Let_def)
  moreover have "pq_shape h' q' (as @ bs)"
    using nb sh ne by (cases as; cases bs) (auto simp: pq_shape_def q'_def h'_def mem_simps d_def)
  moreover have "heap_frame (set (as @ t # bs)) h h'"
    using nb(5,6) by (auto simp: h'_def)
  ultimately show ?thesis by (auto simp: h'_def q'_def)
qed

text \<open>The last thread of the queue is taken whatever number was drawn.\<close>

lemma pq_deltk_single:
  assumes sh: "pq_shape h q [t]"
  shows "\<exists>h' q'. pth_pqueue_deltk h (Some q) l = Some (h', Some q', t) \<and> pq_shape h' q' [] \<and>
           total_prio q' = 0 \<and> heap_frame {t} h h' \<and> same_data h h'"
proof -
  have "fld q_next h t = Some t" using sh by (simp add: pq_shape_def cdll_def)
  with pq_shape_head [OF sh] show ?thesis
    by (auto simp: pth_pqueue_deltk_def mem_simps pq_shape_Nil)
qed

text \<open>A draw removes the winner of the reference drawing.\<close>

lemma pq_deltk_winner:
  assumes sh: "pq_shape h q ts" and tk: "tk_ok h n g 0 ts"
    and bound: "(\<Sum>c\<leftarrow>ts. unat (n c)) < 2 ^ 63" and l: "l < (\<Sum>c\<leftarrow>ts. unat (n c))"
  shows "\<exists>h' q' t. pth_pqueue_deltk h (Some q) (int l) = Some (h', q', t) \<and>
           winner (\<lambda>c. unat (n c)) ts l = Some t"
proof -
  from pq_draw [OF assms] obtain t where t: "t \<in> set ts"
    "pq_find (holds_ticket (int l)) (Some q) h (q_head q) = Some t" "winner (\<lambda>c. unat (n c)) ts l = Some t" by blast
  from t(1) obtain as bs where ts: "ts = as @ t # bs" by (auto dest: split_list)
  obtain bp where bp: "fld prio h t = Some bp"
    using alloc_fld [of t h prio] pq_shape_alloc [OF sh] t(1) by blast
  show ?thesis
  proof (cases "as @ bs = []")
    case True
    with pq_deltk_single [of h q t "int l"] sh ts t(3) show ?thesis by auto
  next
    case False
    from pq_deltk_shape [OF sh [unfolded ts] False t(2) bp] t(3) show ?thesis by blast
  qed
qed

section \<open>Targets and actual shares\<close>

text \<open>A pass over the queue whose body writes to the thread at hand only: every thread ends up
  in the state its own step left it in.\<close>

lemma foldM_write:
  assumes "distinct ts" and "set ts \<subseteq> alloc h" and "\<forall>c \<in> set ts. h c = h0 c"
    and step: "\<And>h c. c \<in> set ts \<Longrightarrow> c \<in> alloc h \<Longrightarrow> h c = h0 c \<Longrightarrow>
      \<exists>h'. body h () c = Some (h', ()) \<and> same_upto w h h' \<and> heap_frame {c} h h' \<and> P c (h' c)"
  shows "\<exists>h'. foldM (\<lambda>(h, s) c. body h s c) (h, ()) ts = Some (h', ()) \<and> same_upto w h h' \<and>
           heap_frame (set ts) h h' \<and> (\<forall>c \<in> set ts. P c (h' c))"
  using assms
proof (induction ts arbitrary: h)
  case (Cons c ts)
  have c: "c \<in> alloc h" "c \<notin> set ts" using Cons.prems by auto
  from Cons.prems(4) [OF _ c(1)] Cons.prems(3) obtain h1 where
    1: "body h () c = Some (h1, ())" "same_upto w h h1" "heap_frame {c} h h1" "P c (h1 c)" by auto
  have "set ts \<subseteq> alloc h1" using Cons.prems(2) heap_frame_alloc [OF 1(3)] by simp
  moreover have "\<forall>d \<in> set ts. h1 d = h0 d" using Cons.prems(3) 1(3) c(2) by (auto simp: heap_frame_def)
  ultimately obtain h2 where
    2: "foldM (\<lambda>(h, s) c. body h s c) (h1, ()) ts = Some (h2, ())" "same_upto w h1 h2"
    "heap_frame (set ts) h1 h2" "\<forall>c \<in> set ts. P c (h2 c)" using Cons.IH [of h1] Cons.prems(1,4) by auto
  have "h2 c = h1 c" using 2(3) c(2) by (simp add: heap_frame_def)
  moreover have "heap_frame (set (c # ts)) h h2"
    by (rule heap_frame_trans [of _ h h1]) (rule heap_frame_mono [OF 1(3)], simp,
        rule heap_frame_mono [OF 2(3)], auto)
  ultimately show ?case using 1 2 same_upto_trans [OF 1(2) 2(2)] by auto
qed simp

definition sans_target :: "pth_st \<Rightarrow> pth_st" where
  "sans_target x = x\<lparr>rt_target := 0\<rparr>"

definition sans_actual :: "pth_st \<Rightarrow> pth_st" where
  "sans_actual x = x\<lparr>rt_actual := 0\<rparr>"

lemma sans_upd [simp]:
  "sans_target (x\<lparr>rt_target := v\<rparr>) = sans_target x"
  "sans_actual (x\<lparr>rt_actual := v\<rparr>) = sans_actual x"
  by (simp_all add: sans_target_def sans_actual_def)

lemma fld_SomeI: "p \<noteq> NULL \<Longrightarrow> h p = Some x \<Longrightarrow> fld f h p = Some (f x)"
  by (simp add: fld_def)

text \<open>The target of a thread: its share of the priorities, in percent.\<close>

definition target_of :: "rounding \<Rightarrow> 64 word \<Rightarrow> int \<Rightarrow> rat" where
  "target_of fl tot p = fl (fl (100 / fl (of_int (uint tot))) * fl (of_int (p + 1)))"

lemma pq_calc_target:
  assumes sh: "pq_shape h q ts" and ne: "ts \<noteq> [] \<Longrightarrow> total_prio q \<noteq> 0"
  shows "\<exists>h'. pth_pqueue_calc_target fl h q = Some h' \<and> same_upto sans_target h h' \<and>
           heap_frame (set ts) h h' \<and>
           (\<forall>c \<in> set ts. fld rt_target h' c = Some (target_of fl (total_prio q) (the (fld prio h c))))"
proof -
  let ?base = "if total_prio q = 0 then None else Some (fl (100 / fl (of_int (uint (total_prio q)))))"
  define body where "body = (\<lambda>(h :: tcb_heap) (s :: unit) c. do {
      b \<leftarrow> ?base; p \<leftarrow> fld prio h c;
      h \<leftarrow> setf rt_target_update h c (fl (b * fl (of_int (p + 1)))); Some (h, ()) })"
  have keep: "same_upto sans_target h h'" if "body h s c = Some (h', s')" for h s c h' s'
    using that by (auto simp: body_def setf_def split: bind_splits if_splits)
  have di: "distinct ts" and al: "set ts \<subseteq> alloc h"
    using sh pq_shape_alloc [OF sh] by (auto simp: pq_shape_def dest: cdll_distinct)
  define P where "P c x \<longleftrightarrow> map_option rt_target x =
      Some (target_of fl (total_prio q) (the (fld prio h c)))" for c and x :: "pth_st option"
  have step: "\<exists>h2. body h1 () c = Some (h2, ()) \<and> same_upto sans_target h1 h2 \<and> heap_frame {c} h1 h2 \<and>
      P c (h2 c)" if c: "c \<in> set ts" "c \<in> alloc h1" and same: "h1 c = h c" for h1 c
  proof -
    obtain p where p: "fld prio h1 c = Some p" using alloc_fld [OF c(2), of prio] by blast
    then have "the (fld prio h c) = p" using same by (auto simp: fld_def split: if_splits)
    moreover have "total_prio q \<noteq> 0" using ne c(1) by (metis empty_iff list.set(1))
    ultimately have "body h1 () c = Some (hset rt_target_update h1 c (target_of fl (total_prio q)
        (the (fld prio h c))), ())"
      using c(2) p by (simp add: body_def target_of_def setf_alloc)
    moreover have "P c (hset rt_target_update h1 c v c) \<longleftrightarrow> v = target_of fl (total_prio q) (the (fld prio h c))"
      for v using c(2) by (auto simp: P_def hset_def alloc_def)
    ultimately show ?thesis by simp
  qed
  have f: "pq_foreach body q h () (q_head q) = foldM (\<lambda>(h, s) c. body h s c) (h, ()) ts"
    by (rule pq_foreach [OF sh keep]) (auto simp: sans_target_def)
  from foldM_write [where body = body and P = P and w = sans_target, OF di al _ step] obtain h' where
    h': "foldM (\<lambda>(h, s) c. body h s c) (h, ()) ts = Some (h', ())" "same_upto sans_target h h'"
    "heap_frame (set ts) h h'" "\<forall>c \<in> set ts. P c (h' c)" by auto
  have "fld rt_target h' c = Some (target_of fl (total_prio q) (the (fld prio h c)))" if "c \<in> set ts" for c
    using h'(4) that al alloc_not_NULL [of c h] by (auto simp: P_def fld_def)
  moreover have "pth_pqueue_calc_target fl h q = Some h'"
    using f h'(1) unfolding pth_pqueue_calc_target_def Let_def body_def by simp
  ultimately show ?thesis using h'(2,3) by blast
qed

text \<open>The actual share of a thread: its running time in percent of the time since it was spawned.\<close>

definition actual_of :: "rounding \<Rightarrow> pth_time \<Rightarrow> pth_st \<Rightarrow> rat" where
  "actual_of fl now x =
     (let lt = pth_time_t2d fl (pth_time_sub now (spawned x)) in
      if lt = 0 then rt_actual x else fl (fl (pth_time_t2d fl (running x) / lt) * 100))"

lemma pq_update_a_rt:
  assumes sh: "pq_shape h q ts"
  shows "\<exists>h'. pth_pqueue_update_a_rt fl now h q = Some h' \<and> same_upto sans_actual h h' \<and>
           heap_frame (set ts) h h' \<and>
           (\<forall>c \<in> set ts. fld rt_actual h' c = Some (actual_of fl (now c) (the (h c))))"
proof -
  define body where "body = (\<lambda>(h :: tcb_heap) (s :: unit) c. do {
           sp \<leftarrow> fld spawned h c;
           let lifetime = pth_time_sub (now c) sp;
           if pth_time_t2d fl lifetime \<noteq> 0
           then do {
             ru \<leftarrow> fld running h c;
             h \<leftarrow> setf rt_actual_update h c
                   (fl (fl (pth_time_t2d fl ru / pth_time_t2d fl lifetime) * 100));
             Some (h, ())
           }
           else Some (h, ())
         })"
  have keep: "same_upto sans_actual h h'" if "body h s c = Some (h', s')" for h s c h' s'
    using that by (auto simp: body_def setf_def Let_def split: bind_splits if_splits)
  have di: "distinct ts" and al: "set ts \<subseteq> alloc h"
    using sh pq_shape_alloc [OF sh] by (auto simp: pq_shape_def dest: cdll_distinct)
  define P where "P c x \<longleftrightarrow> map_option rt_actual x = Some (actual_of fl (now c) (the (h c)))"
    for c and x :: "pth_st option"
  have step: "\<exists>h2. body h1 () c = Some (h2, ()) \<and> same_upto sans_actual h1 h2 \<and> heap_frame {c} h1 h2 \<and>
      P c (h2 c)" if c: "c \<in> set ts" "c \<in> alloc h1" and same: "h1 c = h c" for h1 c
  proof -
    from c(2) obtain x where x: "h1 c = Some x" "c \<noteq> NULL" by (auto simp: alloc_def)
    then have f: "fld spawned h1 c = Some (spawned x)" "fld running h1 c = Some (running x)"
      by (simp_all add: fld_def)
    have "P c (hset rt_actual_update h1 c v c) \<longleftrightarrow> v = actual_of fl (now c) x" for v
      using x same [symmetric] by (auto simp: P_def hset_def)
    moreover have "P c (h1 c) \<longleftrightarrow> rt_actual x = actual_of fl (now c) x"
      using x same [symmetric] by (simp add: P_def)
    ultimately show ?thesis using c(2) f
      by (auto simp: body_def Let_def setf_alloc actual_of_def)
  qed
  have "pq_foreach body q h () (q_head q) = foldM (\<lambda>(h, s) c. body h s c) (h, ()) ts"
    by (rule pq_foreach [OF sh keep]) (auto simp: sans_actual_def)
  moreover from foldM_write [where body = body and P = P and w = sans_actual, OF di al _ step]
  obtain h' where h': "foldM (\<lambda>(h, s) c. body h s c) (h, ()) ts = Some (h', ())"
    "same_upto sans_actual h h'" "heap_frame (set ts) h h'" "\<forall>c \<in> set ts. P c (h' c)" by auto
  moreover have "fld rt_actual h' c = Some (actual_of fl (now c) (the (h c)))" if "c \<in> set ts" for c
    using h'(4) that al alloc_not_NULL [of c h] by (auto simp: P_def fld_def)
  ultimately show ?thesis unfolding pth_pqueue_update_a_rt_def body_def by auto
qed

section \<open>Rounding\<close>

text \<open>What the type \<open>double\<close> (IEEE 754 binary64) promises of the rounding of a result: 0 is exact, and
  in the range of the normal numbers the relative error is at most \<open>1 / 2 ^ 53\<close>.\<close>

definition binary64_ok :: "rounding \<Rightarrow> bool" where
  "binary64_ok fl \<longleftrightarrow> fl 0 = 0 \<and>
     (\<forall>x. 1 / 2 ^ 1022 \<le> \<bar>x\<bar> \<and> \<bar>x\<bar> \<le> 2 ^ 1023 \<longrightarrow> \<bar>fl x - x\<bar> \<le> \<bar>x\<bar> / 2 ^ 53)"

text \<open>Rounding to the nearest number with 53 significant bits.\<close>

definition round53 :: rounding where
  "round53 x = (let e = \<lfloor>log 2 (real_of_rat \<bar>x\<bar>)\<rfloor> - 52 in of_int (round (x / 2 powi e)) * 2 powi e)"

lemma of_rat_two_powi: "real_of_rat (2 powi e) = 2 powr of_int e"
proof (cases "0 \<le> e")
  case True
  then show ?thesis by (simp add: power_int_def of_rat_power powr_real_of_int)
next
  case False
  then have "real_of_rat (2 powi e) = inverse (2 ^ nat (- e))"
    by (simp add: power_int_def of_rat_power of_rat_inverse del: inverse_eq_divide_numeral flip: power_inverse)
  with False show ?thesis by (simp add: powr_real_of_int)
qed

lemma two_powi_le:
  assumes "x \<noteq> 0"
  shows "2 powi \<lfloor>log 2 (real_of_rat \<bar>x\<bar>)\<rfloor> \<le> \<bar>x\<bar>"
proof -
  let ?r = "real_of_rat \<bar>x\<bar>"
  have r: "0 < ?r" using assms by simp
  have "2 powr of_int \<lfloor>log 2 ?r\<rfloor> \<le> 2 powr log 2 ?r" by (rule powr_mono) simp_all
  also have "\<dots> = ?r" using r by simp
  finally have "real_of_rat (2 powi \<lfloor>log 2 ?r\<rfloor>) \<le> ?r" by (simp only: of_rat_two_powi)
  then show ?thesis by (simp only: of_rat_less_eq)
qed

lemma round53_error: "\<bar>round53 x - x\<bar> \<le> \<bar>x\<bar> / 2 ^ 53"
proof (cases "x = 0")
  case True
  then show ?thesis by (simp add: round53_def Let_def)
next
  case False
  define k where "k = \<lfloor>log 2 (real_of_rat \<bar>x\<bar>)\<rfloor>"
  define s :: rat where "s = 2 powi (k - 52)"
  have s: "0 < s" by (simp add: s_def)
  have "round53 x - x = (of_int (round (x / s)) - x / s) * s"
    using s by (simp add: round53_def Let_def k_def s_def left_diff_distrib)
  then have "\<bar>round53 x - x\<bar> = \<bar>of_int (round (x / s)) - x / s\<bar> * s" using s by (simp add: abs_mult)
  also have "\<dots> \<le> 1 / 2 * s" using s of_int_round_abs_le [of "x / s"] by (intro mult_right_mono) simp_all
  also have "\<dots> = 2 powi k / 2 ^ 53" by (simp add: s_def power_int_diff)
  also have "\<dots> \<le> \<bar>x\<bar> / 2 ^ 53" using two_powi_le [OF False] by (intro divide_right_mono) (simp_all add: k_def)
  finally show ?thesis .
qed

lemma round53_ok: "binary64_ok round53"
  using round53_error by (simp add: binary64_ok_def round53_def Let_def)

text \<open>Far from the limits of the type a rounding multiplies by a factor close to one.\<close>

abbreviation fl_eps :: rat where
  "fl_eps \<equiv> 1 / 2 ^ 53"

lemma binary64_factor:
  assumes fl: "binary64_ok fl" and x: "x = 0 \<or> 1 / 2 ^ 100 \<le> \<bar>x\<bar>" "\<bar>x\<bar> \<le> 2 ^ 100"
  obtains d where "fl x = x * (1 + d)" and "\<bar>d\<bar> \<le> fl_eps"
proof (cases "x = 0")
  case True
  with fl that [of 0] show ?thesis by (simp add: binary64_ok_def)
next
  case False
  have "(2 :: rat) ^ 100 \<le> 2 ^ 1023" "(2 :: rat) ^ 100 \<le> 2 ^ 1022" by (rule power_increasing; simp)+
  then have "(1 :: rat) / 2 ^ 1022 \<le> 1 / 2 ^ 100" and "(2 :: rat) ^ 100 \<le> 2 ^ 1023"
    by (intro divide_left_mono, simp_all)
  with x False have "1 / 2 ^ 1022 \<le> \<bar>x\<bar>" "\<bar>x\<bar> \<le> 2 ^ 1023" by linarith+
  with fl have e: "\<bar>fl x - x\<bar> \<le> \<bar>x\<bar> / 2 ^ 53" unfolding binary64_ok_def by blast
  show ?thesis
  proof (rule that)
    show "fl x = x * (1 + (fl x - x) / x)" using False by (simp add: field_simps)
    show "\<bar>(fl x - x) / x\<bar> \<le> fl_eps" using e False by (simp add: abs_divide divide_le_eq)
  qed
qed

lemma fl_factor_bounds:
  fixes d :: rat
  assumes "\<bar>d\<bar> \<le> fl_eps"
  shows "0 < 1 + d" "1 / 2 \<le> 1 + d" "1 + d \<le> 2" "1 - fl_eps \<le> 1 + d"
  using assms by auto

lemma fl_factor_range:
  fixes x d :: rat
  assumes "\<bar>d\<bar> \<le> fl_eps" and "a \<le> \<bar>x\<bar>" and "\<bar>x\<bar> \<le> b"
  shows "a / 2 \<le> \<bar>x * (1 + d)\<bar>" and "\<bar>x * (1 + d)\<bar> \<le> b * 2"
proof -
  note f = fl_factor_bounds [OF assms(1)]
  have e: "\<bar>x * (1 + d)\<bar> = \<bar>x\<bar> * (1 + d)" using f(1) by (simp add: abs_mult)
  have "a / 2 \<le> \<bar>x\<bar> * (1 / 2)" using assms(2) by simp
  also have "\<dots> \<le> \<bar>x\<bar> * (1 + d)" using f(2) by (intro mult_left_mono) simp_all
  finally show "a / 2 \<le> \<bar>x * (1 + d)\<bar>" by (simp only: e)
  have "\<bar>x\<bar> * (1 + d) \<le> b * 2" using f(1,3) assms(3) by (intro mult_mono) simp_all
  then show "\<bar>x * (1 + d)\<bar> \<le> b * 2" by (simp only: e)
qed

lemma fl_factor_product:
  fixes d1 d2 d3 d4 u :: rat
  assumes d: "\<bar>d1\<bar> \<le> u" "\<bar>d2\<bar> \<le> u" "\<bar>d3\<bar> \<le> u" "\<bar>d4\<bar> \<le> u" and u: "u \<le> 1 / 16"
  shows "\<bar>(1 + d2) * (1 + d3) * (1 + d4) / (1 + d1) - 1\<bar> \<le> 5 * u"
proof -
  have u0: "0 \<le> u" using d(1) abs_ge_zero [of d1] by linarith
  have m2: "\<bar>x * y\<bar> \<le> u * u" if "\<bar>x\<bar> \<le> u" "\<bar>y\<bar> \<le> u" for x y :: rat
    unfolding abs_mult using that u0 by (intro mult_mono) simp_all
  have m3: "\<bar>d2 * d3 * d4\<bar> \<le> u * u * u"
    unfolding abs_mult using d u0 by (intro mult_mono) simp_all
  define n where "n = (1 + d2) * (1 + d3) * (1 + d4) - (1 + d1)"
  have n_eq: "n = d2 + d3 + d4 - d1 + (d2 * d3 + d2 * d4 + d3 * d4) + d2 * d3 * d4"
    by (simp add: n_def algebra_simps)
  have "\<bar>n\<bar> \<le> 4 * u + 3 * (u * u) + u * u * u"
    using d [THEN abs_le_iff [THEN iffD1]] m2 [OF d(2,3), THEN abs_le_iff [THEN iffD1]]
      m2 [OF d(2,4), THEN abs_le_iff [THEN iffD1]] m2 [OF d(3,4), THEN abs_le_iff [THEN iffD1]]
      m3 [THEN abs_le_iff [THEN iffD1]]
    unfolding n_eq by (intro abs_leI) linarith+
  also have "\<dots> \<le> 5 * u * (1 - u)"
  proof -
    have "u * u \<le> u * (1 / 16)" and "u * u * u \<le> u * u * (1 / 16)"
      using u u0 by (intro mult_left_mono; simp)+
    then have "8 * (u * u) + u * u * u \<le> u" using u0 by linarith
    moreover have "5 * u * (1 - u) = 5 * u - 5 * (u * u)" by (simp add: algebra_simps)
    ultimately show ?thesis by linarith
  qed
  also have "\<dots> \<le> 5 * u * (1 + d1)"
    using d(1) u0 by (intro mult_left_mono) simp_all
  finally have n: "\<bar>n\<bar> \<le> 5 * u * (1 + d1)" .
  have p: "0 < 1 + d1" using d(1) u by linarith
  have "(1 + d2) * (1 + d3) * (1 + d4) / (1 + d1) - 1 = n / (1 + d1)"
    using p by (simp add: n_def diff_divide_distrib)
  then have "\<bar>(1 + d2) * (1 + d3) * (1 + d4) / (1 + d1) - 1\<bar> = \<bar>n\<bar> / (1 + d1)"
    using p by (simp add: abs_divide)
  also have "\<dots> \<le> 5 * u" using n p by (simp only: pos_divide_le_eq)
  finally show ?thesis .
qed

text \<open>The target that is computed differs from the exact share by at most five roundings.\<close>

lemma target_of_error:
  assumes fl: "binary64_ok fl" and t: "tot \<noteq> 0" and p: "\<bar>p + 1\<bar> \<le> 2 ^ 32"
  shows "\<bar>target_of fl tot p - 100 * of_int (p + 1) / of_int (uint tot)\<bar>
           \<le> 5 * fl_eps * \<bar>100 * of_int (p + 1) / of_int (uint tot)\<bar>"
proof -
  define k where "k = uint tot"
  define T :: rat where "T = of_int k"
  define x :: rat where "x = of_int (p + 1)"
  have k: "0 < k" using t by (simp add: k_def word_neq_0_conv word_less_def)
  have "k \<le> 2 ^ 64" using uint_bounded [of tot] by (simp add: k_def)
  then have "of_int k \<le> (of_int (2 ^ 64) :: rat)" by (simp only: of_int_le_iff)
  with k have T: "1 \<le> \<bar>T\<bar>" "\<bar>T\<bar> \<le> 2 ^ 64" and T0: "0 < T" by (simp_all add: T_def)
  have x: "x = 0 \<or> 1 \<le> \<bar>x\<bar>" "\<bar>x\<bar> \<le> 2 ^ 32"
  proof -
    show "x = 0 \<or> 1 \<le> \<bar>x\<bar>" unfolding x_def by (metis of_int_abs of_int_0 of_int_1 of_int_le_iff zero_less_abs_iff zless_imp_add1_zle add_0)
    have "of_int \<bar>p + 1\<bar> \<le> (of_int (2 ^ 32) :: rat)" using p by (simp only: of_int_le_iff)
    then show "\<bar>x\<bar> \<le> 2 ^ 32" by (simp add: x_def)
  qed
  obtain d1 where d1: "fl T = T * (1 + d1)" "\<bar>d1\<bar> \<le> fl_eps"
    by (rule binary64_factor [OF fl, of T]) (use T in auto)
  note r1 = fl_factor_range [OF d1(2) T]
  define y where "y = 100 / (T * (1 + d1))"
  have pos: "0 < T * (1 + d1)" using T0 fl_factor_bounds(1) [OF d1(2)] by simp
  have y: "100 / 2 ^ 65 \<le> \<bar>y\<bar>" "\<bar>y\<bar> \<le> 200"
    using r1 pos by (simp_all add: y_def abs_divide field_simps)
  obtain d2 where d2: "fl y = y * (1 + d2)" "\<bar>d2\<bar> \<le> fl_eps"
    by (rule binary64_factor [OF fl, of y]) (use y in auto)
  note r2 = fl_factor_range [OF d2(2) y]
  obtain d3 where d3: "fl x = x * (1 + d3)" "\<bar>d3\<bar> \<le> fl_eps"
    by (rule binary64_factor [OF fl, of x]) (use x in auto)
  define z where "z = y * (1 + d2) * (x * (1 + d3))"
  have z: "z = 0 \<or> 1 / 2 ^ 100 \<le> \<bar>z\<bar>" "\<bar>z\<bar> \<le> 2 ^ 100"
  proof -
    have up: "\<bar>x * (1 + d3)\<bar> \<le> 2 ^ 32 * 2" using fl_factor_range(2) [OF d3(2), of 0 x "2 ^ 32"] x(2) by simp
    have "\<bar>z\<bar> \<le> (200 * 2) * (2 ^ 32 * 2)"
      unfolding z_def abs_mult [of "y * (1 + d2)"] using up r2(2) by (intro mult_mono) simp_all
    then show "\<bar>z\<bar> \<le> 2 ^ 100" by simp
    show "z = 0 \<or> 1 / 2 ^ 100 \<le> \<bar>z\<bar>"
    proof (cases "x = 0")
      case False
      then have "1 / 2 \<le> \<bar>x * (1 + d3)\<bar>" using fl_factor_range(1) [OF d3(2), of 1 x "2 ^ 32"] x by simp
      then have "(100 / 2 ^ 65 / 2) * (1 / 2) \<le> \<bar>z\<bar>"
        unfolding z_def abs_mult [of "y * (1 + d2)"] using r2(1) by (intro mult_mono) simp_all
      then show ?thesis by simp
    qed (simp add: z_def)
  qed
  obtain d4 where d4: "fl z = z * (1 + d4)" "\<bar>d4\<bar> \<le> fl_eps"
    by (rule binary64_factor [OF fl, of z]) (use z in auto)
  define s where "s = 100 * x / T"
  have "target_of fl tot p = z * (1 + d4)"
    by (simp only: target_of_def k_def [symmetric] T_def [symmetric] x_def [symmetric] d1(1) y_def [symmetric] d2(1) d3(1)
        z_def [symmetric] d4(1))
  also have "\<dots> = s * ((1 + d2) * (1 + d3) * (1 + d4) / (1 + d1))"
    by (simp add: z_def y_def s_def)
  finally have "target_of fl tot p - s = s * ((1 + d2) * (1 + d3) * (1 + d4) / (1 + d1) - 1)"
    by (simp only: right_diff_distrib mult_1_right)
  then have "\<bar>target_of fl tot p - s\<bar> = \<bar>s\<bar> * \<bar>(1 + d2) * (1 + d3) * (1 + d4) / (1 + d1) - 1\<bar>"
    by (simp only: abs_mult)
  also have "\<dots> \<le> \<bar>s\<bar> * (5 * fl_eps)"
    by (intro mult_left_mono fl_factor_product d1 d2 d3 d4) simp_all
  finally show ?thesis by (simp only: s_def x_def T_def k_def mult.commute)
qed

section \<open>Properties\<close>

text \<open>C37: Computing the targets in double arithmetic gives every thread of the ready queue, up to a
  relative error of 5 / 2 ^ 53, its share of the CPU in percent, 100 * (prio + 1) over the sum of
  prio + 1 of all threads, and the targets add up to 100 percent up to 500 / 2 ^ 53 (times the sum of
  the absolute values of prio + 1 over the sum of prio + 1, a factor of one unless some priority is
  below -1). It is supposed that the counter of the priorities is the sum of prio + 1, which is
  positive and did not wrap, and that rounding to a double has the relative error that IEEE 754
  allows for normal numbers; the addition of the targets is exact, the code does not add them.\<close>

theorem targets_sum_to_100:
  assumes "binary64_ok fl" and "pq_shape h q ts"
    and "\<And>c. c \<in> set ts \<Longrightarrow> fld prio h c = Some (p c) \<and> \<bar>p c + 1\<bar> \<le> 2 ^ 32"
    and "total_prio q = word_of_int (\<Sum>c \<in> set ts. p c + 1)"
    and "0 < (\<Sum>c \<in> set ts. p c + 1)" and "(\<Sum>c \<in> set ts. p c + 1) < 2 ^ 64"
  shows "\<exists>h' g. pth_pqueue_calc_target fl h q = Some h' \<and>
           (\<forall>c \<in> set ts. fld rt_target h' c = Some (g c) \<and>
              \<bar>g c - 100 * of_int (p c + 1) / of_int (\<Sum>d \<in> set ts. p d + 1)\<bar>
                \<le> 5 / 2 ^ 53 * \<bar>100 * of_int (p c + 1) / of_int (\<Sum>d \<in> set ts. p d + 1)\<bar>) \<and>
           \<bar>(\<Sum>c \<in> set ts. g c) - 100\<bar>
              \<le> 500 / 2 ^ 53 * (of_int (\<Sum>c \<in> set ts. \<bar>p c + 1\<bar>) / of_int (\<Sum>c \<in> set ts. p c + 1))"
proof -
  define T where "T = (\<Sum>c \<in> set ts. p c + 1)"
  define s :: "ptr \<Rightarrow> rat" where "s c = 100 * of_int (p c + 1) / of_int T" for c
  define g where "g c = target_of fl (total_prio q) (p c)" for c
  note T = assms(4-6) [folded T_def]
  have u: "uint (total_prio q) = T" unfolding T(1) uint_word_of_int using T(2,3) by simp
  then have t0: "total_prio q \<noteq> 0" using T(2) by auto
  from pq_calc_target [OF assms(2) t0] obtain h' where
    h': "pth_pqueue_calc_target fl h q = Some h'"
    "\<forall>c \<in> set ts. fld rt_target h' c = Some (target_of fl (total_prio q) (the (fld prio h c)))" by blast
  have err: "\<bar>g c - s c\<bar> \<le> 5 / 2 ^ 53 * \<bar>s c\<bar>" if "c \<in> set ts" for c
    using target_of_error [OF assms(1) t0, of "p c"] assms(3) [OF that] by (simp add: g_def s_def u)
  have s_sum: "(\<Sum>c \<in> set ts. s c) = 100"
  proof -
    have "(\<Sum>c \<in> set ts. s c) = 100 * of_int T / of_int T"
      by (simp only: s_def sum_divide_distrib [symmetric] sum_distrib_left [symmetric] of_int_sum [symmetric] T_def)
    with T(2) show ?thesis by simp
  qed
  have s_abs: "(\<Sum>c \<in> set ts. \<bar>s c\<bar>) = 100 * (of_int (\<Sum>c \<in> set ts. \<bar>p c + 1\<bar>) / of_int T)"
  proof -
    have "\<bar>s c\<bar> = 100 * of_int \<bar>p c + 1\<bar> / of_int T" for c
      using T(2) unfolding s_def abs_divide abs_mult of_int_abs by simp
    then show ?thesis
      by (simp only: sum_divide_distrib [symmetric] sum_distrib_left [symmetric] of_int_sum [symmetric] times_divide_eq_right)
  qed
  have "\<bar>(\<Sum>c \<in> set ts. g c) - 100\<bar> = \<bar>\<Sum>c \<in> set ts. g c - s c\<bar>"
    by (simp only: sum_subtractf s_sum)
  also have "\<dots> \<le> (\<Sum>c \<in> set ts. \<bar>g c - s c\<bar>)" by (rule sum_abs)
  also have "\<dots> \<le> (\<Sum>c \<in> set ts. 5 / 2 ^ 53 * \<bar>s c\<bar>)" by (rule sum_mono) (rule err)
  also have "\<dots> = 500 / 2 ^ 53 * (of_int (\<Sum>c \<in> set ts. \<bar>p c + 1\<bar>) / of_int T)"
    by (simp only: sum_distrib_left [symmetric] s_abs)
  finally have total: "\<bar>(\<Sum>c \<in> set ts. g c) - 100\<bar>
      \<le> 500 / 2 ^ 53 * (of_int (\<Sum>c \<in> set ts. \<bar>p c + 1\<bar>) / of_int T)" .
  have each: "fld rt_target h' c = Some (g c) \<and> \<bar>g c - s c\<bar> \<le> 5 / 2 ^ 53 * \<bar>s c\<bar>" if "c \<in> set ts" for c
    using h'(2) err [OF that] assms(3) [OF that] that by (simp add: g_def)
  show ?thesis
    unfolding T_def [symmetric] s_def [symmetric] using h'(1) total each by blast
qed

theorem targets_sum_to_100_witness:
  "\<exists>h' g. pth_pqueue_calc_target round53 [2 \<mapsto> tcb_link 3 3 4, 3 \<mapsto> tcb_link 2 2 2]
       \<lparr>q_head = 2, q_num = 2, total_prio = 8, total_tk = 0\<rparr> = Some h' \<and>
     (\<forall>c \<in> set [2, 3]. fld rt_target h' c = Some (g c)) \<and>
     \<bar>g 2 - 625 / 10\<bar> \<le> 5 / 2 ^ 53 * (625 / 10) \<and> \<bar>g 2 + g 3 - 100\<bar> \<le> 500 / 2 ^ 53"
proof -
  let ?h = "[2 \<mapsto> tcb_link 3 3 4, 3 \<mapsto> tcb_link 2 2 2] :: tcb_heap"
  let ?q = "\<lparr>q_head = 2, q_num = 2, total_prio = 8, total_tk = 0\<rparr> :: pth_pqueue"
  have sh: "pq_shape ?h ?q [2, 3]" by (auto simp: pq_shape_def cdll_def tcb_link_def fld_def)
  have "fld prio ?h c = Some (if c = 2 then 4 else 2) \<and> \<bar>(if c = 2 then 4 else 2) + 1\<bar> \<le> (2 :: int) ^ 32"
    if "c \<in> set [2, 3]" for c :: ptr
    using that by (auto simp: tcb_link_def fld_def)
  from targets_sum_to_100 [OF round53_ok sh this] obtain h' g where
    *: "pth_pqueue_calc_target round53 ?h ?q = Some h'"
    "\<forall>c \<in> set [2, 3]. fld rt_target h' c = Some (g c) \<and> \<bar>g c - 100 * of_int ((if c = 2 then 4 else 2) + 1) / 8\<bar>
       \<le> 5 / 2 ^ 53 * \<bar>100 * of_int ((if c = 2 then 4 else 2) + 1) / 8\<bar>"
    "\<bar>g 2 + g 3 - 100\<bar> \<le> 500 / 2 ^ 53" by auto
  then show ?thesis by (intro exI [of _ h'] exI [of _ g]) simp
qed

end
