(* ===== verification/Sched.thy ===== *)
theory Sched
  imports Lottery
begin

text \<open>
  The scheduler of a1/pth-2.0.7/pth_sched.c. The five global queues are one function from
  queue names to queues, so that a C pointer to one of them is its name. The endless loop of
  \<open>pth_scheduler\<close> is cut at the context switch: \<open>sched_select\<close> is the part that picks the
  next thread, \<open>sched_dispatch\<close> the part that prepares the switch, \<open>sched_back\<close> the part that
  puts the thread back into a queue. Random numbers, times, the signals pending for the
  process and the results of system calls are arguments. The event manager, which wakes
  waiting threads, is not part of this theory.

  \<open>sched_rep s Q\<close> is the invariant on the links: queue \<open>k\<close> holds the threads \<open>Q k\<close>, and no
  thread is in two queues. \<open>share_ok s Q\<close> is the invariant of the fair share: the counter
  \<open>total_prio\<close> of the ready queue is the sum of the shares of its threads.
\<close>

section \<open>State\<close>

datatype qid = NQ | RQ | WQ | SQ | DQ

record sched =
  tcbs :: tcb_heap
  pth_main :: ptr
  pth_sched :: ptr
  pth_current :: ptr
  queue :: "qid \<Rightarrow> pth_pqueue"
  pth_favournew :: bool
  pth_loadval :: rat
  pth_loadticknext :: pth_time

datatype sched_fault = DIVISION_BY_ZERO | ABORT

text \<open>Calls of the queue operations on one of the five queues.\<close>

definition q_ins :: "sched \<Rightarrow> qid \<Rightarrow> int \<Rightarrow> ptr \<Rightarrow> sched option" where
  "q_ins s k pr t =
     do {
       (h, q) \<leftarrow> pth_pqueue_insert (tcbs s) (Some (queue s k)) pr t;
       Some (s\<lparr>tcbs := h, queue := (queue s)(k := the q)\<rparr>)
     }"

definition q_del :: "sched \<Rightarrow> qid \<Rightarrow> ptr \<Rightarrow> sched option" where
  "q_del s k t =
     do {
       (h, q) \<leftarrow> pth_pqueue_delete (tcbs s) (Some (queue s k)) t;
       Some (s\<lparr>tcbs := h, queue := (queue s)(k := the q)\<rparr>)
     }"

section \<open>Initialisation and removal of all threads\<close>

datatype fdmode = PTH_FDMODE_ERROR | PTH_FDMODE_POLL | PTH_FDMODE_BLOCK | PTH_FDMODE_NONBLOCK

text \<open>\<open>getfl\<close> is the result of \<open>fcntl(fd, F_GETFL)\<close>, with \<open>None\<close> for a failure; the second
  result is the argument of \<open>fcntl(fd, F_SETFL, ...)\<close> where that call is made.\<close>

definition pth_fdmode :: "32 word \<Rightarrow> (32 word) option \<Rightarrow> fdmode \<Rightarrow> fdmode \<times> (32 word) option" where
  "pth_fdmode nonblock getfl newmode =
     (case getfl of
        None \<Rightarrow> (PTH_FDMODE_ERROR, None)
      | Some fl \<Rightarrow>
          let oldmode = (if and fl nonblock \<noteq> 0 then PTH_FDMODE_NONBLOCK else PTH_FDMODE_BLOCK) in
          (oldmode,
           if oldmode = PTH_FDMODE_BLOCK \<and> newmode = PTH_FDMODE_NONBLOCK then Some (or fl nonblock)
           else if oldmode = PTH_FDMODE_NONBLOCK \<and> newmode = PTH_FDMODE_BLOCK
           then Some (and fl (not nonblock))
           else None))"

definition pth_scheduler_init ::
  "bool \<Rightarrow> fdmode \<Rightarrow> fdmode \<Rightarrow> errno \<Rightarrow> pth_time \<Rightarrow> sched \<Rightarrow> errno + sched" where
  "pth_scheduler_init pipe_ok m0 m1 err now s =
     (if \<not> pipe_ok then Inl err
      else if m0 = PTH_FDMODE_ERROR then Inl err
      else if m1 = PTH_FDMODE_ERROR then Inl err
      else Inr (s\<lparr>pth_sched := NULL, pth_current := NULL,
                  queue := (\<lambda>k. the (pth_pqueue_init (Some (queue s k)))),
                  pth_favournew := True, pth_loadval := 1, pth_loadticknext := now\<rparr>))"

partial_function (option) drop_queue :: "tcb_heap \<Rightarrow> pth_pqueue \<Rightarrow> (tcb_heap \<times> pth_pqueue) option" where
  "drop_queue h q =
     do {
       (h, q, t) \<leftarrow> pth_pqueue_delmax h (Some q);
       if t = NULL then Some (h, the (pth_pqueue_init q))
       else do { h \<leftarrow> pth_tcb_free h t; drop_queue h (the q) }
     }"

declare drop_queue.simps [code]

definition pth_scheduler_drop :: "sched \<Rightarrow> sched option" where
  "pth_scheduler_drop s =
     foldM (\<lambda>s k. do {
         (h, q) \<leftarrow> drop_queue (tcbs s) (queue s k);
         Some (s\<lparr>tcbs := h, queue := (queue s)(k := q)\<rparr>)
       }) s [NQ, RQ, WQ, SQ, DQ]"

section \<open>One round of the scheduler loop\<close>

partial_function (option) load_loop ::
  "rounding \<Rightarrow> rounding \<Rightarrow> int \<Rightarrow> pth_time \<Rightarrow> pth_time \<Rightarrow> rat \<Rightarrow> rat option" where
  "load_loop fl fl32 numready next ttmp val =
     (let val = fl32 (fl (fl (of_int numready * (1/4)) + fl (val * (3/4))));
          ttmp = pth_time_sub ttmp \<lparr>tv_sec = 1, tv_usec = 0\<rparr>
      in if pth_time_cmp ttmp next \<ge> 0 then load_loop fl fl32 numready next ttmp val else Some val)"

declare load_loop.simps [code]

definition pth_scheduler_load :: "rounding \<Rightarrow> rounding \<Rightarrow> pth_time \<Rightarrow> sched \<Rightarrow> sched option" where
  "pth_scheduler_load fl fl32 now s =
     (if pth_time_cmp now (pth_loadticknext s) \<ge> 0
      then do {
        val \<leftarrow> load_loop fl fl32 (pth_pqueue_elements (Some (queue s RQ))) (pth_loadticknext s) now
                (pth_loadval s);
        Some (s\<lparr>pth_loadval := val, pth_loadticknext := pth_time_add now \<lparr>tv_sec = 1, tv_usec = 0\<rparr>\<rparr>)
      }
      else Some s)"

text \<open>Moving the new threads to the ready queue, from the tail of the new queue.\<close>

partial_function (option) move_new :: "sched \<Rightarrow> sched option" where
  "move_new s =
     do {
       t \<leftarrow> pth_pqueue_tail (tcbs s) (Some (queue s NQ));
       if t = NULL then Some s
       else do {
         s \<leftarrow> q_del s NQ t;
         h \<leftarrow> setf tstate_update (tcbs s) t PTH_STATE_READY;
         let s = s\<lparr>tcbs := h\<rparr>;
         pr \<leftarrow> (if pth_favournew s then pth_pqueue_favorite_prio (tcbs s) (queue s RQ)
               else Some PTH_PRIO_STD);
         s \<leftarrow> q_ins s RQ pr t;
         move_new s
       }
     }"

declare move_new.simps [code]

text \<open>The draw: \<open>rand() % total_tk\<close>, stored in an \<open>int\<close>. The result is a fault when the
  division is by zero and when no thread is found.\<close>

definition sched_draw :: "nat \<Rightarrow> sched \<Rightarrow> (sched_fault + sched) option" where
  "sched_draw rand s =
     (let tk = unat (total_tk (queue s RQ)) in
      if tk = 0 then Some (Inl DIVISION_BY_ZERO)
      else do {
        (h, q, t) \<leftarrow> pth_pqueue_deltk (tcbs s) (Some (queue s RQ)) (int_of_long (int (rand mod tk)));
        let s = s\<lparr>tcbs := h, queue := (queue s)(RQ := the q), pth_current := t\<rparr>;
        Some (if t = NULL then Inl ABORT else Inr s)
      })"

definition sched_select ::
  "rounding \<Rightarrow> rounding \<Rightarrow> nat \<Rightarrow> pth_time \<Rightarrow> sched \<Rightarrow> (sched_fault + sched) option" where
  "sched_select fl fl32 rand snapshot s =
     do {
       s \<leftarrow> move_new s;
       h \<leftarrow> pth_pqueue_calc_target fl (tcbs s) (queue s RQ);
       (h, q) \<leftarrow> pth_pqueue_issue_tk fl h (queue s RQ);
       let s = s\<lparr>tcbs := h, queue := (queue s)(RQ := q)\<rparr>;
       s \<leftarrow> pth_scheduler_load fl fl32 snapshot s;
       sched_draw rand s
     }"

text \<open>Entering the thread. The result lists the signals that are raised for the process:
  those pending for the thread and not yet for the process. \<open>nsig\<close> is the number of signals.\<close>

definition sched_dispatch ::
  "nat \<Rightarrow> nat list \<Rightarrow> pth_time \<Rightarrow> pth_time \<Rightarrow> sched \<Rightarrow> (sched \<times> nat list) option" where
  "sched_dispatch nsig procpending now snapshot s =
     do {
       let t = pth_current s;
       cnt \<leftarrow> fld sigpendcnt (tcbs s) t;
       pend \<leftarrow> fld sigpending (tcbs s) t;
       let raised = (if cnt > 0 then filter (\<lambda>sig. sig \<in> set pend \<and> sig \<notin> set procpending) [1..<nsig]
                     else []);
       h \<leftarrow> setf lastran_update (tcbs s) t now;
       sr \<leftarrow> fld running h (pth_sched s);
       h \<leftarrow> setf running_update h (pth_sched s) (pth_time_add sr (pth_time_sub now snapshot));
       d \<leftarrow> fld dispatches h t;
       h \<leftarrow> setf dispatches_update h t (d + 1);
       Some (s\<lparr>tcbs := h\<rparr>, raised)
     }"

text \<open>Coming back from the thread: the signals that were delivered are removed from the thread.
  The third component collects the signals that are deleted from the process again.\<close>

definition sched_signals ::
  "nat \<Rightarrow> nat list \<Rightarrow> nat list \<Rightarrow> tcb_heap \<Rightarrow> ptr \<Rightarrow> (tcb_heap \<times> nat list) option" where
  "sched_signals nsig procpending stillpending h t =
     do {
       cnt \<leftarrow> fld sigpendcnt h t;
       if cnt > 0
       then foldM (\<lambda>(h, del) sig. do {
           pend \<leftarrow> fld sigpending h t;
           if sig \<in> set pend
           then if sig \<notin> set stillpending
             then do {
               h \<leftarrow> setf sigpending_update h t (removeAll sig pend);
               c \<leftarrow> fld sigpendcnt h t;
               h \<leftarrow> setf sigpendcnt_update h t (c - 1);
               Some (h, del)
             }
             else Some (h, if sig \<notin> set procpending then del @ [sig] else del)
           else Some (h, del)
         }) (h, []) [1..<nsig]
       else Some (h, [])
     }"

text \<open>\<open>segv\<close> is the result of \<open>sigaction(SIGSEGV, NULL, &sa)\<close>: \<open>Some True\<close> when the default
  handler is installed, \<open>None\<close> when the call fails.\<close>

definition sched_stack :: "bool option \<Rightarrow> tcb_heap \<Rightarrow> ptr \<Rightarrow> (sched_fault + tcb_heap) option" where
  "sched_stack segv h t =
     do {
       g \<leftarrow> fld stackguard h t;
       if g \<noteq> None \<and> g \<noteq> Some 0xDEAD
       then if segv = Some True then Some (Inl ABORT)
         else do {
           h \<leftarrow> setf join_arg_update h t 0xDEAD;
           h \<leftarrow> setf tstate_update h t PTH_STATE_DEAD;
           Some (Inr h)
         }
       else Some (Inr h)
     }"

definition sched_requeue :: "sched \<Rightarrow> sched option" where
  "sched_requeue s =
     do {
       let t = pth_current s;
       st \<leftarrow> fld tstate (tcbs s) t;
       if st = PTH_STATE_DEAD
       then do {
         j \<leftarrow> fld joinable (tcbs s) t;
         s \<leftarrow> (if \<not> j then do { h \<leftarrow> pth_tcb_free (tcbs s) t; Some (s\<lparr>tcbs := h\<rparr>) }
              else q_ins s DQ PTH_PRIO_STD t);
         Some (s\<lparr>pth_current := NULL\<rparr>)
       }
       else do {
         pr \<leftarrow> fld prio (tcbs s) t;
         if st = PTH_STATE_WAITING
         then do { s \<leftarrow> q_ins s WQ pr t; Some (s\<lparr>pth_current := NULL\<rparr>) }
         else q_ins s RQ pr t
       }
     }"

definition sched_back ::
  "rounding \<Rightarrow> nat \<Rightarrow> nat list \<Rightarrow> nat list \<Rightarrow> bool option \<Rightarrow> pth_time \<Rightarrow> (ptr \<Rightarrow> pth_time) \<Rightarrow> sched \<Rightarrow>
     (sched_fault + sched) option" where
  "sched_back fl nsig procpending stillpending segv snapshot clock s =
     do {
       let t = pth_current s;
       lr \<leftarrow> fld lastran (tcbs s) t;
       ru \<leftarrow> fld running (tcbs s) t;
       h \<leftarrow> setf running_update (tcbs s) t (pth_time_add ru (pth_time_sub snapshot lr));
       h \<leftarrow> pth_pqueue_update_a_rt fl clock h (queue s RQ);
       (h, _) \<leftarrow> sched_signals nsig procpending stillpending h t;
       r \<leftarrow> sched_stack segv h t;
       (case r of
          Inl e \<Rightarrow> Some (Inl e)
        | Inr h \<Rightarrow> do { s \<leftarrow> sched_requeue (s\<lparr>tcbs := h\<rparr>); Some (Inr s) })
     }"

section \<open>The invariants\<close>

definition sched_rep :: "sched \<Rightarrow> (qid \<Rightarrow> ptr list) \<Rightarrow> bool" where
  "sched_rep s Q \<longleftrightarrow> (\<forall>k. pq_shape (tcbs s) (queue s k) (Q k)) \<and>
     (\<forall>k k'. k \<noteq> k' \<longrightarrow> set (Q k) \<inter> set (Q k') = {})"

definition queued :: "(qid \<Rightarrow> ptr list) \<Rightarrow> ptr set" where
  "queued Q = (\<Union>k. set (Q k))"

definition share :: "tcb_heap \<Rightarrow> ptr \<Rightarrow> 64 word" where
  "share h t = word_of_int (the (fld prio h t) + 1)"

definition share_ok :: "sched \<Rightarrow> (qid \<Rightarrow> ptr list) \<Rightarrow> bool" where
  "share_ok s Q \<longleftrightarrow> total_prio (queue s RQ) = (\<Sum>t \<in> set (Q RQ). share (tcbs s) t)"

lemma sched_repD:
  assumes "sched_rep s Q"
  shows "pq_shape (tcbs s) (queue s k) (Q k)" and "k \<noteq> k' \<Longrightarrow> set (Q k) \<inter> set (Q k') = {}"
    and "t \<in> set (Q k) \<Longrightarrow> t \<in> alloc (tcbs s)" and "distinct (Q k)"
proof -
  show sh: "pq_shape (tcbs s) (queue s k) (Q k)" using assms by (simp add: sched_rep_def)
  show "k \<noteq> k' \<Longrightarrow> set (Q k) \<inter> set (Q k') = {}" using assms by (simp add: sched_rep_def)
  show "t \<in> set (Q k) \<Longrightarrow> t \<in> alloc (tcbs s)" by (rule pq_shape_alloc [OF sh])
  show "distinct (Q k)" using sh by (auto simp: pq_shape_def dest: cdll_distinct)
qed

lemma sched_rep_update:
  assumes r: "sched_rep s Q" and sh: "pq_shape h q ts" and fr: "heap_frame A (tcbs s) h"
    and A: "\<And>j. j \<noteq> k \<Longrightarrow> set (Q j) \<inter> (A \<union> set ts) = {}"
  shows "sched_rep (s\<lparr>tcbs := h, queue := (queue s)(k := q)\<rparr>) (Q(k := ts))"
proof -
  have "pq_shape h (queue s j) (Q j)" if "j \<noteq> k" for j
    using pq_shape_frame [OF sched_repD(1) [OF r] fr] A [OF that] by blast
  moreover have "set ((Q(k := ts)) i) \<inter> set ((Q(k := ts)) j) = {}" if "i \<noteq> j" for i j
    using sched_repD(2) [OF r that] A [of i] A [of j] that by auto
  ultimately show ?thesis using sh by (simp add: sched_rep_def)
qed

lemma q_ins_rep:
  assumes r: "sched_rep s Q" and t: "t \<in> alloc (tcbs s)" "t \<notin> queued Q"
  shows "\<exists>h q as bs. q_ins s k pr t = Some (s\<lparr>tcbs := h, queue := (queue s)(k := q)\<rparr>) \<and>
           Q k = as @ bs \<and> sched_rep (s\<lparr>tcbs := h, queue := (queue s)(k := q)\<rparr>) (Q(k := as @ t # bs)) \<and>
           total_prio q = total_prio (queue s k) + share (tcbs s) t \<and>
           heap_frame (insert t (set (Q k))) (tcbs s) h \<and> same_data (tcbs s) h"
proof -
  have n: "t \<notin> set (Q j)" for j using t(2) by (auto simp: queued_def)
  obtain bp where bp: "fld prio (tcbs s) t = Some bp" using alloc_fld [OF t(1), of prio] by blast
  from pq_insert_shape [OF sched_repD(1) [OF r, of k] t(1) n bp, of pr] obtain h q as bs where
    1: "pth_pqueue_insert (tcbs s) (Some (queue s k)) pr t = Some (h, Some q)" "Q k = as @ bs"
    "pq_shape h q (as @ t # bs)" "total_prio q = total_prio (queue s k) + word_of_int (bp + 1)"
    "heap_frame (insert t (set (Q k))) (tcbs s) h" "same_data (tcbs s) h" by blast
  have "sched_rep (s\<lparr>tcbs := h, queue := (queue s)(k := q)\<rparr>) (Q(k := as @ t # bs))"
    by (rule sched_rep_update [OF r 1(3,5)]) (use n sched_repD(2) [OF r, of _ k] 1(2) in auto)
  with 1 bp show ?thesis by (simp add: q_ins_def share_def) blast
qed

lemma q_del_rep:
  assumes r: "sched_rep s Q" and t: "Q k = as @ t # bs"
  shows "\<exists>h q. q_del s k t = Some (s\<lparr>tcbs := h, queue := (queue s)(k := q)\<rparr>) \<and>
           sched_rep (s\<lparr>tcbs := h, queue := (queue s)(k := q)\<rparr>) (Q(k := as @ bs)) \<and>
           total_prio q = total_prio (queue s k) \<and>
           heap_frame (set (Q k)) (tcbs s) h \<and> same_data (tcbs s) h"
proof -
  have "pq_shape (tcbs s) (queue s k) (as @ t # bs)" using sched_repD(1) [OF r, of k] t by simp
  from pq_delete_shape [OF this] obtain h q where
    1: "pth_pqueue_delete (tcbs s) (Some (queue s k)) t = Some (h, Some q)"
    "pq_shape h q (as @ bs)" "total_prio q = total_prio (queue s k)"
    "heap_frame (set (as @ t # bs)) (tcbs s) h" "same_data (tcbs s) h" by blast
  have "sched_rep (s\<lparr>tcbs := h, queue := (queue s)(k := q)\<rparr>) (Q(k := as @ bs))"
    by (rule sched_rep_update [OF r 1(2,4)]) (use sched_repD(2) [OF r, of _ k] t in auto)
  with 1 t show ?thesis by (auto simp: q_del_def)
qed

text \<open>Writes to fields other than the links keep the queues.\<close>

lemma sched_rep_same:
  assumes "sched_rep s Q" and "same_upto w (tcbs s) h"
    and "\<And>x. q_next (w x) = q_next x" "\<And>x. q_prev (w x) = q_prev x"
  shows "sched_rep (s\<lparr>tcbs := h\<rparr>) Q"
  using assms(1) pq_shape_same [OF _ assms(2-4)] by (simp add: sched_rep_def)

lemma sched_rep_fields:
  assumes "sched_rep s Q" and "tcbs s' = tcbs s" and "queue s' = queue s"
  shows "sched_rep s' Q"
  using assms by (simp add: sched_rep_def)

lemma queued_insert:
  assumes "set ts = insert t (set (Q k))"
  shows "queued (Q(k := ts)) = insert t (queued Q)"
proof (intro set_eqI iffI)
  fix x assume "x \<in> insert t (queued Q)"
  then consider "x = t" | j where "x \<in> set (Q j)" by (auto simp: queued_def)
  then show "x \<in> queued (Q(k := ts))"
  proof cases
    case 1
    then have "x \<in> set ((Q(k := ts)) k)" using assms by simp
    then show ?thesis unfolding queued_def by blast
  next
    case 2
    then have "x \<in> set ((Q(k := ts)) j)" using assms by auto
    then show ?thesis unfolding queued_def by blast
  qed
qed (use assms in \<open>auto simp: queued_def split: if_splits\<close>)

lemma upd_order: "s\<lparr>queue := q, tcbs := h\<rparr> = s\<lparr>tcbs := h, queue := q\<rparr>"
  by simp

lemma upd_NQ_RQ: "f(NQ := a, RQ := b, NQ := c, RQ := d) = f(NQ := c, RQ := d)"
  by (rule ext) simp

section \<open>Moving the new threads\<close>

text \<open>\<open>sans_state\<close> forgets the queue fields and the state of a thread.\<close>

definition sans_state :: "pth_st \<Rightarrow> pth_st" where
  "sans_state x = (unlinked x)\<lparr>tstate := PTH_STATE_NEW\<rparr>"

lemma sans_state_upd [simp]: "sans_state (x\<lparr>tstate := st\<rparr>) = sans_state x"
  by (simp add: sans_state_def unlinked_def)

lemma same_data_sans_state:
  assumes "same_data h h'" shows "same_upto sans_state h h'"
proof -
  have "map_option sans_state (h' a) = map_option (tstate_update (\<lambda>_. PTH_STATE_NEW)) (map_option unlinked (h' a))"
    "map_option sans_state (h a) = map_option (tstate_update (\<lambda>_. PTH_STATE_NEW)) (map_option unlinked (h a))" for a
    by (simp_all add: option.map_comp comp_def sans_state_def [abs_def])
  with assms show ?thesis by (simp add: same_upto_def)
qed

lemma share_same:
  assumes "same_upto w h h'" and "\<And>x. prio (w x) = prio x"
  shows "share h' t = share h t"
  using same_upto_fld [OF assms(1), of prio] assms(2) by (simp add: share_def)

lemma favorite_prio_Some:
  assumes "pq_shape h q ts"
  shows "\<exists>p. pth_pqueue_favorite_prio h q = Some p"
proof (cases ts)
  case Nil
  with assms show ?thesis by (simp add: pq_shape_Nil pth_pqueue_favorite_prio_def)
next
  case (Cons t us)
  with pq_shape_head [OF assms [unfolded Cons]] alloc_fld [of t h q_prio]
  show ?thesis by (auto simp: pth_pqueue_favorite_prio_def dest: alloc_not_NULL)
qed

lemma move_one:
  assumes r: "sched_rep s Q" and sh: "share_ok s Q" and N: "Q NQ = N @ [t]"
  shows "\<exists>h nq rq rs. move_new s = move_new (s\<lparr>tcbs := h, queue := (queue s)(NQ := nq, RQ := rq)\<rparr>) \<and>
    (let s' = s\<lparr>tcbs := h, queue := (queue s)(NQ := nq, RQ := rq)\<rparr>; Q' = Q(NQ := N, RQ := rs) in
     set rs = insert t (set (Q RQ)) \<and> filter (\<lambda>c. c \<in> set (Q RQ)) rs = Q RQ \<and>
     sched_rep s' Q' \<and> share_ok s' Q' \<and>
     same_upto sans_state (tcbs s) h \<and> fld tstate h t = Some PTH_STATE_READY \<and>
     (\<forall>u. u \<noteq> t \<longrightarrow> fld tstate h u = fld tstate (tcbs s) u))"
proof -
  have tl: "pth_pqueue_tail (tcbs s) (Some (queue s NQ)) = Some t"
    using pq_tail [OF sched_repD(1) [OF r, of NQ]] N by simp
  have t: "t \<in> alloc (tcbs s)" using sched_repD(3) [OF r, of t NQ] N by simp
  from q_del_rep [OF r, of NQ N t "[]"] N obtain h1 q1 where
    1: "q_del s NQ t = Some (s\<lparr>tcbs := h1, queue := (queue s)(NQ := q1)\<rparr>)"
    "sched_rep (s\<lparr>tcbs := h1, queue := (queue s)(NQ := q1)\<rparr>) (Q(NQ := N))"
    "heap_frame (set (Q NQ)) (tcbs s) h1" "same_data (tcbs s) h1" by auto
  have t1: "t \<in> alloc h1" using t heap_frame_alloc [OF 1(3)] by simp
  let ?h = "hset tstate_update h1 t PTH_STATE_READY"
  let ?s = "s\<lparr>tcbs := ?h, queue := (queue s)(NQ := q1)\<rparr>"
  have same: "same_upto sans_state (tcbs s) ?h" using same_data_sans_state [OF 1(4)] by simp
  have r2: "sched_rep ?s (Q(NQ := N))"
    using sched_rep_same [OF 1(2), where w = "tstate_update (\<lambda>_. PTH_STATE_NEW)" and h = ?h]
    by (rule sched_rep_fields) simp_all
  obtain pr where pr: "(if pth_favournew s then pth_pqueue_favorite_prio ?h (queue s RQ)
      else Some PTH_PRIO_STD) = Some pr"
    using favorite_prio_Some [OF sched_repD(1) [OF r2, of RQ]] by (cases "pth_favournew s") auto
  have nt: "t \<notin> set (Q k)" if "k \<noteq> NQ" for k
    using sched_repD(2) [OF r, of NQ k] N that by auto
  have tN: "t \<notin> set N" using sched_repD(4) [OF r, of NQ] N by simp
  have nq: "t \<notin> queued (Q(NQ := N))" using nt tN by (auto simp: queued_def split: if_splits)
  from q_ins_rep [OF r2 _ nq, of RQ pr] t1 obtain h3 q3 as bs where
    3: "q_ins ?s RQ pr t = Some (?s\<lparr>tcbs := h3, queue := (queue ?s)(RQ := q3)\<rparr>)" "Q RQ = as @ bs"
    "sched_rep (?s\<lparr>tcbs := h3, queue := (queue ?s)(RQ := q3)\<rparr>) (Q(NQ := N, RQ := as @ t # bs))"
    "total_prio q3 = total_prio (queue s RQ) + share ?h t" "same_data ?h h3" by auto
  have same3: "same_upto sans_state (tcbs s) h3"
    using same_upto_trans [OF same same_data_sans_state [OF 3(5)]] .
  have sh3: "share h3 u = share (tcbs s) u" "share ?h u = share (tcbs s) u" for u
    using share_same [OF same3] share_same [OF same] by (simp_all add: sans_state_def unlinked_def)
  have st: "fld tstate h3 = (fld tstate (tcbs s))(t \<mapsto> PTH_STATE_READY)"
    using same_data_fld [OF 3(5), of tstate] same_data_fld [OF 1(4), of tstate] t1
    by (simp add: mem_simps unlinked_def)
  have "share_ok (s\<lparr>tcbs := h3, queue := (queue s)(NQ := q1, RQ := q3)\<rparr>) (Q(NQ := N, RQ := as @ t # bs))"
    using sh nt [of RQ] 3(2,4) by (simp add: share_ok_def sh3 add.commute)
  moreover have "move_new s = move_new (s\<lparr>tcbs := h3, queue := (queue s)(NQ := q1, RQ := q3)\<rparr>)"
    using tl alloc_not_NULL [OF t] 1(1) t1 pr 3(1)
    by (subst move_new.simps) (auto simp: mem_simps Let_def upd_order split: if_splits)
  moreover have "filter (\<lambda>c. c \<in> set (as @ bs)) (as @ t # bs) = as @ bs"
    using nt [of RQ] 3(2) by (auto intro!: filter_True)
  ultimately show ?thesis using 3(2,3) same3 st
    by (intro exI [of _ h3] exI [of _ q1] exI [of _ q3] exI [of _ "as @ t # bs"]) (auto simp: Let_def)
qed

lemma move_new_rep:
  assumes "sched_rep s Q" and "share_ok s Q"
  shows "\<exists>h nq rq rs. move_new s = Some (s\<lparr>tcbs := h, queue := (queue s)(NQ := nq, RQ := rq)\<rparr>) \<and>
    (let s' = s\<lparr>tcbs := h, queue := (queue s)(NQ := nq, RQ := rq)\<rparr>; Q' = Q(NQ := [], RQ := rs) in
     set rs = set (Q RQ) \<union> set (Q NQ) \<and> filter (\<lambda>c. c \<in> set (Q RQ)) rs = Q RQ \<and>
     sched_rep s' Q' \<and> share_ok s' Q' \<and> same_upto sans_state (tcbs s) h \<and>
     (\<forall>u. fld tstate h u = (if u \<in> set (Q NQ) then Some PTH_STATE_READY else fld tstate (tcbs s) u)))"
  using assms
proof (induction "Q NQ" arbitrary: s Q rule: rev_induct)
  case Nil
  then have "pth_pqueue_tail (tcbs s) (Some (queue s NQ)) = Some NULL"
    using pq_tail [OF sched_repD(1) [OF Nil.prems(1), of NQ]] by simp
  then have "move_new s = Some s" by (subst move_new.simps) simp
  moreover have "Q(NQ := []) = Q" using Nil.hyps by auto
  ultimately show ?case using Nil
    by (intro exI [of _ "tcbs s"] exI [of _ "queue s NQ"] exI [of _ "queue s RQ"] exI [of _ "Q RQ"])
      (simp add: Let_def)
next
  case (snoc t N)
  from move_one [OF snoc.prems, of N t] snoc.hyps(2) obtain h nq rq rs where
    1: "move_new s = move_new (s\<lparr>tcbs := h, queue := (queue s)(NQ := nq, RQ := rq)\<rparr>)"
    "set rs = insert t (set (Q RQ))" and ord1: "filter (\<lambda>c. c \<in> set (Q RQ)) rs = Q RQ"
    and 3: "sched_rep (s\<lparr>tcbs := h, queue := (queue s)(NQ := nq, RQ := rq)\<rparr>) (Q(NQ := N, RQ := rs))"
    "share_ok (s\<lparr>tcbs := h, queue := (queue s)(NQ := nq, RQ := rq)\<rparr>) (Q(NQ := N, RQ := rs))"
    "same_upto sans_state (tcbs s) h" "fld tstate h t = Some PTH_STATE_READY"
    "\<forall>u. u \<noteq> t \<longrightarrow> fld tstate h u = fld tstate (tcbs s) u" by (auto simp: Let_def)
  let ?s = "s\<lparr>tcbs := h, queue := (queue s)(NQ := nq, RQ := rq)\<rparr>" and ?Q = "Q(NQ := N, RQ := rs)"
  have "N = ?Q NQ" by simp
  from snoc.hyps(1) [OF this 3(1,2)] obtain h' nq' rq' rs' where
    2: "move_new ?s = Some (?s\<lparr>tcbs := h', queue := (queue ?s)(NQ := nq', RQ := rq')\<rparr>)"
    "set rs' = set (?Q RQ) \<union> set (?Q NQ)" and ord2: "filter (\<lambda>c. c \<in> set (?Q RQ)) rs' = ?Q RQ"
    and 4:
    "sched_rep (?s\<lparr>tcbs := h', queue := (queue ?s)(NQ := nq', RQ := rq')\<rparr>) (?Q(NQ := [], RQ := rs'))"
    "share_ok (?s\<lparr>tcbs := h', queue := (queue ?s)(NQ := nq', RQ := rq')\<rparr>) (?Q(NQ := [], RQ := rs'))"
    "same_upto sans_state (tcbs ?s) h'"
    "\<forall>u. fld tstate h' u = (if u \<in> set (?Q NQ) then Some PTH_STATE_READY else fld tstate (tcbs ?s) u)"
    unfolding Let_def by blast
  have s': "?s\<lparr>tcbs := h', queue := (queue ?s)(NQ := nq', RQ := rq')\<rparr> =
      s\<lparr>tcbs := h', queue := (queue s)(NQ := nq', RQ := rq')\<rparr>"
    by simp
  have N: "set (Q NQ) = insert t (set N)" using snoc.hyps(2) [symmetric] by simp
  have sub: "filter (\<lambda>c. c \<in> set (Q RQ)) rs' = filter (\<lambda>c. c \<in> set (Q RQ)) (filter (\<lambda>c. c \<in> set rs) rs')"
    using 1(2) by (auto simp: filter_filter intro: filter_cong)
  have "filter (\<lambda>c. c \<in> set rs) rs' = rs" using ord2 by simp
  with sub ord1 have ord: "filter (\<lambda>c. c \<in> set (Q RQ)) rs' = Q RQ" by (simp only:)
  have "set rs' = set (Q RQ) \<union> set (Q NQ)" unfolding N 2(2) using 1(2) by simp
  moreover have "\<forall>u. fld tstate h' u =
      (if u \<in> set (Q NQ) then Some PTH_STATE_READY else fld tstate (tcbs s) u)"
    using 3(4,5) 4(4) unfolding N by simp
  moreover have "same_upto sans_state (tcbs s) h'" using same_upto_trans [OF 3(3)] 4(3) by simp
  ultimately show ?case using 1(1) 2(1) 4(1,2) ord unfolding s' upd_NQ_RQ Let_def
    by (intro exI [of _ h'] exI [of _ nq'] exI [of _ rq'] exI [of _ rs']) simp
qed

section \<open>The load average\<close>

definition load_step :: "rounding \<Rightarrow> rounding \<Rightarrow> int \<Rightarrow> rat \<Rightarrow> rat" where
  "load_step fl fl32 numready val = fl32 (fl (fl (of_int numready * (1/4)) + fl (val * (3/4))))"

text \<open>The loop ends, after one step for every second that has passed.\<close>

lemma load_loop_steps:
  assumes "normal next" and "normal t" and "tv_sec t - tv_sec next < 2 ^ 31"
    and "usecs next \<le> usecs t"
  shows "load_loop fl fl32 r next t val =
    Some ((load_step fl fl32 r ^^ nat ((usecs t - usecs next) div 1000000 + 1)) val)"
  using assms(2-4)
proof (induction "nat (usecs t - usecs next)" arbitrary: t val rule: less_induct)
  case less
  define t' where "t' = pth_time_sub t \<lparr>tv_sec = 1, tv_usec = 0\<rparr>"
  have u: "usecs t' = usecs t - 1000000" by (simp add: t'_def) (simp add: usecs_def)
  have n': "normal t'" unfolding t'_def using less.prems(1) by (rule normal_sub) (simp add: normal_def)
  have sec: "tv_sec t' = tv_sec t - 1"
    using less.prems(1) by (simp add: t'_def pth_time_sub_def normal_def Let_def)
  have "tv_sec next \<le> tv_sec t"
    using less.prems assms(1) by (auto simp: usecs_def normal_def)
  then have "\<bar>tv_sec t' - tv_sec next\<bar> < 2 ^ 31" using less.prems(2) sec by auto
  note c = cmp_sign [OF n' assms(1) this]
  show ?case
  proof (cases "usecs next \<le> usecs t'")
    case True
    then have "load_loop fl fl32 r next t val = load_loop fl fl32 r next t' (load_step fl fl32 r val)"
      using c(1) by (subst load_loop.simps) (simp add: load_step_def t'_def Let_def)
    also have "\<dots> = Some ((load_step fl fl32 r ^^ nat ((usecs t' - usecs next) div 1000000 + 1))
        (load_step fl fl32 r val))"
      using True u n' sec less.prems(2) by (intro less.hyps) auto
    also have "(usecs t' - usecs next) div 1000000 = (usecs t - usecs next) div 1000000 - 1"
      unfolding u by (simp add: algebra_simps)
    finally show ?thesis using True u
      by (subst (asm) funpow_swap1 [symmetric]) (simp add: nat_add_distrib pos_imp_zdiv_nonneg_iff funpow_swap1)
  next
    case False
    then have "load_loop fl fl32 r next t val = Some (load_step fl fl32 r val)"
      using c(1) by (subst load_loop.simps) (simp add: load_step_def t'_def Let_def)
    moreover have "(usecs t - usecs next) div 1000000 = 0"
      using False u less.prems(3) by (intro div_pos_pos_trivial) auto
    ultimately show ?thesis by simp
  qed
qed

lemma scheduler_load_Some:
  assumes "normal now" "normal (pth_loadticknext s)" "\<bar>tv_sec now - tv_sec (pth_loadticknext s)\<bar> < 2 ^ 31"
  shows "\<exists>v n. pth_scheduler_load fl fl32 now s = Some (s\<lparr>pth_loadval := v, pth_loadticknext := n\<rparr>)"
proof (cases "usecs (pth_loadticknext s) \<le> usecs now")
  case True
  with assms load_loop_steps [of "pth_loadticknext s" now] cmp_sign(1) [OF assms] show ?thesis
    by (auto simp: pth_scheduler_load_def)
next
  case False
  then have "pth_scheduler_load fl fl32 now s = Some s"
    using cmp_sign(1) [OF assms] by (simp add: pth_scheduler_load_def)
  then show ?thesis
    by (intro exI [of _ "pth_loadval s"] exI [of _ "pth_loadticknext s"]) simp
qed

section \<open>Selecting a thread\<close>

lemma sched_draw_winner:
  assumes r: "sched_rep s Q" and sh: "share_ok s Q" and tk: "tk_ok (tcbs s) n g 0 (Q RQ)"
    and tot: "total_tk (queue s RQ) = sum_list (map n (Q RQ))"
    and bound: "(\<Sum>c\<leftarrow>Q RQ. unat (n c)) < 2 ^ 63" and pos: "0 < (\<Sum>c\<leftarrow>Q RQ. unat (n c))"
    and rand: "rand < 2 ^ 31"
  shows "\<exists>h q t. sched_draw rand s =
            Some (Inr (s\<lparr>tcbs := h, queue := (queue s)(RQ := q), pth_current := t\<rparr>)) \<and>
          winner (\<lambda>c. unat (n c)) (Q RQ) (rand mod (\<Sum>c\<leftarrow>Q RQ. unat (n c))) = Some t \<and>
          (let s' = s\<lparr>tcbs := h, queue := (queue s)(RQ := q), pth_current := t\<rparr>;
               Q' = Q(RQ := remove1 t (Q RQ)) in
           sched_rep s' Q' \<and> share_ok s' Q' \<and> t \<notin> queued Q' \<and> same_data (tcbs s) h)"
proof -
  let ?ts = "Q RQ" and ?N = "\<Sum>c\<leftarrow>Q RQ. unat (n c)"
  define l where "l = rand mod ?N"
  have l: "l < ?N" using pos by (simp add: l_def)
  have "l \<le> rand" by (simp add: l_def)
  then have "int l < 2 ^ 31" using rand by simp
  then have il: "int_of_long (int l) = int l" by (intro int_of_long_id) auto
  have N: "unat (total_tk (queue s RQ)) = ?N" using bound by (simp add: tot sum_list_unat)
  note shp = sched_repD(1) [OF r, of RQ]
  from pq_draw [OF shp tk bound l] obtain t where t: "t \<in> set ?ts"
    "pq_find (holds_ticket (int l)) (Some (queue s RQ)) (tcbs s) (q_head (queue s RQ)) = Some t"
    "winner (\<lambda>c. unat (n c)) ?ts l = Some t" by blast
  from t(1) obtain as bs where ts: "?ts = as @ t # bs" by (auto dest: split_list)
  have di: "t \<notin> set (as @ bs)" using sched_repD(4) [OF r, of RQ] ts by auto
  then have rem: "remove1 t ?ts = as @ bs" using ts by (simp add: remove1_append)
  have ta: "t \<in> alloc (tcbs s)" using sched_repD(3) [OF r t(1)] .
  obtain bp where bp: "fld prio (tcbs s) t = Some bp" using alloc_fld [OF ta, of prio] by blast
  have "\<exists>h q. pth_pqueue_deltk (tcbs s) (Some (queue s RQ)) (int l) = Some (h, Some q, t) \<and>
      pq_shape h q (as @ bs) \<and> heap_frame (set ?ts) (tcbs s) h \<and> same_data (tcbs s) h \<and>
      total_prio q = (\<Sum>u \<in> set (as @ bs). share (tcbs s) u)"
  proof (cases "as @ bs = []")
    case True
    then have "pq_shape (tcbs s) (queue s RQ) [t]" using shp ts by simp
    from pq_deltk_single [OF this, of "int l"] True ts show ?thesis by auto
  next
    case False
    have "total_prio (queue s RQ) = share (tcbs s) t + (\<Sum>u \<in> set (as @ bs). share (tcbs s) u)"
      using sh ts di by (simp add: share_ok_def)
    with pq_deltk_shape [OF shp [unfolded ts] False t(2) bp] bp ts show ?thesis
      by (auto simp: share_def)
  qed
  then obtain h q where d: "pth_pqueue_deltk (tcbs s) (Some (queue s RQ)) (int l) = Some (h, Some q, t)"
    "pq_shape h q (as @ bs)" "heap_frame (set ?ts) (tcbs s) h" "same_data (tcbs s) h"
    "total_prio q = (\<Sum>u \<in> set (as @ bs). share (tcbs s) u)" by blast
  let ?s = "s\<lparr>tcbs := h, queue := (queue s)(RQ := q), pth_current := t\<rparr>"
  have "sched_rep (s\<lparr>tcbs := h, queue := (queue s)(RQ := q)\<rparr>) (Q(RQ := as @ bs))"
    by (rule sched_rep_update [OF r d(2,3)]) (use sched_repD(2) [OF r, of _ RQ] ts in auto)
  then have "sched_rep ?s (Q(RQ := as @ bs))" by (rule sched_rep_fields) simp_all
  moreover have "share h u = share (tcbs s) u" for u
    using share_same [OF d(4)] by (simp add: unlinked_def)
  then have "share_ok ?s (Q(RQ := as @ bs))" using d(5) by (simp add: share_ok_def)
  moreover have "t \<notin> queued (Q(RQ := as @ bs))"
    using di sched_repD(2) [OF r, of _ RQ] t(1) by (auto simp: queued_def split: if_splits)
  moreover have "sched_draw rand s = Some (Inr ?s)"
  proof -
    define M where "M = ?N"
    have "unat (total_tk (queue s RQ)) = M" "M \<noteq> 0" "l = rand mod M"
      using N pos unfolding M_def l_def by (blast, linarith, simp)
    then show ?thesis using d(1) il alloc_not_NULL [OF ta] by (simp add: sched_draw_def Let_def)
  qed
  ultimately show ?thesis using t(3) d(4) unfolding l_def Let_def
    by (intro exI [of _ h] exI [of _ q] exI [of _ t]) (simp add: rem)
qed

text \<open>\<open>entitled fl T h c\<close>: the number of tickets thread \<open>c\<close> gets when the priorities of the ready
  queue sum up to \<open>T\<close>.\<close>

definition entitled :: "rounding \<Rightarrow> 64 word \<Rightarrow> tcb_heap \<Rightarrow> ptr \<Rightarrow> (64 word) option" where
  "entitled fl T h c =
     do {
       p \<leftarrow> fld prio h c;
       ac \<leftarrow> fld rt_actual h c;
       if fl (target_of fl T p - ac) < 0 then Some 0 else tickets fl (fl (target_of fl T p - ac))
     }"

definition sans_lottery :: "pth_st \<Rightarrow> pth_st" where
  "sans_lottery x = (sans_state x)\<lparr>rt_target := 0, tk_num := 0, tk_offset := 0\<rparr>"

lemma sans_lottery_absorb:
  "sans_lottery (sans_state x) = sans_lottery x"
  "sans_lottery (sans_target x) = sans_lottery x"
  "sans_lottery (sans_tk x) = sans_lottery x"
  "sans_lottery (unlinked x) = sans_lottery x"
  by (simp_all add: sans_lottery_def sans_state_def sans_target_def sans_tk_def unlinked_def)

lemma sans_lottery_eq:
  "sans_state x = sans_state y \<Longrightarrow> sans_lottery x = sans_lottery y"
  "sans_target x = sans_target y \<Longrightarrow> sans_lottery x = sans_lottery y"
  "sans_tk x = sans_tk y \<Longrightarrow> sans_lottery x = sans_lottery y"
  "unlinked x = unlinked y \<Longrightarrow> sans_lottery x = sans_lottery y"
  using sans_lottery_absorb [of x] sans_lottery_absorb [of y] by simp_all

lemma same_upto_weaken:
  assumes "same_upto u h h'" and "\<And>x y. u x = u y \<Longrightarrow> w x = w y"
  shows "same_upto w h h'"
  unfolding same_upto_def
proof
  fix a
  have "map_option u (h' a) = map_option u (h a)" using assms(1) by (simp add: same_upto_def)
  then show "map_option w (h' a) = map_option w (h a)"
    by (cases "h' a"; cases "h a") (auto intro: assms(2))
qed

text \<open>Computing the targets and issuing the tickets on a linked ready queue.\<close>

lemma issue_entitled:
  assumes r: "sched_rep s Q" and T: "total_prio (queue s RQ) = T" "T \<noteq> 0"
    and n: "\<And>c. c \<in> set (Q RQ) \<Longrightarrow> entitled fl T (tcbs s) c = Some (n c)"
  shows "\<exists>h1 h g. pth_pqueue_calc_target fl (tcbs s) (queue s RQ) = Some h1 \<and>
           pth_pqueue_issue_tk fl h1 (queue s RQ) =
             Some (h, (queue s RQ)\<lparr>total_tk := sum_list (map n (Q RQ))\<rparr>) \<and>
           tk_ok h n g 0 (Q RQ) \<and> same_upto sans_target (tcbs s) h1 \<and> same_upto sans_tk h1 h"
proof -
  note shp = sched_repD(1) [OF r, of RQ]
  have "total_prio (queue s RQ) \<noteq> 0" using T by simp
  from pq_calc_target [OF shp this] obtain h1 where
    1: "pth_pqueue_calc_target fl (tcbs s) (queue s RQ) = Some h1" "same_upto sans_target (tcbs s) h1"
    "\<forall>c \<in> set (Q RQ). fld rt_target h1 c = Some (target_of fl T (the (fld prio (tcbs s) c)))"
    unfolding T(1) by blast
  have sh1: "pq_shape h1 (queue s RQ) (Q RQ)"
    by (rule pq_shape_same [OF shp 1(2)]) (simp_all add: sans_target_def)
  have ac: "fld rt_actual h1 = fld rt_actual (tcbs s)"
    using 1(2) by (rule same_upto_fld) (simp add: sans_target_def)
  have "tk_of fl h1 c = Some (n c)" if "c \<in> set (Q RQ)" for c
    using n [OF that] 1(3) that
    by (auto simp: tk_of_def entitled_def ac split: bind_splits if_splits)
  from pq_issue_tk [OF sh1 this] 1 show ?thesis by blast
qed

lemma entitled_same:
  assumes "same_upto w h h'" and "\<And>x. prio (w x) = prio x" and "\<And>x. rt_actual (w x) = rt_actual x"
  shows "entitled fl T h' c = entitled fl T h c"
  using same_upto_fld [OF assms(1), of prio] same_upto_fld [OF assms(1), of rt_actual] assms(2,3)
  by (simp add: entitled_def)

text \<open>Everything before the draw: the new threads have joined the ready queue, in some order
  \<open>rs\<close>, and every ready thread holds the tickets it is entitled to.\<close>

lemma sched_prepare:
  assumes r: "sched_rep s Q" and sh: "share_ok s Q"
    and T: "T = (\<Sum>t \<in> set (Q RQ) \<union> set (Q NQ). share (tcbs s) t)" "T \<noteq> 0"
    and n: "\<And>c. c \<in> set (Q RQ) \<union> set (Q NQ) \<Longrightarrow> entitled fl T (tcbs s) c = Some (n c)"
    and now: "normal now" "normal (pth_loadticknext s)" "\<bar>tv_sec now - tv_sec (pth_loadticknext s)\<bar> < 2 ^ 31"
  shows "\<exists>s0 s' rs g. move_new s = Some s0 \<and> sched_rep s0 (Q(NQ := [], RQ := rs)) \<and>
    (\<forall>rand. sched_select fl fl32 rand now s = sched_draw rand s') \<and>
    set rs = set (Q RQ) \<union> set (Q NQ) \<and> filter (\<lambda>c. c \<in> set (Q RQ)) rs = Q RQ \<and>
    sched_rep s' (Q(NQ := [], RQ := rs)) \<and>
    share_ok s' (Q(NQ := [], RQ := rs)) \<and> tk_ok (tcbs s') n g 0 rs \<and>
    total_tk (queue s' RQ) = sum_list (map n rs) \<and> same_upto sans_lottery (tcbs s) (tcbs s')"
proof -
  from move_new_rep [OF r sh] obtain h nq rq rs where
    mv: "move_new s = Some (s\<lparr>tcbs := h, queue := (queue s)(NQ := nq, RQ := rq)\<rparr>)"
    "set rs = set (Q RQ) \<union> set (Q NQ)" "filter (\<lambda>c. c \<in> set (Q RQ)) rs = Q RQ"
    and r1: "sched_rep (s\<lparr>tcbs := h, queue := (queue s)(NQ := nq, RQ := rq)\<rparr>) (Q(NQ := [], RQ := rs))"
    and sh1: "share_ok (s\<lparr>tcbs := h, queue := (queue s)(NQ := nq, RQ := rq)\<rparr>) (Q(NQ := [], RQ := rs))"
    and same: "same_upto sans_state (tcbs s) h" unfolding Let_def by blast
  let ?s = "s\<lparr>tcbs := h, queue := (queue s)(NQ := nq, RQ := rq)\<rparr>" and ?Q = "Q(NQ := [], RQ := rs)"
  have ss: "prio (sans_state x) = prio x" "rt_actual (sans_state x) = rt_actual x" for x
    by (simp_all add: sans_state_def unlinked_def)
  have "share h = share (tcbs s)" using share_same [OF same ss(1)] by (rule ext)
  with sh1 T(1) mv(2) have rq: "total_prio rq = T" by (simp add: share_ok_def)
  have "entitled fl T (tcbs ?s) c = Some (n c)" if "c \<in> set (?Q RQ)" for c
    using n [of c] that mv(2) entitled_same [OF same ss] by simp
  from issue_entitled [OF r1 _ T(2) this] rq obtain h1 h2 g where
    iss: "pth_pqueue_calc_target fl h rq = Some h1"
    "pth_pqueue_issue_tk fl h1 rq = Some (h2, rq\<lparr>total_tk := sum_list (map n rs)\<rparr>)"
    "tk_ok h2 n g 0 rs" "same_upto sans_target h h1" "same_upto sans_tk h1 h2" by auto
  let ?q = "(queue s)(NQ := nq, RQ := rq\<lparr>total_tk := sum_list (map n rs)\<rparr>)"
  let ?s2 = "s\<lparr>tcbs := h2, queue := ?q\<rparr>"
  from scheduler_load_Some [of now ?s2 fl fl32] now obtain v nx where
    ld: "pth_scheduler_load fl fl32 now ?s2 = Some (?s2\<lparr>pth_loadval := v, pth_loadticknext := nx\<rparr>)" by auto
  let ?s3 = "?s2\<lparr>pth_loadval := v, pth_loadticknext := nx\<rparr>"
  have "sched_rep (?s\<lparr>tcbs := h1\<rparr>) ?Q"
    by (rule sched_rep_same [OF r1, where w = sans_target])
      (use iss(4) in \<open>simp_all add: sans_target_def\<close>)
  then have "sched_rep (?s\<lparr>tcbs := h1, tcbs := h2\<rparr>) ?Q"
    by (rule sched_rep_same [where w = sans_tk]) (use iss(5) in \<open>simp_all add: sans_tk_def\<close>)
  moreover have "pq_shape h2 (?q k) (?Q k) \<longleftrightarrow> pq_shape h2 (((queue s)(NQ := nq, RQ := rq)) k) (?Q k)" for k
    by (simp add: pq_shape_def)
  ultimately have r3: "sched_rep ?s3 ?Q" by (simp add: sched_rep_def)
  have "share h1 u = share h u" "share h2 u = share h1 u" for u
    using share_same [OF iss(4)] share_same [OF iss(5)] by (simp_all add: sans_target_def sans_tk_def)
  then have sh3: "share_ok ?s3 ?Q" using sh1 by (simp add: share_ok_def)
  have "same_upto sans_lottery (tcbs s) h" by (rule same_upto_weaken [OF same]) (rule sans_lottery_eq)
  moreover have "same_upto sans_lottery h h1" by (rule same_upto_weaken [OF iss(4)]) (rule sans_lottery_eq)
  moreover have "same_upto sans_lottery h1 h2" by (rule same_upto_weaken [OF iss(5)]) (rule sans_lottery_eq)
  ultimately have "same_upto sans_lottery (tcbs s) h2" by (blast intro: same_upto_trans)
  moreover have "\<forall>rand. sched_select fl fl32 rand now s = sched_draw rand ?s3"
    using mv(1) iss(1,2) ld by (simp add: sched_select_def Let_def)
  ultimately show ?thesis using mv r1 r3 sh3 iss(3)
    by (intro exI [of _ ?s] exI [of _ ?s3] exI [of _ rs] exI [of _ g]) simp
qed

lemma sum_list_set: "distinct rs \<Longrightarrow> (\<Sum>c\<leftarrow>rs. f c) = (\<Sum>c \<in> set rs. f c)"
  by (simp add: sum_list_distinct_conv_sum_set)

lemma tk_ok_num: "tk_ok h n g off cs \<Longrightarrow> c \<in> set cs \<Longrightarrow> fld tk_num h c = Some (n c)"
  by (induction h n g off cs rule: tk_ok.induct) auto

lemma sched_select_winner:
  assumes r: "sched_rep s Q" and sh: "share_ok s Q"
    and T: "T = (\<Sum>t \<in> set (Q RQ) \<union> set (Q NQ). share (tcbs s) t)" "T \<noteq> 0"
    and n: "\<And>c. c \<in> set (Q RQ) \<union> set (Q NQ) \<Longrightarrow> entitled fl T (tcbs s) c = Some (n c)"
    and now: "normal now" "normal (pth_loadticknext s)" "\<bar>tv_sec now - tv_sec (pth_loadticknext s)\<bar> < 2 ^ 31"
    and M: "M = (\<Sum>c \<in> set (Q RQ) \<union> set (Q NQ). unat (n c))" "0 < M" "M < 2 ^ 63"
  shows "\<exists>s0 rs. move_new s = Some s0 \<and> sched_rep s0 (Q(NQ := [], RQ := rs)) \<and>
    set rs = set (Q RQ) \<union> set (Q NQ) \<and> filter (\<lambda>c. c \<in> set (Q RQ)) rs = Q RQ \<and>
    (\<forall>rand < 2 ^ 31. \<exists>s' t. sched_select fl fl32 rand now s = Some (Inr s') \<and>
       winner (\<lambda>c. unat (n c)) rs (rand mod M) = Some t \<and> pth_current s' = t \<and>
       (\<forall>c \<in> set rs. fld tk_num (tcbs s') c = Some (n c)) \<and>
       sched_rep s' (Q(NQ := [], RQ := remove1 t rs)) \<and> share_ok s' (Q(NQ := [], RQ := remove1 t rs)) \<and>
       t \<notin> queued (Q(NQ := [], RQ := remove1 t rs)) \<and> same_upto sans_lottery (tcbs s) (tcbs s'))"
proof -
  from sched_prepare [OF r sh T n now, of fl32] obtain s0 s1 rs g where
    0: "move_new s = Some s0" "sched_rep s0 (Q(NQ := [], RQ := rs))"
    and 1: "\<forall>rand. sched_select fl fl32 rand now s = sched_draw rand s1" "set rs = set (Q RQ) \<union> set (Q NQ)"
    "filter (\<lambda>c. c \<in> set (Q RQ)) rs = Q RQ"
    "sched_rep s1 (Q(NQ := [], RQ := rs))" "share_ok s1 (Q(NQ := [], RQ := rs))" "tk_ok (tcbs s1) n g 0 rs"
    "total_tk (queue s1 RQ) = sum_list (map n rs)" "same_upto sans_lottery (tcbs s) (tcbs s1)" by blast
  have di: "distinct rs" using sched_repD(4) [OF 1(4), of RQ] by simp
  have M': "(\<Sum>c\<leftarrow>rs. unat (n c)) = M" using sum_list_set [OF di] 1(2) M(1) by simp
  let ?Q = "Q(NQ := [], RQ := rs)"
  have "\<exists>s' t. sched_select fl fl32 rand now s = Some (Inr s') \<and>
       winner (\<lambda>c. unat (n c)) rs (rand mod M) = Some t \<and> pth_current s' = t \<and>
       (\<forall>c \<in> set rs. fld tk_num (tcbs s') c = Some (n c)) \<and>
       sched_rep s' (Q(NQ := [], RQ := remove1 t rs)) \<and> share_ok s' (Q(NQ := [], RQ := remove1 t rs)) \<and>
       t \<notin> queued (Q(NQ := [], RQ := remove1 t rs)) \<and> same_upto sans_lottery (tcbs s) (tcbs s')"
    if rand: "rand < 2 ^ 31" for rand
  proof -
    from sched_draw_winner [OF 1(4,5), of n g rand] 1(6,7) M' M rand obtain h q t where
      2: "sched_draw rand s1 = Some (Inr (s1\<lparr>tcbs := h, queue := (queue s1)(RQ := q), pth_current := t\<rparr>))"
      "winner (\<lambda>c. unat (n c)) rs (rand mod M) = Some t"
      "sched_rep (s1\<lparr>tcbs := h, queue := (queue s1)(RQ := q), pth_current := t\<rparr>) (?Q(RQ := remove1 t rs))"
      "share_ok (s1\<lparr>tcbs := h, queue := (queue s1)(RQ := q), pth_current := t\<rparr>) (?Q(RQ := remove1 t rs))"
      "t \<notin> queued (?Q(RQ := remove1 t rs))" "same_data (tcbs s1) h"
      unfolding Let_def by auto
    have "same_upto sans_lottery (tcbs s1) h" by (rule same_upto_weaken [OF 2(6)]) (rule sans_lottery_eq)
    then have "same_upto sans_lottery (tcbs s) h" using 1(8) by (blast intro: same_upto_trans)
    moreover have "fld tk_num h = fld tk_num (tcbs s1)"
      using 2(6) by (rule same_upto_fld) (simp add: unlinked_def)
    then have "\<forall>c \<in> set rs. fld tk_num h c = Some (n c)" using tk_ok_num [OF 1(6)] by simp
    ultimately show ?thesis using 1(1) 2
      by (intro exI [of _ "s1\<lparr>tcbs := h, queue := (queue s1)(RQ := q), pth_current := t\<rparr>"] exI [of _ t]) simp
  qed
  with 0 1(2,3) show ?thesis by blast
qed

text \<open>When no ready thread is entitled to a ticket, the draw divides by zero.\<close>

lemma sched_select_fault:
  assumes r: "sched_rep s Q" and sh: "share_ok s Q"
    and T: "T = (\<Sum>t \<in> set (Q RQ) \<union> set (Q NQ). share (tcbs s) t)" "T \<noteq> 0"
    and n: "\<And>c. c \<in> set (Q RQ) \<union> set (Q NQ) \<Longrightarrow> entitled fl T (tcbs s) c = Some 0"
    and now: "normal now" "normal (pth_loadticknext s)" "\<bar>tv_sec now - tv_sec (pth_loadticknext s)\<bar> < 2 ^ 31"
  shows "sched_select fl fl32 rand now s = Some (Inl DIVISION_BY_ZERO)"
proof -
  from sched_prepare [where n = "\<lambda>_. 0", OF r sh T n now, of fl32] obtain s1 rs where
    1: "\<forall>rand. sched_select fl fl32 rand now s = sched_draw rand s1"
    "total_tk (queue s1 RQ) = sum_list (map (\<lambda>_. 0) rs)" by auto
  then show ?thesis by (simp add: sched_draw_def)
qed

section \<open>Putting a thread back\<close>

text \<open>Where a thread that gives the CPU back belongs, by its state and its joinable attribute: a queue,
  or nowhere when it is dead and nobody may join it.\<close>

definition back_queue :: "pth_state \<Rightarrow> bool \<Rightarrow> qid option" where
  "back_queue st jn =
     (case st of PTH_STATE_DEAD \<Rightarrow> if jn then Some DQ else None
      | PTH_STATE_WAITING \<Rightarrow> Some WQ
      | _ \<Rightarrow> Some RQ)"

lemma ins_back:
  assumes r: "sched_rep s Q" and sh: "share_ok s Q" and t: "t \<in> alloc (tcbs s)" "t \<notin> queued Q"
  shows "\<exists>s' as bs. q_ins s k p t = Some s' \<and> pth_current s' = pth_current s \<and>
    same_data (tcbs s) (tcbs s') \<and> Q k = as @ bs \<and>
    sched_rep s' (Q(k := as @ t # bs)) \<and> share_ok s' (Q(k := as @ t # bs))"
proof -
  from q_ins_rep [OF r t, of k p] obtain h q as bs where
    1: "q_ins s k p t = Some (s\<lparr>tcbs := h, queue := (queue s)(k := q)\<rparr>)" "Q k = as @ bs"
    "sched_rep (s\<lparr>tcbs := h, queue := (queue s)(k := q)\<rparr>) (Q(k := as @ t # bs))"
    "total_prio q = total_prio (queue s k) + share (tcbs s) t" "same_data (tcbs s) h" by blast
  have sp: "share h u = share (tcbs s) u" for u
    using share_same [OF 1(5)] by (simp add: unlinked_def)
  have tk: "t \<notin> set (Q k)" using t(2) by (auto simp: queued_def)
  have "share_ok (s\<lparr>tcbs := h, queue := (queue s)(k := q)\<rparr>) (Q(k := as @ t # bs))"
    using sh 1(2,4) tk by (cases "k = RQ") (auto simp: share_ok_def sp add.commute)
  with 1 show ?thesis
    by (intro exI [of _ "s\<lparr>tcbs := h, queue := (queue s)(k := q)\<rparr>"] exI [of _ as] exI [of _ bs]) simp
qed

lemma free_back:
  assumes r: "sched_rep s Q" and sh: "share_ok s Q" and t: "t \<in> alloc (tcbs s)" "t \<notin> queued Q"
  shows "pth_tcb_free (tcbs s) t = Some ((tcbs s)(t := None))"
    and "sched_rep (s\<lparr>tcbs := (tcbs s)(t := None), pth_current := NULL\<rparr>) Q"
    and "share_ok (s\<lparr>tcbs := (tcbs s)(t := None), pth_current := NULL\<rparr>) Q"
proof -
  let ?h = "(tcbs s)(t := None)"
  have n: "t \<notin> set (Q k)" for k using t(2) by (auto simp: queued_def)
  have e: "fld f ?h u = fld f (tcbs s) u" if "u \<noteq> t" for f :: "pth_st \<Rightarrow> 'b" and u
    using that by (simp add: fld_def)
  have "pq_shape ?h (queue s k) (Q k)" for k
  proof -
    have ne: "u \<noteq> t" if "u \<in> set (Q k)" for u using n [of k] that by auto
    have "cdll (fld q_next ?h) (fld q_prev ?h) (Q k) \<longleftrightarrow> cdll (fld q_next (tcbs s)) (fld q_prev (tcbs s)) (Q k)"
      by (rule cdll_cong) (simp_all add: e ne)
    then show ?thesis using sched_repD(1) [OF r, of k] by (simp add: pq_shape_def)
  qed
  then show "sched_rep (s\<lparr>tcbs := ?h, pth_current := NULL\<rparr>) Q" using r by (simp add: sched_rep_def)
  have "(\<Sum>u \<in> set (Q RQ). share ?h u) = (\<Sum>u \<in> set (Q RQ). share (tcbs s) u)"
  proof (rule sum.cong [OF refl])
    fix u assume "u \<in> set (Q RQ)"
    then have "u \<noteq> t" using n [of RQ] by auto
    then show "share ?h u = share (tcbs s) u" by (simp add: share_def e)
  qed
  then show "share_ok (s\<lparr>tcbs := ?h, pth_current := NULL\<rparr>) Q" using sh by (simp add: share_ok_def)
  show "pth_tcb_free (tcbs s) t = Some ?h" by (rule tcb_free [OF t(1)])
qed

lemma requeue_rep:
  assumes r: "sched_rep s Q" and sh: "share_ok s Q"
    and t: "pth_current s = t" "t \<in> alloc (tcbs s)" "t \<notin> queued Q"
    and f: "fld tstate (tcbs s) t = Some st" "fld joinable (tcbs s) t = Some jn"
  shows "\<exists>s'. sched_requeue s = Some s' \<and>
    (case back_queue st jn of
       None \<Rightarrow> tcbs s' = (tcbs s)(t := None) \<and> pth_current s' = NULL \<and> sched_rep s' Q \<and> share_ok s' Q
     | Some k \<Rightarrow> same_data (tcbs s) (tcbs s') \<and> pth_current s' = (if k = RQ then t else NULL) \<and>
         (\<exists>as bs. Q k = as @ bs \<and> sched_rep s' (Q(k := as @ t # bs)) \<and> share_ok s' (Q(k := as @ t # bs))))"
proof -
  obtain pr where pr: "fld prio (tcbs s) t = Some pr" using alloc_fld [OF t(2), of prio] by blast
  note ins = ins_back [OF r sh t(2,3)]
  have null: "sched_rep (s'\<lparr>pth_current := NULL\<rparr>) Q' = sched_rep s' Q'"
    "share_ok (s'\<lparr>pth_current := NULL\<rparr>) Q' = share_ok s' Q'" for s' Q'
    by (simp_all add: sched_rep_def share_ok_def)
  have stay: ?thesis if "sched_requeue s = q_ins s RQ pr t" and "back_queue st jn = Some RQ"
    using ins [of RQ pr] t(1) that by auto
  show ?thesis
  proof (cases st)
    case PTH_STATE_DEAD
    show ?thesis
    proof (cases jn)
      case True
      from ins [of DQ PTH_PRIO_STD] obtain s' as bs where
        1: "q_ins s DQ PTH_PRIO_STD t = Some s'" "same_data (tcbs s) (tcbs s')" "Q DQ = as @ bs"
        "sched_rep s' (Q(DQ := as @ t # bs))" "share_ok s' (Q(DQ := as @ t # bs))" by blast
      with PTH_STATE_DEAD True f t(1) show ?thesis
        by (intro exI [of _ "s'\<lparr>pth_current := NULL\<rparr>"]) (auto simp: sched_requeue_def back_queue_def null)
    next
      case False
      with PTH_STATE_DEAD f t(1) free_back [OF r sh t(2,3)] show ?thesis
        by (auto simp: sched_requeue_def back_queue_def)
    qed
  next
    case PTH_STATE_WAITING
    from ins [of WQ pr] obtain s' as bs where
      1: "q_ins s WQ pr t = Some s'" "same_data (tcbs s) (tcbs s')" "Q WQ = as @ bs"
      "sched_rep s' (Q(WQ := as @ t # bs))" "share_ok s' (Q(WQ := as @ t # bs))" by blast
    with PTH_STATE_WAITING f t(1) pr show ?thesis
      by (intro exI [of _ "s'\<lparr>pth_current := NULL\<rparr>"]) (auto simp: sched_requeue_def back_queue_def null)
  qed (use f t(1) pr stay in \<open>auto simp: sched_requeue_def back_queue_def\<close>)
qed

section \<open>Coming back from a thread\<close>

definition sans_sig :: "pth_st \<Rightarrow> pth_st" where
  "sans_sig x = x\<lparr>sigpending := [], sigpendcnt := 0\<rparr>"

lemma sans_sig_upd [simp]:
  "sans_sig (x\<lparr>sigpending := v\<rparr>) = sans_sig x" "sans_sig (x\<lparr>sigpendcnt := i\<rparr>) = sans_sig x"
  by (simp_all add: sans_sig_def)

text \<open>The loop over the signals keeps, of the signals of the thread, those that are still pending
  for the process, and counts the removed ones.\<close>

definition sig_body ::
  "nat list \<Rightarrow> nat list \<Rightarrow> ptr \<Rightarrow> tcb_heap \<times> nat list \<Rightarrow> nat \<Rightarrow> (tcb_heap \<times> nat list) option" where
  "sig_body procpending stillpending t = (\<lambda>(h, del) sig. do {
           pend \<leftarrow> fld sigpending h t;
           if sig \<in> set pend
           then if sig \<notin> set stillpending
             then do {
               h \<leftarrow> setf sigpending_update h t (removeAll sig pend);
               c \<leftarrow> fld sigpendcnt h t;
               h \<leftarrow> setf sigpendcnt_update h t (c - 1);
               Some (h, del)
             }
             else Some (h, if sig \<notin> set procpending then del @ [sig] else del)
           else Some (h, del)
         })"

lemma sig_fold:
  assumes "t \<in> alloc h" and "fld sigpending h t = Some pend" and "fld sigpendcnt h t = Some cnt"
    and "distinct sigs"
  shows "\<exists>h' del'. foldM (sig_body pp sp t) (h, del) sigs = Some (h', del') \<and>
    fld sigpending h' t = Some (filter (\<lambda>x. x \<in> set sigs \<longrightarrow> x \<in> set sp) pend) \<and>
    fld sigpendcnt h' t = Some (cnt - int (card (set sigs \<inter> set pend - set sp))) \<and>
    heap_frame {t} h h' \<and> same_upto sans_sig h h'"
  using assms
proof (induction sigs arbitrary: h del pend cnt)
  case (Cons x sigs)
  show ?case
  proof (cases "x \<in> set pend \<and> x \<notin> set sp")
    case True
    define h1 where "h1 = hset sigpendcnt_update (hset sigpending_update h t (removeAll x pend)) t (cnt - 1)"
    have b: "sig_body pp sp t (h, del) x = Some (h1, del)"
      using True Cons.prems by (simp add: sig_body_def h1_def mem_simps)
    have f1: "fld sigpending h1 t = Some (removeAll x pend)" "fld sigpendcnt h1 t = Some (cnt - 1)"
      "t \<in> alloc h1" using Cons.prems(1) by (simp_all add: h1_def mem_simps)
    have s1: "heap_frame {t} h h1" "same_upto sans_sig h h1" by (simp_all add: h1_def)
    from Cons.IH [OF f1(3,1,2), of del] Cons.prems(4) obtain h' del' where
      2: "foldM (sig_body pp sp t) (h1, del) sigs = Some (h', del')"
      "fld sigpending h' t = Some (filter (\<lambda>y. y \<in> set sigs \<longrightarrow> y \<in> set sp) (removeAll x pend))"
      "fld sigpendcnt h' t = Some (cnt - 1 - int (card (set sigs \<inter> set (removeAll x pend) - set sp)))"
      "heap_frame {t} h1 h'" "same_upto sans_sig h1 h'" by auto
    have "filter (\<lambda>y. y \<in> set sigs \<longrightarrow> y \<in> set sp) (removeAll x pend) =
        filter (\<lambda>y. y \<in> set (x # sigs) \<longrightarrow> y \<in> set sp) pend"
      using True unfolding removeAll_filter_not_eq by (auto intro: filter_cong)
    moreover have "set (x # sigs) \<inter> set pend - set sp =
        insert x (set sigs \<inter> set (removeAll x pend) - set sp)"
      using True by auto
    then have "card (set (x # sigs) \<inter> set pend - set sp) =
        Suc (card (set sigs \<inter> set (removeAll x pend) - set sp))" by simp
    ultimately show ?thesis
      using b 2 heap_frame_trans [OF s1(1) 2(4)] same_upto_trans [OF s1(2) 2(5)] by auto
  next
    case False
    define del1 where "del1 = (if x \<in> set pend \<and> x \<notin> set pp then del @ [x] else del)"
    have b: "sig_body pp sp t (h, del) x = Some (h, del1)"
      using False Cons.prems by (auto simp: sig_body_def del1_def)
    from Cons.IH [OF Cons.prems(1-3), of del1] Cons.prems(4) obtain h' del' where
      2: "foldM (sig_body pp sp t) (h, del1) sigs = Some (h', del')"
      "fld sigpending h' t = Some (filter (\<lambda>y. y \<in> set sigs \<longrightarrow> y \<in> set sp) pend)"
      "fld sigpendcnt h' t = Some (cnt - int (card (set sigs \<inter> set pend - set sp)))"
      "heap_frame {t} h h'" "same_upto sans_sig h h'" by auto
    have "filter (\<lambda>y. y \<in> set sigs \<longrightarrow> y \<in> set sp) pend =
        filter (\<lambda>y. y \<in> set (x # sigs) \<longrightarrow> y \<in> set sp) pend"
      using False by (auto intro: filter_cong)
    moreover have "set (x # sigs) \<inter> set pend - set sp = set sigs \<inter> set pend - set sp"
      using False by auto
    ultimately show ?thesis using b 2 by auto
  qed
qed simp

lemma sched_signals_Some:
  assumes t: "t \<in> alloc h"
  shows "\<exists>h' del. sched_signals nsig pp sp h t = Some (h', del) \<and>
    heap_frame {t} h h' \<and> same_upto sans_sig h h'"
proof -
  obtain pend cnt where f: "fld sigpending h t = Some pend" "fld sigpendcnt h t = Some cnt"
    using alloc_fld [OF t, of sigpending] alloc_fld [OF t, of sigpendcnt] by blast
  have "sched_signals nsig pp sp h t =
      (if cnt > 0 then foldM (sig_body pp sp t) (h, []) [1..<nsig] else Some (h, []))"
    by (simp add: sched_signals_def f sig_body_def)
  with sig_fold [OF t f, of "[1..<nsig]" pp sp "[]"] show ?thesis by auto
qed

text \<open>What may change in a thread when it comes back: its times, its signals, and after a stack
  overflow its state and result.\<close>

lemma alloc_same: "same_upto w h h' \<Longrightarrow> alloc h' = alloc h"
  unfolding same_upto_def alloc_def by (metis option.map_disc_iff)

lemma share_ok_same:
  assumes "share_ok s Q" and "same_upto w (tcbs s) h" and "\<And>x. prio (w x) = prio x"
  shows "share_ok (s\<lparr>tcbs := h\<rparr>) Q"
  using assms(1) share_same [OF assms(2,3)] by (simp add: share_ok_def)

text \<open>A stack guard that has been overwritten.\<close>

definition stack_overflow :: "tcb_heap \<Rightarrow> ptr \<Rightarrow> bool" where
  "stack_overflow h t \<longleftrightarrow> fld stackguard h t \<notin> {Some None, Some (Some 0xDEAD)}"

definition sans_death :: "pth_st \<Rightarrow> pth_st" where
  "sans_death x = x\<lparr>join_arg := 0, tstate := PTH_STATE_NEW\<rparr>"

lemma sched_stack_eval:
  assumes t: "t \<in> alloc h" and st: "fld tstate h t = Some st"
  shows "if stack_overflow h t \<and> segv = Some True then sched_stack segv h t = Some (Inl ABORT)
    else \<exists>h'. sched_stack segv h t = Some (Inr h') \<and> same_upto sans_death h h' \<and>
      fld tstate h' t = Some (if stack_overflow h t then PTH_STATE_DEAD else st)"
proof -
  obtain g where "fld stackguard h t = Some g" using alloc_fld [OF t, of stackguard] by blast
  then show ?thesis using t st
    by (auto simp: stack_overflow_def sched_stack_def setf_alloc sans_death_def mem_simps)
qed

text \<open>The part of \<open>sched_back\<close> before the stack is checked: times and signals.\<close>

definition sans_account :: "pth_st \<Rightarrow> pth_st" where
  "sans_account x = (sans_sig (sans_actual x))\<lparr>running := pth_time_zero\<rparr>"

lemma sans_account_absorb:
  "sans_account (x\<lparr>running := pth_time_zero\<rparr>) = sans_account x"
  "sans_account (sans_actual x) = sans_account x"
  "sans_account (sans_sig x) = sans_account x"
  by (simp_all add: sans_account_def sans_sig_def sans_actual_def)

lemma sans_account_eq:
  "x\<lparr>running := pth_time_zero\<rparr> = y\<lparr>running := pth_time_zero\<rparr> \<Longrightarrow> sans_account x = sans_account y"
  "sans_actual x = sans_actual y \<Longrightarrow> sans_account x = sans_account y"
  "sans_sig x = sans_sig y \<Longrightarrow> sans_account x = sans_account y"
  using sans_account_absorb [of x] sans_account_absorb [of y] by simp_all

lemma back_account:
  assumes r: "sched_rep s Q" and t: "t \<in> alloc (tcbs s)"
    and f: "fld lastran (tcbs s) t = Some lr" "fld running (tcbs s) t = Some ru"
  shows "\<exists>h1 h2 h3 del. setf running_update (tcbs s) t (pth_time_add ru (pth_time_sub snapshot lr)) = Some h1 \<and>
    pth_pqueue_update_a_rt fl clock h1 (queue s RQ) = Some h2 \<and> sched_signals nsig pp sp h2 t = Some (h3, del) \<and>
    same_upto sans_account (tcbs s) h3 \<and> fld running h3 t = Some (pth_time_add ru (pth_time_sub snapshot lr))"
proof -
  define ru' where "ru' = pth_time_add ru (pth_time_sub snapshot lr)"
  define h1 where "h1 = hset running_update (tcbs s) t ru'"
  have w1: "same_upto (running_update (\<lambda>_. pth_time_zero)) (tcbs s) h1" by (simp add: h1_def)
  have r1: "sched_rep (s\<lparr>tcbs := h1\<rparr>) Q" by (rule sched_rep_same [OF r w1]) simp_all
  from pq_update_a_rt [OF sched_repD(1) [OF r1, of RQ], of fl clock] obtain h2 where
    2: "pth_pqueue_update_a_rt fl clock h1 (queue s RQ) = Some h2" "same_upto sans_actual h1 h2" by auto
  have "t \<in> alloc h2" using t alloc_same [OF 2(2)] by (simp add: h1_def)
  from sched_signals_Some [OF this, of nsig pp sp] obtain h3 del where
    3: "sched_signals nsig pp sp h2 t = Some (h3, del)" "same_upto sans_sig h2 h3" by blast
  have "same_upto sans_account (tcbs s) h1"
    by (rule same_upto_weaken [OF w1]) (rule sans_account_eq)
  moreover have "same_upto sans_account h1 h2"
    by (rule same_upto_weaken [OF 2(2)]) (rule sans_account_eq)
  moreover have "same_upto sans_account h2 h3"
    by (rule same_upto_weaken [OF 3(2)]) (rule sans_account_eq)
  ultimately have "same_upto sans_account (tcbs s) h3" by (blast intro: same_upto_trans)
  moreover have "fld running h3 = fld running h1"
    using same_upto_fld [OF 3(2), of running] same_upto_fld [OF 2(2), of running]
    by (simp add: sans_sig_def sans_actual_def)
  then have "fld running h3 t = Some ru'" using t by (simp add: h1_def mem_simps)
  moreover have "setf running_update (tcbs s) t ru' = Some h1" using t by (simp add: h1_def setf_alloc)
  ultimately show ?thesis using 2(1) 3(1) unfolding ru'_def by blast
qed

lemma sched_back_rep:
  assumes r: "sched_rep s Q" and sh: "share_ok s Q"
    and t: "pth_current s = t" "t \<in> alloc (tcbs s)" "t \<notin> queued Q"
    and f: "fld tstate (tcbs s) t = Some st" "fld joinable (tcbs s) t = Some jn"
      "fld lastran (tcbs s) t = Some lr" "fld running (tcbs s) t = Some ru"
  shows "if stack_overflow (tcbs s) t \<and> segv = Some True
    then sched_back fl nsig pp sp segv snapshot clock s = Some (Inl ABORT)
    else \<exists>s'. sched_back fl nsig pp sp segv snapshot clock s = Some (Inr s') \<and>
      (case back_queue (if stack_overflow (tcbs s) t then PTH_STATE_DEAD else st) jn of
         None \<Rightarrow> alloc (tcbs s') = alloc (tcbs s) - {t} \<and> pth_current s' = NULL \<and>
           sched_rep s' Q \<and> share_ok s' Q
       | Some k \<Rightarrow> alloc (tcbs s') = alloc (tcbs s) \<and> pth_current s' = (if k = RQ then t else NULL) \<and>
           fld running (tcbs s') t = Some (pth_time_add ru (pth_time_sub snapshot lr)) \<and>
           (\<exists>as bs. Q k = as @ bs \<and> sched_rep s' (Q(k := as @ t # bs)) \<and> share_ok s' (Q(k := as @ t # bs))))"
proof -
  from back_account [OF r t(2) f(3,4), of snapshot fl clock nsig pp sp] obtain h1 h2 h3 del where
    1: "setf running_update (tcbs s) t (pth_time_add ru (pth_time_sub snapshot lr)) = Some h1"
    "pth_pqueue_update_a_rt fl clock h1 (queue s RQ) = Some h2" "sched_signals nsig pp sp h2 t = Some (h3, del)"
    and same3: "same_upto sans_account (tcbs s) h3"
    and run3: "fld running h3 t = Some (pth_time_add ru (pth_time_sub snapshot lr))" by blast
  note ac = sans_account_def sans_sig_def sans_actual_def
  have al3: "alloc h3 = alloc (tcbs s)" by (rule alloc_same [OF same3])
  have f3: "fld tstate h3 t = Some st" "fld joinable h3 t = Some jn"
    "stack_overflow h3 t = stack_overflow (tcbs s) t"
    using same_upto_fld [OF same3, of tstate] same_upto_fld [OF same3, of joinable]
      same_upto_fld [OF same3, of stackguard] f by (simp_all add: ac stack_overflow_def)
  have bk: "sched_back fl nsig pp sp segv snapshot clock s = (do {
       rr \<leftarrow> sched_stack segv h3 t;
       (case rr of Inl e \<Rightarrow> Some (Inl e)
        | Inr h \<Rightarrow> do { s \<leftarrow> sched_requeue (s\<lparr>tcbs := h\<rparr>); Some (Inr s) }) })"
    using f t(1) 1 by (simp add: sched_back_def)
  have "t \<in> alloc h3" using t(2) al3 by simp
  note stk = sched_stack_eval [OF this f3(1), of segv, unfolded f3(3)]
  show ?thesis
  proof (cases "stack_overflow (tcbs s) t \<and> segv = Some True")
    case True
    with stk have "sched_stack segv h3 t = Some (Inl ABORT)" by (simp only: if_True simp_thms)
    with bk True show ?thesis by simp
  next
    case False
    define st' where "st' = (if stack_overflow (tcbs s) t then PTH_STATE_DEAD else st)"
    from stk False obtain h4 where
      4: "sched_stack segv h3 t = Some (Inr h4)" "same_upto sans_death h3 h4" "fld tstate h4 t = Some st'"
      unfolding st'_def by (auto split: if_splits)
    have r3: "sched_rep (s\<lparr>tcbs := h3\<rparr>) Q" by (rule sched_rep_same [OF r same3]) (simp_all add: ac)
    have "sched_rep (s\<lparr>tcbs := h3, tcbs := h4\<rparr>) Q"
      by (rule sched_rep_same [OF r3, where w = sans_death]) (use 4(2) in \<open>simp_all add: sans_death_def\<close>)
    then have r4: "sched_rep (s\<lparr>tcbs := h4\<rparr>) Q" by simp
    have s3: "share_ok (s\<lparr>tcbs := h3\<rparr>) Q" by (rule share_ok_same [OF sh same3]) (simp add: ac)
    have "share_ok (s\<lparr>tcbs := h3, tcbs := h4\<rparr>) Q"
      by (rule share_ok_same [OF s3, where w = sans_death]) (use 4(2) in \<open>simp_all add: sans_death_def\<close>)
    then have s4: "share_ok (s\<lparr>tcbs := h4\<rparr>) Q" by simp
    have al4: "alloc h4 = alloc (tcbs s)" using alloc_same [OF 4(2)] al3 by simp
    have f4: "fld joinable h4 t = Some jn" "fld running h4 t = Some (pth_time_add ru (pth_time_sub snapshot lr))"
      using same_upto_fld [OF 4(2), of joinable] same_upto_fld [OF 4(2), of running] f3(2) run3
      by (simp_all add: sans_death_def)
    define s1 where "s1 = s\<lparr>tcbs := h4\<rparr>"
    have e: "tcbs s1 = h4" and "pth_current s1 = t" using t(1) by (simp_all add: s1_def)
    with requeue_rep [of s1 Q t st' jn, unfolded e, OF r4 [folded s1_def] s4 [folded s1_def]]
      t al4 4(3) f4(1) obtain s' where
      5: "sched_requeue s1 = Some s'"
      "case back_queue st' jn of
         None \<Rightarrow> tcbs s' = h4(t := None) \<and> pth_current s' = NULL \<and> sched_rep s' Q \<and> share_ok s' Q
       | Some k \<Rightarrow> same_data h4 (tcbs s') \<and> pth_current s' = (if k = RQ then t else NULL) \<and>
         (\<exists>as bs. Q k = as @ bs \<and> sched_rep s' (Q(k := as @ t # bs)) \<and> share_ok s' (Q(k := as @ t # bs)))"
      by auto
    have res: "sched_back fl nsig pp sp segv snapshot clock s = Some (Inr s')"
      using bk 4(1) 5(1) by (simp add: s1_def)
    have keep: "fld running h' = fld running h4" "alloc h' = alloc h4" if "same_data h4 h'" for h'
      using same_upto_fld [OF that, of running] alloc_same [OF that] by (simp_all add: unlinked_def)
    have "alloc (h4(t := None)) = alloc (tcbs s) - {t}" using al4 by (auto simp: alloc_def)
    with 5(2) keep [of "tcbs s'"] f4(2) al4 have "case back_queue st' jn of
         None \<Rightarrow> alloc (tcbs s') = alloc (tcbs s) - {t} \<and> pth_current s' = NULL \<and>
           sched_rep s' Q \<and> share_ok s' Q
       | Some k \<Rightarrow> alloc (tcbs s') = alloc (tcbs s) \<and> pth_current s' = (if k = RQ then t else NULL) \<and>
           fld running (tcbs s') t = Some (pth_time_add ru (pth_time_sub snapshot lr)) \<and>
           (\<exists>as bs. Q k = as @ bs \<and> sched_rep s' (Q(k := as @ t # bs)) \<and> share_ok s' (Q(k := as @ t # bs)))"
      by (cases "back_queue st' jn") (simp_all only: option.case simp_thms)
    with res show ?thesis unfolding st'_def [symmetric] if_not_P [OF False] by blast
  qed
qed

section \<open>An example\<close>

text \<open>A system with the scheduler at address 9 and one thread at address 1, used to check that
  the hypotheses of the theorems below can hold.\<close>

definition tcb0 :: pth_st where
  "tcb0 = tcb_link 0 0 0"

definition queue0 :: pth_pqueue where
  "queue0 = \<lparr>q_head = 0, q_num = 0, total_prio = 0, total_tk = 0\<rparr>"

definition sched1 :: sched where
  "sched1 = \<lparr>tcbs = [1 \<mapsto> tcb0\<lparr>q_next := 1, q_prev := 1\<rparr>, 9 \<mapsto> tcb0], pth_main = 1, pth_sched = 9,
     pth_current = 9,
     queue = (\<lambda>_. queue0)(NQ := queue0\<lparr>q_head := 1, q_num := 1, total_prio := 1\<rparr>),
     pth_favournew = True, pth_loadval = 1, pth_loadticknext = pth_time_zero\<rparr>"

lemma all_qid: "(\<forall>k. P k) \<longleftrightarrow> P NQ \<and> P RQ \<and> P WQ \<and> P SQ \<and> P DQ"
  by (metis qid.exhaust)

lemma sched1_rep: "sched_rep sched1 ((\<lambda>_. [])(NQ := [1]))" "share_ok sched1 ((\<lambda>_. [])(NQ := [1]))"
  by (simp_all add: sched_rep_def share_ok_def all_qid sched1_def queue0_def pq_shape_def cdll_def fld_def tcb0_def tcb_link_def)

section \<open>Properties\<close>

text \<open>C3: One round of the scheduler loop selects the winner of the lottery. First all new threads
  join the ready queue, where the threads that were ready keep their order; call \<open>rs\<close> the order of the
  queue then. For every random number \<open>rand\<close> every thread of \<open>rs\<close> holds the number of tickets its
  shortfall entitles it to, the tickets are numbered through in the order \<open>rs\<close>, and the scheduler picks
  the thread whose block of tickets contains \<open>rand mod M\<close>, where \<open>M\<close> is the number of tickets. The thread
  is removed from the ready queue, all five queues stay well formed and disjoint, the sum of the shares
  is kept, and in the threads only queue links, state, target and tickets change. No bad pointer is
  followed, and the loops end.\<close>

theorem select_picks_winner:
  assumes "sched_rep s Q" and "share_ok s Q"
    and "T = (\<Sum>t \<in> set (Q RQ) \<union> set (Q NQ). share (tcbs s) t)" and "T \<noteq> 0"
    and "\<And>c. c \<in> set (Q RQ) \<union> set (Q NQ) \<Longrightarrow> entitled fl T (tcbs s) c = Some (n c)"
    and "normal now" and "normal (pth_loadticknext s)"
    and "\<bar>tv_sec now - tv_sec (pth_loadticknext s)\<bar> < 2 ^ 31"
    and "M = (\<Sum>c \<in> set (Q RQ) \<union> set (Q NQ). unat (n c))" and "0 < M" and "M < 2 ^ 63"
  shows "\<exists>s0 rs. move_new s = Some s0 \<and> sched_rep s0 (Q(NQ := [], RQ := rs)) \<and>
    set rs = set (Q RQ) \<union> set (Q NQ) \<and> filter (\<lambda>c. c \<in> set (Q RQ)) rs = Q RQ \<and>
    (\<forall>rand < 2 ^ 31. \<exists>s' t. sched_select fl fl32 rand now s = Some (Inr s') \<and>
       winner (\<lambda>c. unat (n c)) rs (rand mod M) = Some t \<and> pth_current s' = t \<and>
       (\<forall>c \<in> set rs. fld tk_num (tcbs s') c = Some (n c)) \<and>
       sched_rep s' (Q(NQ := [], RQ := remove1 t rs)) \<and> share_ok s' (Q(NQ := [], RQ := remove1 t rs)) \<and>
       t \<notin> queued (Q(NQ := [], RQ := remove1 t rs)) \<and> same_upto sans_lottery (tcbs s) (tcbs s'))"
  using assms by (rule sched_select_winner)

theorem select_picks_winner_witness:
  "\<exists>s' rs t. sched_select (\<lambda>x. x) (\<lambda>x. x) 7 pth_time_zero sched1 = Some (Inr s') \<and>
    set rs = {1} \<and> winner (\<lambda>c. unat (250000 :: 64 word)) rs (7 mod 250000) = Some t \<and>
    pth_current s' = t \<and> fld tk_num (tcbs s') 1 = Some 250000"
proof -
  have e: "entitled (\<lambda>x. x) 1 (tcbs sched1) 1 = Some 250000"
    by (simp add: entitled_def target_of_def tickets_def sched1_def tcb0_def tcb_link_def fld_def Let_def)
  let ?Q = "(\<lambda>_. [])(NQ := [1 :: ptr])"
  have "\<exists>s0 rs. move_new sched1 = Some s0 \<and> sched_rep s0 (?Q(NQ := [], RQ := rs)) \<and>
    set rs = set (?Q RQ) \<union> set (?Q NQ) \<and> filter (\<lambda>c. c \<in> set (?Q RQ)) rs = ?Q RQ \<and>
    (\<forall>rand < 2 ^ 31. \<exists>s' t. sched_select (\<lambda>x. x) (\<lambda>x. x) rand pth_time_zero sched1 = Some (Inr s') \<and>
       winner (\<lambda>c. unat (250000 :: 64 word)) rs (rand mod 250000) = Some t \<and> pth_current s' = t \<and>
       (\<forall>c \<in> set rs. fld tk_num (tcbs s') c = Some 250000) \<and>
       sched_rep s' (?Q(NQ := [], RQ := remove1 t rs)) \<and> share_ok s' (?Q(NQ := [], RQ := remove1 t rs)) \<and>
       t \<notin> queued (?Q(NQ := [], RQ := remove1 t rs)) \<and> same_upto sans_lottery (tcbs sched1) (tcbs s'))"
    (is "\<exists>s0 rs. _ \<and> _ \<and> _ \<and> _ \<and> (\<forall>rand < 2 ^ 31. ?sel rs rand)")
    by (rule select_picks_winner [OF sched1_rep, of 1])
      (use e in \<open>simp_all add: sched1_def pth_time_zero_def normal_def share_def fld_def tcb0_def tcb_link_def\<close>)
  then obtain rs where rs: "set rs = set (?Q RQ) \<union> set (?Q NQ)" and sel: "\<forall>rand < 2 ^ 31. ?sel rs rand" by blast
  have "(7 :: nat) < 2 ^ 31" by simp
  from sel [rule_format, OF this] obtain s' t where
    "sched_select (\<lambda>x. x) (\<lambda>x. x) 7 pth_time_zero sched1 = Some (Inr s')"
    "winner (\<lambda>c. unat (250000 :: 64 word)) rs (7 mod 250000) = Some t" "pth_current s' = t"
    "\<forall>c \<in> set rs. fld tk_num (tcbs s') c = Some 250000" by blast
  moreover have "set rs = {1}" using rs by simp
  ultimately show ?thesis by blast
qed

text \<open>When no ready thread is entitled to a ticket (all threads have used up their target share,
  or fall short of it by less than a fifth of a percent), the scheduler computes \<open>rand() % 0\<close> and
  the process is killed by the division, whatever the random number is.\<close>

theorem select_divides_by_zero:
  assumes "sched_rep s Q" and "share_ok s Q"
    and "T = (\<Sum>t \<in> set (Q RQ) \<union> set (Q NQ). share (tcbs s) t)" and "T \<noteq> 0"
    and "\<And>c. c \<in> set (Q RQ) \<union> set (Q NQ) \<Longrightarrow> entitled fl T (tcbs s) c = Some 0"
    and "normal now" and "normal (pth_loadticknext s)"
    and "\<bar>tv_sec now - tv_sec (pth_loadticknext s)\<bar> < 2 ^ 31"
  shows "sched_select fl fl32 rand now s = Some (Inl DIVISION_BY_ZERO)"
  using assms by (rule sched_select_fault)

text \<open>The thread of the example after it has used all of the CPU so far.\<close>

definition sched2 :: sched where
  "sched2 = sched1\<lparr>tcbs := (tcbs sched1)(1 \<mapsto> tcb0\<lparr>q_next := 1, q_prev := 1, rt_actual := 100\<rparr>)\<rparr>"

lemma sched2_rep: "sched_rep sched2 ((\<lambda>_. [])(NQ := [1]))" "share_ok sched2 ((\<lambda>_. [])(NQ := [1]))"
  by (simp_all add: sched_rep_def share_ok_def all_qid sched1_def sched2_def queue0_def pq_shape_def
      cdll_def fld_def tcb0_def tcb_link_def)

theorem select_divides_by_zero_witness:
  "sched_select (\<lambda>x. x) (\<lambda>x. x) 7 pth_time_zero sched2 = Some (Inl DIVISION_BY_ZERO)"
proof -
  have "entitled (\<lambda>x. x) 1 (tcbs sched2) 1 = Some 0"
    by (simp add: entitled_def target_of_def tickets_def sched1_def sched2_def tcb0_def tcb_link_def fld_def Let_def)
  then show ?thesis
    by (intro select_divides_by_zero [OF sched2_rep, of 1])
      (simp_all add: sched1_def sched2_def pth_time_zero_def normal_def share_def fld_def tcb0_def tcb_link_def)
qed

text \<open>C5: What happens to the thread that gives the CPU back. With a damaged stack guard and the
  default SIGSEGV handler the process is aborted. Otherwise the time it ran is added to its running
  time and the scheduler looks at its state, which is dead when the stack guard is damaged: a dead
  thread goes to the dead queue when it is joinable and is freed when it is not, a waiting thread goes
  to the waiting queue, any other thread to the ready queue, where it stays the current thread. It is put
  into that queue only and nothing else about the queues changes; all five queues stay well formed and
  disjoint, and the sum of the shares of the ready queue is kept.\<close>

theorem back_keeps_queues:
  assumes "sched_rep s Q" and "share_ok s Q" and "pth_current s = t" and "t \<in> alloc (tcbs s)"
    and "t \<notin> queued Q"
    and "fld tstate (tcbs s) t = Some st" and "fld joinable (tcbs s) t = Some jn"
    and "fld lastran (tcbs s) t = Some lr" and "fld running (tcbs s) t = Some ru"
  shows "if stack_overflow (tcbs s) t \<and> segv = Some True
    then sched_back fl nsig pp sp segv snapshot clock s = Some (Inl ABORT)
    else \<exists>s'. sched_back fl nsig pp sp segv snapshot clock s = Some (Inr s') \<and>
      (case back_queue (if stack_overflow (tcbs s) t then PTH_STATE_DEAD else st) jn of
         None \<Rightarrow> alloc (tcbs s') = alloc (tcbs s) - {t} \<and> pth_current s' = NULL \<and>
           sched_rep s' Q \<and> share_ok s' Q
       | Some k \<Rightarrow> alloc (tcbs s') = alloc (tcbs s) \<and> pth_current s' = (if k = RQ then t else NULL) \<and>
           fld running (tcbs s') t = Some (pth_time_add ru (pth_time_sub snapshot lr)) \<and>
           (\<exists>as bs. Q k = as @ bs \<and> sched_rep s' (Q(k := as @ t # bs)) \<and> share_ok s' (Q(k := as @ t # bs))))"
  using assms by (rule sched_back_rep)

theorem back_keeps_queues_witness:
  "\<exists>s' as bs. sched_back (\<lambda>x. x) 32 [] [] None pth_time_zero (\<lambda>_. pth_time_zero) sched1 = Some (Inr s') \<and>
    sched_rep s' ((\<lambda>_. [])(NQ := [1], RQ := as @ 9 # bs)) \<and> as @ bs = [] \<and> pth_current s' = 9"
proof -
  have f: "fld tstate (tcbs sched1) 9 = Some PTH_STATE_NEW" "fld joinable (tcbs sched1) 9 = Some True"
    "fld lastran (tcbs sched1) 9 = Some pth_time_zero" "fld running (tcbs sched1) 9 = Some pth_time_zero"
    "\<not> stack_overflow (tcbs sched1) 9"
    by (simp_all add: sched1_def tcb0_def tcb_link_def fld_def stack_overflow_def pth_time_zero_def)
  have "pth_current sched1 = 9" "9 \<in> alloc (tcbs sched1)" "9 \<notin> queued ((\<lambda>_. [])(NQ := [1]))"
    by (simp_all add: sched1_def alloc_def queued_def)
  from back_keeps_queues [OF sched1_rep this f(1-4), of None "\<lambda>x. x" 32 "[]" "[]" pth_time_zero "\<lambda>_. pth_time_zero"]
  show ?thesis using f(5) by (auto simp: back_queue_def)
qed

text \<open>C4: The lottery is fair. After tickets have been issued to the threads of the queue, every thread
  has the number of tickets its shortfall gives it, the total is the number of all tickets, and among the
  numbers below the total the number of those for which the draw removes a thread \<open>t\<close> from the queue is
  the number of tickets of \<open>t\<close>.\<close>

theorem draw_fair:
  assumes "pq_shape h q ts" and "\<And>c. c \<in> set ts \<Longrightarrow> tk_of fl h c = Some (n c)"
    and "(\<Sum>c\<leftarrow>ts. unat (n c)) < 2 ^ 31"
  shows "\<exists>h' q'. pth_pqueue_issue_tk fl h q = Some (h', q') \<and>
    unat (total_tk q') = (\<Sum>c\<leftarrow>ts. unat (n c)) \<and>
    (\<forall>t \<in> set ts. fld tk_num h' t = Some (n t) \<and>
       card {l. l < unat (total_tk q') \<and> (\<exists>h'' q''. pth_pqueue_deltk h' (Some q') (int l) = Some (h'', q'', t))}
         = unat (n t))"
proof -
  let ?M = "\<Sum>c\<leftarrow>ts. unat (n c)"
  define q' where "q' = q\<lparr>total_tk := sum_list (map n ts)\<rparr>"
  from pq_issue_tk [OF assms(1,2)] obtain h' where
    1: "pth_pqueue_issue_tk fl h q = Some (h', q')" "tk_ok h' n (greedy fl h) 0 ts" "same_upto sans_tk h h'"
    unfolding q'_def by blast
  have "pq_shape h' q ts" by (rule pq_shape_same [OF assms(1) 1(3)]) (simp_all add: sans_tk_def)
  then have sh: "pq_shape h' q' ts" by (simp add: pq_shape_def q'_def)
  have M: "?M < 2 ^ 63" using assms(3) by simp
  then have tot: "unat (total_tk q') = ?M" by (simp add: q'_def sum_list_unat)
  have draw: "\<exists>h'' q'' c. pth_pqueue_deltk h' (Some q') (int l) = Some (h'', q'', c) \<and>
      winner (\<lambda>c. unat (n c)) ts l = Some c" if l: "l < ?M" for l
    by (rule pq_deltk_winner [OF sh 1(2) M l])
  have di: "distinct ts" using assms(1) by (auto simp: pq_shape_def dest: cdll_distinct)
  have fair: "card {l. l < ?M \<and> (\<exists>h'' q''. pth_pqueue_deltk h' (Some q') (int l) = Some (h'', q'', t))} = unat (n t)"
    if t: "t \<in> set ts" for t
  proof -
    have "(\<exists>h'' q''. pth_pqueue_deltk h' (Some q') (int l) = Some (h'', q'', t)) \<longleftrightarrow>
        winner (\<lambda>c. unat (n c)) ts l = Some t" if "l < ?M" for l
      using draw [OF that] by auto
    moreover have "l < ?M" if "winner (\<lambda>c. unat (n c)) ts l = Some t" for l
      using that by (rule winner_bound)
    ultimately have "{l. l < ?M \<and> (\<exists>h'' q''. pth_pqueue_deltk h' (Some q') (int l) = Some (h'', q'', t))} =
        {l. winner (\<lambda>c. unat (n c)) ts l = Some t}" by blast
    then show ?thesis using winner_count [OF di t, of "\<lambda>c. unat (n c)"] by simp
  qed
  have "\<forall>t \<in> set ts. fld tk_num h' t = Some (n t) \<and>
      card {l. l < ?M \<and> (\<exists>h'' q''. pth_pqueue_deltk h' (Some q') (int l) = Some (h'', q'', t))} = unat (n t)"
    using fair tk_ok_num [OF 1(2)] by blast
  with 1(1) tot show ?thesis by (intro exI [of _ h'] exI [of _ q']) (simp only: simp_thms)
qed

text \<open>Two threads with a target of one and of two percent.\<close>

theorem draw_fair_witness:
  "\<exists>h' q'. pth_pqueue_issue_tk (\<lambda>x. x)
       [1 \<mapsto> (tcb_link 2 2 0)\<lparr>rt_target := 1\<rparr>, 2 \<mapsto> (tcb_link 1 1 0)\<lparr>rt_target := 2\<rparr>]
       (queue0\<lparr>q_head := 1, q_num := 2\<rparr>) = Some (h', q') \<and>
     card {l. l < unat (total_tk q') \<and>
       (\<exists>h'' q''. pth_pqueue_deltk h' (Some q') (int l) = Some (h'', q'', 2))} = 100"
proof -
  let ?h = "[1 \<mapsto> (tcb_link 2 2 0)\<lparr>rt_target := 1\<rparr>, 2 \<mapsto> (tcb_link 1 1 0)\<lparr>rt_target := 2\<rparr>] :: tcb_heap"
  let ?n = "(\<lambda>_. 25)(2 := 100) :: ptr \<Rightarrow> 64 word"
  have "pq_shape ?h (queue0\<lparr>q_head := 1, q_num := 2\<rparr>) [1, 2]"
    by (simp add: pq_shape_def cdll_def fld_def queue0_def tcb_link_def)
  moreover have "tk_of (\<lambda>x. x) ?h c = Some (?n c)" if "c \<in> set [1, 2]" for c
    using that by (auto simp: tk_of_def tickets_def tcb_link_def fld_def Let_def)
  ultimately show ?thesis using draw_fair [of ?h "queue0\<lparr>q_head := 1, q_num := 2\<rparr>" "[1, 2]" "\<lambda>x. x" ?n] by auto
qed

text \<open>The load average is updated once for every second that has passed, so the loop of
  \<open>pth_scheduler_load\<close> ends, and it computes that many steps of the exponential average.\<close>

theorem load_steps:
  assumes "normal next" and "normal t" and "tv_sec t - tv_sec next < 2 ^ 31" and "usecs next \<le> usecs t"
  shows "load_loop fl fl32 r next t val =
    Some ((load_step fl fl32 r ^^ nat ((usecs t - usecs next) div 1000000 + 1)) val)"
  using assms by (rule load_loop_steps)

theorem load_steps_witness:
  "load_loop (\<lambda>x. x) (\<lambda>x. x) 4 pth_time_zero \<lparr>tv_sec = 2, tv_usec = 5\<rparr> 0 =
    Some ((load_step (\<lambda>x. x) (\<lambda>x. x) 4 ^^ 3) 0)"
  using load_steps [of pth_time_zero "\<lparr>tv_sec = 2, tv_usec = 5\<rparr>" "\<lambda>x. x" "\<lambda>x. x" 4 0]
  by (simp add: normal_def pth_time_zero_def usecs_def)

end
