(* ===== verification/Msg.thy ===== *)
theory Msg
  imports Ring
begin

text \<open>
  Message ports of a1/pth-2.0.7/pth_msg.c. A message embeds a ring node as its first member,
  and so does a port, so the pointer of a message or a port is also the pointer of its node:
  one heap of nodes serves the queues of all ports and the list of existing ports. The
  address that malloc returns is an argument of \<open>pth_msgport_create\<close> (\<open>NULL\<close>: no memory).
  A result \<open>None\<close> of an operation means an invalid memory access, or a loop that does not end.
\<close>

section \<open>State\<close>

record pth_msgport =
  mp_name :: "string option"
  mp_tid :: ptr
  mp_queue :: pth_ring

record pth_message =
  m_replyport :: ptr
  m_size :: "32 word"
  m_data :: ptr

record msg_state =
  nodes :: ring_heap
  ports :: "pth_msgport heap"
  msgs :: "pth_message heap"
  pth_msgport :: pth_ring

section \<open>Operations\<close>

definition pth_msgport_create ::
  "msg_state \<Rightarrow> ptr \<Rightarrow> string option \<Rightarrow> ptr \<Rightarrow> (msg_state \<times> (errno + ptr)) option" where
  "pth_msgport_create s cur name mp =
     (if mp = NULL then Some (s, Inl ENOMEM)
      else do {
        let port = \<lparr>mp_name = name, mp_tid = cur, mp_queue = \<lparr>r_hook = NULL, r_nodes = 0\<rparr>\<rparr>;
        let h = (nodes s)(mp \<mapsto> \<lparr>rn_next = NULL, rn_prev = NULL\<rparr>);
        (h, r) \<leftarrow> pth_ring_append h (Some (pth_msgport s)) mp;
        r \<leftarrow> r;
        Some (s\<lparr>nodes := h, ports := (ports s)(mp \<mapsto> port), pth_msgport := r\<rparr>, Inr mp)
      })"

definition pth_msgport_pending :: "msg_state \<Rightarrow> ptr \<Rightarrow> (errno + 32 word) option" where
  "pth_msgport_pending s mp =
     (if mp = NULL then Some (Inl EINVAL)
      else do { q \<leftarrow> fld mp_queue (ports s) mp; Some (Inr (pth_ring_elements (Some q))) })"

definition pth_msgport_put :: "msg_state \<Rightarrow> ptr \<Rightarrow> ptr \<Rightarrow> (msg_state \<times> (errno + bool)) option" where
  "pth_msgport_put s mp m =
     (if mp = NULL then Some (s, Inl EINVAL)
      else do {
        q \<leftarrow> fld mp_queue (ports s) mp;
        (h, r) \<leftarrow> pth_ring_append (nodes s) (Some q) m;
        r \<leftarrow> r;
        P \<leftarrow> setf mp_queue_update (ports s) mp r;
        Some (s\<lparr>nodes := h, ports := P\<rparr>, Inr True)
      })"

definition pth_msgport_get :: "msg_state \<Rightarrow> ptr \<Rightarrow> (msg_state \<times> (errno + ptr)) option" where
  "pth_msgport_get s mp =
     (if mp = NULL then Some (s, Inl EINVAL)
      else do {
        q \<leftarrow> fld mp_queue (ports s) mp;
        (h, r, m) \<leftarrow> pth_ring_pop (nodes s) (Some q);
        r \<leftarrow> r;
        P \<leftarrow> setf mp_queue_update (ports s) mp r;
        Some (s\<lparr>nodes := h, ports := P\<rparr>, Inr m)
      })"

definition pth_msgport_reply :: "msg_state \<Rightarrow> ptr \<Rightarrow> (msg_state \<times> (errno + bool)) option" where
  "pth_msgport_reply s m =
     (if m = NULL then Some (s, Inl EINVAL)
      else do { rp \<leftarrow> fld m_replyport (msgs s) m; pth_msgport_put s rp m })"

text \<open>One test and one round of the loop that replies to the pending messages: \<open>Inl\<close> when the port
  had no message and the loop ends, \<open>Inr\<close> when a message was replied to and the loop goes on.\<close>

definition reply_round :: "msg_state \<Rightarrow> ptr \<Rightarrow> (msg_state + msg_state) option" where
  "reply_round s mp =
     do {
       (s, m) \<leftarrow> pth_msgport_get s mp;
       (case m of
          Inl _ \<Rightarrow> Some (Inl s)
        | Inr m \<Rightarrow>
            if m = NULL then Some (Inl s)
            else do { (s, _) \<leftarrow> pth_msgport_reply s m; Some (Inr s) })
     }"

partial_function (option) reply_pending :: "msg_state \<Rightarrow> ptr \<Rightarrow> msg_state option" where
  "reply_pending s mp =
     do {
       r \<leftarrow> reply_round s mp;
       (case r of Inl s \<Rightarrow> Some s | Inr s \<Rightarrow> reply_pending s mp)
     }"

declare reply_pending.simps [code]

definition pth_msgport_destroy :: "msg_state \<Rightarrow> ptr \<Rightarrow> msg_state option" where
  "pth_msgport_destroy s mp =
     (if mp = NULL then Some s
      else do {
        s \<leftarrow> reply_pending s mp;
        (h, r) \<leftarrow> pth_ring_delete (nodes s) (Some (pth_msgport s)) mp;
        r \<leftarrow> r;
        Some (s\<lparr>nodes := h(mp := None), ports := (ports s)(mp := None), pth_msgport := r\<rparr>)
      })"

partial_function (option) msgport_find_loop :: "msg_state \<Rightarrow> string \<Rightarrow> ptr \<Rightarrow> ptr \<Rightarrow> ptr option" where
  "msgport_find_loop s name mpf mp =
     (if mp = NULL then Some NULL
      else do {
        n \<leftarrow> fld mp_name (ports s) mp;
        if n = Some name then Some mp
        else do {
          mp \<leftarrow> pth_ring_next (nodes s) (Some (pth_msgport s)) mp;
          if mp = mpf then Some NULL else msgport_find_loop s name mpf mp
        }
      })"

declare msgport_find_loop.simps [code]

definition pth_msgport_find :: "msg_state \<Rightarrow> string option \<Rightarrow> (errno + ptr) option" where
  "pth_msgport_find s name =
     (case name of None \<Rightarrow> Some (Inl EINVAL)
      | Some name \<Rightarrow>
          let mp = pth_ring_first (Some (pth_msgport s))
          in map_option Inr (msgport_find_loop s name mp mp))"

section \<open>The abstract view: ports hold lists of messages\<close>

text \<open>\<open>msg_rep s pl Q\<close>: the existing ports are \<open>pl\<close> and the messages pending on a port \<open>p\<close> are
  \<open>Q p\<close>; no message is pending on two ports, no message is a port.\<close>

definition msg_rep :: "msg_state \<Rightarrow> ptr list \<Rightarrow> (ptr \<Rightarrow> ptr list) \<Rightarrow> bool" where
  "msg_rep s pl Q \<longleftrightarrow>
     ring_rep (nodes s) (Some (pth_msgport s)) pl \<and> alloc (ports s) = set pl \<and>
     (\<forall>p \<in> set pl. \<exists>q. fld mp_queue (ports s) p = Some q \<and> ring_rep (nodes s) (Some q) (Q p) \<and>
        set (Q p) \<subseteq> alloc (msgs s) \<and> set (Q p) \<inter> set pl = {}) \<and>
     (\<forall>p \<in> set pl. \<forall>p' \<in> set pl. p \<noteq> p' \<longrightarrow> set (Q p) \<inter> set (Q p') = {}) \<and>
     alloc (msgs s) \<subseteq> alloc (nodes s) \<and> alloc (msgs s) \<inter> set pl = {}"

lemma msg_repD:
  assumes "msg_rep s pl Q" and "p \<in> set pl"
  shows "\<exists>q. fld mp_queue (ports s) p = Some q \<and> ring_rep (nodes s) (Some q) (Q p)"
    and "p \<in> alloc (ports s)" "p \<noteq> NULL"
    and "\<And>p'. p' \<in> set pl \<Longrightarrow> p \<noteq> p' \<Longrightarrow> set (Q p) \<inter> set (Q p') = {}"
    and "set (Q p) \<inter> set pl = {}" "set (Q p) \<subseteq> alloc (msgs s)"
  using assms alloc_not_NULL [of p "ports s"] unfolding msg_rep_def by blast+

lemma msg_repI:
  assumes "ring_rep (nodes s) (Some (pth_msgport s)) pl" and "alloc (ports s) = set pl"
    and "\<And>p. p \<in> set pl \<Longrightarrow> \<exists>q. fld mp_queue (ports s) p = Some q \<and> ring_rep (nodes s) (Some q) (Q p)"
    and "\<And>p. p \<in> set pl \<Longrightarrow> set (Q p) \<subseteq> alloc (msgs s)"
    and "\<And>p p'. p \<in> set pl \<Longrightarrow> p' \<in> set pl \<Longrightarrow> p \<noteq> p' \<Longrightarrow> set (Q p) \<inter> set (Q p') = {}"
    and "alloc (msgs s) \<subseteq> alloc (nodes s)" and "alloc (msgs s) \<inter> set pl = {}"
  shows "msg_rep s pl Q"
proof -
  have "\<exists>q. fld mp_queue (ports s) p = Some q \<and> ring_rep (nodes s) (Some q) (Q p) \<and>
      set (Q p) \<subseteq> alloc (msgs s) \<and> set (Q p) \<inter> set pl = {}" if "p \<in> set pl" for p
    using assms(3,4) [OF that] assms(7) by blast
  with assms(1,2,5-7) show ?thesis unfolding msg_rep_def by blast
qed

lemma ring_rep_is_Some: "ring_rep h r xs \<Longrightarrow> \<exists>q. r = Some q"
  by (auto simp: ring_rep_def)

text \<open>Replacing the queue of one port by a ring with other contents.\<close>

lemma msg_rep_update:
  assumes r: "msg_rep s pl Q" and p: "p \<in> set pl"
    and nq: "ring_rep h (Some q') ys" and al: "alloc h = alloc (nodes s)"
    and fr: "\<And>r zs. ring_rep (nodes s) r zs \<Longrightarrow> set zs \<inter> (set (Q p) \<union> set ys) = {} \<Longrightarrow> ring_rep h r zs"
    and ys: "set ys \<subseteq> alloc (msgs s)"
    and dis: "\<And>p'. p' \<in> set pl \<Longrightarrow> p' \<noteq> p \<Longrightarrow> set ys \<inter> set (Q p') = {}"
  shows "\<exists>P. setf mp_queue_update (ports s) p q' = Some P \<and>
           msg_rep (s\<lparr>nodes := h, ports := P\<rparr>) pl (Q(p := ys))"
proof -
  note d = msg_repD [OF r]
  define P where "P = hset mp_queue_update (ports s) p q'"
  have "setf mp_queue_update (ports s) p q' = Some P"
    using d(2) [OF p] by (simp add: P_def mem_simps)
  moreover have fp: "fld mp_queue P = (fld mp_queue (ports s))(p \<mapsto> q')" and ap: "alloc P = alloc (ports s)"
    using d(2) [OF p] by (simp_all add: P_def mem_simps)
  have mp: "alloc (msgs s) \<inter> set pl = {}" using r by (simp add: msg_rep_def)
  have port: "\<exists>q. fld mp_queue P p' = Some q \<and> ring_rep h (Some q) ((Q(p := ys)) p') \<and>
      set ((Q(p := ys)) p') \<subseteq> alloc (msgs s) \<and> set ((Q(p := ys)) p') \<inter> set pl = {}"
    if p': "p' \<in> set pl" for p'
  proof (cases "p' = p")
    case True
    then show ?thesis using nq ys mp fp by auto
  next
    case False
    from d(1) [OF p'] obtain q where q: "fld mp_queue (ports s) p' = Some q"
      "ring_rep (nodes s) (Some q) (Q p')" by blast
    have "set (Q p') \<inter> (set (Q p) \<union> set ys) = {}"
      using d(4) [OF p p'] dis [OF p' False] False by auto
    with fr q d(5,6) [OF p'] False fp show ?thesis by auto
  qed
  have "ring_rep h (Some (pth_msgport s)) pl"
    using r d(5) [OF p] ys mp by (intro fr) (auto simp: msg_rep_def)
  moreover have "\<forall>p1 \<in> set pl. \<forall>p2 \<in> set pl. p1 \<noteq> p2 \<longrightarrow>
      set ((Q(p := ys)) p1) \<inter> set ((Q(p := ys)) p2) = {}"
    using dis d(4) by auto
  ultimately show ?thesis
    using r port ap al unfolding msg_rep_def by simp
qed

section \<open>What the operations do to the lists\<close>

lemma msg_put:
  assumes r: "msg_rep s pl Q" and p: "p \<in> set pl" and m: "m \<in> alloc (msgs s)"
    and free: "\<And>p'. p' \<in> set pl \<Longrightarrow> m \<notin> set (Q p')"
  shows "\<exists>s'. pth_msgport_put s p m = Some (s', Inr True) \<and> msg_rep s' pl (Q(p := Q p @ [m])) \<and>
           msgs s' = msgs s"
proof -
  note d = msg_repD [OF r p]
  from d(1) obtain q where q: "fld mp_queue (ports s) p = Some q"
    "ring_rep (nodes s) (Some q) (Q p)" by blast
  have "m \<in> alloc (nodes s)" using m r by (auto simp: msg_rep_def)
  from pr.add_rep [OF q(2) this free [OF p]] obtain h r' where
    a: "pth_ring_append (nodes s) (Some q) m = Some (h, r')" "ring_rep h r' (Q p @ [m])"
    "alloc h = alloc (nodes s)"
    and fr: "\<forall>r2 ys. ring_rep (nodes s) r2 ys \<longrightarrow> set ys \<inter> insert m (set (Q p)) = {} \<longrightarrow> ring_rep h r2 ys"
    by blast
  from ring_rep_is_Some [OF a(2)] obtain q' where q': "r' = Some q'" by blast
  have "\<exists>P. setf mp_queue_update (ports s) p q' = Some P \<and>
      msg_rep (s\<lparr>nodes := h, ports := P\<rparr>) pl (Q(p := Q p @ [m]))"
  proof (rule msg_rep_update [OF r p])
    show "ring_rep h (Some q') (Q p @ [m])" using a(2) q' by simp
    show "ring_rep h r2 zs"
      if "ring_rep (nodes s) r2 zs" "set zs \<inter> (set (Q p) \<union> set (Q p @ [m])) = {}" for r2 zs
      using fr that by auto
    show "set (Q p @ [m]) \<inter> set (Q p') = {}" if "p' \<in> set pl" "p' \<noteq> p" for p'
      using that free d(4) [of p'] by auto
  qed (use a(3) m d(6) in auto)
  with a q q' d(3) show ?thesis by (auto simp: pth_msgport_put_def)
qed

lemma msg_get:
  assumes r: "msg_rep s pl Q" and p: "p \<in> set pl" and Q: "Q p = m # ms"
  shows "\<exists>s'. pth_msgport_get s p = Some (s', Inr m) \<and> msg_rep s' pl (Q(p := ms)) \<and> msgs s' = msgs s"
proof -
  note d = msg_repD [OF r p]
  from d(1) Q obtain q where q: "fld mp_queue (ports s) p = Some q"
    "ring_rep (nodes s) (Some q) (m # ms)" by auto
  from pr.first_rep [OF q(2)] obtain h r' where
    a: "pth_ring_pop (nodes s) (Some q) = Some (h, r', m)" "ring_rep h r' ms" "alloc h = alloc (nodes s)"
    and fr: "\<forall>r2 ys. ring_rep (nodes s) r2 ys \<longrightarrow> set ys \<inter> set (m # ms) = {} \<longrightarrow> ring_rep h r2 ys"
    by blast
  from ring_rep_is_Some [OF a(2)] obtain q' where q': "r' = Some q'" by blast
  have "\<exists>P. setf mp_queue_update (ports s) p q' = Some P \<and>
      msg_rep (s\<lparr>nodes := h, ports := P\<rparr>) pl (Q(p := ms))"
  proof (rule msg_rep_update [OF r p])
    show "ring_rep h (Some q') ms" using a(2) q' by simp
    show "ring_rep h r2 zs"
      if "ring_rep (nodes s) r2 zs" "set zs \<inter> (set (Q p) \<union> set ms) = {}" for r2 zs
      using fr that Q by auto
    show "set ms \<inter> set (Q p') = {}" if "p' \<in> set pl" "p' \<noteq> p" for p'
      using that d(4) [of p'] Q by auto
  qed (use a(3) d(6) Q in auto)
  with a q q' d(3) show ?thesis by (auto simp: pth_msgport_get_def)
qed

lemma msg_get_empty:
  assumes r: "msg_rep s pl Q" and p: "p \<in> set pl" and Q: "Q p = []"
  shows "\<exists>s'. pth_msgport_get s p = Some (s', Inr NULL) \<and> msg_rep s' pl Q \<and> msgs s' = msgs s \<and>
           pth_msgport s' = pth_msgport s"
proof -
  note d = msg_repD [OF r p]
  from d(1) Q obtain q where q: "fld mp_queue (ports s) p = Some q"
    "ring_rep (nodes s) (Some q) []" by auto
  have "\<exists>P. setf mp_queue_update (ports s) p q = Some P \<and>
      msg_rep (s\<lparr>nodes := nodes s, ports := P\<rparr>) pl (Q(p := []))"
    by (rule msg_rep_update [OF r p q(2)]) simp_all
  with ring_pop_empty [OF q(2)] q d(3) Q show ?thesis
    by (auto simp: pth_msgport_get_def fun_upd_idem)
qed

lemma msg_distinct:
  assumes "msg_rep s pl Q" and "p \<in> set pl"
  shows "distinct (Q p)"
  using msg_repD(1) [OF assms] pr.rep_distinct by blast

text \<open>Replying takes a message off the port and queues it at its reply port.\<close>

lemma reply_pending_rep:
  assumes "msg_rep s pl Q" and "p \<in> set pl" and "Q p = ms"
    and "\<And>m. m \<in> set ms \<Longrightarrow> fld m_replyport (msgs s) m = Some (rp m) \<and> rp m \<in> set pl \<and> rp m \<noteq> p"
  shows "\<exists>s'. reply_pending s p = Some s' \<and> msgs s' = msgs s \<and>
           msg_rep s' pl (\<lambda>p'. if p' = p then [] else Q p' @ filter (\<lambda>m. rp m = p') ms)"
  using assms
proof (induction ms arbitrary: s Q)
  case Nil
  from msg_get_empty [OF Nil.prems(1-3)] obtain s' where
    "pth_msgport_get s p = Some (s', Inr NULL)" "msg_rep s' pl Q" "msgs s' = msgs s" by blast
  moreover have "(\<lambda>p'. if p' = p then [] else Q p' @ filter (\<lambda>m. rp m = p') []) = Q"
    using Nil.prems(3) by auto
  ultimately show ?case by (subst reply_pending.simps) (simp add: reply_round_def)
next
  case (Cons m ms)
  note d = msg_repD [OF Cons.prems(1)]
  have di: "m \<notin> set ms" using msg_distinct [OF Cons.prems(1,2)] Cons.prems(3) by simp
  have rp: "fld m_replyport (msgs s) m = Some (rp m)" "rp m \<in> set pl" "rp m \<noteq> p"
    using Cons.prems(4) by auto
  from msg_get [OF Cons.prems(1-3)] obtain s1 where
    1: "pth_msgport_get s p = Some (s1, Inr m)" "msg_rep s1 pl (Q(p := ms))" "msgs s1 = msgs s" by blast
  have m: "m \<in> alloc (msgs s1)" using d(6) [OF Cons.prems(2)] Cons.prems(3) 1(3) by auto
  have free: "m \<notin> set ((Q(p := ms)) p')" if "p' \<in> set pl" for p'
    using di d(4) [OF Cons.prems(2) that] Cons.prems(3) by auto
  from msg_put [OF 1(2) rp(2) m free] obtain s2 where
    2: "pth_msgport_put s1 (rp m) m = Some (s2, Inr True)" "msgs s2 = msgs s1"
    "msg_rep s2 pl ((Q(p := ms))(rp m := (Q(p := ms)) (rp m) @ [m]))" by blast
  let ?Q = "(Q(p := ms))(rp m := (Q(p := ms)) (rp m) @ [m])"
  have "?Q p = ms" using rp(3) by auto
  from Cons.IH [OF 2(3) Cons.prems(2) this] Cons.prems(4) 2(2) 1(3) obtain s' where
    3: "reply_pending s2 p = Some s'" "msgs s' = msgs s2"
    "msg_rep s' pl (\<lambda>p'. if p' = p then [] else ?Q p' @ filter (\<lambda>m. rp m = p') ms)" by auto
  have "(\<lambda>p'. if p' = p then [] else ?Q p' @ filter (\<lambda>m. rp m = p') ms) =
      (\<lambda>p'. if p' = p then [] else Q p' @ filter (\<lambda>m. rp m = p') (m # ms))"
    by (rule ext) auto
  with 3 have 4: "msg_rep s' pl (\<lambda>p'. if p' = p then [] else Q p' @ filter (\<lambda>m. rp m = p') (m # ms))"
    by simp
  have "m \<noteq> NULL" using m by (rule alloc_not_NULL)
  then have "reply_pending s p = Some s'"
    using 1 2(1) 3(1) rp(1) by (subst reply_pending.simps) (simp add: reply_round_def pth_msgport_reply_def)
  with 4 3(2) 2(2) 1(3) show ?case by auto
qed

lemma msg_destroy:
  assumes r: "msg_rep s (as @ p # bs) Q"
    and rp: "\<And>m. m \<in> set (Q p) \<Longrightarrow>
      fld m_replyport (msgs s) m = Some (rp m) \<and> rp m \<in> set (as @ bs)"
  shows "\<exists>s'. pth_msgport_destroy s p = Some s' \<and>
           msg_rep s' (as @ bs) (\<lambda>p'. Q p' @ filter (\<lambda>m. rp m = p') (Q p))"
proof -
  let ?pl = "as @ p # bs" and ?Q = "\<lambda>p'. if p' = p then [] else Q p' @ filter (\<lambda>m. rp m = p') (Q p)"
  have p: "p \<in> set ?pl" by simp
  have "ring_rep (nodes s) (Some (pth_msgport s)) ?pl" using r by (simp add: msg_rep_def)
  then have di: "p \<notin> set (as @ bs)" using pr.rep_distinct by fastforce
  then have "\<exists>s'. reply_pending s p = Some s' \<and> msgs s' = msgs s \<and> msg_rep s' ?pl ?Q"
    using rp by (intro reply_pending_rep [OF r p refl]) auto
  then obtain s1 where 1: "reply_pending s p = Some s1" "msg_rep s1 ?pl ?Q" by blast
  then have rr: "ring_rep (nodes s1) (Some (pth_msgport s1)) ?pl" by (simp add: msg_rep_def)
  from pr.remove_rep [OF rr] obtain h r' where
    2: "pth_ring_delete (nodes s1) (Some (pth_msgport s1)) p = Some (h, r')" "ring_rep h r' (as @ bs)"
    "alloc h = alloc (nodes s1)"
    and fr: "\<forall>r2 zs. ring_rep (nodes s1) r2 zs \<longrightarrow> set zs \<inter> set ?pl = {} \<longrightarrow> ring_rep h r2 zs" by blast
  from ring_rep_is_Some [OF 2(2)] obtain q' where q': "r' = Some q'" by blast
  let ?h = "h(p := None)" and ?P = "(ports s1)(p := None)"
  have keep: "ring_rep ?h r2 zs" if "ring_rep h r2 zs" "p \<notin> set zs" for r2 zs
  proof -
    have "cdll (nxt ?h) (prv ?h) zs \<longleftrightarrow> cdll (nxt h) (prv h) zs"
      using that(2) by (intro cdll_cong) (auto simp: fld_def)
    with that(1) show ?thesis by (simp add: ring_rep_def)
  qed
  note d = msg_repD [OF 1(2)]
  have port: "\<exists>q. fld mp_queue ?P p' = Some q \<and> ring_rep ?h (Some q) (?Q p')"
    if p': "p' \<in> set (as @ bs)" for p'
  proof -
    have neq: "p' \<noteq> p" using p' di by auto
    from d(1) [of p'] p' obtain q where q: "fld mp_queue (ports s1) p' = Some q"
      "ring_rep (nodes s1) (Some q) (?Q p')" by auto
    have "set (?Q p') \<inter> set ?pl = {}" using d(5) [of p'] p' by auto
    with fr q(2) have "ring_rep h (Some q) (?Q p')" by blast
    moreover have "p \<notin> set (?Q p')" using d(5) [of p'] p' by auto
    ultimately have "ring_rep ?h (Some q) (?Q p')" by (rule keep)
    with q(1) neq show ?thesis by (auto simp: fld_def split: if_splits)
  qed
  have nm: "alloc (msgs s1) \<subseteq> alloc (nodes s1)" "alloc (msgs s1) \<inter> set ?pl = {}"
    and ap: "alloc (ports s1) = set ?pl" using 1(2) by (simp_all add: msg_rep_def)
  have "msg_rep (s1\<lparr>nodes := ?h, ports := ?P, pth_msgport := q'\<rparr>) (as @ bs) ?Q"
  proof (rule msg_repI, goal_cases)
    case 1 then show ?case using keep 2(2) q' di by auto
  next
    case 2 then show ?case using ap di by (auto simp: alloc_def)
  next
    case (3 p') then show ?case using port by simp
  next
    case (4 p') then show ?case using d(6) [of p'] by simp
  next
    case (5 p1 p2)
    then show ?case using d(4) [of p1 p2] by simp
  next
    case 6
    have "alloc ?h = alloc h - {p}" by (auto simp: alloc_def)
    then show ?case using nm 2(3) by auto
  next
    case 7 then show ?case using nm(2) by auto
  qed
  moreover have "?Q p' = Q p' @ filter (\<lambda>m. rp m = p') (Q p)" if "p' \<in> set (as @ bs)" for p'
    using that di by auto
  ultimately have "msg_rep (s1\<lparr>nodes := ?h, ports := ?P, pth_msgport := q'\<rparr>) (as @ bs)
      (\<lambda>p'. Q p' @ filter (\<lambda>m. rp m = p') (Q p))"
    unfolding msg_rep_def by simp
  moreover have "p \<noteq> 0" using d(3) [OF p] .
  ultimately show ?thesis using 1(1) 2(1) q' by (auto simp: pth_msgport_destroy_def)
qed

lemma msg_create:
  assumes r: "msg_rep s pl Q" and new: "mp \<noteq> NULL" "nodes s mp = None" "ports s mp = None" "msgs s mp = None"
    and Q: "Q mp = []"
  shows "\<exists>s'. pth_msgport_create s cur name mp = Some (s', Inr mp) \<and> msg_rep s' (pl @ [mp]) Q \<and>
           fld mp_name (ports s') mp = Some name"
proof -
  let ?h = "(nodes s)(mp \<mapsto> \<lparr>rn_next = NULL, rn_prev = NULL\<rparr>)"
  let ?port = "\<lparr>mp_name = name, mp_tid = cur, mp_queue = \<lparr>r_hook = NULL, r_nodes = 0\<rparr>\<rparr>"
  have ext: "ring_rep ?h r2 zs" if "ring_rep (nodes s) r2 zs" for r2 zs
  proof -
    have "mp \<notin> set zs" using ring_rep_alloc [OF that, of mp] new(2) by (auto simp: alloc_def)
    then have "cdll (nxt ?h) (prv ?h) zs \<longleftrightarrow> cdll (nxt (nodes s)) (prv (nodes s)) zs"
      by (intro cdll_cong) (auto simp: fld_def)
    with that show ?thesis by (simp add: ring_rep_def)
  qed
  have rr: "ring_rep (nodes s) (Some (pth_msgport s)) pl" using r by (simp add: msg_rep_def)
  have fresh: "mp \<notin> set pl" using ring_rep_alloc [OF rr, of mp] new(2) by (auto simp: alloc_def)
  have "mp \<in> alloc ?h" using new(1) by (simp add: alloc_def)
  from pr.add_rep [OF ext [OF rr] this fresh] obtain h r' where
    2: "pth_ring_append ?h (Some (pth_msgport s)) mp = Some (h, r')" "ring_rep h r' (pl @ [mp])"
    "alloc h = alloc ?h"
    and fr: "\<forall>r2 zs. ring_rep ?h r2 zs \<longrightarrow> set zs \<inter> insert mp (set pl) = {} \<longrightarrow> ring_rep h r2 zs" by blast
  from ring_rep_is_Some [OF 2(2)] obtain q' where q': "r' = Some q'" by blast
  let ?P = "(ports s)(mp \<mapsto> ?port)"
  note d = msg_repD [OF r]
  have nm: "mp \<notin> alloc (msgs s)" using new(4) by (simp add: alloc_def)
  have port: "\<exists>q. fld mp_queue ?P p' = Some q \<and> ring_rep h (Some q) (Q p')" if p': "p' \<in> set (pl @ [mp])" for p'
  proof (cases "p' = mp")
    case True
    then show ?thesis using Q new(1) by (simp add: fld_def ring_rep_def)
  next
    case False
    with p' have p: "p' \<in> set pl" by simp
    from d(1) [OF p] obtain q where q: "fld mp_queue (ports s) p' = Some q"
      "ring_rep (nodes s) (Some q) (Q p')" by blast
    have "set (Q p') \<inter> insert mp (set pl) = {}" using d(5,6) [OF p] nm by auto
    with fr ext [OF q(2)] have "ring_rep h (Some q) (Q p')" by blast
    with q(1) False show ?thesis by (auto simp: fld_def split: if_splits)
  qed
  have "msg_rep (s\<lparr>nodes := h, ports := ?P, pth_msgport := q'\<rparr>) (pl @ [mp]) Q"
  proof (rule msg_repI, goal_cases)
    case 1 then show ?case using 2(2) q' by simp
  next
    case 2 then show ?case using r new(1) by (auto simp: msg_rep_def alloc_def)
  next
    case (3 p') then show ?case using port by simp
  next
    case (4 p') then show ?case using d(6) [of p'] Q by auto
  next
    case (5 p1 p2) then show ?case using d(4) [of p1 p2] Q by auto
  next
    case 6
    have "alloc (msgs s) \<subseteq> alloc (nodes s)" using r by (simp add: msg_rep_def)
    moreover have "alloc (nodes s) \<subseteq> alloc ?h" by (auto simp: alloc_def)
    ultimately show ?case using 2(3) by simp
  next
    case 7 then show ?case using r nm by (auto simp: msg_rep_def)
  qed
  with 2(1) q' new(1) show ?thesis by (auto simp: pth_msgport_create_def fld_def Let_def)
qed

lemma msg_find_from:
  assumes "ring_rep (nodes s) (Some (pth_msgport s)) (as @ p # bs)" and "mpf = hd (as @ [p])"
    and "\<And>x. x \<in> set (p # bs) \<Longrightarrow> fld mp_name (ports s) x = Some (nm x)"
  shows "msgport_find_loop s name mpf p =
           Some (case find (\<lambda>x. nm x = Some name) (p # bs) of None \<Rightarrow> NULL | Some x \<Rightarrow> x)"
  using assms
proof (induction bs arbitrary: as p)
  case Nil
  have "p \<noteq> 0" using ring_rep_alloc [OF Nil.prems(1)] by (auto dest: alloc_not_NULL)
  with ring_next [OF Nil.prems(1)] Nil.prems(3) show ?case
    by (subst msgport_find_loop.simps) (simp add: msgport_find_loop.simps [of s name mpf 0])
next
  case (Cons b bs)
  have "p \<noteq> 0" using ring_rep_alloc [OF Cons.prems(1)] by (auto dest: alloc_not_NULL)
  moreover have "b \<noteq> mpf"
    using pr.rep_distinct [OF Cons.prems(1)] Cons.prems(2) by (cases as) auto
  moreover have "msgport_find_loop s name mpf b =
      Some (case find (\<lambda>x. nm x = Some name) (b # bs) of None \<Rightarrow> NULL | Some x \<Rightarrow> x)"
    using Cons.IH [of "as @ [p]" b] Cons.prems by (cases as) auto
  ultimately show ?case
    using ring_next [OF Cons.prems(1)] Cons.prems(3) [of p]
    by (simp add: msgport_find_loop.simps [of s name mpf p])
qed

lemma msg_find:
  assumes r: "msg_rep s pl Q" and nm: "\<And>p. p \<in> set pl \<Longrightarrow> fld mp_name (ports s) p = Some (nm p)"
  shows "pth_msgport_find s (Some name) =
           Some (Inr (case find (\<lambda>p. nm p = Some name) pl of None \<Rightarrow> NULL | Some p \<Rightarrow> p))"
proof -
  have rr: "ring_rep (nodes s) (Some (pth_msgport s)) pl" using r by (simp add: msg_rep_def)
  show ?thesis
  proof (cases pl)
    case Nil
    with ring_first [OF rr] show ?thesis
      by (simp add: pth_msgport_find_def msgport_find_loop.simps)
  next
    case (Cons p ps)
    with msg_find_from [of s "[]" p ps p nm name] rr nm ring_first [OF rr] show ?thesis
      by (simp add: pth_msgport_find_def)
  qed
qed

section \<open>A port that replies to itself\<close>

lemma reply_round_self:
  assumes r: "msg_rep s pl Q" and p: "p \<in> set pl" and Q: "Q p = m # ms"
    and rp: "fld m_replyport (msgs s) m = Some p"
  shows "\<exists>s'. reply_round s p = Some (Inr s') \<and> msg_rep s' pl (Q(p := ms @ [m])) \<and> msgs s' = msgs s"
proof -
  from msg_get [OF r p Q] obtain s1 where
    1: "pth_msgport_get s p = Some (s1, Inr m)" "msg_rep s1 pl (Q(p := ms))" "msgs s1 = msgs s" by blast
  have m: "m \<in> alloc (msgs s1)" using msg_repD(6) [OF r p] Q 1(3) by auto
  have "m \<notin> set ((Q(p := ms)) p')" if "p' \<in> set pl" for p'
    using msg_distinct [OF r p] Q msg_repD(4) [OF r p that] by (cases "p' = p") auto
  from msg_put [OF 1(2) p m this, unfolded fun_upd_upd fun_upd_same] obtain s2 where
    2: "pth_msgport_put s1 p m = Some (s2, Inr True)" "msg_rep s2 pl (Q(p := ms @ [m]))" "msgs s2 = msgs s1"
    by blast
  with 1 rp alloc_not_NULL [OF m] show ?thesis by (auto simp: reply_round_def pth_msgport_reply_def)
qed

text \<open>The state after a number of rounds of the loop; \<open>None\<close> when the loop ends or goes wrong before.\<close>

primrec reply_rounds :: "nat \<Rightarrow> msg_state \<Rightarrow> ptr \<Rightarrow> msg_state option" where
  "reply_rounds 0 s mp = Some s"
| "reply_rounds (Suc n) s mp =
     do {
       r \<leftarrow> reply_round s mp;
       (case r of Inl _ \<Rightarrow> None | Inr s \<Rightarrow> reply_rounds n s mp)
     }"

lemma reply_rounds_self:
  assumes "msg_rep s pl Q" and "p \<in> set pl" and "Q p \<noteq> []"
    and "\<And>m. m \<in> set (Q p) \<Longrightarrow> fld m_replyport (msgs s) m = Some p"
  shows "\<exists>s'. reply_rounds n s p = Some s' \<and> msg_rep s' pl (Q(p := rotate n (Q p))) \<and> msgs s' = msgs s"
  using assms
proof (induction n arbitrary: s Q)
  case 0
  then show ?case by simp
next
  case (Suc n)
  obtain m ms where Q: "Q p = m # ms" using Suc.prems(3) by (cases "Q p") auto
  from reply_round_self [OF Suc.prems(1,2) Q] Suc.prems(4) Q obtain s1 where
    1: "reply_round s p = Some (Inr s1)" "msg_rep s1 pl (Q(p := ms @ [m]))" "msgs s1 = msgs s" by auto
  have "rotate n (ms @ [m]) = rotate (Suc n) (Q p)" by (simp add: Q rotate1_rotate_swap)
  with Suc.IH [OF 1(2) Suc.prems(2), unfolded fun_upd_upd fun_upd_same] Suc.prems(4) Q 1 show ?case by auto
qed

text \<open>A loop that returns has no infinite sequence of rounds.\<close>

lemma reply_pending_rounds:
  assumes "reply_pending s p = Some s'"
  shows "\<exists>n. reply_rounds n s p = None"
proof (rule reply_pending.raw_induct [where P = "\<lambda>s p s'. \<exists>n. reply_rounds n s p = None", OF _ assms])
  fix rec :: "msg_state \<Rightarrow> ptr \<Rightarrow> msg_state option" and s p s'
  assume IH: "\<And>s p s'. rec s p = Some s' \<Longrightarrow> \<exists>n. reply_rounds n s p = None"
    and body: "(do { r \<leftarrow> reply_round s p; (case r of Inl s \<Rightarrow> Some s | Inr s \<Rightarrow> rec s p) }) = Some s'"
  show "\<exists>n. reply_rounds n s p = None"
  proof (cases "reply_round s p")
    case None
    then show ?thesis by (intro exI [of _ "Suc 0"]) simp
  next
    case (Some r)
    show ?thesis
    proof (cases r)
      case (Inl s1)
      with Some show ?thesis by (intro exI [of _ "Suc 0"]) simp
    next
      case (Inr s1)
      with Some body have "rec s1 p = Some s'" by simp
      from IH [OF this] obtain n where "reply_rounds n s1 p = None" ..
      with Some Inr show ?thesis by (intro exI [of _ "Suc n"]) simp
    qed
  qed
qed

section \<open>Properties\<close>

text \<open>A state with the ports 2 and 3 and the message 5, whose reply port is given.\<close>

definition msg_example :: "ptr \<Rightarrow> msg_state" where
  "msg_example rp =
    \<lparr>nodes = [2 \<mapsto> \<lparr>rn_next = 3, rn_prev = 3\<rparr>, 3 \<mapsto> \<lparr>rn_next = 2, rn_prev = 2\<rparr>, 5 \<mapsto> \<lparr>rn_next = 5, rn_prev = 5\<rparr>],
     ports = [2 \<mapsto> \<lparr>mp_name = None, mp_tid = 0, mp_queue = \<lparr>r_hook = 5, r_nodes = 1\<rparr>\<rparr>,
              3 \<mapsto> \<lparr>mp_name = None, mp_tid = 0, mp_queue = \<lparr>r_hook = 0, r_nodes = 0\<rparr>\<rparr>],
     msgs = [5 \<mapsto> \<lparr>m_replyport = rp, m_size = 0, m_data = 0\<rparr>],
     pth_msgport = \<lparr>r_hook = 2, r_nodes = 2\<rparr>\<rparr>"

lemma msg_example_rep: "msg_rep (msg_example rp) [2, 3] ((\<lambda>_. [])(2 := [5]))"
  by (auto simp: msg_rep_def msg_example_def ring_rep_def cdll_def fld_def alloc_def split: if_splits)

text \<open>A message port is a first-in first-out queue: after a message has been put on a port, the
  next get returns the message that has been pending longest, and all other ports keep their
  messages.\<close>

theorem port_is_fifo:
  assumes "msg_rep s pl Q" and "p \<in> set pl" and "m \<in> alloc (msgs s)"
    and "\<And>p'. p' \<in> set pl \<Longrightarrow> m \<notin> set (Q p')"
  shows "\<exists>s1 s2. pth_msgport_put s p m = Some (s1, Inr True) \<and>
           pth_msgport_get s1 p = Some (s2, Inr (hd (Q p @ [m]))) \<and>
           msg_rep s2 pl (Q(p := tl (Q p @ [m])))"
proof -
  from msg_put [OF assms] obtain s1 where
    1: "pth_msgport_put s p m = Some (s1, Inr True)" "msg_rep s1 pl (Q(p := Q p @ [m]))" by blast
  have "(Q(p := Q p @ [m])) p = hd (Q p @ [m]) # tl (Q p @ [m])" by simp
  from msg_get [OF 1(2) assms(2) this, unfolded fun_upd_upd] 1(1) show ?thesis by blast
qed

theorem port_is_fifo_witness:
  "\<exists>s1 s2. pth_msgport_put ((msg_example 3)\<lparr>msgs := (msgs (msg_example 3))(6 \<mapsto> \<lparr>m_replyport = 3, m_size = 0, m_data = 0\<rparr>),
       nodes := (nodes (msg_example 3))(6 \<mapsto> \<lparr>rn_next = 0, rn_prev = 0\<rparr>)\<rparr>) 2 6 = Some (s1, Inr True) \<and>
     pth_msgport_get s1 2 = Some (s2, Inr 5)"
proof -
  let ?s = "(msg_example 3)\<lparr>msgs := (msgs (msg_example 3))(6 \<mapsto> \<lparr>m_replyport = 3, m_size = 0, m_data = 0\<rparr>),
       nodes := (nodes (msg_example 3))(6 \<mapsto> \<lparr>rn_next = 0, rn_prev = 0\<rparr>)\<rparr>"
  have r: "msg_rep ?s [2, 3] ((\<lambda>_. [])(2 := [5]))"
    by (auto simp: msg_rep_def msg_example_def ring_rep_def cdll_def fld_def alloc_def split: if_splits)
  from port_is_fifo [OF r, of 2 6] show ?thesis by (auto simp: alloc_def)
qed

text \<open>Destroying a port sends every pending message back to its reply port, behind the messages
  that are pending there, in order; the port is then gone from the list of ports. This needs that
  the reply ports exist and differ from the port that is destroyed.\<close>

theorem destroy_replies_all:
  assumes "msg_rep s (as @ p # bs) Q"
    and "\<And>m. m \<in> set (Q p) \<Longrightarrow> fld m_replyport (msgs s) m = Some (rp m) \<and> rp m \<in> set (as @ bs)"
  shows "\<exists>s'. pth_msgport_destroy s p = Some s' \<and>
           msg_rep s' (as @ bs) (\<lambda>p'. Q p' @ filter (\<lambda>m. rp m = p') (Q p))"
  using assms by (rule msg_destroy)

theorem destroy_replies_all_witness:
  "\<exists>s'. pth_msgport_destroy (msg_example 3) 2 = Some s' \<and> msg_rep s' [3] (\<lambda>p'. if p' = 3 \<or> p' = 2 then [5] else [])"
proof -
  let ?Q = "(\<lambda>_ :: ptr. [])(2 := [5 :: ptr])"
  have 1: "fld m_replyport (msgs (msg_example 3)) m = Some 3 \<and> 3 \<in> set ([] @ [3])" if "m \<in> set (?Q 2)" for m
    using that by (simp add: msg_example_def fld_def)
  have 2: "msg_rep (msg_example 3) ([] @ 2 # [3]) ?Q" using msg_example_rep by simp
  have "\<exists>s'. pth_msgport_destroy (msg_example 3) 2 = Some s' \<and>
      msg_rep s' ([] @ [3]) (\<lambda>p'. ?Q p' @ filter (\<lambda>m. 3 = p') (?Q 2))"
    by (rule destroy_replies_all [OF 2 1])
  then show ?thesis by (auto simp: msg_rep_def)
qed

text \<open>C40: Destroying a port never returns when the messages that are pending on it name that port as
  their reply port. However many rounds its loop has made, every one of them has succeeded, without an
  invalid memory access, and has moved the first message behind the others, so that the same messages
  are pending on the port, the other ports have theirs, and the loop goes on; so there is no result.\<close>

theorem destroy_self_reply_diverges:
  assumes "msg_rep s pl Q" and "p \<in> set pl" and "Q p \<noteq> []"
    and "\<And>m. m \<in> set (Q p) \<Longrightarrow> fld m_replyport (msgs s) m = Some p"
  shows "(\<forall>n. \<exists>s'. reply_rounds n s p = Some s' \<and> msg_rep s' pl (Q(p := rotate n (Q p))) \<and>
            pth_msgport_pending s' p = pth_msgport_pending s p) \<and> pth_msgport_destroy s p = None"
proof -
  have p0: "p \<noteq> NULL" using msg_repD(3) [OF assms(1,2)] .
  have pend: "pth_msgport_pending s1 p = Some (Inr (word_of_nat (length (Q1 p))))"
    if "msg_rep s1 pl Q1" for s1 Q1
    using msg_repD(1) [OF that assms(2)] p0 by (auto simp: pth_msgport_pending_def ring_rep_def pth_ring_elements_def)
  have rounds: "\<exists>s'. reply_rounds n s p = Some s' \<and> msg_rep s' pl (Q(p := rotate n (Q p))) \<and>
      pth_msgport_pending s' p = pth_msgport_pending s p" for n
  proof -
    from reply_rounds_self [OF assms, where n = n] obtain s' where
      1: "reply_rounds n s p = Some s'" "msg_rep s' pl (Q(p := rotate n (Q p)))" by auto
    then show ?thesis using pend [OF 1(2)] pend [OF assms(1)] by auto
  qed
  have "reply_pending s p = None"
  proof (cases "reply_pending s p")
    case (Some s')
    from reply_pending_rounds [OF this] obtain n where "reply_rounds n s p = None" ..
    with rounds [of n] show ?thesis by simp
  qed
  with p0 rounds show ?thesis by (simp add: pth_msgport_destroy_def)
qed

theorem destroy_self_reply_diverges_witness:
  "(\<exists>s'. reply_rounds 7 (msg_example 2) 2 = Some s' \<and> pth_msgport_pending s' 2 = Some (Inr 1)) \<and>
   pth_msgport_destroy (msg_example 2) 2 = None"
proof -
  have self: "fld m_replyport (msgs (msg_example 2)) m = Some 2" if "m \<in> set (((\<lambda>_. [])(2 := [5 :: ptr])) 2)" for m
    using that by (simp add: msg_example_def fld_def)
  have "pth_msgport_pending (msg_example 2) 2 = Some (Inr 1)"
    by (simp add: pth_msgport_pending_def msg_example_def fld_def pth_ring_elements_def)
  with destroy_self_reply_diverges [OF msg_example_rep, of 2, OF _ _ self] show ?thesis by auto
qed

end
