(* ===== verification/Sync.thy ===== *)
theory Sync
  imports Tcb
begin

text \<open>
  Mutexes, read-write locks, condition variables and barriers of a1/pth-2.0.7/pth_sync.c. A
  mutex embeds a ring node as its first member, so a mutex and its node have the same address;
  the mutexes a thread owns are linked in the ring \<open>mutexring\<close> of its control block. A
  read-write lock and a barrier embed mutexes (and a condition variable): the model keeps
  their addresses in the record.

  The operations run in the thread \<open>me\<close> (\<open>pth_current\<close>). Where the source calls \<open>pth_wait\<close> or
  \<open>pth_yield\<close>, other threads run. The argument \<open>ws\<close> says what they do: its first element
  maps the state at the call to the state at the return, and tells whether the awaited event
  occurred (if not, the extra event ended the wait). When \<open>ws\<close> runs out, the operation is still
  waiting, outcome \<open>Blocked\<close>; the rest of \<open>ws\<close> is a result. So a theorem about all \<open>ws\<close> is about
  all behaviours of the other threads, and a finite \<open>ws\<close> bounds the number of wakeups, not
  their effects. A result \<open>None\<close> means an invalid memory access or, for the loop of the barrier,
  that it does not end.
\<close>

section \<open>State\<close>

record pth_mutex =
  mx_state :: "32 word"
  mx_owner :: ptr
  mx_count :: "64 word"

datatype rwlock_op = PTH_RWLOCK_RD | PTH_RWLOCK_RW

record pth_rwlock =
  rw_state :: "32 word"
  rw_mode :: rwlock_op
  rw_readers :: "64 word"
  rw_mutex_rd :: ptr
  rw_mutex_rw :: ptr

record pth_cond =
  cn_state :: "64 word"
  cn_waiters :: "32 word"

record pth_barrier =
  br_state :: "64 word"
  br_threshold :: int
  br_count :: int
  br_cycle :: bool
  br_cond :: ptr
  br_mutex :: ptr

record sync =
  threads :: tcb_heap
  nodes :: ring_heap
  mutexes :: "pth_mutex heap"
  rwlocks :: "pth_rwlock heap"
  conds :: "pth_cond heap"
  barriers :: "pth_barrier heap"
  me :: ptr

abbreviation PTH_MUTEX_INITIALIZED :: "32 word" where "PTH_MUTEX_INITIALIZED \<equiv> BIT 0"
abbreviation PTH_MUTEX_LOCKED :: "32 word" where "PTH_MUTEX_LOCKED \<equiv> BIT 1"
abbreviation PTH_RWLOCK_INITIALIZED :: "32 word" where "PTH_RWLOCK_INITIALIZED \<equiv> BIT 0"
abbreviation PTH_COND_INITIALIZED :: "64 word" where "PTH_COND_INITIALIZED \<equiv> BIT 0"
abbreviation PTH_COND_SIGNALED :: "64 word" where "PTH_COND_SIGNALED \<equiv> BIT 1"
abbreviation PTH_COND_BROADCAST :: "64 word" where "PTH_COND_BROADCAST \<equiv> BIT 2"
abbreviation PTH_COND_HANDLED :: "64 word" where "PTH_COND_HANDLED \<equiv> BIT 3"
abbreviation PTH_BARRIER_INITIALIZED :: "64 word" where "PTH_BARRIER_INITIALIZED \<equiv> BIT 0"

definition PTH_BARRIER_HEADLIGHT :: int where "PTH_BARRIER_HEADLIGHT = -1"
definition PTH_BARRIER_TAILLIGHT :: int where "PTH_BARRIER_TAILLIGHT = -2"

text \<open>An operation still waits, fails with an error number (the C function returns \<open>FALSE\<close>), or
  returns a value other than \<open>FALSE\<close>, where \<open>TRUE\<close> is \<open>1\<close>.\<close>

datatype outcome = Blocked | Fail errno | Return int

type_synonym waits = "(sync \<Rightarrow> sync \<times> bool) list"

definition resume :: "sync \<Rightarrow> (sync \<Rightarrow> sync \<times> bool) \<Rightarrow> sync \<times> bool" where
  "resume s w = (case w s of (s', occurred) \<Rightarrow> (s'\<lparr>me := me s\<rparr>, occurred))"

section \<open>Mutual exclusion locks\<close>

definition pth_mutex_init :: "sync \<Rightarrow> ptr \<Rightarrow> (sync \<times> outcome) option" where
  "pth_mutex_init s m =
     (if m = NULL then Some (s, Fail EINVAL)
      else do {
        M \<leftarrow> setf mx_state_update (mutexes s) m PTH_MUTEX_INITIALIZED;
        M \<leftarrow> setf mx_owner_update M m NULL;
        M \<leftarrow> setf mx_count_update M m 0;
        Some (s\<lparr>mutexes := M\<rparr>, Return 1)
      })"

text \<open>The four assignments with which an unlocked mutex is taken.\<close>

definition mutex_lock :: "sync \<Rightarrow> ptr \<Rightarrow> sync option" where
  "mutex_lock s m =
     do {
       st \<leftarrow> fld mx_state (mutexes s) m;
       M \<leftarrow> setf mx_state_update (mutexes s) m (or st PTH_MUTEX_LOCKED);
       M \<leftarrow> setf mx_owner_update M m (me s);
       M \<leftarrow> setf mx_count_update M m 1;
       r \<leftarrow> fld mutexring (threads s) (me s);
       (h, r) \<leftarrow> pth_ring_append (nodes s) (Some r) m;
       T \<leftarrow> setf mutexring_update (threads s) (me s) (the r);
       Some (s\<lparr>mutexes := M, nodes := h, threads := T\<rparr>)
     }"

text \<open>The waiting loop; \<open>extra\<close> tells whether there is an extra event.\<close>

fun mutex_wait :: "sync \<Rightarrow> ptr \<Rightarrow> bool \<Rightarrow> waits \<Rightarrow> (sync \<times> waits \<times> outcome) option" where
  "mutex_wait s m extra [] = Some (s, [], Blocked)"
| "mutex_wait s m extra (w # ws) =
     (case resume s w of (s, occurred) \<Rightarrow>
        if extra \<and> \<not> occurred then Some (s, ws, Fail EINTR)
        else do {
          st \<leftarrow> fld mx_state (mutexes s) m;
          if \<not> has st PTH_MUTEX_LOCKED then Some (s, ws, Return 1)
          else mutex_wait s m extra ws
        })"

definition pth_mutex_acquire :: "sync \<Rightarrow> ptr \<Rightarrow> bool \<Rightarrow> bool \<Rightarrow> waits \<Rightarrow> (sync \<times> waits \<times> outcome) option" where
  "pth_mutex_acquire s m tryonly extra ws =
     (if m = NULL then Some (s, ws, Fail EINVAL)
      else do {
        st \<leftarrow> fld mx_state (mutexes s) m;
        if \<not> has st PTH_MUTEX_INITIALIZED then Some (s, ws, Fail EDEADLK)
        else if \<not> has st PTH_MUTEX_LOCKED
        then do { s \<leftarrow> mutex_lock s m; Some (s, ws, Return 1) }
        else do {
          cnt \<leftarrow> fld mx_count (mutexes s) m;
          own \<leftarrow> fld mx_owner (mutexes s) m;
          if cnt \<ge> 1 \<and> own = me s
          then do {
            M \<leftarrow> setf mx_count_update (mutexes s) m (cnt + 1);
            Some (s\<lparr>mutexes := M\<rparr>, ws, Return 1)
          }
          else if tryonly then Some (s, ws, Fail EBUSY)
          else do {
            (s, ws, r) \<leftarrow> mutex_wait s m extra ws;
            (case r of
               Return _ \<Rightarrow> do { s \<leftarrow> mutex_lock s m; Some (s, ws, Return 1) }
             | _ \<Rightarrow> Some (s, ws, r))
          }
        }
      })"

definition pth_mutex_release :: "sync \<Rightarrow> ptr \<Rightarrow> (sync \<times> outcome) option" where
  "pth_mutex_release s m =
     (if m = NULL then Some (s, Fail EINVAL)
      else do {
        st \<leftarrow> fld mx_state (mutexes s) m;
        own \<leftarrow> fld mx_owner (mutexes s) m;
        if \<not> has st PTH_MUTEX_INITIALIZED then Some (s, Fail EDEADLK)
        else if \<not> has st PTH_MUTEX_LOCKED then Some (s, Fail EDEADLK)
        else if own \<noteq> me s then Some (s, Fail EACCES)
        else do {
          cnt \<leftarrow> fld mx_count (mutexes s) m;
          M \<leftarrow> setf mx_count_update (mutexes s) m (cnt - 1);
          if cnt - 1 \<le> 0
          then do {
            M \<leftarrow> setf mx_state_update M m (and st (not PTH_MUTEX_LOCKED));
            M \<leftarrow> setf mx_owner_update M m NULL;
            M \<leftarrow> setf mx_count_update M m 0;
            r \<leftarrow> fld mutexring (threads s) (me s);
            (h, r) \<leftarrow> pth_ring_delete (nodes s) (Some r) m;
            T \<leftarrow> setf mutexring_update (threads s) (me s) (the r);
            Some (s\<lparr>mutexes := M, nodes := h, threads := T\<rparr>, Return 1)
          }
          else Some (s\<lparr>mutexes := M\<rparr>, Return 1)
        }
      })"

partial_function (option) releaseall_loop :: "sync \<Rightarrow> ptr \<Rightarrow> ptr \<Rightarrow> ptr \<Rightarrow> sync option" where
  "releaseall_loop s thread rnf rn =
     (if rn = NULL then Some s
      else do {
        (s, _) \<leftarrow> pth_mutex_release s rn;
        r \<leftarrow> fld mutexring (threads s) thread;
        rn \<leftarrow> pth_ring_next (nodes s) (Some r) rn;
        if rn = rnf then Some s else releaseall_loop s thread rnf rn
      })"

declare releaseall_loop.simps [code]

definition pth_mutex_releaseall :: "sync \<Rightarrow> ptr \<Rightarrow> sync option" where
  "pth_mutex_releaseall s thread =
     (if thread = NULL then Some s
      else do {
        r \<leftarrow> fld mutexring (threads s) thread;
        let rn = pth_ring_first (Some r);
        releaseall_loop s thread rn rn
      })"

section \<open>Read-write locks\<close>

definition pth_rwlock_init :: "sync \<Rightarrow> ptr \<Rightarrow> (sync \<times> outcome) option" where
  "pth_rwlock_init s l =
     (if l = NULL then Some (s, Fail EINVAL)
      else do {
        R \<leftarrow> setf rw_state_update (rwlocks s) l PTH_RWLOCK_INITIALIZED;
        R \<leftarrow> setf rw_readers_update R l 0;
        rd \<leftarrow> fld rw_mutex_rd R l;
        rw \<leftarrow> fld rw_mutex_rw R l;
        (s, _) \<leftarrow> pth_mutex_init (s\<lparr>rwlocks := R\<rparr>) rd;
        (s, _) \<leftarrow> pth_mutex_init s rw;
        Some (s, Return 1)
      })"

definition set_readers :: "sync \<Rightarrow> ptr \<Rightarrow> 64 word \<Rightarrow> sync option" where
  "set_readers s l n = do { R \<leftarrow> setf rw_readers_update (rwlocks s) l n; Some (s\<lparr>rwlocks := R\<rparr>) }"

definition set_mode :: "sync \<Rightarrow> ptr \<Rightarrow> rwlock_op \<Rightarrow> sync option" where
  "set_mode s l md = do { R \<leftarrow> setf rw_mode_update (rwlocks s) l md; Some (s\<lparr>rwlocks := R\<rparr>) }"

text \<open>Taking a read lock, from the point where the mutex \<open>rw_mutex_rd\<close> is held.\<close>

definition rwlock_read :: "sync \<Rightarrow> ptr \<Rightarrow> bool \<Rightarrow> bool \<Rightarrow> waits \<Rightarrow> (sync \<times> waits \<times> outcome) option" where
  "rwlock_read s l tryonly extra ws =
     do {
       rd \<leftarrow> fld rw_mutex_rd (rwlocks s) l;
       rw \<leftarrow> fld rw_mutex_rw (rwlocks s) l;
       n \<leftarrow> fld rw_readers (rwlocks s) l;
       s \<leftarrow> set_readers s l (n + 1);
       (s, ws, r) \<leftarrow> (if n + 1 = 1 then pth_mutex_acquire s rw tryonly extra ws
                      else Some (s, ws, Return 1));
       (case r of
          Blocked \<Rightarrow> Some (s, ws, Blocked)
        | Fail e \<Rightarrow> do {
            n \<leftarrow> fld rw_readers (rwlocks s) l;
            s \<leftarrow> set_readers s l (n - 1);
            (s, _) \<leftarrow> pth_mutex_release s rd;
            Some (s, ws, Fail e)
          }
        | Return _ \<Rightarrow> do {
            s \<leftarrow> set_mode s l PTH_RWLOCK_RD;
            (s, _) \<leftarrow> pth_mutex_release s rd;
            Some (s, ws, Return 1)
          })
     }"

definition pth_rwlock_acquire ::
  "sync \<Rightarrow> ptr \<Rightarrow> rwlock_op \<Rightarrow> bool \<Rightarrow> bool \<Rightarrow> waits \<Rightarrow> (sync \<times> waits \<times> outcome) option" where
  "pth_rwlock_acquire s l op tryonly extra ws =
     (if l = NULL then Some (s, ws, Fail EINVAL)
      else do {
        st \<leftarrow> fld rw_state (rwlocks s) l;
        rd \<leftarrow> fld rw_mutex_rd (rwlocks s) l;
        rw \<leftarrow> fld rw_mutex_rw (rwlocks s) l;
        if \<not> has st PTH_RWLOCK_INITIALIZED then Some (s, ws, Fail EDEADLK)
        else if op = PTH_RWLOCK_RW
        then do {
          (s, ws, r) \<leftarrow> pth_mutex_acquire s rw tryonly extra ws;
          (case r of
             Return _ \<Rightarrow> do { s \<leftarrow> set_mode s l PTH_RWLOCK_RW; Some (s, ws, Return 1) }
           | _ \<Rightarrow> Some (s, ws, r))
        }
        else do {
          (s, ws, r) \<leftarrow> pth_mutex_acquire s rd tryonly extra ws;
          (case r of
             Return _ \<Rightarrow> rwlock_read s l tryonly extra ws
           | _ \<Rightarrow> Some (s, ws, r))
        }
      })"

text \<open>Giving up a read lock, from the point where the mutex \<open>rw_mutex_rd\<close> is held.\<close>

definition rwlock_unread :: "sync \<Rightarrow> ptr \<Rightarrow> (sync \<times> outcome) option" where
  "rwlock_unread s l =
     do {
       rd \<leftarrow> fld rw_mutex_rd (rwlocks s) l;
       rw \<leftarrow> fld rw_mutex_rw (rwlocks s) l;
       n \<leftarrow> fld rw_readers (rwlocks s) l;
       s \<leftarrow> set_readers s l (n - 1);
       (s, r) \<leftarrow> (if n - 1 = 0 then pth_mutex_release s rw else Some (s, Return 1));
       (case r of
          Fail e \<Rightarrow> do {
            n \<leftarrow> fld rw_readers (rwlocks s) l;
            s \<leftarrow> set_readers s l (n + 1);
            (s, _) \<leftarrow> pth_mutex_release s rd;
            Some (s, Fail e)
          }
        | _ \<Rightarrow> do {
            s \<leftarrow> set_mode s l PTH_RWLOCK_RD;
            (s, _) \<leftarrow> pth_mutex_release s rd;
            Some (s, Return 1)
          })
     }"

definition pth_rwlock_release :: "sync \<Rightarrow> ptr \<Rightarrow> waits \<Rightarrow> (sync \<times> waits \<times> outcome) option" where
  "pth_rwlock_release s l ws =
     (if l = NULL then Some (s, ws, Fail EINVAL)
      else do {
        st \<leftarrow> fld rw_state (rwlocks s) l;
        md \<leftarrow> fld rw_mode (rwlocks s) l;
        rd \<leftarrow> fld rw_mutex_rd (rwlocks s) l;
        rw \<leftarrow> fld rw_mutex_rw (rwlocks s) l;
        if \<not> has st PTH_RWLOCK_INITIALIZED then Some (s, ws, Fail EDEADLK)
        else if md = PTH_RWLOCK_RW
        then do { (s, r) \<leftarrow> pth_mutex_release s rw; Some (s, ws, r) }
        else do {
          (s, ws, r) \<leftarrow> pth_mutex_acquire s rd False False ws;
          (case r of
             Return _ \<Rightarrow> do { (s, r) \<leftarrow> rwlock_unread s l; Some (s, ws, r) }
           | _ \<Rightarrow> Some (s, ws, r))
        }
      })"

section \<open>Condition variables\<close>

definition pth_cond_init :: "sync \<Rightarrow> ptr \<Rightarrow> (sync \<times> outcome) option" where
  "pth_cond_init s c =
     (if c = NULL then Some (s, Fail EINVAL)
      else do {
        C \<leftarrow> setf cn_state_update (conds s) c PTH_COND_INITIALIZED;
        C \<leftarrow> setf cn_waiters_update C c 0;
        Some (s\<lparr>conds := C\<rparr>, Return 1)
      })"

definition set_waiters :: "sync \<Rightarrow> ptr \<Rightarrow> (32 word \<Rightarrow> 32 word) \<Rightarrow> sync option" where
  "set_waiters s c f =
     do {
       n \<leftarrow> fld cn_waiters (conds s) c;
       C \<leftarrow> setf cn_waiters_update (conds s) c (f n);
       Some (s\<lparr>conds := C\<rparr>)
     }"

text \<open>The handler takes the mutex back when a waiting thread is cancelled.\<close>

definition pth_cond_cleanup_handler :: "sync \<Rightarrow> ptr \<Rightarrow> ptr \<Rightarrow> waits \<Rightarrow> (sync \<times> waits \<times> outcome) option" where
  "pth_cond_cleanup_handler s m c ws =
     do {
       (s, ws, r) \<leftarrow> pth_mutex_acquire s m False False ws;
       if r = Blocked then Some (s, ws, Blocked)
       else do { s \<leftarrow> set_waiters s c (\<lambda>n. n - 1); Some (s, ws, Return 1) }
     }"

text \<open>\<open>hd_cond\<close> stands for the address of the cleanup handler, \<open>vec\<close> for the address of its
  argument vector, and \<open>mem\<close> tells whether \<open>pth_cleanup_push\<close> gets memory.\<close>

definition pth_cond_await ::
  "nat \<Rightarrow> nat \<Rightarrow> bool \<Rightarrow> sync \<Rightarrow> ptr \<Rightarrow> ptr \<Rightarrow> bool \<Rightarrow> waits \<Rightarrow> (sync \<times> waits \<times> outcome) option" where
  "pth_cond_await hd_cond vec mem s c m extra ws =
     (if c = NULL \<or> m = NULL then Some (s, ws, Fail EINVAL)
      else do {
        st \<leftarrow> fld cn_state (conds s) c;
        if \<not> has st PTH_COND_INITIALIZED then Some (s, ws, Fail EDEADLK)
        else if has st PTH_COND_SIGNALED \<and> \<not> has st PTH_COND_BROADCAST
        then do {
          C \<leftarrow> setf cn_state_update (conds s) c
                (and (and (and st (not PTH_COND_SIGNALED)) (not PTH_COND_BROADCAST))
                   (not PTH_COND_HANDLED));
          Some (s\<lparr>conds := C\<rparr>, ws, Return 1)
        }
        else do {
          s \<leftarrow> set_waiters s c (\<lambda>n. n + 1);
          (s, _) \<leftarrow> pth_mutex_release s m;
          (T, _) \<leftarrow> pth_cleanup_push mem (threads s) (me s) hd_cond vec;
          let s = s\<lparr>threads := T\<rparr>;
          (case ws of
             [] \<Rightarrow> Some (s, [], Blocked)
           | w # ws \<Rightarrow> do {
               let s = fst (resume s w);
               (T, _) \<leftarrow> pth_cleanup_pop (\<lambda>f a h. h) (threads s) (me s) False;
               let s = s\<lparr>threads := T\<rparr>;
               (s, ws, r) \<leftarrow> pth_mutex_acquire s m False False ws;
               if r = Blocked then Some (s, ws, Blocked)
               else do { s \<leftarrow> set_waiters s c (\<lambda>n. n - 1); Some (s, ws, Return 1) }
             })
        }
      })"

definition pth_cond_notify :: "sync \<Rightarrow> ptr \<Rightarrow> bool \<Rightarrow> waits \<Rightarrow> (sync \<times> waits \<times> outcome) option" where
  "pth_cond_notify s c broadcast ws =
     (if c = NULL then Some (s, ws, Fail EINVAL)
      else do {
        st \<leftarrow> fld cn_state (conds s) c;
        n \<leftarrow> fld cn_waiters (conds s) c;
        if \<not> has st PTH_COND_INITIALIZED then Some (s, ws, Fail EDEADLK)
        else if n > 0
        then do {
          let st = or st PTH_COND_SIGNALED;
          let st = (if broadcast then or st PTH_COND_BROADCAST else and st (not PTH_COND_BROADCAST));
          C \<leftarrow> setf cn_state_update (conds s) c (and st (not PTH_COND_HANDLED));
          let s = s\<lparr>conds := C\<rparr>;
          (case ws of
             [] \<Rightarrow> Some (s, [], Blocked)
           | w # ws \<Rightarrow> Some (fst (resume s w), ws, Return 1))
        }
        else Some (s, ws, Return 1)
      })"

section \<open>Barriers\<close>

definition pth_barrier_init :: "sync \<Rightarrow> ptr \<Rightarrow> int \<Rightarrow> (sync \<times> outcome) option" where
  "pth_barrier_init s b threshold =
     (if b = NULL \<or> threshold \<le> 0 then Some (s, Fail EINVAL)
      else do {
        m \<leftarrow> fld br_mutex (barriers s) b;
        c \<leftarrow> fld br_cond (barriers s) b;
        (s, r) \<leftarrow> pth_mutex_init s m;
        (case r of
           Return _ \<Rightarrow> do {
             (s, r) \<leftarrow> pth_cond_init s c;
             (case r of
                Return _ \<Rightarrow> do {
                  B \<leftarrow> setf br_state_update (barriers s) b PTH_BARRIER_INITIALIZED;
                  B \<leftarrow> setf br_threshold_update B b threshold;
                  B \<leftarrow> setf br_count_update B b threshold;
                  B \<leftarrow> setf br_cycle_update B b False;
                  Some (s\<lparr>barriers := B\<rparr>, Return 1)
                }
              | _ \<Rightarrow> Some (s, r))
           }
         | _ \<Rightarrow> Some (s, r))
      })"

text \<open>The loop that waits for the other threads. Its first result is the value of \<open>rv\<close>, of which
  only the last assignment survives; \<open>await\<close> is the call of \<open>pth_cond_await\<close>.\<close>

partial_function (option) barrier_loop ::
  "(sync \<Rightarrow> waits \<Rightarrow> (sync \<times> waits \<times> outcome) option) \<Rightarrow> ptr \<Rightarrow> bool \<Rightarrow> sync \<Rightarrow> waits \<Rightarrow> outcome \<Rightarrow>
     (sync \<times> waits \<times> outcome) option" where
  "barrier_loop await b cycle s ws rv =
     do {
       now \<leftarrow> fld br_cycle (barriers s) b;
       if now \<noteq> cycle then Some (s, ws, rv)
       else do {
         (s, ws, rv) \<leftarrow> await s ws;
         (case rv of
            Return _ \<Rightarrow> barrier_loop await b cycle s ws rv
          | _ \<Rightarrow> Some (s, ws, rv))
       }
     }"

declare barrier_loop.simps [code]

definition pth_barrier_reach ::
  "nat \<Rightarrow> nat \<Rightarrow> bool \<Rightarrow> sync \<Rightarrow> ptr \<Rightarrow> waits \<Rightarrow> (sync \<times> waits \<times> outcome) option" where
  "pth_barrier_reach hd_cond vec mem s b ws =
     (if b = NULL then Some (s, ws, Fail EINVAL)
      else do {
        st \<leftarrow> fld br_state (barriers s) b;
        m \<leftarrow> fld br_mutex (barriers s) b;
        c \<leftarrow> fld br_cond (barriers s) b;
        if \<not> has st PTH_BARRIER_INITIALIZED then Some (s, ws, Fail EINVAL)
        else do {
          (s, ws, r) \<leftarrow> pth_mutex_acquire s m False False ws;
          (case r of
             Return _ \<Rightarrow> do {
               cycle \<leftarrow> fld br_cycle (barriers s) b;
               n \<leftarrow> fld br_count (barriers s) b;
               B \<leftarrow> setf br_count_update (barriers s) b (n - 1);
               th \<leftarrow> fld br_threshold B b;
               (s, ws, rv) \<leftarrow>
                 (if n - 1 = 0
                  then do {
                    B \<leftarrow> setf br_cycle_update B b (\<not> cycle);
                    B \<leftarrow> setf br_count_update B b th;
                    (s, ws, rv) \<leftarrow> pth_cond_notify (s\<lparr>barriers := B\<rparr>) c True ws;
                    Some (s, ws, (case rv of Return _ \<Rightarrow> Return PTH_BARRIER_TAILLIGHT | _ \<Rightarrow> rv))
                  }
                  else do {
                    (T, old) \<leftarrow> pth_cancel_state (threads s) (me s) PTH_CANCEL_DISABLE;
                    let s = s\<lparr>barriers := B, threads := T\<rparr>;
                    let rv = Return (if th = n - 1 then PTH_BARRIER_HEADLIGHT else 1);
                    (s, ws, rv) \<leftarrow> barrier_loop (\<lambda>s ws. pth_cond_await hd_cond vec mem s c m False ws)
                                     b cycle s ws rv;
                    if rv = Blocked then Some (s, ws, Blocked)
                    else do {
                      (T, _) \<leftarrow> pth_cancel_state (threads s) (me s) old;
                      Some (s\<lparr>threads := T\<rparr>, ws, rv)
                    }
                  });
               if rv = Blocked then Some (s, ws, Blocked)
               else do { (s, _) \<leftarrow> pth_mutex_release s m; Some (s, ws, rv) }
             }
           | _ \<Rightarrow> Some (s, ws, r))
        }
      })"

section \<open>The invariant of the mutexes\<close>

text \<open>\<open>mutex_ok s L\<close>: every mutex is initialised; a locked mutex has a thread as its owner, an
  unlocked one has none; and \<open>L t\<close> are the mutexes that thread \<open>t\<close> owns, linked in its ring.
  Since a mutex has one owner, no two threads hold the same mutex.\<close>

definition mutex_good :: "sync \<Rightarrow> pth_mutex \<Rightarrow> bool" where
  "mutex_good s x \<longleftrightarrow> bit (mx_state x) 0 \<and>
     (if bit (mx_state x) 1 then mx_owner x \<in> alloc (threads s) else mx_owner x = NULL \<and> mx_count x = 0)"

definition ring_of :: "sync \<Rightarrow> ptr \<Rightarrow> ptr list \<Rightarrow> bool" where
  "ring_of s t ms \<longleftrightarrow>
     (\<exists>r. fld mutexring (threads s) t = Some r \<and> ring_rep (nodes s) (Some r) ms) \<and>
     (\<forall>m. m \<in> set ms \<longleftrightarrow> fld mx_owner (mutexes s) m = Some t)"

definition mutex_ok :: "sync \<Rightarrow> (ptr \<Rightarrow> ptr list) \<Rightarrow> bool" where
  "mutex_ok s L \<longleftrightarrow> alloc (mutexes s) \<subseteq> alloc (nodes s) \<and>
     (\<forall>t \<in> alloc (threads s). ring_of s t (L t)) \<and>
     (\<forall>m \<in> alloc (mutexes s). mutex_good s (the (mutexes s m)))"

abbreviation no_ring :: "pth_st \<Rightarrow> pth_st" where
  "no_ring \<equiv> mutexring_update (\<lambda>_. \<lparr>r_hook = NULL, r_nodes = 0\<rparr>)"

lemma mutex_okD:
  assumes "mutex_ok s L"
  shows "t \<in> alloc (threads s) \<Longrightarrow>
      \<exists>r. fld mutexring (threads s) t = Some r \<and> ring_rep (nodes s) (Some r) (L t)"
    and "t \<in> alloc (threads s) \<Longrightarrow> m \<in> set (L t) \<longleftrightarrow> fld mx_owner (mutexes s) m = Some t"
    and "m \<in> alloc (mutexes s) \<Longrightarrow> m \<in> alloc (nodes s)"
    and "m \<in> alloc (mutexes s) \<Longrightarrow> \<exists>x. mutexes s m = Some x \<and> mutex_good s x"
proof -
  assume "m \<in> alloc (mutexes s)"
  moreover from this obtain x where "mutexes s m = Some x" by (auto simp: alloc_def)
  ultimately show "\<exists>x. mutexes s m = Some x \<and> mutex_good s x" using assms by (auto simp: mutex_ok_def)
qed (use assms in \<open>auto simp: mutex_ok_def ring_of_def\<close>)

text \<open>One thread changes its ring, one mutex its fields.\<close>

lemma mutex_ok_update:
  assumes ok: "mutex_ok s L" and t: "t \<in> alloc (threads s)"
    and r: "ring_rep h (Some r) ys" and al: "alloc h = alloc (nodes s)"
    and fr: "\<And>q zs. ring_rep (nodes s) q zs \<Longrightarrow> set zs \<inter> (set (L t) \<union> set ys) = {} \<Longrightarrow> ring_rep h q zs"
    and m: "m \<in> alloc (mutexes s)" and x: "mutex_good s x" "m \<notin> set (L t) \<Longrightarrow> mx_owner (the (mutexes s m)) = NULL"
    and ys: "set ys = (if mx_owner x = t then insert m (set (L t)) else set (L t) - {m})"
    and ow: "mx_owner x = t \<or> mx_owner x = NULL"
  shows "mutex_ok (s\<lparr>mutexes := (mutexes s)(m \<mapsto> x), nodes := h, threads := hset mutexring_update (threads s) t r\<rparr>)
           (L(t := ys))" (is "mutex_ok ?s _")
proof -
  note d = mutex_okD [OF ok]
  have m0: "m \<noteq> 0" using m by (rule alloc_not_NULL)
  have t0: "t \<noteq> 0" using t by (rule alloc_not_NULL)
  have am: "alloc ((mutexes s)(m \<mapsto> x)) = alloc (mutexes s)" using m by (auto simp: alloc_def)
  have fo: "fld mx_owner ((mutexes s)(m \<mapsto> x)) = (fld mx_owner (mutexes s))(m \<mapsto> mx_owner x)"
    using m0 by (auto simp: fld_def)
  have fm: "fld mx_owner (mutexes s) m = Some (mx_owner (the (mutexes s m)))"
    using m by (auto simp: fld_def alloc_def)
  have "ring_of ?s u ((L(t := ys)) u)" if u: "u \<in> alloc (threads s)" for u
  proof (cases "u = t")
    case True
    have "n \<in> set ys \<longleftrightarrow> fld mx_owner ((mutexes s)(m \<mapsto> x)) n = Some t" for n
      using d(2) [OF t, of n] ys fo ow t0 by auto
    then show ?thesis using True r t by (auto simp: ring_of_def mem_simps)
  next
    case False
    from d(1) [OF u] obtain q where q: "fld mutexring (threads s) u = Some q"
      "ring_rep (nodes s) (Some q) (L u)" by blast
    have nm: "m \<notin> set (L u)" using d(2) [OF u, of m] d(2) [OF t, of m] x(2) fm False u
      by (cases "m \<in> set (L t)") (auto dest: alloc_not_NULL)
    have "set (L u) \<inter> set (L t) = {}" using d(2) [OF u] d(2) [OF t] False by auto
    with nm have "set (L u) \<inter> (set (L t) \<union> set ys) = {}" using ys by (auto split: if_splits)
    from fr [OF q(2) this] have "ring_rep h (Some q) (L u)" .
    moreover have "n \<in> set (L u) \<longleftrightarrow> fld mx_owner ((mutexes s)(m \<mapsto> x)) n = Some u" for n
      using d(2) [OF u, of n] nm fo ow False u by (auto dest: alloc_not_NULL)
    ultimately show ?thesis using False q(1) t by (auto simp: ring_of_def mem_simps)
  qed
  moreover have "mutex_good ?s (the (((mutexes s)(m \<mapsto> x)) n))" if "n \<in> alloc (mutexes s)" for n
    using d(4) [OF that] x(1) by (auto simp: mutex_good_def)
  ultimately show ?thesis using ok al am by (simp add: mutex_ok_def)
qed

lemma same_upto_ring: "same_upto no_ring T (hset mutexring_update T t r)"
  by (simp add: same_upto_def hset_def option.map_comp comp_def)

text \<open>Only mutexes, nodes and rings changed.\<close>

definition same_rest :: "sync \<Rightarrow> sync \<Rightarrow> bool" where
  "same_rest s s' \<longleftrightarrow> me s' = me s \<and> same_upto no_ring (threads s) (threads s') \<and>
     rwlocks s' = rwlocks s \<and> conds s' = conds s \<and> barriers s' = barriers s"

lemma mutex_lock_ok:
  assumes ok: "mutex_ok s L" and t: "me s \<in> alloc (threads s)"
    and m: "mutexes s m = Some x" "m \<noteq> NULL" and ul: "\<not> bit (mx_state x) 1"
  defines "x' \<equiv> x\<lparr>mx_state := or (mx_state x) PTH_MUTEX_LOCKED, mx_owner := me s, mx_count := 1\<rparr>"
  shows "\<exists>s'. mutex_lock s m = Some s' \<and> mutexes s' = (mutexes s)(m \<mapsto> x') \<and> same_rest s s' \<and>
     mutex_ok s' (L(me s := L (me s) @ [m]))"
proof -
  note d = mutex_okD [OF ok]
  have am: "m \<in> alloc (mutexes s)" using m by (simp add: alloc_def)
  from d(4) [OF am] m(1) ul have o: "mx_owner x = NULL" and i: "bit (mx_state x) 0"
    by (auto simp: mutex_good_def)
  have nm: "m \<notin> set (L (me s))" using d(2) [OF t, of m] m o alloc_not_NULL [OF t] by (simp add: fld_def)
  from d(1) [OF t] obtain q where q: "fld mutexring (threads s) (me s) = Some q"
    "ring_rep (nodes s) (Some q) (L (me s))" by blast
  from pr.add_rep [OF q(2) d(3) [OF am] nm] obtain h r where
    a: "pth_ring_append (nodes s) (Some q) m = Some (h, r)" "ring_rep h r (L (me s) @ [m])"
    "alloc h = alloc (nodes s)"
    and fr: "\<forall>r2 ys. ring_rep (nodes s) r2 ys \<longrightarrow> set ys \<inter> insert m (set (L (me s))) = {} \<longrightarrow> ring_rep h r2 ys"
    by blast
  from a(2) obtain r' where r': "r = Some r'" by (auto simp: ring_rep_def)
  let ?T = "hset mutexring_update (threads s) (me s) r'"
  have ok': "mutex_ok (s\<lparr>mutexes := (mutexes s)(m \<mapsto> x'), nodes := h, threads := ?T\<rparr>) (L(me s := L (me s) @ [m]))"
  proof (rule mutex_ok_update [OF ok t])
    show "mutex_good s x'" using i t by (simp add: mutex_good_def x'_def flag_simps)
    show "ring_rep h q zs" if "ring_rep (nodes s) q zs"
      "set zs \<inter> (set (L (me s)) \<union> set (L (me s) @ [m])) = {}" for q zs using fr that by auto
  qed (use a r' am o m in \<open>auto simp: x'_def\<close>)
  have "hset mx_count_update (hset mx_owner_update (hset mx_state_update (mutexes s) m
      (or (mx_state x) PTH_MUTEX_LOCKED)) m (me s)) m 1 = (mutexes s)(m \<mapsto> x')"
    using m by (simp add: hset_def x'_def)
  moreover have "setf mutexring_update (threads s) (me s) r' = Some ?T" using t by (simp add: mem_simps)
  ultimately have "mutex_lock s m = Some (s\<lparr>mutexes := (mutexes s)(m \<mapsto> x'), nodes := h, threads := ?T\<rparr>)"
    using am m q(1) a(1) r' by (simp add: mutex_lock_def mem_simps fld_def)
  with ok' show ?thesis using same_upto_ring by (simp add: same_rest_def)
qed

text \<open>The mutex after one release by its owner.\<close>

definition released :: "pth_mutex \<Rightarrow> pth_mutex" where
  "released x = (if mx_count x = 1
     then x\<lparr>mx_state := and (mx_state x) (not PTH_MUTEX_LOCKED), mx_owner := NULL, mx_count := 0\<rparr>
     else x\<lparr>mx_count := mx_count x - 1\<rparr>)"

lemma mutex_ok_count:
  assumes ok: "mutex_ok s L" and m: "mutexes s m = Some x" "m \<noteq> NULL" and l: "bit (mx_state x) 1"
  shows "mutex_ok (s\<lparr>mutexes := (mutexes s)(m \<mapsto> x\<lparr>mx_count := c\<rparr>)\<rparr>) L"
proof -
  have "alloc ((mutexes s)(m \<mapsto> x\<lparr>mx_count := c\<rparr>)) = alloc (mutexes s)" using m by (auto simp: alloc_def)
  moreover have "fld mx_owner ((mutexes s)(m \<mapsto> x\<lparr>mx_count := c\<rparr>)) = fld mx_owner (mutexes s)"
    using m by (auto simp: fld_def)
  moreover have "mutex_good s x" using mutex_okD(4) [OF ok, of m] m by (auto simp: alloc_def)
  ultimately show ?thesis using ok l
    by (auto simp: mutex_ok_def ring_of_def mutex_good_def)
qed

lemma mutex_release_ok:
  assumes ok: "mutex_ok s L" and t: "me s \<in> alloc (threads s)"
    and m: "mutexes s m = Some x" and L: "L (me s) = as @ m # bs"
  shows "\<exists>s'. pth_mutex_release s m = Some (s', Return 1) \<and> nodes s' m = nodes s m \<and>
     mutexes s' = (mutexes s)(m \<mapsto> released x) \<and> same_rest s s' \<and>
     mutex_ok s' (if mx_count x = 1 then L(me s := as @ bs) else L)"
proof -
  note d = mutex_okD [OF ok]
  from d(2) [OF t, of m] L have f: "fld mx_owner (mutexes s) m = Some (me s)" by simp
  then have am: "m \<in> alloc (mutexes s)" by (rule fld_Some_alloc)
  have m0: "m \<noteq> NULL" using am by (rule alloc_not_NULL)
  have o: "mx_owner x = me s" using f m m0 by (simp add: fld_def)
  have g: "bit (mx_state x) 0" "bit (mx_state x) 1"
    using d(4) [OF am] m o alloc_not_NULL [OF t] by (auto simp: mutex_good_def split: if_splits)
  show ?thesis
  proof (cases "mx_count x = 1")
    case False
    then have "\<not> mx_count x - 1 \<le> 0" by (simp add: word_le_0_iff)
    moreover have "hset mx_count_update (mutexes s) m (mx_count x - 1) = (mutexes s)(m \<mapsto> released x)"
      using m False by (simp add: hset_def released_def)
    ultimately have "pth_mutex_release s m = Some (s\<lparr>mutexes := (mutexes s)(m \<mapsto> released x)\<rparr>, Return 1)"
      using m m0 am o g by (simp add: pth_mutex_release_def fld_def mem_simps flag_simps)
    moreover have "mutex_ok (s\<lparr>mutexes := (mutexes s)(m \<mapsto> released x)\<rparr>) L"
      using mutex_ok_count [OF ok m m0 g(2)] False by (simp add: released_def)
    ultimately show ?thesis using False by (simp add: same_rest_def)
  next
    case True
    from d(1) [OF t] L obtain q where q: "fld mutexring (threads s) (me s) = Some q"
      "ring_rep (nodes s) (Some q) (as @ m # bs)" by auto
    from ring_delete [OF q(2)] obtain h r where
      a: "pth_ring_delete (nodes s) (Some q) m = Some (h, r)" "ring_rep h r (as @ bs)"
      and fr: "heap_frame (set (as @ bs)) (nodes s) h" by blast
    from a(2) obtain r' where r': "r = Some r'" by (auto simp: ring_rep_def)
    have di: "m \<notin> set (as @ bs)" using pr.rep_distinct [OF q(2)] by auto
    let ?T = "hset mutexring_update (threads s) (me s) r'"
    have ok': "mutex_ok (s\<lparr>mutexes := (mutexes s)(m \<mapsto> released x), nodes := h, threads := ?T\<rparr>)
        (L(me s := as @ bs))"
    proof (rule mutex_ok_update [OF ok t])
      show "mutex_good s (released x)" using g True by (simp add: mutex_good_def released_def flag_simps)
      show "ring_rep h q zs" if "ring_rep (nodes s) q zs"
        "set zs \<inter> (set (L (me s)) \<union> set (as @ bs)) = {}" for q zs
        using ring_rep_frame [OF fr that(1)] that(2) by auto
      show "set (as @ bs) = (if mx_owner (released x) = me s then insert m (set (L (me s))) else set (L (me s)) - {m})"
        using True L di alloc_not_NULL [OF t] by (auto simp: released_def)
    qed (use a r' am L True heap_frame_alloc [OF fr] in \<open>auto simp: released_def\<close>)
    have "hset mx_count_update (hset mx_owner_update (hset mx_state_update (hset mx_count_update
        (mutexes s) m 0) m (and (mx_state x) (not PTH_MUTEX_LOCKED))) m NULL) m 0 =
        (mutexes s)(m \<mapsto> released x)"
      using m True by (simp add: hset_def released_def)
    moreover have "setf mutexring_update (threads s) (me s) r' = Some ?T" using t by (simp add: mem_simps)
    ultimately have "pth_mutex_release s m =
        Some (s\<lparr>mutexes := (mutexes s)(m \<mapsto> released x), nodes := h, threads := ?T\<rparr>, Return 1)"
      using m m0 am o g q(1) a(1) r' True
      by (simp add: pth_mutex_release_def fld_def mem_simps flag_simps)
    moreover have "h m = nodes s m" using fr di by (simp add: heap_frame_def)
    ultimately show ?thesis using ok' True by (simp add: same_rest_def same_upto_ring)
  qed
qed

text \<open>A thread that does not own the mutex cannot release it.\<close>

lemma mutex_release_foreign:
  assumes ok: "mutex_ok s L" and t: "me s \<in> alloc (threads s)"
    and m: "m \<in> alloc (mutexes s)" "m \<notin> set (L (me s))"
  shows "pth_mutex_release s m =
     Some (s, Fail (if bit (mx_state (the (mutexes s m))) 1 then EACCES else EDEADLK))"
proof -
  from mutex_okD(4) [OF ok m(1)] obtain x where x: "mutexes s m = Some x" "mutex_good s x" by blast
  have "mx_owner x \<noteq> me s" using mutex_okD(2) [OF ok t, of m] m(2) x(1) alloc_not_NULL [OF m(1)]
    by (simp add: fld_def)
  with x alloc_not_NULL [OF m(1)] show ?thesis
    by (auto simp: pth_mutex_release_def fld_def mutex_good_def flag_simps)
qed

section \<open>Taking a mutex while other threads run\<close>

text \<open>\<open>others t s s'\<close>: while thread \<open>t\<close> waits, other threads take and release mutexes, waiting
  themselves or not, use the locks and variables built on mutexes in any way, and change their
  own control blocks apart from the ring of their mutexes.\<close>

inductive others :: "ptr \<Rightarrow> sync \<Rightarrow> sync \<Rightarrow> bool" for t where
  none: "others t s s"
| acquire: "others t s s1 \<Longrightarrow> u \<in> alloc (threads s1) \<Longrightarrow> u \<noteq> t \<Longrightarrow> m \<in> alloc (mutexes s1) \<Longrightarrow>
    pth_mutex_acquire (s1\<lparr>me := u\<rparr>) m tryonly extra [] = Some (s2, ws, r) \<Longrightarrow> others t s (s2\<lparr>me := t\<rparr>)"
| release: "others t s s1 \<Longrightarrow> u \<in> alloc (threads s1) \<Longrightarrow> u \<noteq> t \<Longrightarrow> m \<in> alloc (mutexes s1) \<Longrightarrow>
    pth_mutex_release (s1\<lparr>me := u\<rparr>) m = Some (s2, r) \<Longrightarrow> others t s (s2\<lparr>me := t\<rparr>)"
| rest: "others t s s1 \<Longrightarrow> alloc R = alloc (rwlocks s1) \<Longrightarrow> alloc C = alloc (conds s1) \<Longrightarrow>
    alloc B = alloc (barriers s1) \<Longrightarrow> others t s (s1\<lparr>rwlocks := R, conds := C, barriers := B\<rparr>)"
| tcb: "others t s s1 \<Longrightarrow> threads s1 u = Some x \<Longrightarrow> u \<noteq> t \<Longrightarrow> mutexring y = mutexring x \<Longrightarrow>
    others t s (s1\<lparr>threads := (threads s1)(u \<mapsto> y)\<rparr>)"

definition only_others :: "ptr \<Rightarrow> waits \<Rightarrow> bool" where
  "only_others t ws \<longleftrightarrow> (\<forall>w \<in> set ws. \<forall>s. me s = t \<longrightarrow> others t s (fst (resume s w)))"

text \<open>What a step of another thread keeps for thread \<open>t\<close>.\<close>

definition keeps :: "ptr \<Rightarrow> (ptr \<Rightarrow> ptr list) \<Rightarrow> sync \<Rightarrow> (ptr \<Rightarrow> ptr list) \<Rightarrow> sync \<Rightarrow> bool" where
  "keeps t L s L' s' \<longleftrightarrow> mutex_ok s' L' \<and> L' t = L t \<and> me s' = t \<and>
     alloc (threads s') = alloc (threads s) \<and> alloc (mutexes s') = alloc (mutexes s) \<and>
     alloc (conds s') = alloc (conds s) \<and> map_option no_ring (threads s' t) = map_option no_ring (threads s t) \<and>
     (\<forall>m \<in> set (L t). mutexes s' m = mutexes s m)"

lemma keeps_refl: "mutex_ok s L \<Longrightarrow> me s = t \<Longrightarrow> keeps t L s L s"
  by (simp add: keeps_def)

lemma keeps_trans: "keeps t L s L1 s1 \<Longrightarrow> keeps t L1 s1 L2 s2 \<Longrightarrow> keeps t L s L2 s2"
  by (simp add: keeps_def)

lemma mutex_ok_me [simp]: "mutex_ok (s\<lparr>me := t\<rparr>) L = mutex_ok s L"
  by (simp add: mutex_ok_def ring_of_def mutex_good_def)

lemma mutex_ok_rest [simp]:
  "mutex_ok (s\<lparr>rwlocks := R\<rparr>) L = mutex_ok s L"
  "mutex_ok (s\<lparr>conds := C\<rparr>) L = mutex_ok s L"
  "mutex_ok (s\<lparr>barriers := B\<rparr>) L = mutex_ok s L"
  by (simp_all add: mutex_ok_def ring_of_def mutex_good_def)

lemma same_upto_alloc: "same_upto u h h' \<Longrightarrow> alloc h' = alloc h"
proof -
  assume "same_upto u h h'"
  then have "h' a = None \<longleftrightarrow> h a = None" for a
    by (metis option.map_disc_iff same_upto_def)
  then show ?thesis by (simp add: alloc_def)
qed

lemma own_disjoint:
  assumes "mutex_ok s L" "t \<in> alloc (threads s)" "u \<in> alloc (threads s)" "u \<noteq> t" "m \<in> set (L t)"
  shows "m \<notin> set (L u)"
  using mutex_okD(2) [OF assms(1,2), of m] mutex_okD(2) [OF assms(1,3), of m] assms(4,5) by auto

lemma alloc_fun_upd: "p \<in> alloc h \<Longrightarrow> alloc (h(p \<mapsto> x)) = alloc h"
  by (auto simp: alloc_def)

lemma mutex_ok_tcb:
  assumes ok: "mutex_ok s L" and u: "threads s u = Some x" "mutexring y = mutexring x"
  shows "mutex_ok (s\<lparr>threads := (threads s)(u \<mapsto> y)\<rparr>) L"
proof -
  have "alloc ((threads s)(u \<mapsto> y)) = alloc (threads s)" using u by (auto simp: alloc_def)
  moreover have "fld mutexring ((threads s)(u \<mapsto> y)) = fld mutexring (threads s)"
    using u by (auto simp: fld_def)
  ultimately show ?thesis using ok by (simp add: mutex_ok_def ring_of_def mutex_good_def)
qed

text \<open>Taking a mutex without waiting: either \<open>m\<close> joins the mutexes of the thread, or nothing
  changes.\<close>

lemma acquire_now:
  assumes ok: "mutex_ok s L" and t: "me s \<in> alloc (threads s)" and m: "m \<in> alloc (mutexes s)"
    and now: "\<not> bit (mx_state (the (mutexes s m))) 1 \<or> m \<in> set (L (me s)) \<and> mx_count (the (mutexes s m)) \<noteq> 0"
  shows "\<exists>s' x'. pth_mutex_acquire s m tryonly extra ws = Some (s', ws, Return 1) \<and>
     mutexes s' = (mutexes s)(m \<mapsto> x') \<and> same_rest s s' \<and>
     mutex_ok s' (if m \<in> set (L (me s)) then L else L(me s := L (me s) @ [m])) \<and>
     mx_count x' = (if m \<in> set (L (me s)) then mx_count (the (mutexes s m)) + 1 else 1)"
proof -
  from mutex_okD(4) [OF ok m] obtain x where x: "mutexes s m = Some x" "mutex_good s x" by blast
  have m0: "m \<noteq> NULL" using m by (rule alloc_not_NULL)
  have own: "m \<in> set (L (me s)) \<longleftrightarrow> mx_owner x = me s"
    using mutex_okD(2) [OF ok t, of m] x(1) m0 by (simp add: fld_def)
  show ?thesis
  proof (cases "bit (mx_state x) 1")
    case False
    then have "m \<notin> set (L (me s))" using own x(2) alloc_not_NULL [OF t] by (auto simp: mutex_good_def)
    moreover from mutex_lock_ok [OF ok t x(1) m0 False] obtain s' where
      l: "mutex_lock s m = Some s'" "same_rest s s'" "mutex_ok s' (L(me s := L (me s) @ [m]))"
      and "mutexes s' = (mutexes s)(m \<mapsto>
        x\<lparr>mx_state := or (mx_state x) PTH_MUTEX_LOCKED, mx_owner := me s, mx_count := 1\<rparr>)" by blast
    from this(4) obtain x' where "mutexes s' = (mutexes s)(m \<mapsto> x')" "mx_count x' = 1" by auto
    moreover have "pth_mutex_acquire s m tryonly extra ws = Some (s', ws, Return 1)"
      using x m0 False l(1) by (auto simp: pth_mutex_acquire_def fld_def mutex_good_def flag_simps)
    ultimately show ?thesis using l by auto
  next
    case True
    with now x have own': "m \<in> set (L (me s))" "mx_count x \<noteq> 0" by auto
    then have "1 \<le> mx_count x" by (simp add: word_le_nat_alt word_gt_0 unat_gt_0 Suc_le_eq)
    let ?x = "x\<lparr>mx_count := mx_count x + 1\<rparr>"
    have "hset mx_count_update (mutexes s) m (mx_count x + 1) = (mutexes s)(m \<mapsto> ?x)"
      using x(1) by (simp add: hset_def)
    then have "pth_mutex_acquire s m tryonly extra ws = Some (s\<lparr>mutexes := (mutexes s)(m \<mapsto> ?x)\<rparr>, ws, Return 1)"
      using x m m0 True own own' \<open>1 \<le> mx_count x\<close>
      by (simp add: pth_mutex_acquire_def fld_def mem_simps mutex_good_def flag_simps)
    with mutex_ok_count [OF ok x(1) m0 True, of "mx_count x + 1"] own' x(1) show ?thesis
      by (intro exI [where x = "s\<lparr>mutexes := (mutexes s)(m \<mapsto> ?x)\<rparr>"] exI [where x = ?x])
        (simp add: same_rest_def)
  qed
qed

lemma acquire_busy:
  assumes ok: "mutex_ok s L" and m: "m \<in> alloc (mutexes s)"
    and l: "bit (mx_state (the (mutexes s m))) 1"
    and f: "mx_owner (the (mutexes s m)) \<noteq> me s \<or> mx_count (the (mutexes s m)) = 0"
  shows "pth_mutex_acquire s m tryonly extra ws =
     (if tryonly then Some (s, ws, Fail EBUSY)
      else do {
        (s, ws, r) \<leftarrow> mutex_wait s m extra ws;
        (case r of
           Return _ \<Rightarrow> do { s \<leftarrow> mutex_lock s m; Some (s, ws, Return 1) }
         | _ \<Rightarrow> Some (s, ws, r))
      })"
proof -
  from mutex_okD(4) [OF ok m] obtain x where x: "mutexes s m = Some x" "mutex_good s x" by blast
  have "\<not> (1 \<le> mx_count x \<and> mx_owner x = me s)" using f x(1) by auto
  with x l alloc_not_NULL [OF m] show ?thesis
    by (auto simp: pth_mutex_acquire_def fld_def mutex_good_def flag_simps)
qed

lemma own_mutex:
  assumes ok: "mutex_ok s L" and t: "t \<in> alloc (threads s)" and m: "m \<in> set (L t)"
  obtains x where "mutexes s m = Some x" "bit (mx_state x) 0" "bit (mx_state x) 1" "mx_owner x = t"
    "m \<in> alloc (mutexes s)"
proof -
  from mutex_okD(2) [OF ok t, of m] m have f: "fld mx_owner (mutexes s) m = Some t" by simp
  then have am: "m \<in> alloc (mutexes s)" by (rule fld_Some_alloc)
  from mutex_okD(4) [OF ok am] obtain x where x: "mutexes s m = Some x" "mutex_good s x" by blast
  with f alloc_not_NULL [OF am] alloc_not_NULL [OF t] have "bit (mx_state x) 0" "bit (mx_state x) 1" "mx_owner x = t"
    by (auto simp: fld_def mutex_good_def split: if_splits)
  with x am that show thesis by blast
qed

lemma others_acquire:
  assumes ok: "mutex_ok s L" and t: "t \<in> alloc (threads s)" and me: "me s = t"
    and u: "u \<in> alloc (threads s)" "u \<noteq> t" and m: "m \<in> alloc (mutexes s)"
    and a: "pth_mutex_acquire (s\<lparr>me := u\<rparr>) m tryonly extra [] = Some (s', ws, r)"
  shows "\<exists>L'. keeps t L s L' (s'\<lparr>me := t\<rparr>)"
proof -
  let ?s = "s\<lparr>me := u\<rparr>"
  have ok': "mutex_ok ?s L" using ok by simp
  let ?x = "the (mutexes s m)"
  have own: "m \<in> set (L u) \<longleftrightarrow> mx_owner ?x = u"
    using mutex_okD(2) [OF ok u(1), of m] m alloc_not_NULL [OF m] by (auto simp: fld_def alloc_def)
  show ?thesis
  proof (cases "\<not> bit (mx_state ?x) 1 \<or> m \<in> set (L u) \<and> mx_count ?x \<noteq> 0")
    case True
    then have p: "me ?s \<in> alloc (threads ?s)" "m \<in> alloc (mutexes ?s)"
      "\<not> bit (mx_state (the (mutexes ?s m))) 1 \<or> m \<in> set (L (me ?s)) \<and> mx_count (the (mutexes ?s m)) \<noteq> 0"
      using u m by simp_all
    from acquire_now [OF ok' p, of tryonly extra "[]"] obtain s2 x' where
      b: "pth_mutex_acquire ?s m tryonly extra [] = Some (s2, [], Return 1)"
      "mutexes s2 = (mutexes ?s)(m \<mapsto> x')" "same_rest ?s s2"
      "mutex_ok s2 (if m \<in> set (L (me ?s)) then L else L(me ?s := L (me ?s) @ [m]))" by blast
    have "s2 = s'" using a b(1) by simp
    with b have s': "mutexes s' = (mutexes s)(m \<mapsto> x')" "same_rest ?s s'"
      and k: "mutex_ok s' (if m \<in> set (L u) then L else L(u := L u @ [m]))" by (simp_all split: if_splits)
    have "m \<notin> set (L t)"
      using True own_disjoint [OF ok u(1) t] u(2) own_mutex [OF ok t, of m] by force
    then show ?thesis using k s' u(2) m
      by (intro exI [where x = "if m \<in> set (L u) then L else L(u := L u @ [m])"])
        (auto simp: keeps_def alloc_fun_upd same_rest_def same_upto_alloc, simp_all add: same_upto_def)
  next
    case False
    with acquire_busy [OF ok', of m tryonly extra "[]"] m own a have "s' = ?s"
      by (auto split: if_splits)
    then show ?thesis using ok me keeps_refl [OF ok me] by auto
  qed
qed

lemma others_release:
  assumes ok: "mutex_ok s L" and t: "t \<in> alloc (threads s)" and me: "me s = t"
    and u: "u \<in> alloc (threads s)" "u \<noteq> t" and m: "m \<in> alloc (mutexes s)"
    and a: "pth_mutex_release (s\<lparr>me := u\<rparr>) m = Some (s', r)"
  shows "\<exists>L'. keeps t L s L' (s'\<lparr>me := t\<rparr>)"
proof -
  let ?s = "s\<lparr>me := u\<rparr>"
  have ok': "mutex_ok ?s L" using ok by simp
  show ?thesis
  proof (cases "m \<in> set (L u)")
    case True
    then obtain as bs where L: "L u = as @ m # bs" by (auto dest: split_list)
    from own_mutex [OF ok u(1) True] obtain x where x: "mutexes s m = Some x" by blast
    from mutex_release_ok [OF ok', of m x as bs] u x L a have
      s': "mutexes s' = (mutexes s)(m \<mapsto> released x)" "same_rest ?s s'"
      and k: "mutex_ok s' (if mx_count x = 1 then L(u := as @ bs) else L)"
      by auto
    have "m \<notin> set (L t)" using own_disjoint [OF ok u(1) t _ True] u(2) by auto
    then show ?thesis using k s' u(2) m
      by (intro exI [where x = "if mx_count x = 1 then L(u := as @ bs) else L"])
        (auto simp: keeps_def alloc_fun_upd same_rest_def same_upto_alloc, simp_all add: same_upto_def)
  next
    case False
    with mutex_release_foreign [OF ok', of m] u m a have "s' = ?s" by auto
    then show ?thesis using ok me keeps_refl [OF ok me] by auto
  qed
qed

lemma others_keeps:
  assumes "others t s s'" and "mutex_ok s L" and "t \<in> alloc (threads s)" and "me s = t"
  shows "\<exists>L'. keeps t L s L' s'"
  using assms
proof (induction rule: others.induct)
  case (none s)
  then show ?case using keeps_refl by blast
next
  case (acquire s s1 u m tryonly extra s2 ws r)
  then obtain L1 where k: "keeps t L s L1 s1" by blast
  from others_acquire [OF _ _ _ acquire.hyps(2-5), of L1] k acquire.prems(2) obtain L2
    where "keeps t L1 s1 L2 (s2\<lparr>me := t\<rparr>)" by (auto simp: keeps_def)
  with k show ?case using keeps_trans by blast
next
  case (release s s1 u m s2 r)
  then obtain L1 where k: "keeps t L s L1 s1" by blast
  from others_release [OF _ _ _ release.hyps(2-5), of L1] k release.prems(2) obtain L2
    where "keeps t L1 s1 L2 (s2\<lparr>me := t\<rparr>)" by (auto simp: keeps_def)
  with k show ?case using keeps_trans by blast
next
  case (rest s s1 R C B)
  then obtain L1 where "keeps t L s L1 s1" by blast
  with rest.hyps show ?case by (auto simp: keeps_def)
next
  case (tcb s s1 u x y)
  then obtain L1 where k: "keeps t L s L1 s1" by blast
  have "alloc ((threads s1)(u \<mapsto> y)) = alloc (threads s1)" using tcb.hyps(2) by (auto simp: alloc_def)
  with k mutex_ok_tcb [OF _ tcb.hyps(2,4), of L1] tcb.hyps(3) show ?case by (auto simp: keeps_def)
qed

lemma wait_ok:
  assumes "mutex_ok s L" and "me s \<in> alloc (threads s)" and "m \<in> alloc (mutexes s)"
    and "only_others (me s) ws"
  shows "\<exists>s' ws' r L'. mutex_wait s m extra ws = Some (s', ws', r) \<and> keeps (me s) L s L' s' \<and>
     set ws' \<subseteq> set ws \<and> (r = Return 1 \<and> \<not> bit (mx_state (the (mutexes s' m))) 1 \<or> r = Blocked \<or> extra \<and> r = Fail EINTR)"
  using assms
proof (induction ws arbitrary: s L)
  case Nil
  then show ?case using keeps_refl by auto
next
  case (Cons w ws)
  obtain s1 oc where w: "resume s w = (s1, oc)" by force
  have "others (me s) s s1" using Cons.prems(4) w by (auto simp: only_others_def dest: spec)
  from others_keeps [OF this Cons.prems(1,2) refl] obtain L1 where k: "keeps (me s) L s L1 s1" by blast
  have m: "m \<in> alloc (mutexes s1)" using k Cons.prems(3) by (simp add: keeps_def)
  then obtain x where x: "mutexes s1 m = Some x" "m \<noteq> NULL" by (auto simp: alloc_def)
  consider "extra \<and> \<not> oc" | "\<not> (extra \<and> \<not> oc)" "\<not> bit (mx_state x) 1" | "\<not> (extra \<and> \<not> oc)" "bit (mx_state x) 1"
    by blast
  then show ?case
  proof cases
    case 1
    then show ?thesis using w k by auto
  next
    case 2
    then show ?thesis using w k x by (auto simp: fld_def flag_simps)
  next
    case 3
    have "mutex_ok s1 L1" "me s1 \<in> alloc (threads s1)" "only_others (me s1) ws"
      using k Cons.prems(2,4) by (auto simp: keeps_def only_others_def)
    from Cons.IH [OF this(1,2) m this(3)] obtain s' ws' r L' where
      i: "mutex_wait s1 m extra ws = Some (s', ws', r)" "keeps (me s1) L1 s1 L' s'" "set ws' \<subseteq> set ws"
      "r = Return 1 \<and> \<not> bit (mx_state (the (mutexes s' m))) 1 \<or> r = Blocked \<or> extra \<and> r = Fail EINTR" by blast
    have "me s1 = me s" using k by (simp add: keeps_def)
    with keeps_trans [OF k] i(2) have "keeps (me s) L s L' s'" by simp
    moreover have "mutex_wait s m extra (w # ws) = Some (s', ws', r)"
      using w 3 x i(1) by (auto simp: fld_def flag_simps)
    ultimately show ?thesis using i(3,4) by fastforce
  qed
qed

lemma acquire_ok:
  assumes ok: "mutex_ok s L" and t: "me s \<in> alloc (threads s)" and m: "m \<in> alloc (mutexes s)"
    and ws: "only_others (me s) ws"
  shows "\<exists>s' ws' r L'. pth_mutex_acquire s m tryonly extra ws = Some (s', ws', r) \<and> mutex_ok s' L' \<and>
     me s' = me s \<and> alloc (threads s') = alloc (threads s) \<and> alloc (mutexes s') = alloc (mutexes s) \<and>
     alloc (conds s') = alloc (conds s) \<and>
     map_option no_ring (threads s' (me s)) = map_option no_ring (threads s (me s)) \<and> set ws' \<subseteq> set ws \<and>
     (r = Return 1 \<and> set (L' (me s)) = insert m (set (L (me s))) \<or>
      (r = Blocked \<or> tryonly \<and> r = Fail EBUSY \<or> extra \<and> r = Fail EINTR) \<and> L' (me s) = L (me s))"
proof (cases "\<not> bit (mx_state (the (mutexes s m))) 1 \<or>
    m \<in> set (L (me s)) \<and> mx_count (the (mutexes s m)) \<noteq> 0")
  case True
  from acquire_now [OF ok t m True, of tryonly extra ws] obtain s' x' where
    a: "pth_mutex_acquire s m tryonly extra ws = Some (s', ws, Return 1)"
    "mutexes s' = (mutexes s)(m \<mapsto> x')" "same_rest s s'"
    "mutex_ok s' (if m \<in> set (L (me s)) then L else L(me s := L (me s) @ [m]))" by blast
  have "set ((if m \<in> set (L (me s)) then L else L(me s := L (me s) @ [m])) (me s)) = insert m (set (L (me s)))"
    by auto
  moreover have "alloc (threads s') = alloc (threads s)" "me s' = me s" "conds s' = conds s"
    "map_option no_ring (threads s' (me s)) = map_option no_ring (threads s (me s))"
    using a(3) by (auto simp: same_rest_def same_upto_alloc, simp add: same_upto_def)
  moreover have "alloc (mutexes s') = alloc (mutexes s)" using a(2) m by (simp add: alloc_fun_upd)
  ultimately show ?thesis using a(1,4) by fastforce
next
  case False
  have own: "m \<in> set (L (me s)) \<longleftrightarrow> mx_owner (the (mutexes s m)) = me s"
    using mutex_okD(2) [OF ok t, of m] m alloc_not_NULL [OF m] by (auto simp: fld_def alloc_def)
  note b = acquire_busy [OF ok m, of tryonly extra ws]
  show ?thesis
  proof (cases tryonly)
    case True
    then show ?thesis using b False own ok by auto
  next
    case nt: False
    from wait_ok [OF ok t m ws, of extra] obtain s1 ws1 r L1 where
      w: "mutex_wait s m extra ws = Some (s1, ws1, r)" "set ws1 \<subseteq> set ws"
      "r = Return 1 \<and> \<not> bit (mx_state (the (mutexes s1 m))) 1 \<or> r = Blocked \<or> extra \<and> r = Fail EINTR"
      and k: "keeps (me s) L s L1 s1" by blast
    have a: "pth_mutex_acquire s m tryonly extra ws =
        (case r of Return _ \<Rightarrow> do { s \<leftarrow> mutex_lock s1 m; Some (s, ws1, Return 1) } | _ \<Rightarrow> Some (s1, ws1, r))"
      using b False own nt w(1) by auto
    from w(3) consider "r = Return 1" "\<not> bit (mx_state (the (mutexes s1 m))) 1" | "r = Blocked \<or> extra \<and> r = Fail EINTR"
      by auto
    then show ?thesis
    proof cases
      case 1
      have k': "mutex_ok s1 L1" "me s1 \<in> alloc (threads s1)" "m \<in> alloc (mutexes s1)"
        "me s1 = me s" "L1 (me s) = L (me s)"
        using k t m by (auto simp: keeps_def)
      then obtain x where x: "mutexes s1 m = Some x" "m \<noteq> NULL" by (auto simp: alloc_def)
      with 1 have "\<not> bit (mx_state x) 1" by simp
      from mutex_lock_ok [OF k'(1,2) x this] obtain s' x' where
        l: "mutex_lock s1 m = Some s'" "mutexes s' = (mutexes s1)(m \<mapsto> x')" "same_rest s1 s'"
        "mutex_ok s' (L1(me s1 := L1 (me s1) @ [m]))" by blast
      have "pth_mutex_acquire s m tryonly extra ws = Some (s', ws1, Return 1)"
        using a 1(1) l(1) by simp
      moreover have "alloc (threads s') = alloc (threads s)" "alloc (mutexes s') = alloc (mutexes s)" "me s' = me s"
        "alloc (conds s') = alloc (conds s)"
        using k k'(3) l(2,3) by (auto simp: keeps_def alloc_fun_upd same_upto_alloc same_rest_def)
      moreover have "map_option no_ring (threads s' (me s)) = map_option no_ring (threads s (me s))"
        using k l(3) by (simp add: keeps_def same_rest_def same_upto_def)
      moreover have "set ((L1(me s1 := L1 (me s1) @ [m])) (me s)) = insert m (set (L (me s)))"
        using k'(4,5) by auto
      ultimately show ?thesis using l(4) w(2) by blast
    next
      case 2
      then have "pth_mutex_acquire s m tryonly extra ws = Some (s1, ws1, r)" using a by auto
      with 2 w(2) k show ?thesis by (auto simp: keeps_def)
    qed
  qed
qed

end
