(* ===== verification/Sync_Facts.thy ===== *)
theory Sync_Facts
  imports Sync "HOL-Library.Multiset"
begin

text \<open>
  What the synchronisation facilities guarantee, on the definitions and the invariant of
  theory \<open>Sync\<close>: nested locking is balanced (through a locale for reentrant locks), what
  \<open>pth_mutex_releaseall\<close> releases, when a read-write lock is refused and when it is stuck, what
  waiting for a condition keeps, and when threads leave a barrier.
\<close>

section \<open>Reentrant locks\<close>

text \<open>A lock that its holder may take again: \<open>depth s m\<close> counts how often the caller holds \<open>m\<close>.\<close>

locale reentrant_lock =
  fixes inv :: "'s \<Rightarrow> bool" and avail :: "'s \<Rightarrow> 'm \<Rightarrow> bool" and depth :: "'s \<Rightarrow> 'm \<Rightarrow> nat"
    and acq :: "'s \<Rightarrow> 'm \<Rightarrow> 's option" and rel :: "'s \<Rightarrow> 'm \<Rightarrow> 's option" and limit :: nat
  assumes acq_law: "inv s \<Longrightarrow> avail s m \<Longrightarrow> depth s m < limit \<Longrightarrow>
      \<exists>s'. acq s m = Some s' \<and> inv s' \<and> avail s' = avail s \<and> depth s' = (depth s)(m := depth s m + 1)"
    and rel_law: "inv s \<Longrightarrow> 0 < depth s m \<Longrightarrow>
      \<exists>s'. rel s m = Some s' \<and> inv s' \<and> avail s' = avail s \<and> depth s' = (depth s)(m := depth s m - 1)"
begin

lemma acq_list:
  assumes "inv s" and "\<And>m. m \<in> set ms \<Longrightarrow> avail s m"
    and "\<And>m. m \<in> set ms \<Longrightarrow> depth s m + count_list ms m \<le> limit"
  shows "\<exists>s'. foldM acq s ms = Some s' \<and> inv s' \<and> (\<forall>m. depth s' m = depth s m + count_list ms m)"
  using assms
proof (induction ms arbitrary: s)
  case (Cons a ms)
  from Cons.prems(3) [of a] have "depth s a < limit" by simp
  from acq_law [OF Cons.prems(1) Cons.prems(2) this] obtain s1 where
    1: "acq s a = Some s1" "inv s1" "avail s1 = avail s" "depth s1 = (depth s)(a := depth s a + 1)" by auto
  have "depth s1 m + count_list ms m \<le> limit" if "m \<in> set ms" for m
    using Cons.prems(3) [of m] that 1(4) by (auto split: if_splits)
  with Cons.IH [OF 1(2)] 1(3) Cons.prems(2) obtain s' where
    "foldM acq s1 ms = Some s'" "inv s'" "\<forall>m. depth s' m = depth s1 m + count_list ms m" by auto
  with 1 show ?case by auto
qed simp

lemma rel_list:
  assumes "inv s" and "\<And>m. count_list ms m \<le> depth s m"
  shows "\<exists>s'. foldM rel s ms = Some s' \<and> inv s' \<and> (\<forall>m. depth s' m = depth s m - count_list ms m)"
  using assms
proof (induction ms arbitrary: s)
  case (Cons a ms)
  from Cons.prems(2) [of a] have "0 < depth s a" by simp
  from rel_law [OF Cons.prems(1) this] obtain s1 where
    1: "rel s a = Some s1" "inv s1" "depth s1 = (depth s)(a := depth s a - 1)" by auto
  have "count_list ms m \<le> depth s1 m" for m
    using Cons.prems(2) [of m] 1(3) by (auto split: if_splits)
  from Cons.IH [OF 1(2) this] obtain s' where
    "foldM rel s1 ms = Some s'" "inv s'" "\<forall>m. depth s' m = depth s1 m - count_list ms m" by auto
  with 1 show ?case by auto
qed simp

text \<open>Taking any locks any number of times and releasing each as often, in any order, ends
  with every lock as deep as before.\<close>

lemma balanced:
  assumes "inv s" and "\<And>m. m \<in> set ms \<Longrightarrow> avail s m"
    and "\<And>m. m \<in> set ms \<Longrightarrow> depth s m + count_list ms m \<le> limit" and "mset ms' = mset ms"
  shows "\<exists>s1 s2. foldM acq s ms = Some s1 \<and> (\<forall>m. depth s1 m = depth s m + count_list ms m) \<and>
     foldM rel s1 ms' = Some s2 \<and> inv s2 \<and> depth s2 = depth s"
proof -
  from acq_list [OF assms(1-3)] obtain s1 where
    1: "foldM acq s ms = Some s1" "inv s1" "\<forall>m. depth s1 m = depth s m + count_list ms m" by blast
  have c: "count_list ms' m = count_list ms m" for m
    using assms(4) by (metis count_mset)
  have "count_list ms' m \<le> depth s1 m" for m using 1(3) c by simp
  from rel_list [OF 1(2) this] obtain s2 where
    2: "foldM rel s1 ms' = Some s2" "inv s2" "\<forall>m. depth s2 m = depth s1 m - count_list ms' m" by blast
  have "depth s2 = depth s" using 2(3) 1(3) c by (intro ext) simp
  with 1 2 show ?thesis by blast
qed

end

definition lock_depth :: "sync \<Rightarrow> ptr \<Rightarrow> nat" where
  "lock_depth s m = (if fld mx_owner (mutexes s) m = Some (me s)
     then unat (the (fld mx_count (mutexes s) m)) else 0)"

definition lock_avail :: "sync \<Rightarrow> ptr \<Rightarrow> bool" where
  "lock_avail s m \<longleftrightarrow> fld mx_owner (mutexes s) m \<in> {Some NULL, Some (me s)}"

definition lock_inv :: "sync \<Rightarrow> bool" where
  "lock_inv s \<longleftrightarrow> me s \<in> alloc (threads s) \<and> (\<exists>L. mutex_ok s L) \<and>
     (\<forall>m. fld mx_owner (mutexes s) m = Some (me s) \<longrightarrow> fld mx_count (mutexes s) m \<noteq> Some 0)"

definition try_acquire :: "sync \<Rightarrow> ptr \<Rightarrow> sync option" where
  "try_acquire s m = (case pth_mutex_acquire s m True False [] of Some (s', _, Return _) \<Rightarrow> Some s' | _ \<Rightarrow> None)"

definition do_release :: "sync \<Rightarrow> ptr \<Rightarrow> sync option" where
  "do_release s m = (case pth_mutex_release s m of Some (s', Return _) \<Rightarrow> Some s' | _ \<Rightarrow> None)"

lemma fld_fun_upd: "p \<noteq> NULL \<Longrightarrow> fld f (h(p \<mapsto> x)) q = (if q = p then Some (f x) else fld f h q)"
  by (simp add: fld_def)

lemma same_rest_alloc: "same_rest s s' \<Longrightarrow> alloc (threads s') = alloc (threads s)"
  by (auto simp: same_rest_def same_upto_alloc)

text \<open>The mutexes of Pth are reentrant locks, up to the width of the counter.\<close>

lemma try_acquire_law:
  assumes inv: "lock_inv s" and av: "lock_avail s m" and lim: "lock_depth s m < 2 ^ 64 - 1"
  shows "\<exists>s'. try_acquire s m = Some s' \<and> lock_inv s' \<and> lock_avail s' = lock_avail s \<and>
     lock_depth s' = (lock_depth s)(m := lock_depth s m + 1)"
proof -
  from inv obtain L where ok: "mutex_ok s L" and t: "me s \<in> alloc (threads s)" by (auto simp: lock_inv_def)
  from av have m: "m \<in> alloc (mutexes s)" by (auto simp: lock_avail_def intro: fld_Some_alloc)
  from mutex_okD(4) [OF ok m] obtain x where x: "mutexes s m = Some x" "mutex_good s x" by blast
  have m0: "m \<noteq> NULL" using m by (rule alloc_not_NULL)
  have fx: "fld mx_owner (mutexes s) m = Some (mx_owner x)" "fld mx_count (mutexes s) m = Some (mx_count x)"
    using x(1) m0 by (simp_all add: fld_def)
  have own: "m \<in> set (L (me s)) \<longleftrightarrow> mx_owner x = me s" using mutex_okD(2) [OF ok t, of m] fx by simp
  have t0: "me s \<noteq> NULL" using t by (rule alloc_not_NULL)
  have c0: "mx_owner x = me s \<Longrightarrow> mx_count x \<noteq> 0" using inv fx by (auto simp: lock_inv_def)
  have "\<not> bit (mx_state (the (mutexes s m))) 1 \<or> m \<in> set (L (me s)) \<and> mx_count (the (mutexes s m)) \<noteq> 0"
    using av x own c0 fx by (auto simp: lock_avail_def mutex_good_def)
  from acquire_now [OF ok t m this, of True False "[]"] obtain s' x' where
    a: "pth_mutex_acquire s m True False [] = Some (s', [], Return 1)"
    "mutexes s' = (mutexes s)(m \<mapsto> x')" "same_rest s s'"
    "mutex_ok s' (if m \<in> set (L (me s)) then L else L(me s := L (me s) @ [m]))"
    "mx_count x' = (if m \<in> set (L (me s)) then mx_count (the (mutexes s m)) + 1 else 1)" by blast
  have me: "me s' = me s" using a(3) by (simp add: same_rest_def)
  have t': "me s' \<in> alloc (threads s')" using me t same_rest_alloc [OF a(3)] by simp
  have "m \<in> set ((if m \<in> set (L (me s)) then L else L(me s := L (me s) @ [m])) (me s'))" using me by simp
  with mutex_okD(2) [OF a(4) t', of m] a(2) m0 me have o': "mx_owner x' = me s" by (simp add: fld_def)
  have dx: "unat (mx_count x') = lock_depth s m + 1"
  proof (cases "mx_owner x = me s")
    case True
    then have "unat (mx_count x) < 2 ^ 64 - 1" using lim fx by (simp add: lock_depth_def)
    then have "unat (mx_count x + 1) = unat (mx_count x) + 1" by (simp add: unat_word_ariths)
    then show ?thesis using True own a(5) x(1) fx by (simp add: lock_depth_def)
  next
    case False
    then show ?thesis using own a(5) fx by (simp add: lock_depth_def)
  qed
  have "lock_depth s' = (lock_depth s)(m := lock_depth s m + 1)"
    using a(2) me m0 dx o' by (intro ext) (simp add: lock_depth_def fld_fun_upd)
  moreover have "lock_avail s' = lock_avail s"
    using a(2) me m0 o' av by (intro ext) (auto simp: lock_avail_def fld_fun_upd)
  moreover have "mx_count x' \<noteq> 0" using dx by auto
  then have "lock_inv s'"
    using a(2,4) t' me m0 inv by (auto simp: lock_inv_def fld_fun_upd)
  ultimately show ?thesis using a(1) by (simp add: try_acquire_def)
qed

lemma do_release_law:
  assumes inv: "lock_inv s" and d: "0 < lock_depth s m"
  shows "\<exists>s'. do_release s m = Some s' \<and> lock_inv s' \<and> lock_avail s' = lock_avail s \<and>
     lock_depth s' = (lock_depth s)(m := lock_depth s m - 1)"
proof -
  from inv obtain L where ok: "mutex_ok s L" and t: "me s \<in> alloc (threads s)" by (auto simp: lock_inv_def)
  from d have f: "fld mx_owner (mutexes s) m = Some (me s)" by (simp add: lock_depth_def split: if_splits)
  with mutex_okD(2) [OF ok t, of m] have mL: "m \<in> set (L (me s))" by simp
  from own_mutex [OF ok t mL] obtain x where
    x: "mutexes s m = Some x" "mx_owner x = me s" "m \<in> alloc (mutexes s)" by blast
  have m0: "m \<noteq> NULL" using x(3) by (rule alloc_not_NULL)
  have t0: "me s \<noteq> NULL" using t by (rule alloc_not_NULL)
  have dm: "lock_depth s m = unat (mx_count x)" using x m0 by (simp add: lock_depth_def fld_def)
  with d have c0: "mx_count x \<noteq> 0" by auto
  from split_list [OF mL] obtain as bs where L: "L (me s) = as @ m # bs" by blast
  from mutex_release_ok [where L = L and m = m, OF ok t x(1) L] obtain s' where
    r: "pth_mutex_release s m = Some (s', Return 1)" "mutexes s' = (mutexes s)(m \<mapsto> released x)"
    "same_rest s s'" "mutex_ok s' (if mx_count x = 1 then L(me s := as @ bs) else L)" by blast
  have me: "me s' = me s" using r(3) by (simp add: same_rest_def)
  have t': "me s' \<in> alloc (threads s')" using me t same_rest_alloc [OF r(3)] by simp
  have dc: "unat (mx_count x - 1) = unat (mx_count x) - 1" using c0 by (rule unat_minus_one)
  have "lock_depth s' = (lock_depth s)(m := lock_depth s m - 1)"
    using r(2) me m0 t0 x(2) dm dc by (intro ext) (auto simp: lock_depth_def fld_fun_upd released_def)
  moreover have "lock_avail s' = lock_avail s"
    using r(2) me m0 x by (intro ext) (auto simp: lock_avail_def fld_fun_upd released_def fld_def)
  moreover have "lock_inv s'"
    using r(2,4) t' me m0 t0 inv by (auto simp: lock_inv_def fld_fun_upd released_def split: if_splits)
  ultimately show ?thesis using r(1) by (simp add: do_release_def)
qed

interpretation mx: reentrant_lock lock_inv lock_avail lock_depth try_acquire do_release "2 ^ 64 - 1"
  by unfold_locales (rule try_acquire_law do_release_law; assumption)+

section \<open>Releasing the mutexes of a thread\<close>

text \<open>A thread that releases its own mutexes stops after the first when it holds that one once:
  the deleted node still points to its old successor, which is now the first node of the ring,
  and \<open>pth_ring_next\<close> takes that for the end.\<close>

lemma releaseall_own:
  assumes ok: "mutex_ok s L" and t: "me s \<in> alloc (threads s)" and L: "L (me s) = m # ms"
    and c: "fld mx_count (mutexes s) m = Some 1"
  shows "\<exists>s'. pth_mutex_releaseall s (me s) = Some s' \<and> mutex_ok s' (L(me s := ms)) \<and>
     (\<forall>m' \<in> set ms. mutexes s' m' = mutexes s m')"
proof -
  from own_mutex [OF ok t, of m] L obtain x where x: "mutexes s m = Some x" "m \<in> alloc (mutexes s)" by auto
  have m0: "m \<noteq> NULL" using x(2) by (rule alloc_not_NULL)
  have c1: "mx_count x = 1" using c x(1) m0 by (simp add: fld_def)
  have t0: "me s \<noteq> NULL" using t by (rule alloc_not_NULL)
  have L0: "L (me s) = [] @ m # ms" using L by simp
  from mutex_release_ok [where L = L and m = m, OF ok t x(1) L0] c1 obtain s' where
    r: "pth_mutex_release s m = Some (s', Return 1)" "nodes s' m = nodes s m"
    "mutexes s' = (mutexes s)(m \<mapsto> released x)" "same_rest s s'" "mutex_ok s' (L(me s := ms))" by auto
  from mutex_okD(1) [OF ok t] L obtain q where
    q: "fld mutexring (threads s) (me s) = Some q" "ring_rep (nodes s) (Some q) (m # ms)" by auto
  have t': "me s \<in> alloc (threads s')" using t same_rest_alloc [OF r(4)] by simp
  from mutex_okD(1) [OF r(5) t'] obtain q' where
    q': "fld mutexring (threads s') (me s) = Some q'" "ring_rep (nodes s') (Some q') ms" by auto
  have di: "m \<notin> set ms" using pr.rep_distinct [OF q(2)] by simp
  have first: "pth_ring_first (Some q) = m" using ring_first [OF q(2)] by simp
  have hook: "r_hook q' = (if ms = [] then NULL else hd ms)" using q'(2) by (simp add: ring_rep_def)
  have nx: "fld rn_next (nodes s') m = fld rn_next (nodes s) m" using r(2) by (simp add: fld_def)
  have nxt: "pth_ring_next (nodes s') (Some q') m = Some (if ms = [] then m else NULL)"
  proof (cases "ms = []")
    case True
    then have "nxt (nodes s) m = Some m" using ring_ends(3) [OF q(2)] by simp
    then show ?thesis using True hook nx m0 by (simp add: pth_ring_next_def)
  next
    case False
    then have "nxt (nodes s) m = Some (hd ms)"
      using ring_neighbours(1) [of "nodes s" "Some q" "[]" m ms] q(2) by simp
    then show ?thesis using False hook nx m0 by (simp add: pth_ring_next_def)
  qed
  have "pth_mutex_releaseall s (me s) = Some s'"
    using t0 q(1) first r(1) q'(1) nxt m0
    by (simp add: pth_mutex_releaseall_def, subst releaseall_loop.simps) (simp add: releaseall_loop.simps)
  with r(3,5) di show ?thesis by auto
qed

text \<open>The mutexes of another thread are not released at all: \<open>pth_mutex_release\<close> refuses.\<close>

lemma releaseall_loop_foreign:
  assumes ok: "mutex_ok s L" and t: "me s \<in> alloc (threads s)" and u: "u \<in> alloc (threads s)" "u \<noteq> me s"
    and L: "L u = as @ m # ms"
  shows "releaseall_loop s u (hd (L u)) m = Some s"
  using L
proof (induction ms arbitrary: as m)
  case Nil
  then have mL: "m \<in> set (L u)" by simp
  from own_mutex [OF ok u(1) mL] have am: "m \<in> alloc (mutexes s)" by blast
  have nm: "m \<notin> set (L (me s))" using own_disjoint [OF ok u(1) t _ mL] u(2) by auto
  from mutex_okD(1) [OF ok u(1)] Nil obtain q where
    q: "fld mutexring (threads s) u = Some q" "ring_rep (nodes s) (Some q) (as @ [m])" by auto
  show ?case using q(1) ring_next [OF q(2)] mutex_release_foreign [OF ok t am nm] alloc_not_NULL [OF am]
    by (subst releaseall_loop.simps) (simp add: releaseall_loop.simps)
next
  case (Cons m2 ms)
  then have mL: "m \<in> set (L u)" by simp
  from own_mutex [OF ok u(1) mL] have am: "m \<in> alloc (mutexes s)" by blast
  have nm: "m \<notin> set (L (me s))" using own_disjoint [OF ok u(1) t _ mL] u(2) by auto
  from mutex_okD(1) [OF ok u(1)] Cons.prems obtain q where
    q: "fld mutexring (threads s) u = Some q" "ring_rep (nodes s) (Some q) (as @ m # m2 # ms)" by auto
  have "m2 \<noteq> hd (L u)" using pr.rep_distinct [OF q(2)] Cons.prems by (cases as) auto
  moreover have "releaseall_loop s u (hd (L u)) m2 = Some s"
    using Cons.IH [of "as @ [m]" m2] Cons.prems by simp
  ultimately show ?case
    using q(1) ring_next [OF q(2)] mutex_release_foreign [OF ok t am nm] alloc_not_NULL [OF am]
    by (subst releaseall_loop.simps) simp
qed

lemma releaseall_foreign:
  assumes ok: "mutex_ok s L" and t: "me s \<in> alloc (threads s)" and u: "u \<in> alloc (threads s)" "u \<noteq> me s"
  shows "pth_mutex_releaseall s u = Some s"
proof -
  from mutex_okD(1) [OF ok u(1)] obtain q where
    q: "fld mutexring (threads s) u = Some q" "ring_rep (nodes s) (Some q) (L u)" by auto
  show ?thesis
  proof (cases "L u")
    case Nil
    then show ?thesis using q ring_first [OF q(2)]
      by (simp add: pth_mutex_releaseall_def releaseall_loop.simps)
  next
    case (Cons m ms)
    then show ?thesis using q(1) ring_first [OF q(2)] releaseall_loop_foreign [OF ok t u, of "[]" m ms]
      by (simp add: pth_mutex_releaseall_def)
  qed
qed

section \<open>Read-write locks\<close>

text \<open>\<open>rw_lock s l x\<close>: \<open>l\<close> is an initialised read-write lock with two different mutexes.\<close>

definition rw_lock :: "sync \<Rightarrow> ptr \<Rightarrow> pth_rwlock \<Rightarrow> bool" where
  "rw_lock s l x \<longleftrightarrow> l \<noteq> NULL \<and> rwlocks s l = Some x \<and> bit (rw_state x) 0 \<and>
     rw_mutex_rd x \<in> alloc (mutexes s) \<and> rw_mutex_rw x \<in> alloc (mutexes s) \<and> rw_mutex_rd x \<noteq> rw_mutex_rw x"

lemma set_readers_eq:
  "rwlocks s l = Some x \<Longrightarrow> l \<noteq> NULL \<Longrightarrow>
     set_readers s l n = Some (s\<lparr>rwlocks := (rwlocks s)(l \<mapsto> x\<lparr>rw_readers := n\<rparr>)\<rparr>)"
  by (simp add: set_readers_def setf_def hset_def)

lemma set_mode_eq:
  "rwlocks s l = Some x \<Longrightarrow> l \<noteq> NULL \<Longrightarrow>
     set_mode s l md = Some (s\<lparr>rwlocks := (rwlocks s)(l \<mapsto> x\<lparr>rw_mode := md\<rparr>)\<rparr>)"
  by (simp add: set_mode_def setf_def hset_def)

text \<open>Taking a free mutex and giving it back leaves every other mutex alone.\<close>

lemma unlocked_acquire:
  assumes ok: "mutex_ok s L" and t: "me s \<in> alloc (threads s)" and m: "m \<in> alloc (mutexes s)"
    and ul: "\<not> bit (mx_state (the (mutexes s m))) 1"
  obtains s' x' where "pth_mutex_acquire s m tryonly extra ws = Some (s', ws, Return 1)"
    "mutexes s' = (mutexes s)(m \<mapsto> x')" "same_rest s s'" "mutex_ok s' (L(me s := L (me s) @ [m]))"
    "mx_count x' = 1" "me s' \<in> alloc (threads s')"
proof -
  from mutex_okD(4) [OF ok m] ul obtain x where x: "mutexes s m = Some x" "mx_owner x = NULL"
    by (auto simp: mutex_good_def)
  have nm: "m \<notin> set (L (me s))"
    using mutex_okD(2) [OF ok t, of m] x alloc_not_NULL [OF m] alloc_not_NULL [OF t] by (simp add: fld_def)
  from acquire_now [OF ok t m, of tryonly extra ws] ul nm obtain s' x' where
    a: "pth_mutex_acquire s m tryonly extra ws = Some (s', ws, Return 1)"
    "mutexes s' = (mutexes s)(m \<mapsto> x')" "same_rest s s'" "mutex_ok s' (L(me s := L (me s) @ [m]))"
    "mx_count x' = 1" by auto
  moreover have "me s' \<in> alloc (threads s')" using a(3) t same_rest_alloc [OF a(3)] by (simp add: same_rest_def)
  ultimately show thesis using that by blast
qed

lemma own_release:
  assumes ok: "mutex_ok s L" and t: "me s \<in> alloc (threads s)" and L: "L (me s) = as @ [m]"
    and x: "mutexes s m = Some x" "mx_count x = 1"
  obtains s' where "pth_mutex_release s m = Some (s', Return 1)"
    "mutexes s' = (mutexes s)(m \<mapsto> released x)" "same_rest s s'" "mutex_ok s' (L(me s := as))"
  using mutex_release_ok [where L = L and m = m, OF ok t x(1), of as "[]"] L x(2) by auto

text \<open>The last reader is not the first one: the mutex \<open>rw_mutex_rw\<close> belongs to the first reader, so
  the release fails, the reader count stays and the lock is never free again.\<close>

lemma rwlock_stuck:
  assumes ok: "mutex_ok s L" and t: "me s \<in> alloc (threads s)" and l: "rw_lock s l x"
    and x: "rw_mode x = PTH_RWLOCK_RD" "rw_readers x = 1"
    and rd: "\<not> bit (mx_state (the (mutexes s (rw_mutex_rd x)))) 1"
    and rw: "u \<noteq> me s" "u \<in> alloc (threads s)" "rw_mutex_rw x \<in> set (L u)"
  shows "\<exists>s'. pth_rwlock_release s l ws = Some (s', ws, Fail EACCES) \<and> rwlocks s' = rwlocks s \<and>
     mutex_ok s' L \<and> mutexes s' (rw_mutex_rw x) = mutexes s (rw_mutex_rw x)"
proof -
  let ?rd = "rw_mutex_rd x" and ?rw = "rw_mutex_rw x"
  from l have l': "l \<noteq> NULL" "rwlocks s l = Some x" "bit (rw_state x) 0" "?rd \<in> alloc (mutexes s)"
    "?rw \<in> alloc (mutexes s)" "?rd \<noteq> ?rw" by (auto simp: rw_lock_def)
  from unlocked_acquire [OF ok t l'(4) rd, of False False ws] obtain s1 x1 where
    1: "pth_mutex_acquire s ?rd False False ws = Some (s1, ws, Return 1)"
    "mutexes s1 = (mutexes s)(?rd \<mapsto> x1)" "same_rest s s1" "mutex_ok s1 (L(me s := L (me s) @ [?rd]))"
    "mx_count x1 = 1" "me s1 \<in> alloc (threads s1)" by blast
  have me1: "me s1 = me s" and rl1: "rwlocks s1 = rwlocks s" using 1(3) by (simp_all add: same_rest_def)
  let ?s2 = "s1\<lparr>rwlocks := (rwlocks s1)(l \<mapsto> x\<lparr>rw_readers := 0\<rparr>)\<rparr>"
  let ?s3 = "s1\<lparr>rwlocks := (rwlocks s1)(l \<mapsto> x\<lparr>rw_readers := 1\<rparr>)\<rparr>"
  have e: "x\<lparr>rw_readers := 1\<rparr> = x" using x(2) by simp
  have s3: "rwlocks ?s3 = rwlocks s" unfolding e using l'(2) rl1 by auto
  from own_mutex [OF ok rw(2,3)] obtain y where
    y: "mutexes s ?rw = Some y" "bit (mx_state y) 1" by blast
  have "?rw \<notin> set (L (me s))" using own_disjoint [OF ok rw(2) t _ rw(3)] rw(1) by auto
  then have "pth_mutex_release ?s2 ?rw = Some (?s2, Fail EACCES)"
    using mutex_release_foreign [of ?s2 "L(me s := L (me s) @ [?rd])" ?rw] 1 me1 l'(4-6) y
    by (simp add: alloc_fun_upd)
  moreover from own_release [of ?s3 "L(me s := L (me s) @ [?rd])" "L (me s)" ?rd x1] 1 me1 obtain s4 where
    4: "pth_mutex_release ?s3 ?rd = Some (s4, Return 1)" "mutexes s4 = (mutexes ?s3)(?rd \<mapsto> released x1)"
    "same_rest ?s3 s4" "mutex_ok s4 ((L(me s := L (me s) @ [?rd]))(me s := L (me s)))" by auto
  moreover have "fld rw_readers (rwlocks s1) l = Some 1" "fld rw_mutex_rd (rwlocks s1) l = Some ?rd"
    "fld rw_mutex_rw (rwlocks s1) l = Some ?rw" using l' x rl1 by (simp_all add: fld_def)
  ultimately have "rwlock_unread s1 l = Some (s4, Fail EACCES)"
    using l' x rl1 by (simp add: rwlock_unread_def set_readers_eq fld_fun_upd)
  then have "pth_rwlock_release s l ws = Some (s4, ws, Fail EACCES)"
    using l' x 1(1) by (simp add: pth_rwlock_release_def fld_def flag_simps)
  moreover have "rwlocks s4 = rwlocks s" using 4(3) s3 by (simp add: same_rest_def)
  moreover have "mutex_ok s4 L" using 4(4) by simp
  moreover have "mutexes s4 ?rw = mutexes s ?rw" using 4(2) 1(2) l'(6) by simp
  ultimately show ?thesis by blast
qed

section \<open>Condition variables\<close>

text \<open>Waiting gives up the mutex and takes it back. The list of cleanup handlers is as before when
  \<open>pth_cleanup_push\<close> got memory; otherwise \<open>pth_cleanup_pop\<close> removes a handler of the caller.\<close>

lemma no_ring_cleanups: "map_option no_ring a = map_option no_ring b \<Longrightarrow> map_option cleanups a = map_option cleanups b"
proof -
  assume "map_option no_ring a = map_option no_ring b"
  then have "map_option cleanups (map_option no_ring a) = map_option cleanups (map_option no_ring b)" by simp
  then show ?thesis by (simp add: option.map_comp comp_def)
qed

lemma set_waiters_eq:
  "conds s c = Some y \<Longrightarrow> c \<noteq> NULL \<Longrightarrow>
     set_waiters s c f = Some (s\<lparr>conds := (conds s)(c \<mapsto> y\<lparr>cn_waiters := f (cn_waiters y)\<rparr>)\<rparr>)"
  by (simp add: set_waiters_def setf_def hset_def fld_def)

lemma mutex_ok_cleanups:
  assumes ok: "mutex_ok s L"
  shows "mutex_ok (s\<lparr>threads := hset cleanups_update (threads s) t cl\<rparr>) L"
proof -
  have "fld mutexring (hset cleanups_update (threads s) t cl) = fld mutexring (threads s)"
    by (rule fld_hset_other) simp
  with ok show ?thesis by (simp add: mutex_ok_def ring_of_def mutex_good_def)
qed

lemma push_step:
  assumes "fld cleanups T t = Some cl" and "func \<noteq> NULL"
  shows "pth_cleanup_push mem T t func arg =
     Some (if mem then hset cleanups_update T t ((func, arg) # cl) else T, if mem then Inr True else Inl ENOMEM)"
  using assms fld_Some_alloc [OF assms(1)] by (simp add: pth_cleanup_push_def mem_simps)

lemma pop_step:
  assumes "fld cleanups T t = Some cl"
  shows "pth_cleanup_pop run T t False =
     Some (if cl = [] then T else hset cleanups_update T t (tl cl), cl \<noteq> [])"
  using assms fld_Some_alloc [OF assms(1)] by (cases cl) (auto simp: pth_cleanup_pop_def mem_simps)

text \<open>The wait between pushing and popping the handler.\<close>

lemma handler_bracket:
  assumes ok: "mutex_ok s L" and t: "me s \<in> alloc (threads s)"
    and cl: "fld cleanups (threads s) (me s) = Some cl" and hd: "func \<noteq> NULL"
    and w: "only_others (me s) [w]"
  shows "\<exists>T b s4 T5 b5 L5. pth_cleanup_push mem (threads s) (me s) func arg = Some (T, b) \<and>
     fst (resume (s\<lparr>threads := T\<rparr>) w) = s4 \<and> pth_cleanup_pop (\<lambda>f a h. h) (threads s4) (me s4) False = Some (T5, b5) \<and>
     mutex_ok (s4\<lparr>threads := T5\<rparr>) L5 \<and> L5 (me s) = L (me s) \<and> me s4 = me s \<and> me s \<in> alloc T5 \<and>
     alloc (mutexes s4) = alloc (mutexes s) \<and> alloc (conds s4) = alloc (conds s) \<and>
     fld cleanups T5 (me s) = Some (if mem then cl else tl cl)"
proof -
  define T where "T = (if mem then hset cleanups_update (threads s) (me s) ((func, arg) # cl) else threads s)"
  let ?s3 = "s\<lparr>threads := T\<rparr>" and ?cl = "if mem then (func, arg) # cl else cl"
  have s3: "mutex_ok ?s3 L" "me s \<in> alloc T" using ok t by (auto simp: T_def mutex_ok_cleanups)
  have cl3: "fld cleanups T (me s) = Some ?cl" using cl t by (simp add: T_def mem_simps)
  define s4 where "s4 = fst (resume ?s3 w)"
  have "others (me s) ?s3 s4" using w by (simp add: only_others_def s4_def)
  from others_keeps [OF this s3(1)] s3(2) obtain L4 where k: "keeps (me s) L ?s3 L4 s4" by auto
  have cl4: "fld cleanups (threads s4) (me s) = Some ?cl"
    using cl3 k no_ring_cleanups [of "threads s4 (me s)" "T (me s)"] alloc_not_NULL [OF t]
    by (simp add: keeps_def fld_def)
  have t4: "me s \<in> alloc (threads s4)" using cl4 by (rule fld_Some_alloc)
  have me4: "me s4 = me s" using k by (simp add: keeps_def)
  define T5 where "T5 = (if ?cl = [] then threads s4 else hset cleanups_update (threads s4) (me s) (tl ?cl))"
  have "pth_cleanup_push mem (threads s) (me s) func arg = Some (T, if mem then Inr True else Inl ENOMEM)"
    using push_step [OF cl hd] by (simp add: T_def)
  moreover have "pth_cleanup_pop (\<lambda>f a h. h) (threads s4) (me s4) False = Some (T5, ?cl \<noteq> [])"
    unfolding me4 T5_def by (rule pop_step [OF cl4])
  moreover have "mutex_ok (s4\<lparr>threads := T5\<rparr>) L4" "me s \<in> alloc T5"
    using k t4 by (auto simp: keeps_def T5_def mutex_ok_cleanups)
  moreover have "fld cleanups T5 (me s) = Some (if mem then cl else tl cl)"
    using cl4 t4 by (auto simp: T5_def mem_simps)
  moreover have "fst (resume (s\<lparr>threads := T\<rparr>) w) = s4" by (simp add: s4_def)
  moreover have "L4 (me s) = L (me s)" "alloc (mutexes s4) = alloc (mutexes s)" "alloc (conds s4) = alloc (conds s)"
    using k by (simp_all add: keeps_def)
  ultimately show ?thesis using me4 by blast
qed

lemma await_ok:
  assumes ok: "mutex_ok s L" and t: "me s \<in> alloc (threads s)" and m: "m \<in> set (L (me s))"
    and c: "c \<noteq> NULL" "conds s c = Some y" "bit (cn_state y) 0" "bit (cn_state y) 1 \<longrightarrow> bit (cn_state y) 2"
    and cl: "fld cleanups (threads s) (me s) = Some cl" and hd: "hd_cond \<noteq> NULL"
    and ws: "only_others (me s) (w # ws)"
  shows "\<exists>s' ws' r L'. pth_cond_await hd_cond vec mem s c m extra (w # ws) = Some (s', ws', r) \<and>
     mutex_ok s' L' \<and> (r = Blocked \<or> r = Return 1 \<and> set (L' (me s)) = set (L (me s)) \<and>
       fld cleanups (threads s') (me s) = Some (if mem then cl else tl cl))"
proof -
  from own_mutex [OF ok t m] obtain x where x: "mutexes s m = Some x" "m \<in> alloc (mutexes s)" by blast
  from split_list [OF m] obtain as bs where L: "L (me s) = as @ m # bs" by blast
  define s1 where "s1 = s\<lparr>conds := (conds s)(c \<mapsto> y\<lparr>cn_waiters := cn_waiters y + 1\<rparr>)\<rparr>"
  have s1: "mutex_ok s1 L" "me s1 = me s" "threads s1 = threads s" "mutexes s1 m = Some x"
    "alloc (conds s1) = alloc (conds s)" using ok x c by (auto simp: s1_def alloc_def)
  from mutex_release_ok [of s1 L m x as bs, unfolded s1(2,3), OF s1(1) t s1(4) L] obtain s2 L2 where
    2: "pth_mutex_release s1 m = Some (s2, Return 1)" "same_rest s1 s2" "mutex_ok s2 L2"
    "mutexes s2 = (mutexes s1)(m \<mapsto> released x)" "insert m (set (L2 (me s))) = set (L (me s))"
    using L by (cases "mx_count x = 1") fastforce+
  have me2: "me s2 = me s" and t2: "me s \<in> alloc (threads s2)" and c2: "conds s2 = conds s1"
    using 2(2) s1 t same_rest_alloc [OF 2(2)] by (simp_all add: same_rest_def)
  have cl2: "fld cleanups (threads s2) (me s2) = Some cl"
    using 2(2) s1(3) cl same_upto_fld [of no_ring "threads s" "threads s2" cleanups] me2 by (simp add: same_rest_def)
  from handler_bracket [OF 2(3) _ cl2 hd, of w mem vec] me2 t2 ws obtain T b s4 T5 b5 L5 where
    b: "pth_cleanup_push mem (threads s2) (me s2) hd_cond vec = Some (T, b)"
    "fst (resume (s2\<lparr>threads := T\<rparr>) w) = s4" "pth_cleanup_pop (\<lambda>f a h. h) (threads s4) (me s4) False = Some (T5, b5)"
    and s5: "mutex_ok (s4\<lparr>threads := T5\<rparr>) L5" "L5 (me s) = L2 (me s)" "me s4 = me s" "me s \<in> alloc T5"
    "alloc (mutexes s4) = alloc (mutexes s2)" "alloc (conds s4) = alloc (conds s2)"
    "fld cleanups T5 (me s) = Some (if mem then cl else tl cl)" by (auto simp: only_others_def)
  have "m \<in> alloc (mutexes s4)" "only_others (me s4) ws"
    using s5(3,5) 2(4) x ws alloc_not_NULL [OF x(2)] by (auto simp: alloc_def only_others_def)
  with acquire_ok [OF s5(1), of m ws False False] s5 obtain s6 ws6 r L6 where
    6: "pth_mutex_acquire (s4\<lparr>threads := T5\<rparr>) m False False ws = Some (s6, ws6, r)" "mutex_ok s6 L6"
    "alloc (conds s6) = alloc (conds s4)" "map_option no_ring (threads s6 (me s)) = map_option no_ring (T5 (me s))"
    "r = Return 1 \<and> set (L6 (me s)) = set (L (me s)) \<or> r = Blocked"
    using 2(5) by auto
  have "c \<in> alloc (conds s6)" using 6(3) s5(6) c2 s1(5) c by (simp add: alloc_def)
  then obtain y6 where y6: "conds s6 c = Some y6" by (auto simp: alloc_def)
  have "fld cleanups (threads s6) (me s) = Some (if mem then cl else tl cl)"
    using s5(7) no_ring_cleanups [OF 6(4)] by (simp add: fld_def split: if_splits)
  moreover have "pth_cond_await hd_cond vec mem s c m extra (w # ws) =
      (if r = Blocked then Some (s6, ws6, Blocked)
       else Some (s6\<lparr>conds := (conds s6)(c \<mapsto> y6\<lparr>cn_waiters := cn_waiters y6 - 1\<rparr>)\<rparr>, ws6, Return 1))"
    using c alloc_not_NULL [OF x(2)] set_waiters_eq [OF c(2,1)] set_waiters_eq [OF y6 c(1)] 2(1) b 6(1)
    by (auto simp: pth_cond_await_def fld_def flag_simps s1_def [symmetric])
  ultimately show ?thesis using 6(2,5) by auto
qed

section \<open>Barriers\<close>

text \<open>A thread leaves the waiting loop with a value only after the cycle has changed, and that
  value is the one of the last \<open>pth_cond_await\<close>.\<close>

lemma barrier_loop_cycle:
  assumes "barrier_loop await b cycle s ws rv = Some p"
  shows "\<forall>v. snd (snd p) = Return v \<longrightarrow> fld br_cycle (barriers (fst p)) b = Some (\<not> cycle)"
  using assms
  by (rule barrier_loop.raw_induct [rotated, where P = "\<lambda>await b cycle s ws rv p.
        \<forall>v. snd (snd p) = Return v \<longrightarrow> fld br_cycle (barriers (fst p)) b = Some (\<not> cycle)"])
    (auto split: bind_splits if_splits outcome.splits)

definition returns_1 :: "(sync \<Rightarrow> waits \<Rightarrow> (sync \<times> waits \<times> outcome) option) \<Rightarrow> bool" where
  "returns_1 await \<longleftrightarrow> (\<forall>s ws s' ws' v. await s ws = Some (s', ws', Return v) \<longrightarrow> v = 1)"

lemma barrier_loop_value:
  assumes "barrier_loop await b cycle s ws rv = Some p"
  shows "returns_1 await \<and> (rv = Return 1 \<or> fld br_cycle (barriers s) b = Some cycle) \<longrightarrow>
     (\<forall>v. snd (snd p) = Return v \<longrightarrow> v = 1)"
proof (rule barrier_loop.raw_induct [where P = "\<lambda>await b cycle s ws rv p.
    returns_1 await \<and> (rv = Return 1 \<or> fld br_cycle (barriers s) b = Some cycle) \<longrightarrow>
    (\<forall>v. snd (snd p) = Return v \<longrightarrow> v = 1)", OF _ assms], intro impI allI)
  fix rec await b cycle s ws rv v and p :: "sync \<times> waits \<times> outcome"
  assume IH: "\<And>await b cycle s ws rv p. rec await b cycle s ws rv = Some p \<Longrightarrow>
      returns_1 await \<and> (rv = Return 1 \<or> fld br_cycle (barriers s) b = Some cycle) \<longrightarrow>
      (\<forall>v. snd (snd p) = Return v \<longrightarrow> v = 1)"
    and body: "do {
       now \<leftarrow> fld br_cycle (barriers s) b;
       if now \<noteq> cycle then Some (s, ws, rv)
       else do {
         (s, ws, rv) \<leftarrow> await s ws;
         (case rv of Return _ \<Rightarrow> rec await b cycle s ws rv | _ \<Rightarrow> Some (s, ws, rv))
       }
     } = Some p"
    and pre: "returns_1 await \<and> (rv = Return 1 \<or> fld br_cycle (barriers s) b = Some cycle)"
    and v: "snd (snd p) = Return v"
  from body obtain now where now: "fld br_cycle (barriers s) b = Some now" by (auto split: bind_splits)
  show "v = 1"
  proof (cases "now = cycle")
    case False
    with body pre now v show ?thesis by auto
  next
    case True
    with body now obtain s1 ws1 rv1 where a: "await s ws = Some (s1, ws1, rv1)"
      by (auto split: bind_splits)
    show ?thesis
    proof (cases rv1)
      case (Return u)
      then have "u = 1" using a pre by (auto simp: returns_1_def)
      moreover have "rec await b cycle s1 ws1 (Return u) = Some p" using body now True a Return by simp
      ultimately show ?thesis using IH pre v by blast
    qed (use body v now True a in auto)
  qed
qed

lemma await_value:
  assumes "pth_cond_await hd_cond vec mem s c m extra ws = Some (s', ws', Return v)"
  shows "v = 1"
  using assms by (auto simp: pth_cond_await_def Let_def split: if_splits bind_splits list.splits)

lemma cancel_state_threads:
  "pth_cancel_state T t n = Some (T', old) \<Longrightarrow> alloc T' = alloc T"
  by (auto simp: pth_cancel_state_def mem_simps setf_def split: bind_splits if_splits)

lemma release_barriers: "pth_mutex_release s m = Some (s', r) \<Longrightarrow> barriers s' = barriers s"
  by (auto simp: pth_mutex_release_def split: if_splits bind_splits)

lemma barrier_reach_value:
  assumes r: "pth_barrier_reach hd_cond vec mem s b ws = Some (s', ws', Return v)"
    and m: "fld br_mutex (barriers s) b = Some m"
    and a: "pth_mutex_acquire s m False False ws = Some (s1, ws1, Return 1)"
    and cy: "fld br_cycle (barriers s1) b = Some cyc" and n: "fld br_count (barriers s1) b = Some n"
  shows "if n = 1 then v = PTH_BARRIER_TAILLIGHT
         else v = 1 \<and> fld br_cycle (barriers s') b = Some (\<not> cyc)"
proof -
  have b0: "b \<noteq> NULL" using fld_Some_alloc [OF m] by (rule alloc_not_NULL)
  have ab: "b \<in> alloc (barriers s1)" using cy by (rule fld_Some_alloc)
  obtain c where c: "fld br_cond (barriers s) b = Some c"
    using fld_Some_alloc [OF m] alloc_fld [of b "barriers s" br_cond] by blast
  obtain th where th: "fld br_threshold (barriers s1) b = Some th"
    using alloc_fld [OF ab, of br_threshold] by blast
  let ?B = "hset br_count_update (barriers s1) b (n - 1)"
  let ?await = "\<lambda>s ws. pth_cond_await hd_cond vec mem s c m False ws"
  show ?thesis
  proof (cases "n = 1")
    case True
    with r a m c cy n th ab b0 show ?thesis
      by (auto simp: pth_barrier_reach_def mem_simps split: if_splits bind_splits outcome.splits)
  next
    case False
    with r a m c cy n th ab b0 obtain T s2 ws2 T2 rr where
      l: "barrier_loop ?await b cyc (s1\<lparr>barriers := ?B, threads := T\<rparr>) ws1
            (Return (if th = n - 1 then PTH_BARRIER_HEADLIGHT else 1)) = Some (s2, ws2, Return v)"
      and s3: "pth_mutex_release (s2\<lparr>threads := T2\<rparr>) m = Some (s', rr)"
      by (auto simp: pth_barrier_reach_def mem_simps split: if_splits bind_splits outcome.splits)
    have "returns_1 ?await" using await_value by (auto simp: returns_1_def)
    moreover have "fld br_cycle ?B b = Some cyc" using cy by (simp add: fld_hset_other)
    ultimately have "v = 1" using barrier_loop_value [OF l] by simp
    with False barrier_loop_cycle [OF l] release_barriers [OF s3] show ?thesis by simp
  qed
qed

text \<open>The last thread at a barrier starts a new cycle, wakes the waiting threads and is told so.\<close>

lemma barrier_last:
  assumes ok: "mutex_ok s L" and t: "me s \<in> alloc (threads s)"
    and b: "b \<noteq> NULL" "barriers s b = Some z" "bit (br_state z) 0" "br_count z = 1"
    and m: "br_mutex z \<in> alloc (mutexes s)" "\<not> bit (mx_state (the (mutexes s (br_mutex z)))) 1"
    and c: "br_cond z \<noteq> NULL" "conds s (br_cond z) = Some y" "bit (cn_state y) 0"
    and ws: "only_others (me s) (w # ws)"
  shows "\<exists>s2 s' L'. barriers s2 = (barriers s)(b \<mapsto> z\<lparr>br_cycle := \<not> br_cycle z, br_count := br_threshold z\<rparr>) \<and>
     (0 < cn_waiters y \<longrightarrow> (\<exists>st. fld cn_state (conds s2) (br_cond z) = Some st \<and> bit st 1 \<and> bit st 2)) \<and>
     pth_barrier_reach hd_cond vec mem s b (w # ws) =
       Some (s', if 0 < cn_waiters y then ws else w # ws, Return PTH_BARRIER_TAILLIGHT) \<and>
     barriers s' = barriers (if 0 < cn_waiters y then fst (resume s2 w) else s2) \<and>
     mutex_ok s' L' \<and> L' (me s) = L (me s)"
proof -
  let ?m = "br_mutex z" and ?c = "br_cond z"
  let ?z = "z\<lparr>br_cycle := \<not> br_cycle z, br_count := br_threshold z\<rparr>"
  have m0: "?m \<noteq> NULL" using m(1) by (rule alloc_not_NULL)
  from unlocked_acquire [OF ok t m, of False False "w # ws"] obtain s1 x1 where
    1: "pth_mutex_acquire s ?m False False (w # ws) = Some (s1, w # ws, Return 1)"
    "mutexes s1 = (mutexes s)(?m \<mapsto> x1)" "same_rest s s1" "mutex_ok s1 (L(me s := L (me s) @ [?m]))"
    "mx_count x1 = 1" "me s1 \<in> alloc (threads s1)" by blast
  have s1: "me s1 = me s" "barriers s1 = barriers s" "conds s1 = conds s" using 1(3) by (simp_all add: same_rest_def)
  define st where "st = and (or (or (cn_state y) PTH_COND_SIGNALED) PTH_COND_BROADCAST) (not PTH_COND_HANDLED)"
  define s2 where "s2 = (if 0 < cn_waiters y
      then s1\<lparr>barriers := (barriers s)(b \<mapsto> ?z), conds := (conds s)(?c \<mapsto> y\<lparr>cn_state := st\<rparr>)\<rparr>
      else s1\<lparr>barriers := (barriers s)(b \<mapsto> ?z)\<rparr>)"
  have s2: "mutex_ok s2 (L(me s := L (me s) @ [?m]))" "me s2 = me s" "barriers s2 = (barriers s)(b \<mapsto> ?z)"
    "mutexes s2 = mutexes s1" "me s2 \<in> alloc (threads s2)" using 1(4,6) s1 by (auto simp: s2_def)
  define s3 where "s3 = (if 0 < cn_waiters y then fst (resume s2 w) else s2)"
  have "others (me s2) s2 s3" using ws s2(2) by (auto simp: s3_def only_others_def intro: others.none)
  from others_keeps [OF this s2(1,5) refl] obtain L3 where
    k: "keeps (me s) (L(me s := L (me s) @ [?m])) s2 L3 s3" using s2(2) by auto
  then have s3: "mutex_ok s3 L3" "me s3 \<in> alloc (threads s3)" "L3 (me s3) = L (me s) @ [?m]"
    "mutexes s3 ?m = Some x1" "me s3 = me s" using s2(2,4,5) 1(2) by (auto simp: keeps_def)
  from own_release [OF s3(1-4) 1(5)] obtain s' where
    r: "pth_mutex_release s3 ?m = Some (s', Return 1)" "same_rest s3 s'" "mutex_ok s' (L3(me s3 := L (me s)))" by blast
  have nt: "pth_cond_notify (s1\<lparr>barriers := (barriers s)(b \<mapsto> ?z)\<rparr>) ?c True (w # ws) =
      Some (s3, if 0 < cn_waiters y then ws else w # ws, Return 1)"
    using c s1 by (simp add: pth_cond_notify_def s3_def s2_def st_def fld_def setf_def hset_def flag_simps)
  have "hset br_count_update (hset br_cycle_update (hset br_count_update (barriers s) b 0) b (\<not> br_cycle z)) b
      (br_threshold z) = (barriers s)(b \<mapsto> ?z)" using b by (simp add: hset_def)
  then have "pth_barrier_reach hd_cond vec mem s b (w # ws) =
      Some (s', if 0 < cn_waiters y then ws else w # ws, Return PTH_BARRIER_TAILLIGHT)"
    using b 1(1) s1 nt r(1) by (simp add: pth_barrier_reach_def fld_def setf_def hset_def flag_simps)
  moreover have "barriers s' = barriers s3" using r(2) by (simp add: same_rest_def)
  moreover have "(L3(me s3 := L (me s))) (me s) = L (me s)" using s3(5) by simp
  moreover have "0 < cn_waiters y \<longrightarrow> (\<exists>st. fld cn_state (conds s2) ?c = Some st \<and> bit st 1 \<and> bit st 2)"
    using c by (simp add: s2_def fld_def st_def flag_simps)
  ultimately show ?thesis using s2(3) r(3) unfolding s3_def by blast
qed

section \<open>An example state\<close>

text \<open>Thread 2 holds the mutexes 5 and 6, thread 3 holds 7, and 8 and 9 are free. The read-write
  lock 11 is held by one reader, its mutexes are 8 and 7; one thread waits at the barrier 13.\<close>

definition mx_held :: "ptr \<Rightarrow> pth_mutex" where
  "mx_held t = \<lparr>mx_state = or (BIT 0) (BIT 1), mx_owner = t, mx_count = 1\<rparr>"

definition mx_free :: pth_mutex where
  "mx_free = \<lparr>mx_state = BIT 0, mx_owner = NULL, mx_count = 0\<rparr>"

definition tcb_ring :: "ptr \<Rightarrow> 32 word \<Rightarrow> pth_st" where
  "tcb_ring hook n = (tcb_link 0 0 0)\<lparr>mutexring := \<lparr>r_hook = hook, r_nodes = n\<rparr>\<rparr>"

definition node_at :: "ptr \<Rightarrow> pth_ringnode" where
  "node_at p = \<lparr>rn_next = p, rn_prev = p\<rparr>"

definition sync_ex :: sync where
  "sync_ex =
    \<lparr>threads = [2 \<mapsto> tcb_ring 5 2, 3 \<mapsto> tcb_ring 7 1],
     nodes = [5 \<mapsto> node_at 6, 6 \<mapsto> node_at 5, 7 \<mapsto> node_at 7, 8 \<mapsto> node_at 0, 9 \<mapsto> node_at 0],
     mutexes = [5 \<mapsto> mx_held 2, 6 \<mapsto> mx_held 2, 7 \<mapsto> mx_held 3, 8 \<mapsto> mx_free, 9 \<mapsto> mx_free],
     rwlocks = [11 \<mapsto> \<lparr>rw_state = BIT 0, rw_mode = PTH_RWLOCK_RD, rw_readers = 1, rw_mutex_rd = 8, rw_mutex_rw = 7\<rparr>],
     conds = [12 \<mapsto> \<lparr>cn_state = BIT 0, cn_waiters = 1\<rparr>],
     barriers = [13 \<mapsto> \<lparr>br_state = BIT 0, br_threshold = 2, br_count = 1, br_cycle = False, br_cond = 12, br_mutex = 9\<rparr>],
     me = 2\<rparr>"

definition owned_ex :: "ptr \<Rightarrow> ptr list" where
  "owned_ex = (\<lambda>_. [])(2 := [5, 6], 3 := [7])"

lemma sync_ex_ok: "mutex_ok sync_ex owned_ex" "me sync_ex = 2" "2 \<in> alloc (threads sync_ex)"
proof -
  have "alloc (threads sync_ex) = {2, 3}" by (auto simp: alloc_def sync_ex_def split: if_splits)
  moreover have "ring_of sync_ex 2 (owned_ex 2)" "ring_of sync_ex 3 (owned_ex 3)"
    by (auto simp: ring_of_def sync_ex_def owned_ex_def fld_def tcb_ring_def ring_rep_def cdll_def node_at_def
        mx_held_def mx_free_def)
  moreover have "alloc (mutexes sync_ex) = {5, 6, 7, 8, 9}" "alloc (nodes sync_ex) = {5, 6, 7, 8, 9}"
    by (auto simp: alloc_def sync_ex_def split: if_splits)
  moreover have "\<forall>m \<in> {5, 6, 7, 8, 9}. mutex_good sync_ex (the (mutexes sync_ex m))"
    by (auto simp: mutex_good_def sync_ex_def alloc_def mx_held_def mx_free_def flag_simps)
  ultimately show "mutex_ok sync_ex owned_ex" by (simp add: mutex_ok_def)
qed (auto simp: sync_ex_def alloc_def)

text \<open>While thread 2 waits, thread 3 gives back mutex 7.\<close>

definition three_releases :: "sync \<Rightarrow> sync \<times> bool" where
  "three_releases s =
     (if threads s 3 \<noteq> None \<and> mutexes s 7 \<noteq> None
      then (case pth_mutex_release (s\<lparr>me := 3\<rparr>) 7 of Some (s', _) \<Rightarrow> (s', True) | None \<Rightarrow> (s, True))
      else (s, True))"

lemma three_releases_ok: "only_others 2 [three_releases]"
proof -
  have "others 2 s (fst (resume s three_releases))" if me: "me s = 2" for s
  proof -
    have e: "s\<lparr>me := 2\<rparr> = s" using me by simp
    have n: "others 2 s (s\<lparr>me := 2\<rparr>)" unfolding e by (rule others.none)
    show ?thesis
    proof (cases "threads s 3 \<noteq> None \<and> mutexes s 7 \<noteq> None")
    case True
    then have al: "3 \<in> alloc (threads s)" "7 \<in> alloc (mutexes s)" by (auto simp: alloc_def)
    show ?thesis
    proof (cases "pth_mutex_release (s\<lparr>me := 3\<rparr>) 7")
      case None
      then show ?thesis using True me n by (simp add: resume_def three_releases_def)
    next
      case (Some p)
      then obtain s' r where p: "pth_mutex_release (s\<lparr>me := 3\<rparr>) 7 = Some (s', r)" by (cases p) auto
      have "others 2 s (s'\<lparr>me := 2\<rparr>)" by (rule others.release [OF others.none al(1) _ al(2) p]) simp
      then show ?thesis using True p me by (simp add: resume_def three_releases_def)
    qed
  qed (use me n in \<open>auto simp: resume_def three_releases_def\<close>)
  qed
  then show ?thesis by (simp add: only_others_def)
qed

section \<open>Properties\<close>

text \<open>C8: Acquiring a mutex, whatever mutex operations other threads perform during the wait, never
  reaches invalid memory and keeps the invariant that the ring of each thread links exactly the
  mutexes it owns. If it succeeds, the calling thread owns the mutex and no other thread does;
  otherwise the mutexes of the caller are as before, and the reason is that it still waits, that
  it only tried (\<open>EBUSY\<close>), or that the extra event ended the wait (\<open>EINTR\<close>).\<close>

theorem acquire_excludes:
  assumes "mutex_ok s L" and "me s \<in> alloc (threads s)" and "m \<in> alloc (mutexes s)"
    and "only_others (me s) ws"
  shows "\<exists>s' ws' r L'. pth_mutex_acquire s m tryonly extra ws = Some (s', ws', r) \<and> mutex_ok s' L' \<and>
     (r = Return 1 \<and> set (L' (me s)) = insert m (set (L (me s))) \<and>
        (\<forall>u \<in> alloc (threads s'). m \<in> set (L' u) \<longrightarrow> u = me s) \<or>
      (r = Blocked \<or> tryonly \<and> r = Fail EBUSY \<or> extra \<and> r = Fail EINTR) \<and> L' (me s) = L (me s))"
proof -
  from acquire_ok [OF assms, of tryonly extra] obtain s' ws' r L' where
    a: "pth_mutex_acquire s m tryonly extra ws = Some (s', ws', r)" "mutex_ok s' L'"
    "alloc (threads s') = alloc (threads s)"
    "r = Return 1 \<and> set (L' (me s)) = insert m (set (L (me s))) \<or>
      (r = Blocked \<or> tryonly \<and> r = Fail EBUSY \<or> extra \<and> r = Fail EINTR) \<and> L' (me s) = L (me s)" by blast
  have "u = me s" if "u \<in> alloc (threads s')" "m \<in> set (L' u)" "m \<in> set (L' (me s))" for u
    using own_disjoint [OF a(2), of "me s" u m] assms(2) a(3) that by auto
  with a show ?thesis by blast
qed

theorem acquire_excludes_witness:
  "\<exists>s' ws' r L'. pth_mutex_acquire sync_ex 7 False False [three_releases] = Some (s', ws', r) \<and> mutex_ok s' L' \<and>
     (r = Return 1 \<and> set (L' 2) = {7, 5, 6} \<and> (\<forall>u \<in> alloc (threads s'). 7 \<in> set (L' u) \<longrightarrow> u = 2) \<or>
      r = Blocked \<and> L' 2 = [5, 6])"
proof -
  have "7 \<in> alloc (mutexes sync_ex)" by (simp add: alloc_def sync_ex_def)
  from acquire_excludes [of sync_ex owned_ex, unfolded sync_ex_ok(2), OF sync_ex_ok(1,3) this three_releases_ok,
      of False False] show ?thesis by (simp add: owned_ex_def)
qed

text \<open>C9: Mutexes are reentrant and balanced: a thread that acquires any free or own mutexes, each
  any number of times below the width of the counter, and releases each as often, in any order,
  succeeds with every call and ends holding each mutex as often as before.\<close>

theorem nested_locks_balance:
  assumes "lock_inv s" and "\<And>m. m \<in> set ms \<Longrightarrow> lock_avail s m"
    and "\<And>m. m \<in> set ms \<Longrightarrow> lock_depth s m + count_list ms m \<le> 2 ^ 64 - 1" and "mset ms' = mset ms"
  shows "\<exists>s1 s2. foldM try_acquire s ms = Some s1 \<and> (\<forall>m. lock_depth s1 m = lock_depth s m + count_list ms m) \<and>
     foldM do_release s1 ms' = Some s2 \<and> lock_inv s2 \<and> lock_depth s2 = lock_depth s"
  using assms by (rule mx.balanced)

theorem nested_locks_balance_witness:
  "\<exists>s1 s2. foldM try_acquire sync_ex [8, 5, 8] = Some s1 \<and> lock_depth s1 8 = 2 \<and>
     foldM do_release s1 [5, 8, 8] = Some s2 \<and> lock_depth s2 = lock_depth sync_ex"
proof -
  have "lock_inv sync_ex" using sync_ex_ok
    by (auto simp: lock_inv_def sync_ex_def fld_def mx_held_def mx_free_def split: if_splits)
  moreover have "\<And>m. m \<in> set [8, 5, 8] \<Longrightarrow> lock_avail sync_ex m"
    by (auto simp: lock_avail_def sync_ex_def fld_def mx_held_def mx_free_def)
  moreover have "\<And>m. m \<in> set [8, 5, 8] \<Longrightarrow> lock_depth sync_ex m + count_list [8, 5, 8] m \<le> 2 ^ 64 - 1"
    by (auto simp: lock_depth_def sync_ex_def fld_def mx_held_def mx_free_def)
  moreover have "mset [5, 8, 8] = mset [8, 5, 8 :: ptr]" by simp
  moreover have "lock_depth sync_ex 8 = 0" by (simp add: lock_depth_def sync_ex_def fld_def mx_free_def)
  ultimately show ?thesis using nested_locks_balance [of sync_ex "[8, 5, 8]" "[5, 8, 8]"] by auto
qed

text \<open>\<open>pth_mutex_releaseall\<close> does not release all mutexes of a thread. Called by the thread
  itself, as at its exit, it stops after the first mutex when that is held once; the others stay
  locked by the dying thread. Called for another thread, as by \<open>pth_cancel\<close>, it releases none.\<close>

theorem releaseall_incomplete:
  assumes "mutex_ok s L" and "me s \<in> alloc (threads s)"
  shows "(\<forall>m ms. L (me s) = m # ms \<and> fld mx_count (mutexes s) m = Some 1 \<longrightarrow>
       (\<exists>s'. pth_mutex_releaseall s (me s) = Some s' \<and> mutex_ok s' (L(me s := ms)) \<and>
          (\<forall>m' \<in> set ms. mutexes s' m' = mutexes s m'))) \<and>
     (\<forall>u \<in> alloc (threads s). u \<noteq> me s \<longrightarrow> pth_mutex_releaseall s u = Some s)"
  using releaseall_own [OF assms] releaseall_foreign [OF assms] by blast

theorem releaseall_incomplete_witness:
  "(\<exists>s'. pth_mutex_releaseall sync_ex 2 = Some s' \<and> mutex_ok s' (owned_ex(2 := [6])) \<and> mutexes s' 6 = Some (mx_held 2)) \<and>
   pth_mutex_releaseall sync_ex 3 = Some sync_ex"
  using releaseall_incomplete [of sync_ex owned_ex, unfolded sync_ex_ok(2), OF sync_ex_ok(1,3)]
  by (auto simp: owned_ex_def sync_ex_def fld_def mx_held_def alloc_def)

text \<open>C39: A read-write lock taken by several readers is stuck when the reader that took it first is
  not the last to release it: \<open>pth_rwlock_release\<close> by the last reader fails with \<open>EACCES\<close>, since
  the mutex against writers belongs to the first reader. The reader count stays 1 and the mutex
  stays locked.\<close>

theorem rwlock_last_reader_stuck:
  assumes "mutex_ok s L" and "me s \<in> alloc (threads s)" and "rw_lock s l x"
    and "rw_mode x = PTH_RWLOCK_RD" "rw_readers x = 1"
    and "\<not> bit (mx_state (the (mutexes s (rw_mutex_rd x)))) 1"
    and "u \<noteq> me s" "u \<in> alloc (threads s)" "rw_mutex_rw x \<in> set (L u)"
  shows "\<exists>s'. pth_rwlock_release s l ws = Some (s', ws, Fail EACCES) \<and> rwlocks s' = rwlocks s \<and>
     mutex_ok s' L \<and> mutexes s' (rw_mutex_rw x) = mutexes s (rw_mutex_rw x)"
  using assms by (rule rwlock_stuck)

theorem rwlock_last_reader_stuck_witness:
  "\<exists>s'. pth_rwlock_release sync_ex 11 [] = Some (s', [], Fail EACCES) \<and> rwlocks s' = rwlocks sync_ex \<and>
     mutexes s' 7 = Some (mx_held 3)"
proof -
  let ?x = "the (rwlocks sync_ex 11)"
  have "me sync_ex \<in> alloc (threads sync_ex)" using sync_ex_ok by simp
  moreover have "rw_lock sync_ex 11 ?x" "rw_mode ?x = PTH_RWLOCK_RD" "rw_readers ?x = 1"
    "\<not> bit (mx_state (the (mutexes sync_ex (rw_mutex_rd ?x)))) 1"
    "3 \<noteq> me sync_ex" "3 \<in> alloc (threads sync_ex)" "rw_mutex_rw ?x \<in> set (owned_ex 3)" "rw_mutex_rw ?x = 7"
    by (auto simp: rw_lock_def sync_ex_def alloc_def flag_simps mx_free_def owned_ex_def)
  ultimately show ?thesis
    using rwlock_last_reader_stuck [of sync_ex owned_ex 11 ?x 3 "[]"] sync_ex_ok(1)
    by (auto simp: sync_ex_def)
qed

text \<open>A thread that waits for a condition with a mutex it holds, while other threads do what they
  like with the mutexes, either still waits or returns holding the same mutexes as before. Its
  cleanup handlers are the same too, unless there was no memory to push the internal handler: then
  the unconditional pop removes a handler of the caller.\<close>

theorem await_keeps_lock:
  assumes "mutex_ok s L" and "me s \<in> alloc (threads s)" and "m \<in> set (L (me s))"
    and "c \<noteq> NULL" "conds s c = Some y" "bit (cn_state y) 0" "bit (cn_state y) 1 \<longrightarrow> bit (cn_state y) 2"
    and "fld cleanups (threads s) (me s) = Some cl" and "hd_cond \<noteq> NULL"
    and "only_others (me s) (w # ws)"
  shows "\<exists>s' ws' r L'. pth_cond_await hd_cond vec mem s c m extra (w # ws) = Some (s', ws', r) \<and>
     mutex_ok s' L' \<and> (r = Blocked \<or> r = Return 1 \<and> set (L' (me s)) = set (L (me s)) \<and>
       fld cleanups (threads s') (me s) = Some (if mem then cl else tl cl))"
  using assms by (rule await_ok)

theorem await_keeps_lock_witness:
  "\<exists>s' ws' r L'. pth_cond_await 20 21 True sync_ex 12 5 False [three_releases] = Some (s', ws', r) \<and>
     mutex_ok s' L' \<and> (r = Blocked \<or> r = Return 1 \<and> set (L' 2) = {5, 6} \<and> fld cleanups (threads s') 2 = Some [])"
proof -
  have "5 \<in> set (owned_ex 2)" by (simp add: owned_ex_def)
  moreover have "conds sync_ex 12 = Some \<lparr>cn_state = BIT 0, cn_waiters = 1\<rparr>" by (simp add: sync_ex_def)
  moreover have "fld cleanups (threads sync_ex) 2 = Some []" by (simp add: sync_ex_def fld_def tcb_ring_def tcb_link_def)
  ultimately show ?thesis
    using await_keeps_lock [of sync_ex owned_ex 5 12 "\<lparr>cn_state = BIT 0, cn_waiters = 1\<rparr>" "[]" 20 three_releases "[]" 21 True False]
      sync_ex_ok three_releases_ok by (simp add: flag_simps owned_ex_def)
qed

text \<open>The last thread to reach a barrier resets the count to the threshold, turns the cycle, sets
  the condition to broadcast when threads wait, gives back the mutex and returns
  \<open>PTH_BARRIER_TAILLIGHT\<close>.\<close>

theorem barrier_last_arrives:
  assumes "mutex_ok s L" and "me s \<in> alloc (threads s)"
    and "b \<noteq> NULL" "barriers s b = Some z" "bit (br_state z) 0" "br_count z = 1"
    and "br_mutex z \<in> alloc (mutexes s)" "\<not> bit (mx_state (the (mutexes s (br_mutex z)))) 1"
    and "br_cond z \<noteq> NULL" "conds s (br_cond z) = Some y" "bit (cn_state y) 0"
    and "only_others (me s) (w # ws)"
  shows "\<exists>s2 s' L'. barriers s2 = (barriers s)(b \<mapsto> z\<lparr>br_cycle := \<not> br_cycle z, br_count := br_threshold z\<rparr>) \<and>
     (0 < cn_waiters y \<longrightarrow> (\<exists>st. fld cn_state (conds s2) (br_cond z) = Some st \<and> bit st 1 \<and> bit st 2)) \<and>
     pth_barrier_reach hd_cond vec mem s b (w # ws) =
       Some (s', if 0 < cn_waiters y then ws else w # ws, Return PTH_BARRIER_TAILLIGHT) \<and>
     barriers s' = barriers (if 0 < cn_waiters y then fst (resume s2 w) else s2) \<and>
     mutex_ok s' L' \<and> L' (me s) = L (me s)"
  using assms by (rule barrier_last)

theorem barrier_last_arrives_witness:
  "\<exists>s' L'. pth_barrier_reach 20 21 True sync_ex 13 [three_releases] = Some (s', [], Return PTH_BARRIER_TAILLIGHT) \<and>
     mutex_ok s' L' \<and> L' 2 = [5, 6]"
proof -
  let ?z = "the (barriers sync_ex 13)" and ?y = "\<lparr>cn_state = BIT 0, cn_waiters = 1\<rparr>"
  have "barriers sync_ex 13 = Some ?z" "bit (br_state ?z) 0" "br_count ?z = 1" "br_mutex ?z \<in> alloc (mutexes sync_ex)"
    "\<not> bit (mx_state (the (mutexes sync_ex (br_mutex ?z)))) 1" "br_cond ?z = 12"
    "conds sync_ex 12 = Some ?y"
    by (auto simp: sync_ex_def alloc_def flag_simps mx_free_def)
  then show ?thesis
    using barrier_last_arrives [of sync_ex owned_ex 13 ?z ?y three_releases "[]" 20 21 True]
      sync_ex_ok three_releases_ok by (auto simp: flag_simps owned_ex_def)
qed

text \<open>A thread that reaches a barrier before the last one returns only after the cycle of the
  barrier has turned, and the value it returns is \<open>TRUE\<close>; so no thread ever gets
  \<open>PTH_BARRIER_HEADLIGHT\<close>, which the library documents for the first one.\<close>

theorem barrier_leaves_after_cycle:
  assumes "pth_barrier_reach hd_cond vec mem s b ws = Some (s', ws', Return v)"
    and "fld br_mutex (barriers s) b = Some m"
    and "pth_mutex_acquire s m False False ws = Some (s1, ws1, Return 1)"
    and "fld br_cycle (barriers s1) b = Some cyc" and "fld br_count (barriers s1) b = Some n"
  shows "if n = 1 then v = PTH_BARRIER_TAILLIGHT
         else v = 1 \<and> fld br_cycle (barriers s') b = Some (\<not> cyc)"
  using assms by (rule barrier_reach_value)

text \<open>Thread 3 turns the cycle of barrier 13 while thread 2 waits there.\<close>

definition barrier_ex :: sync where
  "barrier_ex = sync_ex\<lparr>barriers := hset br_count_update (barriers sync_ex) 13 2\<rparr>"

definition three_turns :: "sync \<Rightarrow> sync \<times> bool" where
  "three_turns s = (s\<lparr>barriers := hset br_cycle_update (barriers s) 13 True\<rparr>, True)"

lemma barrier_ex_run:
  "case pth_barrier_reach 20 21 True barrier_ex 13 [three_turns] of Some (_, _, Return _) \<Rightarrow> True | _ \<Rightarrow> False"
  "case pth_mutex_acquire barrier_ex 9 False False [three_turns] of
     Some (s1, _, Return v) \<Rightarrow> v = 1 \<and> fld br_cycle (barriers s1) 13 = Some False \<and> fld br_count (barriers s1) 13 = Some 2
   | _ \<Rightarrow> False"
  by code_simp+

theorem barrier_leaves_after_cycle_witness:
  "\<exists>s' ws'. pth_barrier_reach 20 21 True barrier_ex 13 [three_turns] = Some (s', ws', Return 1) \<and>
     fld br_cycle (barriers s') 13 = Some True"
proof -
  from barrier_ex_run(1) obtain s' ws' v where
    r: "pth_barrier_reach 20 21 True barrier_ex 13 [three_turns] = Some (s', ws', Return v)"
    by (auto split: option.splits outcome.splits) (metis outcome.exhaust)
  from barrier_ex_run(2) obtain s1 ws1 where
    a: "pth_mutex_acquire barrier_ex 9 False False [three_turns] = Some (s1, ws1, Return 1)"
    "fld br_cycle (barriers s1) 13 = Some False" "fld br_count (barriers s1) 13 = Some 2"
    by (auto split: option.splits outcome.splits) (metis outcome.exhaust)
  have "fld br_mutex (barriers barrier_ex) 13 = Some 9" by (simp add: barrier_ex_def sync_ex_def fld_def hset_def)
  from barrier_leaves_after_cycle [OF r this a] r show ?thesis by simp
qed

end
