(* ===== verification/Crypto_Dev.thy ===== *)
theory Crypto_Dev
  imports Prelude
begin

unbundle bit_operations_syntax

text \<open>
  The character device of a2/fops.c and a2/ioctl.h. A device buffer is a ring buffer of 8192
  bytes that file descriptors attach to; bytes are encrypted or decrypted by xor with the byte
  before them when they are written or read.

  The kernel list of buffers is a list, newest first, and a pointer to one of its entries is a
  position in it. Unsigned fields and \<open>size_t\<close> values are integers reduced modulo \<open>2 ^ 32\<close> and
  \<open>2 ^ 64\<close>. An access outside an array makes the result \<open>None\<close>. \<open>vmalloc\<close>, the success of
  \<open>kzalloc\<close> and of the copies from and to user space are arguments. Log messages and the use
  counter of the module are left out.
\<close>

section \<open>Data\<close>

type_synonym byte = "8 word"

abbreviation BUF_SIZE :: int where "BUF_SIZE \<equiv> 8192"

definition u32 :: "int \<Rightarrow> int" where "u32 x = x mod 2 ^ 32"
definition u64 :: "int \<Rightarrow> int" where "u64 x = x mod 2 ^ 64"

datatype crypto_direction = CRYPTO_READ | CRYPTO_WRITE

datatype crypto_encmode = CRYPTO_ENC | CRYPTO_DEC | CRYPTO_PASSTHROUGH

record crypto_smode =
  dir :: crypto_direction
  emode :: crypto_encmode
  key :: byte

record dev_buf =
  buf_ident :: int
  refcount :: int
  readoff :: int
  writeoff :: int
  bcount :: int
  buf :: "byte list"
  read_ref :: bool
  write_ref :: bool
  enc_last :: int
  dec_last :: int

record priv_data =
  buf_id :: int
  readsmode :: crypto_smode
  writesmode :: crypto_smode

text \<open>A \<open>struct file\<close>: the access mode and the private data of the driver.\<close>

record crypto_file =
  fmode_read :: bool
  fmode_write :: bool
  private_data :: "priv_data option"

record crypto_dev =
  new_id :: int
  detached_ids :: "int list"
  dev_bufs :: "dev_buf list"

section \<open>Arrays\<close>

definition rd :: "byte list \<Rightarrow> int \<Rightarrow> byte option" where
  "rd xs i = (if 0 \<le> i \<and> i < int (length xs) then Some (xs ! nat i) else None)"

definition wr :: "byte list \<Rightarrow> int \<Rightarrow> byte \<Rightarrow> byte list option" where
  "wr xs i v = (if 0 \<le> i \<and> i < int (length xs) then Some (xs[nat i := v]) else None)"

fun substr_loop :: "byte list \<Rightarrow> byte list \<Rightarrow> int \<Rightarrow> int \<Rightarrow> nat \<Rightarrow> byte list option" where
  "substr_loop str sub off suboff 0 = Some sub"
| "substr_loop str sub off suboff (Suc n) =
     do {
       c \<leftarrow> rd str off;
       sub \<leftarrow> wr sub suboff c;
       substr_loop str sub (off + 1) (suboff + 1) n
     }"

text \<open>The parameters \<open>off\<close>, \<open>suboff\<close> and \<open>len\<close> of \<open>substr\<close> are of type \<open>int\<close>; the callers pass
  unsigned values.\<close>

definition substr :: "byte list \<Rightarrow> byte list \<Rightarrow> int \<Rightarrow> int \<Rightarrow> int \<Rightarrow> byte list option" where
  "substr str sub off suboff len =
     substr_loop str sub (int_of_long off) (int_of_long suboff) (nat (int_of_long len))"

section \<open>Encryption\<close>

fun encrypt_loop :: "dev_buf \<Rightarrow> byte list \<Rightarrow> byte \<Rightarrow> int \<Rightarrow> nat \<Rightarrow> byte list option" where
  "encrypt_loop d plain k i 0 = Some plain"
| "encrypt_loop d plain k i (Suc n) =
     do {
       c \<leftarrow> rd plain i;
       b \<leftarrow> (if i = 0 then (if enc_last d \<noteq> -1 then rd (buf d) (enc_last d) else Some k)
            else rd plain (i - 1));
       plain \<leftarrow> wr plain i (c XOR b);
       encrypt_loop d plain k (i + 1) n
     }"

definition encrypt :: "dev_buf \<Rightarrow> byte list \<Rightarrow> int \<Rightarrow> byte \<Rightarrow> (dev_buf \<times> byte list) option" where
  "encrypt d plain len k =
     do {
       let len = int_of_long len;
       plain \<leftarrow> encrypt_loop d plain k 0 (nat len);
       Some (d\<lparr>enc_last := (enc_last d + len) smod BUF_SIZE\<rparr>, plain)
     }"

fun decrypt_loop :: "dev_buf \<Rightarrow> byte list \<Rightarrow> byte \<Rightarrow> byte \<Rightarrow> int \<Rightarrow> nat \<Rightarrow> byte list option" where
  "decrypt_loop d cipher previous k i 0 = Some cipher"
| "decrypt_loop d cipher previous k i (Suc n) =
     do {
       now \<leftarrow> rd cipher i;
       b \<leftarrow> (if i = 0 then (if dec_last d \<noteq> -1 then rd (buf d) (dec_last d) else Some k)
            else Some previous);
       cipher \<leftarrow> wr cipher i (now XOR b);
       decrypt_loop d cipher now k (i + 1) n
     }"

text \<open>The variable \<open>previous\<close> is not initialised, and not read before it is assigned.\<close>

definition decrypt :: "dev_buf \<Rightarrow> byte list \<Rightarrow> int \<Rightarrow> byte \<Rightarrow> (dev_buf \<times> byte list) option" where
  "decrypt d cipher len k =
     do {
       let len = int_of_long len;
       cipher \<leftarrow> decrypt_loop d cipher 0 k 0 (nat len);
       Some (d\<lparr>dec_last := (dec_last d + len) smod BUF_SIZE\<rparr>, cipher)
     }"

definition transform :: "crypto_smode \<Rightarrow> dev_buf \<Rightarrow> byte list \<Rightarrow> int \<Rightarrow> (dev_buf \<times> byte list) option" where
  "transform m d temp len =
     (case emode m of
        CRYPTO_ENC \<Rightarrow> encrypt d temp len (key m)
      | CRYPTO_DEC \<Rightarrow> decrypt d temp len (key m)
      | CRYPTO_PASSTHROUGH \<Rightarrow> Some (d, temp))"

section \<open>The list of buffers\<close>

text \<open>\<open>search_entry\<close> leaves the caller's pointer at the last entry when no entry has the
  identifier: its final assignment sets its own parameter.\<close>

fun search_loop :: "int \<Rightarrow> dev_buf list \<Rightarrow> nat \<Rightarrow> nat option \<Rightarrow> nat option" where
  "search_loop i [] p entry = entry"
| "search_loop i (b # bs) p entry =
     (if buf_ident b = i then Some p else search_loop i bs (Suc p) (Some p))"

definition search_entry :: "int \<Rightarrow> dev_buf list \<Rightarrow> nat option" where
  "search_entry i bs = search_loop i bs 0 None"

definition drop_at :: "nat \<Rightarrow> 'a list \<Rightarrow> 'a list" where
  "drop_at n xs = take n xs @ drop (Suc n) xs"

definition freebuf :: "bool \<Rightarrow> crypto_dev \<Rightarrow> nat \<Rightarrow> crypto_dev \<times> (errno + int)" where
  "freebuf mem s entry =
     (if \<not> mem then (s, Inl ENOMEM)
      else (s\<lparr>dev_bufs := drop_at entry (dev_bufs s),
              detached_ids := u32 (buf_ident (dev_bufs s ! entry)) # detached_ids s\<rparr>, Inr 0))"

definition upd_buf :: "crypto_dev \<Rightarrow> nat \<Rightarrow> dev_buf \<Rightarrow> crypto_dev" where
  "upd_buf s entry b = s\<lparr>dev_bufs := (dev_bufs s)[entry := b]\<rparr>"

section \<open>Open and release\<close>

definition device_open :: "bool \<Rightarrow> crypto_file \<Rightarrow> crypto_file \<times> (errno + int)" where
  "device_open mem f =
     (if \<not> mem then (f, Inl ENOMEM)
      else (f\<lparr>private_data := Some
               \<lparr>buf_id = 0,
                readsmode = \<lparr>dir = CRYPTO_READ, emode = CRYPTO_PASSTHROUGH, key = 0\<rparr>,
                writesmode = \<lparr>dir = CRYPTO_WRITE, emode = CRYPTO_PASSTHROUGH, key = 0\<rparr>\<rparr>\<rparr>, Inr 0))"

text \<open>The second result tells whether the private data was freed.\<close>

definition device_release :: "bool \<Rightarrow> crypto_dev \<Rightarrow> crypto_file \<Rightarrow> crypto_dev \<times> bool \<times> (errno + int)" where
  "device_release mem s f =
     (case private_data f of
        None \<Rightarrow> (s, False, Inr 0)
      | Some p \<Rightarrow>
          if buf_id p \<noteq> 0
          then
            (case search_entry (buf_id p) (dev_bufs s) of
               None \<Rightarrow> (s, False, Inl EINVAL)
             | Some e \<Rightarrow>
                 let b = dev_bufs s ! e;
                     b = b\<lparr>refcount := u32 (refcount b - 1)\<rparr>;
                     s = upd_buf s e b
                 in if refcount b = 0
                    then (case freebuf mem s e of
                            (s, Inl ENOMEM) \<Rightarrow> (s, False, Inl ENOMEM)
                          | (s, _) \<Rightarrow> (s, True, Inr 0))
                    else (s, True, Inr 0))
          else (s, False, Inr 0))"

section \<open>Read and write\<close>

text \<open>\<open>read_lens\<close> and \<open>write_lens\<close> compute the flags \<open>err\<close> and \<open>wrap\<close> and the lengths \<open>len\<close> and
  \<open>wraplen\<close> of the two parts of an access. \<open>vmalloc n\<close> is the contents of a fresh block of \<open>n\<close>
  bytes, or \<open>None\<close>. A read returns the bytes that were copied to the user, the new state and the
  return value.\<close>

definition read_lens :: "dev_buf \<Rightarrow> int \<Rightarrow> bool \<times> bool \<times> int \<times> int" where
  "read_lens b len =
     (let err = (len > bcount b);
          len = (if err then bcount b else len);
          wrap = (u64 (readoff b + len) > BUF_SIZE);
          wraplen = (if wrap then u64 (len - BUF_SIZE - readoff b) else 0);
          len = (if wrap then u32 (BUF_SIZE - readoff b) else len)
      in (err, wrap, len, wraplen))"

definition write_lens :: "dev_buf \<Rightarrow> int \<Rightarrow> bool \<times> bool \<times> int \<times> int" where
  "write_lens b len =
     (let err = (bcount b > 0 \<and> u64 (writeoff b + len) \<ge> u32 (readoff b + BUF_SIZE));
          len = (if err then u32 (BUF_SIZE - writeoff b - readoff b) else len);
          wrap = (u64 (writeoff b + len) > BUF_SIZE);
          wraplen = (if wrap then u64 (writeoff b + len - BUF_SIZE) else 0);
          len = (if wrap then u32 (BUF_SIZE - writeoff b) else len)
      in (err, wrap, len, wraplen))"

definition device_read ::
  "(int \<Rightarrow> byte list option) \<Rightarrow> bool \<Rightarrow> crypto_dev \<Rightarrow> crypto_file \<Rightarrow> int \<Rightarrow>
     (crypto_dev \<times> byte list \<times> (errno + int)) option" where
  "device_read vmalloc user_ok s f len =
     (case private_data f of
        None \<Rightarrow> Some (s, [], Inl ENOTSUP)
      | Some p \<Rightarrow>
          if buf_id p = 0 then Some (s, [], Inl ENOTSUP)
          else
            (case search_entry (buf_id p) (dev_bufs s) of
               None \<Rightarrow> Some (s, [], Inl EINVAL)
             | Some e \<Rightarrow>
                 let b = dev_bufs s ! e;
                     (err, wrap, len, wraplen) = read_lens b len
                 in (case vmalloc (u64 (len + wraplen)) of
                       None \<Rightarrow> Some (s, [], Inl ENOMEM)
                     | Some temp \<Rightarrow> do {
                         temp \<leftarrow> substr (buf b) temp (readoff b) 0 len;
                         temp \<leftarrow> (if wrap then substr (buf b) temp 0 len wraplen else Some temp);
                         (b, temp) \<leftarrow> transform (readsmode p) b temp (u64 (len + wraplen));
                         if \<not> user_ok then Some (upd_buf s e b, [], Inl EFAULT)
                         else if len > int (length temp) then None
                         else do {
                           let b = b\<lparr>bcount := u32 (bcount b - u64 (len + wraplen)),
                                     readoff := u32 (readoff b + u64 (len + wraplen)) mod BUF_SIZE\<rparr>;
                           Some (upd_buf s e b, take (nat len) temp,
                                 if err then Inl ENOBUFS else Inr (u64 (len + wraplen)))
                         }
                       })))"

text \<open>\<open>user\<close> is the memory of the user from the buffer on; the copy fails beyond its end, and also
  when \<open>user_ok\<close> is false.\<close>

definition device_write ::
  "(int \<Rightarrow> byte list option) \<Rightarrow> bool \<Rightarrow> crypto_dev \<Rightarrow> crypto_file \<Rightarrow> byte list \<Rightarrow> int \<Rightarrow>
     (crypto_dev \<times> (errno + int)) option" where
  "device_write vmalloc user_ok s f user len =
     (case private_data f of
        None \<Rightarrow> Some (s, Inl ENOTSUP)
      | Some p \<Rightarrow>
          if buf_id p = 0 then Some (s, Inl ENOTSUP)
          else
            (case search_entry (buf_id p) (dev_bufs s) of
               None \<Rightarrow> Some (s, Inl EINVAL)
             | Some e \<Rightarrow>
                 let b = dev_bufs s ! e;
                     (err, wrap, len, wraplen) = write_lens b len
                 in (case vmalloc (u64 (len + wraplen)) of
                       None \<Rightarrow> Some (s, Inl ENOMEM)
                     | Some temp \<Rightarrow>
                         if \<not> user_ok \<or> u64 (wraplen + len) > int (length user) then Some (s, Inl EFAULT)
                         else do {
                           let n = nat (u64 (wraplen + len));
                           temp \<leftarrow> (if n \<le> length temp then Some (take n user @ drop n temp) else None);
                           (b, temp) \<leftarrow> transform (writesmode p) b temp (u64 (len + wraplen));
                           out \<leftarrow> substr temp (buf b) 0 (writeoff b) len;
                           out \<leftarrow> (if wrap then substr temp out len 0 wraplen else Some out);
                           let b = b\<lparr>buf := out, bcount := u32 (bcount b + u64 (len + wraplen)),
                                     writeoff := u32 (writeoff b + u64 (len + wraplen)) mod BUF_SIZE\<rparr>;
                           Some (upd_buf s e b, if err then Inl ENOBUFS else Inr (u64 (wraplen + len)))
                         })))"

section \<open>Control operations\<close>

text \<open>\<open>ioc_create\<close> is the case \<open>CRYPTO_IOCCREATE\<close>: \<open>m1\<close> and \<open>m3\<close> tell whether the two calls of
  \<open>kzalloc\<close> succeed, \<open>m2\<close> is the block of \<open>vmalloc\<close>. When only the last allocation fails the
  identifier has been taken and stored in the file, but there is no buffer of that identifier.\<close>

definition ioc_create ::
  "bool \<Rightarrow> byte list option \<Rightarrow> bool \<Rightarrow> crypto_dev \<Rightarrow> crypto_file \<Rightarrow>
     (crypto_dev \<times> crypto_file \<times> (errno + int)) option" where
  "ioc_create m1 m2 m3 s f =
     do {
       p \<leftarrow> private_data f;
       if buf_id p \<noteq> 0 then Some (s, f, Inl ENOTSUP)
       else if \<not> m1 then Some (s, f, Inl ENOMEM)
       else
         (case m2 of
            None \<Rightarrow> Some (s, f, Inl ENOMEM)
          | Some blk \<Rightarrow>
              let (i, s) =
                (case detached_ids s of
                   [] \<Rightarrow> (new_id s, s\<lparr>new_id := new_id s + 1\<rparr>)
                 | i # is \<Rightarrow> (int_of_long i, s\<lparr>detached_ids := is\<rparr>));
                b = \<lparr>buf_ident = i, refcount = 1, readoff = 0, writeoff = 0, bcount = 0, buf = blk,
                     read_ref = fmode_read f, write_ref = fmode_write f, enc_last = -1, dec_last = -1\<rparr>;
                f = f\<lparr>private_data := Some (p\<lparr>buf_id := i\<rparr>)\<rparr>
              in if \<not> m3 then Some (s, f, Inl ENOMEM)
                 else Some (s\<lparr>dev_bufs := b # dev_bufs s\<rparr>, f, Inr i))
     }"

definition ioc_delete ::
  "bool \<Rightarrow> crypto_dev \<Rightarrow> crypto_file \<Rightarrow> int \<Rightarrow> (crypto_dev \<times> crypto_file \<times> (errno + int)) option" where
  "ioc_delete mem s f arg =
     (case search_entry (int_of_long arg) (dev_bufs s) of
        None \<Rightarrow> Some (s, f, Inl EINVAL)
      | Some e \<Rightarrow>
          if refcount (dev_bufs s ! e) > 1 then Some (s, f, Inl ENOTSUP)
          else do {
            p \<leftarrow> private_data f;
            let f = f\<lparr>private_data := Some (p\<lparr>buf_id := 0\<rparr>)\<rparr>;
            let (s, r) = freebuf mem s e;
            Some (s, f, if r = Inl ENOMEM then Inl ENOMEM else Inr 0)
          })"

definition ioc_attach ::
  "crypto_dev \<Rightarrow> crypto_file \<Rightarrow> int \<Rightarrow> (crypto_dev \<times> crypto_file \<times> (errno + int)) option" where
  "ioc_attach s f arg =
     (if (case private_data f of None \<Rightarrow> False | Some p \<Rightarrow> buf_id p \<noteq> 0) then Some (s, f, Inl ENOTSUP)
      else
        (case search_entry (int_of_long arg) (dev_bufs s) of
           None \<Rightarrow> Some (s, f, Inl EINVAL)
         | Some e \<Rightarrow>
             let b = dev_bufs s ! e in
             if fmode_read f \<and> read_ref b then Some (s, f, Inl ENOTSUP)
             else if fmode_write f \<and> write_ref b then Some (s, f, Inl ENOTSUP)
             else do {
               let b = b\<lparr>read_ref := (fmode_read f \<or> read_ref b), write_ref := (fmode_write f \<or> write_ref b),
                         refcount := u32 (refcount b + 1)\<rparr>;
               p \<leftarrow> private_data f;
               Some (upd_buf s e b, f\<lparr>private_data := Some (p\<lparr>buf_id := buf_ident b\<rparr>)\<rparr>, Inr 0)
             }))"

definition ioc_detach ::
  "bool \<Rightarrow> crypto_dev \<Rightarrow> crypto_file \<Rightarrow> (crypto_dev \<times> crypto_file \<times> (errno + int)) option" where
  "ioc_detach mem s f =
     (case private_data f of
        None \<Rightarrow> Some (s, f, Inl ENOTSUP)
      | Some p \<Rightarrow>
          if buf_id p = 0 then Some (s, f, Inl ENOTSUP)
          else
            (case search_entry (buf_id p) (dev_bufs s) of
               None \<Rightarrow> Some (s, f, Inl EINVAL)
             | Some e \<Rightarrow>
                 let b = dev_bufs s ! e;
                     b = b\<lparr>read_ref := (\<not> fmode_read f \<and> read_ref b),
                           write_ref := (\<not> fmode_write f \<and> write_ref b),
                           refcount := u32 (refcount b - 1)\<rparr>;
                     s = upd_buf s e b;
                     f = f\<lparr>private_data := Some (p\<lparr>buf_id := 0\<rparr>)\<rparr>
                 in if refcount b = 0
                    then (let (s, r) = freebuf mem s e
                          in Some (s, f, if r = Inl ENOMEM then Inl ENOMEM else Inr 0))
                    else Some (s, f, Inr 0)))"

text \<open>\<open>m\<close> is the structure that is copied from the user, \<open>None\<close> when the copy fails.\<close>

definition ioc_smode ::
  "crypto_file \<Rightarrow> crypto_smode option \<Rightarrow> (crypto_file \<times> (errno + int)) option" where
  "ioc_smode f m =
     (case m of
        None \<Rightarrow> Some (f, Inl EFAULT)
      | Some m \<Rightarrow> do {
          p \<leftarrow> private_data f;
          Some (f\<lparr>private_data := Some (if dir m = CRYPTO_WRITE then p\<lparr>writesmode := m\<rparr>
                                         else p\<lparr>readsmode := m\<rparr>)\<rparr>, Inr 0)
        })"

datatype crypto_cmd =
    CRYPTO_IOCCREATE | CRYPTO_IOCTDELETE int | CRYPTO_IOCTATTACH int | CRYPTO_IOCDETACH
  | CRYPTO_IOCSMODE "crypto_smode option" | CRYPTO_OTHER

definition device_ioctl ::
  "bool \<Rightarrow> byte list option \<Rightarrow> bool \<Rightarrow> crypto_dev \<Rightarrow> crypto_file \<Rightarrow> crypto_cmd \<Rightarrow>
     (crypto_dev \<times> crypto_file \<times> (errno + int)) option" where
  "device_ioctl m1 m2 m3 s f cmd =
     (case cmd of
        CRYPTO_IOCCREATE \<Rightarrow> ioc_create m1 m2 m3 s f
      | CRYPTO_IOCTDELETE arg \<Rightarrow> ioc_delete m1 s f arg
      | CRYPTO_IOCTATTACH arg \<Rightarrow> ioc_attach s f arg
      | CRYPTO_IOCDETACH \<Rightarrow> ioc_detach m1 s f
      | CRYPTO_IOCSMODE m \<Rightarrow> do { (f, r) \<leftarrow> ioc_smode f m; Some (s, f, r) }
      | CRYPTO_OTHER \<Rightarrow> Some (s, f, Inl EINVAL))"

section \<open>Memory mapping\<close>

text \<open>The loop of \<open>device_mmap\<close> maps the buffer page by page. \<open>remap start off\<close> is the result of
  mapping the page of the buffer that starts at \<open>off\<close> to the user address \<open>start\<close>; the list
  collects the pages that were mapped.\<close>

abbreviation PAGE_SIZE :: int where "PAGE_SIZE \<equiv> 4096"

fun mmap_loop :: "(int \<Rightarrow> int \<Rightarrow> errno option) \<Rightarrow> int \<Rightarrow> int \<Rightarrow> nat \<Rightarrow> (int \<times> int) list \<Rightarrow>
    (int \<times> int) list \<times> (errno + int)" where
  "mmap_loop remap start off 0 m = (m, Inr 0)"
| "mmap_loop remap start off (Suc n) m =
     (case remap start off of
        Some e \<Rightarrow> (m, Inl e)
      | None \<Rightarrow> mmap_loop remap (start + PAGE_SIZE) (off + PAGE_SIZE) n (m @ [(start, off)]))"

definition device_mmap ::
  "(int \<Rightarrow> int \<Rightarrow> errno option) \<Rightarrow> crypto_dev \<Rightarrow> crypto_file \<Rightarrow> int \<Rightarrow> int \<Rightarrow> int \<Rightarrow>
     ((int \<times> int) list \<times> (errno + int)) option" where
  "device_mmap remap s f vm_start vm_end vm_pgoff =
     do {
       p \<leftarrow> private_data f;
       if buf_id p = 0 then Some ([], Inl ENOTSUP)
       else
         let size = u64 (vm_end - vm_start) in
         if size mod PAGE_SIZE \<noteq> 0 \<or> size > BUF_SIZE then Some ([], Inl EIO)
         else if vm_pgoff mod PAGE_SIZE \<noteq> 0 \<or> vm_pgoff > BUF_SIZE then Some ([], Inl EIO)
         else
           (case search_entry (buf_id p) (dev_bufs s) of
              None \<Rightarrow> Some ([], Inl EINVAL)
            | Some e \<Rightarrow> Some (mmap_loop remap vm_start 0 (nat (size div PAGE_SIZE)) []))
     }"

section \<open>Loading the module\<close>

definition init_module :: "(errno + int) \<Rightarrow> (errno + int) \<Rightarrow> crypto_dev \<Rightarrow> crypto_dev \<times> (errno + int)" where
  "init_module region add s =
     (case region of
        Inl e \<Rightarrow> (s, Inl e)
      | Inr _ \<Rightarrow>
          (case add of
             Inl e \<Rightarrow> (s, Inl e)
           | Inr _ \<Rightarrow> (s\<lparr>detached_ids := [], dev_bufs := []\<rparr>, Inr 0)))"

section \<open>Copying\<close>

lemma u32_id [simp]: "0 \<le> x \<Longrightarrow> x < 2 ^ 32 \<Longrightarrow> u32 x = x"
  by (simp add: u32_def)

lemma u64_id [simp]: "0 \<le> x \<Longrightarrow> x < 2 ^ 64 \<Longrightarrow> u64 x = x"
  by (simp add: u64_def)

lemma substr_loop_ok:
  assumes "a + n \<le> length str" and "b + n \<le> length sub"
  shows "substr_loop str sub (int a) (int b) n =
    Some (take b sub @ take n (drop a str) @ drop (b + n) sub)"
  using assms
proof (induction n arbitrary: a b sub)
  case (Suc n)
  have 1: "substr_loop str sub (int a) (int b) (Suc n) =
      substr_loop str (sub[b := str ! a]) (int (Suc a)) (int (Suc b)) n"
    using Suc.prems by (simp add: rd_def wr_def add.commute)
  also have "\<dots> = Some (take (Suc b) (sub[b := str ! a]) @ take n (drop (Suc a) str) @
      drop (Suc b + n) (sub[b := str ! a]))"
    using Suc.prems by (intro Suc.IH) simp_all
  also have "take (Suc b) (sub[b := str ! a]) = take b sub @ [str ! a]"
    using Suc.prems by (simp add: take_Suc_conv_app_nth)
  also have "drop (Suc b + n) (sub[b := str ! a]) = drop (b + Suc n) sub" by simp
  also have "(take b sub @ [str ! a]) @ take n (drop (Suc a) str) @ drop (b + Suc n) sub =
      take b sub @ take (Suc n) (drop a str) @ drop (b + Suc n) sub"
    using Suc.prems by (simp add: Cons_nth_drop_Suc [symmetric])
  finally show ?case .
qed simp

lemma substr_ok:
  assumes "0 \<le> off" "0 \<le> suboff" "0 \<le> len" and "off + len \<le> int (length str)"
    and "suboff + len \<le> int (length sub)" and "int (length str) < 2 ^ 31" and "int (length sub) < 2 ^ 31"
  shows "substr str sub off suboff len =
    Some (take (nat suboff) sub @ take (nat len) (drop (nat off) str) @ drop (nat suboff + nat len) sub)"
  using assms substr_loop_ok [of "nat off" "nat len" str "nat suboff" sub] by (simp add: substr_def)

text \<open>Copying past the end of the target is an access outside the array.\<close>

lemma substr_loop_fault:
  assumes "0 < n" and "b + n > length sub"
  shows "substr_loop str sub a (int b) n = None"
  using assms
proof (induction n arbitrary: a b sub)
  case (Suc n)
  show ?case
  proof (cases "b < length sub")
    case True
    then have "0 < n" "Suc b + n > length (sub[b := c])" for c using Suc.prems by auto
    then have "substr_loop str (sub[b := c]) (a + 1) (int (Suc b)) n = None" for c by (rule Suc.IH)
    then show ?thesis by (auto simp: wr_def add.commute split: bind_splits)
  next
    case False
    then show ?thesis by (simp add: wr_def split: bind_splits)
  qed
qed simp

section \<open>The cipher\<close>

text \<open>The reference: each byte is combined with the cipher byte before it.\<close>

fun enc_from :: "byte \<Rightarrow> byte list \<Rightarrow> byte list" where
  "enc_from k [] = []"
| "enc_from k (x # xs) = (x XOR k) # enc_from (x XOR k) xs"

fun dec_from :: "byte \<Rightarrow> byte list \<Rightarrow> byte list" where
  "dec_from k [] = []"
| "dec_from k (c # cs) = (c XOR k) # dec_from c cs"

lemma length_enc [simp]: "length (enc_from k xs) = length xs"
  by (induction k xs rule: enc_from.induct) auto

lemma length_dec [simp]: "length (dec_from k xs) = length xs"
  by (induction k xs rule: dec_from.induct) auto

lemma dec_enc: "dec_from k (enc_from k xs) = xs"
  by (induction k xs rule: enc_from.induct) (auto simp: xor.assoc)

lemma smod_small: "0 \<le> a \<Longrightarrow> a < BUF_SIZE \<Longrightarrow> a smod BUF_SIZE = a"
  by (subst smod_nonneg) auto

lemma enc_take: "take m (enc_from k xs) = enc_from k (take m xs)"
  by (induction k xs arbitrary: m rule: enc_from.induct) (auto simp: take_Cons split: nat.splits)

lemma enc_append: "enc_from k (xs @ ys) = enc_from k xs @ enc_from (last (k # enc_from k xs)) ys"
  by (induction k xs rule: enc_from.induct) auto

lemma dec_append: "dec_from k (xs @ ys) = dec_from k xs @ dec_from (last (k # xs)) ys"
  by (induction k xs rule: dec_from.induct) auto

definition enc_seed :: "dev_buf \<Rightarrow> byte \<Rightarrow> byte" where
  "enc_seed d k = (if enc_last d \<noteq> -1 then buf d ! nat (enc_last d) else k)"

definition dec_seed :: "dev_buf \<Rightarrow> byte \<Rightarrow> byte" where
  "dec_seed d k = (if dec_last d \<noteq> -1 then buf d ! nat (dec_last d) else k)"

lemma encrypt_loop_ok:
  assumes "enc_last d \<noteq> -1 \<Longrightarrow> 0 \<le> enc_last d \<and> enc_last d < int (length (buf d))"
  shows "encrypt_loop d (xs @ ys) k (int (length xs)) (length ys) =
    Some (xs @ enc_from (if xs = [] then enc_seed d k else last xs) ys)"
proof (induction ys arbitrary: xs)
  case (Cons y ys)
  let ?b = "if xs = [] then enc_seed d k else last xs"
  have "(if int (length xs) = 0 then (if enc_last d \<noteq> -1 then rd (buf d) (enc_last d) else Some k)
      else rd (xs @ y # ys) (int (length xs) - 1)) = Some ?b"
  proof (cases xs rule: rev_cases)
    case (snoc zs z)
    then show ?thesis by (simp add: rd_def nth_append)
  qed (use assms in \<open>auto simp: enc_seed_def rd_def\<close>)
  moreover have "(xs @ y # ys)[length xs := y XOR ?b] = (xs @ [y XOR ?b]) @ ys" by simp
  ultimately have "encrypt_loop d (xs @ y # ys) k (int (length xs)) (length (y # ys)) =
      encrypt_loop d ((xs @ [y XOR ?b]) @ ys) k (int (length (xs @ [y XOR ?b]))) (length ys)"
    by (cases "xs = []") (simp_all add: rd_def wr_def nth_append add.commute)
  also have "\<dots> = Some ((xs @ [y XOR ?b]) @ enc_from (y XOR ?b) ys)"
    unfolding Cons.IH by simp
  finally show ?case by simp
qed simp

lemma decrypt_loop_ok:
  assumes "dec_last d \<noteq> -1 \<Longrightarrow> 0 \<le> dec_last d \<and> dec_last d < int (length (buf d))"
  shows "decrypt_loop d (xs @ ys) pv k (int (length xs)) (length ys) =
    Some (xs @ dec_from (if xs = [] then dec_seed d k else pv) ys)"
proof (induction ys arbitrary: xs pv)
  case (Cons y ys)
  let ?b = "if xs = [] then dec_seed d k else pv"
  have "(if int (length xs) = 0 then (if dec_last d \<noteq> -1 then rd (buf d) (dec_last d) else Some k)
      else Some pv) = Some ?b"
    using assms by (auto simp: dec_seed_def rd_def)
  moreover have "(xs @ y # ys)[length xs := y XOR ?b] = (xs @ [y XOR ?b]) @ ys" by simp
  ultimately have "decrypt_loop d (xs @ y # ys) pv k (int (length xs)) (length (y # ys)) =
      decrypt_loop d ((xs @ [y XOR ?b]) @ ys) y k (int (length (xs @ [y XOR ?b]))) (length ys)"
    by (cases "xs = []") (simp_all add: rd_def wr_def nth_append add.commute)
  also have "\<dots> = Some ((xs @ [y XOR ?b]) @ dec_from y ys)"
    unfolding Cons.IH by simp
  finally show ?case by simp
qed simp

lemma encrypt_ok:
  assumes "enc_last d \<noteq> -1 \<Longrightarrow> 0 \<le> enc_last d \<and> enc_last d < int (length (buf d))"
    and "int (length xs) < 2 ^ 31"
  shows "encrypt d xs (int (length xs)) k =
    Some (d\<lparr>enc_last := (enc_last d + int (length xs)) smod BUF_SIZE\<rparr>, enc_from (enc_seed d k) xs)"
  using encrypt_loop_ok [OF assms(1), of "[]" xs k] assms(2) by (simp add: encrypt_def)

lemma decrypt_ok:
  assumes "dec_last d \<noteq> -1 \<Longrightarrow> 0 \<le> dec_last d \<and> dec_last d < int (length (buf d))"
    and "int (length xs) < 2 ^ 31"
  shows "decrypt d xs (int (length xs)) k =
    Some (d\<lparr>dec_last := (dec_last d + int (length xs)) smod BUF_SIZE\<rparr>, dec_from (dec_seed d k) xs)"
  using decrypt_loop_ok [OF assms(1), of "[]" xs 0 k] assms(2) by (simp add: decrypt_def)

section \<open>A buffer as an encrypted stream\<close>

text \<open>\<open>stream b k w r\<close>: the bytes \<open>w\<close> have been written to the buffer with encryption under key \<open>k\<close>,
  and the first \<open>r\<close> of them have been read with decryption.\<close>

definition stream :: "dev_buf \<Rightarrow> byte \<Rightarrow> byte list \<Rightarrow> nat \<Rightarrow> bool" where
  "stream b k w r \<longleftrightarrow> length (buf b) = 8192 \<and> length w < 8192 \<and> r \<le> length w \<and>
     take (length w) (buf b) = enc_from k w \<and> writeoff b = int (length w) \<and> readoff b = int r \<and>
     bcount b = int (length w) - int r \<and> enc_last b = int (length w) - 1 \<and> dec_last b = int r - 1"

lemma take_nth_last:
  assumes "take n xs = ys" and "0 < n" and "n \<le> length xs"
  shows "xs ! (n - 1) = last ys"
proof -
  have "last (take n xs) = take n xs ! (n - 1)" using assms by (subst last_conv_nth) auto
  then show ?thesis using assms by auto
qed

lemma stream_enc_seed: "stream b k w r \<Longrightarrow> enc_seed b k = last (k # enc_from k w)"
proof (cases "w = []")
  case True
  moreover assume "stream b k w r"
  ultimately show ?thesis by (simp add: enc_seed_def stream_def)
next
  case False
  assume s: "stream b k w r"
  then have "buf b ! (length w - 1) = last (enc_from k w)"
    using False by (intro take_nth_last) (auto simp: stream_def)
  moreover have "enc_from k w \<noteq> []" using False by (cases w) auto
  moreover have "nat (enc_last b) = length w - 1" "enc_last b \<noteq> -1"
    using s False by (auto simp: stream_def)
  ultimately show ?thesis by (simp add: enc_seed_def)
qed

lemma stream_dec_seed:
  assumes s: "stream b k w r"
  shows "dec_seed b k = last (k # take r (enc_from k w))"
proof (cases "r = 0")
  case True
  with s show ?thesis by (simp add: dec_seed_def stream_def)
next
  case False
  have r: "r \<le> length w" "length w < 8192" "length (buf b) = 8192" "take (length w) (buf b) = enc_from k w"
    using s by (auto simp: stream_def)
  then have "take r (buf b) = take r (enc_from k w)" by (metis min.absorb1 take_take)
  then have "buf b ! (r - 1) = last (take r (enc_from k w))"
    using False r by (intro take_nth_last) auto
  moreover have "take r (enc_from k w) \<noteq> []" using False r by (cases w; cases r) auto
  moreover have "nat (dec_last b) = r - 1" "dec_last b \<noteq> -1" using s False by (auto simp: stream_def)
  ultimately show ?thesis by (simp add: dec_seed_def)
qed

text \<open>What the driver relies on: \<open>vmalloc\<close> returns a block of the requested size. The stream lemmas
  also need that it succeeds for the sizes of the buffer.\<close>

definition vmalloc_ok :: "(int \<Rightarrow> byte list option) \<Rightarrow> bool" where
  "vmalloc_ok vm \<longleftrightarrow> (\<forall>n b. vm n = Some b \<longrightarrow> int (length b) = n) \<and> (\<forall>n. 0 < n \<longrightarrow> n \<le> BUF_SIZE \<longrightarrow> vm n \<noteq> None)"

lemma vmalloc_okD:
  assumes "vmalloc_ok vm" and "0 < n" and "n \<le> BUF_SIZE"
  obtains blk where "vm n = Some blk" and "int (length blk) = n"
  using assms unfolding vmalloc_ok_def by blast

definition attached :: "crypto_dev \<Rightarrow> crypto_file \<Rightarrow> priv_data \<Rightarrow> nat \<Rightarrow> dev_buf \<Rightarrow> bool" where
  "attached s f p e b \<longleftrightarrow> private_data f = Some p \<and> buf_id p \<noteq> 0 \<and>
     search_entry (buf_id p) (dev_bufs s) = Some e \<and> e < length (dev_bufs s) \<and> dev_bufs s ! e = b"

lemma write_stream:
  assumes at: "attached s f p e b" and m: "emode (writesmode p) = CRYPTO_ENC" "key (writesmode p) = k"
    and st: "stream b k w r" and x: "x \<noteq> []" "length (w @ x) < 8192" and vm: "vmalloc_ok vm"
  shows "\<exists>b'. device_write vm True s f x (int (length x)) = Some (upd_buf s e b', Inr (int (length x))) \<and>
           stream b' k (w @ x) r \<and> buf_ident b' = buf_ident b"
proof -
  let ?n = "int (length x)"
  have n: "0 < ?n" "?n \<le> BUF_SIZE" "int (length w) + ?n < BUF_SIZE" using x by auto
  note sd = st [unfolded stream_def]
  obtain blk where blk: "vm ?n = Some blk" "int (length blk) = ?n" by (rule vmalloc_okD [OF vm n(1,2)])
  have tr: "encrypt b x ?n k = Some (b\<lparr>enc_last := (enc_last b + ?n) smod BUF_SIZE\<rparr>, enc_from (enc_seed b k) x)"
    using sd n by (intro encrypt_ok) auto
  have el: "(enc_last b + ?n) smod BUF_SIZE = int (length (w @ x)) - 1"
  proof -
    have "enc_last b + ?n = int (length (w @ x)) - 1" using sd by simp
    moreover have "1 \<le> int (length (w @ x))" using x(1) by (cases x) auto
    ultimately show ?thesis using n(3) by (subst smod_small) auto
  qed
  let ?out = "take (length w) (buf b) @ enc_from (enc_seed b k) x @ drop (length (w @ x)) (buf b)"
  have sub: "substr (enc_from (enc_seed b k) x) (buf b) 0 (writeoff b) ?n = Some ?out"
    using sd n by (subst substr_ok) auto
  let ?b = "b\<lparr>enc_last := int (length (w @ x)) - 1, buf := ?out, bcount := bcount b + ?n, writeoff := writeoff b + ?n\<rparr>"
  have "device_write vm True s f x ?n = Some (upd_buf s e ?b, Inr ?n)"
    using at m sd n blk tr el sub
    by (simp add: device_write_def write_lens_def attached_def Let_def transform_def)
  moreover have "enc_from k (w @ x) = enc_from k w @ enc_from (enc_seed b k) x"
    using stream_enc_seed [OF st] by (simp add: enc_append)
  then have "stream ?b k (w @ x) r" using sd x by (simp add: stream_def)
  ultimately show ?thesis by (intro exI [of _ ?b]) simp
qed

lemma read_stream:
  assumes at: "attached s f p e b" and m: "emode (readsmode p) = CRYPTO_DEC" "key (readsmode p) = k"
    and st: "stream b k w r" and n: "0 < n" "r + n \<le> length w" and vm: "vmalloc_ok vm"
  shows "\<exists>b'. device_read vm True s f (int n) =
             Some (upd_buf s e b', take n (drop r w), Inr (int n)) \<and>
           stream b' k w (r + n) \<and> buf_ident b' = buf_ident b"
proof -
  note sd = st [unfolded stream_def]
  have N: "0 < int n" "int n \<le> BUF_SIZE" "r + n \<le> 8192" using n sd by auto
  obtain blk where blk: "vm (int n) = Some blk" "int (length blk) = int n" by (rule vmalloc_okD [OF vm N(1,2)])
  let ?c = "take n (drop r (buf b))"
  have "enc_from k w = take (length w) (buf b)" using sd by simp
  then have tr: "take r (enc_from k w) = take r (buf b)" "take (r + n) (enc_from k w) = take r (buf b) @ ?c"
    using n by (simp_all add: min_absorb1 take_add)
  have lc: "length ?c = n" using N(3) sd by (simp add: min_absorb2)
  have sub: "substr (buf b) blk (readoff b) 0 (int n) = Some ?c"
    using sd n blk(2) by (subst substr_ok) auto
  have dec: "decrypt b ?c (int n) k = Some (b\<lparr>dec_last := (dec_last b + int n) smod BUF_SIZE\<rparr>, dec_from (dec_seed b k) ?c)"
    using decrypt_ok [of b ?c k] sd n lc by auto
  have dl: "(dec_last b + int n) smod BUF_SIZE = int (r + n) - 1"
    using sd n by (subst smod_small) auto
  have "take (r + n) w = dec_from k (take r (buf b) @ ?c)"
    unfolding tr(2) [symmetric] enc_take dec_enc ..
  also have "\<dots> = dec_from k (take r (buf b)) @ dec_from (dec_seed b k) ?c"
    using stream_dec_seed [OF st] tr(1) by (simp add: dec_append)
  finally have "take r w @ take n (drop r w) = dec_from k (take r (buf b)) @ dec_from (dec_seed b k) ?c"
    by (simp add: take_add)
  moreover have "length (take r w) = length (dec_from k (take r (buf b)))" using sd N by simp
  ultimately have pl: "dec_from (dec_seed b k) ?c = take n (drop r w)" by simp
  let ?b = "b\<lparr>dec_last := int (r + n) - 1, bcount := bcount b - int n, readoff := readoff b + int n\<rparr>"
  have "\<not> int n > bcount b" using sd n by auto
  then have "device_read vm True s f (int n) = Some (upd_buf s e ?b, take n (drop r w), Inr (int n))"
    using at m sd n N blk sub dec dl pl lc
    by (simp add: device_read_def read_lens_def attached_def Let_def transform_def)
  moreover have "stream ?b k w (r + n)" using sd n by (simp add: stream_def)
  ultimately show ?thesis by (intro exI [of _ ?b]) simp
qed

section \<open>Interleaved reads and writes\<close>

lemma search_loop_upd:
  "buf_ident b' = buf_ident (bs ! e) \<Longrightarrow> e < length bs \<Longrightarrow>
    search_loop i (bs[e := b']) p entry = search_loop i bs p entry"
  by (induction bs arbitrary: e p entry) (auto simp: nth_Cons split: nat.splits)

lemma attached_upd:
  assumes "attached s f p e b" and "buf_ident b' = buf_ident b"
  shows "attached (upd_buf s e b') f p e b'"
  using assms search_loop_upd [of b' "dev_bufs s" e]
  by (simp add: attached_def upd_buf_def search_entry_def)

datatype crypto_op = Wr "byte list" | Rd nat

text \<open>A writer \<open>fw\<close> and a reader \<open>fr\<close> work on the same buffer in any order; the result collects the
  bytes the reader got.\<close>

fun run_ops :: "(int \<Rightarrow> byte list option) \<Rightarrow> crypto_dev \<Rightarrow> crypto_file \<Rightarrow> crypto_file \<Rightarrow> crypto_op list \<Rightarrow>
    (crypto_dev \<times> byte list) option" where
  "run_ops vm s fw fr [] = Some (s, [])"
| "run_ops vm s fw fr (Wr x # ops) =
     do { (s, _) \<leftarrow> device_write vm True s fw x (int (length x)); run_ops vm s fw fr ops }"
| "run_ops vm s fw fr (Rd n # ops) =
     do {
       (s, xs, _) \<leftarrow> device_read vm True s fr (int n);
       (s, ys) \<leftarrow> run_ops vm s fw fr ops;
       Some (s, xs @ ys)
     }"

text \<open>The specification: a queue of bytes. A read must not ask for more than is there.\<close>

fun queue_ops :: "byte list \<Rightarrow> crypto_op list \<Rightarrow> byte list option" where
  "queue_ops q [] = Some []"
| "queue_ops q (Wr x # ops) = (if x = [] then None else queue_ops (q @ x) ops)"
| "queue_ops q (Rd n # ops) =
     (if 0 < n \<and> n \<le> length q then do { ys \<leftarrow> queue_ops (drop n q) ops; Some (take n q @ ys) } else None)"

fun written :: "crypto_op list \<Rightarrow> nat" where
  "written [] = 0"
| "written (Wr x # ops) = length x + written ops"
| "written (Rd n # ops) = written ops"

lemma run_ops_queue:
  assumes "attached s fw pw e b" and "emode (writesmode pw) = CRYPTO_ENC" "key (writesmode pw) = k"
    and "attached s fr pr e b" and "emode (readsmode pr) = CRYPTO_DEC" "key (readsmode pr) = k"
    and "stream b k w r" and "length w + written ops < 8192" and "vmalloc_ok vm"
    and "queue_ops (drop r w) ops = Some out"
  shows "\<exists>s'. run_ops vm s fw fr ops = Some (s', out)"
  using assms
proof (induction ops arbitrary: s b w r out)
  case (Cons op ops)
  show ?case
  proof (cases op)
    case (Wr x)
    with Cons.prems have x: "x \<noteq> []" "length (w @ x) < 8192" by (auto split: if_splits)
    from write_stream [OF Cons.prems(1-3,7) x Cons.prems(9)] obtain b' where
      1: "device_write vm True s fw x (int (length x)) = Some (upd_buf s e b', Inr (int (length x)))"
      "stream b' k (w @ x) r" "buf_ident b' = buf_ident b" by blast
    have "r \<le> length w" using Cons.prems(7) by (simp add: stream_def)
    then have "queue_ops (drop r (w @ x)) ops = Some out"
      using Cons.prems(10) Wr x(1) by simp
    then have "\<exists>s'. run_ops vm (upd_buf s e b') fw fr ops = Some (s', out)"
      using Cons.prems Wr 1(2)
      by (intro Cons.IH [OF attached_upd [OF Cons.prems(1) 1(3)] _ _ attached_upd [OF Cons.prems(4) 1(3)]]) auto
    with 1(1) Wr show ?thesis by auto
  next
    case (Rd n)
    with Cons.prems(10) obtain ys where n: "0 < n" "n \<le> length (drop r w)"
      and ys: "queue_ops (drop n (drop r w)) ops = Some ys" "out = take n (drop r w) @ ys"
      by (auto split: if_splits bind_splits)
    have "r + n \<le> length w" using n by auto
    from read_stream [OF Cons.prems(4-6,7) n(1) this Cons.prems(9)] obtain b' where
      1: "device_read vm True s fr (int n) = Some (upd_buf s e b', take n (drop r w), Inr (int n))"
      "stream b' k w (r + n)" "buf_ident b' = buf_ident b" by blast
    have "\<exists>s'. run_ops vm (upd_buf s e b') fw fr ops = Some (s', ys)"
      using Cons.prems Rd 1(2) ys(1)
      by (intro Cons.IH [OF attached_upd [OF Cons.prems(1) 1(3)] _ _ attached_upd [OF Cons.prems(4) 1(3)]])
        (auto simp: add.commute)
    with 1(1) Rd ys(2) show ?thesis by auto
  qed
qed simp

section \<open>Wrapping around\<close>

text \<open>A read that wraps around computes the length of its second part as \<open>(len - 8192) - readoff\<close>,
  which is negative, so the block it allocates is too small for the first part.\<close>

lemma read_wrap:
  assumes at: "attached s f p e b" and b: "0 \<le> readoff b" "readoff b < BUF_SIZE" "0 < bcount b" "bcount b \<le> BUF_SIZE"
    and len: "0 < len" "readoff b + min len (bcount b) > BUF_SIZE"
    and vm: "\<And>n blk. vm n = Some blk \<Longrightarrow> int (length blk) = n"
    and big: "\<And>n. n \<ge> 2 ^ 63 \<Longrightarrow> vm n = None"
  shows "device_read vm user_ok s f len = None \<or> device_read vm user_ok s f len = Some (s, [], Inl ENOMEM)"
proof -
  define m where "m = min len (bcount b)"
  have m: "0 < m" "m \<le> BUF_SIZE" "readoff b + m > BUF_SIZE" using b len by (auto simp: m_def)
  let ?l = "BUF_SIZE - readoff b" and ?w = "u64 (m - BUF_SIZE - readoff b)"
  have w: "?w = m - BUF_SIZE - readoff b + 2 ^ 64"
    unfolding u64_def using m b by (intro mod_neg) auto
  have sum: "u64 (?l + ?w) = (m - 2 * readoff b) mod 2 ^ 64"
  proof -
    have "?l + ?w = (m - 2 * readoff b) + 2 ^ 64" unfolding w by simp
    then show ?thesis unfolding u64_def by (simp only: mod_add_self2)
  qed
  have lens: "read_lens b len = (len > bcount b, True, ?l, ?w)"
    using m b by (auto simp: read_lens_def Let_def m_def min_def split: if_splits)
  show ?thesis
  proof (cases "vm (u64 (?l + ?w))")
    case None
    with at lens show ?thesis by (simp add: device_read_def attached_def Let_def)
  next
    case (Some blk)
    then have l: "int (length blk) = (m - 2 * readoff b) mod 2 ^ 64" using vm sum by simp
    have "\<not> m - 2 * readoff b < 0"
    proof
      assume "m - 2 * readoff b < 0"
      then have "(m - 2 * readoff b) mod 2 ^ 64 = m - 2 * readoff b + 2 ^ 64"
        using m b by (intro mod_neg) auto
      then have "u64 (?l + ?w) \<ge> 2 ^ 63" using sum m b by simp
      with big Some show False by simp
    qed
    then have "int (length blk) < ?l" using l m b by simp
    then have "substr (buf b) blk (readoff b) 0 ?l = None"
      using substr_loop_fault [of "nat ?l" blk 0 "buf b" "readoff b"] b m by (simp add: substr_def)
    with Some at lens show ?thesis by (simp add: device_read_def attached_def Let_def)
  qed
qed

text \<open>A write to an empty buffer is not limited by the size of the buffer.\<close>

lemma write_too_long:
  assumes at: "attached s f p e b" and m: "emode (writesmode p) = CRYPTO_PASSTHROUGH"
    and b: "bcount b = 0" "0 \<le> writeoff b" "writeoff b < BUF_SIZE" "length (buf b) = 8192"
    and len: "len = int (length user)" "len > 2 * BUF_SIZE - writeoff b" "len < 2 ^ 31"
    and vm: "vm len = Some blk" "int (length blk) = len"
  shows "device_write vm True s f user len = None"
proof -
  let ?l = "BUF_SIZE - writeoff b" and ?w = "writeoff b + len - BUF_SIZE"
  have lens: "write_lens b len = (False, True, ?l, ?w)"
    using b len by (simp add: write_lens_def Let_def)
  have sum: "u64 (?l + ?w) = len" "u64 (?w + ?l) = len" using len(2,3) b by simp_all
  have "length blk = length user" using len(1) vm(2) by simp
  then have "take (nat len) user @ drop (nat len) blk = user" using len(1) by simp
  moreover have "substr user (buf b) 0 (writeoff b) ?l =
      Some (take (nat (writeoff b)) (buf b) @ take (nat ?l) user @ drop (nat (writeoff b) + nat ?l) (buf b))"
    using b len by (subst substr_ok) auto
  moreover have "substr user out ?l 0 ?w = None" if "length out = 8192" for out
    using substr_loop_fault [of "nat ?w" out 0 user "int_of_long ?l"] that b len by (simp add: substr_def)
  moreover have "length (take (nat (writeoff b)) (buf b) @ take (nat ?l) user @
      drop (nat (writeoff b) + nat ?l) (buf b)) = 8192"
    using b len by simp
  ultimately show ?thesis
    using at m lens sum vm len by (simp add: device_write_def attached_def Let_def transform_def)
qed

section \<open>Identifiers\<close>

definition ids3 :: "int list \<Rightarrow> int list \<Rightarrow> int \<Rightarrow> bool" where
  "ids3 xs ds n \<longleftrightarrow> distinct (xs @ ds) \<and> (\<forall>i \<in> set (xs @ ds). 0 < i \<and> i < n) \<and> 0 < n \<and> n < 2 ^ 31"

definition ids_ok :: "crypto_dev \<Rightarrow> bool" where
  "ids_ok s \<longleftrightarrow> ids3 (map buf_ident (dev_bufs s)) (detached_ids s) (new_id s)"

lemma ids3_new: "ids3 xs [] n \<Longrightarrow> n < 2 ^ 31 - 1 \<Longrightarrow> ids3 (n # xs) [] (n + 1) \<and> ids3 xs [] (n + 1)"
  by (fastforce simp: ids3_def)

lemma ids3_reuse: "ids3 xs (i # ds) n \<Longrightarrow> ids3 (i # xs) ds n \<and> ids3 xs ds n"
  by (auto simp: ids3_def)

lemma ids3_free: "ids3 (as @ x # bs) ds n \<Longrightarrow> ids3 (as @ bs) (x # ds) n"
  by (auto simp: ids3_def)

lemma ids3_range: "ids3 xs ds n \<Longrightarrow> i \<in> set xs \<union> set ds \<Longrightarrow> 0 < i \<and> i < 2 ^ 31 \<and> i < n"
  unfolding ids3_def by (metis UnI1 UnI2 UnE less_trans set_append)

lemma search_loop_lt: "search_loop i bs p entry = Some e \<Longrightarrow> entry \<noteq> Some e \<Longrightarrow> p \<le> e \<and> e < p + length bs"
  by (induction bs arbitrary: p entry) (fastforce split: if_splits)+

lemma search_entry_lt: "search_entry i bs = Some e \<Longrightarrow> e < length bs"
  using search_loop_lt [of i bs 0 None e] by (simp add: search_entry_def)

lemma ids_upd:
  assumes "ids_ok s" and "e < length (dev_bufs s)" and "buf_ident b = buf_ident (dev_bufs s ! e)"
  shows "ids_ok (upd_buf s e b)"
proof -
  have "map buf_ident ((dev_bufs s)[e := b]) = map buf_ident (dev_bufs s)"
    using assms(2,3) by (simp add: map_update) (metis list_update_id nth_map)
  with assms(1) show ?thesis by (simp add: ids_ok_def upd_buf_def)
qed

lemma ids_freebuf:
  assumes ok: "ids_ok s" and e: "e < length (dev_bufs s)"
  shows "ids_ok (fst (freebuf mem s e))"
proof (cases mem)
  case True
  let ?i = "buf_ident (dev_bufs s ! e)"
  have s: "dev_bufs s = take e (dev_bufs s) @ dev_bufs s ! e # drop (Suc e) (dev_bufs s)"
    using e by (rule id_take_nth_drop)
  have "?i \<in> set (map buf_ident (dev_bufs s))" using e by auto
  then have "u32 ?i = ?i" using ids3_range [OF ok [unfolded ids_ok_def], of ?i] by (intro u32_id) auto
  moreover have "ids3 (map buf_ident (take e (dev_bufs s)) @ map buf_ident (drop (Suc e) (dev_bufs s)))
      (?i # detached_ids s) (new_id s)"
    using ok arg_cong [OF s, of "map buf_ident"] by (intro ids3_free) (simp add: ids_ok_def)
  ultimately show ?thesis using True by (simp add: freebuf_def ids_ok_def drop_at_def)
qed (use ok in \<open>simp add: freebuf_def\<close>)

lemma create_ids:
  assumes ok: "ids_ok s" "new_id s < 2 ^ 31 - 1" and c: "ioc_create m1 m2 m3 s f = Some (s', f', r)"
  shows "ids_ok s'" and "r = Inr i \<Longrightarrow> 0 < i \<and> i \<notin> set (map buf_ident (dev_bufs s)) \<and>
    map buf_ident (dev_bufs s') = i # map buf_ident (dev_bufs s) \<and> map_option buf_id (private_data f') = Some i"
proof -
  obtain xs where xs: "map buf_ident (dev_bufs s) = xs" by blast
  have i3: "ids3 xs (detached_ids s) (new_id s)" using ok(1) by (simp add: ids_ok_def xs)
  have "ids_ok s' \<and> (r = Inr i \<longrightarrow> 0 < i \<and> i \<notin> set xs \<and> map buf_ident (dev_bufs s') = i # xs \<and>
      map_option buf_id (private_data f') = Some i)"
  proof (cases "detached_ids s")
    case Nil
    have "new_id s \<notin> set xs" "0 < new_id s" using i3 by (auto simp: ids3_def)
    with Nil c ids3_new [of xs "new_id s"] ok(2) i3 xs show ?thesis
      by (auto simp: ioc_create_def ids_ok_def Let_def split: bind_splits if_splits option.splits)
  next
    case (Cons j ds)
    have "int_of_long j = j" using ids3_range [OF i3, of j] Cons by (intro int_of_long_id) auto
    moreover have "j \<notin> set xs" "0 < j" using i3 Cons by (auto simp: ids3_def)
    ultimately show ?thesis using Cons c ids3_reuse [of xs j ds "new_id s"] i3 xs
      by (auto simp: ioc_create_def ids_ok_def Let_def split: bind_splits if_splits option.splits)
  qed
  then show "ids_ok s'" "r = Inr i \<Longrightarrow> 0 < i \<and> i \<notin> set (map buf_ident (dev_bufs s)) \<and>
    map buf_ident (dev_bufs s') = i # map buf_ident (dev_bufs s) \<and> map_option buf_id (private_data f') = Some i"
    using xs by auto
qed

lemma delete_ids:
  assumes ok: "ids_ok s" and d: "ioc_delete mem s f arg = Some (s', f', r)"
  shows "ids_ok s'"
proof (cases "search_entry (int_of_long arg) (dev_bufs s)")
  case None
  with ok d show ?thesis by (simp add: ioc_delete_def)
next
  case (Some e)
  with ids_freebuf [OF ok search_entry_lt [OF Some], of mem] ok d show ?thesis
    by (auto simp: ioc_delete_def Let_def split: if_splits bind_splits prod.splits)
qed

lemma attach_ids:
  assumes ok: "ids_ok s" and d: "ioc_attach s f arg = Some (s', f', r)"
  shows "ids_ok s'"
proof (cases "search_entry (int_of_long arg) (dev_bufs s)")
  case None
  with ok d show ?thesis by (auto simp: ioc_attach_def split: if_splits)
next
  case (Some e)
  with ids_upd [OF ok search_entry_lt [OF Some]] ok d show ?thesis
    by (auto simp: ioc_attach_def Let_def split: if_splits bind_splits option.splits)
qed

lemma detach_ids:
  assumes ok: "ids_ok s" and d: "ioc_detach mem s f = Some (s', f', r)"
  shows "ids_ok s'"
proof (cases "private_data f")
  case None
  with ok d show ?thesis by (simp add: ioc_detach_def)
next
  case p: (Some p)
  show ?thesis
  proof (cases "search_entry (buf_id p) (dev_bufs s)")
    case None
    with ok d p show ?thesis by (auto simp: ioc_detach_def split: if_splits)
  next
    case (Some e)
    note lt = search_entry_lt [OF Some]
    define b where "b = (dev_bufs s ! e)\<lparr>read_ref := (\<not> fmode_read f \<and> read_ref (dev_bufs s ! e)),
        write_ref := (\<not> fmode_write f \<and> write_ref (dev_bufs s ! e)),
        refcount := u32 (refcount (dev_bufs s ! e) - 1)\<rparr>"
    have 1: "ids_ok (upd_buf s e b)" by (rule ids_upd [OF ok lt]) (simp add: b_def)
    moreover have "ids_ok (fst (freebuf mem (upd_buf s e b) e))"
      by (rule ids_freebuf [OF 1]) (use lt in \<open>simp add: upd_buf_def\<close>)
    moreover have "ioc_detach mem s f = (if buf_id p = 0 then Some (s, f, Inl ENOTSUP)
        else let s = upd_buf s e b; f = f\<lparr>private_data := Some (p\<lparr>buf_id := 0\<rparr>)\<rparr>
          in if refcount b = 0
             then (let (s, r) = freebuf mem s e
                   in Some (s, f, if r = Inl ENOMEM then Inl ENOMEM else Inr 0))
             else Some (s, f, Inr 0))"
      by (simp add: ioc_detach_def p Some Let_def b_def)
    ultimately show ?thesis using ok d by (auto simp: Let_def split: if_splits prod.splits)
  qed
qed

lemma ioctl_ids:
  assumes "ids_ok s" "new_id s < 2 ^ 31 - 1" and "device_ioctl m1 m2 m3 s f cmd = Some (s', f', r)"
  shows "ids_ok s'"
proof (cases cmd)
  case CRYPTO_IOCCREATE
  with assms create_ids(1) [OF assms(1,2)] show ?thesis by (simp add: device_ioctl_def)
next
  case (CRYPTO_IOCTDELETE arg)
  with assms delete_ids [OF assms(1)] show ?thesis by (simp add: device_ioctl_def)
next
  case (CRYPTO_IOCTATTACH arg)
  with assms attach_ids [OF assms(1)] show ?thesis by (simp add: device_ioctl_def)
next
  case CRYPTO_IOCDETACH
  with assms detach_ids [OF assms(1)] show ?thesis by (simp add: device_ioctl_def)
qed (use assms in \<open>auto simp: device_ioctl_def split: bind_splits\<close>)

lemma release_ids:
  assumes ok: "ids_ok s"
  shows "ids_ok (fst (device_release mem s f))"
proof (cases "private_data f")
  case None
  with ok show ?thesis by (simp add: device_release_def)
next
  case p: (Some p)
  show ?thesis
  proof (cases "search_entry (buf_id p) (dev_bufs s)")
    case None
    with ok p show ?thesis by (simp add: device_release_def)
  next
    case (Some e)
    note lt = search_entry_lt [OF Some]
    let ?b = "(dev_bufs s ! e)\<lparr>refcount := u32 (refcount (dev_bufs s ! e) - 1)\<rparr>"
    have "ids_ok (upd_buf s e ?b)" by (rule ids_upd [OF ok lt]) simp
    moreover have "ids_ok (fst (freebuf mem (upd_buf s e ?b) e))"
      by (rule ids_freebuf [OF calculation]) (use lt in \<open>simp add: upd_buf_def\<close>)
    ultimately show ?thesis using ok p Some
      by (auto simp: device_release_def Let_def freebuf_def split: if_splits)
  qed
qed

section \<open>An example device\<close>

text \<open>One buffer, with identifier 1, that a writer which encrypts and a reader which decrypts with
  the same key are attached to.\<close>

definition vm_example :: "int \<Rightarrow> byte list option" where
  "vm_example n = (if 0 < n \<and> n < 2 ^ 40 then Some (replicate (nat n) 0) else None)"

definition buf0 :: dev_buf where
  "buf0 = \<lparr>buf_ident = 1, refcount = 2, readoff = 0, writeoff = 0, bcount = 0, buf = replicate 8192 0,
     read_ref = True, write_ref = True, enc_last = -1, dec_last = -1\<rparr>"

definition dev1 :: crypto_dev where
  "dev1 = \<lparr>new_id = 2, detached_ids = [], dev_bufs = [buf0]\<rparr>"

definition priv1 :: "crypto_encmode \<Rightarrow> crypto_encmode \<Rightarrow> priv_data" where
  "priv1 r w = \<lparr>buf_id = 1, readsmode = \<lparr>dir = CRYPTO_READ, emode = r, key = 0x19\<rparr>,
     writesmode = \<lparr>dir = CRYPTO_WRITE, emode = w, key = 0x19\<rparr>\<rparr>"

definition file1 :: "crypto_encmode \<Rightarrow> crypto_encmode \<Rightarrow> crypto_file" where
  "file1 r w = \<lparr>fmode_read = True, fmode_write = True, private_data = Some (priv1 r w)\<rparr>"

lemma vm_example_ok: "vmalloc_ok vm_example"
  by (auto simp: vmalloc_ok_def vm_example_def)

lemma dev1_attached:
  "buf_ident b = 1 \<Longrightarrow> attached (dev1\<lparr>dev_bufs := [b]\<rparr>) (file1 r w) (priv1 r w) 0 b"
  by (simp add: attached_def file1_def priv1_def search_entry_def)

section \<open>Properties\<close>

text \<open>C6: End to end, the device is a queue of bytes through which plain text passes unchanged. A
  writer encrypts on write and a reader decrypts on read under the same key; for every interleaving
  of writes and reads in which reads ask for no more than is buffered and fewer than 8192 bytes are
  written in all, the reader gets exactly the bytes that were written, in order. Every access stays
  inside its array.\<close>

theorem device_is_queue:
  assumes "attached s fw pw e b" and "emode (writesmode pw) = CRYPTO_ENC" and "key (writesmode pw) = k"
    and "attached s fr pr e b" and "emode (readsmode pr) = CRYPTO_DEC" and "key (readsmode pr) = k"
    and "stream b k w r" and "length w + written ops < 8192" and "vmalloc_ok vm"
    and "queue_ops (drop r w) ops = Some out"
  shows "\<exists>s'. run_ops vm s fw fr ops = Some (s', out)"
  using assms by (rule run_ops_queue)

theorem device_is_queue_witness:
  "\<exists>s'. run_ops vm_example dev1 (file1 CRYPTO_DEC CRYPTO_ENC) (file1 CRYPTO_DEC CRYPTO_ENC)
     [Wr [1, 2, 3], Rd 2, Wr [4, 5], Rd 3] = Some (s', [1, 2, 3, 4, 5])"
proof -
  have a: "attached dev1 (file1 CRYPTO_DEC CRYPTO_ENC) (priv1 CRYPTO_DEC CRYPTO_ENC) 0 buf0"
    using dev1_attached [of buf0 CRYPTO_DEC CRYPTO_ENC] by (simp add: dev1_def buf0_def)
  have st: "stream buf0 0x19 [] 0" by (simp add: stream_def buf0_def)
  show ?thesis
    by (rule device_is_queue [OF a _ _ a _ _ st _ vm_example_ok]) (simp_all add: priv1_def)
qed

text \<open>A read that would wrap around the end of the ring buffer never delivers data: the length of
  the second part is computed as \<open>(len - 8192) - readoff\<close>, which is negative as a \<open>size_t\<close>, so the
  read either fails with \<open>ENOMEM\<close> or writes past the end of the temporary block.\<close>

theorem wrapping_read_fails:
  assumes "attached s f p e b" and "0 \<le> readoff b" and "readoff b < BUF_SIZE" and "0 < bcount b"
    and "bcount b \<le> BUF_SIZE" and "0 < len" and "readoff b + min len (bcount b) > BUF_SIZE"
    and "\<And>n blk. vm n = Some blk \<Longrightarrow> int (length blk) = n" and "\<And>n. n \<ge> 2 ^ 63 \<Longrightarrow> vm n = None"
  shows "device_read vm user_ok s f len = None \<or> device_read vm user_ok s f len = Some (s, [], Inl ENOMEM)"
  using assms by (rule read_wrap)

theorem wrapping_read_fails_witness:
  "let s = dev1\<lparr>dev_bufs := [buf0\<lparr>readoff := 8190, writeoff := 2, bcount := 4\<rparr>]\<rparr>;
       f = file1 CRYPTO_PASSTHROUGH CRYPTO_PASSTHROUGH in
   device_read vm_example True s f 4 = None \<or> device_read vm_example True s f 4 = Some (s, [], Inl ENOMEM)"
  unfolding Let_def
  by (rule wrapping_read_fails [OF dev1_attached]) (auto simp: buf0_def vm_example_def split: if_splits)

text \<open>A write to an empty buffer is not limited: when it is longer than the rest of the buffer plus
  a whole buffer, it writes past the end of the device buffer.\<close>

theorem long_write_overflows:
  assumes "attached s f p e b" and "emode (writesmode p) = CRYPTO_PASSTHROUGH" and "bcount b = 0"
    and "0 \<le> writeoff b" and "writeoff b < BUF_SIZE" and "length (buf b) = 8192"
    and "len = int (length user)" and "len > 2 * BUF_SIZE - writeoff b" and "len < 2 ^ 31"
    and "vm len = Some blk" and "int (length blk) = len"
  shows "device_write vm True s f user len = None"
  using assms by (rule write_too_long)

theorem long_write_overflows_witness:
  "device_write vm_example True dev1 (file1 CRYPTO_PASSTHROUGH CRYPTO_PASSTHROUGH) (replicate 20000 7) 20000 = None"
proof -
  have "attached dev1 (file1 CRYPTO_PASSTHROUGH CRYPTO_PASSTHROUGH) (priv1 CRYPTO_PASSTHROUGH CRYPTO_PASSTHROUGH) 0 buf0"
    using dev1_attached [of buf0] by (simp add: dev1_def buf0_def)
  then show ?thesis
    by (rule long_write_overflows [where blk = "replicate 20000 0"])
      (simp_all add: priv1_def buf0_def vm_example_def)
qed

text \<open>Once the data in the buffer wraps around, a write can overwrite data that has not been read:
  the write succeeds in full although the buffer then counts more bytes than it holds.\<close>

theorem write_overwrites_unread:
  assumes "attached s f p e b" and "emode (writesmode p) = CRYPTO_PASSTHROUGH" and "vmalloc_ok vm"
    and "0 \<le> readoff b" and "readoff b < BUF_SIZE" and "0 < bcount b" and "bcount b \<le> BUF_SIZE"
    and "readoff b + bcount b \<ge> BUF_SIZE" and "writeoff b = readoff b + bcount b - BUF_SIZE"
    and "length (buf b) = 8192" and "len = int (length x)" and "0 < len" and "writeoff b + len < BUF_SIZE"
    and "bcount b + len > BUF_SIZE"
  shows "\<exists>b'. device_write vm True s f x len = Some (upd_buf s e b', Inr len) \<and>
    bcount b' = bcount b + len \<and> BUF_SIZE < bcount b'"
proof -
  obtain blk where blk: "vm len = Some blk" "int (length blk) = len"
  proof (rule vmalloc_okD [OF assms(3,12)])
    show "len \<le> BUF_SIZE" using assms(4,8,9,13) by linarith
  qed
  have "write_lens b len = (False, False, len, 0)"
    using assms by (simp add: write_lens_def Let_def)
  moreover have "substr x (buf b) 0 (writeoff b) len = Some (take (nat (writeoff b)) (buf b) @ x @
      drop (nat (writeoff b) + nat len) (buf b))"
    using assms by (subst substr_ok) auto
  moreover have "take (nat len) x @ drop (nat len) blk = x" using assms(11) blk(2) by simp
  ultimately have "device_write vm True s f x len = Some (upd_buf s e (b\<lparr>buf := take (nat (writeoff b)) (buf b) @ x @
      drop (nat (writeoff b) + nat len) (buf b), bcount := bcount b + len, writeoff := writeoff b + len\<rparr>), Inr len)"
    using assms blk by (simp add: device_write_def attached_def Let_def transform_def)
  with assms(14) show ?thesis by force
qed

theorem write_overwrites_unread_witness:
  "\<exists>b'. device_write vm_example True (dev1\<lparr>dev_bufs := [buf0\<lparr>readoff := 100, writeoff := 0, bcount := 8092\<rparr>]\<rparr>)
      (file1 CRYPTO_PASSTHROUGH CRYPTO_PASSTHROUGH) (replicate 200 1) 200 =
    Some (upd_buf (dev1\<lparr>dev_bufs := [buf0\<lparr>readoff := 100, writeoff := 0, bcount := 8092\<rparr>]\<rparr>) 0 b', Inr 200) \<and>
    BUF_SIZE < bcount b'"
  using write_overwrites_unread [OF dev1_attached [of "buf0\<lparr>readoff := 100, writeoff := 0, bcount := 8092\<rparr>"
      CRYPTO_PASSTHROUGH CRYPTO_PASSTHROUGH], of vm_example 200 "replicate 200 1"] vm_example_ok
  by (auto simp: priv1_def buf0_def)

text \<open>C7: The identifiers of existing buffers and of released ones are positive and pairwise different
  after every control operation, so \<open>CRYPTO_IOCCREATE\<close> returns a positive identifier that no existing
  buffer has.\<close>

theorem identifiers_unique:
  assumes "ids_ok s" and "new_id s < 2 ^ 31 - 1" and "device_ioctl m1 m2 m3 s f cmd = Some (s', f', r)"
  shows "ids_ok s' \<and> (cmd = CRYPTO_IOCCREATE \<and> r = Inr i \<longrightarrow> 0 < i \<and>
    i \<notin> set (map buf_ident (dev_bufs s)) \<and> map buf_ident (dev_bufs s') = i # map buf_ident (dev_bufs s))"
  using ioctl_ids [OF assms] create_ids(2) [OF assms(1,2), of m1 m2 m3 f s' f' r i] assms(3)
  by (auto simp: device_ioctl_def)

theorem identifiers_unique_witness:
  "ids_ok (fst (the (device_ioctl True (Some []) True (dev1\<lparr>detached_ids := [7], new_id := 9\<rparr>)
     ((file1 CRYPTO_DEC CRYPTO_ENC)\<lparr>private_data := Some ((priv1 CRYPTO_DEC CRYPTO_ENC)\<lparr>buf_id := 0\<rparr>)\<rparr>) CRYPTO_IOCCREATE)))"
proof -
  let ?s = "dev1\<lparr>detached_ids := [7], new_id := 9\<rparr>"
  let ?f = "(file1 CRYPTO_DEC CRYPTO_ENC)\<lparr>private_data := Some ((priv1 CRYPTO_DEC CRYPTO_ENC)\<lparr>buf_id := 0\<rparr>)\<rparr>"
  have "ids_ok ?s" by (simp add: ids_ok_def ids3_def dev1_def buf0_def)
  moreover obtain s' f' r where "device_ioctl True (Some []) True ?s ?f CRYPTO_IOCCREATE = Some (s', f', r)"
    by (simp add: device_ioctl_def ioc_create_def dev1_def priv1_def)
  ultimately show ?thesis using identifiers_unique [of ?s True "Some []" True ?f CRYPTO_IOCCREATE s' f' r]
    by (simp add: dev1_def)
qed

text \<open>Attaching to an identifier that no buffer has does not fail with \<open>EINVAL\<close>, as the header
  promises, when there are buffers: it attaches the file to the oldest buffer, because the search
  leaves the caller's pointer at the last entry.\<close>

theorem attach_unknown_identifier:
  assumes "private_data f = Some p" and "buf_id p = 0" and "dev_bufs s = bs @ [b]"
    and "int_of_long arg \<notin> set (map buf_ident (dev_bufs s))"
    and "\<not> (fmode_read f \<and> read_ref b)" and "\<not> (fmode_write f \<and> write_ref b)"
  shows "\<exists>s'. ioc_attach s f arg = Some (s', f\<lparr>private_data := Some (p\<lparr>buf_id := buf_ident b\<rparr>)\<rparr>, Inr 0)"
proof -
  have "search_loop i (xs @ [b]) n entry = Some (n + length xs)" if "i \<notin> set (map buf_ident (xs @ [b]))"
    for i xs n entry
    using that by (induction xs arbitrary: n entry) auto
  then have "search_entry (int_of_long arg) (dev_bufs s) = Some (length bs)"
    using assms(3,4) by (simp add: search_entry_def)
  with assms show ?thesis by (simp add: ioc_attach_def Let_def)
qed

theorem attach_unknown_identifier_witness:
  "\<exists>s' f'. ioc_attach (dev1\<lparr>dev_bufs := [buf0\<lparr>read_ref := False, write_ref := False\<rparr>]\<rparr>)
     ((file1 CRYPTO_DEC CRYPTO_ENC)\<lparr>private_data := Some ((priv1 CRYPTO_DEC CRYPTO_ENC)\<lparr>buf_id := 0\<rparr>)\<rparr>) 77 =
     Some (s', f', Inr 0)"
  using attach_unknown_identifier [of "(file1 CRYPTO_DEC CRYPTO_ENC)\<lparr>private_data :=
      Some ((priv1 CRYPTO_DEC CRYPTO_ENC)\<lparr>buf_id := 0\<rparr>)\<rparr>" "(priv1 CRYPTO_DEC CRYPTO_ENC)\<lparr>buf_id := 0\<rparr>"
      "dev1\<lparr>dev_bufs := [buf0\<lparr>read_ref := False, write_ref := False\<rparr>]\<rparr>" "[]"
      "buf0\<lparr>read_ref := False, write_ref := False\<rparr>" 77]
  by (auto simp: buf0_def)

end
