(* ===== verification/Ext2_Dir.thy ===== *)
theory Ext2_Dir
  imports Prelude
begin

text \<open>
  Directories of the ext2 file system as changed by the assignment, a3/dir.c. A directory is an
  inode whose pages hold records of variable length. The model keeps, for every offset of a
  page, the record that starts there (its inode number, its length on disk, the length and the
  bytes of its name, its type); that records overlap in memory is not modelled, the walks of the
  code only visit offsets that a preceding record leads to. Pages have 4096 bytes; the chunk
  size is the block size of the file system, a power of two, and the masks of the source are
  written as \<open>div\<close> and \<open>mod\<close>.

  Page cache and disk are arguments: \<open>rd n\<close> is the error of reading page \<open>n\<close>, if any, \<open>wb\<close> the
  result of \<open>__ext2_write_begin\<close>, an error or the number of sectors the inode has afterwards (it
  may allocate a block), \<open>sync\<close> the error of writing the page of a directory mounted
  with \<open>dirsync\<close>, \<open>now\<close> the current time. Mapping, locking and releasing pages have no effect
  on the contents and are left out. The last result of an operation is \<open>Inl e\<close> for \<open>-e\<close>.
\<close>

section \<open>State\<close>

type_synonym byte = "8 word"

abbreviation PAGE_CACHE_SIZE :: nat where "PAGE_CACHE_SIZE \<equiv> 4096"

record ext2_dirent =
  de_inode :: nat
  rec_len :: "16 word"
  name_len :: nat
  file_type :: nat
  de_name :: "byte list"

type_synonym dpage = "nat \<Rightarrow> ext2_dirent"

text \<open>The superblock: block size, number of inodes, the incompatible feature \<open>FILETYPE\<close>.\<close>

record ext2_sb =
  s_blocksize :: nat
  s_inodes_count :: nat
  s_filetype :: bool

text \<open>An inode with its page cache; \<open>dpages\<close> are the pages of a directory, \<open>fpages\<close> those of a
  file. \<open>p_checked\<close> and \<open>p_error\<close> are the flags of the directory pages. \<open>i_flags\<close> are the flags of
  ext2, \<open>i_vflags\<close> those of the VFS inode; \<open>i_sbsync\<close> tells whether the file system is mounted with
  \<open>sync\<close> or \<open>dirsync\<close>.\<close>

record inode =
  i_ino :: nat
  i_mode :: "16 word"
  i_nlink :: "32 word"
  i_size :: nat
  i_blocks :: nat
  i_data :: "byte list"
  i_flags :: "32 word"
  i_dir_start_lookup :: nat
  i_version :: nat
  i_mtime :: nat
  i_ctime :: nat
  i_atime :: nat
  i_uid :: nat
  i_gid :: nat
  i_generation :: "32 word"
  i_block_group :: nat
  i_vflags :: "32 word"
  i_sbsync :: bool
  i_dirty :: bool
  dpages :: "nat \<Rightarrow> dpage"
  fpages :: "nat \<Rightarrow> byte list"
  p_checked :: "nat \<Rightarrow> bool"
  p_error :: "nat \<Rightarrow> bool"

section \<open>Record lengths\<close>

definition u32_sub :: "nat \<Rightarrow> nat \<Rightarrow> nat" where
  "u32_sub a b = nat ((int a - int b) mod 2 ^ 32)"

definition EXT2_DIR_REC_LEN :: "nat \<Rightarrow> nat" where
  "EXT2_DIR_REC_LEN n = (n + 8 + 3) div 4 * 4"

abbreviation EXT2_MAX_REC_LEN :: "16 word" where "EXT2_MAX_REC_LEN \<equiv> 0xFFFF"

definition ext2_rec_len_from_disk :: "16 word \<Rightarrow> nat" where
  "ext2_rec_len_from_disk dlen = (if dlen = EXT2_MAX_REC_LEN then 2 ^ 16 else unat dlen)"

lemma rec_len_pos: "w \<noteq> 0 \<Longrightarrow> 0 < ext2_rec_len_from_disk w"
  by (simp add: ext2_rec_len_from_disk_def unat_gt_0)

text \<open>\<open>None\<close> where the kernel hits \<open>BUG_ON\<close>.\<close>

definition ext2_rec_len_to_disk :: "nat \<Rightarrow> (16 word) option" where
  "ext2_rec_len_to_disk len =
     (if len = 2 ^ 16 then Some EXT2_MAX_REC_LEN
      else if len > 2 ^ 16 then None
      else Some (of_nat len))"

definition ext2_chunk_size :: "ext2_sb \<Rightarrow> nat" where
  "ext2_chunk_size sb = s_blocksize sb"

definition dir_pages :: "inode \<Rightarrow> nat" where
  "dir_pages dir = (i_size dir + PAGE_CACHE_SIZE - 1) div PAGE_CACHE_SIZE"

definition ext2_last_byte :: "inode \<Rightarrow> nat \<Rightarrow> nat" where
  "ext2_last_byte dir n =
     (let last_byte = u32_sub (i_size dir) (n * PAGE_CACHE_SIZE) in
      if last_byte > PAGE_CACHE_SIZE then PAGE_CACHE_SIZE else last_byte)"

definition rlen :: "dpage \<Rightarrow> nat \<Rightarrow> nat" where
  "rlen p off = ext2_rec_len_from_disk (rec_len (p off))"

section \<open>Checking and reading pages\<close>

abbreviation S_SYNC :: "32 word" where "S_SYNC \<equiv> 1"
abbreviation S_DIRSYNC :: "32 word" where "S_DIRSYNC \<equiv> 64"

definition IS_DIRSYNC :: "inode \<Rightarrow> bool" where
  "IS_DIRSYNC dir \<longleftrightarrow> i_sbsync dir \<or> and (i_vflags dir) (or S_SYNC S_DIRSYNC) \<noteq> 0"

definition ext2_commit_chunk :: "errno option \<Rightarrow> inode \<Rightarrow> nat \<Rightarrow> nat \<Rightarrow> inode \<times> errno option" where
  "ext2_commit_chunk sync dir pos len =
     (let dir = dir\<lparr>i_version := i_version dir + 1\<rparr>;
          dir = (if pos + len > i_size dir then dir\<lparr>i_size := pos + len, i_dirty := True\<rparr> else dir)
      in (dir, if IS_DIRSYNC dir then sync else None))"

text \<open>The reasons why a page is rejected.\<close>

datatype dir_error = Ebadsize | Eshort | Ealign | Enamelen | Espan | Einumber | Eend

definition bad_entry :: "nat \<Rightarrow> nat \<Rightarrow> ext2_dirent \<Rightarrow> nat \<Rightarrow> dir_error option" where
  "bad_entry chunk max_inumber de offs =
     (let len = ext2_rec_len_from_disk (rec_len de) in
      if len < EXT2_DIR_REC_LEN 1 then Some Eshort
      else if len mod 4 \<noteq> 0 then Some Ealign
      else if len < EXT2_DIR_REC_LEN (name_len de) then Some Enamelen
      else if (offs + len - 1) div chunk \<noteq> offs div chunk then Some Espan
      else if de_inode de > max_inumber then Some Einumber
      else None)"

function check_loop :: "nat \<Rightarrow> nat \<Rightarrow> dpage \<Rightarrow> nat \<Rightarrow> nat \<Rightarrow> dir_error option" where
  "check_loop chunk max_inumber p limit offs =
     (if offs \<le> u32_sub limit (EXT2_DIR_REC_LEN 1)
      then (case bad_entry chunk max_inumber (p offs) offs of
              Some e \<Rightarrow> Some e
            | None \<Rightarrow> check_loop chunk max_inumber p limit (offs + rlen p offs))
      else if offs \<noteq> limit then Some Eend
      else None)"
  by pat_completeness auto
termination
  by (relation "measure (\<lambda>(_, _, p, limit, offs). Suc (u32_sub limit (EXT2_DIR_REC_LEN 1)) - offs)")
    (auto simp: bad_entry_def Let_def EXT2_DIR_REC_LEN_def rlen_def split: if_splits)

definition ext2_check_page :: "ext2_sb \<Rightarrow> inode \<Rightarrow> nat \<Rightarrow> dir_error option" where
  "ext2_check_page sb dir n =
     (let chunk = ext2_chunk_size sb;
          last = (i_size dir div PAGE_CACHE_SIZE = n);
          limit = (if last then i_size dir mod PAGE_CACHE_SIZE else PAGE_CACHE_SIZE)
      in if last \<and> limit mod chunk \<noteq> 0 then Some Ebadsize
         else if last \<and> limit = 0 then None
         else check_loop chunk (s_inodes_count sb) (dpages dir n) limit 0)"

definition ext2_get_page :: "(nat \<Rightarrow> errno option) \<Rightarrow> ext2_sb \<Rightarrow> inode \<Rightarrow> nat \<Rightarrow> inode \<times> (errno + dpage)" where
  "ext2_get_page rd sb dir n =
     (case rd n of
        Some e \<Rightarrow> (dir, Inl e)
      | None \<Rightarrow>
          let dir = (if p_checked dir n then dir
                     else dir\<lparr>p_checked := (p_checked dir)(n := True),
                              p_error := (p_error dir)(n := p_error dir n \<or> ext2_check_page sb dir n \<noteq> None)\<rparr>)
          in if p_error dir n then (dir, Inl EIO) else (dir, Inr (dpages dir n)))"

section \<open>Entries\<close>

definition ext2_match :: "nat \<Rightarrow> byte list \<Rightarrow> ext2_dirent \<Rightarrow> bool" where
  "ext2_match len name de \<longleftrightarrow> len = name_len de \<and> de_inode de \<noteq> 0 \<and> take len name = take len (de_name de)"

definition ext2_next_entry :: "dpage \<Rightarrow> nat \<Rightarrow> nat" where
  "ext2_next_entry p off = off + ext2_rec_len_from_disk (rec_len (p off))"

function validate_loop :: "dpage \<Rightarrow> nat \<Rightarrow> nat \<Rightarrow> nat" where
  "validate_loop p off q =
     (if q < off then if rec_len (p q) = 0 then q else validate_loop p off (ext2_next_entry p q) else q)"
  by pat_completeness auto
termination
  by (relation "measure (\<lambda>(_, off, q). off - q)")
    (auto simp: ext2_next_entry_def dest: rec_len_pos)

definition ext2_validate_entry :: "dpage \<Rightarrow> nat \<Rightarrow> nat \<Rightarrow> nat" where
  "ext2_validate_entry p offset chunk = validate_loop p offset (offset - offset mod chunk)"

text \<open>File types: the constants of the kernel headers and the two tables. Modes are octal in the
  source; \<open>S_IFMT\<close> is \<open>0170000\<close>, and the assignment adds the type \<open>S_IFIM\<close> for immediate files.\<close>

abbreviation S_IFMT :: "16 word" where "S_IFMT \<equiv> 0xF000"
abbreviation S_IFIM :: "16 word" where "S_IFIM \<equiv> 0xE000"
abbreviation S_IFREG :: "16 word" where "S_IFREG \<equiv> 0x8000"
abbreviation S_IFDIR :: "16 word" where "S_IFDIR \<equiv> 0x4000"
abbreviation S_IFLNK :: "16 word" where "S_IFLNK \<equiv> 0xA000"

definition S_ISIM :: "16 word \<Rightarrow> bool" where "S_ISIM m \<longleftrightarrow> and m S_IFMT = S_IFIM"
definition S_ISREG :: "16 word \<Rightarrow> bool" where "S_ISREG m \<longleftrightarrow> and m S_IFMT = S_IFREG"
definition S_ISDIR :: "16 word \<Rightarrow> bool" where "S_ISDIR m \<longleftrightarrow> and m S_IFMT = S_IFDIR"

abbreviation EXT2_FT_MAX :: nat where "EXT2_FT_MAX \<equiv> 8"
abbreviation DT_UNKNOWN :: nat where "DT_UNKNOWN \<equiv> 0"
abbreviation DT_IM :: nat where "DT_IM \<equiv> 16"

definition ext2_filetype_table :: "nat list" where
  "ext2_filetype_table = [0, 8, 4, 2, 6, 1, 12, 10]"

text \<open>Indexed by the four type bits; entries the source does not initialise are \<open>0\<close>. The table has
  15 entries, \<open>0 .. 14\<close>.\<close>

definition ext2_type_by_mode :: "nat list" where
  "ext2_type_by_mode = [0, 5, 3, 0, 2, 0, 4, 0, 1, 0, 7, 0, 6, 0, 0]"

definition ext2_set_de_type :: "ext2_sb \<Rightarrow> ext2_dirent \<Rightarrow> 16 word \<Rightarrow> ext2_dirent" where
  "ext2_set_de_type sb de mode =
     (if s_filetype sb
      then if S_ISIM mode then de\<lparr>file_type := 8\<rparr>
        else de\<lparr>file_type := ext2_type_by_mode ! unat (drop_bit 12 (and mode S_IFMT))\<rparr>
      else de\<lparr>file_type := 0\<rparr>)"

section \<open>Listing a directory\<close>

text \<open>\<open>filldir\<close> takes the name, the position, the inode number and the type of an entry, updates the
  buffer of the caller and tells whether it is full.\<close>

type_synonym 'a filldir = "'a \<Rightarrow> byte list \<Rightarrow> nat \<Rightarrow> nat \<Rightarrow> nat \<Rightarrow> 'a \<times> bool"

datatype 'a readdir_res = Page_done nat 'a | Full nat 'a | Zero_len nat 'a

definition d_type_of :: "ext2_sb \<Rightarrow> nat \<Rightarrow> nat" where
  "d_type_of sb ft =
     (if ft = 8 then DT_IM
      else if s_filetype sb \<and> ft < EXT2_FT_MAX then ext2_filetype_table ! ft
      else DT_UNKNOWN)"

function readdir_page ::
  "ext2_sb \<Rightarrow> 'a filldir \<Rightarrow> dpage \<Rightarrow> nat \<Rightarrow> int \<Rightarrow> nat \<Rightarrow> nat \<Rightarrow> 'a \<Rightarrow> 'a readdir_res" where
  "readdir_page sb filldir p n limit off fpos buf =
     (if int off \<le> limit
      then if rec_len (p off) = 0 then Zero_len fpos buf
        else
          let de = p off;
              (buf, over) = (if de_inode de \<noteq> 0
                then filldir buf (take (name_len de) (de_name de)) (n * PAGE_CACHE_SIZE + off) (de_inode de)
                       (d_type_of sb (file_type de))
                else (buf, False))
          in if over then Full fpos buf
             else readdir_page sb filldir p n limit (ext2_next_entry p off) (fpos + rlen p off) buf
      else Page_done fpos buf)"
  by pat_completeness auto
termination
  by (relation "measure (\<lambda>(_, _, p, _, limit, off, _). nat (limit + 1 - int off))")
    (auto simp: ext2_next_entry_def dest: rec_len_pos)

text \<open>The loop over the pages \<open>ns\<close>; \<open>revalidate\<close> tells whether the directory changed since the
  last call. The result is the directory (pages may have been checked), the file position, the
  buffer and the error.\<close>

fun readdir_loop ::
  "(nat \<Rightarrow> errno option) \<Rightarrow> ext2_sb \<Rightarrow> 'a filldir \<Rightarrow> nat list \<Rightarrow> inode \<Rightarrow> bool \<Rightarrow> nat \<Rightarrow> nat \<Rightarrow> 'a \<Rightarrow>
     inode \<times> nat \<times> bool \<times> 'a \<times> errno option" where
  "readdir_loop rd sb filldir [] dir revalidate offset fpos buf = (dir, fpos, revalidate, buf, None)"
| "readdir_loop rd sb filldir (n # ns) dir revalidate offset fpos buf =
     (case ext2_get_page rd sb dir n of
        (dir, Inl e) \<Rightarrow> (dir, fpos + PAGE_CACHE_SIZE - offset, revalidate, buf, Some e)
      | (dir, Inr p) \<Rightarrow>
          let off = (if revalidate \<and> offset \<noteq> 0 then ext2_validate_entry p offset (ext2_chunk_size sb) else offset);
              fpos = (if revalidate \<and> offset \<noteq> 0 then n * PAGE_CACHE_SIZE + off else fpos);
              limit = int (ext2_last_byte dir n) - int (EXT2_DIR_REC_LEN 1)
          in (case readdir_page sb filldir p n limit off fpos buf of
                Zero_len fpos buf \<Rightarrow> (dir, fpos, False, buf, Some EIO)
              | Full fpos buf \<Rightarrow> (dir, fpos, False, buf, None)
              | Page_done fpos buf \<Rightarrow> readdir_loop rd sb filldir ns dir False 0 fpos buf))"

text \<open>\<open>fversion\<close> is the version of the directory when the position was stored.\<close>

definition ext2_readdir ::
  "(nat \<Rightarrow> errno option) \<Rightarrow> ext2_sb \<Rightarrow> 'a filldir \<Rightarrow> inode \<Rightarrow> nat \<Rightarrow> nat \<Rightarrow> 'a \<Rightarrow>
     inode \<times> nat \<times> nat \<times> 'a \<times> errno option" where
  "ext2_readdir rd sb filldir dir fpos fversion buf =
     (if int fpos > int (i_size dir) - int (EXT2_DIR_REC_LEN 1) then (dir, fpos, fversion, buf, None)
      else
        (case readdir_loop rd sb filldir [fpos div PAGE_CACHE_SIZE ..< dir_pages dir] dir
                (fversion \<noteq> i_version dir) (fpos mod PAGE_CACHE_SIZE) fpos buf of
           (dir', fpos, revalidate, buf, err) \<Rightarrow>
             (dir', fpos, if revalidate then fversion else i_version dir, buf, err)))"

section \<open>Looking up names\<close>

datatype find_res = Found nat | Not_here | Zero_entry

function find_loop :: "dpage \<Rightarrow> byte list \<Rightarrow> nat \<Rightarrow> int \<Rightarrow> nat \<Rightarrow> find_res" where
  "find_loop p name len bound off =
     (if int off \<le> bound
      then if rec_len (p off) = 0 then Zero_entry
        else if ext2_match len name (p off) then Found off
        else find_loop p name len bound (ext2_next_entry p off)
      else Not_here)"
  by pat_completeness auto
termination
  by (relation "measure (\<lambda>(p, _, _, bound, off). nat (bound + 1 - int off))")
    (auto simp: ext2_next_entry_def dest: rec_len_pos)

text \<open>The loop over the pages, starting at page \<open>n\<close> and wrapping around to \<open>start\<close>; \<open>fuel\<close> is the
  number of pages, after which \<open>n\<close> is back at \<open>start\<close> (lemma \<open>find_pages_bound\<close> shows that more fuel changes nothing). The result is the page number and the
  offset of the entry.\<close>

fun find_pages ::
  "(nat \<Rightarrow> errno option) \<Rightarrow> ext2_sb \<Rightarrow> byte list \<Rightarrow> nat \<Rightarrow> nat \<Rightarrow> nat \<Rightarrow> nat \<Rightarrow> inode \<Rightarrow> inode \<times> (nat \<times> nat) option" where
  "find_pages rd sb name len start 0 n dir = (dir, None)"
| "find_pages rd sb name len start (Suc fuel) n dir =
     (case ext2_get_page rd sb dir n of (dir, page) \<Rightarrow>
        let reclen = EXT2_DIR_REC_LEN len;
            res = (case page of Inl _ \<Rightarrow> Not_here
                   | Inr p \<Rightarrow> find_loop p name len (int (ext2_last_byte dir n) - int reclen) 0)
        in (case res of
              Found off \<Rightarrow> (dir\<lparr>i_dir_start_lookup := n\<rparr>, Some (n, off))
            | Zero_entry \<Rightarrow> (dir, None)
            | Not_here \<Rightarrow>
                let n = (if n + 1 \<ge> dir_pages dir then 0 else n + 1)
                in if n > i_blocks dir div 8 then (dir, None)
                   else if n = start then (dir, None)
                   else find_pages rd sb name len start fuel n dir))"

definition ext2_find_entry ::
  "(nat \<Rightarrow> errno option) \<Rightarrow> ext2_sb \<Rightarrow> inode \<Rightarrow> byte list \<Rightarrow> inode \<times> (nat \<times> nat) option" where
  "ext2_find_entry rd sb dir name =
     (let npages = dir_pages dir in
      if npages = 0 then (dir, None)
      else
        let start = (if i_dir_start_lookup dir \<ge> npages then 0 else i_dir_start_lookup dir)
        in find_pages rd sb name (length name) start npages start dir)"

definition ext2_dotdot :: "(nat \<Rightarrow> errno option) \<Rightarrow> ext2_sb \<Rightarrow> inode \<Rightarrow> inode \<times> (nat \<times> nat) option" where
  "ext2_dotdot rd sb dir =
     (case ext2_get_page rd sb dir 0 of
        (dir, Inl _) \<Rightarrow> (dir, None)
      | (dir, Inr p) \<Rightarrow> (dir, Some (0, ext2_next_entry p 0)))"

definition ext2_inode_by_name ::
  "(nat \<Rightarrow> errno option) \<Rightarrow> ext2_sb \<Rightarrow> inode \<Rightarrow> byte list \<Rightarrow> inode \<times> nat" where
  "ext2_inode_by_name rd sb dir name =
     (case ext2_find_entry rd sb dir name of
        (dir, Some (n, off)) \<Rightarrow> (dir, de_inode (dpages dir n off))
      | (dir, None) \<Rightarrow> (dir, 0))"

section \<open>Changing entries\<close>

definition EXT2_BTREE_FL :: "32 word" where "EXT2_BTREE_FL = 0x1000"

definition set_page :: "inode \<Rightarrow> nat \<Rightarrow> dpage \<Rightarrow> inode" where
  "set_page dir n p = dir\<lparr>dpages := (dpages dir)(n := p)\<rparr>"

text \<open>What all three operations do to the directory inode at the end.\<close>

definition touch_dir :: "nat \<Rightarrow> inode \<Rightarrow> inode" where
  "touch_dir now dir = dir\<lparr>i_mtime := now, i_ctime := now,
     i_flags := and (i_flags dir) (not EXT2_BTREE_FL), i_dirty := True\<rparr>"

definition ext2_set_link ::
  "errno + nat \<Rightarrow> errno option \<Rightarrow> nat \<Rightarrow> ext2_sb \<Rightarrow> inode \<Rightarrow> nat \<times> nat \<Rightarrow> nat \<Rightarrow> 16 word \<Rightarrow> bool \<Rightarrow> inode option" where
  "ext2_set_link wb sync now sb dir loc ino mode update_times =
     (case loc of (n, off) \<Rightarrow>
        let p = dpages dir n;
            pos = n * PAGE_CACHE_SIZE + off;
            len = rlen p off
        in (case wb of
             Inl _ \<Rightarrow> None
           | Inr b \<Rightarrow>
             let de = ext2_set_de_type sb ((p off)\<lparr>de_inode := ino\<rparr>) mode;
                 dir = fst (ext2_commit_chunk sync (set_page (dir\<lparr>i_blocks := b\<rparr>) n (p(off := de))) pos len);
                 dir = (if update_times then dir\<lparr>i_mtime := now, i_ctime := now\<rparr> else dir)
             in Some (dir\<lparr>i_flags := and (i_flags dir) (not EXT2_BTREE_FL), i_dirty := True\<rparr>)))"

text \<open>The search for room in a page. \<open>Got p off rl nl\<close>: the new entry goes to the record at \<open>off\<close>,
  of length \<open>rl\<close>, of which the first \<open>nl\<close> bytes are needed by the entry there. The lengths are
  stored in variables of 16 bits; \<open>None\<close> means that the loop does not end.\<close>

datatype add_res = Got dpage nat nat nat | Add_err errno | Next_page

partial_function (option) add_scan ::
  "nat \<Rightarrow> nat \<Rightarrow> byte list \<Rightarrow> dpage \<Rightarrow> nat \<Rightarrow> add_res option" where
  "add_scan chunk dir_end name p off =
     (let reclen = EXT2_DIR_REC_LEN (length name) in
      if int off \<le> int PAGE_CACHE_SIZE - int reclen
      then if off = dir_end
        then do {
          rl \<leftarrow> ext2_rec_len_to_disk chunk;
          Some (Got (p(off := (p off)\<lparr>rec_len := rl, de_inode := 0\<rparr>)) off (chunk mod 2 ^ 16) 0)
        }
        else if rec_len (p off) = 0 then Some (Add_err EIO)
        else if ext2_match (length name) name (p off) then Some (Add_err EEXIST)
        else
          let nl = EXT2_DIR_REC_LEN (name_len (p off)) mod 2 ^ 16;
              rl = rlen p off mod 2 ^ 16
          in if de_inode (p off) = 0 \<and> rl \<ge> reclen then Some (Got p off rl nl)
             else if rl \<ge> nl + reclen then Some (Got p off rl nl)
             else add_scan chunk dir_end name p (off + rl)
      else Some Next_page)"

declare add_scan.simps [code]

text \<open>Filling in the entry, after \<open>got_it\<close>.\<close>

definition put_entry ::
  "errno option \<Rightarrow> nat \<Rightarrow> ext2_sb \<Rightarrow> inode \<Rightarrow> nat \<Rightarrow> dpage \<Rightarrow> nat \<Rightarrow> nat \<Rightarrow> nat \<Rightarrow> byte list \<Rightarrow> nat \<Rightarrow> 16 word \<Rightarrow>
     (inode \<times> errno option) option" where
  "put_entry sync now sb dir n p off rl nl name ino mode =
     do {
       (p, off') \<leftarrow>
         (if de_inode (p off) \<noteq> 0
          then do {
            l1 \<leftarrow> ext2_rec_len_to_disk (rl - nl);
            l0 \<leftarrow> ext2_rec_len_to_disk nl;
            let p = p(off + nl := (p (off + nl))\<lparr>rec_len := l1\<rparr>);
            let p = p(off := (p off)\<lparr>rec_len := l0\<rparr>);
            Some (p, off + nl)
          }
          else Some (p, off));
       let de = (p off')\<lparr>name_len := length name,
                   de_name := name @ drop (length name) (de_name (p off')), de_inode := ino\<rparr>;
       let p = p(off' := ext2_set_de_type sb de mode);
       let (dir, err) = ext2_commit_chunk sync (set_page dir n p) (n * PAGE_CACHE_SIZE + off) rl;
       Some (touch_dir now dir, err)
     }"

fun add_pages ::
  "(nat \<Rightarrow> errno option) \<Rightarrow> errno + nat \<Rightarrow> errno option \<Rightarrow> nat \<Rightarrow> ext2_sb \<Rightarrow> byte list \<Rightarrow> nat \<Rightarrow> 16 word \<Rightarrow>
     nat list \<Rightarrow> inode \<Rightarrow> (inode \<times> errno option) option" where
  "add_pages rd wb sync now sb name ino mode [] dir = None"
| "add_pages rd wb sync now sb name ino mode (n # ns) dir =
     (case ext2_get_page rd sb dir n of
        (dir, Inl e) \<Rightarrow> Some (dir, Some e)
      | (dir, Inr p) \<Rightarrow> do {
          r \<leftarrow> add_scan (ext2_chunk_size sb) (ext2_last_byte dir n) name p 0;
          (case r of
             Add_err e \<Rightarrow> Some (dir, Some e)
           | Next_page \<Rightarrow> add_pages rd wb sync now sb name ino mode ns dir
           | Got p off rl nl \<Rightarrow>
               (case wb of
                  Inl e \<Rightarrow> Some (set_page dir n p, Some e)
                | Inr b \<Rightarrow> put_entry sync now sb (dir\<lparr>i_blocks := b\<rparr>) n p off rl nl name ino mode))
        })"

definition ext2_add_link ::
  "(nat \<Rightarrow> errno option) \<Rightarrow> errno + nat \<Rightarrow> errno option \<Rightarrow> nat \<Rightarrow> ext2_sb \<Rightarrow> inode \<Rightarrow> byte list \<Rightarrow> nat \<Rightarrow> 16 word \<Rightarrow>
     (inode \<times> errno option) option" where
  "ext2_add_link rd wb sync now sb dir name ino mode =
     add_pages rd wb sync now sb name ino mode [0..<dir_pages dir + 1] dir"

text \<open>The search for the predecessor of the entry at \<open>off\<close> within its chunk.\<close>

function delete_scan :: "dpage \<Rightarrow> nat \<Rightarrow> nat option \<Rightarrow> nat \<Rightarrow> errno + nat option" where
  "delete_scan p off pde de =
     (if de < off
      then if rec_len (p de) = 0 then Inl EIO
        else delete_scan p off (Some de) (ext2_next_entry p de)
      else Inr pde)"
  by pat_completeness auto
termination
  by (relation "measure (\<lambda>(_, off, _, de). off - de)")
    (auto simp: ext2_next_entry_def dest: rec_len_pos)

definition ext2_delete_entry ::
  "errno + nat \<Rightarrow> errno option \<Rightarrow> nat \<Rightarrow> ext2_sb \<Rightarrow> inode \<Rightarrow> nat \<times> nat \<Rightarrow> (inode \<times> errno option) option" where
  "ext2_delete_entry wb sync now sb dir loc =
     (case loc of (n, off) \<Rightarrow>
        let p = dpages dir n;
            from = off - off mod ext2_chunk_size sb;
            to = off + rlen p off
        in (case delete_scan p off None from of
              Inl e \<Rightarrow> Some (dir, Some e)
            | Inr pde \<Rightarrow>
                let from = (case pde of Some q \<Rightarrow> q | None \<Rightarrow> from)
                in (case wb of
                     Inl _ \<Rightarrow> None
                   | Inr b \<Rightarrow> do {
                     p \<leftarrow> (case pde of
                            None \<Rightarrow> Some p
                          | Some q \<Rightarrow> do {
                              l \<leftarrow> ext2_rec_len_to_disk (to - from);
                              Some (p(q := (p q)\<lparr>rec_len := l\<rparr>))
                            });
                     let p = p(off := (p off)\<lparr>de_inode := 0\<rparr>);
                     let (dir, err) = ext2_commit_chunk sync (set_page (dir\<lparr>i_blocks := b\<rparr>) n p)
                                        (n * PAGE_CACHE_SIZE + from) (to - from);
                     Some (touch_dir now dir, err)
                   })))"

section \<open>Empty directories\<close>

definition zero_dirent :: ext2_dirent where
  "zero_dirent = \<lparr>de_inode = 0, rec_len = 0, name_len = 0, file_type = 0, de_name = []\<rparr>"

definition byte_at :: "byte list \<Rightarrow> nat \<Rightarrow> byte" where
  "byte_at bs i = (if i < length bs then bs ! i else 0)"

text \<open>\<open>mem\<close>: whether \<open>grab_cache_page\<close> succeeds. The first entry is \<open>.\<close>, the second \<open>..\<close>.\<close>

definition ext2_make_empty ::
  "bool \<Rightarrow> errno + nat \<Rightarrow> errno option \<Rightarrow> ext2_sb \<Rightarrow> inode \<Rightarrow> nat \<Rightarrow> (inode \<times> errno option) option" where
  "ext2_make_empty mem wb sync sb dir parent =
     (if \<not> mem then Some (dir, Some ENOMEM)
      else (case wb of
        Inl e \<Rightarrow> Some (dir, Some e)
      | Inr b \<Rightarrow> do {
        let chunk = ext2_chunk_size sb;
        l1 \<leftarrow> ext2_rec_len_to_disk (EXT2_DIR_REC_LEN 1);
        l2 \<leftarrow> ext2_rec_len_to_disk (u32_sub chunk (EXT2_DIR_REC_LEN 1));
        let p = (\<lambda>i. if i < chunk then zero_dirent else dpages dir 0 i);
        let p = p(0 := ext2_set_de_type sb (zero_dirent\<lparr>name_len := 1, rec_len := l1,
                         de_name := [0x2E, 0, 0, 0], de_inode := i_ino dir\<rparr>) (i_mode dir));
        let p = p(EXT2_DIR_REC_LEN 1 := ext2_set_de_type sb (zero_dirent\<lparr>name_len := 2, rec_len := l2,
                         de_inode := parent, de_name := [0x2E, 0x2E, 0, 0]\<rparr>) (i_mode dir));
        Some (ext2_commit_chunk sync (set_page (dir\<lparr>i_blocks := b\<rparr>) 0 p) 0 chunk)
      }))"

definition dot_entry :: "nat \<Rightarrow> ext2_dirent \<Rightarrow> bool" where
  "dot_entry ino de \<longleftrightarrow> byte_at (de_name de) 0 = 0x2E \<and> name_len de \<le> 2 \<and>
     (if name_len de < 2 then de_inode de = ino else byte_at (de_name de) 1 = 0x2E)"

function empty_loop :: "nat \<Rightarrow> dpage \<Rightarrow> int \<Rightarrow> nat \<Rightarrow> bool" where
  "empty_loop ino p bound off =
     (if int off \<le> bound
      then if rec_len (p off) = 0 then False
        else if de_inode (p off) \<noteq> 0 \<and> \<not> dot_entry ino (p off) then False
        else empty_loop ino p bound (ext2_next_entry p off)
      else True)"
  by pat_completeness auto
termination
  by (relation "measure (\<lambda>(_, p, bound, off). nat (bound + 1 - int off))")
    (auto simp: ext2_next_entry_def dest: rec_len_pos)

fun empty_pages :: "(nat \<Rightarrow> errno option) \<Rightarrow> ext2_sb \<Rightarrow> nat list \<Rightarrow> inode \<Rightarrow> inode \<times> bool" where
  "empty_pages rd sb [] dir = (dir, True)"
| "empty_pages rd sb (n # ns) dir =
     (case ext2_get_page rd sb dir n of
        (dir, Inl _) \<Rightarrow> empty_pages rd sb ns dir
      | (dir, Inr p) \<Rightarrow>
          if empty_loop (i_ino dir) p (int (ext2_last_byte dir n) - int (EXT2_DIR_REC_LEN 1)) 0
          then empty_pages rd sb ns dir
          else (dir, False))"

definition ext2_empty_dir :: "(nat \<Rightarrow> errno option) \<Rightarrow> ext2_sb \<Rightarrow> inode \<Rightarrow> inode \<times> bool" where
  "ext2_empty_dir rd sb dir = empty_pages rd sb [0..<dir_pages dir] dir"

end
