(* ===== verification/Ext2_Ialloc.thy ===== *)
theory Ext2_Ialloc
  imports Ext2_Dir
begin

text \<open>
  Allocation of inodes, a3/ialloc.c, with \<open>ext2_get_group_desc\<close> of a3/balloc.c and the inode flags of
  a3/inode.c. A file system has block groups; each has a descriptor with counts and a bitmap of its
  inodes. The bitmap of group \<open>g\<close> is \<open>s_ibitmap sbi g\<close>, bit by bit; whether its block can be read
  is an argument. Counters of the percpu kind are read approximately by the kernel, so the values
  \<open>find_group_orlov\<close> reads are arguments too. Prereading, quota and the writing back of buffers do not
  change the state of the model.
\<close>

section \<open>Inode flags\<close>

abbreviation EXT2_SYNC_FL :: "32 word" where "EXT2_SYNC_FL \<equiv> 0x8"
abbreviation EXT2_IMMUTABLE_FL :: "32 word" where "EXT2_IMMUTABLE_FL \<equiv> 0x10"
abbreviation EXT2_APPEND_FL :: "32 word" where "EXT2_APPEND_FL \<equiv> 0x20"
abbreviation EXT2_NOATIME_FL :: "32 word" where "EXT2_NOATIME_FL \<equiv> 0x80"
abbreviation EXT2_DIRSYNC_FL :: "32 word" where "EXT2_DIRSYNC_FL \<equiv> 0x10000"
abbreviation EXT2_TOPDIR_FL :: "32 word" where "EXT2_TOPDIR_FL \<equiv> 0x20000"
abbreviation S_NOATIME :: "32 word" where "S_NOATIME \<equiv> 2"
abbreviation S_APPEND :: "32 word" where "S_APPEND \<equiv> 4"
abbreviation S_IMMUTABLE :: "32 word" where "S_IMMUTABLE \<equiv> 8"
abbreviation S_NOQUOTA :: "32 word" where "S_NOQUOTA \<equiv> 32"

definition copy_flag :: "32 word \<Rightarrow> 32 word \<Rightarrow> 32 word \<Rightarrow> 32 word \<Rightarrow> 32 word" where
  "copy_flag flags a b w = (if and flags a \<noteq> 0 then or w b else w)"

definition ext2_set_inode_flags :: "inode \<Rightarrow> inode" where
  "ext2_set_inode_flags inode =
     (let flags = i_flags inode;
          w = and (i_vflags inode) (not (or S_SYNC (or S_APPEND (or S_IMMUTABLE (or S_NOATIME S_DIRSYNC)))));
          w = copy_flag flags EXT2_SYNC_FL S_SYNC w;
          w = copy_flag flags EXT2_APPEND_FL S_APPEND w;
          w = copy_flag flags EXT2_IMMUTABLE_FL S_IMMUTABLE w;
          w = copy_flag flags EXT2_NOATIME_FL S_NOATIME w;
          w = copy_flag flags EXT2_DIRSYNC_FL S_DIRSYNC w
      in inode\<lparr>i_vflags := w\<rparr>)"

definition ext2_get_inode_flags :: "inode \<Rightarrow> inode" where
  "ext2_get_inode_flags inode =
     (let flags = i_vflags inode;
          w = and (i_flags inode) (not (or EXT2_SYNC_FL (or EXT2_APPEND_FL
                (or EXT2_IMMUTABLE_FL (or EXT2_NOATIME_FL EXT2_DIRSYNC_FL)))));
          w = copy_flag flags S_SYNC EXT2_SYNC_FL w;
          w = copy_flag flags S_APPEND EXT2_APPEND_FL w;
          w = copy_flag flags S_IMMUTABLE EXT2_IMMUTABLE_FL w;
          w = copy_flag flags S_NOATIME EXT2_NOATIME_FL w;
          w = copy_flag flags S_DIRSYNC EXT2_DIRSYNC_FL w
      in inode\<lparr>i_flags := w\<rparr>)"

section \<open>Group descriptors\<close>

record ext2_group_desc =
  bg_free_inodes_count :: "16 word"
  bg_free_blocks_count :: "16 word"
  bg_used_dirs_count :: "16 word"

record ext2_sb_info =
  s_groups_count :: nat
  s_inodes_per_group :: nat
  s_blocks_per_group :: nat
  s_first_ino :: nat
  s_max_ino :: nat
  s_blocks_count :: nat
  s_root_ino :: nat
  s_oldalloc :: bool
  s_grpid :: bool
  s_desc_per_block_bits :: nat
  s_group_desc_loaded :: "nat \<Rightarrow> bool"
  s_desc :: "nat \<Rightarrow> ext2_group_desc"
  s_ibitmap :: "nat \<Rightarrow> nat \<Rightarrow> bool"
  s_debts :: "nat \<Rightarrow> 8 word"
  s_freeinodes_counter :: int
  s_dirs_counter :: int
  s_next_generation :: "32 word"
  s_dirt :: bool

definition ext2_get_group_desc :: "ext2_sb_info \<Rightarrow> nat \<Rightarrow> ext2_group_desc option" where
  "ext2_get_group_desc sbi block_group =
     (if block_group \<ge> s_groups_count sbi then None
      else if \<not> s_group_desc_loaded sbi (drop_bit (s_desc_per_block_bits sbi) block_group) then None
      else Some (s_desc sbi block_group))"

definition read_inode_bitmap :: "(nat \<Rightarrow> bool) \<Rightarrow> ext2_sb_info \<Rightarrow> nat \<Rightarrow> (nat \<Rightarrow> bool) option" where
  "read_inode_bitmap rd sbi block_group =
     (case ext2_get_group_desc sbi block_group of
        None \<Rightarrow> None
      | Some _ \<Rightarrow> if rd block_group then Some (s_ibitmap sbi block_group) else None)"

definition ext2_release_inode :: "ext2_sb_info \<Rightarrow> nat \<Rightarrow> bool \<Rightarrow> ext2_sb_info" where
  "ext2_release_inode sbi grp dir =
     (case ext2_get_group_desc sbi grp of
        None \<Rightarrow> sbi
      | Some desc \<Rightarrow>
          let desc = desc\<lparr>bg_free_inodes_count := bg_free_inodes_count desc + 1\<rparr>;
              desc = (if dir then desc\<lparr>bg_used_dirs_count := bg_used_dirs_count desc - 1\<rparr> else desc)
          in sbi\<lparr>s_desc := (s_desc sbi)(grp := desc),
                 s_dirs_counter := (if dir then s_dirs_counter sbi - 1 else s_dirs_counter sbi), s_dirt := True\<rparr>)"

definition ext2_free_inode :: "(nat \<Rightarrow> bool) \<Rightarrow> ext2_sb_info \<Rightarrow> inode \<Rightarrow> ext2_sb_info" where
  "ext2_free_inode rd sbi inode =
     (let ino = i_ino inode;
          is_directory = S_ISDIR (i_mode inode)
      in if ino < s_first_ino sbi \<or> ino > s_max_ino sbi then sbi
         else
           let block_group = (ino - 1) div s_inodes_per_group sbi;
               bit = (ino - 1) mod s_inodes_per_group sbi
           in (case read_inode_bitmap rd sbi block_group of
                 None \<Rightarrow> sbi
               | Some bm \<Rightarrow>
                   if \<not> bm bit then sbi
                   else ext2_release_inode
                          (sbi\<lparr>s_ibitmap := (s_ibitmap sbi)(block_group := bm(bit := False))\<rparr>) block_group is_directory))"

definition ext2_count_free_inodes :: "ext2_sb_info \<Rightarrow> nat" where
  "ext2_count_free_inodes sbi =
     foldl (\<lambda>desc_count i. case ext2_get_group_desc sbi i of
              None \<Rightarrow> desc_count | Some desc \<Rightarrow> desc_count + unat (bg_free_inodes_count desc)) 0 [0..<s_groups_count sbi]"

definition ext2_count_dirs :: "ext2_sb_info \<Rightarrow> nat" where
  "ext2_count_dirs sbi =
     foldl (\<lambda>count i. case ext2_get_group_desc sbi i of
              None \<Rightarrow> count | Some gdp \<Rightarrow> count + unat (bg_used_dirs_count gdp)) 0 [0..<s_groups_count sbi]"

section \<open>Choosing a group\<close>

text \<open>The descriptor of a group that has free inodes.\<close>

definition free_desc :: "ext2_sb_info \<Rightarrow> nat \<Rightarrow> ext2_group_desc option" where
  "free_desc sbi grp =
     (case ext2_get_group_desc sbi grp of
        None \<Rightarrow> None | Some desc \<Rightarrow> if bg_free_inodes_count desc = 0 then None else Some desc)"

fun dir_scan :: "ext2_sb_info \<Rightarrow> int \<Rightarrow> nat list \<Rightarrow> (nat \<times> ext2_group_desc) option \<Rightarrow> (nat \<times> ext2_group_desc) option" where
  "dir_scan sbi avefreei [] best = best"
| "dir_scan sbi avefreei (grp # gs) best =
     (case free_desc sbi grp of
        None \<Rightarrow> dir_scan sbi avefreei gs best
      | Some desc \<Rightarrow>
          if uint (bg_free_inodes_count desc) < avefreei then dir_scan sbi avefreei gs best
          else if (case best of None \<Rightarrow> True
                   | Some (_, best_desc) \<Rightarrow> bg_free_blocks_count desc > bg_free_blocks_count best_desc)
          then dir_scan sbi avefreei gs (Some (grp, desc))
          else dir_scan sbi avefreei gs best)"

definition find_group_dir :: "ext2_sb_info \<Rightarrow> inode \<Rightarrow> nat option" where
  "find_group_dir sbi parent =
     (let ngroups = s_groups_count sbi;
          avefreei = int (ext2_count_free_inodes sbi div ngroups)
      in map_option fst (dir_scan sbi avefreei [0..<ngroups] None))"

fun top_scan :: "ext2_sb_info \<Rightarrow> int \<Rightarrow> int \<Rightarrow> nat list \<Rightarrow> int \<Rightarrow> nat option \<Rightarrow> nat option" where
  "top_scan sbi avefreei avefreeb [] best_ndir best_group = best_group"
| "top_scan sbi avefreei avefreeb (grp # gs) best_ndir best_group =
     (case free_desc sbi grp of
        None \<Rightarrow> top_scan sbi avefreei avefreeb gs best_ndir best_group
      | Some desc \<Rightarrow>
          if uint (bg_used_dirs_count desc) \<ge> best_ndir \<or> uint (bg_free_inodes_count desc) < avefreei \<or>
             uint (bg_free_blocks_count desc) < avefreeb
          then top_scan sbi avefreei avefreeb gs best_ndir best_group
          else top_scan sbi avefreei avefreeb gs (uint (bg_used_dirs_count desc)) (Some grp))"

definition rotated :: "nat \<Rightarrow> nat \<Rightarrow> nat list" where
  "rotated ngroups start = map (\<lambda>i. (start + i) mod ngroups) [0..<ngroups]"

definition fallback_scan :: "ext2_sb_info \<Rightarrow> int \<Rightarrow> nat list \<Rightarrow> nat option" where
  "fallback_scan sbi avefreei gs =
     List.find (\<lambda>grp. case free_desc sbi grp of
         None \<Rightarrow> False | Some desc \<Rightarrow> uint (bg_free_inodes_count desc) \<ge> avefreei) gs"

definition orlov_fallback :: "ext2_sb_info \<Rightarrow> int \<Rightarrow> nat list \<Rightarrow> nat option" where
  "orlov_fallback sbi avefreei gs =
     (case fallback_scan sbi avefreei gs of
        Some grp \<Rightarrow> Some grp
      | None \<Rightarrow> if avefreei \<noteq> 0 then fallback_scan sbi 0 gs else None)"

text \<open>What an allocation depends on besides the file system: whether memory is left, which bitmaps
  can be read, a random number, the readings of the three counters, which bits another processor
  takes first, the outcome of \<open>insert_inode_locked\<close> and \<open>vfs_dq_alloc_inode\<close>, the errors of
  \<open>ext2_init_acl\<close> and \<open>ext2_init_security\<close>, time and credentials, and
  \<open>ext2_mask_flags (mode, flags & EXT2_FL_INHERITED)\<close>.\<close>

record ni_env =
  ni_mem :: bool
  ni_rd :: "nat \<Rightarrow> bool"
  ni_rnd :: "32 word"
  ni_freei :: int
  ni_freeb :: int
  ni_ndirs :: int
  ni_lost :: "nat \<Rightarrow> nat \<Rightarrow> bool"
  ni_locked :: bool
  ni_dq :: bool
  ni_acl :: "errno option"
  ni_sec :: "errno option"
  ni_now :: nat
  ni_uid :: nat
  ni_gid :: nat
  ni_mask :: "16 word \<Rightarrow> 32 word \<Rightarrow> 32 word"

abbreviation INODE_COST :: int where "INODE_COST \<equiv> 64"
abbreviation BLOCK_COST :: int where "BLOCK_COST \<equiv> 256"

definition orlov_max_debt :: "ext2_sb_info \<Rightarrow> int \<Rightarrow> int" where
  "orlov_max_debt sbi blocks_per_dir =
     (let inodes_per_group = int (s_inodes_per_group sbi);
          max_debt = int (s_blocks_per_group sbi) div max blocks_per_dir BLOCK_COST;
          max_debt = (if max_debt * INODE_COST > inodes_per_group then inodes_per_group div INODE_COST else max_debt);
          max_debt = (if max_debt > 255 then 255 else max_debt)
      in if max_debt = 0 then 1 else max_debt)"

definition orlov_fits :: "ext2_sb_info \<Rightarrow> int \<Rightarrow> int \<Rightarrow> int \<Rightarrow> int \<Rightarrow> nat \<Rightarrow> bool" where
  "orlov_fits sbi max_debt max_dirs min_inodes min_blocks grp =
     (case free_desc sbi grp of
        None \<Rightarrow> False
      | Some desc \<Rightarrow>
          uint (s_debts sbi grp) < max_debt \<and> uint (bg_used_dirs_count desc) < max_dirs \<and>
          uint (bg_free_inodes_count desc) \<ge> min_inodes \<and> uint (bg_free_blocks_count desc) \<ge> min_blocks)"

definition find_group_orlov :: "ni_env \<Rightarrow> ext2_sb_info \<Rightarrow> inode \<Rightarrow> nat option" where
  "find_group_orlov e sbi parent =
     (let parent_group = i_block_group parent;
          ngroups = s_groups_count sbi;
          inodes_per_group = int (s_inodes_per_group sbi);
          avefreei = ni_freei e div int ngroups;
          free_blocks = ni_freeb e;
          avefreeb = free_blocks div int ngroups;
          ndirs = ni_ndirs e
      in if i_ino parent = s_root_ino sbi \<or> and (i_flags parent) EXT2_TOPDIR_FL \<noteq> 0
         then
           let gs = rotated ngroups (unat (ni_rnd e) mod ngroups)
           in (case top_scan sbi avefreei avefreeb gs inodes_per_group None of
                 Some grp \<Rightarrow> Some grp
               | None \<Rightarrow> orlov_fallback sbi avefreei gs)
         else
           let ndirs = (if ndirs = 0 then 1 else ndirs);
               blocks_per_dir = int (u32_sub (s_blocks_count sbi) (nat free_blocks)) div ndirs;
               max_dirs = ndirs div int ngroups + inodes_per_group div 16;
               min_inodes = avefreei - inodes_per_group div 4;
               min_blocks = avefreeb - int (s_blocks_per_group sbi) div 4;
               max_debt = orlov_max_debt sbi blocks_per_dir;
               gs = rotated ngroups parent_group
           in (case List.find (orlov_fits sbi max_debt max_dirs min_inodes min_blocks) gs of
                 Some grp \<Rightarrow> Some grp
               | None \<Rightarrow> orlov_fallback sbi avefreei gs))"

definition inode_and_block :: "ext2_sb_info \<Rightarrow> nat \<Rightarrow> bool" where
  "inode_and_block sbi grp =
     (case free_desc sbi grp of None \<Rightarrow> False | Some desc \<Rightarrow> bg_free_blocks_count desc \<noteq> 0)"

function hash_scan :: "ext2_sb_info \<Rightarrow> nat \<Rightarrow> nat \<Rightarrow> nat option" where
  "hash_scan sbi i grp =
     (if 0 < i \<and> i < s_groups_count sbi
      then let grp = grp + i;
               grp = (if grp \<ge> s_groups_count sbi then grp - s_groups_count sbi else grp)
           in if inode_and_block sbi grp then Some grp else hash_scan sbi (2 * i) grp
      else None)"
  by pat_completeness auto
termination
  by (relation "measure (\<lambda>(sbi, i, _). s_groups_count sbi - i)") auto

declare hash_scan.simps [simp del]

fun linear_scan :: "ext2_sb_info \<Rightarrow> nat \<Rightarrow> nat \<Rightarrow> nat option" where
  "linear_scan sbi 0 grp = None"
| "linear_scan sbi (Suc n) grp =
     (let grp = (if grp + 1 \<ge> s_groups_count sbi then 0 else grp + 1)
      in if free_desc sbi grp \<noteq> None then Some grp else linear_scan sbi n grp)"

definition find_group_other :: "ext2_sb_info \<Rightarrow> inode \<Rightarrow> nat option" where
  "find_group_other sbi parent =
     (let parent_group = i_block_group parent;
          ngroups = s_groups_count sbi
      in if inode_and_block sbi parent_group then Some parent_group
         else
           (case hash_scan sbi 1 ((parent_group + i_ino parent) mod ngroups) of
              Some grp \<Rightarrow> Some grp
            | None \<Rightarrow> linear_scan sbi ngroups parent_group))"

section \<open>Allocating an inode\<close>

function claim_bit :: "(nat \<Rightarrow> bool) \<Rightarrow> nat \<Rightarrow> (nat \<Rightarrow> bool) \<Rightarrow> nat \<Rightarrow> (nat \<Rightarrow> bool) \<times> nat option" where
  "claim_bit lost n bm ino =
     (case List.find (\<lambda>i. \<not> bm i) [ino..<n] of
        None \<Rightarrow> (bm, None)
      | Some z \<Rightarrow>
          let bm = bm(z := True)
          in if lost z then if z + 1 \<ge> n then (bm, None) else claim_bit lost n bm (z + 1)
             else (bm, Some z))"
  by pat_completeness auto
termination
  by (relation "measure (\<lambda>(_, n, _, ino). n - ino)") (auto simp: find_Some_iff)

declare claim_bit.simps [simp del]

fun alloc_loop :: "ni_env \<Rightarrow> nat \<Rightarrow> ext2_sb_info \<Rightarrow> nat \<Rightarrow> ext2_sb_info \<times> (errno + nat \<times> nat)" where
  "alloc_loop e 0 sbi grp = (sbi, Inl ENOSPC)"
| "alloc_loop e (Suc n) sbi grp =
     (case read_inode_bitmap (ni_rd e) sbi grp of
        None \<Rightarrow> (sbi, Inl EIO)
      | Some bm \<Rightarrow>
          (case claim_bit (ni_lost e grp) (s_inodes_per_group sbi) bm 0 of
             (bm, r) \<Rightarrow>
               let sbi = sbi\<lparr>s_ibitmap := (s_ibitmap sbi)(grp := bm)\<rparr>
               in (case r of
                     Some z \<Rightarrow> (sbi, Inr (grp, z))
                   | None \<Rightarrow> alloc_loop e n sbi (if grp + 1 = s_groups_count sbi then 0 else grp + 1))))"

text \<open>The counts, after a bit has been claimed.\<close>

definition account_inode :: "ext2_sb_info \<Rightarrow> nat \<Rightarrow> bool \<Rightarrow> ext2_sb_info" where
  "account_inode sbi grp dir =
     (let desc = s_desc sbi grp;
          desc = desc\<lparr>bg_free_inodes_count := bg_free_inodes_count desc - 1\<rparr>;
          debt = s_debts sbi grp
      in sbi\<lparr>s_desc := (s_desc sbi)(grp :=
                (if dir then desc\<lparr>bg_used_dirs_count := bg_used_dirs_count desc + 1\<rparr> else desc)),
             s_debts := (s_debts sbi)(grp :=
                (if dir then if debt < 255 then debt + 1 else debt
                 else if debt \<noteq> 0 then debt - 1 else debt)),
             s_freeinodes_counter := s_freeinodes_counter sbi - 1,
             s_dirs_counter := (if dir then s_dirs_counter sbi + 1 else s_dirs_counter sbi),
             s_dirt := True\<rparr>)"

abbreviation S_ISGID :: "16 word" where "S_ISGID \<equiv> 0x400"

text \<open>The new inode as \<open>new_inode\<close> and \<open>ext2_alloc_inode\<close> leave it and \<open>ext2_new_inode\<close> fills it in.\<close>

definition init_inode :: "ni_env \<Rightarrow> ext2_sb_info \<Rightarrow> inode \<Rightarrow> nat \<Rightarrow> nat \<Rightarrow> 16 word \<Rightarrow> inode" where
  "init_inode e sbi dir grp ino mode =
     (let inherit = s_grpid sbi \<or> and (i_mode dir) S_ISGID \<noteq> 0;
          mode' = (if \<not> s_grpid sbi \<and> and (i_mode dir) S_ISGID \<noteq> 0 \<and> S_ISDIR mode then or mode S_ISGID else mode)
      in ext2_set_inode_flags
           \<lparr>i_ino = ino, i_mode = mode', i_nlink = 1, i_size = 0, i_blocks = 0, i_data = replicate 60 0,
            i_flags = ni_mask e mode' (i_flags dir), i_dir_start_lookup = 0, i_version = 1,
            i_mtime = ni_now e, i_ctime = ni_now e, i_atime = ni_now e,
            i_uid = ni_uid e, i_gid = (if inherit then i_gid dir else ni_gid e),
            i_generation = s_next_generation sbi, i_block_group = grp, i_vflags = 0, i_sbsync = i_sbsync dir,
            i_dirty = True, dpages = (\<lambda>_ _. zero_dirent), fpages = (\<lambda>_. []),
            p_checked = (\<lambda>_. False), p_error = (\<lambda>_. False)\<rparr>)"

text \<open>\<open>Dropped e inode\<close>: the error \<open>e\<close>, after an inode with link count 0 was handed to \<open>iput\<close>, which
  gives it back with \<open>ext2_free_inode\<close>.\<close>

datatype new_inode_res = New inode | Failed errno | Dropped errno inode

definition find_group :: "ni_env \<Rightarrow> ext2_sb_info \<Rightarrow> inode \<Rightarrow> 16 word \<Rightarrow> nat option" where
  "find_group e sbi dir mode =
     (if S_ISDIR mode then if s_oldalloc sbi then find_group_dir sbi dir else find_group_orlov e sbi dir
      else find_group_other sbi dir)"

definition ext2_new_inode :: "ni_env \<Rightarrow> ext2_sb_info \<Rightarrow> inode \<Rightarrow> 16 word \<Rightarrow> ext2_sb_info \<times> new_inode_res" where
  "ext2_new_inode e sbi dir mode =
     (if \<not> ni_mem e then (sbi, Failed ENOMEM)
      else
        (case find_group e sbi dir mode of
           None \<Rightarrow> (sbi, Failed ENOSPC)
         | Some grp \<Rightarrow>
             (case alloc_loop e (s_groups_count sbi) sbi grp of
                (sbi, Inl err) \<Rightarrow> (sbi, Failed err)
              | (sbi, Inr (grp, z)) \<Rightarrow>
                  let ino = z + grp * s_inodes_per_group sbi + 1
                  in if ino < s_first_ino sbi \<or> ino > s_max_ino sbi then (sbi, Failed EIO)
                     else
                       let sbi = account_inode sbi grp (S_ISDIR mode);
                           inode = init_inode e sbi dir grp ino mode;
                           sbi = sbi\<lparr>s_next_generation := s_next_generation sbi + 1\<rparr>;
                           fail = (\<lambda>err. (sbi, Dropped err (inode\<lparr>i_nlink := 0, i_vflags := or (i_vflags inode) S_NOQUOTA\<rparr>)))
                       in if \<not> ni_locked e then fail EINVAL
                          else if \<not> ni_dq e then fail EDQUOT
                          else (case ni_acl e of
                                  Some err \<Rightarrow> fail err
                                | None \<Rightarrow> (case ni_sec e of Some err \<Rightarrow> fail err | None \<Rightarrow> (sbi, New inode))))))"

end
