(* ===== verification/Ext2_Namei.thy ===== *)
theory Ext2_Namei
  imports Ext2_Dir Ext2_Ialloc
begin

text \<open>
  The operations on names, a3/namei.c, over the directories of theory \<open>Ext2_Dir\<close> and the allocator of
  theory \<open>Ext2_Ialloc\<close>. Inodes are kept in a store indexed by their number, so that an operation
  sees one and the same inode when two of its arguments are the same directory. A directory entry of
  the VFS (\<open>struct dentry\<close>) is its name, its inode, if any, and the names of the two directories above
  it, which \<open>ext2_rename\<close> looks at. \<open>d_instantiate\<close> makes an inode the inode of a dentry: the result
  \<open>Inr ino\<close>. Locking, the tables of operations and writing back are left out. \<open>iput\<close> of the VFS
  drops a reference and gives an inode without links and references back to the allocator; releasing
  its data blocks is not modelled. The result \<open>None\<close> stands for a \<open>BUG\<close> of the kernel.
\<close>

section \<open>The file system\<close>

record fs =
  fs_sb :: ext2_sb
  fs_sbi :: ext2_sb_info
  inodes :: "nat \<Rightarrow> inode"
  icount :: "nat \<Rightarrow> int"
  key :: "32 word"

record dentry =
  d_name :: "byte list"
  d_inode :: "nat option"
  d_parent_name :: "byte list"
  d_grandparent_name :: "byte list"

text \<open>What the page cache, the disk and memory do during an operation. The reads and writes of
  directories are numbered in the order in which the operation asks for them.\<close>

record nm_env =
  ne_rd :: "nat \<Rightarrow> nat \<Rightarrow> errno option"
  ne_wb :: "nat \<Rightarrow> errno + nat"
  ne_sync :: "nat \<Rightarrow> errno option"
  ne_now :: nat
  ne_mem :: bool
  ne_symlink :: "errno option"
  ne_iget :: "nat \<Rightarrow> errno option"
  ne_ni :: ni_env

abbreviation EXT2_NAME_LEN :: nat where "EXT2_NAME_LEN \<equiv> 255"
abbreviation EXT2_LINK_MAX :: "32 word" where "EXT2_LINK_MAX \<equiv> 32000"

definition put_inode :: "fs \<Rightarrow> nat \<Rightarrow> inode \<Rightarrow> fs" where
  "put_inode fs i inode = fs\<lparr>inodes := (inodes fs)(i := inode)\<rparr>"

definition upd_inode :: "nat \<Rightarrow> (inode \<Rightarrow> inode) \<Rightarrow> fs \<Rightarrow> fs" where
  "upd_inode i f fs = put_inode fs i (f (inodes fs i))"

definition inode_inc_link_count :: "nat \<Rightarrow> fs \<Rightarrow> fs" where
  "inode_inc_link_count i = upd_inode i (\<lambda>inode. inode\<lparr>i_nlink := i_nlink inode + 1, i_dirty := True\<rparr>)"

definition inode_dec_link_count :: "nat \<Rightarrow> fs \<Rightarrow> fs" where
  "inode_dec_link_count i = upd_inode i (\<lambda>inode. inode\<lparr>i_nlink := i_nlink inode - 1, i_dirty := True\<rparr>)"

definition drop_nlink :: "nat \<Rightarrow> fs \<Rightarrow> fs" where
  "drop_nlink i = upd_inode i (\<lambda>inode. inode\<lparr>i_nlink := i_nlink inode - 1\<rparr>)"

definition iput :: "nm_env \<Rightarrow> nat \<Rightarrow> fs \<Rightarrow> fs" where
  "iput e i fs =
     (let c = icount fs i - 1;
          fs = fs\<lparr>icount := (icount fs)(i := c)\<rparr>
      in if c = 0 \<and> i_nlink (inodes fs i) = 0
         then fs\<lparr>fs_sbi := ext2_free_inode (ni_rd (ne_ni e)) (fs_sbi fs) (inodes fs i)\<rparr>
         else fs)"

text \<open>The operations of dir.c on the directory with number \<open>dir\<close>; \<open>k\<close> is the number of the access.\<close>

definition find_in :: "nm_env \<Rightarrow> nat \<Rightarrow> fs \<Rightarrow> nat \<Rightarrow> byte list \<Rightarrow> fs \<times> (nat \<times> nat) option" where
  "find_in e k fs dir name =
     (case ext2_find_entry (ne_rd e k) (fs_sb fs) (inodes fs dir) name of (d, r) \<Rightarrow> (put_inode fs dir d, r))"

definition by_name_in :: "nm_env \<Rightarrow> nat \<Rightarrow> fs \<Rightarrow> nat \<Rightarrow> byte list \<Rightarrow> fs \<times> nat" where
  "by_name_in e k fs dir name =
     (case ext2_inode_by_name (ne_rd e k) (fs_sb fs) (inodes fs dir) name of (d, r) \<Rightarrow> (put_inode fs dir d, r))"

definition empty_in :: "nm_env \<Rightarrow> nat \<Rightarrow> fs \<Rightarrow> nat \<Rightarrow> fs \<times> bool" where
  "empty_in e k fs dir =
     (case ext2_empty_dir (ne_rd e k) (fs_sb fs) (inodes fs dir) of (d, r) \<Rightarrow> (put_inode fs dir d, r))"

definition dotdot_in :: "nm_env \<Rightarrow> nat \<Rightarrow> fs \<Rightarrow> nat \<Rightarrow> fs \<times> (nat \<times> nat) option" where
  "dotdot_in e k fs dir =
     (case ext2_dotdot (ne_rd e k) (fs_sb fs) (inodes fs dir) of (d, r) \<Rightarrow> (put_inode fs dir d, r))"

definition add_in :: "nm_env \<Rightarrow> nat \<Rightarrow> fs \<Rightarrow> nat \<Rightarrow> byte list \<Rightarrow> nat \<Rightarrow> (fs \<times> errno option) option" where
  "add_in e k fs dir name ino = do {
     (d, err) \<leftarrow> ext2_add_link (ne_rd e k) (ne_wb e k) (ne_sync e k) (ne_now e) (fs_sb fs)
                   (inodes fs dir) name ino (i_mode (inodes fs ino));
     Some (put_inode fs dir d, err)
   }"

definition delete_in :: "nm_env \<Rightarrow> nat \<Rightarrow> fs \<Rightarrow> nat \<Rightarrow> nat \<times> nat \<Rightarrow> (fs \<times> errno option) option" where
  "delete_in e k fs dir loc = do {
     (d, err) \<leftarrow> ext2_delete_entry (ne_wb e k) (ne_sync e k) (ne_now e) (fs_sb fs) (inodes fs dir) loc;
     Some (put_inode fs dir d, err)
   }"

definition set_link_in :: "nm_env \<Rightarrow> nat \<Rightarrow> fs \<Rightarrow> nat \<Rightarrow> nat \<times> nat \<Rightarrow> nat \<Rightarrow> bool \<Rightarrow> fs option" where
  "set_link_in e k fs dir loc ino update_times = do {
     d \<leftarrow> ext2_set_link (ne_wb e k) (ne_sync e k) (ne_now e) (fs_sb fs) (inodes fs dir) loc ino
            (i_mode (inodes fs ino)) update_times;
     Some (put_inode fs dir d)
   }"

text \<open>A new inode in the store, with one reference.\<close>

definition new_in :: "nm_env \<Rightarrow> fs \<Rightarrow> nat \<Rightarrow> 16 word \<Rightarrow> fs \<times> (errno + nat)" where
  "new_in e fs dir mode =
     (case ext2_new_inode (ne_ni e) (fs_sbi fs) (inodes fs dir) mode of
        (sbi, New inode) \<Rightarrow>
          (put_inode (fs\<lparr>fs_sbi := sbi, icount := (icount fs)(i_ino inode := 1)\<rparr>) (i_ino inode) inode, Inr (i_ino inode))
      | (sbi, Failed err) \<Rightarrow> (fs\<lparr>fs_sbi := sbi\<rparr>, Inl err)
      | (sbi, Dropped err inode) \<Rightarrow> (fs\<lparr>fs_sbi := ext2_free_inode (ni_rd (ne_ni e)) sbi inode\<rparr>, Inl err))"

section \<open>Looking up and creating\<close>

definition ext2_add_nondir :: "nm_env \<Rightarrow> fs \<Rightarrow> nat \<Rightarrow> byte list \<Rightarrow> nat \<Rightarrow> (fs \<times> (errno + nat)) option" where
  "ext2_add_nondir e fs dir name inode = do {
     (fs, err) \<leftarrow> add_in e 0 fs dir name inode;
     (case err of
        None \<Rightarrow> Some (fs, Inr inode)
      | Some err \<Rightarrow> Some (iput e inode (inode_dec_link_count inode fs), Inl err))
   }"

definition ext2_lookup :: "nm_env \<Rightarrow> fs \<Rightarrow> nat \<Rightarrow> byte list \<Rightarrow> fs \<times> (errno + nat option)" where
  "ext2_lookup e fs dir name =
     (if length name > EXT2_NAME_LEN then (fs, Inl ENAMETOOLONG)
      else
        (case by_name_in e 0 fs dir name of
           (fs, ino) \<Rightarrow>
             if ino = 0 then (fs, Inr None)
             else (case ne_iget e ino of
                     Some err \<Rightarrow> (fs, Inl (if err = ESTALE then EIO else err))
                   | None \<Rightarrow> (fs, Inr (Some ino)))))"

definition ext2_get_parent :: "nm_env \<Rightarrow> fs \<Rightarrow> nat \<Rightarrow> fs \<times> (errno + nat)" where
  "ext2_get_parent e fs child =
     (case by_name_in e 0 fs child [0x2E, 0x2E] of
        (fs, ino) \<Rightarrow>
          if ino = 0 then (fs, Inl ENOENT)
          else (case ne_iget e ino of Some err \<Rightarrow> (fs, Inl err) | None \<Rightarrow> (fs, Inr ino)))"

definition ext2_create :: "nm_env \<Rightarrow> fs \<Rightarrow> nat \<Rightarrow> byte list \<Rightarrow> 16 word \<Rightarrow> (fs \<times> (errno + nat)) option" where
  "ext2_create e fs dir name mode =
     (case new_in e fs dir (or S_IFIM (xor mode S_IFREG)) of
        (fs, Inl err) \<Rightarrow> Some (fs, Inl err)
      | (fs, Inr inode) \<Rightarrow> ext2_add_nondir e (upd_inode inode (\<lambda>i. i\<lparr>i_dirty := True\<rparr>) fs) dir name inode)"

text \<open>\<open>valid\<close>: the device number passes \<open>new_valid_dev\<close>.\<close>

definition ext2_mknod :: "nm_env \<Rightarrow> fs \<Rightarrow> nat \<Rightarrow> byte list \<Rightarrow> 16 word \<Rightarrow> bool \<Rightarrow> (fs \<times> (errno + nat)) option" where
  "ext2_mknod e fs dir name mode valid =
     (if \<not> valid then Some (fs, Inl EINVAL)
      else
        (case new_in e fs dir mode of
           (fs, Inl err) \<Rightarrow> Some (fs, Inl err)
         | (fs, Inr inode) \<Rightarrow> ext2_add_nondir e (upd_inode inode (\<lambda>i. i\<lparr>i_dirty := True\<rparr>) fs) dir name inode))"

text \<open>The 60 bytes of \<open>i_data\<close> hold a short link; \<open>page_symlink\<close> writes a longer one to the first page.\<close>

definition ext2_symlink :: "nm_env \<Rightarrow> fs \<Rightarrow> nat \<Rightarrow> byte list \<Rightarrow> byte list \<Rightarrow> (fs \<times> (errno + nat)) option" where
  "ext2_symlink e fs dir name symname =
     (let l = length symname + 1 in
      if l > s_blocksize (fs_sb fs) then Some (fs, Inl ENAMETOOLONG)
      else
        (case new_in e fs dir (or S_IFLNK 0x1FF) of
           (fs, Inl err) \<Rightarrow> Some (fs, Inl err)
         | (fs, Inr inode) \<Rightarrow>
             if l > 60
             then (case ne_symlink e of
                     Some err \<Rightarrow> Some (iput e inode (inode_dec_link_count inode fs), Inl err)
                   | None \<Rightarrow>
                       ext2_add_nondir e (upd_inode inode (\<lambda>i. i\<lparr>fpages := (fpages i)(0 := symname),
                           i_size := l - 1, i_dirty := True\<rparr>) fs) dir name inode)
             else ext2_add_nondir e (upd_inode inode (\<lambda>i. i\<lparr>i_data := symname @ [0] @ drop l (i_data i),
                      i_size := l - 1, i_dirty := True\<rparr>) fs) dir name inode))"

definition ext2_link :: "nm_env \<Rightarrow> fs \<Rightarrow> nat \<Rightarrow> nat \<Rightarrow> byte list \<Rightarrow> (fs \<times> (errno + nat)) option" where
  "ext2_link e fs inode dir name =
     (if i_nlink (inodes fs inode) \<ge> EXT2_LINK_MAX then Some (fs, Inl EMLINK)
      else do {
        let fs = upd_inode inode (\<lambda>i. i\<lparr>i_ctime := ne_now e\<rparr>) fs;
        let fs = inode_inc_link_count inode fs;
        let fs = fs\<lparr>icount := (icount fs)(inode := icount fs inode + 1)\<rparr>;
        (fs, err) \<leftarrow> add_in e 0 fs dir name inode;
        (case err of
           None \<Rightarrow> Some (fs, Inr inode)
         | Some err \<Rightarrow> Some (iput e inode (inode_dec_link_count inode fs), Inl err))
      })"

definition ext2_mkdir :: "nm_env \<Rightarrow> fs \<Rightarrow> nat \<Rightarrow> byte list \<Rightarrow> 16 word \<Rightarrow> (fs \<times> (errno + nat)) option" where
  "ext2_mkdir e fs dir name mode =
     (if i_nlink (inodes fs dir) \<ge> EXT2_LINK_MAX then Some (fs, Inl EMLINK)
      else
        let fs = inode_inc_link_count dir fs
        in (case new_in e fs dir (or S_IFDIR mode) of
              (fs, Inl err) \<Rightarrow> Some (inode_dec_link_count dir fs, Inl err)
            | (fs, Inr inode) \<Rightarrow>
                let fs = inode_inc_link_count inode fs;
                    fail = (\<lambda>fs err. Some (inode_dec_link_count dir
                       (iput e inode (inode_dec_link_count inode (inode_dec_link_count inode fs))), Inl err))
                in do {
                  (d, err) \<leftarrow> ext2_make_empty (ne_mem e) (ne_wb e 0) (ne_sync e 0) (fs_sb fs) (inodes fs inode) dir;
                  let fs = put_inode fs inode d;
                  (case err of
                     Some err \<Rightarrow> fail fs err
                   | None \<Rightarrow> do {
                       (fs, err) \<leftarrow> add_in e 1 fs dir name inode;
                       (case err of Some err \<Rightarrow> fail fs err | None \<Rightarrow> Some (fs, Inr inode))
                     })
                }))"

section \<open>Removing\<close>

definition ext2_unlink :: "nm_env \<Rightarrow> fs \<Rightarrow> nat \<Rightarrow> byte list \<Rightarrow> nat \<Rightarrow> (fs \<times> errno option) option" where
  "ext2_unlink e fs dir name inode =
     (case find_in e 0 fs dir name of
        (fs, None) \<Rightarrow> Some (fs, Some ENOENT)
      | (fs, Some de) \<Rightarrow> do {
          (fs, err) \<leftarrow> delete_in e 0 fs dir de;
          (case err of
             Some err \<Rightarrow> Some (fs, Some err)
           | None \<Rightarrow>
               let fs = upd_inode inode (\<lambda>i. i\<lparr>i_ctime := i_ctime (inodes fs dir)\<rparr>) fs
               in Some (inode_dec_link_count inode fs, None))
        })"

definition ext2_rmdir :: "nm_env \<Rightarrow> fs \<Rightarrow> nat \<Rightarrow> byte list \<Rightarrow> nat \<Rightarrow> (fs \<times> errno option) option" where
  "ext2_rmdir e fs dir name inode =
     (case empty_in e 1 fs inode of
        (fs, False) \<Rightarrow> Some (fs, Some ENOTEMPTY)
      | (fs, True) \<Rightarrow> do {
          (fs, err) \<leftarrow> ext2_unlink e fs dir name inode;
          (case err of
             Some err \<Rightarrow> Some (fs, Some err)
           | None \<Rightarrow>
               let fs = upd_inode inode (\<lambda>i. i\<lparr>i_size := 0\<rparr>) fs
               in Some (inode_dec_link_count dir (inode_dec_link_count inode fs), None))
        })"

section \<open>Renaming\<close>

text \<open>\<open>crypto\<close> exclusive-ors the first byte of every page with the key, unless it is 0.\<close>

definition xor_byte :: "32 word \<Rightarrow> byte \<Rightarrow> byte" where
  "xor_byte k b = (if b \<noteq> 0 then xor b (ucast k) else b)"

definition crypto_page :: "32 word \<Rightarrow> byte list \<Rightarrow> byte list" where
  "crypto_page k bs = (case bs of [] \<Rightarrow> [] | b # bs \<Rightarrow> xor_byte k b # bs)"

definition crypto :: "32 word \<Rightarrow> inode \<Rightarrow> inode" where
  "crypto k inode =
     inode\<lparr>fpages := \<lambda>i. if i < dir_pages inode then crypto_page k (fpages inode i) else fpages inode i\<rparr>"

abbreviation slash :: "byte list" where "slash \<equiv> [0x2F]"
abbreviation encrypt_name :: "byte list" where "encrypt_name \<equiv> [0x65, 0x6E, 0x63, 0x72, 0x79, 0x70, 0x74]"

definition dir_path :: "dentry \<Rightarrow> byte list" where
  "dir_path d = d_grandparent_name d @ d_parent_name d"

definition is_encrypt :: "byte list \<Rightarrow> bool" where
  "is_encrypt path \<longleftrightarrow> path = slash @ encrypt_name"

text \<open>The encryption step of a rename.\<close>

definition recrypt :: "fs \<Rightarrow> nat \<Rightarrow> byte list \<Rightarrow> byte list \<Rightarrow> fs" where
  "recrypt fs old_inode old_dir_path new_dir_path =
     (if S_ISREG (i_mode (inodes fs old_inode))
      then if \<not> is_encrypt old_dir_path \<and> is_encrypt new_dir_path then upd_inode old_inode (crypto (key fs)) fs
        else if is_encrypt old_dir_path \<and> \<not> is_encrypt new_dir_path then upd_inode old_inode (crypto (key fs)) fs
        else fs
      else fs)"

text \<open>Linking the old inode under the new name. The result is \<open>Inl err\<close> for the jump to \<open>out_dir\<close>.\<close>

definition rename_target ::
  "nm_env \<Rightarrow> fs \<Rightarrow> nat \<Rightarrow> nat \<Rightarrow> dentry \<Rightarrow> bool \<Rightarrow> (fs \<times> errno option) option" where
  "rename_target e fs old_inode new_dir new_dentry is_dir =
     (case d_inode new_dentry of
        Some new_inode \<Rightarrow>
          (case (if is_dir then empty_in e 2 fs new_inode else (fs, True)) of
             (fs, False) \<Rightarrow> Some (fs, Some ENOTEMPTY)
           | (fs, True) \<Rightarrow>
               (case find_in e 3 fs new_dir (d_name new_dentry) of
                  (fs, None) \<Rightarrow> Some (fs, Some ENOENT)
                | (fs, Some new_de) \<Rightarrow> do {
                    fs \<leftarrow> set_link_in e 0 (inode_inc_link_count old_inode fs) new_dir new_de old_inode True;
                    let fs = upd_inode new_inode (\<lambda>i. i\<lparr>i_ctime := ne_now e\<rparr>) fs;
                    let fs = (if is_dir then drop_nlink new_inode fs else fs);
                    Some (inode_dec_link_count new_inode fs, None)
                  }))
      | None \<Rightarrow>
          if is_dir \<and> i_nlink (inodes fs new_dir) \<ge> EXT2_LINK_MAX then Some (fs, Some EMLINK)
          else do {
            (fs, err) \<leftarrow> add_in e 0 (inode_inc_link_count old_inode fs) new_dir (d_name new_dentry) old_inode;
            (case err of
               Some err \<Rightarrow> Some (inode_dec_link_count old_inode fs, Some err)
             | None \<Rightarrow> Some (if is_dir then inode_inc_link_count new_dir fs else fs, None))
          })"

text \<open>Taking the old name away.\<close>

definition rename_finish ::
  "nm_env \<Rightarrow> fs \<Rightarrow> nat \<Rightarrow> nat \<times> nat \<Rightarrow> nat \<Rightarrow> nat \<Rightarrow> (nat \<times> nat) option \<Rightarrow> fs option" where
  "rename_finish e fs old_dir old_de old_inode new_dir dir_de = do {
     let fs = upd_inode old_inode (\<lambda>i. i\<lparr>i_ctime := ne_now e\<rparr>) fs;
     (fs, _) \<leftarrow> delete_in e 1 fs old_dir old_de;
     let fs = inode_dec_link_count old_inode fs;
     (case dir_de of
        None \<Rightarrow> Some fs
      | Some de \<Rightarrow> do {
          fs \<leftarrow> (if old_dir \<noteq> new_dir then set_link_in e 2 fs old_inode de new_dir False else Some fs);
          Some (inode_dec_link_count old_dir fs)
        })
   }"

text \<open>The two buffers for the paths of the directories. The calls of \<open>kfree\<close> on them are recorded in the
  order in which they are made.\<close>

datatype path_buf = Old_dir_path | New_dir_path

definition kfree :: "path_buf \<Rightarrow> path_buf list \<Rightarrow> path_buf list" where
  "kfree b freed = freed @ [b]"

text \<open>The labels at the end of the function; \<open>out_dir\<close> falls through to \<open>out_old\<close>, and \<open>out_old\<close> to \<open>out\<close>.\<close>

definition rename_out :: "fs \<Rightarrow> errno \<Rightarrow> path_buf list \<Rightarrow> fs \<times> errno option \<times> path_buf list" where
  "rename_out fs err freed =
     (let freed = kfree Old_dir_path freed;
          freed = kfree New_dir_path freed
      in (fs, Some err, freed))"

definition rename_out_old :: "fs \<Rightarrow> errno \<Rightarrow> path_buf list \<Rightarrow> fs \<times> errno option \<times> path_buf list" where
  "rename_out_old fs err freed =
     (let freed = kfree Old_dir_path freed;
          freed = kfree New_dir_path freed
      in rename_out fs err freed)"

definition rename_out_dir :: "fs \<Rightarrow> errno \<Rightarrow> path_buf list \<Rightarrow> fs \<times> errno option \<times> path_buf list" where
  "rename_out_dir fs err freed =
     (let freed = kfree Old_dir_path freed;
          freed = kfree New_dir_path freed
      in rename_out_old fs err freed)"

text \<open>The whole operation; \<open>old_inode\<close> is the inode of \<open>old_dentry\<close>. The last component of the result
  holds the calls of \<open>kfree\<close> on the two buffers. The result is \<open>None\<close> when a buffer was not allocated and
  \<open>strcpy\<close> writes to the null pointer.\<close>

definition ext2_rename ::
  "nm_env \<Rightarrow> fs \<Rightarrow> nat \<Rightarrow> dentry \<Rightarrow> nat \<Rightarrow> nat \<Rightarrow> dentry \<Rightarrow> (fs \<times> errno option \<times> path_buf list) option" where
  "ext2_rename e fs old_dir old_dentry old_inode new_dir new_dentry =
     (if \<not> ne_mem e then None
      else
        let freed = []
        in (case find_in e 0 fs old_dir (d_name old_dentry) of
              (fs, None) \<Rightarrow> Some (rename_out fs ENOENT freed)
            | (fs, Some old_de) \<Rightarrow>
                let is_dir = S_ISDIR (i_mode (inodes fs old_inode))
                in (case (if is_dir then dotdot_in e 1 fs old_inode else (fs, None)) of
                      (fs, dir_de) \<Rightarrow>
                        if is_dir \<and> dir_de = None then Some (rename_out_old fs EIO freed)
                        else do {
                          (fs, err) \<leftarrow> rename_target e fs old_inode new_dir new_dentry is_dir;
                          (case err of
                             Some err \<Rightarrow> Some (rename_out_dir fs err freed)
                           | None \<Rightarrow> do {
                               let fs = recrypt fs old_inode (dir_path old_dentry) (dir_path new_dentry);
                               let freed = kfree Old_dir_path freed;
                               let freed = kfree New_dir_path freed;
                               fs \<leftarrow> rename_finish e fs old_dir old_de old_inode new_dir dir_de;
                               Some (fs, None, freed)
                             })
                        })))"

end
