(* ===== verification/Ext2_Dir_Facts.thy ===== *)
theory Ext2_Dir_Facts
  imports Ext2_Dir "HOL-Library.Multiset"
begin

text \<open>
  Correctness of the directory operations of theory \<open>Ext2_Dir\<close>. A page is well formed up to an
  offset \<open>lm\<close> when \<open>ext2_check_page\<close> accepts it; \<open>chain\<close> says the same as an inductive predicate
  that also names the offsets of the records. \<open>listing\<close> is the abstract view of a directory: the
  list of pairs of a name and an inode number. Looking up, adding and deleting entries are shown
  to be the operations on that list, and to keep the pages well formed.
\<close>

declare check_loop.simps [simp del] find_loop.simps [simp del] empty_loop.simps [simp del]
  readdir_page.simps [simp del] delete_scan.simps [simp del] validate_loop.simps [simp del]

section \<open>Record lengths\<close>

lemma rec_len_roundtrip:
  assumes "len \<le> 2 ^ 16" and "len \<noteq> 2 ^ 16 - 1"
  shows "\<exists>d. ext2_rec_len_to_disk len = Some d \<and> ext2_rec_len_from_disk d = len"
proof (cases "len = 2 ^ 16")
  case True
  then show ?thesis by (simp add: ext2_rec_len_to_disk_def ext2_rec_len_from_disk_def)
next
  case False
  with assms have l: "len < 2 ^ 16 - 1" by auto
  then have u: "unat (of_nat len :: 16 word) = len" by (simp add: unat_of_nat)
  have "(of_nat len :: 16 word) \<noteq> 0xFFFF"
  proof
    assume "(of_nat len :: 16 word) = 0xFFFF"
    then have "len = unat (0xFFFF :: 16 word)" using u by simp
    then show False using l by simp
  qed
  with u l show ?thesis by (simp add: ext2_rec_len_to_disk_def ext2_rec_len_from_disk_def)
qed

lemma to_disk_small:
  assumes "len \<le> PAGE_CACHE_SIZE"
  obtains d where "ext2_rec_len_to_disk len = Some d" "ext2_rec_len_from_disk d = len"
  using rec_len_roundtrip [of len] assms by auto

lemma REC_LEN_1 [simp]: "EXT2_DIR_REC_LEN (Suc 0) = 12"
  by (simp add: EXT2_DIR_REC_LEN_def)

lemma REC_LEN_bounds: "n + 8 \<le> EXT2_DIR_REC_LEN n" "EXT2_DIR_REC_LEN n \<le> n + 11"
  "EXT2_DIR_REC_LEN n mod 4 = 0"
  by (auto simp: EXT2_DIR_REC_LEN_def)

lemma REC_LEN_mono: "m \<le> n \<Longrightarrow> EXT2_DIR_REC_LEN m \<le> EXT2_DIR_REC_LEN n"
  by (simp add: EXT2_DIR_REC_LEN_def div_le_mono)

lemma u32_sub_id: "b \<le> a \<Longrightarrow> a < 2 ^ 32 \<Longrightarrow> u32_sub a b = a - b"
  by (simp add: u32_sub_def nat_diff_distrib)

section \<open>Well-formed pages\<close>

inductive chain :: "nat \<Rightarrow> nat \<Rightarrow> dpage \<Rightarrow> nat \<Rightarrow> nat \<Rightarrow> nat list \<Rightarrow> bool"
  for chunk mx p lm where
  stop: "chain chunk mx p lm lm []"
| step: "bad_entry chunk mx (p off) off = None \<Longrightarrow> off < lm \<Longrightarrow>
    chain chunk mx p lm (off + rlen p off) os \<Longrightarrow> chain chunk mx p lm off (off # os)"

inductive_simps chain_Nil [simp]: "chain chunk mx p lm off []"
inductive_simps chain_Cons: "chain chunk mx p lm off (o1 # os)"

lemma bad_entryD:
  assumes "bad_entry chunk mx (p off) off = None"
  shows "12 \<le> rlen p off" "rlen p off mod 4 = 0" "EXT2_DIR_REC_LEN (name_len (p off)) \<le> rlen p off"
    "(off + rlen p off - 1) div chunk = off div chunk" "de_inode (p off) \<le> mx"
  using assms by (auto simp: bad_entry_def rlen_def Let_def REC_LEN_bounds split: if_splits)

lemma bad_entryI:
  assumes "12 \<le> ext2_rec_len_from_disk (rec_len de)" "ext2_rec_len_from_disk (rec_len de) mod 4 = 0"
    "EXT2_DIR_REC_LEN (name_len de) \<le> ext2_rec_len_from_disk (rec_len de)"
    "(off + ext2_rec_len_from_disk (rec_len de) - 1) div chunk = off div chunk" "de_inode de \<le> mx"
  shows "bad_entry chunk mx de off = None"
  using assms by (auto simp: bad_entry_def Let_def REC_LEN_bounds)

lemma rec_len_nonzero: "12 \<le> rlen p off \<Longrightarrow> rec_len (p off) \<noteq> 0"
  by (auto simp: rlen_def ext2_rec_len_from_disk_def)

lemma chain_le: "chain chunk mx p lm off os \<Longrightarrow> off \<le> lm"
  by (induction rule: chain.induct) auto

text \<open>\<open>ext2_check_page\<close> accepts exactly the pages with a chain of records.\<close>

lemma check_loop_chain:
  assumes "12 \<le> lm" and "lm < 2 ^ 32"
  shows "check_loop chunk mx p lm off = None \<longleftrightarrow> (\<exists>os. chain chunk mx p lm off os)"
  using assms
proof (induction chunk mx p lm off rule: check_loop.induct)
  case (1 chunk mx p lm off)
  have l: "u32_sub lm (EXT2_DIR_REC_LEN 1) = lm - 12"
    using u32_sub_id [of 12 lm] 1(2,3) by simp
  show ?case
  proof (cases "off \<le> lm - 12")
    case True
    then have off: "off < lm" using 1(2) by simp
    show ?thesis
    proof (cases "bad_entry chunk mx (p off) off")
      case None
      have "check_loop chunk mx p lm off = check_loop chunk mx p lm (off + rlen p off)"
        using True l None by (subst check_loop.simps) simp
      also have "\<dots> = None \<longleftrightarrow> (\<exists>os. chain chunk mx p lm (off + rlen p off) os)"
        using 1(1) True l None 1(2,3) by simp
      also have "\<dots> \<longleftrightarrow> (\<exists>os. chain chunk mx p lm off os)"
        using chain.step [of chunk mx p off lm, OF None off] off None by (auto elim: chain.cases)
      finally show ?thesis .
    next
      case (Some e)
      then show ?thesis using True l off by (subst check_loop.simps) (auto elim: chain.cases)
    qed
  next
    case False
    have "\<not> chain chunk mx p lm off os" if "off \<noteq> lm" for os
    proof
      assume c: "chain chunk mx p lm off os"
      with that obtain o1 os1 where os: "os = o1 # os1" by (cases os) auto
      with c have "bad_entry chunk mx (p off) off = None" "chain chunk mx p lm (off + rlen p off) os1"
        by (auto simp: chain_Cons)
      from bad_entryD(1) [of chunk mx p off, OF this(1)] chain_le [OF this(2)] False show False by simp
    qed
    with False l show ?thesis
      by (subst check_loop.simps) (auto intro!: exI [where x = "[]"])
  qed
qed

lemma chain_unique: "chain chunk mx p lm off os \<Longrightarrow> chain chunk mx p lm off os' \<Longrightarrow> os = os'"
proof (induction arbitrary: os' rule: chain.induct)
  case stop
  then show ?case by (cases os') (auto simp: chain_Cons)
next
  case (step off os)
  show ?case
  proof (cases os')
    case Nil
    then show ?thesis using step.prems step.hyps(2) by simp
  next
    case (Cons o1 os1)
    with step.prems have "o1 = off" "chain chunk mx p lm (off + rlen p off) os1" by (auto simp: chain_Cons)
    then show ?thesis using step.IH [of os1] Cons by simp
  qed
qed

lemma chain_bounds:
  assumes "chain chunk mx p lm off os" and "o1 \<in> set os"
  shows "off \<le> o1" "o1 + rlen p o1 \<le> lm" "bad_entry chunk mx (p o1) o1 = None"
  using assms
proof (induction rule: chain.induct)
  case (step off os)
  note le = chain_le [OF step.hyps(3)] and d = bad_entryD(1) [of chunk mx p off, OF step.hyps(1)]
  { case 1 then show ?case using step le d by (cases "o1 = off") auto }
  { case 2 then show ?case using step le by (cases "o1 = off") auto }
  { case 3 then show ?case using step by (cases "o1 = off") auto }
qed simp_all

lemma chain_sorted: "chain chunk mx p lm off os \<Longrightarrow> sorted_wrt (<) os"
proof (induction rule: chain.induct)
  case (step off os)
  then show ?case using chain_bounds(1) [OF step.hyps(3)] bad_entryD(1) [of chunk mx p off, OF step.hyps(1)]
    by fastforce
qed simp

lemma chain_distinct: "chain chunk mx p lm off os \<Longrightarrow> distinct os"
  using chain_sorted strict_sorted_iff by blast

text \<open>A chain can be cut at a record, and depends only on the records it visits.\<close>

lemma chain_append:
  "chain chunk mx p lm off (as @ o1 # bs) \<longleftrightarrow>
     chain chunk mx p o1 off as \<and> chain chunk mx p lm o1 (o1 # bs)"
proof (induction as arbitrary: off)
  case Nil
  then show ?case by (auto simp: chain_Cons)
next
  case (Cons a as)
  have "chain chunk mx p lm o1 (o1 # bs) \<Longrightarrow> o1 < lm" by (auto simp: chain_Cons)
  moreover have "chain chunk mx p o1 (a + rlen p a) as \<Longrightarrow> bad_entry chunk mx (p a) a = None \<Longrightarrow> a < o1"
    using chain_le [of chunk mx p o1 "a + rlen p a" as] bad_entryD(1) [of chunk mx p a] by auto
  ultimately show ?case using Cons.IH by (auto simp: chain_Cons)
qed

lemma chain_cong:
  assumes "chain chunk mx p lm off os" and "\<And>o1. o1 \<in> set os \<Longrightarrow> p' o1 = p o1"
  shows "chain chunk mx p' lm off os"
  using assms
proof (induction rule: chain.induct)
  case (step off os)
  have e: "p' off = p off" using step.prems by simp
  then have "rlen p' off = rlen p off" by (simp add: rlen_def)
  moreover have "chain chunk mx p' lm (off + rlen p off) os" using step.IH step.prems by simp
  ultimately show ?case using step.hyps(1,2) e by (intro chain.step) simp_all
qed (rule chain.stop)

section \<open>The entries of a page\<close>

function walk :: "dpage \<Rightarrow> nat \<Rightarrow> nat \<Rightarrow> nat list" where
  "walk p lm off = (if off < lm \<and> rlen p off \<noteq> 0 then off # walk p lm (off + rlen p off) else [])"
  by pat_completeness auto
termination
  by (relation "measure (\<lambda>(p, lm, off). lm - off)") auto

declare walk.simps [simp del]

lemma chain_walk: "chain chunk mx p lm off os \<Longrightarrow> walk p lm off = os"
proof (induction rule: chain.induct)
  case stop
  then show ?case by (subst walk.simps) simp
next
  case (step off os)
  then show ?case using bad_entryD(1) [of chunk mx p off, OF step.hyps(1)] by (subst walk.simps) simp
qed

definition entry_of :: "ext2_dirent \<Rightarrow> byte list \<times> nat" where
  "entry_of de = (take (name_len de) (de_name de), de_inode de)"

definition live :: "ext2_dirent \<Rightarrow> bool" where
  "live de \<longleftrightarrow> de_inode de \<noteq> 0"

definition page_list :: "dpage \<Rightarrow> nat \<Rightarrow> (byte list \<times> nat) list" where
  "page_list p lm = map (\<lambda>off. entry_of (p off)) (filter (\<lambda>off. live (p off)) (walk p lm 0))"

text \<open>\<open>page_ok\<close>: a page accepted by the check, whose live records have names of at least one byte.\<close>

definition named :: "ext2_dirent \<Rightarrow> bool" where
  "named de \<longleftrightarrow> name_len de \<le> length (de_name de) \<and> (live de \<longrightarrow> 0 < name_len de)"

definition page_ok :: "nat \<Rightarrow> nat \<Rightarrow> dpage \<Rightarrow> nat \<Rightarrow> bool" where
  "page_ok chunk mx p lm \<longleftrightarrow> chain chunk mx p lm 0 (walk p lm 0) \<and> (\<forall>off \<in> set (walk p lm 0). named (p off))"

lemma page_okI:
  assumes "chain chunk mx p lm 0 os" and "\<And>off. off \<in> set os \<Longrightarrow> named (p off)"
  shows "page_ok chunk mx p lm" "page_list p lm = map (\<lambda>off. entry_of (p off)) (filter (\<lambda>off. live (p off)) os)"
  using assms chain_walk [OF assms(1)] by (auto simp: page_ok_def page_list_def)

lemma match_iff:
  "named de \<Longrightarrow> ext2_match (length name) name de \<longleftrightarrow> live de \<and> fst (entry_of de) = name"
  by (auto simp: ext2_match_def live_def entry_of_def named_def min_def)

lemma match_fits:
  assumes "chain chunk mx p lm off os" and "o1 \<in> set os" and "ext2_match len name (p o1)"
  shows "o1 + EXT2_DIR_REC_LEN len \<le> lm"
  using chain_bounds(2,3) [OF assms(1,2)] bad_entryD(3) [of chunk mx p o1] assms(3)
  by (auto simp: ext2_match_def)

text \<open>The search in a page finds the first record that matches, although it stops where no
  record of the wanted length could follow.\<close>

lemma find_loop_chain:
  assumes "chain chunk mx p lm off os"
  shows "find_loop p name len (int lm - int (EXT2_DIR_REC_LEN len)) off =
     (case find (\<lambda>o1. ext2_match len name (p o1)) os of Some o1 \<Rightarrow> Found o1 | None \<Rightarrow> Not_here)"
  using assms
proof (induction rule: chain.induct)
  case stop
  then show ?case using REC_LEN_bounds(1) [of len] by (subst find_loop.simps) simp
next
  case (step off os)
  note c = chain.step [of chunk mx p off lm os, OF step.hyps]
  show ?case
  proof (cases "int off \<le> int lm - int (EXT2_DIR_REC_LEN len)")
    case True
    then show ?thesis
      using step.IH rec_len_nonzero [OF bad_entryD(1) [of chunk mx p off, OF step.hyps(1)]]
      by (subst find_loop.simps) (simp add: ext2_next_entry_def rlen_def)
  next
    case False
    have "\<not> ext2_match len name (p o1)" if "o1 \<in> set (off # os)" for o1
      using match_fits [OF c that] chain_bounds(1) [OF c that] False by fastforce
    then have "find (\<lambda>o1. ext2_match len name (p o1)) (off # os) = None" by (simp add: find_None_iff)
    then show ?thesis using False by (subst find_loop.simps) simp
  qed
qed

lemma empty_loop_chain:
  assumes "chain chunk mx p lm off os"
  shows "empty_loop ino p (int lm - 12) off \<longleftrightarrow> (\<forall>o1 \<in> set os. live (p o1) \<longrightarrow> dot_entry ino (p o1))"
  using assms
proof (induction rule: chain.induct)
  case stop
  then show ?case by (subst empty_loop.simps) simp
next
  case (step off os)
  note d = bad_entryD(1) [of chunk mx p off, OF step.hyps(1)]
  have "int off \<le> int lm - 12" using d chain_le [OF step.hyps(3)] by simp
  then show ?case using step.IH rec_len_nonzero [OF d]
    by (subst empty_loop.simps) (simp add: ext2_next_entry_def rlen_def live_def)
qed

section \<open>Adding an entry to a page\<close>

lemma set_de_type_fields [simp]:
  "rec_len (ext2_set_de_type sb de mode) = rec_len de" "name_len (ext2_set_de_type sb de mode) = name_len de"
  "de_inode (ext2_set_de_type sb de mode) = de_inode de" "de_name (ext2_set_de_type sb de mode) = de_name de"
  by (simp_all add: ext2_set_de_type_def)

definition plist :: "dpage \<Rightarrow> nat list \<Rightarrow> (byte list \<times> nat) list" where
  "plist p os = map (\<lambda>off. entry_of (p off)) (filter (\<lambda>off. live (p off)) os)"

lemma plist_simps [simp]: "plist p [] = []"
  "plist p (o1 # os) = (if live (p o1) then [entry_of (p o1)] else []) @ plist p os"
  "plist p (as @ bs) = plist p as @ plist p bs"
  by (simp_all add: plist_def)

lemma plist_cong: "(\<And>o1. o1 \<in> set os \<Longrightarrow> p' o1 = p o1) \<Longrightarrow> plist p' os = plist p os"
  by (induction os) auto

lemma page_list_plist: "page_list p lm = plist p (walk p lm 0)"
  by (simp add: page_list_def plist_def)

text \<open>The search for room: it ends at a dead record that is long enough, at a live record with
  enough bytes to spare, or at the end of the directory; it moves on only at the end of the page.\<close>

definition room :: "nat \<Rightarrow> byte list \<Rightarrow> dpage \<Rightarrow> nat \<Rightarrow> nat list \<Rightarrow> add_res \<Rightarrow> bool" where
  "room chunk name p lm os r \<longleftrightarrow>
     (case r of
        Next_page \<Rightarrow> PAGE_CACHE_SIZE < lm + EXT2_DIR_REC_LEN (length name)
      | Add_err _ \<Rightarrow> False
      | Got p' o1 rl nl \<Rightarrow>
          (o1 \<in> set os \<and> p' = p \<and> rl = rlen p o1 \<and> nl = EXT2_DIR_REC_LEN (name_len (p o1)) \<and>
             (if live (p o1) then nl + EXT2_DIR_REC_LEN (length name) \<le> rl
              else EXT2_DIR_REC_LEN (length name) \<le> rl)) \<or>
          (o1 = lm \<and> rl = chunk \<and> nl = 0 \<and> lm + EXT2_DIR_REC_LEN (length name) \<le> PAGE_CACHE_SIZE \<and>
             (\<exists>d. ext2_rec_len_from_disk d = chunk \<and> p' = p(lm := (p lm)\<lparr>rec_len := d, de_inode := 0\<rparr>))))"

lemma room_mono: "room chunk name p lm os r \<Longrightarrow> set os \<subseteq> set os' \<Longrightarrow> room chunk name p lm os' r"
  by (cases r) (auto simp: room_def)

lemma add_scan_chain:
  assumes "chain chunk mx p lm off os" and "lm \<le> PAGE_CACHE_SIZE" and "chunk \<le> PAGE_CACHE_SIZE"
    and "\<And>o1. o1 \<in> set os \<Longrightarrow> \<not> ext2_match (length name) name (p o1)"
  shows "\<exists>r. add_scan chunk lm name p off = Some r \<and> room chunk name p lm os r"
  using assms
proof (induction rule: chain.induct)
  case stop
  obtain d where d: "ext2_rec_len_to_disk chunk = Some d" "ext2_rec_len_from_disk d = chunk"
    using to_disk_small [OF stop(2)] by blast
  show ?case
  proof (cases "int lm \<le> int PAGE_CACHE_SIZE - int (EXT2_DIR_REC_LEN (length name))")
    case True
    then have "add_scan chunk lm name p lm = Some (Got (p(lm := (p lm)\<lparr>rec_len := d, de_inode := 0\<rparr>)) lm chunk 0)"
      using d(1) stop(2) by (subst add_scan.simps) simp
    moreover have "lm + EXT2_DIR_REC_LEN (length name) \<le> PAGE_CACHE_SIZE" using True by simp
    ultimately show ?thesis using d(2) by (auto simp: room_def)
  next
    case False
    then show ?thesis by (subst add_scan.simps) (auto simp: room_def)
  qed
next
  case (step off os)
  note b = bad_entryD [of chunk mx p off, OF step.hyps(1)]
  have le: "off + rlen p off \<le> lm" using chain_le [OF step.hyps(3)] .
  have rl: "rlen p off mod 2 ^ 16 = rlen p off" using le step.prems(1) by simp
  have nl: "EXT2_DIR_REC_LEN (name_len (p off)) mod 2 ^ 16 = EXT2_DIR_REC_LEN (name_len (p off))"
    using b(3) le step.prems(1) by simp
  let ?reclen = "EXT2_DIR_REC_LEN (length name)"
  consider "int off > int PAGE_CACHE_SIZE - int ?reclen"
    | "int off \<le> int PAGE_CACHE_SIZE - int ?reclen"
      "de_inode (p off) = 0 \<and> ?reclen \<le> rlen p off \<or> EXT2_DIR_REC_LEN (name_len (p off)) + ?reclen \<le> rlen p off"
    | "int off \<le> int PAGE_CACHE_SIZE - int ?reclen"
      "\<not> (de_inode (p off) = 0 \<and> ?reclen \<le> rlen p off)" "\<not> EXT2_DIR_REC_LEN (name_len (p off)) + ?reclen \<le> rlen p off"
    by linarith
  then show ?case
  proof cases
    case 1
    then show ?thesis using step.hyps(2) by (subst add_scan.simps) (auto simp: room_def)
  next
    case 2
    then have "add_scan chunk lm name p off = Some (Got p off (rlen p off) (EXT2_DIR_REC_LEN (name_len (p off))))"
      using step.hyps(2) step.prems rec_len_nonzero [OF b(1)] rl nl by (subst add_scan.simps) (auto simp: Let_def)
    then show ?thesis using 2(2) by (auto simp: room_def live_def)
  next
    case 3
    then have "add_scan chunk lm name p off = add_scan chunk lm name p (off + rlen p off)"
      using step.hyps(2) step.prems rec_len_nonzero [OF b(1)] rl nl
      by (subst add_scan.simps) (auto simp: Let_def)
    moreover obtain r where "add_scan chunk lm name p (off + rlen p off) = Some r" "room chunk name p lm os r"
      using step.IH step.prems by auto
    ultimately show ?thesis using room_mono [of chunk name p lm os r "off # os"] by auto
  qed
qed

definition fresh_de :: "ext2_sb \<Rightarrow> ext2_dirent \<Rightarrow> byte list \<Rightarrow> nat \<Rightarrow> 16 word \<Rightarrow> ext2_dirent" where
  "fresh_de sb de name ino mode = ext2_set_de_type sb
     (de\<lparr>name_len := length name, de_name := name @ drop (length name) (de_name de), de_inode := ino\<rparr>) mode"

lemma fresh_de [simp]:
  "entry_of (fresh_de sb de name ino mode) = (name, ino)" "live (fresh_de sb de name ino mode) \<longleftrightarrow> ino \<noteq> 0"
  "rec_len (fresh_de sb de name ino mode) = rec_len de" "name_len (fresh_de sb de name ino mode) = length name"
  "de_inode (fresh_de sb de name ino mode) = ino" "name \<noteq> [] \<Longrightarrow> named (fresh_de sb de name ino mode)"
  by (simp_all add: fresh_de_def entry_of_def live_def named_def)

lemma rlen_upd: "rlen (p(o1 := de)) o2 = (if o2 = o1 then ext2_rec_len_from_disk (rec_len de) else rlen p o2)"
  by (simp add: rlen_def)

text \<open>Replacing a segment of the chain: the records before and after it are not touched.\<close>

lemma chain_replace:
  assumes c: "chain chunk mx p lm 0 (as @ o1 # bs)"
    and new: "chain chunk mx p' (o1 + rlen p o1) o1 (o1 # cs)"
    and eq: "\<And>o2. o2 < o1 \<or> o1 + rlen p o1 \<le> o2 \<Longrightarrow> p' o2 = p o2"
  shows "chain chunk mx p' lm 0 (as @ o1 # cs @ bs)" "plist p' as = plist p as" "plist p' bs = plist p bs"
proof -
  from c have a: "chain chunk mx p o1 0 as" and b: "chain chunk mx p lm o1 (o1 # bs)"
    by (simp_all add: chain_append)
  from b have b': "chain chunk mx p lm (o1 + rlen p o1) bs" by (simp add: chain_Cons)
  have ea: "p' o2 = p o2" if "o2 \<in> set as" for o2
    using chain_bounds(2) [OF a that] bad_entryD(1) [of chunk mx p o2, OF chain_bounds(3) [OF a that]] by (intro eq) simp
  have eb: "p' o2 = p o2" if "o2 \<in> set bs" for o2 using chain_bounds(1) [OF b' that] by (intro eq) simp
  show "plist p' as = plist p as" "plist p' bs = plist p bs" using ea eb by (auto intro: plist_cong)
  have "chain chunk mx p' o1 0 as" using chain_cong [OF a ea] .
  moreover have "chain chunk mx p' lm (o1 + rlen p o1) bs" using chain_cong [OF b' eb] .
  then have "chain chunk mx p' lm o1 (o1 # cs @ bs)"
  proof (cases bs)
    case Nil
    with \<open>chain chunk mx p' lm (o1 + rlen p o1) bs\<close> new show ?thesis by simp
  next
    case (Cons o2 bs2)
    with \<open>chain chunk mx p' lm (o1 + rlen p o1) bs\<close> have "o2 = o1 + rlen p o1" by (simp add: chain_Cons)
    with Cons new \<open>chain chunk mx p' lm (o1 + rlen p o1) bs\<close>
    show ?thesis using chain_append [of chunk mx p' lm o1 "o1 # cs" o2 bs2] by simp
  qed
  ultimately show "chain chunk mx p' lm 0 (as @ o1 # cs @ bs)" by (simp add: chain_append)
qed

lemma chain_single:
  assumes "bad_entry chunk mx (p off) off = None" and "lm = off + rlen p off"
  shows "chain chunk mx p lm off [off]"
  using assms bad_entryD(1) [of chunk mx p off] by (simp add: chain_Cons)

text \<open>Live records stay where they are, with their name and inode number.\<close>

definition stays :: "dpage \<Rightarrow> nat \<Rightarrow> dpage \<Rightarrow> nat \<Rightarrow> bool" where
  "stays p lm p' lm' \<longleftrightarrow> (\<forall>o1 \<in> set (walk p lm 0). live (p o1) \<longrightarrow>
     o1 \<in> set (walk p' lm' 0) \<and> live (p' o1) \<and> entry_of (p' o1) = entry_of (p o1))"

lemma staysI:
  assumes "chain chunk mx p' lm' 0 os'" and "set (walk p lm 0) \<subseteq> set os'"
    and "\<And>o1. o1 \<in> set (walk p lm 0) \<Longrightarrow> live (p o1) \<Longrightarrow> live (p' o1) \<and> entry_of (p' o1) = entry_of (p o1)"
  shows "stays p lm p' lm'"
  using assms(2,3) chain_walk [OF assms(1)] by (auto simp: stays_def)

lemma insert_dead:
  fixes sb :: ext2_sb and mode :: "16 word"
  assumes ok: "page_ok chunk mx p lm" and o1: "o1 \<in> set (walk p lm 0)" "\<not> live (p o1)"
    and len: "EXT2_DIR_REC_LEN (length name) \<le> rlen p o1" and ino: "0 < ino" "ino \<le> mx" "name \<noteq> []"
  defines "p' \<equiv> p(o1 := fresh_de sb (p o1) name ino mode)"
  shows "page_ok chunk mx p' lm \<and> mset (page_list p' lm) = add_mset (name, ino) (mset (page_list p lm)) \<and> stays p lm p' lm"
proof -
  from split_list [OF o1(1)] obtain as bs where os: "walk p lm 0 = as @ o1 # bs" by blast
  have c: "chain chunk mx p lm 0 (as @ o1 # bs)" using ok os by (simp add: page_ok_def)
  note b = bad_entryD [of chunk mx p o1, OF chain_bounds(3) [OF c, of o1]]
  have r: "rlen p' o1 = rlen p o1" by (simp add: p'_def rlen_upd) (simp add: rlen_def)
  have "bad_entry chunk mx (p' o1) o1 = None"
    using b len ino by (intro bad_entryI) (auto simp: p'_def rlen_def)
  from chain_single [of chunk mx p' o1, OF this] have "chain chunk mx p' (o1 + rlen p o1) o1 [o1]" by (simp add: r)
  moreover have eq: "p' o2 = p o2" if "o2 < o1 \<or> o1 + rlen p o1 \<le> o2" for o2
    using that b(1) by (auto simp: p'_def)
  ultimately have c': "chain chunk mx p' lm 0 (as @ o1 # bs)" and pl: "plist p' as = plist p as" "plist p' bs = plist p bs"
    using chain_replace [OF c, of p' "[]"] by simp_all
  have "named (p' o2)" if "o2 \<in> set (as @ o1 # bs)" for o2
    using ok os that ino by (cases "o2 = o1") (auto simp: page_ok_def p'_def)
  from page_okI [OF c' this] have "page_ok chunk mx p' lm" "page_list p' lm = plist p' (as @ o1 # bs)"
    by (simp_all add: plist_def)
  moreover have "stays p lm p' lm" using o1(2) by (intro staysI [OF c']) (auto simp: os p'_def)
  moreover have "p' o1 = fresh_de sb (p o1) name ino mode" by (simp add: p'_def)
  ultimately show ?thesis using pl o1(2) ino(1) os by (simp add: page_list_plist)
qed

lemma same_chunk:
  fixes a b c chunk :: nat
  assumes "a \<le> b" "b \<le> c" "c div chunk = a div chunk"
  shows "b div chunk = a div chunk"
  using assms div_le_mono [of a b chunk] div_le_mono [of b c chunk] by simp

lemma insert_split:
  fixes sb :: ext2_sb and mode :: "16 word"
  assumes ok: "page_ok chunk mx p lm" and o1: "o1 \<in> set (walk p lm 0)" "live (p o1)"
    and nl: "nl = EXT2_DIR_REC_LEN (name_len (p o1))"
    and len: "nl + EXT2_DIR_REC_LEN (length name) \<le> rlen p o1" and ino: "0 < ino" "ino \<le> mx" "name \<noteq> []"
    and d: "ext2_rec_len_from_disk d1 = rlen p o1 - nl" "ext2_rec_len_from_disk d0 = nl"
  defines "p' \<equiv> p(o1 := (p o1)\<lparr>rec_len := d0\<rparr>, o1 + nl := fresh_de sb ((p (o1 + nl))\<lparr>rec_len := d1\<rparr>) name ino mode)"
  shows "page_ok chunk mx p' lm \<and> mset (page_list p' lm) = add_mset (name, ino) (mset (page_list p lm)) \<and> stays p lm p' lm"
proof -
  from split_list [OF o1(1)] obtain as bs where os: "walk p lm 0 = as @ o1 # bs" by blast
  have c: "chain chunk mx p lm 0 (as @ o1 # bs)" using ok os by (simp add: page_ok_def)
  note b = bad_entryD [of chunk mx p o1, OF chain_bounds(3) [OF c, of o1]]
  have nm: "named (p o1)" using ok os by (simp add: page_ok_def)
  have l12: "12 \<le> nl" "12 \<le> EXT2_DIR_REC_LEN (length name)"
    using REC_LEN_mono [of 1 "name_len (p o1)"] REC_LEN_mono [of 1 "length name"] nm o1(2) ino(3)
    by (auto simp: nl named_def Suc_le_eq)
  have m4: "nl mod 4 = 0" "(rlen p o1 - nl) mod 4 = 0"
    using b(2) REC_LEN_bounds(3) [of "name_len (p o1)"] len by (auto simp: nl mod_eq_0_iff_dvd)
  have r: "rlen p' o1 = nl" "rlen p' (o1 + nl) = rlen p o1 - nl"
    using l12 d by (auto simp: p'_def rlen_upd)
  have ck: "(o1 + nl - 1) div chunk = o1 div chunk" "(o1 + nl) div chunk = o1 div chunk"
    using same_chunk [of o1 "o1 + nl - 1" "o1 + rlen p o1 - 1" chunk] b(4) len l12
      same_chunk [of o1 "o1 + nl" "o1 + rlen p o1 - 1" chunk] by auto
  have b1: "bad_entry chunk mx (p' o1) o1 = None"
    using b(5) r m4 l12 ck d by (intro bad_entryI) (auto simp: p'_def nl)
  have b2: "bad_entry chunk mx (p' (o1 + nl)) (o1 + nl) = None"
    using r m4 l12 ck b(4) d ino len by (intro bad_entryI) (auto simp: p'_def)
  have "chain chunk mx p' (o1 + rlen p o1) (o1 + nl) [o1 + nl]"
    using chain_single [of chunk mx p' "o1 + nl", OF b2] r len by simp
  then have "chain chunk mx p' (o1 + rlen p o1) o1 (o1 # [o1 + nl])"
    using b1 b(1) r by (simp add: chain_Cons)
  moreover have eq: "p' o2 = p o2" if "o2 < o1 \<or> o1 + rlen p o1 \<le> o2" for o2
    using that b(1) l12 len by (auto simp: p'_def)
  ultimately have c': "chain chunk mx p' lm 0 (as @ o1 # [o1 + nl] @ bs)"
    and pl: "plist p' as = plist p as" "plist p' bs = plist p bs"
    using chain_replace [OF c, of p' "[o1 + nl]"] by simp_all
  have e: "p' o1 = (p o1)\<lparr>rec_len := d0\<rparr>" "p' (o1 + nl) = fresh_de sb ((p (o1 + nl))\<lparr>rec_len := d1\<rparr>) name ino mode"
    using l12 by (auto simp: p'_def)
  have "named (p' o2)" if o2: "o2 \<in> set (as @ o1 # [o1 + nl] @ bs)" for o2
  proof -
    consider "o2 = o1" | "o2 = o1 + nl" | "o2 \<in> set (as @ bs)" "o2 \<noteq> o1" "o2 \<noteq> o1 + nl" using o2 by auto
    then show ?thesis
    proof cases
      case 1
      then show ?thesis using nm e(1) by (simp add: named_def live_def)
    next
      case 2
      then show ?thesis using e(2) ino(3) by simp
    next
      case 3
      then show ?thesis using ok os by (auto simp: page_ok_def p'_def)
    qed
  qed
  from page_okI [OF c' this] have "page_ok chunk mx p' lm" "page_list p' lm = plist p' (as @ o1 # [o1 + nl] @ bs)"
    by (simp_all add: plist_def)
  moreover have eo: "entry_of (p' o1) = entry_of (p o1)" "live (p' o1)" using e o1(2) by (simp_all add: entry_of_def live_def)
  moreover have "stays p lm p' lm"
  proof (rule staysI [OF c'])
    show "live (p' o2) \<and> entry_of (p' o2) = entry_of (p o2)" if "o2 \<in> set (walk p lm 0)" "live (p o2)" for o2
    proof (cases "o2 = o1")
      case False
      note cb = chain_bounds [OF c, of o2] and ao = that(1) [unfolded os]
      have "o2 < o1 \<or> o1 + rlen p o1 \<le> o2"
      proof -
        have "chain chunk mx p o1 0 as" "chain chunk mx p lm (o1 + rlen p o1) bs"
          using c by (simp_all add: chain_append chain_Cons)
        then show ?thesis using ao False chain_bounds(1) [of chunk mx p lm "o1 + rlen p o1" bs o2]
            chain_bounds(2,3) [of chunk mx p o1 0 as o2] bad_entryD(1) [of chunk mx p o2] by fastforce
      qed
      then show ?thesis using eq that by simp
    qed (use eo in simp)
  qed (simp add: os subset_iff)
  ultimately show ?thesis using pl o1(2) ino(1) os e by (simp add: page_list_plist)
qed

lemma insert_chunk:
  fixes sb :: ext2_sb and mode :: "16 word"
  assumes ok: "page_ok chunk mx p lm" and chunk: "chunk dvd lm" "4 dvd chunk" "12 \<le> chunk"
    and len: "EXT2_DIR_REC_LEN (length name) \<le> chunk" and ino: "0 < ino" "ino \<le> mx" "name \<noteq> []"
    and d: "ext2_rec_len_from_disk (rec_len de) = chunk"
  defines "p' \<equiv> p(lm := fresh_de sb de name ino mode)"
  shows "page_ok chunk mx p' (lm + chunk) \<and> mset (page_list p' (lm + chunk)) = add_mset (name, ino) (mset (page_list p lm)) \<and>
    stays p lm p' (lm + chunk)"
proof -
  let ?os = "walk p lm 0"
  have c: "chain chunk mx p lm 0 ?os" using ok by (simp add: page_ok_def)
  have lt: "o2 < lm" if "o2 \<in> set ?os" for o2
    using chain_bounds(2) [OF c that] bad_entryD(1) [of chunk mx p o2, OF chain_bounds(3) [OF c that]] by simp
  have eq: "p' o2 = p o2" if "o2 \<in> set ?os" for o2 using lt [OF that] by (simp add: p'_def)
  have "(lm + chunk - 1) div chunk = lm div chunk"
  proof -
    obtain k where "lm = chunk * k" using chunk(1) by (rule dvdE)
    then have "lm + chunk - 1 = chunk - 1 + chunk * k" using chunk(3) by simp
    then have "(lm + chunk - 1) div chunk = k" using chunk(3) by (simp only: div_mult_self2) simp
    then show ?thesis using \<open>lm = chunk * k\<close> chunk(3) by simp
  qed
  then have "bad_entry chunk mx (p' lm) lm = None"
    using chunk len ino d by (intro bad_entryI) (auto simp: p'_def)
  moreover have r: "rlen p' lm = chunk" by (simp add: p'_def rlen_upd d)
  ultimately have "chain chunk mx p' (lm + chunk) lm [lm]" using chain_single [of chunk mx p' lm] by simp
  with chain_cong [OF c eq] have c': "chain chunk mx p' (lm + chunk) 0 (?os @ [lm])" by (simp add: chain_append)
  have "named (p' o2)" if "o2 \<in> set (?os @ [lm])" for o2
    using that ok eq ino by (cases "o2 = lm") (auto simp: page_ok_def p'_def)
  from page_okI [OF c' this] have "page_ok chunk mx p' (lm + chunk)" "page_list p' (lm + chunk) = plist p' (?os @ [lm])"
    by (simp_all add: plist_def)
  moreover have "stays p lm p' (lm + chunk)" using eq by (intro staysI [OF c']) auto
  moreover have "plist p' ?os = plist p ?os" using eq by (rule plist_cong)
  ultimately show ?thesis using ino(1) by (simp add: page_list_plist p'_def)
qed

section \<open>Directories\<close>

definition pg :: "inode \<Rightarrow> nat \<Rightarrow> (byte list \<times> nat) list" where
  "pg dir n = page_list (dpages dir n) (ext2_last_byte dir n)"

definition listing :: "inode \<Rightarrow> (byte list \<times> nat) list" where
  "listing dir = concat (map (pg dir) [0..<dir_pages dir])"

text \<open>\<open>dir_ok\<close>: every page of the directory is well formed up to its last byte, no page is marked
  bad, and the size is a multiple of the chunk size, one of the block sizes of ext2.\<close>

definition dir_ok :: "ext2_sb \<Rightarrow> inode \<Rightarrow> bool" where
  "dir_ok sb dir \<longleftrightarrow> s_blocksize sb \<in> {1024, 2048, 4096} \<and> s_blocksize sb dvd i_size dir \<and> i_size dir < 2 ^ 32 \<and>
     (\<forall>n < dir_pages dir. page_ok (s_blocksize sb) (s_inodes_count sb) (dpages dir n) (ext2_last_byte dir n)) \<and>
     (\<forall>n. \<not> p_error dir n)"

text \<open>Only the flags of the pages and the hint where to start a search differ.\<close>

definition strip :: "inode \<Rightarrow> inode" where
  "strip dir = dir\<lparr>p_checked := \<lambda>_. False, p_error := \<lambda>_. False, i_dir_start_lookup := 0\<rparr>"

definition same_dir :: "inode \<Rightarrow> inode \<Rightarrow> bool" where
  "same_dir dir dir' \<longleftrightarrow> strip dir' = strip dir"

lemma strip_fields [simp]: "dpages (strip dir) = dpages dir" "i_size (strip dir) = i_size dir"
  "i_blocks (strip dir) = i_blocks dir" "i_ino (strip dir) = i_ino dir"
  "strip (dir\<lparr>p_checked := c\<rparr>) = strip dir" "strip (dir\<lparr>p_error := e\<rparr>) = strip dir"
  "strip (dir\<lparr>i_dir_start_lookup := l\<rparr>) = strip dir"
  by (simp_all add: strip_def)

lemma same_dirD:
  assumes "same_dir dir dir'"
  shows "dpages dir' = dpages dir" "i_size dir' = i_size dir" "i_blocks dir' = i_blocks dir" "i_ino dir' = i_ino dir"
    "dir_pages dir' = dir_pages dir" "ext2_last_byte dir' = ext2_last_byte dir" "listing dir' = listing dir"
proof -
  show e: "dpages dir' = dpages dir" "i_size dir' = i_size dir" "i_blocks dir' = i_blocks dir" "i_ino dir' = i_ino dir"
    using assms unfolding same_dir_def by (metis strip_fields(1), metis strip_fields(2), metis strip_fields(3), metis strip_fields(4))
  show d: "dir_pages dir' = dir_pages dir" "ext2_last_byte dir' = ext2_last_byte dir"
    by (simp_all add: dir_pages_def ext2_last_byte_def fun_eq_iff e)
  then have "pg dir' = pg dir" using e by (intro ext) (simp add: pg_def)
  then show "listing dir' = listing dir" by (simp add: listing_def d)
qed

lemma same_dir_refl: "same_dir dir dir"
  by (simp add: same_dir_def)

lemma same_dir_trans: "same_dir d1 d2 \<Longrightarrow> same_dir d2 d3 \<Longrightarrow> same_dir d1 d3"
  by (simp add: same_dir_def)

lemma dir_ok_same:
  assumes "dir_ok sb dir" and "same_dir dir dir'" and "\<And>n. \<not> p_error dir' n"
  shows "dir_ok sb dir'"
  using assms(1,3) same_dirD [OF assms(2)] by (simp add: dir_ok_def)

lemma dir_pages_pos: "n < dir_pages dir \<longleftrightarrow> n * PAGE_CACHE_SIZE < i_size dir"
  by (simp add: dir_pages_def less_eq_div_iff_mult_less_eq Suc_le_eq [symmetric])

lemma last_byte:
  assumes "i_size dir < 2 ^ 32"
  shows "n * PAGE_CACHE_SIZE \<le> i_size dir \<Longrightarrow>
    ext2_last_byte dir n = min PAGE_CACHE_SIZE (i_size dir - n * PAGE_CACHE_SIZE)"
  using assms by (simp add: ext2_last_byte_def u32_sub_id Let_def min_def)

lemma get_page:
  assumes ok: "dir_ok sb dir" and rd: "rd n = None" and n: "n * PAGE_CACHE_SIZE \<le> i_size dir"
    and al: "n < dir_pages dir \<or> PAGE_CACHE_SIZE dvd i_size dir"
  shows "\<exists>dir'. ext2_get_page rd sb dir n = (dir', Inr (dpages dir n)) \<and> same_dir dir dir' \<and> dir_ok sb dir'"
proof -
  let ?chunk = "s_blocksize sb"
  from ok have sz: "i_size dir < 2 ^ 32" "?chunk dvd i_size dir" "?chunk dvd PAGE_CACHE_SIZE"
    and pe: "\<And>n. \<not> p_error dir n" by (auto simp: dir_ok_def)
  note lb = last_byte [OF sz(1) n]
  have "ext2_check_page sb dir n = None"
  proof (cases "n < dir_pages dir")
    case False
    then have "i_size dir = n * PAGE_CACHE_SIZE" using n dir_pages_pos [of n dir] by simp
    then show ?thesis by (simp add: ext2_check_page_def)
  next
    case True
    then have lt: "n * PAGE_CACHE_SIZE < i_size dir" by (simp add: dir_pages_pos)
    let ?l = "ext2_last_byte dir n"
    from ok True have p: "page_ok ?chunk (s_inodes_count sb) (dpages dir n) ?l" by (simp add: dir_ok_def)
    have c: "?chunk dvd ?l" using lb sz by (auto simp: min_def)
    moreover have "0 < ?l" using lb lt by simp
    ultimately have "12 \<le> ?l" using ok by (auto simp: dir_ok_def dest: dvd_imp_le)
    moreover have "?l < 2 ^ 32" using lb by simp
    ultimately have "check_loop ?chunk (s_inodes_count sb) (dpages dir n) ?l 0 = None"
      using check_loop_chain p by (auto simp: page_ok_def)
    moreover have "(if i_size dir div PAGE_CACHE_SIZE = n then i_size dir mod PAGE_CACHE_SIZE else PAGE_CACHE_SIZE) = ?l"
    proof (cases "i_size dir div PAGE_CACHE_SIZE = n")
      case True
      then have "i_size dir = n * PAGE_CACHE_SIZE + i_size dir mod PAGE_CACHE_SIZE" by (metis div_mult_mod_eq)
      moreover have "i_size dir mod PAGE_CACHE_SIZE < PAGE_CACHE_SIZE" by simp
      ultimately have "?l = i_size dir mod PAGE_CACHE_SIZE" using lb by linarith
      then show ?thesis using True by simp
    next
      case False
      have "n < i_size dir div PAGE_CACHE_SIZE" using False n
        by (metis div_le_mono nat_less_le nonzero_mult_div_cancel_right zero_neq_numeral)
      then have "(n + 1) * PAGE_CACHE_SIZE \<le> i_size dir"
        by (metis Suc_eq_plus1 Suc_leI less_eq_div_iff_mult_less_eq zero_less_numeral)
      then show ?thesis using False lb by simp
    qed
    ultimately show ?thesis using c \<open>0 < ?l\<close>
      by (auto simp: ext2_check_page_def Let_def ext2_chunk_size_def mod_eq_0_iff_dvd split: if_splits)
  qed
  let ?dir = "if p_checked dir n then dir else dir\<lparr>p_checked := (p_checked dir)(n := True), p_error := (p_error dir)(n := False)\<rparr>"
  have "ext2_get_page rd sb dir n = (?dir, Inr (dpages dir n))"
    using rd pe \<open>ext2_check_page sb dir n = None\<close> by (auto simp: ext2_get_page_def Let_def)
  moreover have "same_dir dir ?dir"
    by (simp add: same_dir_def)
  moreover have "dir_ok sb ?dir" using dir_ok_same [OF ok \<open>same_dir dir ?dir\<close>] pe by simp
  ultimately show ?thesis by blast
qed

section \<open>Looking up a name\<close>

text \<open>\<open>at_loc dir name (n, off)\<close>: a live entry with that name at offset \<open>off\<close> of page \<open>n\<close>.\<close>

definition at_loc :: "inode \<Rightarrow> byte list \<Rightarrow> nat \<times> nat \<Rightarrow> bool" where
  "at_loc dir name loc \<longleftrightarrow> (case loc of (n, off) \<Rightarrow> n < dir_pages dir \<and>
     off \<in> set (walk (dpages dir n) (ext2_last_byte dir n) 0) \<and> live (dpages dir n off) \<and>
     fst (entry_of (dpages dir n off)) = name)"

lemma at_loc_listing: "at_loc dir name (n, off) \<Longrightarrow> (name, de_inode (dpages dir n off)) \<in> set (listing dir)"
  by (auto simp: at_loc_def listing_def pg_def page_list_def entry_of_def intro!: bexI [where x = n])

lemma listing_at_loc:
  assumes "(name, ino) \<in> set (listing dir)"
  obtains n off where "at_loc dir name (n, off)" "de_inode (dpages dir n off) = ino"
  using assms by (auto simp: at_loc_def listing_def pg_def page_list_def entry_of_def)

lemma page_find:
  assumes ok: "dir_ok sb dir" and n: "n < dir_pages dir"
  shows "find_loop (dpages dir n) name (length name)
       (int (ext2_last_byte dir n) - int (EXT2_DIR_REC_LEN (length name))) 0 = Found off \<Longrightarrow> at_loc dir name (n, off)"
    and "find_loop (dpages dir n) name (length name)
       (int (ext2_last_byte dir n) - int (EXT2_DIR_REC_LEN (length name))) 0 = Not_here \<Longrightarrow> \<not> at_loc dir name (n, off)"
    and "find_loop (dpages dir n) name (length name)
       (int (ext2_last_byte dir n) - int (EXT2_DIR_REC_LEN (length name))) 0 \<noteq> Zero_entry"
proof -
  from ok n have p: "page_ok (s_blocksize sb) (s_inodes_count sb) (dpages dir n) (ext2_last_byte dir n)"
    by (simp add: dir_ok_def)
  then have c: "chain (s_blocksize sb) (s_inodes_count sb) (dpages dir n) (ext2_last_byte dir n) 0
      (walk (dpages dir n) (ext2_last_byte dir n) 0)" by (simp add: page_ok_def)
  have m: "ext2_match (length name) name (dpages dir n o1) \<longleftrightarrow> at_loc dir name (n, o1)"
    if "o1 \<in> set (walk (dpages dir n) (ext2_last_byte dir n) 0)" for o1
    using match_iff p that n by (auto simp: page_ok_def at_loc_def)
  note f = find_loop_chain [OF c, of name "length name"]
  { assume "find_loop (dpages dir n) name (length name)
       (int (ext2_last_byte dir n) - int (EXT2_DIR_REC_LEN (length name))) 0 = Found off"
    with f have "find (\<lambda>o1. ext2_match (length name) name (dpages dir n o1))
        (walk (dpages dir n) (ext2_last_byte dir n) 0) = Some off" by (auto split: option.splits)
    then show "at_loc dir name (n, off)" using m by (auto simp: find_Some_iff) }
  { assume "find_loop (dpages dir n) name (length name)
       (int (ext2_last_byte dir n) - int (EXT2_DIR_REC_LEN (length name))) 0 = Not_here"
    with f have "find (\<lambda>o1. ext2_match (length name) name (dpages dir n o1))
        (walk (dpages dir n) (ext2_last_byte dir n) 0) = None" by (auto split: option.splits)
    then show "\<not> at_loc dir name (n, off)" using m by (auto simp: find_None_iff at_loc_def) }
  show "find_loop (dpages dir n) name (length name)
       (int (ext2_last_byte dir n) - int (EXT2_DIR_REC_LEN (length name))) 0 \<noteq> Zero_entry"
    using f by (auto split: option.splits)
qed

lemma at_loc_same: "same_dir dir dir' \<Longrightarrow> at_loc dir' = at_loc dir"
  by (auto simp: fun_eq_iff at_loc_def same_dirD)

lemma find_pages_ok:
  assumes "dir_ok sb dir" and "rd = (\<lambda>_. None)" and "N = dir_pages dir" and "start < N" and "i < N"
    and "N \<le> i_blocks dir div 8 + 1"
  shows "\<exists>dir' res. find_pages rd sb name (length name) start (N - i) ((start + i) mod N) dir = (dir', res) \<and>
     same_dir dir dir' \<and> dir_ok sb dir' \<and>
     (case res of Some loc \<Rightarrow> at_loc dir name loc
      | None \<Rightarrow> (\<forall>j off. i \<le> j \<longrightarrow> j < N \<longrightarrow> \<not> at_loc dir name ((start + j) mod N, off)))"
  using assms
proof (induction "N - i" arbitrary: i dir)
  case 0
  then show ?case by simp
next
  case (Suc k)
  define n where "n = (start + i) mod N"
  have n: "n < dir_pages dir" using Suc.prems by (simp add: n_def)
  then have "n * PAGE_CACHE_SIZE \<le> i_size dir" by (simp add: dir_pages_pos)
  from get_page [OF Suc.prems(1) _ this, of rd] Suc.prems(2) n obtain d1 where
    g: "ext2_get_page rd sb dir n = (d1, Inr (dpages dir n))" "same_dir dir d1" "dir_ok sb d1" by auto
  note s1 = same_dirD [OF g(2)]
  let ?f = "find_loop (dpages dir n) name (length name)
       (int (ext2_last_byte dir n) - int (EXT2_DIR_REC_LEN (length name))) 0"
  have k: "N - i = Suc (N - Suc i)" using Suc.prems by simp
  have nx: "(if n + 1 \<ge> N then 0 else n + 1) = (start + Suc i) mod N"
    using n Suc.prems(3) by (auto simp: n_def mod_Suc)
  have st: "(start + Suc i) mod N = start \<longleftrightarrow> Suc i = N"
  proof
    assume e: "(start + Suc i) mod N = start"
    show "Suc i = N"
    proof (cases "start + Suc i < N")
      case False
      then have "(start + Suc i) mod N = start + Suc i - N" using Suc.prems by (simp add: mod_if)
      with e False show ?thesis by simp
    qed (use e in simp)
  qed (use Suc.prems in simp)
  consider (found) off where "?f = Found off" | (none) "?f = Not_here" using page_find(3) [OF Suc.prems(1) n] by (cases ?f) auto
  then show ?case
  proof cases
    case found
    then have "find_pages rd sb name (length name) start (N - i) n dir = (d1\<lparr>i_dir_start_lookup := n\<rparr>, Some (n, off))"
      using k g(1) s1 by simp
    moreover have "same_dir dir (d1\<lparr>i_dir_start_lookup := n\<rparr>)" using g(2) by (simp add: same_dir_def)
    moreover have "dir_ok sb (d1\<lparr>i_dir_start_lookup := n\<rparr>)"
      using dir_ok_same [OF Suc.prems(1) calculation(2)] g(3) by (simp add: dir_ok_def)
    ultimately show ?thesis using page_find(1) [OF Suc.prems(1) n found] by (simp add: n_def)
  next
    case none
    note nf = page_find(2) [OF Suc.prems(1) n none]
    have lt: "(start + Suc i) mod N \<le> i_blocks dir div 8"
      using Suc.prems(6) mod_less_divisor [of N "start + Suc i"] Suc.prems(5) by linarith
    show ?thesis
    proof (cases "Suc i = N")
      case True
      then have "find_pages rd sb name (length name) start (N - i) n dir = (d1, None)"
        using k g(1) s1 none nx st lt Suc.prems(3) by (simp add: Let_def)
      moreover have "\<not> at_loc dir name ((start + j) mod N, off)" if "i \<le> j" "j < N" for j off
        using that True nf by (cases "j = i") (auto simp: n_def)
      ultimately show ?thesis using g by (simp add: n_def)
    next
      case False
      then have i1: "Suc i < N" using Suc.prems(5) by simp
      have e: "find_pages rd sb name (length name) start (N - i) n dir =
          find_pages rd sb name (length name) start (N - Suc i) ((start + Suc i) mod N) d1"
        using k g(1) s1 none nx st lt False Suc.prems(3) by (simp add: Let_def)
      have k1: "k = N - Suc i" using Suc.hyps(2) by simp
      from Suc.hyps(1) [OF k1 g(3) Suc.prems(2) _ Suc.prems(4) i1] Suc.prems(3,6) s1 obtain d2 res where
        r: "find_pages rd sb name (length name) start (N - Suc i) ((start + Suc i) mod N) d1 = (d2, res)"
        "same_dir d1 d2" "dir_ok sb d2" "case res of Some loc \<Rightarrow> at_loc d1 name loc
          | None \<Rightarrow> (\<forall>j off. Suc i \<le> j \<longrightarrow> j < N \<longrightarrow> \<not> at_loc d1 name ((start + j) mod N, off))" by auto
      have "\<not> at_loc dir name ((start + j) mod N, off)" if "res = None" "i \<le> j" "j < N" for j off
        using that r(4) nf at_loc_same [OF g(2)] by (cases "j = i") (auto simp: n_def)
      then show ?thesis using e r same_dir_trans [OF g(2) r(2)] at_loc_same [OF g(2)]
        by (cases res) (simp_all add: n_def)
    qed
  qed
qed

text \<open>The number of pages is enough as a bound for the search: it comes back to its first page before
  the bound is used up, so a larger bound makes no difference, whatever is read from the pages.\<close>

lemma get_page_size:
  "ext2_get_page rd sb dir n = (d1, r) \<Longrightarrow> i_size d1 = i_size dir \<and> i_blocks d1 = i_blocks dir"
  by (auto simp: ext2_get_page_def Let_def split: option.splits if_splits)

lemma find_pages_bound:
  assumes "N = dir_pages dir" and "start < N" and "i < N"
  shows "find_pages rd sb name len start (N - i + m) ((start + i) mod N) dir =
         find_pages rd sb name len start (N - i) ((start + i) mod N) dir"
  using assms
proof (induction "N - i" arbitrary: i dir)
  case (Suc k)
  define n where "n = (start + i) mod N"
  obtain d1 r where g: "ext2_get_page rd sb dir n = (d1, r)" by (cases "ext2_get_page rd sb dir n") auto
  have d1: "dir_pages d1 = N" using get_page_size [OF g] Suc.prems(1) by (simp add: dir_pages_def)
  have "n < N" using Suc.prems by (simp add: n_def)
  then have nx: "(if n + 1 \<ge> N then 0 else n + 1) = (start + Suc i) mod N"
    by (auto simp: n_def mod_Suc)
  have IH: "find_pages rd sb name len start (k + m) ((start + Suc i) mod N) d1 =
      find_pages rd sb name len start k ((start + Suc i) mod N) d1" if "(start + Suc i) mod N \<noteq> start"
  proof (cases "Suc i < N")
    case True
    have "k = N - Suc i" using Suc.hyps(2) by simp
    with Suc.hyps(1) [OF this d1 [symmetric] Suc.prems(2) True] show ?thesis by simp
  next
    case False
    then have "Suc i = N" using Suc.prems(3) by simp
    with that Suc.prems(2) show ?thesis by simp
  qed
  have "N - i + m = Suc (k + m)" "N - i = Suc k" using Suc.hyps(2) by simp_all
  then show ?case
    using nx IH unfolding n_def [symmetric]
    by (auto simp: g d1 Let_def split: find_res.split simp del: One_nat_def add_Suc_right)
qed simp

lemma find_entry_ok:
  assumes ok: "dir_ok sb dir" and bl: "dir_pages dir \<le> i_blocks dir div 8 + 1"
  shows "\<exists>dir' res. ext2_find_entry (\<lambda>_. None) sb dir name = (dir', res) \<and> same_dir dir dir' \<and> dir_ok sb dir' \<and>
     (case res of Some loc \<Rightarrow> at_loc dir name loc | None \<Rightarrow> name \<notin> fst ` set (listing dir))"
proof (cases "dir_pages dir = 0")
  case True
  then show ?thesis using ok same_dir_refl by (auto simp: ext2_find_entry_def listing_def)
next
  case False
  let ?N = "dir_pages dir"
  define start where "start = (if i_dir_start_lookup dir \<ge> ?N then 0 else i_dir_start_lookup dir)"
  have st: "start < ?N" using False by (simp add: start_def)
  from find_pages_ok [where i = 0 and start = start and N = ?N and rd = "\<lambda>_. None" and name = name, OF ok] st bl
  obtain dir' res where
    r: "find_pages (\<lambda>_. None) sb name (length name) start ?N start dir = (dir', res)" "same_dir dir dir'" "dir_ok sb dir'"
    "case res of Some loc \<Rightarrow> at_loc dir name loc
      | None \<Rightarrow> (\<forall>j off. 0 \<le> j \<longrightarrow> j < ?N \<longrightarrow> \<not> at_loc dir name ((start + j) mod ?N, off))" by auto
  have "name \<notin> fst ` set (listing dir)" if "res = None"
  proof
    assume "name \<in> fst ` set (listing dir)"
    then obtain n off where a: "at_loc dir name (n, off)" by (auto elim: listing_at_loc)
    then have n: "n < ?N" by (simp add: at_loc_def)
    let ?j = "(n + (?N - start)) mod ?N"
    have "(start + ?j) mod ?N = n" using st n by (simp add: mod_add_right_eq)
    moreover have "?j < ?N" using False by simp
    ultimately show False using r(4) that a by auto
  qed
  with r False show ?thesis
    by (cases res) (simp_all add: ext2_find_entry_def start_def [symmetric] Let_def)
qed

section \<open>Adding a name\<close>

lemma mset_listing: "mset (listing dir) = (\<Sum>n < dir_pages dir. mset (pg dir n))"
  by (simp add: listing_def mset_concat map_map comp_def interv_sum_list_conv_sum_set_nat atLeast0LessThan)

text \<open>Exchanging one page, which may be the page just behind the last one.\<close>

lemma listing_exchange:
  assumes n: "n < dir_pages dir'" and le: "dir_pages dir \<le> dir_pages dir'"
    and new: "\<And>k. dir_pages dir \<le> k \<Longrightarrow> k < dir_pages dir' \<Longrightarrow> pg dir k = []"
    and other: "\<And>k. k < dir_pages dir' \<Longrightarrow> k \<noteq> n \<Longrightarrow> pg dir' k = pg dir k"
  shows "mset (listing dir') + mset (pg dir n) = mset (listing dir) + mset (pg dir' n)"
proof -
  let ?N = "dir_pages dir'"
  have "(\<Sum>k < dir_pages dir. mset (pg dir k)) = (\<Sum>k < ?N. mset (pg dir k))"
    using le new by (intro sum.mono_neutral_left) auto
  also have "\<dots> = mset (pg dir n) + (\<Sum>k \<in> {..<?N} - {n}. mset (pg dir k))"
    using n by (simp add: sum.remove)
  finally have 1: "mset (listing dir) = mset (pg dir n) + (\<Sum>k \<in> {..<?N} - {n}. mset (pg dir k))"
    by (simp add: mset_listing)
  have "mset (listing dir') = mset (pg dir' n) + (\<Sum>k \<in> {..<?N} - {n}. mset (pg dir' k))"
    using n by (simp add: mset_listing sum.remove)
  also have "(\<Sum>k \<in> {..<?N} - {n}. mset (pg dir' k)) = (\<Sum>k \<in> {..<?N} - {n}. mset (pg dir k))"
    using other by (intro sum.cong) auto
  finally show ?thesis using 1 by simp
qed

text \<open>The directory after \<open>ext2_commit_chunk\<close>, when nothing has to be synchronised.\<close>

definition committed :: "nat \<Rightarrow> inode \<Rightarrow> nat \<Rightarrow> dpage \<Rightarrow> nat \<Rightarrow> nat \<Rightarrow> inode" where
  "committed now dir n p pos len = touch_dir now (fst (ext2_commit_chunk None (set_page dir n p) pos len))"

lemma committed_fields:
  "dpages (committed now dir n p pos len) = (dpages dir)(n := p)"
  "i_size (committed now dir n p pos len) = max (i_size dir) (pos + len)"
  "p_error (committed now dir n p pos len) = p_error dir"
  "i_blocks (committed now dir n p pos len) = i_blocks dir" "i_ino (committed now dir n p pos len) = i_ino dir"
  by (auto simp: committed_def touch_dir_def ext2_commit_chunk_def set_page_def Let_def)

lemma at_loc_stays:
  assumes "at_loc dir name loc" and "dpages dir' = (dpages dir)(n := p)" and "dir_pages dir \<le> dir_pages dir'"
    and "\<And>k. k < dir_pages dir \<Longrightarrow> k \<noteq> n \<Longrightarrow> ext2_last_byte dir' k = ext2_last_byte dir k"
    and "stays (dpages dir n) (ext2_last_byte dir n) p (ext2_last_byte dir' n)"
  shows "at_loc dir' name loc"
proof -
  obtain k off where l: "loc = (k, off)" by (cases loc)
  show ?thesis using assms unfolding l by (cases "k = n") (auto simp: at_loc_def stays_def)
qed

lemma committed_inside:
  fixes now :: nat
  assumes ok: "dir_ok sb dir" and n: "n < dir_pages dir" and pos: "pos + len \<le> i_size dir"
    and p: "page_ok (s_blocksize sb) (s_inodes_count sb) p (ext2_last_byte dir n)"
  defines "dir' \<equiv> committed now dir n p pos len"
  shows "dir_ok sb dir' \<and>
    mset (listing dir') + mset (pg dir n) = mset (listing dir) + mset (page_list p (ext2_last_byte dir n)) \<and>
    (stays (dpages dir n) (ext2_last_byte dir n) p (ext2_last_byte dir n) \<longrightarrow>
      (\<forall>name loc. at_loc dir name loc \<longrightarrow> at_loc dir' name loc))"
proof -
  note c = committed_fields [of now dir n p pos len, folded dir'_def]
  have s: "i_size dir' = i_size dir" using c(2) pos by simp
  then have lb: "ext2_last_byte dir' = ext2_last_byte dir" "dir_pages dir' = dir_pages dir"
    by (simp_all add: ext2_last_byte_def fun_eq_iff dir_pages_def)
  have "dir_ok sb dir'" using ok p lb s c by (auto simp: dir_ok_def)
  moreover have "pg dir' k = (if k = n then page_list p (ext2_last_byte dir n) else pg dir k)" for k
    using c(1) lb by (simp add: pg_def)
  then have "mset (listing dir') + mset (pg dir n) = mset (listing dir) + mset (page_list p (ext2_last_byte dir n))"
    using listing_exchange [of n dir' dir] n lb by simp
  moreover have "at_loc dir' name loc" if "stays (dpages dir n) (ext2_last_byte dir n) p (ext2_last_byte dir n)" "at_loc dir name loc" for name loc
    using at_loc_stays [OF that(2) c(1)] lb that(1) by simp
  ultimately show ?thesis by simp
qed

lemma committed_grown:
  fixes now dir n p lm sb
  defines "dir' \<equiv> committed now dir n p (n * PAGE_CACHE_SIZE + lm) (s_blocksize sb)"
  assumes ok: "dir_ok sb dir" and lm: "i_size dir = n * PAGE_CACHE_SIZE + lm" "lm < PAGE_CACHE_SIZE"
    and sz: "i_size dir + s_blocksize sb < 2 ^ 32"
    and p: "page_ok (s_blocksize sb) (s_inodes_count sb) p (lm + s_blocksize sb)"
  shows "dir_ok sb dir' \<and>
    mset (listing dir') + mset (pg dir n) = mset (listing dir) + mset (page_list p (lm + s_blocksize sb)) \<and>
    (stays (dpages dir n) lm p (lm + s_blocksize sb) \<longrightarrow> (\<forall>name loc. at_loc dir name loc \<longrightarrow> at_loc dir' name loc))"
proof -
  let ?c = "s_blocksize sb"
  note c = committed_fields [of now dir n p "n * PAGE_CACHE_SIZE + lm" ?c, folded dir'_def]
  from ok have ch: "?c \<in> {1024, 2048, 4096}" "?c dvd i_size dir" and isz: "i_size dir < 2 ^ 32" by (auto simp: dir_ok_def)
  then have cp: "?c dvd n * PAGE_CACHE_SIZE" by auto
  then have "?c dvd lm" using ch(2) lm(1) dvd_add_right_iff by metis
  then have le: "lm + ?c \<le> PAGE_CACHE_SIZE" using ch(1) lm(2) by (auto elim!: dvdE)
  have s: "i_size dir' = n * PAGE_CACHE_SIZE + (lm + ?c)" using c(2) lm(1) by simp
  have isz': "i_size dir' < 2 ^ 32" using sz s lm by simp
  have pages: "dir_pages dir' = n + 1"
    using s le ch(1) by (auto simp: dir_pages_def)
  have pages0: "dir_pages dir = (if lm = 0 then n else n + 1)"
    using lm by (auto simp: dir_pages_def)
  have lbn: "ext2_last_byte dir' n = lm + ?c" "ext2_last_byte dir n = lm"
    using last_byte [OF isz', of n] last_byte [OF isz, of n] s le lm by simp_all
  have lbk: "ext2_last_byte dir' k = ext2_last_byte dir k" if "k < n" for k
  proof -
    have "(k + 1) * PAGE_CACHE_SIZE \<le> n * PAGE_CACHE_SIZE" using that by (intro mult_le_mono1) simp
    then show ?thesis using last_byte [OF isz', of k] last_byte [OF isz, of k] s lm(1) by simp
  qed
  have "dir_ok sb dir'"
    unfolding dir_ok_def
  proof (intro conjI allI impI)
    show "?c dvd i_size dir'" using s cp \<open>?c dvd lm\<close> by simp
    show "\<not> p_error dir' k" for k using ok c by (simp add: dir_ok_def)
    show "page_ok ?c (s_inodes_count sb) (dpages dir' k) (ext2_last_byte dir' k)" if "k < dir_pages dir'" for k
    proof (cases "k = n")
      case True
      then show ?thesis using p lbn c by simp
    next
      case False
      then have "k < n" using that pages by simp
      moreover from this have "k < dir_pages dir" using pages0 by auto
      ultimately show ?thesis using ok False lbk c by (simp add: dir_ok_def)
    qed
  qed (use isz' ch in auto)
  moreover have "mset (listing dir') + mset (pg dir n) = mset (listing dir) + mset (pg dir' n)"
  proof (rule listing_exchange)
    show "pg dir' k = pg dir k" if "k < dir_pages dir'" "k \<noteq> n" for k
      using that lbk pages c by (simp add: pg_def)
    show "pg dir k = []" if "dir_pages dir \<le> k" "k < dir_pages dir'" for k
    proof -
      have "k = n" "lm = 0" using that pages pages0 by (auto split: if_splits)
      then show ?thesis using lbn(2) by (simp add: pg_def page_list_def walk.simps)
    qed
  qed (use pages pages0 in auto)
  moreover have "at_loc dir' name loc" if "stays (dpages dir n) lm p (lm + ?c)" "at_loc dir name loc" for name loc
    using at_loc_stays [OF that(2) c(1)] lbk lbn pages pages0 that(1) by (simp split: if_splits)
  moreover have "pg dir' n = page_list p (lm + ?c)" using c lbn by (simp add: pg_def)
  ultimately show ?thesis by simp
qed

end
