(* ===== verification/Ext2_Dir_Ops.thy ===== *)
theory Ext2_Dir_Ops
  imports Ext2_Dir_Facts
begin

text \<open>
  The operations that change a directory, over the abstract view of theory \<open>Ext2_Dir_Facts\<close>:
  \<open>ext2_add_link\<close> adds one pair to the listing, \<open>ext2_delete_entry\<close> removes one, \<open>ext2_set_link\<close>
  exchanges the inode number of one, \<open>ext2_make_empty\<close> builds a directory with the two entries \<open>.\<close>
  and \<open>..\<close>, and \<open>ext2_empty_dir\<close> and \<open>ext2_readdir\<close> look at the whole listing. All keep the pages
  well formed.
\<close>

section \<open>Adding a name\<close>

text \<open>\<open>dir_ok\<close> and \<open>listing\<close> depend on the pages, the size and the error flags only.\<close>

lemma dir_ok_fields:
  assumes "dpages dir' = dpages dir" "i_size dir' = i_size dir"
  shows "p_error dir' = p_error dir \<Longrightarrow> dir_ok sb dir' = dir_ok sb dir" "listing dir' = listing dir" "at_loc dir' = at_loc dir"
proof -
  have d: "dir_pages dir' = dir_pages dir" "ext2_last_byte dir' = ext2_last_byte dir"
    by (simp_all add: dir_pages_def ext2_last_byte_def fun_eq_iff assms)
  then show "p_error dir' = p_error dir \<Longrightarrow> dir_ok sb dir' = dir_ok sb dir" using assms by (simp add: dir_ok_def)
  have "pg dir' = pg dir" using d assms by (intro ext) (simp add: pg_def)
  then show "listing dir' = listing dir" by (simp add: listing_def d)
  show "at_loc dir' = at_loc dir" using d assms by (intro ext) (simp add: at_loc_def)
qed

lemma blocks_only [simp]:
  "dir_ok sb (dir\<lparr>i_blocks := b\<rparr>) = dir_ok sb dir" "listing (dir\<lparr>i_blocks := b\<rparr>) = listing dir"
  "dir_pages (dir\<lparr>i_blocks := b\<rparr>) = dir_pages dir" "ext2_last_byte (dir\<lparr>i_blocks := b\<rparr>) = ext2_last_byte dir"
  "pg (dir\<lparr>i_blocks := b\<rparr>) = pg dir" "at_loc (dir\<lparr>i_blocks := b\<rparr>) = at_loc dir"
  using dir_ok_fields [of "dir\<lparr>i_blocks := b\<rparr>" dir]
  by (simp_all add: dir_pages_def ext2_last_byte_def fun_eq_iff pg_def)

lemma commit_no_sync [simp]: "snd (ext2_commit_chunk None dir pos len) = None"
  by (simp add: ext2_commit_chunk_def Let_def)

text \<open>What the directory operations leave alone, and how far they may extend the directory.\<close>

definition same_meta :: "inode \<Rightarrow> inode \<Rightarrow> bool" where
  "same_meta dir dir' \<longleftrightarrow> i_ino dir' = i_ino dir \<and> i_mode dir' = i_mode dir \<and> i_nlink dir' = i_nlink dir \<and>
     i_data dir' = i_data dir \<and> fpages dir' = fpages dir \<and> i_vflags dir' = i_vflags dir \<and>
     i_block_group dir' = i_block_group dir"

lemma same_meta_refl [simp]: "same_meta dir dir" "same_meta dir (dir\<lparr>i_blocks := b\<rparr>)"
  by (simp_all add: same_meta_def)

lemma same_meta_trans: "same_meta d1 d2 \<Longrightarrow> same_meta d2 d3 \<Longrightarrow> same_meta d1 d3"
  by (simp add: same_meta_def)

lemma same_meta_same:
  assumes "same_dir dir dir'"
  shows "same_meta dir dir'"
proof -
  have e: "same_meta dir (strip dir)" for dir by (simp add: same_meta_def strip_def)
  show ?thesis using e [of dir] e [of dir'] same_dirD(4) [OF assms] assms by (simp add: same_meta_def same_dir_def)
qed

lemma same_meta_blocks [simp]: "same_meta (dir\<lparr>i_blocks := b\<rparr>) dir' = same_meta dir dir'"
  by (simp add: same_meta_def)

lemma committed_meta [simp]: "same_meta dir (committed now dir n p pos len)"
  by (simp add: same_meta_def committed_def touch_dir_def ext2_commit_chunk_def set_page_def Let_def)

definition grown :: "ext2_sb \<Rightarrow> nat \<Rightarrow> inode \<Rightarrow> inode \<Rightarrow> bool" where
  "grown sb b dir dir' \<longleftrightarrow> same_meta dir dir' \<and> i_blocks dir' = b \<and> i_size dir' \<le> i_size dir + s_blocksize sb"

lemma grown_committed:
  "pos + len \<le> i_size dir + s_blocksize sb \<Longrightarrow> grown sb (i_blocks dir) dir (committed now dir n p pos len)"
  by (simp add: grown_def committed_fields)

lemma put_entry_dead:
  assumes "\<not> live (p off)"
  shows "put_entry None now sb dir n p off rl nl name ino mode =
    Some (committed now dir n (p(off := fresh_de sb (p off) name ino mode)) (n * PAGE_CACHE_SIZE + off) rl, None)"
  using assms
  by (simp add: put_entry_def live_def fresh_de_def committed_def case_prod_beta)

lemma put_entry_split:
  assumes "live (p off)" "0 < nl" "ext2_rec_len_to_disk (rl - nl) = Some d1" "ext2_rec_len_to_disk nl = Some d0"
  shows "put_entry None now sb dir n p off rl nl name ino mode =
    Some (committed now dir n (p(off := (p off)\<lparr>rec_len := d0\<rparr>,
        off + nl := fresh_de sb ((p (off + nl))\<lparr>rec_len := d1\<rparr>) name ino mode)) (n * PAGE_CACHE_SIZE + off) rl, None)"
proof -
  have "p(off + nl := (p (off + nl))\<lparr>rec_len := d1\<rparr>, off := (p off)\<lparr>rec_len := d0\<rparr>, off + nl := x) =
      p(off := (p off)\<lparr>rec_len := d0\<rparr>, off + nl := x)" for x
    using assms(2) by (auto simp: fun_eq_iff)
  then show ?thesis using assms
    by (simp add: put_entry_def live_def fresh_de_def committed_def case_prod_beta Let_def)
qed

lemma dir_okD:
  assumes "dir_ok sb dir"
  shows "s_blocksize sb \<in> {1024, 2048, 4096}" "s_blocksize sb dvd i_size dir" "i_size dir < 2 ^ 32"
    "n < dir_pages dir \<Longrightarrow> page_ok (s_blocksize sb) (s_inodes_count sb) (dpages dir n) (ext2_last_byte dir n)"
    "n * PAGE_CACHE_SIZE \<le> i_size dir \<Longrightarrow> s_blocksize sb dvd ext2_last_byte dir n"
    "n * PAGE_CACHE_SIZE \<le> i_size dir \<Longrightarrow> n * PAGE_CACHE_SIZE + ext2_last_byte dir n \<le> i_size dir"
    "n * PAGE_CACHE_SIZE \<le> i_size dir \<Longrightarrow> ext2_last_byte dir n \<le> PAGE_CACHE_SIZE"
proof -
  show s: "s_blocksize sb \<in> {1024, 2048, 4096}" "s_blocksize sb dvd i_size dir" "i_size dir < 2 ^ 32"
    "n < dir_pages dir \<Longrightarrow> page_ok (s_blocksize sb) (s_inodes_count sb) (dpages dir n) (ext2_last_byte dir n)"
    using assms by (auto simp: dir_ok_def)
  assume n: "n * PAGE_CACHE_SIZE \<le> i_size dir"
  note lb = last_byte [OF s(3) n]
  then show "n * PAGE_CACHE_SIZE + ext2_last_byte dir n \<le> i_size dir" "ext2_last_byte dir n \<le> PAGE_CACHE_SIZE"
    using n by simp_all
  have "s_blocksize sb dvd PAGE_CACHE_SIZE" using s(1) by auto
  then show "s_blocksize sb dvd ext2_last_byte dir n" using lb s(2) by (auto simp: min_def)
qed

lemma page_at_end:
  assumes ok: "dir_ok sb dir" and n: "n * PAGE_CACHE_SIZE \<le> i_size dir"
  shows "page_ok (s_blocksize sb) (s_inodes_count sb) (dpages dir n) (ext2_last_byte dir n)"
proof (cases "n < dir_pages dir")
  case True
  then show ?thesis using dir_okD(4) [OF ok] by simp
next
  case False
  then have "ext2_last_byte dir n = 0" using n dir_pages_pos [of n dir] last_byte [OF dir_okD(3) [OF ok] n] by simp
  then show ?thesis using page_okI(1) [of "s_blocksize sb" "s_inodes_count sb" "dpages dir n" 0 "[]"] by simp
qed

lemma walk_fits:
  assumes "page_ok chunk mx p lm" and "o1 \<in> set (walk p lm 0)"
  shows "o1 + rlen p o1 \<le> lm" "12 \<le> rlen p o1"
proof -
  from assms(1) have c: "chain chunk mx p lm 0 (walk p lm 0)" by (simp add: page_ok_def)
  show "o1 + rlen p o1 \<le> lm" "12 \<le> rlen p o1"
    using chain_bounds(2) [OF c assms(2)] bad_entryD(1) [of chunk mx p o1, OF chain_bounds(3) [OF c assms(2)]] by simp_all
qed

lemma put_entry_ok:
  assumes ok: "dir_ok sb dir" and n: "n * PAGE_CACHE_SIZE \<le> i_size dir"
    and room: "room (s_blocksize sb) name (dpages dir n) lm (walk (dpages dir n) lm 0) (Got p' o1 rl nl)"
    and lm: "lm = ext2_last_byte dir n"
    and new: "0 < ino" "ino \<le> s_inodes_count sb" "name \<noteq> []" "length name \<le> 255"
    and sz: "i_size dir + s_blocksize sb < 2 ^ 32"
  shows "\<exists>dir'. put_entry None now sb dir n p' o1 rl nl name ino mode = Some (dir', None) \<and> dir_ok sb dir' \<and>
    mset (listing dir') = add_mset (name, ino) (mset (listing dir)) \<and> grown sb (i_blocks dir) dir dir' \<and>
    (\<forall>name loc. at_loc dir name loc \<longrightarrow> at_loc dir' name loc)"
proof -
  let ?p = "dpages dir n" and ?c = "s_blocksize sb" and ?mx = "s_inodes_count sb"
  note d = dir_okD [OF ok]
  have p: "page_ok ?c ?mx ?p lm" using page_at_end [OF ok n] lm by simp
  have pgn: "pg dir n = page_list ?p lm" by (simp add: pg_def lm)
  consider (dead) "o1 \<in> set (walk ?p lm 0)" "\<not> live (?p o1)" "p' = ?p" "rl = rlen ?p o1" "EXT2_DIR_REC_LEN (length name) \<le> rl"
    | (split) "o1 \<in> set (walk ?p lm 0)" "live (?p o1)" "p' = ?p" "rl = rlen ?p o1" "nl = EXT2_DIR_REC_LEN (name_len (?p o1))"
      "nl + EXT2_DIR_REC_LEN (length name) \<le> rl"
    | (grow) w where "o1 = lm" "rl = ?c" "lm + EXT2_DIR_REC_LEN (length name) \<le> PAGE_CACHE_SIZE"
      "ext2_rec_len_from_disk w = ?c" "p' = ?p(lm := (?p lm)\<lparr>rec_len := w, de_inode := 0\<rparr>)"
    using room by (auto simp: room_def split: if_splits)
  then show ?thesis
  proof cases
    case dead
    note f = walk_fits [OF p dead(1)]
    have np: "n < dir_pages dir" using f d(6) [OF n] lm by (simp add: dir_pages_pos)
    have pos: "n * PAGE_CACHE_SIZE + o1 + rl \<le> i_size dir" using f d(6) [OF n] lm dead(4) by simp
    let ?q = "?p(o1 := fresh_de sb (?p o1) name ino mode)"
    have i: "page_ok ?c ?mx ?q lm" "mset (page_list ?q lm) = add_mset (name, ino) (mset (page_list ?p lm))"
      "stays ?p lm ?q lm"
      using insert_dead [OF p dead(1,2) _ new(1-3)] dead(4,5) by simp_all
    have "grown sb (i_blocks dir) dir (committed now dir n ?q (n * PAGE_CACHE_SIZE + o1) rl)"
      using pos by (intro grown_committed) simp
    then show ?thesis using i committed_inside [OF ok np pos, of ?q now] dead pgn lm put_entry_dead [of p' o1] by simp
  next
    case split
    note f = walk_fits [OF p split(1)]
    have np: "n < dir_pages dir" using f d(6) [OF n] lm by (simp add: dir_pages_pos)
    have pos: "n * PAGE_CACHE_SIZE + o1 + rl \<le> i_size dir" using f d(6) [OF n] lm split(4) by simp
    have le: "rl \<le> PAGE_CACHE_SIZE" using f d(7) [OF n] split(4) lm by simp
    obtain d1 where d1: "ext2_rec_len_to_disk (rl - nl) = Some d1" "ext2_rec_len_from_disk d1 = rl - nl"
      using le by (auto intro: to_disk_small [of "rl - nl"])
    obtain d0 where d0: "ext2_rec_len_to_disk nl = Some d0" "ext2_rec_len_from_disk d0 = nl"
      using le split(6) by (auto intro: to_disk_small [of nl])
    have nl: "0 < nl" using REC_LEN_bounds(1) [of "name_len (?p o1)"] split(5) by simp
    let ?q = "?p(o1 := (?p o1)\<lparr>rec_len := d0\<rparr>, o1 + nl := fresh_de sb ((?p (o1 + nl))\<lparr>rec_len := d1\<rparr>) name ino mode)"
    have i: "page_ok ?c ?mx ?q lm" "mset (page_list ?q lm) = add_mset (name, ino) (mset (page_list ?p lm))"
      "stays ?p lm ?q lm"
      using insert_split [OF p split(1,2,5) _ new(1-3) _ d0(2)] split(4,6) d1(2) by simp_all
    have "put_entry None now sb dir n p' o1 rl nl name ino mode =
        Some (committed now dir n ?q (n * PAGE_CACHE_SIZE + o1) rl, None)"
      using put_entry_split [of p' o1 nl rl d1 d0] d1(1) d0(1) split(2,3) nl by simp
    moreover have "grown sb (i_blocks dir) dir (committed now dir n ?q (n * PAGE_CACHE_SIZE + o1) rl)"
      using pos by (intro grown_committed) simp
    ultimately show ?thesis using committed_inside [OF ok np pos, of ?q now] i pgn lm by simp
  next
    case grow
    have "PAGE_CACHE_SIZE > lm" using grow(3) REC_LEN_bounds(1) [of "length name"] by simp
    then have isz: "i_size dir = n * PAGE_CACHE_SIZE + lm" using last_byte [OF d(3) n] n lm by simp
    have ch: "?c dvd lm" "4 dvd ?c" "12 \<le> ?c" "EXT2_DIR_REC_LEN (length name) \<le> ?c"
      using d(5) [OF n] d(1) lm REC_LEN_bounds(2) [of "length name"] new(4) by auto
    let ?de = "(?p lm)\<lparr>rec_len := w, de_inode := 0\<rparr>"
    let ?q = "?p(lm := fresh_de sb ?de name ino mode)"
    have i: "page_ok ?c ?mx ?q (lm + ?c)" "mset (page_list ?q (lm + ?c)) = add_mset (name, ino) (mset (page_list ?p lm))"
      "stays ?p lm ?q (lm + ?c)"
      using insert_chunk [OF p ch new(1-3), of ?de] grow(4) by simp_all
    have "put_entry None now sb dir n p' o1 rl nl name ino mode =
        Some (committed now dir n ?q (n * PAGE_CACHE_SIZE + lm) ?c, None)"
      using put_entry_dead [of p' o1] grow by (simp add: live_def)
    moreover have "grown sb (i_blocks dir) dir (committed now dir n ?q (n * PAGE_CACHE_SIZE + lm) ?c)"
      using isz by (intro grown_committed) simp
    ultimately show ?thesis using committed_grown [OF ok isz \<open>PAGE_CACHE_SIZE > lm\<close> sz, of ?q now] i pgn by simp
  qed
qed

lemma no_match:
  assumes ok: "dir_ok sb dir" and name: "name \<notin> fst ` set (listing dir)" and n: "n * PAGE_CACHE_SIZE \<le> i_size dir"
    and o1: "o1 \<in> set (walk (dpages dir n) (ext2_last_byte dir n) 0)"
  shows "\<not> ext2_match (length name) name (dpages dir n o1)"
proof
  assume m: "ext2_match (length name) name (dpages dir n o1)"
  have p: "page_ok (s_blocksize sb) (s_inodes_count sb) (dpages dir n) (ext2_last_byte dir n)"
    using page_at_end [OF ok n] .
  then have "named (dpages dir n o1)" using o1 by (simp add: page_ok_def)
  from match_iff [OF this] m have l: "live (dpages dir n o1)" "fst (entry_of (dpages dir n o1)) = name" by auto
  have "n < dir_pages dir" using walk_fits [OF p o1] dir_okD(6) [OF ok n] by (simp add: dir_pages_pos)
  with l o1 have "at_loc dir name (n, o1)" by (simp add: at_loc_def)
  from at_loc_listing [OF this] name show False by force
qed

lemma add_pages_ok:
  assumes "dir_ok sb dir" and "name \<notin> fst ` set (listing dir)" and "k * PAGE_CACHE_SIZE \<le> i_size dir" "k \<le> dir_pages dir"
    and new: "0 < ino" "ino \<le> s_inodes_count sb" "name \<noteq> []" "length name \<le> 255"
    and "i_size dir + s_blocksize sb < 2 ^ 32"
  shows "\<exists>dir'. add_pages (\<lambda>_. None) (Inr b) None now sb name ino mode [k..<dir_pages dir + 1] dir = Some (dir', None) \<and>
    dir_ok sb dir' \<and> mset (listing dir') = add_mset (name, ino) (mset (listing dir)) \<and> grown sb b dir dir' \<and>
    (\<forall>name loc. at_loc dir name loc \<longrightarrow> at_loc dir' name loc)"
  using assms(1-4,9)
proof (induction "dir_pages dir - k" arbitrary: k dir rule: less_induct)
  case less
  let ?N = "dir_pages dir" and ?p = "dpages dir k" and ?lm = "ext2_last_byte dir k" and ?c = "s_blocksize sb"
  note prems = less.prems and d = dir_okD [OF less.prems(1)]
  have al: "k < ?N \<or> PAGE_CACHE_SIZE dvd i_size dir" 
    using prems(3) dir_pages_pos [of k dir] by (metis dvd_triv_right le_neq_implies_less)
  from get_page [OF prems(1) _ prems(3) al, of "\<lambda>_. None"] obtain d1 where
    g: "ext2_get_page (\<lambda>_. None) sb dir k = (d1, Inr ?p)" "same_dir dir d1" "dir_ok sb d1" by auto
  note s1 = same_dirD [OF g(2)]
  have p: "page_ok ?c (s_inodes_count sb) ?p ?lm" using page_at_end [OF prems(1,3)] .
  have ch: "chain ?c (s_inodes_count sb) ?p ?lm 0 (walk ?p ?lm 0)" using p by (simp add: page_ok_def)
  have "?c \<le> PAGE_CACHE_SIZE" using d(1) by auto
  from add_scan_chain [OF ch d(7) [OF prems(3)] this no_match [OF prems(1,2,3)]] obtain r where
    r: "add_scan ?c ?lm name ?p 0 = Some r" "room ?c name ?p ?lm (walk ?p ?lm 0) r" by auto
  have list: "[k..<?N + 1] = k # [k + 1..<?N + 1]" using prems(4) by (simp add: upt_conv_Cons)
  show ?case
  proof (cases r)
    case (Got p' o1 rl nl)
    have e: "add_pages (\<lambda>_. None) (Inr b) None now sb name ino mode [k..<?N + 1] dir =
        put_entry None now sb (d1\<lparr>i_blocks := b\<rparr>) k p' o1 rl nl name ino mode"
      unfolding list using g(1) r(1) Got s1 by (simp add: ext2_chunk_size_def)
    have "k * PAGE_CACHE_SIZE \<le> i_size d1" "?lm = ext2_last_byte d1 k" "i_size d1 + ?c < 2 ^ 32"
      "room ?c name (dpages d1 k) ?lm (walk (dpages d1 k) ?lm 0) (Got p' o1 rl nl)"
      using r(2) Got prems(3,5) s1 by simp_all
    with put_entry_ok [of sb "d1\<lparr>i_blocks := b\<rparr>" k name ?lm p' o1 rl nl ino now mode] g(3) new
    have "\<exists>dir'. put_entry None now sb (d1\<lparr>i_blocks := b\<rparr>) k p' o1 rl nl name ino mode = Some (dir', None) \<and>
        dir_ok sb dir' \<and> mset (listing dir') = add_mset (name, ino) (mset (listing d1)) \<and> grown sb b d1 dir' \<and>
        (\<forall>name loc. at_loc d1 name loc \<longrightarrow> at_loc dir' name loc)"
      by (simp add: grown_def)
    then show ?thesis unfolding e grown_def s1 at_loc_same [OF g(2)] using same_meta_trans [OF same_meta_same [OF g(2)]] by blast
  next
    case (Add_err e)
    then show ?thesis using r(2) by (simp add: room_def)
  next
    case Next_page
    then have "PAGE_CACHE_SIZE < ?lm + 266" using r(2) REC_LEN_bounds(2) [of "length name"] new(4) by (simp add: room_def)
    then have lm: "?lm = PAGE_CACHE_SIZE" 
      using d(1) d(5) [OF prems(3)] d(7) [OF prems(3)] by (auto elim!: dvdE)
    then have k: "(k + 1) * PAGE_CACHE_SIZE \<le> i_size dir" using d(6) [OF prems(3)] by simp
    then have kN: "k < ?N" by (simp add: dir_pages_pos)
    have e: "add_pages (\<lambda>_. None) (Inr b) None now sb name ino mode [k..<?N + 1] dir =
        add_pages (\<lambda>_. None) (Inr b) None now sb name ino mode [k + 1..<dir_pages d1 + 1] d1"
      unfolding list using g(1) r(1) Next_page s1 by (simp add: ext2_chunk_size_def)
    have "\<exists>dir'. add_pages (\<lambda>_. None) (Inr b) None now sb name ino mode [k + 1..<dir_pages d1 + 1] d1 = Some (dir', None) \<and>
        dir_ok sb dir' \<and> mset (listing dir') = add_mset (name, ino) (mset (listing d1)) \<and> grown sb b d1 dir' \<and>
        (\<forall>name loc. at_loc d1 name loc \<longrightarrow> at_loc dir' name loc)"
      using less.hyps [of d1 "k + 1"] g(3) prems s1 k kN by simp
    then show ?thesis unfolding e grown_def s1 at_loc_same [OF g(2)] using same_meta_trans [OF same_meta_same [OF g(2)]] by blast
  qed
qed

section \<open>Changing and deleting an entry\<close>

text \<open>Writing a record in place, with its length and name unchanged.\<close>

lemma page_update:
  assumes ok: "page_ok chunk mx p lm" and o1: "o1 \<in> set (walk p lm 0)" "live (p o1)"
    and de: "rec_len de = rec_len (p o1)" "name_len de = name_len (p o1)" "de_name de = de_name (p o1)" "de_inode de \<le> mx"
  defines "p' \<equiv> p(o1 := de)"
  shows "page_ok chunk mx p' lm" "walk p' lm 0 = walk p lm 0"
    "mset (page_list p' lm) + {#entry_of (p o1)#} = mset (page_list p lm) + (if live de then {#entry_of de#} else {#})"
proof -
  from split_list [OF o1(1)] obtain as bs where os: "walk p lm 0 = as @ o1 # bs" by blast
  have c: "chain chunk mx p lm 0 (as @ o1 # bs)" using ok os by (simp add: page_ok_def)
  note b = bad_entryD [of chunk mx p o1, OF chain_bounds(3) [OF c, of o1]]
  have r: "rlen p' o1 = rlen p o1" using de by (simp add: rlen_def p'_def)
  have "bad_entry chunk mx (p' o1) o1 = None" using b de by (intro bad_entryI) (auto simp: rlen_def p'_def)
  from chain_single [of chunk mx p' o1, OF this] have "chain chunk mx p' (o1 + rlen p o1) o1 [o1]" using r by simp
  moreover have eq: "p' o2 = p o2" if "o2 < o1 \<or> o1 + rlen p o1 \<le> o2" for o2 using that b(1) by (auto simp: p'_def)
  ultimately have c': "chain chunk mx p' lm 0 (as @ o1 # bs)" and pl: "plist p' as = plist p as" "plist p' bs = plist p bs"
    using chain_replace [OF c, of p' "[]"] by simp_all
  have "named (p' o2)" if "o2 \<in> set (as @ o1 # bs)" for o2
    using ok os that de o1(2) by (cases "o2 = o1") (auto simp: page_ok_def named_def p'_def)
  from page_okI [OF c' this] have "page_ok chunk mx p' lm" "page_list p' lm = plist p' (as @ o1 # bs)"
    by (simp_all add: plist_def)
  then show "page_ok chunk mx p' lm" "walk p' lm 0 = walk p lm 0"
    "mset (page_list p' lm) + {#entry_of (p o1)#} = mset (page_list p lm) + (if live de then {#entry_of de#} else {#})"
    using pl o1(2) os chain_walk [OF c'] by (simp_all add: page_list_plist p'_def)
qed

text \<open>Merging a dead record into its predecessor in the same chunk.\<close>

lemma page_merge:
  assumes ok: "page_ok chunk mx p lm" and w: "walk p lm 0 = as @ q # off # bs" and dead: "\<not> live (p off)"
    and ck: "q div chunk = off div chunk" and l: "ext2_rec_len_from_disk l = rlen p q + rlen p off"
  defines "p' \<equiv> p(q := (p q)\<lparr>rec_len := l\<rparr>)"
  shows "page_ok chunk mx p' lm" "page_list p' lm = page_list p lm"
proof -
  have c: "chain chunk mx p lm 0 (as @ q # off # bs)" using ok w by (simp add: page_ok_def)
  then have a: "chain chunk mx p q 0 as" and bq: "bad_entry chunk mx (p q) q = None" and off: "off = q + rlen p q"
    and bo: "bad_entry chunk mx (p off) off = None" and bs: "chain chunk mx p lm (off + rlen p off) bs" and lt: "q < lm"
    by (auto simp: chain_append chain_Cons)
  note b1 = bad_entryD [of chunk mx p q, OF bq] and b2 = bad_entryD [of chunk mx p off, OF bo]
  have r: "rlen p' q = rlen p q + rlen p off" using l by (simp add: rlen_upd p'_def)
  have "bad_entry chunk mx (p' q) q = None"
    using b1 b2 ck l off by (intro bad_entryI) (auto simp: p'_def add.assoc mod_eq_0_iff_dvd)
  moreover have ea: "p' o2 = p o2" if "o2 \<in> set as" for o2
    using chain_bounds(2) [OF a that] bad_entryD(1) [of chunk mx p o2, OF chain_bounds(3) [OF a that]] by (auto simp: p'_def)
  moreover have eb: "p' o2 = p o2" if "o2 \<in> set bs" for o2 using chain_bounds(1) [OF bs that] off b1 b2 by (auto simp: p'_def)
  ultimately have "chain chunk mx p' lm q (q # bs)"
    using chain_cong [of chunk mx p lm "off + rlen p off" bs p', OF bs eb] lt off
    by (intro chain.step) (simp_all only: r add.assoc)
  then have c': "chain chunk mx p' lm 0 (as @ q # bs)" using chain_cong [of chunk mx p q 0 as p', OF a ea] by (simp add: chain_append)
  have "named (p' o2)" if "o2 \<in> set (as @ q # bs)" for o2
    using ok w that by (cases "o2 = q") (auto simp: page_ok_def named_def live_def p'_def)
  from page_okI [OF c' this] have "page_ok chunk mx p' lm" "page_list p' lm = plist p' (as @ q # bs)"
    by (simp_all add: plist_def)
  moreover have "plist p' as = plist p as" "plist p' bs = plist p bs" using ea eb by (auto intro: plist_cong)
  moreover have "live (p' q) = live (p q)" "entry_of (p' q) = entry_of (p q)" by (simp_all add: live_def entry_of_def p'_def)
  ultimately show "page_ok chunk mx p' lm" "page_list p' lm = page_list p lm"
    using w dead by (simp_all add: page_list_plist)
qed

text \<open>The start of the chunk of a record is itself a record; the scan from there ends at the record
  before the one to delete.\<close>

lemma chunk_start:
  assumes "chain chunk mx p lm off os" and "o1 \<in> set os" and "off \<le> o1 - o1 mod chunk" and "0 < chunk"
  shows "o1 - o1 mod chunk \<in> set os"
  using assms
proof (induction rule: chain.induct)
  case (step off os)
  let ?b = "o1 - o1 mod chunk"
  show ?case
  proof (cases "off = ?b")
    case False
    then have lt: "off < ?b" using step.prems by simp
    then have o1: "o1 \<in> set os" using step.prems(1) by auto
    have b: "?b = o1 div chunk * chunk" by (simp add: minus_mod_eq_div_mult)
    have "off div chunk < o1 div chunk" using lt b step.prems(3) by (simp add: div_less_iff_less_mult)
    then have "(off + rlen p off - 1) div chunk < o1 div chunk" using bad_entryD(4) [of chunk mx p off, OF step.hyps(1)] by simp
    then have "off + rlen p off - 1 < ?b" using b step.prems(3) by (simp add: div_less_iff_less_mult)
    then show ?thesis using step.IH [OF o1] step.prems(3) by simp
  qed simp
qed simp

lemma delete_scan_chain:
  "chain chunk mx p lm b (qs @ off # ds) \<Longrightarrow>
     delete_scan p off pde b = Inr (if qs = [] then pde else Some (last qs))"
proof (induction qs arbitrary: b pde)
  case Nil
  then show ?case by (subst delete_scan.simps) (simp add: chain_Cons)
next
  case (Cons q qs)
  then have q: "q = b" "bad_entry chunk mx (p b) b = None" "chain chunk mx p lm (b + rlen p b) (qs @ off # ds)"
    by (auto simp: chain_Cons)
  note r = bad_entryD(1) [of chunk mx p b, OF q(2)]
  have "b < off" using chain_bounds(1) [OF q(3), of off] r by simp
  then have "delete_scan p off pde b = delete_scan p off (Some b) (b + rlen p b)"
    using rec_len_nonzero [OF r] by (subst delete_scan.simps) (simp add: ext2_next_entry_def rlen_def)
  then show ?case using Cons.IH [OF q(3)] q(1) by simp
qed

text \<open>Where the scan starts and what it finds, for a record of a well-formed page.\<close>

lemma delete_scan_page:
  assumes ok: "page_ok chunk mx p lm" and off: "off \<in> set (walk p lm 0)" and chunk: "0 < chunk"
  defines "b \<equiv> off - off mod chunk"
  obtains (first) "off = b" "delete_scan p off None b = Inr None"
  | (inner) as q ds where "walk p lm 0 = as @ q # off # ds" "q div chunk = off div chunk"
      "delete_scan p off None b = Inr (Some q)" "off = q + rlen p q"
proof -
  have c: "chain chunk mx p lm 0 (walk p lm 0)" using ok by (simp add: page_ok_def)
  have "b \<in> set (walk p lm 0)" unfolding b_def using chunk_start [OF c off _ chunk] by simp
  from split_list [OF this] obtain as bs where w: "walk p lm 0 = as @ b # bs" by blast
  with c have ca: "chain chunk mx p b 0 as" and cb: "chain chunk mx p lm b (b # bs)" by (simp_all add: chain_append)
  have "off \<notin> set as" using chain_bounds(2,3) [OF ca, of off] bad_entryD(1) [of chunk mx p off] by (auto simp: b_def)
  then have "off \<in> set (b # bs)" using off w by simp
  from split_list [OF this] obtain qs ds where q: "b # bs = qs @ off # ds" by blast
  have sc: "delete_scan p off None b = Inr (if qs = [] then None else Some (last qs))"
    using delete_scan_chain [of chunk mx p lm b qs off ds] cb q by simp
  show thesis
  proof (cases qs rule: rev_cases)
    case Nil
    then show ?thesis using q sc by (intro first) auto
  next
    case (snoc ps r)
    have cr: "chain chunk mx p lm b (ps @ r # off # ds)" using cb q snoc by simp
    then have "off = r + rlen p r" by (auto simp: chain_append chain_Cons)
    moreover have "b \<le> r" using chain_bounds(1) [OF cr] by simp
    moreover have "off div chunk = b div chunk" by (simp add: b_def minus_mod_eq_div_mult chunk)
    ultimately have "r div chunk = off div chunk" using same_chunk [of b r off chunk] by simp
    then show ?thesis using q sc snoc w \<open>off = r + rlen p r\<close> by (intro inner [of "as @ ps" r ds]) auto
  qed
qed

lemma dead_entry [simp]: "\<not> live (de\<lparr>de_inode := 0\<rparr>)"
  by (simp add: live_def)

lemma delete_page_ok:
  assumes ok: "page_ok chunk mx p lm" and off: "off \<in> set (walk p lm 0)" "live (p off)" and chunk: "0 < chunk"
    and lm: "lm \<le> PAGE_CACHE_SIZE"
  obtains p' pde fr where "delete_scan p off None (off - off mod chunk) = Inr pde"
    "fr = (case pde of Some q \<Rightarrow> q | None \<Rightarrow> off - off mod chunk)" "fr \<le> off"
    "(case pde of None \<Rightarrow> Some p
      | Some q \<Rightarrow> do { l \<leftarrow> ext2_rec_len_to_disk (off + rlen p off - fr); Some (p(q := (p q)\<lparr>rec_len := l\<rparr>)) }) = Some p'"
    "page_ok chunk mx (p'(off := (p' off)\<lparr>de_inode := 0\<rparr>)) lm"
    "mset (page_list p lm) = add_mset (entry_of (p off)) (mset (page_list (p'(off := (p' off)\<lparr>de_inode := 0\<rparr>)) lm))"
proof -
  let ?p = "p(off := (p off)\<lparr>de_inode := 0\<rparr>)"
  note u = page_update [OF ok off, of "(p off)\<lparr>de_inode := 0\<rparr>", simplified]
  note f = walk_fits [OF ok off(1)]
  from ok off(1) chunk show thesis
  proof (cases rule: delete_scan_page)
    case first
    then show ?thesis using u by (intro that [of None _ p]) auto
  next
    case (inner as q ds)
    have "q \<in> set (walk p lm 0)" using inner(1) by simp
    note fq = walk_fits [OF ok this]
    obtain l where l: "ext2_rec_len_to_disk (off + rlen p off - q) = Some l" "ext2_rec_len_from_disk l = off + rlen p off - q"
      using f lm by (auto intro: to_disk_small [of "off + rlen p off - q"])
    have qo: "q \<noteq> off" using inner(4) fq by simp
    have e: "(p(q := (p q)\<lparr>rec_len := l\<rparr>))(off := ((p(q := (p q)\<lparr>rec_len := l\<rparr>)) off)\<lparr>de_inode := 0\<rparr>) =
        ?p(q := (?p q)\<lparr>rec_len := l\<rparr>)" using qo by (auto simp: fun_eq_iff)
    have "ext2_rec_len_from_disk l = rlen ?p q + rlen ?p off" using l(2) inner(4) qo by (simp add: rlen_def)
    with page_merge [OF u(1), of as q off ds l] inner u(2)
    have m: "page_ok chunk mx (?p(q := (?p q)\<lparr>rec_len := l\<rparr>)) lm"
      "page_list (?p(q := (?p q)\<lparr>rec_len := l\<rparr>)) lm = page_list ?p lm" by (simp_all add: dead_entry)
    show ?thesis
    proof (rule that [of "Some q" q "p(q := (p q)\<lparr>rec_len := l\<rparr>)"], unfold e)
      show "mset (page_list p lm) = add_mset (entry_of (p off)) (mset (page_list (?p(q := (?p q)\<lparr>rec_len := l\<rparr>)) lm))"
        unfolding m(2) using u(3) by simp
    qed (use inner l m in simp_all)
  qed
qed

lemma delete_entry_ok:
  assumes ok: "dir_ok sb dir" and at: "at_loc dir name (n, off)"
  shows "\<exists>dir'. ext2_delete_entry (Inr b) None now sb dir (n, off) = Some (dir', None) \<and> dir_ok sb dir' \<and>
    mset (listing dir) = add_mset (name, de_inode (dpages dir n off)) (mset (listing dir')) \<and>
    same_meta dir dir' \<and> i_blocks dir' = b \<and> i_size dir' = i_size dir"
proof -
  let ?p = "dpages dir n" and ?lm = "ext2_last_byte dir n" and ?c = "s_blocksize sb"
  from at have n: "n < dir_pages dir" and off: "off \<in> set (walk ?p ?lm 0)" "live (?p off)"
    and name: "entry_of (?p off) = (name, de_inode (?p off))" by (auto simp: at_loc_def entry_of_def)
  then have le: "n * PAGE_CACHE_SIZE \<le> i_size dir" by (simp add: dir_pages_pos)
  note d = dir_okD [OF ok]
  have p: "page_ok ?c (s_inodes_count sb) ?p ?lm" using d(4) [OF n] .
  have c: "0 < ?c" using d(1) by auto
  from delete_page_ok [OF p off c d(7) [OF le]] obtain p' pde fr where
    r: "delete_scan ?p off None (off - off mod ?c) = Inr pde" "fr = (case pde of Some q \<Rightarrow> q | None \<Rightarrow> off - off mod ?c)"
    "fr \<le> off" "(case pde of None \<Rightarrow> Some ?p
      | Some q \<Rightarrow> do { l \<leftarrow> ext2_rec_len_to_disk (off + rlen ?p off - fr); Some (?p(q := (?p q)\<lparr>rec_len := l\<rparr>)) }) = Some p'"
    "page_ok ?c (s_inodes_count sb) (p'(off := (p' off)\<lparr>de_inode := 0\<rparr>)) ?lm"
    "mset (page_list ?p ?lm) = add_mset (entry_of (?p off)) (mset (page_list (p'(off := (p' off)\<lparr>de_inode := 0\<rparr>)) ?lm))" .
  let ?q = "p'(off := (p' off)\<lparr>de_inode := 0\<rparr>)" and ?pos = "n * PAGE_CACHE_SIZE + fr" and ?len = "off + rlen ?p off - fr"
  have "ext2_delete_entry (Inr b) None now sb dir (n, off) = Some (committed now (dir\<lparr>i_blocks := b\<rparr>) n ?q ?pos ?len, None)"
    using r(1,2,4) by (cases pde)
      (auto simp: ext2_delete_entry_def ext2_chunk_size_def committed_def Let_def case_prod_beta bind_eq_Some_conv)
  moreover have pos: "?pos + ?len \<le> i_size dir" using walk_fits [OF p off(1)] d(6) [OF le] r(3) by simp
  then have "dir_ok sb (committed now (dir\<lparr>i_blocks := b\<rparr>) n ?q ?pos ?len) \<and>
      mset (listing (committed now (dir\<lparr>i_blocks := b\<rparr>) n ?q ?pos ?len)) + mset (pg dir n) =
      mset (listing dir) + mset (page_list ?q ?lm)"
    using committed_inside [of sb "dir\<lparr>i_blocks := b\<rparr>" n ?pos ?len ?q now] ok n r(5) by simp
  moreover have "pg dir n = page_list ?p ?lm" by (simp add: pg_def)
  moreover have "same_meta dir (committed now (dir\<lparr>i_blocks := b\<rparr>) n ?q ?pos ?len)"
    using committed_meta [of "dir\<lparr>i_blocks := b\<rparr>" now n ?q ?pos ?len] unfolding same_meta_blocks .
  ultimately show ?thesis using r(6) name pos by (simp add: committed_fields)
qed

lemma mset_exchange:
  assumes "A + P = B + Q" and "Q + {#e#} = P + {#f#}"
  shows "add_mset e A = add_mset f B"
proof -
  have "add_mset e A + P = B + (Q + {#e#})" using assms(1) by simp
  also have "\<dots> = add_mset f B + P" unfolding assms(2) by simp
  finally show ?thesis by simp
qed

lemma set_link_ok:
  assumes ok: "dir_ok sb dir" and at: "at_loc dir name (n, off)" and ino: "0 < ino" "ino \<le> s_inodes_count sb"
  shows "\<exists>dir'. ext2_set_link (Inr b) None now sb dir (n, off) ino mode ut = Some dir' \<and> dir_ok sb dir' \<and>
    add_mset (name, de_inode (dpages dir n off)) (mset (listing dir')) = add_mset (name, ino) (mset (listing dir)) \<and>
    same_meta dir dir' \<and> i_blocks dir' = b \<and> i_size dir' = i_size dir \<and>
    (\<forall>name loc. at_loc dir name loc \<longrightarrow> at_loc dir' name loc)"
proof -
  let ?p = "dpages dir n" and ?lm = "ext2_last_byte dir n" and ?c = "s_blocksize sb"
  from at have n: "n < dir_pages dir" and off: "off \<in> set (walk ?p ?lm 0)" "live (?p off)"
    and name: "entry_of (?p off) = (name, de_inode (?p off))" by (auto simp: at_loc_def entry_of_def)
  then have le: "n * PAGE_CACHE_SIZE \<le> i_size dir" by (simp add: dir_pages_pos)
  have p: "page_ok ?c (s_inodes_count sb) ?p ?lm" using dir_okD(4) [OF ok n] .
  define de where "de = ext2_set_de_type sb ((?p off)\<lparr>de_inode := ino\<rparr>) mode"
  have de: "live de" "entry_of de = (name, ino)" using ino name by (simp_all add: de_def live_def entry_of_def)
  have u: "page_ok ?c (s_inodes_count sb) (?p(off := de)) ?lm"
    "mset (page_list (?p(off := de)) ?lm) + {#entry_of (?p off)#} = mset (page_list ?p ?lm) + (if live de then {#entry_of de#} else {#})"
    using page_update [OF p off, of de] ino by (simp_all add: de_def)
  let ?dir = "dir\<lparr>i_blocks := b\<rparr>"
  have pos: "n * PAGE_CACHE_SIZE + off + rlen ?p off \<le> i_size ?dir"
    using walk_fits [OF p off(1)] dir_okD(6) [OF ok le] by simp
  note c = committed_inside [of sb ?dir n _ _ _ now, OF _ _ pos, simplified, OF ok n u(1)]
  let ?d = "committed now ?dir n (?p(off := de)) (n * PAGE_CACHE_SIZE + off) (rlen ?p off)"
  obtain dir' where dir': "ext2_set_link (Inr b) None now sb dir (n, off) ino mode ut = Some dir'"
    "dpages dir' = dpages ?d" "i_size dir' = i_size ?d" "p_error dir' = p_error ?d"
    "same_meta dir dir'" "i_blocks dir' = b"
    by (auto simp: ext2_set_link_def committed_def touch_dir_def de_def Let_def same_meta_def ext2_commit_chunk_def set_page_def)
  have keep: "at_loc dir' name loc" if "at_loc dir name loc" for name loc
  proof -
    obtain k o1 where l: "loc = (k, o1)" by (cases loc)
    have d: "dpages dir' = (dpages dir)(n := ?p(off := de))" "i_size dir' = i_size dir"
      using dir'(2,3) pos by (simp_all add: committed_fields)
    then have lb: "dir_pages dir' = dir_pages dir" "ext2_last_byte dir' = ext2_last_byte dir"
      by (simp_all add: dir_pages_def ext2_last_byte_def fun_eq_iff)
    have w: "walk (?p(off := de)) ?lm 0 = walk ?p ?lm 0" using page_update(2) [OF p off, of de] ino by (simp add: de_def)
    have n': "fst (entry_of de) = fst (entry_of (?p off))" using de name by simp
    show ?thesis using that w n' de(1) unfolding l by (cases "k = n") (auto simp: at_loc_def d lb)
  qed
  have "pg dir n = page_list ?p ?lm" by (simp add: pg_def)
  then have "add_mset (name, de_inode (?p off)) (mset (listing ?d)) = add_mset (name, ino) (mset (listing dir))"
    using c u(2) de name by (intro mset_exchange) simp_all
  with dir_ok_fields [OF dir'(2,3)] dir'(1,3-6) c pos keep show ?thesis by (auto simp: committed_fields)
qed

section \<open>Making, testing and listing directories\<close>

abbreviation dot :: "byte list" where "dot \<equiv> [0x2E]"
abbreviation dotdot :: "byte list" where "dotdot \<equiv> [0x2E, 0x2E]"

lemma one_page:
  assumes "i_size dir = c" "0 < c" "c \<le> PAGE_CACHE_SIZE"
  shows "dir_pages dir = 1" "ext2_last_byte dir 0 = c" "listing dir = page_list (dpages dir 0) c"
proof -
  show d: "dir_pages dir = 1" using assms by (simp add: dir_pages_def)
  show l: "ext2_last_byte dir 0 = c" using assms last_byte [of dir 0] by simp
  show "listing dir = page_list (dpages dir 0) c" by (simp add: listing_def d pg_def l)
qed

lemma make_empty_ok:
  assumes c: "s_blocksize sb \<in> {1024, 2048, 4096}" and dir: "i_size dir = 0" "\<And>n. \<not> p_error dir n"
    and ino: "0 < i_ino dir" "i_ino dir \<le> s_inodes_count sb" "0 < parent" "parent \<le> s_inodes_count sb"
  shows "\<exists>dir'. ext2_make_empty True (Inr b) None sb dir parent = Some (dir', None) \<and> dir_ok sb dir' \<and>
    i_size dir' = s_blocksize sb \<and> same_meta dir dir' \<and> i_blocks dir' = b \<and> listing dir' = [(dot, i_ino dir), (dotdot, parent)]"
proof -
  let ?c = "s_blocksize sb"
  have l1: "ext2_rec_len_to_disk 12 = Some 12" "ext2_rec_len_from_disk 12 = 12"
    by (simp_all add: ext2_rec_len_to_disk_def ext2_rec_len_from_disk_def)
  have u: "u32_sub ?c 12 = ?c - 12" using c by (intro u32_sub_id) auto
  obtain l2 where l2: "ext2_rec_len_to_disk (?c - 12) = Some l2" "ext2_rec_len_from_disk l2 = ?c - 12"
    using c by (auto intro: to_disk_small [of "?c - 12"])
  obtain dir' where r: "ext2_make_empty True (Inr b) None sb dir parent = Some (dir', None)"
    "i_size dir' = ?c" "same_meta dir dir' \<and> i_blocks dir' = b" "p_error dir' = p_error dir"
    "rec_len (dpages dir' 0 0) = 12" "name_len (dpages dir' 0 0) = 1" "de_name (dpages dir' 0 0) = [0x2E, 0, 0, 0]"
    "de_inode (dpages dir' 0 0) = i_ino dir"
    "rec_len (dpages dir' 0 12) = l2" "name_len (dpages dir' 0 12) = 2" "de_name (dpages dir' 0 12) = [0x2E, 0x2E, 0, 0]"
    "de_inode (dpages dir' 0 12) = parent"
    using l1(1) l2(1) u dir(1) c by (auto simp: ext2_make_empty_def ext2_chunk_size_def ext2_commit_chunk_def set_page_def Let_def same_meta_def)
  let ?p = "dpages dir' 0"
  have rl: "rlen ?p 0 = 12" "rlen ?p 12 = ?c - 12" using r l1 l2 by (simp_all add: rlen_def)
  have ck: "11 div ?c = 0" "(?c - Suc 0) div ?c = 0" "12 div ?c = 0" "(?c - 12) mod 4 = 0" "24 \<le> ?c" "?c \<le> PAGE_CACHE_SIZE"
    using c by auto
  have "bad_entry ?c (s_inodes_count sb) (?p 0) 0 = None"
    using r l1 ino ck by (intro bad_entryI) simp_all
  moreover have "bad_entry ?c (s_inodes_count sb) (?p 12) 12 = None"
    using r l2 ino ck by (intro bad_entryI) (simp_all add: EXT2_DIR_REC_LEN_def)
  ultimately have ch: "chain ?c (s_inodes_count sb) ?p ?c 0 [0, 12]" using rl ck by (simp add: chain_Cons)
  have "named (?p o1)" if "o1 \<in> set [0, 12]" for o1 using that r by (auto simp: named_def)
  note pk = page_okI [OF ch this]
  note o = one_page [OF r(2)]
  have "dir_ok sb dir'" using c r(2,4) o ck pk(1) dir(2) by (auto simp: dir_ok_def)
  moreover have "listing dir' = [(dot, i_ino dir), (dotdot, parent)]"
    using o ck pk(2) r ino by (simp add: live_def entry_of_def)
  ultimately show ?thesis using r(1-3) by blast
qed

lemma dot_entry_iff:
  assumes "named de" "live de"
  shows "dot_entry ino de \<longleftrightarrow> entry_of de = (dot, ino) \<or> fst (entry_of de) = dotdot"
proof -
  have n: "0 < name_len de" "name_len de \<le> length (de_name de)" using assms by (auto simp: named_def)
  consider "name_len de = 1" | "name_len de = 2" | "2 < name_len de" using n by linarith
  then show ?thesis
  proof cases
    case 1
    then show ?thesis using n by (cases "de_name de") (auto simp: dot_entry_def entry_of_def byte_at_def)
  next
    case 2
    then obtain a b r where "de_name de = a # b # r" using n by (cases "de_name de"; cases "tl (de_name de)") auto
    then show ?thesis using 2 by (auto simp: dot_entry_def entry_of_def byte_at_def numeral_2_eq_2)
  next
    case 3
    then have "length (fst (entry_of de)) > 2" using n by (simp add: entry_of_def)
    then have "fst (entry_of de) \<noteq> dot" "fst (entry_of de) \<noteq> dotdot" by auto
    then show ?thesis using 3 by (auto simp: dot_entry_def)
  qed
qed

lemma empty_pages_ok:
  assumes "dir_ok sb dir" and "\<And>n. n \<in> set ns \<Longrightarrow> n < dir_pages dir"
  shows "\<exists>dir' b. empty_pages (\<lambda>_. None) sb ns dir = (dir', b) \<and> same_dir dir dir' \<and> dir_ok sb dir' \<and>
    (b \<longleftrightarrow> (\<forall>n \<in> set ns. \<forall>(name, ino) \<in> set (pg dir n). name = dot \<and> ino = i_ino dir \<or> name = dotdot))"
  using assms
proof (induction ns arbitrary: dir)
  case Nil
  then show ?case by (auto simp: same_dir_refl)
next
  case (Cons n ns)
  let ?p = "dpages dir n" and ?lm = "ext2_last_byte dir n"
  have n: "n < dir_pages dir" using Cons.prems by simp
  then have "n * PAGE_CACHE_SIZE \<le> i_size dir" by (simp add: dir_pages_pos)
  from get_page [OF Cons.prems(1) _ this, of "\<lambda>_. None"] n obtain d1 where
    g: "ext2_get_page (\<lambda>_. None) sb dir n = (d1, Inr ?p)" "same_dir dir d1" "dir_ok sb d1" by auto
  note s1 = same_dirD [OF g(2)]
  have p: "page_ok (s_blocksize sb) (s_inodes_count sb) ?p ?lm" using dir_okD(4) [OF Cons.prems(1) n] .
  then have ch: "chain (s_blocksize sb) (s_inodes_count sb) ?p ?lm 0 (walk ?p ?lm 0)" by (simp add: page_ok_def)
  have e: "empty_loop (i_ino dir) ?p (int ?lm - 12) 0 \<longleftrightarrow>
      (\<forall>(name, ino) \<in> set (pg dir n). name = dot \<and> ino = i_ino dir \<or> name = dotdot)"
    unfolding empty_loop_chain [OF ch] pg_def page_list_def
    using p dot_entry_iff by (auto simp: page_ok_def prod_eq_iff entry_of_def)
  have pgs: "pg d1 = pg dir" using s1 by (intro ext) (simp add: pg_def)
  show ?case using Cons.IH [OF g(3)] Cons.prems(2) g s1 e pgs same_dir_trans [OF g(2)] by (auto simp: same_dir_refl)
qed

lemma empty_dir_ok:
  assumes "dir_ok sb dir"
  shows "snd (ext2_empty_dir (\<lambda>_. None) sb dir) \<longleftrightarrow>
    (\<forall>(name, ino) \<in> set (listing dir). name = dot \<and> ino = i_ino dir \<or> name = dotdot)"
  using empty_pages_ok [OF assms, of "[0..<dir_pages dir]"] 
  by (force simp: ext2_empty_dir_def listing_def)

lemma empty_dir_same:
  assumes "dir_ok sb dir" and "ext2_empty_dir (\<lambda>_. None) sb dir = (dir', b)"
  shows "same_dir dir dir'" "dir_ok sb dir'"
  using empty_pages_ok [OF assms(1), of "[0..<dir_pages dir]"] assms(2) by (auto simp: ext2_empty_dir_def)

text \<open>A buffer that is never full: \<open>ext2_readdir\<close> from the beginning hands over the whole listing, in
  order, and leaves the position at the end of the directory.\<close>

definition append_dir :: "(byte list \<times> nat) list filldir" where
  "append_dir buf name pos ino ty = (buf @ [(name, ino)], False)"

lemma append_dir [simp]: "append_dir buf name pos ino ty = (buf @ [(name, ino)], False)"
  by (simp add: append_dir_def)

lemma readdir_page_chain:
  assumes "chain chunk mx p lm off os"
  shows "readdir_page sb append_dir p n (int lm - 12) off fpos buf = Page_done (fpos + (lm - off)) (buf @ plist p os)"
  using assms
proof (induction arbitrary: fpos buf rule: chain.induct)
  case stop
  then show ?case by (subst readdir_page.simps) simp
next
  case (step off os)
  note d = bad_entryD(1) [of chunk mx p off, OF step.hyps(1)]
  have "int off \<le> int lm - 12" "off + rlen p off \<le> lm" using d chain_le [OF step.hyps(3)] by simp_all
  moreover have "ext2_next_entry p off = off + rlen p off" by (simp add: ext2_next_entry_def rlen_def)
  ultimately show ?case using rec_len_nonzero [OF d]
    by (subst readdir_page.simps) (simp add: Let_def step.IH live_def entry_of_def)
qed

lemma readdir_loop_ok:
  assumes "dir_ok sb dir" and "k \<le> dir_pages dir" and "fpos = min (k * PAGE_CACHE_SIZE) (i_size dir)"
  shows "\<exists>dir'. readdir_loop (\<lambda>_. None) sb append_dir [k..<dir_pages dir] dir rv 0 fpos buf =
      (dir', i_size dir, rv \<and> k = dir_pages dir, buf @ concat (map (pg dir) [k..<dir_pages dir]), None) \<and> same_dir dir dir'"
  using assms
proof (induction "dir_pages dir - k" arbitrary: k dir rv fpos buf)
  case 0
  then have "k = dir_pages dir" by simp
  then have "i_size dir \<le> k * PAGE_CACHE_SIZE" using dir_pages_pos [of k dir] by simp
  then show ?case using 0 \<open>k = dir_pages dir\<close> same_dir_refl by auto
next
  case (Suc m)
  let ?p = "dpages dir k" and ?lm = "ext2_last_byte dir k"
  have k: "k < dir_pages dir" using Suc.hyps(2) by simp
  then have sz: "k * PAGE_CACHE_SIZE < i_size dir" by (simp add: dir_pages_pos)
  from get_page [OF Suc.prems(1) _ less_imp_le [OF sz], of "\<lambda>_. None"] k obtain d1 where
    g: "ext2_get_page (\<lambda>_. None) sb dir k = (d1, Inr ?p)" "same_dir dir d1" "dir_ok sb d1" by auto
  note s1 = same_dirD [OF g(2)]
  have "page_ok (s_blocksize sb) (s_inodes_count sb) ?p ?lm" using dir_okD(4) [OF Suc.prems(1) k] .
  then have ch: "chain (s_blocksize sb) (s_inodes_count sb) ?p ?lm 0 (walk ?p ?lm 0)" by (simp add: page_ok_def)
  have f: "fpos = k * PAGE_CACHE_SIZE" using Suc.prems(3) sz by simp
  have f1: "fpos + ?lm = min ((k + 1) * PAGE_CACHE_SIZE) (i_size d1)"
    using f last_byte [OF dir_okD(3) [OF Suc.prems(1)] less_imp_le [OF sz]] sz s1 by simp
  have e: "readdir_loop (\<lambda>_. None) sb append_dir [k..<dir_pages dir] dir rv 0 fpos buf =
      readdir_loop (\<lambda>_. None) sb append_dir [k + 1..<dir_pages d1] d1 False 0 (fpos + ?lm) (buf @ pg dir k)"
    unfolding upt_conv_Cons [OF k]
    using g(1) s1 readdir_page_chain [OF ch] by (simp add: pg_def page_list_plist Let_def)
  have pgs: "pg d1 = pg dir" using s1 by (intro ext) (simp add: pg_def)
  have "m = dir_pages d1 - (k + 1)" "k + 1 \<le> dir_pages d1" using Suc.hyps(2) k s1 by simp_all
  from Suc.hyps(1) [OF this(1) g(3) this(2) f1, of False "buf @ pg dir k"] obtain d2 where
    r: "readdir_loop (\<lambda>_. None) sb append_dir [k + 1..<dir_pages d1] d1 False 0 (fpos + ?lm) (buf @ pg dir k) =
      (d2, i_size dir, False, (buf @ pg dir k) @ concat (map (pg dir) [k + 1..<dir_pages dir]), None)" "same_dir d1 d2"
    by (auto simp: pgs s1)
  then show ?case unfolding e using k same_dir_trans [OF g(2) r(2)] by (simp add: upt_conv_Cons [OF k])
qed

lemma readdir_ok:
  assumes ok: "dir_ok sb dir" and sz: "0 < i_size dir"
  shows "\<exists>dir'. ext2_readdir (\<lambda>_. None) sb append_dir dir 0 v [] = (dir', i_size dir, i_version dir, listing dir, None) \<and>
    same_dir dir dir'"
proof -
  have "12 \<le> i_size dir" using dir_okD(1,2) [OF ok] sz by (auto dest: dvd_imp_le)
  moreover have "0 < dir_pages dir" using sz by (simp add: dir_pages_pos)
  ultimately show ?thesis using readdir_loop_ok [OF ok, of 0 0 "v \<noteq> i_version dir" "[]"]
    by (auto simp: ext2_readdir_def listing_def)
qed

end
