(* ===== verification/Ext2_Directory.thy ===== *)
theory Ext2_Directory
  imports Ext2_Dir_Ops
begin

text \<open>
  The contract between a3/dir.c and its clients (a3/namei.c): a directory is a finite map from
  names to inode numbers. The locale \<open>directory\<close> states what lookup, insertion and deletion
  promise; what a client may conclude is proved inside it, and the interpretation at the end
  shows that \<open>ext2_find_entry\<close>, \<open>ext2_add_link\<close> and \<open>ext2_delete_entry\<close> keep the contract.
\<close>

section \<open>The interface\<close>

text \<open>\<open>fits e d\<close>: the environment \<open>e\<close> lets an operation on \<open>d\<close> succeed; \<open>valid n i\<close>: \<open>n\<close> and \<open>i\<close> may
  form an entry; \<open>ino_at d l\<close>: the inode number at the location \<open>l\<close>.\<close>

locale directory =
  fixes ok :: "'d \<Rightarrow> bool"
    and ents :: "'d \<Rightarrow> ('n \<times> 'i) list"
    and fits :: "'e \<Rightarrow> 'd \<Rightarrow> bool"
    and valid :: "'n \<Rightarrow> 'i \<Rightarrow> bool"
    and lookup :: "'d \<Rightarrow> 'n \<Rightarrow> 'd \<times> 'l option"
    and ino_at :: "'d \<Rightarrow> 'l \<Rightarrow> 'i"
    and add :: "'e \<Rightarrow> 'd \<Rightarrow> 'n \<Rightarrow> 'i \<Rightarrow> 'd option"
    and del :: "'e \<Rightarrow> 'd \<Rightarrow> 'l \<Rightarrow> 'd option"
  assumes names: "ok d \<Longrightarrow> distinct (map fst (ents d))"
    and lookup_keeps: "ok d \<Longrightarrow> ok (fst (lookup d n)) \<and> ents (fst (lookup d n)) = ents d"
    and lookup_none: "ok d \<Longrightarrow> snd (lookup d n) = None \<Longrightarrow> n \<notin> fst ` set (ents d)"
    and lookup_some: "ok d \<Longrightarrow> lookup d n = (d', Some l) \<Longrightarrow> (n, ino_at d' l) \<in> set (ents d)"
    and add_law: "ok d \<Longrightarrow> fits e d \<Longrightarrow> valid n i \<Longrightarrow> n \<notin> fst ` set (ents d) \<Longrightarrow>
      \<exists>d'. add e d n i = Some d' \<and> ok d' \<and> mset (ents d') = add_mset (n, i) (mset (ents d))"
    and del_law: "ok d \<Longrightarrow> fits e d \<Longrightarrow> lookup d n = (d1, Some l) \<Longrightarrow>
      \<exists>d'. del e d1 l = Some d' \<and> ok d' \<and> mset (ents d) = add_mset (n, ino_at d1 l) (mset (ents d'))"
begin

lemma map_of_mset:
  assumes "mset xs = add_mset (n, i) (mset ys)" and "distinct (map fst xs)"
  shows "map_of xs = (map_of ys)(n \<mapsto> i)" "n \<notin> fst ` set ys"
proof -
  have "mset (map fst xs) = mset (n # map fst ys)" using assms(1) by simp
  then have d: "distinct (n # map fst ys)" using assms(2) mset_eq_imp_distinct_iff by blast
  then show "n \<notin> fst ` set ys" by auto
  have "set xs = set ((n, i) # ys)" using assms(1) by (metis mset.simps(2) set_mset_mset)
  then have "map_of xs = map_of ((n, i) # ys)"
    using assms(2) d by (intro map_of_eqI) (auto simp: map_of_eq_Some_iff)
  then show "map_of xs = (map_of ys)(n \<mapsto> i)" by simp
qed

text \<open>Looking a name up is reading the map.\<close>

lemma lookup_map:
  assumes "ok d"
  shows "(case lookup d n of (d', r) \<Rightarrow> map_option (ino_at d') r) = map_of (ents d) n"
proof -
  obtain d' r where l: "lookup d n = (d', r)" by (cases "lookup d n")
  show ?thesis
  proof (cases r)
    case None
    then have "n \<notin> fst ` set (ents d)" using lookup_none [OF assms, of n] l by simp
    then have "map_of (ents d) n = None" by (simp add: map_of_eq_None_iff)
    then show ?thesis using l None by simp
  next
    case (Some a)
    then have "(n, ino_at d' a) \<in> set (ents d)" using lookup_some [OF assms] l by simp
    then show ?thesis using l Some names [OF assms] by simp
  qed
qed

lemma add_map:
  assumes "ok d" "fits e d" "valid n i" "map_of (ents d) n = None"
  shows "\<exists>d'. add e d n i = Some d' \<and> ok d' \<and> map_of (ents d') = (map_of (ents d))(n \<mapsto> i)"
proof -
  from assms(4) have "n \<notin> fst ` set (ents d)" by (simp add: map_of_eq_None_iff)
  from add_law [OF assms(1-3) this] obtain d' where
    d: "add e d n i = Some d'" "ok d'" "mset (ents d') = add_mset (n, i) (mset (ents d))" by blast
  with map_of_mset(1) [OF d(3) names [OF d(2)]] show ?thesis by blast
qed

text \<open>Looking a name up and deleting what was found.\<close>

lemma del_map:
  assumes "ok d" "fits e d" "map_of (ents d) n \<noteq> None"
  shows "\<exists>d1 l d'. lookup d n = (d1, Some l) \<and> del e d1 l = Some d' \<and> ok d' \<and> map_of (ents d') = (map_of (ents d))(n := None)"
proof -
  obtain d1 l where l: "lookup d n = (d1, Some l)"
    using lookup_map [OF assms(1), of n] assms(3) by (cases "lookup d n") (auto split: option.splits)
  from del_law [OF assms(1,2) l] obtain d' where
    d: "del e d1 l = Some d'" "ok d'" "mset (ents d) = add_mset (n, ino_at d1 l) (mset (ents d'))" by blast
  note m = map_of_mset [OF d(3) names [OF assms(1)]]
  have "map_of (ents d') n = None" using m(2) by (simp add: map_of_eq_None_iff)
  then have "map_of (ents d') = (map_of (ents d))(n := None)" using m(1) by auto
  with d l show ?thesis by blast
qed

text \<open>Adding a name and deleting it again leaves the entries of before.\<close>

lemma add_del:
  assumes "ok d" "fits e d" "valid n i" "map_of (ents d) n = None" "add e d n i = Some d1" "fits e' d1"
  shows "\<exists>d2 l d'. lookup d1 n = (d2, Some l) \<and> ino_at d2 l = i \<and> del e' d2 l = Some d' \<and> ok d' \<and>
    mset (ents d') = mset (ents d)"
proof -
  from assms(4) have n: "n \<notin> fst ` set (ents d)" by (simp add: map_of_eq_None_iff)
  from add_law [OF assms(1-3) n] assms(5) have
    a: "ok d1" "mset (ents d1) = add_mset (n, i) (mset (ents d))" by auto
  have m: "map_of (ents d1) n = Some i" using map_of_mset(1) [OF a(2) names [OF a(1)]] by simp
  obtain d2 l where l: "lookup d1 n = (d2, Some l)" "ino_at d2 l = i"
    using lookup_map [OF a(1), of n] m by (cases "lookup d1 n") auto
  from del_law [OF a(1) assms(6) l(1)] obtain d' where
    d: "del e' d2 l = Some d'" "ok d'" "mset (ents d1) = add_mset (n, i) (mset (ents d'))" using l(2) by auto
  with a(2) l show ?thesis by auto
qed

end

section \<open>The implementation\<close>

text \<open>A directory in good order: its pages are well formed, no name occurs twice, and the inode has
  as many sectors as its size needs.\<close>

definition good_dir :: "ext2_sb \<Rightarrow> inode \<Rightarrow> bool" where
  "good_dir sb dir \<longleftrightarrow> dir_ok sb dir \<and> distinct (map fst (listing dir)) \<and> i_size dir \<le> 512 * i_blocks dir"

text \<open>An environment: the sectors after \<open>__ext2_write_begin\<close>, the time, and the mode of the inode
  that is linked. It fits a directory when it covers one more chunk and sizes stay below 4 GB.\<close>

type_synonym dir_env = "nat \<times> nat \<times> 16 word"

definition env_fits :: "ext2_sb \<Rightarrow> dir_env \<Rightarrow> inode \<Rightarrow> bool" where
  "env_fits sb e dir \<longleftrightarrow> i_size dir + s_blocksize sb < 2 ^ 32 \<and> i_size dir + s_blocksize sb \<le> 512 * fst e"

definition entry_valid :: "ext2_sb \<Rightarrow> byte list \<Rightarrow> nat \<Rightarrow> bool" where
  "entry_valid sb name ino \<longleftrightarrow> name \<noteq> [] \<and> length name \<le> 255 \<and> 0 < ino \<and> ino \<le> s_inodes_count sb"

definition success :: "('a \<times> errno option) option \<Rightarrow> 'a option" where
  "success r = (case r of Some (x, None) \<Rightarrow> Some x | _ \<Rightarrow> None)"

definition add_entry :: "ext2_sb \<Rightarrow> dir_env \<Rightarrow> inode \<Rightarrow> byte list \<Rightarrow> nat \<Rightarrow> inode option" where
  "add_entry sb e dir name ino =
     (case e of (b, now, mode) \<Rightarrow> success (ext2_add_link (\<lambda>_. None) (Inr b) None now sb dir name ino mode))"

definition del_entry :: "ext2_sb \<Rightarrow> dir_env \<Rightarrow> inode \<Rightarrow> nat \<times> nat \<Rightarrow> inode option" where
  "del_entry sb e dir loc = (case e of (b, now, mode) \<Rightarrow> success (ext2_delete_entry (Inr b) None now sb dir loc))"

lemma good_blocks: "i_size dir \<le> 512 * i_blocks dir \<Longrightarrow> dir_pages dir \<le> i_blocks dir div 8 + 1"
  by (simp add: dir_pages_def)

lemma good_find:
  assumes ok: "good_dir sb dir" and f: "ext2_find_entry (\<lambda>_. None) sb dir name = (dir', res)"
  shows "good_dir sb dir' \<and> same_dir dir dir' \<and>
    (case res of Some loc \<Rightarrow> at_loc dir' name loc | None \<Rightarrow> name \<notin> fst ` set (listing dir))"
proof -
  from ok have d: "dir_ok sb dir" "distinct (map fst (listing dir))" "i_size dir \<le> 512 * i_blocks dir"
    by (auto simp: good_dir_def)
  from find_entry_ok [OF d(1) good_blocks [OF d(3)], of name] f have
    r: "same_dir dir dir'" "dir_ok sb dir'" "case res of Some loc \<Rightarrow> at_loc dir name loc | None \<Rightarrow> name \<notin> fst ` set (listing dir)"
    by auto
  note s = same_dirD [OF r(1)]
  have "good_dir sb dir'" using r(2) d s by (simp add: good_dir_def)
  moreover have "case res of Some loc \<Rightarrow> at_loc dir' name loc | None \<Rightarrow> name \<notin> fst ` set (listing dir)"
    using r(3) at_loc_same [OF r(1)] by (cases res) simp_all
  ultimately show ?thesis using r(1) by blast
qed

lemma good_add:
  assumes ok: "good_dir sb dir" and fits: "env_fits sb (b, e) dir" and new: "entry_valid sb name ino" "name \<notin> fst ` set (listing dir)"
  shows "\<exists>dir'. ext2_add_link (\<lambda>_. None) (Inr b) None now sb dir name ino mode = Some (dir', None) \<and> good_dir sb dir' \<and>
    mset (listing dir') = add_mset (name, ino) (mset (listing dir)) \<and> same_meta dir dir' \<and>
    i_size dir' \<le> i_size dir + s_blocksize sb \<and> (\<forall>name loc. at_loc dir name loc \<longrightarrow> at_loc dir' name loc)"
proof -
  from ok have d: "dir_ok sb dir" "distinct (map fst (listing dir))" by (auto simp: good_dir_def)
  from fits new have v: "i_size dir + s_blocksize sb < 2 ^ 32" "i_size dir + s_blocksize sb \<le> 512 * b"
    "0 < ino" "ino \<le> s_inodes_count sb" "name \<noteq> []" "length name \<le> 255" by (auto simp: env_fits_def entry_valid_def)
  from add_pages_ok [OF d(1) new(2) _ _ v(3-6,1), of 0 b now mode] obtain dir' where
    r: "ext2_add_link (\<lambda>_. None) (Inr b) None now sb dir name ino mode = Some (dir', None)" "dir_ok sb dir'"
      "mset (listing dir') = add_mset (name, ino) (mset (listing dir))" "grown sb b dir dir'"
      "\<forall>name loc. at_loc dir name loc \<longrightarrow> at_loc dir' name loc"
    by (auto simp: ext2_add_link_def)
  have "mset (map fst (listing dir')) = mset (name # map fst (listing dir))" using r(3) by simp
  then have "distinct (map fst (listing dir'))" using d(2) new(2) 
      mset_eq_imp_distinct_iff [of "map fst (listing dir')" "name # map fst (listing dir)"] by simp
  then have "good_dir sb dir'" using r(2,4) v(2) by (simp add: good_dir_def grown_def)
  then show ?thesis using r by (auto simp: grown_def)
qed

lemma good_delete:
  assumes ok: "good_dir sb dir" and at: "at_loc dir name (n, off)" and b: "i_size dir \<le> 512 * b"
  shows "\<exists>dir'. ext2_delete_entry (Inr b) None now sb dir (n, off) = Some (dir', None) \<and> good_dir sb dir' \<and>
    mset (listing dir) = add_mset (name, de_inode (dpages dir n off)) (mset (listing dir')) \<and> same_meta dir dir' \<and>
    i_size dir' = i_size dir"
proof -
  from ok have d: "dir_ok sb dir" "distinct (map fst (listing dir))" by (auto simp: good_dir_def)
  from delete_entry_ok [OF d(1) at, of b now] obtain dir' where
    r: "ext2_delete_entry (Inr b) None now sb dir (n, off) = Some (dir', None)" "dir_ok sb dir'"
      "mset (listing dir) = add_mset (name, de_inode (dpages dir n off)) (mset (listing dir'))"
      "same_meta dir dir'" "i_blocks dir' = b" "i_size dir' = i_size dir" by auto
  have "mset (map fst (listing dir)) = mset (name # map fst (listing dir'))" using r(3) by simp
  then have "distinct (map fst (listing dir'))"
    using d(2) mset_eq_imp_distinct_iff [of "map fst (listing dir)" "name # map fst (listing dir')"] by simp
  then have "good_dir sb dir'" using r b by (simp add: good_dir_def)
  then show ?thesis using r by blast
qed

lemma good_set_link:
  assumes ok: "good_dir sb dir" and at: "at_loc dir name (n, off)" and b: "i_size dir \<le> 512 * b"
    and ino: "0 < ino" "ino \<le> s_inodes_count sb"
  shows "\<exists>dir'. ext2_set_link (Inr b) None now sb dir (n, off) ino mode ut = Some dir' \<and> good_dir sb dir' \<and>
    add_mset (name, de_inode (dpages dir n off)) (mset (listing dir')) = add_mset (name, ino) (mset (listing dir)) \<and>
    same_meta dir dir' \<and> i_size dir' = i_size dir \<and> (\<forall>name loc. at_loc dir name loc \<longrightarrow> at_loc dir' name loc)"
proof -
  from ok have d: "dir_ok sb dir" "distinct (map fst (listing dir))" by (auto simp: good_dir_def)
  from set_link_ok [OF d(1) at ino, of b now mode ut] obtain dir' where
    r: "ext2_set_link (Inr b) None now sb dir (n, off) ino mode ut = Some dir'" "dir_ok sb dir'"
      "add_mset (name, de_inode (dpages dir n off)) (mset (listing dir')) = add_mset (name, ino) (mset (listing dir))"
      "same_meta dir dir'" "i_blocks dir' = b" "i_size dir' = i_size dir"
      "\<forall>name loc. at_loc dir name loc \<longrightarrow> at_loc dir' name loc" by auto
  have "image_mset fst (add_mset (name, de_inode (dpages dir n off)) (mset (listing dir'))) =
      image_mset fst (add_mset (name, ino) (mset (listing dir)))" using r(3) by simp
  then have "mset (map fst (listing dir')) = mset (map fst (listing dir))" by simp
  then have "distinct (map fst (listing dir'))" using d(2) mset_eq_imp_distinct_iff by blast
  then have "good_dir sb dir'" using r b by (simp add: good_dir_def)
  then show ?thesis using r by blast
qed

interpretation ext2: directory "good_dir sb" listing "env_fits sb" "entry_valid sb" "ext2_find_entry (\<lambda>_. None) sb"
  "\<lambda>dir (n, off). de_inode (dpages dir n off)" "add_entry sb" "del_entry sb"
proof
  fix d d' d1 and n :: "byte list" and l :: "nat \<times> nat" and i and e :: dir_env
  assume ok: "good_dir sb d"
  then show "distinct (map fst (listing d))" by (simp add: good_dir_def)
  show "good_dir sb (fst (ext2_find_entry (\<lambda>_. None) sb d n)) \<and> listing (fst (ext2_find_entry (\<lambda>_. None) sb d n)) = listing d"
    using good_find [OF ok, of n] same_dirD(7) by (cases "ext2_find_entry (\<lambda>_. None) sb d n") auto
  { assume "snd (ext2_find_entry (\<lambda>_. None) sb d n) = None"
    then show "n \<notin> fst ` set (listing d)"
      using good_find [OF ok, of n] by (cases "ext2_find_entry (\<lambda>_. None) sb d n") auto }
  { assume f: "ext2_find_entry (\<lambda>_. None) sb d n = (d', Some l)"
    from good_find [OF ok f] same_dirD(7) show "(n, case l of (p, off) \<Rightarrow> de_inode (dpages d' p off)) \<in> set (listing d)"
      using at_loc_listing [of d' n] by (cases l) auto }
  { assume a: "env_fits sb e d" "entry_valid sb n i" "n \<notin> fst ` set (listing d)"
    from good_add [OF ok _ a(2,3), of "fst e" "snd e" "fst (snd e)" "snd (snd e)"] a(1)
    show "\<exists>d'. add_entry sb e d n i = Some d' \<and> good_dir sb d' \<and> mset (listing d') = add_mset (n, i) (mset (listing d))"
      by (cases e) (auto simp: add_entry_def success_def) }
  { assume fits: "env_fits sb e d" and f: "ext2_find_entry (\<lambda>_. None) sb d n = (d1, Some l)"
    obtain p off where l: "l = (p, off)" by (cases l)
    from good_find [OF ok f] l have g: "good_dir sb d1" "same_dir d d1" "at_loc d1 n (p, off)" by auto
    have "i_size d1 \<le> 512 * fst e" using fits same_dirD(2) [OF g(2)] by (simp add: env_fits_def)
    from good_delete [OF g(1,3) this, of "fst (snd e)"] same_dirD(7) [OF g(2)] l
    show "\<exists>d'. del_entry sb e d1 l = Some d' \<and> good_dir sb d' \<and>
        mset (listing d) = add_mset (n, case l of (p, off) \<Rightarrow> de_inode (dpages d1 p off)) (mset (listing d'))"
      by (cases e) (auto simp: del_entry_def success_def) }
qed

text \<open>\<open>ext2_inode_by_name\<close> is the lookup of the interface.\<close>

lemma by_name:
  "good_dir sb dir \<Longrightarrow> snd (ext2_inode_by_name (\<lambda>_. None) sb dir name) =
     (case map_of (listing dir) name of Some ino \<Rightarrow> ino | None \<Rightarrow> 0)"
  using ext2.lookup_map [of sb dir name]
  by (auto simp: ext2_inode_by_name_def split: prod.splits option.splits)

lemma by_name_keeps:
  assumes "good_dir sb dir"
  shows "good_dir sb (fst (ext2_inode_by_name (\<lambda>_. None) sb dir name))"
    "same_dir dir (fst (ext2_inode_by_name (\<lambda>_. None) sb dir name))"
  using good_find [OF assms, of name]
  by (auto simp: ext2_inode_by_name_def split: prod.splits option.splits)

section \<open>An example directory\<close>

definition sb_ex :: ext2_sb where
  "sb_ex = \<lparr>s_blocksize = 1024, s_inodes_count = 100, s_filetype = True\<rparr>"

text \<open>A directory with the entries \<open>.\<close> and \<open>..\<close>, both the inode 2, as a new root directory has.\<close>

definition page_ex :: dpage where
  "page_ex off =
     (if off = 0 then \<lparr>de_inode = 2, rec_len = 12, name_len = 1, file_type = 2, de_name = [0x2E, 0, 0, 0]\<rparr>
      else if off = 12 then \<lparr>de_inode = 2, rec_len = 1012, name_len = 2, file_type = 2, de_name = [0x2E, 0x2E, 0, 0]\<rparr>
      else zero_dirent)"

definition dir_ex :: inode where
  "dir_ex = \<lparr>i_ino = 2, i_mode = 0x41ED, i_nlink = 2, i_size = 1024, i_blocks = 2, i_data = [], i_flags = 0,
     i_dir_start_lookup = 0, i_version = 1, i_mtime = 0, i_ctime = 0, i_atime = 0, i_uid = 0, i_gid = 0,
     i_generation = 0, i_block_group = 0, i_vflags = 0, i_sbsync = False, i_dirty = False,
     dpages = (\<lambda>_. page_ex), fpages = (\<lambda>_. []), p_checked = (\<lambda>_. False), p_error = (\<lambda>_. False)\<rparr>"

lemma sb_ex [simp]: "s_blocksize sb_ex = 1024" "s_inodes_count sb_ex = 100"
  by (simp_all add: sb_ex_def)

lemma dir_ex_fields [simp]: "i_size dir_ex = 1024" "i_version dir_ex = 1" "i_ino dir_ex = 2" "\<not> p_error dir_ex n"
  by (simp_all add: dir_ex_def)

lemma page_ex [simp]:
  "page_ex 0 = \<lparr>de_inode = 2, rec_len = 12, name_len = 1, file_type = 2, de_name = [0x2E, 0, 0, 0]\<rparr>"
  "page_ex 12 = \<lparr>de_inode = 2, rec_len = 1012, name_len = 2, file_type = 2, de_name = [0x2E, 0x2E, 0, 0]\<rparr>"
  by (simp_all add: page_ex_def)

lemma dir_ex:
  shows dir_ex_listing: "listing dir_ex = [(dot, 2), (dotdot, 2)]" and dir_ex_good: "good_dir sb_ex dir_ex"
proof -
  have ch: "chain 1024 100 page_ex 1024 0 [0, 12]"
    by (simp add: chain_Cons bad_entry_def rlen_def ext2_rec_len_from_disk_def EXT2_DIR_REC_LEN_def)
  have "named (page_ex o1)" if "o1 \<in> set [0, 12]" for o1 using that by (auto simp: named_def)
  note p = page_okI [OF ch this]
  have s: "i_size dir_ex = 1024" and d: "dpages dir_ex 0 = page_ex" by (simp_all add: dir_ex_def)
  note o = one_page [OF s]
  show l: "listing dir_ex = [(dot, 2), (dotdot, 2)]"
    using o(3) p(2) d by (simp add: live_def entry_of_def)
  have "dir_ok sb_ex dir_ex" using o p(1) s d by (auto simp: dir_ok_def dir_ex_def)
  then show "good_dir sb_ex dir_ex" using l by (simp add: good_dir_def) (simp add: dir_ex_def)
qed

lemma dir_ex_fits: "env_fits sb_ex (4, e) dir_ex"
  by (simp add: env_fits_def dir_ex_def)

section \<open>Properties\<close>

text \<open>C10: Looking a name up in a directory of well-formed pages without duplicate names is reading
  the finite map the directory stands for: the inode number of the name, or 0 when it is not there,
  whatever page an earlier search has left as the page to start from. The directory keeps its names and
  stays well formed.\<close>

theorem lookup_reads_map:
  assumes "good_dir sb dir"
  shows "snd (ext2_inode_by_name (\<lambda>_. None) sb dir name) =
           (case map_of (listing dir) name of Some ino \<Rightarrow> ino | None \<Rightarrow> 0) \<and>
         good_dir sb (fst (ext2_inode_by_name (\<lambda>_. None) sb dir name)) \<and>
         listing (fst (ext2_inode_by_name (\<lambda>_. None) sb dir name)) = listing dir"
  using by_name [OF assms] by_name_keeps [OF assms] same_dirD(7) by blast

theorem lookup_reads_map_witness:
  "good_dir sb_ex dir_ex \<and> snd (ext2_inode_by_name (\<lambda>_. None) sb_ex dir_ex dotdot) = 2"
  using lookup_reads_map [OF dir_ex_good, of dotdot] dir_ex_good by (simp add: dir_ex_listing)

text \<open>C11: Adding a name that a directory does not have succeeds, whether the entry fits into a dead
  record, is split off a live one or needs a new chunk at the end; the pages stay well formed, the
  new name is found afterwards with its inode number, and every other name as before.\<close>

theorem add_then_lookup:
  assumes "good_dir sb dir" and "i_size dir + s_blocksize sb < 2 ^ 32" "i_size dir + s_blocksize sb \<le> 512 * b"
    and "name \<noteq> []" "length name \<le> 255" "0 < ino" "ino \<le> s_inodes_count sb" "map_of (listing dir) name = None"
  shows "\<exists>dir'. ext2_add_link (\<lambda>_. None) (Inr b) None now sb dir name ino mode = Some (dir', None) \<and> good_dir sb dir' \<and>
    (\<forall>m. snd (ext2_inode_by_name (\<lambda>_. None) sb dir' m) =
       (if m = name then ino else snd (ext2_inode_by_name (\<lambda>_. None) sb dir m)))"
proof -
  have v: "env_fits sb (b, now, mode) dir" "entry_valid sb name ino"
    using assms(2-7) by (simp_all add: env_fits_def entry_valid_def)
  have n: "name \<notin> fst ` set (listing dir)" using assms(8) by (simp add: map_of_eq_None_iff)
  from good_add [OF assms(1) v n, of now mode] obtain dir' where
    r: "ext2_add_link (\<lambda>_. None) (Inr b) None now sb dir name ino mode = Some (dir', None)" "good_dir sb dir'"
    "mset (listing dir') = add_mset (name, ino) (mset (listing dir))" by blast
  have "distinct (map fst (listing dir'))" using r(2) by (simp add: good_dir_def)
  note m = ext2.map_of_mset(1) [OF r(3) this]
  show ?thesis using r by_name [OF r(2)] by_name [OF assms(1)] m by auto
qed

theorem add_then_lookup_witness:
  "good_dir sb_ex dir_ex \<and>
   (\<exists>dir'. ext2_add_link (\<lambda>_. None) (Inr 4) None 7 sb_ex dir_ex [0x61, 0x62] 12 0x81A4 = Some (dir', None) \<and> good_dir sb_ex dir' \<and>
    (\<forall>m. snd (ext2_inode_by_name (\<lambda>_. None) sb_ex dir' m) =
       (if m = [0x61, 0x62] then 12 else snd (ext2_inode_by_name (\<lambda>_. None) sb_ex dir_ex m))))"
  using add_then_lookup [OF dir_ex_good, where b = 4 and name = "[0x61, 0x62]" and ino = 12 and now = 7 and mode = "0x81A4"]
    dir_ex_good
  by (simp add: dir_ex_listing)

text \<open>C12: Deleting an entry that was found succeeds and removes that name only: the record is merged
  into its predecessor in the chunk or marked as free, the pages stay well formed, and every other
  name is found as before.\<close>

theorem delete_then_lookup:
  assumes "good_dir sb dir" and "i_size dir \<le> 512 * b" and "ext2_find_entry (\<lambda>_. None) sb dir name = (dir1, Some loc)"
  shows "\<exists>dir'. ext2_delete_entry (Inr b) None now sb dir1 loc = Some (dir', None) \<and> good_dir sb dir' \<and>
    (\<forall>m. snd (ext2_inode_by_name (\<lambda>_. None) sb dir' m) =
       (if m = name then 0 else snd (ext2_inode_by_name (\<lambda>_. None) sb dir m)))"
proof -
  obtain n off where l: "loc = (n, off)" by (cases loc)
  from good_find [OF assms(1,3)] l have g: "good_dir sb dir1" "same_dir dir dir1" "at_loc dir1 name (n, off)" by auto
  have b: "i_size dir1 \<le> 512 * b" using assms(2) same_dirD(2) [OF g(2)] by simp
  from good_delete [OF g(1,3) b, of now] obtain dir' where
    r: "ext2_delete_entry (Inr b) None now sb dir1 (n, off) = Some (dir', None)" "good_dir sb dir'"
    "mset (listing dir) = add_mset (name, de_inode (dpages dir1 n off)) (mset (listing dir'))"
    unfolding same_dirD(7) [OF g(2)] by blast
  have "distinct (map fst (listing dir))" using assms(1) by (simp add: good_dir_def)
  note m = ext2.map_of_mset [OF r(3) this]
  have "map_of (listing dir') name = None" using m(2) by (simp add: map_of_eq_None_iff)
  then show ?thesis using r by_name [OF r(2)] by_name [OF assms(1)] m(1) l by auto
qed

theorem delete_then_lookup_witness:
  "\<exists>dir1 loc dir'. ext2_find_entry (\<lambda>_. None) sb_ex dir_ex dotdot = (dir1, Some loc) \<and>
    ext2_delete_entry (Inr 2) None 7 sb_ex dir1 loc = Some (dir', None) \<and> good_dir sb_ex dir' \<and>
    snd (ext2_inode_by_name (\<lambda>_. None) sb_ex dir' dotdot) = 0"
proof -
  obtain dir1 loc where f: "ext2_find_entry (\<lambda>_. None) sb_ex dir_ex dotdot = (dir1, Some loc)"
    using ext2.del_map [OF dir_ex_good dir_ex_fits [of "(0, 0)"], of dotdot] by (auto simp: dir_ex_listing)
  have "i_size dir_ex \<le> 512 * 2" by (simp add: dir_ex_def)
  from delete_then_lookup [OF dir_ex_good this f, of 7] f show ?thesis by auto
qed

text \<open>Adding a name and deleting it again leaves a directory with exactly the entries of before.\<close>

theorem add_delete_restores:
  assumes "good_dir sb dir" and "env_fits sb (b, now, mode) dir" and "entry_valid sb name ino"
    and "map_of (listing dir) name = None"
  shows "\<exists>dir1 dir2 loc. ext2_add_link (\<lambda>_. None) (Inr b) None now sb dir name ino mode = Some (dir1, None) \<and>
    ext2_find_entry (\<lambda>_. None) sb dir1 name = (dir2, Some loc) \<and>
    (\<forall>b' now'. i_size dir1 \<le> 512 * b' \<longrightarrow>
      (\<exists>dir3. ext2_delete_entry (Inr b') None now' sb dir2 loc = Some (dir3, None) \<and> good_dir sb dir3 \<and>
         mset (listing dir3) = mset (listing dir)))"
proof -
  have n: "name \<notin> fst ` set (listing dir)" using assms(4) by (simp add: map_of_eq_None_iff)
  from good_add [OF assms(1-3) n, of now mode] obtain dir1 where
    a: "ext2_add_link (\<lambda>_. None) (Inr b) None now sb dir name ino mode = Some (dir1, None)" "good_dir sb dir1"
    "mset (listing dir1) = add_mset (name, ino) (mset (listing dir))" by blast
  have d1: "distinct (map fst (listing dir1))" using a(2) by (simp add: good_dir_def)
  have m: "map_of (listing dir1) name = Some ino" using ext2.map_of_mset(1) [OF a(3) d1] by simp
  obtain dir2 n off where f: "ext2_find_entry (\<lambda>_. None) sb dir1 name = (dir2, Some (n, off))" "de_inode (dpages dir2 n off) = ino"
    using ext2.lookup_map [OF a(2), of name] m by (cases "ext2_find_entry (\<lambda>_. None) sb dir1 name") auto
  from good_find [OF a(2) f(1)] have g: "good_dir sb dir2" "same_dir dir1 dir2" "at_loc dir2 name (n, off)" by auto
  note s = same_dirD [OF g(2)]
  have "\<exists>dir3. ext2_delete_entry (Inr b') None now' sb dir2 (n, off) = Some (dir3, None) \<and> good_dir sb dir3 \<and>
         mset (listing dir3) = mset (listing dir)" if "i_size dir1 \<le> 512 * b'" for b' now'
    using good_delete [OF g(1,3), of b' now'] that a(3) f(2) s by auto
  with a(1) f(1) show ?thesis by blast
qed

theorem add_delete_restores_witness:
  "\<exists>dir1 dir2 loc. ext2_add_link (\<lambda>_. None) (Inr 4) None 7 sb_ex dir_ex [0x61] 12 0x81A4 = Some (dir1, None) \<and>
    ext2_find_entry (\<lambda>_. None) sb_ex dir1 [0x61] = (dir2, Some loc) \<and>
    (\<exists>dir3. ext2_delete_entry (Inr (i_size dir1)) None 8 sb_ex dir2 loc = Some (dir3, None) \<and>
       mset (listing dir3) = {#(dot, 2), (dotdot, 2)#})"
proof -
  have v: "entry_valid sb_ex [0x61] 12" "map_of (listing dir_ex) [0x61] = None" by (simp_all add: entry_valid_def dir_ex_listing)
  from add_delete_restores [OF dir_ex_good dir_ex_fits v, of 7 "0x81A4"] obtain dir1 dir2 loc where
    r: "ext2_add_link (\<lambda>_. None) (Inr 4) None 7 sb_ex dir_ex [0x61] 12 0x81A4 = Some (dir1, None)"
    "ext2_find_entry (\<lambda>_. None) sb_ex dir1 [0x61] = (dir2, Some loc)"
    "\<And>b' now'. i_size dir1 \<le> 512 * b' \<Longrightarrow> \<exists>dir3. ext2_delete_entry (Inr b') None now' sb_ex dir2 loc = Some (dir3, None) \<and>
      good_dir sb_ex dir3 \<and> mset (listing dir3) = mset (listing dir_ex)" by blast
  from r(3) [of "i_size dir1" 8] r(1,2) show ?thesis by (cases loc) (auto simp: dir_ex_listing)
qed

text \<open>C13: Reading a directory from its beginning, with a buffer that takes every entry, hands over
  exactly its live entries in the order of the pages, ends at the size of the directory and
  records the version of the directory.\<close>

theorem readdir_lists_all:
  assumes "dir_ok sb dir" and "0 < i_size dir"
  shows "\<exists>dir'. ext2_readdir (\<lambda>_. None) sb append_dir dir 0 v [] = (dir', i_size dir, i_version dir, listing dir, None) \<and>
    same_dir dir dir'"
  using readdir_ok [OF assms] .

theorem readdir_lists_all_witness:
  "\<exists>dir'. ext2_readdir (\<lambda>_. None) sb_ex append_dir dir_ex 0 0 [] = (dir', 1024, 1, [(dot, 2), (dotdot, 2)], None)"
  using readdir_lists_all [of sb_ex dir_ex 0] dir_ex_good
  by (auto simp: dir_ex_listing good_dir_def)

text \<open>A directory that \<open>ext2_make_empty\<close> has built is well formed, has the two entries for itself
  and its parent, and \<open>ext2_empty_dir\<close> takes it for empty; after one more name is added it does not.\<close>

theorem fresh_directory_is_empty:
  assumes "s_blocksize sb \<in> {1024, 2048, 4096}" and "i_size dir = 0" "\<forall>n. \<not> p_error dir n"
    and "0 < i_ino dir" "i_ino dir \<le> s_inodes_count sb" "0 < parent" "parent \<le> s_inodes_count sb"
    and "name \<notin> {dot, dotdot}" "entry_valid sb name ino" "2 * s_blocksize sb \<le> 512 * b"
  shows "\<exists>dir' dir''. ext2_make_empty True (Inr b) None sb dir parent = Some (dir', None) \<and>
    good_dir sb dir' \<and> listing dir' = [(dot, i_ino dir), (dotdot, parent)] \<and> snd (ext2_empty_dir (\<lambda>_. None) sb dir') \<and>
    ext2_add_link (\<lambda>_. None) (Inr b) None now sb dir' name ino mode = Some (dir'', None) \<and>
    \<not> snd (ext2_empty_dir (\<lambda>_. None) sb dir'')"
proof -
  from make_empty_ok [OF assms(1,2) _ assms(4-7), of b] assms(3) obtain dir' where
    m: "ext2_make_empty True (Inr b) None sb dir parent = Some (dir', None)" "dir_ok sb dir'" "i_size dir' = s_blocksize sb"
    "i_ino dir' = i_ino dir" "listing dir' = [(dot, i_ino dir), (dotdot, parent)]" "i_blocks dir' = b" by (auto simp: same_meta_def)
  have g: "good_dir sb dir'" using m assms(10) by (simp add: good_dir_def)
  have f: "env_fits sb (b, now, mode) dir'" using m(3) assms(1,10) by (auto simp: env_fits_def)
  have n: "name \<notin> fst ` set (listing dir')" using m(5) assms(8) by simp
  from good_add [OF g f assms(9) n, of now mode] obtain dir'' where
    a: "ext2_add_link (\<lambda>_. None) (Inr b) None now sb dir' name ino mode = Some (dir'', None)" "good_dir sb dir''"
    "mset (listing dir'') = add_mset (name, ino) (mset (listing dir'))" by blast
  have "(name, ino) \<in> set (listing dir'')" using a(3) by (metis set_mset_mset union_single_eq_member)
  then have "\<not> snd (ext2_empty_dir (\<lambda>_. None) sb dir'')"
    using empty_dir_ok [of sb dir''] a(2) assms(8) by (auto simp: good_dir_def)
  moreover have "snd (ext2_empty_dir (\<lambda>_. None) sb dir')" using empty_dir_ok [OF m(2)] m(4,5) by simp
  ultimately show ?thesis using m g a(1) by blast
qed

theorem fresh_directory_is_empty_witness:
  "\<exists>dir'. ext2_make_empty True (Inr 4) None sb_ex (dir_ex\<lparr>i_size := 0\<rparr>) 2 = Some (dir', None) \<and> good_dir sb_ex dir' \<and>
    listing dir' = [(dot, 2), (dotdot, 2)] \<and> snd (ext2_empty_dir (\<lambda>_. None) sb_ex dir')"
  using fresh_directory_is_empty [of sb_ex "dir_ex\<lparr>i_size := 0\<rparr>" 2 "[0x61]" 12 4 7 "0x81A4"]
  by (auto simp: entry_valid_def)

text \<open>Record lengths survive the conversion to 16 bits on disk and back, up to 65536 bytes,
  except 65535, which reads back as 65536; longer ones stop the kernel.\<close>

theorem rec_len_disk_roundtrip:
  "map_option ext2_rec_len_from_disk (ext2_rec_len_to_disk len) =
     (if len > 65536 then None else if len = 65535 then Some 65536 else Some len)"
proof -
  consider "len > 65536" | "len = 65535" | "len \<le> 2 ^ 16" "len \<noteq> 2 ^ 16 - 1" by fastforce
  then show ?thesis
  proof cases
    case 3
    then show ?thesis using rec_len_roundtrip [of len] by auto
  qed (simp_all add: ext2_rec_len_to_disk_def ext2_rec_len_from_disk_def)
qed

end
