(* ===== verification/Ext2_Ialloc_Facts.thy ===== *)
theory Ext2_Ialloc_Facts
  imports Ext2_Ialloc
begin

text \<open>
  Correctness of the inode allocator of theory \<open>Ext2_Ialloc\<close>: the descriptors count the free bits of
  the bitmaps, allocation finds a free inode whenever there is one and takes exactly that one, and
  freeing gives it back.
\<close>

section \<open>The invariant\<close>

definition free_bits :: "ext2_sb_info \<Rightarrow> nat \<Rightarrow> nat" where
  "free_bits sbi g = length (filter (\<lambda>i. \<not> s_ibitmap sbi g i) [0..<s_inodes_per_group sbi])"

definition used :: "ext2_sb_info \<Rightarrow> nat \<Rightarrow> bool" where
  "used sbi ino \<longleftrightarrow> s_ibitmap sbi ((ino - 1) div s_inodes_per_group sbi) ((ino - 1) mod s_inodes_per_group sbi)"

definition ialloc_ok :: "ext2_sb_info \<Rightarrow> bool" where
  "ialloc_ok sbi \<longleftrightarrow> 0 < s_groups_count sbi \<and> 0 < s_inodes_per_group sbi \<and> s_inodes_per_group sbi < 2 ^ 16 \<and>
     s_max_ino sbi = s_groups_count sbi * s_inodes_per_group sbi \<and>
     (\<forall>ino. 0 < ino \<longrightarrow> ino < s_first_ino sbi \<longrightarrow> used sbi ino) \<and>
     (\<forall>g < s_groups_count sbi. s_group_desc_loaded sbi (drop_bit (s_desc_per_block_bits sbi) g) \<and>
        unat (bg_free_inodes_count (s_desc sbi g)) = free_bits sbi g)"

lemma ialloc_okD:
  assumes "ialloc_ok sbi"
  shows "0 < s_groups_count sbi" "0 < s_inodes_per_group sbi" "s_max_ino sbi = s_groups_count sbi * s_inodes_per_group sbi"
    "\<lbrakk>0 < ino; ino < s_first_ino sbi\<rbrakk> \<Longrightarrow> used sbi ino"
    "g < s_groups_count sbi \<Longrightarrow> ext2_get_group_desc sbi g = Some (s_desc sbi g)"
    "g < s_groups_count sbi \<Longrightarrow> unat (bg_free_inodes_count (s_desc sbi g)) = free_bits sbi g"
  using assms by (auto simp: ialloc_ok_def ext2_get_group_desc_def)

text \<open>A group whose descriptor shows a free inode.\<close>

definition has_free :: "ext2_sb_info \<Rightarrow> nat \<Rightarrow> bool" where
  "has_free sbi g \<longleftrightarrow> g < s_groups_count sbi \<and> 0 < free_bits sbi g"

lemma free_desc_iff:
  assumes "ialloc_ok sbi"
  shows "free_desc sbi g = (if has_free sbi g then Some (s_desc sbi g) else None)"
proof (cases "g < s_groups_count sbi")
  case True
  have "bg_free_inodes_count (s_desc sbi g) = 0 \<longleftrightarrow> free_bits sbi g = 0"
    using ialloc_okD(6) [OF assms True] by (metis unat_eq_zero)
  then show ?thesis using True ialloc_okD(5) [OF assms True] by (simp add: free_desc_def has_free_def)
next
  case False
  then show ?thesis by (simp add: free_desc_def has_free_def ext2_get_group_desc_def)
qed

lemma count_free:
  assumes "ialloc_ok sbi"
  shows "ext2_count_free_inodes sbi = (\<Sum>g < s_groups_count sbi. free_bits sbi g)"
proof -
  have "foldl (\<lambda>c i. case ext2_get_group_desc sbi i of None \<Rightarrow> c | Some d \<Rightarrow> c + unat (bg_free_inodes_count d)) a [0..<n] =
      a + (\<Sum>g < n. free_bits sbi g)" if "n \<le> s_groups_count sbi" for a n
    using that by (induction n) (auto simp: ialloc_okD(5,6) [OF assms])
  from this [of "s_groups_count sbi" 0] show ?thesis by (simp add: ext2_count_free_inodes_def)
qed

lemma some_free:
  assumes "ialloc_ok sbi" and "0 < ext2_count_free_inodes sbi"
  obtains g where "has_free sbi g" "ext2_count_free_inodes sbi div s_groups_count sbi \<le> free_bits sbi g"
proof -
  let ?n = "s_groups_count sbi" and ?t = "ext2_count_free_inodes sbi"
  have n: "0 < ?n" using ialloc_okD(1) [OF assms(1)] .
  note goal = that
  show thesis
  proof (rule ccontr)
    assume nt: "\<not> thesis"
    have none: "free_bits sbi g = 0 \<or> free_bits sbi g < ?t div ?n" if "g < ?n" for g
    proof (rule ccontr)
      assume "\<not> ?thesis"
      then have "has_free sbi g" "?t div ?n \<le> free_bits sbi g" using that by (auto simp: has_free_def)
      with goal nt show False by blast
    qed
    show False
    proof (cases "?t div ?n = 0")
      case True
      then have "\<forall>g < ?n. free_bits sbi g = 0" using none by force
      then show False using count_free [OF assms(1)] assms(2) by simp
    next
      case False
      then have "\<forall>g < ?n. free_bits sbi g < ?t div ?n" using none by force
      then have "(\<Sum>g < ?n. free_bits sbi g) < (\<Sum>g < ?n. ?t div ?n)" using n by (intro sum_strict_mono) auto
      also have "\<dots> \<le> ?t" by simp
      finally show False using count_free [OF assms(1)] by simp
    qed
  qed
qed

section \<open>Choosing a group\<close>

lemma mod_reach: "g < n \<Longrightarrow> (s + (g + (n - s mod n)) mod n) mod n = g" for s :: nat
proof -
  assume g: "g < n"
  then have "s mod n + (g + (n - s mod n)) = g + n" using mod_less_divisor [of n s] by linarith
  then have "(s mod n + (g + (n - s mod n))) mod n = g" using g by simp
  then show ?thesis by (metis mod_add_left_eq mod_add_right_eq)
qed

lemma set_rotated: "0 < n \<Longrightarrow> set (rotated n start) = {..<n}"
proof -
  assume n: "0 < n"
  have "\<exists>i < n. (start + i) mod n = g" if g: "g < n" for g
  proof -
    let ?i = "(g + (n - start mod n)) mod n"
    have "(start + ?i) mod n = g" using mod_reach [OF g] .
    then show ?thesis using n by (intro exI [of _ ?i]) simp
  qed
  then show ?thesis using n by (force simp: rotated_def image_iff)
qed

lemma dir_scan_Some:
  assumes "ialloc_ok sbi"
  shows "(\<And>b. best = Some b \<Longrightarrow> has_free sbi (fst b)) \<Longrightarrow> dir_scan sbi av gs best = Some r \<Longrightarrow> has_free sbi (fst r)"
    "dir_scan sbi av gs best = None \<Longrightarrow> best = None \<and> (\<forall>g \<in> set gs. has_free sbi g \<longrightarrow> int (free_bits sbi g) < av)"
proof (induction gs arbitrary: best)
  case (Cons g gs)
  { case 1
    have "dir_scan sbi av (g # gs) best = dir_scan sbi av gs best \<or>
        has_free sbi g \<and> dir_scan sbi av (g # gs) best = dir_scan sbi av gs (Some (g, s_desc sbi g))"
      by (simp add: free_desc_iff [OF assms])
    then show ?case using Cons.IH(1) [of best] Cons.IH(1) [of "Some (g, s_desc sbi g)"] 1 by (elim disjE) auto }
  { case 2
    have "uint (bg_free_inodes_count (s_desc sbi g)) = int (free_bits sbi g)" if "g < s_groups_count sbi"
      using ialloc_okD(6) [OF assms that] by (metis uint_nat)
    then have "dir_scan sbi av (g # gs) best = dir_scan sbi av gs best \<and>
        (has_free sbi g \<longrightarrow> int (free_bits sbi g) < av \<or> best \<noteq> None) \<or>
        dir_scan sbi av (g # gs) best = dir_scan sbi av gs (Some (g, s_desc sbi g))"
      by (auto simp: free_desc_iff [OF assms] has_free_def split: option.split)
    then show ?case using 2 Cons.IH(2) [of best] Cons.IH(2) [of "Some (g, s_desc sbi g)"] by (elim disjE) auto }
qed auto

lemma top_scan_Some:
  assumes "ialloc_ok sbi"
  shows "(\<And>g. best = Some g \<Longrightarrow> has_free sbi g) \<Longrightarrow> top_scan sbi av avb gs nd best = Some r \<Longrightarrow> has_free sbi r"
  by (induction gs arbitrary: best nd) (auto simp: free_desc_iff [OF assms] split: if_splits)

lemma fallback_Some:
  assumes "ialloc_ok sbi"
  shows "fallback_scan sbi av gs = Some g \<Longrightarrow> has_free sbi g"
    "\<exists>g \<in> set gs. has_free sbi g \<Longrightarrow> fallback_scan sbi 0 gs \<noteq> None"
  by (auto simp: fallback_scan_def find_Some_iff find_None_iff free_desc_iff [OF assms] split: if_splits option.splits)

lemma orlov_fallback_Some:
  assumes "ialloc_ok sbi" and "\<exists>g \<in> set gs. has_free sbi g"
  obtains g where "orlov_fallback sbi av gs = Some g" "has_free sbi g"
proof -
  have "\<exists>g. orlov_fallback sbi av gs = Some g"
    using fallback_Some(2) [OF assms] by (auto simp: orlov_fallback_def split: option.splits)
  then obtain g where g: "orlov_fallback sbi av gs = Some g" by blast
  then have "has_free sbi g"
    using fallback_Some(1) [OF assms(1)] by (auto simp: orlov_fallback_def split: option.splits if_splits)
  with g show thesis using that by blast
qed

lemma orlov_fits_free:
  assumes "ialloc_ok sbi" and "List.find (orlov_fits sbi md mdir mi mb) gs = Some g"
  shows "has_free sbi g"
  using assms(2) by (auto simp: find_Some_iff orlov_fits_def free_desc_iff [OF assms(1)] split: if_splits option.splits)

lemma hash_scan_Some: "ialloc_ok sbi \<Longrightarrow> hash_scan sbi i g = Some r \<Longrightarrow> has_free sbi r"
proof (induction sbi i g rule: hash_scan.induct)
  case (1 sbi i g)
  from 1(3) show ?case
    by (subst (asm) hash_scan.simps)
      (auto simp: Let_def inode_and_block_def free_desc_iff [OF 1(2)] intro: 1(1,2) split: if_splits)
qed

lemma linear_scan_Some:
  assumes "ialloc_ok sbi"
  shows "linear_scan sbi n g = Some r \<Longrightarrow> has_free sbi r"
    "linear_scan sbi n g = None \<Longrightarrow> g < s_groups_count sbi \<Longrightarrow> i < n \<Longrightarrow> \<not> has_free sbi ((g + 1 + i) mod s_groups_count sbi)"
proof (induction n arbitrary: g i)
  case (Suc n)
  let ?N = "s_groups_count sbi"
  { case 1
    then show ?case using Suc.IH(1) by (auto simp: Let_def free_desc_iff [OF assms] split: if_splits) }
  { case 2
    let ?g = "if g + 1 \<ge> ?N then 0 else g + 1"
    have g: "?g = (g + 1) mod ?N" "?g < ?N"
    proof -
      show "?g = (g + 1) mod ?N"
      proof (cases "g + 1 = ?N")
        case True
        show ?thesis unfolding True by simp
      next
        case False
        then show ?thesis using 2(2) by simp
      qed
    qed (use 2(2) in simp)
    from 2(1) have n: "\<not> has_free sbi ?g" "linear_scan sbi n ?g = None"
      by (auto simp: Let_def free_desc_iff [OF assms] split: if_splits)
    show ?case
    proof (cases i)
      case 0
      then show ?thesis using n(1) g(1) by simp
    next
      case (Suc j)
      then have "\<not> has_free sbi ((?g + 1 + j) mod ?N)" using Suc.IH(2) [OF n(2) g(2), of j] 2(3) by simp
      moreover have "(?g + 1 + j) mod ?N = (g + 1 + i) mod ?N"
        unfolding g(1) Suc by (metis add.assoc add_Suc_right mod_add_left_eq plus_1_eq_Suc)
      ultimately show ?thesis by simp
    qed }
qed auto

lemma find_group_other_Some:
  assumes ok: "ialloc_ok sbi" and pg: "i_block_group parent < s_groups_count sbi" and ex: "has_free sbi g"
  obtains r where "find_group_other sbi parent = Some r" "has_free sbi r"
proof -
  let ?N = "s_groups_count sbi" and ?p = "i_block_group parent"
  have "linear_scan sbi ?N ?p \<noteq> None"
  proof
    assume l: "linear_scan sbi ?N ?p = None"
    have "g < ?N" using ex by (simp add: has_free_def)
    let ?i = "(g + (?N - (?p + 1) mod ?N)) mod ?N"
    have "(?p + 1 + ?i) mod ?N = g" using mod_reach [OF \<open>g < ?N\<close>] .
    moreover have "?i < ?N" using \<open>g < ?N\<close> by simp
    ultimately show False using linear_scan_Some(2) [OF ok l pg, of ?i] ex by simp
  qed
  then have "find_group_other sbi parent \<noteq> None"
    by (simp add: find_group_other_def Let_def split: option.split)
  then obtain r where r: "find_group_other sbi parent = Some r" by blast
  then have "has_free sbi r"
    using hash_scan_Some [OF ok] linear_scan_Some(1) [OF ok]
    by (auto simp: find_group_other_def Let_def inode_and_block_def free_desc_iff [OF ok] split: if_splits option.splits)
  with r show thesis using that by blast
qed

lemma find_group_Some:
  assumes ok: "ialloc_ok sbi" and pg: "i_block_group dir < s_groups_count sbi" and free: "0 < ext2_count_free_inodes sbi"
  obtains g where "find_group e sbi dir mode = Some g" "has_free sbi g"
proof -
  let ?N = "s_groups_count sbi"
  from some_free [OF ok free] obtain g0 where g0: "has_free sbi g0" "ext2_count_free_inodes sbi div ?N \<le> free_bits sbi g0" .
  have N: "0 < ?N" "g0 < ?N" using ialloc_okD(1) [OF ok] g0(1) by (auto simp: has_free_def)
  have rot: "\<exists>g \<in> set (rotated ?N s). has_free sbi g" for s using set_rotated [OF N(1)] N(2) g0(1) by blast
  have "\<exists>r. find_group_dir sbi dir = Some r \<and> has_free sbi r"
  proof -
    let ?av = "int (ext2_count_free_inodes sbi div ?N)"
    have "dir_scan sbi ?av [0..<?N] None \<noteq> None"
      using dir_scan_Some(2) [OF ok, of ?av "[0..<?N]" None] g0 N(2) by force
    then show ?thesis using dir_scan_Some(1) [OF ok, of None] by (auto simp: find_group_dir_def Let_def)
  qed
  moreover have "\<exists>r. find_group_orlov e sbi dir = Some r \<and> has_free sbi r"
  proof (cases "i_ino dir = s_root_ino sbi \<or> and (i_flags dir) EXT2_TOPDIR_FL \<noteq> 0")
    case True
    let ?gs = "rotated ?N (unat (ni_rnd e) mod ?N)"
    from orlov_fallback_Some [OF ok rot] obtain r where
      "orlov_fallback sbi (ni_freei e div int ?N) ?gs = Some r" "has_free sbi r" .
    then show ?thesis using True top_scan_Some [OF ok, of None]
      by (auto simp: find_group_orlov_def Let_def split: option.splits)
  next
    case False
    let ?gs = "rotated ?N (i_block_group dir)"
    from orlov_fallback_Some [OF ok rot] obtain r where
      "orlov_fallback sbi (ni_freei e div int ?N) ?gs = Some r" "has_free sbi r" .
    then show ?thesis using False orlov_fits_free [OF ok]
      by (auto simp: find_group_orlov_def Let_def split: option.splits)
  qed
  moreover from find_group_other_Some [OF ok pg g0(1)] obtain r where
    "find_group_other sbi dir = Some r" "has_free sbi r" .
  ultimately have "\<exists>g. find_group e sbi dir mode = Some g \<and> has_free sbi g" by (simp add: find_group_def)
  then show thesis using that by blast
qed

section \<open>Taking and giving back a bit\<close>

lemma free_bits_card: "free_bits sbi g = card {i. i < s_inodes_per_group sbi \<and> \<not> s_ibitmap sbi g i}"
proof -
  have "{i. i < n \<and> \<not> b ([0..<n] ! i)} = {i. i < n \<and> \<not> b i}" for n and b :: "nat \<Rightarrow> bool" by auto
  then show ?thesis by (simp add: free_bits_def length_filter_conv_card)
qed

definition put_bit :: "ext2_sb_info \<Rightarrow> nat \<Rightarrow> nat \<Rightarrow> bool \<Rightarrow> ext2_sb_info" where
  "put_bit sbi g z v = sbi\<lparr>s_ibitmap := (s_ibitmap sbi)(g := (s_ibitmap sbi g)(z := v))\<rparr>"

lemma free_bits_set:
  assumes "z < s_inodes_per_group sbi"
  shows "free_bits (put_bit sbi g z v) g' =
    (if g' \<noteq> g \<or> s_ibitmap sbi g z = v then free_bits sbi g' else if v then free_bits sbi g - 1 else free_bits sbi g + 1)"
proof -
  define S where "S = {i. i < s_inodes_per_group sbi \<and> \<not> s_ibitmap sbi g i}"
  define T where "T = {i. i < s_inodes_per_group sbi \<and> \<not> ((s_ibitmap sbi g)(z := v)) i}"
  have fin: "finite S" by (simp add: S_def)
  have z: "z \<in> S \<longleftrightarrow> \<not> s_ibitmap sbi g z" using assms by (simp add: S_def)
  have "T = (if v then S - {z} else insert z S)" using assms by (auto simp: S_def T_def)
  then have "card T = (if s_ibitmap sbi g z = v then card S else if v then card S - 1 else card S + 1)"
    using z fin by (auto simp: card_Diff_singleton_if insert_absorb)
  moreover have "free_bits (put_bit sbi g z v) g' = (if g' = g then card T else free_bits sbi g')"
    unfolding free_bits_card put_bit_def T_def by simp
  moreover have "card S = free_bits sbi g" by (simp add: free_bits_card S_def)
  ultimately show ?thesis by simp
qed

text \<open>The position of an inode in its bitmap.\<close>

lemma ino_split:
  fixes n :: nat
  assumes "z < n"
  shows "(z + g * n + 1 - 1) div n = g" "(z + g * n + 1 - 1) mod n = z"
  using assms by simp_all

lemma used_set:
  assumes "z < s_inodes_per_group sbi" "0 < ino"
  shows "used (put_bit sbi g z v) ino = (if ino = z + g * s_inodes_per_group sbi + 1 then v else used sbi ino)"
proof -
  let ?n = "s_inodes_per_group sbi"
  have "(ino - 1) div ?n = g \<and> (ino - 1) mod ?n = z \<longleftrightarrow> ino = z + g * ?n + 1"
    using ino_split [OF assms(1), of g] assms(2) div_mult_mod_eq [of "ino - 1" ?n] by auto
  then show ?thesis by (auto simp: used_def put_bit_def)
qed

lemma unat_dec: "w \<noteq> 0 \<Longrightarrow> unat (w - 1) = unat w - 1" for w :: "16 word"
  by (simp add: unat_minus_one)

lemma unat_inc: "unat w + 1 < 2 ^ 16 \<Longrightarrow> unat (w + 1) = unat w + 1" for w :: "16 word"
  by (simp add: unat_word_ariths)

lemma claim_free:
  assumes "\<And>z. \<not> lost z" and "\<exists>z < n. \<not> bm z"
  obtains z where "claim_bit lost n bm 0 = (bm(z := True), Some z)" "z < n" "\<not> bm z"
proof -
  have "List.find (\<lambda>i. \<not> bm i) [0..<n] \<noteq> None" using assms(2) by (auto simp: find_None_iff)
  then obtain z where z: "List.find (\<lambda>i. \<not> bm i) [0..<n] = Some z" by blast
  then have "z < n" "\<not> bm z" by (auto simp: find_Some_iff)
  moreover have "claim_bit lost n bm 0 = (bm(z := True), Some z)" using z assms(1) by (subst claim_bit.simps) simp
  ultimately show thesis using that by blast
qed

text \<open>Nothing goes wrong besides a lack of inodes.\<close>

definition benign :: "ni_env \<Rightarrow> bool" where
  "benign e \<longleftrightarrow> ni_mem e \<and> (\<forall>g. ni_rd e g) \<and> (\<forall>g z. \<not> ni_lost e g z) \<and> ni_locked e \<and> ni_dq e \<and>
     ni_acl e = None \<and> ni_sec e = None"

lemma account_fields [simp]:
  "s_ibitmap (account_inode sbi g d) = s_ibitmap sbi" "s_inodes_per_group (account_inode sbi g d) = s_inodes_per_group sbi"
  "s_groups_count (account_inode sbi g d) = s_groups_count sbi" "s_max_ino (account_inode sbi g d) = s_max_ino sbi"
  "s_first_ino (account_inode sbi g d) = s_first_ino sbi"
  "s_group_desc_loaded (account_inode sbi g d) = s_group_desc_loaded sbi"
  "s_desc_per_block_bits (account_inode sbi g d) = s_desc_per_block_bits sbi"
  "bg_free_inodes_count (s_desc (account_inode sbi g d) g') =
     (if g' = g then bg_free_inodes_count (s_desc sbi g) - 1 else bg_free_inodes_count (s_desc sbi g'))"
  by (simp_all add: account_inode_def Let_def)

lemma put_bit_fields [simp]:
  "s_desc (put_bit sbi g z v) = s_desc sbi" "s_inodes_per_group (put_bit sbi g z v) = s_inodes_per_group sbi"
  "s_groups_count (put_bit sbi g z v) = s_groups_count sbi" "s_max_ino (put_bit sbi g z v) = s_max_ino sbi"
  "s_first_ino (put_bit sbi g z v) = s_first_ino sbi" "s_group_desc_loaded (put_bit sbi g z v) = s_group_desc_loaded sbi"
  "s_desc_per_block_bits (put_bit sbi g z v) = s_desc_per_block_bits sbi"
  by (simp_all add: put_bit_def)

lemma init_inode_fields [simp]:
  "i_ino (init_inode e sbi dir g ino mode) = ino" "i_size (init_inode e sbi dir g ino mode) = 0"
  "i_nlink (init_inode e sbi dir g ino mode) = 1" "\<not> p_error (init_inode e sbi dir g ino mode) n"
  "i_block_group (init_inode e sbi dir g ino mode) = g"
  "S_ISDIR (i_mode (init_inode e sbi dir g ino mode)) = S_ISDIR mode"
proof -
  have "and (or mode S_ISGID) S_IFMT = and mode S_IFMT"
    by (simp add: bit.conj_disj_distrib2)
  then show "S_ISDIR (i_mode (init_inode e sbi dir g ino mode)) = S_ISDIR mode"
    by (simp add: init_inode_def ext2_set_inode_flags_def Let_def S_ISDIR_def)
qed (simp_all add: init_inode_def ext2_set_inode_flags_def Let_def)

section \<open>Allocation and deallocation\<close>

lemma new_inode_ok:
  assumes ok: "ialloc_ok sbi" and pg: "i_block_group dir < s_groups_count sbi" and e: "benign e"
    and free: "0 < ext2_count_free_inodes sbi"
  obtains g z inode sbi' where "ext2_new_inode e sbi dir mode = (sbi', New inode)"
    "sbi' = account_inode (put_bit sbi g z True) g (S_ISDIR mode)\<lparr>s_next_generation := s_next_generation sbi + 1\<rparr>"
    "has_free sbi g" "z < s_inodes_per_group sbi" "\<not> s_ibitmap sbi g z" "i_ino inode = z + g * s_inodes_per_group sbi + 1"
    "S_ISDIR (i_mode inode) = S_ISDIR mode" "s_first_ino sbi \<le> i_ino inode" "i_ino inode \<le> s_max_ino sbi"
    "i_size inode = 0" "i_nlink inode = 1" "\<And>n. \<not> p_error inode n" "i_block_group inode = g"
proof -
  let ?n = "s_inodes_per_group sbi"
  from find_group_Some [OF ok pg free] obtain g where g: "find_group e sbi dir mode = Some g" "has_free sbi g" .
  then have gN: "g < s_groups_count sbi" by (simp add: has_free_def)
  have "\<exists>z < ?n. \<not> s_ibitmap sbi g z"
  proof (rule ccontr)
    assume "\<not> ?thesis"
    then have "free_bits sbi g = 0" by (auto simp: free_bits_card)
    then show False using g(2) by (simp add: has_free_def)
  qed
  moreover have "\<not> ni_lost e g z" for z using e by (simp add: benign_def)
  ultimately obtain z where z: "claim_bit (ni_lost e g) ?n (s_ibitmap sbi g) 0 = ((s_ibitmap sbi g)(z := True), Some z)"
    "z < ?n" "\<not> s_ibitmap sbi g z" using claim_free [of "ni_lost e g" ?n "s_ibitmap sbi g"] by blast
  have "read_inode_bitmap (ni_rd e) sbi g = Some (s_ibitmap sbi g)"
    using e ialloc_okD(5) [OF ok gN] by (simp add: read_inode_bitmap_def benign_def)
  then have "alloc_loop e (Suc n) sbi g = (put_bit sbi g z True, Inr (g, z))" for n
    using z(1) by (simp add: put_bit_def)
  from this [of "s_groups_count sbi - 1"]
  have al: "alloc_loop e (s_groups_count sbi) sbi g = (put_bit sbi g z True, Inr (g, z))" using gN by simp
  let ?ino = "z + g * ?n + 1"
  have "\<not> used sbi ?ino" using z(2,3) by (simp add: used_def)
  then have lo: "\<not> ?ino < s_first_ino sbi" using ialloc_okD(4) [OF ok, of ?ino] by auto
  have "(g + 1) * ?n \<le> s_groups_count sbi * ?n" using gN by (intro mult_le_mono1) simp
  then have hi: "\<not> s_max_ino sbi < ?ino" using z(2) ialloc_okD(3) [OF ok] by simp
  let ?s = "account_inode (put_bit sbi g z True) g (S_ISDIR mode)"
  have "ext2_new_inode e sbi dir mode =
      (?s\<lparr>s_next_generation := s_next_generation ?s + 1\<rparr>, New (init_inode e ?s dir g ?ino mode))"
    using e g(1) al lo hi by (simp add: ext2_new_inode_def benign_def Let_def)
  moreover have "s_next_generation ?s = s_next_generation sbi" by (simp add: account_inode_def put_bit_def Let_def)
  ultimately show thesis using that [where inode = "init_inode e ?s dir g ?ino mode"] g(2) z(2,3) lo hi by simp
qed

lemma new_inode_keeps:
  fixes d :: bool and n :: "32 word"
  assumes ok: "ialloc_ok sbi" and g: "has_free sbi g" and z: "z < s_inodes_per_group sbi" "\<not> s_ibitmap sbi g z"
  defines "sbi' \<equiv> account_inode (put_bit sbi g z True) g d\<lparr>s_next_generation := n\<rparr>"
  shows "ialloc_ok sbi'" "0 < ino \<Longrightarrow> used sbi' ino = (ino = z + g * s_inodes_per_group sbi + 1 \<or> used sbi ino)"
    "free_bits sbi' g' = (if g' = g then free_bits sbi g - 1 else free_bits sbi g')"
proof -
  have fb: "free_bits sbi' g' = free_bits (put_bit sbi g z True) g'" for g' by (simp add: free_bits_def sbi'_def)
  show f: "free_bits sbi' g' = (if g' = g then free_bits sbi g - 1 else free_bits sbi g')" for g'
    using fb free_bits_set [OF z(1), of g True] z(2) by simp
  have us: "used sbi' ino = used (put_bit sbi g z True) ino" for ino by (simp add: used_def sbi'_def)
  show u: "used sbi' ino = (ino = z + g * s_inodes_per_group sbi + 1 \<or> used sbi ino)" if "0 < ino" for ino
    using us used_set [OF z(1) that, of g True] by auto
  have gN: "g < s_groups_count sbi" "0 < free_bits sbi g" using g by (auto simp: has_free_def)
  have "bg_free_inodes_count (s_desc sbi g) \<noteq> 0" using ialloc_okD(6) [OF ok gN(1)] gN(2) by auto
  then have "unat (bg_free_inodes_count (s_desc sbi g) - 1) = free_bits sbi g - 1"
    using ialloc_okD(6) [OF ok gN(1)] unat_dec by simp
  then show "ialloc_ok sbi'" using ok u f unfolding ialloc_ok_def by (auto simp: sbi'_def)
qed

lemma free_inode_eq:
  assumes ok: "ialloc_ok sbi" and ino: "0 < i_ino inode" "s_first_ino sbi \<le> i_ino inode" "i_ino inode \<le> s_max_ino sbi"
    and us: "used sbi (i_ino inode)" and rd: "\<And>g. rd g"
  defines "g \<equiv> (i_ino inode - 1) div s_inodes_per_group sbi" and "z \<equiv> (i_ino inode - 1) mod s_inodes_per_group sbi"
  shows "ext2_free_inode rd sbi inode = ext2_release_inode (put_bit sbi g z False) g (S_ISDIR (i_mode inode))"
    "g < s_groups_count sbi" "z < s_inodes_per_group sbi" "i_ino inode = z + g * s_inodes_per_group sbi + 1"
proof -
  have n: "0 < s_inodes_per_group sbi" using ialloc_okD(2) [OF ok] .
  then show "z < s_inodes_per_group sbi" by (simp add: z_def)
  have "i_ino inode - 1 < s_groups_count sbi * s_inodes_per_group sbi" using ino ialloc_okD(3) [OF ok] by simp
  then show g: "g < s_groups_count sbi" by (simp add: g_def less_mult_imp_div_less)
  show "i_ino inode = z + g * s_inodes_per_group sbi + 1"
    using div_mult_mod_eq [of "i_ino inode - 1" "s_inodes_per_group sbi"] ino(1) by (simp add: g_def z_def)
  show "ext2_free_inode rd sbi inode = ext2_release_inode (put_bit sbi g z False) g (S_ISDIR (i_mode inode))"
    using ino us ialloc_okD(5) [OF ok g] rd
    by (simp add: ext2_free_inode_def Let_def read_inode_bitmap_def used_def put_bit_def g_def z_def)
qed

lemma free_inode_keeps:
  assumes ok: "ialloc_ok sbi" and ino: "0 < i_ino inode" "s_first_ino sbi \<le> i_ino inode" "i_ino inode \<le> s_max_ino sbi"
    and us: "used sbi (i_ino inode)" and rd: "\<And>g. rd g"
  shows "ialloc_ok (ext2_free_inode rd sbi inode)"
    "0 < m \<Longrightarrow> used (ext2_free_inode rd sbi inode) m = (m \<noteq> i_ino inode \<and> used sbi m)"
proof -
  define g where "g = (i_ino inode - 1) div s_inodes_per_group sbi"
  define z where "z = (i_ino inode - 1) mod s_inodes_per_group sbi"
  note f = free_inode_eq [OF ok ino us rd, folded g_def z_def]
  let ?s = "put_bit sbi g z False" and ?d = "S_ISDIR (i_mode inode)"
  have "ext2_get_group_desc ?s g = Some (s_desc sbi g)"
    using ialloc_okD(5) [OF ok f(2)] by (simp add: ext2_get_group_desc_def split: if_splits)
  then have r: "s_ibitmap (ext2_release_inode ?s g ?d) = s_ibitmap ?s"
      "s_inodes_per_group (ext2_release_inode ?s g ?d) = s_inodes_per_group sbi"
      "s_groups_count (ext2_release_inode ?s g ?d) = s_groups_count sbi" "s_max_ino (ext2_release_inode ?s g ?d) = s_max_ino sbi"
      "s_first_ino (ext2_release_inode ?s g ?d) = s_first_ino sbi"
      "s_group_desc_loaded (ext2_release_inode ?s g ?d) = s_group_desc_loaded sbi"
      "s_desc_per_block_bits (ext2_release_inode ?s g ?d) = s_desc_per_block_bits sbi"
      "bg_free_inodes_count (s_desc (ext2_release_inode ?s g ?d) h) =
        (if h = g then bg_free_inodes_count (s_desc sbi g) + 1 else bg_free_inodes_count (s_desc sbi h))" for h
    by (simp_all add: ext2_release_inode_def Let_def)
  have zb: "s_ibitmap sbi g z" using us by (simp add: used_def g_def z_def)
  have fb: "free_bits (ext2_release_inode ?s g ?d) h = (if h = g then free_bits sbi g + 1 else free_bits sbi h)" for h
    using free_bits_set [OF f(3), of g False h] zb by (simp add: free_bits_def r)
  show u: "used (ext2_free_inode rd sbi inode) m = (m \<noteq> i_ino inode \<and> used sbi m)" if "0 < m" for m
    using used_set [OF f(3) that, of g False] f(1,4) by (simp add: used_def r)
  have "free_bits (ext2_release_inode ?s g ?d) g \<le> s_inodes_per_group sbi"
    using length_filter_le [of _ "[0..<s_inodes_per_group sbi]"] by (simp add: free_bits_def r)
  then have "free_bits sbi g + 1 < 2 ^ 16" using fb ok by (simp add: ialloc_ok_def)
  then have c: "unat (bg_free_inodes_count (s_desc sbi g) + 1) = free_bits sbi g + 1"
    using unat_inc ialloc_okD(6) [OF ok f(2)] by simp
  have "used (ext2_free_inode rd sbi inode) m" if "0 < m" "m < s_first_ino sbi" for m
    using u [OF that(1)] ialloc_okD(4) [OF ok that] that ino(2) by auto
  then show "ialloc_ok (ext2_free_inode rd sbi inode)"
    using ok fb c unfolding ialloc_ok_def f(1) by (auto simp: r)
qed

lemma find_group_free:
  assumes ok: "ialloc_ok sbi" and f: "find_group e sbi dir mode = Some r"
  shows "has_free sbi r"
proof -
  have fb: "has_free sbi r" if "orlov_fallback sbi av gs = Some r" for av gs r
    using that fallback_Some(1) [OF ok] by (auto simp: orlov_fallback_def split: option.splits if_splits)
  have "has_free sbi r" if "find_group_dir sbi dir = Some r"
    using that dir_scan_Some(1) [OF ok, of None] by (auto simp: find_group_dir_def Let_def)
  moreover have "has_free sbi r" if "find_group_orlov e sbi dir = Some r"
    using that fb top_scan_Some [OF ok, of None] orlov_fits_free [OF ok]
    by (auto simp: find_group_orlov_def Let_def split: option.splits if_splits)
  moreover have "has_free sbi r" if "find_group_other sbi dir = Some r"
    using that hash_scan_Some [OF ok] linear_scan_Some(1) [OF ok]
    by (auto simp: find_group_other_def Let_def inode_and_block_def free_desc_iff [OF ok] split: if_splits option.splits)
  ultimately show ?thesis using f by (simp add: find_group_def split: if_splits)
qed

lemma new_inode_full:
  assumes ok: "ialloc_ok sbi" and e: "ni_mem e" and none: "ext2_count_free_inodes sbi = 0"
  shows "ext2_new_inode e sbi dir mode = (sbi, Failed ENOSPC)"
proof -
  have "\<not> has_free sbi g" for g using none count_free [OF ok] by (auto simp: has_free_def)
  then have "find_group e sbi dir mode = None" using find_group_free [OF ok] by (metis not_None_eq)
  then show ?thesis using e by (simp add: ext2_new_inode_def)
qed

section \<open>An example file system\<close>

text \<open>Two groups of 16 inodes; the first 10 inodes are reserved, inode 11 is the only other one in use.\<close>

definition sbi_ex :: ext2_sb_info where
  "sbi_ex = \<lparr>s_groups_count = 2, s_inodes_per_group = 50, s_blocks_per_group = 64, s_first_ino = 11, s_max_ino = 100,
     s_blocks_count = 128, s_root_ino = 2, s_oldalloc = False, s_grpid = False, s_desc_per_block_bits = 5,
     s_group_desc_loaded = (\<lambda>_. True),
     s_desc = (\<lambda>g. if g = 0 then \<lparr>bg_free_inodes_count = 39, bg_free_blocks_count = 20, bg_used_dirs_count = 1\<rparr>
                     else \<lparr>bg_free_inodes_count = 50, bg_free_blocks_count = 40, bg_used_dirs_count = 0\<rparr>),
     s_ibitmap = (\<lambda>g z. g = 0 \<and> z < 11), s_debts = (\<lambda>_. 0), s_freeinodes_counter = 89, s_dirs_counter = 1,
     s_next_generation = 7, s_dirt = False\<rparr>"

definition env_ex :: ni_env where
  "env_ex = \<lparr>ni_mem = True, ni_rd = (\<lambda>_. True), ni_rnd = 12345, ni_freei = 89, ni_freeb = 60, ni_ndirs = 1,
     ni_lost = (\<lambda>_ _. False), ni_locked = True, ni_dq = True, ni_acl = None, ni_sec = None, ni_now = 9, ni_uid = 1000,
     ni_gid = 1000, ni_mask = (\<lambda>_ _. 0)\<rparr>"

lemma env_ex_benign: "benign env_ex"
  by (simp add: benign_def env_ex_def)

lemma sbi_ex_ok: "ialloc_ok sbi_ex"
proof -
  have "free_bits sbi_ex 0 = 39" "free_bits sbi_ex 1 = 50"
    by (simp_all add: free_bits_def sbi_ex_def upt_rec)
  moreover have "g < 2 \<Longrightarrow> g = 0 \<or> g = 1" for g :: nat by auto
  ultimately show ?thesis by (auto simp: ialloc_ok_def used_def sbi_ex_def)
qed

lemma sbi_ex_count: "ext2_count_free_inodes sbi_ex = 89"
  by (simp add: ext2_count_free_inodes_def sbi_ex_def ext2_get_group_desc_def upt_rec)

definition parent_ex :: inode where
  "parent_ex = init_inode env_ex sbi_ex undefined 0 2 0x41ED"

section \<open>Properties\<close>

text \<open>C14: Whatever policy chooses the block group, allocating an inode succeeds exactly when the
  descriptors show a free one. It takes an inode number that was free, in the range the superblock
  allows and not reserved, marks that one and no other as used, and keeps the descriptors in step
  with the bitmaps. With no free inode it fails with \<open>ENOSPC\<close> and changes nothing.\<close>

theorem new_inode_takes_free:
  assumes "ialloc_ok sbi" and "i_block_group dir < s_groups_count sbi" and "benign e"
  shows "if ext2_count_free_inodes sbi = 0 then ext2_new_inode e sbi dir mode = (sbi, Failed ENOSPC)
    else \<exists>sbi' inode. ext2_new_inode e sbi dir mode = (sbi', New inode) \<and> ialloc_ok sbi' \<and>
      \<not> used sbi (i_ino inode) \<and> s_first_ino sbi \<le> i_ino inode \<and> i_ino inode \<le> s_max_ino sbi \<and>
      (\<forall>m > 0. used sbi' m = (m = i_ino inode \<or> used sbi m)) \<and>
      ext2_count_free_inodes sbi' + 1 = ext2_count_free_inodes sbi"
proof (cases "ext2_count_free_inodes sbi = 0")
  case True
  then show ?thesis using new_inode_full [OF assms(1)] assms(3) by (simp add: benign_def)
next
  case False
  then have "0 < ext2_count_free_inodes sbi" by simp
  from new_inode_ok [OF assms this] obtain g z inode sbi' where
    n: "ext2_new_inode e sbi dir mode = (sbi', New inode)"
    "sbi' = account_inode (put_bit sbi g z True) g (S_ISDIR mode)\<lparr>s_next_generation := s_next_generation sbi + 1\<rparr>"
    "has_free sbi g" "z < s_inodes_per_group sbi" "\<not> s_ibitmap sbi g z" "i_ino inode = z + g * s_inodes_per_group sbi + 1"
    "s_first_ino sbi \<le> i_ino inode" "i_ino inode \<le> s_max_ino sbi" by metis
  note k = new_inode_keeps [OF assms(1) n(3-5), where d = "S_ISDIR mode" and n = "s_next_generation sbi + 1", folded n(2)]
  have "\<not> used sbi (i_ino inode)" using n(4-6) by (simp add: used_def)
  moreover have "ext2_count_free_inodes sbi' + 1 = ext2_count_free_inodes sbi"
  proof -
    have g: "g \<in> {..<s_groups_count sbi}" "0 < free_bits sbi g" using n(3) by (auto simp: has_free_def)
    have e: "(\<Sum>h \<in> {..<s_groups_count sbi} - {g}. free_bits sbi' h) = (\<Sum>h \<in> {..<s_groups_count sbi} - {g}. free_bits sbi h)"
      using k(3) by (intro sum.cong) auto
    show ?thesis unfolding count_free [OF k(1)] count_free [OF assms(1)]
      using g e k(3) [of g] n(2) by (simp add: sum.remove [OF _ g(1)])
  qed
  ultimately show ?thesis using n(1,6-8) k(1,2) False by auto
qed

theorem new_inode_takes_free_witness:
  "ialloc_ok sbi_ex \<and> (\<exists>sbi' inode. ext2_new_inode env_ex sbi_ex parent_ex 0x81A4 = (sbi', New inode) \<and>
     \<not> used sbi_ex (i_ino inode) \<and> ext2_count_free_inodes sbi' = 88)"
  using new_inode_takes_free [OF sbi_ex_ok _ env_ex_benign, of parent_ex "0x81A4"] sbi_ex_ok
  by (auto simp: sbi_ex_count parent_ex_def) (auto simp: sbi_ex_def)

text \<open>C15: Giving an inode back right after its allocation restores the bitmaps, all group descriptors
  and the number of directories. It does not restore the counter of free inodes, which only
  allocation changes, so the counter that guides \<open>find_group_orlov\<close> sinks with every inode ever freed.\<close>

theorem free_undoes_new:
  assumes "ialloc_ok sbi" and "ext2_new_inode e sbi dir mode = (sbi', New inode)" and "benign e"
    and "i_block_group dir < s_groups_count sbi"
  shows "ialloc_ok (ext2_free_inode (\<lambda>_. True) sbi' inode) \<and>
    s_ibitmap (ext2_free_inode (\<lambda>_. True) sbi' inode) = s_ibitmap sbi \<and>
    s_desc (ext2_free_inode (\<lambda>_. True) sbi' inode) = s_desc sbi \<and>
    s_dirs_counter (ext2_free_inode (\<lambda>_. True) sbi' inode) = s_dirs_counter sbi \<and>
    s_freeinodes_counter (ext2_free_inode (\<lambda>_. True) sbi' inode) = s_freeinodes_counter sbi - 1"
proof -
  have "0 < ext2_count_free_inodes sbi" 
    using new_inode_full [OF assms(1), of e dir mode] assms(2,3)
    by (cases "ext2_count_free_inodes sbi = 0") (auto simp: benign_def)
  from new_inode_ok [OF assms(1,4,3) this, of mode] obtain g z inode1 sbi1 where
    n1: "ext2_new_inode e sbi dir mode = (sbi1, New inode1)" "sbi1 = account_inode (put_bit sbi g z True) g (S_ISDIR mode)
      \<lparr>s_next_generation := s_next_generation sbi + 1\<rparr>"
    "has_free sbi g" "z < s_inodes_per_group sbi" "\<not> s_ibitmap sbi g z" "i_ino inode1 = z + g * s_inodes_per_group sbi + 1"
    "S_ISDIR (i_mode inode1) = S_ISDIR mode" "s_first_ino sbi \<le> i_ino inode1" "i_ino inode1 \<le> s_max_ino sbi" by metis
  then have n: "sbi' = account_inode (put_bit sbi g z True) g (S_ISDIR mode)\<lparr>s_next_generation := s_next_generation sbi + 1\<rparr>"
    "has_free sbi g" "z < s_inodes_per_group sbi" "\<not> s_ibitmap sbi g z" "i_ino inode = z + g * s_inodes_per_group sbi + 1"
    "S_ISDIR (i_mode inode) = S_ISDIR mode" "s_first_ino sbi \<le> i_ino inode" "i_ino inode \<le> s_max_ino sbi"
    using assms(2) by simp_all
  note k = new_inode_keeps [OF assms(1) n(2-4), where d = "S_ISDIR mode" and n = "s_next_generation sbi + 1", folded n(1)]
  have ino: "0 < i_ino inode" "s_first_ino sbi' \<le> i_ino inode" "i_ino inode \<le> s_max_ino sbi'" using n by simp_all
  have us: "used sbi' (i_ino inode)" using k(2) [OF ino(1)] n(5) by simp
  have gz: "(i_ino inode - 1) div s_inodes_per_group sbi' = g" "(i_ino inode - 1) mod s_inodes_per_group sbi' = z"
    using ino_split [OF n(3), of g] n(1,5) by simp_all
  note f = free_inode_eq [OF k(1) ino us, of "\<lambda>_. True", simplified, unfolded gz [simplified]]
  have ok: "ialloc_ok (ext2_free_inode (\<lambda>_. True) sbi' inode)" using free_inode_keeps(1) [OF k(1) ino us] by simp
  have e: "ext2_free_inode (\<lambda>_. True) sbi' inode = ext2_release_inode (put_bit sbi' g z False) g (S_ISDIR mode)"
    using free_inode_eq(1) [OF k(1) ino us, of "\<lambda>_. True"] gz n(6) by simp
  have gd: "ext2_get_group_desc (put_bit sbi' g z False) g = Some (s_desc sbi' g)"
    using ialloc_okD(5) [OF k(1), of g] n(2) n(1) by (simp add: ext2_get_group_desc_def has_free_def split: if_splits)
  have b: "(s_ibitmap sbi)(g := (s_ibitmap sbi g)(z := True, z := False)) = s_ibitmap sbi"
    using n(4) by (auto simp: fun_eq_iff)
  show ?thesis unfolding e using ok gd e b n(1)
    by (auto simp: ext2_release_inode_def account_inode_def put_bit_def Let_def fun_eq_iff)
qed

theorem free_undoes_new_witness:
  "\<exists>sbi' inode. ext2_new_inode env_ex sbi_ex parent_ex 0x81A4 = (sbi', New inode) \<and>
     s_ibitmap (ext2_free_inode (\<lambda>_. True) sbi' inode) = s_ibitmap sbi_ex \<and>
     s_freeinodes_counter (ext2_free_inode (\<lambda>_. True) sbi' inode) = 88"
proof -
  have pg: "i_block_group parent_ex < s_groups_count sbi_ex" by (simp add: parent_ex_def sbi_ex_def)
  have "0 < ext2_count_free_inodes sbi_ex" by (simp add: sbi_ex_count)
  from new_inode_ok [OF sbi_ex_ok pg env_ex_benign this, of "0x81A4"] obtain sbi' inode where
    n: "ext2_new_inode env_ex sbi_ex parent_ex 0x81A4 = (sbi', New inode)" by metis
  from free_undoes_new [OF sbi_ex_ok n env_ex_benign pg] n show ?thesis by (auto simp: sbi_ex_def)
qed

lemma copy_flag_bit: "a = BIT i \<Longrightarrow> b = BIT j \<Longrightarrow> j < 32 \<Longrightarrow> bit (copy_flag flags a b w) n \<longleftrightarrow> bit w n \<or> n = j \<and> bit flags i"
  using has_BIT [of flags i] by (auto simp: copy_flag_def has_def flag_simps)

lemma flag_bits:
  "EXT2_SYNC_FL = BIT 3" "EXT2_IMMUTABLE_FL = BIT 4" "EXT2_APPEND_FL = BIT 5" "EXT2_NOATIME_FL = BIT 7" "EXT2_DIRSYNC_FL = BIT 16"
  "S_SYNC = BIT 0" "S_NOATIME = BIT 1" "S_APPEND = BIT 2" "S_IMMUTABLE = BIT 3" "S_DIRSYNC = BIT 6"
  by (simp_all add: BIT_def)

lemma vflags_bit:
  "bit (i_vflags (ext2_set_inode_flags inode)) n \<longleftrightarrow>
     (if n = 0 then bit (i_flags inode) 3 else if n = 2 then bit (i_flags inode) 5 else if n = 3 then bit (i_flags inode) 4
      else if n = 1 then bit (i_flags inode) 7 else if n = 6 then bit (i_flags inode) 16 else bit (i_vflags inode) n)"
  unfolding ext2_set_inode_flags_def Let_def flag_bits
  by (auto simp: copy_flag_bit [OF refl refl] bit_and_iff bit_not_iff bit_BIT dest: bit_imp_le_length)

lemma flags_bit:
  "bit (i_flags (ext2_get_inode_flags inode)) n \<longleftrightarrow>
     (if n = 3 then bit (i_vflags inode) 0 else if n = 5 then bit (i_vflags inode) 2 else if n = 4 then bit (i_vflags inode) 3
      else if n = 7 then bit (i_vflags inode) 1 else if n = 16 then bit (i_vflags inode) 6 else bit (i_flags inode) n)"
  unfolding ext2_get_inode_flags_def Let_def flag_bits
  by (auto simp: copy_flag_bit [OF refl refl] bit_and_iff bit_not_iff bit_BIT dest: bit_imp_le_length)

text \<open>Copying the flags of the disk inode to the VFS inode and back changes nothing, and copying them
  back and forth leaves the VFS flags alone; the two functions agree on all five flags.\<close>

theorem inode_flags_roundtrip:
  "ext2_get_inode_flags (ext2_set_inode_flags inode) = ext2_set_inode_flags inode \<and>
   ext2_set_inode_flags (ext2_get_inode_flags inode) = ext2_get_inode_flags inode"
proof -
  have "i_flags (ext2_set_inode_flags inode) = i_flags inode" by (simp add: ext2_set_inode_flags_def Let_def)
  then have "i_flags (ext2_get_inode_flags (ext2_set_inode_flags inode)) = i_flags (ext2_set_inode_flags inode)"
    by (intro bit_word_eqI) (auto simp: flags_bit vflags_bit)
  moreover have "i_vflags (ext2_get_inode_flags inode) = i_vflags inode" by (simp add: ext2_get_inode_flags_def Let_def)
  then have "i_vflags (ext2_set_inode_flags (ext2_get_inode_flags inode)) = i_vflags (ext2_get_inode_flags inode)"
    by (intro bit_word_eqI) (auto simp: flags_bit vflags_bit)
  ultimately show ?thesis by (auto simp: ext2_get_inode_flags_def ext2_set_inode_flags_def Let_def)
qed

end
