(* ===== verification/Ext2_Namei_Facts.thy ===== *)
theory Ext2_Namei_Facts
  imports Ext2_Namei Ext2_Directory Ext2_Ialloc_Facts
begin

text \<open>
  Correctness of the name operations. The invariant of a file system, for a set \<open>D\<close> of directories
  and a set \<open>I\<close> of inodes in use: every directory is in good order and refers to inodes of \<open>I\<close> only,
  the allocator has every inode of \<open>I\<close> marked as used, and the link count of every inode of \<open>I\<close> is
  the number of directory entries that refer to it. Operations change entries and counts one after
  the other; in between, the counts are off by \<open>off i\<close>, and the lemmas of the single steps say how
  they change \<open>off\<close>.
\<close>

section \<open>The invariant\<close>

definition links :: "nat set \<Rightarrow> fs \<Rightarrow> nat \<Rightarrow> nat" where
  "links D fs i = (\<Sum>d \<in> D. count (image_mset snd (mset (listing (inodes fs d)))) i)"

definition fs_off :: "nat set \<Rightarrow> nat set \<Rightarrow> (nat \<Rightarrow> int) \<Rightarrow> fs \<Rightarrow> bool" where
  "fs_off D I off fs \<longleftrightarrow> finite D \<and> D \<subseteq> I \<and> ialloc_ok (fs_sbi fs) \<and> s_inodes_count (fs_sb fs) = s_max_ino (fs_sbi fs) \<and>
     (\<forall>i \<in> I. 0 < i \<and> i \<le> s_max_ino (fs_sbi fs) \<and> used (fs_sbi fs) i \<and> i_ino (inodes fs i) = i \<and>
        i_block_group (inodes fs i) < s_groups_count (fs_sbi fs) \<and>
        int (unat (i_nlink (inodes fs i))) = int (links D fs i) + off i) \<and>
     (\<forall>d \<in> D. good_dir (fs_sb fs) (inodes fs d) \<and> snd ` set (listing (inodes fs d)) \<subseteq> I)"

definition fs_inv :: "nat set \<Rightarrow> nat set \<Rightarrow> fs \<Rightarrow> bool" where
  "fs_inv D I fs \<longleftrightarrow> fs_off D I (\<lambda>_. 0) fs"

text \<open>The part of an inode the directory structure depends on.\<close>

definition dcore :: "inode \<Rightarrow> (nat \<Rightarrow> dpage) \<times> nat \<times> (nat \<Rightarrow> bool) \<times> nat" where
  "dcore d = (dpages d, i_size d, p_error d, i_blocks d)"

lemma dcore_cong:
  assumes "dcore d' = dcore d"
  shows "listing d' = listing d" "good_dir sb d' = good_dir sb d" "at_loc d' = at_loc d" "i_size d' = i_size d"
    "dpages d' = dpages d"
proof -
  have e: "dpages d' = dpages d" "i_size d' = i_size d" "p_error d' = p_error d" "i_blocks d' = i_blocks d"
    using assms by (auto simp: dcore_def)
  note f = dir_ok_fields [OF e(1,2)]
  show l: "listing d' = listing d" "at_loc d' = at_loc d" "i_size d' = i_size d" "dpages d' = dpages d" using f e by auto
  show "good_dir sb d' = good_dir sb d" using f(1) [OF e(3), of sb] l e by (simp add: good_dir_def)
qed

lemma inodes_simps [simp]:
  "inodes (put_inode fs i x) = (inodes fs)(i := x)" "inodes (upd_inode i f fs) = (inodes fs)(i := f (inodes fs i))"
  "fs_sb (put_inode fs i x) = fs_sb fs" "fs_sb (upd_inode i f fs) = fs_sb fs"
  "fs_sbi (put_inode fs i x) = fs_sbi fs" "fs_sbi (upd_inode i f fs) = fs_sbi fs"
  "key (put_inode fs i x) = key fs" "key (upd_inode i f fs) = key fs"
  "icount (put_inode fs i x) = icount fs" "icount (upd_inode i f fs) = icount fs"
  by (simp_all add: put_inode_def upd_inode_def)

lemma nlinks_cong: "(\<And>d. d \<in> D \<Longrightarrow> listing (inodes fs' d) = listing (inodes fs d)) \<Longrightarrow> links D fs' = links D fs"
  by (simp add: links_def fun_eq_iff)

section \<open>Single steps\<close>

text \<open>An update of an inode that keeps its number and, for a directory, its entries; the link count
  may change by \<open>k\<close>.\<close>

lemma off_upd:
  assumes inv: "fs_off D I off fs"
    and f: "dcore (f (inodes fs j)) = dcore (inodes fs j)" "i_ino (f (inodes fs j)) = i_ino (inodes fs j)"
      "i_block_group (f (inodes fs j)) = i_block_group (inodes fs j)"
    and n: "j \<in> I \<Longrightarrow> int (unat (i_nlink (f (inodes fs j)))) = int (unat (i_nlink (inodes fs j))) + k"
  shows "fs_off D I (off(j := off j + k)) (upd_inode j f fs)"
proof -
  note c = dcore_cong [OF f(1)]
  have l: "links D (upd_inode j f fs) = links D fs" using c by (intro nlinks_cong) auto
  show ?thesis using inv f(2,3) n c unfolding fs_off_def l by auto
qed

lemma off_touch:
  assumes "fs_off D I off fs"
    and "dcore (f (inodes fs j)) = dcore (inodes fs j)" "i_ino (f (inodes fs j)) = i_ino (inodes fs j)"
      "i_block_group (f (inodes fs j)) = i_block_group (inodes fs j)" "i_nlink (f (inodes fs j)) = i_nlink (inodes fs j)"
  shows "fs_off D I off (upd_inode j f fs)"
  using off_upd [of D I off fs f j 0, OF assms(1-4)] assms(5) by simp

lemma off_icount: "fs_off D I off (fs\<lparr>icount := c\<rparr>) = fs_off D I off fs"
  by (simp add: fs_off_def links_def)

lemma unat_inc32: "unat w < 2 ^ 32 - 1 \<Longrightarrow> unat (w + 1) = unat w + 1" for w :: "32 word"
  by (simp add: unat_word_ariths)

lemma unat_dec32: "0 < unat w \<Longrightarrow> unat (w - 1) = unat w - 1" for w :: "32 word"
  by (metis unat_minus_one unat_0 less_irrefl)

lemma off_inc:
  assumes "fs_off D I off fs" and "unat (i_nlink (inodes fs j)) < 2 ^ 32 - 1"
  shows "fs_off D I (off(j := off j + 1)) (inode_inc_link_count j fs)"
  unfolding inode_inc_link_count_def
  using unat_inc32 [OF assms(2)] by (intro off_upd [OF assms(1)]) (simp_all add: dcore_def)

lemma off_dec:
  assumes "fs_off D I off fs" and "j \<in> I" and "0 < int (links D fs j) + off j"
  shows "fs_off D I (off(j := off j - 1)) (inode_dec_link_count j fs)"
proof -
  have "int (unat (i_nlink (inodes fs j))) = int (links D fs j) + off j" using assms(1,2) by (simp add: fs_off_def)
  then have p: "0 < unat (i_nlink (inodes fs j))" using assms(3) by linarith
  have "fs_off D I (off(j := off j + - 1)) (inode_dec_link_count j fs)"
    unfolding inode_dec_link_count_def
    using unat_dec32 [OF p] p by (intro off_upd [OF assms(1)]) (simp_all add: dcore_def)
  then show ?thesis by simp
qed

text \<open>A directory is replaced by one with other entries.\<close>

lemma off_dir:
  assumes inv: "fs_off D I off fs" and d: "d \<in> D" and good: "good_dir (fs_sb fs) d'" "snd ` set (listing d') \<subseteq> I"
    and meta: "same_meta (inodes fs d) d'"
    and l: "\<And>i. int (count (image_mset snd (mset (listing d'))) i) =
      int (count (image_mset snd (mset (listing (inodes fs d)))) i) + k i"
  shows "fs_off D I (\<lambda>i. off i - k i) (put_inode fs d d')"
proof -
  have fin: "finite D" using inv by (simp add: fs_off_def)
  have links: "int (links D (put_inode fs d d') i) = int (links D fs i) + k i" for i
  proof -
    have "(\<Sum>x \<in> D - {d}. count (image_mset snd (mset (listing (inodes (put_inode fs d d') x)))) i) =
        (\<Sum>x \<in> D - {d}. count (image_mset snd (mset (listing (inodes fs x)))) i)"
      by (intro sum.cong) auto
    then show ?thesis using l [of i] by (simp add: links_def sum.remove [OF fin d])
  qed
  show ?thesis using inv good meta links by (auto simp: fs_off_def same_meta_def)
qed

text \<open>Looking something up changes flags and hints only.\<close>

lemma off_same:
  assumes "fs_off D I off fs" and "d \<in> D" and "good_dir (fs_sb fs) d'" and "same_dir (inodes fs d) d'"
  shows "fs_off D I off (put_inode fs d d')" "links D (put_inode fs d d') = links D fs"
proof -
  have "snd ` set (listing d') \<subseteq> I" using assms(1,2) same_dirD(7) [OF assms(4)] by (auto simp: fs_off_def)
  with off_dir [OF assms(1-3) this same_meta_same [OF assms(4)], of "\<lambda>_. 0"] same_dirD(7) [OF assms(4)]
  show "fs_off D I off (put_inode fs d d')" by simp
  show "links D (put_inode fs d d') = links D fs" using same_dirD(7) [OF assms(4)] by (intro nlinks_cong) auto
qed

section \<open>Accesses to directories\<close>

text \<open>Nothing fails; the writes have \<open>n\<close> chunks of room in every directory.\<close>

definition quiet :: "nm_env \<Rightarrow> bool" where
  "quiet e \<longleftrightarrow> (\<forall>k. ne_rd e k = (\<lambda>_. None)) \<and> (\<forall>k. ne_sync e k = None) \<and> ne_mem e \<and> benign (ne_ni e)"

definition roomy :: "nm_env \<Rightarrow> nat \<Rightarrow> nat set \<Rightarrow> fs \<Rightarrow> bool" where
  "roomy e n D fs \<longleftrightarrow> (\<forall>d \<in> D. i_size (inodes fs d) + n * s_blocksize (fs_sb fs) < 2 ^ 32) \<and>
     (\<forall>k. \<exists>b. ne_wb e k = Inr b \<and> n * s_blocksize (fs_sb fs) \<le> 512 * b \<and>
        (\<forall>d \<in> D. i_size (inodes fs d) + n * s_blocksize (fs_sb fs) \<le> 512 * b))"

lemma roomyD:
  assumes "roomy e n D fs"
  obtains b where "ne_wb e k = Inr b" "n * s_blocksize (fs_sb fs) \<le> 512 * b"
    "\<forall>d \<in> D. i_size (inodes fs d) + n * s_blocksize (fs_sb fs) \<le> 512 * b"
  using assms unfolding roomy_def by blast

lemma roomy_mono:
  assumes "roomy e (n + m) D fs" and "fs_sb fs' = fs_sb fs"
    and "\<And>d. d \<in> D \<Longrightarrow> i_size (inodes fs' d) \<le> i_size (inodes fs d) + m * s_blocksize (fs_sb fs)"
  shows "roomy e n D fs'"
proof -
  let ?c = "s_blocksize (fs_sb fs)"
  have le: "i_size (inodes fs' d) + n * ?c \<le> i_size (inodes fs d) + (n + m) * ?c" if "d \<in> D" for d
    using assms(3) [OF that] by (simp add: add_mult_distrib)
  have n: "n * ?c \<le> (n + m) * ?c" by simp
  show ?thesis unfolding roomy_def assms(2)
  proof (intro conjI ballI allI)
    show "i_size (inodes fs' d) + n * ?c < 2 ^ 32" if "d \<in> D" for d
      using le [OF that] assms(1) that by (fastforce simp: roomy_def)
    fix k
    from roomyD [OF assms(1), of k] obtain b where "ne_wb e k = Inr b" "(n + m) * ?c \<le> 512 * b"
      "\<forall>d \<in> D. i_size (inodes fs d) + (n + m) * ?c \<le> 512 * b" .
    then show "\<exists>b. ne_wb e k = Inr b \<and> n * ?c \<le> 512 * b \<and> (\<forall>d \<in> D. i_size (inodes fs' d) + n * ?c \<le> 512 * b)"
      using le n by (intro exI [of _ b]) (meson order_trans)
  qed
qed

text \<open>The names of a directory.\<close>

definition dmap :: "fs \<Rightarrow> nat \<Rightarrow> byte list \<Rightarrow> nat option" where
  "dmap fs d = map_of (listing (inodes fs d))"

lemma dmap_put [simp]: "dmap (put_inode fs d d') = (dmap fs)(d := map_of (listing d'))"
  by (auto simp: dmap_def fun_eq_iff)

lemma dmap_upd: "dcore (f (inodes fs j)) = dcore (inodes fs j) \<Longrightarrow> dmap (upd_inode j f fs) = dmap fs"
  using dcore_cong(1) [of "f (inodes fs j)" "inodes fs j"] by (auto simp: dmap_def fun_eq_iff)

lemma dmap_counts [simp]: "dmap (inode_inc_link_count j fs) = dmap fs" "dmap (inode_dec_link_count j fs) = dmap fs"
  by (simp_all add: inode_inc_link_count_def inode_dec_link_count_def dmap_upd dcore_def)

lemma count_add: "mset xs = add_mset (n, j) (mset ys) \<Longrightarrow>
    count (image_mset snd (mset xs)) i = count (image_mset snd (mset ys)) i + (if i = j then 1 else 0)"
  by simp

lemma offD:
  assumes "fs_off D I off fs"
  shows "d \<in> D \<Longrightarrow> good_dir (fs_sb fs) (inodes fs d)" "d \<in> D \<Longrightarrow> snd ` set (listing (inodes fs d)) \<subseteq> I" "finite D" "D \<subseteq> I"
    "i \<in> I \<Longrightarrow> 0 < i \<and> i \<le> s_inodes_count (fs_sb fs)" "d \<in> D \<Longrightarrow> dmap fs d n = Some j \<Longrightarrow> j \<in> I"
proof -
  show r: "d \<in> D \<Longrightarrow> good_dir (fs_sb fs) (inodes fs d)" "d \<in> D \<Longrightarrow> snd ` set (listing (inodes fs d)) \<subseteq> I" "finite D" "D \<subseteq> I"
    "i \<in> I \<Longrightarrow> 0 < i \<and> i \<le> s_inodes_count (fs_sb fs)" using assms by (auto simp: fs_off_def)
  assume "d \<in> D" "dmap fs d n = Some j"
  then show "j \<in> I" using r(2) by (force simp: dmap_def dest: map_of_SomeD)
qed

lemma find_in_ok:
  assumes e: "quiet e" and inv: "fs_off D I off fs" and d: "d \<in> D"
  obtains d' r where "find_in e k fs d name = (put_inode fs d d', r)" "fs_off D I off (put_inode fs d d')"
    "same_dir (inodes fs d) d'" "dmap (put_inode fs d d') = dmap fs"
    "case r of Some loc \<Rightarrow> at_loc d' name loc | None \<Rightarrow> dmap fs d name = None"
proof -
  obtain d' r where f: "ext2_find_entry (\<lambda>_. None) (fs_sb fs) (inodes fs d) name = (d', r)" by fastforce
  note g = good_find [OF offD(1) [OF inv d] f]
  then have "fs_off D I off (put_inode fs d d')" using off_same(1) [OF inv d] by blast
  moreover have "find_in e k fs d name = (put_inode fs d d', r)" using f e by (simp add: find_in_def quiet_def)
  moreover have l: "listing d' = listing (inodes fs d)" using g same_dirD(7) by blast
  then have "dmap (put_inode fs d d') = dmap fs" by (auto simp: dmap_def fun_eq_iff)
  moreover have "case r of Some loc \<Rightarrow> at_loc d' name loc | None \<Rightarrow> dmap fs d name = None"
    using g by (cases r) (auto simp: dmap_def map_of_eq_None_iff)
  ultimately show thesis using that g by blast
qed

lemma add_in_ok:
  assumes e: "quiet e" "roomy e 1 D fs" and inv: "fs_off D I off fs" and d: "d \<in> D" and j: "j \<in> I"
    and name: "name \<noteq> []" "length name \<le> 255" "dmap fs d name = None"
  obtains d' where "add_in e k fs d name j = Some (put_inode fs d d', None)"
    "fs_off D I (off(j := off j - 1)) (put_inode fs d d')" "same_meta (inodes fs d) d'"
    "dmap (put_inode fs d d') = (dmap fs)(d := (dmap fs d)(name \<mapsto> j))"
    "i_size d' \<le> i_size (inodes fs d) + s_blocksize (fs_sb fs)" "\<And>n l. at_loc (inodes fs d) n l \<Longrightarrow> at_loc d' n l"
proof -
  let ?sb = "fs_sb fs" and ?d = "inodes fs d"
  from roomyD [OF e(2), of k] obtain b where b1: "ne_wb e k = Inr b" "\<forall>d \<in> D. i_size (inodes fs d) + 1 * s_blocksize ?sb \<le> 512 * b"
    by blast
  then have b: "ne_wb e k = Inr b" "env_fits ?sb (b, 0, 0) ?d" using d e(2) by (auto simp: roomy_def env_fits_def)
  have v: "entry_valid ?sb name j" using name offD(5) [OF inv j] by (simp add: entry_valid_def)
  have n: "name \<notin> fst ` set (listing ?d)" using name(3) by (simp add: dmap_def map_of_eq_None_iff)
  note g = offD(1) [OF inv d]
  from good_add [OF g b(2) v n, of "ne_now e" "i_mode (inodes fs j)"] obtain d' where
    r: "ext2_add_link (\<lambda>_. None) (Inr b) None (ne_now e) ?sb ?d name j (i_mode (inodes fs j)) = Some (d', None)"
      "good_dir ?sb d'" "mset (listing d') = add_mset (name, j) (mset (listing ?d))" "same_meta ?d d'"
      "i_size d' \<le> i_size ?d + s_blocksize ?sb" "\<forall>n l. at_loc ?d n l \<longrightarrow> at_loc d' n l" by blast
  have "set (listing d') = insert (name, j) (set (listing ?d))" using r(3) by (metis mset.simps(2) set_mset_mset list.set(2))
  then have "snd ` set (listing d') \<subseteq> I" using offD(2) [OF inv d] j by auto
  from off_dir [OF inv d r(2) this r(4), of "\<lambda>i. if i = j then 1 else 0"] count_add [OF r(3)]
  have "fs_off D I (\<lambda>i. off i - (if i = j then 1 else 0)) (put_inode fs d d')" by simp
  moreover have "(\<lambda>i. off i - (if i = j then 1 else 0)) = off(j := off j - 1)" by auto
  moreover have "add_in e k fs d name j = Some (put_inode fs d d', None)"
    using r(1) b(1) e(1) by (simp add: add_in_def quiet_def)
  moreover have "distinct (map fst (listing d'))" using r(2) by (simp add: good_dir_def)
  from ext2.map_of_mset(1) [OF r(3) this]
  have "dmap (put_inode fs d d') = (dmap fs)(d := (dmap fs d)(name \<mapsto> j))" by (simp add: dmap_def)
  ultimately show thesis using that [of d'] r(4-6) by metis
qed

lemma delete_in_ok:
  assumes e: "quiet e" "roomy e 0 D fs" and inv: "fs_off D I off fs" and d: "d \<in> D"
    and at: "at_loc (inodes fs d) name loc"
  obtains d' j where "delete_in e k fs d loc = Some (put_inode fs d d', None)" "dmap fs d name = Some j" "j \<in> I"
    "fs_off D I (off(j := off j + 1)) (put_inode fs d d')" "same_meta (inodes fs d) d'"
    "dmap (put_inode fs d d') = (dmap fs)(d := (dmap fs d)(name := None))" "i_size d' = i_size (inodes fs d)"
proof -
  let ?sb = "fs_sb fs" and ?d = "inodes fs d"
  obtain n o1 where l: "loc = (n, o1)" by (cases loc)
  let ?j = "de_inode (dpages ?d n o1)"
  from roomyD [OF e(2), of k] obtain b where "ne_wb e k = Inr b" "\<forall>d \<in> D. i_size (inodes fs d) + 0 * s_blocksize ?sb \<le> 512 * b"
    by blast
  then have b: "ne_wb e k = Inr b" "i_size ?d \<le> 512 * b" using d by simp_all
  note g = offD(1) [OF inv d]
  from good_delete [OF g at [unfolded l] b(2), of "ne_now e"] obtain d' where
    r: "ext2_delete_entry (Inr b) None (ne_now e) ?sb ?d (n, o1) = Some (d', None)" "good_dir ?sb d'"
      "mset (listing ?d) = add_mset (name, ?j) (mset (listing d'))" "same_meta ?d d'" "i_size d' = i_size ?d" by blast
  have set: "set (listing ?d) = insert (name, ?j) (set (listing d'))" using r(3) by (metis mset.simps(2) set_mset_mset list.set(2))
  then have j: "?j \<in> I" "snd ` set (listing d') \<subseteq> I" using offD(2) [OF inv d] by auto
  have "count (image_mset snd (mset (listing ?d))) i = count (image_mset snd (mset (listing d'))) i + (if i = ?j then 1 else 0)" for i
    using count_add [OF r(3)] .
  then have "int (count (image_mset snd (mset (listing d'))) i) =
      int (count (image_mset snd (mset (listing ?d))) i) + (if i = ?j then - 1 else 0)" for i by simp
  from off_dir [OF inv d r(2) j(2) r(4) this]
  have "fs_off D I (\<lambda>i. off i - (if i = ?j then - 1 else 0)) (put_inode fs d d')" .
  moreover have "(\<lambda>i. off i - (if i = ?j then - 1 else 0)) = off(?j := off ?j + 1)" by auto
  moreover have "delete_in e k fs d loc = Some (put_inode fs d d', None)"
    using r(1) b(1) e(1) l by (simp add: delete_in_def quiet_def)
  moreover have "distinct (map fst (listing ?d))" using g by (simp add: good_dir_def)
  note m = ext2.map_of_mset [OF r(3) this]
  have none: "map_of (listing d') name = None" using m(2) by (simp add: map_of_eq_None_iff)
  have "dmap fs d name = Some ?j" using m(1) by (simp add: dmap_def)
  moreover have "dmap (put_inode fs d d') = (dmap fs)(d := (dmap fs d)(name := None))"
    using m(1) none by (auto simp: dmap_def fun_eq_iff)
  ultimately show thesis using that r(4,5) j by simp
qed

end
