(* ===== verification/Ext2_Fs.thy ===== *)
theory Ext2_Fs
  imports Ext2_Namei_Facts
begin

text \<open>
  What the name operations do to a file system that satisfies the invariant of theory
  \<open>Ext2_Namei_Facts\<close>, when memory and disk do not fail: each operation changes the maps of names exactly as its
  system call says, or is refused and changes no name, and keeps the invariant. The relation \<open>fs_run\<close> collects
  such operations into runs. Then what a rename does to the contents of files and to its buffers.
\<close>

section \<open>Linking and unlinking\<close>

lemma quiet_rd [simp]: "quiet e \<Longrightarrow> ne_rd e k = (\<lambda>_. None)"
  by (simp add: quiet_def)

lemma roomy_same:
  "roomy e n D fs \<Longrightarrow> fs_sb fs' = fs_sb fs \<Longrightarrow> (\<And>d. d \<in> D \<Longrightarrow> i_size (inodes fs' d) \<le> i_size (inodes fs d)) \<Longrightarrow> roomy e n D fs'"
  by (rule roomy_mono [where m = 0]) simp_all

lemma dmap_icount [simp]: "dmap (fs\<lparr>icount := c\<rparr>) = dmap fs" "dmap (fs\<lparr>fs_sbi := s\<rparr>) = dmap fs"
  by (simp_all add: dmap_def fun_eq_iff)

lemma counts_fields [simp]:
  "fs_sb (inode_inc_link_count j fs) = fs_sb fs" "fs_sb (inode_dec_link_count j fs) = fs_sb fs"
  "fs_sbi (inode_inc_link_count j fs) = fs_sbi fs" "fs_sbi (inode_dec_link_count j fs) = fs_sbi fs"
  "key (inode_inc_link_count j fs) = key fs" "key (inode_dec_link_count j fs) = key fs"
  "inodes (inode_inc_link_count j fs) =
     (inodes fs)(j := (inodes fs j)\<lparr>i_nlink := i_nlink (inodes fs j) + 1, i_dirty := True\<rparr>)"
  "inodes (inode_dec_link_count j fs) =
     (inodes fs)(j := (inodes fs j)\<lparr>i_nlink := i_nlink (inodes fs j) - 1, i_dirty := True\<rparr>)"
  by (simp_all add: inode_inc_link_count_def inode_dec_link_count_def)

lemma const_upd [simp]: "(\<lambda>_. c)(j := c) = (\<lambda>_. c)"
  by auto

lemma link_ok:
  assumes e: "quiet e" "roomy e 1 D fs" and inv: "fs_inv D I fs" and d: "d \<in> D" and j: "j \<in> I"
    and nl: "i_nlink (inodes fs j) < EXT2_LINK_MAX" and name: "name \<noteq> []" "length name \<le> 255" "dmap fs d name = None"
  obtains fs' where "ext2_link e fs j d name = Some (fs', Inr j)" "fs_inv D I fs'"
    "dmap fs' = (dmap fs)(d := (dmap fs d)(name \<mapsto> j))"
proof -
  let ?f1 = "upd_inode j (\<lambda>i. i\<lparr>i_ctime := ne_now e\<rparr>) fs"
  let ?f2 = "inode_inc_link_count j ?f1"
  let ?f3 = "?f2\<lparr>icount := (icount ?f2)(j := icount ?f2 j + 1)\<rparr>"
  have "fs_off D I (\<lambda>_. 0) ?f1" using inv unfolding fs_inv_def by (intro off_touch) (simp_all add: dcore_def)
  moreover have "unat (i_nlink (inodes fs j)) < 32000" using nl by (simp add: word_less_nat_alt)
  ultimately have o2: "fs_off D I ((\<lambda>_. 0)(j := 1)) ?f2" using off_inc [of D I "\<lambda>_. 0" ?f1 j] by simp
  then have o3: "fs_off D I ((\<lambda>_. 0)(j := 1)) ?f3" by (simp add: off_icount)
  have m: "dmap ?f3 = dmap fs" by (simp add: dmap_upd dcore_def)
  have r: "roomy e 1 D ?f3" using e(2) by (rule roomy_same) simp_all
  from add_in_ok [OF e(1) r o3 d j name(1,2), of 0] name(3) m obtain d' where
    a: "add_in e 0 ?f3 d name j = Some (put_inode ?f3 d d', None)"
    "fs_off D I (((\<lambda>_. 0)(j := 1))(j := ((\<lambda>_. 0)(j := 1)) j - 1)) (put_inode ?f3 d d')"
    "dmap (put_inode ?f3 d d') = (dmap ?f3)(d := (dmap ?f3 d)(name \<mapsto> j))" by metis
  have "fs_inv D I (put_inode ?f3 d d')" using a(2) by (simp add: fs_inv_def)
  moreover have "ext2_link e fs j d name = Some (put_inode ?f3 d d', Inr j)"
    using a(1) nl by (simp add: ext2_link_def Let_def)
  ultimately show thesis using that a(3) m by simp
qed


lemma roomy_put:
  "roomy e n D fs \<Longrightarrow> i_size d' \<le> i_size (inodes fs d) \<Longrightarrow> roomy e n D (put_inode fs d d')"
  by (erule roomy_same) auto

lemma unlink_ok:
  assumes e: "quiet e" "roomy e 0 D fs" and inv: "fs_inv D I fs" and d: "d \<in> D" and n: "dmap fs d name = Some j"
  obtains fs' where "ext2_unlink e fs d name j = Some (fs', None)" "fs_inv D I fs'"
    "dmap fs' = (dmap fs)(d := (dmap fs d)(name := None))" "j \<noteq> d \<Longrightarrow> listing (inodes fs' j) = listing (inodes fs j)"
proof -
  note inv = inv [unfolded fs_inv_def]
  from find_in_ok [OF e(1) inv d, of 0 name] obtain d1 r where
    f: "find_in e 0 fs d name = (put_inode fs d d1, r)" "fs_off D I (\<lambda>_. 0) (put_inode fs d d1)" "same_dir (inodes fs d) d1"
      "dmap (put_inode fs d d1) = dmap fs" "case r of Some loc \<Rightarrow> at_loc d1 name loc | None \<Rightarrow> dmap fs d name = None" .
  let ?f1 = "put_inode fs d d1"
  have s1: "i_size d1 = i_size (inodes fs d)" "i_mode d1 = i_mode (inodes fs d)"
    using same_dirD [OF f(3)] same_meta_same [OF f(3)] by (auto simp: same_meta_def)
  from f(5) n obtain loc where loc: "r = Some loc" "at_loc (inodes ?f1 d) name loc" by (cases r) auto
  have r1: "roomy e 0 D ?f1" using e(2) s1 by (intro roomy_put) simp_all
  from delete_in_ok [OF e(1) r1 f(2) d loc(2), of 0] obtain d2 j' where
    x: "delete_in e 0 ?f1 d loc = Some (put_inode ?f1 d d2, None)" "j' \<in> I" "dmap ?f1 d name = Some j'"
      "fs_off D I ((\<lambda>_. 0)(j' := 0 + 1)) (put_inode ?f1 d d2)" "same_meta (inodes ?f1 d) d2"
      "dmap (put_inode ?f1 d d2) = (dmap ?f1)(d := (dmap ?f1 d)(name := None))" "i_size d2 = i_size (inodes ?f1 d)" .
  have [simp]: "j' = j" using x(3) [unfolded f(4)] n by simp
  let ?f2 = "put_inode ?f1 d d2"
  let ?f3 = "upd_inode j (\<lambda>i. i\<lparr>i_ctime := i_ctime (inodes ?f2 d)\<rparr>) ?f2"
  have "fs_off D I ((\<lambda>_. 0)(j := 0 + 1)) ?f3" using x(4) by (intro off_touch)  (simp_all add: dcore_def)
  from off_dec [OF this x(2)] have o: "fs_off D I (\<lambda>_. 0) (inode_dec_link_count j ?f3)" by simp
  have m: "dmap ?f3 = (dmap fs)(d := (dmap fs d)(name := None))"
    using x(6) [unfolded f(4)] by (subst dmap_upd) (simp_all add: dcore_def del: dmap_put)
  show thesis
  proof (rule that [of "inode_dec_link_count j ?f3"])
    show "ext2_unlink e fs d name j = Some (inode_dec_link_count j ?f3, None)"
      using f(1) loc(1) x(1) by (simp add: ext2_unlink_def Let_def)
    show "listing (inodes (inode_dec_link_count j ?f3) j) = listing (inodes fs j)" if "j \<noteq> d"
      using that by (simp, intro dcore_cong(1)) (simp add: dcore_def)
  qed (use o m in \<open>simp_all add: fs_inv_def\<close>)
qed

section \<open>Creating\<close>

text \<open>A new inode joins the inodes in use; its count is one ahead of its links.\<close>

lemma links_out:
  assumes "fs_off D I off fs" and "i \<notin> I"
  shows "links D fs i = 0"
  using offD(2,3) [OF assms(1)] assms(2) by (force simp: links_def count_eq_zero_iff)

lemma new_in_ok:
  assumes e: "quiet e" and inv: "fs_off D I off fs" and d: "d \<in> D" and free: "0 < ext2_count_free_inodes (fs_sbi fs)"
  obtains fs1 j where "new_in e fs d mode = (fs1, Inr j)" "j \<notin> I" "fs_off D (insert j I) (off(j := 1)) fs1"
    "i_nlink (inodes fs1 j) = 1" "i_size (inodes fs1 j) = 0" "\<forall>n. \<not> p_error (inodes fs1 j) n"
    "S_ISDIR (i_mode (inodes fs1 j)) = S_ISDIR mode" "fs_sb fs1 = fs_sb fs" "\<forall>i \<in> I. inodes fs1 i = inodes fs i"
proof -
  let ?sbi = "fs_sbi fs"
  have ok: "ialloc_ok ?sbi" and pg: "i_block_group (inodes fs d) < s_groups_count ?sbi" and b: "benign (ne_ni e)"
    using inv d e by (auto simp: fs_off_def quiet_def)
  from new_inode_ok [OF ok pg b free, of mode] obtain g z inode sbi where
    n: "ext2_new_inode (ne_ni e) ?sbi (inodes fs d) mode = (sbi, New inode)"
      "sbi = account_inode (put_bit ?sbi g z True) g (S_ISDIR mode)\<lparr>s_next_generation := s_next_generation ?sbi + 1\<rparr>"
      "has_free ?sbi g" "z < s_inodes_per_group ?sbi" "\<not> s_ibitmap ?sbi g z" "i_ino inode = z + g * s_inodes_per_group ?sbi + 1"
      "S_ISDIR (i_mode inode) = S_ISDIR mode" "i_ino inode \<le> s_max_ino ?sbi" "i_size inode = 0" "i_nlink inode = 1"
      "\<And>n. \<not> p_error inode n" "i_block_group inode = g" by metis
  note k = new_inode_keeps [OF ok n(3,4,5), where d = "S_ISDIR mode" and n = "s_next_generation ?sbi + 1", folded n(2)]
  let ?j = "i_ino inode"
  have "\<not> used ?sbi ?j" using n(4-6) by (simp add: used_def)
  then have j: "?j \<notin> I" using inv by (auto simp: fs_off_def)
  let ?fs = "put_inode (fs\<lparr>fs_sbi := sbi, icount := (icount fs)(?j := 1)\<rparr>) ?j inode"
  have l: "links D ?fs = links D fs" using j offD(4) [OF inv] by (intro nlinks_cong) auto
  have s: "s_max_ino sbi = s_max_ino ?sbi" "s_groups_count sbi = s_groups_count ?sbi" using n(2) by (simp_all add: put_bit_def)
  have "g < s_groups_count ?sbi" using n(3) by (simp add: has_free_def)
  then have o: "fs_off D (insert ?j I) (off(?j := 1)) ?fs"
    using inv j k(1) k(2) n(6,8,10,12) links_out [OF inv j] l s by (fastforce simp: fs_off_def)
  have "new_in e fs d mode = (?fs, Inr ?j)" using n(1) by (simp add: new_in_def)
  from that [OF this j o] show thesis using n(7,9-11) j by simp
qed

text \<open>The maps of names of the directories in \<open>D\<close>: the tree of the file system.\<close>

definition tree :: "nat set \<Rightarrow> fs \<Rightarrow> nat \<Rightarrow> (byte list \<Rightarrow> nat option) option" where
  "tree D fs d = (if d \<in> D then Some (dmap fs d) else None)"

lemma tree_Some: "d \<in> D \<Longrightarrow> tree D fs d = Some (dmap fs d)"
  by (simp add: tree_def)

lemma tree_upd: "(\<And>i. i \<in> D \<Longrightarrow> dmap fs' i = (if i = d then m else dmap fs i)) \<Longrightarrow> d \<in> D \<Longrightarrow> tree D fs' = (tree D fs)(d \<mapsto> m)"
  by (auto simp: tree_def fun_eq_iff)

text \<open>\<open>ext2_create\<close>, \<open>ext2_mknod\<close> and \<open>ext2_symlink\<close> share what follows the allocation.\<close>

lemma add_nondir_ok:
  assumes e: "quiet e" "roomy e 1 D fs" and inv: "fs_off D I ((\<lambda>_. 0)(j := 1)) fs" and d: "d \<in> D" and j: "j \<in> I"
    and name: "name \<noteq> []" "length name \<le> 255" "dmap fs d name = None"
  obtains fs' where "ext2_add_nondir e fs d name j = Some (fs', Inr j)" "fs_inv D I fs'"
    "tree D fs' = (tree D fs)(d \<mapsto> (dmap fs d)(name \<mapsto> j))" 
proof -
  from add_in_ok [OF e inv d j name, of 0] obtain d' where
    a: "add_in e 0 fs d name j = Some (put_inode fs d d', None)"
      "fs_off D I (((\<lambda>_. 0)(j := 1))(j := ((\<lambda>_. 0)(j := 1)) j - 1)) (put_inode fs d d')"
      "dmap (put_inode fs d d') = (dmap fs)(d := (dmap fs d)(name \<mapsto> j))" .
  have "fs_inv D I (put_inode fs d d')" using a(2) by (simp add: fs_inv_def)
  moreover have "tree D (put_inode fs d d') = (tree D fs)(d \<mapsto> (dmap fs d)(name \<mapsto> j))"
    using d by (intro tree_upd) (simp_all only: a(3) fun_upd_apply)
  ultimately show thesis using that a(1) by (simp add: ext2_add_nondir_def)
qed

lemma off_file:
  assumes inv: "fs_off D I off fs" and j: "j \<notin> D"
    and f: "\<And>i. i_ino (f i) = i_ino i" "\<And>i. i_block_group (f i) = i_block_group i" "\<And>i. i_nlink (f i) = i_nlink i"
  shows "fs_off D I off (upd_inode j f fs)"
proof -
  have l: "links D (upd_inode j f fs) = links D fs" using j by (intro nlinks_cong) auto
  have "inodes (upd_inode j f fs) d = inodes fs d" if "d \<in> D" for d using j that by auto
  then show ?thesis using inv f unfolding fs_off_def l by simp
qed

lemma new_nondir_ok:
  assumes e: "quiet e" "roomy e 1 D fs" and inv: "fs_inv D I fs" and d: "d \<in> D"
    and free: "0 < ext2_count_free_inodes (fs_sbi fs)" and name: "name \<noteq> []" "length name \<le> 255" "dmap fs d name = None"
    and f: "\<And>i. i_ino (f i) = i_ino i" "\<And>i. i_block_group (f i) = i_block_group i" "\<And>i. i_nlink (f i) = i_nlink i"
  obtains fs1 fs2 j where "new_in e fs d mode = (fs1, Inr j)" "j \<notin> I" "ext2_add_nondir e (upd_inode j f fs1) d name j = Some (fs2, Inr j)"
    "fs_inv D (insert j I) fs2" "tree D fs2 = (tree D fs)(d \<mapsto> (dmap fs d)(name \<mapsto> j))"
proof -
  from new_in_ok [OF e(1) inv [unfolded fs_inv_def] d free, of mode] obtain fs1 j where
    n: "new_in e fs d mode = (fs1, Inr j)" "j \<notin> I" "fs_off D (insert j I) ((\<lambda>_. 0)(j := 1)) fs1"
      "fs_sb fs1 = fs_sb fs" "\<forall>i \<in> I. inodes fs1 i = inodes fs i" .
  let ?f2 = "upd_inode j f fs1"
  have jD: "j \<notin> D" "D \<subseteq> I" using n(2) inv by (auto simp: fs_inv_def fs_off_def)
  have same: "dmap ?f2 i = dmap fs i" "inodes ?f2 i = inodes fs i" if "i \<in> D" for i
    using that jD n(5) by (auto simp: dmap_def)
  have o: "fs_off D (insert j I) ((\<lambda>_. 0)(j := 1)) ?f2" using n(3) jD(1) f by (rule off_file)
  have "fs_sb ?f2 = fs_sb fs" using n(4) by simp
  then have r: "roomy e 1 D ?f2" by (rule roomy_same [OF e(2)]) (simp only: same(2) order_refl)
  have "dmap ?f2 d name = None" using name(3) same(1) [OF d] by simp
  from add_nondir_ok [OF e(1) r o d insertI1 name(1,2) this] obtain fs2 where
    "ext2_add_nondir e ?f2 d name j = Some (fs2, Inr j)" "fs_inv D (insert j I) fs2"
    "tree D fs2 = (tree D ?f2)(d \<mapsto> (dmap ?f2 d)(name \<mapsto> j))" .
  moreover have "tree D ?f2 = tree D fs" using same(1) by (auto simp: tree_def fun_eq_iff)
  ultimately show thesis using that n(1,2) same(1) [OF d] by simp
qed

text \<open>A directory comes or goes with all its entries.\<close>

abbreviation refs_of :: "inode \<Rightarrow> nat \<Rightarrow> int" where
  "refs_of d i \<equiv> int (count (image_mset snd (mset (listing d))) i)"

lemma off_add_dir:
  assumes inv: "fs_off D I off fs" and j: "j \<in> I" "j \<notin> D" and good: "good_dir (fs_sb fs) d'" "snd ` set (listing d') \<subseteq> I"
    and meta: "same_meta (inodes fs j) d'"
  shows "fs_off (insert j D) I (\<lambda>i. off i - refs_of d' i) (put_inode fs j d')"
proof -
  have fin: "finite D" using inv by (simp add: fs_off_def)
  have "(\<Sum>d \<in> D. count (image_mset snd (mset (listing (inodes (put_inode fs j d') d)))) i) = links D fs i" for i
    unfolding links_def using j(2) by (intro sum.cong) auto
  then have "int (links (insert j D) (put_inode fs j d') i) = int (links D fs i) + refs_of d' i" for i
    using fin j(2) by (simp add: links_def)
  then show ?thesis using inv j good meta by (auto simp: fs_off_def same_meta_def)
qed

lemma off_remove_dir:
  assumes inv: "fs_off D I off fs" and j: "j \<in> D"
  shows "fs_off (D - {j}) I (\<lambda>i. off i + refs_of (inodes fs j) i) fs"
proof -
  have fin: "finite D" using inv by (simp add: fs_off_def)
  have "int (links D fs i) = int (links (D - {j}) fs i) + refs_of (inodes fs j) i" for i
    by (simp add: links_def sum.remove [OF fin j])
  then show ?thesis using inv by (auto simp: fs_off_def)
qed

lemma roomy_sub: "roomy e n D fs \<Longrightarrow> fs_sb fs' = fs_sb fs \<Longrightarrow> roomy e n {} fs'"
  by (auto simp: roomy_def)

lemma roomy_insert:
  assumes "roomy e n D fs" and "i_size (inodes fs j) = s_blocksize (fs_sb fs)" and "roomy e (n + 1) {} fs"
    and "s_blocksize (fs_sb fs) + n * s_blocksize (fs_sb fs) < 2 ^ 32"
  shows "roomy e n (insert j D) fs"
  unfolding roomy_def
proof (intro conjI ballI allI)
  show "i_size (inodes fs d) + n * s_blocksize (fs_sb fs) < 2 ^ 32" if "d \<in> insert j D" for d
    using assms(1,2,4) that by (auto simp: roomy_def)
  fix k
  from roomyD [OF assms(1), of k] obtain b where
    b: "ne_wb e k = Inr b" "n * s_blocksize (fs_sb fs) \<le> 512 * b" "\<forall>d \<in> D. i_size (inodes fs d) + n * s_blocksize (fs_sb fs) \<le> 512 * b" .
  moreover from roomyD [OF assms(3), of k] b(1) have "(n + 1) * s_blocksize (fs_sb fs) \<le> 512 * b" by auto
  ultimately show "\<exists>b. ne_wb e k = Inr b \<and> n * s_blocksize (fs_sb fs) \<le> 512 * b \<and>
      (\<forall>d \<in> insert j D. i_size (inodes fs d) + n * s_blocksize (fs_sb fs) \<le> 512 * b)"
    using assms(2) by simp
qed

lemma mkdir_ok:
  assumes e: "quiet e" "roomy e 2 D fs" and inv: "fs_inv D I fs" and d: "d \<in> D"
    and free: "0 < ext2_count_free_inodes (fs_sbi fs)" and name: "name \<noteq> []" "length name \<le> 255" "dmap fs d name = None"
    and nl: "i_nlink (inodes fs d) < EXT2_LINK_MAX"
  obtains fs' j where "ext2_mkdir e fs d name mode = Some (fs', Inr j)" "j \<notin> I" "fs_inv (insert j D) (insert j I) fs'"
    "tree (insert j D) fs' = (tree D fs)(d \<mapsto> (dmap fs d)(name \<mapsto> j), j \<mapsto> [dot \<mapsto> j, dotdot \<mapsto> d])"
proof -
  let ?sb = "fs_sb fs" and ?f1 = "inode_inc_link_count d fs"
  have "unat (i_nlink (inodes fs d)) < 32000" using nl by (simp add: word_less_nat_alt)
  then have o1: "fs_off D I ((\<lambda>_. 0)(d := 1)) ?f1" using off_inc [of D I "\<lambda>_. 0" fs d] inv by (simp add: fs_inv_def)
  have "0 < ext2_count_free_inodes (fs_sbi ?f1)" using free by simp
  from new_in_ok [OF e(1) o1 d this, of "or S_IFDIR mode"] obtain f2 j where
    n: "new_in e ?f1 d (or S_IFDIR mode) = (f2, Inr j)" "j \<notin> I" "fs_off D (insert j I) ((\<lambda>_. 0)(d := 1, j := 1)) f2"
      "i_nlink (inodes f2 j) = 1" "i_size (inodes f2 j) = 0" "\<forall>n. \<not> p_error (inodes f2 j) n"
      "fs_sb f2 = fs_sb ?f1" "\<forall>i \<in> I. inodes f2 i = inodes ?f1 i" .
  have jD: "j \<notin> D" "D \<subseteq> I" "d \<noteq> j" using n(2) inv d by (auto simp: fs_inv_def fs_off_def)
  let ?f3 = "inode_inc_link_count j f2" and ?J = "insert j I"
  have o3: "fs_off D ?J ((\<lambda>_. 0)(d := 1, j := 2)) ?f3" using off_inc [OF n(3), of j] n(4) by simp
  have bs: "s_blocksize ?sb \<in> {1024, 2048, 4096}" using offD(1) [OF o1 d] by (auto simp: good_dir_def dir_ok_def)
  from roomyD [OF e(2), of 0] obtain b where b: "ne_wb e 0 = Inr b" "2 * s_blocksize ?sb \<le> 512 * b" by blast
  have "i_ino (inodes ?f3 j) = j" using o3 by (simp add: fs_off_def)
  with make_empty_ok [of ?sb "inodes ?f3 j" d b] bs n(5,6) offD(5) [OF o3, of j] offD(5) [OF o3, of d] d jD n(7) obtain d3 where
    m: "ext2_make_empty True (Inr b) None ?sb (inodes ?f3 j) d = Some (d3, None)" "dir_ok ?sb d3"
      "i_size d3 = s_blocksize ?sb" "same_meta (inodes ?f3 j) d3" "i_blocks d3 = b" "listing d3 = [(dot, j), (dotdot, d)]" by auto
  have g3: "good_dir (fs_sb ?f3) d3" "snd ` set (listing d3) \<subseteq> ?J" using m b d jD n(7) by (auto simp: good_dir_def)
  let ?f4 = "put_inode ?f3 j d3" and ?E = "insert j D"
  have "(\<lambda>i. ((\<lambda>_. 0)(d := 1, j := 2)) i - refs_of d3 i) = (\<lambda>_. 0)(j := 1)" using jD(3) by (auto simp: m(6) fun_eq_iff)
  with off_add_dir [OF o3 insertI1 jD(1) g3 m(4)] have o4: "fs_off ?E ?J ((\<lambda>_. 0)(j := 1)) ?f4" by simp
  have old: "inodes ?f4 i = inodes ?f1 i" if "i \<in> D" for i using that jD n(8) by auto
  have "roomy e 1 D ?f4" using e(2) n(7) old by (intro roomy_mono [of e 1 1 D fs]) (auto simp: numeral_2_eq_2)
  moreover have "roomy e (1 + 1) {} ?f4" unfolding one_add_one using n(7) by (intro roomy_sub [OF e(2)]) simp
  ultimately have r4: "roomy e 1 ?E ?f4" using bs m(3) n(7) by (intro roomy_insert) auto
  have d4: "dmap ?f4 i = dmap fs i" if "i \<in> D" for i
  proof -
    have "dmap ?f4 i = dmap ?f1 i" using old [OF that] by (simp only: dmap_def)
    then show ?thesis by (simp only: dmap_counts)
  qed
  then have "dmap ?f4 d name = None" using name(3) d by simp
  from add_in_ok [OF e(1) r4 o4 insertI2 [OF d] insertI1 name(1,2) this, of 1] obtain d5 where
    a: "add_in e 1 ?f4 d name j = Some (put_inode ?f4 d d5, None)"
      "fs_off ?E ?J (((\<lambda>_. 0)(j := 1))(j := ((\<lambda>_. 0)(j := 1)) j - 1)) (put_inode ?f4 d d5)"
      "dmap (put_inode ?f4 d d5) = (dmap ?f4)(d := (dmap ?f4 d)(name \<mapsto> j))" .
  show thesis
  proof (rule that [of "put_inode ?f4 d d5" j])
    have "\<not> EXT2_LINK_MAX \<le> i_nlink (inodes fs d)" using nl by simp
    then show "ext2_mkdir e fs d name mode = Some (put_inode ?f4 d d5, Inr j)"
      using n(1,7) m(1) a(1) b(1) e(1) by (simp add: ext2_mkdir_def quiet_def Let_def)
    show "fs_inv ?E ?J (put_inode ?f4 d d5)" using a(2) by (simp add: fs_inv_def)
    show "tree ?E (put_inode ?f4 d d5) = (tree D fs)(d \<mapsto> (dmap fs d)(name \<mapsto> j), j \<mapsto> [dot \<mapsto> j, dotdot \<mapsto> d])"
      using d jD d4 m(6) by (auto simp: tree_def fun_eq_iff a(3) simp del: dmap_put) (auto simp: dmap_def)
  qed (use n(2) in simp)
qed

section \<open>Removing a directory\<close>

lemma empty_in_ok:
  assumes e: "quiet e" and inv: "fs_off D I off fs" and d: "d \<in> D"
  obtains d' where "empty_in e k fs d =
      (put_inode fs d d', \<forall>(name, ino) \<in> set (listing (inodes fs d)). name = dot \<and> ino = d \<or> name = dotdot)"
    "fs_off D I off (put_inode fs d d')" "same_dir (inodes fs d) d'" "dmap (put_inode fs d d') = dmap fs"
proof -
  obtain d' b where f: "ext2_empty_dir (\<lambda>_. None) (fs_sb fs) (inodes fs d) = (d', b)" by fastforce
  note g = offD(1) [OF inv d]
  then have ok: "dir_ok (fs_sb fs) (inodes fs d)" by (simp add: good_dir_def)
  note s = empty_dir_same [OF ok f]
  have "good_dir (fs_sb fs) d'" using g s(2) same_dirD [OF s(1)] by (simp add: good_dir_def)
  then have o: "fs_off D I off (put_inode fs d d')" using off_same(1) [OF inv d] s(1) by blast
  have i: "i_ino (inodes fs d) = d" using inv d by (auto simp: fs_off_def)
  have "empty_in e k fs d = (put_inode fs d d', \<forall>(name, ino) \<in> set (listing (inodes fs d)). name = dot \<and> ino = d \<or> name = dotdot)"
    using f e empty_dir_ok [OF ok] unfolding i by (simp add: empty_in_def)
  moreover have "dmap (put_inode fs d d') = dmap fs" using same_dirD(7) [OF s(1)] by (auto simp: dmap_def fun_eq_iff)
  ultimately show thesis using that o s(1) by blast
qed

lemma listing_of_map:
  assumes "distinct (map fst xs)" and "map_of xs = [a \<mapsto> i, b \<mapsto> j]" and "a \<noteq> b"
  shows "mset xs = {#(a, i), (b, j)#}"
proof -
  have "set xs = {(a, i), (b, j)}"
    using assms by (auto simp: map_of_eq_Some_iff [OF assms(1), symmetric] split: if_splits)
  moreover have "mset_set (set xs) = mset xs" using assms(1) by (intro mset_set_set) (simp add: distinct_map)
  ultimately show ?thesis using assms(3) by simp
qed

lemma rmdir_ok:
  assumes e: "quiet e" "roomy e 0 D fs" and inv: "fs_inv D I fs" and d: "d \<in> D" and n: "dmap fs d name = Some j"
    and j: "j \<in> D" "j \<noteq> d" "dmap fs j = [dot \<mapsto> j, dotdot \<mapsto> d]"
  obtains fs' where "ext2_rmdir e fs d name j = Some (fs', None)" "fs_inv (D - {j}) I fs'"
    "tree (D - {j}) fs' = (tree D fs)(d \<mapsto> (dmap fs d)(name := None), j := None)"
proof -
  from empty_in_ok [OF e(1) inv [unfolded fs_inv_def] j(1), of 1] obtain d1 where
    r: "empty_in e 1 fs j = (put_inode fs j d1, \<forall>(name, ino) \<in> set (listing (inodes fs j)). name = dot \<and> ino = j \<or> name = dotdot)"
      "fs_off D I (\<lambda>_. 0) (put_inode fs j d1)" "same_dir (inodes fs j) d1" "dmap (put_inode fs j d1) = dmap fs" .
  let ?f1 = "put_inode fs j d1"
  have "distinct (map fst (listing (inodes fs j)))" using offD(1) [OF inv [unfolded fs_inv_def] j(1)] by (simp add: good_dir_def)
  from listing_of_map [OF this, of dot j dotdot d] j(3) have l: "mset (listing (inodes fs j)) = {#(dot, j), (dotdot, d)#}"
    by (simp add: dmap_def)
  then have "set (listing (inodes fs j)) = {(dot, j), (dotdot, d)}" by (metis set_mset_mset set_mset_add_mset_insert set_mset_empty)
  with r(1) have r1: "empty_in e 1 fs j = (?f1, True)" by simp
  have "roomy e 0 D ?f1" using e(2) same_dirD [OF r(3)] by (intro roomy_put) simp_all
  moreover have "fs_inv D I ?f1" "dmap ?f1 d name = Some j" using r(2,4) n by (simp_all add: fs_inv_def del: dmap_put)
  moreover note d
  ultimately obtain f2 where
    u: "ext2_unlink e ?f1 d name j = Some (f2, None)" "fs_inv D I f2" "dmap f2 = (dmap fs)(d := (dmap fs d)(name := None))"
      "listing (inodes f2 j) = listing d1" using j(2) r(4) by (elim unlink_ok [OF e(1)]) (auto simp del: dmap_put)
  let ?f3 = "upd_inode j (\<lambda>i. i\<lparr>i_size := 0\<rparr>) f2" and ?D = "D - {j}"
  have "refs_of (inodes f2 j) = (\<lambda>_. 0)(d := 1, j := 1)" using u(4) same_dirD(7) [OF r(3)] l j(2) by (auto simp: fun_eq_iff)
  with off_remove_dir [OF u(2) [unfolded fs_inv_def] j(1)] have "fs_off ?D I ((\<lambda>_. 0)(d := 1, j := 1)) f2" by simp
  then have o3: "fs_off ?D I ((\<lambda>_. 0)(d := 1, j := 1)) ?f3" by (rule off_file) simp_all
  have I: "j \<in> I" "d \<in> I" using offD(4) [OF r(2)] d j(1) by auto
  from off_dec [OF o3 I(1)] have o4: "fs_off ?D I ((\<lambda>_. 0)(d := 1)) (inode_dec_link_count j ?f3)"
    using fun_upd_twist [OF j(2), of "\<lambda>_. 0" 0 "1 :: int"] by simp
  from off_dec [OF o4 I(2)] have o5: "fs_inv ?D I (inode_dec_link_count d (inode_dec_link_count j ?f3))" by (simp add: fs_inv_def)
  have "ext2_rmdir e fs d name j = Some (inode_dec_link_count d (inode_dec_link_count j ?f3), None)"
    using r1 u(1) by (simp add: ext2_rmdir_def Let_def)
  moreover have "dmap ?f3 i = dmap f2 i" if "i \<noteq> j" for i using that by (simp add: dmap_def)
  then have "tree ?D (inode_dec_link_count d (inode_dec_link_count j ?f3)) = (tree D fs)(d \<mapsto> (dmap fs d)(name := None), j := None)"
    using d j(2) u(3) by (auto simp: tree_def fun_eq_iff)
  ultimately show thesis using that o5 by blast
qed

section \<open>Renaming\<close>

lemma set_link_map:
  assumes m: "add_mset (name, t) (mset ys) = add_mset (name, j) (mset xs)"
    and dist: "distinct (map fst xs)" "distinct (map fst ys)" and mem: "(name, t) \<in> set xs"
  shows "map_of ys = (map_of xs)(name \<mapsto> j)" "snd ` set ys \<subseteq> insert j (snd ` set xs)"
    "\<And>i. int (count (image_mset snd (mset ys)) i) =
       int (count (image_mset snd (mset xs)) i) + ((if i = j then 1 else 0) - (if i = t then 1 else 0))"
proof -
  obtain zs where z: "mset xs = add_mset (name, t) (mset zs)" using mem by (metis insert_DiffM ex_mset set_mset_mset)
  then have y: "mset ys = add_mset (name, j) (mset zs)" using m by (simp add: add_mset_commute)
  from ext2.map_of_mset(1) [OF y dist(2)] ext2.map_of_mset(1) [OF z dist(1)]
  show "map_of ys = (map_of xs)(name \<mapsto> j)" by simp
  have "set ys = insert (name, j) (set zs)" "set xs = insert (name, t) (set zs)"
    using y z by (metis mset.simps(2) set_mset_mset list.set(2))+
  then show "snd ` set ys \<subseteq> insert j (snd ` set xs)" by auto
  show "int (count (image_mset snd (mset ys)) i) =
      int (count (image_mset snd (mset xs)) i) + ((if i = j then 1 else 0) - (if i = t then 1 else 0))" for i
    by (simp add: y z)
qed

lemma set_link_in_ok:
  assumes e: "quiet e" "roomy e 0 D fs" and inv: "fs_off D I off fs" and d: "d \<in> D" and j: "j \<in> I"
    and at: "at_loc (inodes fs d) name loc" and n: "dmap fs d name = Some t"
  obtains d' where "set_link_in e k fs d loc j ut = Some (put_inode fs d d')"
    "fs_off D I (\<lambda>i. off i - ((if i = j then 1 else 0) - (if i = t then 1 else 0))) (put_inode fs d d')"
    "same_meta (inodes fs d) d'" "dmap (put_inode fs d d') = (dmap fs)(d := (dmap fs d)(name \<mapsto> j))"
    "i_size d' = i_size (inodes fs d)" "\<forall>n l. at_loc (inodes fs d) n l \<longrightarrow> at_loc d' n l"
proof -
  let ?sb = "fs_sb fs" and ?d = "inodes fs d"
  obtain p o1 where l: "loc = (p, o1)" by (cases loc)
  from roomyD [OF e(2), of k] obtain b where "ne_wb e k = Inr b" "\<forall>d \<in> D. i_size (inodes fs d) + 0 * s_blocksize ?sb \<le> 512 * b"
    by blast
  then have b: "ne_wb e k = Inr b" "i_size ?d \<le> 512 * b" using d by simp_all
  note g = offD(1) [OF inv d]
  from good_set_link [OF g at [unfolded l] b(2), of j "ne_now e" "i_mode (inodes fs j)" ut] offD(5) [OF inv j] obtain d' where
    r: "ext2_set_link (Inr b) None (ne_now e) ?sb ?d (p, o1) j (i_mode (inodes fs j)) ut = Some d'" "good_dir ?sb d'"
      "add_mset (name, de_inode (dpages ?d p o1)) (mset (listing d')) = add_mset (name, j) (mset (listing ?d))"
      "same_meta ?d d'" "i_size d' = i_size ?d" "\<forall>n l. at_loc ?d n l \<longrightarrow> at_loc d' n l" by blast
  have dist: "distinct (map fst (listing ?d))" "distinct (map fst (listing d'))" using g r(2) by (simp_all add: good_dir_def)
  have mem: "(name, de_inode (dpages ?d p o1)) \<in> set (listing ?d)" using at_loc_listing [OF at [unfolded l]] .
  then have "dmap fs d name = Some (de_inode (dpages ?d p o1))" using dist(1) by (simp add: dmap_def)
  then have t: "de_inode (dpages ?d p o1) = t" using n by simp
  note m = set_link_map [OF r(3) [unfolded t] dist mem [unfolded t]]
  have "snd ` set (listing d') \<subseteq> I" using m(2) offD(2) [OF inv d] j by blast
  from off_dir [OF inv d r(2) this r(4) m(3)]
  have "fs_off D I (\<lambda>i. off i - ((if i = j then 1 else 0) - (if i = t then 1 else 0))) (put_inode fs d d')" .
  moreover have "set_link_in e k fs d loc j ut = Some (put_inode fs d d')"
    using r(1) b(1) e(1) l by (simp add: set_link_in_def quiet_def)
  moreover have "dmap (put_inode fs d d') = (dmap fs)(d := (dmap fs d)(name \<mapsto> j))" using m(1) by (simp add: dmap_def)
  ultimately show thesis using that r(4-6) by blast
qed

text \<open>What the target of a rename contributes, for a file: the new name refers to it, and every other
  entry is still where it was.\<close>

definition kept :: "nm_env \<Rightarrow> nat set \<Rightarrow> fs \<Rightarrow> fs \<Rightarrow> bool" where
  "kept e D fs fs' \<longleftrightarrow> roomy e 0 D fs' \<and> (\<forall>d n l. at_loc (inodes fs d) n l \<longrightarrow> at_loc (inodes fs' d) n l)"

lemma kept_refl: "roomy e 0 D fs \<Longrightarrow> kept e D fs fs"
  by (simp add: kept_def)

lemma kept_upd:
  assumes "kept e D fs fs'" and "dcore (f (inodes fs' j)) = dcore (inodes fs' j)"
  shows "kept e D fs (upd_inode j f fs')"
proof -
  note c = dcore_cong [OF assms(2)]
  have "roomy e 0 D fs'" using assms(1) by (simp add: kept_def)
  then have "roomy e 0 D (upd_inode j f fs')" by (rule roomy_same) (use c(4) in auto)
  then show ?thesis using assms(1) c(3) by (auto simp: kept_def)
qed

lemma kept_counts:
  "kept e D fs fs' \<Longrightarrow> kept e D fs (inode_inc_link_count j fs')" "kept e D fs fs' \<Longrightarrow> kept e D fs (inode_dec_link_count j fs')"
  by (simp_all add: inode_inc_link_count_def inode_dec_link_count_def kept_upd dcore_def)

lemma at_loc_inc: "at_loc (inodes (inode_inc_link_count j fs) d) = at_loc (inodes fs d)"
  using dcore_cong(3) [of "inodes (inode_inc_link_count j fs) d" "inodes fs d"] by (auto simp: dcore_def)

lemma kept_put:
  assumes "kept e D fs fs'" and "roomy e 0 D (put_inode fs' d d')" and "\<forall>n l. at_loc (inodes fs' d) n l \<longrightarrow> at_loc d' n l"
  shows "kept e D fs (put_inode fs' d d')"
  using assms by (auto simp: kept_def)

lemma rename_target_ok:
  assumes e: "quiet e" "roomy e 1 D fs" and inv: "fs_inv D I fs" and d: "d \<in> D" and j: "j \<in> I" "unat (i_nlink (inodes fs j)) < 2 ^ 32 - 1"
    and name: "d_name new \<noteq> []" "length (d_name new) \<le> 255" and target: "d_inode new = dmap fs d (d_name new)"
  obtains fs' where "rename_target e fs j d new False = Some (fs', None)" "fs_inv D I fs'" "kept e D fs fs'"
    "dmap fs' = (dmap fs)(d := (dmap fs d)(d_name new \<mapsto> j))"
proof (cases "d_inode new")
  case None
  let ?f1 = "inode_inc_link_count j fs"
  have o1: "fs_off D I ((\<lambda>_. 0)(j := 1)) ?f1" using off_inc [of D I "\<lambda>_. 0" fs j] inv j(2) by (simp add: fs_inv_def)
  have r1: "roomy e 1 D ?f1" using e(2) by (rule roomy_same) simp_all
  have "dmap ?f1 d (d_name new) = None" using None target by simp
  from add_in_ok [OF e(1) r1 o1 d j(1) name this, of 0] obtain d' where
    a: "add_in e 0 ?f1 d (d_name new) j = Some (put_inode ?f1 d d', None)"
      "fs_off D I (((\<lambda>_. 0)(j := 1))(j := ((\<lambda>_. 0)(j := 1)) j - 1)) (put_inode ?f1 d d')"
      "dmap (put_inode ?f1 d d') = (dmap ?f1)(d := (dmap ?f1 d)(d_name new \<mapsto> j))"
      "i_size d' \<le> i_size (inodes ?f1 d) + s_blocksize (fs_sb ?f1)" "\<forall>n l. at_loc (inodes ?f1 d) n l \<longrightarrow> at_loc d' n l" by metis
  have "roomy e 0 D fs" using e(2) by (intro roomy_mono [of e 0 1 D fs]) simp_all
  then have "kept e D fs ?f1" by (intro kept_counts kept_refl)
  moreover have "roomy e 0 D (put_inode ?f1 d d')" using r1 a(4) by (intro roomy_mono [of e 0 1 D ?f1]) auto
  ultimately have "kept e D fs (put_inode ?f1 d d')" using a(5) by (rule kept_put)
  moreover have "rename_target e fs j d new False = Some (put_inode ?f1 d d', None)" using None a(1) by (simp add: rename_target_def)
  ultimately show thesis using that a(2,3) by (simp add: fs_inv_def)
next
  case (Some t)
  from find_in_ok [OF e(1) inv [unfolded fs_inv_def] d, of 3 "d_name new"] obtain d1 r where
    f: "find_in e 3 fs d (d_name new) = (put_inode fs d d1, r)" "fs_off D I (\<lambda>_. 0) (put_inode fs d d1)" "same_dir (inodes fs d) d1"
      "dmap (put_inode fs d d1) = dmap fs" "case r of Some loc \<Rightarrow> at_loc d1 (d_name new) loc | None \<Rightarrow> dmap fs d (d_name new) = None" .
  from f(5) Some target obtain loc where loc: "r = Some loc" "at_loc d1 (d_name new) loc" by (cases r) auto
  let ?f1 = "put_inode fs d d1"
  let ?f2 = "inode_inc_link_count j ?f1"
  have "roomy e 0 D fs" using e(2) by (intro roomy_mono [of e 0 1 D fs]) simp_all
  then have "kept e D fs ?f1" using same_dirD [OF f(3)] at_loc_same [OF f(3)] by (intro kept_put kept_refl roomy_put) simp_all
  then have k2: "kept e D fs ?f2" by (rule kept_counts)
  have "i_nlink (inodes ?f1 j) = i_nlink (inodes fs j)" using same_meta_same [OF f(3)] by (simp add: same_meta_def)
  then have o2: "fs_off D I ((\<lambda>_. 0)(j := 1)) ?f2" using off_inc [OF f(2), of j] j(2) by simp
  have m2: "dmap ?f2 = dmap fs" using f(4) by simp
  have at2: "at_loc (inodes ?f2 d) (d_name new) loc" using loc(2) unfolding at_loc_inc by simp
  have r2: "roomy e 0 D ?f2" using k2 by (simp add: kept_def)
  have "dmap ?f2 d (d_name new) = Some t" using m2 target Some by (simp del: dmap_counts)
  from set_link_in_ok [OF e(1) r2 o2 d j(1) at2 this, of 0 True] obtain d' where
    a: "set_link_in e 0 ?f2 d loc j True = Some (put_inode ?f2 d d')"
      "fs_off D I (\<lambda>i. ((\<lambda>_. 0)(j := 1)) i - ((if i = j then 1 else 0) - (if i = t then 1 else 0))) (put_inode ?f2 d d')"
      "dmap (put_inode ?f2 d d') = (dmap ?f2)(d := (dmap ?f2 d)(d_name new \<mapsto> j))"
      "i_size d' = i_size (inodes ?f2 d)" "\<forall>n l. at_loc (inodes ?f2 d) n l \<longrightarrow> at_loc d' n l" .
  let ?f3 = "put_inode ?f2 d d'"
  let ?f4 = "upd_inode t (\<lambda>i. i\<lparr>i_ctime := ne_now e\<rparr>) ?f3"
  have t: "t \<in> I" using offD(6) [OF f(2) d] f(4) target Some by (metis fs.select_convs)
  have "(\<lambda>i. ((\<lambda>_. 0)(j := 1)) i - ((if i = j then 1 else 0) - (if i = t then 1 else 0))) = (\<lambda>_. 0 :: int)(t := 1)" by auto
  with a(2) have "fs_off D I ((\<lambda>_. 0)(t := 1)) ?f3" by simp
  then have "fs_off D I ((\<lambda>_. 0)(t := 1)) ?f4" by (rule off_touch) (simp_all add: dcore_def)
  from off_dec [OF this t] have "fs_inv D I (inode_dec_link_count t ?f4)" by (simp add: fs_inv_def)
  moreover have "roomy e 0 D ?f3" using k2 a(4) by (intro roomy_put) (simp_all add: kept_def)
  then have "kept e D fs ?f3" using k2 a(5) by (intro kept_put) simp_all
  then have "kept e D fs (inode_dec_link_count t ?f4)" by (intro kept_counts kept_upd) (simp_all add: dcore_def)
  moreover have "dmap ?f4 = dmap ?f3" by (rule dmap_upd) (simp add: dcore_def)
  moreover have "rename_target e fs j d new False = Some (inode_dec_link_count t ?f4, None)"
    using Some f(1) loc(1) a(1) by (simp add: rename_target_def Let_def)
  ultimately show thesis using that a(3) m2 by (simp del: dmap_put)
qed

lemma recrypt_ok:
  assumes "fs_inv D I fs"
  shows "fs_inv D I (recrypt fs j p q)" "dmap (recrypt fs j p q) = dmap fs" "kept e D fs0 fs \<Longrightarrow> kept e D fs0 (recrypt fs j p q)"
proof -
  have c: "dcore (crypto (key fs) i) = dcore i" for i by (simp add: crypto_def dcore_def)
  have "fs_off D I (\<lambda>_. 0) (upd_inode j (crypto (key fs)) fs)"
    using assms unfolding fs_inv_def by (rule off_touch) (simp_all add: crypto_def dcore_def)
  then show "fs_inv D I (recrypt fs j p q)" using assms by (simp add: recrypt_def fs_inv_def)
  show "dmap (recrypt fs j p q) = dmap fs" using dmap_upd [of "crypto (key fs)" fs j] c by (simp add: recrypt_def)
  show "kept e D fs0 (recrypt fs j p q)" if "kept e D fs0 fs" using kept_upd [of e D fs0 fs "crypto (key fs)" j, OF that c] that by (simp add: recrypt_def)
qed

lemma rename_ok:
  assumes e: "quiet e" "roomy e 1 D fs" and inv: "fs_inv D I fs" and d: "od \<in> D" "nd \<in> D"
    and src: "dmap fs od (d_name old) = Some j" "\<not> S_ISDIR (i_mode (inodes fs j))" "unat (i_nlink (inodes fs j)) < 2 ^ 32 - 1"
    and name: "d_name new \<noteq> []" "length (d_name new) \<le> 255" and target: "d_inode new = dmap fs nd (d_name new)"
    and ne: "od \<noteq> nd \<or> d_name old \<noteq> d_name new"
  obtains fs' where "ext2_rename e fs od old j nd new = Some (fs', None, [Old_dir_path, New_dir_path])" "fs_inv D I fs'"
    "dmap fs' = ((dmap fs)(nd := (dmap fs nd)(d_name new \<mapsto> j)))
       (od := (((dmap fs)(nd := (dmap fs nd)(d_name new \<mapsto> j))) od)(d_name old := None))"
proof -
  let ?n = "d_name old" and ?m = "d_name new"
  from find_in_ok [OF e(1) inv [unfolded fs_inv_def] d(1), of 0 ?n] obtain d1 r where
    f: "find_in e 0 fs od ?n = (put_inode fs od d1, r)" "fs_off D I (\<lambda>_. 0) (put_inode fs od d1)" "same_dir (inodes fs od) d1"
      "dmap (put_inode fs od d1) = dmap fs" "case r of Some loc \<Rightarrow> at_loc d1 ?n loc | None \<Rightarrow> dmap fs od ?n = None" .
  let ?f1 = "put_inode fs od d1"
  from f(5) src(1) obtain loc where loc: "r = Some loc" "at_loc (inodes ?f1 od) ?n loc" by (cases r) auto
  have j: "j \<in> I" using offD(6) [OF inv [unfolded fs_inv_def] d(1) src(1)] .
  have s1: "i_size d1 = i_size (inodes fs od)" "i_mode d1 = i_mode (inodes fs od)" "i_nlink d1 = i_nlink (inodes fs od)"
    using same_dirD [OF f(3)] same_meta_same [OF f(3)] by (auto simp: same_meta_def)
  have nl: "unat (i_nlink (inodes ?f1 j)) < 2 ^ 32 - 1" "\<not> S_ISDIR (i_mode (inodes ?f1 j))" using src s1 by auto
  have r1: "roomy e 1 D ?f1" using e(2) s1 by (intro roomy_put) simp_all
  have "d_inode new = dmap ?f1 nd ?m" using target f(4) by (simp del: dmap_put)
  from rename_target_ok [OF e(1) r1 f(2) [folded fs_inv_def] d(2) j nl(1) name this] obtain f2 where
    t: "rename_target e ?f1 j nd new False = Some (f2, None)" "fs_inv D I f2" "kept e D ?f1 f2"
      "dmap f2 = (dmap ?f1)(nd := (dmap ?f1 nd)(?m \<mapsto> j))" .
  let ?f3 = "recrypt f2 j (dir_path old) (dir_path new)"
  let ?f4 = "upd_inode j (\<lambda>i. i\<lparr>i_ctime := ne_now e\<rparr>) ?f3"
  note c = recrypt_ok [OF t(2), where j = j and p = "dir_path old" and q = "dir_path new"]
  have o4: "fs_off D I (\<lambda>_. 0) ?f4" using c(1) unfolding fs_inv_def by (rule off_touch) (simp_all add: dcore_def)
  have m4: "dmap ?f4 = (dmap fs)(nd := (dmap fs nd)(?m \<mapsto> j))"
    using t(4) c(2) f(4) by (subst dmap_upd) (simp_all add: dcore_def del: dmap_put)
  have k4: "kept e D ?f1 ?f4" using c(3) [OF t(3)] by (rule kept_upd) (simp add: dcore_def)
  then have r4: "roomy e 0 D ?f4" and at: "at_loc (inodes ?f4 od) ?n loc" using loc(2) unfolding kept_def by blast+
  from delete_in_ok [OF e(1) r4 o4 d(1) at, of 1] obtain d5 j' where
    x: "delete_in e 1 ?f4 od loc = Some (put_inode ?f4 od d5, None)" "dmap ?f4 od ?n = Some j'"
      "fs_off D I ((\<lambda>_. 0)(j' := 0 + 1)) (put_inode ?f4 od d5)"
      "dmap (put_inode ?f4 od d5) = (dmap ?f4)(od := (dmap ?f4 od)(?n := None))" .
  have [simp]: "j' = j" using x(2) src(1) ne unfolding m4 by (auto split: if_splits)
  from off_dec [OF x(3), of j] j have "fs_inv D I (inode_dec_link_count j (put_inode ?f4 od d5))" by (simp add: fs_inv_def)
  moreover have "ext2_rename e fs od old j nd new = Some (inode_dec_link_count j (put_inode ?f4 od d5), None, [Old_dir_path, New_dir_path])"
    using f(1) loc(1) nl(2) t(1) x(1) e(1) by (simp add: ext2_rename_def rename_finish_def quiet_def Let_def kfree_def)
  ultimately show thesis using that x(4) unfolding m4 by (simp del: dmap_put)
qed

section \<open>The abstract name space\<close>

text \<open>Abstractly, a file system is the map from directories to their names, and the set of inodes in use.
  An operation of the VFS and what it does there:\<close>

type_synonym names = "byte list \<Rightarrow> nat option"
type_synonym name_space = "(nat \<Rightarrow> names option) \<times> nat set"

datatype fsop =
    Op_link nat nat "byte list"
  | Op_unlink nat "byte list" nat
  | Op_create nat "byte list" "16 word"
  | Op_mknod nat "byte list" "16 word"
  | Op_symlink nat "byte list" "byte list"
  | Op_mkdir nat "byte list" "16 word"
  | Op_rmdir nat "byte list" nat
  | Op_rename nat dentry nat nat dentry

inductive ns_step :: "name_space \<Rightarrow> fsop \<Rightarrow> name_space \<Rightarrow> bool" where
  link: "T d = Some m \<Longrightarrow> m n = None \<Longrightarrow> j \<in> I \<Longrightarrow> ns_step (T, I) (Op_link j d n) (T(d \<mapsto> m(n \<mapsto> j)), I)"
| unlink: "T d = Some m \<Longrightarrow> m n = Some j \<Longrightarrow> ns_step (T, I) (Op_unlink d n j) (T(d \<mapsto> m(n := None)), I)"
| create: "T d = Some m \<Longrightarrow> m n = None \<Longrightarrow> j \<notin> I \<Longrightarrow> ns_step (T, I) (Op_create d n mode) (T(d \<mapsto> m(n \<mapsto> j)), insert j I)"
| mknod: "T d = Some m \<Longrightarrow> m n = None \<Longrightarrow> j \<notin> I \<Longrightarrow> ns_step (T, I) (Op_mknod d n mode) (T(d \<mapsto> m(n \<mapsto> j)), insert j I)"
| symlink: "T d = Some m \<Longrightarrow> m n = None \<Longrightarrow> j \<notin> I \<Longrightarrow> ns_step (T, I) (Op_symlink d n path) (T(d \<mapsto> m(n \<mapsto> j)), insert j I)"
| mkdir: "T d = Some m \<Longrightarrow> m n = None \<Longrightarrow> j \<notin> I \<Longrightarrow>
    ns_step (T, I) (Op_mkdir d n mode) (T(d \<mapsto> m(n \<mapsto> j), j \<mapsto> [dot \<mapsto> j, dotdot \<mapsto> d]), insert j I)"
| rmdir: "T d = Some m \<Longrightarrow> m n = Some j \<Longrightarrow> T j = Some [dot \<mapsto> j, dotdot \<mapsto> d] \<Longrightarrow>
    ns_step (T, I) (Op_rmdir d n j) (T(d \<mapsto> m(n := None), j := None), I)"
| rename_within: "T d = Some m \<Longrightarrow> m (d_name old) = Some j \<Longrightarrow>
    ns_step (T, I) (Op_rename d old j d new) (T(d \<mapsto> (m(d_name new \<mapsto> j))(d_name old := None)), I)"
| rename_across: "T od = Some m \<Longrightarrow> m (d_name old) = Some j \<Longrightarrow> T nd = Some m' \<Longrightarrow> od \<noteq> nd \<Longrightarrow>
    ns_step (T, I) (Op_rename od old j nd new) (T(nd \<mapsto> m'(d_name new \<mapsto> j), od \<mapsto> m(d_name old := None)), I)"

text \<open>The call the VFS makes. An operation that makes no inode reports number 0.\<close>

fun exec_op :: "nm_env \<Rightarrow> fs \<Rightarrow> fsop \<Rightarrow> (fs \<times> (errno + nat)) option" where
  "exec_op e fs (Op_link j d n) = ext2_link e fs j d n"
| "exec_op e fs (Op_unlink d n j) = map_option (map_prod id (\<lambda>r. case r of None \<Rightarrow> Inr 0 | Some err \<Rightarrow> Inl err)) (ext2_unlink e fs d n j)"
| "exec_op e fs (Op_create d n mode) = ext2_create e fs d n mode"
| "exec_op e fs (Op_mknod d n mode) = ext2_mknod e fs d n mode True"
| "exec_op e fs (Op_symlink d n path) = ext2_symlink e fs d n path"
| "exec_op e fs (Op_mkdir d n mode) = ext2_mkdir e fs d n mode"
| "exec_op e fs (Op_rmdir d n j) = map_option (map_prod id (\<lambda>r. case r of None \<Rightarrow> Inr 0 | Some err \<Rightarrow> Inl err)) (ext2_rmdir e fs d n j)"
| "exec_op e fs (Op_rename od old j nd new) =
     map_option (map_prod id (\<lambda>(r, _). case r of None \<Rightarrow> Inr 0 | Some err \<Rightarrow> Inl err)) (ext2_rename e fs od old j nd new)"

text \<open>What the VFS has checked before it calls, and that the limits of the file system allow it. Only
  files are renamed here.\<close>

definition new_name :: "nat set \<Rightarrow> fs \<Rightarrow> nat \<Rightarrow> byte list \<Rightarrow> bool" where
  "new_name D fs d n \<longleftrightarrow> d \<in> D \<and> n \<noteq> [] \<and> length n \<le> 255 \<and> dmap fs d n = None"

fun permitted :: "nm_env \<Rightarrow> nat set \<Rightarrow> nat set \<Rightarrow> fs \<Rightarrow> fsop \<Rightarrow> bool" where
  "permitted e D I fs (Op_link j d n) \<longleftrightarrow> new_name D fs d n \<and> j \<in> I \<and> i_nlink (inodes fs j) < EXT2_LINK_MAX"
| "permitted e D I fs (Op_unlink d n j) \<longleftrightarrow> d \<in> D \<and> dmap fs d n = Some j"
| "permitted e D I fs (Op_create d n mode) \<longleftrightarrow> new_name D fs d n \<and> 0 < ext2_count_free_inodes (fs_sbi fs)"
| "permitted e D I fs (Op_mknod d n mode) \<longleftrightarrow> new_name D fs d n \<and> 0 < ext2_count_free_inodes (fs_sbi fs)"
| "permitted e D I fs (Op_symlink d n path) \<longleftrightarrow> new_name D fs d n \<and> 0 < ext2_count_free_inodes (fs_sbi fs) \<and>
     length path < s_blocksize (fs_sb fs) \<and> ne_symlink e = None"
| "permitted e D I fs (Op_mkdir d n mode) \<longleftrightarrow> new_name D fs d n \<and> 0 < ext2_count_free_inodes (fs_sbi fs) \<and>
     i_nlink (inodes fs d) < EXT2_LINK_MAX"
| "permitted e D I fs (Op_rmdir d n j) \<longleftrightarrow> d \<in> D \<and> dmap fs d n = Some j \<and> j \<in> D \<and> j \<noteq> d \<and> dmap fs j = [dot \<mapsto> j, dotdot \<mapsto> d]"
| "permitted e D I fs (Op_rename od old j nd new) \<longleftrightarrow> od \<in> D \<and> nd \<in> D \<and> dmap fs od (d_name old) = Some j \<and>
     \<not> S_ISDIR (i_mode (inodes fs j)) \<and> i_nlink (inodes fs j) < EXT2_LINK_MAX \<and> d_name new \<noteq> [] \<and> length (d_name new) \<le> 255 \<and>
     d_inode new = dmap fs nd (d_name new) \<and> (od \<noteq> nd \<or> d_name old \<noteq> d_name new)"

text \<open>The directories and the inodes in use afterwards; \<open>r\<close> is the number reported.\<close>

fun dirs_after :: "nat set \<Rightarrow> fsop \<Rightarrow> nat \<Rightarrow> nat set" where
  "dirs_after D (Op_mkdir d n mode) r = insert r D"
| "dirs_after D (Op_rmdir d n j) r = D - {j}"
| "dirs_after D _ r = D"

fun inos_after :: "nat set \<Rightarrow> fsop \<Rightarrow> nat \<Rightarrow> nat set" where
  "inos_after I (Op_create d n mode) r = insert r I"
| "inos_after I (Op_mknod d n mode) r = insert r I"
| "inos_after I (Op_symlink d n path) r = insert r I"
| "inos_after I (Op_mkdir d n mode) r = insert r I"
| "inos_after I _ r = I"

definition name_space :: "nat set \<Rightarrow> nat set \<Rightarrow> fs \<Rightarrow> name_space" where
  "name_space D I fs = (tree D fs, I)"

definition op_ok :: "nm_env \<Rightarrow> nat set \<Rightarrow> nat set \<Rightarrow> fs \<Rightarrow> fsop \<Rightarrow> bool" where
  "op_ok e D I fs op \<longleftrightarrow> (\<exists>fs' r. exec_op e fs op = Some (fs', Inr r) \<and> fs_inv (dirs_after D op r) (inos_after I op r) fs' \<and>
     ns_step (name_space D I fs) op (name_space (dirs_after D op r) (inos_after I op r) fs'))"

lemma op_okI:
  "exec_op e fs op = Some (fs', Inr r) \<Longrightarrow> fs_inv (dirs_after D op r) (inos_after I op r) fs' \<Longrightarrow>
    ns_step (name_space D I fs) op (tree (dirs_after D op r) fs', inos_after I op r) \<Longrightarrow> op_ok e D I fs op"
  by (auto simp: op_ok_def name_space_def)

lemma roomy_less: "roomy e 2 D fs \<Longrightarrow> roomy e 1 D fs" "roomy e 2 D fs \<Longrightarrow> roomy e 0 D fs"
  using roomy_mono [of e 1 1 D fs fs] roomy_mono [of e 0 2 D fs fs] unfolding one_add_one add_0 by simp_all

definition keeps_meta :: "(inode \<Rightarrow> inode) \<Rightarrow> bool" where
  "keeps_meta f \<longleftrightarrow> (\<forall>i. i_ino (f i) = i_ino i \<and> i_block_group (f i) = i_block_group i \<and> i_nlink (f i) = i_nlink i)"

lemma new_step:
  assumes e: "quiet e" "roomy e 2 D fs" and inv: "fs_inv D I fs" and n: "new_name D fs d n" and free: "0 < ext2_count_free_inodes (fs_sbi fs)"
    and f: "keeps_meta f"
  obtains fs1 fs2 j where "new_in e fs d mode = (fs1, Inr j)" "j \<notin> I" "ext2_add_nondir e (upd_inode j f fs1) d n j = Some (fs2, Inr j)"
    "fs_inv D (insert j I) fs2" "tree D fs2 = (tree D fs)(d \<mapsto> (dmap fs d)(n \<mapsto> j))"
proof -
  have n: "d \<in> D" "n \<noteq> []" "length n \<le> 255" "dmap fs d n = None" using n by (auto simp: new_name_def)
  show thesis
    using new_nondir_ok [OF e(1) roomy_less(1) [OF e(2)] inv n(1) free n(2-4), of f mode] f that unfolding keeps_meta_def by metis
qed

lemma keeps_dirty: "keeps_meta (\<lambda>i. i\<lparr>i_dirty := True\<rparr>)"
  by (simp add: keeps_meta_def)

lemma new_ns: "new_name D fs d n \<Longrightarrow> tree D fs d = Some (dmap fs d) \<and> dmap fs d n = None"
  by (simp add: new_name_def tree_def)

text \<open>One lemma for each operation.\<close>

lemma op_link_ok:
  assumes e: "quiet e" "roomy e 2 D fs" and inv: "fs_inv D I fs" and p: "permitted e D I fs (Op_link j d n)"
  shows "op_ok e D I fs (Op_link j d n)"
proof -
  have n: "d \<in> D" "n \<noteq> []" "length n \<le> 255" "dmap fs d n = None" "j \<in> I" "i_nlink (inodes fs j) < EXT2_LINK_MAX"
    using p by (auto simp: new_name_def)
  from link_ok [OF e(1) roomy_less(1) [OF e(2)] inv n(1,5,6,2-4)] obtain fs' where
    r: "ext2_link e fs j d n = Some (fs', Inr j)" "fs_inv D I fs'" "dmap fs' = (dmap fs)(d := (dmap fs d)(n \<mapsto> j))" .
  have "tree D fs' = (tree D fs)(d \<mapsto> (dmap fs d)(n \<mapsto> j))" using r(3) n(1) by (intro tree_upd) simp_all
  then show ?thesis using r n by (intro op_okI [where fs' = fs' and r = j]) (auto simp: name_space_def tree_Some intro: ns_step.link)
qed

lemma op_unlink_ok:
  assumes e: "quiet e" "roomy e 2 D fs" and inv: "fs_inv D I fs" and p: "permitted e D I fs (Op_unlink d n j)"
  shows "op_ok e D I fs (Op_unlink d n j)"
proof -
  have n: "d \<in> D" "dmap fs d n = Some j" using p by auto
  from unlink_ok [OF e(1) roomy_less(2) [OF e(2)] inv n] obtain fs' where
    r: "ext2_unlink e fs d n j = Some (fs', None)" "fs_inv D I fs'" "dmap fs' = (dmap fs)(d := (dmap fs d)(n := None))" .
  have "tree D fs' = (tree D fs)(d \<mapsto> (dmap fs d)(n := None))" using r(3) n(1) by (intro tree_upd) simp_all
  then show ?thesis using r n by (intro op_okI [where fs' = fs' and r = 0]) (auto simp: name_space_def tree_Some intro: ns_step.unlink)
qed

lemma op_create_ok:
  assumes e: "quiet e" "roomy e 2 D fs" and inv: "fs_inv D I fs" and p: "permitted e D I fs (Op_create d n mode)"
  shows "op_ok e D I fs (Op_create d n mode)"
proof -
  from p have n: "new_name D fs d n" "0 < ext2_count_free_inodes (fs_sbi fs)" by auto
  from new_step [OF e inv n keeps_dirty, of "or S_IFIM (xor mode S_IFREG)"] obtain fs1 fs2 j where
    r: "new_in e fs d (or S_IFIM (xor mode S_IFREG)) = (fs1, Inr j)" "j \<notin> I"
      "ext2_add_nondir e (upd_inode j (\<lambda>i. i\<lparr>i_dirty := True\<rparr>) fs1) d n j = Some (fs2, Inr j)"
      "fs_inv D (insert j I) fs2" "tree D fs2 = (tree D fs)(d \<mapsto> (dmap fs d)(n \<mapsto> j))" .
  then show ?thesis using new_ns [OF n(1)]
    by (intro op_okI [where fs' = fs2 and r = j]) (auto simp: ext2_create_def name_space_def intro: ns_step.create)
qed

lemma op_mknod_ok:
  assumes e: "quiet e" "roomy e 2 D fs" and inv: "fs_inv D I fs" and p: "permitted e D I fs (Op_mknod d n mode)"
  shows "op_ok e D I fs (Op_mknod d n mode)"
proof -
  from p have n: "new_name D fs d n" "0 < ext2_count_free_inodes (fs_sbi fs)" by auto
  from new_step [OF e inv n keeps_dirty, of mode] obtain fs1 fs2 j where
    r: "new_in e fs d mode = (fs1, Inr j)" "j \<notin> I" "ext2_add_nondir e (upd_inode j (\<lambda>i. i\<lparr>i_dirty := True\<rparr>) fs1) d n j = Some (fs2, Inr j)"
      "fs_inv D (insert j I) fs2" "tree D fs2 = (tree D fs)(d \<mapsto> (dmap fs d)(n \<mapsto> j))" .
  then show ?thesis using new_ns [OF n(1)]
    by (intro op_okI [where fs' = fs2 and r = j]) (auto simp: ext2_mknod_def name_space_def intro: ns_step.mknod)
qed

lemma op_symlink_ok:
  assumes e: "quiet e" "roomy e 2 D fs" and inv: "fs_inv D I fs" and p: "permitted e D I fs (Op_symlink d n path)"
  shows "op_ok e D I fs (Op_symlink d n path)"
proof -
  let ?l = "length path + 1"
  define f :: "inode \<Rightarrow> inode" where "f = (\<lambda>i. if ?l > 60 then i\<lparr>fpages := (fpages i)(0 := path), i_size := ?l - 1, i_dirty := True\<rparr>
    else i\<lparr>i_data := path @ [0] @ drop ?l (i_data i), i_size := ?l - 1, i_dirty := True\<rparr>)"
  from p have n: "new_name D fs d n" "0 < ext2_count_free_inodes (fs_sbi fs)" "length path < s_blocksize (fs_sb fs)" "ne_symlink e = None"
    by auto
  have "keeps_meta f" by (simp add: keeps_meta_def f_def)
  from new_step [OF e inv n(1,2) this, of "or S_IFLNK 0x1FF"] obtain fs1 fs2 j where
    r: "new_in e fs d (or S_IFLNK 0x1FF) = (fs1, Inr j)" "j \<notin> I" "ext2_add_nondir e (upd_inode j f fs1) d n j = Some (fs2, Inr j)"
      "fs_inv D (insert j I) fs2" "tree D fs2 = (tree D fs)(d \<mapsto> (dmap fs d)(n \<mapsto> j))" .
  have "ext2_symlink e fs d n path = Some (fs2, Inr j)"
    using r(1,3) n(3,4) by (cases "?l > 60") (simp_all add: ext2_symlink_def f_def Let_def)
  then show ?thesis using new_ns [OF n(1)] r
    by (intro op_okI [where fs' = fs2 and r = j]) (auto simp: name_space_def intro: ns_step.symlink)
qed

lemma op_mkdir_ok:
  assumes e: "quiet e" "roomy e 2 D fs" and inv: "fs_inv D I fs" and p: "permitted e D I fs (Op_mkdir d n mode)"
  shows "op_ok e D I fs (Op_mkdir d n mode)"
proof -
  have n: "d \<in> D" "0 < ext2_count_free_inodes (fs_sbi fs)" "n \<noteq> []" "length n \<le> 255" "dmap fs d n = None"
    "i_nlink (inodes fs d) < EXT2_LINK_MAX" using p by (auto simp: new_name_def)
  from mkdir_ok [OF e inv n, of mode] obtain fs' j where
    r: "ext2_mkdir e fs d n mode = Some (fs', Inr j)" "j \<notin> I" "fs_inv (insert j D) (insert j I) fs'"
      "tree (insert j D) fs' = (tree D fs)(d \<mapsto> (dmap fs d)(n \<mapsto> j), j \<mapsto> [dot \<mapsto> j, dotdot \<mapsto> d])" .
  then show ?thesis using n
    by (intro op_okI [where fs' = fs' and r = j]) (auto simp: name_space_def tree_Some intro: ns_step.mkdir)
qed

lemma op_rmdir_ok:
  assumes e: "quiet e" "roomy e 2 D fs" and inv: "fs_inv D I fs" and p: "permitted e D I fs (Op_rmdir d n j)"
  shows "op_ok e D I fs (Op_rmdir d n j)"
proof -
  have n: "d \<in> D" "dmap fs d n = Some j" "j \<in> D" "j \<noteq> d" "dmap fs j = [dot \<mapsto> j, dotdot \<mapsto> d]" using p by auto
  from rmdir_ok [OF e(1) roomy_less(2) [OF e(2)] inv n] obtain fs' where
    r: "ext2_rmdir e fs d n j = Some (fs', None)" "fs_inv (D - {j}) I fs'"
      "tree (D - {j}) fs' = (tree D fs)(d \<mapsto> (dmap fs d)(n := None), j := None)" .
  then show ?thesis using n
    by (intro op_okI [where fs' = fs' and r = 0]) (auto simp: name_space_def tree_Some intro!: ns_step.rmdir)
qed

lemma op_rename_ok:
  assumes e: "quiet e" "roomy e 2 D fs" and inv: "fs_inv D I fs" and p: "permitted e D I fs (Op_rename od old j nd new)"
  shows "op_ok e D I fs (Op_rename od old j nd new)"
proof -
  have n: "od \<in> D" "nd \<in> D" "dmap fs od (d_name old) = Some j" "\<not> S_ISDIR (i_mode (inodes fs j))" "unat (i_nlink (inodes fs j)) < 2 ^ 32 - 1"
    "d_name new \<noteq> []" "length (d_name new) \<le> 255" "d_inode new = dmap fs nd (d_name new)" "od \<noteq> nd \<or> d_name old \<noteq> d_name new"
    using p by (auto simp: word_less_nat_alt)
  from rename_ok [OF e(1) roomy_less(1) [OF e(2)] inv n] obtain fs' where
    r: "ext2_rename e fs od old j nd new = Some (fs', None, [Old_dir_path, New_dir_path])" "fs_inv D I fs'"
    "dmap fs' = ((dmap fs)(nd := (dmap fs nd)(d_name new \<mapsto> j)))
       (od := (((dmap fs)(nd := (dmap fs nd)(d_name new \<mapsto> j))) od)(d_name old := None))" .
  have "ns_step (name_space D I fs) (Op_rename od old j nd new) (tree D fs', I)"
  proof (cases "od = nd")
    case True
    then have "tree D fs' = (tree D fs)(od \<mapsto> ((dmap fs od)(d_name new \<mapsto> j))(d_name old := None))"
      using n(1) by (intro tree_upd) (simp_all add: r(3))
    then show ?thesis using n(1,3) True by (auto simp: name_space_def tree_Some intro: ns_step.rename_within)
  next
    case False
    then have "tree D fs' = (tree D fs)(nd \<mapsto> (dmap fs nd)(d_name new \<mapsto> j), od \<mapsto> (dmap fs od)(d_name old := None))"
      using n(1,2) by (auto simp: tree_def r(3) fun_eq_iff)
    then show ?thesis using n(1-3) False by (auto simp: name_space_def tree_Some intro: ns_step.rename_across)
  qed
  then show ?thesis using r by (intro op_okI [where fs' = fs' and r = 0]) auto
qed

lemmas op_oks = op_link_ok op_unlink_ok op_create_ok op_mknod_ok op_symlink_ok op_mkdir_ok op_rmdir_ok op_rename_ok

lemma permitted_op_ok: "quiet e \<Longrightarrow> roomy e 2 D fs \<Longrightarrow> fs_inv D I fs \<Longrightarrow> permitted e D I fs op \<Longrightarrow> op_ok e D I fs op"
  by (cases op) (simp_all only: op_oks)

section \<open>Refused operations\<close>

text \<open>The errors that the operations report when nothing fails underneath: a limit is reached, or the names
  are not as the operation wants them.\<close>

definition no_inode :: "nat set \<Rightarrow> fs \<Rightarrow> nat \<Rightarrow> bool" where
  "no_inode D fs d \<longleftrightarrow> d \<in> D \<and> ext2_count_free_inodes (fs_sbi fs) = 0"

definition has_names :: "fs \<Rightarrow> nat \<Rightarrow> bool" where
  "has_names fs j \<longleftrightarrow> (\<exists>n i. dmap fs j n = Some i \<and> \<not> (n = dot \<and> i = j \<or> n = dotdot))"

fun refusal :: "nat set \<Rightarrow> fs \<Rightarrow> fsop \<Rightarrow> errno option" where
  "refusal D fs (Op_link j d n) = (if EXT2_LINK_MAX \<le> i_nlink (inodes fs j) then Some EMLINK else None)"
| "refusal D fs (Op_unlink d n j) = (if d \<in> D \<and> dmap fs d n = None then Some ENOENT else None)"
| "refusal D fs (Op_create d n mode) = (if no_inode D fs d then Some ENOSPC else None)"
| "refusal D fs (Op_mknod d n mode) = (if no_inode D fs d then Some ENOSPC else None)"
| "refusal D fs (Op_symlink d n path) =
     (if s_blocksize (fs_sb fs) \<le> length path then Some ENAMETOOLONG
      else if no_inode D fs d then Some ENOSPC else None)"
| "refusal D fs (Op_mkdir d n mode) =
     (if EXT2_LINK_MAX \<le> i_nlink (inodes fs d) then Some EMLINK else if no_inode D fs d then Some ENOSPC else None)"
| "refusal D fs (Op_rmdir d n j) = (if j \<in> D \<and> has_names fs j then Some ENOTEMPTY else None)"
| "refusal D fs (Op_rename od old j nd new) = (if od \<in> D \<and> dmap fs od (d_name old) = None then Some ENOENT else None)"

definition refused_ok :: "nm_env \<Rightarrow> nat set \<Rightarrow> nat set \<Rightarrow> fs \<Rightarrow> fsop \<Rightarrow> errno \<Rightarrow> bool" where
  "refused_ok e D I fs op err \<longleftrightarrow>
     (\<exists>fs'. exec_op e fs op = Some (fs', Inl err) \<and> fs_inv D I fs' \<and> name_space D I fs' = name_space D I fs)"

lemma refused_okI:
  "exec_op e fs op = Some (fs', Inl err) \<Longrightarrow> fs_inv D I fs' \<Longrightarrow> dmap fs' = dmap fs \<Longrightarrow> refused_ok e D I fs op err"
  by (auto simp: refused_ok_def name_space_def tree_def fun_eq_iff)

lemma new_in_full:
  assumes "quiet e" and "fs_off D I off fs" and "ext2_count_free_inodes (fs_sbi fs) = 0"
  shows "new_in e fs d mode = (fs, Inl ENOSPC)"
proof -
  have "ext2_new_inode (ne_ni e) (fs_sbi fs) (inodes fs d) mode = (fs_sbi fs, Failed ENOSPC)"
    using assms by (intro new_inode_full) (auto simp: fs_off_def quiet_def benign_def)
  then show ?thesis by (simp add: new_in_def)
qed

lemma not_found:
  assumes "quiet e" and "fs_inv D I fs" and "d \<in> D" and "dmap fs d n = None"
  obtains d' where "find_in e k fs d n = (put_inode fs d d', None)" "fs_inv D I (put_inode fs d d')"
    "dmap (put_inode fs d d') = dmap fs"
proof -
  from find_in_ok [OF assms(1) assms(2) [unfolded fs_inv_def] assms(3), of k n] obtain d' r where
    f: "find_in e k fs d n = (put_inode fs d d', r)" "fs_off D I (\<lambda>_. 0) (put_inode fs d d')"
      "dmap (put_inode fs d d') = dmap fs" "case r of Some loc \<Rightarrow> at_loc d' n loc | None \<Rightarrow> dmap fs d n = None" .
  have "r = None"
  proof (cases r)
    case (Some loc)
    then have "(n, de_inode (dpages d' (fst loc) (snd loc))) \<in> set (listing d')" using f(4) at_loc_listing by (cases loc) auto
    then have "map_of (listing d') n \<noteq> None" using weak_map_of_SomeI by fastforce
    then have "dmap (put_inode fs d d') d n \<noteq> None" by simp
    then show ?thesis using f(3) assms(4) by (simp del: dmap_put)
  qed
  with f that show thesis by (simp add: fs_inv_def)
qed

lemma refused_full:
  assumes "quiet e" "fs_inv D I fs" and "no_inode D fs d"
  shows "refused_ok e D I fs (Op_create d n mode) ENOSPC" "refused_ok e D I fs (Op_mknod d n mode) ENOSPC"
    "length path < s_blocksize (fs_sb fs) \<Longrightarrow> refused_ok e D I fs (Op_symlink d n path) ENOSPC"
  using new_in_full [OF assms(1) assms(2) [unfolded fs_inv_def]] assms(2,3)
  by (auto intro!: refused_okI simp: no_inode_def ext2_create_def ext2_mknod_def ext2_symlink_def)

lemma refused_mkdir_full:
  assumes e: "quiet e" and inv: "fs_inv D I fs" and d: "no_inode D fs d" and nl: "i_nlink (inodes fs d) < EXT2_LINK_MAX"
  shows "refused_ok e D I fs (Op_mkdir d n mode) ENOSPC"
proof -
  have d: "d \<in> D" "ext2_count_free_inodes (fs_sbi fs) = 0" using d by (auto simp: no_inode_def)
  have "unat (i_nlink (inodes fs d)) < 2 ^ 32 - 1" using nl by (simp add: word_less_nat_alt)
  from off_inc [OF inv [unfolded fs_inv_def] this] have
    o1: "fs_off D I ((\<lambda>_. 0)(d := 0 + 1)) (inode_inc_link_count d fs)" .
  have "d \<in> I" using offD(4) [OF inv [unfolded fs_inv_def]] d(1) by blast
  from off_dec [OF o1 this] have "fs_inv D I (inode_dec_link_count d (inode_inc_link_count d fs))"
    by (simp add: fs_inv_def)
  moreover have "new_in e (inode_inc_link_count d fs) d m = (inode_inc_link_count d fs, Inl ENOSPC)" for m
    using d(2) by (intro new_in_full [OF e o1]) (simp add: inode_inc_link_count_def upd_inode_def put_inode_def)
  ultimately show ?thesis using nl
    by (intro refused_okI [where fs' = "inode_dec_link_count d (inode_inc_link_count d fs)"])
      (simp_all add: ext2_mkdir_def Let_def not_le)
qed

lemma refused_rmdir:
  assumes e: "quiet e" and inv: "fs_inv D I fs" and j: "j \<in> D" "has_names fs j"
  shows "refused_ok e D I fs (Op_rmdir d n j) ENOTEMPTY"
proof -
  from empty_in_ok [OF e inv [unfolded fs_inv_def] j(1), of 1] obtain j' where
    x: "empty_in e 1 fs j = (put_inode fs j j', \<forall>(name, ino) \<in> set (listing (inodes fs j)). name = dot \<and> ino = j \<or> name = dotdot)"
      "fs_off D I (\<lambda>_. 0) (put_inode fs j j')" "dmap (put_inode fs j j') = dmap fs" .
  have "\<not> (\<forall>(name, ino) \<in> set (listing (inodes fs j)). name = dot \<and> ino = j \<or> name = dotdot)"
    using j(2) map_of_SomeD by (fastforce simp: has_names_def dmap_def)
  with x(1) have "empty_in e 1 fs j = (put_inode fs j j', False)" by (simp only:)
  with x(2,3) show ?thesis
    by (intro refused_okI [where fs' = "put_inode fs j j'"]) (simp_all add: ext2_rmdir_def fs_inv_def del: dmap_put)
qed

lemma refused_lookups:
  assumes e: "quiet e" and inv: "fs_inv D I fs" and d: "d \<in> D"
  shows "dmap fs d n = None \<Longrightarrow> refused_ok e D I fs (Op_unlink d n j) ENOENT"
    "dmap fs d (d_name old) = None \<Longrightarrow> refused_ok e D I fs (Op_rename d old j nd new) ENOENT"
proof -
  assume "dmap fs d n = None"
  from not_found [OF e inv d this, of 0] obtain d' where
    "find_in e 0 fs d n = (put_inode fs d d', None)" "fs_inv D I (put_inode fs d d')" "dmap (put_inode fs d d') = dmap fs" .
  then show "refused_ok e D I fs (Op_unlink d n j) ENOENT"
    by (intro refused_okI [where fs' = "put_inode fs d d'"]) (simp_all add: ext2_unlink_def del: dmap_put)
next
  assume "dmap fs d (d_name old) = None"
  from not_found [OF e inv d this, of 0] obtain d' where
    "find_in e 0 fs d (d_name old) = (put_inode fs d d', None)" "fs_inv D I (put_inode fs d d')" "dmap (put_inode fs d d') = dmap fs" .
  moreover have "ne_mem e" using e by (simp add: quiet_def)
  ultimately show "refused_ok e D I fs (Op_rename d old j nd new) ENOENT"
    by (intro refused_okI [where fs' = "put_inode fs d d'"]) (simp_all add: ext2_rename_def rename_out_def Let_def del: dmap_put)
qed

lemma refusal_ok:
  assumes "quiet e" "fs_inv D I fs" and "refusal D fs op = Some err"
  shows "refused_ok e D I fs op err"
proof (cases op)
  case (Op_link j d n)
  with assms show ?thesis by (intro refused_okI [where fs' = fs]) (auto simp: ext2_link_def split: if_splits)
next
  case (Op_symlink d n path)
  have "refused_ok e D I fs op ENAMETOOLONG" if "s_blocksize (fs_sb fs) \<le> length path"
    using that assms(2) Op_symlink by (intro refused_okI [where fs' = fs]) (simp_all add: ext2_symlink_def Let_def)
  with assms refused_full(3) [OF assms(1,2)] Op_symlink show ?thesis by (auto split: if_splits)
next
  case (Op_mkdir d n mode)
  have "refused_ok e D I fs op EMLINK" if "EXT2_LINK_MAX \<le> i_nlink (inodes fs d)"
    using that assms(2) Op_mkdir by (intro refused_okI [where fs' = fs]) (simp_all add: ext2_mkdir_def)
  with assms refused_mkdir_full [OF assms(1,2)] Op_mkdir show ?thesis by (auto split: if_splits)
qed (use assms refused_full refused_rmdir refused_lookups in \<open>auto split: if_splits\<close>)

section \<open>Runs\<close>

text \<open>Sequences of operations with their results, each in an environment of its own: operations that the
  VFS may ask for, and operations that are refused.\<close>

inductive fs_run :: "nat set \<Rightarrow> nat set \<Rightarrow> fs \<Rightarrow> (fsop \<times> (errno + nat)) list \<Rightarrow> nat set \<Rightarrow> nat set \<Rightarrow> fs \<Rightarrow> bool" where
  start: "fs_run D I fs [] D I fs"
| step: "fs_run D0 I0 fs0 evs D I fs \<Longrightarrow> quiet e \<Longrightarrow> roomy e 2 D fs \<Longrightarrow> permitted e D I fs op \<Longrightarrow>
    exec_op e fs op = Some (fs', Inr r) \<Longrightarrow> fs_run D0 I0 fs0 (evs @ [(op, Inr r)]) (dirs_after D op r) (inos_after I op r) fs'"
| refuse: "fs_run D0 I0 fs0 evs D I fs \<Longrightarrow> quiet e \<Longrightarrow> refusal D fs op \<noteq> None \<Longrightarrow>
    exec_op e fs op = Some (fs', Inl err) \<Longrightarrow> fs_run D0 I0 fs0 (evs @ [(op, Inl err)]) D I fs'"

inductive ns_run :: "name_space \<Rightarrow> fsop list \<Rightarrow> name_space \<Rightarrow> bool" where
  start: "ns_run N [] N"
| step: "ns_run N0 ops N \<Longrightarrow> ns_step N op N' \<Longrightarrow> ns_run N0 (ops @ [op]) N'"

definition succeeded :: "(fsop \<times> (errno + nat)) list \<Rightarrow> fsop list" where
  "succeeded evs = map fst (filter (\<lambda>(op, r). \<not> isl r) evs)"

lemma succeeded_snoc [simp]:
  "succeeded [] = []" "succeeded (evs @ [(op, Inr r)]) = succeeded evs @ [op]" "succeeded (evs @ [(op, Inl err)]) = succeeded evs"
  by (simp_all add: succeeded_def)

lemma run_ok:
  assumes "fs_run D0 I0 fs0 evs D I fs" and "fs_inv D0 I0 fs0"
  shows "fs_inv D I fs \<and> ns_run (name_space D0 I0 fs0) (succeeded evs) (name_space D I fs)"
  using assms
proof (induction rule: fs_run.induct)
  case (start D I fs)
  then show ?case by (simp add: ns_run.start)
next
  case (step D0 I0 fs0 evs D I fs e op fs' r)
  then have ih: "fs_inv D I fs" "ns_run (name_space D0 I0 fs0) (succeeded evs) (name_space D I fs)" by auto
  from permitted_op_ok [OF step.hyps(2,3) ih(1) step.hyps(4)] step.hyps(5)
  show ?case using ns_run.step [OF ih(2)] by (auto simp: op_ok_def)
next
  case (refuse D0 I0 fs0 evs D I fs e op fs' err)
  then have ih: "fs_inv D I fs" "ns_run (name_space D0 I0 fs0) (succeeded evs) (name_space D I fs)" by auto
  from refuse.hyps(3) obtain err' where "refusal D fs op = Some err'" by auto
  from refusal_ok [OF refuse.hyps(2) ih(1) this] refuse.hyps(4) ih show ?case by (auto simp: refused_ok_def)
qed

section \<open>A file system with its root directory\<close>

definition fs_ex :: fs where
  "fs_ex = \<lparr>fs_sb = sb_ex, fs_sbi = sbi_ex, inodes = (\<lambda>_. dir_ex), icount = (\<lambda>_. 1), key = 0x5A\<rparr>"

definition nm_ex :: nm_env where
  "nm_ex = \<lparr>ne_rd = (\<lambda>_ _. None), ne_wb = (\<lambda>_. Inr 8), ne_sync = (\<lambda>_. None), ne_now = 9, ne_mem = True, ne_symlink = None,
     ne_iget = (\<lambda>_. None), ne_ni = env_ex\<rparr>"

lemma fs_ex_inv: "fs_inv {2} {2} fs_ex"
proof -
  have "used sbi_ex 2" "s_max_ino sbi_ex = 100" "s_groups_count sbi_ex = 2" by (simp_all add: used_def sbi_ex_def)
  moreover have "i_block_group dir_ex = 0" "i_nlink dir_ex = 2" by (simp_all add: dir_ex_def)
  ultimately show ?thesis using dir_ex_good sbi_ex_ok by (simp add: fs_inv_def fs_off_def links_def dir_ex_listing fs_ex_def)
qed

lemma nm_ex_quiet: "quiet nm_ex" "roomy nm_ex 2 {2} fs_ex"
  by (simp_all add: quiet_def roomy_def nm_ex_def env_ex_benign fs_ex_def)

lemma fs_ex_dmap: "dmap fs_ex d = [dot \<mapsto> 2, dotdot \<mapsto> 2]"
  by (auto simp: dmap_def fs_ex_def dir_ex_listing)

lemma fs_ex_mkdir: "permitted nm_ex {2} {2} fs_ex (Op_mkdir 2 [0x61] 0x1ED)"
  by (simp add: new_name_def fs_ex_dmap) (simp add: fs_ex_def sbi_ex_count dir_ex_def)

section \<open>Properties\<close>

text \<open>C1: The name operations refine the abstract name space. When nothing fails underneath and the VFS
  has made its checks, \<open>link\<close>, \<open>unlink\<close>, \<open>create\<close>, \<open>mknod\<close>, \<open>symlink\<close>, \<open>mkdir\<close>, \<open>rmdir\<close> and, for
  files, \<open>rename\<close> with or without an existing target all succeed, change the maps of names
  exactly as the specification says and keep the invariant: directories in good order, entries
  refer to allocated inodes only, and every link count is the number of entries for the inode.\<close>

theorem name_operations_refine:
  assumes "quiet e" and "roomy e 2 D fs" and "fs_inv D I fs" and "permitted e D I fs op"
  shows "\<exists>fs' r. exec_op e fs op = Some (fs', Inr r) \<and> fs_inv (dirs_after D op r) (inos_after I op r) fs' \<and>
     ns_step (name_space D I fs) op (name_space (dirs_after D op r) (inos_after I op r) fs')"
  using permitted_op_ok [OF assms] by (simp only: op_ok_def)

theorem name_operations_refine_witness:
  "\<exists>fs' r. ext2_mkdir nm_ex fs_ex 2 [0x61] 0x1ED = Some (fs', Inr r) \<and> fs_inv {r, 2} {r, 2} fs' \<and>
     ns_step (name_space {2} {2} fs_ex) (Op_mkdir 2 [0x61] 0x1ED) (name_space {r, 2} {r, 2} fs')"
  using name_operations_refine [OF nm_ex_quiet fs_ex_inv fs_ex_mkdir] by simp

text \<open>C2: Take any sequence of operations from a file system in good order in which nothing fails underneath
  (quiet) and directories have room, and in which each operation either meets the conditions under which the
  VFS asks for it (permitted; of renames those of files only) or is refused by the code itself, since a link
  count is at its limit, no inode is free, the path of a symbolic link is too long, the directory to be
  removed is not empty, or the name to be removed or renamed is not there. In the state it reaches,
  each name of each directory refers to an inode the allocator has marked as used, and the link count of an
  inode is the number of entries that refer to it. The operations that succeeded are a run of the abstract
  name space as well, those that were refused have left no trace in it, and an operation that is to be
  refused in that state reports the error for it and changes no name.\<close>

theorem run_keeps_links:
  assumes "fs_run D0 I0 fs0 evs D I fs" and "fs_inv D0 I0 fs0"
  shows "ns_run (name_space D0 I0 fs0) (succeeded evs) (name_space D I fs) \<and>
    (\<forall>d \<in> D. \<forall>n j. dmap fs d n = Some j \<longrightarrow> used (fs_sbi fs) j \<and> unat (i_nlink (inodes fs j)) = links D fs j) \<and>
    (\<forall>e op err. quiet e \<and> refusal D fs op = Some err \<longrightarrow>
       (\<exists>fs'. exec_op e fs op = Some (fs', Inl err) \<and> name_space D I fs' = name_space D I fs))"
proof -
  have r: "fs_inv D I fs" "ns_run (name_space D0 I0 fs0) (succeeded evs) (name_space D I fs)" using run_ok [OF assms] by auto
  moreover have "used (fs_sbi fs) j \<and> unat (i_nlink (inodes fs j)) = links D fs j" if "d \<in> D" "dmap fs d n = Some j" for d n j
  proof -
    have "used (fs_sbi fs) j \<and> int (unat (i_nlink (inodes fs j))) = int (links D fs j) + 0"
      using offD(6) [OF r(1) [unfolded fs_inv_def] that] r(1) unfolding fs_inv_def fs_off_def by blast
    then show ?thesis by linarith
  qed
  moreover have "\<exists>fs'. exec_op e fs op = Some (fs', Inl err) \<and> name_space D I fs' = name_space D I fs"
    if "quiet e \<and> refusal D fs op = Some err" for e op err
    using refusal_ok [OF _ r(1)] that unfolding refused_ok_def by blast
  ultimately show ?thesis by blast
qed

theorem run_keeps_links_witness:
  "\<exists>r fs. fs_run {2} {2} fs_ex [(Op_mkdir 2 [0x61] 0x1ED, Inr r)] {r, 2} {r, 2} fs \<and> dmap fs 2 [0x61] = Some r \<and>
     used (fs_sbi fs) r \<and> unat (i_nlink (inodes fs r)) = links {r, 2} fs r"
proof -
  have "dmap fs_ex 2 [0x61] = None" "0 < ext2_count_free_inodes (fs_sbi fs_ex)" "i_nlink (inodes fs_ex 2) < EXT2_LINK_MAX"
    using fs_ex_mkdir by (simp_all add: new_name_def)
  from mkdir_ok [OF nm_ex_quiet fs_ex_inv _ this(2) _ _ this(1,3), of "0x1ED"] obtain fs j where
    m: "ext2_mkdir nm_ex fs_ex 2 [0x61] 0x1ED = Some (fs, Inr j)" "j \<notin> {2}"
      "tree {j, 2} fs = (tree {2} fs_ex)(2 \<mapsto> (dmap fs_ex 2)([0x61] \<mapsto> j), j \<mapsto> [dot \<mapsto> j, dotdot \<mapsto> 2])" by simp blast
  have "tree {j, 2} fs 2 = Some ((dmap fs_ex 2)([0x61] \<mapsto> j))" using m(2,3) by simp
  then have "dmap fs 2 [0x61] = Some j" by (simp add: tree_def)
  moreover have run: "fs_run {2} {2} fs_ex [(Op_mkdir 2 [0x61] 0x1ED, Inr j)] {j, 2} {j, 2} fs"
    using fs_run.step [OF fs_run.start nm_ex_quiet fs_ex_mkdir] m(1) by simp
  ultimately show ?thesis using run_keeps_links [OF run fs_ex_inv] by (intro exI [of _ j] exI [of _ fs]) simp
qed

lemma xor_zero_iff: "xor a b = 0 \<longleftrightarrow> a = b" for a b :: byte
proof
  assume "xor a b = 0"
  then have "xor (xor a b) b = xor 0 b" by simp
  then show "a = b" by (simp add: xor.assoc)
qed simp

text \<open>The first byte of a page in \<open>/encrypt\<close>, and what becomes of a file when it is brought there and back.\<close>

lemma crypto_page_twice:
  "crypto_page k (crypto_page k bs) = bs \<longleftrightarrow> ucast k = (0 :: byte) \<or> bs = [] \<or> hd bs \<noteq> ucast k"
  by (cases bs) (auto simp: crypto_page_def xor_byte_def xor.assoc xor_zero_iff)

lemma crypto_twice:
  "crypto k (crypto k inode) = inode \<longleftrightarrow>
     ucast k = (0 :: byte) \<or> (\<forall>i < dir_pages inode. fpages inode i = [] \<or> hd (fpages inode i) \<noteq> ucast k)"
proof -
  let ?P = "dir_pages inode" and ?f = "fpages inode"
  have "crypto k (crypto k inode) =
      inode\<lparr>fpages := \<lambda>i. if i < ?P then crypto_page k (crypto_page k (?f i)) else ?f i\<rparr>" (is "_ = inode\<lparr>fpages := ?g\<rparr>")
    by (simp add: crypto_def dir_pages_def fun_eq_iff)
  moreover have "inode\<lparr>fpages := ?g\<rparr> = inode \<longleftrightarrow> ?g = ?f" by (cases inode) simp
  moreover have "?g = ?f \<longleftrightarrow> (\<forall>i < ?P. crypto_page k (crypto_page k (?f i)) = ?f i)" by (auto simp: fun_eq_iff)
  ultimately show ?thesis unfolding crypto_page_twice by auto
qed

lemma upd_inode_same: "upd_inode j f fs = fs \<longleftrightarrow> f (inodes fs j) = inodes fs j"
  unfolding upd_inode_def put_inode_def by (cases fs) (auto simp: fun_eq_iff)

text \<open>C16: The encryption that is part of renaming an inode. It touches regular files only, and only when one of the two
  directories is \<open>/encrypt\<close> and the other is not. Then, in both directions, the first byte of each page within
  the size of the file is exclusive-ored with the low byte of the key unless it is 0; the other bytes, the
  pages behind the size, the rest of the inode and all other inodes stay as they are. Moving the file the
  one way and back gives the old file system exactly when the low byte of the key is 0 or no page within
  the size begins with it: such a byte becomes 0, which is not changed back.\<close>

theorem recrypt_there_and_back:
  shows "if S_ISREG (i_mode (inodes fs j)) \<and> is_encrypt p \<noteq> is_encrypt q
    then (\<exists>pages. recrypt fs j p q = fs\<lparr>inodes := (inodes fs)(j := (inodes fs j)\<lparr>fpages := pages\<rparr>)\<rparr> \<and>
        (\<forall>n. length (pages n) = length (fpages (inodes fs j) n) \<and>
          (\<forall>i < length (pages n). pages n ! i =
             (if n < dir_pages (inodes fs j) \<and> i = 0 \<and> fpages (inodes fs j) n ! i \<noteq> 0
              then xor (fpages (inodes fs j) n ! i) (ucast (key fs)) else fpages (inodes fs j) n ! i)))) \<and>
      (recrypt (recrypt fs j p q) j q p = fs \<longleftrightarrow>
        ucast (key fs) = (0 :: byte) \<or>
        (\<forall>n < dir_pages (inodes fs j). fpages (inodes fs j) n = [] \<or> hd (fpages (inodes fs j) n) \<noteq> ucast (key fs)))
    else recrypt fs j p q = fs"
proof (cases "S_ISREG (i_mode (inodes fs j)) \<and> is_encrypt p \<noteq> is_encrypt q")
  case True
  let ?i = "inodes fs j"
  define pages where "pages n = (if n < dir_pages ?i then crypto_page (key fs) (fpages ?i n) else fpages ?i n)" for n
  have r: "recrypt fs j p q = upd_inode j (crypto (key fs)) fs" using True by (auto simp: recrypt_def)
  have "crypto (key fs) ?i = ?i\<lparr>fpages := pages\<rparr>" by (simp add: crypto_def pages_def [abs_def])
  then have once: "recrypt fs j p q = fs\<lparr>inodes := (inodes fs)(j := ?i\<lparr>fpages := pages\<rparr>)\<rparr>"
    by (simp add: r upd_inode_def put_inode_def)
  have len: "length (pages n) = length (fpages ?i n)" for n
    by (simp add: pages_def crypto_page_def split: list.split)
  have bytes: "pages n ! i = (if n < dir_pages ?i \<and> i = 0 \<and> fpages ?i n ! i \<noteq> 0
      then xor (fpages ?i n ! i) (ucast (key fs)) else fpages ?i n ! i)" if "i < length (pages n)" for n i
    using that unfolding len by (cases "fpages ?i n"; cases i) (auto simp: pages_def crypto_page_def xor_byte_def)
  have "recrypt (recrypt fs j p q) j q p = upd_inode j (\<lambda>i. crypto (key fs) (crypto (key fs) i)) fs"
    unfolding r using True by (auto simp: recrypt_def crypto_def upd_inode_def put_inode_def)
  then have twice: "recrypt (recrypt fs j p q) j q p = fs \<longleftrightarrow> ucast (key fs) = (0 :: byte) \<or>
      (\<forall>n < dir_pages ?i. fpages ?i n = [] \<or> hd (fpages ?i n) \<noteq> ucast (key fs))"
    by (simp add: upd_inode_same crypto_twice)
  have "\<exists>pages. recrypt fs j p q = fs\<lparr>inodes := (inodes fs)(j := ?i\<lparr>fpages := pages\<rparr>)\<rparr> \<and>
        (\<forall>n. length (pages n) = length (fpages ?i n) \<and>
          (\<forall>i < length (pages n). pages n ! i =
             (if n < dir_pages ?i \<and> i = 0 \<and> fpages ?i n ! i \<noteq> 0
              then xor (fpages ?i n ! i) (ucast (key fs)) else fpages ?i n ! i)))"
    by (intro exI [of _ pages] conjI allI impI once len bytes)
  with twice show ?thesis unfolding if_P [OF True] by (rule conjI [rotated])
next
  case False
  then show ?thesis by (auto simp: recrypt_def)
qed

text \<open>A file of the example: it comes back from \<open>/encrypt\<close> when it begins with another byte than the key.\<close>

definition file_fs :: "byte \<Rightarrow> fs" where
  "file_fs b = fs_ex\<lparr>inodes := (\<lambda>_. dir_ex\<lparr>i_mode := 0x81A4, fpages := \<lambda>_. [b]\<rparr>)\<rparr>"

theorem recrypt_there_and_back_witness:
  "recrypt (recrypt (file_fs 0x68) 3 slash (slash @ encrypt_name)) 3 (slash @ encrypt_name) slash = file_fs 0x68 \<and>
   recrypt (recrypt (file_fs 0x5A) 3 slash (slash @ encrypt_name)) 3 (slash @ encrypt_name) slash \<noteq> file_fs 0x5A"
  using recrypt_there_and_back [of "file_fs 0x68" 3 slash "slash @ encrypt_name"]
    recrypt_there_and_back [of "file_fs 0x5A" 3 slash "slash @ encrypt_name"]
  by (simp add: file_fs_def fs_ex_def dir_ex_def dir_pages_def is_encrypt_def S_ISREG_def)

text \<open>C17: How often \<open>ext2_rename\<close> frees its two path buffers: both once when it succeeds and when it does not
  find the old name, both twice when the entry \<open>..\<close> of a directory cannot be read, and both three times on
  every other error, such as a target that is not empty, a link count at its limit or a full directory: the
  labels free them each and fall through to the next one.\<close>

theorem rename_frees:
  assumes "ext2_rename e fs od old j nd new = Some (fs', r, freed)" and "find_in e 0 fs od (d_name old) = (fs1, loc)"
  shows "count_list freed b =
      (if r = None \<or> loc = None then 1
       else if S_ISDIR (i_mode (inodes fs1 j)) \<and> snd (dotdot_in e 1 fs1 j) = None then 2 else 3) \<and>
    (loc = None \<longrightarrow> r = Some ENOENT)"
  using assms
  by (cases b)
    (auto simp: ext2_rename_def rename_out_def rename_out_old_def rename_out_dir_def kfree_def Let_def
      split: if_splits prod.splits option.splits bind_splits)

text \<open>The example with the link count of the root directory at its limit: renaming a directory there fails
  with EMLINK and frees the buffers three times.\<close>

definition full_root :: inode where
  "full_root = dir_ex\<lparr>i_nlink := EXT2_LINK_MAX\<rparr>"

definition full_fs :: fs where
  "full_fs = fs_ex\<lparr>inodes := (\<lambda>_. full_root)\<rparr>"

lemma full_root_good: "good_dir sb_ex full_root" "listing full_root = [(dot, 2), (dotdot, 2)]"
  using dir_ex_good dcore_cong [of full_root dir_ex] dir_ex_listing by (simp_all add: full_root_def dcore_def)

theorem rename_frees_witness:
  "\<exists>fs' freed. ext2_rename nm_ex full_fs 2 \<lparr>d_name = dot, d_inode = None, d_parent_name = slash, d_grandparent_name = slash\<rparr> 3 2
      \<lparr>d_name = [0x79], d_inode = None, d_parent_name = slash, d_grandparent_name = slash\<rparr> = Some (fs', Some EMLINK, freed) \<and>
    count_list freed Old_dir_path = 3 \<and> count_list freed New_dir_path = 3"
proof -
  let ?old = "\<lparr>d_name = dot, d_inode = None, d_parent_name = slash, d_grandparent_name = slash\<rparr> :: dentry"
  let ?new = "\<lparr>d_name = [0x79], d_inode = None, d_parent_name = slash, d_grandparent_name = slash\<rparr> :: dentry"
  obtain d1 loc where f: "ext2_find_entry (\<lambda>_. None) sb_ex full_root dot = (d1, Some loc)"
    "good_dir sb_ex d1" "same_dir full_root d1"
  proof -
    obtain d1 r where f: "ext2_find_entry (\<lambda>_. None) sb_ex full_root dot = (d1, r)" by fastforce
    from good_find [OF full_root_good(1) f] full_root_good(2) that f show thesis by (cases r) auto
  qed
  have f1: "find_in nm_ex 0 full_fs 2 dot = (put_inode full_fs 2 d1, Some loc)"
    using f(1) by (simp add: find_in_def full_fs_def fs_ex_def nm_ex_def)
  have md: "i_mode full_root = 0x41ED" "i_nlink d1 = EXT2_LINK_MAX" "i_size full_root = 1024"
    using same_meta_same [OF f(3)] by (auto simp: full_root_def same_meta_def dir_ex_def)
  have ok: "dir_ok sb_ex full_root" using full_root_good(1) by (simp add: good_dir_def)
  obtain d2 p where g: "ext2_get_page (\<lambda>_. None) sb_ex full_root 0 = (d2, Inr p)"
    using get_page [OF ok, of "\<lambda>_. None" 0] md(3) by (auto simp: dir_pages_def)
  have dd: "dotdot_in nm_ex 1 (put_inode full_fs 2 d1) 3 = (put_inode (put_inode full_fs 2 d1) 3 d2, Some (0, ext2_next_entry p 0))"
    using g by (simp add: dotdot_in_def ext2_dotdot_def put_inode_def full_fs_def fs_ex_def nm_ex_def)
  have "\<exists>fs' freed. ext2_rename nm_ex full_fs 2 ?old 3 2 ?new = Some (fs', Some EMLINK, freed)"
    using f1 dd md by (simp add: ext2_rename_def rename_target_def rename_out_dir_def rename_out_old_def rename_out_def
        put_inode_def full_fs_def S_ISDIR_def Let_def) (simp add: nm_ex_def)
  then obtain fs' freed where x: "ext2_rename nm_ex full_fs 2 ?old 3 2 ?new = Some (fs', Some EMLINK, freed)" by blast
  have "find_in nm_ex 0 full_fs 2 (d_name ?old) = (put_inode full_fs 2 d1, Some loc)" using f1 by simp
  from rename_frees [OF x this, of Old_dir_path] rename_frees [OF x this, of New_dir_path] x dd show ?thesis by auto
qed

end
