(* ===== verification/Ext2_File.thy ===== *)
theory Ext2_File
  imports Ext2_Fs
begin

text \<open>
  Reading and writing files, a3/file.c: immediate files, which keep their bytes in the 60 bytes of
  \<open>i_data\<close>, their conversion to regular files, and the exclusive-or of everything that passes through
  the directory \<open>/encrypt\<close>. The generic \<open>do_sync_read\<close> and \<open>do_sync_write\<close> of the kernel are arguments,
  as are the outcomes of allocating and of copying from and to user space. A user buffer is a list of
  bytes of at least the length that is asked for. The result \<open>None\<close> stands for a \<open>strlen\<close> that finds no
  zero byte in \<open>i_data\<close> and runs on into the fields behind it. \<open>of_kernel_ds\<close> is the address limit of
  the calling task, which \<open>set_fs\<close> changes.
\<close>

section \<open>State\<close>

record open_file =
  of_inode :: inode
  of_dir :: inode
  of_name :: "byte list"
  of_parent :: "byte list"
  of_grandparent :: "byte list"
  of_append :: bool
  of_pos :: nat
  of_kernel_ds :: bool

record file_env =
  fe_outer_mem :: bool
  fe_inner_mem :: bool
  fe_copy_inner :: bool
  fe_copy_user :: bool
  fe_page :: "nat \<Rightarrow> errno option"
  fe_read :: "inode \<Rightarrow> nat \<Rightarrow> nat \<Rightarrow> byte list \<times> nat \<times> (errno + nat)"
  fe_write :: "inode \<Rightarrow> byte list \<Rightarrow> nat \<Rightarrow> inode \<times> nat \<times> (errno + nat)"

text \<open>The length of the string at the start of \<open>i_data\<close>.\<close>

definition strlen :: "byte list \<Rightarrow> nat option" where
  "strlen bs = (if 0 \<in> set bs then Some (length (takeWhile (\<lambda>b. b \<noteq> 0) bs)) else None)"

definition memcpy :: "byte list \<Rightarrow> byte list \<Rightarrow> byte list" where
  "memcpy dst src = src @ drop (length src) dst"

section \<open>Immediate files\<close>

text \<open>What a write that outgrows \<open>i_data\<close> hands to \<open>do_sync_write\<close>.\<close>

definition grow_bytes :: "bool \<Rightarrow> nat \<Rightarrow> byte list \<Rightarrow> byte list \<Rightarrow> byte list" where
  "grow_bytes app n data buf =
     (if n \<noteq> 0 \<and> app then take (n - 1) data @ takeWhile (\<lambda>b. b \<noteq> 0) buf @ [0] else buf)"

definition ext3301_im_write :: "file_env \<Rightarrow> ext2_sb \<Rightarrow> open_file \<Rightarrow> byte list \<Rightarrow> (open_file \<times> (errno + nat)) option" where
  "ext3301_im_write e sb f buf =
     (let inode = of_inode f; data = i_data inode; len = length buf in
      if len + of_pos f \<le> 60
      then Some (f\<lparr>of_inode := inode\<lparr>i_data := memcpy data buf\<rparr>\<rparr>, Inr len)
      else do {
        n \<leftarrow> strlen data;
        if n \<noteq> 0 \<and> of_append f \<and> \<not> fe_inner_mem e then Some (f, Inl ENOMEM)
        else
          let inode = inode\<lparr>i_data := memcpy data (replicate n 0)\<rparr>;
              (inode, pos, ret) = fe_write e inode (grow_bytes (of_append f) n data buf) (of_pos f);
              inode = inode\<lparr>i_mode := or S_IFREG (xor (i_mode inode) S_IFIM)\<rparr>;
              (dir, de) = ext2_find_entry (fe_page e) sb (of_dir f) (of_name f);
              f = f\<lparr>of_inode := inode, of_pos := pos, of_dir := dir\<rparr>
          in (case de of
                None \<Rightarrow> Some (f, Inl ENOENT)
              | Some (k, off) \<Rightarrow>
                  let p = dpages dir k
                  in Some (f\<lparr>of_dir := dir\<lparr>dpages := (dpages dir)(k := p(off := (p off)\<lparr>file_type := 1\<rparr>))\<rparr>\<rparr>, ret))
      })"

definition ext3301_im_read :: "file_env \<Rightarrow> open_file \<Rightarrow> byte list \<Rightarrow> nat \<Rightarrow> (open_file \<times> byte list \<times> (errno + nat)) option" where
  "ext3301_im_read e f buf len =
     (let data = i_data (of_inode f); pos = of_pos f in do {
        n \<leftarrow> strlen data;
        if pos \<ge> n then Some (f, buf, Inr 0)
        else if pos + len \<ge> n
        then if fe_copy_inner e then Some (f\<lparr>of_pos := n\<rparr>, memcpy buf (take (n - pos) data), Inr (n - pos))
             else Some (f, buf, Inl EFAULT)
        else Some (f\<lparr>of_pos := pos + len\<rparr>, buf, Inr len)
      })"

section \<open>Reading and writing\<close>

definition in_encrypt :: "open_file \<Rightarrow> bool" where
  "in_encrypt f \<longleftrightarrow> of_grandparent f = slash \<and> of_parent f = encrypt_name"

definition file_read :: "file_env \<Rightarrow> open_file \<Rightarrow> byte list \<Rightarrow> nat \<Rightarrow> (open_file \<times> byte list \<times> (errno + nat)) option" where
  "file_read e f buf len =
     (if S_ISIM (i_mode (of_inode f)) then ext3301_im_read e f buf len
      else (case fe_read e (of_inode f) len (of_pos f) of
              (bs, pos, ret) \<Rightarrow> Some (f\<lparr>of_pos := pos\<rparr>, memcpy buf bs, ret)))"

definition file_write :: "file_env \<Rightarrow> ext2_sb \<Rightarrow> open_file \<Rightarrow> byte list \<Rightarrow> (open_file \<times> (errno + nat)) option" where
  "file_write e sb f buf =
     (if S_ISIM (i_mode (of_inode f)) then ext3301_im_write e sb f buf
      else (case fe_write e (of_inode f) buf (of_pos f) of
              (inode, pos, ret) \<Rightarrow> Some (f\<lparr>of_inode := inode, of_pos := pos\<rparr>, ret)))"

definition ext3301_sync_read :: "file_env \<Rightarrow> 32 word \<Rightarrow> open_file \<Rightarrow> byte list \<Rightarrow> nat \<Rightarrow> (open_file \<times> byte list \<times> (errno + nat)) option" where
  "ext3301_sync_read e k f buf len =
     (if in_encrypt f
      then if \<not> fe_outer_mem e then Some (f, buf, Inl ENOMEM)
           else do {
             (f', temp, ret) \<leftarrow> file_read e (f\<lparr>of_kernel_ds := True\<rparr>) (replicate len 0) len;
             let f' = f'\<lparr>of_kernel_ds := of_kernel_ds f\<rparr>;
             let temp = map (xor_byte k) temp;
             Some (if fe_copy_user e then (f', memcpy buf temp, ret) else (f', buf, Inl EFAULT))
           }
      else file_read e f buf len)"

definition ext3301_sync_write :: "file_env \<Rightarrow> ext2_sb \<Rightarrow> 32 word \<Rightarrow> open_file \<Rightarrow> byte list \<Rightarrow> (open_file \<times> (errno + nat)) option" where
  "ext3301_sync_write e sb k f buf =
     (if in_encrypt f
      then if \<not> fe_outer_mem e then Some (f, Inl ENOMEM)
           else if \<not> fe_copy_user e then Some (f, Inl EFAULT)
           else do {
             (f', ret) \<leftarrow> file_write e sb (f\<lparr>of_kernel_ds := True\<rparr>) (map (xor_byte k) buf);
             Some (f'\<lparr>of_kernel_ds := of_kernel_ds f\<rparr>, ret)
           }
      else file_write e sb (f\<lparr>of_kernel_ds := True\<rparr>) buf)"

section \<open>Facts\<close>

lemma strlen_string: "0 \<notin> set bs \<Longrightarrow> 0 < n \<Longrightarrow> strlen (bs @ replicate n 0) = Some (length bs)"
proof -
  assume "0 \<notin> set bs" "0 < n"
  then have "takeWhile (\<lambda>b. b \<noteq> 0) (bs @ replicate n 0) = bs"
    by (cases n) (auto simp: takeWhile_tail)
  then show ?thesis using \<open>0 < n\<close> by (simp add: strlen_def)
qed

text \<open>Twice exclusive-or is harmless for bytes that are neither 0 nor the key.\<close>

lemma xor_byte_twice: "b \<noteq> ucast k \<Longrightarrow> xor_byte k (xor_byte k b) = b"
  by (auto simp: xor_byte_def xor.assoc xor_zero_iff)

lemma xor_byte_zero: "xor_byte k b = 0 \<longleftrightarrow> b = 0 \<or> b = ucast k"
  by (auto simp: xor_byte_def xor_zero_iff)

text \<open>The bytes that a file in \<open>f\<close>'s directory stores for \<open>bs\<close>.\<close>

definition stored :: "32 word \<Rightarrow> open_file \<Rightarrow> byte list \<Rightarrow> byte list" where
  "stored k f bs = (if in_encrypt f then map (xor_byte k) bs else bs)"

definition plain :: "32 word \<Rightarrow> open_file \<Rightarrow> byte list \<Rightarrow> bool" where
  "plain k f bs \<longleftrightarrow> 0 \<notin> set bs \<and> (in_encrypt f \<longrightarrow> ucast k \<notin> set bs)"

lemma plain_stored:
  assumes "plain k f bs"
  shows "0 \<notin> set (stored k f bs)" "in_encrypt f \<Longrightarrow> map (xor_byte k) (stored k f bs) = bs" "length (stored k f bs) = length bs"
proof -
  show "0 \<notin> set (stored k f bs)" "length (stored k f bs) = length bs"
    using assms by (auto simp: plain_def stored_def xor_byte_zero)
  show "map (xor_byte k) (stored k f bs) = bs" if "in_encrypt f"
    using assms that by (simp add: plain_def stored_def) (metis (no_types, lifting) map_idI xor_byte_twice comp_apply)
qed

lemma small_write:
  assumes "S_ISIM (i_mode (of_inode f))" and "of_pos f + length bs \<le> 60" and "fe_outer_mem e" "fe_copy_user e"
  obtains f' where "ext3301_sync_write e sb k f bs = Some (f', Inr (length bs))"
    "of_inode f' = (of_inode f)\<lparr>i_data := memcpy (i_data (of_inode f)) (stored k f bs)\<rparr>" "of_pos f' = of_pos f"
    "in_encrypt f' = in_encrypt f" "of_dir f' = of_dir f" "of_kernel_ds f' = (if in_encrypt f then of_kernel_ds f else True)"
proof -
  let ?g = "f\<lparr>of_inode := (of_inode f)\<lparr>i_data := memcpy (i_data (of_inode f)) (stored k f bs)\<rparr>,
    of_kernel_ds := (if in_encrypt f then of_kernel_ds f else True)\<rparr>"
  have "ext3301_sync_write e sb k f bs = Some (?g, Inr (length bs))"
    using assms by (auto simp: ext3301_sync_write_def file_write_def ext3301_im_write_def stored_def add.commute Let_def)
  then show thesis using that [of ?g] by (simp add: in_encrypt_def)
qed

lemma small_read:
  assumes "S_ISIM (i_mode (of_inode f))" and "i_data (of_inode f) = stored k f bs @ replicate n 0" "0 < n" and "plain k f bs" "bs \<noteq> []"
    and "of_pos f = 0" and "length bs \<le> len" "length buf = len" and "fe_outer_mem e" "fe_copy_user e" "fe_copy_inner e"
  obtains f' where "ext3301_sync_read e k f buf len =
      Some (f', bs @ (if in_encrypt f then replicate (len - length bs) 0 else drop (length bs) buf), Inr (length bs))"
    "of_pos f' = length bs" "of_inode f' = of_inode f"
proof -
  note p = plain_stored [OF assms(4)]
  have r: "ext3301_im_read e (f\<lparr>of_kernel_ds := d\<rparr>) b len =
      Some (f\<lparr>of_kernel_ds := d, of_pos := length bs\<rparr>, memcpy b (stored k f bs), Inr (length bs))" for d b
    using assms strlen_string [OF p(1) assms(3)] p(3) by (simp add: ext3301_im_read_def Let_def)
  have z: "xor_byte k 0 = 0" by (simp add: xor_byte_def)
  show thesis
  proof (cases "in_encrypt f")
    case True
    have "map (xor_byte k) (memcpy (replicate len 0) (stored k f bs)) = bs @ replicate (len - length bs) 0"
      using p(2,3) True z by (simp add: memcpy_def)
    then show thesis using that [of "f\<lparr>of_pos := length bs\<rparr>"] r [of True] True assms
      by (simp add: ext3301_sync_read_def file_read_def Let_def) (simp add: memcpy_def)
  next
    case False
    have "ext3301_im_read e f buf len = Some (f\<lparr>of_pos := length bs\<rparr>, memcpy buf (stored k f bs), Inr (length bs))"
      using r [of "of_kernel_ds f"] by simp
    then show thesis using that [of "f\<lparr>of_pos := length bs\<rparr>"] False assms p(3)
      by (simp add: ext3301_sync_read_def file_read_def) (simp add: memcpy_def stored_def)
  qed
qed

text \<open>A file that outgrows \<open>i_data\<close>. The directory keeps its names, and the entry of the file its place.\<close>

definition set_type :: "nat \<Rightarrow> nat \<Rightarrow> nat \<Rightarrow> inode \<Rightarrow> inode" where
  "set_type t k off dir = dir\<lparr>dpages := (dpages dir)(k := (dpages dir k)(off := (dpages dir k off)\<lparr>file_type := t\<rparr>))\<rparr>"

lemma type_only:
  assumes ok: "good_dir sb dir" and at: "at_loc dir name (k, off)"
  shows "good_dir sb (set_type t k off dir)" "listing (set_type t k off dir) = listing dir" "at_loc (set_type t k off dir) name (k, off)"
proof -
  let ?d = "set_type t k off dir" and ?p = "dpages dir k" and ?lm = "ext2_last_byte dir k"
  let ?de = "(?p off)\<lparr>file_type := t\<rparr>"
  have d: "dir_ok sb dir" using ok by (simp add: good_dir_def)
  have f: "i_size ?d = i_size dir" "p_error ?d = p_error dir" "i_blocks ?d = i_blocks dir"
    "dpages ?d = (dpages dir)(k := ?p(off := ?de))" by (simp_all add: set_type_def)
  have n: "k < dir_pages dir" and o1: "off \<in> set (walk ?p ?lm 0)" "live (?p off)" and nm: "fst (entry_of (?p off)) = name"
    using at by (auto simp: at_loc_def entry_of_def)
  have pok: "page_ok (s_blocksize sb) (s_inodes_count sb) ?p ?lm" using dir_okD(4) [OF d n] .
  then have "chain (s_blocksize sb) (s_inodes_count sb) ?p ?lm 0 (walk ?p ?lm 0)" by (simp add: page_ok_def)
  then have "bad_entry (s_blocksize sb) (s_inodes_count sb) (?p off) off = None" using chain_bounds(3) o1(1) by blast
  then have "de_inode ?de \<le> s_inodes_count sb" using bad_entryD by simp
  note u = page_update(1,2) [OF pok o1, of ?de, OF _ _ _ this]
  have lm: "ext2_last_byte ?d = ext2_last_byte dir" "dir_pages ?d = dir_pages dir" using f by (simp_all add: ext2_last_byte_def dir_pages_def fun_eq_iff)
  have same: "live ?de = live (?p off)" "entry_of ?de = entry_of (?p off)" by (simp_all add: live_def entry_of_def)
  have "page_list (?p(off := ?de)) ?lm = page_list ?p ?lm" unfolding page_list_def u(2) [simplified]
    using same by (auto intro!: map_cong filter_cong)
  then have "pg ?d = pg dir" by (auto simp: pg_def f lm fun_eq_iff)
  then show l: "listing ?d = listing dir" using lm by (simp add: listing_def)
  have "dir_ok sb ?d" using d u(1) f lm by (auto simp: dir_ok_def)
  then show "good_dir sb ?d" using ok l f by (simp add: good_dir_def)
  show "at_loc ?d name (k, off)" using at u(2) f lm same by (simp add: at_loc_def)
qed

lemma immediate_to_regular:
  assumes "S_ISIM m" and "and n S_IFMT = and m S_IFMT"
  shows "S_ISREG (or S_IFREG (xor n S_IFIM))"
  using assms by (simp add: S_ISIM_def S_ISREG_def bit.conj_disj_distrib2 bit.conj_xor_distrib2)

lemma regular_permissions: "and (or S_IFREG (xor n S_IFIM)) 0xFFF = and n 0xFFF"
  by (simp add: bit.conj_disj_distrib2 bit.conj_xor_distrib2)

lemma inode_data_mode: "i_mode (i\<lparr>i_data := d\<rparr>) = i_mode i"
  by simp

lemma im_write_grows:
  assumes im: "S_ISIM (i_mode (of_inode f))" and big: "60 < of_pos f + length buf"
    and data: "i_data (of_inode f) = old @ replicate m 0" "0 < m" "0 \<notin> set old"
    and e: "fe_inner_mem e" "fe_page e = (\<lambda>_. None)" "\<forall>i b p. and (i_mode (fst (fe_write e i b p))) S_IFMT = and (i_mode i) S_IFMT"
    and dir: "good_dir sb (of_dir f)" "of_name f \<in> fst ` set (listing (of_dir f))"
    and r: "fe_write e ((of_inode f)\<lparr>i_data := replicate (length old + m) 0\<rparr>)
      (if old \<noteq> [] \<and> of_append f then butlast old @ takeWhile (\<lambda>b. b \<noteq> 0) buf @ [0] else buf) (of_pos f) = (inode, pos, ret)"
  obtains f' where "ext3301_im_write e sb f buf = Some (f', ret)"
    "of_inode f' = inode\<lparr>i_mode := i_mode (of_inode f')\<rparr>" "S_ISREG (i_mode (of_inode f'))"
    "and (i_mode (of_inode f')) 0xFFF = and (i_mode inode) 0xFFF" "of_pos f' = pos"
    "good_dir sb (of_dir f')" "listing (of_dir f') = listing (of_dir f)"
    "\<exists>k off. at_loc (of_dir f') (of_name f) (k, off) \<and> file_type (dpages (of_dir f') k off) = 1"
proof -
  obtain d de where f: "ext2_find_entry (\<lambda>_. None) sb (of_dir f) (of_name f) = (d, de)" by fastforce
  note g = good_find [OF dir(1) f]
  with dir(2) obtain k off where de: "de = Some (k, off)" "at_loc d (of_name f) (k, off)" by (cases de) auto
  note t = type_only [OF conjunct1 [OF g] de(2), of 1]
  have l: "listing d = listing (of_dir f)" using g same_dirD(7) by blast
  have n: "strlen (i_data (of_inode f)) = Some (length old)" using data strlen_string by simp
  have z: "memcpy (i_data (of_inode f)) (replicate (length old) 0) = replicate (length old + m) 0"
    using data(1) by (simp add: memcpy_def replicate_add)
  have b: "grow_bytes (of_append f) (length old) (i_data (of_inode f)) buf =
      (if old \<noteq> [] \<and> of_append f then butlast old @ takeWhile (\<lambda>b. b \<noteq> 0) buf @ [0] else buf)"
    using data(1) by (simp add: grow_bytes_def butlast_conv_take)
  have w: "fe_write e ((of_inode f)\<lparr>i_data := replicate (length old + m) 0\<rparr>)
      (grow_bytes (of_append f) (length old) (i_data (of_inode f)) buf) (of_pos f) = (inode, pos, ret)"
    using r unfolding b .
  let ?i = "inode\<lparr>i_mode := or S_IFREG (xor (i_mode inode) S_IFIM)\<rparr>"
  let ?f = "f\<lparr>of_inode := ?i, of_pos := pos, of_dir := set_type 1 k off d\<rparr>"
  have "and (i_mode inode) S_IFMT = and (i_mode (of_inode f)) S_IFMT"
    using e(3) [rule_format, of "(of_inode f)\<lparr>i_data := replicate (length old + m) 0\<rparr>"] w by (metis fst_conv inode_data_mode)
  then have "S_ISREG (i_mode ?i)" using immediate_to_regular [OF im] by simp
  moreover have "ext3301_im_write e sb f buf = Some (?f, ret)"
    using big n z w f de(1) e(1,2) by (simp add: ext3301_im_write_def Let_def set_type_def)
  moreover have "file_type (dpages (set_type 1 k off d) k off) = 1" by (simp add: set_type_def)
  ultimately show thesis using that [of ?f] t l regular_permissions [of "i_mode inode"] by auto
qed

section \<open>An example\<close>

definition file_ex :: "byte list \<Rightarrow> nat \<Rightarrow> open_file" where
  "file_ex data pos = \<lparr>of_inode = dir_ex\<lparr>i_mode := 0xE1A4, i_data := data\<rparr>, of_dir = dir_ex, of_name = dotdot,
     of_parent = encrypt_name, of_grandparent = slash, of_append = True, of_pos = pos, of_kernel_ds = False\<rparr>"

definition fenv_ex :: file_env where
  "fenv_ex = \<lparr>fe_outer_mem = True, fe_inner_mem = True, fe_copy_inner = True, fe_copy_user = True, fe_page = (\<lambda>_. None),
     fe_read = (\<lambda>i len pos. ([], pos, Inr 0)),
     fe_write = (\<lambda>i bs pos. (i\<lparr>fpages := (fpages i)(0 := bs), i_size := length bs\<rparr>, pos + length bs, Inr (length bs)))\<rparr>"

lemma file_ex_simps [simp]:
  "i_mode (of_inode (file_ex data pos)) = 0xE1A4" "i_data (of_inode (file_ex data pos)) = data" "of_pos (file_ex data pos) = pos"
  "in_encrypt (file_ex data pos)" "of_dir (file_ex data pos) = dir_ex" "of_name (file_ex data pos) = dotdot"
  "S_ISIM 0xE1A4" "of_append (file_ex data pos)"
  by (simp_all add: file_ex_def in_encrypt_def S_ISIM_def)

lemma fenv_ex_simps [simp]:
  "fe_outer_mem fenv_ex" "fe_inner_mem fenv_ex" "fe_copy_inner fenv_ex" "fe_copy_user fenv_ex" "fe_page fenv_ex = (\<lambda>_. None)"
  "i_mode (fst (fe_write fenv_ex i b p)) = i_mode i" "snd (snd (fe_write fenv_ex i b p)) = Inr (length b)"
  by (simp_all add: fenv_ex_def)

section \<open>Properties\<close>

text \<open>C33: What is written to a new immediate file is read back, in \<open>/encrypt\<close> and elsewhere: up to 59
  bytes without zeros, and in \<open>/encrypt\<close> without the low byte of the key, survive a write at
  position 0 and a read of the whole file, and the read leaves the position at the end.\<close>

theorem small_file_roundtrip:
  assumes "S_ISIM (i_mode (of_inode f))" and "i_data (of_inode f) = replicate 60 0" and "of_pos f = 0"
    and "plain k f bs" "bs \<noteq> []" "length bs < 60" and "length bs \<le> len" "length buf = len"
    and "fe_outer_mem e" "fe_copy_user e" "fe_copy_inner e"
  shows "\<exists>f1 f2 buf'. ext3301_sync_write e sb k f bs = Some (f1, Inr (length bs)) \<and>
    ext3301_sync_read e k f1 buf len = Some (f2, buf', Inr (length bs)) \<and> take (length bs) buf' = bs \<and>
    length buf' = len \<and> of_pos f2 = length bs"
proof -
  from assms have p: "of_pos f + length bs \<le> 60" by simp
  from small_write [OF assms(1) p assms(9,10), of sb k] obtain f1 where
    w: "ext3301_sync_write e sb k f bs = Some (f1, Inr (length bs))"
      "of_inode f1 = (of_inode f)\<lparr>i_data := memcpy (i_data (of_inode f)) (stored k f bs)\<rparr>" "of_pos f1 = of_pos f"
      "in_encrypt f1 = in_encrypt f" .
  have st: "stored k f1 bs = stored k f bs" "plain k f1 bs" using w(4) assms(4) by (auto simp: stored_def plain_def)
  have d: "i_data (of_inode f1) = stored k f1 bs @ replicate (60 - length bs) 0"
    using w(2) assms(2) plain_stored(3) [OF assms(4)] st(1) by (simp add: memcpy_def)
  have "S_ISIM (i_mode (of_inode f1))" "0 < 60 - length bs" "of_pos f1 = 0" using w assms by simp_all
  from small_read [OF this(1) d this(2) st(2) assms(5) this(3) assms(7-11)] obtain f2 where
    "ext3301_sync_read e k f1 buf len =
      Some (f2, bs @ (if in_encrypt f1 then replicate (len - length bs) 0 else drop (length bs) buf), Inr (length bs))"
    "of_pos f2 = length bs" .
  then show ?thesis using w(1) assms(7,8) by auto
qed

theorem small_file_roundtrip_witness:
  "\<exists>f1 f2 buf'. ext3301_sync_write fenv_ex sb_ex 0x5A (file_ex (replicate 60 0) 0) [0x68, 0x69] = Some (f1, Inr 2) \<and>
    ext3301_sync_read fenv_ex 0x5A f1 [9, 9, 9] 3 = Some (f2, buf', Inr 2) \<and> take 2 buf' = [0x68, 0x69]"
proof -
  let ?f = "file_ex (replicate 60 0) 0"
  have "plain 0x5A ?f [0x68, 0x69]" by (simp add: plain_def)
  from small_file_roundtrip [OF _ file_ex_simps(2) file_ex_simps(3) this, of 3 "[9, 9, 9]" fenv_ex sb_ex]
  show ?thesis by (simp add: numeral_2_eq_2) blast
qed

text \<open>C34: A write that does not fit into \<open>i_data\<close> makes the immediate file a regular one: the type in its mode and in its
  directory entry changes; the permissions (which \<open>do_sync_write\<close> may have changed), the rest of the inode that \<open>do_sync_write\<close> left and the
  names of the directory do not. What reaches the pages is only the new bytes, or, when the file is opened for appending,
  the old bytes without the last one, followed by the new ones up to their first zero and a zero byte. In
  \<open>/encrypt\<close> the new bytes are the encrypted ones, elsewhere they are as the caller gave them.\<close>

theorem growing_file_becomes_regular:
  assumes "S_ISIM (i_mode (of_inode f))" and "60 < of_pos f + length buf"
    and "i_data (of_inode f) = old @ replicate m 0" "0 < m" "0 \<notin> set old"
    and "in_encrypt f \<longrightarrow> fe_outer_mem e \<and> fe_copy_user e" "fe_inner_mem e" "fe_page e = (\<lambda>_. None)"
    and "\<forall>i b p. and (i_mode (fst (fe_write e i b p))) S_IFMT = and (i_mode i) S_IFMT"
    and "good_dir sb (of_dir f)" "of_name f \<in> fst ` set (listing (of_dir f))"
  shows "\<exists>f' inode pos ret. fe_write e ((of_inode f)\<lparr>i_data := replicate (length old + m) 0\<rparr>)
      (if old \<noteq> [] \<and> of_append f then butlast old @ takeWhile (\<lambda>b. b \<noteq> 0) (stored k f buf) @ [0] else stored k f buf) (of_pos f) = (inode, pos, ret) \<and>
    ext3301_sync_write e sb k f buf = Some (f', ret) \<and> S_ISREG (i_mode (of_inode f')) \<and>
    and (i_mode (of_inode f')) 0xFFF = and (i_mode inode) 0xFFF \<and> of_inode f' = inode\<lparr>i_mode := i_mode (of_inode f')\<rparr> \<and>
    of_pos f' = pos \<and> good_dir sb (of_dir f') \<and> listing (of_dir f') = listing (of_dir f) \<and>
    (\<exists>n off. at_loc (of_dir f') (of_name f) (n, off) \<and> file_type (dpages (of_dir f') n off) = 1)"
proof -
  let ?new = "stored k f buf" and ?g = "f\<lparr>of_kernel_ds := True\<rparr>"
  obtain inode pos ret where w: "fe_write e ((of_inode f)\<lparr>i_data := replicate (length old + m) 0\<rparr>)
      (if old \<noteq> [] \<and> of_append f then butlast old @ takeWhile (\<lambda>b. b \<noteq> 0) ?new @ [0] else ?new) (of_pos f) = (inode, pos, ret)"
    using prod_cases3 by blast
  have g: "S_ISIM (i_mode (of_inode ?g))" "60 < of_pos ?g + length ?new" "i_data (of_inode ?g) = old @ replicate m 0"
    "good_dir sb (of_dir ?g)" "of_name ?g \<in> fst ` set (listing (of_dir ?g))"
    "fe_write e ((of_inode ?g)\<lparr>i_data := replicate (length old + m) 0\<rparr>)
      (if old \<noteq> [] \<and> of_append ?g then butlast old @ takeWhile (\<lambda>b. b \<noteq> 0) ?new @ [0] else ?new) (of_pos ?g) = (inode, pos, ret)"
    using assms(1-3,10,11) w by (simp_all add: stored_def)
  from im_write_grows [OF g(1-3) assms(4,5,7-9) g(4-6)] obtain f' where r: "ext3301_im_write e sb ?g ?new = Some (f', ret)"
    "of_inode f' = inode\<lparr>i_mode := i_mode (of_inode f')\<rparr>" "S_ISREG (i_mode (of_inode f'))"
    "and (i_mode (of_inode f')) 0xFFF = and (i_mode inode) 0xFFF" "of_pos f' = pos"
    "good_dir sb (of_dir f')" "listing (of_dir f') = listing (of_dir ?g)"
    "\<exists>k off. at_loc (of_dir f') (of_name ?g) (k, off) \<and> file_type (dpages (of_dir f') k off) = 1" .
  let ?f = "if in_encrypt f then f'\<lparr>of_kernel_ds := of_kernel_ds f\<rparr> else f'"
  have "ext3301_sync_write e sb k f buf = Some (?f, ret)"
    using r(1) assms(1,6) by (simp add: ext3301_sync_write_def file_write_def stored_def split: if_splits)
  moreover have "of_inode ?f = of_inode f'" "of_pos ?f = of_pos f'" "of_dir ?f = of_dir f'" by simp_all
  ultimately show ?thesis using w r(2-8) by (intro exI [of _ ?f] exI [of _ inode] exI [of _ pos] exI [of _ ret]) simp
qed

theorem growing_file_becomes_regular_witness:
  "\<exists>f'. ext3301_sync_write fenv_ex sb_ex 0x5A (file_ex ([0x61, 0x62] @ replicate 58 0) 2) (replicate 59 0x63) =
     Some (f', Inr 61) \<and> S_ISREG (i_mode (of_inode f')) \<and> fpages (of_inode f') 0 = 0x61 # replicate 59 0x39 @ [0] \<and>
     listing (of_dir f') = [(dot, 2), (dotdot, 2)]"
proof -
  let ?f = "file_ex ([0x61, 0x62] @ replicate 58 0) 2" and ?b = "replicate 59 (0x63 :: byte)" and ?c = "replicate 59 (0x39 :: byte)"
  have h: "S_ISIM (i_mode (of_inode ?f))" "60 < of_pos ?f + length ?b" "i_data (of_inode ?f) = [0x61, 0x62] @ replicate 58 0"
    "0 < (58 :: nat)" "0 \<notin> set [0x61, 0x62 :: byte]" "in_encrypt ?f \<longrightarrow> fe_outer_mem fenv_ex \<and> fe_copy_user fenv_ex"
    "fe_inner_mem fenv_ex" "fe_page fenv_ex = (\<lambda>_. None)"
    "\<forall>i b p. and (i_mode (fst (fe_write fenv_ex i b p))) S_IFMT = and (i_mode i) S_IFMT"
    "good_dir sb_ex (of_dir ?f)" "of_name ?f \<in> fst ` set (listing (of_dir ?f))"
    by (simp_all add: dir_ex_good dir_ex_listing)
  have t: "takeWhile (\<lambda>b. b \<noteq> 0) ?c = ?c" "xor_byte 0x5A 0x63 = 0x39" by (simp_all add: takeWhile_eq_all_conv xor_byte_def)
  from growing_file_becomes_regular [where k = "0x5A", OF h] obtain f' inode pos ret where
    w: "fe_write fenv_ex ((of_inode ?f)\<lparr>i_data := replicate (length [0x61, 0x62 :: byte] + 58) 0\<rparr>) ([0x61] @ ?c @ [0]) 2 = (inode, pos, ret)"
      "ext3301_sync_write fenv_ex sb_ex 0x5A ?f ?b = Some (f', ret)" "S_ISREG (i_mode (of_inode f'))"
      "of_inode f' = inode\<lparr>i_mode := i_mode (of_inode f')\<rparr>" "listing (of_dir f') = listing (of_dir ?f)" by (auto simp: t stored_def)
  from w(1) have "ret = Inr 61" "fpages inode 0 = [0x61] @ ?c @ [0]" by (auto simp: fenv_ex_def)
  moreover have "fpages (of_inode f') = fpages inode" by (subst w(4)) simp
  ultimately show ?thesis using w(2,3,5) by (auto simp: dir_ex_listing)
qed

text \<open>Reading part of an immediate file outside \<open>/encrypt\<close> reports that \<open>len\<close> bytes were read but
  copies none of them, as long as the request ends before the end of the file; reading up to the
  end from a position behind the start copies the first bytes of the file.\<close>

theorem partial_read_copies_nothing:
  assumes "S_ISIM (i_mode (of_inode f))" "\<not> in_encrypt f" "strlen (i_data (of_inode f)) = Some n" "of_pos f < n" "fe_copy_inner e"
  shows "\<exists>f'. ext3301_sync_read e k f buf len =
    (if of_pos f + len < n then Some (f', buf, Inr len)
     else Some (f', memcpy buf (take (n - of_pos f) (i_data (of_inode f))), Inr (n - of_pos f)))"
  using assms by (auto simp: ext3301_sync_read_def file_read_def ext3301_im_read_def Let_def)

theorem partial_read_copies_nothing_witness:
  "\<exists>f'. ext3301_sync_read fenv_ex 0 ((file_ex [0x61, 0x62, 0x63, 0] 0)\<lparr>of_parent := slash\<rparr>) [9, 9] 2 = Some (f', [9, 9], Inr 2)"
  using partial_read_copies_nothing [of "(file_ex [0x61, 0x62, 0x63, 0] 0)\<lparr>of_parent := slash\<rparr>" 3 fenv_ex 0 "[9, 9]" 2]
  by (simp add: in_encrypt_def strlen_def)

end
