(* ===== verification/Ext2_Balloc.thy ===== *)
theory Ext2_Balloc
  imports Ext2_Ialloc "HOL-Library.Tree"
begin

text \<open>
  The allocation of blocks, a3/balloc.c: bitmaps of the groups, reservation windows, allocating and
  freeing runs of blocks. Block numbers of the file system are natural numbers, block numbers relative
  to a group are natural numbers too, with an option for the value \<open>-1\<close>, no goal. Reservation windows
  live in a store, indexed by the allocation info they belong to, and are kept in the red-black tree
  of the kernel: its nodes are searched and inserted at the leaves by the code here; rebalancing after
  an insertion and erasing a node belong to the kernel and are arguments, \<open>rb_insert_color\<close> and \<open>rb_erase\<close>;
  \<open>rb_next\<close> and \<open>rb_prev\<close> walk the tree in order. The quota counts, locks and the writing back of buffers
  are left out. The result \<open>None\<close> stands for a \<open>BUG\<close> or for a loop that does not end.
\<close>

section \<open>State\<close>

record rsv_node =
  rsv_start :: nat
  rsv_end :: nat
  rsv_goal_size :: nat
  rsv_alloc_hit :: nat
  last_alloc_logical_block :: nat
  last_alloc_physical_block :: nat

abbreviation EXT2_RESERVE_WINDOW_NOT_ALLOCATED :: nat where "EXT2_RESERVE_WINDOW_NOT_ALLOCATED \<equiv> 0"
abbreviation EXT2_DEFAULT_RESERVE_BLOCKS :: nat where "EXT2_DEFAULT_RESERVE_BLOCKS \<equiv> 8"
abbreviation EXT2_MAX_RESERVE_BLOCKS :: nat where "EXT2_MAX_RESERVE_BLOCKS \<equiv> 1027"

record rsv_state =
  wins :: "nat \<Rightarrow> rsv_node"
  rsv_root :: "nat tree"

record rb_lib =
  rb_insert_color :: "nat \<Rightarrow> nat tree \<Rightarrow> nat tree"
  rb_erase :: "nat \<Rightarrow> nat tree \<Rightarrow> nat tree"

text \<open>The file system as the allocator sees it: the superblock and descriptors of theory \<open>Ext2_Ialloc\<close>,
  the places of the bitmaps and inode tables, the block bitmaps, the counter of free blocks and the
  reservations.\<close>

record balloc =
  bs_sbi :: ext2_sb_info
  s_first_data_block :: nat
  s_itb_per_group :: nat
  bg_block_bitmap :: "nat \<Rightarrow> nat"
  bg_inode_bitmap :: "nat \<Rightarrow> nat"
  bg_inode_table :: "nat \<Rightarrow> nat"
  s_bbitmap :: "nat \<Rightarrow> nat \<Rightarrow> bool"
  s_freeblocks_counter :: int
  bs_rsv :: rsv_state

abbreviation bpg :: "balloc \<Rightarrow> nat" where "bpg bs \<equiv> s_blocks_per_group (bs_sbi bs)"

definition ext2_group_first_block_no :: "balloc \<Rightarrow> nat \<Rightarrow> nat" where
  "ext2_group_first_block_no bs grp = grp * bpg bs + s_first_data_block bs"

definition in_range :: "nat \<Rightarrow> nat \<Rightarrow> nat \<Rightarrow> bool" where
  "in_range b first len \<longleftrightarrow> b \<ge> first \<and> b \<le> first + len - 1"

section \<open>Bitmaps\<close>

text \<open>\<open>ext2_find_next_zero_bit\<close>: the first clear bit from \<open>start\<close> on, or the size.\<close>

definition next_zero_bit :: "(nat \<Rightarrow> bool) \<Rightarrow> nat \<Rightarrow> nat \<Rightarrow> nat" where
  "next_zero_bit bm sz start = (case List.find (\<lambda>i. \<not> bm i) [start..<sz] of None \<Rightarrow> sz | Some i \<Rightarrow> i)"

text \<open>The blocks of the bitmaps and of the inode table of a group are marked as used. An offset is an \<open>int\<close>;
  the result is \<open>None\<close> when it is negative and a bit in front of the bitmap is read.\<close>

definition ext2_valid_block_bitmap :: "balloc \<Rightarrow> nat \<Rightarrow> bool option" where
  "ext2_valid_block_bitmap bs grp =
     (let group_first_block = ext2_group_first_block_no bs grp;
          bm = s_bbitmap bs grp;
          offset = int_of_long (int (bg_block_bitmap bs grp) - int group_first_block)
      in if offset < 0 then None
         else if \<not> bm (nat offset) then Some False
         else
           let offset = int_of_long (int (bg_inode_bitmap bs grp) - int group_first_block)
           in if offset < 0 then None
              else if \<not> bm (nat offset) then Some False
              else
                let offset = int_of_long (int (bg_inode_table bs grp) - int group_first_block)
                in if offset < 0 then None
                   else Some (next_zero_bit bm (nat offset + s_itb_per_group bs) (nat offset)
                                \<ge> nat offset + s_itb_per_group bs))"

text \<open>The result of the validation is only reported.\<close>

definition read_block_bitmap :: "(nat \<Rightarrow> bool) \<Rightarrow> balloc \<Rightarrow> nat \<Rightarrow> (nat \<Rightarrow> bool) option" where
  "read_block_bitmap rd bs grp =
     (case ext2_get_group_desc (bs_sbi bs) grp of
        None \<Rightarrow> None
      | Some _ \<Rightarrow> if rd grp then Some (s_bbitmap bs grp) else None)"

definition release_blocks :: "nat \<Rightarrow> balloc \<Rightarrow> balloc" where
  "release_blocks count bs =
     (if count \<noteq> 0
      then bs\<lparr>s_freeblocks_counter := s_freeblocks_counter bs + int count, bs_sbi := (bs_sbi bs)\<lparr>s_dirt := True\<rparr>\<rparr>
      else bs)"

definition group_adjust_blocks :: "nat \<Rightarrow> int \<Rightarrow> balloc \<Rightarrow> balloc" where
  "group_adjust_blocks grp count bs =
     (if count \<noteq> 0
      then
        let sbi = bs_sbi bs;
            desc = s_desc sbi grp;
            desc = desc\<lparr>bg_free_blocks_count := bg_free_blocks_count desc + word_of_int count\<rparr>
        in bs\<lparr>bs_sbi := sbi\<lparr>s_desc := (s_desc sbi)(grp := desc), s_dirt := True\<rparr>\<rparr>
      else bs)"

section \<open>Reservation windows\<close>

definition rb_next :: "nat tree \<Rightarrow> nat \<Rightarrow> nat option" where
  "rb_next t n = (case dropWhile (\<lambda>m. m \<noteq> n) (inorder t) of _ # m # _ \<Rightarrow> Some m | _ \<Rightarrow> None)"

definition rb_prev :: "nat tree \<Rightarrow> nat \<Rightarrow> nat option" where
  "rb_prev t n = (case takeWhile (\<lambda>m. m \<noteq> n) (inorder t) of [] \<Rightarrow> None | ms \<Rightarrow> Some (last ms))"

definition goal_in_my_reservation :: "balloc \<Rightarrow> rsv_node \<Rightarrow> nat option \<Rightarrow> nat \<Rightarrow> bool" where
  "goal_in_my_reservation bs rsv grp_goal grp =
     (let first = ext2_group_first_block_no bs grp;
          last = first + bpg bs - 1
      in if rsv_start rsv > last \<or> rsv_end rsv < first then False
         else (case grp_goal of
                 None \<Rightarrow> True
               | Some g \<Rightarrow> \<not> (g + first < rsv_start rsv \<or> g + first > rsv_end rsv)))"

text \<open>The window that contains the goal, or else the last node on the way down.\<close>

fun search_down :: "(nat \<Rightarrow> rsv_node) \<Rightarrow> nat \<Rightarrow> nat tree \<Rightarrow> nat option \<Rightarrow> nat option" where
  "search_down w goal Leaf rsv = rsv"
| "search_down w goal (Node l n r) _ =
     (if goal < rsv_start (w n) then search_down w goal l (Some n)
      else if goal > rsv_end (w n) then search_down w goal r (Some n)
      else Some n)"

definition search_reserve_window :: "rsv_state \<Rightarrow> nat \<Rightarrow> nat option" where
  "search_reserve_window rs goal =
     (case search_down (wins rs) goal (rsv_root rs) None of
        None \<Rightarrow> None
      | Some rsv \<Rightarrow> if rsv_start (wins rs rsv) > goal then rb_prev (rsv_root rs) rsv else Some rsv)"

fun link_node :: "(nat \<Rightarrow> rsv_node) \<Rightarrow> nat \<Rightarrow> nat \<Rightarrow> nat tree \<Rightarrow> nat tree option" where
  "link_node w start rsv Leaf = Some (Node Leaf rsv Leaf)"
| "link_node w start rsv (Node l n r) =
     (if start < rsv_start (w n) then do { l \<leftarrow> link_node w start rsv l; Some (Node l n r) }
      else if start > rsv_end (w n) then do { r \<leftarrow> link_node w start rsv r; Some (Node l n r) }
      else None)"

definition ext2_rsv_window_add :: "rb_lib \<Rightarrow> rsv_state \<Rightarrow> nat \<Rightarrow> rsv_state option" where
  "ext2_rsv_window_add rb rs rsv = do {
     t \<leftarrow> link_node (wins rs) (rsv_start (wins rs rsv)) rsv (rsv_root rs);
     Some (rs\<lparr>rsv_root := rb_insert_color rb rsv t\<rparr>)
   }"

definition rsv_window_remove :: "rb_lib \<Rightarrow> rsv_state \<Rightarrow> nat \<Rightarrow> rsv_state" where
  "rsv_window_remove rb rs rsv =
     rs\<lparr>wins := (wins rs)(rsv := (wins rs rsv)\<lparr>rsv_start := EXT2_RESERVE_WINDOW_NOT_ALLOCATED,
            rsv_end := EXT2_RESERVE_WINDOW_NOT_ALLOCATED, rsv_alloc_hit := 0\<rparr>),
        rsv_root := rb_erase rb rsv (rsv_root rs)\<rparr>"

definition rsv_is_empty :: "rsv_node \<Rightarrow> bool" where
  "rsv_is_empty rsv \<longleftrightarrow> rsv_end rsv = EXT2_RESERVE_WINDOW_NOT_ALLOCATED"

text \<open>A new allocation info; \<open>mem\<close>: \<open>kmalloc\<close> succeeds.\<close>

definition ext2_init_block_alloc_info :: "bool \<Rightarrow> bool \<Rightarrow> rsv_node option" where
  "ext2_init_block_alloc_info mem reservation =
     (if mem
      then Some \<lparr>rsv_start = EXT2_RESERVE_WINDOW_NOT_ALLOCATED, rsv_end = EXT2_RESERVE_WINDOW_NOT_ALLOCATED,
                 rsv_goal_size = (if \<not> reservation then 0 else EXT2_DEFAULT_RESERVE_BLOCKS), rsv_alloc_hit = 0,
                 last_alloc_logical_block = 0, last_alloc_physical_block = 0\<rparr>
      else None)"

definition ext2_discard_reservation :: "rb_lib \<Rightarrow> rsv_state \<Rightarrow> nat option \<Rightarrow> rsv_state" where
  "ext2_discard_reservation rb rs block_i =
     (case block_i of
        None \<Rightarrow> rs
      | Some rsv \<Rightarrow> if \<not> rsv_is_empty (wins rs rsv) then rsv_window_remove rb rs rsv else rs)"

section \<open>Freeing\<close>

definition in_system_zone :: "balloc \<Rightarrow> nat \<Rightarrow> nat \<Rightarrow> nat \<Rightarrow> bool" where
  "in_system_zone bs grp block count \<longleftrightarrow>
     in_range (bg_block_bitmap bs grp) block count \<or> in_range (bg_inode_bitmap bs grp) block count \<or>
     in_range block (bg_inode_table bs grp) (s_itb_per_group bs) \<or>
     in_range (block + count - 1) (bg_inode_table bs grp) (s_itb_per_group bs)"

text \<open>The bits \<open>bit\<close>, \<open>bit + 1\<close>, \dots are cleared; the second result counts those that were set.\<close>

fun clear_bits :: "nat \<Rightarrow> nat \<Rightarrow> (nat \<Rightarrow> bool) \<Rightarrow> (nat \<Rightarrow> bool) \<times> nat" where
  "clear_bits b 0 bm = (bm, 0)"
| "clear_bits b (Suc n) bm =
     (case clear_bits (b + 1) n (bm(b := False)) of (bm', freed) \<Rightarrow> (bm', if bm b then freed + 1 else freed))"

function free_loop :: "(nat \<Rightarrow> bool) \<Rightarrow> balloc \<Rightarrow> nat \<Rightarrow> nat \<Rightarrow> nat \<Rightarrow> (balloc \<times> nat) option" where
  "free_loop rd bs block count freed =
     (if bpg bs = 0 then None
      else
        let grp = (block - s_first_data_block bs) div bpg bs;
            bit = (block - s_first_data_block bs) mod bpg bs;
            overflow = (if bit + count > bpg bs then bit + count - bpg bs else 0);
            count = count - overflow
        in (case read_block_bitmap rd bs grp of
              None \<Rightarrow> Some (bs, freed)
            | Some bm \<Rightarrow>
                if in_system_zone bs grp block count then Some (bs, freed)
                else
                  (case clear_bits bit count bm of
                     (bm, group_freed) \<Rightarrow>
                       let bs = group_adjust_blocks grp (int group_freed) (bs\<lparr>s_bbitmap := (s_bbitmap bs)(grp := bm)\<rparr>);
                           freed = freed + group_freed
                       in if overflow \<noteq> 0 then free_loop rd bs (block + count) overflow freed else Some (bs, freed))))"
  by pat_completeness auto
termination
  by (relation "measure (\<lambda>(rd, bs, block, count, freed). count)") (auto simp: less_diff_conv2 split: if_splits)

declare free_loop.simps [simp del]

definition ext2_free_blocks :: "(nat \<Rightarrow> bool) \<Rightarrow> balloc \<Rightarrow> nat \<Rightarrow> nat \<Rightarrow> balloc option" where
  "ext2_free_blocks rd bs block count =
     (if block < s_first_data_block bs \<or> block + count > s_blocks_count (bs_sbi bs) then Some bs
      else do {
        (bs, freed) \<leftarrow> free_loop rd bs block count 0;
        Some (release_blocks freed bs)
      })"

section \<open>Allocating in a group\<close>

definition bitmap_search_next_usable_block :: "nat \<Rightarrow> (nat \<Rightarrow> bool) \<Rightarrow> nat \<Rightarrow> nat option" where
  "bitmap_search_next_usable_block start bm maxblocks =
     (let i = next_zero_bit bm maxblocks start in if i \<ge> maxblocks then None else Some i)"

text \<open>\<open>memscan\<close> for a zero byte: the index of the first one in \<open>[lo, hi)\<close>, or \<open>hi\<close>.\<close>

definition scan_bytes :: "(nat \<Rightarrow> bool) \<Rightarrow> nat \<Rightarrow> nat \<Rightarrow> nat" where
  "scan_bytes bm lo hi =
     (case List.find (\<lambda>j. list_all (\<lambda>i. \<not> bm (8 * j + i)) [0..<8]) [lo..<hi] of None \<Rightarrow> max lo hi | Some j \<Rightarrow> j)"

definition find_next_usable_block :: "nat \<Rightarrow> (nat \<Rightarrow> bool) \<Rightarrow> nat \<Rightarrow> nat option" where
  "find_next_usable_block start bm maxblocks =
     (let end_goal = min ((start + 63) div 64 * 64) maxblocks;
          here = next_zero_bit bm end_goal start
      in if start > 0 \<and> here < end_goal then Some here
         else
           let i = scan_bytes bm (start div 8) ((maxblocks + 7) div 8) * 8
           in if i < maxblocks \<and> i \<ge> start then Some i
              else bitmap_search_next_usable_block start bm maxblocks)"

text \<open>Up to seven steps back over clear bits, for a file without a window.\<close>

fun back_up :: "nat \<Rightarrow> (nat \<Rightarrow> bool) \<Rightarrow> nat \<Rightarrow> nat \<Rightarrow> nat" where
  "back_up 0 bm start g = g"
| "back_up (Suc i) bm start g = (if g > start \<and> \<not> bm (g - 1) then back_up i bm start (g - 1) else g)"

text \<open>\<open>lost g\<close>: another processor has just taken bit \<open>g\<close>. The first free bit from \<open>g\<close> on is claimed.\<close>

function probe :: "(nat \<Rightarrow> bool) \<Rightarrow> nat \<Rightarrow> (nat \<Rightarrow> bool) \<Rightarrow> nat \<Rightarrow> (nat \<Rightarrow> bool) \<times> nat option" where
  "probe lost end1 bm g =
     (if bm g \<or> lost g
      then if g + 1 \<ge> end1 then (bm(g := True), None) else probe lost end1 (bm(g := True)) (g + 1)
      else (bm(g := True), Some g))"
  by pat_completeness auto
termination
  by (relation "measure (\<lambda>(lost, end1, bm, g). end1 - g)") auto

declare probe.simps [simp del]

text \<open>\<open>n\<close> more blocks are wanted.\<close>

fun claim_more :: "(nat \<Rightarrow> bool) \<Rightarrow> nat \<Rightarrow> nat \<Rightarrow> (nat \<Rightarrow> bool) \<Rightarrow> nat \<Rightarrow> nat \<Rightarrow> (nat \<Rightarrow> bool) \<times> nat" where
  "claim_more lost end1 0 bm g num = (bm, num)"
| "claim_more lost end1 (Suc n) bm g num =
     (if g < end1
      then if bm g \<or> lost g then (bm(g := True), num)
           else claim_more lost end1 n (bm(g := True)) (g + 1) (num + 1)
      else (bm, num))"

text \<open>The range in which to allocate, and the goal if it lies there.\<close>

definition alloc_range :: "balloc \<Rightarrow> nat \<Rightarrow> nat option \<Rightarrow> rsv_node option \<Rightarrow> nat \<times> nat \<times> nat option" where
  "alloc_range bs grp grp_goal my_rsv =
     (case my_rsv of
        Some rsv \<Rightarrow>
          let first = ext2_group_first_block_no bs grp;
              start = rsv_start rsv - first;
              end1 = min (rsv_end rsv + 1 - first) (bpg bs)
          in (case grp_goal of
                Some g \<Rightarrow> if start \<le> g \<and> g < end1 then (g, end1, Some g) else (start, end1, None)
              | None \<Rightarrow> (start, end1, None))
      | None \<Rightarrow> (case grp_goal of Some g \<Rightarrow> (g, bpg bs, Some g) | None \<Rightarrow> (0, bpg bs, None)))"

text \<open>Results: the bitmap, the number of blocks and the first of them.\<close>

definition ext2_try_to_allocate ::
  "(nat \<Rightarrow> bool) \<Rightarrow> balloc \<Rightarrow> nat \<Rightarrow> (nat \<Rightarrow> bool) \<Rightarrow> nat option \<Rightarrow> nat \<Rightarrow> rsv_node option \<Rightarrow> ((nat \<Rightarrow> bool) \<times> nat \<times> nat option) option" where
  "ext2_try_to_allocate lost bs grp bm grp_goal count my_rsv =
     (let (start, end1, grp_goal) = alloc_range bs grp grp_goal my_rsv in
      if start > bpg bs then None
      else
        let goal = (case grp_goal of
                      Some g \<Rightarrow> Some g
                    | None \<Rightarrow> map_option (\<lambda>g. if my_rsv = None then back_up 7 bm start g else g)
                                (find_next_usable_block start bm end1))
        in Some (case goal of
             None \<Rightarrow> (bm, 0, None)
           | Some g \<Rightarrow>
               (case probe lost end1 bm g of
                  (bm, None) \<Rightarrow> (bm, 0, None)
                | (bm, Some g) \<Rightarrow>
                    (case claim_more lost end1 (count - 1) bm (g + 1) 1 of
                       (bm, num) \<Rightarrow> (bm, num, Some g)))))"

section \<open>Making a reservation\<close>

text \<open>The walk over the windows from the search head on: the first block of the space found, and the
  window before it.\<close>

fun find_space :: "(nat \<Rightarrow> rsv_node) \<Rightarrow> nat \<Rightarrow> nat \<Rightarrow> nat \<Rightarrow> nat list \<Rightarrow> (nat \<times> nat) option" where
  "find_space w sz last_block cur [] = None"
| "find_space w sz last_block cur (rsv # rest) =
     (let cur = (if cur \<le> rsv_end (w rsv) then rsv_end (w rsv) + 1 else cur)
      in if cur > last_block then None
         else (case rest of
                 [] \<Rightarrow> Some (cur, rsv)
               | nxt # _ \<Rightarrow>
                   if cur + sz \<le> rsv_start (w nxt) then Some (cur, rsv)
                   else find_space w sz last_block cur rest))"

definition find_next_reservable_window ::
  "rb_lib \<Rightarrow> rsv_state \<Rightarrow> nat option \<Rightarrow> nat \<Rightarrow> nat \<Rightarrow> nat \<Rightarrow> (rsv_state \<times> bool) option" where
  "find_next_reservable_window rb rs search_head my start_block last_block =
     (case search_head of
        None \<Rightarrow> Some (rs, False)
      | Some hd1 \<Rightarrow>
          let sz = rsv_goal_size (wins rs my)
          in (case find_space (wins rs) sz last_block start_block (dropWhile (\<lambda>n. n \<noteq> hd1) (inorder (rsv_root rs))) of
                None \<Rightarrow> Some (rs, False)
              | Some (cur, prev) \<Rightarrow>
                  let rs = (if prev \<noteq> my \<and> \<not> rsv_is_empty (wins rs my) then rsv_window_remove rb rs my else rs);
                      rs = rs\<lparr>wins := (wins rs)(my := (wins rs my)\<lparr>rsv_start := cur, rsv_end := cur + sz - 1, rsv_alloc_hit := 0\<rparr>)\<rparr>
                  in do {
                    rs \<leftarrow> (if prev \<noteq> my then ext2_rsv_window_add rb rs my else Some rs);
                    Some (rs, True)
                  }))"

definition drop_window :: "rb_lib \<Rightarrow> rsv_state \<Rightarrow> nat \<Rightarrow> rsv_state" where
  "drop_window rb rs my = (if \<not> rsv_is_empty (wins rs my) then rsv_window_remove rb rs my else rs)"

partial_function (option) reserve_loop ::
  "rb_lib \<Rightarrow> (nat \<Rightarrow> bool) \<Rightarrow> nat \<Rightarrow> nat \<Rightarrow> nat \<Rightarrow> rsv_state \<Rightarrow> nat option \<Rightarrow> nat \<Rightarrow> (rsv_state \<times> bool) option" where
  "reserve_loop rb bm first last_block my rs search_head start_block = do {
     (rs, found) \<leftarrow> find_next_reservable_window rb rs search_head my start_block last_block;
     if \<not> found then Some (drop_window rb rs my, False)
     else
       (case bitmap_search_next_usable_block (rsv_start (wins rs my) - first) bm (last_block - first + 1) of
          None \<Rightarrow> Some (drop_window rb rs my, False)
        | Some i \<Rightarrow>
            if i + first \<ge> rsv_start (wins rs my) \<and> i + first \<le> rsv_end (wins rs my) then Some (rs, True)
            else reserve_loop rb bm first last_block my rs (Some my) (i + first))
   }"

definition alloc_new_reservation ::
  "rb_lib \<Rightarrow> balloc \<Rightarrow> rsv_state \<Rightarrow> nat \<Rightarrow> nat option \<Rightarrow> nat \<Rightarrow> (nat \<Rightarrow> bool) \<Rightarrow> (rsv_state \<times> bool) option" where
  "alloc_new_reservation rb bs rs my grp_goal grp bm =
     (let first = ext2_group_first_block_no bs grp;
          last_block = first + (bpg bs - 1);
          start_block = (case grp_goal of None \<Rightarrow> first | Some g \<Rightarrow> g + first);
          rsv = wins rs my
      in if \<not> rsv_is_empty rsv \<and> rsv_start rsv \<le> last_block \<and> rsv_end rsv > last_block \<and> start_block \<ge> rsv_start rsv
         then Some (rs, False)
         else
           let rs = (if \<not> rsv_is_empty rsv \<and> rsv_alloc_hit rsv > (rsv_end rsv - rsv_start rsv + 1) div 2
                     then rs\<lparr>wins := (wins rs)(my := rsv\<lparr>rsv_goal_size := min (rsv_goal_size rsv * 2) EXT2_MAX_RESERVE_BLOCKS\<rparr>)\<rparr>
                     else rs)
           in reserve_loop rb bm first last_block my rs (search_reserve_window rs start_block) start_block)"

text \<open>\<open>free\<close>: the lock was free. The windows are in order, so the differences do not wrap.\<close>

definition try_to_extend_reservation :: "bool \<Rightarrow> rsv_state \<Rightarrow> nat \<Rightarrow> nat \<Rightarrow> rsv_state" where
  "try_to_extend_reservation free rs my sz =
     (if \<not> free then rs
      else
        let rsv = wins rs my;
            e = (case rb_next (rsv_root rs) my of
                   None \<Rightarrow> rsv_end rsv + sz
                 | Some nxt \<Rightarrow>
                     if rsv_start (wins rs nxt) - rsv_end rsv - 1 \<ge> sz then rsv_end rsv + sz
                     else rsv_start (wins rs nxt) - 1)
        in rs\<lparr>wins := (wins rs)(my := rsv\<lparr>rsv_end := e\<rparr>)\<rparr>)"

text \<open>What an allocation meets: the reads of bitmaps, bits lost to others, the lock of the reservations,
  the quota, and whether the caller may use reserved blocks or there are enough others.\<close>

record ba_env =
  ba_rb :: rb_lib
  ba_rd :: "nat \<Rightarrow> bool"
  ba_lost :: "nat \<Rightarrow> nat \<Rightarrow> bool"
  ba_lock :: bool
  ba_quota :: bool
  ba_root_blocks :: nat
  ba_resource :: bool
  ba_resuid :: bool
  ba_resgid :: bool

text \<open>The window to allocate from: a new one, or the old one, perhaps extended. \<open>failed\<close>: the last attempt
  to allocate from the window failed (\<open>ret < 0\<close>). The last result tells whether there is a window.\<close>

definition settle_window ::
  "ba_env \<Rightarrow> balloc \<Rightarrow> nat \<Rightarrow> nat \<Rightarrow> nat \<Rightarrow> rsv_state \<Rightarrow> (nat \<Rightarrow> bool) \<Rightarrow> nat option \<Rightarrow> bool \<Rightarrow> (rsv_state \<times> nat option \<times> bool) option" where
  "settle_window e bs grp my count rs bm grp_goal failed =
     (if rsv_is_empty (wins rs my) \<or> failed \<or> \<not> goal_in_my_reservation bs (wins rs my) grp_goal grp
      then do {
        let rs = (if rsv_goal_size (wins rs my) < count
                  then rs\<lparr>wins := (wins rs)(my := (wins rs my)\<lparr>rsv_goal_size := count\<rparr>)\<rparr> else rs);
        (rs, ok) \<leftarrow> alloc_new_reservation (ba_rb e) bs rs my grp_goal grp bm;
        Some (rs, if goal_in_my_reservation bs (wins rs my) grp_goal grp then grp_goal else None, ok)
      }
      else
        (case grp_goal of
           Some g \<Rightarrow>
             let curr = rsv_end (wins rs my) + 1 - (g + ext2_group_first_block_no bs grp)
             in Some (if curr < count then try_to_extend_reservation (ba_lock e) rs my (count - curr) else rs, grp_goal, True)
         | None \<Rightarrow> Some (rs, grp_goal, True)))"

partial_function (option) rsv_loop ::
  "ba_env \<Rightarrow> balloc \<Rightarrow> nat \<Rightarrow> nat \<Rightarrow> nat \<Rightarrow> rsv_state \<Rightarrow> (nat \<Rightarrow> bool) \<Rightarrow> nat option \<Rightarrow> bool \<Rightarrow>
     (rsv_state \<times> (nat \<Rightarrow> bool) \<times> nat \<times> nat option) option" where
  "rsv_loop e bs grp my count rs bm grp_goal failed =
     (let first = ext2_group_first_block_no bs grp;
          last_block = first + (bpg bs - 1)
      in do {
        (rs, grp_goal, ok) \<leftarrow> settle_window e bs grp my count rs bm grp_goal failed;
        if \<not> ok then Some (rs, bm, count, None)
        else if rsv_start (wins rs my) > last_block \<or> rsv_end (wins rs my) < first then None
        else do {
          (bm, num, ret) \<leftarrow> ext2_try_to_allocate (ba_lost e grp) bs grp bm grp_goal count (Some (wins rs my));
          (case ret of
             Some g \<Rightarrow>
               Some (rs\<lparr>wins := (wins rs)(my := (wins rs my)\<lparr>rsv_alloc_hit := rsv_alloc_hit (wins rs my) + num\<rparr>)\<rparr>, bm, num, Some g)
           | None \<Rightarrow> rsv_loop e bs grp my count rs bm grp_goal True)
        }
      })"

definition ext2_try_to_allocate_with_rsv ::
  "ba_env \<Rightarrow> balloc \<Rightarrow> nat \<Rightarrow> (nat \<Rightarrow> bool) \<Rightarrow> nat option \<Rightarrow> nat option \<Rightarrow> nat \<Rightarrow>
     (rsv_state \<times> (nat \<Rightarrow> bool) \<times> nat \<times> nat option) option" where
  "ext2_try_to_allocate_with_rsv e bs grp bm grp_goal my_rsv count =
     (case my_rsv of
        None \<Rightarrow> map_option (Pair (bs_rsv bs)) (ext2_try_to_allocate (ba_lost e grp) bs grp bm grp_goal count None)
      | Some my \<Rightarrow> rsv_loop e bs grp my count (bs_rsv bs) bm grp_goal False)"

section \<open>Allocating blocks\<close>

definition ext2_has_free_blocks :: "ba_env \<Rightarrow> balloc \<Rightarrow> bool" where
  "ext2_has_free_blocks e bs \<longleftrightarrow>
     \<not> (nat (s_freeblocks_counter bs) < ba_root_blocks e + 1 \<and> \<not> ba_resource e \<and> \<not> ba_resuid e \<and> \<not> ba_resgid e)"

text \<open>An attempt in one group: the new state, the number of blocks for the next attempt, and the first
  block if there is one. \<open>Inl\<close> when the bitmap cannot be read.\<close>

definition alloc_in_group ::
  "ba_env \<Rightarrow> balloc \<Rightarrow> nat \<Rightarrow> nat option \<Rightarrow> nat option \<Rightarrow> nat \<Rightarrow> (balloc \<times> nat \<times> (errno + nat option)) option" where
  "alloc_in_group e bs grp grp_goal my_rsv num =
     (case read_block_bitmap (ba_rd e) bs grp of
        None \<Rightarrow> Some (bs, num, Inl EIO)
      | Some bm \<Rightarrow> do {
          (rs, bm, num, ret) \<leftarrow> ext2_try_to_allocate_with_rsv e bs grp bm grp_goal my_rsv num;
          Some (bs\<lparr>bs_rsv := rs, s_bbitmap := (s_bbitmap bs)(grp := bm)\<rparr>, num, Inr ret)
        })"

fun other_groups :: "nat \<Rightarrow> ba_env \<Rightarrow> balloc \<Rightarrow> nat \<Rightarrow> nat option \<Rightarrow> nat \<Rightarrow> nat \<Rightarrow>
    (balloc \<times> nat \<times> nat \<times> (errno + nat option)) option" where
  "other_groups 0 e bs grp my_rsv windowsz num = Some (bs, grp, num, Inr None)"
| "other_groups (Suc n) e bs grp my_rsv windowsz num =
     (let grp = (if grp + 1 \<ge> s_groups_count (bs_sbi bs) then 0 else grp + 1)
      in (case ext2_get_group_desc (bs_sbi bs) grp of
            None \<Rightarrow> Some (bs, grp, num, Inl EIO)
          | Some gdp \<Rightarrow>
              if my_rsv \<noteq> None \<and> unat (bg_free_blocks_count gdp) \<le> windowsz div 2
              then other_groups n e bs grp my_rsv windowsz num
              else do {
                (bs, num, r) \<leftarrow> alloc_in_group e bs grp None my_rsv num;
                (case r of
                   Inl err \<Rightarrow> Some (bs, grp, num, Inl err)
                 | Inr (Some g) \<Rightarrow> Some (bs, grp, num, Inr (Some g))
                 | Inr None \<Rightarrow> other_groups n e bs grp my_rsv windowsz num)
              }))"

text \<open>The code from the label \<open>retry_alloc\<close> to the label \<open>allocated\<close>: the group of the goal, then all
  groups.\<close>

definition find_blocks ::
  "ba_env \<Rightarrow> balloc \<Rightarrow> nat \<Rightarrow> nat \<Rightarrow> nat option \<Rightarrow> nat \<Rightarrow> nat \<Rightarrow> (balloc \<times> nat \<times> nat \<times> nat option \<times> (errno + nat option)) option" where
  "find_blocks e bs goal grp my_rsv windowsz num =
     (case ext2_get_group_desc (bs_sbi bs) grp of
        None \<Rightarrow> Some (bs, grp, num, my_rsv, Inl EIO)
      | Some gdp \<Rightarrow>
          let free_blocks = unat (bg_free_blocks_count gdp);
              my_rsv = (case my_rsv of
                          Some my \<Rightarrow> if free_blocks < windowsz \<and> free_blocks > 0 \<and> rsv_is_empty (wins (bs_rsv bs) my) then None else my_rsv
                        | None \<Rightarrow> None)
          in do {
            (bs, num, r) \<leftarrow>
              (if free_blocks > 0
               then alloc_in_group e bs grp (Some ((goal - s_first_data_block bs) mod bpg bs)) my_rsv num
               else Some (bs, num, Inr None));
            (case r of
               Inl err \<Rightarrow> Some (bs, grp, num, my_rsv, Inl err)
             | Inr (Some g) \<Rightarrow> Some (bs, grp, num, my_rsv, Inr (Some g))
             | Inr None \<Rightarrow> do {
                 (bs, grp, num, r) \<leftarrow> other_groups (s_groups_count (bs_sbi bs)) e bs grp my_rsv windowsz num;
                 Some (bs, grp, num, my_rsv, r)
               })
          })"

partial_function (option) new_blocks_loop ::
  "ba_env \<Rightarrow> balloc \<Rightarrow> nat \<Rightarrow> nat \<Rightarrow> nat \<Rightarrow> nat option \<Rightarrow> nat \<Rightarrow> nat \<Rightarrow> (balloc \<times> (errno + nat \<times> nat)) option" where
  "new_blocks_loop e bs goal goal_group grp my_rsv windowsz num = do {
     (bs, grp, num, my_rsv, r) \<leftarrow> find_blocks e bs goal grp my_rsv windowsz num;
     (case r of
        Inl err \<Rightarrow> Some (bs, Inl err)
      | Inr None \<Rightarrow>
          if my_rsv \<noteq> None then new_blocks_loop e bs goal goal_group goal_group None 0 num
          else Some (bs, Inl ENOSPC)
      | Inr (Some g) \<Rightarrow>
          let ret_block = g + ext2_group_first_block_no bs grp
          in if in_system_zone bs grp ret_block num then new_blocks_loop e bs goal goal_group grp my_rsv windowsz num
             else if ret_block + num - 1 \<ge> s_blocks_count (bs_sbi bs) then Some (bs, Inl ENOSPC)
             else
               let bs = group_adjust_blocks grp (- int num) bs
               in Some (bs\<lparr>s_freeblocks_counter := s_freeblocks_counter bs - int num\<rparr>, Inr (ret_block, num)))
   }"

text \<open>\<open>block_i\<close> is the window of the file, if it has one.\<close>

definition ext2_new_blocks :: "ba_env \<Rightarrow> balloc \<Rightarrow> nat option \<Rightarrow> nat \<Rightarrow> nat \<Rightarrow> (balloc \<times> (errno + nat \<times> nat)) option" where
  "ext2_new_blocks e bs block_i goal count =
     (if \<not> ba_quota e then Some (bs, Inl EDQUOT)
      else
        let windowsz = (case block_i of None \<Rightarrow> 0 | Some my \<Rightarrow> rsv_goal_size (wins (bs_rsv bs) my) mod 2 ^ 16);
            my_rsv = (if windowsz > 0 then block_i else None)
        in if \<not> ext2_has_free_blocks e bs then Some (bs, Inl ENOSPC)
           else if bpg bs = 0 then None
           else
             let goal = (if goal < s_first_data_block bs \<or> goal \<ge> s_blocks_count (bs_sbi bs) then s_first_data_block bs else goal);
                 grp = (goal - s_first_data_block bs) div bpg bs
             in new_blocks_loop e bs goal grp grp my_rsv windowsz count)"

definition ext2_new_block :: "ba_env \<Rightarrow> balloc \<Rightarrow> nat option \<Rightarrow> nat \<Rightarrow> (balloc \<times> (errno + nat \<times> nat)) option" where
  "ext2_new_block e bs block_i goal = ext2_new_blocks e bs block_i goal 1"

section \<open>Counting, sparse superblocks\<close>

definition ext2_count_free_blocks :: "ext2_sb_info \<Rightarrow> nat" where
  "ext2_count_free_blocks sbi =
     foldl (\<lambda>desc_count i. case ext2_get_group_desc sbi i of
              None \<Rightarrow> desc_count | Some desc \<Rightarrow> desc_count + unat (bg_free_blocks_count desc)) 0 [0..<s_groups_count sbi]"

partial_function (option) test_root_loop :: "int \<Rightarrow> int \<Rightarrow> int \<Rightarrow> bool option" where
  "test_root_loop a b num = (if a > num then test_root_loop a b (int_of_long (num * b)) else Some (num = a))"

definition test_root :: "int \<Rightarrow> int \<Rightarrow> bool option" where
  "test_root a b = test_root_loop a b b"

definition ext2_group_sparse :: "int \<Rightarrow> bool option" where
  "ext2_group_sparse grp =
     (if grp \<le> 1 then Some True
      else do {
        r3 \<leftarrow> test_root grp 3;
        if r3 then Some True
        else do {
          r5 \<leftarrow> test_root grp 5;
          if r5 then Some True else test_root grp 7
        }
      })"

definition ext2_bg_has_super :: "bool \<Rightarrow> int \<Rightarrow> nat option" where
  "ext2_bg_has_super sparse_super grp =
     (if sparse_super then do { s \<leftarrow> ext2_group_sparse grp; Some (if s then 1 else 0) } else Some 1)"

definition ext2_bg_num_gdb :: "bool \<Rightarrow> nat \<Rightarrow> int \<Rightarrow> nat option" where
  "ext2_bg_num_gdb sparse_super gdb_count grp = do {
     h \<leftarrow> ext2_bg_has_super sparse_super grp;
     Some (if h \<noteq> 0 then gdb_count else 0)
   }"

end
