(* ===== verification/Ext2_Balloc_Facts.thy ===== *)
theory Ext2_Balloc_Facts
  imports Ext2_Balloc
begin

text \<open>
  Correctness of the block allocator of theory \<open>Ext2_Balloc\<close>, when bitmaps can be read and no other
  processor interferes: a run of blocks that is handed out was free and lies in one group, the
  descriptors stay in step with the bitmaps, freeing undoes allocating, and the reservation windows
  stay disjoint.
\<close>

section \<open>Searching bitmaps\<close>

lemma next_zero:
  "next_zero_bit bm sz start < sz \<Longrightarrow> start \<le> next_zero_bit bm sz start \<and> \<not> bm (next_zero_bit bm sz start)"
  "sz \<le> next_zero_bit bm sz start \<Longrightarrow> start \<le> i \<Longrightarrow> i < sz \<Longrightarrow> bm i"
proof -
  let ?f = "List.find (\<lambda>i. \<not> bm i) [start..<sz]"
  have Some: "\<not> bm i \<and> start \<le> i \<and> i < sz" if "?f = Some i" for i
    using that by (auto simp: find_Some_iff)
  show "next_zero_bit bm sz start < sz \<Longrightarrow> start \<le> next_zero_bit bm sz start \<and> \<not> bm (next_zero_bit bm sz start)"
    using Some by (auto simp: next_zero_bit_def split: option.splits)
  assume "sz \<le> next_zero_bit bm sz start" "start \<le> i" "i < sz"
  then show "bm i" using Some by (cases ?f) (fastforce simp: next_zero_bit_def find_None_iff)+
qed

lemma search_usable:
  "bitmap_search_next_usable_block start bm mx = Some i \<Longrightarrow> start \<le> i \<and> i < mx \<and> \<not> bm i"
  "bitmap_search_next_usable_block start bm mx = None \<Longrightarrow> start \<le> j \<Longrightarrow> j < mx \<Longrightarrow> bm j"
  using next_zero(1) [of bm mx start] next_zero(2) [of mx bm start j] by (auto simp: bitmap_search_next_usable_block_def Let_def split: if_splits)

lemma scan_clear:
  assumes "scan_bytes bm lo ((mx + 7) div 8) * 8 < mx"
  shows "\<not> bm (scan_bytes bm lo ((mx + 7) div 8) * 8)"
proof (cases "List.find (\<lambda>j. list_all (\<lambda>i. \<not> bm (8 * j + i)) [0..<8]) [lo..<(mx + 7) div 8]")
  case None
  then have "scan_bytes bm lo ((mx + 7) div 8) \<ge> (mx + 7) div 8" by (simp add: scan_bytes_def)
  then have "(mx + 7) div 8 * 8 < mx" using assms by (meson le_less_trans mult_le_mono1)
  then show ?thesis by linarith
next
  case (Some j)
  then have "list_all (\<lambda>i. \<not> bm (8 * j + i)) [0..<8]" by (auto simp: find_Some_iff)
  then have "\<not> bm (8 * j + 0)" unfolding list_all_iff by (rule bspec) simp
  then show ?thesis using Some by (simp add: scan_bytes_def mult.commute)
qed

lemma find_usable:
  "find_next_usable_block start bm mx = Some i \<Longrightarrow> start \<le> i \<and> i < mx \<and> \<not> bm i"
  "find_next_usable_block start bm mx = None \<Longrightarrow> start \<le> j \<Longrightarrow> j < mx \<Longrightarrow> bm j"
proof -
  let ?e = "min ((start + 63) div 64 * 64) mx"
  show "start \<le> i \<and> i < mx \<and> \<not> bm i" if "find_next_usable_block start bm mx = Some i"
    using that next_zero(1) [of bm ?e start] scan_clear [of bm "start div 8" mx] search_usable(1) [of start bm mx i]
    by (auto simp: find_next_usable_block_def Let_def split: if_splits)
  show "bm j" if "find_next_usable_block start bm mx = None" "start \<le> j" "j < mx"
    using that search_usable(2) [of start bm mx j] by (auto simp: find_next_usable_block_def Let_def split: if_splits)
qed

lemma back_up_clear: "start \<le> g \<Longrightarrow> \<not> bm g \<Longrightarrow> start \<le> back_up n bm start g \<and> back_up n bm start g \<le> g \<and> \<not> bm (back_up n bm start g)"
proof (induction n arbitrary: g)
  case (Suc n)
  show ?case
  proof (cases "g > start \<and> \<not> bm (g - 1)")
    case True
    then have "start \<le> g - 1" by linarith
    with Suc.IH [OF this] True show ?thesis by simp linarith
  next
    case False
    then have "back_up (Suc n) bm start g = g" by auto
    then show ?thesis using Suc.prems by simp
  qed
qed simp

text \<open>With the bitmaps and the inode table behind the first block of the group, the validation of a
  bitmap reads inside it and tells whether the blocks of all three are marked as used.\<close>

lemma next_zero_bit_all: "sz \<le> next_zero_bit bm sz start \<longleftrightarrow> (\<forall>i. start \<le> i \<and> i < sz \<longrightarrow> bm i)"
proof
  assume "\<forall>i. start \<le> i \<and> i < sz \<longrightarrow> bm i"
  then show "sz \<le> next_zero_bit bm sz start"
    by (auto simp: next_zero_bit_def find_Some_iff split: option.splits)
qed (use next_zero(2) in blast)

lemma valid_block_bitmap_iff:
  assumes "\<And>b. b \<in> {bg_block_bitmap bs grp, bg_inode_bitmap bs grp, bg_inode_table bs grp} \<Longrightarrow>
    ext2_group_first_block_no bs grp \<le> b \<and> b - ext2_group_first_block_no bs grp < 2 ^ 31"
  defines "first \<equiv> ext2_group_first_block_no bs grp"
  shows "ext2_valid_block_bitmap bs grp =
    Some (s_bbitmap bs grp (bg_block_bitmap bs grp - first) \<and> s_bbitmap bs grp (bg_inode_bitmap bs grp - first) \<and>
      (\<forall>i. bg_inode_table bs grp - first \<le> i \<and> i < bg_inode_table bs grp - first + s_itb_per_group bs \<longrightarrow>
         s_bbitmap bs grp i))"
proof -
  have off: "int_of_long (int b - int first) = int (b - first)"
    if "b \<in> {bg_block_bitmap bs grp, bg_inode_bitmap bs grp, bg_inode_table bs grp}" for b
    using assms(1) [OF that] unfolding first_def [symmetric] by (subst int_of_long_id) (auto simp: of_nat_diff)
  show ?thesis
    unfolding ext2_valid_block_bitmap_def first_def [symmetric] Let_def
    by (simp add: off next_zero_bit_all)
qed

section \<open>Claiming bits\<close>

text \<open>\<open>marked bm g n\<close>: the bits \<open>g\<close> up to \<open>g + n - 1\<close> are set as well.\<close>

definition marked :: "(nat \<Rightarrow> bool) \<Rightarrow> nat \<Rightarrow> nat \<Rightarrow> nat \<Rightarrow> bool" where
  "marked bm g n = (\<lambda>i. bm i \<or> g \<le> i \<and> i < g + n)"

lemma marked_more: "marked (marked bm g 1) (g + 1) k = marked bm g (1 + k)"
  by (rule ext) (auto simp: marked_def)

definition clear_run :: "(nat \<Rightarrow> bool) \<Rightarrow> nat \<Rightarrow> nat \<Rightarrow> bool" where
  "clear_run bm g n \<longleftrightarrow> (\<forall>i. g \<le> i \<longrightarrow> i < g + n \<longrightarrow> \<not> bm i)"

abbreviation alone :: "nat \<Rightarrow> bool" where "alone \<equiv> (\<lambda>_. False)"

lemma probe_ok:
  "probe alone end1 bm g = (bm', r) \<Longrightarrow>
    (case r of Some g' \<Rightarrow> g \<le> g' \<and> (g' = g \<or> g' < end1) \<and> \<not> bm g' \<and> bm' = marked bm g' 1
     | None \<Rightarrow> bm' = bm \<and> (\<forall>i. g \<le> i \<longrightarrow> i < end1 \<longrightarrow> bm i) \<and> bm g)"
proof (induction "alone" end1 bm g arbitrary: bm' r rule: probe.induct)
  case (1 end1 bm g)
  have s: "bm(g := True) = bm" if "bm g" using that by (simp add: fun_upd_idem)
  have m: "bm(g := True) = marked bm g 1" by (auto simp: marked_def fun_eq_iff)
  show ?case
  proof (cases "bm g \<and> \<not> g + 1 \<ge> end1")
    case True
    then have p: "probe alone end1 (bm(g := True)) (g + 1) = (bm', r)" using 1(2) by (subst (asm) probe.simps) simp
    have "(case r of Some g' \<Rightarrow> g + 1 \<le> g' \<and> (g' = g + 1 \<or> g' < end1) \<and> \<not> bm g' \<and> bm' = marked bm g' 1
     | None \<Rightarrow> bm' = bm \<and> (\<forall>i. g + 1 \<le> i \<longrightarrow> i < end1 \<longrightarrow> bm i) \<and> bm (g + 1))"
      using 1(1) [OF _ _ p] True unfolding s [OF conjunct1 [OF True]] by blast
    then show ?thesis using True by (auto split: option.splits) (metis Suc_leI le_neq_implies_less)
  next
    case False
    show ?thesis
    proof (cases "bm g")
      case True
      then have "end1 \<le> g + 1" "bm' = bm" "r = None" using 1(2) s [OF True] False by (subst (asm) probe.simps, simp)+
      moreover have "bm i" if "g \<le> i" "i < end1" for i using that True calculation(1) by (cases "i = g") auto
      ultimately show ?thesis using True by simp
    qed (use 1(2) m in \<open>subst (asm) probe.simps, auto\<close>)
  qed
qed

lemma claim_more_ok:
  "claim_more alone end1 n bm g num = (bm', num') \<Longrightarrow>
    num \<le> num' \<and> num' \<le> num + n \<and> bm' = marked bm g (num' - num) \<and> clear_run bm g (num' - num) \<and> (num' > num \<longrightarrow> g + (num' - num) \<le> end1)"
proof (induction n arbitrary: bm g num)
  case 0
  then show ?case by (auto simp: marked_def clear_run_def)
next
  case (Suc n)
  consider "\<not> g < end1" | "g < end1" "bm g" | "g < end1" "\<not> bm g" by blast
  then show ?case
  proof cases
    case 2
    then have "bm(g := True) = bm" by (simp add: fun_upd_idem)
    then show ?thesis using Suc.prems 2 by (auto simp: marked_def clear_run_def)
  next
    case 3
    then have "claim_more alone end1 n (bm(g := True)) (g + 1) (num + 1) = (bm', num')" using Suc.prems by simp
    note ih = Suc.IH [OF this]
    then obtain k where k: "num' = num + 1 + k" using le_Suc_ex by blast
    have "\<not> bm i" if "g \<le> i" "i < g + Suc k" for i
      using ih that 3 k by (cases "i = g") (auto simp: clear_run_def)
    then have "clear_run bm g (Suc k)" by (simp add: clear_run_def)
    moreover have "bm' = marked bm g (Suc k)" using ih k by (auto simp: marked_def fun_eq_iff)
    moreover have "g + Suc k \<le> end1" using ih 3 k by (cases "k = 0") simp_all
    ultimately show ?thesis using ih k by simp
  qed (use Suc.prems in \<open>auto simp: marked_def clear_run_def\<close>)
qed

section \<open>Allocating in a group\<close>

lemma alloc_range_bounds:
  assumes "alloc_range bs grp goal my = (start, end1, goal')"
  shows "end1 \<le> bpg bs" "goal' = Some g \<Longrightarrow> g = start \<and> goal = Some g"
    "my = None \<Longrightarrow> end1 = bpg bs \<and> goal' = goal" "goal' = Some g \<Longrightarrow> my \<noteq> None \<Longrightarrow> g < end1"
    "my = Some rsv \<Longrightarrow> end1 = min (rsv_end rsv + 1 - ext2_group_first_block_no bs grp) (bpg bs) \<and>
       rsv_start rsv - ext2_group_first_block_no bs grp \<le> start"
  using assms by (auto simp: alloc_range_def Let_def split: option.splits if_splits)

text \<open>The attempt hands out a run of bits that were clear, in the range, or it finds none there.\<close>

lemma try_ok:
  assumes "ext2_try_to_allocate alone bs grp bm goal count my = Some (bm', num, ret)"
    and "alloc_range bs grp goal my = (start, end1, goal')" and "\<And>g. goal' = Some g \<Longrightarrow> g < end1"
  shows "case ret of Some g \<Rightarrow> start \<le> g \<and> 0 < num \<and> num \<le> max 1 count \<and> g + num \<le> end1 \<and> clear_run bm g num \<and> bm' = marked bm g num
    | None \<Rightarrow> bm' = bm \<and> num = 0 \<and> (\<forall>i. start \<le> i \<longrightarrow> i < end1 \<longrightarrow> bm i)"
proof -
  define s where "s = (case goal' of Some g \<Rightarrow> Some g
      | None \<Rightarrow> map_option (\<lambda>g. if my = None then back_up 7 bm start g else g) (find_next_usable_block start bm end1))"
  have run: "Some (case s of
             None \<Rightarrow> (bm, 0, None)
           | Some g \<Rightarrow>
               (case probe alone end1 bm g of
                  (bm, None) \<Rightarrow> (bm, 0, None)
                | (bm, Some g) \<Rightarrow>
                    (case claim_more alone end1 (count - 1) bm (g + 1) 1 of (bm, num) \<Rightarrow> (bm, num, Some g)))) = Some (bm', num, ret)"
    using assms(1) unfolding ext2_try_to_allocate_def assms(2) s_def by (simp add: Let_def split: if_splits)
  show ?thesis
  proof (cases s)
    case None
    then have "find_next_usable_block start bm end1 = None" by (auto simp: s_def split: option.splits)
    then show ?thesis using run None find_usable(2) by auto
  next
    case (Some g)
    have claim_start: "start \<le> g \<and> g < end1 \<and> (goal' = None \<longrightarrow> \<not> bm g) \<and> (goal' \<noteq> None \<longrightarrow> g = start)"
    proof (cases goal')
      case None
      then obtain f where f: "find_next_usable_block start bm end1 = Some f" "g = (if my = None then back_up 7 bm start f else f)"
        using Some by (auto simp: s_def)
      then show ?thesis using find_usable(1) [OF f(1)] back_up_clear [of start f bm 7] None by auto
    next
      case (Some g')
      then show ?thesis using \<open>s = Some g\<close> assms(3) alloc_range_bounds(2) [OF assms(2)] by (auto simp: s_def)
    qed
    have g: "start \<le> g" "g < end1" "goal' = None \<Longrightarrow> \<not> bm g" "goal' \<noteq> None \<Longrightarrow> g = start"
      by (use claim_start in blast)+
    obtain b1 r1 where p: "probe alone end1 bm g = (b1, r1)" by fastforce
    note pk = probe_ok [OF p]
    show ?thesis
    proof (cases r1)
      case None
      then have "goal' \<noteq> None" using pk g(3) by auto
      then show ?thesis using pk g(4) run Some p None by auto
    next
      case (Some g1)
      then have g1: "g \<le> g1" "g1 < end1" "\<not> bm g1" "b1 = marked bm g1 1" using pk g(2) by auto
      obtain b2 n2 where c: "claim_more alone end1 (count - 1) b1 (g1 + 1) 1 = (b2, n2)" by fastforce
      note ck = claim_more_ok [OF c]
      have r: "ret = Some g1" "num = n2" "bm' = b2" using run \<open>s = Some g\<close> p Some c by auto
      obtain k where k: "n2 = 1 + k" using ck le_Suc_ex by blast
      have "clear_run bm g1 n2" unfolding clear_run_def
      proof (intro allI impI)
        show "\<not> bm i" if "g1 \<le> i" "i < g1 + n2" for i
          using that ck g1(3,4) k by (cases "i = g1") (auto simp: clear_run_def marked_def)
      qed
      moreover have "b2 = marked b1 (g1 + 1) k" using ck k by simp
      then have "b2 = marked bm g1 n2" by (simp only: g1(4) k marked_more)
      moreover have "g1 + n2 \<le> end1" using ck g1(2) k by (cases "k = 0") auto
      moreover have "start \<le> g1" "0 < n2" "n2 \<le> max 1 count" using g1(1) g(1) ck k by auto
      ultimately show ?thesis using r by simp
    qed
  qed
qed

lemma try_Some:
  assumes "start \<le> bpg bs" and "alloc_range bs grp goal my = (start, end1, goal')"
  obtains bm' num ret where "ext2_try_to_allocate lost bs grp bm goal count my = Some (bm', num, ret)"
proof -
  have "ext2_try_to_allocate lost bs grp bm goal count my \<noteq> None" using assms by (simp add: ext2_try_to_allocate_def Let_def)
  then obtain x where "ext2_try_to_allocate lost bs grp bm goal count my = Some x" by blast
  then show thesis using that by (cases x) blast
qed

end
