(* ===== verification/Ext2_Rsv.thy ===== *)
theory Ext2_Rsv
  imports Ext2_Balloc_Facts
begin

text \<open>
  The reservation windows of theory \<open>Ext2_Balloc\<close>. The windows in the tree are in order and disjoint, and the
  tree holds exactly the windows that are allocated, and the window at the head, which stays empty.
  Every operation keeps this, and a new reservation always contains a free block.
\<close>

section \<open>The invariant\<close>

abbreviation before :: "(nat \<Rightarrow> rsv_node) \<Rightarrow> nat \<Rightarrow> nat \<Rightarrow> bool" where
  "before w a b \<equiv> rsv_end (w a) < rsv_start (w b)"

definition rsv_ok :: "nat \<Rightarrow> rsv_state \<Rightarrow> bool" where
  "rsv_ok h rs \<longleftrightarrow> distinct (inorder (rsv_root rs)) \<and> sorted_wrt (before (wins rs)) (inorder (rsv_root rs)) \<and>
     (\<forall>n \<in> set (inorder (rsv_root rs)). rsv_start (wins rs n) \<le> rsv_end (wins rs n)) \<and>
     h \<in> set (inorder (rsv_root rs)) \<and> rsv_end (wins rs h) = 0 \<and>
     (\<forall>n. n \<noteq> h \<longrightarrow> (n \<in> set (inorder (rsv_root rs)) \<longleftrightarrow> \<not> rsv_is_empty (wins rs n)))"

text \<open>What the red-black trees of the kernel promise.\<close>

definition rb_ok :: "rb_lib \<Rightarrow> bool" where
  "rb_ok rb \<longleftrightarrow> (\<forall>n t. inorder (rb_insert_color rb n t) = inorder t) \<and>
     (\<forall>n t. distinct (inorder t) \<longrightarrow> inorder (rb_erase rb n t) = filter (\<lambda>m. m \<noteq> n) (inorder t))"

lemma sorted_wrt_filter1: "sorted_wrt R xs \<Longrightarrow> sorted_wrt R (filter P xs)"
  by (induction xs) auto

lemma filter_out [simp]: "x \<notin> set xs \<Longrightarrow> filter (\<lambda>n. n \<noteq> x) xs = xs"
  by (induction xs) auto

lemma before_cong: "(\<And>n. n \<in> set xs \<Longrightarrow> w' n = w n) \<Longrightarrow> sorted_wrt (before w') xs = sorted_wrt (before w) xs"
  by (induction xs) auto

section \<open>Inserting and searching\<close>

lemma link_node_ok:
  assumes "inorder t = as @ bs" and "\<forall>a \<in> set as. rsv_end (w a) < start \<and> rsv_start (w a) \<le> rsv_end (w a)" and "\<forall>b \<in> set bs. start < rsv_start (w b)"
  shows "\<exists>t'. link_node w start n t = Some t' \<and> inorder t' = as @ n # bs"
  using assms
proof (induction t arbitrary: as bs)
  case Leaf
  then show ?case by simp
next
  case (Node l m r)
  from Node.prems(1) have "inorder l @ m # inorder r = as @ bs" by simp
  then consider (right) us where "as = inorder l @ m # us" "inorder r = us @ bs" | (left) us where "inorder l = as @ us" "bs = us @ m # inorder r"
    by (auto simp: append_eq_append_conv2 Cons_eq_append_conv)
  then show ?case
  proof cases
    case right
    then have "\<not> start < rsv_start (w m)" "start > rsv_end (w m)" using Node.prems(2) by auto
    with Node.IH(2) [OF right(2)] Node.prems right show ?thesis by auto
  next
    case left
    then have "start < rsv_start (w m)" using Node.prems(3) by auto
    with Node.IH(1) [OF left(1)] Node.prems left show ?thesis by auto
  qed
qed

lemma search_down_ok:
  assumes "inorder t = as @ bs" and "\<forall>a \<in> set as. rsv_start (w a) \<le> goal" and "\<forall>b \<in> set bs. goal < rsv_start (w b)"
    and "sorted_wrt (before w) (inorder t)"
  shows "(t \<noteq> Leaf \<longrightarrow> as \<noteq> [] \<and> search_down w goal t d = Some (last as) \<or> bs \<noteq> [] \<and> search_down w goal t d = Some (hd bs))"
  using assms
proof (induction t arbitrary: as bs d)
  case Leaf
  then show ?case by simp
next
  case (Node l m r)
  from Node.prems(1) have "inorder l @ m # inorder r = as @ bs" by simp
  then consider (right) us where "as = inorder l @ m # us" "inorder r = us @ bs" | (left) us where "inorder l = as @ us" "bs = us @ m # inorder r"
    by (auto simp: append_eq_append_conv2 Cons_eq_append_conv)
  then show ?case
  proof cases
    case right
    have m: "rsv_start (w m) \<le> goal" using Node.prems(2) right by simp
    show ?thesis
    proof (cases "goal > rsv_end (w m)")
      case True
      have s: "sorted_wrt (before w) (inorder r)" using Node.prems(4) by (simp add: sorted_wrt_append)
      show ?thesis
      proof (cases "r = Leaf")
        case False
        with Node.IH(2) [OF right(2) _ Node.prems(3) s, of "Some m"] Node.prems(2) right True m show ?thesis
          by (cases "us = []") auto
      qed (use right True m in simp)
    next
      case False
      have "us = []"
      proof (rule ccontr)
        assume "us \<noteq> []"
        then have u: "hd us \<in> set us" by simp
        then have "before w m (hd us)" using Node.prems(4) right by (auto simp: sorted_wrt_append)
        moreover have "rsv_start (w (hd us)) \<le> goal" using Node.prems(2) right u by simp
        ultimately show False using False by linarith
      qed
      then show ?thesis using False m right by simp
    qed
  next
    case left
    have m: "goal < rsv_start (w m)" using Node.prems(3) left by simp
    have s: "sorted_wrt (before w) (inorder l)" using Node.prems(4) by (simp add: sorted_wrt_append)
    show ?thesis
    proof (cases "l = Leaf")
      case False
      with Node.IH(1) [OF left(1) Node.prems(2) _ s, of "Some m"] Node.prems(3) left m show ?thesis
        by (cases "us = []") auto
    qed (use left m in simp)
  qed
qed

text \<open>The windows that start at or before a block, and the others.\<close>

lemma split_at:
  assumes "sorted_wrt (before w) xs" and "\<forall>n \<in> set xs. rsv_start (w n) \<le> rsv_end (w n)"
  obtains as bs where "xs = as @ bs" "\<forall>a \<in> set as. rsv_start (w a) \<le> goal" "\<forall>b \<in> set bs. goal < rsv_start (w b)"
proof -
  have "\<exists>as bs. xs = as @ bs \<and> (\<forall>a \<in> set as. rsv_start (w a) \<le> goal) \<and> (\<forall>b \<in> set bs. goal < rsv_start (w b))"
    using assms
  proof (induction xs)
    case (Cons x xs)
    then obtain as bs where ih: "xs = as @ bs" "\<forall>a \<in> set as. rsv_start (w a) \<le> goal" "\<forall>b \<in> set bs. goal < rsv_start (w b)" by auto
    show ?case
    proof (cases "rsv_start (w x) \<le> goal")
      case True
      with ih show ?thesis by (intro exI [of _ "x # as"] exI [of _ bs]) auto
    next
      case False
      have "\<forall>b \<in> set xs. goal < rsv_start (w b)" using Cons.prems False by force
      with False show ?thesis by (intro exI [of _ "[]"] exI [of _ "x # xs"]) auto
    qed
  qed simp
  then show thesis using that by blast
qed

lemma search_window_ok:
  assumes "rsv_ok h rs"
  obtains as n bs where "search_reserve_window rs goal = Some n" "inorder (rsv_root rs) = as @ n # bs"
    "rsv_start (wins rs n) \<le> goal" "\<forall>b \<in> set bs. goal < rsv_start (wins rs b)"
proof -
  let ?w = "wins rs" and ?t = "rsv_root rs"
  from assms have ok: "distinct (inorder ?t)" "sorted_wrt (before ?w) (inorder ?t)" "\<forall>n \<in> set (inorder ?t). rsv_start (?w n) \<le> rsv_end (?w n)"
    "h \<in> set (inorder ?t)" "rsv_end (?w h) = 0" by (auto simp: rsv_ok_def)
  from split_at [OF ok(2,3), of goal] obtain as bs where
    s: "inorder ?t = as @ bs" "\<forall>a \<in> set as. rsv_start (?w a) \<le> goal" "\<forall>b \<in> set bs. goal < rsv_start (?w b)" .
  have "as \<noteq> []" using ok(3,4,5) s by fastforce
  then obtain xs n where as: "as = xs @ [n]" by (meson rev_exhaust)
  have "?t \<noteq> Leaf" using ok(4) by auto
  then have "search_down ?w goal ?t None = Some n \<or> bs \<noteq> [] \<and> search_down ?w goal ?t None = Some (hd bs)"
    using search_down_ok [OF s ok(2), of None] as by auto
  moreover have "rb_prev ?t (hd bs) = Some n" if "bs \<noteq> []"
  proof -
    have "takeWhile (\<lambda>m. m \<noteq> hd bs) (inorder ?t) = as" using ok(1) s(1) that
      by (cases bs) (auto simp: takeWhile_tail takeWhile_eq_all_conv)
    then show ?thesis by (cases xs) (simp_all add: rb_prev_def as)
  qed
  moreover have "rsv_start (?w n) \<le> goal" using s(2) as by simp
  moreover have "goal < rsv_start (?w (hd bs))" if "bs \<noteq> []" using s(3) that by simp
  ultimately have "search_reserve_window rs goal = Some n" by (auto simp: search_reserve_window_def)
  then show thesis using that [of n xs bs] s as by auto
qed

section \<open>Finding space\<close>

lemma find_space_ok:
  assumes "find_space w sz last_block cur ys = Some (cur', prev)" and "sorted_wrt (before w) (xs @ ys)"
    and "\<forall>x \<in> set xs. rsv_end (w x) < cur" and "\<forall>n \<in> set ys. rsv_start (w n) \<le> rsv_end (w n)"
  shows "\<exists>as bs. xs @ ys = as @ prev # bs \<and> prev \<in> set ys \<and> cur \<le> cur' \<and> cur' \<le> last_block \<and> (\<forall>a \<in> set (as @ [prev]). rsv_end (w a) < cur') \<and>
    (\<forall>b \<in> set bs. cur' + sz \<le> rsv_start (w b))"
  using assms
proof (induction w sz last_block cur ys arbitrary: xs rule: find_space.induct)
  case (2 w sz last_block cur rsv rest)
  define c where "c = (if cur \<le> rsv_end (w rsv) then rsv_end (w rsv) + 1 else cur)"
  have c: "cur \<le> c" "rsv_end (w rsv) < c" by (auto simp: c_def)
  have l: "c \<le> last_block" using 2(2) by (auto simp: c_def Let_def split: if_splits)
  show ?case
  proof (cases rest)
    case Nil
    then have "cur' = c" "prev = rsv" using 2(2) l by (simp_all add: c_def [symmetric])
    with Nil c l 2(4) show ?thesis by (intro exI [of _ xs] exI [of _ "[]"]) fastforce
  next
    case (Cons nxt rest')
    show ?thesis
    proof (cases "c + sz \<le> rsv_start (w nxt)")
      case True
      then have e: "cur' = c" "prev = rsv" using 2(2) l Cons by (simp_all add: c_def [symmetric] Let_def)
      have "\<forall>b \<in> set rest. c + sz \<le> rsv_start (w b)" using True 2(3,5) Cons by (fastforce simp: sorted_wrt_append)
      with e c l 2(4) show ?thesis by (intro exI [of _ xs] exI [of _ rest]) fastforce
    next
      case False
      then have f: "find_space w sz last_block c rest = Some (cur', prev)" using 2(2) l Cons by (simp add: c_def [symmetric] Let_def)
      have "\<forall>x \<in> set (xs @ [rsv]). rsv_end (w x) < c" using 2(4) c by fastforce
      from 2(1) [OF c_def _ Cons False f, of "xs @ [rsv]"] this l 2(3,5) c show ?thesis by fastforce
    qed
  qed
qed simp

lemma rsv_okD:
  assumes "rsv_ok h rs"
  shows "distinct (inorder (rsv_root rs))" "sorted_wrt (before (wins rs)) (inorder (rsv_root rs))"
    "n \<in> set (inorder (rsv_root rs)) \<Longrightarrow> rsv_start (wins rs n) \<le> rsv_end (wins rs n)"
    "h \<in> set (inorder (rsv_root rs))" "rsv_end (wins rs h) = 0"
    "n \<noteq> h \<Longrightarrow> n \<in> set (inorder (rsv_root rs)) \<longleftrightarrow> \<not> rsv_is_empty (wins rs n)"
  using assms by (auto simp: rsv_ok_def)

text \<open>Changing only the wishes of a window, its goal size and its hits.\<close>

lemma rsv_ok_same:
  assumes "rsv_ok h rs" and "rsv_root rs' = rsv_root rs"
    and "\<And>n. rsv_start (wins rs' n) = rsv_start (wins rs n)" "\<And>n. rsv_end (wins rs' n) = rsv_end (wins rs n)"
  shows "rsv_ok h rs'"
  using assms by (simp add: rsv_ok_def rsv_is_empty_def)

text \<open>Placing a window between \<open>as\<close> and \<open>bs\<close>, the windows other than \<open>my\<close>.\<close>

lemma rsv_place:
  assumes ok: "rsv_ok h rs" and my: "my \<noteq> h" and others: "filter (\<lambda>n. n \<noteq> my) (inorder (rsv_root rs)) = as @ bs"
    and t: "inorder t = as @ my # bs" and w: "\<And>n. n \<noteq> my \<Longrightarrow> w n = wins rs n" "rsv_start (w my) \<le> rsv_end (w my)" "0 < rsv_start (w my)"
    and fit: "\<forall>a \<in> set as. rsv_end (wins rs a) < rsv_start (w my)" "\<forall>b \<in> set bs. rsv_end (w my) < rsv_start (wins rs b)"
  shows "rsv_ok h \<lparr>wins = w, rsv_root = t\<rparr>"
proof -
  note d = rsv_okD [OF ok]
  let ?ns = "inorder (rsv_root rs)"
  have "distinct (as @ bs)" using d(1) others by (metis distinct_filter)
  moreover have in1: "set (as @ bs) = set ?ns - {my}" using arg_cong [OF others, of set] by auto
  ultimately have dist: "distinct (as @ my # bs)" by auto
  have "sorted_wrt (before (wins rs)) (as @ bs)" using sorted_wrt_filter1 [OF d(2)] others by metis
  moreover have we: "w n = wins rs n" if "n \<in> set (as @ bs)" for n using in1 that w(1) by auto
  ultimately have "sorted_wrt (before w) (as @ bs)" using before_cong [of "as @ bs" w "wins rs"] by blast
  then have "sorted_wrt (before w) (as @ my # bs)" using fit we by (simp add: sorted_wrt_append)
  moreover have "\<forall>n \<in> set (as @ my # bs). rsv_start (w n) \<le> rsv_end (w n)"
  proof
    fix n assume "n \<in> set (as @ my # bs)"
    then show "rsv_start (w n) \<le> rsv_end (w n)" using d(3) [of n] in1 w(1) [of n] w(2) by (cases "n = my") auto
  qed
  moreover have "h \<in> set (as @ my # bs)" "rsv_end (w h) = 0" using d(4,5) in1 my w(1) by auto
  moreover have "n \<in> set (as @ my # bs) \<longleftrightarrow> \<not> rsv_is_empty (w n)" if "n \<noteq> h" for n
    using d(6) [OF that] in1 w that by (cases "n = my") (auto simp: rsv_is_empty_def)
  ultimately show ?thesis using dist unfolding rsv_ok_def by (simp only: t rsv_state.select_convs) simp
qed

lemma find_next_ok:
  assumes rb: "rb_ok rb" and ok: "rsv_ok h rs" and my: "my \<noteq> h" "0 < rsv_goal_size (wins rs my)"
    and head: "inorder (rsv_root rs) = pre @ hd1 # post" "\<forall>p \<in> set pre. rsv_end (wins rs p) < start_block"
  obtains rs' found where "find_next_reservable_window rb rs (Some hd1) my start_block last_block = Some (rs', found)" "rsv_ok h rs'"
    "\<forall>n. n \<noteq> my \<longrightarrow> wins rs' n = wins rs n" "rsv_goal_size (wins rs' my) = rsv_goal_size (wins rs my)"
    "found \<Longrightarrow> my \<in> set (inorder (rsv_root rs')) \<and> start_block \<le> rsv_start (wins rs' my) \<and> rsv_start (wins rs' my) \<le> last_block"
proof -
  note d = rsv_okD [OF ok]
  let ?w = "wins rs" and ?ns = "inorder (rsv_root rs)" and ?sz = "rsv_goal_size (wins rs my)"
  have dw: "dropWhile (\<lambda>n. n \<noteq> hd1) ?ns = hd1 # post" using d(1) head(1) by (simp add: dropWhile_append3 dropWhile_append)
  show thesis
  proof (cases "find_space ?w ?sz last_block start_block (hd1 # post)")
    case None
    then have "find_next_reservable_window rb rs (Some hd1) my start_block last_block = Some (rs, False)"
      using dw by (simp add: find_next_reservable_window_def Let_def)
    then show thesis using that ok by blast
  next
    case (Some r)
    obtain cur prev where r: "r = (cur, prev)" by (cases r)
    have "sorted_wrt (before ?w) (pre @ hd1 # post)" "\<forall>n \<in> set (hd1 # post). rsv_start (?w n) \<le> rsv_end (?w n)"
      using d(2,3) head(1) by auto
    from find_space_ok [OF Some [unfolded r] this(1) head(2) this(2)] obtain as bs where
      s: "?ns = as @ prev # bs" "start_block \<le> cur" "cur \<le> last_block" "\<forall>a \<in> set (as @ [prev]). rsv_end (?w a) < cur"
        "\<forall>b \<in> set bs. cur + ?sz \<le> rsv_start (?w b)" unfolding head(1) by blast
    have cur: "0 < cur" using s(4) by auto
    let ?rsv = "(?w my)\<lparr>rsv_start := cur, rsv_end := cur + ?sz - 1, rsv_alloc_hit := 0\<rparr>"
    define w where "w = ?w(my := ?rsv)"
    have w: "\<And>n. n \<noteq> my \<Longrightarrow> w n = ?w n" "rsv_start (w my) \<le> rsv_end (w my)" "0 < rsv_start (w my)" "w my = ?rsv"
      using my(2) cur by (simp_all add: w_def)
    have f1: "\<forall>a \<in> set (as @ [prev]). rsv_end (?w a) < rsv_start (w my)" using s(4) w(4) by simp
    have f2: "rsv_end (w my) < rsv_start (?w b)" if "b \<in> set bs" for b
      using bspec [OF s(5) that] my(2) cur w(4) by simp
    show thesis
    proof (cases "prev = my")
      case True
      have f: "filter (\<lambda>n. n \<noteq> my) ?ns = as @ bs"
      proof -
        have "my \<notin> set as" "my \<notin> set bs" using s(1) d(1) True by auto
        then show ?thesis using s(1) True by simp
      qed
      have "rsv_ok h \<lparr>wins = w, rsv_root = rsv_root rs\<rparr>"
        using s(1) f1 f2 True by (intro rsv_place [OF ok my(1) f _ w(1-3)]) auto
      moreover have "find_next_reservable_window rb rs (Some hd1) my start_block last_block = Some (rs\<lparr>wins := w\<rparr>, True)"
        using dw Some r True by (simp add: find_next_reservable_window_def Let_def w_def)
      moreover have e: "rs\<lparr>wins := w\<rparr> = \<lparr>wins = w, rsv_root = rsv_root rs\<rparr>" by simp
      ultimately show thesis using that [of "rs\<lparr>wins := w\<rparr>" True] w s True unfolding e by simp
    next
      case False
      let ?as = "filter (\<lambda>n. n \<noteq> my) (as @ [prev])" and ?bs = "filter (\<lambda>n. n \<noteq> my) bs"
      define rs1 where "rs1 = (if prev \<noteq> my \<and> \<not> rsv_is_empty (?w my) then rsv_window_remove rb rs my else rs)"
      have f: "filter (\<lambda>n. n \<noteq> my) ?ns = ?as @ ?bs" using s(1) by simp
      have "filter (\<lambda>n. n \<noteq> my) ?ns = ?ns" if "rsv_is_empty (?w my)" using d(6) [OF my(1)] that by (auto simp: filter_id_conv)
      then have i1: "inorder (rsv_root rs1) = ?as @ ?bs"
        using rb d(1) f False unfolding rs1_def rb_ok_def by (auto simp: rsv_window_remove_def)
      have w1: "(wins rs1)(my := (wins rs1 my)\<lparr>rsv_start := cur, rsv_end := cur + ?sz - 1, rsv_alloc_hit := 0\<rparr>) = w"
        by (auto simp: rs1_def w_def rsv_window_remove_def)
      have ab: "rsv_end (w a) < cur \<and> rsv_start (w a) \<le> rsv_end (w a)" if "a \<in> set ?as" for a
        using that s(1,4) d(3) [of a] w(1) [of a] by (auto split: if_splits)
      have "cur < rsv_start (w b)" if "b \<in> set ?bs" for b
        using that s(5) w(1) [of b] my(2) by force
      then have "\<forall>a \<in> set ?as. rsv_end (w a) < cur \<and> rsv_start (w a) \<le> rsv_end (w a)" "\<forall>b \<in> set ?bs. cur < rsv_start (w b)"
        using ab by blast+
      from link_node_ok [OF i1 this, of my] obtain t where t: "link_node w cur my (rsv_root rs1) = Some t" "inorder t = ?as @ my # ?bs" by blast
      define t' where "t' = rb_insert_color rb my t"
      have t': "inorder t' = ?as @ my # ?bs" using rb t(2) by (simp add: rb_ok_def t'_def)
      have "rsv_ok h \<lparr>wins = w, rsv_root = t'\<rparr>"
        using f1 f2 by (intro rsv_place [OF ok my(1) f t' w(1-3)]) (auto split: if_splits)
      moreover have "find_next_reservable_window rb rs (Some hd1) my start_block last_block = Some (rs1\<lparr>wins := w, rsv_root := t'\<rparr>, True)"
      proof -
        have "find_next_reservable_window rb rs (Some hd1) my start_block last_block = do {
            rs \<leftarrow> ext2_rsv_window_add rb (rs1\<lparr>wins := (wins rs1)(my := (wins rs1 my)\<lparr>rsv_start := cur, rsv_end := cur + ?sz - 1, rsv_alloc_hit := 0\<rparr>)\<rparr>) my;
            Some (rs, True) }"
          unfolding find_next_reservable_window_def rs1_def using dw Some r False by (simp add: Let_def)
        also have "\<dots> = Some (rs1\<lparr>wins := w, rsv_root := t'\<rparr>, True)"
          unfolding w1 using t(1) w(4) by (simp add: ext2_rsv_window_add_def t'_def)
        finally show ?thesis .
      qed
      moreover have "rs1\<lparr>wins := w, rsv_root := t'\<rparr> = \<lparr>wins = w, rsv_root = t'\<rparr>" by simp
      ultimately show thesis using that [of "\<lparr>wins = w, rsv_root = t'\<rparr>" True] w s t' by simp
    qed
  qed
qed

section \<open>Reserving\<close>

lemma drop_window_ok:
  assumes rb: "rb_ok rb" and ok: "rsv_ok h rs" and my: "my \<noteq> h"
  shows "rsv_ok h (drop_window rb rs my)" "rsv_is_empty (wins (drop_window rb rs my) my)"
    "rsv_goal_size (wins (drop_window rb rs my) my) = rsv_goal_size (wins rs my)" "n \<noteq> my \<Longrightarrow> wins (drop_window rb rs my) n = wins rs n"
proof -
  note d = rsv_okD [OF ok]
  let ?rs = "drop_window rb rs my" and ?ns = "filter (\<lambda>m. m \<noteq> my) (inorder (rsv_root rs))"
  show e: "rsv_is_empty (wins ?rs my)" and o: "\<And>n. n \<noteq> my \<Longrightarrow> wins ?rs n = wins rs n"
    and "rsv_goal_size (wins ?rs my) = rsv_goal_size (wins rs my)"
    by (simp_all add: drop_window_def rsv_window_remove_def rsv_is_empty_def)
  have i: "inorder (rsv_root ?rs) = ?ns"
  proof (cases "rsv_is_empty (wins rs my)")
    case True
    then have "my \<notin> set (inorder (rsv_root rs))" using d(6) [OF my] by simp
    then have "?ns = inorder (rsv_root rs)" by (rule filter_out)
    then show ?thesis using True by (simp add: drop_window_def)
  next
    case False
    then show ?thesis using rb d(1) by (simp add: drop_window_def rsv_window_remove_def rb_ok_def)
  qed
  have "sorted_wrt (before (wins rs)) ?ns" using d(2) by (rule sorted_wrt_filter1)
  then have "sorted_wrt (before (wins ?rs)) ?ns" using o before_cong [of ?ns "wins ?rs" "wins rs"] by simp
  moreover have "\<forall>n \<in> set ?ns. rsv_start (wins ?rs n) \<le> rsv_end (wins ?rs n)" using d(3) o by simp
  moreover have "n \<in> set ?ns \<longleftrightarrow> \<not> rsv_is_empty (wins ?rs n)" if "n \<noteq> h" for n
    using d(6) [OF that] e o by (cases "n = my") auto
  ultimately show "rsv_ok h ?rs" using d(1,4,5) my o [of h] unfolding rsv_ok_def i by auto
qed

text \<open>The search ends: every round starts behind the last window.\<close>

lemma reserve_loop_ok:
  assumes rb: "rb_ok rb" and ok: "rsv_ok h rs" and my: "my \<noteq> h" "0 < rsv_goal_size (wins rs my)"
    and head: "inorder (rsv_root rs) = pre @ hd1 # post" "\<forall>p \<in> set pre. rsv_end (wins rs p) < start_block" and first: "first \<le> start_block"
  shows "\<exists>rs' found. reserve_loop rb bm first last_block my rs (Some hd1) start_block = Some (rs', found) \<and> rsv_ok h rs' \<and>
    (\<forall>n. n \<noteq> my \<longrightarrow> wins rs' n = wins rs n) \<and> rsv_goal_size (wins rs' my) = rsv_goal_size (wins rs my) \<and>
    (if found then my \<in> set (inorder (rsv_root rs')) \<and> start_block \<le> rsv_start (wins rs' my) \<and> rsv_start (wins rs' my) \<le> last_block \<and>
        (\<exists>i. i + first \<le> last_block \<and> rsv_start (wins rs' my) \<le> i + first \<and> i + first \<le> rsv_end (wins rs' my) \<and> \<not> bm i)
     else rsv_is_empty (wins rs' my))"
  using ok my(2) head first
proof (induction "last_block + 1 - start_block" arbitrary: rs pre hd1 post start_block rule: less_induct)
  case less
  from find_next_ok [OF rb less.prems(1) my(1) less.prems(2-4), of last_block] obtain rs1 found where
    f: "find_next_reservable_window rb rs (Some hd1) my start_block last_block = Some (rs1, found)" "rsv_ok h rs1"
      "\<forall>n. n \<noteq> my \<longrightarrow> wins rs1 n = wins rs n" "rsv_goal_size (wins rs1 my) = rsv_goal_size (wins rs my)"
      "found \<longrightarrow> my \<in> set (inorder (rsv_root rs1)) \<and> start_block \<le> rsv_start (wins rs1 my) \<and> rsv_start (wins rs1 my) \<le> last_block" by blast
  note dr = drop_window_ok [OF rb f(2) my(1)]
  let ?s = "bitmap_search_next_usable_block (rsv_start (wins rs1 my) - first) bm (last_block - first + 1)"
  have unf: "reserve_loop rb bm first last_block my rs (Some hd1) start_block =
    (if \<not> found then Some (drop_window rb rs1 my, False)
     else (case ?s of None \<Rightarrow> Some (drop_window rb rs1 my, False)
        | Some i \<Rightarrow>
            if i + first \<ge> rsv_start (wins rs1 my) \<and> i + first \<le> rsv_end (wins rs1 my) then Some (rs1, True)
            else reserve_loop rb bm first last_block my rs1 (Some my) (i + first)))"
    by (subst reserve_loop.simps) (simp add: f(1))
  show ?case
  proof (cases "found \<and> ?s \<noteq> None")
    case False
    then have "reserve_loop rb bm first last_block my rs (Some hd1) start_block = Some (drop_window rb rs1 my, False)"
      using unf by auto
    then show ?thesis using dr f by auto
  next
    case True
    then obtain i where i: "?s = Some i" by blast
    note u = search_usable(1) [OF i]
    have w: "my \<in> set (inorder (rsv_root rs1))" "start_block \<le> rsv_start (wins rs1 my)" "rsv_start (wins rs1 my) \<le> last_block"
      using f(5) True by auto
    have ge: "rsv_start (wins rs1 my) \<le> i + first" "i + first \<le> last_block" using u w less.prems(5) by auto
    show ?thesis
    proof (cases "i + first \<le> rsv_end (wins rs1 my)")
      case in1: True
      then have "reserve_loop rb bm first last_block my rs (Some hd1) start_block = Some (rs1, True)" using unf True i ge by auto
      then show ?thesis using f w in1 ge u by auto
    next
      case False
      then have r: "reserve_loop rb bm first last_block my rs (Some hd1) start_block = reserve_loop rb bm first last_block my rs1 (Some my) (i + first)"
        using unf True i by auto
      obtain pre1 post1 where s: "inorder (rsv_root rs1) = pre1 @ my # post1" using split_list [OF w(1)] by blast
      have "\<forall>p \<in> set pre1. rsv_end (wins rs1 p) < i + first"
        using rsv_okD(2) [OF f(2)] rsv_okD(3) [OF f(2) w(1)] False s by (fastforce simp: sorted_wrt_append)
      moreover have "last_block + 1 - (i + first) < last_block + 1 - start_block"
        using rsv_okD(3) [OF f(2) w(1)] False w ge by linarith
      moreover have "0 < rsv_goal_size (wins rs1 my)" using f(4) less.prems(2) by simp
      ultimately obtain rs' found where ih: "reserve_loop rb bm first last_block my rs1 (Some my) (i + first) = Some (rs', found)" "rsv_ok h rs'"
        "\<forall>n. n \<noteq> my \<longrightarrow> wins rs' n = wins rs1 n" "rsv_goal_size (wins rs' my) = rsv_goal_size (wins rs1 my)"
        "(if found then my \<in> set (inorder (rsv_root rs')) \<and> i + first \<le> rsv_start (wins rs' my) \<and> rsv_start (wins rs' my) \<le> last_block \<and>
          (\<exists>i. i + first \<le> last_block \<and> rsv_start (wins rs' my) \<le> i + first \<and> i + first \<le> rsv_end (wins rs' my) \<and> \<not> bm i)
         else rsv_is_empty (wins rs' my))"
        using less.hyps [OF _ f(2) _ s] by (metis le_add2)
      have "start_block \<le> i + first" using ge w(2) by linarith
      then show ?thesis unfolding r using ih f(3,4) by (intro exI [of _ rs'] exI [of _ found]) (cases found, simp_all)
    qed
  qed
qed

abbreviation start_of :: "balloc \<Rightarrow> nat \<Rightarrow> nat option \<Rightarrow> nat" where
  "start_of bs grp goal \<equiv> (case goal of None \<Rightarrow> ext2_group_first_block_no bs grp | Some g \<Rightarrow> g + ext2_group_first_block_no bs grp)"

text \<open>The window of \<open>my\<close> starts in the group and contains a free block of the group.\<close>

definition has_free_block :: "balloc \<Rightarrow> nat \<Rightarrow> (nat \<Rightarrow> bool) \<Rightarrow> rsv_node \<Rightarrow> bool" where
  "has_free_block bs grp bm rsv \<longleftrightarrow> ext2_group_first_block_no bs grp \<le> rsv_start rsv \<and>
     (\<exists>i < bpg bs. rsv_start rsv \<le> i + ext2_group_first_block_no bs grp \<and> i + ext2_group_first_block_no bs grp \<le> rsv_end rsv \<and> \<not> bm i)"

lemma new_reservation_ok:
  assumes rb: "rb_ok rb" and ok: "rsv_ok h rs" and my: "my \<noteq> h" "0 < rsv_goal_size (wins rs my)" and bpg: "0 < bpg bs"
  obtains rs' found where "alloc_new_reservation rb bs rs my goal grp bm = Some (rs', found)" "rsv_ok h rs'" "0 < rsv_goal_size (wins rs' my)"
    "\<forall>n. n \<noteq> my \<longrightarrow> wins rs' n = wins rs n"
    "found \<longrightarrow> start_of bs grp goal \<le> rsv_start (wins rs' my) \<and> has_free_block bs grp bm (wins rs' my)"
proof -
  let ?f = "ext2_group_first_block_no bs grp"
  let ?l = "?f + (bpg bs - 1)" and ?rsv = "wins rs my"
  define rs1 where "rs1 = (if \<not> rsv_is_empty ?rsv \<and> rsv_alloc_hit ?rsv > (rsv_end ?rsv - rsv_start ?rsv + 1) div 2
                     then rs\<lparr>wins := (wins rs)(my := ?rsv\<lparr>rsv_goal_size := min (rsv_goal_size ?rsv * 2) EXT2_MAX_RESERVE_BLOCKS\<rparr>)\<rparr>
                     else rs)"
  have ok1: "rsv_ok h rs1" using ok by (rule rsv_ok_same) (simp_all add: rs1_def)
  have g1: "0 < rsv_goal_size (wins rs1 my)" "\<forall>n. n \<noteq> my \<longrightarrow> wins rs1 n = wins rs n" using my(2) by (simp_all add: rs1_def)
  from search_window_ok [OF ok1, of "start_of bs grp goal"] obtain as n bs' where
    s: "search_reserve_window rs1 (start_of bs grp goal) = Some n" "inorder (rsv_root rs1) = as @ n # bs'" "rsv_start (wins rs1 n) \<le> start_of bs grp goal" .
  have p: "\<forall>a \<in> set as. rsv_end (wins rs1 a) < start_of bs grp goal"
    using rsv_okD(2) [OF ok1] s(2,3) by (fastforce simp: sorted_wrt_append)
  have st: "?f \<le> start_of bs grp goal" by (cases goal) simp_all
  from reserve_loop_ok [OF rb ok1 my(1) g1(1) s(2) p st, of bm ?l] obtain rs2 found where
    r: "reserve_loop rb bm ?f ?l my rs1 (Some n) (start_of bs grp goal) = Some (rs2, found)" "rsv_ok h rs2"
      "\<forall>n. n \<noteq> my \<longrightarrow> wins rs2 n = wins rs1 n" "rsv_goal_size (wins rs2 my) = rsv_goal_size (wins rs1 my)"
      "found \<longrightarrow> start_of bs grp goal \<le> rsv_start (wins rs2 my) \<and> (\<exists>i. i + ?f \<le> ?l \<and> rsv_start (wins rs2 my) \<le> i + ?f \<and> i + ?f \<le> rsv_end (wins rs2 my) \<and> \<not> bm i)"
    by (auto split: if_splits)
  have "has_free_block bs grp bm (wins rs2 my)" if found
  proof -
    from r(5) that obtain i where i: "i + ?f \<le> ?l" "rsv_start (wins rs2 my) \<le> i + ?f" "i + ?f \<le> rsv_end (wins rs2 my)" "\<not> bm i" by blast
    then have "i < bpg bs" using bpg by linarith
    then show ?thesis using i r(5) that st by (auto simp: has_free_block_def)
  qed
  then have found: "found \<longrightarrow> start_of bs grp goal \<le> rsv_start (wins rs2 my) \<and> has_free_block bs grp bm (wins rs2 my)" using r(5) by blast
  show thesis
  proof (cases "\<not> rsv_is_empty ?rsv \<and> rsv_start ?rsv \<le> ?l \<and> rsv_end ?rsv > ?l \<and> start_of bs grp goal \<ge> rsv_start ?rsv")
    case True
    then have "alloc_new_reservation rb bs rs my goal grp bm = Some (rs, False)" by (simp add: alloc_new_reservation_def Let_def)
    then show thesis using that ok my by blast
  next
    case False
    have "alloc_new_reservation rb bs rs my goal grp bm = reserve_loop rb bm ?f ?l my rs1 (search_reserve_window rs1 (start_of bs grp goal)) (start_of bs grp goal)"
      unfolding alloc_new_reservation_def Let_def rs1_def using False by (simp only: if_False)
    then show thesis using that [of rs2 found] r s(1) found g1 by simp
  qed
qed

lemma window_start_pos:
  assumes ok: "rsv_ok h rs" and my: "my \<noteq> h" "my \<in> set (inorder (rsv_root rs))"
  shows "0 < rsv_start (wins rs my)"
proof -
  note d = rsv_okD [OF ok]
  from split_list [OF my(2)] obtain as bs where s: "inorder (rsv_root rs) = as @ my # bs" by blast
  have "h \<in> set as \<union> set bs" using d(4) s my(1) by auto
  moreover have "before (wins rs) a my" if "a \<in> set as" for a using d(2) s that by (simp add: sorted_wrt_append)
  moreover have "before (wins rs) my b" if "b \<in> set bs" for b using d(2) s that by (simp add: sorted_wrt_append)
  moreover have "rsv_start (wins rs h) = 0" using d(3) [OF d(4)] d(5) by simp
  ultimately show ?thesis by fastforce
qed

lemma extend_ok:
  assumes ok: "rsv_ok h rs" and my: "my \<noteq> h" "\<not> rsv_is_empty (wins rs my)"
  shows "rsv_ok h (try_to_extend_reservation fr rs my sz)"
    "rsv_start (wins (try_to_extend_reservation fr rs my sz) my) = rsv_start (wins rs my)"
    "rsv_end (wins rs my) \<le> rsv_end (wins (try_to_extend_reservation fr rs my sz) my)"
proof -
  note d = rsv_okD [OF ok]
  have m: "my \<in> set (inorder (rsv_root rs))" using d(6) [OF my(1)] my(2) by simp
  from split_list [OF m] obtain as bs where s: "inorder (rsv_root rs) = as @ my # bs" by blast
  have nm: "my \<notin> set as" "my \<notin> set bs" using d(1) s by auto
  then have f: "filter (\<lambda>n. n \<noteq> my) (inorder (rsv_root rs)) = as @ bs"
    using s by simp
  have "dropWhile (\<lambda>m. m \<noteq> my) (inorder (rsv_root rs)) = my # bs" using s nm by (simp add: dropWhile_append3 dropWhile_append)
  then have nx: "rb_next (rsv_root rs) my = (case bs of [] \<Rightarrow> None | b # _ \<Rightarrow> Some b)" by (simp add: rb_next_def split: list.splits)
  define e where "e = (case rb_next (rsv_root rs) my of
                   None \<Rightarrow> rsv_end (wins rs my) + sz
                 | Some nxt \<Rightarrow>
                     if rsv_start (wins rs nxt) - rsv_end (wins rs my) - 1 \<ge> sz then rsv_end (wins rs my) + sz
                     else rsv_start (wins rs nxt) - 1)"
  have a: "before (wins rs) a my" if "a \<in> set as" for a using d(2) s that by (simp add: sorted_wrt_append)
  have b: "before (wins rs) my b" if "b \<in> set bs" for b using d(2) s that by (simp add: sorted_wrt_append)
  have e1: "rsv_end (wins rs my) \<le> e" using b [of "hd bs"] by (cases bs) (auto simp: e_def nx)
  have e2: "e < rsv_start (wins rs b)" if "b \<in> set bs" for b
  proof (cases bs)
    case (Cons x xs)
    have "e < rsv_start (wins rs x)" using assms b [of x] Cons by (auto simp: e_def nx)
    moreover have "rsv_start (wins rs x) \<le> rsv_start (wins rs b)"
      using d(2) d(3) [of x] s Cons that by (fastforce simp: sorted_wrt_append)
    ultimately show ?thesis by linarith
  qed (use that in simp)
  define w where "w = (wins rs)(my := (wins rs my)\<lparr>rsv_end := e\<rparr>)"
  have w: "\<And>n. n \<noteq> my \<Longrightarrow> w n = wins rs n" "rsv_start (w my) \<le> rsv_end (w my)" "0 < rsv_start (w my)"
    using window_start_pos [OF ok my(1) m] d(3) [OF m] e1 by (simp_all add: w_def)
  have "rsv_ok h \<lparr>wins = w, rsv_root = rsv_root rs\<rparr>"
    using a e2 by (intro rsv_place [OF ok my(1) f s w]) (simp_all add: w_def)
  moreover have x: "try_to_extend_reservation True rs my sz = \<lparr>wins = w, rsv_root = rsv_root rs\<rparr>"
    by (simp add: try_to_extend_reservation_def Let_def w_def e_def)
  ultimately show "rsv_ok h (try_to_extend_reservation fr rs my sz)"
    using ok by (cases fr) (simp_all add: try_to_extend_reservation_def)
  show "rsv_start (wins (try_to_extend_reservation fr rs my sz) my) = rsv_start (wins rs my)"
    "rsv_end (wins rs my) \<le> rsv_end (wins (try_to_extend_reservation fr rs my sz) my)"
    using x e1 by (cases fr; simp add: try_to_extend_reservation_def w_def)+
qed

section \<open>Allocating from a window\<close>

text \<open>A run of blocks in the group that was clear, or nothing.\<close>

definition outcome_ok :: "balloc \<Rightarrow> nat \<Rightarrow> (nat \<Rightarrow> bool) \<Rightarrow> (nat \<Rightarrow> bool) \<Rightarrow> nat \<Rightarrow> nat option \<Rightarrow> bool" where
  "outcome_ok bs count bm bm' num ret \<longleftrightarrow>
     (case ret of
        Some g \<Rightarrow> 0 < num \<and> num \<le> max 1 count \<and> g + num \<le> bpg bs \<and> clear_run bm g num \<and> bm' = marked bm g num
      | None \<Rightarrow> bm' = bm)"

lemma try_window:
  assumes "rsv_start rsv \<le> ext2_group_first_block_no bs grp + (bpg bs - 1)" and bpg: "0 < bpg bs"
  obtains bm' num ret where "ext2_try_to_allocate alone bs grp bm goal count (Some rsv) = Some (bm', num, ret)"
    "outcome_ok bs count bm bm' num ret"
    "ret = None \<longrightarrow> has_free_block bs grp bm rsv \<longrightarrow> start_of bs grp goal \<le> rsv_start rsv \<longrightarrow> False"
proof -
  let ?f = "ext2_group_first_block_no bs grp"
  obtain start end1 goal' where a: "alloc_range bs grp goal (Some rsv) = (start, end1, goal')" using prod_cases3 by blast
  note b = alloc_range_bounds [OF a]
  have e: "end1 = min (rsv_end rsv + 1 - ?f) (bpg bs)" using b(5) by simp
  have st: "start = rsv_start rsv - ?f \<or> start < end1" using a by (auto simp: alloc_range_def Let_def split: option.splits if_splits)
  then have "start \<le> bpg bs" using b(1) assms by linarith
  from try_Some [OF this a] obtain bm' num ret where t: "ext2_try_to_allocate alone bs grp bm goal count (Some rsv) = Some (bm', num, ret)" .
  have "\<And>g. goal' = Some g \<Longrightarrow> g < end1" using b(4) by simp
  note k = try_ok [OF t a this]
  have "outcome_ok bs count bm bm' num ret" using k b(1) by (auto simp: outcome_ok_def split: option.splits)
  moreover have False if n: "ret = None" "has_free_block bs grp bm rsv" "start_of bs grp goal \<le> rsv_start rsv"
  proof -
    have "start = rsv_start rsv - ?f"
    proof (cases goal)
      case (Some g)
      then have "g \<le> rsv_start rsv - ?f" using n(3) by simp
      then show ?thesis using a Some by (auto simp: alloc_range_def Let_def split: if_splits)
    qed (use a in \<open>auto simp: alloc_range_def Let_def\<close>)
    moreover from n(2) obtain i where i: "i < bpg bs" "rsv_start rsv \<le> i + ?f" "i + ?f \<le> rsv_end rsv" "\<not> bm i" by (auto simp: has_free_block_def)
    ultimately have "start \<le> i" "i < end1" using e by auto
    then show False using k n(1) i(4) by auto
  qed
  ultimately show thesis using that t by blast
qed

text \<open>One round with a new window ends the loop: the window has a free block.\<close>

lemma rsv_loop_fresh:
  assumes e: "rb_ok (ba_rb e)" "ba_lost e grp = alone" and ok: "rsv_ok h rs" and my: "my \<noteq> h" and n: "0 < count" "0 < bpg bs"
    and fresh: "rsv_is_empty (wins rs my) \<or> failed \<or> \<not> goal_in_my_reservation bs (wins rs my) goal grp"
  obtains rs' bm' num ret where "rsv_loop e bs grp my count rs bm goal failed = Some (rs', bm', num, ret)" "rsv_ok h rs'"
    "outcome_ok bs count bm bm' num ret" "ret = None \<longrightarrow> num = count"
proof -
  let ?f = "ext2_group_first_block_no bs grp"
  let ?l = "?f + (bpg bs - 1)"
  define rs1 where "rs1 = (if rsv_goal_size (wins rs my) < count
                       then rs\<lparr>wins := (wins rs)(my := (wins rs my)\<lparr>rsv_goal_size := count\<rparr>)\<rparr> else rs)"
  have ok1: "rsv_ok h rs1" using ok by (rule rsv_ok_same) (simp_all add: rs1_def)
  have "0 < rsv_goal_size (wins rs1 my)" using n(1) by (simp add: rs1_def)
  from new_reservation_ok [OF e(1) ok1 my this n(2), of goal grp bm] obtain rs2 found where
    r: "alloc_new_reservation (ba_rb e) bs rs1 my goal grp bm = Some (rs2, found)" "rsv_ok h rs2"
      "found \<longrightarrow> start_of bs grp goal \<le> rsv_start (wins rs2 my) \<and> has_free_block bs grp bm (wins rs2 my)" .
  define g2 where "g2 = (if goal_in_my_reservation bs (wins rs2 my) goal grp then goal else None)"
  have s2: "settle_window e bs grp my count rs bm goal failed = Some (rs2, g2, found)"
    unfolding settle_window_def g2_def using fresh r(1) by (simp add: Let_def rs1_def)
  have u: "rsv_loop e bs grp my count rs bm goal failed =
    (if \<not> found then Some (rs2, bm, count, None)
     else if rsv_start (wins rs2 my) > ?l \<or> rsv_end (wins rs2 my) < ?f then None
     else do {
       (bm', num, ret) \<leftarrow> ext2_try_to_allocate alone bs grp bm g2 count (Some (wins rs2 my));
       (case ret of
          Some g \<Rightarrow>
            Some (rs2\<lparr>wins := (wins rs2)(my := (wins rs2 my)\<lparr>rsv_alloc_hit := rsv_alloc_hit (wins rs2 my) + num\<rparr>)\<rparr>, bm', num, Some g)
        | None \<Rightarrow> rsv_loop e bs grp my count rs2 bm' g2 True)
     })"
    using s2 e(2) by (subst rsv_loop.simps) (simp add: Let_def)
  show thesis
  proof (cases found)
    case False
    then show thesis using that [of rs2 bm count None] u r(2) by (simp add: outcome_ok_def)
  next
    case True
    then have w: "start_of bs grp goal \<le> rsv_start (wins rs2 my)" "has_free_block bs grp bm (wins rs2 my)" using r(3) by auto
    then have b: "\<not> (rsv_start (wins rs2 my) > ?l \<or> rsv_end (wins rs2 my) < ?f)" by (auto simp: has_free_block_def)
    then have le: "rsv_start (wins rs2 my) \<le> ?l" by simp
    have "start_of bs grp g2 \<le> rsv_start (wins rs2 my)" using w by (auto simp: g2_def has_free_block_def)
    with try_window [OF le n(2), of bm g2 count] w(2) obtain bm' num g where
      t: "ext2_try_to_allocate alone bs grp bm g2 count (Some (wins rs2 my)) = Some (bm', num, Some g)" "outcome_ok bs count bm bm' num (Some g)"
      by (metis not_None_eq)
    let ?rs = "rs2\<lparr>wins := (wins rs2)(my := (wins rs2 my)\<lparr>rsv_alloc_hit := rsv_alloc_hit (wins rs2 my) + num\<rparr>)\<rparr>"
    have "rsv_ok h ?rs" using r(2) by (rule rsv_ok_same) simp_all
    moreover have "rsv_loop e bs grp my count rs bm goal failed = Some (?rs, bm', num, Some g)" using u True b t(1) by simp
    ultimately show thesis using that t(2) by blast
  qed
qed

lemma rsv_loop_ok:
  assumes e: "rb_ok (ba_rb e)" "ba_lost e grp = alone" and ok: "rsv_ok h rs" and my: "my \<noteq> h" and n: "0 < count" "0 < bpg bs"
  obtains rs' bm' num ret where "rsv_loop e bs grp my count rs bm goal failed = Some (rs', bm', num, ret)" "rsv_ok h rs'"
    "outcome_ok bs count bm bm' num ret" "ret = None \<longrightarrow> num = count"
proof (cases "rsv_is_empty (wins rs my) \<or> failed \<or> \<not> goal_in_my_reservation bs (wins rs my) goal grp")
  case True
  then show thesis using rsv_loop_fresh [OF assms True] that by blast
next
  case False
  let ?f = "ext2_group_first_block_no bs grp"
  let ?l = "?f + (bpg bs - 1)"
  define rs2 where "rs2 = (case goal of
      Some g \<Rightarrow> if rsv_end (wins rs my) + 1 - (g + ?f) < count
        then try_to_extend_reservation (ba_lock e) rs my (count - (rsv_end (wins rs my) + 1 - (g + ?f))) else rs
    | None \<Rightarrow> rs)"
  have s2: "settle_window e bs grp my count rs bm goal failed = Some (rs2, goal, True)"
    using False by (cases goal) (simp_all add: settle_window_def rs2_def Let_def)
  have x: "rsv_ok h rs2" "rsv_start (wins rs2 my) = rsv_start (wins rs my)" "rsv_end (wins rs my) \<le> rsv_end (wins rs2 my)"
    using extend_ok [OF ok my] ok False by (auto simp: rs2_def split: option.splits)
  have b: "\<not> (rsv_start (wins rs2 my) > ?l \<or> rsv_end (wins rs2 my) < ?f)"
    using False x n(2) by (auto simp: goal_in_my_reservation_def Let_def split: if_splits)
  then have "rsv_start (wins rs2 my) \<le> ?l" by simp
  from try_window [OF this n(2), of bm goal count] obtain bm' num ret where
    t: "ext2_try_to_allocate alone bs grp bm goal count (Some (wins rs2 my)) = Some (bm', num, ret)" "outcome_ok bs count bm bm' num ret" .
  have u: "rsv_loop e bs grp my count rs bm goal failed =
    (case ret of
       Some g \<Rightarrow>
         Some (rs2\<lparr>wins := (wins rs2)(my := (wins rs2 my)\<lparr>rsv_alloc_hit := rsv_alloc_hit (wins rs2 my) + num\<rparr>)\<rparr>, bm', num, Some g)
     | None \<Rightarrow> rsv_loop e bs grp my count rs2 bm' goal True)"
    using s2 b t(1) e(2) by (subst rsv_loop.simps) (simp add: Let_def)
  show thesis
  proof (cases ret)
    case None
    then have "bm' = bm" using t(2) by (simp add: outcome_ok_def)
    then show thesis using rsv_loop_fresh [OF e x(1) my n, of True goal bm] that u None by auto
  next
    case (Some g)
    let ?rs = "rs2\<lparr>wins := (wins rs2)(my := (wins rs2 my)\<lparr>rsv_alloc_hit := rsv_alloc_hit (wins rs2 my) + num\<rparr>)\<rparr>"
    have "rsv_ok h ?rs" using x(1) by (rule rsv_ok_same) simp_all
    then show thesis using that [of ?rs bm' num ret] u t(2) Some by simp
  qed
qed

text \<open>An empty window that is not in the tree may be replaced by another one.\<close>

lemma empty_window_free:
  assumes ok: "rsv_ok h rs" and "n \<noteq> h" "rsv_is_empty (wins rs n)" "rsv_is_empty w"
  shows "rsv_ok h (rs\<lparr>wins := (wins rs)(n := w)\<rparr>)"
proof -
  note d = rsv_okD [OF ok]
  have out: "n \<notin> set (inorder (rsv_root rs))" using d(6) [OF assms(2)] assms(3) by blast
  then have "sorted_wrt (before ((wins rs)(n := w))) (inorder (rsv_root rs))"
    using d(2) by (subst before_cong [of _ _ "wins rs"]) auto
  then show ?thesis using ok out assms(2,4) unfolding rsv_ok_def by auto
qed

end
