(* ===== verification/Ext2_Ioctl.thy ===== *)
theory Ext2_Ioctl
  imports Ext2_Rsv Ext2_Ialloc_Facts
begin

text \<open>
  The requests on open files, a3/ioctl.c, and closing a file, \<open>ext2_release_file\<close> of a3/file.c. The state
  is the inode of the file, its block allocation info, if it has one, and the reservation windows.
  The user's value, the rights of the caller, the mount and \<open>ext2_mask_flags\<close> of the kernel are
  arguments. A request that succeeds may hand a value to the user. Locks are left out.
\<close>

section \<open>Requests\<close>

datatype ioctl_cmd =
    EXT2_IOC_GETFLAGS | EXT2_IOC_SETFLAGS | EXT2_IOC_GETVERSION | EXT2_IOC_SETVERSION
  | EXT2_IOC_GETRSVSZ | EXT2_IOC_SETRSVSZ
  | EXT2_IOC32_GETFLAGS | EXT2_IOC32_SETFLAGS | EXT2_IOC32_GETVERSION | EXT2_IOC32_SETVERSION
  | IOC_OTHER

abbreviation EXT2_FL_USER_VISIBLE :: "32 word" where "EXT2_FL_USER_VISIBLE \<equiv> 0x3DFFF"
abbreviation EXT2_FL_USER_MODIFIABLE :: "32 word" where "EXT2_FL_USER_MODIFIABLE \<equiv> 0x380FF"

record ioctl_file =
  if_inode :: inode
  if_block_i :: "nat option"
  if_rsv :: rsv_state

record ioctl_env =
  io_put :: bool
  io_get :: "32 word option"
  io_want_write :: "errno option"
  io_owner :: bool
  io_cap :: bool
  io_mask :: "16 word \<Rightarrow> 32 word \<Rightarrow> 32 word"
  io_now :: nat
  io_reservation :: bool
  io_mem :: bool
  io_info :: nat

definition put_user :: "ioctl_env \<Rightarrow> 32 word \<Rightarrow> errno + 32 word option" where
  "put_user e v = (if io_put e then Inr (Some v) else Inl EFAULT)"

definition ioc_setflags :: "ioctl_env \<Rightarrow> ioctl_file \<Rightarrow> ioctl_file \<times> (errno + 32 word option)" where
  "ioc_setflags e f =
     (case io_want_write e of
        Some err \<Rightarrow> (f, Inl err)
      | None \<Rightarrow>
          if \<not> io_owner e then (f, Inl EACCES)
          else
            (case io_get e of
               None \<Rightarrow> (f, Inl EFAULT)
             | Some flags \<Rightarrow>
                 let inode = if_inode f;
                     flags = io_mask e (i_mode inode) flags
                 in if and (i_vflags inode) S_NOQUOTA \<noteq> 0 then (f, Inl EPERM)
                    else
                      let oldflags = i_flags inode
                      in if and (xor flags oldflags) (or EXT2_APPEND_FL EXT2_IMMUTABLE_FL) \<noteq> 0 \<and> \<not> io_cap e then (f, Inl EPERM)
                         else
                           let flags = and flags EXT2_FL_USER_MODIFIABLE;
                               flags = or flags (and oldflags (not EXT2_FL_USER_MODIFIABLE));
                               inode = ext2_set_inode_flags (inode\<lparr>i_flags := flags\<rparr>)
                           in (f\<lparr>if_inode := inode\<lparr>i_ctime := io_now e, i_dirty := True\<rparr>\<rparr>, Inr None)))"

text \<open>\<open>get_user\<close> stores 0 in its target when it fails.\<close>

definition ioc_setversion :: "ioctl_env \<Rightarrow> ioctl_file \<Rightarrow> ioctl_file \<times> (errno + 32 word option)" where
  "ioc_setversion e f =
     (if \<not> io_owner e then (f, Inl EPERM)
      else
        (case io_want_write e of
           Some err \<Rightarrow> (f, Inl err)
         | None \<Rightarrow>
             (case io_get e of
                None \<Rightarrow> (f\<lparr>if_inode := (if_inode f)\<lparr>i_generation := 0\<rparr>\<rparr>, Inl EFAULT)
              | Some v \<Rightarrow> (f\<lparr>if_inode := (if_inode f)\<lparr>i_generation := v, i_ctime := io_now e, i_dirty := True\<rparr>\<rparr>, Inr None))))"

definition ioc_getrsvsz :: "ioctl_env \<Rightarrow> ioctl_file \<Rightarrow> ioctl_file \<times> (errno + 32 word option)" where
  "ioc_getrsvsz e f =
     (case if_block_i f of
        Some b \<Rightarrow>
          if io_reservation e \<and> S_ISREG (i_mode (if_inode f))
          then (f, put_user e (of_nat (rsv_goal_size (wins (if_rsv f) b) mod 2 ^ 16)))
          else (f, Inl ENOTTY)
      | None \<Rightarrow> (f, Inl ENOTTY))"

text \<open>The new allocation info is the one with the identity \<open>io_info\<close>. The user's value is read into an
  unsigned short.\<close>

definition ioc_setrsvsz :: "ioctl_env \<Rightarrow> ioctl_file \<Rightarrow> ioctl_file \<times> (errno + 32 word option)" where
  "ioc_setrsvsz e f =
     (if \<not> io_reservation e \<or> \<not> S_ISREG (i_mode (if_inode f)) then (f, Inl ENOTTY)
      else if \<not> io_owner e then (f, Inl EACCES)
      else
        (case io_get e of
           None \<Rightarrow> (f, Inl EFAULT)
         | Some v \<Rightarrow>
             (case io_want_write e of
                Some err \<Rightarrow> (f, Inl err)
              | None \<Rightarrow>
                  let sz = min (unat v mod 2 ^ 16) EXT2_MAX_RESERVE_BLOCKS;
                      f = (case if_block_i f of
                             Some _ \<Rightarrow> f
                           | None \<Rightarrow>
                               (case ext2_init_block_alloc_info (io_mem e) (io_reservation e) of
                                  None \<Rightarrow> f
                                | Some w \<Rightarrow> f\<lparr>if_block_i := Some (io_info e),
                                              if_rsv := (if_rsv f)\<lparr>wins := (wins (if_rsv f))(io_info e := w)\<rparr>\<rparr>));
                      f = (case if_block_i f of
                             None \<Rightarrow> f
                           | Some b \<Rightarrow> f\<lparr>if_rsv := (if_rsv f)\<lparr>wins := (wins (if_rsv f))(b := (wins (if_rsv f) b)\<lparr>rsv_goal_size := sz\<rparr>)\<rparr>\<rparr>)
                  in (f, Inr None))))"

definition ext2_ioctl :: "ioctl_env \<Rightarrow> ioctl_file \<Rightarrow> ioctl_cmd \<Rightarrow> ioctl_file \<times> (errno + 32 word option)" where
  "ext2_ioctl e f cmd =
     (case cmd of
        EXT2_IOC_GETFLAGS \<Rightarrow>
          let inode = ext2_get_inode_flags (if_inode f)
          in (f\<lparr>if_inode := inode\<rparr>, put_user e (and (i_flags inode) EXT2_FL_USER_VISIBLE))
      | EXT2_IOC_SETFLAGS \<Rightarrow> ioc_setflags e f
      | EXT2_IOC_GETVERSION \<Rightarrow> (f, put_user e (i_generation (if_inode f)))
      | EXT2_IOC_SETVERSION \<Rightarrow> ioc_setversion e f
      | EXT2_IOC_GETRSVSZ \<Rightarrow> ioc_getrsvsz e f
      | EXT2_IOC_SETRSVSZ \<Rightarrow> ioc_setrsvsz e f
      | _ \<Rightarrow> (f, Inl ENOTTY))"

definition ext2_compat_ioctl :: "ioctl_env \<Rightarrow> ioctl_file \<Rightarrow> ioctl_cmd \<Rightarrow> ioctl_file \<times> (errno + 32 word option)" where
  "ext2_compat_ioctl e f cmd =
     (case cmd of
        EXT2_IOC32_GETFLAGS \<Rightarrow> ext2_ioctl e f EXT2_IOC_GETFLAGS
      | EXT2_IOC32_SETFLAGS \<Rightarrow> ext2_ioctl e f EXT2_IOC_SETFLAGS
      | EXT2_IOC32_GETVERSION \<Rightarrow> ext2_ioctl e f EXT2_IOC_GETVERSION
      | EXT2_IOC32_SETVERSION \<Rightarrow> ext2_ioctl e f EXT2_IOC_SETVERSION
      | _ \<Rightarrow> (f, Inl ENOIOCTLCMD))"

section \<open>Closing a file\<close>

definition ext2_release_file :: "rb_lib \<Rightarrow> bool \<Rightarrow> ioctl_file \<Rightarrow> ioctl_file" where
  "ext2_release_file rb fmode_write f =
     (if fmode_write then f\<lparr>if_rsv := ext2_discard_reservation rb (if_rsv f) (if_block_i f)\<rparr> else f)"

section \<open>Properties\<close>

lemma flags_merge:
  "and (or (and a m) (and b (not m))) m = and a m" "and (or (and a m) (and b (not m))) (not m) = and b (not m)"
  for a b m :: "32 word"
  by (auto intro!: bit_word_eqI simp: bit_and_iff bit_or_iff bit_not_iff)

lemma flags_kept:
  fixes a b m p :: "32 word"
  assumes "and (xor a b) p = 0"
  shows "and (or (and a m) (and b (not m))) p = and b p"
proof (rule bit_word_eqI)
  fix n
  have "bit (and (xor a b) p) n = False" using assms by simp
  then show "bit (and (or (and a m) (and b (not m))) p) n = bit (and b p) n"
    by (auto simp: bit_and_iff bit_or_iff bit_xor_iff bit_not_iff dest: bit_imp_le_length)
qed

lemma flags_agree:
  assumes "i_vflags inode = i_vflags (ext2_set_inode_flags inode')" "i_flags inode = i_flags inode'"
  shows "i_flags (ext2_get_inode_flags inode) = i_flags inode"
  by (intro bit_word_eqI) (auto simp: assms flags_bit vflags_bit)

lemma set_flags_same [simp]: "i_flags (ext2_set_inode_flags inode) = i_flags inode"
  by (simp add: ext2_set_inode_flags_def Let_def)

text \<open>C35: Setting the flags of a file fails and changes nothing, or it succeeds: then the caller owns the file,
  the mount is writable, the flags that users may modify are the masked ones of the user and all
  others are the old ones, the append-only and immutable flags are the old ones unless the caller has
  the capability to change them, and the flags of the VFS inode agree with them.\<close>

theorem setflags_protects:
  assumes "ext2_ioctl e f EXT2_IOC_SETFLAGS = (f', r)"
  shows "(\<exists>err. r = Inl err \<and> f' = f) \<or>
    (\<exists>flags. r = Inr None \<and> io_get e = Some flags \<and> io_owner e \<and> io_want_write e = None \<and>
       and (i_flags (if_inode f')) EXT2_FL_USER_MODIFIABLE = and (io_mask e (i_mode (if_inode f)) flags) EXT2_FL_USER_MODIFIABLE \<and>
       and (i_flags (if_inode f')) (not EXT2_FL_USER_MODIFIABLE) = and (i_flags (if_inode f)) (not EXT2_FL_USER_MODIFIABLE) \<and>
       (\<not> io_cap e \<longrightarrow> and (i_flags (if_inode f')) (or EXT2_APPEND_FL EXT2_IMMUTABLE_FL) =
                        and (i_flags (if_inode f)) (or EXT2_APPEND_FL EXT2_IMMUTABLE_FL)) \<and>
       i_flags (ext2_get_inode_flags (if_inode f')) = i_flags (if_inode f'))"
proof (cases "\<exists>err. r = Inl err")
  case True
  then show ?thesis using assms by (auto simp: ext2_ioctl_def ioc_setflags_def Let_def split: option.splits if_splits)
next
  case False
  then obtain flags where g: "io_get e = Some flags" "io_owner e" "io_want_write e = None"
    using assms by (auto simp: ext2_ioctl_def ioc_setflags_def Let_def split: option.splits if_splits)
  let ?flags = "io_mask e (i_mode (if_inode f)) flags" and ?old = "i_flags (if_inode f)"
  let ?new = "or (and ?flags EXT2_FL_USER_MODIFIABLE) (and ?old (not EXT2_FL_USER_MODIFIABLE))"
  let ?inode = "(if_inode f)\<lparr>i_flags := ?new\<rparr>"
  have r: "r = Inr None" "f' = f\<lparr>if_inode := (ext2_set_inode_flags ?inode)\<lparr>i_ctime := io_now e, i_dirty := True\<rparr>\<rparr>"
    "\<not> io_cap e \<longrightarrow> and (xor ?flags ?old) (or EXT2_APPEND_FL EXT2_IMMUTABLE_FL) = 0"
    using assms False g unfolding ext2_ioctl_def ioc_setflags_def Let_def by (auto split: if_splits)
  have fl: "i_flags (if_inode f') = ?new" "i_vflags (if_inode f') = i_vflags (ext2_set_inode_flags ?inode)"
    by (simp_all only: r(2)) simp_all
  have "i_flags (ext2_get_inode_flags (if_inode f')) = i_flags (if_inode f')"
    by (rule flags_agree [OF fl(2)]) (simp add: fl(1))
  then show ?thesis using r(1) g flags_merge [of ?flags EXT2_FL_USER_MODIFIABLE ?old] flags_kept r(3) unfolding fl(1) by blast
qed

definition io_ex :: ioctl_env where
  "io_ex = \<lparr>io_put = True, io_get = Some 0x20, io_want_write = None, io_owner = True, io_cap = True, io_mask = (\<lambda>_ w. w), io_now = 5,
     io_reservation = True, io_mem = True, io_info = 1\<rparr>"

definition ioctl_file_ex :: ioctl_file where
  "ioctl_file_ex = \<lparr>if_inode = parent_ex\<lparr>i_vflags := 0\<rparr>, if_block_i = None, if_rsv = \<lparr>wins = (\<lambda>_. \<lparr>rsv_start = 0, rsv_end = 0, rsv_goal_size = 8,
     rsv_alloc_hit = 0, last_alloc_logical_block = 0, last_alloc_physical_block = 0\<rparr>), rsv_root = Node Leaf 0 Leaf\<rparr>\<rparr>"

theorem setflags_protects_witness:
  "\<exists>f'. ext2_ioctl io_ex ioctl_file_ex EXT2_IOC_SETFLAGS = (f', Inr None) \<and>
     and (i_flags (if_inode f')) EXT2_FL_USER_MODIFIABLE = EXT2_APPEND_FL"
proof -
  obtain f' r where r: "ext2_ioctl io_ex ioctl_file_ex EXT2_IOC_SETFLAGS = (f', r)" by fastforce
  moreover have "r = Inr None" using r
    by (simp add: ext2_ioctl_def ioc_setflags_def io_ex_def ioctl_file_ex_def Let_def)
  moreover have "io_get io_ex = Some 0x20" "io_mask io_ex = (\<lambda>_ w. w)" by (simp_all add: io_ex_def)
  ultimately show ?thesis using setflags_protects [OF r] by auto
qed

text \<open>Closing a file that was open for writing gives its window back.\<close>

lemma release_file_ok:
  assumes "rb_ok rb" and "rsv_ok h (if_rsv f)" and "if_block_i f = Some b" "b \<noteq> h"
  shows "rsv_ok h (if_rsv (ext2_release_file rb w f))" "w \<Longrightarrow> rsv_is_empty (wins (if_rsv (ext2_release_file rb w f)) b)"
    "n \<noteq> b \<Longrightarrow> wins (if_rsv (ext2_release_file rb w f)) n = wins (if_rsv f) n"
  using drop_window_ok [OF assms(1,2,4)] assms(2,3)
  by (auto simp: ext2_release_file_def ext2_discard_reservation_def drop_window_def split: if_splits)

text \<open>Every request keeps the windows in order, provided that a new allocation info is not in use.\<close>

lemma ioctl_keeps_windows:
  assumes "rsv_ok h (if_rsv f)" and "if_block_i f \<noteq> Some h" and "io_info e \<noteq> h" "rsv_is_empty (wins (if_rsv f) (io_info e))"
    and "ext2_ioctl e f cmd = (f', r)"
  shows "rsv_ok h (if_rsv f')"
proof -
  have same: "rsv_ok h (rs\<lparr>wins := (wins rs)(b := (wins rs b)\<lparr>rsv_goal_size := n\<rparr>)\<rparr>)" if "rsv_ok h rs" for rs b n
    using that by (rule rsv_ok_same) simp_all
  have new: "rsv_ok h ((if_rsv f)\<lparr>wins := (wins (if_rsv f))(io_info e := w)\<rparr>)" if "rsv_is_empty w" for w
    using empty_window_free [OF assms(1,3,4) that] .
  have init: "rsv_is_empty (w\<lparr>rsv_goal_size := n\<rparr>)" if "ext2_init_block_alloc_info a b = Some w" for a b w n
    using that by (auto simp: ext2_init_block_alloc_info_def rsv_is_empty_def split: if_splits)
  show ?thesis using assms(5,1) same new init
    by (auto simp: ext2_ioctl_def ioc_setflags_def ioc_setversion_def ioc_getrsvsz_def ioc_setrsvsz_def Let_def
        split: ioctl_cmd.splits option.splits if_splits)
qed

end
