(* ===== verification/Ext2_Bmap.thy ===== *)
theory Ext2_Bmap
  imports Ext2_Balloc
begin

text \<open>
  The map from blocks of a file to blocks of the device, a3/inode.c: the tree of indirect blocks, its
  growth by \<open>ext2_get_blocks\<close> and its pruning by \<open>ext2_truncate\<close>. The 15 words of \<open>i_data\<close> are \<open>i_ptr\<close>,
  the words of an indirect block \<open>b\<close> are \<open>ind_ptr s b\<close>; a \<open>__le32 *\<close> of the source is a place \<open>ptr_loc\<close>:
  a word of the inode, of a block, or the local variable \<open>nr\<close>. \<open>bits\<close> is the logarithm of the number of
  words in a block. \<open>be_rd\<close> tells whether an indirect block can be read. Truncating the pages of the page
  cache, writing buffers back and the counting of blocks by the quota code are left out. Nothing else changes the tree
  while an operation runs, so that \<open>verify_chain\<close>, evaluated on the one state there is, does not fail.
\<close>

section \<open>State\<close>

datatype ptr_loc = In_Inode nat | In_Block nat nat | In_Local

record bmap =
  bm_inode :: inode
  i_ptr :: "nat \<Rightarrow> nat"
  ind_ptr :: "nat \<Rightarrow> nat \<Rightarrow> nat"
  nr_ptr :: nat
  bm_bs :: balloc
  bm_block_i :: "nat option"

record bm_env =
  be_ba :: ba_env
  be_rd :: "nat \<Rightarrow> bool"
  be_pid :: nat
  be_now :: nat
  be_mem :: bool
  be_reservation :: bool
  be_info :: nat
  be_xip :: "errno option option"

abbreviation EXT2_NDIR_BLOCKS :: nat where "EXT2_NDIR_BLOCKS \<equiv> 12"
abbreviation EXT2_IND_BLOCK :: nat where "EXT2_IND_BLOCK \<equiv> 12"
abbreviation EXT2_DIND_BLOCK :: nat where "EXT2_DIND_BLOCK \<equiv> 13"
abbreviation EXT2_TIND_BLOCK :: nat where "EXT2_TIND_BLOCK \<equiv> 14"

fun ptr_at :: "bmap \<Rightarrow> ptr_loc \<Rightarrow> nat" where
  "ptr_at s (In_Inode n) = i_ptr s n"
| "ptr_at s (In_Block b n) = ind_ptr s b n"
| "ptr_at s In_Local = nr_ptr s"

fun set_ptr :: "ptr_loc \<Rightarrow> nat \<Rightarrow> bmap \<Rightarrow> bmap" where
  "set_ptr (In_Inode n) v s = s\<lparr>i_ptr := (i_ptr s)(n := v)\<rparr>"
| "set_ptr (In_Block b n) v s = s\<lparr>ind_ptr := (ind_ptr s)(b := (ind_ptr s b)(n := v))\<rparr>"
| "set_ptr In_Local v s = s\<lparr>nr_ptr := v\<rparr>"

fun loc_add :: "ptr_loc \<Rightarrow> nat \<Rightarrow> ptr_loc" where
  "loc_add (In_Inode n) k = In_Inode (n + k)"
| "loc_add (In_Block b n) k = In_Block b (n + k)"
| "loc_add In_Local k = In_Local"

text \<open>A pair of the place of a pointer and the value read there.\<close>

type_synonym Indirect = "ptr_loc \<times> nat"

definition verify_chain :: "bmap \<Rightarrow> Indirect list \<Rightarrow> bool" where
  "verify_chain s ch = list_all (\<lambda>(p, key). ptr_at s p = key) ch"

section \<open>Paths\<close>

text \<open>The offsets of the path to a block, empty when it is out of range, and the distance to the last
  block of the same indirect block.\<close>

definition ext2_block_to_path :: "nat \<Rightarrow> int \<Rightarrow> nat list \<times> int" where
  "ext2_block_to_path bits i_block =
     (let ptrs = 2 ^ bits;
          double_blocks = 2 ^ (bits * 2)
      in if i_block < 0 then ([], 0 - 1 - i_block mod ptrs)
         else if i_block < 12 then ([nat i_block], 12 - 1 - i_block mod ptrs)
         else
           let i_block = i_block - 12
           in if i_block < ptrs then ([EXT2_IND_BLOCK, nat i_block], ptrs - 1 - i_block mod ptrs)
              else
                let i_block = i_block - ptrs
                in if i_block < double_blocks
                   then ([EXT2_DIND_BLOCK, nat (i_block div ptrs), nat (i_block mod ptrs)], ptrs - 1 - i_block mod ptrs)
                   else
                     let i_block = i_block - double_blocks
                     in if i_block div double_blocks < ptrs
                        then ([EXT2_TIND_BLOCK, nat (i_block div double_blocks), nat (i_block div ptrs mod ptrs), nat (i_block mod ptrs)],
                              ptrs - 1 - i_block mod ptrs)
                        else ([], 0 - 1 - i_block mod ptrs))"

fun get_chain :: "(nat \<Rightarrow> bool) \<Rightarrow> bmap \<Rightarrow> Indirect list \<Rightarrow> nat list \<Rightarrow> Indirect list \<times> bool \<times> errno option" where
  "get_chain rd s ch [] = (ch, True, None)"
| "get_chain rd s ch (off # offs) =
     (let key = snd (last ch) in
      if \<not> rd key then (ch, False, Some EIO)
      else if \<not> verify_chain s ch then (ch, False, Some EAGAIN)
      else
        let p = In_Block key off;
            ch = ch @ [(p, ptr_at s p)]
        in if ptr_at s p = 0 then (ch, False, None) else get_chain rd s ch offs)"

text \<open>The chain, whether it is complete (the result \<open>NULL\<close> of the source), and the error. The last triple
  of the chain is the one the source returns.\<close>

definition ext2_get_branch :: "(nat \<Rightarrow> bool) \<Rightarrow> bmap \<Rightarrow> nat list \<Rightarrow> Indirect list \<times> bool \<times> errno option" where
  "ext2_get_branch rd s offsets =
     (let p = In_Inode (hd offsets);
          ch = [(p, ptr_at s p)]
      in if ptr_at s p = 0 then (ch, False, None) else get_chain rd s ch (tl offsets))"

section \<open>Where to allocate\<close>

fun loc_index :: "ptr_loc \<Rightarrow> nat" where
  "loc_index (In_Inode n) = n"
| "loc_index (In_Block b n) = n"
| "loc_index In_Local = 0"

fun loc_row :: "bmap \<Rightarrow> ptr_loc \<Rightarrow> nat \<Rightarrow> nat" where
  "loc_row s (In_Block b _) = ind_ptr s b"
| "loc_row s _ = i_ptr s"

definition ext2_find_near :: "bm_env \<Rightarrow> bmap \<Rightarrow> ptr_loc \<Rightarrow> nat" where
  "ext2_find_near e s p =
     (case List.find (\<lambda>i. loc_row s p i \<noteq> 0) (rev [0..<loc_index p]) of
        Some i \<Rightarrow> loc_row s p i
      | None \<Rightarrow>
          (case p of
             In_Block b _ \<Rightarrow> b
           | _ \<Rightarrow> ext2_group_first_block_no (bm_bs s) (i_block_group (bm_inode s)) + be_pid e mod 16 * (bpg (bm_bs s) div 16)))"

definition ext2_find_goal :: "bm_env \<Rightarrow> bmap \<Rightarrow> nat \<Rightarrow> ptr_loc \<Rightarrow> nat" where
  "ext2_find_goal e s block p =
     (case bm_block_i s of
        Some b \<Rightarrow>
          let w = wins (bs_rsv (bm_bs s)) b
          in if block = last_alloc_logical_block w + 1 \<and> last_alloc_physical_block w \<noteq> 0
             then last_alloc_physical_block w + 1 else ext2_find_near e s p
      | None \<Rightarrow> ext2_find_near e s p)"

text \<open>The loop that counts the empty slots behind the first one.\<close>

function count_slots :: "bmap \<Rightarrow> ptr_loc \<Rightarrow> nat \<Rightarrow> nat \<Rightarrow> nat \<Rightarrow> nat" where
  "count_slots s p blks boundary count =
     (if count < blks \<and> count \<le> boundary \<and> ptr_at s (loc_add p count) = 0
      then count_slots s p blks boundary (count + 1) else count)"
  by pat_completeness auto
termination
  by (relation "measure (\<lambda>(s, p, blks, boundary, count). blks - count)") auto

declare count_slots.simps [simp del]

definition ext2_blks_to_allocate :: "bmap \<Rightarrow> ptr_loc \<Rightarrow> nat \<Rightarrow> nat \<Rightarrow> nat \<Rightarrow> nat" where
  "ext2_blks_to_allocate s p k blks boundary =
     (if k > 0 then if blks < boundary + 1 then blks else boundary + 1
      else count_slots s p blks boundary 1)"

section \<open>Allocating a branch\<close>

fun free_each :: "(nat \<Rightarrow> bool) \<Rightarrow> balloc \<Rightarrow> nat list \<Rightarrow> balloc option" where
  "free_each rd bs [] = Some bs"
| "free_each rd bs (b # blks) = do { bs \<leftarrow> ext2_free_blocks rd bs b 1; free_each rd bs blks }"

text \<open>\<open>blks\<close> holds the blocks for indirect blocks so far. The result: the blocks for the indirect blocks and
  the first data block, and the number of data blocks.\<close>

partial_function (option) alloc_run ::
  "ba_env \<Rightarrow> balloc \<Rightarrow> nat option \<Rightarrow> nat \<Rightarrow> nat \<Rightarrow> nat \<Rightarrow> nat list \<Rightarrow> (balloc \<times> (errno + nat list \<times> nat)) option" where
  "alloc_run e bs block_i goal indirect_blks target blks = do {
     (bs, r) \<leftarrow> ext2_new_blocks e bs block_i goal target;
     (case r of
        Inl err \<Rightarrow> do { bs \<leftarrow> free_each (ba_rd e) bs blks; Some (bs, Inl err) }
      | Inr (current_block, count) \<Rightarrow>
          let n = min count (indirect_blks - length blks);
              blks = blks @ [current_block..<current_block + n]
          in if count - n > 0 then Some (bs, Inr (blks @ [current_block + n], count - n))
             else alloc_run e bs block_i goal indirect_blks (target - count) blks)
   }"

definition ext2_alloc_blocks ::
  "ba_env \<Rightarrow> balloc \<Rightarrow> nat option \<Rightarrow> nat \<Rightarrow> nat \<Rightarrow> nat \<Rightarrow> (balloc \<times> (errno + nat list \<times> nat)) option" where
  "ext2_alloc_blocks e bs block_i goal indirect_blks blks = alloc_run e bs block_i goal indirect_blks (blks + indirect_blks) []"

text \<open>The new indirect blocks are cleared and linked; the last one points to all the new data blocks.
  \<open>parent\<close> is the block at hand, \<open>blks\<close> the blocks behind it.\<close>

fun link_blocks :: "nat \<Rightarrow> nat \<Rightarrow> nat list \<Rightarrow> nat list \<Rightarrow> bmap \<Rightarrow> bmap \<times> Indirect list" where
  "link_blocks num parent (b # blks) (off # offs) s =
     (let row = (\<lambda>i. if i = off then b else if blks = [] \<and> off < i \<and> i < off + num then b + (i - off) else 0);
          s = s\<lparr>ind_ptr := (ind_ptr s)(parent := row)\<rparr>;
          (s, branch) = link_blocks num b blks offs s
      in (s, (In_Block parent off, b) # branch))"
| "link_blocks num parent _ _ s = (s, [])"

definition ext2_alloc_branch ::
  "bm_env \<Rightarrow> bmap \<Rightarrow> nat \<Rightarrow> nat \<Rightarrow> nat \<Rightarrow> nat list \<Rightarrow> ptr_loc \<Rightarrow> (bmap \<times> (errno + Indirect list \<times> nat)) option" where
  "ext2_alloc_branch e s indirect_blks blks goal offsets p = do {
     (bs, r) \<leftarrow> ext2_alloc_blocks (be_ba e) (bm_bs s) (bm_block_i s) goal indirect_blks blks;
     let s = s\<lparr>bm_bs := bs\<rparr>;
     (case r of
        Inl err \<Rightarrow> Some (s, Inl err)
      | Inr (new_blocks, num) \<Rightarrow>
          let (s, branch) = link_blocks num (hd new_blocks) (tl new_blocks) (tl offsets) s
          in Some (s, Inr ((p, hd new_blocks) # branch, num)))
   }"

fun set_run :: "ptr_loc \<Rightarrow> nat \<Rightarrow> nat list \<Rightarrow> bmap \<Rightarrow> bmap" where
  "set_run p key [] s = s"
| "set_run p key (i # is) s = set_run p key is (set_ptr (loc_add p i) (key + i) s)"

definition ext2_splice_branch :: "bm_env \<Rightarrow> bmap \<Rightarrow> nat \<Rightarrow> Indirect list \<Rightarrow> nat \<Rightarrow> nat \<Rightarrow> bmap" where
  "ext2_splice_branch e s block branch num blks =
     (let (p, key) = hd branch;
          s = set_ptr p key s;
          s = (if num = 0 \<and> blks > 1 then set_run p key [1..<blks] s else s);
          s = (case bm_block_i s of
                 None \<Rightarrow> s
               | Some b \<Rightarrow>
                   let bs = bm_bs s; rs = bs_rsv bs
                   in s\<lparr>bm_bs := bs\<lparr>bs_rsv := rs\<lparr>wins := (wins rs)(b := (wins rs b)\<lparr>
                          last_alloc_logical_block := block + blks - 1,
                          last_alloc_physical_block := snd (branch ! num) + blks - 1\<rparr>)\<rparr>\<rparr>\<rparr>)
      in s\<lparr>bm_inode := (bm_inode s)\<lparr>i_ctime := be_now e, i_dirty := True\<rparr>\<rparr>)"

section \<open>Mapping blocks\<close>

text \<open>More blocks that follow the first one on the device. The error: the chain has changed.\<close>

function map_more :: "bmap \<Rightarrow> Indirect list \<Rightarrow> nat \<Rightarrow> nat \<Rightarrow> nat \<Rightarrow> nat \<times> errno option" where
  "map_more s ch maxblocks boundary count =
     (if count < maxblocks \<and> count \<le> boundary
      then if \<not> verify_chain s ch then (0, Some EAGAIN)
           else if ptr_at s (loc_add (fst (last ch)) count) = snd (last ch) + count
                then map_more s ch maxblocks boundary (count + 1) else (count, None)
      else (count, None))"
  by pat_completeness auto
termination
  by (relation "measure (\<lambda>(s, ch, maxblocks, boundary, count). maxblocks - count)") auto

declare map_more.simps [simp del]

text \<open>What \<open>bh_result\<close> is set to: the block, whether it is new, whether an indirect block follows, and the
  number of blocks.\<close>

record bh_map =
  bh_block :: nat
  bh_new :: bool
  bh_boundary :: bool
  bh_count :: nat

definition got_it :: "nat \<Rightarrow> bool \<Rightarrow> nat \<Rightarrow> nat \<Rightarrow> bh_map option" where
  "got_it blk new boundary count = Some \<lparr>bh_block = blk, bh_new = new, bh_boundary = (count > boundary), bh_count = count\<rparr>"

definition init_alloc_info :: "bm_env \<Rightarrow> bmap \<Rightarrow> bmap" where
  "init_alloc_info e s =
     (if S_ISREG (i_mode (bm_inode s)) \<and> bm_block_i s = None
      then
        (case ext2_init_block_alloc_info (be_mem e) (be_reservation e) of
           None \<Rightarrow> s
         | Some w \<Rightarrow>
             let bs = bm_bs s; rs = bs_rsv bs
             in s\<lparr>bm_block_i := Some (be_info e), bm_bs := bs\<lparr>bs_rsv := rs\<lparr>wins := (wins rs)(be_info e := w)\<rparr>\<rparr>\<rparr>)
      else s)"

text \<open>The part of \<open>ext2_get_blocks\<close> that allocates; \<open>ch\<close> is the chain up to the missing link.\<close>

definition grow_branch ::
  "bm_env \<Rightarrow> bmap \<Rightarrow> nat \<Rightarrow> nat \<Rightarrow> nat list \<Rightarrow> nat \<Rightarrow> Indirect list \<Rightarrow> (bmap \<times> (errno + bh_map option)) option" where
  "grow_branch e s iblock maxblocks offsets boundary ch =
     (let s = init_alloc_info e s;
          p = fst (last ch);
          goal = ext2_find_goal e s iblock p;
          indirect_blks = length offsets - length ch;
          count = ext2_blks_to_allocate s p indirect_blks maxblocks boundary
      in do {
        (s, r) \<leftarrow> ext2_alloc_branch e s indirect_blks count goal (drop (length ch - 1) offsets) p;
        (case r of
           Inl err \<Rightarrow> Some (s, Inl err)
         | Inr (branch, count) \<Rightarrow>
             (case be_xip e of
                Some (Some err) \<Rightarrow> Some (s, Inl err)
              | _ \<Rightarrow>
                  let s = ext2_splice_branch e s iblock branch indirect_blks count
                  in Some (s, Inr (got_it (snd (last branch)) True boundary count))))
      })"

definition ext2_get_blocks :: "nat \<Rightarrow> bm_env \<Rightarrow> bmap \<Rightarrow> nat \<Rightarrow> nat \<Rightarrow> bool \<Rightarrow> (bmap \<times> (errno + bh_map option)) option" where
  "ext2_get_blocks bits e s iblock maxblocks create =
     (case ext2_block_to_path bits (int iblock) of
        (offsets, boundary) \<Rightarrow>
          if offsets = [] then Some (s, Inl EIO)
          else
            (case ext2_get_branch (be_rd e) s offsets of
               (ch, whole, err) \<Rightarrow>
                 let (count, err) = (if whole then map_more s ch maxblocks (nat boundary) 1 else (0, err))
                 in if whole \<and> err \<noteq> Some EAGAIN then Some (s, Inr (got_it (snd (last ch)) False (nat boundary) count))
                    else if \<not> create \<or> err = Some EIO then Some (s, case err of None \<Rightarrow> Inr None | Some x \<Rightarrow> Inl x)
                    else if err = Some EAGAIN \<or> \<not> verify_chain s ch
                    then
                      (case ext2_get_branch (be_rd e) s offsets of
                         (ch, whole, err) \<Rightarrow>
                           if whole
                           then Some (s, case err of None \<Rightarrow> Inr (got_it (snd (last ch)) False (nat boundary) (count + 1)) | Some x \<Rightarrow> Inl x)
                           else grow_branch e s iblock maxblocks offsets (nat boundary) ch)
                    else grow_branch e s iblock maxblocks offsets (nat boundary) ch))"

text \<open>\<open>b_size\<close> and the result of the function, for a buffer of \<open>b_size\<close> bytes.\<close>

definition ext2_get_block :: "nat \<Rightarrow> bm_env \<Rightarrow> bmap \<Rightarrow> nat \<Rightarrow> nat \<Rightarrow> nat \<Rightarrow> bool \<Rightarrow> (bmap \<times> (errno + (bh_map \<times> nat) option)) option" where
  "ext2_get_block bits e s blkbits iblock b_size create = do {
     (s, r) \<leftarrow> ext2_get_blocks bits e s iblock (b_size div 2 ^ blkbits) create;
     Some (s, map_sum id (map_option (\<lambda>m. (m, bh_count m * 2 ^ blkbits))) r)
   }"

section \<open>Truncating\<close>

definition all_zeroes :: "bmap \<Rightarrow> ptr_loc list \<Rightarrow> bool" where
  "all_zeroes s ps = list_all (\<lambda>p. ptr_at s p = 0) ps"

text \<open>The places from the start of the block a place lies in up to that place.\<close>

fun locs_before :: "ptr_loc \<Rightarrow> ptr_loc list" where
  "locs_before (In_Inode n) = map In_Inode [0..<n]"
| "locs_before (In_Block b n) = map (In_Block b) [0..<n]"
| "locs_before In_Local = []"

text \<open>The last block of the branch that must survive, counted from the end of the branch.\<close>

fun survivor :: "bmap \<Rightarrow> Indirect list \<Rightarrow> nat \<Rightarrow> nat" where
  "survivor s ch 0 = 0"
| "survivor s ch (Suc i) = (if all_zeroes s (locs_before (fst (ch ! Suc i))) then survivor s ch i else Suc i)"

fun loc_dec :: "ptr_loc \<Rightarrow> ptr_loc" where
  "loc_dec (In_Inode n) = In_Inode (n - 1)"
| "loc_dec (In_Block b n) = In_Block b (n - 1)"
| "loc_dec In_Local = In_Local"

text \<open>The loop over \<open>k\<close>: trailing zero offsets are cut off.\<close>

fun cut_zeros :: "nat list \<Rightarrow> nat list" where
  "cut_zeros offsets =
     (if length offsets > 1 \<and> last offsets = 0 then cut_zeros (butlast offsets) else offsets)"

declare cut_zeros.simps [simp del]

text \<open>The result: the places on the shared part of the branch, from the inode down, and the detached
  top.\<close>

definition ext2_find_shared :: "(nat \<Rightarrow> bool) \<Rightarrow> bmap \<Rightarrow> nat list \<Rightarrow> bmap \<times> ptr_loc list \<times> nat" where
  "ext2_find_shared rd s offsets =
     (let offs = cut_zeros offsets;
          (ch, _, _) = ext2_get_branch rd s offs;
          (p, key) = last ch
      in if key = 0 \<and> ptr_at s p \<noteq> 0 then (s, map fst ch, 0)
         else
           let i = survivor s ch (length ch - 1);
               q = fst (ch ! i)
           in if i = length offs - 1 \<and> i > 0 then (s, map fst (take i ch) @ [loc_dec q], 0)
              else (set_ptr q 0 s, map fst (take (Suc i) ch), ptr_at s q))"

definition free_run :: "bm_env \<Rightarrow> nat \<Rightarrow> nat \<Rightarrow> bmap \<Rightarrow> bmap option" where
  "free_run e block count s = do {
     bs \<leftarrow> ext2_free_blocks (ba_rd (be_ba e)) (bm_bs s) block count;
     Some (s\<lparr>bm_bs := bs, bm_inode := (bm_inode s)\<lparr>i_dirty := True\<rparr>\<rparr>)
   }"

primrec free_data_loop :: "bm_env \<Rightarrow> bmap \<Rightarrow> ptr_loc list \<Rightarrow> nat \<Rightarrow> nat \<Rightarrow> bmap option" where
  "free_data_loop e s [] block_to_free count = (if count > 0 then free_run e block_to_free count s else Some s)"
| "free_data_loop e s (p # ps) block_to_free count =
     (let nr = ptr_at s p in
      if nr = 0 then free_data_loop e s ps block_to_free count
      else
        let s = set_ptr p 0 s
        in if count = 0 then free_data_loop e s ps nr 1
           else if block_to_free + count = nr then free_data_loop e s ps block_to_free (count + 1)
           else do { s \<leftarrow> free_run e block_to_free count s; free_data_loop e s ps nr 1 })"

definition ext2_free_data :: "bm_env \<Rightarrow> bmap \<Rightarrow> ptr_loc list \<Rightarrow> bmap option" where
  "ext2_free_data e s ps = free_data_loop e s ps 0 0"

text \<open>The places of the array are \<open>ps\<close>.\<close>

fun ext2_free_branches :: "nat \<Rightarrow> bm_env \<Rightarrow> nat \<Rightarrow> ptr_loc list \<Rightarrow> bmap \<Rightarrow> bmap option" where
  "ext2_free_branches bits e 0 ps s = ext2_free_data e s ps"
| "ext2_free_branches bits e (Suc d) [] s = Some s"
| "ext2_free_branches bits e (Suc d) (p # ps) s =
     (let nr = ptr_at s p in
      if nr = 0 then ext2_free_branches bits e (Suc d) ps s
      else
        let s = set_ptr p 0 s
        in if \<not> be_rd e nr then ext2_free_branches bits e (Suc d) ps s
           else do {
             s \<leftarrow> ext2_free_branches bits e d (map (In_Block nr) [0..<2 ^ bits]) s;
             s \<leftarrow> free_run e nr 1 s;
             ext2_free_branches bits e (Suc d) ps s
           })"

text \<open>The places behind a place in its block.\<close>

fun locs_after :: "nat \<Rightarrow> ptr_loc \<Rightarrow> ptr_loc list" where
  "locs_after bits (In_Block b n) = map (In_Block b) [n + 1..<2 ^ bits]"
| "locs_after bits _ = []"

text \<open>The ends of the indirect blocks on the shared branch; \<open>ps\<close> are the places on it, from the bottom up
  and without the one in the inode, \<open>d\<close> the depth of what hangs from the lowest one.\<close>

fun clear_ends :: "nat \<Rightarrow> bm_env \<Rightarrow> nat \<Rightarrow> ptr_loc list \<Rightarrow> bmap \<Rightarrow> bmap option" where
  "clear_ends bits e d [] s = Some s"
| "clear_ends bits e d (p # ps) s = do { s \<leftarrow> ext2_free_branches bits e d (locs_after bits p) s; clear_ends bits e (d + 1) ps s }"

text \<open>One case of the switch: a whole subtree of the inode.\<close>

definition kill_subtree :: "nat \<Rightarrow> bm_env \<Rightarrow> nat \<Rightarrow> nat \<Rightarrow> bmap \<Rightarrow> bmap option" where
  "kill_subtree bits e n d s =
     (let nr = i_ptr s n in
      if nr \<noteq> 0
      then ext2_free_branches bits e d [In_Local]
             (s\<lparr>nr_ptr := nr, i_ptr := (i_ptr s)(n := 0), bm_inode := (bm_inode s)\<lparr>i_dirty := True\<rparr>\<rparr>)
      else Some (s\<lparr>nr_ptr := nr\<rparr>))"

definition do_indirects :: "nat \<Rightarrow> bm_env \<Rightarrow> nat \<Rightarrow> bmap \<Rightarrow> bmap option" where
  "do_indirects bits e off s = do {
     s \<leftarrow> (if off \<noteq> EXT2_IND_BLOCK \<and> off \<noteq> EXT2_DIND_BLOCK \<and> off \<noteq> EXT2_TIND_BLOCK then kill_subtree bits e EXT2_IND_BLOCK 1 s else Some s);
     s \<leftarrow> (if off \<noteq> EXT2_DIND_BLOCK \<and> off \<noteq> EXT2_TIND_BLOCK then kill_subtree bits e EXT2_DIND_BLOCK 2 s else Some s);
     (if off \<noteq> EXT2_TIND_BLOCK then kill_subtree bits e EXT2_TIND_BLOCK 3 s else Some s)
   }"

definition S_ISLNK :: "16 word \<Rightarrow> bool" where "S_ISLNK m \<longleftrightarrow> and m S_IFMT = S_IFLNK"

text \<open>\<open>ea_blocks\<close>: the blocks of extended attributes, in units of 512 bytes.\<close>

definition ext2_inode_is_fast_symlink :: "nat \<Rightarrow> inode \<Rightarrow> bool" where
  "ext2_inode_is_fast_symlink ea_blocks inode \<longleftrightarrow> S_ISLNK (i_mode inode) \<and> int (i_blocks inode) - int ea_blocks = 0"

definition prune :: "nat \<Rightarrow> bm_env \<Rightarrow> nat list \<Rightarrow> bmap \<Rightarrow> bmap option" where
  "prune bits e offsets s = do {
     s \<leftarrow> (if length offsets = 1 then ext2_free_data e s (map In_Inode [hd offsets..<EXT2_NDIR_BLOCKS])
           else
             (case ext2_find_shared (be_rd e) s offsets of
                (s, ps, nr) \<Rightarrow> do {
                  let s = s\<lparr>nr_ptr := nr\<rparr>;
                  s \<leftarrow> (if nr \<noteq> 0 then ext2_free_branches bits e (length offsets - length ps) [In_Local]
                           (if length ps = 1 then s\<lparr>bm_inode := (bm_inode s)\<lparr>i_dirty := True\<rparr>\<rparr> else s) else Some s);
                  clear_ends bits e (length offsets - length ps) (rev (tl ps)) s
                }));
     do_indirects bits e (hd offsets) s
   }"

definition ext2_truncate :: "nat \<Rightarrow> bm_env \<Rightarrow> nat \<Rightarrow> nat \<Rightarrow> bmap \<Rightarrow> bmap option" where
  "ext2_truncate bits e blkbits ea_blocks s =
     (let inode = bm_inode s in
      if \<not> (S_ISREG (i_mode inode) \<or> S_ISDIR (i_mode inode) \<or> S_ISLNK (i_mode inode)) then Some s
      else if ext2_inode_is_fast_symlink ea_blocks inode then Some s
      else if and (i_vflags inode) S_APPEND \<noteq> 0 \<or> and (i_vflags inode) S_IMMUTABLE \<noteq> 0 then Some s
      else
        let iblock = (i_size inode + 2 ^ blkbits - 1) div 2 ^ blkbits;
            offsets = fst (ext2_block_to_path bits (int iblock))
        in if offsets = [] then Some s
           else do {
             s \<leftarrow> prune bits e offsets s;
             let bs = bm_bs s;
             Some (s\<lparr>bm_bs := bs\<lparr>bs_rsv := ext2_discard_reservation (ba_rb (be_ba e)) (bs_rsv bs) (bm_block_i s)\<rparr>,
                     bm_inode := (bm_inode s)\<lparr>i_mtime := be_now e, i_ctime := be_now e, i_dirty := True\<rparr>\<rparr>)
           })"

end
