(* ===== verification/Ext2_Inode.thy ===== *)
theory Ext2_Inode
  imports Ext2_Bmap Ext2_Ialloc_Facts
begin

text \<open>
  Inodes on the disk, a3/inode.c: where an inode stands in the inode tables, reading it with
  \<open>ext2_iget\<close>, writing it with \<open>ext2_write_inode\<close>, and deleting it. \<open>ext2_inode\<close> is the structure of the disk, with the widths of its
  fields; the field for the upper half of the size of regular files is, in the format of ext2, the one
  that holds \<open>i_dir_acl\<close> for the others. Its 15 words \<open>i_block\<close> are 60 bytes, as those of \<open>i_data\<close> in
  memory. The inode cache of the kernel is the argument \<open>iget_locked\<close>, the encodings of
  device numbers, \<open>fs_high2lowuid\<close> and \<open>fs_high2lowgid\<close> are arguments in \<open>dev_enc\<close>. Times are the 64 bits of \<open>tv_sec\<close>. The tables of operations are
  the datatypes \<open>i_ops\<close>, \<open>f_ops\<close>, \<open>as_ops\<close>.
\<close>

section \<open>State\<close>

record ext2_inode =
  r_mode :: "16 word"
  r_uid_low :: "16 word"
  r_uid_high :: "16 word"
  r_gid_low :: "16 word"
  r_gid_high :: "16 word"
  r_links_count :: "16 word"
  r_size :: "32 word"
  r_atime :: "32 word"
  r_ctime :: "32 word"
  r_mtime :: "32 word"
  r_dtime :: "32 word"
  r_blocks :: "32 word"
  r_flags :: "32 word"
  r_faddr :: "32 word"
  r_frag :: "8 word"
  r_fsize :: "8 word"
  r_file_acl :: "32 word"
  r_dir_acl :: "32 word"
  r_generation :: "32 word"
  r_block :: "byte list"
  r_rest :: "byte list"

datatype i_ops = No_I_Ops | File_I_Ops | Dir_I_Ops | Fast_Symlink_I_Ops | Symlink_I_Ops | Special_I_Ops
datatype f_ops = No_F_Ops | File_F_Ops | Xip_File_F_Ops | Dir_F_Ops | Special_F_Ops
datatype as_ops = No_Aops | Ext2_Aops | Ext2_Nobh_Aops | Ext2_Aops_Xip

record ext2_inode_info =
  vfs_inode :: inode
  i_faddr :: "32 word"
  i_frag_no :: "8 word"
  i_frag_size :: "8 word"
  i_state_new :: bool
  i_file_acl :: "32 word"
  i_dir_acl :: "32 word"
  i_dtime :: "32 word"
  i_rdev :: "32 word"
  i_block_alloc_info :: "nat option"
  i_op :: i_ops
  i_fop :: f_ops
  a_ops :: as_ops

text \<open>The file system as far as inodes are concerned: \<open>it_table sb g\<close> is \<open>bg_inode_table\<close> of group \<open>g\<close>,
  \<open>it_raw sb b off\<close> the inode at byte \<open>off\<close> of block \<open>b\<close>.\<close>

record inode_sb =
  it_sbi :: ext2_sb_info
  it_inode_size :: nat
  it_block_bits :: nat
  it_table :: "nat \<Rightarrow> nat"
  it_no_uid32 :: bool
  it_nobh :: bool
  it_xip :: bool
  es_rev_level :: "32 word"
  es_first_ino :: "32 word"
  es_inode_size :: "16 word"
  es_large_file :: bool
  it_raw :: "nat \<Rightarrow> nat \<Rightarrow> ext2_inode"

record dev_enc =
  old_valid_dev :: "32 word \<Rightarrow> bool"
  old_encode_dev :: "32 word \<Rightarrow> 32 word"
  old_decode_dev :: "32 word \<Rightarrow> 32 word"
  new_encode_dev :: "32 word \<Rightarrow> 32 word"
  new_decode_dev :: "32 word \<Rightarrow> 32 word"
  high2lowuid :: "nat \<Rightarrow> 16 word"
  high2lowgid :: "nat \<Rightarrow> 16 word"

abbreviation EXT2_ROOT_INO :: nat where "EXT2_ROOT_INO \<equiv> 2"
abbreviation EXT2_N_BLOCKS :: nat where "EXT2_N_BLOCKS \<equiv> 15"

definition S_ISCHR :: "16 word \<Rightarrow> bool" where "S_ISCHR m \<longleftrightarrow> and m S_IFMT = 0x2000"
definition S_ISBLK :: "16 word \<Rightarrow> bool" where "S_ISBLK m \<longleftrightarrow> and m S_IFMT = 0x6000"

text \<open>Words of \<open>i_block\<close>.\<close>

definition le32_bytes :: "32 word \<Rightarrow> byte list" where
  "le32_bytes w = map (\<lambda>k. ucast (drop_bit (8 * k) w)) [0..<4]"

definition get_le32 :: "byte list \<Rightarrow> nat \<Rightarrow> 32 word" where
  "get_le32 bs n = foldr (\<lambda>b w. or (ucast b) (push_bit 8 w)) (take 4 (drop (4 * n) bs)) 0"

definition put_le32 :: "nat \<Rightarrow> 32 word \<Rightarrow> byte list \<Rightarrow> byte list" where
  "put_le32 n w bs = take (4 * n) bs @ le32_bytes w @ drop (4 * n + 4) bs"

section \<open>Operations\<close>

text \<open>The block and the offset of an inode.\<close>

definition ext2_get_inode :: "(nat \<Rightarrow> bool) \<Rightarrow> inode_sb \<Rightarrow> nat \<Rightarrow> errno + nat \<times> nat" where
  "ext2_get_inode rd sb ino =
     (let sbi = it_sbi sb in
      if ino \<noteq> EXT2_ROOT_INO \<and> ino < s_first_ino sbi \<or> ino > s_max_ino sbi then Inl EINVAL
      else
        let block_group = (ino - 1) div s_inodes_per_group sbi
        in (case ext2_get_group_desc sbi block_group of
              None \<Rightarrow> Inl EIO
            | Some _ \<Rightarrow>
                let offset = (ino - 1) mod s_inodes_per_group sbi * it_inode_size sb;
                    block = it_table sb block_group + drop_bit (it_block_bits sb) offset
                in if \<not> rd block then Inl EIO else Inr (block, offset mod 2 ^ it_block_bits sb)))"

definition raw_at :: "inode_sb \<Rightarrow> nat \<times> nat \<Rightarrow> ext2_inode" where
  "raw_at sb slot = it_raw sb (fst slot) (snd slot)"

definition put_raw :: "nat \<times> nat \<Rightarrow> ext2_inode \<Rightarrow> inode_sb \<Rightarrow> inode_sb" where
  "put_raw slot raw sb = sb\<lparr>it_raw := (it_raw sb)(fst slot := (it_raw sb (fst slot))(snd slot := raw))\<rparr>"

definition nd_terminate_link :: "byte list \<Rightarrow> nat \<Rightarrow> nat \<Rightarrow> byte list" where
  "nd_terminate_link name len maxlen = name[min len maxlen := 0]"

text \<open>\<open>init_special_inode\<close> of the kernel: the operations of devices, pipes and sockets, and the number of a
  device.\<close>

definition init_special_inode :: "ext2_inode_info \<Rightarrow> 16 word \<Rightarrow> 32 word \<Rightarrow> ext2_inode_info" where
  "init_special_inode ei mode rdev =
     ei\<lparr>i_fop := Special_F_Ops, i_rdev := (if S_ISCHR mode \<or> S_ISBLK mode then rdev else i_rdev ei)\<rparr>"

definition time_of :: "32 word \<Rightarrow> nat" where
  "time_of w = unat (scast w :: 64 word)"

text \<open>The fields read before the test for deleted inodes, and those after it.\<close>

definition read_ids :: "inode_sb \<Rightarrow> ext2_inode \<Rightarrow> inode \<Rightarrow> inode" where
  "read_ids sb raw inode =
     (let uid = unat (r_uid_low raw); gid = unat (r_gid_low raw)
      in inode\<lparr>i_mode := r_mode raw,
           i_uid := (if it_no_uid32 sb then uid else or uid (push_bit 16 (unat (r_uid_high raw)))),
           i_gid := (if it_no_uid32 sb then gid else or gid (push_bit 16 (unat (r_gid_high raw)))),
           i_nlink := ucast (r_links_count raw), i_size := unat (r_size raw),
           i_atime := time_of (r_atime raw), i_ctime := time_of (r_ctime raw), i_mtime := time_of (r_mtime raw)\<rparr>)"

definition read_fields :: "inode_sb \<Rightarrow> nat \<Rightarrow> ext2_inode \<Rightarrow> ext2_inode_info \<Rightarrow> ext2_inode_info" where
  "read_fields sb ino raw ei =
     (let inode = vfs_inode ei;
          im_or_reg = S_ISREG (i_mode inode) \<or> S_ISIM (i_mode inode)
      in ei\<lparr>vfs_inode := inode\<lparr>i_blocks := unat (r_blocks raw), i_flags := r_flags raw,
              i_size := (if im_or_reg then or (i_size inode) (push_bit 32 (unat (r_dir_acl raw))) else i_size inode),
              i_generation := r_generation raw,
              i_block_group := (ino - 1) div s_inodes_per_group (it_sbi sb),
              i_dir_start_lookup := 0, i_data := take (4 * EXT2_N_BLOCKS) (r_block raw)\<rparr>,
            i_faddr := r_faddr raw, i_frag_no := r_frag raw, i_frag_size := r_fsize raw, i_file_acl := r_file_acl raw,
            i_dir_acl := (if im_or_reg then 0 else r_dir_acl raw), i_dtime := 0, i_state_new := False\<rparr>)"

definition ea_blocks :: "inode_sb \<Rightarrow> ext2_inode_info \<Rightarrow> nat" where
  "ea_blocks sb ei = (if i_file_acl ei \<noteq> 0 then drop_bit 9 (2 ^ it_block_bits sb) else 0)"

text \<open>The tables of operations, by the type of the file.\<close>

definition set_ops :: "dev_enc \<Rightarrow> inode_sb \<Rightarrow> ext2_inode \<Rightarrow> ext2_inode_info \<Rightarrow> ext2_inode_info" where
  "set_ops d sb raw ei =
     (let mode = i_mode (vfs_inode ei);
          aops = (if it_nobh sb then Ext2_Nobh_Aops else Ext2_Aops)
      in if S_ISREG mode \<or> S_ISIM mode
         then if it_xip sb then ei\<lparr>i_op := File_I_Ops, a_ops := Ext2_Aops_Xip, i_fop := Xip_File_F_Ops\<rparr>
              else ei\<lparr>i_op := File_I_Ops, a_ops := aops, i_fop := File_F_Ops\<rparr>
         else if S_ISDIR mode then ei\<lparr>i_op := Dir_I_Ops, i_fop := Dir_F_Ops, a_ops := aops\<rparr>
         else if S_ISLNK mode
         then if ext2_inode_is_fast_symlink (ea_blocks sb ei) (vfs_inode ei)
              then ei\<lparr>i_op := Fast_Symlink_I_Ops,
                      vfs_inode := (vfs_inode ei)\<lparr>i_data := nd_terminate_link (i_data (vfs_inode ei)) (i_size (vfs_inode ei)) 59\<rparr>\<rparr>
              else ei\<lparr>i_op := Symlink_I_Ops, a_ops := aops\<rparr>
         else
           init_special_inode (ei\<lparr>i_op := Special_I_Ops\<rparr>) mode
             (if get_le32 (r_block raw) 0 \<noteq> 0 then old_decode_dev d (get_le32 (r_block raw) 0)
              else new_decode_dev d (get_le32 (r_block raw) 1)))"

text \<open>\<open>iget_locked\<close>: no memory, or an inode and whether it is new.\<close>

definition ext2_iget :: "dev_enc \<Rightarrow> (nat \<Rightarrow> bool) \<Rightarrow> (nat \<Rightarrow> (ext2_inode_info \<times> bool) option) \<Rightarrow> inode_sb \<Rightarrow> nat \<Rightarrow>
    errno + ext2_inode_info" where
  "ext2_iget d rd iget_locked sb ino =
     (case iget_locked ino of
        None \<Rightarrow> Inl ENOMEM
      | Some (ei, is_new) \<Rightarrow>
          if \<not> is_new then Inr ei
          else
            let ei = ei\<lparr>i_block_alloc_info := None\<rparr>
            in (case ext2_get_inode rd sb ino of
                  Inl err \<Rightarrow> Inl err
                | Inr slot \<Rightarrow>
                    let raw = raw_at sb slot;
                        inode = read_ids sb raw (vfs_inode ei);
                        ei = ei\<lparr>vfs_inode := inode, i_dtime := r_dtime raw\<rparr>
                    in if i_nlink inode = 0 \<and> (i_mode inode = 0 \<or> i_dtime ei \<noteq> 0) then Inl ESTALE
                       else
                         let ei = set_ops d sb raw (read_fields sb ino raw ei)
                         in Inr (ei\<lparr>vfs_inode := ext2_set_inode_flags (vfs_inode ei)\<rparr>)))"

definition ext2_update_dynamic_rev :: "inode_sb \<Rightarrow> inode_sb" where
  "ext2_update_dynamic_rev sb =
     (if es_rev_level sb > 0 then sb
      else sb\<lparr>es_first_ino := 11, es_inode_size := 128, es_rev_level := 1\<rparr>)"

text \<open>An inode of zero bytes; the fields above take 118 of the \<open>s_inode_size\<close> bytes.\<close>

definition zero_raw :: "nat \<Rightarrow> ext2_inode" where
  "zero_raw len = \<lparr>r_mode = 0, r_uid_low = 0, r_uid_high = 0, r_gid_low = 0, r_gid_high = 0, r_links_count = 0, r_size = 0,
     r_atime = 0, r_ctime = 0, r_mtime = 0, r_dtime = 0, r_blocks = 0, r_flags = 0, r_faddr = 0, r_frag = 0, r_fsize = 0,
     r_file_acl = 0, r_dir_acl = 0, r_generation = 0, r_block = replicate 60 0, r_rest = replicate (len - 118) 0\<rparr>"

definition write_ids :: "dev_enc \<Rightarrow> inode_sb \<Rightarrow> ext2_inode_info \<Rightarrow> ext2_inode \<Rightarrow> ext2_inode" where
  "write_ids d sb ei raw =
     (let uid = i_uid (vfs_inode ei); gid = i_gid (vfs_inode ei)
      in if \<not> it_no_uid32 sb
         then raw\<lparr>r_uid_low := of_nat (uid mod 2 ^ 16), r_gid_low := of_nat (gid mod 2 ^ 16),
                  r_uid_high := (if i_dtime ei = 0 then of_nat (drop_bit 16 uid) else 0),
                  r_gid_high := (if i_dtime ei = 0 then of_nat (drop_bit 16 gid) else 0)\<rparr>
         else raw\<lparr>r_uid_low := high2lowuid d uid, r_gid_low := high2lowgid d gid, r_uid_high := 0, r_gid_high := 0\<rparr>)"

definition write_fields :: "ext2_inode_info \<Rightarrow> ext2_inode \<Rightarrow> ext2_inode" where
  "write_fields ei raw =
     (let inode = vfs_inode ei
      in raw\<lparr>r_links_count := ucast (i_nlink inode), r_size := of_nat (i_size inode),
           r_atime := of_nat (i_atime inode), r_ctime := of_nat (i_ctime inode), r_mtime := of_nat (i_mtime inode),
           r_blocks := of_nat (i_blocks inode), r_dtime := i_dtime ei, r_flags := i_flags inode, r_faddr := i_faddr ei,
           r_frag := i_frag_no ei, r_fsize := i_frag_size ei, r_file_acl := i_file_acl ei\<rparr>)"

text \<open>The upper half of the size, or \<open>i_dir_acl\<close>, as the condition of the source selects; a first large file
  sets a feature of the file system.\<close>

definition write_high :: "inode_sb \<Rightarrow> ext2_inode_info \<Rightarrow> ext2_inode \<Rightarrow> inode_sb \<times> ext2_inode" where
  "write_high sb ei raw =
     (let inode = vfs_inode ei
      in if \<not> S_ISREG (i_mode inode) \<or> \<not> S_ISIM (i_mode inode) then (sb, raw\<lparr>r_dir_acl := i_dir_acl ei\<rparr>)
         else
           (if i_size inode > 0x7fffffff \<and> (\<not> es_large_file sb \<or> es_rev_level sb = 0)
            then (ext2_update_dynamic_rev sb)\<lparr>es_large_file := True\<rparr> else sb,
            raw\<lparr>r_dir_acl := of_nat (drop_bit 32 (i_size inode))\<rparr>))"

definition write_block :: "dev_enc \<Rightarrow> ext2_inode_info \<Rightarrow> ext2_inode \<Rightarrow> ext2_inode" where
  "write_block d ei raw =
     (let mode = i_mode (vfs_inode ei); rdev = i_rdev ei
      in if S_ISCHR mode \<or> S_ISBLK mode
         then if old_valid_dev d rdev
              then raw\<lparr>r_block := put_le32 1 0 (put_le32 0 (old_encode_dev d rdev) (r_block raw))\<rparr>
              else raw\<lparr>r_block := put_le32 2 0 (put_le32 1 (new_encode_dev d rdev) (put_le32 0 0 (r_block raw)))\<rparr>
         else raw\<lparr>r_block := i_data (vfs_inode ei)\<rparr>)"

text \<open>\<open>sync\<close>: the caller waits for the buffer; \<open>io_err\<close>: writing it failed.\<close>

definition ext2_write_inode :: "dev_enc \<Rightarrow> (nat \<Rightarrow> bool) \<Rightarrow> bool \<Rightarrow> inode_sb \<Rightarrow> ext2_inode_info \<Rightarrow> bool \<Rightarrow>
    inode_sb \<times> ext2_inode_info \<times> errno option" where
  "ext2_write_inode d rd io_err sb ei do_sync =
     (case ext2_get_inode rd sb (i_ino (vfs_inode ei)) of
        Inl _ \<Rightarrow> (sb, ei, Some EIO)
      | Inr slot \<Rightarrow>
          let raw = (if i_state_new ei then zero_raw (it_inode_size sb) else raw_at sb slot);
              ei = ei\<lparr>vfs_inode := ext2_get_inode_flags (vfs_inode ei)\<rparr>;
              raw = raw\<lparr>r_mode := i_mode (vfs_inode ei)\<rparr>;
              raw = write_fields ei (write_ids d sb ei raw);
              (sb, raw) = write_high sb ei raw;
              raw = write_block d ei (raw\<lparr>r_generation := i_generation (vfs_inode ei)\<rparr>)
          in (put_raw slot raw sb, ei\<lparr>i_state_new := False\<rparr>, if do_sync \<and> io_err then Some EIO else None))"

section \<open>Reading back what was written\<close>

lemma le32_len [simp]: "length (le32_bytes w) = 4"
  by (simp add: le32_bytes_def)

lemma put_le32_len [simp]: "4 * n + 4 \<le> length bs \<Longrightarrow> length (put_le32 n w bs) = length bs"
  by (simp add: put_le32_def)

lemma le32_value: "foldr (\<lambda>b w. or (ucast b) (push_bit 8 w)) (le32_bytes w) (0 :: 32 word) = w"
proof (rule bit_word_eqI)
  fix n assume "n < LENGTH(32)"
  then have "n < 32" by simp
  then consider "n < 8" | "8 \<le> n" "n < 16" | "16 \<le> n" "n < 24" | "24 \<le> n" "n < 32" by linarith
  then show "bit (foldr (\<lambda>b w. or (ucast b) (push_bit 8 w)) (le32_bytes w) (0 :: 32 word)) n \<longleftrightarrow> bit w n"
    by cases (auto simp: le32_bytes_def upt_rec bit_simps)
qed

lemma get_put_same: "4 * n + 4 \<le> length bs \<Longrightarrow> get_le32 (put_le32 n w bs) n = w"
  by (simp add: get_le32_def put_le32_def le32_value)

lemma get_put_other:
  assumes "4 * n + 4 \<le> length bs" "m \<noteq> n"
  shows "get_le32 (put_le32 n w bs) m = get_le32 bs m"
proof -
  have "take 4 (drop (4 * m) (put_le32 n w bs)) = take 4 (drop (4 * m) bs)"
    using assms by (cases "m < n") (auto simp: put_le32_def take_drop min_def)
  then show ?thesis by (simp add: get_le32_def)
qed

text \<open>What an inode keeps on the disk: for a device its number, for the others the 60 bytes.\<close>

type_synonym kept =
  "(16 word \<times> nat \<times> nat \<times> 32 word \<times> nat) \<times> (nat \<times> nat \<times> nat \<times> nat) \<times>
   (32 word \<times> 32 word \<times> 32 word \<times> 8 word \<times> 8 word \<times> 32 word \<times> 32 word) \<times> (32 word + byte list)"

definition kept :: "ext2_inode_info \<Rightarrow> kept" where
  "kept ei =
     (let i = vfs_inode ei
      in ((i_mode i, i_uid i, i_gid i, i_nlink i, i_size i), (i_atime i, i_ctime i, i_mtime i, i_blocks i),
          (i_flags i, i_generation i, i_faddr ei, i_frag_no ei, i_frag_size ei, i_file_acl ei, i_dir_acl ei),
          if S_ISCHR (i_mode i) \<or> S_ISBLK (i_mode i) then Inl (i_rdev ei) else Inr (i_data i)))"

text \<open>The encodings of device numbers and user numbers can be undone.\<close>

definition dev_ok :: "dev_enc \<Rightarrow> bool" where
  "dev_ok d \<longleftrightarrow>
     (\<forall>r. old_valid_dev d r \<longrightarrow> old_decode_dev d (old_encode_dev d r) = r) \<and>
     (\<forall>r. old_valid_dev d r \<longrightarrow> old_encode_dev d r = 0 \<longrightarrow> r = 0) \<and>
     (\<forall>r. new_decode_dev d (new_encode_dev d r) = r) \<and> new_decode_dev d 0 = 0 \<and>
     (\<forall>u < 2 ^ 16. high2lowuid d u = of_nat u \<and> high2lowgid d u = of_nat u)"

text \<open>The values fit the fields of the disk, but for the size of regular and immediate files; the inode is not a deleted one; a short symbolic link ends with a zero byte.\<close>

definition ids_fit :: "inode_sb \<Rightarrow> inode \<Rightarrow> bool" where
  "ids_fit sb i \<longleftrightarrow> (if it_no_uid32 sb then i_uid i < 2 ^ 16 \<and> i_gid i < 2 ^ 16 else i_uid i < 2 ^ 32 \<and> i_gid i < 2 ^ 32)"

definition inode_fits :: "inode_sb \<Rightarrow> ext2_inode_info \<Rightarrow> bool" where
  "inode_fits sb ei \<longleftrightarrow>
     (let i = vfs_inode ei
      in ids_fit sb i \<and> i_nlink i < 2 ^ 16 \<and> i_atime i < 2 ^ 31 \<and> i_ctime i < 2 ^ 31 \<and> i_mtime i < 2 ^ 31 \<and>
         i_blocks i < 2 ^ 32 \<and> i_dtime ei = 0 \<and> (i_nlink i = 0 \<longrightarrow> i_mode i \<noteq> 0) \<and> length (i_data i) = 60 \<and>
         (S_ISREG (i_mode i) \<or> S_ISIM (i_mode i) \<longrightarrow> i_dir_acl ei = 0) \<and>
         (\<not> S_ISREG (i_mode i) \<and> \<not> S_ISIM (i_mode i) \<longrightarrow> i_size i < 2 ^ 32) \<and>
         (ext2_inode_is_fast_symlink (ea_blocks sb ei) i \<longrightarrow> i_data i ! min (i_size i) 59 = 0))"

lemma type_exclusive:
  "S_ISREG m \<Longrightarrow> \<not> S_ISIM m" "S_ISREG m \<or> S_ISIM m \<Longrightarrow> \<not> S_ISCHR m \<and> \<not> S_ISBLK m"
  "S_ISDIR m \<Longrightarrow> \<not> S_ISCHR m \<and> \<not> S_ISBLK m" "S_ISLNK m \<Longrightarrow> \<not> S_ISCHR m \<and> \<not> S_ISBLK m"
  by (auto simp: S_ISREG_def S_ISIM_def S_ISCHR_def S_ISBLK_def S_ISDIR_def S_ISLNK_def)

lemma halves: "or (a mod 2 ^ 16) (push_bit 16 (drop_bit 16 a)) = (a :: nat)"
proof (rule bit_eqI)
  fix n :: nat
  have "16 + (n - 16) = n" if "\<not> n < 16" using that by simp
  then show "bit (or (a mod 2 ^ 16) (push_bit 16 (drop_bit 16 a))) n \<longleftrightarrow> bit a n"
    unfolding take_bit_eq_mod [symmetric] by (cases "n < 16") (simp_all add: bit_simps)
qed

lemma word_halves:
  assumes "a < 2 ^ 32"
  shows "or (unat (of_nat (a mod 2 ^ 16) :: 16 word)) (push_bit 16 (unat (of_nat (drop_bit 16 a) :: 16 word))) = a"
proof -
  have "drop_bit 16 a < 2 ^ 16" using assms by (simp add: drop_bit_eq_div less_mult_imp_div_less)
  then have "unat (of_nat (drop_bit 16 a) :: 16 word) = drop_bit 16 a" "unat (of_nat (a mod 2 ^ 16) :: 16 word) = a mod 2 ^ 16"
    by (simp_all add: unat_of_nat take_bit_nat_eq_self)
  then show ?thesis using halves [of a] by simp
qed

lemma ids_back:
  assumes "dev_ok d" "ids_fit sb (vfs_inode ei)" "i_dtime ei = 0"
  shows "i_uid (read_ids sb (write_ids d sb ei raw) i) = i_uid (vfs_inode ei)" (is ?u)
    and "i_gid (read_ids sb (write_ids d sb ei raw) i) = i_gid (vfs_inode ei)" (is ?g)
proof -
  have "?u \<and> ?g"
  proof (cases "it_no_uid32 sb")
    case True
    then show ?thesis using assms by (simp add: ids_fit_def dev_ok_def read_ids_def write_ids_def Let_def unat_of_nat take_bit_nat_eq_self)
  next
    case False
    then have "i_uid (vfs_inode ei) < 2 ^ 32" "i_gid (vfs_inode ei) < 2 ^ 32" using assms by (auto simp: ids_fit_def)
    from this [THEN word_halves] show ?thesis using False assms(3) by (simp add: read_ids_def write_ids_def Let_def)
  qed
  then show ?u ?g by auto
qed

lemma time_back: "t < 2 ^ 31 \<Longrightarrow> time_of (of_nat t) = t"
proof -
  assume t: "t < 2 ^ 31"
  have "sint (of_nat t :: 32 word) = int t"
    using t by (simp add: sint_uint unat_of_nat take_bit_nat_eq_self uint_nat signed_take_bit_int_eq_self)
  then have "(scast (of_nat t :: 32 word) :: 64 word) = of_nat t"
    by (simp add: scast_eq)
  then show ?thesis using t by (simp add: time_of_def unat_of_nat take_bit_nat_eq_self)
qed

text \<open>The raw inode that \<open>ext2_write_inode\<close> leaves, and the one \<open>ext2_iget\<close> makes of it.\<close>

definition written :: "dev_enc \<Rightarrow> inode_sb \<Rightarrow> ext2_inode_info \<Rightarrow> ext2_inode \<Rightarrow> ext2_inode" where
  "written d sb ei raw =
     write_block d ei ((write_fields ei (write_ids d sb ei (raw\<lparr>r_mode := i_mode (vfs_inode ei)\<rparr>)))
       \<lparr>r_dir_acl := i_dir_acl ei, r_generation := i_generation (vfs_inode ei)\<rparr>)"

definition flags_synced :: "ext2_inode_info \<Rightarrow> ext2_inode_info" where
  "flags_synced ei = ei\<lparr>vfs_inode := ext2_get_inode_flags (vfs_inode ei)\<rparr>"

lemma write_inode_eq:
  assumes "ext2_get_inode rd sb (i_ino (vfs_inode ei)) = Inr slot"
  shows "ext2_write_inode d rd io_err sb ei do_sync =
    (put_raw slot (written d sb (flags_synced ei) (if i_state_new ei then zero_raw (it_inode_size sb) else raw_at sb slot)) sb,
     (flags_synced ei)\<lparr>i_state_new := False\<rparr>, if do_sync \<and> io_err then Some EIO else None)"
  using assms type_exclusive(1) [of "i_mode (vfs_inode ei)"]
  by (auto simp: ext2_write_inode_def written_def flags_synced_def write_high_def Let_def ext2_get_inode_flags_def)

lemma written_fields [simp]:
  "r_mode (written d sb ei raw) = i_mode (vfs_inode ei)"
  "r_links_count (written d sb ei raw) = ucast (i_nlink (vfs_inode ei))"
  "r_size (written d sb ei raw) = of_nat (i_size (vfs_inode ei))"
  "r_atime (written d sb ei raw) = of_nat (i_atime (vfs_inode ei))"
  "r_ctime (written d sb ei raw) = of_nat (i_ctime (vfs_inode ei))"
  "r_mtime (written d sb ei raw) = of_nat (i_mtime (vfs_inode ei))"
  "r_blocks (written d sb ei raw) = of_nat (i_blocks (vfs_inode ei))"
  "r_dtime (written d sb ei raw) = i_dtime ei"
  "r_flags (written d sb ei raw) = i_flags (vfs_inode ei)"
  "r_faddr (written d sb ei raw) = i_faddr ei"
  "r_frag (written d sb ei raw) = i_frag_no ei"
  "r_fsize (written d sb ei raw) = i_frag_size ei"
  "r_file_acl (written d sb ei raw) = i_file_acl ei"
  "r_dir_acl (written d sb ei raw) = i_dir_acl ei"
  "r_generation (written d sb ei raw) = i_generation (vfs_inode ei)"
  by (simp_all add: written_def write_block_def write_fields_def write_ids_def Let_def)

lemma read_written_ids:
  assumes "dev_ok d" "ids_fit sb (vfs_inode ei)" "i_dtime ei = 0"
  shows "i_uid (read_ids sb (written d sb ei raw) i) = i_uid (vfs_inode ei)"
    and "i_gid (read_ids sb (written d sb ei raw) i) = i_gid (vfs_inode ei)"
proof -
  let ?w = "write_ids d sb ei raw"
  have "r_uid_low (written d sb ei raw) = r_uid_low ?w" "r_uid_high (written d sb ei raw) = r_uid_high ?w"
    "r_gid_low (written d sb ei raw) = r_gid_low ?w" "r_gid_high (written d sb ei raw) = r_gid_high ?w"
    by (simp_all add: written_def write_block_def write_fields_def write_ids_def Let_def)
  then have "i_uid (read_ids sb (written d sb ei raw) i) = i_uid (read_ids sb ?w i)"
    "i_gid (read_ids sb (written d sb ei raw) i) = i_gid (read_ids sb ?w i)"
    by (simp_all add: read_ids_def Let_def)
  then show "i_uid (read_ids sb (written d sb ei raw) i) = i_uid (vfs_inode ei)"
    and "i_gid (read_ids sb (written d sb ei raw) i) = i_gid (vfs_inode ei)"
    using ids_back [OF assms] by simp_all
qed

text \<open>The number of a device comes back.\<close>

lemma dev_back:
  assumes "dev_ok d" "S_ISCHR (i_mode (vfs_inode ei)) \<or> S_ISBLK (i_mode (vfs_inode ei))" "12 \<le> length (r_block raw)"
  shows "(if get_le32 (r_block (written d sb ei raw)) 0 \<noteq> 0 then old_decode_dev d (get_le32 (r_block (written d sb ei raw)) 0)
          else new_decode_dev d (get_le32 (r_block (written d sb ei raw)) 1)) = i_rdev ei"
proof -
  have r: "r_block (written d sb ei raw) =
    (if old_valid_dev d (i_rdev ei) then put_le32 1 0 (put_le32 0 (old_encode_dev d (i_rdev ei)) (r_block raw))
     else put_le32 2 0 (put_le32 1 (new_encode_dev d (i_rdev ei)) (put_le32 0 0 (r_block raw))))"
    using assms(2) by (auto simp: written_def write_block_def write_fields_def write_ids_def Let_def)
  show ?thesis
    using assms(1,3) by (auto simp: r get_put_same get_put_other dev_ok_def)
qed

lemma put_raw_same [simp]:
  "raw_at (put_raw slot raw sb) slot = raw" "slot' \<noteq> slot \<Longrightarrow> raw_at (put_raw slot raw sb) slot' = raw_at sb slot'"
  "it_no_uid32 (put_raw slot raw sb) = it_no_uid32 sb" "it_sbi (put_raw slot raw sb) = it_sbi sb"
  "it_nobh (put_raw slot raw sb) = it_nobh sb" "it_xip (put_raw slot raw sb) = it_xip sb"
  "it_block_bits (put_raw slot raw sb) = it_block_bits sb" "it_inode_size (put_raw slot raw sb) = it_inode_size sb"
  "it_table (put_raw slot raw sb) = it_table sb"
  by (auto simp: raw_at_def put_raw_def prod_eq_iff)

lemma get_inode_put [simp]: "ext2_get_inode rd (put_raw slot raw sb) = ext2_get_inode rd sb"
  unfolding ext2_get_inode_def put_raw_same(3-) by (rule refl)

lemma read_ids_put [simp]: "read_ids (put_raw slot raw sb) = read_ids sb"
  by (simp add: read_ids_def fun_eq_iff Let_def)

lemma read_fields_put [simp]: "read_fields (put_raw slot raw sb) = read_fields sb"
  by (simp add: read_fields_def fun_eq_iff Let_def)

lemma set_ops_put [simp]: "set_ops d (put_raw slot raw sb) = set_ops d sb"
  by (simp add: set_ops_def ea_blocks_def fun_eq_iff Let_def)

lemma set_ops_fields [simp]:
  "i_faddr (set_ops d sb raw ei) = i_faddr ei" "i_frag_no (set_ops d sb raw ei) = i_frag_no ei"
  "i_frag_size (set_ops d sb raw ei) = i_frag_size ei" "i_file_acl (set_ops d sb raw ei) = i_file_acl ei"
  "i_dir_acl (set_ops d sb raw ei) = i_dir_acl ei" "i_dtime (set_ops d sb raw ei) = i_dtime ei"
  by (simp_all add: set_ops_def init_special_inode_def Let_def)

lemma set_ops_inode:
  "vfs_inode (set_ops d sb raw ei) =
     (if ext2_inode_is_fast_symlink (ea_blocks sb ei) (vfs_inode ei)
      then (vfs_inode ei)\<lparr>i_data := nd_terminate_link (i_data (vfs_inode ei)) (i_size (vfs_inode ei)) 59\<rparr> else vfs_inode ei)"
  by (auto simp: set_ops_def init_special_inode_def Let_def ext2_inode_is_fast_symlink_def S_ISREG_def S_ISIM_def S_ISDIR_def S_ISLNK_def)

lemma set_ops_rdev:
  "S_ISCHR (i_mode (vfs_inode ei)) \<or> S_ISBLK (i_mode (vfs_inode ei)) \<Longrightarrow>
   i_rdev (set_ops d sb raw ei) =
     (if get_le32 (r_block raw) 0 \<noteq> 0 then old_decode_dev d (get_le32 (r_block raw) 0) else new_decode_dev d (get_le32 (r_block raw) 1))"
  using type_exclusive [of "i_mode (vfs_inode ei)"]
  by (auto simp: set_ops_def init_special_inode_def Let_def)

lemma iget_new:
  assumes "iget_locked ino = Some (ei, True)" "ext2_get_inode rd sb ino = Inr slot"
    "r_links_count (raw_at sb slot) \<noteq> 0 \<or> r_mode (raw_at sb slot) \<noteq> 0 \<and> r_dtime (raw_at sb slot) = 0"
  shows "\<exists>e1. ext2_iget d rd iget_locked sb ino = Inr (e1\<lparr>vfs_inode := ext2_set_inode_flags (vfs_inode e1)\<rparr>) \<and>
     e1 = set_ops d sb (raw_at sb slot) (read_fields sb ino (raw_at sb slot)
            (ei\<lparr>i_block_alloc_info := None, vfs_inode := read_ids sb (raw_at sb slot) (vfs_inode ei), i_dtime := r_dtime (raw_at sb slot)\<rparr>))"
proof -
  have "unat (r_links_count (raw_at sb slot)) < 2 ^ 32" using unsigned_less [of "r_links_count (raw_at sb slot)", where 'a = nat] by simp
  then have "ucast (r_links_count (raw_at sb slot)) = (0 :: 32 word) \<longleftrightarrow> r_links_count (raw_at sb slot) = 0"
    by (simp add: word_unat_eq_iff unsigned_ucast_eq take_bit_nat_eq_self)
  then show ?thesis using assms by (auto simp: ext2_iget_def read_ids_def Let_def)
qed

lemma nlink_back: "w < 2 ^ 16 \<Longrightarrow> ucast (ucast (w :: 32 word) :: 16 word) = w"
  by (simp add: word_unat_eq_iff unsigned_ucast_eq word_less_nat_alt take_bit_word_eq_self unsigned_take_bit_eq take_bit_nat_eq_self)

lemma fits_synced: "inode_fits sb ei \<Longrightarrow> inode_fits sb (flags_synced ei)"
  unfolding inode_fits_def flags_synced_def ids_fit_def ea_blocks_def ext2_inode_is_fast_symlink_def ext2_get_inode_flags_def Let_def
  by (simp cong: if_cong)

text \<open>An inode as read back, before its flags are copied: all that is kept, with the lower half of the size.\<close>

lemma kept_back:
  fixes d sb ei raw
  defines "w \<equiv> written d sb ei raw"
  assumes d: "dev_ok d" and fits: "inode_fits sb ei" and raw: "12 \<le> length (r_block raw)"
  shows "kept (set_ops d sb w (read_fields sb ino w (e0\<lparr>vfs_inode := read_ids sb w i0\<rparr>))) =
         kept (ei\<lparr>vfs_inode := (vfs_inode ei)\<lparr>i_size := i_size (vfs_inode ei) mod 2 ^ 32\<rparr>\<rparr>)"
proof -
  let ?i = "vfs_inode ei" and ?r = "read_ids sb w i0"
  define e1 where "e1 = read_fields sb ino w (e0\<lparr>vfs_inode := ?r\<rparr>)"
  note f = fits [unfolded inode_fits_def Let_def]
  have mode: "i_mode ?r = i_mode ?i" by (simp add: read_ids_def w_def Let_def)
  have ids: "i_uid ?r = i_uid ?i" "i_gid ?r = i_gid ?i" using read_written_ids [OF d, of sb ei] f by (simp_all add: w_def)
  have r: "i_nlink ?r = i_nlink ?i" "i_size ?r = i_size ?i mod 2 ^ 32"
    "i_atime ?r = i_atime ?i" "i_ctime ?r = i_ctime ?i" "i_mtime ?r = i_mtime ?i"
    using f by (simp_all add: read_ids_def w_def Let_def nlink_back time_back unat_of_nat take_bit_eq_mod)
  have dir: "i_dir_acl e1 = i_dir_acl ei"
    using f mode by (auto simp: e1_def read_fields_def Let_def w_def)
  have v: "vfs_inode e1 = ?r\<lparr>i_blocks := i_blocks ?i, i_flags := i_flags ?i, i_generation := i_generation ?i,
      i_block_group := (ino - 1) div s_inodes_per_group (it_sbi sb), i_dir_start_lookup := 0, i_data := take 60 (r_block w)\<rparr>"
    using f mode by (auto simp: e1_def read_fields_def Let_def w_def unat_of_nat take_bit_nat_eq_self)
  have e1: "i_faddr e1 = i_faddr ei" "i_frag_no e1 = i_frag_no ei" "i_frag_size e1 = i_frag_size ei" "i_file_acl e1 = i_file_acl ei"
    by (simp_all add: e1_def read_fields_def Let_def w_def)
  show ?thesis
  proof (cases "S_ISCHR (i_mode ?i) \<or> S_ISBLK (i_mode ?i)")
    case True
    then have "\<not> S_ISLNK (i_mode ?i)" using type_exclusive(4) by blast
    moreover have "i_mode (vfs_inode e1) = i_mode ?i" by (simp add: v mode)
    then have "i_rdev (set_ops d sb w e1) = i_rdev ei"
      using set_ops_rdev [of e1 d sb w] dev_back [OF d True raw, of sb] True unfolding w_def [symmetric] by presburger
    ultimately show ?thesis
      using True unfolding e1_def [symmetric]
      by (simp add: kept_def Let_def set_ops_inode ext2_inode_is_fast_symlink_def v mode ids r e1 dir)
  next
    case False
    then have b: "r_block w = i_data ?i" by (simp add: w_def written_def write_block_def Let_def)
    have "nd_terminate_link (i_data ?i) (i_size ?i mod 2 ^ 32) 59 = i_data ?i"
      if "ext2_inode_is_fast_symlink (ea_blocks sb e1) (vfs_inode e1)"
    proof -
      have "ext2_inode_is_fast_symlink (ea_blocks sb ei) ?i"
        using that by (simp add: ext2_inode_is_fast_symlink_def ea_blocks_def v mode e1)
      moreover from this have "\<not> S_ISREG (i_mode ?i) \<and> \<not> S_ISIM (i_mode ?i)"
        by (auto simp: ext2_inode_is_fast_symlink_def S_ISREG_def S_ISIM_def S_ISLNK_def)
      ultimately have "i_data ?i ! min (i_size ?i) 59 = 0" "i_size ?i mod 2 ^ 32 = i_size ?i" using f by auto
      then show ?thesis by (metis nd_terminate_link_def list_update_id)
    qed
    then show ?thesis
      using False f unfolding e1_def [symmetric]
      by (auto simp: kept_def Let_def set_ops_inode v mode ids r e1 dir b)
  qed
qed

lemma kept_flags [simp]: "kept (e\<lparr>vfs_inode := ext2_set_inode_flags (vfs_inode e)\<rparr>) = kept e"
  by (simp add: kept_def ext2_set_inode_flags_def Let_def)

text \<open>The five flags of the VFS inode that are kept on the disk.\<close>

definition disk_flags :: "32 word list" where
  "disk_flags = [S_SYNC, S_NOATIME, S_APPEND, S_IMMUTABLE, S_DIRSYNC]"

lemma and_BIT: "bit v n = bit w n \<Longrightarrow> and v (BIT n) = and w (BIT n)"
  by (rule bit_word_eqI) (auto simp: bit_simps bit_BIT)

lemma vflags_back:
  assumes "i_flags i = i_flags (ext2_get_inode_flags j)" "f \<in> set disk_flags"
  shows "and (i_vflags (ext2_set_inode_flags i)) f = and (i_vflags j) f"
proof -
  have b: "bit (i_vflags (ext2_set_inode_flags i)) n \<longleftrightarrow> bit (i_vflags j) n" if "n \<in> {0, 1, 2, 3, 6}" for n
    using that by (auto simp: vflags_bit assms(1) flags_bit)
  from assms(2) obtain n where "n \<in> {0, 1, 2, 3, 6}" "f = BIT n"
    unfolding disk_flags_def flag_bits by auto
  then show ?thesis using and_BIT [OF b] by simp
qed

text \<open>Writing an inode and reading it again, in general.\<close>

lemma reread:
  assumes d: "dev_ok d" and fits: "inode_fits sb ei" and slot: "ext2_get_inode rd sb (i_ino (vfs_inode ei)) = Inr slot"
    and raw: "length (r_block (raw_at sb slot)) = 60" and new: "iget_locked (i_ino (vfs_inode ei)) = Some (fresh, True)"
    and w: "ext2_write_inode d rd io_err sb ei do_sync = (sb', ei', r)"
  obtains ei2 where "ext2_iget d rd iget_locked sb' (i_ino (vfs_inode ei)) = Inr ei2"
    "kept ei2 = kept (ei'\<lparr>vfs_inode := (vfs_inode ei')\<lparr>i_size := i_size (vfs_inode ei) mod 2 ^ 32\<rparr>\<rparr>)"
    "\<And>f. f \<in> set disk_flags \<Longrightarrow> and (i_vflags (vfs_inode ei2)) f = and (i_vflags (vfs_inode ei)) f"
    "ei' = (flags_synced ei)\<lparr>i_state_new := False\<rparr>"
    "\<And>s. s \<noteq> slot \<Longrightarrow> raw_at sb' s = raw_at sb s"
proof -
  let ?ino = "i_ino (vfs_inode ei)" and ?raw = "if i_state_new ei then zero_raw (it_inode_size sb) else raw_at sb slot"
  define wr where "wr = written d sb (flags_synced ei) ?raw"
  have eq: "sb' = put_raw slot wr sb" "ei' = (flags_synced ei)\<lparr>i_state_new := False\<rparr>"
    using w write_inode_eq [OF slot] by (simp_all add: wr_def)
  note f = fits_synced [OF fits] and f0 = fits [unfolded inode_fits_def Let_def]
  have fs: "i_mode (vfs_inode (flags_synced ei)) = i_mode (vfs_inode ei)" "i_nlink (vfs_inode (flags_synced ei)) = i_nlink (vfs_inode ei)"
    "i_size (vfs_inode (flags_synced ei)) = i_size (vfs_inode ei)" "i_dtime (flags_synced ei) = i_dtime ei"
    by (simp_all add: flags_synced_def ext2_get_inode_flags_def Let_def)
  have slot': "ext2_get_inode rd sb' ?ino = Inr slot" "raw_at sb' slot = wr" using slot by (simp_all add: eq)
  have "r_links_count wr \<noteq> 0" if "i_nlink (vfs_inode ei) \<noteq> 0"
    using nlink_back [of "i_nlink (vfs_inode ei)"] f0 that by (auto simp: wr_def fs)
  then have live: "r_links_count wr \<noteq> 0 \<or> r_mode wr \<noteq> 0 \<and> r_dtime wr = 0"
    using f0 by (auto simp: wr_def fs)
  let ?e0 = "fresh\<lparr>i_block_alloc_info := None, i_dtime := r_dtime wr\<rparr>"
  have e0: "fresh\<lparr>i_block_alloc_info := None, vfs_inode := i, i_dtime := r_dtime wr\<rparr> = ?e0\<lparr>vfs_inode := i\<rparr>" for i by simp
  from iget_new [where iget_locked = iget_locked and ino = ?ino and sb = sb', OF new slot'(1), unfolded slot'(2), OF live, of d, unfolded e0] obtain e1 where
    e1: "ext2_iget d rd iget_locked sb' ?ino = Inr (e1\<lparr>vfs_inode := ext2_set_inode_flags (vfs_inode e1)\<rparr>)"
      "e1 = set_ops d sb' wr (read_fields sb' ?ino wr
        (?e0\<lparr>vfs_inode := read_ids sb' wr (vfs_inode fresh)\<rparr>))"
    by blast
  have len: "12 \<le> length (r_block ?raw)" using raw by (simp add: zero_raw_def)
  have k: "kept e1 = kept ((flags_synced ei)\<lparr>vfs_inode := (vfs_inode (flags_synced ei))\<lparr>i_size := i_size (vfs_inode ei) mod 2 ^ 32\<rparr>\<rparr>)"
    using kept_back [OF d f len, folded wr_def, where ino = ?ino and ?e0.0 = ?e0
        and ?i0.0 = "vfs_inode fresh"] by (simp only: e1(2) eq(1) set_ops_put read_fields_put read_ids_put fs)
  have fl: "i_flags (vfs_inode e1) = i_flags (ext2_get_inode_flags (vfs_inode ei))"
    using k by (simp add: kept_def Let_def flags_synced_def)
  show ?thesis
  proof (rule that [OF e1(1) _ _ eq(2)])
    show "kept (e1\<lparr>vfs_inode := ext2_set_inode_flags (vfs_inode e1)\<rparr>) =
        kept (ei'\<lparr>vfs_inode := (vfs_inode ei')\<lparr>i_size := i_size (vfs_inode ei) mod 2 ^ 32\<rparr>\<rparr>)"
      using k by (simp add: eq(2)) (simp add: kept_def Let_def)
    show "and (i_vflags (vfs_inode (e1\<lparr>vfs_inode := ext2_set_inode_flags (vfs_inode e1)\<rparr>))) f = and (i_vflags (vfs_inode ei)) f"
      if "f \<in> set disk_flags" for f using vflags_back [OF fl that] by simp
    show "raw_at sb' s = raw_at sb s" if "s \<noteq> slot" for s using that by (simp add: eq(1))
  qed
qed

section \<open>Places in the inode tables\<close>

lemma slot_split:
  fixes n B :: nat
  assumes "n dvd B" "0 < n" "0 < B"
  obtains q where "B = q * n" "0 < q" "\<And>k. k * n div B = k div q" "\<And>k. k * n mod B = k mod q * n" "\<And>k. k mod q * n + n \<le> B"
proof -
  from assms(1) obtain q where "B = n * q" by (rule dvdE)
  then have q: "B = q * n" "0 < q" using assms(3) by (auto simp: mult.commute)
  have "k mod q * n + n \<le> q * n" for k using q mult_le_mono1 [of "Suc (k mod q)" q n] by (simp add: Suc_leI)
  moreover have "k * n div B = k div q" "k * n mod B = k mod q * n" for k using assms(2) by (simp_all add: q(1) mult_mod_left)
  ultimately show ?thesis using q by (intro that [OF q]) simp_all
qed

lemma get_inode_slot:
  assumes "ext2_get_inode rd sb ino = Inr (b, off)"
  shows "let k = (ino - 1) mod s_inodes_per_group (it_sbi sb)
    in b = it_table sb ((ino - 1) div s_inodes_per_group (it_sbi sb)) + k * it_inode_size sb div 2 ^ it_block_bits sb \<and>
       off = k * it_inode_size sb mod 2 ^ it_block_bits sb \<and> (ino - 1) div s_inodes_per_group (it_sbi sb) < s_groups_count (it_sbi sb) \<and>
       (ino = 2 \<or> s_first_ino (it_sbi sb) \<le> ino)"
  using assms by (auto simp: ext2_get_inode_def ext2_get_group_desc_def Let_def drop_bit_eq_div split: if_splits option.splits)

definition table_blocks :: "inode_sb \<Rightarrow> nat" where
  "table_blocks sb = (s_inodes_per_group (it_sbi sb) * it_inode_size sb + 2 ^ it_block_bits sb - 1) div 2 ^ it_block_bits sb"

text \<open>The size of an inode divides that of a block, and the tables of different groups are apart.\<close>

definition tables_ok :: "inode_sb \<Rightarrow> bool" where
  "tables_ok sb \<longleftrightarrow>
     0 < s_inodes_per_group (it_sbi sb) \<and> 0 < s_first_ino (it_sbi sb) \<and> 0 < it_inode_size sb \<and> it_inode_size sb dvd 2 ^ it_block_bits sb \<and>
     (\<forall>g < s_groups_count (it_sbi sb). \<forall>h < s_groups_count (it_sbi sb).
        g \<noteq> h \<longrightarrow> it_table sb g + table_blocks sb \<le> it_table sb h \<or> it_table sb h + table_blocks sb \<le> it_table sb g)"

lemma slot_in_table:
  assumes "tables_ok sb" "k < s_inodes_per_group (it_sbi sb)"
  shows "k * it_inode_size sb div 2 ^ it_block_bits sb < table_blocks sb"
proof -
  let ?B = "2 ^ it_block_bits sb :: nat"
  have "(k + 1) * it_inode_size sb \<le> s_inodes_per_group (it_sbi sb) * it_inode_size sb"
    using assms(2) by (intro mult_le_mono1) simp
  moreover have "0 < it_inode_size sb" using assms(1) by (simp add: tables_ok_def)
  ultimately have "k * it_inode_size sb + ?B \<le> s_inodes_per_group (it_sbi sb) * it_inode_size sb + ?B - 1" by simp
  then have "(k * it_inode_size sb + ?B) div ?B \<le> table_blocks sb" unfolding table_blocks_def by (rule div_le_mono)
  then show ?thesis by simp
qed

text \<open>An example: a file system of two groups and an inode with number 12.\<close>

definition dev_ex :: dev_enc where
  "dev_ex = \<lparr>old_valid_dev = (\<lambda>r. r < 65536), old_encode_dev = id, old_decode_dev = id, new_encode_dev = id, new_decode_dev = id,
     high2lowuid = of_nat, high2lowgid = of_nat\<rparr>"

definition isb_ex :: inode_sb where
  "isb_ex = \<lparr>it_sbi = sbi_ex, it_inode_size = 128, it_block_bits = 10, it_table = (\<lambda>g. 5 + 64 * g), it_no_uid32 = False,
     it_nobh = False, it_xip = False, es_rev_level = 1, es_first_ino = 11, es_inode_size = 128, es_large_file = False,
     it_raw = (\<lambda>_ _. zero_raw 128)\<rparr>"

definition info_ex :: "16 word \<Rightarrow> nat \<Rightarrow> ext2_inode_info" where
  "info_ex mode len = \<lparr>vfs_inode = \<lparr>i_ino = 12, i_mode = mode, i_nlink = 1, i_size = len, i_blocks = 0, i_data = replicate 60 0, i_flags = 0,
       i_dir_start_lookup = 0, i_version = 1, i_mtime = 700, i_ctime = 700, i_atime = 700, i_uid = 70000, i_gid = 100, i_generation = 3,
       i_block_group = 0, i_vflags = S_IMMUTABLE, i_sbsync = False, i_dirty = True, dpages = (\<lambda>_ _. \<lparr>de_inode = 0, rec_len = 0, name_len = 0,
       file_type = 0, de_name = []\<rparr>), fpages = (\<lambda>_. []), p_checked = (\<lambda>_. False), p_error = (\<lambda>_. False)\<rparr>,
     i_faddr = 0, i_frag_no = 0, i_frag_size = 0, i_state_new = True, i_file_acl = 0, i_dir_acl = 0, i_dtime = 0, i_rdev = 0,
     i_block_alloc_info = None, i_op = No_I_Ops, i_fop = No_F_Ops, a_ops = No_Aops\<rparr>"

lemma info_ex_fields [simp]:
  "i_ino (vfs_inode (info_ex m n)) = 12" "i_size (vfs_inode (info_ex m n)) = n" "i_uid (vfs_inode (info_ex m n)) = 70000"
  "i_vflags (vfs_inode (info_ex m n)) = S_IMMUTABLE"
  by (simp_all add: info_ex_def)

lemma dev_ex_ok: "dev_ok dev_ex"
  by (simp add: dev_ok_def dev_ex_def)

lemma isb_ex_slot: "ext2_get_inode (\<lambda>_. True) isb_ex 12 = Inr (6, 384)"
  by (simp add: ext2_get_inode_def ext2_get_group_desc_def isb_ex_def sbi_ex_def drop_bit_eq_div Let_def)

lemma isb_ex_raw: "length (r_block (raw_at isb_ex slot)) = 60"
  by (simp add: raw_at_def isb_ex_def zero_raw_def)

lemma info_ex_fits: "S_ISREG mode \<Longrightarrow> inode_fits isb_ex (info_ex mode len)"
  by (auto simp: inode_fits_def ids_fit_def info_ex_def isb_ex_def ext2_inode_is_fast_symlink_def S_ISREG_def S_ISLNK_def)

section \<open>Properties\<close>

text \<open>C32: Every inode has a place of its own in the inode tables: it lies within one block, that block belongs to the
  table of the group of the inode, and the places of two inodes do not overlap.\<close>

theorem inode_slots_disjoint:
  assumes ok: "tables_ok sb" and a: "ext2_get_inode rd sb ino = Inr (b, off)"
  shows "off + it_inode_size sb \<le> 2 ^ it_block_bits sb \<and>
    it_table sb ((ino - 1) div s_inodes_per_group (it_sbi sb)) \<le> b \<and>
    b < it_table sb ((ino - 1) div s_inodes_per_group (it_sbi sb)) + table_blocks sb \<and>
    (\<forall>ino' b' off'. ext2_get_inode rd sb ino' = Inr (b', off') \<and> ino' \<noteq> ino \<longrightarrow>
       b' \<noteq> b \<or> off' + it_inode_size sb \<le> off \<or> off + it_inode_size sb \<le> off')"
proof -
  let ?n = "it_inode_size sb" and ?B = "2 ^ it_block_bits sb :: nat" and ?ipg = "s_inodes_per_group (it_sbi sb)"
  have n: "0 < ?n" "?n dvd ?B" and ipg: "0 < ?ipg" "0 < s_first_ino (it_sbi sb)" using ok by (simp_all add: tables_ok_def)
  obtain q where q: "?B = q * ?n" "0 < q" and dm: "\<And>k. k * ?n div ?B = k div q" "\<And>k. k * ?n mod ?B = k mod q * ?n"
      "\<And>k. k mod q * ?n + ?n \<le> ?B"
    using slot_split [OF n(2,1)] by (metis zero_less_numeral zero_less_power)
  note sa = get_inode_slot [OF a, unfolded Let_def dm(1,2)]
  have tb: "(i - 1) mod ?ipg div q < table_blocks sb" for i
    using slot_in_table [OF ok, of "(i - 1) mod ?ipg"] ipg by (simp add: dm(1))
  have "b' \<noteq> b \<or> off' + ?n \<le> off \<or> off + ?n \<le> off'" if c: "ext2_get_inode rd sb ino' = Inr (b', off')" "ino' \<noteq> ino" for ino' b' off'
  proof (cases "(ino - 1) div ?ipg = (ino' - 1) div ?ipg")
    case True
    note sc = get_inode_slot [OF c(1), unfolded Let_def dm(1,2)]
    have "ino - 1 \<noteq> ino' - 1" using sa sc c(2) ipg by auto
    moreover define k k' where "k = (ino - 1) mod ?ipg" and "k' = (ino' - 1) mod ?ipg"
    ultimately have kk: "k \<noteq> k'" using True by (metis div_mult_mod_eq)
    have o: "off = k mod q * ?n" "off' = k' mod q * ?n" using sa sc by (simp_all add: k_def k'_def)
    have "b' = b \<Longrightarrow> k div q = k' div q" using sa sc True by (simp add: k_def k'_def)
    then have "b' = b \<Longrightarrow> k mod q \<noteq> k' mod q" using kk by (metis div_mult_mod_eq)
    moreover have "k * ?n + ?n \<le> k' * ?n" if "k < k'" for k k' :: nat using mult_le_mono1 [of "Suc k" k' ?n] that by simp
    ultimately show ?thesis unfolding o by (metis nat_neq_iff)
  next
    case False
    note sc = get_inode_slot [OF c(1), unfolded Let_def dm(1,2)]
    have "it_table sb ((ino - 1) div ?ipg) + table_blocks sb \<le> it_table sb ((ino' - 1) div ?ipg) \<or>
        it_table sb ((ino' - 1) div ?ipg) + table_blocks sb \<le> it_table sb ((ino - 1) div ?ipg)"
      using ok False sa sc unfolding tables_ok_def by blast
    then show ?thesis using sa sc tb [of ino] tb [of ino'] by linarith
  qed
  then show ?thesis using sa tb [of ino] dm(3) [of "(ino - 1) mod ?ipg"] by auto
qed

theorem inode_slots_disjoint_witness:
  "ext2_get_inode (\<lambda>_. True) isb_ex 12 = Inr (6, 384) \<and> 384 + it_inode_size isb_ex \<le> 2 ^ it_block_bits isb_ex"
proof -
  have "tables_ok isb_ex"
    by (auto simp: tables_ok_def table_blocks_def isb_ex_def sbi_ex_def)
  from inode_slots_disjoint [OF this isb_ex_slot] show ?thesis using isb_ex_slot by simp
qed

text \<open>C30: An inode whose values fit the disk comes back from it as it was, but for large sizes: after
  \<open>ext2_write_inode\<close>, \<open>ext2_iget\<close> reads the same mode, owner, link count, times, blocks, flags, generation and
  contents, a device its number, and the same five flags of the VFS inode, while the inodes at other
  places stay as they are. The size comes back modulo \<open>2 ^ 32\<close>, also for regular files: the condition of \<open>ext2_write_inode\<close> that selects
  \<open>i_size_high\<close> asks for a mode that is both regular and immediate, which no mode is, so that files of 4 GiB and
  more are cut and the feature \<open>LARGE_FILE\<close> is never set.\<close>

theorem inode_disk_roundtrip:
  assumes "dev_ok d" and "inode_fits sb ei"
    and "ext2_get_inode rd sb (i_ino (vfs_inode ei)) = Inr slot" and "length (r_block (raw_at sb slot)) = 60"
    and "iget_locked (i_ino (vfs_inode ei)) = Some (fresh, True)"
    and "ext2_write_inode d rd io_err sb ei do_sync = (sb', ei', r)"
  shows "\<exists>ei2. ext2_iget d rd iget_locked sb' (i_ino (vfs_inode ei)) = Inr ei2 \<and>
      kept ei2 = kept (ei\<lparr>vfs_inode := (ext2_get_inode_flags (vfs_inode ei))\<lparr>i_size := i_size (vfs_inode ei) mod 2 ^ 32\<rparr>\<rparr>) \<and>
      (\<forall>f \<in> set disk_flags. and (i_vflags (vfs_inode ei2)) f = and (i_vflags (vfs_inode ei)) f) \<and>
      (\<forall>s. s \<noteq> slot \<longrightarrow> raw_at sb' s = raw_at sb s) \<and> es_large_file sb' = es_large_file sb"
proof -
  obtain ei2 where
    r: "ext2_iget d rd iget_locked sb' (i_ino (vfs_inode ei)) = Inr ei2"
      "kept ei2 = kept (ei'\<lparr>vfs_inode := (vfs_inode ei')\<lparr>i_size := i_size (vfs_inode ei) mod 2 ^ 32\<rparr>\<rparr>)"
      "\<And>f. f \<in> set disk_flags \<Longrightarrow> and (i_vflags (vfs_inode ei2)) f = and (i_vflags (vfs_inode ei)) f"
      "ei' = (flags_synced ei)\<lparr>i_state_new := False\<rparr>" "\<And>s. s \<noteq> slot \<Longrightarrow> raw_at sb' s = raw_at sb s"
    by (rule reread [where iget_locked = iget_locked and ei = ei, OF assms]) blast
  have "kept ei2 = kept (ei\<lparr>vfs_inode := (ext2_get_inode_flags (vfs_inode ei))\<lparr>i_size := i_size (vfs_inode ei) mod 2 ^ 32\<rparr>\<rparr>)"
    unfolding r(2) by (simp add: r(4) flags_synced_def kept_def Let_def)
  moreover have "es_large_file sb' = es_large_file sb" using assms(6) write_inode_eq [OF assms(3)] by (auto simp: put_raw_def)
  ultimately show ?thesis using r(1,3,5) by auto
qed

theorem inode_disk_roundtrip_witness:
  "\<exists>ei2. ext2_iget dev_ex (\<lambda>_. True) (\<lambda>_. Some (info_ex 0 0, True))
       (fst (ext2_write_inode dev_ex (\<lambda>_. True) False isb_ex (info_ex 0x81A4 5000) False)) 12 = Inr ei2 \<and>
     i_size (vfs_inode ei2) = 5000 \<and> i_uid (vfs_inode ei2) = 70000 \<and> and (i_vflags (vfs_inode ei2)) S_IMMUTABLE = S_IMMUTABLE"
proof -
  obtain sb' ei' r where w: "ext2_write_inode dev_ex (\<lambda>_. True) False isb_ex (info_ex 0x81A4 5000) False = (sb', ei', r)"
    by (metis prod_cases3)
  have reg: "S_ISREG 0x81A4" by (simp add: S_ISREG_def)
  from inode_disk_roundtrip [where iget_locked = "\<lambda>_. Some (info_ex 0 0, True)" and fresh = "info_ex 0 0",
      OF dev_ex_ok info_ex_fits [OF reg] _ _ _ w, unfolded info_ex_fields, OF isb_ex_slot isb_ex_raw]
  show ?thesis
    by (auto simp: w kept_def Let_def disk_flags_def ext2_get_inode_flags_def)
qed

text \<open>The tables of operations that belong to a mode and the mount options.\<close>

definition ops_match :: "inode_sb \<Rightarrow> ext2_inode_info \<Rightarrow> bool" where
  "ops_match sb ei \<longleftrightarrow>
     (let m = i_mode (vfs_inode ei);
          fast = ext2_inode_is_fast_symlink (ea_blocks sb ei) (vfs_inode ei);
          file = S_ISREG m \<or> S_ISIM m
      in i_op ei = (if file then File_I_Ops else if S_ISDIR m then Dir_I_Ops
           else if S_ISLNK m then (if fast then Fast_Symlink_I_Ops else Symlink_I_Ops)
           else Special_I_Ops) \<and>
         (file \<longrightarrow> i_fop ei = (if it_xip sb then Xip_File_F_Ops else File_F_Ops)) \<and> (S_ISDIR m \<longrightarrow> i_fop ei = Dir_F_Ops) \<and>
         (\<not> file \<and> \<not> S_ISDIR m \<and> \<not> S_ISLNK m \<longrightarrow> i_fop ei = Special_F_Ops) \<and>
         (file \<or> S_ISDIR m \<or> S_ISLNK m \<and> \<not> fast \<longrightarrow>
            a_ops ei = (if file \<and> it_xip sb then Ext2_Aops_Xip else if it_nobh sb then Ext2_Nobh_Aops else Ext2_Aops)))"

lemma set_ops_match: "ops_match sb (set_ops d sb raw ei)"
  by (auto simp: ops_match_def set_ops_def init_special_inode_def Let_def ea_blocks_def ext2_inode_is_fast_symlink_def
      S_ISREG_def S_ISIM_def S_ISDIR_def S_ISLNK_def)

lemma set_flags_keep [simp]:
  "i_mode (ext2_set_inode_flags i) = i_mode i" "i_nlink (ext2_set_inode_flags i) = i_nlink i" "i_size (ext2_set_inode_flags i) = i_size i"
  "i_blocks (ext2_set_inode_flags i) = i_blocks i" "i_data (ext2_set_inode_flags i) = i_data i" "i_uid (ext2_set_inode_flags i) = i_uid i"
  "i_gid (ext2_set_inode_flags i) = i_gid i"
  by (simp_all add: ext2_set_inode_flags_def Let_def)

text \<open>Two halves put together with \<open>|\<close> and \<open><<\<close> are the number they stand for.\<close>

lemma or_push_add:
  fixes a b :: nat
  assumes "a < 2 ^ n"
  shows "or a (push_bit n b) = a + 2 ^ n * b"
proof -
  have "and (take_bit n a) (push_bit n b) = 0" by (simp add: bit_eq_iff bit_simps)
  then have "and a (push_bit n b) = 0" using assms by (simp add: take_bit_nat_eq_self)
  from disjunctive_add_eq_or [OF this] show ?thesis by (metis push_bit_eq_mult mult.commute)
qed

text \<open>The fields of an inode that is not deleted, as numbers.\<close>

lemma iget_live:
  assumes "iget_locked ino = Some (fresh, True)" "ext2_get_inode rd sb ino = Inr slot" and raw: "raw = raw_at sb slot"
    and live: "r_links_count raw \<noteq> 0 \<or> r_mode raw \<noteq> 0 \<and> r_dtime raw = 0" and len: "length (r_block raw) = 60"
  defines "file \<equiv> S_ISREG (r_mode raw) \<or> S_ISIM (r_mode raw)"
  shows "\<exists>ei i. ext2_iget d rd iget_locked sb ino = Inr ei \<and> vfs_inode ei = i \<and>
    i_mode i = r_mode raw \<and> unat (i_nlink i) = unat (r_links_count raw) \<and>
    i_uid i = unat (r_uid_low raw) + (if it_no_uid32 sb then 0 else 2 ^ 16 * unat (r_uid_high raw)) \<and>
    i_gid i = unat (r_gid_low raw) + (if it_no_uid32 sb then 0 else 2 ^ 16 * unat (r_gid_high raw)) \<and>
    i_size i = unat (r_size raw) + (if file then 2 ^ 32 * unat (r_dir_acl raw) else 0) \<and>
    i_dir_acl ei = (if file then 0 else r_dir_acl raw) \<and> i_dtime ei = 0 \<and>
    i_data i = (if ext2_inode_is_fast_symlink (ea_blocks sb ei) i then (r_block raw)[min (i_size i) 59 := 0] else r_block raw) \<and>
    ops_match sb ei"
proof -
  from iget_new [where iget_locked = iget_locked and d = d, OF assms(1,2) live [unfolded raw], folded raw] obtain e1 where
    e1: "ext2_iget d rd iget_locked sb ino = Inr (e1\<lparr>vfs_inode := ext2_set_inode_flags (vfs_inode e1)\<rparr>)"
      "e1 = set_ops d sb raw (read_fields sb ino raw
        (fresh\<lparr>i_block_alloc_info := None, vfs_inode := read_ids sb raw (vfs_inode fresh), i_dtime := r_dtime raw\<rparr>))" by blast
  define e2 where "e2 = read_fields sb ino raw
        (fresh\<lparr>i_block_alloc_info := None, vfs_inode := read_ids sb raw (vfs_inode fresh), i_dtime := r_dtime raw\<rparr>)"
  define ei where "ei = e1\<lparr>vfs_inode := ext2_set_inode_flags (vfs_inode e1)\<rparr>"
  have "unat (r_uid_low raw) < 2 ^ 16" "unat (r_gid_low raw) < 2 ^ 16" "unat (r_size raw) < 2 ^ 32"
    using unsigned_less [of "r_uid_low raw", where 'a = nat] unsigned_less [of "r_gid_low raw", where 'a = nat]
      unsigned_less [of "r_size raw", where 'a = nat] by simp_all
  note sums = this [THEN or_push_add]
  have nl: "unat (ucast (r_links_count raw) :: 32 word) = unat (r_links_count raw)"
    using unsigned_less [of "r_links_count raw", where 'a = nat] by (simp add: unsigned_ucast_eq take_bit_nat_eq_self)
  have v2: "i_mode (vfs_inode e2) = r_mode raw" "unat (i_nlink (vfs_inode e2)) = unat (r_links_count raw)"
    "i_uid (vfs_inode e2) = unat (r_uid_low raw) + (if it_no_uid32 sb then 0 else 2 ^ 16 * unat (r_uid_high raw))"
    "i_gid (vfs_inode e2) = unat (r_gid_low raw) + (if it_no_uid32 sb then 0 else 2 ^ 16 * unat (r_gid_high raw))"
    "i_size (vfs_inode e2) = unat (r_size raw) + (if file then 2 ^ 32 * unat (r_dir_acl raw) else 0)"
    "i_dir_acl e2 = (if file then 0 else r_dir_acl raw)" "i_dtime e2 = 0" "i_data (vfs_inode e2) = r_block raw"
    using len by (simp_all add: e2_def read_fields_def read_ids_def Let_def file_def sums nl)
  have e: "e1 = set_ops d sb raw e2" using e1(2) by (simp only: e2_def)
  have keep: "i_file_acl (set_ops d sb raw e2) = i_file_acl e2" "i_dir_acl (set_ops d sb raw e2) = i_dir_acl e2"
    "i_dtime (set_ops d sb raw e2) = i_dtime e2"
    by (simp_all add: set_ops_def init_special_inode_def Let_def)
  have fast: "ext2_inode_is_fast_symlink (ea_blocks sb ei) (vfs_inode ei) \<longleftrightarrow>
      ext2_inode_is_fast_symlink (ea_blocks sb e2) (vfs_inode e2)"
    by (simp add: ei_def e set_ops_inode ea_blocks_def keep ext2_inode_is_fast_symlink_def)
  have "ops_match sb ei" using set_ops_match [of sb d raw e2]
    by (simp add: ei_def e ops_match_def Let_def ea_blocks_def ext2_inode_is_fast_symlink_def)
  moreover have "ext2_iget d rd iget_locked sb ino = Inr ei" using e1(1) by (simp only: ei_def)
  moreover have "i_data (vfs_inode ei) = (if ext2_inode_is_fast_symlink (ea_blocks sb ei) (vfs_inode ei)
      then (r_block raw)[min (i_size (vfs_inode ei)) 59 := 0] else r_block raw)"
    unfolding fast by (simp add: ei_def e set_ops_inode v2 nd_terminate_link_def)
  moreover have "i_mode (vfs_inode ei) = i_mode (vfs_inode e2)" "i_nlink (vfs_inode ei) = i_nlink (vfs_inode e2)"
    "i_uid (vfs_inode ei) = i_uid (vfs_inode e2)" "i_gid (vfs_inode ei) = i_gid (vfs_inode e2)"
    "i_size (vfs_inode ei) = i_size (vfs_inode e2)" "i_dir_acl ei = i_dir_acl e2" "i_dtime ei = i_dtime e2"
    by (simp_all add: ei_def e set_ops_inode keep)
  ultimately show ?thesis using v2 by (intro exI [of _ ei] exI [of _ "vfs_inode ei"]) (simp only: simp_thms)
qed

lemma iget_dead:
  assumes "iget_locked ino = Some (fresh, True)" "ext2_get_inode rd sb ino = Inr slot" "raw = raw_at sb slot"
    and "r_links_count raw = 0" "r_mode raw = 0 \<or> r_dtime raw \<noteq> 0"
  shows "ext2_iget d rd iget_locked sb ino = Inl ESTALE"
  using assms by (auto simp: ext2_iget_def read_ids_def Let_def)

text \<open>C31: What \<open>ext2_iget\<close> answers for an inode that is not in the cache, whatever the disk holds: EINVAL for a
  number that no file may have, EIO when the group has no descriptor or the block of the table cannot be
  read, ESTALE for a deleted inode (no links, and no mode or a time of deletion), and in all other cases the
  inode of the slot: mode, links, owner, group and size are the numbers that the fields of the slot make up,
  only regular and immediate files take the upper half of the size from the field that is \<open>i_dir_acl\<close> for
  the others, the 60 bytes are those of the slot, except that a short symbolic link is ended with a zero
  byte inside them, and the three tables of operations are those of its type and of the mount options.\<close>

theorem iget_reads_live:
  assumes "iget_locked ino = Some (fresh, True)" and "\<forall>slot. length (r_block (raw_at sb slot)) = 60"
    and "grp = (ino - 1) div s_inodes_per_group (it_sbi sb)"
    and "off = (ino - 1) mod s_inodes_per_group (it_sbi sb) * it_inode_size sb"
    and "block = it_table sb grp + off div 2 ^ it_block_bits sb"
    and "raw = it_raw sb block (off mod 2 ^ it_block_bits sb)"
    and "file \<longleftrightarrow> S_ISREG (r_mode raw) \<or> S_ISIM (r_mode raw)"
  shows "if ino \<noteq> 2 \<and> ino < s_first_ino (it_sbi sb) \<or> ino > s_max_ino (it_sbi sb)
    then ext2_iget d rd iget_locked sb ino = Inl EINVAL
    else if ext2_get_group_desc (it_sbi sb) grp = None \<or> \<not> rd block
    then ext2_iget d rd iget_locked sb ino = Inl EIO
    else if r_links_count raw = 0 \<and> (r_mode raw = 0 \<or> r_dtime raw \<noteq> 0)
    then ext2_iget d rd iget_locked sb ino = Inl ESTALE
    else \<exists>ei i. ext2_iget d rd iget_locked sb ino = Inr ei \<and> vfs_inode ei = i \<and>
      i_mode i = r_mode raw \<and> unat (i_nlink i) = unat (r_links_count raw) \<and>
      i_uid i = unat (r_uid_low raw) + (if it_no_uid32 sb then 0 else 2 ^ 16 * unat (r_uid_high raw)) \<and>
      i_gid i = unat (r_gid_low raw) + (if it_no_uid32 sb then 0 else 2 ^ 16 * unat (r_gid_high raw)) \<and>
      i_size i = unat (r_size raw) + (if file then 2 ^ 32 * unat (r_dir_acl raw) else 0) \<and>
      i_dir_acl ei = (if file then 0 else r_dir_acl raw) \<and> i_dtime ei = 0 \<and>
      i_data i = (if ext2_inode_is_fast_symlink (ea_blocks sb ei) i then (r_block raw)[min (i_size i) 59 := 0] else r_block raw) \<and>
      ops_match sb ei"
proof -
  let ?bad = "ino \<noteq> 2 \<and> ino < s_first_ino (it_sbi sb) \<or> ino > s_max_ino (it_sbi sb)"
  let ?unread = "ext2_get_group_desc (it_sbi sb) grp = None \<or> \<not> rd block"
  have gi: "ext2_get_inode rd sb ino = (if ?bad then Inl EINVAL else if ?unread then Inl EIO
      else Inr (block, off mod 2 ^ it_block_bits sb))"
    by (auto simp: ext2_get_inode_def Let_def assms(3-5) drop_bit_eq_div split: option.splits)
  have err: "ext2_iget d rd iget_locked sb ino = Inl e" if "ext2_get_inode rd sb ino = Inl e" for e
    using assms(1) that by (simp add: ext2_iget_def Let_def)
  show ?thesis
  proof (cases "?bad \<or> ?unread")
    case True
    then show ?thesis using gi err by (cases ?bad) simp_all
  next
    case False
    then have slot: "ext2_get_inode rd sb ino = Inr (block, off mod 2 ^ it_block_bits sb)" using gi by simp
    have raw: "raw = raw_at sb (block, off mod 2 ^ it_block_bits sb)" by (simp add: raw_at_def assms(6))
    have len: "length (r_block raw) = 60" using assms(2) raw by simp
    show ?thesis
    proof (cases "r_links_count raw = 0 \<and> (r_mode raw = 0 \<or> r_dtime raw \<noteq> 0)")
      case True
      then have "r_links_count raw = 0" "r_mode raw = 0 \<or> r_dtime raw \<noteq> 0" by blast+
      from iget_dead [where iget_locked = iget_locked and d = d, OF assms(1) slot raw this] False True show ?thesis by simp
    next
      case live: False
      then have "r_links_count raw \<noteq> 0 \<or> r_mode raw \<noteq> 0 \<and> r_dtime raw = 0" by blast
      from iget_live [where iget_locked = iget_locked and d = d, OF assms(1) slot raw this len] show ?thesis
        unfolding assms(7) if_not_P [OF live] using False by (subst if_not_P, blast)+
    qed
  qed
qed

theorem iget_reads_live_witness:
  "(\<exists>ei. ext2_iget dev_ex (\<lambda>_. True) (\<lambda>_. Some (info_ex 0 0, True)) (put_raw (6, 384) ((zero_raw 128)\<lparr>r_mode := 0x41ED\<rparr>) isb_ex) 12 = Inr ei \<and>
      i_op ei = Dir_I_Ops \<and> i_fop ei = Dir_F_Ops \<and> a_ops ei = Ext2_Aops) \<and>
   ext2_iget dev_ex (\<lambda>_. True) (\<lambda>_. Some (info_ex 0 0, True)) (put_raw (6, 384) ((zero_raw 128)\<lparr>r_mode := 0x41ED, r_dtime := 5\<rparr>) isb_ex) 12 = Inl ESTALE"
proof -
  let ?l = "\<lambda>_ :: nat. Some (info_ex 0 0, True)"
  let ?sb = "\<lambda>w. put_raw (6, 384) w isb_ex" and ?w = "(zero_raw 128)\<lparr>r_mode := 0x41ED\<rparr>"
  have raw: "raw_at (?sb w) s = (if s = (6, 384) then w else zero_raw 128)" for s w
    by (cases s) (simp add: raw_at_def put_raw_def isb_ex_def)
  have l: "\<forall>s. length (r_block (raw_at (?sb (?w\<lparr>r_dtime := t\<rparr>)) s)) = 60" for t using raw by (simp add: zero_raw_def)
  have geo: "it_sbi (?sb w) = sbi_ex" "it_inode_size (?sb w) = 128" "it_block_bits (?sb w) = 10" "it_table (?sb w) 0 = 5"
    "it_raw (?sb w) 6 384 = w" "it_xip (?sb w) = False" "it_nobh (?sb w) = False" for w
    by (simp_all add: put_raw_def isb_ex_def)
  have at: "0 = (12 - 1) div s_inodes_per_group (it_sbi (?sb w))"
    "1408 = (12 - 1) mod s_inodes_per_group (it_sbi (?sb w)) * it_inode_size (?sb w)"
    "6 = it_table (?sb w) 0 + 1408 div 2 ^ it_block_bits (?sb w)"
    "w = it_raw (?sb w) 6 (1408 mod 2 ^ it_block_bits (?sb w))" for w
    unfolding geo by (simp_all add: sbi_ex_def geo)
  note here = iget_reads_live [where iget_locked = ?l and d = dev_ex and rd = "\<lambda>_. True", OF refl _ at refl, unfolded geo]
  have found: "\<not> (12 \<noteq> (2 :: nat) \<and> 12 < s_first_ino sbi_ex \<or> 12 > s_max_ino sbi_ex)"
    "\<not> (ext2_get_group_desc sbi_ex 0 = None \<or> \<not> True)"
    by (simp_all add: sbi_ex_def ext2_get_group_desc_def)
  have w: "r_mode (?w\<lparr>r_dtime := t\<rparr>) = 0x41ED" "r_links_count (?w\<lparr>r_dtime := t\<rparr>) = 0"
    "r_dtime (?w\<lparr>r_dtime := t\<rparr>) = t" "?w\<lparr>r_dtime := 0\<rparr> = ?w" for t by (simp_all add: zero_raw_def)
  have "ext2_iget dev_ex (\<lambda>_. True) ?l (?sb (?w\<lparr>r_dtime := 5\<rparr>)) 12 = Inl ESTALE"
    using here [OF l [of 5]] unfolding if_not_P [OF found(1)] if_not_P [OF found(2)] w by simp
  moreover have nd: "\<not> (r_links_count ?w = 0 \<and> (r_mode ?w = 0 \<or> r_dtime ?w \<noteq> 0))" "r_mode ?w = 0x41ED"
    by (simp_all add: zero_raw_def)
  obtain ei where "ext2_iget dev_ex (\<lambda>_. True) ?l (?sb ?w) 12 = Inr ei" "i_mode (vfs_inode ei) = 0x41ED" "ops_match (?sb ?w) ei"
    using here [OF l [of 0], unfolded w(4)]
    unfolding if_not_P [OF found(1)] if_not_P [OF found(2)] if_not_P [OF nd(1)]
    by (elim exE conjE) (rule that, assumption, simp_all only: nd(2))
  moreover from this(2,3) have "i_op ei = Dir_I_Ops \<and> i_fop ei = Dir_F_Ops \<and> a_ops ei = Ext2_Aops"
    by (simp add: ops_match_def Let_def S_ISREG_def S_ISIM_def S_ISDIR_def geo isb_ex_def)
  ultimately show ?thesis by simp
qed

end
