(* ===== verification/Ext2_Blocks.thy ===== *)
theory Ext2_Blocks
  imports Ext2_Rsv Ext2_Ialloc_Facts
begin

text \<open>
  Allocating and freeing runs of blocks, over the whole file system. The invariant: the count of free
  blocks in every group descriptor is the number of clear bits in the bitmap of the group, and the bits
  of blocks that are not for files are set: those of the bitmaps and the inode table, and of the part
  of the last group behind the end of the device.
\<close>

section \<open>The invariant\<close>

definition clear_count :: "(nat \<Rightarrow> bool) \<Rightarrow> nat \<Rightarrow> nat" where
  "clear_count bm n = card {i. i < n \<and> \<not> bm i}"

lemma clear_count_marked:
  assumes "clear_run bm g num" and "g + num \<le> n"
  shows "num \<le> clear_count bm n" "clear_count (marked bm g num) n = clear_count bm n - num"
proof -
  let ?A = "{i. i < n \<and> \<not> bm i}" and ?B = "{g..<g + num}"
  have sub: "?B \<subseteq> ?A" "finite ?A" using assms by (auto simp: clear_run_def)
  show "num \<le> clear_count bm n" using card_mono [OF sub(2,1)] by (simp add: clear_count_def)
  have "{i. i < n \<and> \<not> marked bm g num i} = ?A - ?B" by (auto simp: marked_def)
  then show "clear_count (marked bm g num) n = clear_count bm n - num" using card_Diff_subset [OF _ sub(1)] by (simp add: clear_count_def)
qed

lemma clear_count_0: "clear_count bm n = 0 \<longleftrightarrow> (\<forall>i < n. bm i)"
  by (auto simp: clear_count_def)

definition not_for_files :: "balloc \<Rightarrow> nat \<Rightarrow> nat \<Rightarrow> bool" where
  "not_for_files bs grp b \<longleftrightarrow> b = bg_block_bitmap bs grp \<or> b = bg_inode_bitmap bs grp \<or>
     in_range b (bg_inode_table bs grp) (s_itb_per_group bs) \<or> b \<ge> s_blocks_count (bs_sbi bs)"

definition balloc_ok :: "nat \<Rightarrow> balloc \<Rightarrow> bool" where
  "balloc_ok h bs \<longleftrightarrow> 0 < bpg bs \<and> bpg bs < 2 ^ 16 \<and> 0 < s_groups_count (bs_sbi bs) \<and>
     s_blocks_count (bs_sbi bs) \<le> s_first_data_block bs + s_groups_count (bs_sbi bs) * bpg bs \<and> rsv_ok h (bs_rsv bs) \<and>
     (\<forall>grp < s_groups_count (bs_sbi bs). s_group_desc_loaded (bs_sbi bs) (drop_bit (s_desc_per_block_bits (bs_sbi bs)) grp) \<and>
        unat (bg_free_blocks_count (s_desc (bs_sbi bs) grp)) = clear_count (s_bbitmap bs grp) (bpg bs) \<and>
        (\<forall>i < bpg bs. not_for_files bs grp (i + ext2_group_first_block_no bs grp) \<longrightarrow> s_bbitmap bs grp i))"

definition calm :: "ba_env \<Rightarrow> bool" where
  "calm e \<longleftrightarrow> rb_ok (ba_rb e) \<and> (\<forall>g. ba_rd e g) \<and> (\<forall>g. ba_lost e g = alone) \<and> ba_quota e"

lemma balloc_okD:
  assumes "balloc_ok h bs"
  shows "0 < bpg bs" "bpg bs < 2 ^ 16" "0 < s_groups_count (bs_sbi bs)" "rsv_ok h (bs_rsv bs)"
    "grp < s_groups_count (bs_sbi bs) \<Longrightarrow> ext2_get_group_desc (bs_sbi bs) grp = Some (s_desc (bs_sbi bs) grp)"
    "grp < s_groups_count (bs_sbi bs) \<Longrightarrow> unat (bg_free_blocks_count (s_desc (bs_sbi bs) grp)) = clear_count (s_bbitmap bs grp) (bpg bs)"
    "grp < s_groups_count (bs_sbi bs) \<Longrightarrow> i < bpg bs \<Longrightarrow> not_for_files bs grp (i + ext2_group_first_block_no bs grp) \<Longrightarrow> s_bbitmap bs grp i"
  using assms by (auto simp: balloc_ok_def ext2_get_group_desc_def)

lemma group_bound:
  assumes "balloc_ok h bs" "b < s_blocks_count (bs_sbi bs) \<or> b \<le> s_first_data_block bs"
  shows "(b - s_first_data_block bs) div bpg bs < s_groups_count (bs_sbi bs)"
proof -
  have "0 < s_groups_count (bs_sbi bs) * bpg bs" using balloc_okD(1,3) [OF assms(1)] by simp
  then have "b - s_first_data_block bs < s_groups_count (bs_sbi bs) * bpg bs"
    using assms unfolding balloc_ok_def by linarith
  then show ?thesis by (rule less_mult_imp_div_less)
qed

lemma balloc_ok_rsv: "balloc_ok h bs \<Longrightarrow> rsv_ok h rs \<Longrightarrow> balloc_ok h (bs\<lparr>bs_rsv := rs\<rparr>)"
  by (simp add: balloc_ok_def ext2_group_first_block_no_def not_for_files_def)

text \<open>The state after the bits \<open>g\<close> to \<open>g + num - 1\<close> of a group were set.\<close>

definition taken :: "balloc \<Rightarrow> nat \<Rightarrow> nat \<Rightarrow> nat \<Rightarrow> balloc" where
  "taken bs grp g num = bs\<lparr>s_bbitmap := (s_bbitmap bs)(grp := marked (s_bbitmap bs grp) g num)\<rparr>"

text \<open>What an attempt to find blocks may report.\<close>

definition found_ok :: "balloc \<Rightarrow> nat \<Rightarrow> nat \<Rightarrow> balloc \<Rightarrow> nat \<Rightarrow> nat \<Rightarrow> nat option \<Rightarrow> bool" where
  "found_ok bs h count bs' grp num ret \<longleftrightarrow>
     (\<exists>rs. rsv_ok h rs \<and>
       (case ret of
          Some g \<Rightarrow> grp < s_groups_count (bs_sbi bs) \<and> 0 < num \<and> num \<le> max 1 count \<and> g + num \<le> bpg bs \<and>
            clear_run (s_bbitmap bs grp) g num \<and> bs' = (taken bs grp g num)\<lparr>bs_rsv := rs\<rparr>
        | None \<Rightarrow> bs' = bs\<lparr>bs_rsv := rs\<rparr>))"

section \<open>One group\<close>

lemma alloc_in_group_ok:
  assumes ok: "balloc_ok h bs" and e: "calm e" and grp: "grp < s_groups_count (bs_sbi bs)" and my: "my_rsv \<noteq> Some h"
    and goal: "\<And>g. goal = Some g \<Longrightarrow> g < bpg bs" and num: "my_rsv \<noteq> None \<longrightarrow> 0 < num"
  obtains bs' num' ret where "alloc_in_group e bs grp goal my_rsv num = Some (bs', num', Inr ret)" "found_ok bs h num bs' grp num' ret"
    "ret = None \<longrightarrow> my_rsv \<noteq> None \<longrightarrow> num' = num" "ret = None \<longrightarrow> my_rsv = None \<longrightarrow> num' = 0"
    "ret = None \<longrightarrow> my_rsv = None \<longrightarrow> goal = None \<longrightarrow> (\<forall>i < bpg bs. s_bbitmap bs grp i)"
proof -
  note d = balloc_okD [OF ok]
  have rd: "read_block_bitmap (ba_rd e) bs grp = Some (s_bbitmap bs grp)" using e d(5) [OF grp] by (simp add: read_block_bitmap_def calm_def)
  have al: "ba_lost e grp = alone" "rb_ok (ba_rb e)" using e by (auto simp: calm_def)
  have same: "bs\<lparr>bs_rsv := rs, s_bbitmap := (s_bbitmap bs)(grp := s_bbitmap bs grp)\<rparr> = bs\<lparr>bs_rsv := rs\<rparr>" for rs by simp
  show thesis
  proof (cases my_rsv)
    case None
    obtain start end1 goal' where a: "alloc_range bs grp goal None = (start, end1, goal')" using prod_cases3 by blast
    have r: "end1 = bpg bs" "goal' = goal" "start = (case goal of Some g \<Rightarrow> g | None \<Rightarrow> 0)"
      using a by (auto simp: alloc_range_def split: option.splits)
    have "start \<le> bpg bs" using goal r(3) by (cases goal) (auto simp: less_imp_le)
    from try_Some [OF this a, of alone "s_bbitmap bs grp" num] obtain bm' num' ret where
      t: "ext2_try_to_allocate alone bs grp (s_bbitmap bs grp) goal num None = Some (bm', num', ret)" .
    have "\<And>g. goal' = Some g \<Longrightarrow> g < end1" using goal r by simp
    note k = try_ok [OF t a this]
    have "alloc_in_group e bs grp goal my_rsv num = Some (bs\<lparr>bs_rsv := bs_rsv bs, s_bbitmap := (s_bbitmap bs)(grp := bm')\<rparr>, num', Inr ret)"
      using rd t al None by (simp add: alloc_in_group_def ext2_try_to_allocate_with_rsv_def)
    moreover have "found_ok bs h num (bs\<lparr>bs_rsv := bs_rsv bs, s_bbitmap := (s_bbitmap bs)(grp := bm')\<rparr>) grp num' ret"
      using k r d(4) grp same unfolding found_ok_def taken_def by (intro exI [of _ "bs_rsv bs"]) (auto split: option.splits)
    moreover have "ret = None \<longrightarrow> num' = 0" "ret = None \<longrightarrow> goal = None \<longrightarrow> (\<forall>i < bpg bs. s_bbitmap bs grp i)"
      using k r by (auto split: option.splits)
    ultimately show thesis using that None by blast
  next
    case (Some m)
    then have m: "m \<noteq> h" "0 < num" using my num by auto
    from rsv_loop_ok [OF al(2,1) d(4) m d(1), of "s_bbitmap bs grp" goal False] obtain rs bm' num' ret where
      t: "rsv_loop e bs grp m num (bs_rsv bs) (s_bbitmap bs grp) goal False = Some (rs, bm', num', ret)" "rsv_ok h rs"
        "outcome_ok bs num (s_bbitmap bs grp) bm' num' ret" "ret = None \<longrightarrow> num' = num" .
    have "alloc_in_group e bs grp goal my_rsv num = Some (bs\<lparr>bs_rsv := rs, s_bbitmap := (s_bbitmap bs)(grp := bm')\<rparr>, num', Inr ret)"
      using rd t Some by (simp add: alloc_in_group_def ext2_try_to_allocate_with_rsv_def)
    moreover have "found_ok bs h num (bs\<lparr>bs_rsv := rs, s_bbitmap := (s_bbitmap bs)(grp := bm')\<rparr>) grp num' ret"
      using t(2,3) grp same unfolding found_ok_def outcome_ok_def taken_def by (intro exI [of _ rs]) (auto split: option.splits)
    ultimately show thesis using that t(4) Some by blast
  qed
qed

section \<open>All groups\<close>

lemma found_ok_rsv:
  assumes "found_ok (bs\<lparr>bs_rsv := rs\<rparr>) h count bs' grp num ret"
  shows "found_ok bs h count bs' grp num ret"
  using assms by (auto simp: found_ok_def taken_def split: option.splits)

lemma found_ok_mono: "found_ok bs h count bs' grp num ret \<Longrightarrow> max 1 count \<le> max 1 count' \<Longrightarrow> found_ok bs h count' bs' grp num ret"
  by (cases ret) (force simp: found_ok_def)+

text \<open>A search without reservations that fails has met only full groups.\<close>

definition full :: "balloc \<Rightarrow> nat \<Rightarrow> bool" where
  "full bs grp \<longleftrightarrow> (\<forall>i < bpg bs. s_bbitmap bs grp i)"

lemma full_rsv [simp]: "full (bs\<lparr>bs_rsv := rs\<rparr>) = full bs"
  by (simp add: full_def fun_eq_iff)

lemma other_groups_ok:
  assumes "balloc_ok h bs" and e: "calm e" and "grp < s_groups_count (bs_sbi bs)" and my: "my_rsv \<noteq> Some h"
    and "my_rsv \<noteq> None \<longrightarrow> 0 < num"
  shows "\<exists>bs' grp' num' ret. other_groups n e bs grp my_rsv wsz num = Some (bs', grp', num', Inr ret) \<and>
    found_ok bs h num bs' grp' num' ret \<and> (ret = None \<longrightarrow> my_rsv \<noteq> None \<longrightarrow> num' = num) \<and>
    (ret = None \<longrightarrow> my_rsv = None \<longrightarrow> (\<forall>k \<in> {1..n}. full bs ((grp + k) mod s_groups_count (bs_sbi bs))))"
  using assms(1,3,5)
proof (induction n arbitrary: bs grp num)
  case 0
  then show ?case using balloc_okD(4) [OF 0(1)] by (auto simp: found_ok_def intro!: exI [of _ "bs_rsv bs"])
next
  case (Suc n)
  let ?N = "s_groups_count (bs_sbi bs)"
  define g1 where "g1 = (if grp + 1 \<ge> ?N then 0 else grp + 1)"
  have g1: "g1 < ?N" "g1 = (grp + 1) mod ?N" using Suc.prems(2) by (auto simp: g1_def mod_Suc)
  note d = balloc_okD [OF Suc.prems(1)]
  have step: "(g1 + k) mod ?N = (grp + Suc k) mod ?N" for k unfolding g1(2) by (simp add: mod_add_left_eq)
  have unf: "other_groups (Suc n) e bs grp my_rsv wsz num =
      (if my_rsv \<noteq> None \<and> unat (bg_free_blocks_count (s_desc (bs_sbi bs) g1)) \<le> wsz div 2
       then other_groups n e bs g1 my_rsv wsz num
       else do {
         (bs, num, r) \<leftarrow> alloc_in_group e bs g1 None my_rsv num;
         (case r of
            Inl err \<Rightarrow> Some (bs, g1, num, Inl err)
          | Inr (Some g) \<Rightarrow> Some (bs, g1, num, Inr (Some g))
          | Inr None \<Rightarrow> other_groups n e bs g1 my_rsv wsz num)
       })"
    unfolding other_groups.simps Let_def g1_def [symmetric] d(5) [OF g1(1)] by (simp only: option.case)
  show ?case
  proof (cases "my_rsv \<noteq> None \<and> unat (bg_free_blocks_count (s_desc (bs_sbi bs) g1)) \<le> wsz div 2")
    case True
    then have "other_groups (Suc n) e bs grp my_rsv wsz num = other_groups n e bs g1 my_rsv wsz num"
      unfolding unf by (simp only: if_True simp_thms)
    then show ?thesis using Suc.IH [OF Suc.prems(1) g1(1) Suc.prems(3)] True by auto
  next
    case False
    from alloc_in_group_ok [OF Suc.prems(1) e g1(1) my _ Suc.prems(3), of None] obtain bs1 num1 ret1 where
      a: "alloc_in_group e bs g1 None my_rsv num = Some (bs1, num1, Inr ret1)" "found_ok bs h num bs1 g1 num1 ret1"
        "ret1 = None \<longrightarrow> my_rsv \<noteq> None \<longrightarrow> num1 = num" "ret1 = None \<longrightarrow> my_rsv = None \<longrightarrow> num1 = 0"
        "ret1 = None \<longrightarrow> my_rsv = None \<longrightarrow> (\<forall>i < bpg bs. s_bbitmap bs g1 i)" by (metis option.distinct(1))
    have u: "other_groups (Suc n) e bs grp my_rsv wsz num =
        (case ret1 of Some g \<Rightarrow> Some (bs1, g1, num1, Inr (Some g)) | None \<Rightarrow> other_groups n e bs1 g1 my_rsv wsz num1)"
      unfolding unf using False a(1) by (auto split: option.splits)
    show ?thesis
    proof (cases ret1)
      case (Some g)
      then show ?thesis using u a by auto
    next
      case None
      from a(2) None obtain rs where rs: "rsv_ok h rs" "bs1 = bs\<lparr>bs_rsv := rs\<rparr>" by (auto simp: found_ok_def)
      have b1: "balloc_ok h bs1" "g1 < s_groups_count (bs_sbi bs1)" "my_rsv \<noteq> None \<longrightarrow> 0 < num1"
        using balloc_ok_rsv [OF Suc.prems(1) rs(1)] rs(2) g1(1) a(3) None Suc.prems(3) by auto
      from Suc.IH [OF b1] obtain bs' grp' num' ret where
        i: "other_groups n e bs1 g1 my_rsv wsz num1 = Some (bs', grp', num', Inr ret)" "found_ok bs1 h num1 bs' grp' num' ret"
          "ret = None \<longrightarrow> my_rsv \<noteq> None \<longrightarrow> num' = num1"
          "ret = None \<longrightarrow> my_rsv = None \<longrightarrow> (\<forall>k \<in> {1..n}. full bs1 ((g1 + k) mod s_groups_count (bs_sbi bs1)))" by blast
      have "max 1 num1 \<le> max 1 num" using a(3,4) None by (cases my_rsv) auto
      then have "found_ok bs h num bs' grp' num' ret" using found_ok_mono found_ok_rsv i(2) rs(2) by blast
      moreover have "full bs ((grp + k) mod ?N)" if k: "ret = None" "my_rsv = None" "k \<in> {1..Suc n}" for k
      proof (cases "k = 1")
        case True
        then show ?thesis using a(5) None k g1(2) by (simp add: full_def)
      next
        case False
        then obtain j where j: "k = Suc j" "j \<in> {1..n}" using k(3) by (cases k) auto
        then have "full bs ((g1 + j) mod ?N)" using i(4) k(1,2) rs(2) by simp
        then show ?thesis unfolding step j(1) .
      qed
      ultimately show ?thesis using u None i(1,3) a(3) by auto
    qed
  qed
qed

lemma find_blocks_ok:
  assumes ok: "balloc_ok h bs" and e: "calm e" and grp: "grp < s_groups_count (bs_sbi bs)" and my: "my_rsv \<noteq> Some h"
    and num: "my_rsv \<noteq> None \<longrightarrow> 0 < num"
  obtains bs' grp' num' my' ret where "find_blocks e bs goal grp my_rsv wsz num = Some (bs', grp', num', my', Inr ret)"
    "found_ok bs h num bs' grp' num' ret" "my' = None \<or> my' = my_rsv" "ret = None \<longrightarrow> my' \<noteq> None \<longrightarrow> num' = num"
    "ret = None \<longrightarrow> my' = None \<longrightarrow> (\<forall>g < s_groups_count (bs_sbi bs). full bs g)"
proof -
  let ?N = "s_groups_count (bs_sbi bs)" and ?free = "unat (bg_free_blocks_count (s_desc (bs_sbi bs) grp))"
  note d = balloc_okD [OF ok]
  define my' where "my' = (case my_rsv of
      Some m \<Rightarrow> if ?free < wsz \<and> ?free > 0 \<and> rsv_is_empty (wins (bs_rsv bs) m) then None else my_rsv
    | None \<Rightarrow> None)"
  have m: "my' = None \<or> my' = my_rsv" "my' \<noteq> Some h" "my' \<noteq> None \<longrightarrow> 0 < num" using my num by (auto simp: my'_def split: option.splits)
  define g where "g = (goal - s_first_data_block bs) mod bpg bs"
  have g: "\<And>x. Some g = Some x \<Longrightarrow> x < bpg bs" using d(1) by (simp add: g_def)
  obtain bs1 num1 ret1 where f: "(if ?free > 0 then alloc_in_group e bs grp (Some g) my' num else Some (bs, num, Inr None)) = Some (bs1, num1, Inr ret1)"
    "found_ok bs h num bs1 grp num1 ret1" "ret1 = None \<longrightarrow> my' \<noteq> None \<longrightarrow> num1 = num" "max 1 num1 \<le> max 1 num \<or> ret1 \<noteq> None"
  proof (cases "?free > 0")
    case True
    from alloc_in_group_ok [OF ok e grp m(2) g m(3)] obtain bs1 num1 ret1 where
      "alloc_in_group e bs grp (Some g) my' num = Some (bs1, num1, Inr ret1)" "found_ok bs h num bs1 grp num1 ret1"
      "ret1 = None \<longrightarrow> my' \<noteq> None \<longrightarrow> num1 = num" "ret1 = None \<longrightarrow> my' = None \<longrightarrow> num1 = 0" by metis
    then show thesis using that True by (cases my') auto
  next
    case False
    have "found_ok bs h num bs grp num None" using d(4) by (auto simp: found_ok_def intro!: exI [of _ "bs_rsv bs"])
    then show thesis using that [of bs num None] False by simp
  qed
  have u: "find_blocks e bs goal grp my_rsv wsz num =
    (case ret1 of Some x \<Rightarrow> Some (bs1, grp, num1, my', Inr (Some x))
     | None \<Rightarrow> do { (bs, grp, num, r) \<leftarrow> other_groups (s_groups_count (bs_sbi bs1)) e bs1 grp my' wsz num1; Some (bs, grp, num, my', r) })"
    unfolding find_blocks_def d(5) [OF grp] using f(1) by (auto simp: Let_def my'_def [symmetric] g_def [symmetric] split: option.splits)
  show thesis
  proof (cases ret1)
    case (Some x)
    then show thesis using that u f m(1) by auto
  next
    case None
    from f(2) None obtain rs where rs: "rsv_ok h rs" "bs1 = bs\<lparr>bs_rsv := rs\<rparr>" by (auto simp: found_ok_def)
    have b1: "balloc_ok h bs1" "grp < s_groups_count (bs_sbi bs1)" "my' \<noteq> None \<longrightarrow> 0 < num1"
      using balloc_ok_rsv [OF ok rs(1)] rs(2) grp f(3) None m(3) by auto
    from other_groups_ok [OF b1(1) e b1(2) m(2) b1(3), of ?N wsz] obtain bs' grp' num' ret where
      i: "other_groups ?N e bs1 grp my' wsz num1 = Some (bs', grp', num', Inr ret)" "found_ok bs1 h num1 bs' grp' num' ret"
        "ret = None \<longrightarrow> my' \<noteq> None \<longrightarrow> num' = num1"
        "ret = None \<longrightarrow> my' = None \<longrightarrow> (\<forall>k \<in> {1..?N}. full bs1 ((grp + k) mod s_groups_count (bs_sbi bs1)))" by blast
    have "found_ok bs h num bs' grp' num' ret" using found_ok_mono found_ok_rsv i(2) rs(2) f(4) None by blast
    moreover have "full bs k" if "ret = None" "my' = None" "k < ?N" for k
    proof -
      let ?i = "(k + (?N - grp mod ?N)) mod ?N"
      have r: "(grp + ?i) mod ?N = k" using mod_reach [OF that(3)] .
      define j where "j = (if ?i = 0 then ?N else ?i)"
      have "j \<in> {1..?N}" "(grp + j) mod ?N = k" using r d(3) by (auto simp: j_def less_imp_le)
      then show ?thesis using i(4) that rs(2) by auto
    qed
    ultimately show thesis using that u None i(1,3) f(3) m(1) rs(2) by auto
  qed
qed

section \<open>The whole allocation\<close>

lemma zone_avoided:
  assumes no: "\<And>b. block \<le> b \<Longrightarrow> b < block + n \<Longrightarrow> \<not> not_for_files bs grp b" and "0 < n"
  shows "\<not> in_system_zone bs grp block n" "block + n - 1 < s_blocks_count (bs_sbi bs)"
proof -
  have i: "b \<noteq> bg_block_bitmap bs grp" "b \<noteq> bg_inode_bitmap bs grp" "\<not> in_range b (bg_inode_table bs grp) (s_itb_per_group bs)"
    "b < s_blocks_count (bs_sbi bs)" if "block \<le> b" "b < block + n" for b
    using no [OF that] by (auto simp: not_for_files_def)
  have out: "\<not> in_range b block n" if "b = bg_block_bitmap bs grp \<or> b = bg_inode_bitmap bs grp" for b
  proof
    assume "in_range b block n"
    then have "block \<le> b" "b < block + n" using assms(2) by (auto simp: in_range_def)
    then show False using that i(1,2) [of b] by blast
  qed
  show "\<not> in_system_zone bs grp block n"
    using out i(3) [of block] i(3) [of "block + n - 1"] assms(2) by (auto simp: in_system_zone_def)
  show "block + n - 1 < s_blocks_count (bs_sbi bs)" using i(4) [of "block + n - 1"] assms(2) by simp
qed

text \<open>A run of clear bits is not in the system zone and ends before the end of the device.\<close>

lemma run_for_files:
  assumes ok: "balloc_ok h bs" and grp: "grp < s_groups_count (bs_sbi bs)"
    and run: "clear_run (s_bbitmap bs grp) g num" "0 < num" "g + num \<le> bpg bs"
  shows "\<not> in_system_zone bs grp (g + ext2_group_first_block_no bs grp) num"
    "g + ext2_group_first_block_no bs grp + num - 1 < s_blocks_count (bs_sbi bs)"
proof -
  let ?f = "ext2_group_first_block_no bs grp"
  have no: "\<not> not_for_files bs grp b" if "g + ?f \<le> b" "b < g + ?f + num" for b
  proof
    assume "not_for_files bs grp b"
    moreover have "b = (b - ?f) + ?f" "b - ?f < bpg bs" "g \<le> b - ?f" "b - ?f < g + num" using that run(3) by auto
    ultimately show False using balloc_okD(7) [OF ok grp, of "b - ?f"] run(1) by (auto simp: clear_run_def)
  qed
  show "\<not> in_system_zone bs grp (g + ?f) num" "g + ?f + num - 1 < s_blocks_count (bs_sbi bs)"
    using zone_avoided [OF no run(2)] by blast+
qed

text \<open>The state after a run was taken and accounted for.\<close>

definition charged :: "balloc \<Rightarrow> nat \<Rightarrow> nat \<Rightarrow> nat \<Rightarrow> rsv_state \<Rightarrow> balloc" where
  "charged bs grp g num rs =
     (let bs' = group_adjust_blocks grp (- int num) ((taken bs grp g num)\<lparr>bs_rsv := rs\<rparr>)
      in bs'\<lparr>s_freeblocks_counter := s_freeblocks_counter bs' - int num\<rparr>)"

lemma charged_fields [simp]:
  "s_bbitmap (charged bs grp g num rs) = (s_bbitmap bs)(grp := marked (s_bbitmap bs grp) g num)"
  "s_freeblocks_counter (charged bs grp g num rs) = s_freeblocks_counter bs - int num"
  "s_first_data_block (charged bs grp g num rs) = s_first_data_block bs"
  "s_itb_per_group (charged bs grp g num rs) = s_itb_per_group bs"
  "bg_block_bitmap (charged bs grp g num rs) = bg_block_bitmap bs"
  "bg_inode_bitmap (charged bs grp g num rs) = bg_inode_bitmap bs"
  "bg_inode_table (charged bs grp g num rs) = bg_inode_table bs"
  "bs_rsv (charged bs grp g num rs) = rs"
  "s_groups_count (bs_sbi (charged bs grp g num rs)) = s_groups_count (bs_sbi bs)"
  "s_blocks_count (bs_sbi (charged bs grp g num rs)) = s_blocks_count (bs_sbi bs)"
  "bpg (charged bs grp g num rs) = bpg bs"
  "s_group_desc_loaded (bs_sbi (charged bs grp g num rs)) = s_group_desc_loaded (bs_sbi bs)"
  "s_desc_per_block_bits (bs_sbi (charged bs grp g num rs)) = s_desc_per_block_bits (bs_sbi bs)"
  by (simp_all add: charged_def taken_def group_adjust_blocks_def Let_def)

lemma charged_free:
  "bg_free_blocks_count (s_desc (bs_sbi (charged bs grp g num rs)) k) =
     (if k = grp then bg_free_blocks_count (s_desc (bs_sbi bs) k) - of_nat num else bg_free_blocks_count (s_desc (bs_sbi bs) k))"
  by (simp add: charged_def taken_def group_adjust_blocks_def Let_def)

lemma unat_minus_of_nat: "m \<le> unat (w :: 16 word) \<Longrightarrow> unat (w - of_nat m) = unat w - m"
  by (metis le_unat_uoi unat_sub word_le_nat_alt)

lemma charged_ok:
  assumes ok: "balloc_ok h bs" and grp: "grp < s_groups_count (bs_sbi bs)" and rs: "rsv_ok h rs"
    and run: "clear_run (s_bbitmap bs grp) g num" "g + num \<le> bpg bs"
  shows "balloc_ok h (charged bs grp g num rs)"
proof -
  let ?c = "charged bs grp g num rs"
  note d = balloc_okD [OF ok] and c = clear_count_marked [OF run]
  have "unat (bg_free_blocks_count (s_desc (bs_sbi ?c) k)) = clear_count (s_bbitmap ?c k) (bpg bs)"
    if "k < s_groups_count (bs_sbi bs)" for k
    using d(6) [OF that] c unat_minus_of_nat [of num "bg_free_blocks_count (s_desc (bs_sbi bs) grp)"] by (auto simp: charged_free)
  moreover have "s_bbitmap ?c k i" if "k < s_groups_count (bs_sbi bs)" "i < bpg bs" "not_for_files bs k (i + ext2_group_first_block_no bs k)" for k i
    using d(7) [OF that] by (auto simp: marked_def)
  ultimately show ?thesis using ok rs unfolding balloc_ok_def by (simp add: not_for_files_def ext2_group_first_block_no_def)
qed

lemma new_blocks_step:
  assumes ok: "balloc_ok h bs" and e: "calm e" and grp: "grp < s_groups_count (bs_sbi bs)" and my: "my_rsv \<noteq> Some h"
    and num: "my_rsv \<noteq> None \<longrightarrow> 0 < num"
  obtains (run) rs grp' g num' where "new_blocks_loop e bs goal gg grp my_rsv wsz num =
      Some (charged bs grp' g num' rs, Inr (g + ext2_group_first_block_no bs grp', num'))" "rsv_ok h rs"
      "grp' < s_groups_count (bs_sbi bs)" "0 < num'" "num' \<le> max 1 num" "g + num' \<le> bpg bs" "clear_run (s_bbitmap bs grp') g num'"
  | (again) rs where "new_blocks_loop e bs goal gg grp my_rsv wsz num = new_blocks_loop e (bs\<lparr>bs_rsv := rs\<rparr>) goal gg gg None 0 num"
      "rsv_ok h rs" "my_rsv \<noteq> None"
  | (nospace) rs where "new_blocks_loop e bs goal gg grp my_rsv wsz num = Some (bs\<lparr>bs_rsv := rs\<rparr>, Inl ENOSPC)" "rsv_ok h rs"
      "\<forall>g < s_groups_count (bs_sbi bs). full bs g"
proof -
  from find_blocks_ok [OF ok e grp my num, of goal wsz] obtain bs' grp' num' my' ret where
    f: "find_blocks e bs goal grp my_rsv wsz num = Some (bs', grp', num', my', Inr ret)" "found_ok bs h num bs' grp' num' ret"
      "my' = None \<or> my' = my_rsv" "ret = None \<longrightarrow> my' \<noteq> None \<longrightarrow> num' = num"
      "ret = None \<longrightarrow> my' = None \<longrightarrow> (\<forall>g < s_groups_count (bs_sbi bs). full bs g)" .
  show thesis
  proof (cases ret)
    case None
    with f(2) obtain rs where rs: "rsv_ok h rs" "bs' = bs\<lparr>bs_rsv := rs\<rparr>" by (auto simp: found_ok_def)
    show thesis
    proof (cases my')
      case None
      then have "new_blocks_loop e bs goal gg grp my_rsv wsz num = Some (bs', Inl ENOSPC)"
        using f(1) \<open>ret = None\<close> by (subst new_blocks_loop.simps) simp
      then show thesis using nospace rs f(5) None \<open>ret = None\<close> by blast
    next
      case (Some m)
      then have "new_blocks_loop e bs goal gg grp my_rsv wsz num = new_blocks_loop e bs' goal gg gg None 0 num'"
        using f(1) \<open>ret = None\<close> by (subst new_blocks_loop.simps) simp
      then show thesis using again rs f(3,4) Some \<open>ret = None\<close> by auto
    qed
  next
    case (Some g)
    with f(2) obtain rs where r: "rsv_ok h rs" "grp' < s_groups_count (bs_sbi bs)" "0 < num'" "num' \<le> max 1 num" "g + num' \<le> bpg bs"
      "clear_run (s_bbitmap bs grp') g num'" "bs' = (taken bs grp' g num')\<lparr>bs_rsv := rs\<rparr>" by (auto simp: found_ok_def)
    note z = run_for_files [OF ok r(2,6,3,5)]
    have "\<not> in_system_zone bs' grp' (g + ext2_group_first_block_no bs grp') num'" "ext2_group_first_block_no bs' grp' = ext2_group_first_block_no bs grp'"
      "s_blocks_count (bs_sbi bs') = s_blocks_count (bs_sbi bs)"
      using z(1) r(7) by (simp_all add: in_system_zone_def taken_def ext2_group_first_block_no_def)
    then have "new_blocks_loop e bs goal gg grp my_rsv wsz num =
      Some (charged bs grp' g num' rs, Inr (g + ext2_group_first_block_no bs grp', num'))"
      using f(1) Some z(2) r(7) by (subst new_blocks_loop.simps) (simp add: Let_def charged_def)
    then show thesis using run r by blast
  qed
qed

text \<open>What the allocation of up to \<open>count\<close> blocks does.\<close>

definition allocated :: "nat \<Rightarrow> balloc \<Rightarrow> nat \<Rightarrow> (balloc \<times> (errno + nat \<times> nat)) option \<Rightarrow> bool" where
  "allocated h bs count res \<longleftrightarrow>
     (\<exists>rs. rsv_ok h rs \<and>
       (if \<forall>g < s_groups_count (bs_sbi bs). full bs g then res = Some (bs\<lparr>bs_rsv := rs\<rparr>, Inl ENOSPC)
        else \<exists>grp g num. res = Some (charged bs grp g num rs, Inr (g + ext2_group_first_block_no bs grp, num)) \<and>
          grp < s_groups_count (bs_sbi bs) \<and> 0 < num \<and> num \<le> count \<and> g + num \<le> bpg bs \<and> clear_run (s_bbitmap bs grp) g num))"

lemma run_not_full: "clear_run (s_bbitmap bs grp) g num \<Longrightarrow> 0 < num \<Longrightarrow> g + num \<le> bpg bs \<Longrightarrow> \<not> full bs grp"
  by (auto simp: clear_run_def full_def intro!: exI [of _ g])

lemma allocated_run:
  assumes "rsv_ok h rs" "grp < s_groups_count (bs_sbi bs)" "0 < num" "num \<le> count" "g + num \<le> bpg bs" "clear_run (s_bbitmap bs grp) g num"
  shows "allocated h bs count (Some (charged bs grp g num rs, Inr (g + ext2_group_first_block_no bs grp, num)))"
  using assms run_not_full [OF assms(6,3,5)] unfolding allocated_def by (intro exI [of _ rs]) auto

lemma allocated_none: "rsv_ok h rs \<Longrightarrow> \<forall>g < s_groups_count (bs_sbi bs). full bs g \<Longrightarrow> allocated h bs count (Some (bs\<lparr>bs_rsv := rs\<rparr>, Inl ENOSPC))"
  unfolding allocated_def by (intro exI [of _ rs]) simp

lemma allocated_rsv:
  assumes "allocated h (bs\<lparr>bs_rsv := rs1\<rparr>) count res"
  shows "allocated h bs count res"
proof -
  have c: "charged (bs\<lparr>bs_rsv := rs1\<rparr>) grp g num rs = charged bs grp g num rs" for grp g num rs
    by (simp add: charged_def taken_def group_adjust_blocks_def Let_def)
  have f: "ext2_group_first_block_no (bs\<lparr>bs_rsv := rs1\<rparr>) grp = ext2_group_first_block_no bs grp" for grp
    by (simp add: ext2_group_first_block_no_def)
  have r: "bs_sbi (bs\<lparr>bs_rsv := rs1\<rparr>) = bs_sbi bs" "s_bbitmap (bs\<lparr>bs_rsv := rs1\<rparr>) = s_bbitmap bs" "bs\<lparr>bs_rsv := rs1, bs_rsv := rs\<rparr> = bs\<lparr>bs_rsv := rs\<rparr>" for rs
    by simp_all
  show ?thesis using assms unfolding allocated_def c f full_rsv r .
qed

lemma new_blocks_loop_ok:
  assumes ok: "balloc_ok h bs" and e: "calm e" and grp: "grp < s_groups_count (bs_sbi bs)" and gg: "gg < s_groups_count (bs_sbi bs)"
    and my: "my_rsv \<noteq> Some h" and num: "0 < num"
  shows "allocated h bs num (new_blocks_loop e bs goal gg grp my_rsv wsz num)"
proof -
  have pos: "max 1 num = num" and p: "my_rsv \<noteq> None \<longrightarrow> 0 < num" using num by simp_all
  from ok e grp my p show ?thesis
  proof (cases rule: new_blocks_step [where goal = goal and gg = gg and wsz = wsz])
    case (run rs grp' g num')
    then show ?thesis using allocated_run pos by simp
  next
    case (nospace rs)
    then show ?thesis using allocated_none by simp
  next
    case (again rs)
    have ok1: "balloc_ok h (bs\<lparr>bs_rsv := rs\<rparr>)" and gg1: "gg < s_groups_count (bs_sbi (bs\<lparr>bs_rsv := rs\<rparr>))"
      using balloc_ok_rsv [OF ok again(2)] gg by simp_all
    have "allocated h (bs\<lparr>bs_rsv := rs\<rparr>) num (new_blocks_loop e (bs\<lparr>bs_rsv := rs\<rparr>) goal gg gg None 0 num)"
    proof (rule new_blocks_step [OF ok1 e gg1, of None num goal gg 0])
      fix rs1
      assume "new_blocks_loop e (bs\<lparr>bs_rsv := rs\<rparr>) goal gg gg None 0 num = Some (bs\<lparr>bs_rsv := rs, bs_rsv := rs1\<rparr>, Inl ENOSPC)" "rsv_ok h rs1"
        "\<forall>g < s_groups_count (bs_sbi (bs\<lparr>bs_rsv := rs\<rparr>)). full (bs\<lparr>bs_rsv := rs\<rparr>) g"
      then show ?thesis using allocated_none [of h rs1 "bs\<lparr>bs_rsv := rs\<rparr>"] by simp
    qed (use pos in \<open>simp_all add: allocated_run\<close>)
    then show ?thesis unfolding again(1) by (rule allocated_rsv)
  qed
qed

lemma new_blocks_allocated:
  assumes ok: "balloc_ok h bs" and e: "calm e" and free: "ext2_has_free_blocks e bs" and my: "block_i \<noteq> Some h" and num: "0 < count"
  shows "allocated h bs count (ext2_new_blocks e bs block_i goal count)"
proof -
  note d = balloc_okD [OF ok]
  define wsz where "wsz = (case block_i of None \<Rightarrow> 0 | Some my \<Rightarrow> rsv_goal_size (wins (bs_rsv bs) my) mod 2 ^ 16)"
  define goal1 where "goal1 = (if goal < s_first_data_block bs \<or> goal \<ge> s_blocks_count (bs_sbi bs) then s_first_data_block bs else goal)"
  define grp where "grp = (goal1 - s_first_data_block bs) div bpg bs"
  have grp: "grp < s_groups_count (bs_sbi bs)" unfolding grp_def by (rule group_bound [OF ok]) (simp add: goal1_def)
  have "ext2_new_blocks e bs block_i goal count = new_blocks_loop e bs goal1 grp grp (if wsz > 0 then block_i else None) wsz count"
    unfolding ext2_new_blocks_def wsz_def [symmetric] goal1_def [symmetric] grp_def [symmetric] Let_def
    using e free d(1) by (simp add: calm_def)
  then show ?thesis using new_blocks_loop_ok [OF ok e grp grp _ num] my by simp
qed

section \<open>Blocks of the device\<close>

text \<open>The bitmaps together are a set of blocks in use. Block \<open>b\<close> has a group and a bit there.\<close>

abbreviation group_of :: "balloc \<Rightarrow> nat \<Rightarrow> nat" where "group_of bs b \<equiv> (b - s_first_data_block bs) div bpg bs"
abbreviation bit_of :: "balloc \<Rightarrow> nat \<Rightarrow> nat" where "bit_of bs b \<equiv> (b - s_first_data_block bs) mod bpg bs"

definition block_used :: "balloc \<Rightarrow> nat \<Rightarrow> bool" where
  "block_used bs b \<longleftrightarrow> s_bbitmap bs (group_of bs b) (bit_of bs b)"

lemma block_place: "i < bpg bs \<Longrightarrow> group_of bs (i + ext2_group_first_block_no bs grp) = grp \<and> bit_of bs (i + ext2_group_first_block_no bs grp) = i"
  by (simp add: ext2_group_first_block_no_def add.assoc [symmetric])

lemma block_number: "s_first_data_block bs \<le> b \<Longrightarrow> bit_of bs b + ext2_group_first_block_no bs (group_of bs b) = b"
  using div_mult_mod_eq [of "b - s_first_data_block bs" "bpg bs"] by (simp add: ext2_group_first_block_no_def add.commute add.left_commute)

text \<open>Setting or clearing bits of a group sets or clears a run of blocks.\<close>

lemma block_in_run:
  assumes "s_first_data_block bs \<le> b" "0 < bpg bs" "g + num \<le> bpg bs"
  shows "g + ext2_group_first_block_no bs grp \<le> b \<and> b < g + ext2_group_first_block_no bs grp + num \<longleftrightarrow>
    group_of bs b = grp \<and> g \<le> bit_of bs b \<and> bit_of bs b < g + num" (is "?run \<longleftrightarrow> ?bits")
proof
  assume ?run
  then obtain i where i: "b = i + ext2_group_first_block_no bs grp" "g \<le> i" "i < g + num"
    by (intro that [of "b - ext2_group_first_block_no bs grp"]) auto
  then show ?bits using block_place [of i bs grp] assms(3) by auto
next
  assume ?bits
  then show ?run using block_number [OF assms(1)] by auto
qed

lemma full_used:
  assumes ok: "balloc_ok h bs"
  shows "(\<forall>g < s_groups_count (bs_sbi bs). full bs g) \<longleftrightarrow> (\<forall>b. s_first_data_block bs \<le> b \<longrightarrow> b < s_blocks_count (bs_sbi bs) \<longrightarrow> block_used bs b)"
    (is "?full \<longleftrightarrow> ?used")
proof
  note d = balloc_okD [OF ok]
  assume full: ?full
  show ?used
  proof (intro allI impI)
    fix b assume b: "s_first_data_block bs \<le> b" "b < s_blocks_count (bs_sbi bs)"
    then have "group_of bs b < s_groups_count (bs_sbi bs)" using group_bound [OF ok] by blast
    then show "block_used bs b" using full d(1) by (simp add: full_def block_used_def)
  qed
next
  note d = balloc_okD [OF ok]
  assume used: ?used
  have "s_bbitmap bs g i" if "g < s_groups_count (bs_sbi bs)" "i < bpg bs" for g i
  proof (cases "i + ext2_group_first_block_no bs g < s_blocks_count (bs_sbi bs)")
    case True
    moreover have "s_first_data_block bs \<le> i + ext2_group_first_block_no bs g" by (simp add: ext2_group_first_block_no_def)
    ultimately have "block_used bs (i + ext2_group_first_block_no bs g)" using used by blast
    then show ?thesis using block_place [OF that(2), of g] by (simp add: block_used_def)
  next
    case False
    then show ?thesis using d(7) [OF that] by (simp add: not_for_files_def)
  qed
  then show ?full by (simp add: full_def)
qed

section \<open>Freeing\<close>

lemma clear_bits_ok:
  "clear_bits b n bm = (\<lambda>i. bm i \<and> \<not> (b \<le> i \<and> i < b + n), card {i \<in> {b..<b + n}. bm i})"
proof (induction n arbitrary: b bm)
  case (Suc n)
  have "{i \<in> {b..<b + Suc n}. bm i} = (if bm b then {b} else {}) \<union> {i \<in> {b + 1..<b + 1 + n}. (bm(b := False)) i}"
    by (auto simp: less_Suc_eq_le le_less)
  then have "card {i \<in> {b..<b + Suc n}. bm i} = (if bm b then 1 else 0) + card {i \<in> {b + 1..<b + 1 + n}. (bm(b := False)) i}"
    by simp
  moreover have "(\<lambda>i. (bm(b := False)) i \<and> \<not> (b + 1 \<le> i \<and> i < b + 1 + n)) = (\<lambda>i. bm i \<and> \<not> (b \<le> i \<and> i < b + Suc n))"
    by (auto simp: fun_eq_iff le_less Suc_le_eq)
  ultimately show ?case by (simp add: Suc.IH)
qed simp

lemma clear_count_cleared:
  assumes "b + n \<le> m"
  shows "clear_count (\<lambda>i. bm i \<and> \<not> (b \<le> i \<and> i < b + n)) m = clear_count bm m + card {i \<in> {b..<b + n}. bm i}"
proof -
  have "{i. i < m \<and> \<not> (bm i \<and> \<not> (b \<le> i \<and> i < b + n))} = {i. i < m \<and> \<not> bm i} \<union> {i \<in> {b..<b + n}. bm i}" using assms by auto
  moreover have "{i. i < m \<and> \<not> bm i} \<inter> {i \<in> {b..<b + n}. bm i} = {}" by auto
  ultimately show ?thesis unfolding clear_count_def by (simp add: card_Un_disjoint)
qed

lemma clear_count_le: "clear_count bm n \<le> n"
  using card_mono [of "{..<n}" "{i. i < n \<and> \<not> bm i}"] by (auto simp: clear_count_def)

lemma unat_plus_of_nat: "unat w + m < 2 ^ 16 \<Longrightarrow> unat (w + of_nat m) = unat w + m" for w :: "16 word"
  by (simp add: unat_word_ariths unat_of_nat take_bit_eq_mod)

text \<open>The state after the bits \<open>bit\<close> to \<open>bit + n - 1\<close> of a group were cleared.\<close>

definition freed_in :: "balloc \<Rightarrow> nat \<Rightarrow> nat \<Rightarrow> nat \<Rightarrow> balloc" where
  "freed_in bs grp b n = group_adjust_blocks grp (int (card {i \<in> {b..<b + n}. s_bbitmap bs grp i}))
     (bs\<lparr>s_bbitmap := (s_bbitmap bs)(grp := (\<lambda>i. s_bbitmap bs grp i \<and> \<not> (b \<le> i \<and> i < b + n)))\<rparr>)"

lemma freed_in_fields [simp]:
  "s_bbitmap (freed_in bs grp b n) = (s_bbitmap bs)(grp := (\<lambda>i. s_bbitmap bs grp i \<and> \<not> (b \<le> i \<and> i < b + n)))"
  "s_freeblocks_counter (freed_in bs grp b n) = s_freeblocks_counter bs"
  "s_first_data_block (freed_in bs grp b n) = s_first_data_block bs"
  "s_itb_per_group (freed_in bs grp b n) = s_itb_per_group bs"
  "bg_block_bitmap (freed_in bs grp b n) = bg_block_bitmap bs"
  "bg_inode_bitmap (freed_in bs grp b n) = bg_inode_bitmap bs"
  "bg_inode_table (freed_in bs grp b n) = bg_inode_table bs"
  "bs_rsv (freed_in bs grp b n) = bs_rsv bs"
  "s_groups_count (bs_sbi (freed_in bs grp b n)) = s_groups_count (bs_sbi bs)"
  "s_blocks_count (bs_sbi (freed_in bs grp b n)) = s_blocks_count (bs_sbi bs)"
  "bpg (freed_in bs grp b n) = bpg bs"
  "s_group_desc_loaded (bs_sbi (freed_in bs grp b n)) = s_group_desc_loaded (bs_sbi bs)"
  "s_desc_per_block_bits (bs_sbi (freed_in bs grp b n)) = s_desc_per_block_bits (bs_sbi bs)"
  "ext2_group_first_block_no (freed_in bs grp b n) = ext2_group_first_block_no bs"
  "not_for_files (freed_in bs grp b n) = not_for_files bs"
  by (simp_all add: freed_in_def group_adjust_blocks_def Let_def ext2_group_first_block_no_def not_for_files_def fun_eq_iff)

lemma freed_in_free:
  "bg_free_blocks_count (s_desc (bs_sbi (freed_in bs grp b n)) k) =
     (if k = grp then bg_free_blocks_count (s_desc (bs_sbi bs) k) + of_nat (card {i \<in> {b..<b + n}. s_bbitmap bs grp i})
      else bg_free_blocks_count (s_desc (bs_sbi bs) k))"
proof -
  have "bg_free_blocks_count (s_desc (bs_sbi (group_adjust_blocks grp (int m) bs)) k) =
      (if k = grp then bg_free_blocks_count (s_desc (bs_sbi bs) k) + of_nat m else bg_free_blocks_count (s_desc (bs_sbi bs) k))" for m bs
    by (simp add: group_adjust_blocks_def Let_def)
  then show ?thesis unfolding freed_in_def by simp
qed

lemma freed_in_ok:
  assumes ok: "balloc_ok h bs" and grp: "grp < s_groups_count (bs_sbi bs)" and n: "b + n \<le> bpg bs"
    and data: "\<And>i. b \<le> i \<Longrightarrow> i < b + n \<Longrightarrow> \<not> not_for_files bs grp (i + ext2_group_first_block_no bs grp)"
  shows "balloc_ok h (freed_in bs grp b n)"
proof -
  let ?f = "freed_in bs grp b n"
  note d = balloc_okD [OF ok]
  have "unat (bg_free_blocks_count (s_desc (bs_sbi ?f) k)) = clear_count (s_bbitmap ?f k) (bpg bs)" if "k < s_groups_count (bs_sbi bs)" for k
  proof (cases "k = grp")
    case True
    have "clear_count (s_bbitmap ?f k) (bpg bs) = unat (bg_free_blocks_count (s_desc (bs_sbi bs) k)) + card {i \<in> {b..<b + n}. s_bbitmap bs grp i}"
      using clear_count_cleared [OF n, of "s_bbitmap bs grp"] d(6) [OF grp] True by simp
    moreover from this have "unat (bg_free_blocks_count (s_desc (bs_sbi bs) k)) + card {i \<in> {b..<b + n}. s_bbitmap bs grp i} < 2 ^ 16"
      using clear_count_le [of "s_bbitmap ?f k" "bpg bs"] d(2) by linarith
    ultimately show ?thesis using unat_plus_of_nat True by (simp add: freed_in_free)
  qed (use d(6) [OF that] in \<open>simp add: freed_in_free\<close>)
  moreover have "s_bbitmap ?f k i" if "k < s_groups_count (bs_sbi bs)" "i < bpg bs" "not_for_files bs k (i + ext2_group_first_block_no bs k)" for k i
    using d(7) [OF that] data [of i] that(3) by auto
  ultimately show ?thesis using ok unfolding balloc_ok_def by simp
qed

lemma freed_in_used:
  assumes "s_first_data_block bs \<le> x" "0 < bpg bs" "b + n \<le> bpg bs"
  shows "block_used (freed_in bs grp b n) x \<longleftrightarrow>
    block_used bs x \<and> \<not> (b + ext2_group_first_block_no bs grp \<le> x \<and> x < b + ext2_group_first_block_no bs grp + n)"
  unfolding block_in_run [OF assms] by (auto simp: block_used_def)

text \<open>The number of set bits is the number of blocks in use.\<close>

lemma bits_used:
  assumes "0 < bpg bs" "b + n \<le> bpg bs"
  shows "card {i \<in> {b..<b + n}. s_bbitmap bs grp i} =
    card {x \<in> {b + ext2_group_first_block_no bs grp..<b + ext2_group_first_block_no bs grp + n}. block_used bs x}"
proof (rule bij_betw_same_card [of "\<lambda>i. i + ext2_group_first_block_no bs grp"])
  let ?f = "ext2_group_first_block_no bs grp"
  have u: "block_used bs (i + ?f) = s_bbitmap bs grp i" if "i < b + n" for i
    using block_place [of i bs grp] that assms(2) by (simp add: block_used_def)
  show "bij_betw (\<lambda>i. i + ?f) {i \<in> {b..<b + n}. s_bbitmap bs grp i} {x \<in> {b + ?f..<b + ?f + n}. block_used bs x}"
    unfolding bij_betw_def
  proof (intro conjI equalityI subsetI)
    fix x assume "x \<in> {x \<in> {b + ?f..<b + ?f + n}. block_used bs x}"
    then have "x = (x - ?f) + ?f" "x - ?f \<in> {i \<in> {b..<b + n}. s_bbitmap bs grp i}" using u [of "x - ?f"] by auto
    then show "x \<in> (\<lambda>i. i + ?f) ` {i \<in> {b..<b + n}. s_bbitmap bs grp i}" by blast
  qed (use u in auto)
qed

text \<open>Blocks for files: on the device, and not in the system zone of their group.\<close>

definition for_files :: "balloc \<Rightarrow> nat \<Rightarrow> bool" where
  "for_files bs b \<longleftrightarrow> s_first_data_block bs \<le> b \<and> \<not> not_for_files bs (group_of bs b) b"

lemma free_loop_ok:
  assumes "balloc_ok h bs" and rd: "\<forall>g. rd g" and "\<forall>x \<in> {block..<block + count}. for_files bs x" and "0 < count"
  shows "\<exists>bs'. free_loop rd bs block count freed = Some (bs', freed + card {x \<in> {block..<block + count}. block_used bs x}) \<and>
    balloc_ok h bs' \<and> s_freeblocks_counter bs' = s_freeblocks_counter bs \<and> bs_rsv bs' = bs_rsv bs \<and> s_first_data_block bs' = s_first_data_block bs \<and> for_files bs' = for_files bs \<and>
    (\<forall>x \<ge> s_first_data_block bs. block_used bs' x \<longleftrightarrow> block_used bs x \<and> x \<notin> {block..<block + count})"
  using assms(1,3,4)
proof (induction count arbitrary: bs block freed rule: less_induct)
  case (less count)
  note d = balloc_okD [OF less.prems(1)]
  let ?g = "group_of bs block" and ?b = "bit_of bs block"
  define over where "over = (if ?b + count > bpg bs then ?b + count - bpg bs else 0)"
  define n where "n = count - over"
  have n: "0 < n" "?b + n \<le> bpg bs" "count = n + over" "over < count" "over \<noteq> 0 \<Longrightarrow> ?b + n = bpg bs"
    using d(1) less.prems(3) mod_less_divisor [OF d(1), of "block - s_first_data_block bs"] by (auto simp: n_def over_def)
  let ?bs = "freed_in bs ?g ?b n"
  have fdb: "s_first_data_block bs \<le> block" using less.prems(2,3) by (auto simp: for_files_def)
  have blk: "?b + ext2_group_first_block_no bs ?g = block" by (rule block_number [OF fdb])
  have grp: "?g < s_groups_count (bs_sbi bs)"
  proof -
    have "for_files bs block" using less.prems(2,3) by simp
    then have "block < s_blocks_count (bs_sbi bs)" by (simp add: for_files_def not_for_files_def)
    then show ?thesis using group_bound [OF less.prems(1)] by blast
  qed
  have here: "group_of bs x = ?g" if "block \<le> x" "x < block + n" for x
    using block_in_run [of bs x ?b n ?g] that fdb d(1) n(2) blk by simp
  have data: "\<not> not_for_files bs ?g x" if "block \<le> x" "x < block + n" for x
  proof -
    have "for_files bs x" using less.prems(2) that n(3) by simp
    then show ?thesis by (simp add: for_files_def here [OF that])
  qed
  have zone: "\<not> in_system_zone bs ?g block n" by (rule zone_avoided(1) [OF data n(1)])
  have ok: "balloc_ok h ?bs" by (rule freed_in_ok [OF less.prems(1) grp n(2)]) (use data blk in force)
  have used: "block_used ?bs x \<longleftrightarrow> block_used bs x \<and> x \<notin> {block..<block + n}" if "s_first_data_block bs \<le> x" for x
    using freed_in_used [OF that d(1) n(2), of ?g] blk by auto
  have ffs: "for_files ?bs = for_files bs" by (simp add: for_files_def fun_eq_iff)
  let ?f = "freed + card {x \<in> {block..<block + n}. block_used bs x}"
  have "read_block_bitmap rd bs ?g = Some (s_bbitmap bs ?g)" using d(5) [OF grp] rd by (simp add: read_block_bitmap_def)
  then have unf: "free_loop rd bs block count freed = (if over \<noteq> 0 then free_loop rd ?bs (block + n) over ?f else Some (?bs, ?f))"
    using d(1) zone bits_used [OF d(1) n(2), of ?g] blk unfolding over_def [symmetric] n_def [symmetric]
    by (subst free_loop.simps) (simp add: Let_def over_def [symmetric] n_def [symmetric] clear_bits_ok freed_in_def)
  show ?case
  proof (cases "over = 0")
    case True
    then show ?thesis using unf ok used n(3) ffs by simp
  next
    case False
    have ff: "\<forall>x \<in> {block + n..<block + n + over}. for_files ?bs x" using less.prems(2) n(3) unfolding ffs by simp
    from less.IH [OF n(4) ok ff, of ?f] False obtain bs' where
      i: "free_loop rd ?bs (block + n) over ?f = Some (bs', ?f + card {x \<in> {block + n..<block + n + over}. block_used ?bs x})"
        "balloc_ok h bs'" "s_freeblocks_counter bs' = s_freeblocks_counter bs" "bs_rsv bs' = bs_rsv bs" "s_first_data_block bs' = s_first_data_block bs" "for_files bs' = for_files bs"
        "\<forall>x \<ge> s_first_data_block bs. block_used bs' x \<longleftrightarrow> block_used ?bs x \<and> x \<notin> {block + n..<block + n + over}" by (auto simp: ffs)
    have "{x \<in> {block..<block + count}. block_used bs x} = {x \<in> {block..<block + n}. block_used bs x} \<union> {x \<in> {block + n..<block + n + over}. block_used ?bs x}"
      using used fdb n(3) by auto
    then have "card {x \<in> {block..<block + count}. block_used bs x} =
        card {x \<in> {block..<block + n}. block_used bs x} + card {x \<in> {block + n..<block + n + over}. block_used ?bs x}"
      by (simp add: card_Un_disjoint disjoint_iff)
    then have "free_loop rd bs block count freed = Some (bs', freed + card {x \<in> {block..<block + count}. block_used bs x})"
      using unf False i(1) by simp
    moreover have "\<forall>x \<ge> s_first_data_block bs. block_used bs' x \<longleftrightarrow> block_used bs x \<and> x \<notin> {block..<block + count}"
      using i(7) used n(3) by auto
    ultimately show ?thesis using i(2-6) by blast
  qed
qed

lemma free_blocks_ok:
  assumes ok: "balloc_ok h bs" and rd: "\<forall>g. rd g" and data: "\<forall>x \<in> {block..<block + count}. for_files bs x" and "0 < count"
  obtains bs' where "ext2_free_blocks rd bs block count = Some bs'" "balloc_ok h bs'"
    "s_freeblocks_counter bs' = s_freeblocks_counter bs + int (card {x \<in> {block..<block + count}. block_used bs x})"
    "\<forall>x \<ge> s_first_data_block bs. block_used bs' x \<longleftrightarrow> block_used bs x \<and> x \<notin> {block..<block + count}"
    "s_first_data_block bs' = s_first_data_block bs" "for_files bs' = for_files bs" "bs_rsv bs' = bs_rsv bs"
proof -
  from free_loop_ok [OF assms, of 0] obtain bs1 where
    f: "free_loop rd bs block count 0 = Some (bs1, card {x \<in> {block..<block + count}. block_used bs x})" "balloc_ok h bs1"
      "s_freeblocks_counter bs1 = s_freeblocks_counter bs" "\<forall>x \<ge> s_first_data_block bs. block_used bs1 x \<longleftrightarrow> block_used bs x \<and> x \<notin> {block..<block + count}"
      "s_first_data_block bs1 = s_first_data_block bs" "for_files bs1 = for_files bs" "bs_rsv bs1 = bs_rsv bs"
    by auto
  let ?n = "card {x \<in> {block..<block + count}. block_used bs x}"
  have "for_files bs block" "for_files bs (block + count - 1)" using data assms(4) by auto
  then have "\<not> (block < s_first_data_block bs \<or> block + count > s_blocks_count (bs_sbi bs))" by (auto simp: for_files_def not_for_files_def)
  then have "ext2_free_blocks rd bs block count = Some (release_blocks ?n bs1)" using f(1) by (simp add: ext2_free_blocks_def)
  moreover have "balloc_ok h (release_blocks m bs1)" for m
    using f(2) by (simp add: release_blocks_def balloc_ok_def ext2_group_first_block_no_def not_for_files_def)
  moreover have "s_freeblocks_counter (release_blocks m bs1) = s_freeblocks_counter bs + int m" for m using f(3) by (simp add: release_blocks_def)
  moreover have "block_used (release_blocks m bs1) = block_used bs1" for m by (simp add: release_blocks_def block_used_def fun_eq_iff)
  moreover have "s_first_data_block (release_blocks m bs1) = s_first_data_block bs" "bs_rsv (release_blocks m bs1) = bs_rsv bs" for m
    using f(5,7) by (simp_all add: release_blocks_def)
  moreover have "for_files (release_blocks m bs1) = for_files bs" for m
    unfolding f(6) [symmetric] by (simp add: release_blocks_def for_files_def not_for_files_def fun_eq_iff)
  ultimately show thesis using that f(4) by simp
qed

section \<open>Allocating as a change of the set of blocks in use\<close>

lemma charged_run:
  assumes ok: "balloc_ok h bs" and grp: "grp < s_groups_count (bs_sbi bs)" and run: "clear_run (s_bbitmap bs grp) g num" "g + num \<le> bpg bs"
  defines "block \<equiv> g + ext2_group_first_block_no bs grp"
  shows "\<forall>x \<in> {block..<block + num}. for_files bs x \<and> \<not> block_used bs x"
    "\<forall>x \<ge> s_first_data_block bs. block_used (charged bs grp g num rs) x \<longleftrightarrow> block_used bs x \<or> x \<in> {block..<block + num}"
proof -
  note d = balloc_okD [OF ok]
  have fdb: "s_first_data_block bs \<le> block" by (simp add: block_def ext2_group_first_block_no_def)
  have place: "x \<in> {block..<block + num} \<longleftrightarrow> group_of bs x = grp \<and> g \<le> bit_of bs x \<and> bit_of bs x < g + num" if "s_first_data_block bs \<le> x" for x
    using block_in_run [OF that d(1) run(2), of grp] by (simp add: block_def)
  show "\<forall>x \<in> {block..<block + num}. for_files bs x \<and> \<not> block_used bs x"
  proof
    fix x assume x: "x \<in> {block..<block + num}"
    then have ge: "s_first_data_block bs \<le> x" using fdb by simp
    from x place [OF ge] have p: "group_of bs x = grp" "g \<le> bit_of bs x" "bit_of bs x < g + num" by blast+
    then have "\<not> s_bbitmap bs grp (bit_of bs x)" using run(1) by (simp add: clear_run_def)
    moreover have "bit_of bs x < bpg bs" using d(1) by simp
    ultimately have "\<not> not_for_files bs grp x" using d(7) [OF grp] block_number [OF ge] p(1) by metis
    then show "for_files bs x \<and> \<not> block_used bs x"
      using ge p(1) \<open>\<not> s_bbitmap bs grp (bit_of bs x)\<close> by (simp add: for_files_def block_used_def)
  qed
  show "\<forall>x \<ge> s_first_data_block bs. block_used (charged bs grp g num rs) x \<longleftrightarrow> block_used bs x \<or> x \<in> {block..<block + num}"
    using place by (auto simp: block_used_def marked_def)
qed

lemma new_blocks_run:
  assumes ok: "balloc_ok h bs" and e: "calm e" and free: "ext2_has_free_blocks e bs" and my: "block_i \<noteq> Some h" and num: "0 < count"
  obtains (nospace) bs' where "ext2_new_blocks e bs block_i goal count = Some (bs', Inl ENOSPC)" "balloc_ok h bs'"
      "\<exists>rs. bs' = bs\<lparr>bs_rsv := rs\<rparr>"
      "\<forall>b. s_first_data_block bs \<le> b \<longrightarrow> b < s_blocks_count (bs_sbi bs) \<longrightarrow> block_used bs b"
  | (run) bs' block num where "ext2_new_blocks e bs block_i goal count = Some (bs', Inr (block, num))" "balloc_ok h bs'"
      "0 < num" "num \<le> count" "\<forall>b \<in> {block..<block + num}. for_files bs b \<and> \<not> block_used bs b"
      "\<forall>b \<ge> s_first_data_block bs. block_used bs' b \<longleftrightarrow> block_used bs b \<or> b \<in> {block..<block + num}"
      "s_freeblocks_counter bs' = s_freeblocks_counter bs - int num"
      "s_first_data_block bs' = s_first_data_block bs" "for_files bs' = for_files bs"
proof -
  from new_blocks_allocated [OF assms, of goal] obtain rs where rs: "rsv_ok h rs"
    "if \<forall>g < s_groups_count (bs_sbi bs). full bs g then ext2_new_blocks e bs block_i goal count = Some (bs\<lparr>bs_rsv := rs\<rparr>, Inl ENOSPC)
     else \<exists>grp g num. ext2_new_blocks e bs block_i goal count = Some (charged bs grp g num rs, Inr (g + ext2_group_first_block_no bs grp, num)) \<and>
          grp < s_groups_count (bs_sbi bs) \<and> 0 < num \<and> num \<le> count \<and> g + num \<le> bpg bs \<and> clear_run (s_bbitmap bs grp) g num"
    unfolding allocated_def by blast
  show thesis
  proof (cases "\<forall>g < s_groups_count (bs_sbi bs). full bs g")
    case True
    then have "ext2_new_blocks e bs block_i goal count = Some (bs\<lparr>bs_rsv := rs\<rparr>, Inl ENOSPC)" using rs(2) by (simp only: if_True simp_thms)
    moreover have "\<exists>rs1. bs\<lparr>bs_rsv := rs\<rparr> = bs\<lparr>bs_rsv := rs1\<rparr>" by blast
    ultimately show thesis using nospace balloc_ok_rsv [OF ok rs(1)] full_used [OF ok] True by blast
  next
    case False
    then obtain grp g num where r: "ext2_new_blocks e bs block_i goal count = Some (charged bs grp g num rs, Inr (g + ext2_group_first_block_no bs grp, num))"
      "grp < s_groups_count (bs_sbi bs)" "0 < num" "num \<le> count" "g + num \<le> bpg bs" "clear_run (s_bbitmap bs grp) g num"
      using rs(2) unfolding if_not_P [OF False] by blast
    note c = charged_run [OF ok r(2,6,5)]
    have "for_files (charged bs grp g num rs) = for_files bs"
      by (simp add: for_files_def not_for_files_def fun_eq_iff)
    then show thesis using run [OF r(1) charged_ok [OF ok r(2) rs(1) r(6,5)] r(3,4) c(1) c(2) [of rs]] by simp
  qed
qed

section \<open>Example\<close>

text \<open>Two groups of 16 blocks on a device of 30; the bitmaps and a table of two blocks at the start of each
  group. The kernel's tree may also be a list.\<close>

definition rb_ex :: rb_lib where
  "rb_ex = \<lparr>rb_insert_color = (\<lambda>_ t. t),
     rb_erase = (\<lambda>n t. foldr (\<lambda>m t. Node Leaf m t) (filter (\<lambda>m. m \<noteq> n) (inorder t)) Leaf)\<rparr>"

definition ba_ex :: ba_env where
  "ba_ex = \<lparr>ba_rb = rb_ex, ba_rd = (\<lambda>_. True), ba_lost = (\<lambda>_ _. False), ba_lock = True, ba_quota = True,
     ba_root_blocks = 1, ba_resource = False, ba_resuid = False, ba_resgid = False\<rparr>"

definition desc_ex :: "nat \<Rightarrow> ext2_group_desc" where
  "desc_ex g = \<lparr>bg_free_inodes_count = 0, bg_free_blocks_count = (if g = 0 then 12 else 10), bg_used_dirs_count = 0\<rparr>"

definition balloc_ex :: balloc where
  "balloc_ex = \<lparr>bs_sbi = sbi_ex\<lparr>s_groups_count := 2, s_blocks_per_group := 16, s_blocks_count := 31,
       s_group_desc_loaded := (\<lambda>_. True), s_desc := desc_ex\<rparr>,
     s_first_data_block = 1, s_itb_per_group = 2, bg_block_bitmap = (\<lambda>g. 16 * g + 1), bg_inode_bitmap = (\<lambda>g. 16 * g + 2),
     bg_inode_table = (\<lambda>g. 16 * g + 3), s_bbitmap = (\<lambda>g i. i < 4 \<or> g = 1 \<and> 14 \<le> i), s_freeblocks_counter = 22,
     bs_rsv = \<lparr>wins = (\<lambda>_. \<lparr>rsv_start = 0, rsv_end = 0, rsv_goal_size = 8, rsv_alloc_hit = 0, last_alloc_logical_block = 0, last_alloc_physical_block = 0\<rparr>), rsv_root = Node Leaf 0 Leaf\<rparr>\<rparr>"

lemma inorder_chain: "inorder (foldr (\<lambda>m t. Node Leaf m t) xs Leaf) = xs"
  by (induction xs) simp_all

lemma calm_ex: "calm ba_ex" "rb_ok rb_ex"
  by (simp_all add: calm_def ba_ex_def rb_ok_def rb_ex_def inorder_chain)

lemma clear_count_code: "clear_count bm n = length (filter (\<lambda>i. \<not> bm i) [0..<n])"
proof -
  have "{i. i < n \<and> \<not> bm i} = set (filter (\<lambda>i. \<not> bm i) [0..<n])" by auto
  then show ?thesis using distinct_card [of "filter (\<lambda>i. \<not> bm i) [0..<n]"] by (simp add: clear_count_def)
qed

lemma balloc_ex_ok: "balloc_ok 0 balloc_ex" "ext2_has_free_blocks ba_ex balloc_ex"
proof -
  have "clear_count (s_bbitmap balloc_ex 0) 16 = 12" "clear_count (s_bbitmap balloc_ex 1) 16 = 10"
    by (simp_all add: clear_count_code balloc_ex_def upt_rec)
  then have "unat (bg_free_blocks_count (s_desc (bs_sbi balloc_ex) grp)) = clear_count (s_bbitmap balloc_ex grp) 16" if "grp < 2" for grp
    using that by (auto simp: less_2_cases_iff balloc_ex_def desc_ex_def)
  moreover have "s_bbitmap balloc_ex grp i" if "grp < 2" "i < 16" "not_for_files balloc_ex grp (i + ext2_group_first_block_no balloc_ex grp)" for grp i
    using that by (auto simp: less_2_cases_iff balloc_ex_def not_for_files_def ext2_group_first_block_no_def in_range_def)
  moreover have "rsv_ok 0 (bs_rsv balloc_ex)" by (simp add: rsv_ok_def balloc_ex_def rsv_is_empty_def)
  ultimately show "balloc_ok 0 balloc_ex" unfolding balloc_ok_def by (simp add: balloc_ex_def)
  show "ext2_has_free_blocks ba_ex balloc_ex" by (simp add: ext2_has_free_blocks_def ba_ex_def balloc_ex_def)
qed

section \<open>Properties\<close>

text \<open>C18: Allocating blocks hands out a run of at most the wanted number of blocks that were free and are
  for files, on the device and in one group; exactly these blocks are in use afterwards, the invariant is
  kept and the counter goes down by their number. In two cases, and only then, the result is ENOSPC and
  the bitmaps and the counter stay as they are: when every block of the device is in use, and when the
  counter of free blocks is not above the number of blocks reserved for root and the caller has neither the
  capability nor the user or group the reserve is for. The search ends in all cases, with and without a
  reservation window. It is supposed that the quota allows the blocks and that the bitmaps can be read.\<close>

theorem new_blocks_takes_free:
  assumes "balloc_ok h bs" and "calm e" and "block_i \<noteq> Some h" and "0 < count"
  shows "if (\<forall>b. s_first_data_block bs \<le> b \<longrightarrow> b < s_blocks_count (bs_sbi bs) \<longrightarrow> block_used bs b) \<or>
       nat (s_freeblocks_counter bs) \<le> ba_root_blocks e \<and> \<not> ba_resource e \<and> \<not> ba_resuid e \<and> \<not> ba_resgid e
    then \<exists>bs'. ext2_new_blocks e bs block_i goal count = Some (bs', Inl ENOSPC) \<and> balloc_ok h bs' \<and>
      s_bbitmap bs' = s_bbitmap bs \<and> s_freeblocks_counter bs' = s_freeblocks_counter bs
    else \<exists>bs' block num. ext2_new_blocks e bs block_i goal count = Some (bs', Inr (block, num)) \<and> balloc_ok h bs' \<and>
      0 < num \<and> num \<le> count \<and> (\<forall>b \<in> {block..<block + num}. for_files bs b \<and> \<not> block_used bs b) \<and>
      (\<forall>b \<ge> s_first_data_block bs. block_used bs' b \<longleftrightarrow> block_used bs b \<or> b \<in> {block..<block + num}) \<and>
      s_freeblocks_counter bs' = s_freeblocks_counter bs - int num"
    (is "if ?full \<or> ?reserved then _ else _")
proof (cases ?reserved)
  case True
  then have "\<not> ext2_has_free_blocks e bs" by (simp add: ext2_has_free_blocks_def)
  moreover have "ba_quota e" using assms(2) by (simp add: calm_def)
  ultimately have "ext2_new_blocks e bs block_i goal count = Some (bs, Inl ENOSPC)"
    by (simp add: ext2_new_blocks_def Let_def)
  with True assms(1) show ?thesis by simp
next
  case False
  then have f: "ext2_has_free_blocks e bs" by (auto simp: ext2_has_free_blocks_def)
  show ?thesis
    using assms(1,2) f assms(3,4)
  proof (cases rule: new_blocks_run [where goal = goal])
    case (run bs' block num)
    then have "for_files bs block" "\<not> block_used bs block" by auto
    then have "\<not> ?full" by (auto simp: for_files_def not_for_files_def)
    with False have "\<not> (?full \<or> ?reserved)" by blast
    then show ?thesis using run(1-7) by (subst if_not_P) blast+
  qed auto
qed

theorem new_blocks_takes_free_witness:
  "\<exists>bs' block num. ext2_new_blocks ba_ex balloc_ex (Some 1) 7 3 = Some (bs', Inr (block, num)) \<and> balloc_ok 0 bs' \<and>
      0 < num \<and> num \<le> 3 \<and> (\<forall>b \<in> {block..<block + num}. for_files balloc_ex b \<and> \<not> block_used balloc_ex b) \<and>
      s_freeblocks_counter bs' = 22 - int num"
proof -
  have c: "s_freeblocks_counter balloc_ex = 22" "ba_root_blocks ba_ex = 1" by (simp_all add: balloc_ex_def ba_ex_def)
  have "s_first_data_block balloc_ex \<le> 5" "5 < s_blocks_count (bs_sbi balloc_ex)" "\<not> block_used balloc_ex 5"
    by (simp_all add: block_used_def balloc_ex_def)
  then have "\<not> (\<forall>b. s_first_data_block balloc_ex \<le> b \<longrightarrow> b < s_blocks_count (bs_sbi balloc_ex) \<longrightarrow> block_used balloc_ex b)" by blast
  with new_blocks_takes_free [OF balloc_ex_ok(1) calm_ex(1), of "Some 1" 3 7] show ?thesis
    unfolding c by (auto simp del: One_nat_def)
qed

text \<open>C19: Freeing a run of blocks that are for files, across groups or not, takes exactly these blocks out of
  use, keeps the invariant and adds to the counter the number of them that were in use.\<close>

theorem free_blocks_frees_run:
  assumes "balloc_ok h bs" and "\<forall>g. rd g" and "\<forall>b \<in> {block..<block + count}. for_files bs b" and "0 < count"
  shows "\<exists>bs'. ext2_free_blocks rd bs block count = Some bs' \<and> balloc_ok h bs' \<and>
    s_freeblocks_counter bs' = s_freeblocks_counter bs + int (card {b \<in> {block..<block + count}. block_used bs b}) \<and>
    (\<forall>b \<ge> s_first_data_block bs. block_used bs' b \<longleftrightarrow> block_used bs b \<and> b \<notin> {block..<block + count})"
proof -
  from free_blocks_ok [OF assms] show ?thesis by metis
qed

theorem free_blocks_frees_run_witness:
  "\<exists>bs'. ext2_free_blocks (\<lambda>_. True) balloc_ex 12 5 = Some bs' \<and> balloc_ok 0 bs'"
proof -
  have "\<forall>b \<in> {12..<12 + 5}. for_files balloc_ex b"
    by (auto simp: for_files_def not_for_files_def balloc_ex_def in_range_def)
  from free_blocks_frees_run [OF balloc_ex_ok(1) _ this, of "\<lambda>_. True"] show ?thesis by auto
qed

text \<open>C20: Freeing what was just allocated restores the set of blocks in use and the counter.\<close>

theorem free_blocks_undoes_new:
  assumes "balloc_ok h bs" and "calm e" and "ext2_has_free_blocks e bs" and "block_i \<noteq> Some h" and "0 < count"
    and "ext2_new_blocks e bs block_i goal count = Some (bs1, Inr (block, num))"
  shows "\<exists>bs2. ext2_free_blocks (ba_rd e) bs1 block num = Some bs2 \<and> balloc_ok h bs2 \<and>
    (\<forall>b \<ge> s_first_data_block bs. block_used bs2 b = block_used bs b) \<and> s_freeblocks_counter bs2 = s_freeblocks_counter bs"
  using assms(1-5)
proof (cases rule: new_blocks_run [where goal = goal])
  case (run bs' block' num')
  then have eq: "bs' = bs1" "block' = block" "num' = num" using assms(6) by auto
  note r = run(2-9) [unfolded eq]
  have "\<forall>g. ba_rd e g" using assms(2) by (simp add: calm_def)
  moreover have "\<forall>b \<in> {block..<block + num}. for_files bs1 b" using r(4,8) by simp
  ultimately obtain bs2 where f: "ext2_free_blocks (ba_rd e) bs1 block num = Some bs2" "balloc_ok h bs2"
    "s_freeblocks_counter bs2 = s_freeblocks_counter bs1 + int (card {b \<in> {block..<block + num}. block_used bs1 b})"
    "\<forall>b \<ge> s_first_data_block bs1. block_used bs2 b \<longleftrightarrow> block_used bs1 b \<and> b \<notin> {block..<block + num}"
    by - (rule free_blocks_ok [OF r(1) _ _ r(2)])
  have "{b \<in> {block..<block + num}. block_used bs1 b} = {block..<block + num}" using r(4,5) by (auto simp: for_files_def)
  then have "s_freeblocks_counter bs2 = s_freeblocks_counter bs" using f(3) r(6) by simp
  moreover have "\<forall>b \<ge> s_first_data_block bs. block_used bs2 b = block_used bs b" using f(4) r(4,5,7) by auto
  ultimately show ?thesis using f(1,2) by blast
qed (use assms(6) in auto)

theorem free_blocks_undoes_new_witness:
  "\<exists>bs1 bs2 block num. ext2_new_blocks ba_ex balloc_ex (Some 1) 7 3 = Some (bs1, Inr (block, num)) \<and>
    ext2_free_blocks (ba_rd ba_ex) bs1 block num = Some bs2 \<and> (\<forall>b \<ge> 1. block_used bs2 b = block_used balloc_ex b)"
proof (rule new_blocks_run [OF balloc_ex_ok(1) calm_ex(1) balloc_ex_ok(2), of "Some 1" 3 7])
  have c: "s_first_data_block balloc_ex = 1" by (simp add: balloc_ex_def)
  fix bs1 block num
  assume "ext2_new_blocks ba_ex balloc_ex (Some 1) 7 3 = Some (bs1, Inr (block, num))"
  from this free_blocks_undoes_new [OF balloc_ex_ok(1) calm_ex(1) balloc_ex_ok(2) _ _ this] show ?thesis unfolding c by auto
next
  assume "\<forall>b. s_first_data_block balloc_ex \<le> b \<longrightarrow> b < s_blocks_count (bs_sbi balloc_ex) \<longrightarrow> block_used balloc_ex b"
  then have "block_used balloc_ex 5" by (rule allE [of _ 5]) (simp add: balloc_ex_def)
  then show ?thesis by (simp add: block_used_def balloc_ex_def)
qed simp_all

lemma windows_apart:
  assumes ok: "rsv_ok h rs" and "a \<noteq> b" "a \<noteq> h" "b \<noteq> h" "\<not> rsv_is_empty (wins rs a)" "\<not> rsv_is_empty (wins rs b)"
  shows "before (wins rs) a b \<or> before (wins rs) b a"
proof -
  let ?ns = "inorder (rsv_root rs)"
  have "a \<in> set ?ns" "b \<in> set ?ns" using assms rsv_okD(6) [OF ok] by blast+
  then obtain as bs where s: "?ns = as @ a # bs" "b \<in> set as \<union> set bs" using split_list [of a ?ns] assms(2) by fastforce
  then show ?thesis using rsv_okD(2) [OF ok] by (auto simp: sorted_wrt_append)
qed

text \<open>C21: A new reservation always ends, leaves the windows of other files alone, and the windows of any two
  files are disjoint afterwards. The window found starts at the goal or behind it and contains a
  block of the group that is free.\<close>

theorem windows_stay_disjoint:
  assumes "rb_ok rb" and "rsv_ok h rs" and "my \<noteq> h" and "0 < rsv_goal_size (wins rs my)" and "0 < bpg bs"
  shows "\<exists>rs' found. alloc_new_reservation rb bs rs my goal grp bm = Some (rs', found) \<and> rsv_ok h rs' \<and>
    (\<forall>n. n \<noteq> my \<longrightarrow> wins rs' n = wins rs n) \<and>
    (\<forall>a b. a \<noteq> b \<longrightarrow> a \<noteq> h \<longrightarrow> b \<noteq> h \<longrightarrow> \<not> rsv_is_empty (wins rs' a) \<longrightarrow> \<not> rsv_is_empty (wins rs' b) \<longrightarrow>
       rsv_end (wins rs' a) < rsv_start (wins rs' b) \<or> rsv_end (wins rs' b) < rsv_start (wins rs' a)) \<and>
    (found \<longrightarrow> start_of bs grp goal \<le> rsv_start (wins rs' my) \<and> has_free_block bs grp bm (wins rs' my))"
proof -
  from new_reservation_ok [OF assms, of goal grp bm] obtain rs' found where
    "alloc_new_reservation rb bs rs my goal grp bm = Some (rs', found)" "rsv_ok h rs'" "\<forall>n. n \<noteq> my \<longrightarrow> wins rs' n = wins rs n"
    "found \<longrightarrow> start_of bs grp goal \<le> rsv_start (wins rs' my) \<and> has_free_block bs grp bm (wins rs' my)" by blast
  then show ?thesis using windows_apart by blast
qed

theorem windows_stay_disjoint_witness:
  "\<exists>rs' found. alloc_new_reservation rb_ex balloc_ex (bs_rsv balloc_ex) 1 None 0 (s_bbitmap balloc_ex 0) = Some (rs', found) \<and> rsv_ok 0 rs'"
proof -
  have "0 < rsv_goal_size (wins (bs_rsv balloc_ex) 1)" "0 < bpg balloc_ex" by (simp_all add: balloc_ex_def)
  from windows_stay_disjoint [OF calm_ex(2) balloc_okD(4) [OF balloc_ex_ok(1)] _ this] show ?thesis by (metis zero_neq_one)
qed

section \<open>Sparse superblocks\<close>

lemma test_root_loop_ok:
  assumes b: "1 < b" "b \<le> 7" and a: "a < 2 ^ 28"
  shows "test_root_loop a b (b ^ k) = Some (\<exists>n \<ge> k. a = b ^ n)"
proof (induction "nat (a - b ^ k)" arbitrary: k rule: less_induct)
  case less
  show ?case
  proof (cases "a > b ^ k")
    case True
    have "b ^ k * b < 2 ^ 28 * b" using True a b by simp
    also have "2 ^ 28 * b < 2 ^ 31" using b(2) by simp
    finally have "b ^ k * b < 2 ^ 31" .
    moreover have "0 \<le> b ^ k * b" using b by simp
    ultimately have w: "int_of_long (b ^ k * b) = b ^ Suc k" by (simp add: mult.commute)
    have "b ^ k < b ^ Suc k" using b by simp
    then have "nat (a - b ^ Suc k) < nat (a - b ^ k)" using True by (simp add: nat_less_eq_zless)
    from less [OF this] have "test_root_loop a b (b ^ k) = Some (\<exists>n \<ge> Suc k. a = b ^ n)"
      using True w by (subst test_root_loop.simps) simp
    moreover have "(\<exists>n \<ge> Suc k. a = b ^ n) \<longleftrightarrow> (\<exists>n \<ge> k. a = b ^ n)" using True by (metis Suc_leD Suc_leI le_neq_implies_less less_irrefl)
    ultimately show ?thesis by simp
  next
    case False
    have "b ^ k \<le> b ^ n" if "k \<le> n" for n using that b by (intro power_increasing) auto
    then have "b ^ k = a \<longleftrightarrow> (\<exists>n \<ge> k. a = b ^ n)" using False by (metis dual_order.antisym linorder_not_less order_refl)
    then show ?thesis using False by (subst test_root_loop.simps) simp
  qed
qed

lemma test_root_ok:
  assumes "1 < b" "b \<le> 7" "1 < a" "a < 2 ^ 28"
  shows "test_root a b = Some (\<exists>n. a = b ^ n)"
proof -
  have "test_root a b = Some (\<exists>n \<ge> 1. a = b ^ n)" using test_root_loop_ok [OF assms(1,2,4), of 1] by (simp add: test_root_def)
  moreover have "1 \<le> n" if "a = b ^ n" for n using that assms(3) by (cases n) auto
  then have "(\<exists>n \<ge> 1. a = b ^ n) \<longleftrightarrow> (\<exists>n. a = b ^ n)" by blast
  ultimately show ?thesis by simp
qed

text \<open>The groups that hold a copy of the superblock on a file system with sparse superblocks are 0, 1 and
  the powers of 3, 5 and 7; the test ends.\<close>

theorem sparse_groups:
  assumes "grp < 2 ^ 28"
  shows "ext2_group_sparse grp = Some (grp \<le> 1 \<or> (\<exists>n. grp = 3 ^ n \<or> grp = 5 ^ n \<or> grp = 7 ^ n))"
proof (cases "grp \<le> 1")
  case False
  then have "test_root grp 3 = Some (\<exists>n. grp = 3 ^ n)" "test_root grp 5 = Some (\<exists>n. grp = 5 ^ n)" "test_root grp 7 = Some (\<exists>n. grp = 7 ^ n)"
    using assms by (simp_all add: test_root_ok)
  then show ?thesis using False by (simp add: ext2_group_sparse_def) blast
qed (simp add: ext2_group_sparse_def)

theorem sparse_groups_witness: "ext2_group_sparse 49 = Some True"
proof -
  have "\<exists>n. (49::int) = 7 ^ n" by (rule exI [of _ 2]) simp
  then show ?thesis using sparse_groups [of 49] by auto
qed

end
