(* ===== verification/Ext2_Bmap_Facts.thy ===== *)
theory Ext2_Bmap_Facts
  imports Ext2_Bmap Ext2_Blocks
begin

text \<open>
  Correctness of the block map of theory \<open>Ext2_Bmap\<close>: paths and block numbers correspond, looking a block up
  follows its path, and growing the tree changes the map at the new blocks only. The invariant is that
  no block is reached on two paths and that every block reached is in use.
\<close>

section \<open>Paths\<close>

abbreviation path :: "nat \<Rightarrow> nat \<Rightarrow> nat list" where "path bits b \<equiv> fst (ext2_block_to_path bits (int b))"
abbreviation boundary :: "nat \<Rightarrow> nat \<Rightarrow> nat" where "boundary bits b \<equiv> nat (snd (ext2_block_to_path bits (int b)))"

definition capacity :: "nat \<Rightarrow> nat" where
  "capacity bits = 12 + 2 ^ bits + 2 ^ bits * 2 ^ bits + 2 ^ bits * 2 ^ bits * 2 ^ bits"

text \<open>The function on natural numbers.\<close>

definition to_path :: "nat \<Rightarrow> nat \<Rightarrow> nat list \<times> nat" where
  "to_path p b =
    (if b < 12 then ([b], 11 - b mod p)
     else if b - 12 < p then ([12, b - 12], p - 1 - (b - 12) mod p)
     else if b - 12 - p < p * p then ([13, (b - 12 - p) div p, (b - 12 - p) mod p], p - 1 - (b - 12 - p) mod p)
     else if (b - 12 - p - p * p) div (p * p) < p
     then ([14, (b - 12 - p - p * p) div (p * p), (b - 12 - p - p * p) div p mod p, (b - 12 - p - p * p) mod p], p - 1 - (b - 12 - p - p * p) mod p)
     else ([], 0))"

lemma block_to_path_nat: "path bits b = fst (to_path (2 ^ bits) b)" "boundary bits b = snd (to_path (2 ^ bits) b)"
proof -
  define p :: nat where "p = 2 ^ bits"
  have p: "(2::int) ^ bits = int p" "(2::int) ^ (bits * 2) = int (p * p)" "0 < p"
    by (simp_all add: p_def power_mult power2_eq_square flip: power_mult_distrib)
  have u: "ext2_block_to_path bits (int b) =
    (if b < 12 then ([b], 11 - int b mod int p)
     else if b - 12 < p then ([12, b - 12], int p - 1 - int (b - 12) mod int p)
     else if b - 12 - p < p * p then ([13, (b - 12 - p) div p, (b - 12 - p) mod p], int p - 1 - int (b - 12 - p) mod int p)
     else if (b - 12 - p - p * p) div (p * p) < p
     then ([14, (b - 12 - p - p * p) div (p * p), (b - 12 - p - p * p) div p mod p, (b - 12 - p - p * p) mod p],
       int p - 1 - int (b - 12 - p - p * p) mod int p)
     else ([], - 1 - int (b - 12 - p - p * p) mod int p))"
  proof -
    have z: "(int b < 0) = False" "int x < int y \<longleftrightarrow> x < y" "nat (int x) = x" "int x div int y = int (x div y)" "int x mod int y = int (x mod y)"
      "(0::int) - 1 = - 1" "(12::int) - 1 = 11" "(int b < 12) = (b < 12)" for x y
      by (simp_all add: zdiv_int zmod_int)
    note unf = ext2_block_to_path_def Let_def p(1,2) z
    show ?thesis
    proof (cases "b < 12")
      case False
      then have i: "int b - 12 = int (b - 12)" by simp
      show ?thesis
      proof (cases "b - 12 < p")
        case f2: False
        then have j: "int (b - 12) - int p = int (b - 12 - p)" by simp
        show ?thesis
        proof (cases "b - 12 - p < p * p")
          case f3: False
          then have k: "int (b - 12 - p) - int (p * p) = int (b - 12 - p - p * p)" by linarith
          show ?thesis unfolding unf i j k using False f2 f3 by (simp only: if_False if_True if_cancel simp_thms)
        qed (unfold unf i j, simp only: False f2 if_False if_True)
      qed (unfold unf i, simp only: False if_False if_True)
    qed (unfold unf, simp only: if_False if_True)
  qed
  have m: "nat (int x - int y) = x - y" "int x mod int p = int (x mod p)" for x y by (simp_all add: zmod_int)
  have "nat (11 - int x) = 11 - x" "nat (int p - 1 - int x) = p - 1 - x" "nat (- 1 - int x) = 0" for x using p(3) by linarith+
  then show "boundary bits b = snd (to_path (2 ^ bits) b)" unfolding u p_def [symmetric] to_path_def m(2)
    by (simp only: if_distrib [of nat] if_distrib [of snd] snd_conv)
  show "path bits b = fst (to_path (2 ^ bits) b)" unfolding u p_def [symmetric] to_path_def
    by (simp only: if_distrib [of fst] fst_conv)
qed

definition depth_of :: "nat \<Rightarrow> nat" where
  "depth_of off = (if off < 12 then 1 else if off = 12 then 2 else if off = 13 then 3 else 4)"

text \<open>Beginnings of paths.\<close>

definition prefix_ok :: "nat \<Rightarrow> nat list \<Rightarrow> bool" where
  "prefix_ok bits q \<longleftrightarrow> q \<noteq> [] \<and> hd q < 15 \<and> length q \<le> depth_of (hd q) \<and> (\<forall>n \<in> set (tl q). n < 2 ^ bits)"

fun path_block :: "nat \<Rightarrow> nat list \<Rightarrow> nat" where
  "path_block p [a] = a"
| "path_block p [a, x] = 12 + x"
| "path_block p [a, x, y] = 12 + p + (x * p + y)"
| "path_block p [a, x, y, z] = 12 + p + p * p + (x * (p * p) + y * p + z)"
| "path_block p _ = 0"

lemma to_path_cases:
  assumes p: "0 < p"
  obtains (direct) "b < 12" "to_path p b = ([b], 11 - b mod p)"
  | (single) x where "b = 12 + x" "x < p" "to_path p b = ([12, x], p - 1 - x)"
  | (double) x y where "b = 12 + p + (x * p + y)" "x < p" "y < p" "to_path p b = ([13, x, y], p - 1 - y)"
  | (triple) x y z where "b = 12 + p + p * p + (x * (p * p) + y * p + z)" "x < p" "y < p" "z < p" "to_path p b = ([14, x, y, z], p - 1 - z)"
  | (out) "12 + p + p * p + p * p * p \<le> b" "to_path p b = ([], 0)"
proof -
  consider "b < 12" | "\<not> b < 12" "b - 12 < p" | "\<not> b < 12" "\<not> b - 12 < p" "b - 12 - p < p * p"
    | "\<not> b < 12" "\<not> b - 12 < p" "\<not> b - 12 - p < p * p" by blast
  then show thesis
  proof cases
    case 1
    then show thesis using direct by (simp add: to_path_def)
  next
    case 2
    then show thesis using single [of "b - 12"] by (simp add: to_path_def)
  next
    case 3
    let ?r = "b - 12 - p"
    have "?r = ?r div p * p + ?r mod p" "?r div p < p" "?r mod p < p" using 3 p by (simp_all add: less_mult_imp_div_less)
    then show thesis using double [of "?r div p" "?r mod p"] 3 by (simp add: to_path_def)
  next
    case 4
    let ?r = "b - 12 - p - p * p"
    have r: "b = 12 + p + p * p + ?r" using 4 by linarith
    show thesis
    proof (cases "?r div (p * p) < p")
      case True
      have "?r div (p * p) = ?r div p div p" by (rule div_mult2_eq)
      then have "?r = ?r div (p * p) * (p * p) + ?r div p mod p * p + ?r mod p"
        by (metis (no_types, lifting) add.assoc div_mult_mod_eq distrib_right mult.assoc)
      then show thesis using triple [of "?r div (p * p)" "?r div p mod p" "?r mod p"] True 4 p r by (simp add: to_path_def)
    next
      case False
      then have "p * (p * p) \<le> ?r" using p by (simp add: div_less_iff_less_mult not_less [symmetric])
      then show thesis using out False 4 r by (simp add: to_path_def ac_simps)
    qed
  qed
qed

lemma path_facts:
  assumes "b < capacity bits"
  shows "path_block (2 ^ bits) (path bits b) = b" "prefix_ok bits (path bits b)" "length (path bits b) = depth_of (hd (path bits b))"
proof -
  let ?p = "2 ^ bits :: nat"
  have "path_block ?p (fst (to_path ?p b)) = b \<and> prefix_ok bits (fst (to_path ?p b)) \<and> length (fst (to_path ?p b)) = depth_of (hd (fst (to_path ?p b)))"
    by (rule to_path_cases [of ?p b]) (use assms in \<open>simp_all add: capacity_def prefix_ok_def depth_of_def\<close>)
  then show "path_block ?p (path bits b) = b" "prefix_ok bits (path bits b)" "length (path bits b) = depth_of (hd (path bits b))"
    unfolding block_to_path_nat by blast+
qed

lemma path_none:
  assumes "capacity bits \<le> b"
  shows "path bits b = []"
proof -
  let ?p = "2 ^ bits :: nat"
  have r: "?p * (?p * ?p) \<le> b - 12 - ?p - ?p * ?p" using assms by (simp add: capacity_def ac_simps)
  then have "\<not> (b - 12 - ?p - ?p * ?p) div (?p * ?p) < ?p" by (simp add: div_less_iff_less_mult not_less)
  moreover have "\<not> b < 12" "\<not> b - 12 < ?p" "\<not> b - 12 - ?p < ?p * ?p" using assms by (auto simp: capacity_def)
  ultimately show ?thesis unfolding block_to_path_nat by (simp add: to_path_def)
qed

lemma path_inj: "b < capacity bits \<Longrightarrow> c < capacity bits \<Longrightarrow> path bits b = path bits c \<Longrightarrow> b = c"
  by (metis path_facts(1))

lemma digits_less: "x < p \<Longrightarrow> y < p \<Longrightarrow> x * p + y < p * p" for p :: nat
  by (metis add_less_cancel_left le_add1 le_trans less_le_trans mult.commute mult_Suc_right mult_le_mono2 not_less_eq_eq add.commute Suc_leI)

lemma block_path:
  assumes "prefix_ok bits q" "length q = depth_of (hd q)"
  shows "path_block (2 ^ bits) q < capacity bits" "path bits (path_block (2 ^ bits) q) = q"
proof -
  let ?p = "2 ^ bits :: nat"
  have p: "0 < ?p" by simp
  consider a where "q = [a]" "a < 12" | x where "q = [12, x]" "x < ?p" | x y where "q = [13, x, y]" "x < ?p" "y < ?p"
    | x y z where "q = [14, x, y, z]" "x < ?p" "y < ?p" "z < ?p"
  proof -
    from assms have h: "q \<noteq> []" "hd q < 15" "length q = depth_of (hd q)" "\<forall>n \<in> set (tl q). n < ?p" by (auto simp: prefix_ok_def)
    then obtain a r where q: "q = a # r" by (cases q) auto
    consider "a < 12" | "a = 12" | "a = 13" | "a = 14" using h(2) q by fastforce
    then show thesis
      by cases (use h q that in \<open>auto simp: depth_of_def length_Suc_conv numeral_2_eq_2 numeral_3_eq_3\<close>)
  qed
  then have "path_block ?p q < capacity bits \<and> fst (to_path ?p (path_block ?p q)) = q"
  proof cases
    case (3 x y)
    have "x * ?p + y < ?p * ?p" using digits_less 3 by blast
    then show ?thesis using 3 by (simp add: to_path_def capacity_def)
  next
    case (4 x y z)
    have "y * ?p + z < ?p * ?p" using digits_less 4 by blast
    then have d: "(x * (?p * ?p) + y * ?p + z) div (?p * ?p) = x" by (simp add: add.assoc)
    have f: "x * (?p * ?p) + y * ?p + z = (x * ?p + y) * ?p + z" by (simp add: algebra_simps)
    have e: "(x * (?p * ?p) + y * ?p + z) div ?p = x * ?p + y" "(x * (?p * ?p) + y * ?p + z) mod ?p = z"
      unfolding f using 4(4) by simp_all
    have "x * (?p * ?p) + (y * ?p + z) < ?p * (?p * ?p)"
      using d 4(2) p by (metis add.assoc div_less_iff_less_mult nat_0_less_mult_iff)
    then show ?thesis using 4 d e by (simp add: to_path_def capacity_def ac_simps)
  qed (auto simp: to_path_def capacity_def)
  then show "path_block ?p q < capacity bits" "path bits (path_block ?p q) = q" unfolding block_to_path_nat by blast+
qed

lemma path_next:
  assumes b: "b < capacity bits" and i: "i \<le> boundary bits b" and bits: "4 \<le> bits"
  shows "path bits (b + i) = butlast (path bits b) @ [last (path bits b) + i]" "b + i < capacity bits"
proof -
  let ?p = "2 ^ bits :: nat" and ?q = "butlast (path bits b) @ [last (path bits b) + i]"
  have "(2::nat) ^ 4 \<le> ?p" using bits by (intro power_increasing) simp_all
  then have p: "16 \<le> ?p" by simp
  have "prefix_ok bits ?q \<and> length ?q = depth_of (hd ?q) \<and> path_block ?p ?q = b + i"
    unfolding block_to_path_nat
    by (rule to_path_cases [of ?p b]) (use b i [unfolded block_to_path_nat] p in \<open>auto simp: capacity_def prefix_ok_def depth_of_def\<close>)
  then have q: "prefix_ok bits ?q" "length ?q = depth_of (hd ?q)" "path_block ?p ?q = b + i" by blast+
  show "path bits (b + i) = ?q" "b + i < capacity bits" using block_path [OF q(1,2)] unfolding q(3) by blast+
qed

section \<open>Walking down the tree\<close>

fun walk_from :: "bmap \<Rightarrow> nat \<Rightarrow> nat list \<Rightarrow> nat" where
  "walk_from s b [] = b"
| "walk_from s b (n # ns) = (if b = 0 then 0 else walk_from s (ind_ptr s b n) ns)"

definition walk :: "bmap \<Rightarrow> nat list \<Rightarrow> nat" where
  "walk s q = walk_from s (i_ptr s (hd q)) (tl q)"

lemma walk_from_snoc: "walk_from s b (ns @ [n]) = (if walk_from s b ns = 0 then 0 else ind_ptr s (walk_from s b ns) n)"
  by (induction ns arbitrary: b) simp_all

lemma walk_one [simp]: "walk s [n] = i_ptr s n"
  by (simp add: walk_def)

lemma walk_snoc: "q \<noteq> [] \<Longrightarrow> walk s (q @ [n]) = (if walk s q = 0 then 0 else ind_ptr s (walk s q) n)"
  by (simp add: walk_def walk_from_snoc)

lemma walk_zero: "q \<noteq> [] \<Longrightarrow> walk s q = 0 \<Longrightarrow> walk s (q @ r) = 0"
proof (induction r rule: rev_induct)
  case (snoc n r)
  then show ?case using walk_snoc [of "q @ r" s n] by simp
qed simp

text \<open>The place of the last pointer on a path.\<close>

definition place :: "bmap \<Rightarrow> nat list \<Rightarrow> ptr_loc" where
  "place s q = (if length q = 1 then In_Inode (hd q) else In_Block (walk s (butlast q)) (last q))"

lemma place_snoc: "q \<noteq> [] \<Longrightarrow> place s (q @ [n]) = In_Block (walk s q) n"
  by (simp add: place_def)

lemma ptr_at_place:
  assumes "q \<noteq> []" and "length q = 1 \<or> walk s (butlast q) \<noteq> 0"
  shows "ptr_at s (place s q) = walk s q"
proof (cases "length q = 1")
  case True
  then show ?thesis by (auto simp: place_def length_Suc_conv)
next
  case False
  then obtain r n where "q = r @ [n]" "r \<noteq> []" using assms(1) by (cases q rule: rev_cases) auto
  then show ?thesis using assms(2) by (simp add: place_snoc walk_snoc)
qed

text \<open>The chain of the first \<open>m\<close> pointers on a path.\<close>

definition chain_of :: "bmap \<Rightarrow> nat list \<Rightarrow> nat \<Rightarrow> Indirect list" where
  "chain_of s q m = map (\<lambda>k. (place s (take k q), walk s (take k q))) [1..<Suc m]"

lemma chain_of_simps [simp]:
  "length (chain_of s q m) = m"
  "0 < m \<Longrightarrow> last (chain_of s q m) = (place s (take m q), walk s (take m q))"
  "chain_of s q (Suc m) = chain_of s q m @ [(place s (take (Suc m) q), walk s (take (Suc m) q))]"
  by (auto simp: chain_of_def last_map)

lemma chain_verified:
  assumes "q \<noteq> []" and "\<And>k. 0 < k \<Longrightarrow> k < m \<Longrightarrow> walk s (take k q) \<noteq> 0" and "m \<le> length q"
  shows "verify_chain s (chain_of s q m)"
proof -
  have "ptr_at s (place s (take k q)) = walk s (take k q)" if "0 < k" "k \<le> m" for k
  proof (rule ptr_at_place)
    show "take k q \<noteq> []" using that assms(1) by auto
    have "butlast (take k q) = take (k - 1) q" using that assms(3) by (simp add: butlast_take)
    then show "length (take k q) = 1 \<or> walk s (butlast (take k q)) \<noteq> 0" using that assms(2) [of "k - 1"] assms(3) by fastforce
  qed
  then show ?thesis by (auto simp: verify_chain_def chain_of_def list_all_iff)
qed

definition branch_ok :: "bmap \<Rightarrow> nat list \<Rightarrow> Indirect list \<times> bool \<times> errno option \<Rightarrow> bool" where
  "branch_ok s q r \<longleftrightarrow> (\<exists>m whole. r = (chain_of s q m, whole, None) \<and> 0 < m \<and> m \<le> length q \<and>
     (\<forall>k. 0 < k \<longrightarrow> k < m \<longrightarrow> walk s (take k q) \<noteq> 0) \<and>
     (if whole then m = length q \<and> walk s q \<noteq> 0 else walk s (take m q) = 0))"

lemma get_chain_ok:
  assumes rd: "\<forall>b. rd b" and q: "q = take m q @ rest" "q \<noteq> []" "0 < m" "m \<le> length q" "\<forall>k. 0 < k \<longrightarrow> k \<le> m \<longrightarrow> walk s (take k q) \<noteq> 0"
  shows "branch_ok s q (get_chain rd s (chain_of s q m) rest)"
  using q
proof (induction rest arbitrary: m)
  case Nil
  have "m = length q" using Nil.prems(1,4) by (metis append_Nil2 length_take min.absorb2)
  moreover have "walk s q \<noteq> 0" using Nil.prems(3,5) calculation by force
  ultimately show ?case using Nil.prems unfolding branch_ok_def get_chain.simps by (intro exI [of _ m] exI [of _ True]) simp
next
  case (Cons off rest)
  have l: "m < length q" using Cons.prems(1,4) by (metis append_Nil2 le_neq_implies_less list.distinct(1) self_append_conv take_all)
  have off: "q ! m = off" using Cons.prems(1,4) l by (metis length_take min.absorb2 nth_append_length)
  have t: "take (Suc m) q = take m q @ [off]" using l off by (simp add: take_Suc_conv_app_nth)
  have v: "verify_chain s (chain_of s q m)" using Cons.prems by (intro chain_verified) auto
  have nz: "walk s (take m q) \<noteq> 0" "take m q \<noteq> []" using Cons.prems by auto
  have loc: "In_Block (walk s (take m q)) off = place s (take (Suc m) q)" unfolding t using nz by (simp add: place_snoc)
  have val: "ptr_at s (place s (take (Suc m) q)) = walk s (take (Suc m) q)"
    by (rule ptr_at_place) (use nz l in \<open>auto simp: t\<close>)
  have unf: "get_chain rd s (chain_of s q m) (off # rest) =
    (if walk s (take (Suc m) q) = 0 then (chain_of s q (Suc m), False, None) else get_chain rd s (chain_of s q (Suc m)) rest)"
    using rd v Cons.prems(3) unfolding get_chain.simps Let_def by (simp add: loc val del: ptr_at.simps)
  show ?case
  proof (cases "walk s (take (Suc m) q) = 0")
    case True
    then show ?thesis using unf l Cons.prems unfolding branch_ok_def by (intro exI [of _ "Suc m"] exI [of _ False]) (auto simp: less_Suc_eq_le)
  next
    case False
    have "q = take (Suc m) q @ rest" using Cons.prems(1) t by (metis append.assoc append_Cons append_Nil)
    moreover have "\<forall>k. 0 < k \<longrightarrow> k \<le> Suc m \<longrightarrow> walk s (take k q) \<noteq> 0" using False Cons.prems(5) by (auto simp: le_Suc_eq)
    ultimately show ?thesis using Cons.IH [of "Suc m"] Cons.prems(2) l unf False by simp
  qed
qed

lemma get_branch_ok:
  assumes "\<forall>b. rd b" and "q \<noteq> []"
  shows "branch_ok s q (ext2_get_branch rd s q)"
proof -
  have c: "chain_of s q 1 = [(In_Inode (hd q), i_ptr s (hd q))]" "take 1 q = [hd q]" using assms(2) by (cases q; simp add: chain_of_def place_def)+
  show ?thesis
  proof (cases "i_ptr s (hd q) = 0")
    case True
    then have "ext2_get_branch rd s q = (chain_of s q 1, False, None)" unfolding c by (simp add: ext2_get_branch_def Let_def)
    then show ?thesis unfolding branch_ok_def using True c(2) assms(2) by (intro exI [of _ 1] exI [of _ False]) (auto simp: Suc_le_eq)
  next
    case False
    have "ext2_get_branch rd s q = get_chain rd s (chain_of s q 1) (tl q)" unfolding c using False by (simp add: ext2_get_branch_def Let_def)
    moreover have "q = take 1 q @ tl q" using c(2) assms(2) by simp
    moreover have "\<forall>k. 0 < k \<longrightarrow> k \<le> 1 \<longrightarrow> walk s (take k q) \<noteq> 0" using False c(2) by (auto simp: le_Suc_eq)
    ultimately show ?thesis using get_chain_ok [OF assms(1), of q 1 "tl q" s] assms(2) by (simp add: Suc_le_eq)
  qed
qed

end
