(* ===== verification/Ext2_Grow.thy ===== *)
theory Ext2_Grow
  imports Ext2_Bmap_Facts
begin

text \<open>
  Growing the block map. The blocks for a branch are allocated in one or several runs, given back when a
  later run fails, and linked so that exactly the new paths lead to them.
\<close>

section \<open>Allocating the blocks of a branch\<close>

text \<open>\<open>grown bs N bs'\<close>: the blocks \<open>N\<close> were free and for files, and have come into use.\<close>

definition grown :: "balloc \<Rightarrow> nat set \<Rightarrow> balloc \<Rightarrow> bool" where
  "grown bs N bs' \<longleftrightarrow> finite N \<and> (\<forall>b \<in> N. for_files bs b \<and> \<not> block_used bs b) \<and>
     (\<forall>b \<ge> s_first_data_block bs. block_used bs' b \<longleftrightarrow> block_used bs b \<or> b \<in> N) \<and>
     s_first_data_block bs' = s_first_data_block bs \<and> for_files bs' = for_files bs \<and>
     s_freeblocks_counter bs' = s_freeblocks_counter bs - int (card N)"

lemma grown_trans:
  assumes "grown bs N bs1" and "grown bs1 M bs2"
  shows "grown bs (N \<union> M) bs2" "N \<inter> M = {}"
proof -
  show d: "N \<inter> M = {}" using assms by (auto simp: grown_def for_files_def)
  then show "grown bs (N \<union> M) bs2" using assms by (auto simp: grown_def card_Un_disjoint for_files_def)
qed

lemma grown_refl: "grown bs {} bs" "grown bs {} (bs\<lparr>bs_rsv := rs\<rparr>)"
  by (simp_all add: grown_def for_files_def not_for_files_def block_used_def fun_eq_iff)

lemma new_blocks_grown:
  assumes ok: "balloc_ok h bs" and e: "calm e" and my: "block_i \<noteq> Some h" and num: "0 < count"
  obtains (nospace) bs' where "ext2_new_blocks e bs block_i goal count = Some (bs', Inl ENOSPC)" "balloc_ok h bs'" "grown bs {} bs'"
  | (run) bs' block num where "ext2_new_blocks e bs block_i goal count = Some (bs', Inr (block, num))" "balloc_ok h bs'"
      "0 < num" "num \<le> count" "grown bs {block..<block + num} bs'"
proof (cases "ext2_has_free_blocks e bs")
  case False
  then have "ext2_new_blocks e bs block_i goal count = Some (bs, Inl ENOSPC)" using e by (simp add: ext2_new_blocks_def calm_def Let_def)
  then show thesis using nospace ok grown_refl by blast
next
  case True
  from ok e True my num show thesis
  proof (cases rule: new_blocks_run [where goal = goal])
    case (nospace bs')
    then show thesis using that(1) grown_refl by blast
  next
    case (run bs' block num)
    then show thesis using that(2) by (simp add: grown_def)
  qed
qed

text \<open>Giving single blocks back.\<close>

lemma free_each_ok:
  assumes "balloc_ok h bs" and "\<forall>g. rd g" and "distinct blks" and "\<forall>b \<in> set blks. for_files bs b \<and> block_used bs b"
  shows "\<exists>bs'. free_each rd bs blks = Some bs' \<and> balloc_ok h bs' \<and> s_first_data_block bs' = s_first_data_block bs \<and> for_files bs' = for_files bs \<and>
    s_freeblocks_counter bs' = s_freeblocks_counter bs + int (length blks) \<and>
    (\<forall>b \<ge> s_first_data_block bs. block_used bs' b \<longleftrightarrow> block_used bs b \<and> b \<notin> set blks)"
  using assms
proof (induction blks arbitrary: bs)
  case (Cons b blks)
  have f: "\<forall>x \<in> {b..<b + 1}. for_files bs x" "(0::nat) < 1" using Cons.prems(4) by auto
  obtain bs1 where o: "ext2_free_blocks rd bs b 1 = Some bs1" "balloc_ok h bs1"
    "s_freeblocks_counter bs1 = s_freeblocks_counter bs + int (card {x \<in> {b..<b + 1}. block_used bs x})"
    "\<forall>x \<ge> s_first_data_block bs. block_used bs1 x \<longleftrightarrow> block_used bs x \<and> x \<notin> {b..<b + 1}"
    "s_first_data_block bs1 = s_first_data_block bs" "for_files bs1 = for_files bs"
    by (rule free_blocks_ok [OF Cons.prems(1,2) f])
  have "{x \<in> {b..<b + 1}. block_used bs x} = {b}" using Cons.prems(4) by (auto simp: le_less_Suc_eq)
  then have c: "s_freeblocks_counter bs1 = s_freeblocks_counter bs + 1" using o(3) by simp
  have "\<forall>x \<in> set blks. for_files bs1 x \<and> block_used bs1 x"
    using Cons.prems(3,4) o(4,6) by (auto simp: for_files_def le_less_Suc_eq)
  from Cons.IH [OF o(2) Cons.prems(2) _ this] Cons.prems(3) obtain bs' where
    i: "free_each rd bs1 blks = Some bs'" "balloc_ok h bs'" "s_first_data_block bs' = s_first_data_block bs1" "for_files bs' = for_files bs1"
      "s_freeblocks_counter bs' = s_freeblocks_counter bs1 + int (length blks)"
      "\<forall>b \<ge> s_first_data_block bs1. block_used bs' b \<longleftrightarrow> block_used bs1 b \<and> b \<notin> set blks" by auto
  then show ?case using o(1,4,5,6) c by (intro exI [of _ bs']) (auto simp: le_less_Suc_eq)
qed simp

text \<open>What the allocation of the blocks for \<open>n\<close> indirect blocks and up to \<open>most\<close> data blocks results in.\<close>

definition branch_blocks :: "nat \<Rightarrow> balloc \<Rightarrow> nat \<Rightarrow> nat \<Rightarrow> (balloc \<times> (errno + nat list \<times> nat)) option \<Rightarrow> bool" where
  "branch_blocks h bs n most res \<longleftrightarrow>
     (\<exists>bs' r. res = Some (bs', r) \<and> balloc_ok h bs' \<and>
       (case r of
          Inl err \<Rightarrow> err = ENOSPC \<and> grown bs {} bs'
        | Inr (blks, num) \<Rightarrow> length blks = Suc n \<and> 0 < num \<and> num \<le> most \<and> distinct (butlast blks @ [last blks..<last blks + num]) \<and>
            grown bs (set (butlast blks) \<union> {last blks..<last blks + num}) bs'))"

lemma branch_blocksI:
  assumes "balloc_ok h bs'" "length xs = n" "0 < num" "num \<le> most" "distinct (xs @ [b..<b + num])" "grown bs (set xs \<union> {b..<b + num}) bs'"
  shows "branch_blocks h bs n most (Some (bs', Inr (xs @ [b], num)))"
  using assms by (simp add: branch_blocks_def)

lemma alloc_run_ok:
  assumes e: "calm e" and my: "block_i \<noteq> Some h" and "balloc_ok h bs1" and "grown bs (set blks) bs1" "distinct blks"
    and "length blks \<le> n" "n - length blks + most = target" "0 < most"
  shows "branch_blocks h bs n most (alloc_run e bs1 block_i goal n target blks)"
  using assms(3-)
proof (induction target arbitrary: bs1 blks rule: less_induct)
  case (less target)
  have t: "0 < target" using less.prems(5,6) by simp
  from less.prems(1) e my t show ?case
  proof (cases rule: new_blocks_grown [where goal = goal])
    case (nospace bs2)
    note g = grown_trans [OF less.prems(2) nospace(3)]
    have "\<forall>b \<in> set blks. for_files bs2 b \<and> block_used bs2 b" using g(1) by (auto simp: grown_def for_files_def)
    moreover have "\<forall>x. ba_rd e x" using e by (simp add: calm_def)
    ultimately obtain bs3 where f: "free_each (ba_rd e) bs2 blks = Some bs3" "balloc_ok h bs3" "s_first_data_block bs3 = s_first_data_block bs2"
      "for_files bs3 = for_files bs2" "s_freeblocks_counter bs3 = s_freeblocks_counter bs2 + int (length blks)"
      "\<forall>b \<ge> s_first_data_block bs2. block_used bs3 b \<longleftrightarrow> block_used bs2 b \<and> b \<notin> set blks"
      using free_each_ok [OF nospace(2) _ less.prems(3)] by metis
    have "grown bs {} bs3" using g(1) f(3-6) less.prems(3) by (auto simp: grown_def distinct_card)
    moreover have "alloc_run e bs1 block_i goal n target blks = Some (bs3, Inl ENOSPC)"
      by (subst alloc_run.simps) (simp add: nospace(1) f(1))
    ultimately show ?thesis using f(2) by (simp add: branch_blocks_def)
  next
    case (run bs2 block num)
    define k where "k = min num (n - length blks)"
    let ?blks = "blks @ [block..<block + k]"
    note g = grown_trans [OF less.prems(2) run(5)]
    have k: "k \<le> num" "length ?blks \<le> n" using less.prems(4) by (auto simp: k_def)
    have unf: "alloc_run e bs1 block_i goal n target blks =
      (if num - k > 0 then Some (bs2, Inr (?blks @ [block + k], num - k)) else alloc_run e bs2 block_i goal n (target - num) ?blks)"
      by (subst alloc_run.simps) (simp add: run(1) k_def Let_def)
    show ?thesis
    proof (cases "num - k > 0")
      case True
      then have kn: "k = n - length blks" by (auto simp: k_def)
      have "set ?blks \<union> {block + k..<block + k + (num - k)} = set blks \<union> {block..<block + num}" using k(1) by auto
      moreover have "distinct (?blks @ [block + k..<block + k + (num - k)])" using g(2) less.prems(3) k(1) by auto
      moreover have "length ?blks = n" "num - k \<le> most" using kn less.prems(4,5) run(4) by auto
      ultimately have "branch_blocks h bs n most (Some (bs2, Inr (?blks @ [block + k], num - k)))"
        using True g(1) run(2) by (intro branch_blocksI) simp_all
      then show ?thesis unfolding unf if_P [OF True] .
    next
      case False
      then have "k = num" using k(1) by simp
      then have nn: "num \<le> n - length blks" "set ?blks = set blks \<union> {block..<block + num}" by (auto simp: k_def)
      have "branch_blocks h bs n most (alloc_run e bs2 block_i goal n (target - num) ?blks)"
      proof (rule less.IH)
        show "target - num < target" using run(3) t by simp
        show "grown bs (set ?blks) bs2" using g(1) nn(2) by simp
        show "distinct ?blks" using less.prems(3) g(2) \<open>k = num\<close> by auto
        show "n - length ?blks + most = target - num" using less.prems(5) nn(1) \<open>k = num\<close> by simp
      qed (use run(2) k(2) less.prems(6) in auto)
      then show ?thesis using unf False by simp
    qed
  qed
qed

lemma alloc_blocks_ok:
  assumes "calm e" and "block_i \<noteq> Some h" and "balloc_ok h bs" and "0 < most"
  shows "branch_blocks h bs n most (ext2_alloc_blocks e bs block_i goal n most)"
  unfolding ext2_alloc_blocks_def by (rule alloc_run_ok [OF assms(1-3)]) (use assms(4) grown_refl in auto)

section \<open>Linking the blocks\<close>

text \<open>\<open>tree_ok bits s\<close>: no block is reached on two paths, every block reached is in use, and block 0 is never
  free.\<close>

definition tree_ok :: "nat \<Rightarrow> bmap \<Rightarrow> bool" where
  "tree_ok bits s \<longleftrightarrow>
     (\<forall>q r. prefix_ok bits q \<longrightarrow> prefix_ok bits r \<longrightarrow> walk s q \<noteq> 0 \<longrightarrow> walk s q = walk s r \<longrightarrow> q = r) \<and>
     (\<forall>q. prefix_ok bits q \<longrightarrow> walk s q \<noteq> 0 \<longrightarrow> for_files (bm_bs s) (walk s q) \<and> block_used (bm_bs s) (walk s q)) \<and>
     (s_first_data_block (bm_bs s) = 0 \<longrightarrow> block_used (bm_bs s) 0)"

lemma prefix_ok_snoc: "prefix_ok bits (q @ [n]) \<Longrightarrow> q \<noteq> [] \<Longrightarrow> prefix_ok bits q"
  by (auto simp: prefix_ok_def)

lemma prefix_ok_take: "prefix_ok bits q \<Longrightarrow> 0 < k \<Longrightarrow> prefix_ok bits (take k q)"
  by (auto simp: prefix_ok_def tl_take dest: in_set_takeD)

text \<open>The words \<open>n\<close> to \<open>n + num - 1\<close> of a row are set to consecutive numbers.\<close>

definition run_row :: "nat \<Rightarrow> nat \<Rightarrow> nat \<Rightarrow> (nat \<Rightarrow> nat) \<Rightarrow> nat \<Rightarrow> nat" where
  "run_row n key num row = (\<lambda>i. if n \<le> i \<and> i < n + num then key + (i - n) else row i)"

text \<open>\<open>spliced s q m new num s'\<close>: from \<open>s\<close>, whose path \<open>q\<close> has its missing link after \<open>m\<close> steps, to \<open>s'\<close>, the blocks
  \<open>new\<close> were linked along the rest of the path, and \<open>num\<close> data blocks at its end.\<close>

abbreviation seg :: "nat list \<Rightarrow> nat \<Rightarrow> nat \<Rightarrow> nat" where
  "seg new num k \<equiv> (if Suc k = length new then num else 1)"

definition spliced :: "bmap \<Rightarrow> nat list \<Rightarrow> nat \<Rightarrow> nat list \<Rightarrow> nat \<Rightarrow> bmap \<Rightarrow> bool" where
  "spliced s q m new num s' \<longleftrightarrow>
     i_ptr s' = (if m = 1 then run_row (hd q) (hd new) (seg new num 0) (i_ptr s) else i_ptr s) \<and>
     (\<forall>k. Suc k < length new \<longrightarrow> ind_ptr s' (new ! k) = run_row (q ! (m + k)) (new ! Suc k) (seg new num (Suc k)) (\<lambda>_. 0)) \<and>
     (m > 1 \<longrightarrow> ind_ptr s' (walk s (take (m - 1) q)) =
        run_row (q ! (m - 1)) (hd new) (seg new num 0) (ind_ptr s (walk s (take (m - 1) q)))) \<and>
     (\<forall>b. b \<notin> set (butlast new) \<longrightarrow> (m > 1 \<longrightarrow> b \<noteq> walk s (take (m - 1) q)) \<longrightarrow> ind_ptr s' b = ind_ptr s b)"

text \<open>Where the new paths lead.\<close>

definition new_path :: "nat list \<Rightarrow> nat \<Rightarrow> nat list \<Rightarrow> nat \<Rightarrow> nat list \<Rightarrow> nat option" where
  "new_path q m new num r =
     (let l = length r - 1 in
      if m \<le> length r \<and> length r \<le> length q \<and> butlast r = take l q \<and> q ! l \<le> last r \<and> last r < q ! l + seg new num (length r - m)
      then Some (new ! (length r - m) + (last r - q ! l)) else None)"

lemma new_path_snoc:
  "new_path q m new num (r @ [x]) =
     (let l = length r in
      if m \<le> Suc l \<and> Suc l \<le> length q \<and> r = take l q \<and> q ! l \<le> x \<and> x < q ! l + seg new num (Suc l - m)
      then Some (new ! (Suc l - m) + (x - q ! l)) else None)"
  by (simp add: new_path_def Let_def)

text \<open>On the path itself.\<close>

lemma new_path_on:
  assumes "0 < m" "m \<le> l" "l \<le> length q" "0 < num"
  shows "new_path q m new num (take l q) = Some (new ! (l - m))"
proof -
  have "take l q \<noteq> []" using assms by auto
  then have "last (take l q) = q ! (l - 1)" using assms(3) by (simp add: last_conv_nth)
  then show ?thesis using assms by (simp add: new_path_def butlast_take)
qed

definition splice_site :: "nat \<Rightarrow> bmap \<Rightarrow> nat list \<Rightarrow> nat \<Rightarrow> nat list \<Rightarrow> nat \<Rightarrow> bool" where
  "splice_site bits s q m new num \<longleftrightarrow> prefix_ok bits q \<and> length q = depth_of (hd q) \<and> 0 < m \<and> m \<le> length q \<and>
     (\<forall>k. 0 < k \<longrightarrow> k < m \<longrightarrow> walk s (take k q) \<noteq> 0) \<and> walk s (take m q) = 0 \<and>
     length new = Suc (length q - m) \<and> 0 < num \<and> (length q = 1 \<longrightarrow> hd q + num \<le> 12) \<and>
     0 \<notin> set (butlast new) \<and> (\<forall>r. prefix_ok bits r \<longrightarrow> walk s r \<notin> set (butlast new))"

lemma splice_siteD:
  assumes "splice_site bits s q m new num"
  shows "prefix_ok bits q" "length q = depth_of (hd q)" "0 < m" "m \<le> length q" "0 < k \<Longrightarrow> k < m \<Longrightarrow> walk s (take k q) \<noteq> 0"
    "walk s (take m q) = 0" "length new = Suc (length q - m)" "0 < num" "length q = 1 \<Longrightarrow> hd q + num \<le> 12" "0 \<notin> set (butlast new)"
    "prefix_ok bits r \<Longrightarrow> walk s r \<notin> set (butlast new)" "q \<noteq> []" "new ! (length q - m) = last new"
proof -
  show "new ! (length q - m) = last new" using assms by (cases new rule: rev_cases) (auto simp: splice_site_def nth_append)
qed (use assms in \<open>auto simp: splice_site_def prefix_ok_def\<close>)

text \<open>One step down from a path that is not new.\<close>

lemma old_step:
  assumes site: "splice_site bits s q m new num" and r: "r \<noteq> []" "new_path q m new num r = None"
    and new: "new_path q m new num (r @ [x]) = Some b"
  shows "r = take (m - 1) q" "length r = m - 1" "1 < m"
proof -
  note d = splice_siteD [OF site]
  from new have n: "m \<le> Suc (length r)" "Suc (length r) \<le> length q" "r = take (length r) q" by (auto simp: new_path_snoc Let_def split: if_splits)
  have "\<not> m \<le> length r"
  proof
    assume "m \<le> length r"
    then have "new_path q m new num r \<noteq> None" using new_path_on [OF d(3) _ _ d(8), of "length r" q new] n by (metis Suc_leD option.distinct(1))
    then show False using r(2) by simp
  qed
  then have l: "length r = m - 1" using n(1) by simp
  then show "r = take (m - 1) q" "length r = m - 1" "1 < m" using n(3) r(1) by (auto simp: length_greater_0_conv [symmetric] simp del: length_greater_0_conv)
qed

text \<open>A new path cannot go on behind a data block.\<close>

lemma new_path_short:
  assumes site: "splice_site bits s q m new num" and r: "prefix_ok bits (r @ [x])" "new_path q m new num r = Some b"
  shows "length r < length q" "r = take (length r) q" "m \<le> length r" "b = new ! (length r - m)"
proof -
  note d = splice_siteD [OF site]
  from r(2) have n: "m \<le> length r" "length r \<le> length q" "butlast r = take (length r - 1) q" "q ! (length r - 1) \<le> last r"
    "last r < q ! (length r - 1) + seg new num (length r - m)" "b = new ! (length r - m) + (last r - q ! (length r - 1))"
    by (auto simp: new_path_def Let_def split: if_splits)
  have ne: "r \<noteq> []" using n(1) d(3) by auto
  show l: "length r < length q"
  proof (rule ccontr)
    assume "\<not> length r < length q"
    then have lq: "length r = length q" using n(2) by simp
    have "depth_of (hd r) = length q"
    proof (cases "length q = 1")
      case True
      then have "hd r = last r" "q ! 0 = hd q" using lq d(12) by (auto simp: length_Suc_conv hd_conv_nth)
      then have "hd r < 12" using n(5) d(8,9) True lq by (simp split: if_splits)
      then show ?thesis using True by (simp add: depth_of_def)
    next
      case False
      then have "1 < length q" using d(12) by (cases q) auto
      then have "hd (butlast r) = hd q" "butlast r \<noteq> []" using n(3) lq d(12) by auto
      then have "hd r = hd q" using ne by (metis append_butlast_last_id hd_append2)
      then show ?thesis using d(2) by simp
    qed
    then show False using r(1) ne lq by (simp add: prefix_ok_def)
  qed
  then have "seg new num (length r - m) = 1" using d(7) n(1) by auto
  then have e: "last r = q ! (length r - 1)" using n(4,5) by simp
  then show "m \<le> length r" "b = new ! (length r - m)" using n(1,6) by auto
  have "take (length r) q = take (length r - 1) q @ [q ! (length r - 1)]"
    using l ne by (metis One_nat_def Suc_pred length_greater_0_conv less_imp_diff_less take_Suc_conv_app_nth)
  then show "r = take (length r) q" using n(3) e ne by (metis append_butlast_last_id)
qed

lemma spliced_walk:
  assumes ok: "tree_ok bits s" and site: "splice_site bits s q m new num" and s': "spliced s q m new num s'"
  shows "prefix_ok bits r \<Longrightarrow> walk s' r = (case new_path q m new num r of Some b \<Rightarrow> b | None \<Rightarrow> walk s r)"
proof (induction r rule: rev_induct)
  case Nil
  then show ?case by (simp add: prefix_ok_def)
next
  case (snoc x r)
  note d = splice_siteD [OF site]
  have new0: "hd new = new ! 0" "hd q = q ! 0" using d(7,12) by (cases new; cases q; simp)+
  show ?case
  proof (cases "r = []")
    case True
    have "walk s' [x] = (if m = 1 then run_row (q ! 0) (new ! 0) (seg new num 0) (i_ptr s) x else i_ptr s x)"
      using s' unfolding spliced_def new0 by simp
    moreover have "new_path q m new num [x] = (if m = 1 \<and> q ! 0 \<le> x \<and> x < q ! 0 + seg new num 0 then Some (new ! 0 + (x - q ! 0)) else None)"
      using new_path_snoc [of q m new num "[]" x] d(3,12) by (auto simp: Suc_le_eq)
    ultimately show ?thesis unfolding True run_row_def by simp
  next
    case False
    note pr = prefix_ok_snoc [OF snoc.prems False]
    note ih = snoc.IH [OF pr]
    show ?thesis
    proof (cases "new_path q m new num r")
      case (Some b)
      note sh = new_path_short [OF site snoc.prems Some]
      define k where "k = length r - m"
      have k: "Suc k < length new" "m + k = length r" "Suc (length r) - m = Suc k" using d(7) sh(1,3) by (auto simp: k_def)
      have "b \<in> set (butlast new)" using sh(4) k(1) unfolding k_def [symmetric] by (metis in_set_butlastD in_set_conv_nth length_butlast less_diff_conv nth_butlast plus_1_eq_Suc add.commute)
      then have "walk s' r = new ! k" "new ! k \<noteq> 0" using ih Some sh(4) d(10) unfolding k_def by (auto intro: ccontr)
      then have "walk s' (r @ [x]) = run_row (q ! length r) (new ! Suc k) (seg new num (Suc k)) (\<lambda>_. 0) x"
        using s' k(1,2) walk_snoc [OF False, of s' x] unfolding spliced_def by (metis (no_types, lifting))
      moreover have "walk s (r @ [x]) = 0"
      proof -
        have "r = take m q @ drop m r" using sh(2,3) by (metis append_take_drop_id min.absorb1 take_take)
        then show ?thesis using walk_zero [of "take m q" s "drop m r @ [x]"] d(3,6,12) by (metis append.assoc gr_implies_not0 take_eq_Nil)
      qed
      ultimately show ?thesis using sh(1-3) k(3) unfolding new_path_snoc Let_def run_row_def by simp
    next
      case None
      then have w: "walk s' r = walk s r" using ih by simp
      show ?thesis
      proof (cases "walk s r = 0")
        case True
        have "new_path q m new num (r @ [x]) = None"
        proof (rule ccontr)
          assume "new_path q m new num (r @ [x]) \<noteq> None"
          then obtain b where "new_path q m new num (r @ [x]) = Some b" by blast
          from old_step [OF site False None this] show False using True d(5) [of "m - 1"] by simp
        qed
        then show ?thesis using True w walk_snoc [OF False] by simp
      next
        case nz: False
        have out: "walk s r \<notin> set (butlast new)" by (rule d(11) [OF pr])
        show ?thesis
        proof (cases "m > 1 \<and> walk s r = walk s (take (m - 1) q)")
          case True
          have "prefix_ok bits (take (m - 1) q)" using prefix_ok_take [OF d(1)] True by simp
          then have "r = take (m - 1) q" using ok pr nz True unfolding tree_ok_def by blast
          then have l: "r = take (length r) q" "length r = m - 1" using d(4) by auto
          have "walk s' (r @ [x]) = run_row (q ! (m - 1)) (hd new) (seg new num 0) (ind_ptr s (walk s r)) x"
            using s' True w nz walk_snoc [OF False, of s' x] unfolding spliced_def by simp
          then show ?thesis using l True d(4) walk_snoc [OF False, of s x] nz unfolding new_path_snoc Let_def run_row_def new0 by simp
        next
          case other: False
          then have "walk s' (r @ [x]) = walk s (r @ [x])"
            using s' out w nz walk_snoc [OF False] unfolding spliced_def by simp
          moreover have "new_path q m new num (r @ [x]) = None"
          proof (rule ccontr)
            assume "new_path q m new num (r @ [x]) \<noteq> None"
            then obtain b where "new_path q m new num (r @ [x]) = Some b" by blast
            from old_step [OF site False None this] show False using other by simp
          qed
          ultimately show ?thesis by simp
        qed
      qed
    qed
  qed
qed

text \<open>The two kinds of new paths.\<close>

lemma new_path_cases:
  assumes site: "splice_site bits s q m new num" and r: "r \<noteq> []" "new_path q m new num r = Some b"
  obtains (inner) "length r < length q" "m \<le> length r" "r = take (length r) q" "b = new ! (length r - m)" "length r - m < length (butlast new)"
  | (data) i where "r = butlast q @ [last q + i]" "i < num" "b = last new + i"
proof -
  note d = splice_siteD [OF site]
  from r(2) have n: "m \<le> length r" "length r \<le> length q" "butlast r = take (length r - 1) q" "q ! (length r - 1) \<le> last r"
    "last r < q ! (length r - 1) + seg new num (length r - m)" "b = new ! (length r - m) + (last r - q ! (length r - 1))"
    by (auto simp: new_path_def Let_def split: if_splits)
  have rr: "r = take (length r - 1) q @ [last r]" using r(1) n(3) by (metis append_butlast_last_id)
  show thesis
  proof (cases "length r = length q")
    case True
    then have "seg new num (length r - m) = num" "new ! (length r - m) = last new" using d(7,13) by simp_all
    moreover have "q ! (length r - 1) = last q" "take (length r - 1) q = butlast q" using True d(12) by (simp_all add: last_conv_nth butlast_conv_take)
    ultimately show thesis using data [of "last r - last q"] rr n by auto
  next
    case False
    then have s1: "seg new num (length r - m) = 1" using d(7) n(1,2) by auto
    then have "last r = q ! (length r - 1)" using n(4,5) by simp
    then have "r = take (length r) q" using rr r(1) False n(2)
      by (metis One_nat_def Suc_pred d(12) diff_less le_trans length_greater_0_conv less_le_trans nat_less_le take_Suc_conv_app_nth zero_less_one)
    moreover have "length r < length q" "length r - m < length (butlast new)" using False n(1,2) d(7) by auto
    moreover have "b = new ! (length r - m)" using n(6) \<open>last r = q ! (length r - 1)\<close> by simp
    ultimately show thesis using inner n(1) by blast
  qed
qed

lemma new_path_data:
  assumes site: "splice_site bits s q m new num" and "i < num"
  shows "new_path q m new num (butlast q @ [last q + i]) = Some (last new + i)"
proof -
  note d = splice_siteD [OF site]
  have "q ! (length q - 1) = last q" "take (length q - 1) q = butlast q" "new ! (length q - m) = last new" "Suc (length q - m) = length new"
    using d(7,12,13) by (auto simp: last_conv_nth butlast_conv_take)
  then show ?thesis using assms(2) d(4,12) unfolding new_path_snoc Let_def by (simp add: Suc_diff_le)
qed

abbreviation new_blocks_set :: "nat list \<Rightarrow> nat \<Rightarrow> nat set" where
  "new_blocks_set new num \<equiv> set (butlast new) \<union> {last new..<last new + num}"

lemma new_path_fresh:
  assumes site: "splice_site bits s q m new num" and r: "r \<noteq> []" "new_path q m new num r = Some b"
  shows "b \<in> new_blocks_set new num"
  using site r
proof (cases rule: new_path_cases)
  case inner
  then have "b = butlast new ! (length r - m)" by (simp add: nth_butlast)
  then show ?thesis using inner(5) by simp
qed simp

lemma new_path_inj:
  assumes site: "splice_site bits s q m new num" and dist: "distinct (butlast new @ [last new..<last new + num])"
    and r: "r \<noteq> []" "new_path q m new num r = Some b" and r': "r' \<noteq> []" "new_path q m new num r' = Some b"
  shows "r = r'"
  using site r
proof (cases rule: new_path_cases)
  case inner
  then have b: "b = butlast new ! (length r - m)" "b \<in> set (butlast new)" by (metis nth_butlast, metis nth_butlast nth_mem)
  show ?thesis using site r'
  proof (cases rule: new_path_cases)
    case inner': inner
    then have "butlast new ! (length r - m) = butlast new ! (length r' - m)" using b by (simp add: nth_butlast)
    then have "length r - m = length r' - m" using dist inner(5) inner'(5) by (simp add: nth_eq_iff_index_eq)
    then show ?thesis using inner(2,3) inner'(2,3) by (metis le_add_diff_inverse)
  next
    case (data i)
    then show ?thesis using dist b by auto
  qed
next
  case (data i)
  show ?thesis using site r'
  proof (cases rule: new_path_cases)
    case inner': inner
    then have "b \<in> set (butlast new)" by (metis nth_butlast nth_mem)
    then show ?thesis using dist data by auto
  next
    case data': (data j)
    then show ?thesis using data by simp
  qed
qed

text \<open>Splicing keeps the tree in order.\<close>

lemma spliced_tree_ok:
  assumes ok: "tree_ok bits s" and site: "splice_site bits s q m new num" and s': "spliced s q m new num s'"
    and dist: "distinct (butlast new @ [last new..<last new + num])" and grown: "grown (bm_bs s) (new_blocks_set new num) (bm_bs s')"
  shows "tree_ok bits s'"
proof -
  note w = spliced_walk [OF ok site s']
  have ne: "r \<noteq> []" if "prefix_ok bits r" for r using that by (simp add: prefix_ok_def)
  have old: "for_files (bm_bs s) (walk s r) \<and> block_used (bm_bs s) (walk s r)" if "prefix_ok bits r" "walk s r \<noteq> 0" for r
    using ok that by (simp add: tree_ok_def)
  have fresh: "for_files (bm_bs s) b \<and> \<not> block_used (bm_bs s) b" if "b \<in> new_blocks_set new num" for b
    using grown that unfolding grown_def by blast
  have used: "block_used (bm_bs s') b \<longleftrightarrow> block_used (bm_bs s) b \<or> b \<in> new_blocks_set new num" if "s_first_data_block (bm_bs s) \<le> b" for b
    using grown that unfolding grown_def by blast
  have same: "s_first_data_block (bm_bs s') = s_first_data_block (bm_bs s)" "for_files (bm_bs s') = for_files (bm_bs s)"
    using grown unfolding grown_def by blast+
  show ?thesis unfolding tree_ok_def
  proof (intro conjI allI impI)
    fix r r'
    assume p: "prefix_ok bits r" "prefix_ok bits r'" "walk s' r \<noteq> 0" "walk s' r = walk s' r'"
    have mixed: False if "new_path q m new num x = Some b" "new_path q m new num y = None" "walk s' x = walk s' y" "prefix_ok bits x" "prefix_ok bits y" "walk s' x \<noteq> 0" for x y b
      using that w [OF that(4)] w [OF that(5)] new_path_fresh [OF site ne [OF that(4)] that(1)] fresh old [OF that(5)] by auto
    show "r = r'"
    proof (cases "new_path q m new num r"; cases "new_path q m new num r'")
      assume "new_path q m new num r = None" "new_path q m new num r' = None"
      then show ?thesis using p w ok unfolding tree_ok_def by simp
    next
      fix b b' assume "new_path q m new num r = Some b" "new_path q m new num r' = Some b'"
      then show ?thesis using p w new_path_inj [OF site dist ne [OF p(1)] _ ne [OF p(2)]] by simp
    qed (use mixed p in metis)+
  next
    fix r assume p: "prefix_ok bits r" "walk s' r \<noteq> 0"
    show "for_files (bm_bs s') (walk s' r)" "block_used (bm_bs s') (walk s' r)"
    proof -
      have "for_files (bm_bs s) (walk s' r) \<and> (block_used (bm_bs s) (walk s' r) \<or> walk s' r \<in> new_blocks_set new num)"
        using w [OF p(1)] p old [OF p(1)] fresh new_path_fresh [OF site ne [OF p(1)]] by (cases "new_path q m new num r") auto
      then show "for_files (bm_bs s') (walk s' r)" "block_used (bm_bs s') (walk s' r)" using used same by (auto simp: for_files_def)
    qed
  next
    assume "s_first_data_block (bm_bs s') = 0"
    then show "block_used (bm_bs s') 0" using ok used same unfolding tree_ok_def by simp
  qed
qed

section \<open>The code links the blocks\<close>

lemma run_row_one: "run_row n b (Suc 0) row = row(n := b)"
  by (auto simp: run_row_def fun_eq_iff)

lemma link_blocks_rows:
  assumes "distinct (butlast (parent # blks))" and "length offs = length blks" and "0 < num"
  shows "\<exists>ind branch. link_blocks num parent blks offs s = (s\<lparr>ind_ptr := ind\<rparr>, branch) \<and>
    (\<forall>k < length blks. ind ((parent # blks) ! k) = run_row (offs ! k) (blks ! k) (if Suc k = length blks then num else 1) (\<lambda>_. 0)) \<and>
    (\<forall>b. b \<notin> set (butlast (parent # blks)) \<longrightarrow> ind b = ind_ptr s b) \<and> map snd branch = blks"
  using assms
proof (induction blks arbitrary: parent offs s)
  case Nil
  then show ?case by (auto intro: exI [of _ "ind_ptr s"])
next
  case (Cons b blks)
  then obtain off offs' where o: "offs = off # offs'" "length offs' = length blks" by (cases offs) auto
  define row where "row = (\<lambda>i. if i = off then b else if blks = [] \<and> off < i \<and> i < off + num then b + (i - off) else 0)"
  let ?s = "s\<lparr>ind_ptr := (ind_ptr s)(parent := row)\<rparr>"
  have row: "row = run_row off b (if blks = [] then num else 1) (\<lambda>_. 0)" using Cons.prems(3) by (auto simp: row_def run_row_def fun_eq_iff)
  have dist: "distinct (butlast (b # blks))" "parent \<notin> set (butlast (b # blks))" using Cons.prems(1) by auto
  from Cons.IH [OF dist(1) o(2) Cons.prems(3), of ?s] obtain ind branch where
    i: "link_blocks num b blks offs' ?s = (?s\<lparr>ind_ptr := ind\<rparr>, branch)"
      "\<forall>k < length blks. ind ((b # blks) ! k) = run_row (offs' ! k) (blks ! k) (if Suc k = length blks then num else 1) (\<lambda>_. 0)"
      "\<forall>c. c \<notin> set (butlast (b # blks)) \<longrightarrow> ind c = ind_ptr ?s c" "map snd branch = blks" by blast
  have "link_blocks num parent (b # blks) offs s = (s\<lparr>ind_ptr := ind\<rparr>, (In_Block parent off, b) # branch)"
    using i(1) unfolding o(1) by (simp add: Let_def row_def)
  moreover have "ind ((parent # b # blks) ! k) = run_row (offs ! k) ((b # blks) ! k) (if Suc k = length (b # blks) then num else 1) (\<lambda>_. 0)"
    if "k < length (b # blks)" for k
  proof (cases k)
    case 0
    have "ind parent = row" using i(3) dist(2) by simp
    then show ?thesis using 0 row o(1) by simp
  next
    case (Suc j)
    then show ?thesis using i(2) that o(1) by simp
  qed
  moreover have "ind c = ind_ptr s c" if "c \<notin> set (butlast (parent # b # blks))" for c using that i(3) by simp
  ultimately show ?case using i(4) by (intro exI [of _ ind] exI [of _ "(In_Block parent off, b) # branch"]) auto
qed

lemma set_run_append: "set_run p key (is @ [i]) s = set_ptr (loc_add p i) (key + i) (set_run p key is s)"
  by (induction "is" arbitrary: s) simp_all

text \<open>The run of pointers that starts at a place.\<close>

definition row_set :: "ptr_loc \<Rightarrow> nat \<Rightarrow> nat \<Rightarrow> bmap \<Rightarrow> bmap" where
  "row_set p key num s =
     (case p of
        In_Inode n \<Rightarrow> s\<lparr>i_ptr := run_row n key num (i_ptr s)\<rparr>
      | In_Block b n \<Rightarrow> s\<lparr>ind_ptr := (ind_ptr s)(b := run_row n key num (ind_ptr s b))\<rparr>
      | In_Local \<Rightarrow> s)"

lemma run_row_Suc: "0 < num \<Longrightarrow> run_row n key (Suc num) row = (run_row n key num row)(n + num := key + num)"
  by (auto simp: run_row_def fun_eq_iff)

lemma set_run_row:
  assumes "p \<noteq> In_Local" and "0 < num"
  shows "set_run p key [1..<num] (set_ptr p key s) = row_set p key num s"
  using assms(2)
proof (induction num)
  case (Suc num)
  show ?case
  proof (cases "num = 0")
    case True
    then show ?thesis using assms(1) by (cases p) (simp_all add: row_set_def run_row_one)
  next
    case False
    then have "set_run p key [1..<Suc num] (set_ptr p key s) = set_ptr (loc_add p num) (key + num) (row_set p key num s)"
      using Suc by (simp add: set_run_append)
    then show ?thesis using assms(1) False by (cases p) (simp_all add: row_set_def run_row_Suc)
  qed
qed simp

text \<open>The pointers after \<open>ext2_splice_branch\<close>; the rest of it does not touch the tree.\<close>

lemma splice_branch_ptrs:
  assumes "p \<noteq> In_Local" and "0 < num"
  shows "i_ptr (ext2_splice_branch e s block ((p, key) # branch) n num) = i_ptr (row_set p key (if n = 0 then num else 1) s)"
    "ind_ptr (ext2_splice_branch e s block ((p, key) # branch) n num) = ind_ptr (row_set p key (if n = 0 then num else 1) s)"
proof -
  let ?s = "if n = 0 \<and> num > 1 then set_run p key [1..<num] (set_ptr p key s) else set_ptr p key s"
  have one: "set_ptr p key s = row_set p key 1 s" using assms(1) by (cases p) (simp_all add: row_set_def run_row_one)
  have "?s = row_set p key (if n = 0 then num else 1) s"
    using set_run_row [OF assms, of key s] one assms(2) by (cases "num = 1") auto
  moreover have "i_ptr (ext2_splice_branch e s block ((p, key) # branch) n num) = i_ptr ?s"
    "ind_ptr (ext2_splice_branch e s block ((p, key) # branch) n num) = ind_ptr ?s"
    by (simp_all add: ext2_splice_branch_def Let_def split: option.splits)
  ultimately show "i_ptr (ext2_splice_branch e s block ((p, key) # branch) n num) = i_ptr (row_set p key (if n = 0 then num else 1) s)"
    "ind_ptr (ext2_splice_branch e s block ((p, key) # branch) n num) = ind_ptr (row_set p key (if n = 0 then num else 1) s)" by (simp_all only:)
qed

section \<open>Growing\<close>

lemma walk_cong: "i_ptr s' = i_ptr s \<Longrightarrow> ind_ptr s' = ind_ptr s \<Longrightarrow> walk s' = walk s \<and> place s' = place s"
proof -
  assume a: "i_ptr s' = i_ptr s" "ind_ptr s' = ind_ptr s"
  have "walk_from s' b q = walk_from s b q" for b q by (induction q arbitrary: b) (simp_all add: a)
  then have "walk s' q = walk s q" for q by (simp add: walk_def a)
  then show ?thesis by (simp add: fun_eq_iff place_def)
qed

lemma tree_ok_cong:
  assumes "tree_ok bits s" and "walk s' = walk s" and "grown (bm_bs s) {} (bm_bs s')"
  shows "tree_ok bits s'"
  using assms by (auto simp: tree_ok_def grown_def for_files_def)

definition bmap_ok :: "nat \<Rightarrow> nat \<Rightarrow> bmap \<Rightarrow> bool" where
  "bmap_ok h bits s \<longleftrightarrow> 4 \<le> bits \<and> balloc_ok h (bm_bs s) \<and> bm_block_i s \<noteq> Some h \<and> tree_ok bits s"

text \<open>Reads succeed, nothing interferes, a new allocation info is not in use, and clearing a block for
  execution in place succeeds.\<close>

definition bm_calm :: "nat \<Rightarrow> bm_env \<Rightarrow> bmap \<Rightarrow> bool" where
  "bm_calm h e s \<longleftrightarrow> calm (be_ba e) \<and> (\<forall>b. be_rd e b) \<and> be_info e \<noteq> h \<and>
     (bm_block_i s = None \<longrightarrow> rsv_is_empty (wins (bs_rsv (bm_bs s)) (be_info e))) \<and> (\<forall>err. be_xip e \<noteq> Some (Some err))"

lemma init_alloc_info_ok:
  assumes ok: "bmap_ok h bits s" and e: "bm_calm h e s"
  defines "s1 \<equiv> init_alloc_info e s"
  shows "i_ptr s1 = i_ptr s" "ind_ptr s1 = ind_ptr s" "grown (bm_bs s) {} (bm_bs s1)" "bmap_ok h bits s1"
proof -
  show ptr: "i_ptr s1 = i_ptr s" "ind_ptr s1 = ind_ptr s"
    by (simp_all add: s1_def init_alloc_info_def Let_def split: option.splits)
  have empty: "rsv_is_empty w" if "ext2_init_block_alloc_info a b = Some w" for a b w
    using that by (auto simp: ext2_init_block_alloc_info_def rsv_is_empty_def split: if_splits)
  have rs: "rsv_ok h ((bs_rsv (bm_bs s))\<lparr>wins := (wins (bs_rsv (bm_bs s)))(be_info e := w)\<rparr>)" if "rsv_is_empty w" "bm_block_i s = None" for w
    using empty_window_free [of h "bs_rsv (bm_bs s)" "be_info e" w] ok e that balloc_okD(4) by (auto simp: bmap_ok_def bm_calm_def)
  consider "s1 = s" | w where "rsv_is_empty w" "bm_block_i s = None" "s1 = s\<lparr>bm_block_i := Some (be_info e),
      bm_bs := (bm_bs s)\<lparr>bs_rsv := (bs_rsv (bm_bs s))\<lparr>wins := (wins (bs_rsv (bm_bs s)))(be_info e := w)\<rparr>\<rparr>\<rparr>"
  proof (cases "S_ISREG (i_mode (bm_inode s)) \<and> bm_block_i s = None")
    case True
    show thesis
    proof (cases "ext2_init_block_alloc_info (be_mem e) (be_reservation e)")
      case None
      then show thesis using that(1) True by (simp add: s1_def init_alloc_info_def)
    next
      case (Some w)
      then show thesis using that(2) [OF empty [OF Some]] True by (simp add: s1_def init_alloc_info_def Let_def)
    qed
  next
    case False
    have "s1 = s" unfolding s1_def init_alloc_info_def using False by (simp only: if_False)
    then show thesis by (rule that(1))
  qed
  then have "grown (bm_bs s) {} (bm_bs s1) \<and> balloc_ok h (bm_bs s1) \<and> bm_block_i s1 \<noteq> Some h"
  proof cases
    case 1
    then show ?thesis using ok grown_refl by (simp add: bmap_ok_def)
  next
    case (2 w)
    then show ?thesis using ok e grown_refl(2) balloc_ok_rsv [OF _ rs [OF 2(1,2)]] by (simp add: bmap_ok_def bm_calm_def)
  qed
  then show "grown (bm_bs s) {} (bm_bs s1)" "bmap_ok h bits s1"
    using tree_ok_cong [of bits s s1] walk_cong [OF ptr] ok by (auto simp: bmap_ok_def)
qed

lemma count_slots_ok:
  assumes "c \<le> blks" "c \<le> bd + 1"
  shows "c \<le> count_slots s p blks bd c \<and> count_slots s p blks bd c \<le> blks \<and> count_slots s p blks bd c \<le> bd + 1 \<and>
    (\<forall>i. c \<le> i \<longrightarrow> i < count_slots s p blks bd c \<longrightarrow> ptr_at s (loc_add p i) = 0)"
  using assms
proof (induction s p blks bd c rule: count_slots.induct)
  case (1 s p blks bd c)
  show ?case
  proof (cases "c < blks \<and> c \<le> bd \<and> ptr_at s (loc_add p c) = 0")
    case True
    then have "count_slots s p blks bd c = count_slots s p blks bd (c + 1)" by (subst count_slots.simps) simp
    moreover have "c + 1 \<le> blks" "c + 1 \<le> bd + 1" using True by auto
    note ih = 1(1) [OF True this]
    moreover have "ptr_at s (loc_add p i) = 0" if "c \<le> i" "i < count_slots s p blks bd (c + 1)" for i
      using ih True that by (cases "i = c") auto
    ultimately show ?thesis by auto
  next
    case False
    then have "count_slots s p blks bd c = c" by (subst count_slots.simps) auto
    then show ?thesis using 1(2,3) by simp
  qed
qed

lemma blks_to_allocate_ok:
  assumes "0 < maxblocks"
  shows "0 < ext2_blks_to_allocate s p k maxblocks bd" "ext2_blks_to_allocate s p k maxblocks bd \<le> maxblocks"
    "ext2_blks_to_allocate s p k maxblocks bd \<le> bd + 1"
    "k = 0 \<Longrightarrow> 0 < i \<Longrightarrow> i < ext2_blks_to_allocate s p k maxblocks bd \<Longrightarrow> ptr_at s (loc_add p i) = 0"
  using count_slots_ok [of 1 maxblocks bd s p] assms by (auto simp: ext2_blks_to_allocate_def Suc_le_eq)

text \<open>The rest of \<open>ext2_splice_branch\<close>.\<close>

lemma splice_branch_bs:
  assumes "balloc_ok h (bm_bs s)"
  shows "balloc_ok h (bm_bs (ext2_splice_branch e s block branch n num))" "grown (bm_bs s) {} (bm_bs (ext2_splice_branch e s block branch n num))"
    "bm_block_i (ext2_splice_branch e s block branch n num) = bm_block_i s"
proof -
  have sp: "bm_bs (set_ptr p k s) = bm_bs s" "bm_block_i (set_ptr p k s) = bm_block_i s" for p k s by (cases p; simp)+
  have sr: "bm_bs (set_run p k is s) = bm_bs s \<and> bm_block_i (set_run p k is s) = bm_block_i s" for p k "is" s
    by (induction "is" arbitrary: s) (simp_all add: sp)
  obtain p key where hd: "hd branch = (p, key)" by fastforce
  define w where "w b = (wins (bs_rsv (bm_bs s)) b)\<lparr>last_alloc_logical_block := block + num - 1,
    last_alloc_physical_block := snd (branch ! n) + num - 1\<rparr>" for b
  have bs: "bm_bs (ext2_splice_branch e s block branch n num) = (case bm_block_i s of None \<Rightarrow> bm_bs s
      | Some b \<Rightarrow> (bm_bs s)\<lparr>bs_rsv := (bs_rsv (bm_bs s))\<lparr>wins := (wins (bs_rsv (bm_bs s)))(b := w b)\<rparr>\<rparr>)"
    unfolding ext2_splice_branch_def Let_def hd w_def using sp sr by (auto split: option.splits)
  have rs: "rsv_ok h ((bs_rsv (bm_bs s))\<lparr>wins := (wins (bs_rsv (bm_bs s)))(b := w b)\<rparr>)" for b
    using balloc_okD(4) [OF assms] by (rule rsv_ok_same) (simp_all add: w_def)
  show "balloc_ok h (bm_bs (ext2_splice_branch e s block branch n num))" "grown (bm_bs s) {} (bm_bs (ext2_splice_branch e s block branch n num))"
    unfolding bs using assms balloc_ok_rsv [OF assms rs] grown_refl by (auto split: option.splits)
  show "bm_block_i (ext2_splice_branch e s block branch n num) = bm_block_i s"
    unfolding ext2_splice_branch_def Let_def hd using sp sr by (auto split: option.splits)
qed

text \<open>The last index of a path leaves room for the blocks up to the boundary.\<close>

lemma path_room:
  assumes "b < capacity bits" and "4 \<le> bits" and "i \<le> boundary bits b" and "length (path bits b) = 1"
  shows "hd (path bits b) + i < 12"
proof -
  have "butlast (path bits b) = []" "last (path bits b) = hd (path bits b)" using assms(4) by (auto simp: length_Suc_conv)
  then have p: "path bits (b + i) = [hd (path bits b) + i]" using path_next(1) [OF assms(1,3,2)] by simp
  have "length (path bits (b + i)) = depth_of (hd (path bits (b + i)))" by (rule path_facts(3) [OF path_next(2) [OF assms(1,3,2)]])
  then show ?thesis unfolding p by (simp add: depth_of_def split: if_splits)
qed

lemma fresh_site:
  assumes ok: "tree_ok bits s" and q: "prefix_ok bits q" "length q = depth_of (hd q)" "0 < m" "m \<le> length q"
    "\<forall>k. 0 < k \<longrightarrow> k < m \<longrightarrow> walk s (take k q) \<noteq> 0" "walk s (take m q) = 0"
    and new: "length new = Suc (length q - m)" "0 < num" "length q = 1 \<longrightarrow> hd q + num \<le> 12"
    and g: "grown (bm_bs s) (new_blocks_set new num) bs'"
  shows "splice_site bits s q m new num"
proof -
  have fresh: "for_files (bm_bs s) b \<and> \<not> block_used (bm_bs s) b" if "b \<in> set (butlast new)" for b
    using g that unfolding grown_def by blast
  have "0 \<notin> set (butlast new)" using fresh [of 0] ok by (auto simp: tree_ok_def for_files_def)
  moreover have "walk s r \<notin> set (butlast new)" if "prefix_ok bits r" for r
  proof
    assume a: "walk s r \<in> set (butlast new)"
    then have "walk s r \<noteq> 0" using calculation by metis
    then show False using fresh [OF a] ok that by (auto simp: tree_ok_def)
  qed
  ultimately show ?thesis using q new by (simp add: splice_site_def)
qed

text \<open>Allocating, linking and splicing.\<close>

lemma alloc_branch_ok:
  fixes iblock bits
  defines "q \<equiv> path bits iblock"
  assumes ok: "bmap_ok h bits s" and e: "calm (be_ba e)" and b: "iblock < capacity bits"
    and m: "0 < m" "m \<le> length q" "\<forall>k. 0 < k \<longrightarrow> k < m \<longrightarrow> walk s (take k q) \<noteq> 0" "walk s (take m q) = 0"
    and count: "0 < count" "count \<le> boundary bits iblock + 1"
  defines "n \<equiv> length q - m" and "p \<equiv> place s (take m q)"
  obtains (nospace) s' where "ext2_alloc_branch e s n count goal (drop (m - 1) q) p = Some (s', Inl ENOSPC)"
      "i_ptr s' = i_ptr s" "ind_ptr s' = ind_ptr s" "grown (bm_bs s) {} (bm_bs s')" "bmap_ok h bits s'"
  | (linked) s2 branch num new where "ext2_alloc_branch e s n count goal (drop (m - 1) q) p = Some (s2, Inr ((p, hd new) # branch, num))"
      "map snd branch = tl new" "num \<le> count" "splice_site bits s q m new num"
      "spliced s q m new num (ext2_splice_branch e s2 iblock ((p, hd new) # branch) n num)"
      "grown (bm_bs s) (new_blocks_set new num) (bm_bs (ext2_splice_branch e s2 iblock ((p, hd new) # branch) n num))"
      "bmap_ok h bits (ext2_splice_branch e s2 iblock ((p, hd new) # branch) n num)"
proof -
  have o: "balloc_ok h (bm_bs s)" "tree_ok bits s" "bm_block_i s \<noteq> Some h" "4 \<le> bits" using ok by (auto simp: bmap_ok_def)
  have q: "prefix_ok bits q" "length q = depth_of (hd q)" "q \<noteq> []" using path_facts(2,3) [OF b] by (auto simp: q_def prefix_ok_def)
  have tl: "tl (drop (m - 1) q) = drop m q" using m(1) by (simp add: drop_Suc [symmetric] tl_drop)
  from alloc_blocks_ok [OF e o(3,1) count(1), of n goal] obtain bs' r where
    a: "ext2_alloc_blocks (be_ba e) (bm_bs s) (bm_block_i s) goal n count = Some (bs', r)" "balloc_ok h bs'"
      "case r of Inl err \<Rightarrow> err = ENOSPC \<and> grown (bm_bs s) {} bs'
        | Inr (blks, num) \<Rightarrow> length blks = Suc n \<and> 0 < num \<and> num \<le> count \<and> distinct (butlast blks @ [last blks..<last blks + num]) \<and>
            grown (bm_bs s) (new_blocks_set blks num) bs'"
    unfolding branch_blocks_def by blast
  show thesis
  proof (cases r)
    case (Inl err)
    let ?s = "s\<lparr>bm_bs := bs'\<rparr>"
    have g: "err = ENOSPC" "grown (bm_bs s) {} (bm_bs ?s)" using a(3) Inl by simp_all
    have "tree_ok bits ?s" using tree_ok_cong [OF o(2) _ g(2)] walk_cong [of ?s s] by simp
    then have "bmap_ok h bits ?s" using o a(2) by (simp add: bmap_ok_def)
    moreover have "ext2_alloc_branch e s n count goal (drop (m - 1) q) p = Some (?s, Inl ENOSPC)"
      using a(1) Inl g(1) by (simp add: ext2_alloc_branch_def)
    ultimately show thesis using nospace [of ?s] g(2) by simp
  next
    case (Inr x)
    then obtain new num where x: "x = (new, num)" by fastforce
    then have w: "length new = Suc n" "0 < num" "num \<le> count" "distinct (butlast new @ [last new..<last new + num])"
      "grown (bm_bs s) (new_blocks_set new num) bs'" using a(3) Inr by auto
    have new: "new = hd new # tl new" "new \<noteq> []" using w(1) by (cases new; simp)+
    have room: "length q = 1 \<longrightarrow> hd q + num \<le> 12"
    proof
      assume "length q = 1"
      then have "hd q + (num - 1) < 12" using path_room [OF b o(4), of "num - 1"] w(2,3) count(2) unfolding q_def by simp
      then show "hd q + num \<le> 12" using w(2) by simp
    qed
    have site: "splice_site bits s q m new num"
      by (rule fresh_site [OF o(2) q(1,2) m _ w(2) room w(5)]) (use w(1) in \<open>simp add: n_def\<close>)
    note d = splice_siteD [OF site]
    have "distinct (butlast (hd new # tl new))" "length (drop m q) = length (tl new)" using w(1,4) new(1) by (auto simp: n_def)
    from link_blocks_rows [OF this w(2), of "s\<lparr>bm_bs := bs'\<rparr>"] obtain ind branch where
      l: "link_blocks num (hd new) (tl new) (drop m q) (s\<lparr>bm_bs := bs'\<rparr>) = (s\<lparr>bm_bs := bs', ind_ptr := ind\<rparr>, branch)"
        "\<forall>k < length (tl new). ind ((hd new # tl new) ! k) = run_row (drop m q ! k) (tl new ! k) (if Suc k = length (tl new) then num else 1) (\<lambda>_. 0)"
        "\<forall>b. b \<notin> set (butlast (hd new # tl new)) \<longrightarrow> ind b = ind_ptr s b" "map snd branch = tl new" by auto
    let ?s2 = "s\<lparr>bm_bs := bs', ind_ptr := ind\<rparr>"
    let ?s3 = "ext2_splice_branch e ?s2 iblock ((p, hd new) # branch) n num"
    have run: "ext2_alloc_branch e s n count goal (drop (m - 1) q) p = Some (?s2, Inr ((p, hd new) # branch, num))"
      using a(1) Inr x l(1) tl by (simp add: ext2_alloc_branch_def Let_def)
    have seg0: "(if n = 0 then num else 1) = seg new num 0" using w(1) by simp
    have pl: "p = (if m = 1 then In_Inode (hd q) else In_Block (walk s (take (m - 1) q)) (q ! (m - 1)))"
    proof -
      have "length (take m q) = m" "butlast (take m q) = take (m - 1) q" "last (take m q) = q ! (m - 1)"
        using m(1,2) q(3) by (simp_all add: butlast_take last_conv_nth)
      then show ?thesis using m(1) by (simp add: p_def place_def)
    qed
    then have "p \<noteq> In_Local" by simp
    note sp = splice_branch_ptrs [OF this w(2), of e ?s2 iblock "hd new" branch n, unfolded seg0]
    have rows: "ind (new ! k) = run_row (q ! (m + k)) (new ! Suc k) (seg new num (Suc k)) (\<lambda>_. 0)" if "Suc k < length new" for k
    proof -
      have "k < length (tl new)" "m + k < length q" "tl new ! k = new ! Suc k" "(Suc k = length (tl new)) = (Suc (Suc k) = length new)"
        using that w(1) new by (auto simp: n_def nth_tl)
      then show ?thesis using l(2) new(1) by simp
    qed
    have other: "ind x = ind_ptr s x" if "x \<notin> set (butlast new)" for x using l(3) that new(1) by simp
    have old: "walk s (take (m - 1) q) \<notin> set (butlast new)" if "m > 1" using d(11) [OF prefix_ok_take [OF d(1)]] that by simp
    have inner: "new ! k \<in> set (butlast new)" if "Suc k < length new" for k
      using that by (metis length_butlast less_diff_conv nth_butlast nth_mem plus_1_eq_Suc add.commute)
    have i3: "i_ptr ?s3 = (if m = 1 then run_row (hd q) (hd new) (seg new num 0) (i_ptr s) else i_ptr s)" unfolding sp(1)
      by (simp add: row_set_def pl)
    have d3: "ind_ptr ?s3 = (if m = 1 then ind else ind(walk s (take (m - 1) q) := run_row (q ! (m - 1)) (hd new) (seg new num 0) (ind (walk s (take (m - 1) q)))))"
      unfolding sp(2) by (simp add: row_set_def pl)
    have spl: "spliced s q m new num ?s3"
    proof (cases "m = 1")
      case True
      show ?thesis unfolding spliced_def i3 d3 using True rows other by simp
    next
      case False
      then have m1: "1 < m" using m(1) by simp
      have "new ! k \<noteq> walk s (take (m - 1) q)" if "Suc k < length new" for k using inner [OF that] old [OF m1] by metis
      then show ?thesis unfolding spliced_def i3 d3 using m1 rows other [OF old [OF m1]] other by (simp del: One_nat_def)
    qed
    have bs2: "balloc_ok h (bm_bs ?s2)" using a(2) by simp
    note sb = splice_branch_bs [OF bs2, of e iblock "(p, hd new) # branch" n num]
    have g: "grown (bm_bs s) (new_blocks_set new num) (bm_bs ?s3)" using grown_trans(1) [of _ "new_blocks_set new num" "bm_bs ?s2" "{}"] w(5) sb(2) by simp
    have "bmap_ok h bits ?s3" using o(3,4) sb(1,3) spliced_tree_ok [OF o(2) site spl w(4) g] by (simp add: bmap_ok_def)
    then show thesis using linked [OF run l(4) w(3) site spl g] by blast
  qed
qed

section \<open>The map of blocks\<close>

definition mapping :: "nat \<Rightarrow> bmap \<Rightarrow> nat \<Rightarrow> nat" where
  "mapping bits s b = (if b < capacity bits then walk s (path bits b) else 0)"

lemma mapping_spliced:
  fixes iblock bits
  defines "q \<equiv> path bits iblock"
  assumes ok: "tree_ok bits s" and bits: "4 \<le> bits" and b: "iblock < capacity bits" and site: "splice_site bits s q m new num"
    and s': "spliced s q m new num s'" and num: "num \<le> boundary bits iblock + 1"
  shows "mapping bits s' c = (if iblock \<le> c \<and> c < iblock + num then last new + (c - iblock) else mapping bits s c)"
proof -
  note d = splice_siteD [OF site]
  have nxt: "path bits (iblock + i) = butlast q @ [last q + i]" "iblock + i < capacity bits" if "i < num" for i
    using path_next [OF b _ bits, of i] that num unfolding q_def by simp_all
  show ?thesis
  proof (cases "c < capacity bits")
    case False
    have "\<not> (iblock \<le> c \<and> c < iblock + num)"
    proof
      assume a: "iblock \<le> c \<and> c < iblock + num"
      then have "c - iblock < num" by linarith
      from nxt(2) [OF this] show False using False a by simp
    qed
    then show ?thesis using False unfolding if_not_P [OF \<open>\<not> (iblock \<le> c \<and> c < iblock + num)\<close>] by (simp add: mapping_def)
  next
    case True
    note pf = path_facts [OF True]
    note w = spliced_walk [OF ok site s' pf(2)]
    have np: "new_path q m new num (path bits c) = (if iblock \<le> c \<and> c < iblock + num then Some (last new + (c - iblock)) else None)"
    proof (cases "iblock \<le> c \<and> c < iblock + num")
      case True
      then have i: "c - iblock < num" "iblock + (c - iblock) = c" by linarith+
      have "path bits c = butlast q @ [last q + (c - iblock)]" using nxt(1) [OF i(1)] unfolding i(2) .
      then show ?thesis using new_path_data [OF site i(1)] True by simp
    next
      case False
      have "new_path q m new num (path bits c) = None"
      proof (rule ccontr)
        assume "new_path q m new num (path bits c) \<noteq> None"
        then obtain x where x: "new_path q m new num (path bits c) = Some x" by blast
        have ne: "path bits c \<noteq> []" using pf(2) by (simp add: prefix_ok_def)
        from site ne x show False
        proof (cases rule: new_path_cases)
          case inner
          then have "hd (path bits c) = hd q" using ne d(12) by (metis hd_take length_greater_0_conv)
          then show False using pf(3) d(2) inner(1) by simp
        next
          case (data i)
          then have "path bits c = path bits (iblock + i)" using nxt(1) by simp
          then have "c = iblock + i" using path_inj [OF True nxt(2)] data(2) by simp
          then show False using False data(2) by simp
        qed
      qed
      then show ?thesis using False by simp
    qed
    show ?thesis using w True unfolding mapping_def np by simp
  qed
qed

text \<open>The slots behind the first one.\<close>

lemma place_next: "q \<noteq> [] \<Longrightarrow> loc_add (place s q) i = place s (butlast q @ [last q + i])"
  by (cases q rule: rev_cases) (auto simp: place_def)

lemma ptr_at_next:
  assumes "q \<noteq> []" and "length q = 1 \<or> walk s (butlast q) \<noteq> 0"
  shows "ptr_at s (loc_add (place s q) i) = walk s (butlast q @ [last q + i])"
proof -
  have "ptr_at s (place s (butlast q @ [last q + i])) = walk s (butlast q @ [last q + i])"
    by (rule ptr_at_place) (use assms in \<open>auto simp: length_Suc_conv\<close>)
  then show ?thesis using place_next [OF assms(1)] by simp
qed

lemma map_more_ok:
  assumes v: "verify_chain s ch" and "c \<le> maxblocks" "c \<le> bd + 1"
  shows "\<exists>c'. map_more s ch maxblocks bd c = (c', None) \<and> c \<le> c' \<and> c' \<le> maxblocks \<and> c' \<le> bd + 1 \<and>
    (\<forall>i. c \<le> i \<longrightarrow> i < c' \<longrightarrow> ptr_at s (loc_add (fst (last ch)) i) = snd (last ch) + i)"
  using assms
proof (induction s ch maxblocks bd c rule: map_more.induct)
  case (1 s ch maxblocks bd c)
  show ?case
  proof (cases "c < maxblocks \<and> c \<le> bd \<and> ptr_at s (loc_add (fst (last ch)) c) = snd (last ch) + c")
    case True
    then have u: "map_more s ch maxblocks bd c = map_more s ch maxblocks bd (c + 1)" using 1(2) by (subst map_more.simps) simp
    have "c < maxblocks \<and> c \<le> bd" "\<not> \<not> verify_chain s ch" "ptr_at s (loc_add (fst (last ch)) c) = snd (last ch) + c" "c + 1 \<le> maxblocks" "c + 1 \<le> bd + 1"
      using True 1(2) by auto
    from 1(1) [OF this(1-3) 1(2) this(4,5)] obtain c' where
      c': "map_more s ch maxblocks bd (c + 1) = (c', None)" "c + 1 \<le> c'" "c' \<le> maxblocks" "c' \<le> bd + 1"
        "\<forall>i. c + 1 \<le> i \<longrightarrow> i < c' \<longrightarrow> ptr_at s (loc_add (fst (last ch)) i) = snd (last ch) + i" by blast
    have "ptr_at s (loc_add (fst (last ch)) i) = snd (last ch) + i" if "c \<le> i" "i < c'" for i
      using c'(5) True that by (cases "i = c") auto
    then show ?thesis unfolding u using c' by auto
  next
    case False
    then have "map_more s ch maxblocks bd c = (c, None)" using 1(2) by (subst map_more.simps) auto
    then show ?thesis using 1(3,4) by simp
  qed
qed

text \<open>The part that allocates.\<close>

lemma grow_branch_ok:
  fixes iblock bits
  defines "q \<equiv> path bits iblock"
  assumes ok: "bmap_ok h bits s" and e: "bm_calm h e s" and b: "iblock < capacity bits" and mx: "0 < maxblocks"
    and m: "0 < m" "m \<le> length q" "\<forall>k. 0 < k \<longrightarrow> k < m \<longrightarrow> walk s (take k q) \<noteq> 0" "walk s (take m q) = 0"
  obtains (nospace) s' where "grow_branch e s iblock maxblocks q (boundary bits iblock) (chain_of s q m) = Some (s', Inl ENOSPC)"
      "bmap_ok h bits s'" "mapping bits s' = mapping bits s" "grown (bm_bs s) {} (bm_bs s')"
  | (grown) s' bh where "grow_branch e s iblock maxblocks q (boundary bits iblock) (chain_of s q m) = Some (s', Inr (Some bh))"
      "bmap_ok h bits s'" "bh_new bh" "0 < bh_count bh" "bh_count bh \<le> maxblocks" "\<forall>i < bh_count bh. mapping bits s (iblock + i) = 0"
      "\<forall>c. mapping bits s' c = (if iblock \<le> c \<and> c < iblock + bh_count bh then bh_block bh + (c - iblock) else mapping bits s c)"
      "\<forall>i < bh_count bh. \<not> block_used (bm_bs s) (bh_block bh + i)"
proof -
  define s1 where "s1 = init_alloc_info e s"
  note i1 = init_alloc_info_ok [OF ok e, folded s1_def]
  have wk: "walk s1 = walk s" "place s1 = place s" using walk_cong [OF i1(1,2)] by blast+
  have map1: "mapping bits s1 = mapping bits s" by (simp add: mapping_def wk fun_eq_iff)
  have ne: "q \<noteq> []" using m(1,2) by auto
  have fst_last: "fst (last (chain_of s q m)) = place s1 (take m q)" using m(1) wk by simp
  define n where "n = length q - m"
  define goal where "goal = ext2_find_goal e s1 iblock (place s1 (take m q))"
  define count where "count = ext2_blks_to_allocate s1 (place s1 (take m q)) n maxblocks (boundary bits iblock)"
  note ct = blks_to_allocate_ok [OF mx, where s = s1 and p = "place s1 (take m q)" and k = n and bd = "boundary bits iblock", folded count_def]
  have unf: "grow_branch e s iblock maxblocks q (boundary bits iblock) (chain_of s q m) = do {
        (s, r) \<leftarrow> ext2_alloc_branch e s1 n count goal (drop (m - 1) q) (place s1 (take m q));
        (case r of
           Inl err \<Rightarrow> Some (s, Inl err)
         | Inr (branch, count) \<Rightarrow> Some (ext2_splice_branch e s iblock branch n count, Inr (got_it (snd (last branch)) True (boundary bits iblock) count)))
      }"
    unfolding grow_branch_def Let_def s1_def [symmetric] fst_last chain_of_simps(1) n_def [symmetric] goal_def [symmetric] count_def [symmetric]
  proof -
    consider "be_xip e = None" | "be_xip e = Some None" using e by (cases "be_xip e") (auto simp: bm_calm_def)
    then show "do {
        (s, r) \<leftarrow> ext2_alloc_branch e s1 n count goal (drop (m - 1) q) (place s1 (take m q));
        (case r of
           Inl err \<Rightarrow> Some (s, Inl err)
         | Inr (branch, count) \<Rightarrow>
             (case be_xip e of
                Some (Some err) \<Rightarrow> Some (s, Inl err)
              | _ \<Rightarrow> Some (ext2_splice_branch e s iblock branch n count, Inr (got_it (snd (last branch)) True (boundary bits iblock) count))))
      } = do {
        (s, r) \<leftarrow> ext2_alloc_branch e s1 n count goal (drop (m - 1) q) (place s1 (take m q));
        (case r of
           Inl err \<Rightarrow> Some (s, Inl err)
         | Inr (branch, count) \<Rightarrow> Some (ext2_splice_branch e s iblock branch n count, Inr (got_it (snd (last branch)) True (boundary bits iblock) count)))
      }"
    proof cases
      case 1
      show ?thesis unfolding 1 option.case ..
    next
      case 2
      show ?thesis unfolding 2 option.case ..
    qed
  qed
  have m1: "\<forall>k. 0 < k \<longrightarrow> k < m \<longrightarrow> walk s1 (take k q) \<noteq> 0" "walk s1 (take m q) = 0" using m wk by simp_all
  have cm: "calm (be_ba e)" using e by (simp add: bm_calm_def)
  from i1(4) cm b m(1) m(2) [unfolded q_def] m1 [unfolded q_def] ct(1,3) show thesis
  proof (cases rule: alloc_branch_ok [where goal = goal])
    case (nospace s')
    note nospace = nospace [folded q_def, folded n_def]
    have "mapping bits s' = mapping bits s" using walk_cong [OF nospace(2,3)] wk by (simp add: mapping_def fun_eq_iff)
    moreover have "grown (bm_bs s) {} (bm_bs s')" using grown_trans(1) [OF i1(3) nospace(4)] by simp
    ultimately show thesis using that(1) nospace(1,5) unf by simp
  next
    case (linked s2 branch num new)
    note linked = linked [folded q_def, folded n_def]
    let ?s3 = "ext2_splice_branch e s2 iblock ((place s1 (take m q), hd new) # branch) n num"
    note d = splice_siteD [OF linked(4)]
    have o1: "tree_ok bits s1" "4 \<le> bits" using i1(4) by (auto simp: bmap_ok_def)
    have nb: "num \<le> boundary bits iblock + 1" using linked(3) ct(3) by simp
    note mp = mapping_spliced [OF o1(1,2) b linked(4) [unfolded q_def] linked(5) [unfolded q_def] nb, folded q_def]
    have lb: "snd (last ((place s1 (take m q), hd new) # branch)) = last new"
    proof -
      have "map snd ((place s1 (take m q), hd new) # branch) = new" using linked(2) d(7) by (cases new) simp_all
      then show ?thesis by (metis last_map list.distinct(1))
    qed
    let ?bh = "\<lparr>bh_block = last new, bh_new = True, bh_boundary = (num > boundary bits iblock), bh_count = num\<rparr>"
    have r: "grow_branch e s iblock maxblocks q (boundary bits iblock) (chain_of s q m) = Some (?s3, Inr (Some ?bh))"
      unfolding unf using linked(1) lb by (simp add: got_it_def)
    have hole: "mapping bits s (iblock + i) = 0" if "i < num" for i
    proof -
      have p: "path bits (iblock + i) = butlast q @ [last q + i]" using path_next(1) [OF b _ o1(2), of i] that nb unfolding q_def by simp
      have "walk s (butlast q @ [last q + i]) = 0"
      proof (cases "m = length q")
        case True
        show ?thesis
        proof (cases "i = 0")
          case True
          then show ?thesis using m(4) \<open>m = length q\<close> ne by simp
        next
          case False
          have "length q = 1 \<or> walk s (butlast q) \<noteq> 0" using m(3) True ne by (cases "length q = 1") (auto simp: butlast_conv_take Suc_lessI)
          then have "length q = 1 \<or> walk s1 (butlast q) \<noteq> 0" using wk by simp
          from ptr_at_next [OF ne this] have "ptr_at s1 (loc_add (place s1 q) i) = walk s (butlast q @ [last q + i])" using wk by simp
          then show ?thesis using ct(4) [of i] True False that linked(3) by (simp add: n_def)
        qed
      next
        case False
        then have "butlast q = take m q @ drop m (butlast q)" using m(2) by (metis append_take_drop_id butlast_conv_take le_neq_implies_less less_Suc_eq_le min.absorb1 take_take Suc_diff_1 length_greater_0_conv ne)
        then show ?thesis using walk_zero [OF _ m(4), of "drop m (butlast q) @ [last q + i]"] m(1) ne by (metis append.assoc gr_implies_not0 take_eq_Nil)
      qed
      then show ?thesis unfolding mapping_def p by simp
    qed
    have fresh: "\<not> block_used (bm_bs s) (last new + i)" if "i < num" for i
    proof -
      have "last new + i \<in> new_blocks_set new num" using that by simp
      then have "for_files (bm_bs s1) (last new + i)" "\<not> block_used (bm_bs s1) (last new + i)" using linked(6) unfolding grown_def by blast+
      then show ?thesis using i1(3) by (auto simp: grown_def for_files_def)
    qed
    show thesis using that(2) [OF r linked(7)] d(8) linked(3) ct(2) hole fresh mp map1 by simp
  qed
qed

lemma get_blocks_ok:
  assumes ok: "bmap_ok h bits s" and e: "bm_calm h e s" and b: "iblock < capacity bits" and mx: "0 < maxblocks"
  obtains (found) bh where "mapping bits s iblock \<noteq> 0" "ext2_get_blocks bits e s iblock maxblocks create = Some (s, Inr (Some bh))" "\<not> bh_new bh"
      "0 < bh_count bh" "bh_count bh \<le> maxblocks" "\<forall>i < bh_count bh. mapping bits s (iblock + i) = bh_block bh + i"
  | (hole) "mapping bits s iblock = 0" "\<not> create" "ext2_get_blocks bits e s iblock maxblocks create = Some (s, Inr None)"
  | (nospace) s' where "mapping bits s iblock = 0" "create" "ext2_get_blocks bits e s iblock maxblocks create = Some (s', Inl ENOSPC)"
      "bmap_ok h bits s'" "mapping bits s' = mapping bits s" "grown (bm_bs s) {} (bm_bs s')"
  | (grown) s' bh where "mapping bits s iblock = 0" "create" "ext2_get_blocks bits e s iblock maxblocks create = Some (s', Inr (Some bh))"
      "bmap_ok h bits s'" "bh_new bh" "0 < bh_count bh" "bh_count bh \<le> maxblocks" "\<forall>i < bh_count bh. mapping bits s (iblock + i) = 0"
      "\<forall>c. mapping bits s' c = (if iblock \<le> c \<and> c < iblock + bh_count bh then bh_block bh + (c - iblock) else mapping bits s c)"
      "\<forall>i < bh_count bh. \<not> block_used (bm_bs s) (bh_block bh + i)"
proof -
  define q where "q = path bits iblock"
  let ?bd = "boundary bits iblock"
  have ne: "q \<noteq> []" "4 \<le> bits" using path_facts(2) [OF b] ok by (auto simp: q_def prefix_ok_def bmap_ok_def)
  have mp: "mapping bits s iblock = walk s q" using b by (simp add: mapping_def q_def)
  have rd: "\<forall>b. be_rd e b" using e by (simp add: bm_calm_def)
  from get_branch_ok [OF rd ne(1), of s] obtain m whole where
    br: "ext2_get_branch (be_rd e) s q = (chain_of s q m, whole, None)" "0 < m" "m \<le> length q" "\<forall>k. 0 < k \<longrightarrow> k < m \<longrightarrow> walk s (take k q) \<noteq> 0"
      "if whole then m = length q \<and> walk s q \<noteq> 0 else walk s (take m q) = 0" unfolding branch_ok_def by blast
  have v: "verify_chain s (chain_of s q m)" by (rule chain_verified [OF ne(1) _ br(3)]) (use br(4) in blast)
  have unf: "ext2_get_blocks bits e s iblock maxblocks create =
    (let (count, err) = (if whole then map_more s (chain_of s q m) maxblocks ?bd 1 else (0, None))
     in if whole \<and> err \<noteq> Some EAGAIN then Some (s, Inr (got_it (snd (last (chain_of s q m))) False ?bd count))
        else if \<not> create \<or> err = Some EIO then Some (s, case err of None \<Rightarrow> Inr None | Some x \<Rightarrow> Inl x)
        else if err = Some EAGAIN \<or> \<not> verify_chain s (chain_of s q m)
        then if whole then Some (s, Inr (got_it (snd (last (chain_of s q m))) False ?bd (count + 1)))
             else grow_branch e s iblock maxblocks q ?bd (chain_of s q m)
        else grow_branch e s iblock maxblocks q ?bd (chain_of s q m))"
    using ne(1) br(1) unfolding ext2_get_blocks_def q_def by (simp add: split_beta Let_def)
  show thesis
  proof (cases whole)
    case True
    then have w: "m = length q" "walk s q \<noteq> 0" using br(5) by simp_all
    from map_more_ok [OF v, of 1 maxblocks ?bd] mx obtain c where
      c: "map_more s (chain_of s q m) maxblocks ?bd 1 = (c, None)" "1 \<le> c" "c \<le> maxblocks" "c \<le> ?bd + 1"
        "\<forall>i. 1 \<le> i \<longrightarrow> i < c \<longrightarrow> ptr_at s (loc_add (place s q) i) = walk s q + i" using w(1) br(2) by auto
    let ?bh = "\<lparr>bh_block = walk s q, bh_new = False, bh_boundary = (c > ?bd), bh_count = c\<rparr>"
    have r: "ext2_get_blocks bits e s iblock maxblocks create = Some (s, Inr (Some ?bh))"
      unfolding unf using True c(1) w(1) br(2) by (simp add: got_it_def)
    have "length q = 1 \<or> walk s (butlast q) \<noteq> 0" using br(4) w(1) ne by (cases "length q = 1") (auto simp: butlast_conv_take Suc_lessI)
    note pn = ptr_at_next [OF ne(1) this]
    have "mapping bits s (iblock + i) = walk s q + i" if "i < c" for i
    proof (cases "i = 0")
      case False
      have "path bits (iblock + i) = butlast q @ [last q + i]" "iblock + i < capacity bits" using path_next [OF b _ ne(2), of i] that c(4) unfolding q_def by simp_all
      then have "mapping bits s (iblock + i) = walk s (butlast q @ [last q + i])" by (simp only: mapping_def if_True)
      then show ?thesis using c(5) False that pn by simp
    qed (use mp in simp)
    then show thesis using found [OF _ r] mp w(2) c(2,3) by simp
  next
    case False
    then have w: "walk s (take m q) = 0" using br(5) by simp
    have z: "walk s q = 0"
      using walk_zero [of "take m q" s "drop m q"] w br(2) ne(1) by simp
    show thesis
    proof (cases create)
      case False
      then show thesis using hole mp z unf \<open>\<not> whole\<close> by simp
    next
      case True
      have r: "ext2_get_blocks bits e s iblock maxblocks create = grow_branch e s iblock maxblocks q ?bd (chain_of s q m)"
        unfolding unf using False True v by simp
      from ok e b mx br(2) br(3,4) [unfolded q_def] w [unfolded q_def] show thesis
      proof (cases rule: grow_branch_ok)
        case (nospace s')
        then show thesis using that(3) mp z True r unfolding q_def by simp
      next
        case (grown s' bh)
        then show thesis using that(4) mp z True r unfolding q_def by simp
      qed
    qed
  qed
qed

section \<open>Example\<close>

text \<open>An empty file on the device of theory \<open>Ext2_Blocks\<close>, with blocks of 1024 bytes.\<close>

definition bmap_ex :: bmap where
  "bmap_ex = \<lparr>bm_inode = parent_ex, i_ptr = (\<lambda>_. 0), ind_ptr = (\<lambda>_ _. 0), nr_ptr = 0, bm_bs = balloc_ex, bm_block_i = None\<rparr>"

definition bm_env_ex :: bm_env where
  "bm_env_ex = \<lparr>be_ba = ba_ex, be_rd = (\<lambda>_. True), be_pid = 3, be_now = 5, be_mem = True, be_reservation = True, be_info = 1, be_xip = None\<rparr>"

lemma bmap_ex_ok: "bmap_ok 0 8 bmap_ex" "bm_calm 0 bm_env_ex bmap_ex" "mapping 8 bmap_ex b = 0"
proof -
  have z: "walk bmap_ex q = 0" for q by (cases "tl q") (simp_all add: walk_def bmap_ex_def)
  have "s_first_data_block balloc_ex = 1" by (simp add: balloc_ex_def)
  then have "tree_ok 8 bmap_ex" unfolding tree_ok_def z by (simp add: bmap_ex_def)
  then show "bmap_ok 0 8 bmap_ex" using balloc_ex_ok(1) by (simp add: bmap_ok_def) (simp add: bmap_ex_def)
  show "bm_calm 0 bm_env_ex bmap_ex" using calm_ex(1) by (simp add: bm_calm_def bm_env_ex_def bmap_ex_def balloc_ex_def rsv_is_empty_def)
  show "mapping 8 bmap_ex b = 0" by (simp add: mapping_def z)
qed

section \<open>Properties\<close>

text \<open>The blocks of a file below the capacity of the tree and the full paths in it correspond one to one:
  the path of a block is a full path, its offsets determine the block, and every full path is the path
  of the block its offsets stand for. Blocks beyond the capacity have no path.\<close>

theorem paths_correspond:
  "(\<forall>b. if b < capacity bits
     then prefix_ok bits (path bits b) \<and> length (path bits b) = depth_of (hd (path bits b)) \<and> path_block (2 ^ bits) (path bits b) = b
     else path bits b = []) \<and>
   (\<forall>q. prefix_ok bits q \<longrightarrow> length q = depth_of (hd q) \<longrightarrow> path_block (2 ^ bits) q < capacity bits \<and> path bits (path_block (2 ^ bits) q) = q)"
  using path_facts path_none block_path by (auto simp: not_less)

theorem paths_correspond_witness: "path 8 268 = [13, 0, 0] \<and> path_block 256 (path 8 268) = 268"
  using paths_correspond [of 8] by (auto simp: ext2_block_to_path_def Let_def)

text \<open>C22: Mapping a block of a file. A block that is mapped is found, together with blocks that follow it both
  in the file and on the device, and nothing changes. A hole is reported as such unless it is to be
  filled. Then either no space is left, and neither the map nor the set of blocks in use has changed, not
  even when some of the blocks for the branch had been allocated; or the map changes at the first blocks
  of the hole, which get blocks that were free, and at no other block of the file, and the tree stays in order.\<close>

theorem get_blocks_maps:
  assumes "bmap_ok h bits s" and "bm_calm h e s" and "iblock < capacity bits" and "0 < maxblocks"
  shows "if mapping bits s iblock \<noteq> 0
    then \<exists>bh. ext2_get_blocks bits e s iblock maxblocks create = Some (s, Inr (Some bh)) \<and> \<not> bh_new bh \<and>
      0 < bh_count bh \<and> bh_count bh \<le> maxblocks \<and> (\<forall>i < bh_count bh. mapping bits s (iblock + i) = bh_block bh + i)
    else if \<not> create then ext2_get_blocks bits e s iblock maxblocks create = Some (s, Inr None)
    else
      (\<exists>s'. ext2_get_blocks bits e s iblock maxblocks create = Some (s', Inl ENOSPC) \<and> bmap_ok h bits s' \<and> mapping bits s' = mapping bits s \<and>
         (\<forall>b \<ge> s_first_data_block (bm_bs s). block_used (bm_bs s') b = block_used (bm_bs s) b)) \<or>
      (\<exists>s' bh. ext2_get_blocks bits e s iblock maxblocks create = Some (s', Inr (Some bh)) \<and> bmap_ok h bits s' \<and> bh_new bh \<and>
         0 < bh_count bh \<and> bh_count bh \<le> maxblocks \<and> (\<forall>i < bh_count bh. mapping bits s (iblock + i) = 0) \<and>
         (\<forall>c. mapping bits s' c = (if iblock \<le> c \<and> c < iblock + bh_count bh then bh_block bh + (c - iblock) else mapping bits s c)) \<and>
         (\<forall>i < bh_count bh. \<not> block_used (bm_bs s) (bh_block bh + i)))"
  using assms
proof (cases rule: get_blocks_ok [where create = create])
  case (nospace s')
  then have "\<forall>b \<ge> s_first_data_block (bm_bs s). block_used (bm_bs s') b = block_used (bm_bs s) b" by (simp add: grown_def)
  then show ?thesis using nospace(1-5) by simp
next
  case (grown s' bh)
  then show ?thesis by simp
qed simp_all

theorem get_blocks_maps_witness:
  "(\<exists>s'. ext2_get_blocks 8 bm_env_ex bmap_ex 300 4 True = Some (s', Inl ENOSPC)) \<or>
   (\<exists>s' bh. ext2_get_blocks 8 bm_env_ex bmap_ex 300 4 True = Some (s', Inr (Some bh)) \<and> bmap_ok 0 8 s' \<and> mapping 8 s' 300 = bh_block bh)"
proof -
  have "300 < capacity 8" by (simp add: capacity_def)
  from get_blocks_maps [OF bmap_ex_ok(1,2) this, of 4 True] show ?thesis by (auto simp: bmap_ex_ok(3))
qed

end
