(* ===== verification/Ext2_Prune.thy ===== *)
theory Ext2_Prune
  imports Ext2_Grow
begin

text \<open>
  Truncation, a3/inode.c: what \<open>ext2_free_data\<close>, \<open>ext2_free_branches\<close> and \<open>ext2_truncate\<close> do to the tree of
  blocks and to the set of blocks in use. Freeing is described on places and blocks: \<open>freed h s T P s'\<close>
  says that the places \<open>P\<close> were cleared and the blocks \<open>T\<close> freed, that nothing is known of the words inside
  of \<open>T\<close>, and that everything else is as before. Such steps compose, and a forest of trees that is apart from
  \<open>T\<close> and \<open>P\<close> is still there.
\<close>

section \<open>Freeing\<close>

fun inside :: "nat set \<Rightarrow> ptr_loc \<Rightarrow> bool" where
  "inside T (In_Block c n) = (c \<in> T)"
| "inside T _ = False"

lemma inside_Un [simp]: "inside (T \<union> U) p \<longleftrightarrow> inside T p \<or> inside U p" "\<not> inside {} p"
  by (cases p; simp)+

lemma inside_mono: "inside T p \<Longrightarrow> T \<subseteq> U \<Longrightarrow> inside U p"
  by (cases p) auto

definition shrunk :: "nat \<Rightarrow> balloc \<Rightarrow> nat set \<Rightarrow> balloc \<Rightarrow> bool" where
  "shrunk h bs T bs' \<longleftrightarrow> finite T \<and> (\<forall>b \<in> T. for_files bs b \<and> block_used bs b) \<and>
     (\<forall>b \<ge> s_first_data_block bs. block_used bs' b \<longleftrightarrow> block_used bs b \<and> b \<notin> T) \<and>
     s_first_data_block bs' = s_first_data_block bs \<and> for_files bs' = for_files bs \<and> bs_rsv bs' = bs_rsv bs \<and>
     s_freeblocks_counter bs' = s_freeblocks_counter bs + int (card T) \<and> balloc_ok h bs'"

definition freed :: "nat \<Rightarrow> bmap \<Rightarrow> nat set \<Rightarrow> ptr_loc set \<Rightarrow> bmap \<Rightarrow> bool" where
  "freed h s T P s' \<longleftrightarrow> (\<forall>p. \<not> inside T p \<longrightarrow> ptr_at s' p = (if p \<in> P then 0 else ptr_at s p)) \<and>
     shrunk h (bm_bs s) T (bm_bs s') \<and> bm_block_i s' = bm_block_i s \<and> (\<exists>x. bm_inode s' = (bm_inode s)\<lparr>i_dirty := x\<rparr>)"

lemma shrunk_trans:
  assumes "shrunk h bs T bs1" and "shrunk h bs1 U bs2"
  shows "shrunk h bs (T \<union> U) bs2" "T \<inter> U = {}"
proof -
  show d: "T \<inter> U = {}" using assms by (auto simp: shrunk_def for_files_def)
  show "shrunk h bs (T \<union> U) bs2" using assms unfolding shrunk_def by (auto simp: card_Un_disjoint [OF _ _ d] for_files_def)
qed

lemma freed_trans:
  assumes "freed h s T P s1" and "freed h s1 U R s2"
  shows "freed h s (T \<union> U) (P \<union> R) s2"
proof -
  from assms obtain x y where i: "bm_inode s1 = (bm_inode s)\<lparr>i_dirty := x\<rparr>" "bm_inode s2 = (bm_inode s1)\<lparr>i_dirty := y\<rparr>"
    unfolding freed_def by blast
  have "bm_inode s2 = (bm_inode s)\<lparr>i_dirty := y\<rparr>" unfolding i by simp
  moreover have "shrunk h (bm_bs s) (T \<union> U) (bm_bs s2)" using assms shrunk_trans(1) unfolding freed_def by blast
  ultimately show ?thesis using assms unfolding freed_def by auto
qed

lemma shrunk_refl: "balloc_ok h bs \<Longrightarrow> shrunk h bs {} bs"
  by (simp add: shrunk_def)

lemma ptr_at_set [simp]: "ptr_at (set_ptr p v s) q = (if q = p then v else ptr_at s q)"
  by (cases p; cases q) auto

lemma set_ptr_bs [simp]:
  "bm_bs (set_ptr p v s) = bm_bs s" "bm_inode (set_ptr p v s) = bm_inode s" "bm_block_i (set_ptr p v s) = bm_block_i s"
  by (cases p; simp)+

lemma cleared: "balloc_ok h (bm_bs s) \<Longrightarrow> freed h s {} {p} (set_ptr p 0 s)"
  unfolding freed_def by (auto simp: shrunk_refl intro: exI [of _ "i_dirty (bm_inode s)"])

lemma free_run_ok:
  assumes "balloc_ok h (bm_bs s)" and "calm (be_ba e)" and "\<forall>b \<in> {block..<block + count}. for_files (bm_bs s) b \<and> block_used (bm_bs s) b"
    and "0 < count"
  obtains s' where "free_run e block count s = Some s'" "freed h s {block..<block + count} {} s'" "\<And>p. ptr_at s' p = ptr_at s p"
proof -
  have "\<forall>g. ba_rd (be_ba e) g" using assms(2) by (simp add: calm_def)
  then obtain bs where f: "ext2_free_blocks (ba_rd (be_ba e)) (bm_bs s) block count = Some bs" "balloc_ok h bs"
    "s_freeblocks_counter bs = s_freeblocks_counter (bm_bs s) + int (card {x \<in> {block..<block + count}. block_used (bm_bs s) x})"
    "\<forall>x \<ge> s_first_data_block (bm_bs s). block_used bs x \<longleftrightarrow> block_used (bm_bs s) x \<and> x \<notin> {block..<block + count}"
    "s_first_data_block bs = s_first_data_block (bm_bs s)" "for_files bs = for_files (bm_bs s)" "bs_rsv bs = bs_rsv (bm_bs s)"
    using assms(3,4) by - (rule free_blocks_ok [OF assms(1), of "ba_rd (be_ba e)" block count]; blast)
  have "{x \<in> {block..<block + count}. block_used (bm_bs s) x} = {block..<block + count}" using assms(3) by auto
  then have "shrunk h (bm_bs s) {block..<block + count} bs" using f assms(3) by (simp add: shrunk_def)
  define s' where "s' = s\<lparr>bm_bs := bs, bm_inode := (bm_inode s)\<lparr>i_dirty := True\<rparr>\<rparr>"
  have p: "ptr_at s' p = ptr_at s p" for p by (cases p) (simp_all add: s'_def)
  have "freed h s {block..<block + count} {} s'"
    unfolding freed_def using \<open>shrunk _ _ _ _\<close> p by (simp add: s'_def) blast
  moreover have "free_run e block count s = Some s'" using f(1) by (simp add: free_run_def s'_def)
  ultimately show thesis using that p by blast
qed

section \<open>Forests\<close>

definition offs :: "nat \<Rightarrow> nat \<Rightarrow> nat list set" where
  "offs bits d = {r. length r \<le> d \<and> (\<forall>n \<in> set r. n < 2 ^ bits)}"

text \<open>The blocks of the tree of depth \<open>d\<close> under block \<open>b\<close>, and of the trees at places.\<close>

definition sub :: "nat \<Rightarrow> bmap \<Rightarrow> nat \<Rightarrow> nat \<Rightarrow> nat set" where
  "sub bits s d b = walk_from s b ` offs bits d - {0}"

definition subs :: "nat \<Rightarrow> bmap \<Rightarrow> nat \<Rightarrow> ptr_loc list \<Rightarrow> nat set" where
  "subs bits s d ps = (\<Union>p \<in> set ps. sub bits s d (ptr_at s p))"

definition forest :: "nat \<Rightarrow> bmap \<Rightarrow> nat \<Rightarrow> ptr_loc list \<Rightarrow> bool" where
  "forest bits s d ps \<longleftrightarrow> distinct ps \<and>
     (\<forall>p \<in> set ps. \<forall>q \<in> set ps. \<forall>r \<in> offs bits d. \<forall>t \<in> offs bits d.
        walk_from s (ptr_at s p) r = walk_from s (ptr_at s q) t \<longrightarrow> walk_from s (ptr_at s p) r \<noteq> 0 \<longrightarrow> p = q \<and> r = t) \<and>
     (\<forall>b \<in> subs bits s d ps. for_files (bm_bs s) b \<and> block_used (bm_bs s) b) \<and>
     (\<forall>p \<in> set ps. \<not> inside (subs bits s d ps) p)"

lemma finite_offs: "finite (offs bits d)"
proof -
  have "offs bits d = {r. set r \<subseteq> {..<2 ^ bits} \<and> length r \<le> d}" by (auto simp: offs_def)
  then show ?thesis using finite_lists_length_le [of "{..<2 ^ bits :: nat}" d] by simp
qed

lemma finite_sub [simp]: "finite (sub bits s d b)" "finite (subs bits s d ps)"
  by (simp_all add: sub_def subs_def finite_offs)

lemma offs_simps [simp]: "[] \<in> offs bits d" "n # r \<in> offs bits (Suc d) \<longleftrightarrow> n < 2 ^ bits \<and> r \<in> offs bits d" "offs bits 0 = {[]}"
  by (auto simp: offs_def)

lemma offs_Suc: "offs bits (Suc d) = insert [] {n # r |n r. n < 2 ^ bits \<and> r \<in> offs bits d}"
  by (auto simp: offs_def Suc_le_length_iff elim: list.exhaust) (metis le_SucE length_0_conv length_Cons not_less_eq_eq list.exhaust list.set_intros)

lemma walk_from_0 [simp]: "walk_from s 0 r = 0"
  by (cases r) simp_all

lemma sub_0 [simp]: "sub bits s d 0 = {}" "sub bits s 0 b = {b} - {0}"
  by (auto simp: sub_def)

lemma sub_Suc: "b \<noteq> 0 \<Longrightarrow> sub bits s (Suc d) b = insert b (\<Union>n < 2 ^ bits. sub bits s d (ind_ptr s b n))"
proof -
  assume b: "b \<noteq> 0"
  then have "walk_from s b ` offs bits (Suc d) = insert b (\<Union>n < 2 ^ bits. walk_from s (ind_ptr s b n) ` offs bits d)"
    unfolding offs_Suc by (force simp: image_iff)
  then show ?thesis using b by (auto simp: sub_def)
qed

lemma forestD:
  assumes "forest bits s d ps"
  shows "distinct ps"
    "p \<in> set ps \<Longrightarrow> q \<in> set ps \<Longrightarrow> r \<in> offs bits d \<Longrightarrow> t \<in> offs bits d \<Longrightarrow>
       walk_from s (ptr_at s p) r = walk_from s (ptr_at s q) t \<Longrightarrow> walk_from s (ptr_at s p) r \<noteq> 0 \<Longrightarrow> p = q \<and> r = t"
    "b \<in> subs bits s d ps \<Longrightarrow> for_files (bm_bs s) b \<and> block_used (bm_bs s) b"
    "p \<in> set ps \<Longrightarrow> \<not> inside (subs bits s d ps) p"
  using assms unfolding forest_def by blast+

lemma sub_self: "b \<noteq> 0 \<Longrightarrow> b \<in> sub bits s d b"
  unfolding sub_def by (force intro: image_eqI [of _ _ "[]"])

lemma walk_from_frame:
  assumes "\<And>c n. c \<in> sub bits s d b \<Longrightarrow> ind_ptr s' c n = ind_ptr s c n" and "r \<in> offs bits d"
  shows "walk_from s' b r = walk_from s b r"
  using assms
proof (induction r arbitrary: b d)
  case (Cons n r)
  show ?case
  proof (cases "b = 0")
    case False
    obtain d' where d: "d = Suc d'" using Cons.prems(2) by (cases d) auto
    have "ind_ptr s' b n = ind_ptr s b n" using Cons.prems(1) sub_self [OF False] by blast
    moreover have "sub bits s d' (ind_ptr s b n) \<subseteq> sub bits s d b" using Cons.prems(2) sub_Suc [OF False] by (auto simp: d)
    ultimately show ?thesis using Cons.IH [of d' "ind_ptr s b n"] Cons.prems d by auto
  qed simp
qed simp

lemma freed_used:
  assumes "freed h s T P s'" "for_files (bm_bs s) b" "block_used (bm_bs s) b" "b \<notin> T"
  shows "for_files (bm_bs s') b" "block_used (bm_bs s') b"
  using assms unfolding freed_def shrunk_def by (auto simp: for_files_def)

lemma forest_frame:
  assumes f: "freed h s T P s'" and fo: "forest bits s d ps" and T: "T \<inter> subs bits s d ps = {}" and P: "set ps \<inter> P = {}"
    and in_P: "\<And>p. p \<in> P \<Longrightarrow> \<not> inside (subs bits s d ps) p" and in_T: "\<And>p. p \<in> set ps \<Longrightarrow> \<not> inside T p"
  shows "\<And>p. p \<in> set ps \<Longrightarrow> ptr_at s' p = ptr_at s p" "subs bits s' d ps = subs bits s d ps" "forest bits s' d ps"
proof -
  show p: "ptr_at s' p = ptr_at s p" if "p \<in> set ps" for p using f P in_T [OF that] that unfolding freed_def by auto
  have ind: "ind_ptr s' c n = ind_ptr s c n" if "c \<in> subs bits s d ps" for c n
  proof -
    have "c \<notin> T" "In_Block c n \<notin> P" using T that in_P [of "In_Block c n"] by auto
    then show ?thesis using f unfolding freed_def by (metis inside.simps(1) ptr_at.simps(2))
  qed
  have w: "walk_from s' (ptr_at s' p) r = walk_from s (ptr_at s p) r" if "p \<in> set ps" "r \<in> offs bits d" for p r
    unfolding p [OF that(1)] using ind that by (intro walk_from_frame) (auto simp: subs_def)
  show sb: "subs bits s' d ps = subs bits s d ps" unfolding subs_def sub_def using w by (auto simp: image_iff)
  have "for_files (bm_bs s') b \<and> block_used (bm_bs s') b" if "b \<in> subs bits s d ps" for b
    using forestD(3) [OF fo that] freed_used [OF f, of b] T that by auto
  then show "forest bits s' d ps"
    using forestD [OF fo] w unfolding forest_def sb by simp
qed

lemma forest_tail:
  assumes "forest bits s d (p # ps)"
  shows "forest bits s d ps" "sub bits s d (ptr_at s p) \<inter> subs bits s d ps = {}" "p \<notin> set ps"
    "subs bits s d (p # ps) = sub bits s d (ptr_at s p) \<union> subs bits s d ps"
proof -
  show sp: "subs bits s d (p # ps) = sub bits s d (ptr_at s p) \<union> subs bits s d ps" by (simp add: subs_def)
  show np: "p \<notin> set ps" using forestD(1) [OF assms] by simp
  show "forest bits s d ps"
    using forestD [OF assms] unfolding forest_def sp by (simp add: np) blast
  show "sub bits s d (ptr_at s p) \<inter> subs bits s d ps = {}"
  proof (rule ccontr)
    assume "sub bits s d (ptr_at s p) \<inter> subs bits s d ps \<noteq> {}"
    then obtain r q t where "r \<in> offs bits d" "q \<in> set ps" "t \<in> offs bits d" "walk_from s (ptr_at s p) r = walk_from s (ptr_at s q) t"
      "walk_from s (ptr_at s p) r \<noteq> 0" unfolding sub_def subs_def by auto
    then show False using forestD(2) [OF assms, of p q r t] np by auto
  qed
qed

lemma freed_refl: "balloc_ok h (bm_bs s) \<Longrightarrow> freed h s {} {} s"
  unfolding freed_def by (auto simp: shrunk_refl intro: exI [of _ "i_dirty (bm_inode s)"])

lemma freed_zero: "freed h s T P s' \<Longrightarrow> ptr_at s p = 0 \<Longrightarrow> freed h s T (insert p P) s'"
  unfolding freed_def by auto

lemma freed_drop: "freed h s T (P \<union> R) s' \<Longrightarrow> (\<And>p. p \<in> R \<Longrightarrow> inside T p) \<Longrightarrow> freed h s T P s'"
  unfolding freed_def by auto

lemma freed_ok: "freed h s T P s' \<Longrightarrow> balloc_ok h (bm_bs s')"
  by (simp add: freed_def shrunk_def)

lemma free_data_loop_ok:
  assumes "balloc_ok h (bm_bs s)" and calm: "calm (be_ba e)" and "forest bits s 0 ps"
    and "\<forall>b \<in> {k..<k + count}. for_files (bm_bs s) b \<and> block_used (bm_bs s) b" and "{k..<k + count} \<inter> subs bits s 0 ps = {}"
    and "\<forall>p \<in> set ps. \<not> inside {k..<k + count} p"
  shows "\<exists>s'. free_data_loop e s ps k count = Some s' \<and> freed h s ({k..<k + count} \<union> subs bits s 0 ps) (set ps) s'"
  using assms(1,3-6)
proof (induction ps arbitrary: s k count)
  case Nil
  show ?case
  proof (cases "count = 0")
    case True
    then show ?thesis using freed_refl [OF Nil.prems(1)] by (simp add: subs_def)
  next
    case False
    then obtain s' where "free_run e k count s = Some s'" "freed h s {k..<k + count} {} s'"
      using free_run_ok [OF Nil.prems(1) calm Nil.prems(3)] by blast
    then show ?thesis using False by (simp add: subs_def)
  qed
next
  case (Cons p ps)
  let ?nr = "ptr_at s p" and ?s1 = "set_ptr p 0 s" and ?run = "{k..<k + count}"
  note t = forest_tail [OF Cons.prems(2)]
  show ?case
  proof (cases "?nr = 0")
    case True
    have sb: "subs bits s 0 (p # ps) = subs bits s 0 ps" using t(4) True by simp
    obtain s' where "free_data_loop e s ps k count = Some s'" "freed h s (?run \<union> subs bits s 0 ps) (set ps) s'"
      using Cons.IH [OF Cons.prems(1) t(1) Cons.prems(3)] Cons.prems(4,5) unfolding sb by auto
    then show ?thesis using True freed_zero [of h s _ "set ps" s' p] unfolding sb by simp
  next
    case False
    have nr: "for_files (bm_bs s) ?nr" "block_used (bm_bs s) ?nr" "?nr \<notin> subs bits s 0 ps" "?nr \<notin> ?run"
      and sb: "subs bits s 0 (p # ps) = insert ?nr (subs bits s 0 ps)"
      using forestD(3) [OF Cons.prems(2), of ?nr] t(2,4) False Cons.prems(4) by auto
    have f1: "freed h s {} {p} ?s1" by (rule cleared [OF Cons.prems(1)])
    note fr1 = forest_frame [OF f1 t(1)]
    have in_p: "\<not> inside (subs bits s 0 (p # ps)) p" using forestD(4) [OF Cons.prems(2)] by simp
    have in_ps: "\<not> inside {?nr} q" if "q \<in> set ps" for q using forestD(4) [OF Cons.prems(2), of q] that sb by (cases q) auto
    have fo1: "forest bits ?s1 0 ps" "subs bits ?s1 0 ps = subs bits s 0 ps" using fr1(2,3) t(3) in_p t(4) by auto
    have go: "\<exists>s'. free_data_loop e s2 ps k' c = Some s' \<and> freed h s (?run \<union> subs bits s 0 (p # ps)) (set (p # ps)) s'"
      if s2: "freed h s U {p} s2" "forest bits s2 0 ps" "subs bits s2 0 ps = subs bits s 0 ps"
        and run: "\<forall>b \<in> {k'..<k' + c}. for_files (bm_bs s2) b \<and> block_used (bm_bs s2) b" "{k'..<k' + c} \<union> U = insert ?nr ?run"
      for s2 U k' c
    proof -
      have sub: "{k'..<k' + c} \<subseteq> insert ?nr ?run" using run(2) by blast
      then have "{k'..<k' + c} \<inter> subs bits s2 0 ps = {}" using Cons.prems(4) nr(3) unfolding s2(3) sb by blast
      moreover have "\<forall>q \<in> set ps. \<not> inside {k'..<k' + c} q"
      proof
        fix q assume q: "q \<in> set ps"
        have "\<not> inside (insert ?nr ?run) q" using Cons.prems(5) in_ps [OF q] q by (cases q) auto
        then show "\<not> inside {k'..<k' + c} q" using inside_mono [OF _ sub] by blast
      qed
      ultimately obtain s' where "free_data_loop e s2 ps k' c = Some s'" "freed h s2 ({k'..<k' + c} \<union> subs bits s 0 ps) (set ps) s'"
        using Cons.IH [OF freed_ok [OF s2(1)] s2(2) run(1)] unfolding s2(3) by auto
      moreover have "U \<union> ({k'..<k' + c} \<union> subs bits s 0 ps) = ?run \<union> subs bits s 0 (p # ps)" using run(2) sb by auto
      ultimately show ?thesis using freed_trans [OF s2(1)] by force
    qed
    consider "count = 0" | "0 < count" "k + count = ?nr" | "0 < count" "k + count \<noteq> ?nr" by auto
    then show ?thesis
    proof cases
      case 1
      then show ?thesis using go [OF f1 fo1, of ?nr 1] nr False by simp
    next
      case 2
      then have "{k..<k + (count + 1)} = insert ?nr ?run" by auto
      moreover have "\<forall>b \<in> insert ?nr ?run. for_files (bm_bs ?s1) b \<and> block_used (bm_bs ?s1) b" using nr Cons.prems(3) by simp
      ultimately show ?thesis using go [OF f1 fo1, of k "count + 1"] 2 False by simp
    next
      case 3
      obtain s2 where s2: "free_run e k count ?s1 = Some s2" "freed h ?s1 ?run {} s2" "\<And>q. ptr_at s2 q = ptr_at ?s1 q"
        using free_run_ok [OF _ calm, of h ?s1 k count] Cons.prems(1,3) 3(1) by auto
      have "freed h s ?run {p} s2" using freed_trans [OF f1 s2(2)] by simp
      moreover have "forest bits s2 0 ps" "subs bits s2 0 ps = subs bits s 0 ps"
        using forest_frame(2,3) [OF s2(2) fo1(1)] Cons.prems(4,5) t(4) fo1(2) by auto
      moreover have "for_files (bm_bs s2) ?nr" "block_used (bm_bs s2) ?nr"
        using freed_used [OF s2(2), of ?nr] nr by auto
      ultimately show ?thesis using go [of ?run s2 ?nr 1] s2(1) 3 False by simp
    qed
  qed
qed

text \<open>The forest of the words of an indirect block.\<close>

lemma forest_kids:
  fixes bits s p
  defines "nr \<equiv> ptr_at s p" and "kids \<equiv> map (In_Block (ptr_at s p)) [0..<2 ^ bits]"
  assumes f: "forest bits s (Suc d) (p # ps)" and nz: "nr \<noteq> 0"
  shows "forest bits s d kids" "sub bits s (Suc d) nr = insert nr (subs bits s d kids)" "nr \<notin> subs bits s d kids"
proof -
  show sb: "sub bits s (Suc d) nr = insert nr (subs bits s d kids)"
    unfolding sub_Suc [OF nz] by (auto simp: subs_def kids_def nr_def)
  have inj: "r = t" if "r \<in> offs bits (Suc d)" "t \<in> offs bits (Suc d)" "walk_from s nr r = walk_from s nr t" "walk_from s nr r \<noteq> 0" for r t
    using forestD(2) [OF f, of p p r t] that by (simp add: nr_def)
  have step: "walk_from s (ptr_at s (In_Block nr n)) r = walk_from s nr (n # r)" for n r using nz by simp
  show out: "nr \<notin> subs bits s d kids"
  proof
    assume "nr \<in> subs bits s d kids"
    then obtain n r where "n < 2 ^ bits" "r \<in> offs bits d" "nr = walk_from s nr (n # r)"
      unfolding subs_def sub_def kids_def nr_def [symmetric] using nz by auto
    then show False using inj [of "[]" "n # r"] nz by (auto simp del: walk_from.simps(2))
  qed
  have "p' = q' \<and> r = t" if "p' \<in> set kids" "q' \<in> set kids" "r \<in> offs bits d" "t \<in> offs bits d"
      "walk_from s (ptr_at s p') r = walk_from s (ptr_at s q') t" "walk_from s (ptr_at s p') r \<noteq> 0" for p' q' r t
  proof -
    from that(1,2) obtain n m where nm: "p' = In_Block nr n" "q' = In_Block nr m" "n < 2 ^ bits" "m < 2 ^ bits" by (auto simp: kids_def nr_def)
    then have "n # r = m # t" using inj [of "n # r" "m # t"] that(3-6) unfolding nm(1,2) step by simp
    then show ?thesis using nm by simp
  qed
  moreover have "distinct kids" by (auto simp: kids_def distinct_map inj_on_def)
  moreover have "subs bits s d kids \<subseteq> subs bits s (Suc d) (p # ps)" using sb by (auto simp: subs_def nr_def)
  then have "\<forall>b \<in> subs bits s d kids. for_files (bm_bs s) b \<and> block_used (bm_bs s) b" using forestD(3) [OF f] by blast
  moreover have "\<forall>q \<in> set kids. \<not> inside (subs bits s d kids) q" using out by (auto simp: kids_def nr_def)
  ultimately show "forest bits s d kids" unfolding forest_def by blast
qed

lemma free_branches_ok:
  assumes calm: "calm (be_ba e)" "\<forall>b. be_rd e b"
  shows "balloc_ok h (bm_bs s) \<Longrightarrow> forest bits s d ps \<Longrightarrow>
    \<exists>s'. ext2_free_branches bits e d ps s = Some s' \<and> freed h s (subs bits s d ps) (set ps) s'"
proof (induction d arbitrary: ps s)
  case 0
  then show ?case using free_data_loop_ok [OF 0(1) calm(1) 0(2), of 0 0] by (simp add: ext2_free_data_def)
next
  case (Suc d)
  show ?case using Suc.prems
  proof (induction ps arbitrary: s)
    case Nil
    then show ?case using freed_refl [OF Nil(1)] by (simp add: subs_def)
  next
    case (Cons p ps)
    let ?nr = "ptr_at s p" and ?s1 = "set_ptr p 0 s"
    note t = forest_tail [OF Cons.prems(2)]
    show ?case
    proof (cases "?nr = 0")
      case True
      have sb: "subs bits s (Suc d) (p # ps) = subs bits s (Suc d) ps" using t(4) True by simp
      from Cons.IH [OF Cons.prems(1) t(1)] obtain s' where
        "ext2_free_branches bits e (Suc d) ps s = Some s'" "freed h s (subs bits s (Suc d) ps) (set ps) s'" by blast
      then show ?thesis using True freed_zero [of h s _ "set ps" s' p] unfolding sb by simp
    next
      case False
      let ?kids = "map (In_Block ?nr) [0..<2 ^ bits]"
      note k = forest_kids [OF Cons.prems(2) False]
      have in_p: "\<not> inside (subs bits s (Suc d) (p # ps)) p" using forestD(4) [OF Cons.prems(2)] by simp
      have sk: "insert ?nr (subs bits s d ?kids) \<subseteq> subs bits s (Suc d) (p # ps)" using k(2) t(4) by auto
      have f1: "freed h s {} {p} ?s1" by (rule cleared [OF Cons.prems(1)])
      have "inside {?nr} q" if "q \<in> set ?kids" for q using that by auto
      then have "p \<notin> set ?kids" using in_p inside_mono [of "{?nr}" p] sk by blast
      moreover have "\<not> inside (subs bits s d ?kids) p" using in_p inside_mono [of _ p] sk by blast
      ultimately have fk: "forest bits ?s1 d ?kids" "subs bits ?s1 d ?kids = subs bits s d ?kids"
        using forest_frame(2,3) [OF f1 k(1)] by auto
      obtain s2 where s2: "ext2_free_branches bits e d ?kids ?s1 = Some s2" "freed h ?s1 (subs bits s d ?kids) (set ?kids) s2"
        using Suc.IH [of ?s1 ?kids] fk Cons.prems(1) by auto
      have "for_files (bm_bs s) ?nr" "block_used (bm_bs s) ?nr" using forestD(3) [OF Cons.prems(2)] sk by auto
      then have "for_files (bm_bs s2) ?nr" "block_used (bm_bs s2) ?nr" using freed_used [OF s2(2), of ?nr] k(3) by auto
      then obtain s3 where s3: "free_run e ?nr 1 s2 = Some s3" "freed h s2 {?nr..<?nr + 1} {} s3"
        using free_run_ok [OF freed_ok [OF s2(2)] calm(1), of ?nr 1] by auto
      have "freed h s (sub bits s (Suc d) ?nr) ({p} \<union> set ?kids) s3"
        using freed_trans [OF freed_trans [OF f1 s2(2)] s3(2)] k(2) by (simp add: insert_commute)
      then have f3: "freed h s (sub bits s (Suc d) ?nr) {p} s3"
        by (rule freed_drop) (use k(2) in auto)
      have in_ps: "\<not> inside (sub bits s (Suc d) ?nr) q" "\<not> inside (subs bits s (Suc d) ps) q" if "q \<in> set (p # ps)" for q
        using forestD(4) [OF Cons.prems(2) that] unfolding t(4) by simp_all
      have fo: "forest bits s3 (Suc d) ps" "subs bits s3 (Suc d) ps = subs bits s (Suc d) ps"
        using forest_frame(2,3) [OF f3 t(1) t(2)] t(3) in_ps by auto
      from Cons.IH [OF freed_ok [OF f3] fo(1)] obtain s4 where
        s4: "ext2_free_branches bits e (Suc d) ps s3 = Some s4" "freed h s3 (subs bits s (Suc d) ps) (set ps) s4" using fo(2) by auto
      have "freed h s (subs bits s (Suc d) (p # ps)) (set (p # ps)) s4" using freed_trans [OF f3 s4(2)] unfolding t(4) by simp
      moreover have "ext2_free_branches bits e (Suc d) (p # ps) s = Some s4"
        using False calm(2) s2(1) s3(1) s4(1) by simp
      ultimately show ?thesis by blast
    qed
  qed
qed

end
