(* ===== verification/Ext2_Truncate.thy ===== *)
theory Ext2_Truncate
  imports Ext2_Prune
begin

text \<open>
  Truncation, a3/inode.c, continued: the subtrees that \<open>ext2_truncate\<close> frees, as sets of paths. The order of the
  blocks of a file is the lexicographic order of their paths; the result of \<open>ext2_find_shared\<close> splits the tree there.
\<close>

section \<open>The order of paths\<close>

definition before_path :: "nat list \<Rightarrow> nat list \<Rightarrow> bool" where
  "before_path q r \<longleftrightarrow> (\<exists>j. j < length q \<and> j < length r \<and> take j q = take j r \<and> q ! j < r ! j)"

definition full_path :: "nat \<Rightarrow> nat list \<Rightarrow> bool" where
  "full_path bits q \<longleftrightarrow> prefix_ok bits q \<and> length q = depth_of (hd q)"

lemma full_cases:
  assumes "full_path bits q"
  obtains (direct) a where "q = [a]" "a < 12" | (single) x where "q = [12, x]" "x < 2 ^ bits"
    | (double) x y where "q = [13, x, y]" "x < 2 ^ bits" "y < 2 ^ bits"
    | (triple) x y z where "q = [14, x, y, z]" "x < 2 ^ bits" "y < 2 ^ bits" "z < 2 ^ bits"
proof -
  let ?p = "2 ^ bits :: nat"
  have h: "q \<noteq> []" "hd q < 15" "length q = depth_of (hd q)" "\<forall>n \<in> set (tl q). n < ?p"
    using assms by (auto simp: full_path_def prefix_ok_def)
  then obtain a r where q: "q = a # r" by (cases q) auto
  consider "a < 12" | "a = 12" | "a = 13" | "a = 14" using h(2) q by fastforce
  then show thesis
    by cases (use h q that in \<open>auto simp: depth_of_def length_Suc_conv numeral_2_eq_2 numeral_3_eq_3\<close>)
qed

lemma digits2: "x < x' \<Longrightarrow> y < p \<Longrightarrow> x * p + y < x' * p + y'" for p :: nat
proof -
  assume a: "x < x'" "y < p"
  have "x * p + y < Suc x * p" using a(2) by simp
  also have "\<dots> \<le> x' * p" using a(1) by (intro mult_le_mono1) simp
  finally show ?thesis by simp
qed

lemma digits3: "x < x' \<Longrightarrow> y < p \<Longrightarrow> z < p \<Longrightarrow> x * (p * p) + y * p + z < x' * (p * p) + y' * p + z'" for p :: nat
  using digits2 [of x x' "y * p + z" "p * p" "y' * p + z'"] digits_less [of y p z] by (simp add: add.assoc)

lemma before_same:
  assumes "full_path bits q" "full_path bits r" "hd q = hd r" "before_path q r"
  shows "path_block (2 ^ bits) q < path_block (2 ^ bits) r"
proof -
  from assms(4) obtain j where j: "j < length q" "j < length r" "take j q = take j r" "q ! j < r ! j" by (auto simp: before_path_def)
  show ?thesis using assms(1)
  proof (cases rule: full_cases)
    case (direct a)
    show ?thesis using assms(2) by (cases rule: full_cases) (use assms(3) j direct in auto)
  next
    case (single x)
    obtain x' where "r = [12, x']" using assms(2) by (cases rule: full_cases) (use assms(3) single in auto)
    then show ?thesis using j single by (cases j) (auto simp: less_Suc_eq)
  next
    case (double x y)
    obtain x' y' where r: "r = [13, x', y']" using assms(2) by (cases rule: full_cases) (use assms(3) double in auto)
    have "x < x' \<or> x = x' \<and> y < y'" using j double r by (auto simp: less_Suc_eq numeral_2_eq_2 numeral_3_eq_3)
    then show ?thesis using double r digits2 [of x x' y] by auto
  next
    case (triple x y z)
    obtain x' y' z' where r: "r = [14, x', y', z']" using assms(2) by (cases rule: full_cases) (use assms(3) triple in auto)
    have "x < x' \<or> x = x' \<and> (y < y' \<or> y = y' \<and> z < z')" using j triple r
      by (auto simp: less_Suc_eq numeral_2_eq_2 numeral_3_eq_3)
    then show ?thesis using triple r digits3 [of x x' y "2 ^ bits" z] digits2 [of y y' z "2 ^ bits"] by auto
  qed
qed

lemma before_block:
  assumes "full_path bits q" "full_path bits r" "before_path q r"
  shows "path_block (2 ^ bits) q < path_block (2 ^ bits) r"
proof (cases "hd q = hd r")
  case False
  let ?p = "2 ^ bits :: nat"
  from assms(3) obtain j where "j < length q" "j < length r" "take j q = take j r" "q ! j < r ! j" by (auto simp: before_path_def)
  moreover have "j = 0" using False calculation by (metis hd_take neq0_conv)
  ultimately have lt: "hd q < hd r" by (metis hd_conv_nth list.size(3) not_less_zero)
  have up: "path_block ?p t < (if hd t < 12 then 12 else if hd t = 12 then 12 + ?p else 12 + ?p + ?p * ?p)" if "full_path bits t" "hd t < 14" for t
    using that(1) by (cases rule: full_cases) (use that(2) digits_less in auto)
  have low: "(if hd t = 12 then 12 else if hd t = 13 then 12 + ?p else if hd t = 14 then 12 + ?p + ?p * ?p else hd t) \<le> path_block ?p t"
    if "full_path bits t" for t
    using that by (cases rule: full_cases) auto
  have "hd r < 15" using assms(2) by (simp add: full_path_def prefix_ok_def)
  then have "hd q < 14" using lt by simp
  show ?thesis
  proof (cases "hd r < 12")
    case True
    then show ?thesis using lt by - (rule full_cases [OF assms(1)]; rule full_cases [OF assms(2)]; simp)
  next
    case False
    then have "hd r = 12 \<or> hd r = 13 \<or> hd r = 14" using \<open>hd r < 15\<close> by auto
    then show ?thesis using up [OF assms(1) \<open>hd q < 14\<close>] low [OF assms(2)] lt by (auto split: if_splits)
  qed
qed (use before_same assms in blast)

lemma first_diff: "length q = length r \<Longrightarrow> q \<noteq> r \<Longrightarrow> \<exists>j < length q. take j q = take j r \<and> q ! j \<noteq> r ! j"
proof (induction q r rule: list_induct2)
  case (Cons a q b r)
  show ?case
  proof (cases "a = b")
    case True
    then obtain j where "j < length q" "take j q = take j r" "q ! j \<noteq> r ! j" using Cons by auto
    then show ?thesis using True by (intro exI [of _ "Suc j"]) simp
  qed (auto intro: exI [of _ 0])
qed simp

lemma path_full: "b < capacity bits \<Longrightarrow> full_path bits (path bits b)"
  using path_facts by (simp add: full_path_def)

lemma path_order:
  assumes "b < c" "c < capacity bits"
  shows "before_path (path bits b) (path bits c)"
proof (rule ccontr)
  let ?q = "path bits b" and ?r = "path bits c"
  assume n: "\<not> before_path ?q ?r"
  have b: "b < capacity bits" using assms by simp
  note f = path_full [OF b] path_full [OF assms(2)] and e = path_facts(1) [OF b] path_facts(1) [OF assms(2)]
  have ne: "?q \<noteq> ?r" using e assms(1) by auto
  have nn: "?q \<noteq> []" "?r \<noteq> []" using f by (auto simp: full_path_def prefix_ok_def)
  obtain j where "j < length ?q" "j < length ?r" "take j ?q = take j ?r" "?q ! j \<noteq> ?r ! j"
  proof (cases "hd ?q = hd ?r")
    case True
    then show thesis using first_diff [of ?q ?r] ne f that by (auto simp: full_path_def)
  next
    case False
    then show thesis using nn that [of 0] by (simp add: hd_conv_nth)
  qed
  then have "before_path ?r ?q" using n unfolding before_path_def by (metis nat_neq_iff)
  from before_block [OF f(2,1) this] show False using e assms(1) by simp
qed

section \<open>Cutting off subtrees\<close>

definition comparable :: "nat list \<Rightarrow> nat list \<Rightarrow> bool" where
  "comparable q r \<longleftrightarrow> (\<exists>t. q = r @ t \<or> r = q @ t)"

text \<open>The paths below those of \<open>Q\<close>, and the blocks they lead to.\<close>

definition below :: "nat \<Rightarrow> nat list set \<Rightarrow> nat list set" where
  "below bits Q = {q. prefix_ok bits q \<and> (\<exists>r \<in> Q. \<exists>t. q = r @ t)}"

definition lost :: "nat \<Rightarrow> bmap \<Rightarrow> nat list set \<Rightarrow> nat set" where
  "lost bits s Q = walk s ` below bits Q - {0}"

definition linked :: "nat \<Rightarrow> bmap \<Rightarrow> nat list \<Rightarrow> bool" where
  "linked bits s q \<longleftrightarrow> prefix_ok bits q \<and> (length q = 1 \<or> walk s (butlast q) \<noteq> 0)"

text \<open>The subtrees at \<open>Q\<close> have been cut off and freed.\<close>

definition cut_off :: "nat \<Rightarrow> nat \<Rightarrow> bmap \<Rightarrow> nat list set \<Rightarrow> bmap \<Rightarrow> bool" where
  "cut_off h bits s Q s' \<longleftrightarrow> (\<exists>v. freed h (s\<lparr>nr_ptr := v\<rparr>) (lost bits s Q) (place s ` Q) s')"

lemma lost_Un: "lost bits s (Q \<union> R) = lost bits s Q \<union> lost bits s R" "lost bits s {} = {}"
proof -
  have "below bits (Q \<union> R) = below bits Q \<union> below bits R" by (auto simp: below_def)
  then show "lost bits s (Q \<union> R) = lost bits s Q \<union> lost bits s R" by (auto simp: lost_def)
  show "lost bits s {} = {}" by (auto simp: lost_def below_def)
qed

lemma walk_from_append: "walk_from s b (q @ r) = walk_from s (walk_from s b q) r"
  by (induction q arbitrary: b) simp_all

lemma walk_append: "q \<noteq> [] \<Longrightarrow> walk s (q @ r) = walk_from s (walk s q) r"
  by (simp add: walk_def walk_from_append)

lemma prefix_ok_append: "q \<noteq> [] \<Longrightarrow> prefix_ok bits (q @ r) \<longleftrightarrow> prefix_ok bits q \<and> r \<in> offs bits (depth_of (hd q) - length q)"
  by (auto simp: prefix_ok_def offs_def)

lemma prefix_ok_ne: "prefix_ok bits q \<Longrightarrow> q \<noteq> []"
  by (simp add: prefix_ok_def)

lemma lost_tree:
  assumes "prefix_ok bits q" "d = depth_of (hd q) - length q"
  shows "lost bits s {q} = sub bits s d (walk s q)"
proof -
  have "below bits {q} = (\<lambda>r. q @ r) ` offs bits d"
    using assms prefix_ok_append [OF prefix_ok_ne [OF assms(1)]] by (auto simp: below_def)
  then show ?thesis using walk_append [OF prefix_ok_ne [OF assms(1)]] by (auto simp: lost_def sub_def image_image)
qed

lemma tree_inj: "tree_ok bits s \<Longrightarrow> prefix_ok bits q \<Longrightarrow> prefix_ok bits r \<Longrightarrow> walk s q = walk s r \<Longrightarrow> walk s q \<noteq> 0 \<Longrightarrow> q = r"
  unfolding tree_ok_def by blast

lemma prefix_ok_butlast: "prefix_ok bits q \<Longrightarrow> length q \<noteq> 1 \<Longrightarrow> prefix_ok bits (butlast q)"
  using prefix_ok_snoc [of bits "butlast q" "last q"] by (cases q rule: rev_cases) (auto simp: prefix_ok_def)

lemma place_inj:
  assumes "tree_ok bits s" "linked bits s q" "linked bits s r" "place s q = place s r"
  shows "q = r"
proof (cases "length q = 1")
  case True
  then have "length r = 1" "hd q = hd r" using assms(4) by (auto simp: place_def split: if_splits)
  then show ?thesis using True by (auto simp: length_Suc_conv)
next
  case False
  then have l: "length r \<noteq> 1" "walk s (butlast q) = walk s (butlast r)" "last q = last r" using assms(4) by (auto simp: place_def split: if_splits)
  have "butlast q = butlast r"
    using tree_inj [OF assms(1) prefix_ok_butlast prefix_ok_butlast l(2)] assms(2,3) False l(1) by (simp add: linked_def)
  moreover have "q \<noteq> []" "r \<noteq> []" using assms(2,3) by (auto simp: linked_def prefix_ok_def)
  ultimately show ?thesis using l(3) by (metis append_butlast_last_id)
qed

lemma inside_lost:
  assumes "tree_ok bits s" "linked bits s q" "inside (lost bits s Q) (place s q)"
  obtains r t where "r \<in> Q" "q = r @ t" "t \<noteq> []"
proof -
  have l: "length q \<noteq> 1" "walk s (butlast q) \<in> lost bits s Q" using assms(3) by (auto simp: place_def split: if_splits)
  then obtain q' where q': "q' \<in> below bits Q" "walk s q' = walk s (butlast q)" by (auto simp: lost_def)
  have "walk s q' \<noteq> 0" using l(2) q'(2) by (simp add: lost_def)
  moreover have "prefix_ok bits q'" "prefix_ok bits q" using q'(1) assms(2) by (simp_all add: below_def linked_def)
  ultimately have "q' = butlast q" using tree_inj [OF assms(1) _ prefix_ok_butlast q'(2)] l(1) by simp
  moreover from q'(1) obtain r t where "r \<in> Q" "q' = r @ t" by (auto simp: below_def)
  moreover have "q = butlast q @ [last q]" using assms(2) prefix_ok_ne by (auto simp: linked_def)
  ultimately show thesis using that [of r "t @ [last q]"] by (metis append.assoc snoc_eq_iff_butlast)
qed

lemma lost_disjoint:
  assumes "tree_ok bits s" "\<And>q r. q \<in> Q \<Longrightarrow> r \<in> R \<Longrightarrow> \<not> comparable q r"
  shows "lost bits s Q \<inter> lost bits s R = {}"
proof (rule ccontr)
  assume "lost bits s Q \<inter> lost bits s R \<noteq> {}"
  then obtain q r where "q \<in> below bits Q" "r \<in> below bits R" "walk s q = walk s r" "walk s q \<noteq> 0" by (auto simp: lost_def)
  moreover from this have "q = r" using tree_inj [OF assms(1)] by (auto simp: below_def)
  ultimately obtain q' t r' u where "q' \<in> Q" "r' \<in> R" "q' @ t = r' @ u" by (auto simp: below_def) metis
  then show False using assms(2) unfolding comparable_def by (metis append_eq_append_conv2)
qed

definition apart :: "nat list set \<Rightarrow> nat list set \<Rightarrow> bool" where
  "apart Q R \<longleftrightarrow> (\<forall>q \<in> Q. \<forall>r \<in> R. \<not> comparable q r)"

lemma linked_val: "linked bits s q \<Longrightarrow> ptr_at s (place s q) = walk s q"
  unfolding linked_def using ptr_at_place prefix_ok_ne by blast

text \<open>Incomparable paths to subtrees of one depth are the places of a forest.\<close>

lemma paths_forest:
  assumes t: "tree_ok bits s" and qs: "distinct qs" "\<And>q. q \<in> set qs \<Longrightarrow> linked bits s q \<and> depth_of (hd q) - length q = d"
    and ap: "\<And>q r. q \<in> set qs \<Longrightarrow> r \<in> set qs \<Longrightarrow> q \<noteq> r \<Longrightarrow> \<not> comparable q r"
  shows "forest bits s d (map (place s) qs)" "subs bits s d (map (place s) qs) = lost bits s (set qs)"
proof -
  have ok: "prefix_ok bits q" if "q \<in> set qs" for q using qs(2) [OF that] by (simp add: linked_def)
  have val: "ptr_at s (place s q) = walk s q" if "q \<in> set qs" for q
    using qs(2) [OF that] linked_val by blast
  have "lost bits s (set qs) = (\<Union>q \<in> set qs. lost bits s {q})" by (auto simp: lost_def below_def)
  moreover have "lost bits s {q} = sub bits s d (ptr_at s (place s q))" if "q \<in> set qs" for q
    using lost_tree [OF ok [OF that]] qs(2) [OF that] val [OF that] by simp
  ultimately show sb: "subs bits s d (map (place s) qs) = lost bits s (set qs)" by (simp add: subs_def)
  have inj: "q = r" if "q \<in> set qs" "r \<in> set qs" "place s q = place s r" for q r
    using place_inj [OF t] qs(2) that by blast
  have in_q: "\<not> inside (lost bits s (set qs)) (place s q)" if q: "q \<in> set qs" for q
  proof
    assume "inside (lost bits s (set qs)) (place s q)"
    from inside_lost [OF t _ this] qs(2) [OF q] obtain r u where "r \<in> set qs" "q = r @ u" "u \<noteq> []" by blast
    then show False using ap [OF q, of r] by (auto simp: comparable_def)
  qed
  have used: "for_files (bm_bs s) b \<and> block_used (bm_bs s) b" if "b \<in> lost bits s (set qs)" for b
    using that t by (auto simp: lost_def below_def tree_ok_def)
  have inj_w: "place s q = place s r \<and> u = v" if a: "q \<in> set qs" "r \<in> set qs" "u \<in> offs bits d" "v \<in> offs bits d"
      "walk_from s (walk s q) u = walk_from s (walk s r) v" "walk_from s (walk s q) u \<noteq> 0" for q r u v
  proof -
    have w: "walk s (q @ u) = walk_from s (walk s q) u" "walk s (r @ v) = walk_from s (walk s r) v"
      using walk_append prefix_ok_ne [OF ok] a(1,2) by blast+
    have "prefix_ok bits (q @ u)" "prefix_ok bits (r @ v)" using prefix_ok_append prefix_ok_ne [OF ok] ok a(1-4) qs(2) by auto
    then have e: "q @ u = r @ v" using tree_inj [OF t] w a(5,6) by simp
    then have "comparable q r" unfolding comparable_def by (metis append_eq_append_conv2)
    then show ?thesis using ap [OF a(1,2)] e by auto
  qed
  have "distinct (map (place s) qs)" using qs(1) inj by (auto simp: distinct_map inj_on_def)
  moreover have "p = p' \<and> u = v" if "p \<in> set (map (place s) qs)" "p' \<in> set (map (place s) qs)" "u \<in> offs bits d" "v \<in> offs bits d"
      "walk_from s (ptr_at s p) u = walk_from s (ptr_at s p') v" "walk_from s (ptr_at s p) u \<noteq> 0" for p p' u v
  proof -
    from that(1,2) obtain q r where q: "q \<in> set qs" "p = place s q" and r: "r \<in> set qs" "p' = place s r" by auto
    show ?thesis using inj_w [OF q(1) r(1) that(3,4)] that(5,6) unfolding q(2) r(2) val [OF q(1)] val [OF r(1)] by blast
  qed
  moreover have "\<not> inside (lost bits s (set qs)) p" if "p \<in> set (map (place s) qs)" for p using that in_q by auto
  ultimately show "forest bits s d (map (place s) qs)" unfolding forest_def sb using used by blast
qed

lemma local_same [simp]:
  "walk (s\<lparr>nr_ptr := v\<rparr>) q = walk s q" "place (s\<lparr>nr_ptr := v\<rparr>) q = place s q" "walk_from (s\<lparr>nr_ptr := v\<rparr>) b q = walk_from s b q"
  "tree_ok bits (s\<lparr>nr_ptr := v\<rparr>) = tree_ok bits s" "linked bits (s\<lparr>nr_ptr := v\<rparr>) q = linked bits s q" "lost bits (s\<lparr>nr_ptr := v\<rparr>) Q = lost bits s Q"
proof -
  show wf: "walk_from (s\<lparr>nr_ptr := v\<rparr>) b q = walk_from s b q" for b q by (induction q arbitrary: b) simp_all
  show w: "walk (s\<lparr>nr_ptr := v\<rparr>) q = walk s q" for q by (simp add: walk_def wf)
  show "place (s\<lparr>nr_ptr := v\<rparr>) q = place s q" "linked bits (s\<lparr>nr_ptr := v\<rparr>) q = linked bits s q" "tree_ok bits (s\<lparr>nr_ptr := v\<rparr>) = tree_ok bits s"
    by (simp_all add: place_def linked_def tree_ok_def w)
  show "lost bits (s\<lparr>nr_ptr := v\<rparr>) Q = lost bits s Q" using w by (auto simp: lost_def)
qed

lemma local_place [simp]: "place (s\<lparr>nr_ptr := v\<rparr>) = place s"
  by (rule ext) simp

lemma place_not_local [simp]: "place s q \<noteq> In_Local"
  by (simp add: place_def)

lemma apart_ne: "apart Q R \<Longrightarrow> q \<in> Q \<Longrightarrow> r \<in> R \<Longrightarrow> q \<noteq> r"
  unfolding apart_def comparable_def by force

text \<open>While subtrees apart from them are cut off, the trees at the places stay.\<close>

lemma cut_forest:
  assumes t: "tree_ok bits s" and cut: "cut_off h bits s Q s'" and Q: "\<And>q. q \<in> Q \<Longrightarrow> linked bits s q"
    and qs: "distinct qs" "\<And>q. q \<in> set qs \<Longrightarrow> linked bits s q \<and> depth_of (hd q) - length q = d"
    and ap: "\<And>q r. q \<in> set qs \<Longrightarrow> r \<in> set qs \<Longrightarrow> q \<noteq> r \<Longrightarrow> \<not> comparable q r" and Qqs: "apart Q (set qs)"
  shows "forest bits s' d (map (place s) qs)" "subs bits s' d (map (place s) qs) = lost bits s (set qs)"
    "\<And>q. q \<in> set qs \<Longrightarrow> ptr_at s' (place s q) = walk s q"
proof -
  from cut obtain v where f: "freed h (s\<lparr>nr_ptr := v\<rparr>) (lost bits s Q) (place s ` Q) s'" by (auto simp: cut_off_def)
  let ?s = "s\<lparr>nr_ptr := v\<rparr>"
  have fo: "forest bits ?s d (map (place s) qs)" "subs bits ?s d (map (place s) qs) = lost bits s (set qs)"
    using paths_forest [of bits ?s qs d] t qs ap by simp_all
  have cmp: "\<not> comparable q r" if "q \<in> Q" "r \<in> set qs" for q r using Qqs that by (simp add: apart_def)
  have d: "lost bits s Q \<inter> subs bits ?s d (map (place s) qs) = {}" unfolding fo(2) using lost_disjoint [OF t] cmp by blast
  have p: "set (map (place s) qs) \<inter> place s ` Q = {}"
  proof (rule ccontr)
    assume "set (map (place s) qs) \<inter> place s ` Q \<noteq> {}"
    then obtain q r where "q \<in> set qs" "r \<in> Q" "place s q = place s r" by auto
    then show False using place_inj [OF t, of q r] Q [of r] qs(2) [of q] apart_ne [OF Qqs, of r q] by simp
  qed
  have i1: "\<not> inside (subs bits ?s d (map (place s) qs)) p" if "p \<in> place s ` Q" for p
  proof
    assume i: "inside (subs bits ?s d (map (place s) qs)) p"
    from that obtain q where q: "q \<in> Q" "p = place s q" by blast
    from inside_lost [OF t Q [OF q(1)] i [unfolded fo(2) q(2)]] obtain r u where "r \<in> set qs" "q = r @ u" by blast
    then show False using cmp [OF q(1)] by (auto simp: comparable_def)
  qed
  have i2: "\<not> inside (lost bits s Q) p" if pq: "p \<in> set (map (place s) qs)" for p
  proof
    assume i: "inside (lost bits s Q) p"
    from pq obtain q where q: "q \<in> set qs" "p = place s q" by auto
    have "linked bits s q" using qs(2) [OF q(1)] by blast
    from inside_lost [OF t this i [unfolded q(2)]] obtain r u where "r \<in> Q" "q = r @ u" by blast
    then show False using cmp q(1) by (auto simp: comparable_def)
  qed
  note fr = forest_frame [OF f fo(1) d p i1 i2]
  show "forest bits s' d (map (place s) qs)" "subs bits s' d (map (place s) qs) = lost bits s (set qs)" using fr(2,3) fo(2) by simp_all
  have "ptr_at ?s (place s q) = ptr_at s (place s q)" for q by (cases "place s q") (simp_all add: place_def split: if_splits)
  then show "ptr_at s' (place s q) = walk s q" if "q \<in> set qs" for q
    using fr(1) [of "place s q"] linked_val qs(2) [OF that] that by fastforce
qed

lemma cut_step:
  assumes t: "tree_ok bits s" and cut: "cut_off h bits s Q s'" and Q: "\<And>q. q \<in> Q \<Longrightarrow> linked bits s q"
    and qs: "distinct qs" "\<And>q. q \<in> set qs \<Longrightarrow> linked bits s q \<and> depth_of (hd q) - length q = d"
    and ap: "\<And>q r. q \<in> set qs \<Longrightarrow> r \<in> set qs \<Longrightarrow> q \<noteq> r \<Longrightarrow> \<not> comparable q r" and Qqs: "apart Q (set qs)"
    and e: "calm (be_ba e)" "\<forall>b. be_rd e b"
  obtains s'' where "ext2_free_branches bits e d (map (place s) qs) s' = Some s''" "cut_off h bits s (Q \<union> set qs) s''"
proof -
  note f = cut_forest [OF t cut Q qs ap Qqs]
  from cut obtain v where v: "freed h (s\<lparr>nr_ptr := v\<rparr>) (lost bits s Q) (place s ` Q) s'" by (auto simp: cut_off_def)
  obtain s'' where s'': "ext2_free_branches bits e d (map (place s) qs) s' = Some s''" "freed h s' (lost bits s (set qs)) (set (map (place s) qs)) s''"
    using free_branches_ok [OF e freed_ok [OF v] f(1)] f(2) by auto
  have "cut_off h bits s (Q \<union> set qs) s''" using freed_trans [OF v s''(2)] unfolding cut_off_def lost_Un(1) by (auto simp: image_Un)
  then show thesis using that s''(1) by blast
qed

text \<open>The same through the local variable \<open>nr\<close>.\<close>

lemma ptr_at_local: "ptr_at (s\<lparr>nr_ptr := v\<rparr>) p = (if p = In_Local then v else ptr_at s p)"
  by (cases p) simp_all

lemma freed_local: "freed h (s\<lparr>nr_ptr := v\<rparr>) T P s' \<Longrightarrow> In_Local \<notin> P \<Longrightarrow> freed h (s\<lparr>nr_ptr := w\<rparr>) T P (s'\<lparr>nr_ptr := w\<rparr>)"
  by (auto simp: freed_def ptr_at_local)

lemma freed_unlocal: "freed h (s\<lparr>nr_ptr := v\<rparr>) T (insert In_Local P) s' \<Longrightarrow> freed h (s\<lparr>nr_ptr := 0\<rparr>) T P s'"
  by (auto simp: freed_def ptr_at_local)

lemma freed_dirty: "freed h s T P s' \<Longrightarrow> freed h s T P (s'\<lparr>bm_inode := (bm_inode s')\<lparr>i_dirty := x\<rparr>\<rparr>)"
proof -
  assume f: "freed h s T P s'"
  have "ptr_at (s'\<lparr>bm_inode := i\<rparr>) p = ptr_at s' p" for i p by (cases p) simp_all
  moreover have "\<exists>y. (bm_inode s')\<lparr>i_dirty := x\<rparr> = (bm_inode s)\<lparr>i_dirty := y\<rparr>" using f by (auto simp: freed_def)
  ultimately show ?thesis using f by (simp add: freed_def)
qed

lemma cut_local_change: "cut_off h bits s Q s' \<Longrightarrow> cut_off h bits s Q (s'\<lparr>nr_ptr := w\<rparr>)"
proof -
  assume "cut_off h bits s Q s'"
  then obtain v where v: "freed h (s\<lparr>nr_ptr := v\<rparr>) (lost bits s Q) (place s ` Q) s'" by (auto simp: cut_off_def)
  have "In_Local \<notin> place s ` Q" using place_not_local by (metis imageE)
  from freed_local [OF v this, of w] show ?thesis unfolding cut_off_def by blast
qed

lemma cut_ok: "cut_off h bits s Q s' \<Longrightarrow> balloc_ok h (bm_bs s')"
  unfolding cut_off_def using freed_ok by blast

lemma cut_clear:
  assumes "cut_off h bits s Q s'" "lost bits s {q} = {}"
  shows "cut_off h bits s (insert q Q) (set_ptr (place s q) 0 s')"
proof -
  from assms(1) obtain v where "freed h (s\<lparr>nr_ptr := v\<rparr>) (lost bits s Q) (place s ` Q) s'" by (auto simp: cut_off_def)
  from freed_trans [OF this cleared [OF freed_ok [OF this]]] show ?thesis
    unfolding cut_off_def using lost_Un(1) [of bits s "{q}" Q] assms(2) by auto
qed

lemma lost_none: "walk s q = 0 \<Longrightarrow> prefix_ok bits q \<Longrightarrow> lost bits s {q} = {}"
  using lost_tree [OF _ refl] by simp

lemma set_ptr_local: "p \<noteq> In_Local \<Longrightarrow> set_ptr p v (s\<lparr>nr_ptr := w\<rparr>) = (set_ptr p v s)\<lparr>nr_ptr := w\<rparr>"
  by (cases p) simp_all

lemma cut_zero:
  assumes "cut_off h bits s Q s'" "linked bits s q" "walk s q = 0"
  shows "cut_off h bits s (insert q Q) s'"
proof -
  from assms(1) obtain v where v: "freed h (s\<lparr>nr_ptr := v\<rparr>) (lost bits s Q) (place s ` Q) s'" by (auto simp: cut_off_def)
  have "ptr_at (s\<lparr>nr_ptr := v\<rparr>) (place s q) = 0" using linked_val [OF assms(2)] assms(3) by (simp add: ptr_at_local)
  from freed_zero [OF v this] show ?thesis
    unfolding cut_off_def using lost_Un(1) [of bits s "{q}" Q] lost_none [OF assms(3)] assms(2) by (auto simp: linked_def)
qed

lemma cut_local:
  assumes t: "tree_ok bits s" and cut: "cut_off h bits s Q s'" and Q: "\<And>q. q \<in> Q \<Longrightarrow> linked bits s q"
    and q: "linked bits s q" and d: "d = depth_of (hd q) - length q" and ap: "apart Q {q}"
    and e: "calm (be_ba e)" "\<forall>b. be_rd e b"
  obtains s'' where "ext2_free_branches bits e d [In_Local] ((set_ptr (place s q) 0 s')\<lparr>nr_ptr := walk s q, bm_inode := (bm_inode s')\<lparr>i_dirty := x\<rparr>\<rparr>) = Some s''"
    "cut_off h bits s (insert q Q) s''"
proof -
  let ?p = "place s q" and ?nr = "walk s q"
  let ?s1 = "s'\<lparr>nr_ptr := ?nr\<rparr>" and ?s2 = "(set_ptr (place s q) 0 s')\<lparr>nr_ptr := ?nr, bm_inode := (bm_inode s')\<lparr>i_dirty := x\<rparr>\<rparr>"
  from cut obtain v where v: "freed h (s\<lparr>nr_ptr := v\<rparr>) (lost bits s Q) (place s ` Q) s'" by (auto simp: cut_off_def)
  have f: "forest bits s' d [?p]" "subs bits s' d [?p] = lost bits s {q}" "ptr_at s' ?p = ?nr"
    using cut_forest [OF t cut Q, of "[q]" d] q d ap by auto
  have s1: "freed h (s\<lparr>nr_ptr := ?nr\<rparr>) (lost bits s Q) (place s ` Q) ?s1"
    using freed_local [OF v] place_not_local by (metis imageE)
  have subs1: "subs bits ?s1 d [In_Local] = lost bits s {q}" using f(2,3) by (simp add: subs_def sub_def)
  have fo1: "forest bits ?s1 d [In_Local]" using f(1,3) unfolding forest_def subs1 f(2) by simp
  have "freed h ?s1 {} {?p} (set_ptr ?p 0 ?s1)" using cleared freed_ok [OF s1] by blast
  from freed_dirty [OF this, of x] have s2: "freed h ?s1 {} {?p} ?s2" by (simp add: set_ptr_local)
  have "\<not> inside (lost bits s {q}) ?p" using forestD(4) [OF f(1)] f(2) by simp
  then have fo2: "forest bits ?s2 d [In_Local]" "subs bits ?s2 d [In_Local] = lost bits s {q}"
    using forest_frame(2,3) [OF s2 fo1] subs1 by auto
  from free_branches_ok [OF e freed_ok [OF s2] fo2(1)] obtain s'' where
    s'': "ext2_free_branches bits e d [In_Local] ?s2 = Some s''" "freed h ?s2 (lost bits s {q}) {In_Local} s''" using fo2(2) by auto
  have "freed h (s\<lparr>nr_ptr := ?nr\<rparr>) (lost bits s Q \<union> {} \<union> lost bits s {q}) (place s ` Q \<union> {?p} \<union> {In_Local}) s''"
    by (rule freed_trans [OF freed_trans [OF s1 s2] s''(2)])
  then have "freed h (s\<lparr>nr_ptr := ?nr\<rparr>) (lost bits s (insert q Q)) (insert In_Local (place s ` insert q Q)) s''"
    using lost_Un(1) [of bits s "{q}" Q] by (simp add: Un_commute insert_commute)
  from freed_unlocal [OF this] have "cut_off h bits s (insert q Q) s''" unfolding cut_off_def by blast
  then show thesis using that s''(1) by blast
qed

section \<open>The ends of the blocks on a path\<close>

definition ends :: "nat \<Rightarrow> nat list \<Rightarrow> nat \<Rightarrow> nat list list" where
  "ends bits q j = map (\<lambda>x. take j q @ [x]) [Suc (q ! j)..<2 ^ bits]"

lemma not_comparable: "j < length q \<Longrightarrow> j < length r \<Longrightarrow> q ! j \<noteq> r ! j \<Longrightarrow> \<not> comparable q r"
  unfolding comparable_def by (metis nth_append)

lemma endsD:
  assumes "r \<in> set (ends bits q j)" "j < length q"
  shows "length r = Suc j" "q ! j < r ! j" "l < j \<Longrightarrow> r ! l = q ! l"
  using assms by (auto simp: ends_def nth_append)

lemma ends_apart:
  assumes "r \<in> set (ends bits q j)" "t \<in> set (ends bits q l)" "j < l" "l < length q"
  shows "\<not> comparable r t"
  using endsD [OF assms(1)] endsD [OF assms(2,4)] assms(3,4) by (intro not_comparable [of j]) auto

lemma full_extend:
  assumes "full_path bits q" "0 < j" "j < length q" "x < 2 ^ bits" "walk s (take j q) \<noteq> 0"
  shows "linked bits s (take j q @ [x])" "depth_of (hd (take j q @ [x])) - length (take j q @ [x]) = length q - 1 - j"
proof -
  have h: "hd (take j q @ [x]) = hd q" "take j q \<noteq> []" using assms(2,3) by (auto simp: hd_append hd_take)
  have "prefix_ok bits (take j q)" using assms(1,2) prefix_ok_take by (simp add: full_path_def)
  then have "prefix_ok bits (take j q @ [x])" using assms h prefix_ok_append [OF h(2), of bits "[x]"] by (simp add: full_path_def offs_def)
  then show "linked bits s (take j q @ [x])" using assms(5) by (simp add: linked_def)
  show "depth_of (hd (take j q @ [x])) - length (take j q @ [x]) = length q - 1 - j" using assms(1,3) h by (simp add: full_path_def)
qed

lemma ends_linked:
  assumes "full_path bits q" "0 < j" "j < length q" "walk s (take j q) \<noteq> 0" "r \<in> set (ends bits q j)"
  shows "linked bits s r" "depth_of (hd r) - length r = length q - 1 - j"
  using full_extend [OF assms(1-3) _ assms(4)] assms(5) by (auto simp: ends_def)

lemma ends_places:
  assumes "0 < j" "j < length q"
  shows "map (place s) (ends bits q j) = locs_after bits (place s (take (Suc j) q))"
    and "0 < q ! j \<Longrightarrow> q ! j < 2 ^ bits \<Longrightarrow> map (place s) (take (Suc j) q # ends bits q j) = locs_after bits (loc_dec (place s (take (Suc j) q)))"
proof -
  have t: "take (Suc j) q = take j q @ [q ! j]" "take j q \<noteq> []" using assms by (auto simp: take_Suc_conv_app_nth)
  show "map (place s) (ends bits q j) = locs_after bits (place s (take (Suc j) q))"
    using t by (simp add: ends_def place_snoc)
  show "map (place s) (take (Suc j) q # ends bits q j) = locs_after bits (loc_dec (place s (take (Suc j) q)))" if "0 < q ! j" "q ! j < 2 ^ bits"
    using t that by (simp add: ends_def place_snoc upt_conv_Cons)
qed

lemma clear_ends_ok:
  assumes t: "tree_ok bits s" and q: "full_path bits q" and e: "calm (be_ba e)" "\<forall>b. be_rd e b"
    and "i < length q" "\<And>j. 0 < j \<Longrightarrow> j \<le> i \<Longrightarrow> walk s (take j q) \<noteq> 0"
    and "cut_off h bits s Q s'" "\<And>r. r \<in> Q \<Longrightarrow> linked bits s r" "\<And>j. 0 < j \<Longrightarrow> j \<le> i \<Longrightarrow> apart Q (set (ends bits q j))"
  shows "\<exists>s''. clear_ends bits e (length q - 1 - i) (map (\<lambda>j. place s (take (Suc j) q)) (rev [1..<Suc i])) s' = Some s'' \<and>
    cut_off h bits s (Q \<union> (\<Union>j \<in> {1..i}. set (ends bits q j))) s''"
  using assms(5-)
proof (induction i arbitrary: Q s')
  case (Suc i)
  let ?E = "ends bits q (Suc i)"
  have l: "\<And>r. r \<in> set ?E \<Longrightarrow> linked bits s r \<and> depth_of (hd r) - length r = length q - 1 - Suc i"
    using ends_linked [OF q _ Suc.prems(1) Suc.prems(2)] by simp
  have d: "distinct ?E" by (simp add: ends_def distinct_map inj_on_def)
  have nc: "\<not> comparable r u" if "r \<in> set ?E" "u \<in> set ?E" "r \<noteq> u" for r u
    using that Suc.prems(1) by (intro not_comparable [of "Suc i"]) (auto simp: ends_def nth_append)
  obtain s1 where s1: "ext2_free_branches bits e (length q - 1 - Suc i) (map (place s) ?E) s' = Some s1" "cut_off h bits s (Q \<union> set ?E) s1"
    by (rule cut_step [OF t Suc.prems(3,4) d l nc _ e]) (use Suc.prems(5) in auto)
  have ap: "apart (Q \<union> set ?E) (set (ends bits q j))" if "0 < j" "j \<le> i" for j
  proof -
    have "\<not> comparable r u" if "r \<in> set ?E" "u \<in> set (ends bits q j)" for r u
      using ends_apart [OF that(2,1)] \<open>j \<le> i\<close> Suc.prems(1) by (auto simp: comparable_def)
    then show ?thesis using Suc.prems(5) [of j] that unfolding apart_def by auto
  qed
  from Suc.IH [OF _ _ s1(2) _ ap] l Suc.prems(1,2,4) obtain s2 where
    s2: "clear_ends bits e (length q - 1 - i) (map (\<lambda>j. place s (take (Suc j) q)) (rev [1..<Suc i])) s1 = Some s2"
      "cut_off h bits s (Q \<union> set ?E \<union> (\<Union>j \<in> {1..i}. set (ends bits q j))) s2" by auto
  have "{1..Suc i} = insert (Suc i) {1..i}" by auto
  then have "(\<Union>j \<in> {1..Suc i}. set (ends bits q j)) = set ?E \<union> (\<Union>j \<in> {1..i}. set (ends bits q j))" by simp
  moreover have "length q - 1 - Suc i + 1 = length q - 1 - i" using Suc.prems(1) by simp
  ultimately show ?case using s1(1) s2 ends_places(1) [OF _ Suc.prems(1), of s bits] by (simp add: Un_assoc)
qed simp

section \<open>The shared part of a branch\<close>

lemma cut_zeros_take:
  "q \<noteq> [] \<Longrightarrow> \<exists>k. cut_zeros q = take k q \<and> 0 < k \<and> k \<le> length q \<and> (\<forall>j. k \<le> j \<longrightarrow> j < length q \<longrightarrow> q ! j = 0) \<and> (k = 1 \<or> q ! (k - 1) \<noteq> 0)"
proof (induction q rule: cut_zeros.induct)
  case (1 q)
  show ?case
  proof (cases "length q > 1 \<and> last q = 0")
    case True
    then have "butlast q \<noteq> []" by (cases q rule: rev_cases) auto
    from 1(1) [OF True this] obtain k where k: "cut_zeros (butlast q) = take k (butlast q)" "0 < k" "k \<le> length (butlast q)"
      "\<forall>j. k \<le> j \<longrightarrow> j < length (butlast q) \<longrightarrow> butlast q ! j = 0" "k = 1 \<or> butlast q ! (k - 1) \<noteq> 0"
      by (elim exE conjE) (rule that)
    have "q ! j = 0" if "k \<le> j" "j < length q" for j
    proof (cases "j = length q - 1")
      case True
      moreover have "q \<noteq> []" using that by auto
      ultimately show ?thesis using \<open>length q > 1 \<and> last q = 0\<close> last_conv_nth [of q] by simp
    next
      case False
      then show ?thesis using k(4) that by (simp add: nth_butlast)
    qed
    moreover have "butlast q ! (k - 1) = q ! (k - 1)" using k(2,3) by (intro nth_butlast) simp
    moreover have "take k (butlast q) = take k q" 
      by (rule take_butlast) (use k(3) True in \<open>simp add: less_eq_Suc_le, linarith\<close>)
    ultimately show ?thesis using True k by (subst cut_zeros.simps) (auto intro!: exI [of _ k])
  next
    case False
    then have "length q = 1 \<or> q ! (length q - 1) \<noteq> 0" using 1(2) by (metis One_nat_def Suc_lessI last_conv_nth length_greater_0_conv)
    then show ?thesis using False 1(2) by (subst cut_zeros.simps) (auto intro!: exI [of _ "length q"])
  qed
qed

lemma survivor_ok:
  "survivor s ch n \<le> n" "survivor s ch n < j \<Longrightarrow> j \<le> n \<Longrightarrow> all_zeroes s (locs_before (fst (ch ! j)))"
  by (induction n) (auto simp: le_Suc_eq split: if_splits)

lemma chain_nth: "j < m \<Longrightarrow> m \<le> k \<Longrightarrow> fst (chain_of s (take k q) m ! j) = place s (take (Suc j) q)"
proof -
  assume "j < m" "m \<le> k"
  then have "[1..<Suc m] ! j = Suc j" "j < length [1..<Suc m]" "min (Suc j) k = Suc j" by (simp_all del: upt_Suc)
  then show ?thesis unfolding chain_of_def by (simp del: upt_Suc)
qed

text \<open>Where the tree is cut: the path is shared down to the pointer with index \<open>i\<close>; below it, there is nothing before
  the path.\<close>

definition cut_site :: "bmap \<Rightarrow> nat list \<Rightarrow> nat \<Rightarrow> bool" where
  "cut_site s q i \<longleftrightarrow> i < length q \<and> (\<forall>j. 0 < j \<longrightarrow> j \<le> i \<longrightarrow> walk s (take j q) \<noteq> 0) \<and>
     (\<forall>r. take (Suc i) r = take (Suc i) q \<longrightarrow> before_path r q \<longrightarrow> walk s r = 0)"

lemma walk_zero_take: "walk s (take m r) = 0 \<Longrightarrow> 0 < m \<Longrightarrow> r \<noteq> [] \<Longrightarrow> walk s r = 0"
  using walk_zero [of "take m r" s "drop m r"] by (simp only: append_take_drop_id) auto

lemma nothing_before:
  assumes take: "take j r = take j q" and j: "0 < j" "j < length r" "j < length q" "r ! j < q ! j" and nz: "walk s (take j q) \<noteq> 0"
    and z: "all_zeroes s (locs_before (place s (take (Suc j) q)))"
  shows "walk s r = 0"
proof -
  have t: "take (Suc j) q = take j q @ [q ! j]" "take (Suc j) r = take j q @ [r ! j]" "take j q \<noteq> []"
    using j take by (auto simp: take_Suc_conv_app_nth)
  have "ind_ptr s (walk s (take j q)) (r ! j) = 0"
    using z j(4) unfolding t(1) place_snoc [OF t(3)] by (auto simp: all_zeroes_def list_all_iff)
  then have "walk s (take (Suc j) r) = 0" unfolding t(2) walk_snoc [OF t(3)] by simp
  then show ?thesis using walk_zero_take [of s "Suc j" r] j(2) by fastforce
qed

lemma find_shared_ok:
  fixes s
  assumes q: "q \<noteq> []" and rd: "\<forall>b. rd b"
  defines "P \<equiv> \<lambda>j. place s (take (Suc j) q)"
  obtains (inner) i where "cut_site s q i" "0 < i" "0 < q ! i" "ext2_find_shared rd s q = (s, map P [0..<i] @ [loc_dec (P i)], 0)"
  | (detach) i where "cut_site s q i" "ext2_find_shared rd s q = (set_ptr (P i) 0 s, map P [0..<Suc i], walk s (take (Suc i) q))"
proof -
  from cut_zeros_take [OF q] obtain k where
    k: "cut_zeros q = take k q" "0 < k" "k \<le> length q" "\<forall>j. k \<le> j \<longrightarrow> j < length q \<longrightarrow> q ! j = 0" "k = 1 \<or> q ! (k - 1) \<noteq> 0"
    by (elim exE conjE) (rule that)
  let ?o = "take k q"
  have "?o \<noteq> []" using k(2) q by auto
  from get_branch_ok [OF rd this, of s, unfolded branch_ok_def] obtain m whole where
    b0: "ext2_get_branch rd s ?o = (chain_of s ?o m, whole, None)" "0 < m" "m \<le> length ?o"
      "\<forall>l. 0 < l \<longrightarrow> l < m \<longrightarrow> walk s (take l ?o) \<noteq> 0" "if whole then m = length ?o \<and> walk s ?o \<noteq> 0 else walk s (take m ?o) = 0"
    by (elim exE conjE) (rule that)
  have tk: "take l ?o = take l q" if "l \<le> m" for l using that b0(3) by simp
  have b: "ext2_get_branch rd s ?o = (chain_of s ?o m, whole, None)" "0 < m" "m \<le> k" "\<And>l. 0 < l \<Longrightarrow> l < m \<Longrightarrow> walk s (take l q) \<noteq> 0"
      "if whole then m = k \<and> walk s ?o \<noteq> 0 else walk s (take m q) = 0"
    using b0 tk k(3) by (auto simp del: take_take split: if_splits)
  let ?ch = "chain_of s ?o m" and ?i = "survivor s (chain_of s ?o m) (m - 1)"
  define i where "i = ?i"
  have i: "i < m" using survivor_ok(1) [of s ?ch "m - 1"] b(2) by (simp add: i_def)
  have pv: "ptr_at s (P j) = walk s (take (Suc j) q)" if "j < m" for j
  proof -
    have "butlast (take (Suc j) q) = take j q" using that b(3) k(3) by (simp add: butlast_take)
    moreover have "length (take (Suc j) q) = Suc j" using that b(3) k(3) by simp
    moreover have "j = 0 \<or> walk s (take j q) \<noteq> 0" using that b(4) [of j] by blast
    ultimately show ?thesis unfolding P_def using q by (intro ptr_at_place) auto
  qed
  have fsts: "map fst (take l ?ch) = map P [0..<l]" if "l \<le> m" for l
    using that chain_nth [OF _ b(3)] by (intro nth_equalityI) (auto simp: P_def)
  have before: "walk s r = 0" if r: "take (Suc i) r = take (Suc i) q" "before_path r q" for r
  proof -
    from r(2) obtain j where j: "j < length r" "j < length q" "take j r = take j q" "r ! j < q ! j" by (auto simp: before_path_def)
    have ij: "i < j" using j(4) r(1) by (metis less_irrefl linorder_not_less lessI nth_take less_Suc_eq_le)
    have jk: "j < k" using j(2,4) k(4) by (metis linorder_not_less not_less_zero)
    show ?thesis
    proof (cases "j < m")
      case True
      have "all_zeroes s (locs_before (place s (take (Suc j) q)))"
        using survivor_ok(2) [of s ?ch "m - 1" j] ij True chain_nth [OF True b(3)] by (simp add: i_def)
      then show ?thesis using nothing_before [OF j(3) _ j(1,2,4)] ij b(4) [of j] True by simp
    next
      case False
      then have "walk s (take m q) = 0" using b(5) jk by (auto split: if_splits)
      moreover have "take m r = take m q" using j(3) False by (metis linorder_not_less min.absorb1 take_take)
      ultimately show ?thesis using walk_zero_take [of s m r] b(2) j(1) by fastforce
    qed
  qed
  have site: "cut_site s q i" unfolding cut_site_def using i b(3,4) k(3) before by auto
  have last: "last ?ch = (P (m - 1), walk s (take m q))" using b(2,3) by (simp add: P_def min_def)
  have nt: "fst (?ch ! i) = P i" using chain_nth [OF i b(3)] by (simp add: P_def)
  have lo: "length (take k q) = k" using k(3) by simp
  have c: "(walk s (take m q) = 0 \<and> ptr_at s (P (m - 1)) \<noteq> 0) = False" using pv [of "m - 1"] b(2) by auto
  have f: "map fst (take i ?ch) = map P [0..<i]" "map fst (take (Suc i) ?ch) = map P [0..<Suc i]" using fsts i by simp_all
  have unf: "ext2_find_shared rd s q =
    (if i = k - 1 \<and> 0 < i then (s, map P [0..<i] @ [loc_dec (P i)], 0) else (set_ptr (P i) 0 s, map P [0..<Suc i], walk s (take (Suc i) q)))"
    unfolding ext2_find_shared_def Let_def k(1) b(1) prod.case last chain_of_simps(1) i_def [symmetric] nt lo pv [OF i] f
    using c by (simp only: if_False)
  show thesis
  proof (cases "i = k - 1 \<and> 0 < i")
    case True
    then have "0 < q ! i" using k(5) by auto
    then show thesis using inner [OF site _ _ unf [unfolded if_P [OF True]]] True by blast
  next
    case False
    then show thesis using detach [OF site unf [unfolded if_not_P [OF False]]] by blast
  qed
qed

section \<open>Pruning the tree\<close>

text \<open>The subtrees behind a path: those at the ends of the blocks on its shared part, and the one at its cut.\<close>

definition cuts :: "nat \<Rightarrow> nat list \<Rightarrow> nat \<Rightarrow> nat list set" where
  "cuts bits q i = insert (take (Suc i) q) (\<Union>j \<in> {1..i}. set (ends bits q j))"

lemma cut_none: "balloc_ok h (bm_bs s) \<Longrightarrow> cut_off h bits s {} s"
  unfolding cut_off_def using freed_refl [of h s] by (intro exI [of _ "nr_ptr s"]) (simp add: lost_Un)

lemma site_linked:
  assumes "full_path bits q" "cut_site s q i" "j \<le> i"
  shows "linked bits s (take (Suc j) q)" "depth_of (hd (take (Suc j) q)) - length (take (Suc j) q) = length q - 1 - j"
proof -
  have i: "j < length q" "0 < j \<Longrightarrow> walk s (take j q) \<noteq> 0" using assms by (auto simp: cut_site_def)
  have "butlast (take (Suc j) q) = take j q" using i(1) by (simp add: butlast_take)
  then show "linked bits s (take (Suc j) q)"
    using assms(1) i prefix_ok_take [of bits q "Suc j"] by (cases "j = 0") (auto simp: linked_def full_path_def)
  show "depth_of (hd (take (Suc j) q)) - length (take (Suc j) q) = length q - 1 - j"
    using assms(1) i(1) by (simp add: full_path_def hd_take)
qed

lemma cut_top_apart: "0 < j \<Longrightarrow> j \<le> i \<Longrightarrow> i < length q \<Longrightarrow> apart {take (Suc i) q} (set (ends bits q j))"
proof -
  assume a: "0 < j" "j \<le> i" "i < length q"
  have "\<not> comparable (take (Suc i) q) r" if "r \<in> set (ends bits q j)" for r
    using endsD(1,2) [OF that] a by (intro not_comparable [of j]) auto
  then show ?thesis by (simp add: apart_def)
qed

lemma cuts_linked:
  assumes "full_path bits q" "cut_site s q i" "r \<in> cuts bits q i"
  shows "linked bits s r"
proof (cases "r = take (Suc i) q")
  case True
  then show ?thesis using site_linked(1) [OF assms(1,2), of i] by simp
next
  case False
  then obtain j where j: "0 < j" "j \<le> i" "r \<in> set (ends bits q j)" using assms(3) by (auto simp: cuts_def Suc_le_eq)
  moreover have "j < length q" "walk s (take j q) \<noteq> 0" using assms(2) j by (auto simp: cut_site_def)
  ultimately show ?thesis using ends_linked(1) [OF assms(1)] by blast
qed

lemma prune_branch_ok:
  assumes t: "tree_ok bits s" and ok: "balloc_ok h (bm_bs s)" and q: "full_path bits q" "1 < length q" and e: "calm (be_ba e)" "\<forall>b. be_rd e b"
  obtains i s'' where "cut_site s q i" "cut_off h bits s (cuts bits q i) s''"
    "(case ext2_find_shared (be_rd e) s q of
        (s, ps, nr) \<Rightarrow> do {
          let s = s\<lparr>nr_ptr := nr\<rparr>;
          s \<leftarrow> (if nr \<noteq> 0 then ext2_free_branches bits e (length q - length ps) [In_Local]
                   (if length ps = 1 then s\<lparr>bm_inode := (bm_inode s)\<lparr>i_dirty := True\<rparr>\<rparr> else s) else Some s);
          clear_ends bits e (length q - length ps) (rev (tl ps)) s
        }) = Some s''"
proof -
  have ne: "q \<noteq> []" using q(2) by auto
  show thesis
  proof (rule find_shared_ok [OF ne e(2), of s])
    fix i
    assume site: "cut_site s q i" and i: "0 < i" "0 < q ! i"
      and f: "ext2_find_shared (be_rd e) s q = (s, map (\<lambda>j. place s (take (Suc j) q)) [0..<i] @ [loc_dec (place s (take (Suc i) q))], 0)"
    have il: "i < length q" using site by (simp add: cut_site_def)
    let ?s = "s\<lparr>nr_ptr := 0\<rparr>" and ?top = "take (Suc i) q" and ?E = "ends bits q i"
    have qi: "q ! i < 2 ^ bits"
    proof -
      have "q ! i = tl q ! (i - 1)" "i - 1 < length (tl q)" using il i(1) by (simp_all add: nth_tl)
      then have "q ! i \<in> set (tl q)" by simp
      then show ?thesis using q(1) by (simp add: full_path_def prefix_ok_def)
    qed
    have c0: "cut_off h bits s {} ?s" using cut_local_change [OF cut_none [OF ok]] by blast
    have nz: "walk s (take j q) \<noteq> 0" if "0 < j" "j \<le> i" for j using site that by (simp add: cut_site_def)
    have l: "\<And>r. r \<in> set (?top # ?E) \<Longrightarrow> linked bits s r \<and> depth_of (hd r) - length r = length q - 1 - i"
      using site_linked [OF q(1) site, of i] ends_linked [OF q(1) i(1) il nz [OF i(1)]] by auto
    have eq: "?top # ?E = map (\<lambda>x. take i q @ [x]) [q ! i..<2 ^ bits]"
      using qi il by (simp add: ends_def take_Suc_conv_app_nth upt_conv_Cons)
    have d: "distinct (?top # ?E)" unfolding eq by (simp add: distinct_map inj_on_def)
    have nc: "\<not> comparable r u" if "r \<in> set (?top # ?E)" "u \<in> set (?top # ?E)" "r \<noteq> u" for r u
      using that il unfolding eq by (intro not_comparable [of i]) (auto simp: nth_append)
    obtain s1 where s1: "ext2_free_branches bits e (length q - 1 - i) (map (place s) (?top # ?E)) ?s = Some s1" "cut_off h bits s ({} \<union> set (?top # ?E)) s1"
      by (rule cut_step [OF t c0 _ d l nc _ e]) (auto simp: apart_def)
    have ap: "apart (set (?top # ?E)) (set (ends bits q j))" if "0 < j" "j \<le> i - 1" for j
    proof -
      have "\<not> comparable r u" if "r \<in> set ?E" "u \<in> set (ends bits q j)" for r u
        using ends_apart [OF that(2,1)] \<open>0 < j\<close> \<open>j \<le> i - 1\<close> il by (auto simp: comparable_def)
      then show ?thesis using cut_top_apart [of j i q bits] that il by (auto simp: apart_def)
    qed
    have "\<exists>s2. clear_ends bits e (length q - 1 - (i - 1)) (map (\<lambda>j. place s (take (Suc j) q)) (rev [1..<Suc (i - 1)])) s1 = Some s2 \<and>
        cut_off h bits s ({} \<union> set (?top # ?E) \<union> (\<Union>j \<in> {1..i - 1}. set (ends bits q j))) s2"
    proof (rule clear_ends_ok [OF t q(1) e _ _ s1(2)])
      show "i - 1 < length q" using il by simp
      show "linked bits s r" if "r \<in> {} \<union> set (?top # ?E)" for r using l that by blast
      show "apart ({} \<union> set (?top # ?E)) (set (ends bits q j))" if "0 < j" "j \<le> i - 1" for j using ap [OF that] by simp
    qed (use nz in simp)
    then obtain s2 where
      s2: "clear_ends bits e (length q - 1 - (i - 1)) (map (\<lambda>j. place s (take (Suc j) q)) (rev [1..<Suc (i - 1)])) s1 = Some s2"
        "cut_off h bits s ({} \<union> set (?top # ?E) \<union> (\<Union>j \<in> {1..i - 1}. set (ends bits q j))) s2" by blast
    have "{1..i} = insert i {1..i - 1}" using i(1) by auto
    then have "{} \<union> set (?top # ?E) \<union> (\<Union>j \<in> {1..i - 1}. set (ends bits q j)) = cuts bits q i" by (auto simp: cuts_def)
    moreover have "[0..<i] = 0 # [1..<i]" using i(1) by (simp add: upt_conv_Cons)
    moreover have "length q - Suc i + 1 = length q - i" "length q - Suc (i - 1) = length q - i" using il i(1) by simp_all
    ultimately show thesis
      using that [OF site, of s2] f s1(1) s2 ends_places(2) [OF i(1) il, of bits s] i qi by (simp add: rev_map)
  next
    fix i
    assume site: "cut_site s q i"
      and f: "ext2_find_shared (be_rd e) s q = (set_ptr (place s (take (Suc i) q)) 0 s, map (\<lambda>j. place s (take (Suc j) q)) [0..<Suc i], walk s (take (Suc i) q))"
    have il: "i < length q" using site by (simp add: cut_site_def)
    let ?top = "take (Suc i) q" and ?nr = "walk s (take (Suc i) q)"
    note top = site_linked [OF q(1) site, of i, simplified]
    let ?s1 = "(set_ptr (place s ?top) 0 s)\<lparr>nr_ptr := ?nr\<rparr>"
    obtain s1 where s1: "cut_off h bits s {?top} s1"
      "(if ?nr \<noteq> 0 then ext2_free_branches bits e (length q - Suc i) [In_Local]
          (if Suc i = 1 then ?s1\<lparr>bm_inode := (bm_inode s)\<lparr>i_dirty := True\<rparr>\<rparr> else ?s1) else Some ?s1) = Some s1"
    proof (cases "?nr = 0")
      case True
      have "cut_off h bits s {?top} ?s1"
        using cut_local_change [OF cut_clear [OF cut_none [OF ok] lost_none [OF True]]] top(1) by (simp add: linked_def)
      then show thesis using that True by simp
    next
      case False
      let ?x = "if Suc i = 1 then True else i_dirty (bm_inode s)"
      have "bm_inode ?s1 = bm_inode s" "?s1\<lparr>bm_inode := bm_inode ?s1\<rparr> = ?s1" by simp_all
      then have same: "?s1\<lparr>bm_inode := bm_inode s\<rparr> = ?s1" by (simp only:)
      have st: "(if Suc i = 1 then ?s1\<lparr>bm_inode := (bm_inode s)\<lparr>i_dirty := True\<rparr>\<rparr> else ?s1) = ?s1\<lparr>bm_inode := (bm_inode s)\<lparr>i_dirty := ?x\<rparr>\<rparr>"
      proof (cases "Suc i = 1")
        case False
        have "(bm_inode s)\<lparr>i_dirty := i_dirty (bm_inode s)\<rparr> = bm_inode s" by simp
        then show ?thesis unfolding if_not_P [OF False] using same by (simp only:)
      qed simp
      obtain s2 where "ext2_free_branches bits e (length q - 1 - i) [In_Local]
          ((set_ptr (place s ?top) 0 s)\<lparr>nr_ptr := ?nr, bm_inode := (bm_inode s)\<lparr>i_dirty := ?x\<rparr>\<rparr>) = Some s2"
          "cut_off h bits s {?top} s2"
        by (rule cut_local [OF t cut_none [OF ok] _ top(1) _ _ e]) (use top(2) in \<open>auto simp: apart_def\<close>)
      then show thesis using that [of s2] False unfolding st by simp
    qed
    from clear_ends_ok [OF t q(1) e il _ s1(1)] site top(1) cut_top_apart [OF _ _ il] obtain s2 where
      s2: "clear_ends bits e (length q - 1 - i) (map (\<lambda>j. place s (take (Suc j) q)) (rev [1..<Suc i])) s1 = Some s2"
        "cut_off h bits s ({?top} \<union> (\<Union>j \<in> {1..i}. set (ends bits q j))) s2" by (auto simp: cut_site_def)
    have "[0..<Suc i] = 0 # [1..<Suc i]" by (simp add: upt_conv_Cons del: upt_Suc)
    then have l: "length (map (\<lambda>j. place s (take (Suc j) q)) [0..<Suc i]) = Suc i"
      "rev (tl (map (\<lambda>j. place s (take (Suc j) q)) [0..<Suc i])) = map (\<lambda>j. place s (take (Suc j) q)) (rev [1..<Suc i])"
      by (simp_all add: rev_map del: upt_Suc)
    have inode: "bm_inode ?s1 = bm_inode s" and len: "length q - Suc i = length q - 1 - i" by simp_all
    have "cut_off h bits s (cuts bits q i) s2" using s2(2) by (simp add: cuts_def)
    then show thesis
      by (rule that [OF site]) (simp only: f prod.case Let_def l inode s1(2) [unfolded len] s2(1) len Option.bind.bind_lunit)
  qed
qed

lemma kill_subtree_ok:
  assumes t: "tree_ok bits s" and cut: "cut_off h bits s Q s'" and Q: "\<And>q. q \<in> Q \<Longrightarrow> linked bits s q" and n: "n < 15"
    and ap: "apart Q {[n]}" and d: "d = depth_of n - 1" and e: "calm (be_ba e)" "\<forall>b. be_rd e b"
  shows "\<exists>s''. kill_subtree bits e n d s' = Some s'' \<and> cut_off h bits s (insert [n] Q) s''"
proof -
  have l: "linked bits s [n]" using n by (simp add: linked_def prefix_ok_def depth_of_def)
  have nr: "i_ptr s' n = walk s [n]"
    using cut_forest(3) [OF t cut Q, of "[[n]]" "depth_of n - 1" "[n]"] l ap by (simp add: place_def)
  show ?thesis
  proof (cases "walk s [n] = 0")
    case True
    have "cut_off h bits s (insert [n] Q) (s'\<lparr>nr_ptr := 0\<rparr>)" using cut_local_change [OF cut_zero [OF cut l True]] by blast
    then show ?thesis using True nr by (simp add: kill_subtree_def)
  next
    case False
    obtain s'' where "ext2_free_branches bits e d [In_Local] ((set_ptr (place s [n]) 0 s')\<lparr>nr_ptr := walk s [n], bm_inode := (bm_inode s')\<lparr>i_dirty := True\<rparr>\<rparr>) = Some s''"
      "cut_off h bits s (insert [n] Q) s''"
      by (rule cut_local [OF t cut Q l _ ap e]) (use d in auto)
    moreover have "(set_ptr (place s [n]) 0 s')\<lparr>nr_ptr := w, bm_inode := j\<rparr> = s'\<lparr>nr_ptr := w, i_ptr := (i_ptr s')(n := 0), bm_inode := j\<rparr>" for w j
      by (simp add: place_def)
    ultimately show ?thesis using False nr by (simp add: kill_subtree_def Let_def)
  qed
qed

lemma root_apart: "x \<noteq> y \<Longrightarrow> \<not> comparable [x] [y]" "apart Q {[x]} \<Longrightarrow> x \<noteq> y \<Longrightarrow> apart (insert [y] Q) {[x]}"
  by (auto simp: comparable_def apart_def)

lemma do_indirects_ok:
  assumes t: "tree_ok bits s" and cut: "cut_off h bits s Q s'" and Q: "\<And>q. q \<in> Q \<Longrightarrow> linked bits s q" and off: "off < 15"
    and ap: "\<And>x. off < x \<Longrightarrow> 12 \<le> x \<Longrightarrow> x < 15 \<Longrightarrow> apart Q {[x]}" and e: "calm (be_ba e)" "\<forall>b. be_rd e b"
  shows "\<exists>s''. do_indirects bits e off s' = Some s'' \<and> cut_off h bits s (Q \<union> {[x] |x. off < x \<and> 12 \<le> x \<and> x < 15}) s''"
proof -
  have l: "linked bits s [n]" if "n < 15" for n using that by (simp add: linked_def prefix_ok_def depth_of_def)
  have step: "\<exists>s2. (if off < n then kill_subtree bits e n (depth_of n - 1) s1 else Some s1) = Some s2 \<and>
      cut_off h bits s (Q \<union> {[x] |x. off < x \<and> 12 \<le> x \<and> x < Suc n}) s2"
    if c: "cut_off h bits s (Q \<union> {[x] |x. off < x \<and> 12 \<le> x \<and> x < n}) s1" and n: "12 \<le> n" "n < 15" for n s1
  proof (cases "off < n")
    case True
    let ?R = "Q \<union> {[x] |x. off < x \<and> 12 \<le> x \<and> x < n}"
    have "apart ?R {[n]}" using ap [OF True n] root_apart(1) by (auto simp: apart_def)
    moreover have "\<And>q. q \<in> ?R \<Longrightarrow> linked bits s q" using Q l n by fastforce
    ultimately obtain s2 where "kill_subtree bits e n (depth_of n - 1) s1 = Some s2" "cut_off h bits s (insert [n] ?R) s2"
      using kill_subtree_ok [OF t c _ n(2) _ refl e] by blast
    moreover have "insert [n] ?R = Q \<union> {[x] |x. off < x \<and> 12 \<le> x \<and> x < Suc n}" using True n by (auto simp: less_Suc_eq)
    ultimately show ?thesis using True by simp
  next
    case False
    then have "{[x] |x. off < x \<and> 12 \<le> x \<and> x < Suc n} = {[x] |x. off < x \<and> 12 \<le> x \<and> x < n}" by (auto simp: less_Suc_eq)
    then show ?thesis using False c by simp
  qed
  have dp: "depth_of 12 - 1 = 1" "depth_of 13 - 1 = 2" "depth_of 14 - 1 = 3" "Suc 12 = 13" "Suc 13 = 14" "Suc 14 = 15" by (simp_all add: depth_of_def)
  have "Q \<union> {[x] |x. off < x \<and> 12 \<le> x \<and> x < 12} = Q" by auto
  with step [of 12 s', unfolded dp] cut obtain s1 where s1: "(if off < 12 then kill_subtree bits e 12 1 s' else Some s') = Some s1"
    "cut_off h bits s (Q \<union> {[x] |x. off < x \<and> 12 \<le> x \<and> x < 13}) s1" by auto
  from step [of 13 s1, unfolded dp] s1(2) obtain s2 where s2: "(if off < 13 then kill_subtree bits e 13 2 s1 else Some s1) = Some s2"
    "cut_off h bits s (Q \<union> {[x] |x. off < x \<and> 12 \<le> x \<and> x < 14}) s2" by auto
  from step [of 14 s2, unfolded dp] s2(2) obtain s3 where s3: "(if off < 14 then kill_subtree bits e 14 3 s2 else Some s2) = Some s3"
    "cut_off h bits s (Q \<union> {[x] |x. off < x \<and> 12 \<le> x \<and> x < 15}) s3" by auto
  have c: "(off \<noteq> EXT2_IND_BLOCK \<and> off \<noteq> EXT2_DIND_BLOCK \<and> off \<noteq> EXT2_TIND_BLOCK) = (off < 12)"
    "(off \<noteq> EXT2_DIND_BLOCK \<and> off \<noteq> EXT2_TIND_BLOCK) = (off < 13)" "(off \<noteq> EXT2_TIND_BLOCK) = (off < 14)" using off by auto
  show ?thesis unfolding do_indirects_def c(1) unfolding c(2) unfolding c(3) s1(1) Option.bind.bind_lunit s2(1) s3(1) using s3(2) by blast
qed

definition behind :: "nat \<Rightarrow> nat list \<Rightarrow> nat \<Rightarrow> nat list set" where
  "behind bits q i = cuts bits q i \<union> {[x] |x. hd q < x \<and> x < 15}"

lemma root_linked: "n < 15 \<Longrightarrow> linked bits s [n]"
  by (simp add: linked_def prefix_ok_def depth_of_def)

lemma behind_linked: "full_path bits q \<Longrightarrow> cut_site s q i \<Longrightarrow> r \<in> behind bits q i \<Longrightarrow> linked bits s r"
  using cuts_linked root_linked unfolding behind_def by auto

lemma prune_ok:
  assumes t: "tree_ok bits s" and ok: "balloc_ok h (bm_bs s)" and q: "full_path bits q" and e: "calm (be_ba e)" "\<forall>b. be_rd e b"
  obtains i s' where "cut_site s q i" "prune bits e q s = Some s'" "cut_off h bits s (behind bits q i) s'"
proof (cases "length q = 1")
  case True
  then obtain a where a: "q = [a]" by (auto simp: length_Suc_conv)
  have a12: "a < 12" using q a by (auto simp: full_path_def depth_of_def prefix_ok_def split: if_splits)
  let ?qs = "map (\<lambda>x. [x]) [a..<12]"
  have site: "cut_site s q 0" using a by (auto simp: cut_site_def before_path_def nth_take [of 0 1, symmetric])
  have p: "map (place s) ?qs = map In_Inode [a..<12]" by (simp add: place_def)
  obtain s1 where s1: "ext2_free_branches bits e 0 (map (place s) ?qs) s = Some s1" "cut_off h bits s ({} \<union> set ?qs) s1"
  proof (rule cut_step [OF t cut_none [OF ok] _ _ _ _ _ e, of ?qs 0])
    show "distinct ?qs" by (simp add: distinct_map inj_on_def)
    show "linked bits s r \<and> depth_of (hd r) - length r = 0" if "r \<in> set ?qs" for r
      using that root_linked by (auto simp: depth_of_def)
    show "\<not> comparable r u" if "r \<in> set ?qs" "u \<in> set ?qs" "r \<noteq> u" for r u using that root_apart(1) by auto
  qed (auto simp: apart_def)
  have "apart ({} \<union> set ?qs) {[x]}" if "a < x" "12 \<le> x" "x < 15" for x using that root_apart(1) by (auto simp: apart_def)
  moreover have "linked bits s r" if "r \<in> {} \<union> set ?qs" for r using that root_linked by auto
  ultimately obtain s2 where s2: "do_indirects bits e a s1 = Some s2" "cut_off h bits s ({} \<union> set ?qs \<union> {[x] |x. a < x \<and> 12 \<le> x \<and> x < 15}) s2"
    using do_indirects_ok [OF t s1(2), of a e] a12 e by auto
  have "{} \<union> set ?qs \<union> {[x] |x. a < x \<and> 12 \<le> x \<and> x < 15} = behind bits q 0" using a12 by (auto simp: behind_def cuts_def a)
  moreover have "prune bits e q s = Some s2" using s1(1) [unfolded p] s2(1) by (simp add: prune_def a)
  ultimately show thesis using that [OF site, of s2] s2(2) by simp
next
  case False
  have "q \<noteq> []" using prefix_ok_ne q by (auto simp: full_path_def)
  then have l: "1 < length q" using False by (metis One_nat_def length_greater_0_conv linorder_neqE_nat not_less_eq)
  have h: "12 \<le> hd q" "hd q < 15" using q l by (auto simp: full_path_def depth_of_def prefix_ok_def split: if_splits)
  show thesis
  proof (rule prune_branch_ok [OF t ok q l e])
    fix i s1
    assume site: "cut_site s q i" and c: "cut_off h bits s (cuts bits q i) s1"
      and run: "(case ext2_find_shared (be_rd e) s q of
        (s, ps, nr) \<Rightarrow> do {
          let s = s\<lparr>nr_ptr := nr\<rparr>;
          s \<leftarrow> (if nr \<noteq> 0 then ext2_free_branches bits e (length q - length ps) [In_Local]
                   (if length ps = 1 then s\<lparr>bm_inode := (bm_inode s)\<lparr>i_dirty := True\<rparr>\<rparr> else s) else Some s);
          clear_ends bits e (length q - length ps) (rev (tl ps)) s
        }) = Some s1"
    have head: "r \<noteq> [] \<and> hd r = hd q" if "r \<in> cuts bits q i" for r
    proof -
      have "i < length q" using site by (simp add: cut_site_def)
      then show ?thesis using that l by (auto simp: cuts_def ends_def hd_append hd_take)
    qed
    have "apart (cuts bits q i) {[x]}" if "hd q < x" for x
    proof -
      have "\<not> comparable r [x]" if "r \<in> cuts bits q i" for r
        using head [OF that] \<open>hd q < x\<close> by (intro not_comparable [of 0]) (auto simp: hd_conv_nth)
      then show ?thesis by (simp add: apart_def)
    qed
    then obtain s2 where s2: "do_indirects bits e (hd q) s1 = Some s2" "cut_off h bits s (cuts bits q i \<union> {[x] |x. hd q < x \<and> 12 \<le> x \<and> x < 15}) s2"
      using do_indirects_ok [OF t c cuts_linked [OF q site] h(2) _ e] by blast
    have "{[x] |x. hd q < x \<and> 12 \<le> x \<and> x < 15} = {[x] |x. hd q < x \<and> x < 15}" using h(1) by auto
    then have "cut_off h bits s (behind bits q i) s2" using s2(2) by (simp add: behind_def)
    moreover have "prune bits e q s = Some s2" unfolding prune_def run using False s2(1) by (simp only: if_False run Option.bind.bind_lunit)
    ultimately show thesis using that [OF site] by blast
  qed
qed

section \<open>The tree after a cut\<close>

lemma below_snoc:
  assumes "prefix_ok bits (r @ [n])" "r \<noteq> []" "r \<notin> below bits Q"
  shows "r @ [n] \<in> below bits Q \<longleftrightarrow> r @ [n] \<in> Q"
proof
  assume "r @ [n] \<in> below bits Q"
  then obtain t u where t: "t \<in> Q" "r @ [n] = t @ u" by (auto simp: below_def)
  show "r @ [n] \<in> Q"
  proof (cases u rule: rev_cases)
    case Nil
    then show ?thesis using t by simp
  next
    case (snoc v m)
    then have "r = t @ v" using t(2) by simp
    moreover have "prefix_ok bits r" using assms(1,2) prefix_ok_snoc by blast
    ultimately show ?thesis using assms(3) t(1) by (auto simp: below_def)
  qed
qed (use assms in \<open>auto simp: below_def\<close>)

lemma cut_ptr:
  assumes t: "tree_ok bits s" and cut: "cut_off h bits s Q s'" and Q: "\<And>q. q \<in> Q \<Longrightarrow> linked bits s q"
    and q: "linked bits s q" and out: "\<And>r u. r \<in> Q \<Longrightarrow> u \<noteq> [] \<Longrightarrow> q \<noteq> r @ u"
  shows "ptr_at s' (place s q) = (if q \<in> Q then 0 else walk s q)"
proof -
  from cut obtain v where f: "freed h (s\<lparr>nr_ptr := v\<rparr>) (lost bits s Q) (place s ` Q) s'" by (auto simp: cut_off_def)
  have "\<not> inside (lost bits s Q) (place s q)" using inside_lost [OF t q] out by metis
  then have "ptr_at s' (place s q) = (if place s q \<in> place s ` Q then 0 else ptr_at (s\<lparr>nr_ptr := v\<rparr>) (place s q))"
    using f by (simp add: freed_def)
  moreover have "place s q \<in> place s ` Q \<longleftrightarrow> q \<in> Q" using place_inj [OF t q] Q by blast
  ultimately show ?thesis using linked_val [OF q] by (simp add: ptr_at_local)
qed

lemma cut_walk:
  assumes t: "tree_ok bits s" and cut: "cut_off h bits s Q s'" and Q: "\<And>q. q \<in> Q \<Longrightarrow> linked bits s q"
  shows "prefix_ok bits q \<Longrightarrow> walk s' q = (if q \<in> below bits Q then 0 else walk s q)"
proof (induction q rule: rev_induct)
  case (snoc n r)
  show ?case
  proof (cases "r = []")
    case True
    have l: "linked bits s [n]" using snoc.prems True by (simp add: linked_def)
    have ne: "u \<noteq> []" if "u \<in> Q" for u using Q [OF that] prefix_ok_ne by (auto simp: linked_def)
    have "ptr_at s' (place s [n]) = (if [n] \<in> Q then 0 else walk s [n])"
      by (rule cut_ptr [OF t cut Q l]) (use ne in \<open>auto simp: Cons_eq_append_conv\<close>)
    moreover have "[n] \<in> below bits Q \<longleftrightarrow> [n] \<in> Q" using ne snoc.prems True by (auto simp: below_def Cons_eq_append_conv)
    ultimately show ?thesis using True by (simp add: place_def)
  next
    case False
    have rp: "prefix_ok bits r" using snoc.prems False prefix_ok_snoc by blast
    note IH = snoc.IH [OF rp]
    show ?thesis
    proof (cases "r \<in> below bits Q")
      case True
      then obtain t u where "t \<in> Q" "r = t @ u" by (auto simp: below_def)
      then have "r @ [n] \<in> below bits Q" using snoc.prems unfolding below_def by (auto intro!: bexI [of _ t])
      then show ?thesis using True IH walk_snoc [OF False] by simp
    next
      case out: False
      show ?thesis
      proof (cases "walk s r = 0")
        case True
        then show ?thesis using IH out walk_snoc [OF False] by simp
      next
        case nz: False
        have l: "linked bits s (r @ [n])" using snoc.prems nz by (simp add: linked_def)
        have "r @ [n] \<noteq> t @ u" if "t \<in> Q" "u \<noteq> []" for t u
          using that out rp by (cases u rule: rev_cases) (auto simp: below_def)
        then have "ptr_at s' (place s (r @ [n])) = (if r @ [n] \<in> Q then 0 else walk s (r @ [n]))" using cut_ptr [OF t cut Q l] by blast
        moreover have "walk s' (r @ [n]) = ptr_at s' (place s (r @ [n]))" using IH out nz walk_snoc [OF False] place_snoc [OF False] by simp
        ultimately show ?thesis using below_snoc [OF snoc.prems False out] by simp
      qed
    qed
  qed
qed (simp add: prefix_ok_def)

text \<open>The blocks a tree reaches.\<close>

definition reached :: "nat \<Rightarrow> bmap \<Rightarrow> nat set" where
  "reached bits s = walk s ` {q. prefix_ok bits q} - {0}"

lemma cut_tree:
  assumes t: "tree_ok bits s" and cut: "cut_off h bits s Q s'" and Q: "\<And>q. q \<in> Q \<Longrightarrow> linked bits s q"
  shows "tree_ok bits s'" "lost bits s Q = reached bits s - reached bits s'"
proof -
  have w: "walk s' q = (if q \<in> below bits Q then 0 else walk s q)" if "prefix_ok bits q" for q
    by (rule cut_walk [OF t cut _ that]) (rule Q)
  from cut obtain v where f: "freed h (s\<lparr>nr_ptr := v\<rparr>) (lost bits s Q) (place s ` Q) s'" by (auto simp: cut_off_def)
  have kept: "walk s q \<notin> lost bits s Q" if "prefix_ok bits q" "q \<notin> below bits Q" "walk s q \<noteq> 0" for q
  proof
    assume "walk s q \<in> lost bits s Q"
    then obtain r where "r \<in> below bits Q" "walk s r = walk s q" by (auto simp: lost_def)
    moreover from this have "r = q" using tree_inj [OF t, of r q] that by (simp add: below_def)
    ultimately show False using that(2) by simp
  qed
  have sub: "q \<notin> below bits Q \<and> walk s' q = walk s q \<and> walk s q \<noteq> 0" if "prefix_ok bits q" "walk s' q \<noteq> 0" for q
    using w [OF that(1)] that(2) by (auto split: if_splits)
  have "for_files (bm_bs s') (walk s' q) \<and> block_used (bm_bs s') (walk s' q)" if q: "prefix_ok bits q" "walk s' q \<noteq> 0" for q
  proof -
    have "for_files (bm_bs s) (walk s q) \<and> block_used (bm_bs s) (walk s q)" using t q sub unfolding tree_ok_def by metis
    then show ?thesis using freed_used [OF f, of "walk s q"] kept [OF q(1)] sub [OF q] by auto
  qed
  moreover have "q = r" if "prefix_ok bits q" "prefix_ok bits r" "walk s' q \<noteq> 0" "walk s' q = walk s' r" for q r
    using tree_inj [OF t that(1,2)] sub [of q] sub [of r] that by simp
  moreover have "s_first_data_block (bm_bs s') = 0 \<longrightarrow> block_used (bm_bs s') 0"
    using t f by (auto simp: tree_ok_def freed_def shrunk_def lost_def)
  ultimately show "tree_ok bits s'" unfolding tree_ok_def by blast
  have "walk s' q \<notin> lost bits s Q" if "prefix_ok bits q" "walk s' q \<noteq> 0" for q
    using kept [OF that(1)] sub [OF that] by simp
  then have "lost bits s Q \<inter> reached bits s' = {}" by (auto simp: reached_def)
  moreover have "lost bits s Q \<subseteq> reached bits s" by (auto simp: lost_def reached_def below_def)
  moreover have "walk s q \<in> reached bits s' \<or> walk s q \<in> lost bits s Q" if "prefix_ok bits q" "walk s q \<noteq> 0" for q
  proof (cases "q \<in> below bits Q")
    case True
    then show ?thesis using that(2) by (simp add: lost_def)
  next
    case False
    then have e: "walk s' q = walk s q" using w [OF that(1)] by simp
    have "walk s' q \<in> reached bits s'" using that unfolding reached_def e [symmetric] by blast
    then show ?thesis unfolding e ..
  qed
  then have "reached bits s \<subseteq> lost bits s Q \<union> reached bits s'" by (auto simp: reached_def)
  ultimately show "lost bits s Q = reached bits s - reached bits s'" by blast
qed

section \<open>Truncation\<close>

lemma path_behind:
  assumes q: "full_path bits q" and r: "full_path bits r" and i: "i < length q" and o: "r = q \<or> before_path q r"
  shows "r \<in> below bits (behind bits q i)"
proof -
  have rp: "prefix_ok bits r" using r by (simp add: full_path_def)
  have ok: "r \<in> below bits (behind bits q i)" if "take l r \<in> behind bits q i" for l
  proof -
    have "r = take l r @ drop l r" by simp
    then show ?thesis using that rp unfolding below_def by blast
  qed
  have top: "take (Suc i) q \<in> behind bits q i" by (simp add: behind_def cuts_def)
  show ?thesis
  proof (cases "r = q")
    case True
    then show ?thesis using ok top by blast
  next
    case False
    then obtain j where j: "j < length q" "j < length r" "take j q = take j r" "q ! j < r ! j" using o by (auto simp: before_path_def)
    show ?thesis
    proof (cases "i < j")
      case True
      then have "take (Suc i) r = take (Suc i) q" using j(3) by (metis Suc_leI min.absorb1 take_take)
      then show ?thesis using ok [of "Suc i"] top by simp
    next
      case ji: False
      show ?thesis
      proof (cases "j = 0")
        case True
        have "r \<noteq> []" "q \<noteq> []" using j by auto
        then have "take 1 r = [hd r]" "hd q < hd r" "hd r < 15" using j(4) True rp by (auto simp: hd_conv_nth prefix_ok_def take_Suc)
        then show ?thesis using ok [of 1] by (simp add: behind_def)
      next
        case nz: False
        have "r ! j = tl r ! (j - 1)" "j - 1 < length (tl r)" using nz j(2) by (simp_all add: nth_tl)
        then have "r ! j \<in> set (tl r)" by simp
        then have "r ! j < 2 ^ bits" using rp by (simp add: prefix_ok_def)
        moreover have "take (Suc j) r = take j q @ [r ! j]" using j by (simp add: take_Suc_conv_app_nth)
        ultimately have "take (Suc j) r \<in> set (ends bits q j)" using j(4) by (simp add: ends_def)
        then have "take (Suc j) r \<in> behind bits q i" using ji nz unfolding behind_def cuts_def by force
        then show ?thesis by (rule ok)
      qed
    qed
  qed
qed

lemma nth_agree: "take j r = take j q \<Longrightarrow> l < j \<Longrightarrow> r ! l = q ! l"
  by (metis nth_take)

lemma path_kept:
  assumes site: "cut_site s q i" and b: "before_path r q" and u: "r \<in> below bits (behind bits q i)" and ne: "q \<noteq> []"
  shows "walk s r = 0"
proof -
  from b obtain j where j: "j < length r" "j < length q" "take j r = take j q" "r ! j < q ! j" by (auto simp: before_path_def)
  have no: False if "l < length r" "q ! l < r ! l" "\<And>k. k < l \<Longrightarrow> r ! k = q ! k" for l
  proof -
    consider "l < j" | "l = j" | "j < l" by linarith
    then show False using that nth_agree [OF j(3), of l] j(4) by cases auto
  qed
  from u obtain t v where t: "t \<in> behind bits q i" "r = t @ v" by (auto simp: below_def)
  have il: "i < length q" using site by (simp add: cut_site_def)
  consider "t = take (Suc i) q" | l where "0 < l" "l \<le> i" "t \<in> set (ends bits q l)" | x where "t = [x]" "hd q < x"
    using t(1) by (auto simp: behind_def cuts_def Suc_le_eq)
  then show ?thesis
  proof cases
    case 1
    then have "take (Suc i) r = take (Suc i) q" using t(2) il by simp
    then show ?thesis using site b by (auto simp: cut_site_def)
  next
    case (2 l)
    have "l < length q" using 2(2) il by simp
    note d = endsD [OF 2(3) this]
    have False by (rule no [of l]) (use d t(2) in \<open>auto simp: nth_append\<close>)
    then show ?thesis ..
  next
    case (3 x)
    have False by (rule no [of 0]) (use 3 t(2) ne in \<open>auto simp: hd_conv_nth\<close>)
    then show ?thesis ..
  qed
qed

lemma prune_maps:
  assumes ok: "bmap_ok h bits s" and e: "calm (be_ba e)" "\<forall>b. be_rd e b" and b: "iblock < capacity bits"
  obtains s' where "prune bits e (path bits iblock) s = Some s'" "tree_ok bits s'" "shrunk h (bm_bs s) (reached bits s - reached bits s') (bm_bs s')"
    "reached bits s' \<subseteq> reached bits s" "bm_block_i s' = bm_block_i s" "\<exists>x. bm_inode s' = (bm_inode s)\<lparr>i_dirty := x\<rparr>"
    "\<And>c. mapping bits s' c = (if c < iblock then mapping bits s c else 0)" "iblock = 0 \<Longrightarrow> reached bits s' = {}"
proof -
  let ?q = "path bits iblock"
  have t: "tree_ok bits s" and bo: "balloc_ok h (bm_bs s)" using ok by (simp_all add: bmap_ok_def)
  note q = path_full [OF b]
  obtain i s' where c: "cut_site s ?q i" "prune bits e ?q s = Some s'" "cut_off h bits s (behind bits ?q i) s'"
    by (rule prune_ok [OF t bo q e])
  have l: "linked bits s r" if "r \<in> behind bits ?q i" for r using behind_linked [OF q c(1) that] .
  have ct: "tree_ok bits s'" "lost bits s (behind bits ?q i) = reached bits s - reached bits s'"
    by (rule cut_tree [OF t c(3)]; rule l; assumption)+
  from c(3) obtain v where f: "freed h (s\<lparr>nr_ptr := v\<rparr>) (lost bits s (behind bits ?q i)) (place s ` behind bits ?q i) s'" by (auto simp: cut_off_def)
  have w: "walk s' r = (if r \<in> below bits (behind bits ?q i) then 0 else walk s r)" if "prefix_ok bits r" for r
    by (rule cut_walk [OF t c(3) _ that]) (rule l)
  have "mapping bits s' c = (if c < iblock then mapping bits s c else 0)" for c
  proof (cases "c < capacity bits")
    case True
    note r = path_full [OF True]
    have wr: "walk s' (path bits c) = (if path bits c \<in> below bits (behind bits ?q i) then 0 else walk s (path bits c))"
      using w r by (simp add: full_path_def)
    have i: "i < length ?q" using c(1) by (simp add: cut_site_def)
    show ?thesis
    proof (cases "c < iblock")
      case lt: True
      have "?q \<noteq> []" using q prefix_ok_ne by (auto simp: full_path_def)
      then have "path bits c \<in> below bits (behind bits ?q i) \<Longrightarrow> walk s (path bits c) = 0"
        using path_kept [OF c(1) path_order [OF lt b]] by blast
      then show ?thesis using wr lt True by (simp add: mapping_def)
    next
      case False
      then have "path bits c = ?q \<or> before_path ?q (path bits c)" using path_order [of iblock c bits] True by (cases "c = iblock") auto
      from path_behind [OF q r i this] show ?thesis using wr False by (simp add: mapping_def)
    qed
  qed (use b in \<open>simp add: mapping_def\<close>)
  moreover have "reached bits s' \<subseteq> reached bits s" using w by (force simp: reached_def split: if_splits)
  moreover have "shrunk h (bm_bs s) (reached bits s - reached bits s') (bm_bs s')" "bm_block_i s' = bm_block_i s"
    "\<exists>x. bm_inode s' = (bm_inode s)\<lparr>i_dirty := x\<rparr>"
    using f unfolding ct(2) [symmetric] by (simp_all add: freed_def)
  moreover have "reached bits s' = {}" if "iblock = 0"
  proof -
    have q0: "?q = [0]" unfolding that block_to_path_nat by (simp add: to_path_def)
    have "r \<in> below bits (behind bits ?q i)" if r: "prefix_ok bits r" for r
    proof -
      have "[hd r] \<in> behind bits ?q i" using r by (cases "hd r = 0") (auto simp: behind_def cuts_def q0 prefix_ok_def)
      moreover have "r = [hd r] @ tl r" using prefix_ok_ne [OF r] by simp
      ultimately show ?thesis using r unfolding below_def by blast
    qed
    then show ?thesis using w by (auto simp: reached_def)
  qed
  ultimately show thesis using that c(2) ct(1) by blast
qed

lemma discard_ok:
  assumes "rb_ok rb" "rsv_ok h rs" "block_i \<noteq> Some h"
  shows "rsv_ok h (ext2_discard_reservation rb rs block_i)"
proof (cases block_i)
  case (Some b)
  then show ?thesis using drop_window_ok(1) [OF assms(1,2), of b] assms(3) by (simp add: ext2_discard_reservation_def drop_window_def)
qed (simp add: ext2_discard_reservation_def assms(2))

lemma truncate_ok:
  assumes "bmap_ok h bits s" and "bm_calm h e s"
    and "S_ISREG (i_mode (bm_inode s)) \<or> S_ISDIR (i_mode (bm_inode s)) \<or> S_ISLNK (i_mode (bm_inode s))"
    and "\<not> ext2_inode_is_fast_symlink ea_blocks (bm_inode s)"
    and "and (i_vflags (bm_inode s)) S_APPEND = 0" "and (i_vflags (bm_inode s)) S_IMMUTABLE = 0"
    and "iblock = (i_size (bm_inode s) + 2 ^ blkbits - 1) div 2 ^ blkbits" "iblock < capacity bits"
  shows "\<exists>s'. ext2_truncate bits e blkbits ea_blocks s = Some s' \<and> bmap_ok h bits s' \<and>
    (\<forall>b. mapping bits s' b = (if b < iblock then mapping bits s b else 0)) \<and> reached bits s' \<subseteq> reached bits s \<and>
    (\<forall>b \<ge> s_first_data_block (bm_bs s). block_used (bm_bs s') b \<longleftrightarrow> block_used (bm_bs s) b \<and> b \<notin> reached bits s - reached bits s') \<and>
    s_freeblocks_counter (bm_bs s') = s_freeblocks_counter (bm_bs s) + int (card (reached bits s - reached bits s')) \<and>
    (iblock = 0 \<longrightarrow> reached bits s' = {}) \<and> i_mode (bm_inode s') = i_mode (bm_inode s) \<and> i_ino (bm_inode s') = i_ino (bm_inode s)"
proof -
  have e: "calm (be_ba e)" "\<forall>b. be_rd e b" and rb: "rb_ok (ba_rb (be_ba e))" using assms(2) by (simp_all add: bm_calm_def calm_def)
  obtain s1 where p: "prune bits e (path bits iblock) s = Some s1" "tree_ok bits s1" "shrunk h (bm_bs s) (reached bits s - reached bits s1) (bm_bs s1)"
    "reached bits s1 \<subseteq> reached bits s" "bm_block_i s1 = bm_block_i s" "\<exists>x. bm_inode s1 = (bm_inode s)\<lparr>i_dirty := x\<rparr>"
    "\<And>c. mapping bits s1 c = (if c < iblock then mapping bits s c else 0)" "iblock = 0 \<Longrightarrow> reached bits s1 = {}"
    by (rule prune_maps [OF assms(1) e assms(8)]) (rule that)
  let ?rs = "ext2_discard_reservation (ba_rb (be_ba e)) (bs_rsv (bm_bs s1)) (bm_block_i s1)"
  define s2 where "s2 = s1\<lparr>bm_bs := (bm_bs s1)\<lparr>bs_rsv := ?rs\<rparr>, bm_inode := (bm_inode s1)\<lparr>i_mtime := be_now e, i_ctime := be_now e, i_dirty := True\<rparr>\<rparr>"
  have ne: "path bits iblock \<noteq> []" using path_full [OF assms(8)] prefix_ok_ne by (auto simp: full_path_def)
  have run: "ext2_truncate bits e blkbits ea_blocks s = Some s2"
    using assms(3-6) ne p(1) unfolding ext2_truncate_def Let_def assms(7) [symmetric] by (simp add: s2_def)
  have w: "walk s2 = walk s1" using walk_cong [of s2 s1] by (simp add: s2_def)
  have g: "grown (bm_bs s1) {} (bm_bs s2)" using grown_refl(2) [of "bm_bs s1"] by (simp add: s2_def)
  have b1: "balloc_ok h (bm_bs s1)" using p(3) by (simp add: shrunk_def)
  have bi: "bm_block_i s \<noteq> Some h" "4 \<le> bits" using assms(1) by (simp_all add: bmap_ok_def)
  have "rsv_ok h ?rs" using discard_ok [OF rb balloc_okD(4) [OF b1]] bi(1) p(5) by simp
  then have "balloc_ok h (bm_bs s2)" using b1 by (simp add: s2_def balloc_ok_def ext2_group_first_block_no_def not_for_files_def)
  then have "bmap_ok h bits s2" using tree_ok_cong [OF p(2) w g] bi p(5) by (simp add: bmap_ok_def s2_def)
  moreover have "mapping bits s2 b = mapping bits s1 b" for b by (simp add: mapping_def w)
  moreover have "reached bits s2 = reached bits s1" by (simp add: reached_def w)
  moreover have "block_used (bm_bs s2) = block_used (bm_bs s1)" "s_freeblocks_counter (bm_bs s2) = s_freeblocks_counter (bm_bs s1)"
    by (simp_all add: s2_def block_used_def fun_eq_iff)
  moreover have "i_mode (bm_inode s2) = i_mode (bm_inode s)" "i_ino (bm_inode s2) = i_ino (bm_inode s)" using p(6) by (auto simp: s2_def)
  ultimately show ?thesis using run p(3,4,7,8) by (auto simp: shrunk_def)
qed

section \<open>Example\<close>

text \<open>A file of 1024 bytes with a data block 6, an indirect block 7 and in it a data block 8, on the device of theory
  \<open>Ext2_Blocks\<close>.\<close>

definition file_ex :: bmap where
  "file_ex = bmap_ex\<lparr>bm_inode := parent_ex\<lparr>i_mode := 0x81A4, i_size := 1024, i_vflags := 0\<rparr>, i_ptr := (\<lambda>_. 0)(0 := 6, 12 := 7),
     ind_ptr := (\<lambda>_ _. 0)(7 := (\<lambda>_. 0)(0 := 8)),
     bm_bs := balloc_ex\<lparr>s_bbitmap := (\<lambda>g i. i < 4 \<or> g = 0 \<and> 5 \<le> i \<and> i < 8 \<or> g = 1 \<and> 14 \<le> i),
       bs_sbi := (bs_sbi balloc_ex)\<lparr>s_desc := desc_ex(0 := (desc_ex 0)\<lparr>bg_free_blocks_count := 9\<rparr>)\<rparr>\<rparr>\<rparr>"

lemma file_ex_walk: "walk file_ex (n # ns) \<noteq> 0 \<Longrightarrow> (n # ns, walk file_ex (n # ns)) \<in> {([0], 6), ([12], 7), ([12, 0], 8)}"
proof -
  assume a: "walk file_ex (n # ns) \<noteq> 0"
  have z: "walk_from file_ex 8 ns = (if ns = [] then 8 else 0)" "walk_from file_ex 6 ns = (if ns = [] then 6 else 0)"
    "walk_from file_ex 7 ns = (case ns of [] \<Rightarrow> 7 | m # ms \<Rightarrow> if m = 0 \<and> ms = [] then 8 else 0)" for ns
    by (cases ns; cases "tl ns"; simp add: file_ex_def)+
  show ?thesis using a z [of ns] by (cases ns) (auto simp: walk_def file_ex_def split: if_splits list.splits)
qed

lemma file_ex_ok: "bmap_ok 0 8 file_ex" "bm_calm 0 bm_env_ex file_ex"
proof -
  have "clear_count (s_bbitmap (bm_bs file_ex) 0) 16 = 9" "clear_count (s_bbitmap (bm_bs file_ex) 1) 16 = 10"
    by (simp_all add: clear_count_code file_ex_def upt_rec)
  then have "unat (bg_free_blocks_count (s_desc (bs_sbi (bm_bs file_ex)) grp)) = clear_count (s_bbitmap (bm_bs file_ex) grp) 16" if "grp < 2" for grp
    using that by (auto simp: less_2_cases_iff file_ex_def desc_ex_def)
  moreover have "s_bbitmap (bm_bs file_ex) grp i"
    if "grp < 2" "i < 16" "not_for_files (bm_bs file_ex) grp (i + ext2_group_first_block_no (bm_bs file_ex) grp)" for grp i
    using that by (auto simp: less_2_cases_iff file_ex_def balloc_ex_def not_for_files_def ext2_group_first_block_no_def in_range_def)
  moreover have "rsv_ok 0 (bs_rsv (bm_bs file_ex))" using balloc_okD(4) [OF balloc_ex_ok(1)] by (simp add: file_ex_def)
  ultimately have ba: "balloc_ok 0 (bm_bs file_ex)" unfolding balloc_ok_def by (simp add: file_ex_def balloc_ex_def)
  have ff: "for_files (bm_bs file_ex) b \<and> block_used (bm_bs file_ex) b" if "b \<in> {6, 7, 8}" for b
    using that by (auto simp: for_files_def not_for_files_def block_used_def file_ex_def balloc_ex_def in_range_def)
  have "tree_ok 8 file_ex" unfolding tree_ok_def
  proof (intro conjI allI impI)
    fix q r assume a: "prefix_ok 8 q" "prefix_ok 8 r" "walk file_ex q \<noteq> 0" "walk file_ex q = walk file_ex r"
    then obtain n ns m ms where "q = n # ns" "r = m # ms" using prefix_ok_ne by (metis list.exhaust)
    then show "q = r" using file_ex_walk [of n ns] file_ex_walk [of m ms] a by auto
  next
    fix q assume a: "prefix_ok 8 q" "walk file_ex q \<noteq> 0"
    then obtain n ns where "q = n # ns" using prefix_ok_ne by (metis list.exhaust)
    then have "walk file_ex q \<in> {6, 7, 8}" using file_ex_walk [of n ns] a by auto
    then show "for_files (bm_bs file_ex) (walk file_ex q)" "block_used (bm_bs file_ex) (walk file_ex q)" using ff by blast+
  qed (simp add: file_ex_def balloc_ex_def)
  then show "bmap_ok 0 8 file_ex" using ba by (simp add: bmap_ok_def) (simp add: file_ex_def bmap_ex_def)
  show "bm_calm 0 bm_env_ex file_ex" using bmap_ex_ok(2) by (simp add: bm_calm_def file_ex_def bmap_ex_def)
qed

section \<open>Properties\<close>

text \<open>C23: Truncation cuts a file exactly at its new size. For a file whose tree of blocks is well formed,
  \<open>ext2_truncate\<close> returns; afterwards the blocks of the file before the end of the new size are mapped as before and no
  others are mapped, the tree is well formed, and exactly the blocks that the tree no longer reaches, data blocks and indirect
  blocks at every depth, are freed and counted as free.\<close>

theorem truncate_cuts:
  assumes "bmap_ok h bits s" and "bm_calm h e s"
    and "S_ISREG (i_mode (bm_inode s)) \<or> S_ISDIR (i_mode (bm_inode s)) \<or> S_ISLNK (i_mode (bm_inode s))"
    and "\<not> ext2_inode_is_fast_symlink ea_blocks (bm_inode s)"
    and "and (i_vflags (bm_inode s)) S_APPEND = 0" "and (i_vflags (bm_inode s)) S_IMMUTABLE = 0"
    and "iblock = (i_size (bm_inode s) + 2 ^ blkbits - 1) div 2 ^ blkbits" "iblock < capacity bits"
  shows "\<exists>s'. ext2_truncate bits e blkbits ea_blocks s = Some s' \<and> bmap_ok h bits s' \<and>
    (\<forall>b. mapping bits s' b = (if b < iblock then mapping bits s b else 0)) \<and> reached bits s' \<subseteq> reached bits s \<and>
    (\<forall>b \<ge> s_first_data_block (bm_bs s). block_used (bm_bs s') b \<longleftrightarrow> block_used (bm_bs s) b \<and> b \<notin> reached bits s - reached bits s') \<and>
    s_freeblocks_counter (bm_bs s') = s_freeblocks_counter (bm_bs s) + int (card (reached bits s - reached bits s'))"
  using truncate_ok [OF assms] by blast

theorem truncate_cuts_witness:
  "mapping 8 file_ex 0 = 6 \<and> mapping 8 file_ex 12 = 8 \<and>
   (\<exists>s'. ext2_truncate 8 bm_env_ex 10 0 file_ex = Some s' \<and> bmap_ok 0 8 s' \<and> mapping 8 s' 0 = 6 \<and> mapping 8 s' 12 = 0)"
proof -
  have p: "path 8 0 = [0]" "path 8 12 = [12, 0]" unfolding block_to_path_nat by (simp_all add: to_path_def)
  have m: "mapping 8 file_ex 0 = 6" "mapping 8 file_ex 12 = 8"
    unfolding mapping_def p by (simp_all add: capacity_def walk_def file_ex_def)
  have i: "1 = (i_size (bm_inode file_ex) + 2 ^ 10 - 1) div 2 ^ 10" "1 < capacity 8" by (simp_all add: file_ex_def capacity_def)
  have "S_ISREG (i_mode (bm_inode file_ex))" "\<not> ext2_inode_is_fast_symlink 0 (bm_inode file_ex)" "i_vflags (bm_inode file_ex) = 0"
    by (simp_all add: file_ex_def S_ISREG_def ext2_inode_is_fast_symlink_def S_ISLNK_def)
  with truncate_cuts [OF file_ex_ok _ _ _ _ i, of 0] m show ?thesis by auto
qed

end
