(* ===== verification/Ext2_Delete.thy ===== *)
theory Ext2_Delete
  imports Ext2_Inode Ext2_Truncate
begin

text \<open>
  The end of an inode, a3/inode.c: \<open>ext2_delete_inode\<close>, called when the last user of an inode without links is gone, and
  \<open>ext2_setattr\<close>. Deleting brings the models of the parts together: the inode is marked as deleted and
  written, its blocks are freed by truncation, and its number is given back to the allocator of inodes. The state is
  the file system \<open>sb\<close>, the inode \<open>ei\<close> in memory and its tree of blocks \<open>s\<close>.
\<close>

section \<open>Operations\<close>

text \<open>\<open>bad\<close>: \<open>is_bad_inode\<close>; \<open>now\<close>: \<open>get_seconds\<close>; \<open>do_sync\<close>: \<open>inode_needs_sync\<close>; \<open>ibm\<close>: the inode bitmaps that can be read.
  Dropping the pages of the page cache is left out.\<close>

definition ext2_delete_inode :: "dev_enc \<Rightarrow> (nat \<Rightarrow> bool) \<Rightarrow> bool \<Rightarrow> (nat \<Rightarrow> bool) \<Rightarrow> 32 word \<Rightarrow> bool \<Rightarrow> bool \<Rightarrow> nat \<Rightarrow> bm_env \<Rightarrow>
    inode_sb \<Rightarrow> ext2_inode_info \<Rightarrow> bmap \<Rightarrow> (inode_sb \<times> ext2_inode_info \<times> bmap) option" where
  "ext2_delete_inode d rd io_err ibm now bad do_sync bits e sb ei s =
     (if bad then Some (sb, ei, s)
      else
        let ei = ei\<lparr>i_dtime := now, vfs_inode := (vfs_inode ei)\<lparr>i_dirty := True\<rparr>\<rparr>;
            (sb, ei, _) = ext2_write_inode d rd io_err sb ei do_sync;
            s = s\<lparr>bm_inode := (vfs_inode ei)\<lparr>i_size := 0\<rparr>\<rparr>
        in do {
          s \<leftarrow> (if i_blocks (bm_inode s) \<noteq> 0 then ext2_truncate bits e (it_block_bits sb) (ea_blocks sb ei) s else Some s);
          Some (sb\<lparr>it_sbi := ext2_free_inode ibm (it_sbi sb) (bm_inode s)\<rparr>, ei\<lparr>vfs_inode := bm_inode s\<rparr>, s)
        })"

text \<open>Attributes to change: the owner, the group, whether the mode is among them. The checks and changes of the kernel and
  the access control lists are arguments.\<close>

definition ext2_setattr :: "errno option \<Rightarrow> bool \<Rightarrow> (inode \<Rightarrow> inode \<times> errno option) \<Rightarrow> (inode \<Rightarrow> inode \<times> errno option) \<Rightarrow>
    inode \<Rightarrow> nat option \<Rightarrow> nat option \<Rightarrow> bool \<Rightarrow> inode \<times> errno option" where
  "ext2_setattr change_ok dq_fails inode_setattr acl_chmod inode uid gid attr_mode =
     (case change_ok of
        Some err \<Rightarrow> (inode, Some err)
      | None \<Rightarrow>
          if ((case uid of Some u \<Rightarrow> u \<noteq> i_uid inode | None \<Rightarrow> False) \<or> (case gid of Some g \<Rightarrow> g \<noteq> i_gid inode | None \<Rightarrow> False)) \<and> dq_fails
          then (inode, Some EDQUOT)
          else
            (case inode_setattr inode of
               (inode, Some err) \<Rightarrow> (inode, Some err)
             | (inode, None) \<Rightarrow> if attr_mode then acl_chmod inode else (inode, None)))"

section \<open>What stays\<close>

lemma bm_inode_same [simp]:
  "bmap_ok h bits (s\<lparr>bm_inode := i\<rparr>) = bmap_ok h bits s" "bm_calm h e (s\<lparr>bm_inode := i\<rparr>) = bm_calm h e s"
  "reached bits (s\<lparr>bm_inode := i\<rparr>) = reached bits s"
proof -
  have w: "walk (s\<lparr>bm_inode := i\<rparr>) = walk s" using walk_cong [of "s\<lparr>bm_inode := i\<rparr>" s] by simp
  show "bmap_ok h bits (s\<lparr>bm_inode := i\<rparr>) = bmap_ok h bits s" "bm_calm h e (s\<lparr>bm_inode := i\<rparr>) = bm_calm h e s"
    "reached bits (s\<lparr>bm_inode := i\<rparr>) = reached bits s"
    by (simp_all add: bmap_ok_def bm_calm_def reached_def tree_ok_def w)
qed

text \<open>Giving an inode back does not move the inodes on the disk.\<close>

lemma free_inode_places: "ext2_get_inode rd (sb\<lparr>it_sbi := ext2_free_inode ibm (it_sbi sb) i\<rparr>) ino = ext2_get_inode rd sb ino"
proof -
  let ?sbi = "it_sbi sb" and ?n = "ext2_free_inode ibm (it_sbi sb) i"
  have f: "s_first_ino ?n = s_first_ino ?sbi" "s_max_ino ?n = s_max_ino ?sbi" "s_inodes_per_group ?n = s_inodes_per_group ?sbi"
    "s_groups_count ?n = s_groups_count ?sbi" "s_group_desc_loaded ?n = s_group_desc_loaded ?sbi" "s_desc_per_block_bits ?n = s_desc_per_block_bits ?sbi"
    by (simp_all add: ext2_free_inode_def ext2_release_inode_def Let_def split: option.split)
  have sel: "it_sbi (sb\<lparr>it_sbi := n\<rparr>) = n" "it_table (sb\<lparr>it_sbi := n\<rparr>) = it_table sb" "it_block_bits (sb\<lparr>it_sbi := n\<rparr>) = it_block_bits sb"
    "it_inode_size (sb\<lparr>it_sbi := n\<rparr>) = it_inode_size sb" for n by simp_all
  have "(case ext2_get_group_desc ?n g of None \<Rightarrow> x | Some _ \<Rightarrow> y) = (case ext2_get_group_desc ?sbi g of None \<Rightarrow> x | Some _ \<Rightarrow> y)" for g and x y :: "errno + nat \<times> nat"
    by (simp add: ext2_get_group_desc_def f)
  then show ?thesis unfolding ext2_get_inode_def Let_def sel f by (simp only:)
qed

text \<open>A deleted inode cannot be read.\<close>

lemma iget_stale:
  assumes "iget_locked ino = Some (fresh, True)" "ext2_get_inode rd sb ino = Inr slot"
    "r_links_count (raw_at sb slot) = 0" "r_dtime (raw_at sb slot) \<noteq> 0"
  shows "ext2_iget d rd iget_locked sb ino = Inl ESTALE"
  using assms by (simp add: ext2_iget_def read_ids_def Let_def)

section \<open>Properties\<close>

text \<open>C24: Deleting an inode without links gives everything back. For an inode whose number is in use and whose blocks, if it has
  any, form a well-formed tree, \<open>ext2_delete_inode\<close> returns; afterwards all blocks of the file and no others are
  free, the number of the inode and no other is free, both allocators are consistent, the inode on the disk is marked so that
  reading it fails with \<open>ESTALE\<close>, and the other inodes on the disk have not changed.\<close>

theorem deleted_inode_gone:
  assumes ino: "ino = i_ino (vfs_inode ei)" "0 < ino" "s_first_ino (it_sbi sb) \<le> ino" "ino \<le> s_max_ino (it_sbi sb)"
    and alloc: "ialloc_ok (it_sbi sb)" "used (it_sbi sb) ino" and slot: "ext2_get_inode rd sb ino = Inr slot"
    and dead: "i_nlink (vfs_inode ei) = 0" "now \<noteq> 0"
    and tree: "bmap_ok h bits s" "bm_calm h e s"
    and blocks: "if i_blocks (vfs_inode ei) = 0 then reached bits s = {}
      else (S_ISREG (i_mode (vfs_inode ei)) \<or> S_ISDIR (i_mode (vfs_inode ei)) \<or> S_ISLNK (i_mode (vfs_inode ei))) \<and>
        \<not> ext2_inode_is_fast_symlink (ea_blocks sb ei) (vfs_inode ei) \<and>
        and (i_vflags (vfs_inode ei)) S_APPEND = 0 \<and> and (i_vflags (vfs_inode ei)) S_IMMUTABLE = 0"
  shows "\<exists>sb' ei' s'. ext2_delete_inode d rd io_err (\<lambda>_. True) now False do_sync bits e sb ei s = Some (sb', ei', s') \<and>
    reached bits s' = {} \<and> bmap_ok h bits s' \<and>
    (\<forall>b \<ge> s_first_data_block (bm_bs s). block_used (bm_bs s') b \<longleftrightarrow> block_used (bm_bs s) b \<and> b \<notin> reached bits s) \<and>
    ialloc_ok (it_sbi sb') \<and> (\<forall>m > 0. used (it_sbi sb') m \<longleftrightarrow> used (it_sbi sb) m \<and> m \<noteq> ino) \<and>
    (\<forall>iget_locked fresh. iget_locked ino = Some (fresh, True) \<longrightarrow> ext2_iget d rd iget_locked sb' ino = Inl ESTALE) \<and>
    (\<forall>other. other \<noteq> slot \<longrightarrow> raw_at sb' other = raw_at sb other)"
proof -
  define e1 where "e1 = ei\<lparr>i_dtime := now, vfs_inode := (vfs_inode ei)\<lparr>i_dirty := True\<rparr>\<rparr>"
  define e2 where "e2 = (flags_synced e1)\<lparr>i_state_new := False\<rparr>"
  define wr where "wr = written d sb (flags_synced e1) (if i_state_new ei then zero_raw (it_inode_size sb) else raw_at sb slot)"
  define s1 where "s1 = s\<lparr>bm_inode := (vfs_inode e2)\<lparr>i_size := 0\<rparr>\<rparr>"
  let ?sb1 = "put_raw slot wr sb"
  have w: "ext2_write_inode d rd io_err sb e1 do_sync = (?sb1, e2, if do_sync \<and> io_err then Some EIO else None)"
    using write_inode_eq [of rd sb e1 slot] slot ino(1) by (simp add: wr_def e1_def e2_def)
  have v: "i_mode (vfs_inode e2) = i_mode (vfs_inode ei)" "i_blocks (vfs_inode e2) = i_blocks (vfs_inode ei)" "i_ino (vfs_inode e2) = ino"
    "i_vflags (vfs_inode e2) = i_vflags (vfs_inode ei)" "i_file_acl e2 = i_file_acl ei"
    by (simp_all add: e2_def e1_def flags_synced_def ext2_get_inode_flags_def Let_def ino(1))
  have i1: "i_mode (bm_inode s1) = i_mode (vfs_inode ei)" "i_blocks (bm_inode s1) = i_blocks (vfs_inode ei)" "i_ino (bm_inode s1) = ino"
    "i_vflags (bm_inode s1) = i_vflags (vfs_inode ei)" "i_size (bm_inode s1) = 0" using v by (simp_all add: s1_def)
  have s1: "bmap_ok h bits s1" "bm_calm h e s1" "reached bits s1 = reached bits s" "bm_bs s1 = bm_bs s" using tree by (simp_all add: s1_def)
  obtain s2 where s2: "(if i_blocks (bm_inode s1) \<noteq> 0 then ext2_truncate bits e (it_block_bits ?sb1) (ea_blocks ?sb1 e2) s1 else Some s1) = Some s2"
    "bmap_ok h bits s2" "reached bits s2 = {}" "i_ino (bm_inode s2) = ino"
    "\<forall>b \<ge> s_first_data_block (bm_bs s). block_used (bm_bs s2) b \<longleftrightarrow> block_used (bm_bs s) b \<and> b \<notin> reached bits s"
  proof (cases "i_blocks (vfs_inode ei) = 0")
    case True
    then show thesis using that [of s1] s1 i1 blocks by simp
  next
    case False
    have "ea_blocks ?sb1 e2 = ea_blocks sb ei" by (simp add: ea_blocks_def v)
    moreover have "0 = (i_size (bm_inode s1) + 2 ^ it_block_bits ?sb1 - 1) div 2 ^ it_block_bits ?sb1" "0 < capacity bits" by (simp_all add: i1 capacity_def)
    ultimately show thesis
      using truncate_ok [OF s1(1,2), of "ea_blocks ?sb1 e2" 0 "it_block_bits ?sb1"] that False blocks i1 s1(3,4)
      by (auto simp: ext2_inode_is_fast_symlink_def)
  qed
  define sbf where "sbf = ?sb1\<lparr>it_sbi := ext2_free_inode (\<lambda>_. True) (it_sbi ?sb1) (bm_inode s2)\<rparr>"
  have run: "ext2_delete_inode d rd io_err (\<lambda>_. True) now False do_sync bits e sb ei s = Some (sbf, e2\<lparr>vfs_inode := bm_inode s2\<rparr>, s2)"
    unfolding ext2_delete_inode_def Let_def e1_def [symmetric] w prod.case s1_def [symmetric] s2(1) Option.bind.bind_lunit by (simp add: sbf_def)
  have k: "ialloc_ok (it_sbi sbf)" "0 < m \<Longrightarrow> used (it_sbi sbf) m = (m \<noteq> ino \<and> used (it_sbi sb) m)" for m
    using free_inode_keeps [of "it_sbi sb" "bm_inode s2" "\<lambda>_. True"] ino alloc s2(4) by (simp_all add: sbf_def)
  have raw: "raw_at sbf x = raw_at ?sb1 x" for x by (simp add: sbf_def raw_at_def)
  have slot': "ext2_get_inode rd sbf ino = Inr slot" using free_inode_places [where sb = ?sb1] slot by (simp add: sbf_def)
  have "r_links_count (raw_at sbf slot) = 0" "r_dtime (raw_at sbf slot) \<noteq> 0"
    unfolding raw using dead by (simp_all add: wr_def e1_def flags_synced_def ext2_get_inode_flags_def Let_def)
  then have "\<forall>iget_locked fresh. iget_locked ino = Some (fresh, True) \<longrightarrow> ext2_iget d rd iget_locked sbf ino = Inl ESTALE"
    using iget_stale slot' by blast
  moreover have "\<forall>other. other \<noteq> slot \<longrightarrow> raw_at sbf other = raw_at sb other" using raw by simp
  ultimately show ?thesis using run s2(2,3,5) k by blast
qed

definition dead_ex :: ext2_inode_info where
  "dead_ex = (info_ex 0x81A4 1024)\<lparr>vfs_inode := (vfs_inode (info_ex 0x81A4 1024))\<lparr>i_ino := 11, i_nlink := 0, i_blocks := 6, i_vflags := 0\<rparr>\<rparr>"

theorem deleted_inode_gone_witness:
  "\<exists>sb' ei' s'. ext2_delete_inode dev_ex (\<lambda>_. True) False (\<lambda>_. True) 99 False True 8 bm_env_ex isb_ex dead_ex file_ex = Some (sb', ei', s') \<and>
    reached 8 s' = {} \<and> used sbi_ex 11 \<and> \<not> used (it_sbi sb') 11 \<and>
    ext2_iget dev_ex (\<lambda>_. True) (\<lambda>_. Some (info_ex 0 0, True)) sb' 11 = Inl ESTALE"
proof -
  have sb: "it_sbi isb_ex = sbi_ex" by (simp add: isb_ex_def)
  have u: "used sbi_ex 11" by (simp add: used_def sbi_ex_def)
  have slot: "ext2_get_inode (\<lambda>_. True) isb_ex 11 = Inr (6, 256)"
    by (simp add: ext2_get_inode_def ext2_get_group_desc_def isb_ex_def sbi_ex_def drop_bit_eq_div Let_def)
  have f: "11 = i_ino (vfs_inode dead_ex)" "i_nlink (vfs_inode dead_ex) = 0" "S_ISREG (i_mode (vfs_inode dead_ex))"
    "i_blocks (vfs_inode dead_ex) = 6" "i_vflags (vfs_inode dead_ex) = 0" "\<not> S_ISLNK (i_mode (vfs_inode dead_ex))"
    by (simp_all add: dead_ex_def info_ex_def S_ISREG_def S_ISLNK_def)
  have r: "s_first_ino (it_sbi isb_ex) \<le> 11" "11 \<le> s_max_ino (it_sbi isb_ex)" by (simp_all add: isb_ex_def sbi_ex_def)
  have "\<exists>sb' ei' s'. ext2_delete_inode dev_ex (\<lambda>_. True) False (\<lambda>_. True) 99 False True 8 bm_env_ex isb_ex dead_ex file_ex = Some (sb', ei', s') \<and>
    reached 8 s' = {} \<and> bmap_ok 0 8 s' \<and>
    (\<forall>b \<ge> s_first_data_block (bm_bs file_ex). block_used (bm_bs s') b \<longleftrightarrow> block_used (bm_bs file_ex) b \<and> b \<notin> reached 8 file_ex) \<and>
    ialloc_ok (it_sbi sb') \<and> (\<forall>m > 0. used (it_sbi sb') m \<longleftrightarrow> used (it_sbi isb_ex) m \<and> m \<noteq> 11) \<and>
    (\<forall>iget_locked fresh. iget_locked 11 = Some (fresh, True) \<longrightarrow> ext2_iget dev_ex (\<lambda>_. True) iget_locked sb' 11 = Inl ESTALE) \<and>
    (\<forall>other. other \<noteq> (6, 256) \<longrightarrow> raw_at sb' other = raw_at isb_ex other)"
    by (rule deleted_inode_gone [OF f(1) _ r _ _ slot f(2) _ file_ex_ok])
      (use sbi_ex_ok u f in \<open>simp_all add: sb ext2_inode_is_fast_symlink_def\<close>)
  then show ?thesis using u by auto
qed

end
