(* ===== verification/Ext2_Options.thy ===== *)
theory Ext2_Options
  imports Ext2_Inode
begin

text \<open>
  The mount options of a3/super.c: finding the superblock option, the table of options, parsing and
  showing them. The matching functions of the kernel (\<open>match_token\<close>, \<open>match_int\<close>, \<open>simple_strtoul\<close>) are
  arguments, collected in \<open>opt_lib\<close>; the switches of the kernel configuration are the record \<open>config\<close>. The
  options live in \<open>s_mount_opt\<close>, an \<open>unsigned long\<close> of 64 bits with the flags of the kernel's \<open>ext2_fs.h\<close>.
\<close>

section \<open>State\<close>

text \<open>The superblock on the disk; \<open>d_uuid\<close> is its 16 bytes as two little-endian numbers.\<close>

record ext2_super_block =
  d_inodes_count :: "32 word"
  d_blocks_count :: "32 word"
  d_r_blocks_count :: "32 word"
  d_free_blocks_count :: "32 word"
  d_free_inodes_count :: "32 word"
  d_first_data_block :: "32 word"
  d_log_block_size :: "32 word"
  d_log_frag_size :: "32 word"
  d_blocks_per_group :: "32 word"
  d_frags_per_group :: "32 word"
  d_inodes_per_group :: "32 word"
  d_mtime :: "32 word"
  d_wtime :: "32 word"
  d_mnt_count :: "16 word"
  d_max_mnt_count :: "16 word"
  d_magic :: "16 word"
  d_state :: "16 word"
  d_errors :: "16 word"
  d_rev_level :: "32 word"
  d_def_resuid :: "16 word"
  d_def_resgid :: "16 word"
  d_first_ino :: "32 word"
  d_inode_size :: "16 word"
  d_feature_compat :: "32 word"
  d_feature_incompat :: "32 word"
  d_feature_ro_compat :: "32 word"
  d_uuid :: "64 word \<times> 64 word"
  d_default_mount_opts :: "32 word"
  d_first_meta_bg :: "32 word"

record ext2_mount_options =
  o_mount_opt :: "64 word"
  o_resuid :: "32 word"
  o_resgid :: "32 word"

record config =
  CONFIG_EXT2_FS_XATTR :: bool
  CONFIG_EXT2_FS_POSIX_ACL :: bool
  CONFIG_EXT2_FS_XIP :: bool
  CONFIG_QUOTA :: bool

abbreviation EXT2_MOUNT_CHECK :: "64 word" where "EXT2_MOUNT_CHECK \<equiv> BIT 0"
abbreviation EXT2_MOUNT_OLDALLOC :: "64 word" where "EXT2_MOUNT_OLDALLOC \<equiv> BIT 1"
abbreviation EXT2_MOUNT_GRPID :: "64 word" where "EXT2_MOUNT_GRPID \<equiv> BIT 2"
abbreviation EXT2_MOUNT_DEBUG :: "64 word" where "EXT2_MOUNT_DEBUG \<equiv> BIT 3"
abbreviation EXT2_MOUNT_ERRORS_CONT :: "64 word" where "EXT2_MOUNT_ERRORS_CONT \<equiv> BIT 4"
abbreviation EXT2_MOUNT_ERRORS_RO :: "64 word" where "EXT2_MOUNT_ERRORS_RO \<equiv> BIT 5"
abbreviation EXT2_MOUNT_ERRORS_PANIC :: "64 word" where "EXT2_MOUNT_ERRORS_PANIC \<equiv> BIT 6"
abbreviation EXT2_MOUNT_MINIX_DF :: "64 word" where "EXT2_MOUNT_MINIX_DF \<equiv> BIT 7"
abbreviation EXT2_MOUNT_NOBH :: "64 word" where "EXT2_MOUNT_NOBH \<equiv> BIT 8"
abbreviation EXT2_MOUNT_NO_UID32 :: "64 word" where "EXT2_MOUNT_NO_UID32 \<equiv> BIT 9"
abbreviation EXT2_MOUNT_XATTR_USER :: "64 word" where "EXT2_MOUNT_XATTR_USER \<equiv> BIT 14"
abbreviation EXT2_MOUNT_POSIX_ACL :: "64 word" where "EXT2_MOUNT_POSIX_ACL \<equiv> BIT 15"
abbreviation EXT2_MOUNT_XIP :: "64 word" where "EXT2_MOUNT_XIP \<equiv> BIT 16"
abbreviation EXT2_MOUNT_USRQUOTA :: "64 word" where "EXT2_MOUNT_USRQUOTA \<equiv> BIT 17"
abbreviation EXT2_MOUNT_GRPQUOTA :: "64 word" where "EXT2_MOUNT_GRPQUOTA \<equiv> BIT 18"
abbreviation EXT2_MOUNT_RESERVATION :: "64 word" where "EXT2_MOUNT_RESERVATION \<equiv> BIT 19"

abbreviation EXT2_DEFM_DEBUG :: "32 word" where "EXT2_DEFM_DEBUG \<equiv> BIT 0"
abbreviation EXT2_DEFM_BSDGROUPS :: "32 word" where "EXT2_DEFM_BSDGROUPS \<equiv> BIT 1"
abbreviation EXT2_DEFM_XATTR_USER :: "32 word" where "EXT2_DEFM_XATTR_USER \<equiv> BIT 2"
abbreviation EXT2_DEFM_ACL :: "32 word" where "EXT2_DEFM_ACL \<equiv> BIT 3"
abbreviation EXT2_DEFM_UID16 :: "32 word" where "EXT2_DEFM_UID16 \<equiv> BIT 4"

abbreviation EXT2_ERRORS_CONTINUE :: "16 word" where "EXT2_ERRORS_CONTINUE \<equiv> 1"
abbreviation EXT2_ERRORS_PANIC :: "16 word" where "EXT2_ERRORS_PANIC \<equiv> 3"

abbreviation EXT2_DEF_RESUID :: "32 word" where "EXT2_DEF_RESUID \<equiv> 0"
abbreviation EXT2_DEF_RESGID :: "32 word" where "EXT2_DEF_RESGID \<equiv> 0"

definition set_opt :: "64 word \<Rightarrow> ext2_mount_options \<Rightarrow> ext2_mount_options" where
  "set_opt f op = op\<lparr>o_mount_opt := or (o_mount_opt op) f\<rparr>"

definition clear_opt :: "64 word \<Rightarrow> ext2_mount_options \<Rightarrow> ext2_mount_options" where
  "clear_opt f op = op\<lparr>o_mount_opt := and (o_mount_opt op) (not f)\<rparr>"

abbreviation test_opt :: "ext2_mount_options \<Rightarrow> 64 word \<Rightarrow> bool" where
  "test_opt op f \<equiv> has (o_mount_opt op) f"

datatype opt_token =
    Opt_bsd_df | Opt_minix_df | Opt_grpid | Opt_nogrpid
  | Opt_resgid | Opt_resuid | Opt_sb | Opt_err_cont | Opt_err_panic
  | Opt_err_ro | Opt_nouid32 | Opt_nocheck | Opt_debug
  | Opt_oldalloc | Opt_orlov | Opt_nobh | Opt_user_xattr | Opt_nouser_xattr
  | Opt_acl | Opt_noacl | Opt_xip | Opt_ignore | Opt_err | Opt_quota
  | Opt_usrquota | Opt_grpquota | Opt_reservation | Opt_noreservation
  | Opt_key

definition tokens :: "(opt_token \<times> string option) list" where
  "tokens = [
     (Opt_bsd_df, Some ''bsddf''),
     (Opt_minix_df, Some ''minixdf''),
     (Opt_grpid, Some ''grpid''),
     (Opt_grpid, Some ''bsdgroups''),
     (Opt_nogrpid, Some ''nogrpid''),
     (Opt_nogrpid, Some ''sysvgroups''),
     (Opt_resgid, Some ''resgid=%u''),
     (Opt_resuid, Some ''resuid=%u''),
     (Opt_sb, Some ''sb=%u''),
     (Opt_err_cont, Some ''errors=continue''),
     (Opt_err_panic, Some ''errors=panic''),
     (Opt_err_ro, Some ''errors=remount-ro''),
     (Opt_nouid32, Some ''nouid32''),
     (Opt_nocheck, Some ''check=none''),
     (Opt_nocheck, Some ''nocheck''),
     (Opt_debug, Some ''debug''),
     (Opt_oldalloc, Some ''oldalloc''),
     (Opt_orlov, Some ''orlov''),
     (Opt_nobh, Some ''nobh''),
     (Opt_user_xattr, Some ''user_xattr''),
     (Opt_nouser_xattr, Some ''nouser_xattr''),
     (Opt_acl, Some ''acl''),
     (Opt_noacl, Some ''noacl''),
     (Opt_xip, Some ''xip''),
     (Opt_grpquota, Some ''grpquota''),
     (Opt_ignore, Some ''noquota''),
     (Opt_quota, Some ''quota''),
     (Opt_usrquota, Some ''usrquota''),
     (Opt_reservation, Some ''reservation''),
     (Opt_noreservation, Some ''noreservation''),
     (Opt_key, Some ''key=%x''),
     (Opt_err, None)]"

text \<open>\<open>match_token\<close> gives the token of the first pattern that fits and the arguments it picked out;
  \<open>match_int\<close> the number an argument stands for, or fails; \<open>simple_strtoul\<close> a number and what is left of the
  string.\<close>

record opt_lib =
  match_token :: "string \<Rightarrow> (opt_token \<times> string option) list \<Rightarrow> opt_token \<times> string list"
  match_int :: "string \<Rightarrow> int option"
  simple_strtoul :: "string \<Rightarrow> nat \<times> string"

section \<open>Operations\<close>

text \<open>The block of the superblock and the options that are left.\<close>

definition get_sb_block :: "opt_lib \<Rightarrow> string option \<Rightarrow> nat \<times> string option" where
  "get_sb_block lib data =
     (case data of
        None \<Rightarrow> (1, data)
      | Some options \<Rightarrow>
          if take 3 options \<noteq> ''sb='' then (1, data)
          else
            let (sb_block, options) = simple_strtoul lib (drop 3 options)
            in if options \<noteq> [] \<and> hd options \<noteq> CHR '','' then (1, data)
               else (sb_block, Some (if options \<noteq> [] then tl options else options)))"

text \<open>\<open>strsep\<close> with the separator \<open>,\<close>.\<close>

fun split_commas :: "string \<Rightarrow> string list" where
  "split_commas [] = [[]]"
| "split_commas (c # cs) =
     (if c = CHR '','' then [] # split_commas cs
      else case split_commas cs of [] \<Rightarrow> [[c]] | p # ps \<Rightarrow> (c # p) # ps)"

text \<open>One option; the second component of the state is the global \<open>key\<close>. \<open>None\<close>: the option is refused.\<close>

definition parse_option :: "config \<Rightarrow> opt_lib \<Rightarrow> string \<Rightarrow> ext2_mount_options \<times> int \<Rightarrow> (ext2_mount_options \<times> int) option" where
  "parse_option cfg lib p st =
     (let (token, args) = match_token lib p tokens;
          (sbi, key) = st
      in case token of
           Opt_bsd_df \<Rightarrow> Some (clear_opt EXT2_MOUNT_MINIX_DF sbi, key)
         | Opt_minix_df \<Rightarrow> Some (set_opt EXT2_MOUNT_MINIX_DF sbi, key)
         | Opt_grpid \<Rightarrow> Some (set_opt EXT2_MOUNT_GRPID sbi, key)
         | Opt_nogrpid \<Rightarrow> Some (clear_opt EXT2_MOUNT_GRPID sbi, key)
         | Opt_resuid \<Rightarrow>
             (case match_int lib (args ! 0) of
                None \<Rightarrow> None | Some opt \<Rightarrow> Some (sbi\<lparr>o_resuid := word_of_int opt\<rparr>, key))
         | Opt_resgid \<Rightarrow>
             (case match_int lib (args ! 0) of
                None \<Rightarrow> None | Some opt \<Rightarrow> Some (sbi\<lparr>o_resgid := word_of_int opt\<rparr>, key))
         | Opt_sb \<Rightarrow> Some st
         | Opt_err_panic \<Rightarrow>
             Some (set_opt EXT2_MOUNT_ERRORS_PANIC (clear_opt EXT2_MOUNT_ERRORS_RO (clear_opt EXT2_MOUNT_ERRORS_CONT sbi)), key)
         | Opt_err_ro \<Rightarrow>
             Some (set_opt EXT2_MOUNT_ERRORS_RO (clear_opt EXT2_MOUNT_ERRORS_PANIC (clear_opt EXT2_MOUNT_ERRORS_CONT sbi)), key)
         | Opt_err_cont \<Rightarrow>
             Some (set_opt EXT2_MOUNT_ERRORS_CONT (clear_opt EXT2_MOUNT_ERRORS_PANIC (clear_opt EXT2_MOUNT_ERRORS_RO sbi)), key)
         | Opt_nouid32 \<Rightarrow> Some (set_opt EXT2_MOUNT_NO_UID32 sbi, key)
         | Opt_nocheck \<Rightarrow> Some (clear_opt EXT2_MOUNT_CHECK sbi, key)
         | Opt_debug \<Rightarrow> Some (set_opt EXT2_MOUNT_DEBUG sbi, key)
         | Opt_oldalloc \<Rightarrow> Some (set_opt EXT2_MOUNT_OLDALLOC sbi, key)
         | Opt_orlov \<Rightarrow> Some (clear_opt EXT2_MOUNT_OLDALLOC sbi, key)
         | Opt_nobh \<Rightarrow> Some (set_opt EXT2_MOUNT_NOBH sbi, key)
         | Opt_user_xattr \<Rightarrow> Some (if CONFIG_EXT2_FS_XATTR cfg then set_opt EXT2_MOUNT_XATTR_USER sbi else sbi, key)
         | Opt_nouser_xattr \<Rightarrow> Some (if CONFIG_EXT2_FS_XATTR cfg then clear_opt EXT2_MOUNT_XATTR_USER sbi else sbi, key)
         | Opt_acl \<Rightarrow> Some (if CONFIG_EXT2_FS_POSIX_ACL cfg then set_opt EXT2_MOUNT_POSIX_ACL sbi else sbi, key)
         | Opt_noacl \<Rightarrow> Some (if CONFIG_EXT2_FS_POSIX_ACL cfg then clear_opt EXT2_MOUNT_POSIX_ACL sbi else sbi, key)
         | Opt_xip \<Rightarrow> Some (if CONFIG_EXT2_FS_XIP cfg then set_opt EXT2_MOUNT_XIP sbi else sbi, key)
         | Opt_quota \<Rightarrow> Some (if CONFIG_QUOTA cfg then set_opt EXT2_MOUNT_USRQUOTA sbi else sbi, key)
         | Opt_usrquota \<Rightarrow> Some (if CONFIG_QUOTA cfg then set_opt EXT2_MOUNT_USRQUOTA sbi else sbi, key)
         | Opt_grpquota \<Rightarrow> Some (if CONFIG_QUOTA cfg then set_opt EXT2_MOUNT_GRPQUOTA sbi else sbi, key)
         | Opt_reservation \<Rightarrow> Some (set_opt EXT2_MOUNT_RESERVATION sbi, key)
         | Opt_noreservation \<Rightarrow> Some (clear_opt EXT2_MOUNT_RESERVATION sbi, key)
         | Opt_ignore \<Rightarrow> Some st
         | Opt_key \<Rightarrow>
             (case match_int lib (args ! 0) of
                None \<Rightarrow> None | Some opt \<Rightarrow> Some (sbi, uint (word_of_int opt :: 8 word)))
         | Opt_err \<Rightarrow> None)"

text \<open>The loop over the options; what was set before a refused option stays set.\<close>

fun parse_loop :: "config \<Rightarrow> opt_lib \<Rightarrow> string list \<Rightarrow> ext2_mount_options \<times> int \<Rightarrow> (ext2_mount_options \<times> int) \<times> bool" where
  "parse_loop cfg lib [] st = (st, True)"
| "parse_loop cfg lib (p # ps) st =
     (if p = [] then parse_loop cfg lib ps st
      else case parse_option cfg lib p st of
             None \<Rightarrow> (st, False)
           | Some st \<Rightarrow> parse_loop cfg lib ps st)"

definition parse_options :: "config \<Rightarrow> opt_lib \<Rightarrow> string option \<Rightarrow> ext2_mount_options \<times> int \<Rightarrow> (ext2_mount_options \<times> int) \<times> bool" where
  "parse_options cfg lib options st =
     (case options of None \<Rightarrow> (st, True) | Some options \<Rightarrow> parse_loop cfg lib (split_commas options) st)"

text \<open>The defaults \<open>ext2_fill_super\<close> sets before it parses the options.\<close>

definition def_when :: "bool \<Rightarrow> 64 word \<Rightarrow> ext2_mount_options \<Rightarrow> ext2_mount_options" where
  "def_when c f op = (if c then set_opt f op else op)"

definition default_options :: "config \<Rightarrow> ext2_super_block \<Rightarrow> ext2_mount_options \<Rightarrow> ext2_mount_options" where
  "default_options cfg es sbi =
     (let def_mount_opts = d_default_mount_opts es;
          sbi = def_when (has def_mount_opts EXT2_DEFM_DEBUG) EXT2_MOUNT_DEBUG sbi;
          sbi = def_when (has def_mount_opts EXT2_DEFM_BSDGROUPS) EXT2_MOUNT_GRPID sbi;
          sbi = def_when (has def_mount_opts EXT2_DEFM_UID16) EXT2_MOUNT_NO_UID32 sbi;
          sbi = def_when (CONFIG_EXT2_FS_XATTR cfg \<and> has def_mount_opts EXT2_DEFM_XATTR_USER) EXT2_MOUNT_XATTR_USER sbi;
          sbi = def_when (CONFIG_EXT2_FS_POSIX_ACL cfg \<and> has def_mount_opts EXT2_DEFM_ACL) EXT2_MOUNT_POSIX_ACL sbi;
          sbi = (if d_errors es = EXT2_ERRORS_PANIC then set_opt EXT2_MOUNT_ERRORS_PANIC sbi
                 else if d_errors es = EXT2_ERRORS_CONTINUE then set_opt EXT2_MOUNT_ERRORS_CONT sbi
                 else set_opt EXT2_MOUNT_ERRORS_RO sbi);
          sbi = sbi\<lparr>o_resuid := ucast (d_def_resuid es), o_resgid := ucast (d_def_resgid es)\<rparr>
      in set_opt EXT2_MOUNT_RESERVATION sbi)"

text \<open>A number in decimal notation, \<open>%u\<close> and \<open>%lu\<close>.\<close>

fun dec :: "nat \<Rightarrow> string" where
  "dec n = (if n < 10 then [char_of (48 + n)] else dec (n div 10) @ [char_of (48 + n mod 10)])"

declare dec.simps [simp del]

text \<open>What is shown, with the condition under which it is.\<close>

definition shown_options :: "config \<Rightarrow> ext2_super_block \<Rightarrow> nat \<Rightarrow> ext2_mount_options \<Rightarrow> (bool \<times> string) list" where
  "shown_options cfg es sb_block sbi =
     (let def_mount_opts = d_default_mount_opts es;
          def_errors = d_errors es
      in [
        (sb_block \<noteq> 1, ''sb='' @ dec sb_block),
        (test_opt sbi EXT2_MOUNT_MINIX_DF, ''minixdf''),
        (test_opt sbi EXT2_MOUNT_GRPID, ''grpid''),
        (\<not> test_opt sbi EXT2_MOUNT_GRPID \<and> has def_mount_opts EXT2_DEFM_BSDGROUPS, ''nogrpid''),
        (o_resuid sbi \<noteq> EXT2_DEF_RESUID \<or> ucast (d_def_resuid es) \<noteq> EXT2_DEF_RESUID, ''resuid='' @ dec (unat (o_resuid sbi))),
        (o_resgid sbi \<noteq> EXT2_DEF_RESGID \<or> ucast (d_def_resgid es) \<noteq> EXT2_DEF_RESGID, ''resgid='' @ dec (unat (o_resgid sbi))),
        (test_opt sbi EXT2_MOUNT_ERRORS_RO \<and> (def_errors = EXT2_ERRORS_PANIC \<or> def_errors = EXT2_ERRORS_CONTINUE),
         ''errors=remount-ro''),
        (test_opt sbi EXT2_MOUNT_ERRORS_CONT, ''errors=continue''),
        (test_opt sbi EXT2_MOUNT_ERRORS_PANIC, ''errors=panic''),
        (test_opt sbi EXT2_MOUNT_NO_UID32, ''nouid32''),
        (test_opt sbi EXT2_MOUNT_DEBUG, ''debug''),
        (test_opt sbi EXT2_MOUNT_OLDALLOC, ''oldalloc''),
        (CONFIG_EXT2_FS_XATTR cfg \<and> test_opt sbi EXT2_MOUNT_XATTR_USER, ''user_xattr''),
        (CONFIG_EXT2_FS_XATTR cfg \<and> \<not> test_opt sbi EXT2_MOUNT_XATTR_USER \<and> has def_mount_opts EXT2_DEFM_XATTR_USER,
         ''nouser_xattr''),
        (CONFIG_EXT2_FS_POSIX_ACL cfg \<and> test_opt sbi EXT2_MOUNT_POSIX_ACL, ''acl''),
        (CONFIG_EXT2_FS_POSIX_ACL cfg \<and> \<not> test_opt sbi EXT2_MOUNT_POSIX_ACL \<and> has def_mount_opts EXT2_DEFM_ACL, ''noacl''),
        (test_opt sbi EXT2_MOUNT_NOBH, ''nobh''),
        (CONFIG_QUOTA cfg \<and> test_opt sbi EXT2_MOUNT_USRQUOTA, ''usrquota''),
        (CONFIG_QUOTA cfg \<and> test_opt sbi EXT2_MOUNT_GRPQUOTA, ''grpquota''),
        (CONFIG_EXT2_FS_XIP cfg \<and> test_opt sbi EXT2_MOUNT_XIP, ''xip''),
        (\<not> test_opt sbi EXT2_MOUNT_RESERVATION, ''noreservation'')])"

definition seq_puts :: "bool \<times> string \<Rightarrow> string" where
  "seq_puts = (\<lambda>(c, s). if c then CHR '','' # s else [])"

definition ext2_show_options :: "config \<Rightarrow> ext2_super_block \<Rightarrow> nat \<Rightarrow> ext2_mount_options \<Rightarrow> string" where
  "ext2_show_options cfg es sb_block sbi = concat (map seq_puts (shown_options cfg es sb_block sbi))"

section \<open>Splitting what was shown\<close>

lemma split_commas_none [simp]: "CHR '','' \<notin> set x \<Longrightarrow> split_commas x = [x]"
  by (induction x) auto

lemma split_commas_first [simp]: "CHR '','' \<notin> set x \<Longrightarrow> split_commas (x @ CHR '','' # y) = x # split_commas y"
  by (induction x) auto

lemma split_shown:
  assumes "CHR '','' \<notin> set x" and "\<forall>(c, s) \<in> set ps. CHR '','' \<notin> set s"
  shows "split_commas (x @ concat (map seq_puts ps)) = x # map snd (filter fst ps)"
  using assms
proof (induction ps arbitrary: x)
  case (Cons p ps)
  then show ?case by (cases p) (auto simp: seq_puts_def)
qed simp

lemma parse_shown:
  assumes "\<forall>(c, s) \<in> set ps. CHR '','' \<notin> set s"
  shows "parse_options cfg lib (Some (concat (map seq_puts ps))) st = parse_loop cfg lib (map snd (filter fst ps)) st"
  using split_shown [of "[]" ps] assms by (simp add: parse_options_def)

lemma dec_digits: "c \<in> set (dec n) \<Longrightarrow> 48 \<le> (of_char c :: nat) \<and> (of_char c :: nat) \<le> 57"
proof (induction n rule: dec.induct)
  case (1 n)
  show ?case
  proof (cases "n < 10")
    case True
    then show ?thesis using 1(2) by (subst (asm) dec.simps) simp
  next
    case False
    then show ?thesis using 1 by (subst (asm) dec.simps) auto
  qed
qed

lemma dec_no_comma [simp]: "CHR '','' \<notin> set (dec n)"
  using dec_digits [of "CHR '',''" n] by auto

lemma shown_no_comma: "\<forall>(c, s) \<in> set (shown_options cfg es sb_block sbi). CHR '','' \<notin> set s"
  by (simp add: shown_options_def Let_def)

section \<open>Which options can be set\<close>

lemma bit_set_opt [flag_simps]: "k < 64 \<Longrightarrow> bit (o_mount_opt (set_opt (BIT k) op)) n \<longleftrightarrow> bit (o_mount_opt op) n \<or> n = k"
  by (auto simp add: set_opt_def flag_simps)

lemma bit_clear_opt [flag_simps]: "bit (o_mount_opt (clear_opt (BIT k) op)) n \<longleftrightarrow> bit (o_mount_opt op) n \<and> n \<noteq> k"
  by (simp add: clear_opt_def flag_simps)

lemma opt_resids [simp]:
  "o_resuid (set_opt f op) = o_resuid op" "o_resgid (set_opt f op) = o_resgid op"
  "o_resuid (clear_opt f op) = o_resuid op" "o_resgid (clear_opt f op) = o_resgid op"
  by (simp_all add: set_opt_def clear_opt_def)

text \<open>Exactly one reaction to errors is chosen, options that are not compiled in are not set, options that only
  the superblock can switch on stay on, and no unknown flag is set.\<close>

definition known_flags :: "nat set" where
  "known_flags = {1, 2, 3, 4, 5, 6, 7, 8, 9, 14, 15, 16, 17, 18, 19}"

definition flags_ok :: "config \<Rightarrow> ext2_super_block \<Rightarrow> (nat \<Rightarrow> bool) \<Rightarrow> bool" where
  "flags_ok cfg es b \<longleftrightarrow>
     (b 4 \<and> \<not> b 5 \<and> \<not> b 6 \<or> \<not> b 4 \<and> b 5 \<and> \<not> b 6 \<or> \<not> b 4 \<and> \<not> b 5 \<and> b 6) \<and>
     (bit (d_default_mount_opts es) 0 \<longrightarrow> b 3) \<and> (bit (d_default_mount_opts es) 4 \<longrightarrow> b 9) \<and>
     (b 14 \<longrightarrow> CONFIG_EXT2_FS_XATTR cfg) \<and> (b 15 \<longrightarrow> CONFIG_EXT2_FS_POSIX_ACL cfg) \<and>
     (b 16 \<longrightarrow> CONFIG_EXT2_FS_XIP cfg) \<and> (b 17 \<longrightarrow> CONFIG_QUOTA cfg) \<and> (b 18 \<longrightarrow> CONFIG_QUOTA cfg)"

definition options_ok :: "config \<Rightarrow> ext2_super_block \<Rightarrow> ext2_mount_options \<Rightarrow> bool" where
  "options_ok cfg es op \<longleftrightarrow> {n. bit (o_mount_opt op) n} \<subseteq> known_flags \<and> flags_ok cfg es (bit (o_mount_opt op))"

lemma set_opt_ok: "options_ok cfg es op \<Longrightarrow> k \<in> known_flags \<Longrightarrow> flags_ok cfg es (\<lambda>n. bit (o_mount_opt op) n \<or> n = k) \<Longrightarrow>
    options_ok cfg es (set_opt (BIT k) op)"
proof -
  assume k: "k \<in> known_flags" and o: "options_ok cfg es op" "flags_ok cfg es (\<lambda>n. bit (o_mount_opt op) n \<or> n = k)"
  have "bit (o_mount_opt (set_opt (BIT k) op)) = (\<lambda>n. bit (o_mount_opt op) n \<or> n = k)"
    using k by (auto simp: fun_eq_iff flag_simps known_flags_def)
  then show ?thesis using o k by (auto simp: options_ok_def)
qed

lemma clear_opt_bits: "bit (o_mount_opt (clear_opt (BIT k) op)) = (\<lambda>n. bit (o_mount_opt op) n \<and> n \<noteq> k)"
  by (auto simp: fun_eq_iff flag_simps)

definition no_options :: ext2_mount_options where
  "no_options = \<lparr>o_mount_opt = 0, o_resuid = 0, o_resgid = 0\<rparr>"

lemma bit_def_when [flag_simps]: "k < 64 \<Longrightarrow> bit (o_mount_opt (def_when c (BIT k) op)) n \<longleftrightarrow> bit (o_mount_opt op) n \<or> c \<and> n = k"
  by (simp add: def_when_def flag_simps)

lemma bit_default [flag_simps]:
  "bit (o_mount_opt (default_options cfg es no_options)) n \<longleftrightarrow>
     n = 19 \<or> n = 3 \<and> bit (d_default_mount_opts es) 0 \<or> n = 2 \<and> bit (d_default_mount_opts es) 1 \<or>
     n = 9 \<and> bit (d_default_mount_opts es) 4 \<or>
     n = 14 \<and> CONFIG_EXT2_FS_XATTR cfg \<and> bit (d_default_mount_opts es) 2 \<or>
     n = 15 \<and> CONFIG_EXT2_FS_POSIX_ACL cfg \<and> bit (d_default_mount_opts es) 3 \<or>
     n = (if d_errors es = EXT2_ERRORS_PANIC then 6 else if d_errors es = EXT2_ERRORS_CONTINUE then 4 else 5)"
  by (cases "d_errors es = EXT2_ERRORS_PANIC"; cases "d_errors es = EXT2_ERRORS_CONTINUE";
    simp add: default_options_def Let_def flag_simps no_options_def; blast)

lemma default_resids [simp]:
  "o_resuid (default_options cfg es op) = ucast (d_def_resuid es)" "o_resgid (default_options cfg es op) = ucast (d_def_resgid es)"
  by (simp_all add: default_options_def Let_def)

lemma default_ok: "options_ok cfg es (default_options cfg es no_options)"
proof -
  have "{n. bit (o_mount_opt (default_options cfg es no_options)) n} \<subseteq> known_flags"
    by (auto simp only: bit_default known_flags_def split: if_splits)
  moreover have "flags_ok cfg es (bit (o_mount_opt (default_options cfg es no_options)))"
    unfolding flags_ok_def bit_default by simp
  ultimately show ?thesis by (simp add: options_ok_def)
qed

text \<open>A flag without conditions can be set and cleared, those that are compiled in can be set, the reactions to
  errors exchanged.\<close>

lemma ok_clear:
  assumes "options_ok cfg es op" and "k \<in> {0, 1, 2, 7, 14, 15, 19}"
  shows "options_ok cfg es (clear_opt (BIT k) op)"
proof -
  have "flags_ok cfg es (\<lambda>n. bit (o_mount_opt op) n \<and> n \<noteq> k)"
    using conjunct2 [OF assms(1) [unfolded options_ok_def]] assms(2) unfolding flags_ok_def by (elim insertE emptyE; simp)
  then show ?thesis using assms(1) by (auto simp: options_ok_def clear_opt_bits)
qed

lemma ok_set:
  assumes "options_ok cfg es op" and "k \<in> {1, 2, 3, 7, 8, 9, 19} \<or> k = 14 \<and> CONFIG_EXT2_FS_XATTR cfg \<or>
      k = 15 \<and> CONFIG_EXT2_FS_POSIX_ACL cfg \<or> k = 16 \<and> CONFIG_EXT2_FS_XIP cfg \<or> k \<in> {17, 18} \<and> CONFIG_QUOTA cfg"
  shows "options_ok cfg es (set_opt (BIT k) op)"
proof (rule set_opt_ok)
  show "k \<in> known_flags" using assms(2) by (auto simp: known_flags_def)
  show "flags_ok cfg es (\<lambda>n. bit (o_mount_opt op) n \<or> n = k)"
    using conjunct2 [OF assms(1) [unfolded options_ok_def]] assms(2) unfolding flags_ok_def
    by (elim disjE insertE emptyE conjE; simp)
qed (rule assms(1))

lemma ok_errors:
  assumes "options_ok cfg es op" and "(a, b, c) \<in> {(6, 5, 4), (5, 6, 4), (4, 6, 5)}"
  shows "options_ok cfg es (set_opt (BIT a) (clear_opt (BIT b) (clear_opt (BIT c) op)))"
proof -
  have "bit (o_mount_opt (set_opt (BIT a) (clear_opt (BIT b) (clear_opt (BIT c) op)))) =
      (\<lambda>n. bit (o_mount_opt op) n \<and> n \<noteq> b \<and> n \<noteq> c \<or> n = a)"
    using assms(2) by (auto simp: fun_eq_iff flag_simps)
  moreover have "a \<in> known_flags" using assms(2) by (auto simp: known_flags_def)
  moreover have "flags_ok cfg es (\<lambda>n. bit (o_mount_opt op) n \<and> n \<noteq> b \<and> n \<noteq> c \<or> n = a)"
    using conjunct2 [OF assms(1) [unfolded options_ok_def]] assms(2) unfolding flags_ok_def by (elim insertE emptyE; simp)
  ultimately show ?thesis using assms(1) by (auto simp: options_ok_def)
qed

lemma ok_resids:
  "options_ok cfg es op \<Longrightarrow> options_ok cfg es (op\<lparr>o_resuid := u\<rparr>)" "options_ok cfg es op \<Longrightarrow> options_ok cfg es (op\<lparr>o_resgid := u\<rparr>)"
  by (simp_all add: options_ok_def)

lemma parse_option_ok: "options_ok cfg es op \<Longrightarrow> parse_option cfg lib p (op, k) = Some (op', k') \<Longrightarrow> options_ok cfg es op'"
  by (cases "fst (match_token lib p tokens)")
    (auto simp: parse_option_def Let_def split: prod.splits option.splits if_splits
       intro!: ok_clear ok_set ok_errors ok_resids)

lemma parse_loop_ok: "options_ok cfg es op \<Longrightarrow> parse_loop cfg lib ps (op, k) = ((op', k'), r) \<Longrightarrow> options_ok cfg es op'"
  by (induction ps arbitrary: op k) (auto split: if_splits option.splits intro: parse_option_ok)

lemma parse_options_ok: "options_ok cfg es op \<Longrightarrow> parse_options cfg lib data (op, k) = ((op', k'), r) \<Longrightarrow> options_ok cfg es op'"
  by (auto simp: parse_options_def split: option.splits intro: parse_loop_ok)

section \<open>Parsing what was shown\<close>

text \<open>What the sources rely on in the kernel's matching functions: a pattern without arguments matches itself, the
  patterns with \<open>%u\<close> match decimal numbers and hand them on, and decimal numbers are read as such, by
  \<open>match_int\<close> in the range of \<open>int\<close> and by \<open>simple_strtoul\<close> in the range of \<open>unsigned long\<close>.\<close>

definition lib_ok :: "opt_lib \<Rightarrow> bool" where
  "lib_ok lib \<longleftrightarrow>
     (\<forall>(t, p) \<in> set tokens. case p of None \<Rightarrow> True | Some q \<Rightarrow> CHR ''%'' \<in> set q \<or> fst (match_token lib q tokens) = t) \<and>
     (\<forall>n. fst (match_token lib (''sb='' @ dec n) tokens) = Opt_sb) \<and>
     (\<forall>n. match_token lib (''resuid='' @ dec n) tokens = (Opt_resuid, [dec n])) \<and>
     (\<forall>n. match_token lib (''resgid='' @ dec n) tokens = (Opt_resgid, [dec n])) \<and>
     (\<forall>n < 2 ^ 31. match_int lib (dec n) = Some (int n)) \<and>
     (\<forall>n s. n < 2 ^ 64 \<longrightarrow> s = [] \<or> hd s = CHR '','' \<longrightarrow> simple_strtoul lib (dec n @ s) = (n, s))"

definition doif :: "bool \<Rightarrow> ('a \<Rightarrow> 'a) \<Rightarrow> 'a \<Rightarrow> 'a" where
  "doif c f x = (if c then f x else x)"

lemma doif_id: "doif c (\<lambda>x. x) y = y"
  by (simp add: doif_def)

lemma run_shown:
  assumes "list_all2 (\<lambda>(c, t) (c', f). c' = c \<and> t \<noteq> [] \<and> (c \<longrightarrow> (\<forall>op k. parse_option cfg lib t (op, k) = Some (f op, k)))) ps acts"
  shows "parse_loop cfg lib (map snd (filter fst ps)) (op, k) = ((fold (\<lambda>(c, f). doif c f) acts op, k), True)"
  using assms
proof (induction ps acts arbitrary: op rule: list_all2_induct)
  case (Cons p ps a acts)
  then show ?case by (cases p; cases a) (auto simp: doif_def)
qed simp

lemma bit_when [flag_simps]:
  "k < 64 \<Longrightarrow> bit (o_mount_opt (doif c (set_opt (BIT k)) x)) n \<longleftrightarrow> bit (o_mount_opt x) n \<or> c \<and> n = k"
  "bit (o_mount_opt (doif c (clear_opt (BIT k)) x)) n \<longleftrightarrow> bit (o_mount_opt x) n \<and> \<not> (c \<and> n = k)"
  "bit (o_mount_opt (doif c (\<lambda>op. op) x)) n \<longleftrightarrow> bit (o_mount_opt x) n"
  "bit (o_mount_opt (doif c (o_resuid_update f) x)) n \<longleftrightarrow> bit (o_mount_opt x) n"
  "bit (o_mount_opt (doif c (o_resgid_update f) x)) n \<longleftrightarrow> bit (o_mount_opt x) n"
  "a < 64 \<Longrightarrow> bit (o_mount_opt (doif c (\<lambda>op. set_opt (BIT a) (clear_opt (BIT b) (clear_opt (BIT d) op))) x)) n \<longleftrightarrow>
     (if c then n = a \<or> bit (o_mount_opt x) n \<and> n \<noteq> b \<and> n \<noteq> d else bit (o_mount_opt x) n)"
  by (auto simp: doif_def flag_simps)

lemma when_resids [simp]:
  "o_resuid (doif c (set_opt f) x) = o_resuid x" "o_resgid (doif c (set_opt f) x) = o_resgid x"
  "o_resuid (doif c (clear_opt f) x) = o_resuid x" "o_resgid (doif c (clear_opt f) x) = o_resgid x"
  "o_resuid (doif c (\<lambda>op. op) x) = o_resuid x" "o_resgid (doif c (\<lambda>op. op) x) = o_resgid x"
  "o_resuid (doif c (\<lambda>op. set_opt f (clear_opt g (clear_opt h op))) x) = o_resuid x"
  "o_resgid (doif c (\<lambda>op. set_opt f (clear_opt g (clear_opt h op))) x) = o_resgid x"
  "o_resuid (doif c (o_resgid_update u) x) = o_resuid x" "o_resgid (doif c (o_resuid_update u) x) = o_resgid x"
  "o_resuid (doif c (o_resuid_update u) x) = (if c then u (o_resuid x) else o_resuid x)"
  "o_resgid (doif c (o_resgid_update u) x) = (if c then u (o_resgid x) else o_resgid x)"
  by (simp_all add: doif_def)

text \<open>The effects of the options shown.\<close>

definition effects :: "config \<Rightarrow> ext2_super_block \<Rightarrow> nat \<Rightarrow> ext2_mount_options \<Rightarrow>
    (bool \<times> (ext2_mount_options \<Rightarrow> ext2_mount_options)) list" where
  "effects cfg es sb_block sbi = zip (map fst (shown_options cfg es sb_block sbi))
     [\<lambda>op. op, set_opt (BIT 7), set_opt (BIT 2), clear_opt (BIT 2), o_resuid_update (\<lambda>_. o_resuid sbi), o_resgid_update (\<lambda>_. o_resgid sbi),
      \<lambda>op. set_opt (BIT 5) (clear_opt (BIT 6) (clear_opt (BIT 4) op)), \<lambda>op. set_opt (BIT 4) (clear_opt (BIT 6) (clear_opt (BIT 5) op)),
      \<lambda>op. set_opt (BIT 6) (clear_opt (BIT 5) (clear_opt (BIT 4) op)), set_opt (BIT 9), set_opt (BIT 3), set_opt (BIT 1),
      set_opt (BIT 14), clear_opt (BIT 14), set_opt (BIT 15), clear_opt (BIT 15), set_opt (BIT 8), set_opt (BIT 17), set_opt (BIT 18),
      set_opt (BIT 16), clear_opt (BIT 19)]"

lemma parse_literal:
  assumes "lib_ok lib" and "(t, Some q) \<in> set tokens" and "CHR ''%'' \<notin> set q"
  shows "fst (match_token lib q tokens) = t"
  using assms by (fastforce simp: lib_ok_def)

lemma shown_effects:
  assumes lib: "lib_ok lib" and r: "unat (o_resuid sbi) < 2 ^ 31" "unat (o_resgid sbi) < 2 ^ 31"
  shows "list_all2 (\<lambda>(c, t) (c', f). c' = c \<and> t \<noteq> [] \<and> (c \<longrightarrow> (\<forall>op k. parse_option cfg lib t (op, k) = Some (f op, k))))
    (shown_options cfg es sb_block sbi) (effects cfg es sb_block sbi)"
proof -
  have [simp]: "fst (match_token lib ''minixdf'' tokens) = Opt_minix_df"
      "fst (match_token lib ''grpid'' tokens) = Opt_grpid"
      "fst (match_token lib ''nogrpid'' tokens) = Opt_nogrpid"
      "fst (match_token lib ''errors=remount-ro'' tokens) = Opt_err_ro"
      "fst (match_token lib ''errors=continue'' tokens) = Opt_err_cont"
      "fst (match_token lib ''errors=panic'' tokens) = Opt_err_panic"
      "fst (match_token lib ''nouid32'' tokens) = Opt_nouid32"
      "fst (match_token lib ''debug'' tokens) = Opt_debug"
      "fst (match_token lib ''oldalloc'' tokens) = Opt_oldalloc"
      "fst (match_token lib ''user_xattr'' tokens) = Opt_user_xattr"
      "fst (match_token lib ''nouser_xattr'' tokens) = Opt_nouser_xattr"
      "fst (match_token lib ''acl'' tokens) = Opt_acl"
      "fst (match_token lib ''noacl'' tokens) = Opt_noacl"
      "fst (match_token lib ''nobh'' tokens) = Opt_nobh"
      "fst (match_token lib ''usrquota'' tokens) = Opt_usrquota"
      "fst (match_token lib ''grpquota'' tokens) = Opt_grpquota"
      "fst (match_token lib ''xip'' tokens) = Opt_xip"
      "fst (match_token lib ''noreservation'' tokens) = Opt_noreservation"
    by (rule parse_literal [OF lib]; simp add: tokens_def)+
  have num: "fst (match_token lib (''sb='' @ dec sb_block) tokens) = Opt_sb"
    "match_token lib (''resuid='' @ dec n) tokens = (Opt_resuid, [dec n])" "match_token lib (''resgid='' @ dec n) tokens = (Opt_resgid, [dec n])"
    "match_int lib (dec (unat (o_resuid sbi))) = Some (uint (o_resuid sbi))" "match_int lib (dec (unat (o_resgid sbi))) = Some (uint (o_resgid sbi))" for n
    using lib r by (simp_all add: lib_ok_def)
  note [simp] = num [simplified]
  show ?thesis
    unfolding effects_def shown_options_def Let_def
    by (simp add: parse_option_def case_prod_unfold Let_def)
qed

lemma effects_restore:
  assumes ok: "options_ok cfg es sbi"
  shows "fold (\<lambda>(c, f). doif c f) (effects cfg es sb_block sbi) (default_options cfg es no_options) = sbi" (is "?r = _")
proof -
  have b: "bit (o_mount_opt ?r) n \<longleftrightarrow> bit (o_mount_opt sbi) n" for n
  proof (cases "n \<in> known_flags")
    case False
    then have "\<not> bit (o_mount_opt sbi) n" using ok by (auto simp: options_ok_def)
    moreover have "n \<noteq> 1" "n \<noteq> 2" "n \<noteq> 3" "n \<noteq> 4" "n \<noteq> 5" "n \<noteq> 6" "n \<noteq> 7" "n \<noteq> 8" "n \<noteq> 9" "n \<noteq> 14" "n \<noteq> 15" "n \<noteq> 16" "n \<noteq> 17" "n \<noteq> 18" "n \<noteq> 19"
      using False by (auto simp: known_flags_def)
    ultimately show ?thesis by (simp add: effects_def shown_options_def Let_def flag_simps)
  next
    case True
    have "flags_ok cfg es (bit (o_mount_opt sbi))" using ok by (simp add: options_ok_def)
    then show ?thesis using True unfolding known_flags_def flags_ok_def
      by (elim insertE emptyE; simp add: effects_def shown_options_def Let_def flag_simps; blast)
  qed
  then have "o_mount_opt ?r = o_mount_opt sbi" by (intro bit_word_eqI) blast
  moreover have "o_resuid ?r = o_resuid sbi" "o_resgid ?r = o_resgid sbi"
    by (simp_all add: effects_def shown_options_def Let_def)
  ultimately show ?thesis by (intro ext2_mount_options.equality) simp_all
qed

text \<open>The options after the first, which is the block of the superblock.\<close>

lemma shown_rest:
  "shown_options cfg es sb_block sbi = (sb_block \<noteq> 1, ''sb='' @ dec sb_block) # tl (shown_options cfg es sb_block sbi)"
  by (simp add: shown_options_def Let_def)

lemma shown_names: "\<forall>(c, s) \<in> set (tl (shown_options cfg es sb_block sbi)). 3 \<le> length s \<and> take 3 s \<noteq> ''sb=''"
  by (simp add: shown_options_def Let_def numeral_3_eq_3)

lemma shown_no_sb:
  assumes "\<forall>(c, s) \<in> set ps. 3 \<le> length s \<and> take 3 s \<noteq> ''sb=''"
  shows "take 3 (drop 1 (concat (map seq_puts ps))) \<noteq> ''sb=''"
  using assms
proof (induction ps)
  case (Cons p ps)
  then show ?case by (cases p) (auto simp: seq_puts_def)
qed simp

lemma shown_starts: "concat (map seq_puts ps) = [] \<or> hd (concat (map seq_puts ps)) = CHR '',''"
proof (induction ps)
  case (Cons p ps)
  then show ?case by (cases p; cases "fst p") (simp_all add: seq_puts_def)
qed simp

lemma parse_drop_comma:
  assumes "s = [] \<or> hd s = CHR '',''"
  shows "parse_options cfg lib (Some (drop 1 s)) st = parse_options cfg lib (Some s) st"
  using assms by (cases s) (auto simp: parse_options_def)

lemma parse_rest:
  fixes sb_block :: nat
  assumes lib: "lib_ok lib" and ok: "options_ok cfg es sbi" and r: "unat (o_resuid sbi) < 2 ^ 31" "unat (o_resgid sbi) < 2 ^ 31"
  defines "rest \<equiv> concat (map seq_puts (tl (shown_options cfg es sb_block sbi)))"
  shows "parse_options cfg lib (Some (drop 1 rest)) (default_options cfg es no_options, k) = ((sbi, k), True)"
proof -
  let ?ps = "tl (shown_options cfg es sb_block sbi)" and ?acts = "tl (effects cfg es sb_block sbi)"
  have "list_all2 (\<lambda>(c, t) (c', f). c' = c \<and> t \<noteq> [] \<and> (c \<longrightarrow> (\<forall>op k. parse_option cfg lib t (op, k) = Some (f op, k)))) ?ps ?acts"
    using shown_effects [OF lib r, of cfg es sb_block] by (cases "shown_options cfg es sb_block sbi"; cases "effects cfg es sb_block sbi") auto
  from run_shown [OF this, of "default_options cfg es no_options" k]
  have "parse_loop cfg lib (map snd (filter fst ?ps)) (default_options cfg es no_options, k) =
      ((fold (\<lambda>(c, f). doif c f) ?acts (default_options cfg es no_options), k), True)" .
  moreover have "effects cfg es sb_block sbi = (sb_block \<noteq> 1, \<lambda>op. op) # ?acts"
    by (simp add: effects_def shown_options_def Let_def)
  from arg_cong [OF this, of "\<lambda>as. fold (\<lambda>(c, f). doif c f) as (default_options cfg es no_options)"]
  have "fold (\<lambda>(c, f). doif c f) (effects cfg es sb_block sbi) (default_options cfg es no_options) =
      fold (\<lambda>(c, f). doif c f) ?acts (default_options cfg es no_options)"
    by (simp only: fold_simps prod.case doif_id)
  moreover have "\<forall>(c, s) \<in> set ?ps. CHR '','' \<notin> set s"
    using shown_no_comma [of cfg es sb_block sbi] by (cases "shown_options cfg es sb_block sbi") auto
  ultimately show ?thesis
    using parse_drop_comma [OF shown_starts, of cfg lib ?ps] parse_shown [of ?ps] effects_restore [OF ok]
    by (simp add: rest_def)
qed

section \<open>Matching functions for examples\<close>

definition is_dec :: "char \<Rightarrow> bool" where
  "is_dec c \<longleftrightarrow> 48 \<le> (of_char c :: nat) \<and> (of_char c :: nat) \<le> 57"

definition is_hex :: "char \<Rightarrow> bool" where
  "is_hex c \<longleftrightarrow> is_dec c \<or> 97 \<le> (of_char c :: nat) \<and> (of_char c :: nat) \<le> 102"

definition dec_value :: "string \<Rightarrow> nat" where
  "dec_value = foldl (\<lambda>n c. 10 * n + (of_char c - 48)) 0"

definition fits :: "string \<Rightarrow> opt_token \<times> string option \<Rightarrow> bool" where
  "fits p = (\<lambda>(t, q). case q of
       None \<Rightarrow> True
     | Some q \<Rightarrow>
         let pre = takeWhile (\<lambda>c. c \<noteq> CHR ''%'') q; arg = drop (length pre) p
         in if pre = q then p = q
            else take (length pre) p = pre \<and> arg \<noteq> [] \<and> list_all (if last q = CHR ''x'' then is_hex else is_dec) arg)"

definition match_ex :: "string \<Rightarrow> (opt_token \<times> string option) list \<Rightarrow> opt_token \<times> string list" where
  "match_ex p table =
     (case List.find (fits p) table of
        Some (t, Some q) \<Rightarrow> (t, [drop (length (takeWhile (\<lambda>c. c \<noteq> CHR ''%'') q)) p])
      | _ \<Rightarrow> (Opt_err, []))"

definition lib_ex :: opt_lib where
  "lib_ex = \<lparr>match_token = match_ex,
     match_int = \<lambda>s. if s \<noteq> [] \<and> list_all is_dec s then Some (int (dec_value s)) else None,
     simple_strtoul = \<lambda>s. (dec_value (takeWhile is_dec s), dropWhile is_dec s)\<rparr>"

lemma dec_value_dec [simp]: "dec_value (dec n) = n"
proof (induction n rule: dec.induct)
  case (1 n)
  show ?case
  proof (cases "n < 10")
    case True
    then show ?thesis by (subst dec.simps) (simp add: dec_value_def)
  next
    case False
    then have "dec_value (dec (n div 10)) = n div 10" using 1 by blast
    then show ?thesis using False by (subst dec.simps) (simp add: dec_value_def)
  qed
qed

lemma dec_is_dec [simp]: "list_all is_dec (dec n)"
  using dec_digits by (auto simp: list_all_iff is_dec_def)

lemma dec_not_Nil [simp]: "dec n \<noteq> []"
  by (subst dec.simps) simp

lemma lib_ex_ok: "lib_ok lib_ex"
proof -
  have lit: "\<forall>(t, p) \<in> set tokens. case p of None \<Rightarrow> True | Some q \<Rightarrow> CHR ''%'' \<in> set q \<or> fst (match_token lib_ex q tokens) = t"
    by code_simp
  have "fst (match_ex (''sb='' @ dec n) tokens) = Opt_sb" "match_ex (''resuid='' @ dec n) tokens = (Opt_resuid, [dec n])"
    "match_ex (''resgid='' @ dec n) tokens = (Opt_resgid, [dec n])" for n
    by (simp_all add: match_ex_def fits_def tokens_def)
  moreover have "takeWhile is_dec (dec n @ s) = dec n \<and> dropWhile is_dec (dec n @ s) = s" if "s = [] \<or> hd s = CHR '',''" for n s
  proof -
    have "\<not> is_dec (CHR '','')" by (simp add: is_dec_def)
    then have "takeWhile is_dec s = []" "dropWhile is_dec s = s" using that by (cases s; auto)+
    then show ?thesis using dec_is_dec [of n] by (auto simp: list_all_iff takeWhile_append2 dropWhile_append2)
  qed
  ultimately show ?thesis unfolding lib_ok_def by (intro conjI, intro lit) (simp_all add: lib_ex_def)
qed

section \<open>Properties\<close>

text \<open>C27: The options that \<open>ext2_show_options\<close> prints for a mounted file system, given to a new mount of it,
  lead to the same options: the block of the superblock (an \<open>unsigned long\<close>), all flags and the reserved user and group. Only
  the encryption key is not among them: it stays what it was.\<close>

theorem options_roundtrip:
  assumes "lib_ok lib" and "parse_options cfg lib data (default_options cfg es no_options, k) = ((sbi, k'), True)"
    and "unat (o_resuid sbi) < 2 ^ 31" and "unat (o_resgid sbi) < 2 ^ 31" and "sb_block < 2 ^ 64"
  shows "\<exists>rest. get_sb_block lib (Some (drop 1 (ext2_show_options cfg es sb_block sbi))) = (sb_block, Some rest) \<and>
      parse_options cfg lib (Some rest) (default_options cfg es no_options, k2) = ((sbi, k2), True)"
proof -
  define ps where "ps = tl (shown_options cfg es sb_block sbi)"
  define rest where "rest = concat (map seq_puts ps)"
  have "options_ok cfg es sbi" using parse_options_ok [OF default_ok assms(2)] .
  from parse_rest [OF assms(1) this assms(3,4), of sb_block k2, folded ps_def rest_def]
  have p: "parse_options cfg lib (Some (drop 1 rest)) (default_options cfg es no_options, k2) = ((sbi, k2), True)" .
  have s: "ext2_show_options cfg es sb_block sbi = seq_puts (sb_block \<noteq> 1, ''sb='' @ dec sb_block) @ rest"
    unfolding ext2_show_options_def rest_def ps_def by (subst shown_rest) simp
  have h: "rest = [] \<or> hd rest = CHR '',''" unfolding rest_def by (rule shown_starts)
  have "get_sb_block lib (Some (drop 1 (ext2_show_options cfg es sb_block sbi))) = (sb_block, Some (drop 1 rest))"
  proof (cases "sb_block = 1")
    case True
    moreover have "take 3 (drop 1 rest) \<noteq> ''sb=''"
      unfolding rest_def ps_def by (rule shown_no_sb [OF shown_names])
    ultimately show ?thesis using s by (simp add: get_sb_block_def seq_puts_def)
  next
    case False
    have "simple_strtoul lib (dec sb_block @ rest) = (sb_block, rest)" using assms(1,5) h unfolding lib_ok_def by blast
    then show ?thesis using False s h by (cases rest) (simp_all add: get_sb_block_def seq_puts_def numeral_3_eq_3)
  qed
  then show ?thesis using p by blast
qed

definition es_ex :: ext2_super_block where
  "es_ex = \<lparr>d_inodes_count = 32, d_blocks_count = 64, d_r_blocks_count = 2, d_free_blocks_count = 40, d_free_inodes_count = 20,
     d_first_data_block = 1, d_log_block_size = 0, d_log_frag_size = 0, d_blocks_per_group = 64, d_frags_per_group = 64,
     d_inodes_per_group = 32, d_mtime = 0, d_wtime = 0, d_mnt_count = 3, d_max_mnt_count = 20, d_magic = 0xEF53, d_state = 1,
     d_errors = 1, d_rev_level = 1, d_def_resuid = 0, d_def_resgid = 0, d_first_ino = 11, d_inode_size = 128,
     d_feature_compat = 0, d_feature_incompat = 2, d_feature_ro_compat = 1, d_uuid = (5, 7), d_default_mount_opts = 4,
     d_first_meta_bg = 0\<rparr>"

definition cfg_ex :: config where
  "cfg_ex = \<lparr>CONFIG_EXT2_FS_XATTR = True, CONFIG_EXT2_FS_POSIX_ACL = True, CONFIG_EXT2_FS_XIP = False, CONFIG_QUOTA = False\<rparr>"

definition opts_ex :: ext2_mount_options where
  "opts_ex = fst (fst (parse_options cfg_ex lib_ex (Some ''grpid,nouser_xattr,resuid=12,errors=panic,key=171'')
     (default_options cfg_ex es_ex no_options, 0)))"

lemma opts_ex_parsed:
  "parse_options cfg_ex lib_ex (Some ''grpid,nouser_xattr,resuid=12,errors=panic,key=171'') (default_options cfg_ex es_ex no_options, 0) =
     ((opts_ex, 171), True)"
  by code_simp

lemma opts_ex_ids: "o_resuid opts_ex = 12" "o_resgid opts_ex = 0"
  by code_simp+

theorem options_roundtrip_witness:
  "ext2_show_options cfg_ex es_ex 8 opts_ex = '',sb=8,grpid,resuid=12,errors=panic,nouser_xattr'' \<and>
   (\<exists>rest. get_sb_block lib_ex (Some ''sb=8,grpid,resuid=12,errors=panic,nouser_xattr'') = (8, Some rest) \<and>
      parse_options cfg_ex lib_ex (Some rest) (default_options cfg_ex es_ex no_options, 0) = ((opts_ex, 0), True))"
proof -
  have s: "ext2_show_options cfg_ex es_ex 8 opts_ex = '',sb=8,grpid,resuid=12,errors=panic,nouser_xattr''" by code_simp
  from options_roundtrip [OF lib_ex_ok opts_ex_parsed, of 8 0] show ?thesis unfolding s opts_ex_ids by (simp add: opts_ex_ids)
qed

text \<open>The pattern \<open>key=%x\<close> admits hexadecimal numbers, but the number is read with \<open>match_int\<close>: one with a letter
  is refused, and one without is taken as decimal.\<close>

lemma hex_key_refused:
  "snd (parse_options cfg_ex lib_ex (Some ''key=ab'') (no_options, 0)) = False \<and>
   parse_options cfg_ex lib_ex (Some ''key=10'') (no_options, 0) = ((no_options, 10), True)"
  by code_simp

end
