(* ===== verification/Ext2_Super.thy ===== *)
theory Ext2_Super
  imports Ext2_Options Ext2_Blocks
begin

text \<open>
  Mounting, a3/super.c: \<open>ext2_fill_super\<close> reads and checks the superblock and the group descriptors and sets
  up the file system the other theories work on; \<open>ext2_remount\<close>, \<open>ext2_put_super\<close>, \<open>ext2_statfs\<close>, the writing
  of the superblock and \<open>ext2_error\<close>. One record, \<open>ext2_mount\<close>, holds the fields of \<open>struct super_block\<close> and
  \<open>struct ext2_sb_info\<close>, the superblock \<open>s_es\<close> in its buffer, that buffer as it was last written to the disk
  with \<open>sync_dirty_buffer\<close>, and the global \<open>key\<close>. An \<open>unsigned long\<close> has 64 bits. The device (setting the size of its blocks,
  reading them), memory, clock and inode cache are arguments, in \<open>mnt_env\<close>. A result is the state and an error number, if
  any; \<open>None\<close> is a panic.
\<close>

section \<open>State\<close>

record group_desc =
  gd_block_bitmap :: "32 word"
  gd_inode_bitmap :: "32 word"
  gd_inode_table :: "32 word"
  gd_counts :: ext2_group_desc

record ext2_mount =
  sb_flags :: "64 word"
  sb_magic :: "16 word"
  sb_blocksize :: nat
  sb_blocksize_bits :: nat
  sb_maxbytes :: int
  sb_dirt :: bool
  si_opts :: ext2_mount_options
  si_sb_block :: nat
  si_es :: ext2_super_block
  si_written :: ext2_super_block
  si_inode_size :: nat
  si_first_ino :: nat
  si_frag_size :: nat
  si_frags_per_block :: nat
  si_blocks_per_group :: nat
  si_frags_per_group :: nat
  si_inodes_per_group :: nat
  si_inodes_per_block :: nat
  si_itb_per_group :: nat
  si_desc_per_block :: nat
  si_desc_per_block_bits :: nat
  si_addr_per_block_bits :: nat
  si_groups_count :: nat
  si_gdb_count :: nat
  si_mount_state :: "16 word"
  si_overhead_last :: nat
  si_blocks_last :: nat
  si_group_desc :: "nat \<Rightarrow> (nat \<Rightarrow> group_desc) option"
  si_next_generation :: "32 word"
  si_rsv :: rsv_state
  si_freeblocks_counter :: int
  si_freeinodes_counter :: int
  si_dirs_counter :: int
  si_bbitmap :: "nat \<Rightarrow> nat \<Rightarrow> bool"
  si_ibitmap :: "nat \<Rightarrow> nat \<Rightarrow> bool"
  si_raw :: "nat \<Rightarrow> nat \<Rightarrow> ext2_inode"
  g_key :: int

text \<open>The environment of a mount. \<open>me_min_blocksize\<close>: the block size \<open>sb_min_blocksize\<close> sets, 0 for failure;
  \<open>me_read_super bs b off\<close>: the superblock at byte \<open>off\<close> of block \<open>b\<close>, with blocks of size \<open>bs\<close>;
  \<open>me_read_desc b\<close>: the group descriptors in block \<open>b\<close>.\<close>

record mnt_env =
  me_mem_sbi :: bool
  me_mem_lock :: bool
  me_mem_desc :: bool
  me_mem_debts :: bool
  me_mem_counters :: bool
  me_min_blocksize :: nat
  me_set_blocksize :: "nat \<Rightarrow> bool"
  me_read_super :: "nat \<Rightarrow> nat \<Rightarrow> (nat \<Rightarrow> ext2_super_block) option"
  me_read_desc :: "nat \<Rightarrow> (nat \<Rightarrow> group_desc) option"
  me_direct_access :: bool
  me_max_lfs :: int
  me_generation :: "32 word"
  me_rb :: rb_lib
  me_dev :: dev_enc
  me_rd :: "nat \<Rightarrow> bool"
  me_iget :: "nat \<Rightarrow> (ext2_inode_info \<times> bool) option"
  me_root :: bool
  me_now :: "32 word"

abbreviation BLOCK_SIZE :: nat where "BLOCK_SIZE \<equiv> 1024"
abbreviation PAGE_SIZE :: nat where "PAGE_SIZE \<equiv> 4096"
abbreviation MS_RDONLY :: "64 word" where "MS_RDONLY \<equiv> BIT 0"
abbreviation MS_POSIXACL :: "64 word" where "MS_POSIXACL \<equiv> BIT 16"
abbreviation EXT2_SUPER_MAGIC :: "16 word" where "EXT2_SUPER_MAGIC \<equiv> 0xEF53"
abbreviation EXT2_VALID_FS :: "16 word" where "EXT2_VALID_FS \<equiv> BIT 0"
abbreviation EXT2_ERROR_FS :: "16 word" where "EXT2_ERROR_FS \<equiv> BIT 1"
abbreviation EXT2_MAX_SUPP_REV :: "32 word" where "EXT2_MAX_SUPP_REV \<equiv> 1"
abbreviation EXT2_DFL_MAX_MNT_COUNT :: "16 word" where "EXT2_DFL_MAX_MNT_COUNT \<equiv> 20"
abbreviation EXT2_FEATURE_INCOMPAT_META_BG :: "32 word" where "EXT2_FEATURE_INCOMPAT_META_BG \<equiv> BIT 4"
abbreviation EXT2_FEATURE_INCOMPAT_SUPP :: "32 word" where "EXT2_FEATURE_INCOMPAT_SUPP \<equiv> 0x12"
abbreviation EXT2_FEATURE_RO_COMPAT_SPARSE_SUPER :: "32 word" where "EXT2_FEATURE_RO_COMPAT_SPARSE_SUPER \<equiv> BIT 0"
abbreviation EXT2_FEATURE_RO_COMPAT_LARGE_FILE :: "32 word" where "EXT2_FEATURE_RO_COMPAT_LARGE_FILE \<equiv> BIT 1"
abbreviation EXT2_FEATURE_RO_COMPAT_SUPP :: "32 word" where "EXT2_FEATURE_RO_COMPAT_SUPP \<equiv> 0x7"

section \<open>The file system the other theories see\<close>

definition desc_of :: "ext2_mount \<Rightarrow> nat \<Rightarrow> group_desc" where
  "desc_of m g = the (si_group_desc m (drop_bit (si_desc_per_block_bits m) g)) (g mod si_desc_per_block m)"

definition info_of :: "ext2_mount \<Rightarrow> ext2_sb_info" where
  "info_of m = \<lparr>s_groups_count = si_groups_count m, s_inodes_per_group = si_inodes_per_group m,
     s_blocks_per_group = si_blocks_per_group m, s_first_ino = si_first_ino m, s_max_ino = unat (d_inodes_count (si_es m)),
     s_blocks_count = unat (d_blocks_count (si_es m)), s_root_ino = EXT2_ROOT_INO,
     s_oldalloc = test_opt (si_opts m) EXT2_MOUNT_OLDALLOC, s_grpid = test_opt (si_opts m) EXT2_MOUNT_GRPID,
     s_desc_per_block_bits = si_desc_per_block_bits m, s_group_desc_loaded = (\<lambda>i. si_group_desc m i \<noteq> None),
     s_desc = (\<lambda>g. gd_counts (desc_of m g)), s_ibitmap = si_ibitmap m, s_debts = (\<lambda>_. 0),
     s_freeinodes_counter = si_freeinodes_counter m, s_dirs_counter = si_dirs_counter m,
     s_next_generation = si_next_generation m, s_dirt = sb_dirt m\<rparr>"

definition balloc_of :: "ext2_mount \<Rightarrow> balloc" where
  "balloc_of m = \<lparr>bs_sbi = info_of m, s_first_data_block = unat (d_first_data_block (si_es m)),
     s_itb_per_group = si_itb_per_group m, bg_block_bitmap = (\<lambda>g. unat (gd_block_bitmap (desc_of m g))),
     bg_inode_bitmap = (\<lambda>g. unat (gd_inode_bitmap (desc_of m g))), bg_inode_table = (\<lambda>g. unat (gd_inode_table (desc_of m g))),
     s_bbitmap = si_bbitmap m, s_freeblocks_counter = si_freeblocks_counter m, bs_rsv = si_rsv m\<rparr>"

definition inode_sb_of :: "ext2_mount \<Rightarrow> inode_sb" where
  "inode_sb_of m = \<lparr>it_sbi = info_of m, it_inode_size = si_inode_size m, it_block_bits = sb_blocksize_bits m,
     it_table = (\<lambda>g. unat (gd_inode_table (desc_of m g))), it_no_uid32 = test_opt (si_opts m) EXT2_MOUNT_NO_UID32,
     it_nobh = test_opt (si_opts m) EXT2_MOUNT_NOBH, it_xip = test_opt (si_opts m) EXT2_MOUNT_XIP,
     es_rev_level = d_rev_level (si_es m), es_first_ino = d_first_ino (si_es m), es_inode_size = d_inode_size (si_es m),
     es_large_file = has (d_feature_ro_compat (si_es m)) EXT2_FEATURE_RO_COMPAT_LARGE_FILE, it_raw = si_raw m\<rparr>"

section \<open>Writing the superblock\<close>

definition with_counts :: "ext2_mount \<Rightarrow> ext2_super_block \<Rightarrow> ext2_super_block" where
  "with_counts m es = es\<lparr>d_free_blocks_count := of_nat (ext2_count_free_blocks (info_of m)),
     d_free_inodes_count := of_nat (ext2_count_free_inodes (info_of m))\<rparr>"

definition ext2_commit_super :: "32 word \<Rightarrow> ext2_mount \<Rightarrow> ext2_mount" where
  "ext2_commit_super now m = m\<lparr>si_es := (si_es m)\<lparr>d_wtime := now\<rparr>, sb_dirt := False\<rparr>"

definition ext2_sync_super :: "32 word \<Rightarrow> ext2_mount \<Rightarrow> ext2_mount" where
  "ext2_sync_super now m =
     (let es = (with_counts m (si_es m))\<lparr>d_wtime := now\<rparr>
      in m\<lparr>si_es := es, si_written := es, sb_dirt := False\<rparr>)"

definition ext2_sync_fs :: "32 word \<Rightarrow> ext2_mount \<Rightarrow> ext2_mount" where
  "ext2_sync_fs now m =
     (let es = si_es m;
          m = (if has (d_state es) EXT2_VALID_FS
               then
                 let es = es\<lparr>d_state := and (d_state es) (not EXT2_VALID_FS)\<rparr>;
                     es = (with_counts m es)\<lparr>d_mtime := now\<rparr>
                 in ext2_sync_super now (m\<lparr>si_es := es\<rparr>)
               else ext2_commit_super now m)
      in m\<lparr>sb_dirt := False\<rparr>)"

definition ext2_write_super :: "32 word \<Rightarrow> ext2_mount \<Rightarrow> ext2_mount" where
  "ext2_write_super now m =
     (if \<not> has (sb_flags m) MS_RDONLY then ext2_sync_fs now m else m\<lparr>sb_dirt := False\<rparr>)"

definition ext2_error :: "32 word \<Rightarrow> ext2_mount \<Rightarrow> ext2_mount option" where
  "ext2_error now m =
     (let m = (if \<not> has (sb_flags m) MS_RDONLY
               then
                 ext2_sync_super now
                   (m\<lparr>si_mount_state := or (si_mount_state m) EXT2_ERROR_FS,
                      si_es := (si_es m)\<lparr>d_state := or (d_state (si_es m)) EXT2_ERROR_FS\<rparr>\<rparr>)
               else m)
      in if test_opt (si_opts m) EXT2_MOUNT_ERRORS_PANIC then None
         else if test_opt (si_opts m) EXT2_MOUNT_ERRORS_RO then Some (m\<lparr>sb_flags := or (sb_flags m) MS_RDONLY\<rparr>)
         else Some m)"

text \<open>The last superblock \<open>ext2_put_super\<close> leaves on the disk; the rest of the state is freed.\<close>

definition ext2_put_super :: "32 word \<Rightarrow> ext2_mount \<Rightarrow> ext2_mount" where
  "ext2_put_super now m =
     (let m = (if sb_dirt m then ext2_write_super now m else m)
      in if \<not> has (sb_flags m) MS_RDONLY
         then ext2_sync_super now (m\<lparr>si_es := (si_es m)\<lparr>d_state := si_mount_state m\<rparr>\<rparr>)
         else m)"

text \<open>The warnings of \<open>ext2_setup_super\<close> are left out; the result tells whether the file system has to stay
  read-only.\<close>

definition ext2_setup_super :: "32 word \<Rightarrow> ext2_mount \<Rightarrow> bool \<Rightarrow> ext2_mount \<times> bool" where
  "ext2_setup_super now m read_only =
     (let es = si_es m;
          res = d_rev_level es > EXT2_MAX_SUPP_REV
      in if read_only then (m, res)
         else
           let es = (if d_max_mnt_count es = 0 then es\<lparr>d_max_mnt_count := EXT2_DFL_MAX_MNT_COUNT\<rparr> else es);
               es = es\<lparr>d_mnt_count := d_mnt_count es + 1\<rparr>
           in (ext2_write_super now (m\<lparr>si_es := es\<rparr>), res))"

section \<open>Limits and places\<close>

text \<open>\<open>ilog2\<close> of the kernel.\<close>

fun ilog2 :: "nat \<Rightarrow> nat" where
  "ilog2 n = (if n < 2 then 0 else Suc (ilog2 (n div 2)))"

declare ilog2.simps [simp del]

text \<open>The largest file: \<open>MAX_LFS_FILESIZE\<close> is \<open>max_lfs\<close>.\<close>

definition ext2_max_size :: "int \<Rightarrow> nat \<Rightarrow> int" where
  "ext2_max_size max_lfs bits =
     (let upper_limit = drop_bit (bits - 9) (2 ^ 32 - 1);
          meta_blocks = 1;
          meta_blocks = meta_blocks + 1 + 2 ^ (bits - 2);
          meta_blocks = meta_blocks + 1 + 2 ^ (bits - 2) + 2 ^ (2 * (bits - 2));
          upper_limit = push_bit bits (upper_limit - meta_blocks);
          res = 12 + 2 ^ (bits - 2) + 2 ^ (2 * (bits - 2)) + 2 ^ (3 * (bits - 2));
          res = push_bit bits res;
          res = (if res > upper_limit then upper_limit else res)
      in if res > max_lfs then max_lfs else res)"

definition descriptor_loc :: "ext2_mount \<Rightarrow> nat \<Rightarrow> nat \<Rightarrow> nat option" where
  "descriptor_loc m logic_sb_block nr =
     (let first_meta_bg = unat (d_first_meta_bg (si_es m))
      in if \<not> has (d_feature_incompat (si_es m)) EXT2_FEATURE_INCOMPAT_META_BG \<or> nr < first_meta_bg
         then Some (logic_sb_block + nr + 1)
         else
           let bg = si_desc_per_block m * nr
           in do {
             s \<leftarrow> ext2_bg_has_super (has (d_feature_ro_compat (si_es m)) EXT2_FEATURE_RO_COMPAT_SPARSE_SUPER) (int bg);
             Some (ext2_group_first_block_no (balloc_of m) bg + (if s \<noteq> 0 then 1 else 0))
           })"

text \<open>A group whose bitmaps or inode table are out of its blocks. \<open>ulong\<close> reduces to the width of an
  \<open>unsigned long\<close>.\<close>

definition ulong :: "int \<Rightarrow> nat" where
  "ulong x = nat (x mod 2 ^ 64)"

definition last_block_of :: "ext2_mount \<Rightarrow> nat \<Rightarrow> nat" where
  "last_block_of m i =
     (if i = si_groups_count m - 1 then unat (d_blocks_count (si_es m) - 1)
      else ext2_group_first_block_no (balloc_of m) i + (si_blocks_per_group m - 1))"

definition bad_group :: "ext2_mount \<Rightarrow> nat \<Rightarrow> bool" where
  "bad_group m i =
     (let gdp = desc_of m i;
          first_block = ext2_group_first_block_no (balloc_of m) i;
          last_block = last_block_of m i
      in if unat (gd_block_bitmap gdp) < first_block \<or> unat (gd_block_bitmap gdp) > last_block then True
         else if unat (gd_inode_bitmap gdp) < first_block \<or> unat (gd_inode_bitmap gdp) > last_block then True
         else unat (gd_inode_table gdp) < first_block \<or>
              ulong (int (unat (gd_inode_table gdp)) + int (si_itb_per_group m) - 1) > last_block)"

fun check_groups :: "32 word \<Rightarrow> ext2_mount \<Rightarrow> nat list \<Rightarrow> (ext2_mount \<times> bool) option" where
  "check_groups now m [] = Some (m, True)"
| "check_groups now m (i # is) =
     (if bad_group m i then do { m \<leftarrow> ext2_error now m; Some (m, False) } else check_groups now m is)"

definition ext2_check_descriptors :: "32 word \<Rightarrow> ext2_mount \<Rightarrow> (ext2_mount \<times> bool) option" where
  "ext2_check_descriptors now m = check_groups now m [0..<si_groups_count m]"

section \<open>Mounting\<close>

text \<open>A step of \<open>ext2_fill_super\<close> and the one behind it; after an error nothing more is done.\<close>

type_synonym mount_res = "(ext2_mount \<times> errno option) option"

definition and_then :: "mount_res \<Rightarrow> (ext2_mount \<Rightarrow> mount_res) \<Rightarrow> mount_res" where
  "and_then r f = (case r of Some (m, None) \<Rightarrow> f m | _ \<Rightarrow> r)"

definition guard :: "bool \<Rightarrow> ext2_mount \<Rightarrow> mount_res" where
  "guard c m = Some (m, if c then None else Some EINVAL)"

definition set_blocksize :: "nat \<Rightarrow> ext2_mount \<Rightarrow> ext2_mount" where
  "set_blocksize bs m = m\<lparr>sb_blocksize := bs, sb_blocksize_bits := ilog2 bs\<rparr>"

text \<open>The block that holds the superblock, and the superblock in it.\<close>

definition logic_block :: "nat \<Rightarrow> nat \<Rightarrow> nat \<times> nat" where
  "logic_block sb_block blocksize =
     (if blocksize \<noteq> BLOCK_SIZE then (sb_block * BLOCK_SIZE div blocksize, sb_block * BLOCK_SIZE mod blocksize) else (sb_block, 0))"

definition read_super :: "mnt_env \<Rightarrow> ext2_mount \<Rightarrow> mount_res" where
  "read_super e m =
     (let (logic_sb_block, offset) = logic_block (si_sb_block m) (sb_blocksize m)
      in case me_read_super e (sb_blocksize m) logic_sb_block of
           None \<Rightarrow> Some (m, Some EINVAL)
         | Some b \<Rightarrow> Some (m\<lparr>si_es := b offset, si_written := b offset\<rparr>, None))"

definition set_posixacl :: "ext2_mount \<Rightarrow> ext2_mount" where
  "set_posixacl m =
     m\<lparr>sb_flags := or (and (sb_flags m) (not MS_POSIXACL)) (if test_opt (si_opts m) EXT2_MOUNT_POSIX_ACL then MS_POSIXACL else 0)\<rparr>"

text \<open>\<open>ext2_xip_verify_sb\<close> and \<open>ext2_use_xip\<close> of xip.c and xip.h.\<close>

definition ext2_xip_verify_sb :: "config \<Rightarrow> bool \<Rightarrow> ext2_mount \<Rightarrow> ext2_mount" where
  "ext2_xip_verify_sb cfg direct_access m =
     (if CONFIG_EXT2_FS_XIP cfg \<and> test_opt (si_opts m) EXT2_MOUNT_XIP \<and> \<not> direct_access
      then m\<lparr>si_opts := clear_opt EXT2_MOUNT_XIP (si_opts m)\<rparr> else m)"

definition ext2_use_xip :: "config \<Rightarrow> ext2_mount \<Rightarrow> bool" where
  "ext2_use_xip cfg m \<longleftrightarrow> CONFIG_EXT2_FS_XIP cfg \<and> test_opt (si_opts m) EXT2_MOUNT_XIP"

text \<open>The magic number, the options, the features.\<close>

definition fill_options :: "config \<Rightarrow> opt_lib \<Rightarrow> mnt_env \<Rightarrow> string option \<Rightarrow> ext2_mount \<Rightarrow> mount_res" where
  "fill_options cfg lib e data m =
     (let m = m\<lparr>sb_magic := d_magic (si_es m)\<rparr>
      in if sb_magic m \<noteq> EXT2_SUPER_MAGIC then Some (m, Some EINVAL)
         else
           let ((op, key), ok) = parse_options cfg lib data (default_options cfg (si_es m) (si_opts m), g_key m);
               m = m\<lparr>si_opts := op, g_key := key\<rparr>
           in if \<not> ok then Some (m, Some EINVAL)
              else
                let m = ext2_xip_verify_sb cfg (me_direct_access e) (set_posixacl m)
                in guard (and (d_feature_incompat (si_es m)) (not EXT2_FEATURE_INCOMPAT_SUPP) = 0 \<and>
                     (has (sb_flags m) MS_RDONLY \<or> and (d_feature_ro_compat (si_es m)) (not EXT2_FEATURE_RO_COMPAT_SUPP) = 0)) m)"

text \<open>\<open>BLOCK_SIZE << s_log_block_size\<close>; the shift past the width of an \<open>int\<close> gives 0.\<close>

definition shifted_size :: "32 word \<Rightarrow> nat" where
  "shifted_size n = unat (push_bit (unat n) 1024 :: 32 word)"

definition fill_blocksize :: "config \<Rightarrow> mnt_env \<Rightarrow> ext2_mount \<Rightarrow> mount_res" where
  "fill_blocksize cfg e m =
     (let blocksize = shifted_size (d_log_block_size (si_es m))
      in if ext2_use_xip cfg m \<and> blocksize \<noteq> PAGE_SIZE then Some (m, Some EINVAL)
         else if sb_blocksize m = blocksize then Some (m, None)
         else if \<not> me_set_blocksize e blocksize then Some (m, Some EINVAL)
         else and_then (read_super e (set_blocksize blocksize m))
                (\<lambda>m. guard (d_magic (si_es m) = EXT2_SUPER_MAGIC) m))"

definition is_power_of_2 :: "nat \<Rightarrow> bool" where
  "is_power_of_2 n \<longleftrightarrow> n \<noteq> 0 \<and> 2 ^ ilog2 n = n"

text \<open>Sizes of inodes and fragments.\<close>

definition fill_sizes :: "mnt_env \<Rightarrow> ext2_mount \<Rightarrow> mount_res" where
  "fill_sizes e m =
     (let es = si_es m;
          m = m\<lparr>sb_maxbytes := ext2_max_size (me_max_lfs e) (sb_blocksize_bits m)\<rparr>;
          old = (d_rev_level es = 0);
          m = m\<lparr>si_inode_size := (if old then 128 else unat (d_inode_size es)),
                si_first_ino := (if old then 11 else unat (d_first_ino es))\<rparr>
      in if \<not> old \<and> (si_inode_size m < 128 \<or> \<not> is_power_of_2 (si_inode_size m) \<or> si_inode_size m > sb_blocksize m)
         then Some (m, Some EINVAL)
         else
           let m = m\<lparr>si_frag_size := shifted_size (d_log_frag_size es)\<rparr>
           in if si_frag_size m = 0 then Some (m, Some EINVAL)
              else
                let m = m\<lparr>si_frags_per_block := sb_blocksize m div si_frag_size m,
                      si_blocks_per_group := unat (d_blocks_per_group es), si_frags_per_group := unat (d_frags_per_group es),
                      si_inodes_per_group := unat (d_inodes_per_group es)\<rparr>
                in if si_inode_size m = 0 then Some (m, Some EINVAL)
                   else
                     let m = m\<lparr>si_inodes_per_block := sb_blocksize m div si_inode_size m\<rparr>
                     in guard (si_inodes_per_block m \<noteq> 0 \<and> si_inodes_per_group m \<noteq> 0) m)"

text \<open>Sizes of the tables, and the limits of a group: its bitmaps have one block each. A group descriptor
  has 32 bytes.\<close>

definition fill_geometry :: "ext2_mount \<Rightarrow> mount_res" where
  "fill_geometry m =
     (let es = si_es m;
          m = m\<lparr>si_itb_per_group := si_inodes_per_group m div si_inodes_per_block m,
                si_desc_per_block := sb_blocksize m div 32, si_mount_state := d_state es,
                si_addr_per_block_bits := ilog2 (sb_blocksize m div 4)\<rparr>;
          m = m\<lparr>si_desc_per_block_bits := ilog2 (si_desc_per_block m)\<rparr>
      in if sb_magic m \<noteq> EXT2_SUPER_MAGIC then Some (m, Some EINVAL)
         else if sb_blocksize m \<noteq> si_frag_size m then Some (m, Some EINVAL)
         else if si_blocks_per_group m > sb_blocksize m * 8 then Some (m, Some EINVAL)
         else if si_frags_per_group m > sb_blocksize m * 8 then Some (m, Some EINVAL)
         else if si_inodes_per_group m > sb_blocksize m * 8 then Some (m, Some EINVAL)
         else if si_blocks_per_group m = 0 then Some (m, Some EINVAL)
         else Some (m\<lparr>si_groups_count := unat (d_blocks_count es - d_first_data_block es - 1) div si_blocks_per_group m + 1\<rparr>, None))"

text \<open>The group descriptors.\<close>

fun read_descs :: "mnt_env \<Rightarrow> nat \<Rightarrow> nat list \<Rightarrow> ext2_mount \<Rightarrow> mount_res" where
  "read_descs e logic_sb_block [] m = Some (m, None)"
| "read_descs e logic_sb_block (i # is) m = do {
     block \<leftarrow> descriptor_loc m logic_sb_block i;
     case me_read_desc e block of
       None \<Rightarrow> Some (m, Some EINVAL)
     | Some d \<Rightarrow> read_descs e logic_sb_block is (m\<lparr>si_group_desc := (si_group_desc m)(i \<mapsto> d)\<rparr>)
   }"

definition fill_groups :: "mnt_env \<Rightarrow> ext2_mount \<Rightarrow> mount_res" where
  "fill_groups e m =
     (let db_count = (si_groups_count m + si_desc_per_block m - 1) div si_desc_per_block m
      in if \<not> me_mem_desc e \<or> \<not> me_mem_debts e then Some (m, Some EINVAL)
         else
           and_then (read_descs e (fst (logic_block (si_sb_block m) (sb_blocksize m))) [0..<db_count] (m\<lparr>si_group_desc := (\<lambda>_. None)\<rparr>))
             (\<lambda>m. case ext2_check_descriptors (me_now e) m of
                    None \<Rightarrow> None
                  | Some (m, ok) \<Rightarrow> if \<not> ok then Some (m, Some EINVAL) else Some (m\<lparr>si_gdb_count := db_count\<rparr>, None)))"

text \<open>The counters and the list of reservation windows with its head, window 0.\<close>

definition no_window :: rsv_node where
  "no_window = \<lparr>rsv_start = EXT2_RESERVE_WINDOW_NOT_ALLOCATED, rsv_end = EXT2_RESERVE_WINDOW_NOT_ALLOCATED,
     rsv_goal_size = 0, rsv_alloc_hit = 0, last_alloc_logical_block = 0, last_alloc_physical_block = 0\<rparr>"

definition fill_counters :: "mnt_env \<Rightarrow> ext2_mount \<Rightarrow> mount_res" where
  "fill_counters e m = do {
     rs \<leftarrow> ext2_rsv_window_add (me_rb e) \<lparr>wins = (\<lambda>_. no_window), rsv_root = Leaf\<rparr> 0;
     let m = m\<lparr>si_next_generation := me_generation e, si_rsv := rs\<rparr>;
     if \<not> me_mem_counters e then Some (m, Some EINVAL)
     else Some (m\<lparr>si_freeblocks_counter := int (ext2_count_free_blocks (info_of m)),
            si_freeinodes_counter := int (ext2_count_free_inodes (info_of m)), si_dirs_counter := int (ext2_count_dirs (info_of m))\<rparr>, None)
   }"

text \<open>The root directory.\<close>

definition fill_root :: "mnt_env \<Rightarrow> ext2_mount \<Rightarrow> mount_res" where
  "fill_root e m =
     (case ext2_iget (me_dev e) (me_rd e) (me_iget e) (inode_sb_of m) EXT2_ROOT_INO of
        Inl err \<Rightarrow> Some (m, Some err)
      | Inr root_inode \<Rightarrow>
          let i = vfs_inode root_inode
          in if \<not> S_ISDIR (i_mode i) \<or> i_blocks i = 0 \<or> i_size i = 0 then Some (m, Some EINVAL)
             else if \<not> me_root e then Some (m, Some ENOMEM)
             else Some (fst (ext2_setup_super (me_now e) m (has (sb_flags m) MS_RDONLY)), None))"

text \<open>\<open>sb\<close> is the superblock the kernel hands over: its flags, the key and the contents of the disk.\<close>

definition ext2_fill_super :: "config \<Rightarrow> opt_lib \<Rightarrow> mnt_env \<Rightarrow> ext2_mount \<Rightarrow> string option \<Rightarrow> mount_res" where
  "ext2_fill_super cfg lib e sb data =
     (let (sb_block, data) = get_sb_block lib data
      in if \<not> me_mem_sbi e \<or> \<not> me_mem_lock e then Some (sb, Some ENOMEM)
         else
           let m = sb\<lparr>si_opts := no_options, si_sb_block := sb_block, si_overhead_last := 0, si_blocks_last := 0\<rparr>
           in if me_min_blocksize e = 0 then Some (m, Some EINVAL)
              else
                and_then (and_then (and_then (and_then (and_then (and_then (and_then
                  (read_super e (set_blocksize (me_min_blocksize e) m))
                  (fill_options cfg lib e data))
                  (fill_blocksize cfg e))
                  (fill_sizes e))
                  fill_geometry)
                  (fill_groups e))
                  (fill_counters e))
                  (fill_root e))"

section \<open>Remounting, statistics, file handles\<close>

text \<open>\<open>busy\<close>: \<open>invalidate_inodes\<close> found inodes in use.\<close>

definition restore_opts :: "ext2_mount \<Rightarrow> ext2_mount \<Rightarrow> ext2_mount" where
  "restore_opts old m =
     m\<lparr>si_opts := (si_opts m)\<lparr>o_mount_opt := o_mount_opt (si_opts old), o_resuid := o_resuid (si_opts old),
          o_resgid := o_resgid (si_opts old)\<rparr>, sb_flags := sb_flags old\<rparr>"

definition refuse_xip :: "bool \<Rightarrow> ext2_mount \<Rightarrow> ext2_mount \<Rightarrow> ext2_mount" where
  "refuse_xip busy old m =
     (if test_opt (si_opts m) EXT2_MOUNT_XIP \<noteq> test_opt (si_opts old) EXT2_MOUNT_XIP \<and> busy
      then
        let op = clear_opt EXT2_MOUNT_XIP (si_opts m)
        in m\<lparr>si_opts := (if test_opt (si_opts old) EXT2_MOUNT_XIP then set_opt EXT2_MOUNT_XIP op else op)\<rparr>
      else m)"

definition ext2_remount :: "config \<Rightarrow> opt_lib \<Rightarrow> bool \<Rightarrow> bool \<Rightarrow> 32 word \<Rightarrow> ext2_mount \<Rightarrow> 64 word \<Rightarrow> string option \<Rightarrow>
    ext2_mount \<times> errno option" where
  "ext2_remount cfg lib direct_access busy now old flags data =
     (let ((op, key), ok) = parse_options cfg lib data (si_opts old, g_key old);
          m = old\<lparr>si_opts := op, g_key := key\<rparr>
      in if \<not> ok then (restore_opts old m, Some EINVAL)
         else
           let m = ext2_xip_verify_sb cfg direct_access (set_posixacl m)
           in if ext2_use_xip cfg m \<and> sb_blocksize m \<noteq> PAGE_SIZE then (restore_opts old m, Some EINVAL)
              else
                let m = refuse_xip busy old m
                in if has flags MS_RDONLY = has (sb_flags m) MS_RDONLY then (m, None)
                   else if has flags MS_RDONLY
                   then
                     if has (d_state (si_es m)) EXT2_VALID_FS \<or> \<not> has (si_mount_state m) EXT2_VALID_FS then (m, None)
                     else (ext2_sync_super now (m\<lparr>si_es := (si_es m)\<lparr>d_state := si_mount_state m, d_mtime := now\<rparr>\<rparr>), None)
                   else if and (d_feature_ro_compat (si_es m)) (not EXT2_FEATURE_RO_COMPAT_SUPP) \<noteq> 0
                   then (restore_opts old m, Some EROFS)
                   else
                     let (m, res) = ext2_setup_super now (m\<lparr>si_mount_state := d_state (si_es m)\<rparr>) False;
                         m = (if \<not> res then m\<lparr>sb_flags := and (sb_flags m) (not MS_RDONLY)\<rparr> else m)
                     in (ext2_sync_super now m, None))"

record kstatfs =
  f_type :: "16 word"
  f_bsize :: nat
  f_blocks :: nat
  f_bfree :: nat
  f_bavail :: nat
  f_files :: nat
  f_ffree :: nat
  f_namelen :: nat
  f_fsid :: "64 word \<times> 64 word"

text \<open>The blocks that hold no data: everything before the first group, superblocks and descriptors, bitmaps and
  inode tables.\<close>

definition fs_overhead :: "ext2_mount \<Rightarrow> nat option" where
  "fs_overhead m = do {
     let sparse = has (d_feature_ro_compat (si_es m)) EXT2_FEATURE_RO_COMPAT_SPARSE_SUPER;
     overhead \<leftarrow> foldM (\<lambda>n i. do {
         s \<leftarrow> ext2_bg_has_super sparse (int i);
         g \<leftarrow> ext2_bg_num_gdb sparse (si_gdb_count m) (int i);
         Some (n + (s + g))
       }) (unat (d_first_data_block (si_es m))) [0..<si_groups_count m];
     Some (overhead + si_groups_count m * (2 + si_itb_per_group m))
   }"

definition ext2_statfs :: "ext2_mount \<Rightarrow> (ext2_mount \<times> kstatfs) option" where
  "ext2_statfs m = do {
     let es = si_es m;
     m \<leftarrow> (if test_opt (si_opts m) EXT2_MOUNT_MINIX_DF then Some (m\<lparr>si_overhead_last := 0\<rparr>)
           else if si_blocks_last m \<noteq> unat (d_blocks_count es)
           then do { ov \<leftarrow> fs_overhead m; Some (m\<lparr>si_overhead_last := ov, si_blocks_last := unat (d_blocks_count es)\<rparr>) }
           else Some m);
     let bfree = ext2_count_free_blocks (info_of m);
     let ffree = ext2_count_free_inodes (info_of m);
     let fsid = xor (fst (d_uuid es)) (snd (d_uuid es));
     Some (m\<lparr>si_es := with_counts m es\<rparr>,
       \<lparr>f_type = EXT2_SUPER_MAGIC, f_bsize = sb_blocksize m,
        f_blocks = ulong (int (unat (d_blocks_count es)) - int (si_overhead_last m)), f_bfree = bfree,
        f_bavail = (if bfree < unat (d_r_blocks_count es) then 0 else bfree - unat (d_r_blocks_count es)),
        f_files = unat (d_inodes_count es), f_ffree = ffree, f_namelen = 255,
        f_fsid = (and fsid 0xFFFFFFFF, and (drop_bit 32 fsid) 0xFFFFFFFF)\<rparr>)
   }"

definition ext2_nfs_get_inode :: "dev_enc \<Rightarrow> (nat \<Rightarrow> bool) \<Rightarrow> (nat \<Rightarrow> (ext2_inode_info \<times> bool) option) \<Rightarrow> ext2_mount \<Rightarrow>
    nat \<Rightarrow> 32 word \<Rightarrow> errno + ext2_inode_info" where
  "ext2_nfs_get_inode d rd iget_locked m ino generation =
     (if ino < si_first_ino m \<and> ino \<noteq> EXT2_ROOT_INO then Inl ESTALE
      else if ino > unat (d_inodes_count (si_es m)) then Inl ESTALE
      else
        case ext2_iget d rd iget_locked (inode_sb_of m) ino of
          Inl err \<Rightarrow> Inl err
        | Inr ei \<Rightarrow> if generation \<noteq> 0 \<and> i_generation (vfs_inode ei) \<noteq> generation then Inl ESTALE else Inr ei)"

definition ext2_clear_inode :: "rb_lib \<Rightarrow> ext2_mount \<Rightarrow> ext2_inode_info \<Rightarrow> ext2_mount \<times> ext2_inode_info" where
  "ext2_clear_inode rb m ei =
     (m\<lparr>si_rsv := ext2_discard_reservation rb (si_rsv m) (i_block_alloc_info ei)\<rparr>, ei\<lparr>i_block_alloc_info := None\<rparr>)"

end
