(* ===== verification/Ext2_Mount.thy ===== *)
theory Ext2_Mount
  imports Ext2_Super Ext2_Bmap_Facts
begin

text \<open>
  What mounting guarantees, over the definitions of theory \<open>Ext2_Super\<close>: a file system that \<open>ext2_fill_super\<close>
  accepts has a sound geometry, with bitmaps and inode tables inside their groups, and so satisfies the
  assumptions of the theories of inodes and of block allocation; the largest file fits the block map; a
  refused remount changes nothing but the key; and while the file system stays writable the disk says
  that it was not unmounted.
\<close>

section \<open>Remounting\<close>

lemma restore_upd [simp]:
  "restore_opts old (m\<lparr>si_opts := x\<rparr>) = restore_opts old m" "restore_opts old (m\<lparr>sb_flags := f\<rparr>) = restore_opts old m"
  by (simp_all add: restore_opts_def)

lemma restore_steps [simp]:
  "restore_opts old (set_posixacl m) = restore_opts old m" "restore_opts old (ext2_xip_verify_sb cfg d m) = restore_opts old m"
  "restore_opts old (refuse_xip busy old m) = restore_opts old m"
  by (simp_all add: set_posixacl_def ext2_xip_verify_sb_def refuse_xip_def Let_def)

lemma restore_old [simp]: "restore_opts old (old\<lparr>si_opts := x, g_key := k\<rparr>) = old\<lparr>g_key := k\<rparr>"
proof -
  have "restore_opts old (old\<lparr>si_opts := x, g_key := k\<rparr>) = restore_opts old (old\<lparr>g_key := k\<rparr>)"
    by (simp add: restore_opts_def)
  then show ?thesis by (simp add: restore_opts_def)
qed

text \<open>C28: A remount that is refused, for an option, for execute in place or for a feature, leaves the mounted file system
  as it was: options, flags and superblock. The one exception is the encryption key, which an option before the refused one has set for
  good, since it is a global variable that is not put back.\<close>

theorem refused_remount_restores:
  assumes "ext2_remount cfg lib direct_access busy now m flags data = (m', Some err)"
  shows "m' = m\<lparr>g_key := snd (fst (parse_options cfg lib data (si_opts m, g_key m)))\<rparr> \<and> (err = EINVAL \<or> err = EROFS)"
proof -
  obtain op k ok where p: "parse_options cfg lib data (si_opts m, g_key m) = ((op, k), ok)" by (metis surj_pair)
  show ?thesis using assms unfolding ext2_remount_def p
    by (auto simp: Let_def split: if_splits prod.splits)
qed

section \<open>The largest file\<close>

lemma div_less_mult:
  fixes x :: int
  assumes "x < p * q" and "0 < q"
  shows "x div q < p"
proof (rule ccontr)
  assume "\<not> x div q < p"
  then have "p * q \<le> x div q * q" using assms(2) by (intro mult_right_mono) simp_all
  also have "\<dots> \<le> x" using assms(2) by (simp add: minus_mod_eq_div_mult [symmetric])
  finally show False using assms(1) by simp
qed

lemma max_size_cases: "9 < bits \<Longrightarrow> bits \<le> 16 \<Longrightarrow> bits \<in> {10, 11, 12, 13, 14, 15, 16 :: nat}"
  by auto

text \<open>The blocks that map a file that fills the block map: with \<open>p\<close> pointers to a block, one, one and \<open>p\<close>, one, \<open>p\<close>
  and \<open>p\<close> squared.\<close>

definition all_indirect :: "nat \<Rightarrow> int" where
  "all_indirect bits = 3 + 2 * 2 ^ (bits - 2) + 2 ^ (2 * (bits - 2))"

lemma max_size_le:
  assumes "bits \<in> {10, 11, 12, 13, 14, 15, 16 :: nat}"
  shows "ext2_max_size lfs bits \<le> ((2 ^ 32 - 1) div 2 ^ (bits - 9) - all_indirect bits) * 2 ^ bits"
    "ext2_max_size lfs bits \<le> (12 + 2 ^ (bits - 2) + 2 ^ (2 * (bits - 2)) + 2 ^ (3 * (bits - 2))) * 2 ^ bits"
  using assms by (auto simp: ext2_max_size_def Let_def drop_bit_eq_div push_bit_eq_mult all_indirect_def)

text \<open>C29: A file may grow to \<open>ext2_max_size\<close>: each of its blocks has a path in the block map, and the sectors of its
  data and of all indirect blocks are fewer than \<open>2 ^ 32\<close>, so that \<open>i_blocks\<close> does not overflow.\<close>

theorem max_size_fits:
  assumes "9 < bits" and "bits \<le> 16" and "0 \<le> i" and "i * 2 ^ bits < ext2_max_size lfs bits"
  shows "fst (ext2_block_to_path (bits - 2) i) \<noteq> [] \<and> (i + 1 + all_indirect bits) * 2 ^ (bits - 9) < 2 ^ 32"
proof -
  note b = max_size_cases [OF assms(1,2)]
  have i: "i < (2 ^ 32 - 1) div 2 ^ (bits - 9) - all_indirect bits"
    "i < 12 + 2 ^ (bits - 2) + 2 ^ (2 * (bits - 2)) + 2 ^ (3 * (bits - 2))"
    using less_le_trans [OF assms(4) max_size_le(1) [OF b]] less_le_trans [OF assms(4) max_size_le(2) [OF b]]
    by (simp_all add: mult_less_cancel_right)
  have "(i + 1 + all_indirect bits) * 2 ^ (bits - 9) \<le> (2 ^ 32 - 1) div 2 ^ (bits - 9) * 2 ^ (bits - 9)"
    using i(1) by (intro mult_right_mono) simp_all
  also have "\<dots> \<le> 2 ^ 32 - 1" using pos_mod_sign [of "2 ^ (bits - 9)" "2 ^ 32 - 1 :: int"] by (simp add: minus_mod_eq_div_mult [symmetric])
  finally have s: "(i + 1 + all_indirect bits) * 2 ^ (bits - 9) < 2 ^ 32" by simp
  moreover have "fst (ext2_block_to_path (bits - 2) i) \<noteq> []"
  proof -
    define p where "p = (2 :: int) ^ (bits - 2)"
    have p: "0 < p" "2 ^ ((bits - 2) * 2) = p * p" "2 ^ (2 * (bits - 2)) = p * p" "2 ^ (3 * (bits - 2)) = p * p * p"
      by (simp_all add: p_def mult_2 mult_2_right numeral_3_eq_3 power_add)
    have "i - 12 - p - p * p < p * (p * p)" using i(2) unfolding p(3,4) p_def [symmetric] by (simp add: mult.assoc)
    then have "(i - 12 - p - p * p) div (p * p) < p" using p(1) by (intro div_less_mult) simp_all
    then show ?thesis using assms(3) unfolding ext2_block_to_path_def Let_def p(2) p_def [symmetric] by simp
  qed
  ultimately show ?thesis by blast
qed

theorem max_size_fits_witness:
  "fst (ext2_block_to_path 8 16843019) \<noteq> [] \<and> (16843020 + all_indirect 10) * 2 ^ 1 < 2 ^ 32 \<and>
   ext2_max_size (2 ^ 63 - 1) 10 = 16843020 * 2 ^ 10"
proof -
  have s: "ext2_max_size (2 ^ 63 - 1) 10 = 16843020 * 2 ^ 10" by (simp add: ext2_max_size_def Let_def drop_bit_eq_div push_bit_eq_mult)
  have "fst (ext2_block_to_path (10 - 2) 16843019) \<noteq> [] \<and> (16843019 + 1 + all_indirect 10) * 2 ^ (10 - 9) < 2 ^ 32"
    by (rule max_size_fits [where lfs = "2 ^ 63 - 1"]) (simp_all only: s, simp_all)
  then show ?thesis using s by simp
qed

section \<open>What a successful mount has checked\<close>

lemma and_then_ok: "and_then r f = Some (m, None) \<longleftrightarrow> (\<exists>m1. r = Some (m1, None) \<and> f m1 = Some (m, None))"
  by (auto simp: and_then_def split: option.splits)

lemma guard_ok: "guard c m1 = Some (m, None) \<longleftrightarrow> c \<and> m = m1"
  by (auto simp: guard_def)

lemma ilog2_power [simp]: "ilog2 (2 ^ n) = n"
  by (induction n) (simp_all add: ilog2.simps)

text \<open>The kernel accepts block sizes that are powers of two, from that of a sector to that of a page.\<close>

definition blockdev_ok :: "mnt_env \<Rightarrow> bool" where
  "blockdev_ok e \<longleftrightarrow>
     (\<forall>b. b = me_min_blocksize e \<and> b \<noteq> 0 \<or> me_set_blocksize e b \<longrightarrow> 9 \<le> ilog2 b \<and> ilog2 b \<le> 12 \<and> b = 2 ^ ilog2 b)"

definition block_size_ok :: "ext2_mount \<Rightarrow> bool" where
  "block_size_ok m \<longleftrightarrow> sb_blocksize m = 2 ^ sb_blocksize_bits m \<and> 9 \<le> sb_blocksize_bits m \<and> sb_blocksize_bits m \<le> 12"

definition sizes_ok :: "ext2_mount \<Rightarrow> bool" where
  "sizes_ok m \<longleftrightarrow> is_power_of_2 (si_inode_size m) \<and> 128 \<le> si_inode_size m \<and> si_inode_size m \<le> sb_blocksize m \<and>
     si_inodes_per_block m = sb_blocksize m div si_inode_size m \<and> 0 < si_inodes_per_group m"

definition geometry_ok :: "ext2_mount \<Rightarrow> bool" where
  "geometry_ok m \<longleftrightarrow> si_inodes_per_group m \<le> 8 * sb_blocksize m \<and>
     0 < si_blocks_per_group m \<and> si_blocks_per_group m \<le> 8 * sb_blocksize m \<and>
     si_itb_per_group m = si_inodes_per_group m div si_inodes_per_block m \<and>
     si_desc_per_block m = sb_blocksize m div 32 \<and> si_desc_per_block_bits m = ilog2 (si_desc_per_block m) \<and>
     si_groups_count m = unat (d_blocks_count (si_es m) - d_first_data_block (si_es m) - 1) div si_blocks_per_group m + 1"

definition groups_ok :: "ext2_mount \<Rightarrow> bool" where
  "groups_ok m \<longleftrightarrow> (\<forall>g < si_groups_count m. si_group_desc m (drop_bit (si_desc_per_block_bits m) g) \<noteq> None \<and> \<not> bad_group m g)"

lemma read_super_ok:
  assumes "read_super e m = Some (m', None)"
  obtains es where "m' = m\<lparr>si_es := es, si_written := es\<rparr>"
  using assms by (auto simp: read_super_def Let_def split: option.splits prod.splits)

lemma set_blocksize_ok: "9 \<le> ilog2 b \<Longrightarrow> ilog2 b \<le> 12 \<Longrightarrow> b = 2 ^ ilog2 b \<Longrightarrow> block_size_ok (set_blocksize b m)"
  by (simp add: block_size_ok_def set_blocksize_def)

text \<open>The option steps change options, flags, key and magic number only.\<close>

lemma fill_options_ok:
  assumes "fill_options cfg lib e data m = Some (m', None)"
  shows "si_es m' = si_es m" "si_written m' = si_written m" "block_size_ok m' = block_size_ok m"
    "has (sb_flags m') MS_RDONLY = has (sb_flags m) MS_RDONLY"
proof -
  let ?m = "m\<lparr>sb_magic := d_magic (si_es m)\<rparr>"
  obtain op k ok where p: "parse_options cfg lib data (default_options cfg (si_es ?m) (si_opts ?m), g_key ?m) = ((op, k), ok)"
    by (metis surj_pair)
  from assms p have m: "m' = ext2_xip_verify_sb cfg (me_direct_access e) (set_posixacl (?m\<lparr>si_opts := op, g_key := k\<rparr>))"
    by (auto simp: fill_options_def Let_def guard_ok split: if_splits)
  show "si_es m' = si_es m" "si_written m' = si_written m" "block_size_ok m' = block_size_ok m"
    unfolding m by (simp_all add: ext2_xip_verify_sb_def set_posixacl_def block_size_ok_def)
  show "has (sb_flags m') MS_RDONLY = has (sb_flags m) MS_RDONLY"
    unfolding m by (simp add: ext2_xip_verify_sb_def set_posixacl_def flag_simps)
qed

lemma fill_blocksize_ok:
  assumes "fill_blocksize cfg e m = Some (m', None)" and "blockdev_ok e" and "block_size_ok m" and "si_written m = si_es m"
  shows "block_size_ok m'" "si_written m' = si_es m'" "sb_flags m' = sb_flags m"
proof -
  have "block_size_ok m' \<and> si_written m' = si_es m' \<and> sb_flags m' = sb_flags m"
  proof (cases "sb_blocksize m = shifted_size (d_log_block_size (si_es m))")
    case True
    then show ?thesis using assms by (auto simp: fill_blocksize_def Let_def split: if_splits)
  next
    case False
    let ?b = "shifted_size (d_log_block_size (si_es m))"
    from False assms(1) obtain m1 where "read_super e (set_blocksize ?b m) = Some (m1, None)" "m' = m1" "me_set_blocksize e ?b"
      by (auto simp: fill_blocksize_def Let_def and_then_ok guard_ok split: if_splits)
    moreover from this(1) obtain es where "m1 = (set_blocksize ?b m)\<lparr>si_es := es, si_written := es\<rparr>" by (rule read_super_ok)
    ultimately show ?thesis using assms(2) set_blocksize_ok [of ?b m] by (auto simp: blockdev_ok_def block_size_ok_def set_blocksize_def)
  qed
  then show "block_size_ok m'" "si_written m' = si_es m'" "sb_flags m' = sb_flags m" by blast+
qed

lemma fill_sizes_ok:
  assumes "fill_sizes e m = Some (m', None)" and "block_size_ok m" and "si_written m = si_es m"
  shows "sizes_ok m'" "block_size_ok m'" "si_written m' = si_es m'" "sb_flags m' = sb_flags m" 
proof -
  have "is_power_of_2 128" by code_simp
  then show "sizes_ok m'" "block_size_ok m'" "si_written m' = si_es m'" "sb_flags m' = sb_flags m"
    using assms by (auto simp: fill_sizes_def Let_def guard_ok sizes_ok_def block_size_ok_def div_eq_0_iff split: if_splits)
qed

lemma fill_geometry_ok:
  assumes "fill_geometry m = Some (m', None)" and "sizes_ok m" and "block_size_ok m" and "si_written m = si_es m"
  shows "geometry_ok m'" "sizes_ok m'" "block_size_ok m'" "si_written m' = si_es m'" "sb_flags m' = sb_flags m" "si_mount_state m' = d_state (si_es m')"
  using assms by (auto simp: fill_geometry_def Let_def sizes_ok_def block_size_ok_def geometry_ok_def split: if_splits)

lemma read_descs_ok:
  assumes "read_descs e l is m = Some (m', None)"
  shows "\<exists>d. m' = m\<lparr>si_group_desc := d\<rparr> \<and> (\<forall>i. i \<in> set is \<or> si_group_desc m i \<noteq> None \<longrightarrow> d i \<noteq> None)"
  using assms
proof (induction "is" arbitrary: m)
  case Nil
  then show ?case by (intro exI [of _ "si_group_desc m"]) simp
next
  case (Cons i "is")
  from Cons.prems obtain x where r: "read_descs e l is (m\<lparr>si_group_desc := (si_group_desc m)(i \<mapsto> x)\<rparr>) = Some (m', None)"
    by (auto simp: bind_eq_Some_conv split: option.splits)
  from Cons.IH [OF this] obtain d where
    "m' = m\<lparr>si_group_desc := d\<rparr>" "\<forall>j. j \<in> set is \<or> ((si_group_desc m)(i \<mapsto> x)) j \<noteq> None \<longrightarrow> d j \<noteq> None" by auto
  then show ?case by (intro exI [of _ d]) (auto split: if_splits)
qed

lemma check_groups_ok: "check_groups now m is = Some (m', True) \<Longrightarrow> m' = m \<and> (\<forall>i \<in> set is. \<not> bad_group m i)"
  by (induction "is") (auto split: if_splits simp: bind_eq_Some_conv)

lemma first_block [simp]:
  "ext2_group_first_block_no (balloc_of m) g = g * si_blocks_per_group m + unat (d_first_data_block (si_es m))"
  by (simp add: ext2_group_first_block_no_def balloc_of_def info_of_def)

text \<open>The fields that say where things are.\<close>

definition same_layout :: "ext2_mount \<Rightarrow> ext2_mount \<Rightarrow> bool" where
  "same_layout m m' \<longleftrightarrow> sb_blocksize m' = sb_blocksize m \<and> sb_blocksize_bits m' = sb_blocksize_bits m \<and>
     si_inode_size m' = si_inode_size m \<and> si_first_ino m' = si_first_ino m \<and> si_inodes_per_block m' = si_inodes_per_block m \<and>
     si_inodes_per_group m' = si_inodes_per_group m \<and> si_blocks_per_group m' = si_blocks_per_group m \<and>
     si_itb_per_group m' = si_itb_per_group m \<and> si_desc_per_block m' = si_desc_per_block m \<and>
     si_desc_per_block_bits m' = si_desc_per_block_bits m \<and> si_groups_count m' = si_groups_count m \<and>
     si_group_desc m' = si_group_desc m \<and> d_blocks_count (si_es m') = d_blocks_count (si_es m) \<and>
     d_first_data_block (si_es m') = d_first_data_block (si_es m)"

definition mounted :: "ext2_mount \<Rightarrow> bool" where
  "mounted m \<longleftrightarrow> block_size_ok m \<and> sizes_ok m \<and> geometry_ok m \<and> groups_ok m"

lemma same_layout_bad: "same_layout m m' \<Longrightarrow> bad_group m' = bad_group m"
  by (simp add: same_layout_def bad_group_def desc_of_def last_block_of_def fun_eq_iff Let_def)

lemma same_layout_mounted:
  assumes "same_layout m m'"
  shows "mounted m' = mounted m"
proof -
  note eqs = assms [unfolded same_layout_def] same_layout_bad [OF assms]
  have "block_size_ok m' = block_size_ok m" "sizes_ok m' = sizes_ok m" "geometry_ok m' = geometry_ok m" "groups_ok m' = groups_ok m"
    by (simp_all only: eqs block_size_ok_def sizes_ok_def geometry_ok_def groups_ok_def)
  then show ?thesis by (simp add: mounted_def)
qed

lemma desc_block_bound:
  fixes g n d :: nat
  assumes "g < n" and "0 < d"
  shows "g div d < (n + d - 1) div d"
proof -
  have "g div d + 1 = (g + d) div d" using assms(2) by (simp add: div_add_self2)
  also have "\<dots> \<le> (n + d - 1) div d" using assms by (intro div_le_mono) simp
  finally show ?thesis by simp
qed

lemma fill_groups_ok:
  assumes "fill_groups e m = Some (m', None)" and "geometry_ok m" and "sizes_ok m" and "block_size_ok m"
  shows "mounted m' \<and> (\<exists>d n. m' = m\<lparr>si_group_desc := d, si_gdb_count := n\<rparr>)"
proof -
  define db where "db = (si_groups_count m + si_desc_per_block m - 1) div si_desc_per_block m"
  from assms(1) obtain m1 l where r: "read_descs e l [0..<db] (m\<lparr>si_group_desc := (\<lambda>_. None)\<rparr>) = Some (m1, None)"
    and f: "(case check_groups (me_now e) m1 [0..<si_groups_count m1] of None \<Rightarrow> None
       | Some (m, ok) \<Rightarrow> if \<not> ok then Some (m, Some EINVAL) else Some (m\<lparr>si_gdb_count := db\<rparr>, None)) = Some (m', None)"
    unfolding fill_groups_def Let_def db_def [symmetric] ext2_check_descriptors_def and_then_ok by (auto simp only: and_then_ok split: if_splits)
  from f obtain m2 where c: "check_groups (me_now e) m1 [0..<si_groups_count m1] = Some (m2, True)" and m2: "m' = m2\<lparr>si_gdb_count := db\<rparr>"
    by (auto split: option.splits if_splits)
  have m': "m' = m1\<lparr>si_gdb_count := db\<rparr>" using m2 check_groups_ok [OF c] by simp
  from read_descs_ok [OF r] obtain d where d: "m1 = m\<lparr>si_group_desc := d\<rparr>" "\<forall>i < db. d i \<noteq> None" by auto
  have "si_desc_per_block m = 2 ^ (sb_blocksize_bits m - 5)"
    using assms(2,4) by (simp add: geometry_ok_def block_size_ok_def power_diff)
  moreover from this have "si_desc_per_block_bits m = sb_blocksize_bits m - 5" using assms(2) by (simp add: geometry_ok_def)
  ultimately have "drop_bit (si_desc_per_block_bits m) g < db" if "g < si_groups_count m" for g
    using desc_block_bound [OF that, of "si_desc_per_block m"] unfolding db_def drop_bit_eq_div by simp
  then have "groups_ok m1" using d check_groups_ok [OF c] by (simp add: groups_ok_def)
  then have "mounted m1" using assms(2-4) unfolding d(1) by (simp add: mounted_def geometry_ok_def sizes_ok_def block_size_ok_def)
  moreover have "same_layout m1 m'" unfolding m' by (simp add: same_layout_def)
  ultimately show ?thesis using same_layout_mounted m' d(1) by blast
qed

lemma fill_counters_ok:
  assumes "fill_counters e m = Some (m', None)" and "rb_ok (me_rb e)"
  shows "rsv_ok 0 (si_rsv m')" "same_layout m m'" "si_es m' = si_es m" "si_written m' = si_written m" "sb_flags m' = sb_flags m"
    "si_mount_state m' = si_mount_state m"
proof -
  have "inorder (rb_insert_color (me_rb e) 0 (Node Leaf 0 Leaf)) = [0]" using assms(2) by (simp add: rb_ok_def)
  then have "rsv_ok 0 \<lparr>wins = \<lambda>_. no_window, rsv_root = rb_insert_color (me_rb e) 0 (Node Leaf 0 Leaf)\<rparr>"
    by (simp add: rsv_ok_def no_window_def rsv_is_empty_def)
  then show "rsv_ok 0 (si_rsv m')" "same_layout m m'" "si_es m' = si_es m" "si_written m' = si_written m" "sb_flags m' = sb_flags m"
    "si_mount_state m' = si_mount_state m"
    using assms(1) by (auto simp: fill_counters_def ext2_rsv_window_add_def Let_def same_layout_def split: if_splits)
qed

lemma layout_write [simp]:
  "same_layout m (ext2_sync_super now m)" "same_layout m (ext2_commit_super now m)" "same_layout m (ext2_sync_fs now m)"
  "same_layout m (ext2_write_super now m)"
  by (simp_all add: same_layout_def ext2_sync_super_def ext2_commit_super_def ext2_sync_fs_def ext2_write_super_def with_counts_def Let_def)

lemma layout_setup: "same_layout m (fst (ext2_setup_super now m ro))"
  by (simp add: same_layout_def ext2_setup_super_def ext2_write_super_def ext2_sync_fs_def ext2_sync_super_def ext2_commit_super_def
      with_counts_def Let_def)

lemma rsv_setup [simp]: "si_rsv (fst (ext2_setup_super now m ro)) = si_rsv m"
  by (simp add: ext2_setup_super_def ext2_write_super_def ext2_sync_fs_def ext2_sync_super_def ext2_commit_super_def Let_def)

text \<open>The state when the root directory has been found, before \<open>ext2_setup_super\<close>.\<close>

lemma fill_super_ok:
  assumes e: "blockdev_ok e" "rb_ok (me_rb e)" and f: "ext2_fill_super cfg lib e sb data = Some (m, None)"
  obtains m1 root_inode where "mounted m1" "rsv_ok 0 (si_rsv m1)" "si_written m1 = si_es m1" "si_mount_state m1 = d_state (si_es m1)"
    "has (sb_flags m1) MS_RDONLY = has (sb_flags sb) MS_RDONLY"
    "m = fst (ext2_setup_super (me_now e) m1 (has (sb_flags m1) MS_RDONLY))"
    "ext2_iget (me_dev e) (me_rd e) (me_iget e) (inode_sb_of m1) 2 = Inr root_inode" "S_ISDIR (i_mode (vfs_inode root_inode))"
    "0 < i_size (vfs_inode root_inode)"
proof -
  define m0 where "m0 = sb\<lparr>si_opts := no_options, si_sb_block := fst (get_sb_block lib data), si_overhead_last := 0, si_blocks_last := 0\<rparr>"
  let ?b0 = "set_blocksize (me_min_blocksize e) m0"
  from f obtain r1 r2 r3 r4 r5 r6 r7 where
    r: "read_super e ?b0 = Some (r1, None)" "fill_options cfg lib e (snd (get_sb_block lib data)) r1 = Some (r2, None)"
      "fill_blocksize cfg e r2 = Some (r3, None)" "fill_sizes e r3 = Some (r4, None)" "fill_geometry r4 = Some (r5, None)"
      "fill_groups e r5 = Some (r6, None)" "fill_counters e r6 = Some (r7, None)" "fill_root e r7 = Some (m, None)"
    and b: "me_min_blocksize e \<noteq> 0"
    by (auto simp: ext2_fill_super_def and_then_ok case_prod_unfold Let_def m0_def split: if_splits)
  from r(1) obtain es where r1: "r1 = ?b0\<lparr>si_es := es, si_written := es\<rparr>" by (rule read_super_ok)
  have b0: "block_size_ok ?b0" using e(1) b by (intro set_blocksize_ok) (auto simp: blockdev_ok_def)
  then have b1: "block_size_ok r1" "si_written r1 = si_es r1" "sb_flags r1 = sb_flags sb"
    unfolding r1 by (simp_all add: block_size_ok_def set_blocksize_def m0_def)
  note r2 = fill_options_ok [OF r(2)]
  have "block_size_ok r2" "si_written r2 = si_es r2" using r2 b1 by simp_all
  note r3 = fill_blocksize_ok [OF r(3) e(1) this]
  note r4 = fill_sizes_ok [OF r(4) r3(1,2)]
  note r5 = fill_geometry_ok [OF r(5) r4(1-3)]
  from fill_groups_ok [OF r(6) r5(1-3)] obtain d n where r6: "mounted r6" "r6 = r5\<lparr>si_group_desc := d, si_gdb_count := n\<rparr>" by blast
  note r7 = fill_counters_ok [OF r(7) e(2)]
  have "mounted r7" using same_layout_mounted [OF r7(2)] r6(1) by blast
  moreover have "si_written r7 = si_es r7" "si_mount_state r7 = d_state (si_es r7)" "sb_flags r7 = sb_flags r3"
    using r7(3-6) r6(2) r5(4-6) r4(4) by simp_all
  moreover have "has (sb_flags r7) MS_RDONLY = has (sb_flags sb) MS_RDONLY" using calculation(4) r3(3) r2(4) b1(3) by simp
  moreover from r(8) obtain root_inode where "m = fst (ext2_setup_super (me_now e) r7 (has (sb_flags r7) MS_RDONLY))"
    "ext2_iget (me_dev e) (me_rd e) (me_iget e) (inode_sb_of r7) 2 = Inr root_inode" "S_ISDIR (i_mode (vfs_inode root_inode))"
    "0 < i_size (vfs_inode root_inode)"
    by (auto simp: fill_root_def Let_def split: sum.splits if_splits)
  ultimately show thesis using r7(1) by (intro that)
qed

section \<open>The groups of a mounted file system\<close>

abbreviation first_of :: "ext2_mount \<Rightarrow> nat \<Rightarrow> nat" where
  "first_of m g \<equiv> g * si_blocks_per_group m + unat (d_first_data_block (si_es m))"

abbreviation last_block :: "ext2_mount \<Rightarrow> nat" where
  "last_block m \<equiv> unat (d_blocks_count (si_es m) - 1)"

lemma page_bound: "mounted m \<Longrightarrow> sb_blocksize m \<le> 4096"
  using power_increasing [of "sb_blocksize_bits m" 12 "2 :: nat"] by (simp add: mounted_def block_size_ok_def)

lemma group_range:
  assumes "mounted m" and "g < si_groups_count m"
  shows "unat (gd_block_bitmap (desc_of m g)) \<in> {first_of m g..last_block_of m g}"
    "unat (gd_inode_bitmap (desc_of m g)) \<in> {first_of m g..last_block_of m g}"
    "first_of m g \<le> unat (gd_inode_table (desc_of m g))"
    "0 < si_itb_per_group m \<Longrightarrow> unat (gd_inode_table (desc_of m g)) + si_itb_per_group m - 1 \<le> last_block_of m g"
proof -
  have n: "\<not> bad_group m g" using assms by (simp add: mounted_def groups_ok_def)
  then show "unat (gd_block_bitmap (desc_of m g)) \<in> {first_of m g..last_block_of m g}"
    "unat (gd_inode_bitmap (desc_of m g)) \<in> {first_of m g..last_block_of m g}"
    "first_of m g \<le> unat (gd_inode_table (desc_of m g))"
    by (auto simp: bad_group_def Let_def not_less split: if_splits)
  assume i: "0 < si_itb_per_group m"
  let ?t = "unat (gd_inode_table (desc_of m g))"
  have "si_itb_per_group m \<le> si_inodes_per_group m" "si_inodes_per_group m \<le> 8 * sb_blocksize m" "sb_blocksize m \<le> 4096"
    using assms(1) page_bound [OF assms(1)] by (simp_all add: mounted_def geometry_ok_def div_le_dividend)
  moreover have "?t < 4294967296" using unsigned_less [of "gd_inode_table (desc_of m g)"] by simp
  ultimately have "?t + si_itb_per_group m - 1 < 18446744073709551616" by linarith
  moreover have "int ?t + int (si_itb_per_group m) - 1 = int (?t + si_itb_per_group m - 1)" using i by linarith
  ultimately have "ulong (int ?t + int (si_itb_per_group m) - 1) = ?t + si_itb_per_group m - 1"
    by (simp only: ulong_def) (simp flip: of_nat_mod add: zmod_int)
  then show "?t + si_itb_per_group m - 1 \<le> last_block_of m g"
    using n by (auto simp: bad_group_def Let_def not_less split: if_splits)
qed

text \<open>The groups cover the blocks from the first data block to the last block, which is one less than
  \<open>s_blocks_count\<close>, modulo \<open>2 ^ 32\<close>.\<close>

lemma groups_cover:
  assumes "mounted m"
  defines "n \<equiv> si_groups_count m"
  shows "0 < n" "first_of m (n - 1) \<le> last_block m" "last_block m < first_of m n"
proof -
  let ?d = "unat (d_blocks_count (si_es m) - d_first_data_block (si_es m) - 1)" and ?p = "si_blocks_per_group m"
    and ?f = "unat (d_first_data_block (si_es m))"
  have n: "n = ?d div ?p + 1" and p: "0 < ?p"
    using assms(1) by (simp_all add: n_def mounted_def geometry_ok_def)
  show "0 < n" using n by simp
  then have "n - 1 < si_groups_count m" by (simp add: n_def)
  from group_range(1) [OF assms(1) this] show first: "first_of m (n - 1) \<le> last_block m"
    by (auto simp: last_block_of_def n_def)
  have d: "?d mod ?p < ?p" "?d = ?d div ?p * ?p + ?d mod ?p" using p by simp_all
  have w: "d_blocks_count (si_es m) - d_first_data_block (si_es m) - 1 = (d_blocks_count (si_es m) - 1) - d_first_data_block (si_es m)"
    by (simp add: algebra_simps)
  have "?f \<le> last_block m" using first by simp
  then have "?d = last_block m - ?f" unfolding w by (simp add: unat_sub word_le_nat_alt)
  then have "last_block m = ?d div ?p * ?p + ?d mod ?p + ?f" using d(2) \<open>?f \<le> last_block m\<close> by linarith
  then have "last_block m < ?d div ?p * ?p + ?p + ?f" using d(1) by linarith
  then show "last_block m < first_of m n" unfolding n by (simp only: add_mult_distrib mult_1)
qed

lemma last_in_group: "mounted m \<Longrightarrow> g < si_groups_count m \<Longrightarrow> last_block_of m g < first_of m (g + 1)"
  using groups_cover [of m] by (auto simp: last_block_of_def mounted_def geometry_ok_def add_less_le_mono)

lemma tables_apart:
  assumes "mounted m" and "0 < si_itb_per_group m" and "g < h" and "h < si_groups_count m"
  shows "unat (gd_inode_table (desc_of m g)) + si_itb_per_group m \<le> unat (gd_inode_table (desc_of m h))"
proof -
  have "unat (gd_inode_table (desc_of m g)) + si_itb_per_group m - 1 < first_of m (g + 1)"
    using group_range(4) [of m g] last_in_group [of m g] assms by linarith
  moreover have "first_of m (g + 1) \<le> first_of m h" using assms(3) by (simp add: mult_le_mono1 Suc_leI flip: mult_Suc)
  ultimately show ?thesis using group_range(3) [OF assms(1,4)] assms(2) by linarith
qed

lemma inode_size_divides:
  assumes "mounted m"
  shows "si_inode_size m dvd sb_blocksize m"
proof -
  have "2 ^ ilog2 (si_inode_size m) \<le> (2 :: nat) ^ sb_blocksize_bits m" "si_inode_size m = 2 ^ ilog2 (si_inode_size m)"
    using assms by (simp_all add: mounted_def sizes_ok_def block_size_ok_def is_power_of_2_def)
  then have "ilog2 (si_inode_size m) \<le> sb_blocksize_bits m" by (meson one_less_numeral_iff power_le_imp_le_exp semiring_norm(76))
  then have "(2 :: nat) ^ ilog2 (si_inode_size m) dvd 2 ^ sb_blocksize_bits m" by (rule le_imp_power_dvd)
  then show ?thesis using assms by (simp add: mounted_def sizes_ok_def block_size_ok_def is_power_of_2_def)
qed

lemma mounted_tables:
  assumes m: "mounted m" and d: "si_inodes_per_block m dvd si_inodes_per_group m" and i: "0 < si_first_ino m"
  shows "tables_ok (inode_sb_of m)"
proof -
  let ?B = "sb_blocksize m" and ?n = "si_inode_size m" and ?t = "si_itb_per_group m"
  have s: "?B = 2 ^ sb_blocksize_bits m" "128 \<le> ?n" "si_inodes_per_block m = ?B div ?n" "0 < si_inodes_per_group m"
    "?t = si_inodes_per_group m div si_inodes_per_block m"
    using m by (simp_all add: mounted_def block_size_ok_def sizes_ok_def geometry_ok_def)
  have "si_inodes_per_group m = ?t * si_inodes_per_block m" using d s(5) by simp
  moreover have "si_inodes_per_block m * ?n = ?B" using inode_size_divides [OF m] s(3) by simp
  ultimately have e: "si_inodes_per_group m * ?n = ?t * ?B" by (metis mult.assoc)
  have t: "0 < ?t" using d s(4,5) by (metis dvd_div_eq_0_iff gr0I less_irrefl)
  have "table_blocks (inode_sb_of m) = (?t * ?B + ?B - 1) div ?B"
    using e s(1) by (simp add: table_blocks_def inode_sb_of_def info_of_def)
  also have "\<dots> = (?B - 1 + ?t * ?B) div ?B" using s(1) by (simp add: add.commute)
  also have "\<dots> = ?t" using s(1) by (subst div_mult_self1) simp_all
  finally have "table_blocks (inode_sb_of m) = ?t" .
  then show ?thesis
    using inode_size_divides [OF m] s t i tables_apart [OF m t] unfolding tables_ok_def
    by (simp add: inode_sb_of_def info_of_def) (metis nat_neq_iff)
qed

text \<open>The bitmaps on the disk agree with the descriptors and mark the blocks that are not for files as used.\<close>

definition bitmaps_agree :: "ext2_mount \<Rightarrow> bool" where
  "bitmaps_agree m \<longleftrightarrow>
     (\<forall>g < si_groups_count m. unat (bg_free_blocks_count (gd_counts (desc_of m g))) = clear_count (si_bbitmap m g) (si_blocks_per_group m) \<and>
        (\<forall>i < si_blocks_per_group m. not_for_files (balloc_of m) g (i + first_of m g) \<longrightarrow> si_bbitmap m g i))"

lemma blocks_count_le: "unat (w :: 32 word) \<le> unat (w - 1) + 1"
  by (cases "w = 0") (simp_all add: unat_minus_one)

lemma mounted_balloc:
  assumes m: "mounted m" and r: "rsv_ok 0 (si_rsv m)" and b: "bitmaps_agree m"
  shows "balloc_ok 0 (balloc_of m)"
proof -
  have "si_blocks_per_group m \<le> 8 * sb_blocksize m" "0 < si_blocks_per_group m" using m by (simp_all add: mounted_def geometry_ok_def)
  then have "si_blocks_per_group m < 2 ^ 16" using page_bound [OF m] by simp
  moreover have "unat (d_blocks_count (si_es m)) \<le> first_of m (si_groups_count m)"
    using groups_cover(3) [OF m] blocks_count_le [of "d_blocks_count (si_es m)"] by linarith
  moreover have "\<forall>g < si_groups_count m. si_group_desc m (drop_bit (si_desc_per_block_bits m) g) \<noteq> None"
    using m by (simp add: mounted_def groups_ok_def)
  ultimately show ?thesis
    using groups_cover(1) [OF m] \<open>0 < si_blocks_per_group m\<close> r b unfolding balloc_ok_def bitmaps_agree_def first_block
    by (simp add: balloc_of_def info_of_def add.commute)
qed

section \<open>Mounting\<close>

text \<open>C25: A mount that succeeds has checked the geometry of the file system: inodes have a size that is a power of two between 128 and the
  block size, the groups cover exactly the blocks from the first data block to the last, and
  the bitmaps of every group lie inside it, and the blocks of its inode table, as \<open>s_itb_per_group\<close> counts them, do too. Where the inodes of a group fill whole blocks, the inode
  tables are disjoint as theory \<open>Ext2_Inode\<close> requires; where the bitmaps agree with the descriptors, the block allocator starts in a good state, with no
  reservations.\<close>

theorem mount_checks:
  assumes "blockdev_ok e" and "rb_ok (me_rb e)" and "ext2_fill_super cfg lib e sb data = Some (m, None)"
  shows "is_power_of_2 (si_inode_size m) \<and> 128 \<le> si_inode_size m \<and> si_inode_size m \<le> sb_blocksize m \<and>
    first_of m (si_groups_count m - 1) \<le> last_block m \<and> last_block m < first_of m (si_groups_count m) \<and>
    (\<forall>g < si_groups_count m. {unat (gd_block_bitmap (desc_of m g)), unat (gd_inode_bitmap (desc_of m g))} \<subseteq> {first_of m g..last_block_of m g} \<and>
       first_of m g \<le> unat (gd_inode_table (desc_of m g)) \<and>
       (0 < si_itb_per_group m \<longrightarrow> unat (gd_inode_table (desc_of m g)) + si_itb_per_group m - 1 \<le> last_block_of m g)) \<and>
    (si_inodes_per_block m dvd si_inodes_per_group m \<and> 0 < si_first_ino m \<longrightarrow> tables_ok (inode_sb_of m)) \<and>
    (bitmaps_agree m \<longrightarrow> balloc_ok 0 (balloc_of m))"
proof -
  from fill_super_ok [OF assms] obtain m1 where m1: "mounted m1" "rsv_ok 0 (si_rsv m1)"
    "m = fst (ext2_setup_super (me_now e) m1 (has (sb_flags m1) MS_RDONLY))" by metis
  have "mounted m" using same_layout_mounted [OF layout_setup] m1(1,3) by blast
  moreover have "rsv_ok 0 (si_rsv m)" using m1(2,3) by simp
  ultimately show ?thesis
    using group_range [of m] groups_cover(2,3) [of m] mounted_tables [of m] mounted_balloc [of m]
    by (simp add: mounted_def sizes_ok_def)
qed

section \<open>The state on the disk\<close>

text \<open>What happens to a mounted file system between mount and unmount: \<open>sync\<close>, writing a superblock that has become dirty, a change
  of descriptors, an error, \<open>statfs\<close>, and a remount. After a successful remount the VFS sets the flags of the mount: \<open>MS_RDONLY\<close> is
  as the caller asked, the others (\<open>vfs_flags\<close>) are of no concern here.\<close>

datatype mount_ev = Ev_Sync | Ev_Write | Ev_Change "nat \<Rightarrow> (nat \<Rightarrow> group_desc) option" | Ev_Error | Ev_Statfs
  | is_remount: Ev_Remount config opt_lib bool bool "64 word" "string option" "64 word"

definition vfs_remount :: "64 word \<Rightarrow> 64 word \<Rightarrow> ext2_mount \<times> errno option \<Rightarrow> ext2_mount" where
  "vfs_remount flags vfs_flags r =
     (case r of
        (m, Some _) \<Rightarrow> m
      | (m, None) \<Rightarrow> m\<lparr>sb_flags := (if has flags MS_RDONLY then or vfs_flags MS_RDONLY else and vfs_flags (not MS_RDONLY))\<rparr>)"

fun ev_step :: "ext2_mount \<Rightarrow> 32 word \<times> mount_ev \<Rightarrow> ext2_mount option" where
  "ev_step m (now, Ev_Sync) = Some (ext2_sync_fs now m)"
| "ev_step m (now, Ev_Write) = Some (ext2_write_super now m)"
| "ev_step m (now, Ev_Change d) = Some (m\<lparr>si_group_desc := d, sb_dirt := True\<rparr>)"
| "ev_step m (now, Ev_Error) = ext2_error now m"
| "ev_step m (now, Ev_Statfs) = map_option fst (ext2_statfs m)"
| "ev_step m (now, Ev_Remount cfg lib direct_access busy flags data vfs_flags) =
     Some (vfs_remount flags vfs_flags (ext2_remount cfg lib direct_access busy now m flags data))"

abbreviation writable :: "ext2_mount \<Rightarrow> bool" where
  "writable m \<equiv> \<not> has (sb_flags m) MS_RDONLY"

text \<open>A run of events during which the file system is mounted for writing all the time.\<close>

inductive rw_run :: "ext2_mount \<Rightarrow> (32 word \<times> mount_ev) list \<Rightarrow> ext2_mount \<Rightarrow> bool" where
  start: "writable m \<Longrightarrow> rw_run m [] m"
| step: "rw_run m evs m1 \<Longrightarrow> ev_step m1 ev = Some m2 \<Longrightarrow> writable m2 \<Longrightarrow> rw_run m (evs @ [ev]) m2"

text \<open>While it is writable, the superblock says that the file system is not clean, in memory and on the disk; \<open>s_mount_state\<close> keeps whether
  it was clean before and collects errors.\<close>

definition state_ok :: "bool \<Rightarrow> bool \<Rightarrow> ext2_mount \<Rightarrow> bool" where
  "state_ok valid err m \<longleftrightarrow> \<not> has (d_state (si_es m)) EXT2_VALID_FS \<and> \<not> has (d_state (si_written m)) EXT2_VALID_FS \<and>
     has (si_mount_state m) EXT2_VALID_FS = valid \<and> has (si_mount_state m) EXT2_ERROR_FS = err"

lemmas write_defs = ext2_sync_fs_def ext2_sync_super_def ext2_commit_super_def ext2_write_super_def with_counts_def Let_def

lemma state_sync: "state_ok v err m \<Longrightarrow> state_ok v err (ext2_sync_fs now m)"
  by (simp add: state_ok_def write_defs)

lemma state_idle: "state_ok v err (m\<lparr>sb_dirt := d\<rparr>) = state_ok v err m"
  by (simp add: state_ok_def)

lemma state_error:
  assumes "state_ok v err m" and "ext2_error now m = Some m'" and "writable m'"
  shows "state_ok v True m'"
proof -
  have "writable m" using assms(2,3) by (auto simp: ext2_error_def write_defs flag_simps split: if_splits)
  then show ?thesis using assms by (auto simp: ext2_error_def write_defs state_ok_def flag_simps split: if_splits)
qed

lemma statfs_keeps:
  assumes "ext2_statfs m = Some (m', st)"
  shows "sb_flags m' = sb_flags m" "si_written m' = si_written m" "si_mount_state m' = si_mount_state m" "d_state (si_es m') = d_state (si_es m)"
  using assms by (auto simp: ext2_statfs_def with_counts_def bind_eq_Some_conv Let_def split: if_splits)

text \<open>Only a remount makes a read-only file system writable; a remount for writing leaves a writable one writable.\<close>

lemma step_writable:
  assumes "ev_step m ev = Some m'" and "writable m'" and "\<not> is_remount (snd ev)"
  shows "writable m"
  using assms by (cases "(m, ev)" rule: ev_step.cases)
    (auto simp: write_defs ext2_error_def flag_simps statfs_keeps split: if_splits)

lemma foldM_append: "foldM f s (xs @ ys) = Option.bind (foldM f s xs) (\<lambda>s. foldM f s ys)"
  by (induction xs arbitrary: s) (simp_all add: bind_assoc)

lemma rw_run_foldM:
  assumes "foldM ev_step m evs = Some m'" and "writable m'"
    and "\<And>ev. ev \<in> set evs \<Longrightarrow> \<not> is_remount (snd ev)"
  shows "rw_run m evs m'"
  using assms
proof (induction evs arbitrary: m' rule: rev_induct)
  case (snoc ev evs)
  from snoc.prems(1) obtain m1 where m1: "foldM ev_step m evs = Some m1" "ev_step m1 ev = Some m'"
    by (auto simp: foldM_append bind_eq_Some_conv)
  have "writable m1" by (rule step_writable [OF m1(2) snoc.prems(2)]) (use snoc.prems(3) in auto)
  with snoc.IH [OF m1(1)] snoc.prems(3) have "rw_run m evs m1" by auto
  then show ?case using m1(2) snoc.prems(2) by (rule rw_run.step)
qed (simp add: rw_run.start)

lemma rw_remount_writable:
  assumes "writable m" and "\<not> has flags MS_RDONLY"
  shows "writable (vfs_remount flags fl (ext2_remount cfg lib direct_access busy now m flags data))"
proof -
  obtain r err where r: "ext2_remount cfg lib direct_access busy now m flags data = (r, err)" by fastforce
  show ?thesis
  proof (cases err)
    case (Some e)
    with r have "sb_flags r = sb_flags m" unfolding ext2_remount_def
      by (auto simp: Let_def restore_opts_def split: if_splits prod.splits)
    with r Some assms(1) show ?thesis by (simp add: vfs_remount_def)
  next
    case None
    with r assms(2) show ?thesis by (simp add: vfs_remount_def flag_simps)
  qed
qed

text \<open>A remount that leaves the file system writable does not touch the superblock.\<close>

lemma remount_rw_keeps:
  assumes "writable m" and "writable (vfs_remount flags fl (ext2_remount cfg lib direct_access busy now m flags data))"
  defines "m' \<equiv> vfs_remount flags fl (ext2_remount cfg lib direct_access busy now m flags data)"
  shows "si_es m' = si_es m" "si_written m' = si_written m" "si_mount_state m' = si_mount_state m"
proof -
  obtain op k ok where p: "parse_options cfg lib data (si_opts m, g_key m) = ((op, k), ok)" by (metis surj_pair)
  define m1 where "m1 = refuse_xip busy m (ext2_xip_verify_sb cfg direct_access (set_posixacl (m\<lparr>si_opts := op, g_key := k\<rparr>)))"
  have m1: "writable m1" "si_es m1 = si_es m" "si_written m1 = si_written m" "si_mount_state m1 = si_mount_state m"
    using assms(1) by (simp_all add: m1_def refuse_xip_def ext2_xip_verify_sb_def set_posixacl_def Let_def flag_simps)
  obtain r err where r: "ext2_remount cfg lib direct_access busy now m flags data = (r, err)" by fastforce
  have "si_es r = si_es m \<and> si_written r = si_written m \<and> si_mount_state r = si_mount_state m"
  proof (cases err)
    case (Some e)
    with r show ?thesis unfolding ext2_remount_def p
      by (auto simp: Let_def restore_opts_def refuse_xip_def ext2_xip_verify_sb_def set_posixacl_def split: if_splits prod.splits)
  next
    case None
    with r assms(2) have "\<not> has flags MS_RDONLY" by (auto simp: vfs_remount_def flag_simps split: if_splits)
    with r None m1 have "r = m1" unfolding ext2_remount_def p
      by (auto simp: Let_def m1_def [symmetric] split: if_splits)
    with m1 show ?thesis by simp
  qed
  then show "si_es m' = si_es m" "si_written m' = si_written m" "si_mount_state m' = si_mount_state m"
    by (auto simp: m'_def r vfs_remount_def split: option.splits)
qed

lemma step_state:
  assumes "ev_step m ev = Some m'" and "writable m'" and "state_ok v err m" and "writable m"
  shows "state_ok v (err \<or> snd ev = Ev_Error) m'"
proof (cases "(m, ev)" rule: ev_step.cases)
  case (1 m now)
  then show ?thesis using assms state_sync by auto
next
  case (2 m now)
  then show ?thesis using assms(1,3) state_sync [of v err m now] state_idle by (auto simp: ext2_write_super_def)
next
  case (3 m now d)
  then show ?thesis using assms(1,3) by (auto simp: state_ok_def)
next
  case (4 m now)
  then show ?thesis using assms state_error by auto
next
  case (5 m now)
  then obtain st where "ext2_statfs m = Some (m', st)" using assms(1) by auto
  from statfs_keeps [OF this] show ?thesis using assms(3) 5 by (simp add: state_ok_def)
next
  case (6 m now cfg lib direct_access busy flags data fl)
  then have m': "m' = vfs_remount flags fl (ext2_remount cfg lib direct_access busy now m flags data)" using assms(1) by simp
  from remount_rw_keeps [OF _ assms(2) [unfolded m'], folded m'] show ?thesis using assms(3,4) 6 by (simp add: state_ok_def)
qed

lemma run_state:
  assumes "rw_run m evs m'" and "state_ok v err m"
  shows "state_ok v (err \<or> Ev_Error \<in> snd ` set evs) m' \<and> writable m'"
  using assms
proof (induction rule: rw_run.induct)
  case (step m evs m1 ev m2)
  then have "state_ok v (err \<or> Ev_Error \<in> snd ` set evs) m1" "writable m1" by simp_all
  from step_state [OF step.hyps(2,3) this] step.hyps(3) show ?case by (simp add: disj_ac eq_commute [of Ev_Error])
qed simp

lemma setup_state:
  fixes now :: "32 word"
  assumes "writable m" and "si_written m = si_es m"
  defines "m' \<equiv> fst (ext2_setup_super now m False)"
  shows "state_ok (has (si_mount_state m') EXT2_VALID_FS) (has (si_mount_state m') EXT2_ERROR_FS) m'" "writable m'"
  using assms by (auto simp: state_ok_def m'_def ext2_setup_super_def write_defs flag_simps)

lemma put_state:
  assumes "writable m"
  shows "d_state (si_written (ext2_put_super now m)) = si_mount_state m"
    "d_free_blocks_count (si_written (ext2_put_super now m)) = of_nat (ext2_count_free_blocks (info_of m))"
proof -
  have c: "ext2_count_free_blocks (info_of m') = ext2_count_free_blocks (info_of m)" if "same_layout m m'" for m'
  proof -
    have "ext2_get_group_desc (info_of m') = ext2_get_group_desc (info_of m)" "s_groups_count (info_of m') = s_groups_count (info_of m)"
      using that by (simp_all add: fun_eq_iff ext2_get_group_desc_def info_of_def desc_of_def same_layout_def)
    then show ?thesis by (simp only: ext2_count_free_blocks_def)
  qed
  have f: "sb_flags (ext2_write_super now m) = sb_flags m" "si_mount_state (ext2_write_super now m) = si_mount_state m"
    by (simp_all add: write_defs)
  define m1 where "m1 = (if sb_dirt m then ext2_write_super now m else m)"
  have p: "ext2_put_super now m = ext2_sync_super now (m1\<lparr>si_es := (si_es m1)\<lparr>d_state := si_mount_state m1\<rparr>\<rparr>)"
    using assms f by (simp add: ext2_put_super_def m1_def Let_def)
  show "d_state (si_written (ext2_put_super now m)) = si_mount_state m"
    unfolding p using f by (simp add: ext2_sync_super_def with_counts_def Let_def m1_def)
  have "same_layout m m1" unfolding m1_def by (simp add: same_layout_def [of m m])
  then have "same_layout m (m1\<lparr>si_es := (si_es m1)\<lparr>d_state := si_mount_state m1\<rparr>\<rparr>)" by (simp add: same_layout_def)
  then show "d_free_blocks_count (si_written (ext2_put_super now m)) = of_nat (ext2_count_free_blocks (info_of m))"
    unfolding p by (simp add: ext2_sync_super_def with_counts_def Let_def c)
qed

text \<open>C26: From the moment a file system is mounted for writing, the superblock on the disk says that it was not unmounted cleanly,
  as long as it stays writable, whatever changes, errors, syncs and remounts for writing happen to it; so a crash is noticed. Unmounting it
  then puts back the mark it had before, adds the mark for errors if one was reported, and writes the number of free blocks. Once the
  file system has been read-only in between this no longer holds: a remount from read-only to writing leaves the mark of a clean unmount on
  the disk (lemma \<open>remount_rw_stays_clean\<close>).\<close>

theorem unmount_marks_clean:
  assumes "blockdev_ok e" and "rb_ok (me_rb e)" and "ext2_fill_super cfg lib e sb data = Some (m0, None)" and "writable sb"
    and "rw_run m0 evs m"
  shows "\<not> has (d_state (si_written m)) EXT2_VALID_FS \<and>
    (let es = si_written (ext2_put_super now m)
     in has (d_state es) EXT2_VALID_FS = has (si_mount_state m0) EXT2_VALID_FS \<and>
        has (d_state es) EXT2_ERROR_FS = (has (si_mount_state m0) EXT2_ERROR_FS \<or> Ev_Error \<in> snd ` set evs) \<and>
        d_free_blocks_count es = of_nat (ext2_count_free_blocks (info_of m)))"
proof -
  from fill_super_ok [OF assms(1-3)] obtain m1 where
    "has (sb_flags m1) MS_RDONLY = has (sb_flags sb) MS_RDONLY" "si_written m1 = si_es m1"
    "m0 = fst (ext2_setup_super (me_now e) m1 (has (sb_flags m1) MS_RDONLY))" by metis
  then have "state_ok (has (si_mount_state m0) EXT2_VALID_FS) (has (si_mount_state m0) EXT2_ERROR_FS) m0"
    using setup_state(1) [of m1 "me_now e"] assms(4) by simp
  from run_state [OF assms(5) this] show ?thesis
    using put_state [of m now] by (simp add: state_ok_def Let_def)
qed

text \<open>A file system that was mounted read-only and is remounted for writing keeps the mark of a clean unmount on the disk: \<open>ext2_setup_super\<close>
  calls \<open>ext2_write_super\<close> while the flag \<open>MS_RDONLY\<close> is still set, so that the mark is not removed, and the superblock is then written
  with it.\<close>

lemma remount_rw_stays_clean:
  assumes "\<not> writable m" and "has (d_state (si_es m)) EXT2_VALID_FS" and "\<not> has flags MS_RDONLY"
    and "d_rev_level (si_es m) \<le> EXT2_MAX_SUPP_REV" and "ext2_remount cfg lib direct_access busy now m flags data = (m', None)"
  shows "writable m' \<and> has (d_state (si_written m')) EXT2_VALID_FS"
proof -
  obtain op k ok where p: "parse_options cfg lib data (si_opts m, g_key m) = ((op, k), ok)" by (metis surj_pair)
  define m1 where "m1 = refuse_xip busy m (ext2_xip_verify_sb cfg direct_access (set_posixacl (m\<lparr>si_opts := op, g_key := k\<rparr>)))"
  have m1: "\<not> writable m1" "si_es m1 = si_es m"
    using assms(1) by (simp_all add: m1_def refuse_xip_def ext2_xip_verify_sb_def set_posixacl_def Let_def flag_simps)
  have "m' = ext2_sync_super now ((fst (ext2_setup_super now (m1\<lparr>si_mount_state := d_state (si_es m1)\<rparr>) False))
      \<lparr>sb_flags := and (sb_flags m1) (not MS_RDONLY)\<rparr>)"
    using assms(3-5) m1 unfolding ext2_remount_def p
    by (auto simp: Let_def m1_def [symmetric] ext2_setup_super_def ext2_write_super_def not_less split: if_splits)
  then show ?thesis using m1 assms(2) by (simp add: write_defs ext2_setup_super_def flag_simps)
qed

section \<open>An example\<close>

definition gd_ex :: "nat \<Rightarrow> group_desc" where
  "gd_ex i = \<lparr>gd_block_bitmap = 3, gd_inode_bitmap = 4, gd_inode_table = 5,
     gd_counts = \<lparr>bg_free_inodes_count = 20, bg_free_blocks_count = 40, bg_used_dirs_count = 2\<rparr>\<rparr>"

definition sb_ex :: ext2_mount where
  "sb_ex = \<lparr>sb_flags = 0, sb_magic = 0, sb_blocksize = 0, sb_blocksize_bits = 0, sb_maxbytes = 0, sb_dirt = False, si_opts = no_options,
     si_sb_block = 0, si_es = es_ex, si_written = es_ex, si_inode_size = 0, si_first_ino = 0, si_frag_size = 0, si_frags_per_block = 0,
     si_blocks_per_group = 0, si_frags_per_group = 0, si_inodes_per_group = 0, si_inodes_per_block = 0, si_itb_per_group = 0,
     si_desc_per_block = 0, si_desc_per_block_bits = 0, si_addr_per_block_bits = 0, si_groups_count = 0, si_gdb_count = 0,
     si_mount_state = 0, si_overhead_last = 0, si_blocks_last = 0, si_group_desc = (\<lambda>_. None), si_next_generation = 0,
     si_rsv = \<lparr>wins = (\<lambda>_. no_window), rsv_root = Leaf\<rparr>, si_freeblocks_counter = 0, si_freeinodes_counter = 0, si_dirs_counter = 0,
     si_bbitmap = (\<lambda>_ i. i < 23), si_ibitmap = (\<lambda>_ i. i < 12),
     si_raw = (\<lambda>_ _. (zero_raw 128)\<lparr>r_mode := 0x41ED, r_links_count := 3, r_size := 1024, r_blocks := 2\<rparr>), g_key = 0\<rparr>"

definition env_ex :: mnt_env where
  "env_ex = \<lparr>me_mem_sbi = True, me_mem_lock = True, me_mem_desc = True, me_mem_debts = True, me_mem_counters = True,
     me_min_blocksize = 1024, me_set_blocksize = (\<lambda>b. b \<in> {512, 1024, 2048, 4096}),
     me_read_super = (\<lambda>bs b. if bs = 1024 \<and> b = 1 then Some (\<lambda>_. es_ex) else None),
     me_read_desc = (\<lambda>b. if b = 2 then Some gd_ex else None), me_direct_access = False, me_max_lfs = 2 ^ 63 - 1, me_generation = 9,
     me_rb = rb_ex, me_dev = dev_ex, me_rd = (\<lambda>_. True), me_iget = (\<lambda>_. Some (info_ex 0 0, True)), me_root = True, me_now = 700\<rparr>"

lemma env_ex_ok: "blockdev_ok env_ex" "rb_ok (me_rb env_ex)"
proof -
  have "ilog2 512 = 9" "ilog2 1024 = 10" "ilog2 2048 = 11" "ilog2 4096 = 12"
    using ilog2_power [of 9] ilog2_power [of 10] ilog2_power [of 11] ilog2_power [of 12] by simp_all
  then show "blockdev_ok env_ex" by (auto simp: blockdev_ok_def env_ex_def)
  show "rb_ok (me_rb env_ex)" using calm_ex(2) by (simp add: env_ex_def)
qed

definition evs_ex :: "(32 word \<times> mount_ev) list" where
  "evs_ex = [(701, Ev_Change (\<lambda>_. Some gd_ex)), (702, Ev_Sync), (703, Ev_Statfs), (704, Ev_Error), (705, Ev_Write),
     (705, Ev_Remount cfg_ex lib_ex False False 0 None 0)]"

lemma ilog2_ex [simp]: "ilog2 1024 = 10" "ilog2 256 = 8" "ilog2 32 = 5" "ilog2 128 = 7"
  using ilog2_power [of 10] ilog2_power [of 8] ilog2_power [of 5] ilog2_power [of 7] by simp_all

lemmas stage_defs = and_then_def guard_def env_ex_def set_blocksize_def logic_block_def Let_def has_def BIT_def
  no_options_def cfg_ex_def es_ex_def sb_ex_def

text \<open>The states after the steps of the mount.\<close>

definition m1_ex :: ext2_mount where
  "m1_ex = sb_ex\<lparr>si_opts := no_options, si_sb_block := 1, si_overhead_last := 0, si_blocks_last := 0, sb_blocksize := 1024, sb_blocksize_bits := 10\<rparr>"

definition opts0_ex :: ext2_mount_options where
  "opts0_ex = \<lparr>o_mount_opt = 0x84010, o_resuid = 0, o_resgid = 0\<rparr>"

lemma ex_read:
  "read_super env_ex (set_blocksize (me_min_blocksize env_ex)
     (sb_ex\<lparr>si_opts := no_options, si_sb_block := 1, si_overhead_last := 0, si_blocks_last := 0\<rparr>)) = Some (m1_ex, None)"
  by (simp add: read_super_def stage_defs m1_ex_def)

definition m2_ex :: ext2_mount where
  "m2_ex = m1_ex\<lparr>si_opts := opts0_ex, sb_magic := EXT2_SUPER_MAGIC\<rparr>"

lemma ex_options: "fill_options cfg_ex lib_ex env_ex None m1_ex = Some (m2_ex, None)"
  by (simp add: fill_options_def parse_options_def default_options_def def_when_def set_posixacl_def ext2_xip_verify_sb_def stage_defs m1_ex_def m2_ex_def opts0_ex_def set_opt_def)

lemma ex_blocksize: "fill_blocksize cfg_ex env_ex m2_ex = Some (m2_ex, None)"
  by (simp add: fill_blocksize_def stage_defs m2_ex_def m1_ex_def shifted_size_def ext2_use_xip_def)

definition m3_ex :: ext2_mount where
  "m3_ex = m2_ex\<lparr>sb_maxbytes := 17247252480, si_inode_size := 128, si_first_ino := 11, si_frag_size := 1024, si_frags_per_block := 1,
     si_blocks_per_group := 64, si_frags_per_group := 64, si_inodes_per_group := 32, si_inodes_per_block := 8\<rparr>"

lemma ex_sizes: "fill_sizes env_ex m2_ex = Some (m3_ex, None)"
  by (simp add: fill_sizes_def stage_defs m2_ex_def m1_ex_def m3_ex_def shifted_size_def is_power_of_2_def ext2_max_size_def drop_bit_eq_div push_bit_eq_mult)

definition m4_ex :: ext2_mount where
  "m4_ex = m3_ex\<lparr>si_itb_per_group := 4, si_desc_per_block := 32, si_mount_state := 1, si_addr_per_block_bits := 8, si_desc_per_block_bits := 5,
     si_groups_count := 1\<rparr>"

lemma ex_geometry: "fill_geometry m3_ex = Some (m4_ex, None)"
  by (simp add: fill_geometry_def stage_defs m2_ex_def m1_ex_def m3_ex_def m4_ex_def)

definition m5_ex :: ext2_mount where
  "m5_ex = m4_ex\<lparr>si_group_desc := [0 \<mapsto> gd_ex], si_gdb_count := 1\<rparr>"

lemma ex_groups: "fill_groups env_ex m4_ex = Some (m5_ex, None)"
  by (simp add: fill_groups_def stage_defs m1_ex_def m2_ex_def m3_ex_def m4_ex_def m5_ex_def descriptor_loc_def ext2_check_descriptors_def upt_rec
    bad_group_def last_block_of_def desc_of_def gd_ex_def ulong_def)

definition m6_ex :: ext2_mount where
  "m6_ex = m5_ex\<lparr>si_next_generation := 9, si_rsv := \<lparr>wins = \<lambda>_. no_window, rsv_root = Node Leaf 0 Leaf\<rparr>, si_freeblocks_counter := 40,
     si_freeinodes_counter := 20, si_dirs_counter := 2\<rparr>"

lemmas m_ex_defs = m1_ex_def m2_ex_def m3_ex_def m4_ex_def m5_ex_def m6_ex_def opts0_ex_def

lemma ex_counters: "fill_counters env_ex m5_ex = Some (m6_ex, None)"
  by (simp add: fill_counters_def stage_defs m_ex_defs rb_ex_def ext2_rsv_window_add_def
    ext2_count_free_blocks_def ext2_count_free_inodes_def ext2_count_dirs_def info_of_def ext2_get_group_desc_def desc_of_def gd_ex_def upt_rec)

lemma ex_root_inode:
  "\<exists>r. ext2_iget dev_ex (\<lambda>_. True) (\<lambda>_. Some (info_ex 0 0, True)) (inode_sb_of m6_ex) 2 = Inr r \<and> S_ISDIR (i_mode (vfs_inode r)) \<and>
     i_blocks (vfs_inode r) = 2 \<and> i_size (vfs_inode r) = 1024"
  by (simp add: stage_defs m_ex_defs ext2_iget_def ext2_get_inode_def inode_sb_of_def info_of_def ext2_get_group_desc_def desc_of_def gd_ex_def
      raw_at_def zero_raw_def read_ids_def read_fields_def set_ops_def info_ex_def S_ISDIR_def S_ISREG_def S_ISIM_def ext2_set_inode_flags_def)

definition es7_ex :: ext2_super_block where
  "es7_ex = es_ex\<lparr>d_mnt_count := 4, d_state := 0, d_mtime := 700, d_wtime := 700\<rparr>"

definition m7_ex :: ext2_mount where
  "m7_ex = m6_ex\<lparr>si_es := es7_ex, si_written := es7_ex\<rparr>"

lemmas count_defs = ext2_count_free_blocks_def ext2_count_free_inodes_def info_of_def ext2_get_group_desc_def desc_of_def gd_ex_def upt_rec

lemma ex_setup: "fst (ext2_setup_super 700 m6_ex False) = m7_ex"
  by (simp add: stage_defs m_ex_defs m7_ex_def es7_ex_def ext2_setup_super_def write_defs count_defs)

lemma ex_root: "fill_root env_ex m6_ex = Some (m7_ex, None)"
proof -
  have "\<not> has (sb_flags m6_ex) MS_RDONLY" by (simp add: stage_defs m_ex_defs)
  moreover from ex_root_inode obtain r where "ext2_iget dev_ex (\<lambda>_. True) (\<lambda>_. Some (info_ex 0 0, True)) (inode_sb_of m6_ex) 2 = Inr r"
    "S_ISDIR (i_mode (vfs_inode r))" "i_blocks (vfs_inode r) = 2" "i_size (vfs_inode r) = 1024" by blast
  ultimately show ?thesis using ex_setup by (simp add: fill_root_def env_ex_def)
qed

lemma ex_mount: "ext2_fill_super cfg_ex lib_ex env_ex sb_ex None = Some (m7_ex, None)"
proof -
  have "me_mem_sbi env_ex" "me_mem_lock env_ex" "me_min_blocksize env_ex \<noteq> 0" by (simp_all add: env_ex_def)
  then show ?thesis
    unfolding ext2_fill_super_def get_sb_block_def option.case prod.case Let_def and_then_def
    by (simp add: ex_read ex_options ex_blocksize ex_sizes ex_geometry ex_groups ex_counters ex_root del: One_nat_def)
qed

lemma ex_events: "\<exists>m'. rw_run m7_ex evs_ex m'"
proof -
  have "\<exists>m'. foldM ev_step m7_ex (butlast evs_ex) = Some m' \<and> writable m'"
    by (simp add: evs_ex_def stage_defs m_ex_defs m7_ex_def es7_ex_def write_defs count_defs ext2_error_def ext2_statfs_def fs_overhead_def
        ext2_bg_has_super_def ext2_bg_num_gdb_def ext2_group_sparse_def)
  then obtain m1 where m1: "foldM ev_step m7_ex (butlast evs_ex) = Some m1" "writable m1" by blast
  have "rw_run m7_ex (butlast evs_ex) m1" using m1 by (rule rw_run_foldM) (auto simp: evs_ex_def)
  moreover have "writable (vfs_remount 0 0 (ext2_remount cfg_ex lib_ex False False 705 m1 0 None))"
    using m1(2) by (rule rw_remount_writable) (simp add: has_def)
  ultimately have "rw_run m7_ex (butlast evs_ex @ [(705, Ev_Remount cfg_ex lib_ex False False 0 None 0)])
      (vfs_remount 0 0 (ext2_remount cfg_ex lib_ex False False 705 m1 0 None))"
    by (intro rw_run.step) simp_all
  then show ?thesis by (auto simp: evs_ex_def)
qed

lemma ex_fields: "si_groups_count m7_ex = 1" "si_inodes_per_block m7_ex = 8" "si_inodes_per_group m7_ex = 32" "si_first_ino m7_ex = 11"
  "si_mount_state m7_ex = 1"
  by (simp_all add: m_ex_defs m7_ex_def)

theorem mount_checks_witness:
  "ext2_fill_super cfg_ex lib_ex env_ex sb_ex None = Some (m7_ex, None) \<and> si_groups_count m7_ex = 1 \<and> tables_ok (inode_sb_of m7_ex)"
proof -
  have "8 dvd (32 :: nat)" by simp
  then show ?thesis using mount_checks [OF env_ex_ok ex_mount] ex_mount ex_fields by simp
qed

theorem unmount_marks_clean_witness:
  "\<exists>m'. rw_run m7_ex evs_ex m' \<and> \<not> has (d_state (si_written m')) EXT2_VALID_FS \<and>
     has (d_state (si_written (ext2_put_super 706 m'))) EXT2_VALID_FS \<and> has (d_state (si_written (ext2_put_super 706 m'))) EXT2_ERROR_FS"
proof -
  from ex_events obtain m' where m': "rw_run m7_ex evs_ex m'" by blast
  have "writable sb_ex" by (simp add: sb_ex_def has_def)
  from unmount_marks_clean [OF env_ex_ok ex_mount this m', of 706] m' show ?thesis
    by (intro exI [of _ m']) (simp add: Let_def ex_fields evs_ex_def has_def BIT_def)
qed

theorem refused_remount_restores_witness:
  "ext2_remount cfg_ex lib_ex False False 5 sb_ex 0 (Some ''key=7,bogus'') = (sb_ex\<lparr>g_key := 7\<rparr>, Some EINVAL)"
proof -
  have p: "parse_options cfg_ex lib_ex (Some ''key=7,bogus'') (si_opts sb_ex, g_key sb_ex) = ((no_options, 7), False)" by code_simp
  then obtain m' where "ext2_remount cfg_ex lib_ex False False 5 sb_ex 0 (Some ''key=7,bogus'') = (m', Some EINVAL)"
    by (simp add: ext2_remount_def)
  from refused_remount_restores [OF this] this show ?thesis by (simp add: p)
qed

text \<open>The number of blocks of an inode table is rounded down in \<open>s_itb_per_group\<close>: with 12 inodes to a group and 8 to a block, a table in
  the last block of the file system passes the check, while the inodes from the ninth on lie behind the end.\<close>

lemma partial_table_overruns:
  "\<exists>m. si_inodes_per_group m = 12 \<and> si_inodes_per_block m = 8 \<and> si_itb_per_group m = 12 div 8 \<and> last_block m = 63 \<and>
     map_option snd (ext2_check_descriptors 0 m) = Some True \<and> ext2_get_inode (\<lambda>_. True) (inode_sb_of m) 12 = Inr (64, 384)"
proof -
  let ?gd = "\<lambda>_. (gd_ex 0)\<lparr>gd_inode_table := 63\<rparr>"
  let ?m = "sb_ex\<lparr>sb_blocksize := 1024, sb_blocksize_bits := 10, si_inode_size := 128, si_first_ino := 11, si_blocks_per_group := 64,
    si_inodes_per_group := 12, si_inodes_per_block := 8, si_itb_per_group := 1, si_desc_per_block := 32, si_desc_per_block_bits := 5,
    si_groups_count := 1, si_group_desc := \<lambda>_. Some ?gd\<rparr>"
  have "si_inodes_per_group ?m = 12 \<and> si_inodes_per_block ?m = 8 \<and> si_itb_per_group ?m = 12 div 8 \<and> last_block ?m = 63 \<and>
     map_option snd (ext2_check_descriptors 0 ?m) = Some True \<and> ext2_get_inode (\<lambda>_. True) (inode_sb_of ?m) 12 = Inr (64, 384)"
    by code_simp
  then show ?thesis by blast
qed

end
