(* ===== verification/Spec2Isabelle.thy ===== *)
theory Spec2Isabelle
  imports Sched Msg Sync_Facts Crypto_Dev Ext2_File Ext2_Ioctl Ext2_Delete Ext2_Mount
begin

text \<open>
  \<^bold>\<open>The program.\<close> The repository holds four assignments of an operating systems course: a command shell
  (a0), the user-level thread library GNU Pth with a fair-share lottery scheduler added to it (a1), a
  character device that passes encrypted bytes between processes (a2), and a version of the ext2 file
  system with small files kept inside the inode and a directory \<open>/encrypt\<close> whose files are stored
  encrypted (a3). This development models the thread library's core, the device and the file system.

  \<^bold>\<open>Conventions.\<close> C functions are HOL functions with the names of the source, on explicit states. Pointers
  of Pth are natural numbers into heaps, maps from addresses to records; following a null or dangling
  pointer, a failed assertion and an endless loop are the result \<open>None\<close>. The kernel structures of the
  device and the file system are records, found by number in stores. Unsigned machine integers whose
  width matters are words or integers reduced modulo their width; signed ones are integers with the
  conversion \<open>int_of_long\<close>. Error numbers are the datatype \<open>errno\<close>, results a sum. What the code
  gets from outside (memory, reads of the disk, copies from user space, the clock, random numbers, what
  other threads do while one waits, kernel functions) is an argument; theorems that need it to behave
  say so in a named hypothesis, which the witness behind each theorem instantiates. Loops that may not
  end are \<open>partial_function (option)\<close>; the theorems about them show that they do end, or, in the case of a message port
  whose messages name it as their reply port, that every number of rounds succeeds and leaves the loop where it was. One loop has a bound of its
  own: the search of \<open>ext2_find_entry\<close> over the pages of a directory counts down from their number, and the lemma
  \<open>find_pages_bound\<close> shows that a larger bound gives the same result.
  Locks, quota, debugging output and the writing back of buffers are left out of the kernel code.

  \<^bold>\<open>Shared.\<close> \<open>Prelude\<close>: heaps, field access, collections of rewrite rules, loops over lists. \<open>Circular\<close>:
  circular doubly linked lists, which both the rings and the thread queues are.

  \<^bold>\<open>Pth (src/a1/pth-2.0.7).\<close> \<open>Ring\<close> (pth\_ring.c): the ring operations implement list operations; a locale
  for queues is interpreted on them. \<open>Pth_Time\<close> (pth\_time.c): time values. \<open>Tcb\<close> (pth\_tcb.c,
  pth\_clean.c): control blocks and cleanup handlers. \<open>Pqueue\<close> (pth\_pqueue.c): the queue with
  difference-encoded priorities; insertion is stable, deletion keeps the others' priorities. \<open>Lottery\<close>
  (the rest of pth\_pqueue.c): targets sum up to 100 but for the rounding of \<open>double\<close>, which is a parameter with the
  accuracy of binary64 as its hypothesis; handing out tickets gives every thread a block of its own, and every thread wins for exactly
  as many numbers as it holds tickets. \<open>Sched\<close> (pth\_sched.c): one turn of the scheduler picks the winner of the draw and puts
  the previous thread back into the queue its state belongs to, or frees it when it is dead and detached; the queues stay disjoint. \<open>Msg\<close>
  (pth\_msg.c): message ports. \<open>Sync\<close>, \<open>Sync_Facts\<close> (pth\_sync.c): mutexes exclude, nested locking is
  balanced (a locale for reentrant locks), read-write locks, condition variables, barriers.

  \<^bold>\<open>The device (src/a2).\<close> \<open>Crypto_Dev\<close> (fops.c, ioctl.h): all file operations. Reading what was written
  decrypts to the same bytes, as from a queue, while reads and writes do not wrap; identifiers of buffers are
  unique in every state that requests lead to; and what goes wrong at the limits.

  \<^bold>\<open>The file system (src/a3).\<close> \<open>Ext2_Dir\<close> (dir.c) models pages of variable-length records and all operations
  on them; \<open>Ext2_Dir_Facts\<close> and \<open>Ext2_Dir_Ops\<close> give each a meaning on the list of entries;
  \<open>Ext2_Directory\<close> states the contract with the callers as the locale \<open>directory\<close>, a map from names to
  inode numbers, and interprets it on dir.c. \<open>Ext2_Ialloc\<close>, \<open>Ext2_Ialloc_Facts\<close> (ialloc.c): the inode
  allocator with its three policies; descriptors stay in step with bitmaps. \<open>Ext2_Namei\<close>,
  \<open>Ext2_Namei_Facts\<close>, \<open>Ext2_Fs\<close> (namei.c): link, unlink, create, mknod, symlink, mkdir, rmdir and rename
  over a store of inodes; they refine operations on a map from directories and names to inodes, and
  over every run of successful and refused operations that meets no failure of memory or disk and renames no directory the link counts
  are the numbers of links. Also what renaming into and out of \<open>/encrypt\<close> does to the pages, and how often each path of rename frees
  its buffers. \<open>Ext2_File\<close> (file.c): immediate files and
  encryption on read and write. \<open>Ext2_Balloc\<close> (balloc.c) models block allocation with reservation
  windows; \<open>Ext2_Balloc_Facts\<close>, \<open>Ext2_Rsv\<close> and \<open>Ext2_Blocks\<close> show that the searches end, windows stay
  disjoint, and allocating and freeing change the set of blocks in use exactly as they should.
  \<open>Ext2_Ioctl\<close> (ioctl.c): requests on open files. \<open>Ext2_Bmap\<close> (inode.c) models the block map: paths
  through the indirect blocks, allocating and splicing in a branch, mapping, and truncation.
  \<open>Ext2_Bmap_Facts\<close> shows that paths and block numbers correspond and what the walk down a path finds;
  \<open>Ext2_Grow\<close> shows that \<open>ext2_get_blocks\<close> maps exactly the blocks it says, to blocks that were free, and
  leaves every other mapping alone; \<open>Ext2_Prune\<close> and \<open>Ext2_Truncate\<close> show that truncation cuts the map at the new size and
  frees exactly the blocks no longer reached. \<open>Ext2_Inode\<close> (inode.c) models inodes on the disk: their places in the inode tables,
  reading and writing them back; \<open>Ext2_Delete\<close> composes writing, truncating and freeing into the deletion of an inode.
  \<open>Ext2_Options\<close> (super.c) models the mount options; what is shown for a mounted file system parses to the same options.
  \<open>Ext2_Super\<close> (super.c) models mounting, remounting, unmounting and the writing of the superblock; \<open>Ext2_Mount\<close> shows that a
  successful mount establishes what the allocator of blocks and the theory of inodes assume, that the largest file fits the block map,
  that a refused remount changes nothing but the key, and that the disk says that the file system was not unmounted for as
  long as it stays writable, remounts for writing included; a remount from read-only to writing is where this fails.

  \<^bold>\<open>Not modelled.\<close> In Pth: the event manager, the wrappers of system calls, context switches, the
  life cycle of threads and the POSIX veneer, all of which live by system calls or assembler. The shell
  a0. In the file system: the address space operations of inode.c, which are one call of the kernel each; the
  cache of inodes, quota files and the registration of the module in super.c; extended attributes and access control lists, execute in place. Tests and generated files.
\<close>

end
